(* ===== verification/Prelude.thy ===== *)
theory Prelude
  imports Main "HOL-Library.Word"
begin

text \<open>
  Shared ground of the MPUDP development: the byte and machine-word types of the Go sources,
  the two pieces of \<^verbatim>\<open>encoding/binary\<close> the wire formats use (big-endian writes and reads),
  slices, the result type of fallible operations, the generic interfaces (a wire codec, a
  transition system with an invariant), and the lemmas on lists, maps and words that the
  component theories share.
\<close>

unbundle bit_operations_syntax

named_theorems go_slice \<open>slices of concatenations\<close>
named_theorems be_simps \<open>big-endian reads of big-endian writes\<close>

subsection \<open>Machine types\<close>

type_synonym byte = "8 word"
type_synonym bytes = "byte list"
type_synonym u8 = "8 word"
type_synonym u16 = "16 word"
type_synonym u32 = "32 word"
type_synonym u64 = "64 word"

text \<open>A Go function returning \<open>(T, error)\<close> returns a sum: \<open>Inl\<close> carries the error.\<close>

type_synonym ('e, 'a) result = "'e + 'a"

text \<open>\<open>xs[i:j]\<close> for \<open>i \<le> j \<le> len(xs)\<close>, the only way the sources slice.\<close>

definition slice :: "nat \<Rightarrow> nat \<Rightarrow> 'a list \<Rightarrow> 'a list" where
  "slice i j xs = take (j - i) (drop i xs)"

lemma length_slice [simp]: "length (slice i j xs) = min (j - i) (length xs - i)"
  by (simp add: slice_def)

text \<open>\<open>copy(dst, src)\<close>: the first \<open>min(len(dst), len(src))\<close> elements are overwritten.\<close>

definition go_copy :: "'a list \<Rightarrow> 'a list \<Rightarrow> 'a list" where
  "go_copy dst src = take (length dst) src @ drop (length src) dst"

lemma length_go_copy [simp]: "length (go_copy dst src) = length dst"
  by (simp add: go_copy_def)

lemma concat_slices: "concat (map (\<lambda>i. slice (i * s) (i * s + s) xs) [0..<k]) = take (k * s) xs"
proof (induction k)
  case (Suc k)
  have "take (Suc k * s) xs = take (k * s) xs @ take s (drop (k * s) xs)"
    by (metis add.commute mult_Suc take_add)
  with Suc show ?case by (simp add: slice_def)
qed simp

text \<open>Generic Go integer bound: \<open>int\<close> is 64 bits wide on every supported platform.\<close>

definition maxInt :: int where
  "maxInt = 2 ^ 63 - 1"

lemma le_div_pos: "0 < x \<Longrightarrow> c \<le> m div x \<longleftrightarrow> x * c \<le> (m :: int)"
proof -
  assume x: "0 < x"
  have m: "x * (m div x) \<le> m" "m < x * (m div x + 1)"
    using mult_div_mod_eq [of x m] pos_mod_bound [OF x, of m] pos_mod_sign [OF x, of m] distrib_left [of x "m div x" 1]
    by linarith+
  show ?thesis
  proof
    assume "c \<le> m div x"
    then have "x * c \<le> x * (m div x)" using x by simp
    then show "x * c \<le> m" using m by linarith
  next
    assume "x * c \<le> m"
    then have "x * c < x * (m div x + 1)" using m by linarith
    then show "c \<le> m div x" using x by simp
  qed
qed

subsection \<open>Big-endian encoding (\<^verbatim>\<open>encoding/binary\<close>)\<close>

text \<open>\<open>be_put n w\<close> is what \<open>binary.BigEndian.PutUint\<close> stores for an \<open>n\<close>-byte word.\<close>

primrec be_put :: "nat \<Rightarrow> 'a::len word \<Rightarrow> bytes" where
  "be_put 0 w = []"
| "be_put (Suc n) w = be_put n (drop_bit 8 w) @ [ucast w]"

definition be_nat :: "bytes \<Rightarrow> nat" where
  "be_nat bs = foldl (\<lambda>a b. a * 256 + unat b) 0 bs"

text \<open>\<open>be_get bs\<close> is \<open>binary.BigEndian.Uint\<close> of a slice of the word's length.\<close>

definition be_get :: "bytes \<Rightarrow> 'a::len word" where
  "be_get bs = word_of_nat (be_nat bs)"

lemma length_be_put [simp]: "length (be_put n w) = n"
  by (induction n arbitrary: w) auto

lemma be_nat_Nil [simp]: "be_nat [] = 0"
  by (simp add: be_nat_def)

lemma be_nat_snoc [simp]: "be_nat (xs @ [b]) = be_nat xs * 256 + unat b"
  by (simp add: be_nat_def)

lemma unat_ucast_byte: "unat (ucast w :: byte) = unat w mod 256"
  by (simp add: unsigned_ucast_eq take_bit_eq_mod)

lemma be_nat_put: "be_nat (be_put n w) = unat w mod 256 ^ n"
proof (induction n arbitrary: w)
  case (Suc n)
  have "unat (drop_bit 8 w) = unat w div 256"
    by (subst unat_drop_bit_eq) (simp add: drop_bit_eq_div)
  moreover have "unat (ucast w :: byte) = unat w mod 256"
    by (rule unat_ucast_byte)
  ultimately have "be_nat (be_put (Suc n) w) = (unat w div 256 mod 256 ^ n) * 256 + unat w mod 256"
    by (simp only: be_put.simps be_nat_snoc Suc.IH)
  then show ?case
    by (simp add: mod_mult2_eq mult.commute)
qed simp

lemma be_get_put:
  assumes "LENGTH('a::len) \<le> 8 * n"
  shows "be_get (be_put n (w :: 'a word)) = w"
proof -
  have "unat w < 2 ^ LENGTH('a)" by (rule unsigned_less)
  also have "\<dots> \<le> 2 ^ (8 * n)"
    using assms by (intro power_increasing) auto
  also have "(2::nat) ^ (8 * n) = 256 ^ n"
    by (simp add: power_mult)
  finally have "unat w mod 256 ^ n = unat w" by simp
  then show ?thesis
    by (simp add: be_get_def be_nat_put)
qed

lemma be_nat_less: "be_nat bs < 256 ^ length bs"
proof (induction bs rule: rev_induct)
  case (snoc b bs)
  have "unat b < 256" using unsigned_less [of b] by simp
  with snoc show ?case by simp
qed simp

lemma unat_of_nat_eq: "n < 2 ^ LENGTH('a::len) \<Longrightarrow> unat (word_of_nat n :: 'a word) = n"
  by (simp add: unat_of_nat)

lemma unat_less_u64: "unat (w :: u64) < 18446744073709551616"
  using unsigned_less [of w, where ?'a = nat] by simp

lemma unat_less_u32: "unat (w :: u32) < 4294967296"
  using unsigned_less [of w, where ?'a = nat] by simp

lemma unat_widen [simp]: "unat (ucast (w :: u32) :: u64) = unat w"
  using unat_less_u32 [of w] by (simp add: unsigned_ucast_eq take_bit_eq_mod)

lemma unat_Suc_below: "v < w \<Longrightarrow> unat (v + 1) = Suc (unat (v :: u64))"
  using unat_less_u64 [of w] by (simp add: word_less_nat_alt unat_word_ariths)

lemma be_put_nat:
  "8 * length bs \<le> LENGTH('a::len) \<Longrightarrow> be_put (length bs) (word_of_nat (be_nat bs) :: 'a word) = bs"
proof (induction bs rule: rev_induct)
  case (snoc b bs)
  let ?v = "be_nat bs * 256 + unat b"
  have b: "unat b < 256" using unsigned_less [of b] by simp
  have lt: "?v < 256 ^ length (bs @ [b])"
    using be_nat_less [of "bs @ [b]"] by simp
  also have "(256::nat) ^ length (bs @ [b]) = 2 ^ (8 * length (bs @ [b]))"
    by (simp only: power_mult) simp
  also have "\<dots> \<le> 2 ^ LENGTH('a)"
    using snoc.prems by (intro power_increasing) auto
  finally have fits: "?v < 2 ^ LENGTH('a)" .
  then have un: "unat (word_of_nat ?v :: 'a word) = ?v"
    by (simp only: unat_of_nat_eq)
  have small: "be_nat bs < 2 ^ LENGTH('a)"
    using fits by linarith
  have "drop_bit 8 (word_of_nat ?v :: 'a word) = word_of_nat (be_nat bs)"
  proof (rule word_unat_eq_iff [THEN iffD2])
    have "unat (drop_bit 8 (word_of_nat ?v :: 'a word)) = ?v div 256"
      by (subst unat_drop_bit_eq) (simp only: un drop_bit_eq_div, simp)
    also have "\<dots> = be_nat bs" using b by simp
    finally show "unat (drop_bit 8 (word_of_nat ?v :: 'a word)) = unat (word_of_nat (be_nat bs) :: 'a word)"
      using small by (simp only: unat_of_nat_eq)
  qed
  moreover have "ucast (word_of_nat ?v :: 'a word) = b"
  proof (rule word_unat_eq_iff [THEN iffD2])
    show "unat (ucast (word_of_nat ?v :: 'a word) :: byte) = unat b"
      using b by (simp only: unat_ucast_byte un) simp
  qed
  ultimately show ?case
    using snoc by simp
qed simp

lemma be_put_get:
  "length bs = n \<Longrightarrow> 8 * n \<le> LENGTH('a::len) \<Longrightarrow> be_put n (be_get bs :: 'a word) = bs"
  by (auto simp: be_get_def be_put_nat)

lemmas be_get_put_words [be_simps] =
  be_get_put [where 'a = 16 and n = 2, simplified] be_get_put [where 'a = 32 and n = 4, simplified]
  be_get_put [where 'a = 64 and n = 8, simplified] be_get_put [where 'a = 128 and n = 16, simplified]
  be_get_put [where 'a = 256 and n = 32, simplified]

subsection \<open>Interfaces\<close>

text \<open>
  A wire codec: every admissible value decodes back from its encoding, and whatever the
  decoder accepts is the encoding of an admissible value. Injectivity, uniqueness of the
  accepted bytes and the characterisation of the accepted language follow once for all formats.
\<close>

locale codec =
  fixes enc :: "'m \<Rightarrow> bytes"
    and dec :: "bytes \<Rightarrow> ('e, 'm) result"
    and admissible :: "'m \<Rightarrow> bool"
  assumes dec_enc: "admissible m \<Longrightarrow> dec (enc m) = Inr m"
    and enc_dec: "dec b = Inr m \<Longrightarrow> admissible m \<and> enc m = b"
begin

lemma enc_inject: "admissible m \<Longrightarrow> admissible m' \<Longrightarrow> enc m = enc m' \<longleftrightarrow> m = m'"
  using dec_enc by (metis sum.inject(2))

lemma dec_canonical: "dec b = Inr m \<Longrightarrow> dec b' = Inr m \<Longrightarrow> b = b'"
  using enc_dec by metis

lemma dec_accepts: "(\<exists>m. dec b = Inr m) \<longleftrightarrow> b \<in> enc ` Collect admissible"
  using dec_enc enc_dec by (auto intro: rev_image_eqI)

end

text \<open>
  A component as a transition system: start states, a step relation and an invariant that the
  starts satisfy and the steps keep. The lemma of the locale lifts the invariant to every
  reachable state.
\<close>

inductive reachable :: "('s \<Rightarrow> bool) \<Rightarrow> ('s \<Rightarrow> 's \<Rightarrow> bool) \<Rightarrow> 's \<Rightarrow> bool"
  for start step where
  reach_start: "start s \<Longrightarrow> reachable start step s"
| reach_step: "reachable start step s \<Longrightarrow> step s t \<Longrightarrow> reachable start step t"

locale transition_system =
  fixes start :: "'s \<Rightarrow> bool"
    and step :: "'s \<Rightarrow> 's \<Rightarrow> bool"
    and inv :: "'s \<Rightarrow> bool"
  assumes inv_start: "start s \<Longrightarrow> inv s"
    and inv_step: "inv s \<Longrightarrow> step s t \<Longrightarrow> inv t"
begin

lemma reachable_inv: "reachable start step s \<Longrightarrow> inv s"
  by (induction rule: reachable.induct) (auto intro: inv_start inv_step)

end

end
