(* ===== verification/Sha256.thy ===== *)
theory Sha256
  imports Prelude
begin

text \<open>
  \<^verbatim>\<open>crypto/sha256\<close> and \<^verbatim>\<open>crypto/hmac\<close> of the Go standard library, as FIPS 180-4 and
  RFC 2104 define them: the hash functions that authenticate every MPUDP packet. The
  development relies on their output length only; no cryptographic assumption is made.
\<close>

text \<open>
  The standard takes its constants from prime numbers: the first 32 bits of the fractional parts
  of the cube roots of the first 64 primes, and of the square roots of the first eight.
\<close>

primrec root_from :: "nat \<Rightarrow> nat \<Rightarrow> nat \<Rightarrow> nat \<Rightarrow> nat" where
  "root_from e n 0 r = r"
| "root_from e n (Suc i) r = root_from e n i (if (r + 2 ^ i) ^ e \<le> n then r + 2 ^ i else r)"

definition prime_roots :: "nat \<Rightarrow> nat list \<Rightarrow> u32 list" where
  "prime_roots e ps = map (\<lambda>p. word_of_nat (root_from e (p * 2 ^ (32 * e)) 37 0)) ps"

definition sha_primes :: "nat list" where
  "sha_primes = filter (\<lambda>n. 1 < n \<and> (\<forall>d \<in> set [2..<n]. n mod d \<noteq> 0)) [0..<312]"

definition sha_k :: "u32 list" where
  "sha_k = prime_roots 3 sha_primes"

type_synonym sha_state = "u32 \<times> u32 \<times> u32 \<times> u32 \<times> u32 \<times> u32 \<times> u32 \<times> u32"

definition sha_init :: sha_state where
  "sha_init =
     (case prime_roots 2 (take 8 sha_primes) of
        [a, b, c, d, e, f, g, h] \<Rightarrow> (a, b, c, d, e, f, g, h)
      | _ \<Rightarrow> (0, 0, 0, 0, 0, 0, 0, 0))"

definition rotr :: "nat \<Rightarrow> u32 \<Rightarrow> u32" where
  "rotr n w = drop_bit n w OR push_bit (32 - n) w"

definition sha_next :: "u32 \<Rightarrow> u32 \<Rightarrow> u32 \<Rightarrow> u32 \<Rightarrow> u32" where
  "sha_next w16 w15 w7 w2 =
     (rotr 17 w2 XOR rotr 19 w2 XOR drop_bit 10 w2) + w7
       + (rotr 7 w15 XOR rotr 18 w15 XOR drop_bit 3 w15) + w16"

text \<open>The message schedule, newest word first.\<close>

primrec sha_schedule :: "nat \<Rightarrow> u32 list \<Rightarrow> u32 list" where
  "sha_schedule 0 ws = ws"
| "sha_schedule (Suc n) ws =
     sha_schedule n (sha_next (ws ! 15) (ws ! 14) (ws ! 6) (ws ! 1) # ws)"

fun sha_round :: "sha_state \<Rightarrow> u32 \<times> u32 \<Rightarrow> sha_state" where
  "sha_round (a, b, c, d, e, f, g, h) (k, w) =
     (let t1 = h + (rotr 6 e XOR rotr 11 e XOR rotr 25 e) + ((e AND f) XOR (NOT e AND g)) + k + w;
          t2 = (rotr 2 a XOR rotr 13 a XOR rotr 22 a) + ((a AND b) XOR (a AND c) XOR (b AND c))
      in (t1 + t2, a, b, c, d + t1, e, f, g))"

fun words_of :: "bytes \<Rightarrow> u32 list" where
  "words_of (a # b # c # d # bs) = be_get [a, b, c, d] # words_of bs"
| "words_of bs = []"

definition sha_compress :: "sha_state \<Rightarrow> bytes \<Rightarrow> sha_state" where
  "sha_compress s block =
     (case s of (a, b, c, d, e, f, g, h) \<Rightarrow>
      case foldl sha_round s (zip sha_k (rev (sha_schedule 48 (rev (words_of block))))) of
        (a', b', c', d', e', f', g', h') \<Rightarrow>
          (a + a', b + b', c + c', d + d', e + e', f + f', g + g', h + h'))"

definition sha_pad :: "bytes \<Rightarrow> bytes" where
  "sha_pad m = m @ [0x80] @ replicate ((119 - length m mod 64) mod 64) 0
                 @ be_put 8 (word_of_nat (8 * length m) :: u64)"

function sha_blocks :: "sha_state \<Rightarrow> bytes \<Rightarrow> sha_state" where
  "sha_blocks s bs = (if bs = [] then s else sha_blocks (sha_compress s (take 64 bs)) (drop 64 bs))"
  by pat_completeness auto
termination
  by (relation "measure (length \<circ> snd)") auto

declare sha_blocks.simps [simp del]

definition sha256 :: "bytes \<Rightarrow> bytes" where
  "sha256 m =
     (case sha_blocks sha_init (sha_pad m) of (a, b, c, d, e, f, g, h) \<Rightarrow>
        concat (map (be_put 4) [a, b, c, d, e, f, g, h]))"

definition hmac_sha256 :: "bytes \<Rightarrow> bytes \<Rightarrow> bytes" where
  "hmac_sha256 key m =
     (let k0 = (if length key > 64 then sha256 key else key);
          k1 = k0 @ replicate (64 - length k0) 0
      in sha256 (map (\<lambda>b. b XOR 0x5c) k1 @ sha256 (map (\<lambda>b. b XOR 0x36) k1 @ m)))"

lemma length_sha256 [simp]: "length (sha256 m) = 32"
  by (auto simp: sha256_def split: prod.splits)

lemma length_hmac_sha256 [simp]: "length (hmac_sha256 k m) = 32"
  by (simp add: hmac_sha256_def Let_def)

end
