(* ===== verification/Wire.thy ===== *)
theory Wire
  imports Sha256
begin

text \<open>
  The authenticated v0.1 wire format (\<^verbatim>\<open>src/internal/wire\<close>): message records, their semantic
  validation, the exact encoded length, the encoder and the decoder with their HMAC-SHA-256
  tag, and the pooled \<^verbatim>\<open>Authenticator\<close>. The \<^verbatim>\<open>[16]byte\<close> array \<^verbatim>\<open>SessionID\<close> is a
  128-bit word read big-endian, so the reserved all-zero value is \<open>0\<close>.
\<close>

subsection \<open>Constants and types (\<^verbatim>\<open>constants.go\<close>, \<^verbatim>\<open>errors.go\<close>, \<^verbatim>\<open>types.go\<close>)\<close>

type_synonym SessionID = "128 word"
type_synonym PacketType = u8

abbreviation (input) TypeHello :: PacketType where "TypeHello \<equiv> 1"
abbreviation (input) TypeHelloAck :: PacketType where "TypeHelloAck \<equiv> 2"
abbreviation (input) TypeDataShard :: PacketType where "TypeDataShard \<equiv> 3"
abbreviation (input) TypePing :: PacketType where "TypePing \<equiv> 4"
abbreviation (input) TypePong :: PacketType where "TypePong \<equiv> 5"
abbreviation (input) TypeClose :: PacketType where "TypeClose \<equiv> 6"

definition Magic :: bytes where "Magic = [0x4d, 0x50, 0x55, 0x44]"
abbreviation (input) Version :: u8 where "Version \<equiv> 1"
abbreviation (input) PrefixSize :: nat where "PrefixSize \<equiv> 24"
abbreviation (input) AuthenticationTagSize :: nat where "AuthenticationTagSize \<equiv> 32"
abbreviation (input) MinimumPacketSize :: nat where "MinimumPacketSize \<equiv> PrefixSize + AuthenticationTagSize"
abbreviation (input) helloBodySize :: nat where "helloBodySize \<equiv> 4"
abbreviation (input) probeBodySize :: nat where "probeBodySize \<equiv> 16"
abbreviation (input) DataShardMetadataSize :: nat where "DataShardMetadataSize \<equiv> 15"
abbreviation (input) DataShardOverhead :: nat where
  "DataShardOverhead \<equiv> PrefixSize + DataShardMetadataSize + AuthenticationTagSize"
abbreviation (input) MinUDPPayload :: nat where "MinUDPPayload \<equiv> 72"
abbreviation (input) MaxUDPPayload :: nat where "MaxUDPPayload \<equiv> 65507"

datatype wire_error =
    ErrMalformed | ErrUnsupportedVersion | ErrUnknownPacketType | ErrAuthentication
  | ErrInvalidSessionID | ErrInvalidFEC | ErrInvalidCapability | ErrPacketTooLarge
  | ErrInvalidKey | ErrInvalidHandler

record Header =
  hdr_Type :: PacketType
  hdr_SessionID :: SessionID

record Handshake =
  hs_DataShards :: u8
  hs_ParityShards :: u8
  hs_MaxUDPPayload :: u16

record DataShard =
  ds_PacketID :: u64
  ds_DataShards :: u8
  ds_ParityShards :: u8
  ds_ShardIndex :: u8
  ds_OriginalLength :: u32
  ds_Payload :: bytes

record Probe =
  pr_Token :: u64
  pr_Timestamp :: u64

record Message =
  msg_Header :: Header
  msg_Handshake :: Handshake
  msg_DataShard :: DataShard
  msg_Probe :: Probe

text \<open>The Go zero values.\<close>

definition zeroHandshake :: Handshake where
  "zeroHandshake = \<lparr>hs_DataShards = 0, hs_ParityShards = 0, hs_MaxUDPPayload = 0\<rparr>"

definition emptyDataShard :: DataShard where
  "emptyDataShard = \<lparr>ds_PacketID = 0, ds_DataShards = 0, ds_ParityShards = 0, ds_ShardIndex = 0,
     ds_OriginalLength = 0, ds_Payload = []\<rparr>"

definition zeroProbe :: Probe where
  "zeroProbe = \<lparr>pr_Token = 0, pr_Timestamp = 0\<rparr>"

subsection \<open>Semantic validation (\<^verbatim>\<open>codec.go\<close>)\<close>

definition knownPacketType :: "PacketType \<Rightarrow> bool" where
  "knownPacketType t \<longleftrightarrow> t \<ge> TypeHello \<and> t \<le> TypeClose"

definition zeroDataShard :: "DataShard \<Rightarrow> bool" where
  "zeroDataShard d \<longleftrightarrow> ds_PacketID d = 0 \<and> ds_DataShards d = 0 \<and> ds_ParityShards d = 0 \<and>
     ds_ShardIndex d = 0 \<and> ds_OriginalLength d = 0 \<and> length (ds_Payload d) = 0"

definition validateFEC :: "u8 \<Rightarrow> u8 \<Rightarrow> wire_error option" where
  "validateFEC k p =
     (if k = 0 \<or> p = 0 \<or> unat k + unat p > 256 then Some ErrInvalidFEC else None)"

definition validateBudget :: "int \<Rightarrow> wire_error option" where
  "validateBudget b =
     (if b < int MinUDPPayload \<or> b > int MaxUDPPayload then Some ErrInvalidCapability else None)"

definition validateMessage :: "Message \<Rightarrow> wire_error option" where
  "validateMessage m =
     (let t = hdr_Type (msg_Header m); h = msg_Handshake m; d = msg_DataShard m; p = msg_Probe m in
      if hdr_SessionID (msg_Header m) = 0 then Some ErrInvalidSessionID
      else if \<not> knownPacketType t then Some ErrUnknownPacketType
      else if t = TypeHello \<or> t = TypeHelloAck then
        (if \<not> zeroDataShard d \<or> p \<noteq> zeroProbe then Some ErrMalformed
         else case validateFEC (hs_DataShards h) (hs_ParityShards h) of
           Some e \<Rightarrow> Some e
         | None \<Rightarrow> validateBudget (int (unat (hs_MaxUDPPayload h))))
      else if t = TypeDataShard then
        (if h \<noteq> zeroHandshake \<or> p \<noteq> zeroProbe then Some ErrMalformed
         else case validateFEC (ds_DataShards d) (ds_ParityShards d) of
           Some e \<Rightarrow> Some e
         | None \<Rightarrow>
           if unat (ds_ShardIndex d) \<ge> unat (ds_DataShards d) + unat (ds_ParityShards d)
           then Some ErrInvalidFEC
           else if ds_OriginalLength d = 0 then
             (if length (ds_Payload d) \<noteq> 1 \<or> ds_Payload d ! 0 \<noteq> 0 then Some ErrMalformed else None)
           else if length (ds_Payload d)
                   \<noteq> 1 + (unat (ds_OriginalLength d) - 1) div unat (ds_DataShards d)
             then Some ErrMalformed else None)
      else if t = TypePing \<or> t = TypePong then
        (if h \<noteq> zeroHandshake \<or> \<not> zeroDataShard d then Some ErrMalformed
         else if pr_Token p = 0 then Some ErrMalformed else None)
      else
        (if h \<noteq> zeroHandshake \<or> \<not> zeroDataShard d \<or> p \<noteq> zeroProbe then Some ErrMalformed
         else None))"

definition EncodedLen :: "Message \<Rightarrow> (wire_error, nat) result" where
  "EncodedLen m =
     (case validateMessage m of
        Some e \<Rightarrow> Inl e
      | None \<Rightarrow>
        let t = hdr_Type (msg_Header m);
            bodySize =
              (if t = TypeHello \<or> t = TypeHelloAck then helloBodySize
               else if t = TypeDataShard then
                 DataShardMetadataSize + length (ds_Payload (msg_DataShard m))
               else if t = TypePing \<or> t = TypePong then probeBodySize
               else 0);
            packetSize = PrefixSize + bodySize + AuthenticationTagSize
        in if bodySize > 65535 \<or> packetSize > MaxUDPPayload then Inl ErrPacketTooLarge
           else Inr packetSize)"

subsection \<open>The HMAC pool (\<^verbatim>\<open>authenticator.go\<close>)\<close>

text \<open>
  The pool retains at most four reset hash states; \<open>auth_states\<close> counts them. A hash state
  carries no data across uses (\<^verbatim>\<open>Reset\<close> on acquisition), so the count is its whole content.
\<close>

abbreviation (input) authenticationCacheCapacity :: nat where "authenticationCacheCapacity \<equiv> 4"

record Authenticator =
  auth_key :: bytes
  auth_states :: nat

definition NewAuthenticator :: "bytes \<Rightarrow> (wire_error, Authenticator) result" where
  "NewAuthenticator psk =
     (if length psk = 0 then Inl ErrInvalidKey else Inr \<lparr>auth_key = psk, auth_states = 0\<rparr>)"

definition acquire :: "Authenticator \<Rightarrow> Authenticator" where
  "acquire a = (if auth_states a > 0 then a\<lparr>auth_states := auth_states a - 1\<rparr> else a)"

definition release :: "Authenticator \<Rightarrow> Authenticator" where
  "release a =
     (if auth_states a < authenticationCacheCapacity then a\<lparr>auth_states := auth_states a + 1\<rparr> else a)"

text \<open>\<open>sign\<close> returns the packet's tag, \<open>verify\<close> compares it.\<close>

definition sign :: "Authenticator \<Rightarrow> bytes \<Rightarrow> bytes \<times> Authenticator" where
  "sign a pkt = (let s = acquire a in (hmac_sha256 (auth_key a) pkt, release s))"

definition verify :: "Authenticator \<Rightarrow> bytes \<Rightarrow> nat \<Rightarrow> bool \<times> Authenticator" where
  "verify a packet tagOffset =
     (let s = acquire a in
      (hmac_sha256 (auth_key a) (take tagOffset packet) = drop tagOffset packet, release s))"

subsection \<open>Encoding (\<^verbatim>\<open>codec.go\<close>)\<close>

definition encodeBody :: "Message \<Rightarrow> bytes" where
  "encodeBody m =
     (let t = hdr_Type (msg_Header m); h = msg_Handshake m; d = msg_DataShard m; p = msg_Probe m in
      if t = TypeHello \<or> t = TypeHelloAck then
        [hs_DataShards h, hs_ParityShards h] @ be_put 2 (hs_MaxUDPPayload h)
      else if t = TypeDataShard then
        be_put 8 (ds_PacketID d) @ [ds_DataShards d, ds_ParityShards d, ds_ShardIndex d]
          @ be_put 4 (ds_OriginalLength d) @ ds_Payload d
      else if t = TypePing \<or> t = TypePong then
        be_put 8 (pr_Token p) @ be_put 8 (pr_Timestamp p)
      else [])"

definition encodePrefix :: "Message \<Rightarrow> nat \<Rightarrow> bytes" where
  "encodePrefix m bodySize =
     Magic @ [Version, hdr_Type (msg_Header m)] @ be_put 2 (word_of_nat bodySize :: u16)
       @ be_put 16 (hdr_SessionID (msg_Header m))"

definition appendAuthenticated ::
  "bytes \<Rightarrow> Message \<Rightarrow> bytes \<Rightarrow> int \<Rightarrow> Authenticator option
     \<Rightarrow> bytes \<times> wire_error option \<times> Authenticator option" where
  "appendAuthenticated dst m psk budget authenticator =
     (if length psk = 0 then (dst, Some ErrInvalidKey, authenticator)
      else case validateBudget budget of
        Some e \<Rightarrow> (dst, Some e, authenticator)
      | None \<Rightarrow>
        (case EncodedLen m of
           Inl e \<Rightarrow> (dst, Some e, authenticator)
         | Inr packetSize \<Rightarrow>
           if int packetSize > budget then (dst, Some ErrPacketTooLarge, authenticator)
           else
             let bodySize = packetSize - PrefixSize - AuthenticationTagSize;
                 pkt = encodePrefix m bodySize @ encodeBody m
             in case authenticator of
                  None \<Rightarrow> (dst @ pkt @ hmac_sha256 psk pkt, None, None)
                | Some a \<Rightarrow>
                  (case sign a pkt of (tag, a') \<Rightarrow> (dst @ pkt @ tag, None, Some a'))))"

definition AppendAuthenticated :: "bytes \<Rightarrow> Message \<Rightarrow> bytes \<Rightarrow> int \<Rightarrow> bytes \<times> wire_error option" where
  "AppendAuthenticated dst m psk budget =
     (case appendAuthenticated dst m psk budget None of (out, err, _) \<Rightarrow> (out, err))"

text \<open>\<open>Append\<close> on a nil receiver is \<open>None\<close>.\<close>

definition Authenticator_Append ::
  "Authenticator option \<Rightarrow> bytes \<Rightarrow> Message \<Rightarrow> int
     \<Rightarrow> bytes \<times> wire_error option \<times> Authenticator option" where
  "Authenticator_Append a dst m budget =
     (case a of
        None \<Rightarrow> (dst, Some ErrInvalidKey, None)
      | Some s \<Rightarrow> appendAuthenticated dst m (auth_key s) budget (Some s))"

subsection \<open>Decoding (\<^verbatim>\<open>codec.go\<close>)\<close>

definition decodeBody :: "Header \<Rightarrow> bytes \<Rightarrow> (wire_error, Message) result" where
  "decodeBody hdr body =
     (let t = hdr_Type hdr;
          m = \<lparr>msg_Header = hdr, msg_Handshake = zeroHandshake, msg_DataShard = emptyDataShard,
               msg_Probe = zeroProbe\<rparr>
      in if t = TypeHello \<or> t = TypeHelloAck then
           (if length body \<noteq> helloBodySize then Inl ErrMalformed
            else Inr (m\<lparr>msg_Handshake :=
              \<lparr>hs_DataShards = body ! 0, hs_ParityShards = body ! 1,
               hs_MaxUDPPayload = be_get (slice 2 4 body)\<rparr>\<rparr>))
         else if t = TypeDataShard then
           (if length body < DataShardMetadataSize then Inl ErrMalformed
            else Inr (m\<lparr>msg_DataShard :=
              \<lparr>ds_PacketID = be_get (slice 0 8 body), ds_DataShards = body ! 8,
               ds_ParityShards = body ! 9, ds_ShardIndex = body ! 10,
               ds_OriginalLength = be_get (slice 11 15 body), ds_Payload = drop 15 body\<rparr>\<rparr>))
         else if t = TypePing \<or> t = TypePong then
           (if length body \<noteq> probeBodySize then Inl ErrMalformed
            else Inr (m\<lparr>msg_Probe :=
              \<lparr>pr_Token = be_get (slice 0 8 body), pr_Timestamp = be_get (slice 8 16 body)\<rparr>\<rparr>))
         else (if length body \<noteq> 0 then Inl ErrMalformed else Inr m))"

definition decodeAuthenticated ::
  "bytes \<Rightarrow> bytes \<Rightarrow> int \<Rightarrow> Authenticator option
     \<Rightarrow> (wire_error, Message) result \<times> Authenticator option" where
  "decodeAuthenticated datagram psk receiveLimit authenticator =
     (if length psk = 0 then (Inl ErrInvalidKey, authenticator)
      else case validateBudget receiveLimit of
        Some e \<Rightarrow> (Inl e, authenticator)
      | None \<Rightarrow>
        if int (length datagram) > receiveLimit \<or> length datagram > MaxUDPPayload
        then (Inl ErrPacketTooLarge, authenticator)
        else if length datagram < MinimumPacketSize then (Inl ErrMalformed, authenticator)
        else if take 4 datagram \<noteq> Magic then (Inl ErrMalformed, authenticator)
        else if datagram ! 4 \<noteq> Version then (Inl ErrUnsupportedVersion, authenticator)
        else if \<not> knownPacketType (datagram ! 5) then (Inl ErrUnknownPacketType, authenticator)
        else
          let bodySize = unat (be_get (slice 6 8 datagram) :: u16);
              tagOffset = PrefixSize + bodySize;
              sessionID = be_get (slice 8 24 datagram) :: SessionID
          in if tagOffset + AuthenticationTagSize \<noteq> length datagram
             then (Inl ErrMalformed, authenticator)
             else if sessionID = 0 then (Inl ErrInvalidSessionID, authenticator)
             else
               let (authenticated, authenticator') =
                 (case authenticator of
                    None \<Rightarrow> (hmac_sha256 psk (take tagOffset datagram) = drop tagOffset datagram, None)
                  | Some a \<Rightarrow> (case verify a datagram tagOffset of (ok, a') \<Rightarrow> (ok, Some a')))
               in if \<not> authenticated then (Inl ErrAuthentication, authenticator')
                  else
                    (case decodeBody \<lparr>hdr_Type = datagram ! 5, hdr_SessionID = sessionID\<rparr>
                            (slice PrefixSize tagOffset datagram) of
                       Inl e \<Rightarrow> (Inl e, authenticator')
                     | Inr m \<Rightarrow>
                       (case validateMessage m of
                          Some e \<Rightarrow> (Inl e, authenticator')
                        | None \<Rightarrow> (Inr m, authenticator'))))"

definition DecodeAuthenticated :: "bytes \<Rightarrow> bytes \<Rightarrow> int \<Rightarrow> (wire_error, Message) result" where
  "DecodeAuthenticated datagram psk receiveLimit =
     fst (decodeAuthenticated datagram psk receiveLimit None)"

definition Authenticator_Decode ::
  "Authenticator option \<Rightarrow> bytes \<Rightarrow> int \<Rightarrow> (wire_error, Message) result \<times> Authenticator option" where
  "Authenticator_Decode a datagram receiveLimit =
     (case a of
        None \<Rightarrow> (Inl ErrInvalidKey, None)
      | Some s \<Rightarrow> decodeAuthenticated datagram (auth_key s) receiveLimit (Some s))"

text \<open>
  The callback of \<open>DecodeAndDispatch\<close> acts on the caller's state \<open>'s\<close>; its own errors are
  of the caller's type \<open>'e\<close>. A nil handler is \<open>None\<close>.
\<close>

definition DecodeAndDispatch ::
  "bytes \<Rightarrow> bytes \<Rightarrow> int \<Rightarrow> (Message \<Rightarrow> 's \<Rightarrow> 'e option \<times> 's) option \<Rightarrow> 's
     \<Rightarrow> (wire_error + 'e) option \<times> 's" where
  "DecodeAndDispatch datagram psk receiveLimit handler s =
     (case handler of
        None \<Rightarrow> (Some (Inl ErrInvalidHandler), s)
      | Some f \<Rightarrow>
        (case DecodeAuthenticated datagram psk receiveLimit of
           Inl e \<Rightarrow> (Some (Inl e), s)
         | Inr m \<Rightarrow> (case f m s of (e, s') \<Rightarrow> (map_option Inr e, s'))))"

subsection \<open>Constructors (\<^verbatim>\<open>types.go\<close>)\<close>

definition checked :: "Message \<Rightarrow> (wire_error, Message) result" where
  "checked m = (case EncodedLen m of Inl e \<Rightarrow> Inl e | Inr _ \<Rightarrow> Inr m)"

definition newHandshake :: "PacketType \<Rightarrow> SessionID \<Rightarrow> u8 \<Rightarrow> u8 \<Rightarrow> u16 \<Rightarrow> (wire_error, Message) result" where
  "newHandshake t sid k p maxPayload =
     checked \<lparr>msg_Header = \<lparr>hdr_Type = t, hdr_SessionID = sid\<rparr>,
       msg_Handshake = \<lparr>hs_DataShards = k, hs_ParityShards = p, hs_MaxUDPPayload = maxPayload\<rparr>,
       msg_DataShard = emptyDataShard, msg_Probe = zeroProbe\<rparr>"

definition NewHello :: "SessionID \<Rightarrow> u8 \<Rightarrow> u8 \<Rightarrow> u16 \<Rightarrow> (wire_error, Message) result" where
  "NewHello = newHandshake TypeHello"

definition NewHelloAck :: "SessionID \<Rightarrow> u8 \<Rightarrow> u8 \<Rightarrow> u16 \<Rightarrow> (wire_error, Message) result" where
  "NewHelloAck = newHandshake TypeHelloAck"

definition NewDataShard ::
  "SessionID \<Rightarrow> u64 \<Rightarrow> u8 \<Rightarrow> u8 \<Rightarrow> u8 \<Rightarrow> u32 \<Rightarrow> bytes \<Rightarrow> (wire_error, Message) result" where
  "NewDataShard sid pid k p i len payload =
     checked \<lparr>msg_Header = \<lparr>hdr_Type = TypeDataShard, hdr_SessionID = sid\<rparr>,
       msg_Handshake = zeroHandshake,
       msg_DataShard = \<lparr>ds_PacketID = pid, ds_DataShards = k, ds_ParityShards = p, ds_ShardIndex = i,
         ds_OriginalLength = len, ds_Payload = payload\<rparr>,
       msg_Probe = zeroProbe\<rparr>"

definition newProbe :: "PacketType \<Rightarrow> SessionID \<Rightarrow> u64 \<Rightarrow> u64 \<Rightarrow> (wire_error, Message) result" where
  "newProbe t sid token timestamp =
     checked \<lparr>msg_Header = \<lparr>hdr_Type = t, hdr_SessionID = sid\<rparr>,
       msg_Handshake = zeroHandshake, msg_DataShard = emptyDataShard,
       msg_Probe = \<lparr>pr_Token = token, pr_Timestamp = timestamp\<rparr>\<rparr>"

definition NewPing :: "SessionID \<Rightarrow> u64 \<Rightarrow> u64 \<Rightarrow> (wire_error, Message) result" where
  "NewPing = newProbe TypePing"

definition NewPong :: "SessionID \<Rightarrow> u64 \<Rightarrow> u64 \<Rightarrow> (wire_error, Message) result" where
  "NewPong = newProbe TypePong"

definition NewClose :: "SessionID \<Rightarrow> (wire_error, Message) result" where
  "NewClose sid =
     checked \<lparr>msg_Header = \<lparr>hdr_Type = TypeClose, hdr_SessionID = sid\<rparr>,
       msg_Handshake = zeroHandshake, msg_DataShard = emptyDataShard, msg_Probe = zeroProbe\<rparr>"

subsection \<open>Body round trip\<close>

lemmas zero_defs = zeroHandshake_def emptyDataShard_def zeroProbe_def

lemma zeroDataShard_iff: "zeroDataShard d \<longleftrightarrow> d = emptyDataShard"
  by (cases d) (auto simp: zeroDataShard_def emptyDataShard_def)

lemma known_cases:
  assumes "knownPacketType t"
  obtains "t = TypeHello" | "t = TypeHelloAck" | "t = TypeDataShard"
    | "t = TypePing" | "t = TypePong" | "t = TypeClose"
proof -
  have "1 \<le> unat t" "unat t \<le> 6"
    using assms by (auto simp: knownPacketType_def word_le_nat_alt)
  then have "unat t = 1 \<or> unat t = 2 \<or> unat t = 3 \<or> unat t = 4 \<or> unat t = 5 \<or> unat t = 6"
    by linarith
  then show thesis using that by (auto simp: word_unat_eq_iff)
qed

lemma slice_append_exact [go_slice]:
  "i = length xs \<Longrightarrow> j = length xs + length ys \<Longrightarrow> slice i j (xs @ ys @ zs) = ys"
  by (simp add: slice_def)

lemma decodeBody_encodeBody:
  assumes "validateMessage m = None"
  shows "decodeBody (msg_Header m) (encodeBody m) = Inr m"
proof -
  have known: "knownPacketType (hdr_Type (msg_Header m))"
    using assms by (auto simp: validateMessage_def Let_def split: if_splits)
  obtain hdr h d p where m: "m = \<lparr>msg_Header = hdr, msg_Handshake = h, msg_DataShard = d, msg_Probe = p\<rparr>"
    by (cases m)
  obtain dpid dk dp di dl pl where d: "d = \<lparr>ds_PacketID = dpid, ds_DataShards = dk,
      ds_ParityShards = dp, ds_ShardIndex = di, ds_OriginalLength = dl, ds_Payload = pl\<rparr>"
    by (cases d)
  obtain hk hp hm where h: "h = \<lparr>hs_DataShards = hk, hs_ParityShards = hp, hs_MaxUDPPayload = hm\<rparr>"
    by (cases h)
  obtain tok ts where p: "p = \<lparr>pr_Token = tok, pr_Timestamp = ts\<rparr>"
    by (cases p)
  show ?thesis
    using known assms
    by (rule_tac known_cases [OF known])
      (auto simp: m d h p validateMessage_def decodeBody_def encodeBody_def Let_def
        zeroDataShard_iff zero_defs nth_append slice_def be_simps split: if_splits option.splits)
qed

lemma list_decomp4: "length b = 4 \<Longrightarrow> b = [b ! 0, b ! 1] @ slice 2 4 b"
  by (auto simp: slice_def numeral_eq_Suc length_Suc_conv)

lemma list_decomp16: "length b = 16 \<Longrightarrow> b = slice 0 8 b @ slice 8 16 b"
  by (simp add: slice_def)

lemma list_decomp15:
  assumes "length b \<ge> 15"
  shows "b = slice 0 8 b @ [b ! 8, b ! 9, b ! 10] @ slice 11 15 b @ drop 15 b"
proof -
  have "b = take 8 b @ drop 8 b" by simp
  also have "drop 8 b = [b ! 8, b ! 9, b ! 10] @ drop 11 b"
    using assms by (simp add: Cons_nth_drop_Suc [symmetric])
  also have "drop 11 b = take 4 (drop 11 b) @ drop 15 b"
    using append_take_drop_id [of 4 "drop 11 b"] by simp
  finally show ?thesis by (simp add: slice_def)
qed

lemma encodeBody_decodeBody:
  assumes known: "knownPacketType (hdr_Type hdr)" and dec: "decodeBody hdr b = Inr m"
  shows "msg_Header m = hdr \<and> encodeBody m = b"
  using known
proof (rule known_cases)
qed (use dec list_decomp4 [of b] list_decomp15 [of b] list_decomp16 [of b] in
    \<open>auto simp: decodeBody_def encodeBody_def Let_def be_put_get split: if_splits\<close>)

subsection \<open>Packets\<close>

text \<open>
  The bytes a message is sent as, and when a message can be sent or received under a key and a
  UDP payload limit.
\<close>

definition wirePacket :: "bytes \<Rightarrow> Message \<Rightarrow> bytes" where
  "wirePacket psk m =
     (let pkt = encodePrefix m (length (encodeBody m)) @ encodeBody m in pkt @ hmac_sha256 psk pkt)"

definition wireAdmissible :: "bytes \<Rightarrow> int \<Rightarrow> Message \<Rightarrow> bool" where
  "wireAdmissible psk limit m \<longleftrightarrow>
     psk \<noteq> [] \<and> validateBudget limit = None \<and> validateMessage m = None \<and>
     int (MinimumPacketSize + length (encodeBody m)) \<le> limit"

lemma validateBudget_None: "validateBudget b = None \<longleftrightarrow> 72 \<le> b \<and> b \<le> 65507"
  by (auto simp: validateBudget_def)

lemma length_encodePrefix [simp]: "length (encodePrefix m n) = PrefixSize"
  by (simp add: encodePrefix_def Magic_def)

lemma length_wirePacket: "length (wirePacket psk m) = MinimumPacketSize + length (encodeBody m)"
  by (simp add: wirePacket_def Let_def)

lemma validateMessage_known: "validateMessage m = None \<Longrightarrow> knownPacketType (hdr_Type (msg_Header m))"
  by (auto simp: validateMessage_def Let_def split: if_splits)

lemma validateMessage_session: "validateMessage m = None \<Longrightarrow> hdr_SessionID (msg_Header m) \<noteq> 0"
  by (auto simp: validateMessage_def Let_def split: if_splits)

lemma EncodedLen_eq:
  "EncodedLen m =
     (case validateMessage m of
        Some e \<Rightarrow> Inl e
      | None \<Rightarrow> if MinimumPacketSize + length (encodeBody m) > MaxUDPPayload then Inl ErrPacketTooLarge
                else Inr (MinimumPacketSize + length (encodeBody m)))"
  by (auto simp: EncodedLen_def encodeBody_def Let_def split: option.splits)

lemma appendAuthenticated_ok:
  "(\<exists>a. appendAuthenticated dst m psk budget None = (out, None, a)) \<longleftrightarrow>
     wireAdmissible psk budget m \<and> out = dst @ wirePacket psk m"
  by (auto simp: appendAuthenticated_def wireAdmissible_def wirePacket_def EncodedLen_eq
      Let_def validateBudget_def split: option.splits if_splits)

lemma AppendAuthenticated_ok:
  "AppendAuthenticated dst m psk budget = (out, None) \<longleftrightarrow>
     wireAdmissible psk budget m \<and> out = dst @ wirePacket psk m"
  unfolding appendAuthenticated_ok [symmetric]
  by (auto simp: AppendAuthenticated_def split: prod.splits)

text \<open>The prefix fields of a packet, read where the decoder reads them.\<close>

lemma prefix_fields:
  assumes d: "d = encodePrefix m n @ rest"
  shows "take 4 d = Magic" "d ! 4 = Version" "d ! 5 = hdr_Type (msg_Header m)"
    "be_get (slice 6 8 d) = (word_of_nat n :: u16)"
    "be_get (slice 8 24 d) = hdr_SessionID (msg_Header m)"
  by (simp_all add: d encodePrefix_def Magic_def slice_def be_simps)

lemma decode_wirePacket:
  assumes "wireAdmissible psk limit m"
  shows "DecodeAuthenticated (wirePacket psk m) psk limit = Inr m"
proof -
  let ?d = "wirePacket psk m" and ?n = "length (encodeBody m)"
  have adm: "psk \<noteq> []" "validateBudget limit = None" "validateMessage m = None" "int (56 + ?n) \<le> limit"
    using assms by (auto simp: wireAdmissible_def)
  have size: "?n \<le> 65451"
    using adm(2,4) by (simp add: validateBudget_None)
  then have n: "unat (word_of_nat ?n :: u16) = ?n"
    by (simp add: unat_of_nat_eq)
  have d: "?d = encodePrefix m ?n @ encodeBody m @ hmac_sha256 psk (encodePrefix m ?n @ encodeBody m)"
    by (simp add: wirePacket_def Let_def)
  have body: "slice 24 (24 + ?n) ?d = encodeBody m"
    unfolding d by (rule slice_append_exact) simp_all
  have tag: "hmac_sha256 psk (take (24 + ?n) ?d) = drop (24 + ?n) ?d"
    by (simp add: d)
  show ?thesis
    using adm size prefix_fields [OF d] validateMessage_known [OF adm(3)] validateMessage_session [OF adm(3)]
      decodeBody_encodeBody [OF adm(3)]
    by (cases "msg_Header m") (simp add: DecodeAuthenticated_def decodeAuthenticated_def length_wirePacket n body tag Let_def)
qed

lemma list_decomp24:
  assumes "length d \<ge> 24"
  shows "d = take 4 d @ [d ! 4, d ! 5] @ slice 6 8 d @ slice 8 24 d @ drop 24 d"
proof -
  have "d = take 4 d @ drop 4 d" by simp
  also have "drop 4 d = [d ! 4, d ! 5] @ drop 6 d"
    using assms by (simp add: Cons_nth_drop_Suc [symmetric])
  also have "drop 6 d = take 2 (drop 6 d) @ take 16 (drop 8 d) @ drop 24 d"
    using append_take_drop_id [of 2 "drop 6 d"] append_take_drop_id [of 16 "drop 8 d"] by simp
  finally show ?thesis by (simp add: slice_def)
qed

lemma prefix_split:
  assumes "length d \<ge> 24"
  shows "take 24 d = take 4 d @ [d ! 4, d ! 5] @ slice 6 8 d @ slice 8 24 d"
proof -
  have "take 24 d = take 24 (take 4 d @ [d ! 4, d ! 5] @ slice 6 8 d @ slice 8 24 d @ drop 24 d)"
    using list_decomp24 [OF assms] by simp
  then show ?thesis using assms by simp
qed

lemma decode_accepted:
  assumes "DecodeAuthenticated d psk limit = Inr m"
  shows "wireAdmissible psk limit m \<and> wirePacket psk m = d"
proof -
  let ?n = "unat (be_get (slice 6 8 d) :: u16)" and ?sid = "be_get (slice 8 24 d) :: SessionID"
  note dec = assms [unfolded DecodeAuthenticated_def decodeAuthenticated_def Let_def]
  have pre: "psk \<noteq> []" "validateBudget limit = None" "int (length d) \<le> limit" "56 \<le> length d"
    "take 4 d = Magic" "d ! 4 = Version" "knownPacketType (d ! 5)" "24 + ?n + 32 = length d"
    "hmac_sha256 psk (take (24 + ?n) d) = drop (24 + ?n) d"
    and db: "decodeBody \<lparr>hdr_Type = d ! 5, hdr_SessionID = ?sid\<rparr> (slice 24 (24 + ?n) d) = Inr m"
    and vm: "validateMessage m = None"
    using dec by (auto split: if_splits option.splits sum.splits)
  from encodeBody_decodeBody [OF _ db] pre(7)
  have hdr: "msg_Header m = \<lparr>hdr_Type = d ! 5, hdr_SessionID = ?sid\<rparr>"
    and body: "encodeBody m = slice 24 (24 + ?n) d" by simp_all
  have len: "length (encodeBody m) = ?n"
    using pre(8) by (simp add: body)
  have "length (slice 6 8 d) = 2" "length (slice 8 24 d) = 16"
    using pre(4) by simp_all
  then have "be_put 2 (word_of_nat ?n :: u16) = slice 6 8 d" "be_put 16 ?sid = slice 8 24 d"
    by (simp_all add: be_put_get)
  then have prefix: "encodePrefix m ?n = take 24 d"
    using pre(4-6) by (simp add: encodePrefix_def hdr prefix_split)
  have whole: "encodePrefix m ?n @ encodeBody m = take (24 + ?n) d"
    unfolding prefix body by (simp add: slice_def take_add)
  then have "wirePacket psk m = d"
    by (simp add: wirePacket_def len Let_def pre(9))
  moreover have "wireAdmissible psk limit m"
    using pre vm len by (simp add: wireAdmissible_def)
  ultimately show ?thesis by simp
qed

text \<open>The v0.1 format as a codec, for every key and receive limit.\<close>

interpretation wire_codec: codec "wirePacket psk" "\<lambda>d. DecodeAuthenticated d psk limit" "wireAdmissible psk limit"
  for psk limit
  by unfold_locales (use decode_wirePacket decode_accepted in blast)+

subsection \<open>The pooled authenticator\<close>

lemma acquire_release_key [simp]: "auth_key (release (acquire a)) = auth_key a"
  by (simp add: acquire_def release_def)

lemma acquire_release_states:
  "auth_states (release (acquire a)) = (if auth_states a = 0 then 1 else auth_states a \<comment> \<open>a state returns\<close>)
   \<or> auth_states a > authenticationCacheCapacity"
  by (auto simp: acquire_def release_def)

lemma append_pooled:
  "appendAuthenticated dst m (auth_key a) budget (Some a) =
     (case AppendAuthenticated dst m (auth_key a) budget of
        (out, None) \<Rightarrow> (out, None, Some (release (acquire a)))
      | (out, Some e) \<Rightarrow> (out, Some e, Some a))"
  by (auto simp: AppendAuthenticated_def appendAuthenticated_def sign_def Let_def
      split: option.splits sum.splits)

lemma decode_pooled:
  "fst (decodeAuthenticated d (auth_key a) limit (Some a)) = DecodeAuthenticated d (auth_key a) limit"
  by (auto simp: DecodeAuthenticated_def decodeAuthenticated_def verify_def Let_def
      split: option.splits sum.splits)

lemma decode_pooled_states:
  "snd (decodeAuthenticated d (auth_key a) limit (Some a)) \<in> {Some a, Some (release (acquire a))}"
  by (auto simp: decodeAuthenticated_def verify_def Let_def split: option.splits sum.splits)

subsection \<open>Properties\<close>

text \<open>A concrete shard of a three-plus-two block, for the witnesses below.\<close>

definition exampleShard :: Message where
  "exampleShard = \<lparr>msg_Header = \<lparr>hdr_Type = TypeDataShard, hdr_SessionID = 9\<rparr>,
     msg_Handshake = zeroHandshake,
     msg_DataShard = \<lparr>ds_PacketID = 5, ds_DataShards = 3, ds_ParityShards = 2, ds_ShardIndex = 4,
       ds_OriginalLength = 4, ds_Payload = [1, 2]\<rparr>,
     msg_Probe = zeroProbe\<rparr>"

lemma exampleShard_valid: "validateMessage exampleShard = None"
  by (simp add: exampleShard_def validateMessage_def validateFEC_def knownPacketType_def)

lemma exampleShard_admissible:
  "psk \<noteq> [] \<Longrightarrow> 73 \<le> b \<Longrightarrow> b \<le> 65507 \<Longrightarrow> wireAdmissible psk b exampleShard"
  using exampleShard_valid
  by (simp add: wireAdmissible_def validateBudget_def) (simp add: exampleShard_def encodeBody_def)

text \<open>C4: the v0.1 codec is exact. For every key, limit and datagram, the decoder returns a
  message if and only if the datagram is byte for byte what the encoder produces for that message
  under the same key and limit: encoding and decoding are mutually inverse, there is no second
  encoding of a message, and nothing else is accepted.\<close>

theorem wire_decode_iff_encode:
  "DecodeAuthenticated d psk limit = Inr m \<longleftrightarrow> AppendAuthenticated [] m psk limit = (d, None)"
  using wire_codec.dec_enc wire_codec.enc_dec by (auto simp: AppendAuthenticated_ok)

text \<open>What is sent within a budget is received under any valid limit at least as large. A
  successful append extends the destination by exactly \<open>EncodedLen\<close> bytes, within the budget, and
  the appended bytes decode to the message.\<close>

theorem wire_send_receive:
  assumes sent: "AppendAuthenticated dst m psk budget = (out, None)"
    and limit: "budget \<le> limit" "validateBudget limit = None"
  shows "\<exists>pkt. out = dst @ pkt \<and> EncodedLen m = Inr (length pkt) \<and> int (length pkt) \<le> budget \<and>
           DecodeAuthenticated pkt psk limit = Inr m"
proof -
  have adm: "wireAdmissible psk budget m" "out = dst @ wirePacket psk m"
    using sent by (simp_all add: AppendAuthenticated_ok)
  then have "wireAdmissible psk limit m"
    using limit by (auto simp: wireAdmissible_def)
  then have "DecodeAuthenticated (wirePacket psk m) psk limit = Inr m"
    by (rule decode_wirePacket)
  moreover have "EncodedLen m = Inr (length (wirePacket psk m))" "int (length (wirePacket psk m)) \<le> budget"
    using adm(1) by (auto simp: EncodedLen_eq length_wirePacket wireAdmissible_def validateBudget_None)
  ultimately show ?thesis using adm(2) by blast
qed

theorem wire_send_receive_witness:
  "\<exists>out pkt. AppendAuthenticated [7] exampleShard [1, 2, 3] 100 = (out, None) \<and> out = [7] @ pkt \<and>
     EncodedLen exampleShard = Inr (length pkt) \<and> int (length pkt) \<le> 100 \<and>
     DecodeAuthenticated pkt [1, 2, 3] 1200 = Inr exampleShard"
proof -
  have sent: "AppendAuthenticated [7] exampleShard [1, 2, 3] 100 = ([7] @ wirePacket [1, 2, 3] exampleShard, None)"
    by (simp add: AppendAuthenticated_ok exampleShard_admissible)
  show ?thesis
    using sent wire_send_receive [OF sent, of 1200] by (auto simp: validateBudget_def)
qed

text \<open>C32: nothing unauthenticated reaches a handler. If \<open>DecodeAndDispatch\<close> changes the caller's
  state or reports a handler error, the datagram ends in the HMAC-SHA-256 tag of everything before
  it, the decoded message is semantically valid, and the handler ran exactly once, on that message
  and the caller's state.\<close>

theorem dispatch_only_authenticated:
  assumes "DecodeAndDispatch d psk limit (Some f) s = (err, s')"
    and "s' \<noteq> s \<or> err = None \<or> (\<exists>e. err = Some (Inr e))"
  shows "\<exists>m. DecodeAuthenticated d psk limit = Inr m \<and> validateMessage m = None \<and>
           drop (length d - AuthenticationTagSize) d
             = hmac_sha256 psk (take (length d - AuthenticationTagSize) d) \<and>
           s' = snd (f m s) \<and> err = map_option Inr (fst (f m s))"
proof -
  obtain m where m: "DecodeAuthenticated d psk limit = Inr m"
    and out: "err = map_option Inr (fst (f m s))" "s' = snd (f m s)"
    using assms by (cases "DecodeAuthenticated d psk limit") (auto simp: DecodeAndDispatch_def split: prod.splits)
  from decode_accepted [OF m] have "wirePacket psk m = d" "validateMessage m = None"
    by (auto simp: wireAdmissible_def)
  moreover from this(1) have "drop (length d - 32) d = hmac_sha256 psk (take (length d - 32) d)"
    by (auto simp: wirePacket_def Let_def)
  ultimately show ?thesis using m out by (intro exI [of _ m]) simp
qed

theorem dispatch_only_authenticated_witness:
  "\<exists>m. DecodeAuthenticated (wirePacket [1] exampleShard) [1] 1200 = Inr m \<and> validateMessage m = None"
proof -
  have "DecodeAndDispatch (wirePacket [1] exampleShard) [1] 1200 (Some (\<lambda>m n. (None :: unit option, Suc n))) 0
          = (None, 1)"
    by (simp add: DecodeAndDispatch_def decode_wirePacket exampleShard_admissible)
  from dispatch_only_authenticated [OF this] show ?thesis by auto
qed

text \<open>The pooled authenticator is a transparent optimisation. Appending or decoding through an
  \<open>Authenticator\<close> gives exactly the result of the stateless functions with its key, and the pool it
  leaves behind keeps the key and never holds more than four hash states.\<close>

theorem pooled_authenticator_equiv:
  assumes "auth_states a \<le> authenticationCacheCapacity"
  shows "(\<exists>a'. Authenticator_Append (Some a) dst m budget =
             (fst (AppendAuthenticated dst m (auth_key a) budget),
              snd (AppendAuthenticated dst m (auth_key a) budget), Some a') \<and>
           auth_key a' = auth_key a \<and> auth_states a' \<le> authenticationCacheCapacity) \<and>
         (\<exists>a'. Authenticator_Decode (Some a) d limit = (DecodeAuthenticated d (auth_key a) limit, Some a') \<and>
           auth_key a' = auth_key a \<and> auth_states a' \<le> authenticationCacheCapacity)"
    (is "?append \<and> ?decode")
proof
  have pool: "auth_states (release (acquire a)) \<le> 4"
    using assms by (auto simp: acquire_def release_def)
  show ?append
    using pool assms by (auto simp: Authenticator_Append_def append_pooled split: prod.splits option.splits)
  show ?decode
    using decode_pooled [of d a limit] decode_pooled_states [of d a limit] pool assms
    by (cases "decodeAuthenticated d (auth_key a) limit (Some a)") (auto simp: Authenticator_Decode_def)
qed

theorem pooled_authenticator_equiv_witness:
  "\<exists>a'. Authenticator_Decode (Some \<lparr>auth_key = [1], auth_states = 4\<rparr>) [] 1200
          = (DecodeAuthenticated [] [1] 1200, Some a') \<and>
        auth_key a' = [1] \<and> auth_states a' \<le> 4"
  using pooled_authenticator_equiv [of "\<lparr>auth_key = [1], auth_states = 4\<rparr>" "[]" exampleShard 100 "[]" 1200]
  by simp

end
