(* ===== verification/Bitmap.thy ===== *)
theory Bitmap
  imports Prelude
begin

text \<open>
  Bitmaps stored as slices of 64-bit words, as the two receive histories of the program keep
  them (\<^verbatim>\<open>internal/fec/replay_window.go\<close>, \<^verbatim>\<open>internal/recvwindow/window.go\<close>): the set of
  positions a bitmap represents, and what setting one bit, clearing a masked run of bits within
  one word, and clearing a whole ring segment word by word do to that set and to its cardinality.
\<close>

definition bits :: "u64 list \<Rightarrow> nat set" where
  "bits ws = {i. i < 64 * length ws \<and> bit (ws ! (i div 64)) (i mod 64)}"

text \<open>\<^verbatim>\<open>bits.OnesCount64\<close> of the Go library.\<close>

definition OnesCount64 :: "u64 \<Rightarrow> nat" where
  "OnesCount64 x = length (filter (bit x) [0..<64])"

text \<open>\<open>uint64(1) << (index % 64)\<close>\<close>

definition bit_mask :: "nat \<Rightarrow> u64" where
  "bit_mask i = push_bit (i mod 64) 1"

text \<open>\<open>(^uint64(0) >> (64 - width)) << (position % 64)\<close>\<close>

definition run_mask :: "nat \<Rightarrow> nat \<Rightarrow> u64" where
  "run_mask position width = push_bit (position mod 64) (drop_bit (64 - width) (NOT 0))"

lemma finite_bits [simp]: "finite (bits ws)"
  by (simp add: bits_def)

lemma bits_subset: "bits ws \<subseteq> {..<64 * length ws}"
  by (auto simp: bits_def)

lemma bits_replicate_0 [simp]: "bits (replicate n 0) = {}"
  by (auto simp: bits_def less_mult_imp_div_less mult.commute)

text \<open>The builtin \<open>clear\<close> of a slice.\<close>

definition clear_all :: "u64 list \<Rightarrow> u64 list" where
  "clear_all ws = replicate (length ws) 0"

lemma length_clear_all [simp]: "length (clear_all ws) = length ws"
  by (simp add: clear_all_def)

lemma bits_clear_all [simp]: "bits (clear_all ws) = {}"
  by (simp add: clear_all_def)

lemma OnesCount64_card: "OnesCount64 x = card {n. n < 64 \<and> bit x n}"
proof -
  have "OnesCount64 x = card (set (filter (bit x) [0..<64]))"
    unfolding OnesCount64_def by (rule distinct_card [symmetric]) simp
  then show ?thesis by (simp add: conj_commute)
qed

lemma bit_bit_mask: "bit (bit_mask i) n \<longleftrightarrow> n = i mod 64"
  by (auto simp: bit_mask_def bit_exp_iff)

lemma bit_run_mask:
  assumes "position mod 64 + width \<le> 64"
  shows "bit (run_mask position width) n \<longleftrightarrow> position mod 64 \<le> n \<and> n < position mod 64 + width"
proof -
  define p where "p = position mod 64"
  have p: "p + width \<le> 64" using assms by (simp add: p_def)
  have "run_mask position width = push_bit p (mask width)"
    using p by (simp add: run_mask_def p_def [symmetric])
  then have "bit (run_mask position width) n \<longleftrightarrow> p \<le> n \<and> n < 64 \<and> n - p < width"
    by (auto simp: bit_push_bit_iff bit_mask_iff)
  with p show ?thesis
    unfolding p_def [symmetric] by auto
qed

text \<open>A test with a single-bit mask reads one position.\<close>

lemma and_bit_mask_nonzero: "x AND bit_mask i \<noteq> 0 \<longleftrightarrow> bit x (i mod 64)"
proof -
  have "x AND bit_mask i = (if bit x (i mod 64) then bit_mask i else 0)"
    by (rule bit_word_eqI) (auto simp: bit_and_iff bit_bit_mask)
  moreover have "bit_mask i \<noteq> 0"
    using bit_bit_mask [of i "i mod 64"] by (metis bit_0_eq bot_apply bot_bool_def)
  ultimately show ?thesis by simp
qed

lemma test_bit: "i < 64 * length ws \<Longrightarrow> ws ! (i div 64) AND bit_mask i \<noteq> 0 \<longleftrightarrow> i \<in> bits ws"
  by (simp add: and_bit_mask_nonzero bits_def)

lemma div64_less: "i < 64 * n \<Longrightarrow> i div 64 < n" for i n :: nat
  by (simp add: less_mult_imp_div_less mult.commute)

lemma same_position: "k div 64 = i div 64 \<Longrightarrow> k mod 64 = i mod 64 \<Longrightarrow> k = i" for k i :: nat
  by (metis div_mult_mod_eq)

lemma bits_set:
  assumes "i < 64 * length ws"
  shows "bits (ws[i div 64 := ws ! (i div 64) OR bit_mask i]) = insert i (bits ws)"
proof (rule set_eqI)
  fix k
  show "k \<in> bits (ws[i div 64 := ws ! (i div 64) OR bit_mask i]) \<longleftrightarrow> k \<in> insert i (bits ws)"
  proof (cases "k div 64 = i div 64")
    case True
    then show ?thesis
      using assms div64_less [OF assms] same_position [of k i]
      by (auto simp: bits_def bit_or_iff bit_bit_mask)
  next
    case False
    then show ?thesis
      by (auto simp: bits_def)
  qed
qed

lemma run_positions:
  fixes position width k :: nat
  assumes "position mod 64 + width \<le> 64"
  shows "k div 64 = position div 64 \<and> position mod 64 \<le> k mod 64 \<and> k mod 64 < position mod 64 + width
         \<longleftrightarrow> position \<le> k \<and> k < position + width" (is "?l \<longleftrightarrow> ?r")
proof -
  have eqs: "k = 64 * (k div 64) + k mod 64" "position = 64 * (position div 64) + position mod 64"
    "k mod 64 < 64" by simp_all
  show ?thesis
  proof
    assume ?l
    then show ?r using eqs by linarith
  next
    assume r: ?r
    have "k div 64 \<le> position div 64" "position div 64 \<le> k div 64"
      using r eqs assms by linarith+
    then show ?l using r eqs by linarith
  qed
qed

text \<open>Clearing a masked run inside one word removes exactly its positions, and the population
  count of the masked word is the number of positions that go.\<close>

definition clear_run :: "nat \<Rightarrow> nat \<Rightarrow> u64 list \<Rightarrow> u64 list" where
  "clear_run position width ws =
     ws[position div 64 := ws ! (position div 64) AND NOT (run_mask position width)]"

lemma length_clear_run [simp]: "length (clear_run position width ws) = length ws"
  by (simp add: clear_run_def)

lemma bits_clear_run:
  assumes "position mod 64 + width \<le> 64" "position < 64 * length ws"
  shows "bits (clear_run position width ws) = bits ws - {position..<position + width}"
proof (rule set_eqI)
  fix k
  have in_run: "k \<in> {position..<position + width} \<longleftrightarrow>
      k div 64 = position div 64 \<and> bit (run_mask position width) (k mod 64)"
    using run_positions [OF assms(1), of k] by (auto simp: bit_run_mask [OF assms(1)])
  show "k \<in> bits (clear_run position width ws) \<longleftrightarrow> k \<in> bits ws - {position..<position + width}"
    using in_run div64_less [OF assms(2)]
    by (cases "k div 64 = position div 64") (auto simp: bits_def clear_run_def bit_and_iff bit_not_iff)
qed

lemma OnesCount64_run:
  assumes "position mod 64 + width \<le> 64" "position < 64 * length ws"
  shows "OnesCount64 (ws ! (position div 64) AND run_mask position width)
         = card (bits ws \<inter> {position..<position + width})"
proof -
  let ?q = "position div 64"
  let ?x = "ws ! ?q AND run_mask position width"
  have "bits ws \<inter> {position..<position + width} = (\<lambda>n. 64 * ?q + n) ` {n. n < 64 \<and> bit ?x n}"
  proof (intro equalityI subsetI)
    fix k assume k: "k \<in> bits ws \<inter> {position..<position + width}"
    then have "k div 64 = ?q" "bit ?x (k mod 64)"
      using run_positions [OF assms(1), of k]
      by (auto simp: bits_def bit_and_iff bit_run_mask [OF assms(1)])
    moreover have "k = 64 * (k div 64) + k mod 64" by simp
    ultimately show "k \<in> (\<lambda>n. 64 * ?q + n) ` {n. n < 64 \<and> bit ?x n}"
      by (intro image_eqI [of _ _ "k mod 64"]) auto
  next
    fix k assume "k \<in> (\<lambda>n. 64 * ?q + n) ` {n. n < 64 \<and> bit ?x n}"
    then obtain n where n: "k = 64 * ?q + n" "n < 64" "bit ?x n" by auto
    then have "k div 64 = ?q" "k mod 64 = n" by simp_all
    moreover have "k < 64 * length ws"
      using n(2) div64_less [OF assms(2)] unfolding n(1) by linarith
    ultimately show "k \<in> bits ws \<inter> {position..<position + width}"
      using n run_positions [OF assms(1), of k]
      by (auto simp: bits_def bit_and_iff bit_run_mask [OF assms(1)])
  qed
  moreover have "inj_on (\<lambda>n. 64 * ?q + n) {n. n < 64 \<and> bit ?x n}"
    by (auto simp: inj_on_def)
  ultimately show ?thesis
    by (simp add: OnesCount64_card card_image)
qed

lemma card_bits_clear_run:
  assumes "position mod 64 + width \<le> 64" "position < 64 * length ws"
  shows "card (bits (clear_run position width ws))
         = card (bits ws) - OnesCount64 (ws ! (position div 64) AND run_mask position width)"
  unfolding bits_clear_run [OF assms] OnesCount64_run [OF assms]
  by (metis card_Diff_subset_Int finite_Int finite_bits)

subsection \<open>Ring segments\<close>

text \<open>The positions a ring of \<open>span\<close> slots uses for the identifiers after \<open>high\<close>.\<close>

definition ring_segment :: "nat \<Rightarrow> nat \<Rightarrow> nat \<Rightarrow> nat set" where
  "ring_segment span high distance = (\<lambda>k. k mod span) ` {high + 1..high + distance}"

text \<open>One round of the clearing loops: from ring position \<open>position\<close>, a run of \<open>width\<close> slots that
  does not wrap, then the rest of the segment.\<close>

lemma ring_segment_step:
  assumes "0 < span" "width \<le> remaining" "high' mod span + width \<le> span"
    and "high' = Suc high"
  shows "ring_segment span high remaining
         = {high' mod span..<high' mod span + width} \<union> ring_segment span (high + width) (remaining - width)"
proof -
  have split: "{high + 1..high + remaining}
      = {high'..<high' + width} \<union> {high + width + 1..high + width + (remaining - width)}"
    using assms by auto
  have "(\<lambda>k. k mod span) ` {high'..<high' + width} = {high' mod span..<high' mod span + width}"
  proof (intro equalityI subsetI)
    fix x assume "x \<in> (\<lambda>k. k mod span) ` {high'..<high' + width}"
    then obtain k where "x = k mod span" "high' \<le> k" "k < high' + width" by auto
    then obtain j where j: "k = high' + j" "j < width" using le_iff_add by (metis add_less_cancel_left)
    have "(high' + j) mod span = high' mod span + j"
      using j(2) assms(3) by (metis add_less_cancel_left less_le_trans mod_add_left_eq mod_less)
    then show "x \<in> {high' mod span..<high' mod span + width}"
      using \<open>x = k mod span\<close> j by simp
  next
    fix x assume "x \<in> {high' mod span..<high' mod span + width}"
    then obtain j where j: "x = high' mod span + j" "j < width"
      by (metis add_less_cancel_left atLeastLessThan_iff le_iff_add)
    have "(high' + j) mod span = high' mod span + j"
      using j(2) assms(3) by (metis add_less_cancel_left less_le_trans mod_add_left_eq mod_less)
    then show "x \<in> (\<lambda>k. k mod span) ` {high'..<high' + width}"
      using j by (intro image_eqI [of _ _ "high' + j"]) auto
  qed
  then show ?thesis
    unfolding ring_segment_def split image_Un by simp
qed

lemma ring_segment_0 [simp]: "ring_segment span high 0 = {}"
  by (simp add: ring_segment_def)

lemma mod_window_inj:
  assumes "k mod span = k' mod span" "k \<le> k'" "k' < k + span"
  shows "k = (k' :: nat)"
proof -
  obtain d where d: "k' = k + d" using assms(2) le_iff_add by blast
  then have "d < span" using assms(3) by simp
  moreover have "span dvd d"
    using assms(1,2) d by (metis add_diff_cancel_left' mod_eq_dvd_iff_nat)
  ultimately have "d = 0" by (metis dvd_imp_le leD neq0_conv)
  then show ?thesis using d by simp
qed

lemma ring_segment_new: "high < k \<Longrightarrow> k \<le> high + d \<Longrightarrow> k mod span \<in> ring_segment span high d"
  by (auto simp: ring_segment_def)

lemma ring_segment_old:
  assumes "k \<le> high" "high + d < k + span"
  shows "k mod span \<notin> ring_segment span high d"
proof
  assume "k mod span \<in> ring_segment span high d"
  then obtain k' where "k mod span = k' mod span" "high < k'" "k' \<le> high + d"
    by (auto simp: ring_segment_def)
  then show False using mod_window_inj [of k span k'] assms by simp
qed

subsection \<open>Sliding windows over a ring\<close>

text \<open>
  The identifiers a ring bitmap of \<open>span\<close> slots marks, when the highest admitted identifier is
  \<open>high\<close> and identifiers start at \<open>lo\<close>: those of the last \<open>span\<close> identifiers whose slot is set.
\<close>

definition window_range :: "nat \<Rightarrow> nat \<Rightarrow> nat \<Rightarrow> nat set" where
  "window_range lo span high = {k. lo \<le> k \<and> k \<le> high \<and> high < k + span}"

definition window_ids :: "nat \<Rightarrow> nat \<Rightarrow> nat \<Rightarrow> u64 list \<Rightarrow> nat set" where
  "window_ids lo span high ws = {k \<in> window_range lo span high. k mod span \<in> bits ws}"

text \<open>Every set slot belongs to an identifier of the window.\<close>

definition window_fits :: "nat \<Rightarrow> nat \<Rightarrow> nat \<Rightarrow> u64 list \<Rightarrow> bool" where
  "window_fits lo span high ws \<longleftrightarrow> bits ws \<subseteq> (\<lambda>k. k mod span) ` window_range lo span high"

lemma window_range_inj: "inj_on (\<lambda>k. k mod span) (window_range lo span high)"
proof (rule inj_onI)
  fix x y assume "x \<in> window_range lo span high" "y \<in> window_range lo span high" "x mod span = y mod span"
  then show "x = y"
    using mod_window_inj [of x span y] mod_window_inj [of y span x]
    by (cases "x \<le> y") (auto simp: window_range_def)
qed

lemma window_card:
  assumes "window_fits lo span high ws"
  shows "card (window_ids lo span high ws) = card (bits ws)"
proof -
  have "bits ws = (\<lambda>k. k mod span) ` window_ids lo span high ws"
    using assms by (auto simp: window_fits_def window_ids_def)
  moreover have "inj_on (\<lambda>k. k mod span) (window_ids lo span high ws)"
    by (rule inj_on_subset [OF window_range_inj]) (auto simp: window_ids_def)
  ultimately show ?thesis by (metis card_image)
qed

lemma window_ids_advance:
  assumes "bits ws' = bits ws - ring_segment span high d"
  shows "window_ids lo span (high + d) ws' = {k \<in> window_ids lo span high ws. high + d < k + span}"
proof (rule set_eqI)
  fix k
  show "k \<in> window_ids lo span (high + d) ws' \<longleftrightarrow> k \<in> {k \<in> window_ids lo span high ws. high + d < k + span}"
  proof (cases "k \<le> high")
    case True
    then show ?thesis
      using ring_segment_old [of k high d span] by (auto simp: assms window_ids_def window_range_def)
  next
    case False
    then show ?thesis
      using ring_segment_new [of high k d span] by (auto simp: assms window_ids_def window_range_def)
  qed
qed

lemma window_fits_advance:
  assumes fits: "window_fits lo span high ws" and b: "bits ws' = bits ws - ring_segment span high d"
    and span: "0 < span" "d < span"
  shows "window_fits lo span (high + d) ws'"
  unfolding window_fits_def
proof
  fix p assume p: "p \<in> bits ws'"
  then obtain k where k: "k \<in> window_range lo span high" "p = k mod span"
    using fits b by (auto simp: window_fits_def)
  have "high + d < k + span"
  proof (rule ccontr)
    assume "\<not> high + d < k + span"
    then have "p \<in> ring_segment span high d"
      using k ring_segment_new [of high "k + span" d span] by (auto simp: window_range_def)
    then show False using p b by simp
  qed
  then show "p \<in> (\<lambda>k. k mod span) ` window_range lo span (high + d)"
    using k by (auto simp: window_range_def)
qed

lemma window_ids_insert:
  assumes "i \<in> window_range lo span high" "bits ws' = insert (i mod span) (bits ws)"
  shows "window_ids lo span high ws' = insert i (window_ids lo span high ws)"
proof -
  have "k mod span = i mod span \<longleftrightarrow> k = i" if "k \<in> window_range lo span high" for k
    using inj_on_eq_iff [OF window_range_inj that assms(1)] .
  then show ?thesis
    using assms by (auto simp: window_ids_def)
qed

lemma window_fits_insert:
  assumes "i \<in> window_range lo span high" "bits ws' = insert (i mod span) (bits ws)"
    "window_fits lo span high ws"
  shows "window_fits lo span high ws'"
  using assms by (auto simp: window_fits_def)

lemma window_ids_empty [simp]: "bits ws = {} \<Longrightarrow> window_ids lo span high ws = {}"
  by (simp add: window_ids_def)

lemma window_fits_empty [simp]: "bits ws = {} \<Longrightarrow> window_fits lo span high ws"
  by (simp add: window_fits_def)

end
