(* ===== verification/RecvWindow.thy ===== *)
theory RecvWindow
  imports Bitmap
begin

text \<open>
  The bounded terminal-identifier history of one v2 receive direction
  (\<^verbatim>\<open>src/internal/recvwindow/window.go\<close>): two ring bitmaps (completed and expired) over the
  last \<open>span\<close> identifiers, a retirement floor, and the operations \<open>New\<close>, \<open>Floor\<close>, \<open>State\<close>,
  \<open>Admit\<close>, \<open>Finish\<close>, \<open>Snapshot\<close> and \<open>Close\<close>. A nil receiver behaves as the zero value, whose
  span is zero. \<open>terminal_history\<close> is the contract the receiver of the v2 data path relies on.
\<close>

subsection \<open>Model\<close>

abbreviation (input) MaxSpan :: nat where "MaxSpan \<equiv> 65536"

datatype recv_status = Unseen | Completed | Expired | Retired | InvalidID | Closed

record Window =
  win_span :: u64
  win_highest :: u64
  win_completed :: "u64 list"
  win_expired :: "u64 list"
  win_completedCount :: int
  win_expiredCount :: int
  win_closed :: bool

datatype recvwindow_error = ErrInvalidSpan

definition New :: "u32 \<Rightarrow> (recvwindow_error, Window) result" where
  "New span =
     (if unat span < 1 \<or> unat span > MaxSpan then Inl ErrInvalidSpan
      else let words = (unat span + 63) div 64
           in Inr \<lparr>win_span = ucast span, win_highest = 0, win_completed = replicate words 0,
                win_expired = replicate words 0, win_completedCount = 0, win_expiredCount = 0,
                win_closed = False\<rparr>)"

definition Floor :: "Window \<Rightarrow> u64" where
  "Floor w = (if win_span w = 0 \<or> win_highest w < win_span w then 1 else win_highest w - win_span w + 1)"

definition State :: "Window \<Rightarrow> u64 \<Rightarrow> recv_status" where
  "State w i =
     (if win_span w = 0 \<or> win_closed w then Closed
      else if i = 0 then InvalidID
      else if i < Floor w then Retired
      else if i > win_highest w then Unseen
      else
        let index = unat (i mod win_span w)
        in if win_completed w ! (index div 64) AND bit_mask index \<noteq> 0 then Completed
           else if win_expired w ! (index div 64) AND bit_mask index \<noteq> 0 then Expired
           else Unseen)"

text \<open>The clearing loop of \<open>Admit\<close>. Its position is always a residue below \<open>span\<close>; the second
  disjunct of the exit test is never taken and only makes the equation total.\<close>

function clear_ring ::
  "nat \<Rightarrow> nat \<Rightarrow> nat \<Rightarrow> u64 list \<Rightarrow> u64 list \<Rightarrow> int \<Rightarrow> int \<Rightarrow> u64 list \<times> u64 list \<times> int \<times> int" where
  "clear_ring span position remaining fin expd dc ec =
     (if remaining = 0 \<or> span \<le> position then (fin, expd, dc, ec)
      else
        let width = min remaining (min (64 - position mod 64) (span - position));
            word = position div 64; mask = run_mask position width
        in clear_ring span ((position + width) mod span) (remaining - width)
             (clear_run position width fin) (clear_run position width expd)
             (dc - int (OnesCount64 (fin ! word AND mask)))
             (ec - int (OnesCount64 (expd ! word AND mask))))"
  by pat_completeness auto
termination
  by (relation "measure (\<lambda>(span, position, remaining, _). remaining)") auto

declare clear_ring.simps [simp del]

definition Admit :: "Window \<Rightarrow> u64 \<Rightarrow> recv_status \<times> Window" where
  "Admit w i =
     (let status = State w i
      in if status \<noteq> Unseen \<or> i \<le> win_highest w then (status, w)
         else
           let distance = i - win_highest w
           in if distance \<ge> win_span w
              then (Unseen, w\<lparr>win_completed := clear_all (win_completed w),
                              win_expired := clear_all (win_expired w),
                              win_completedCount := 0, win_expiredCount := 0, win_highest := i\<rparr>)
              else
                (case clear_ring (unat (win_span w)) (unat ((win_highest w + 1) mod win_span w))
                        (unat distance) (win_completed w) (win_expired w)
                        (win_completedCount w) (win_expiredCount w) of
                   (fin, expd, dc, ec) \<Rightarrow>
                     (Unseen, w\<lparr>win_completed := fin, win_expired := expd,
                                win_completedCount := dc, win_expiredCount := ec, win_highest := i\<rparr>)))"

definition Finish :: "Window \<Rightarrow> u64 \<Rightarrow> recv_status \<Rightarrow> bool \<times> Window" where
  "Finish w i terminal =
     (if win_span w = 0 \<or> (terminal \<noteq> Completed \<and> terminal \<noteq> Expired) \<or> win_closed w \<or> i = 0
         \<or> i > win_highest w
      then (False, w)
      else
        let status = State w i
        in if status = Retired \<or> status = terminal then (True, w)
           else if status \<noteq> Unseen then (False, w)
           else
             let index = unat (i mod win_span w); word = index div 64
             in if terminal = Completed
                then (True, w\<lparr>win_completed := (win_completed w)[word := win_completed w ! word OR bit_mask index],
                              win_completedCount := win_completedCount w + 1\<rparr>)
                else (True, w\<lparr>win_expired := (win_expired w)[word := win_expired w ! word OR bit_mask index],
                              win_expiredCount := win_expiredCount w + 1\<rparr>))"

record recv_Snapshot =
  rs_Span :: u32
  rs_Highest :: u64
  rs_Floor :: u64
  rs_Completed :: int
  rs_Expired :: int
  rs_Closed :: bool

definition Window_Snapshot :: "Window \<Rightarrow> recv_Snapshot" where
  "Window_Snapshot w =
     (if win_span w = 0
      then \<lparr>rs_Span = 0, rs_Highest = 0, rs_Floor = 1, rs_Completed = 0, rs_Expired = 0, rs_Closed = True\<rparr>
      else \<lparr>rs_Span = ucast (win_span w), rs_Highest = win_highest w, rs_Floor = Floor w,
            rs_Completed = win_completedCount w, rs_Expired = win_expiredCount w,
            rs_Closed = win_closed w\<rparr>)"

definition Window_Close :: "Window \<Rightarrow> Window" where
  "Window_Close w =
     (if win_closed w then w
      else w\<lparr>win_closed := True, win_completed := [], win_expired := [],
             win_completedCount := 0, win_expiredCount := 0\<rparr>)"

subsection \<open>Invariant and abstraction\<close>

text \<open>Two bitmaps of one ring, disjoint, exactly counted, and confined to the window.\<close>

definition rings_ok :: "nat \<Rightarrow> nat \<Rightarrow> u64 list \<Rightarrow> u64 list \<Rightarrow> int \<Rightarrow> int \<Rightarrow> bool" where
  "rings_ok span high fin expd dc ec \<longleftrightarrow>
     length fin = (span + 63) div 64 \<and> length expd = (span + 63) div 64 \<and>
     dc = int (card (bits fin)) \<and> ec = int (card (bits expd)) \<and> bits fin \<inter> bits expd = {} \<and>
     window_fits 1 span high fin \<and> window_fits 1 span high expd"

definition window_open :: "Window \<Rightarrow> bool" where
  "window_open w \<longleftrightarrow> win_span w \<noteq> 0 \<and> \<not> win_closed w"

definition window_inv :: "Window \<Rightarrow> bool" where
  "window_inv w \<longleftrightarrow>
     unat (win_span w) \<le> MaxSpan \<and>
     (window_open w \<longrightarrow>
        rings_ok (unat (win_span w)) (unat (win_highest w)) (win_completed w) (win_expired w)
          (win_completedCount w) (win_expiredCount w))"

definition completed_ids :: "Window \<Rightarrow> nat set" where
  "completed_ids w = window_ids 1 (unat (win_span w)) (unat (win_highest w)) (win_completed w)"

definition expired_ids :: "Window \<Rightarrow> nat set" where
  "expired_ids w = window_ids 1 (unat (win_span w)) (unat (win_highest w)) (win_expired w)"

lemma ring_slots: "p < span \<Longrightarrow> p < 64 * ((span + 63) div 64)" for p span :: nat
  using div_mult_mod_eq [of "span + 63" 64] mod_less_divisor [of 64 "span + 63"] by linarith

lemma unat_Floor:
  assumes nz: "win_span w \<noteq> 0"
  shows "unat (Floor w) = max 1 (Suc (unat (win_highest w)) - unat (win_span w))"
proof (cases "win_highest w < win_span w")
  case False
  then have le: "unat (win_span w) \<le> unat (win_highest w)" "0 < unat (win_span w)"
    using nz by (simp_all add: word_less_nat_alt unat_gt_0)
  then have "unat (win_highest w - win_span w) = unat (win_highest w) - unat (win_span w)"
    "win_highest w - win_span w < win_highest w"
    by (simp_all add: word_less_nat_alt unat_sub_if_size)
  then show ?thesis
    using False nz le by (simp add: Floor_def unat_Suc_below Suc_diff_le)
qed (auto simp: Floor_def word_less_nat_alt)

lemma in_window_iff:
  assumes "win_span w \<noteq> 0"
  shows "unat i \<in> window_range 1 (unat (win_span w)) (unat (win_highest w)) \<longleftrightarrow>
     i \<noteq> 0 \<and> \<not> i < Floor w \<and> \<not> i > win_highest w"
proof -
  have "i \<noteq> 0 \<longleftrightarrow> 1 \<le> unat i" by (metis One_nat_def Suc_le_eq unat_gt_0)
  then show ?thesis
    unfolding window_range_def word_less_nat_alt unat_Floor [OF assms] by auto
qed

lemma State_iff:
  assumes inv: "window_inv w" and opn: "window_open w"
  shows "State w i =
     (if i = 0 then InvalidID else if i < Floor w then Retired
      else if unat i \<in> completed_ids w then Completed
      else if unat i \<in> expired_ids w then Expired else Unseen)"
proof (cases "unat i \<in> window_range 1 (unat (win_span w)) (unat (win_highest w))")
  case True
  let ?s = "unat (win_span w)"
  have nz: "win_span w \<noteq> 0" using opn by (simp add: window_open_def)
  then have "unat i mod ?s < ?s" by (simp add: unat_gt_0)
  then have slots: "unat i mod ?s < 64 * length (win_completed w)" "unat i mod ?s < 64 * length (win_expired w)"
    using inv opn ring_slots [of "unat i mod ?s" ?s] by (auto simp: window_inv_def rings_ok_def)
  show ?thesis
    using True opn in_window_iff [OF nz, of i] test_bit [OF slots(1)] test_bit [OF slots(2)]
    by (auto simp: State_def window_open_def completed_ids_def expired_ids_def window_ids_def
        unat_mod_distrib Let_def)
next
  case False
  have nz: "win_span w \<noteq> 0" using opn by (simp add: window_open_def)
  show ?thesis
    using False opn in_window_iff [OF nz, of i]
    by (auto simp: State_def window_open_def completed_ids_def expired_ids_def window_ids_def)
qed

subsection \<open>The clearing loop\<close>

lemma clear_ring_spec:
  assumes "length fin = (span + 63) div 64" "length expd = (span + 63) div 64" "remaining < span"
    and "position = Suc high mod span" "dc = int (card (bits fin))" "ec = int (card (bits expd))"
  shows "\<exists>fin' expd'. clear_ring span position remaining fin expd dc ec
             = (fin', expd', int (card (bits fin')), int (card (bits expd'))) \<and>
           length fin' = (span + 63) div 64 \<and> length expd' = (span + 63) div 64 \<and>
           bits fin' = bits fin - ring_segment span high remaining \<and>
           bits expd' = bits expd - ring_segment span high remaining"
  using assms
proof (induction span position remaining fin expd dc ec arbitrary: high rule: clear_ring.induct)
  case (1 span position remaining fin expd dc ec)
  have pos: "position < span" using "1.prems"(3,4) by simp
  show ?case
  proof (cases "remaining = 0")
    case True
    then show ?thesis using "1.prems" by (auto simp: clear_ring.simps)
  next
    case False
    define width where "width = min remaining (min (64 - position mod 64) (span - position))"
    have guard: "\<not> (remaining = 0 \<or> span \<le> position)" using False pos by simp
    have w: "width \<le> remaining" "position mod 64 + width \<le> 64" "position + width \<le> span"
      using pos mod_less_divisor [of 64 position] by (auto simp: width_def)
    have slot: "position < 64 * length fin" "position < 64 * length expd"
      using ring_slots [OF pos] "1.prems"(1,2) by simp_all
    have seg: "ring_segment span high remaining
        = {position..<position + width} \<union> ring_segment span (high + width) (remaining - width)"
      using ring_segment_step [of span width remaining "Suc high" high] w "1.prems"(3,4) by simp
    have next_pos: "(position + width) mod span = Suc (high + width) mod span"
      by (simp add: "1.prems"(4) mod_add_left_eq)
    have count: "int (card (bits ws)) - int (OnesCount64 (ws ! (position div 64) AND run_mask position width))
        = int (card (bits (clear_run position width ws)))" if "position < 64 * length ws" for ws
      unfolding card_bits_clear_run [OF w(2) that] OnesCount64_run [OF w(2) that]
      by (simp add: card_mono)
    have rest: "remaining - width < span" using "1.prems"(3) by linarith
    obtain fin' expd' where *: "clear_ring span ((position + width) mod span) (remaining - width)
          (clear_run position width fin) (clear_run position width expd)
          (dc - int (OnesCount64 (fin ! (position div 64) AND run_mask position width)))
          (ec - int (OnesCount64 (expd ! (position div 64) AND run_mask position width)))
        = (fin', expd', int (card (bits fin')), int (card (bits expd')))"
      "length fin' = (span + 63) div 64" "length expd' = (span + 63) div 64"
      "bits fin' = bits (clear_run position width fin) - ring_segment span (high + width) (remaining - width)"
      "bits expd' = bits (clear_run position width expd) - ring_segment span (high + width) (remaining - width)"
      using "1.IH" [OF guard width_def refl refl _ _ rest next_pos] "1.prems"(1,2,5,6) count slot by auto
    then have "bits fin' = bits fin - ring_segment span high remaining"
      "bits expd' = bits expd - ring_segment span high remaining"
      unfolding *(4,5) bits_clear_run [OF w(2) slot(1)] bits_clear_run [OF w(2) slot(2)] seg by auto
    then show ?thesis
      using * guard by (simp add: clear_ring.simps [of span position] width_def Let_def)
  qed
qed

lemma rings_ok_advance:
  assumes ok: "rings_ok span high fin expd dc ec" and d: "0 < span" "d < span"
    and res: "clear_ring span (Suc high mod span) d fin expd dc ec = (fin', expd', dc', ec')"
  shows "rings_ok span (high + d) fin' expd' dc' ec' \<and>
    window_ids 1 span (high + d) fin' = {k \<in> window_ids 1 span high fin. high + d < k + span} \<and>
    window_ids 1 span (high + d) expd' = {k \<in> window_ids 1 span high expd. high + d < k + span}"
proof -
  have ok': "length fin = (span + 63) div 64" "length expd = (span + 63) div 64"
    "dc = int (card (bits fin))" "ec = int (card (bits expd))" "bits fin \<inter> bits expd = {}"
    "window_fits 1 span high fin" "window_fits 1 span high expd"
    using ok by (simp_all add: rings_ok_def)
  from clear_ring_spec [where high = high, OF ok'(1,2) d(2) refl ok'(3,4)] res
  have post: "length fin' = (span + 63) div 64" "length expd' = (span + 63) div 64"
    "dc' = int (card (bits fin'))" "ec' = int (card (bits expd'))"
    and b: "bits fin' = bits fin - ring_segment span high d" "bits expd' = bits expd - ring_segment span high d"
    by auto
  have "rings_ok span (high + d) fin' expd' dc' ec'"
    using post b ok'(5) window_fits_advance [OF ok'(6) b(1) d] window_fits_advance [OF ok'(7) b(2) d]
    by (auto simp: rings_ok_def)
  then show ?thesis
    using window_ids_advance [OF b(1), of 1] window_ids_advance [OF b(2), of 1] by simp
qed

subsection \<open>Operations keep the invariant\<close>

lemma window_inv_New: "New span = Inr w \<Longrightarrow> window_inv w \<and> window_open w \<and> win_highest w = 0 \<and>
    completed_ids w = {} \<and> expired_ids w = {}"
proof -
  assume new: "New span = Inr w"
  have "(ucast span :: u64) \<noteq> 0" "unat (ucast span :: u64) = unat span" if "unat span \<ge> 1"
    using that by (auto simp: word_unat_eq_iff)
  then show ?thesis
    using new by (auto simp: New_def window_inv_def window_open_def rings_ok_def completed_ids_def
        expired_ids_def Let_def split: if_splits)
qed

text \<open>What admitting a new identifier above the highest one does.\<close>

lemma Admit_advance:
  assumes inv: "window_inv w" and opn: "window_open w" and new: "win_highest w < i"
    and res: "Admit w i = (st, w')"
  shows "st = Unseen \<and> window_inv w' \<and> window_open w' \<and> win_highest w' = i \<and> win_span w' = win_span w \<and>
    completed_ids w' = {k \<in> completed_ids w. unat i < k + unat (win_span w)} \<and>
    expired_ids w' = {k \<in> expired_ids w. unat i < k + unat (win_span w)}"
proof -
  let ?s = "unat (win_span w)" and ?h = "unat (win_highest w)" and ?d = "unat (i - win_highest w)"
  have d: "unat i = ?h + ?d"
    using new by (simp add: word_less_nat_alt unat_sub_if_size)
  have nz: "win_span w \<noteq> 0" and nc: "\<not> win_closed w" using opn by (auto simp: window_open_def)
  have notle: "\<not> i \<le> win_highest w" using new by simp
  have "i \<noteq> 0" using new by auto
  moreover have "\<not> i < Floor w"
    using new nz unat_gt_0 [of "win_span w"] unfolding word_less_nat_alt unat_Floor [OF nz] by auto
  ultimately have unseen: "State w i = Unseen"
    using new nz nc by (simp add: State_def)
  have rok: "rings_ok ?s ?h (win_completed w) (win_expired w) (win_completedCount w) (win_expiredCount w)"
    and s: "?s \<le> 65536" "0 < ?s"
    using inv opn nz by (simp_all add: window_inv_def unat_gt_0)
  show ?thesis
  proof (cases "win_span w \<le> i - win_highest w")
    case True
    then have far: "?s \<le> ?d" by (simp add: word_le_nat_alt)
    have "w' = w\<lparr>win_completed := clear_all (win_completed w), win_expired := clear_all (win_expired w),
        win_completedCount := 0, win_expiredCount := 0, win_highest := i\<rparr>" "st = Unseen"
      using res unseen notle True by (auto simp: Admit_def Let_def)
    moreover have "{k \<in> window_ids 1 ?s ?h ws. unat i < k + ?s} = {}" for ws
      using far d by (auto simp: window_ids_def window_range_def)
    ultimately show ?thesis
      using nz nc s rok
      by (simp add: window_inv_def window_open_def rings_ok_def completed_ids_def expired_ids_def)
  next
    case False
    then have near: "?d < ?s" by (simp add: word_le_nat_alt)
    have pos: "unat ((win_highest w + 1) mod win_span w) = Suc ?h mod ?s"
      by (simp add: unat_mod_distrib unat_Suc_below [OF new])
    obtain fin' expd' dc' ec' where
      cr: "clear_ring ?s (Suc ?h mod ?s) ?d (win_completed w) (win_expired w) (win_completedCount w)
             (win_expiredCount w) = (fin', expd', dc', ec')"
      by (metis surj_pair)
    then have w': "w' = w\<lparr>win_completed := fin', win_expired := expd', win_completedCount := dc',
        win_expiredCount := ec', win_highest := i\<rparr>" "st = Unseen"
      using res unseen notle False pos cr by (auto simp: Admit_def Let_def)
    show ?thesis
      using rings_ok_advance [OF rok s(2) near cr] nz nc s unfolding d [symmetric]
      by (simp add: w' window_inv_def window_open_def completed_ids_def expired_ids_def)
  qed
qed

lemma Admit_other:
  "\<not> window_open w \<or> i \<le> win_highest w \<Longrightarrow> Admit w i = (State w i, w)"
  by (auto simp: Admit_def State_def window_open_def Let_def)

text \<open>What finishing an admitted identifier does.\<close>

lemma Finish_records:
  assumes inv: "window_inv w" and opn: "window_open w" and tm: "terminal \<in> {Completed, Expired}"
    and i: "i \<noteq> 0" "i \<le> win_highest w" and un: "State w i = Unseen" and res: "Finish w i terminal = (r, w')"
  shows "r \<and> window_inv w' \<and> window_open w' \<and> win_highest w' = win_highest w \<and> win_span w' = win_span w \<and>
    completed_ids w' = (if terminal = Completed then insert (unat i) (completed_ids w) else completed_ids w) \<and>
    expired_ids w' = (if terminal = Expired then insert (unat i) (expired_ids w) else expired_ids w)"
proof -
  let ?s = "unat (win_span w)" and ?h = "unat (win_highest w)"
  let ?p = "unat i mod ?s"
  have nz: "win_span w \<noteq> 0" and nc: "\<not> win_closed w" using opn by (auto simp: window_open_def)
  then have s: "0 < ?s" "?s \<le> 65536" using inv by (simp_all add: window_inv_def unat_gt_0)
  have rok: "rings_ok ?s ?h (win_completed w) (win_expired w) (win_completedCount w) (win_expiredCount w)"
    using inv opn by (simp add: window_inv_def)
  have range: "unat i \<in> window_range 1 ?s ?h"
    using un i in_window_iff [OF nz, of i] State_iff [OF inv opn, of i] by (auto split: if_splits)
  have fresh: "?p \<notin> bits (win_completed w)" "?p \<notin> bits (win_expired w)"
    using un range i State_iff [OF inv opn, of i]
    by (auto simp: completed_ids_def expired_ids_def window_ids_def split: if_splits)
  have slots: "?p < 64 * length (win_completed w)" "?p < 64 * length (win_expired w)"
    using rok ring_slots [of ?p ?s] s by (simp_all add: rings_ok_def)
  note ins = window_ids_insert [OF range] window_fits_insert [OF range]
  have notgt: "\<not> win_highest w < i" using i by simp
  show ?thesis
  proof (cases "terminal = Completed")
    case True
    then have "r" "w' = w\<lparr>win_completed := (win_completed w)[?p div 64 := win_completed w ! (?p div 64) OR bit_mask ?p],
        win_completedCount := win_completedCount w + 1\<rparr>"
      using res nz nc i notgt un by (auto simp: Finish_def unat_mod_distrib Let_def)
    then show ?thesis
      using True ins [OF bits_set [OF slots(1)]] bits_set [OF slots(1)] rok fresh s nz nc
      by (simp add: window_inv_def window_open_def rings_ok_def completed_ids_def expired_ids_def)
  next
    case False
    then have "r" "w' = w\<lparr>win_expired := (win_expired w)[?p div 64 := win_expired w ! (?p div 64) OR bit_mask ?p],
        win_expiredCount := win_expiredCount w + 1\<rparr>" "terminal = Expired"
      using res nz nc i notgt un tm by (auto simp: Finish_def unat_mod_distrib Let_def)
    then show ?thesis
      using ins [OF bits_set [OF slots(2)]] bits_set [OF slots(2)] rok fresh s nz nc
      by (simp add: window_inv_def window_open_def rings_ok_def completed_ids_def expired_ids_def)
  qed
qed

lemma Finish_other:
  assumes "\<not> (window_open w \<and> terminal \<in> {Completed, Expired} \<and> i \<noteq> 0 \<and> i \<le> win_highest w \<and> State w i = Unseen)"
  shows "Finish w i terminal = (window_open w \<and> terminal \<in> {Completed, Expired} \<and> i \<noteq> 0 \<and> i \<le> win_highest w \<and>
      State w i \<in> {Retired, terminal}, w)"
  using assms by (auto simp: Finish_def window_open_def Let_def not_less)

subsection \<open>The contract: statuses only move forward\<close>

text \<open>Once terminal, an identifier keeps its status until it is retired or the history closes.\<close>

fun status_le :: "recv_status \<Rightarrow> recv_status \<Rightarrow> bool" where
  "status_le Unseen t = (t \<noteq> InvalidID)"
| "status_le s t = (t = s \<or> t = Closed \<or> (t = Retired \<and> s \<noteq> InvalidID \<and> s \<noteq> Closed))"

locale monotone_status =
  fixes apply_op :: "'w \<Rightarrow> 'op \<Rightarrow> 'w"
    and status :: "'w \<Rightarrow> 'i \<Rightarrow> 's"
    and below :: "'s \<Rightarrow> 's \<Rightarrow> bool"
    and invar :: "'w \<Rightarrow> bool"
  assumes invar_op: "invar w \<Longrightarrow> invar (apply_op w op)"
    and status_op: "invar w \<Longrightarrow> below (status w i) (status (apply_op w op) i)"
    and below_refl: "below s s"
    and below_trans: "below s t \<Longrightarrow> below t u \<Longrightarrow> below s u"
begin

lemma invar_run: "invar w \<Longrightarrow> invar (foldl apply_op w ops)"
  by (induction ops arbitrary: w) (auto intro: invar_op)

lemma status_run: "invar w \<Longrightarrow> below (status w i) (status (foldl apply_op w ops) i)"
proof (induction ops arbitrary: w)
  case Nil
  then show ?case by (simp add: below_refl)
next
  case (Cons op ops)
  then show ?case
    using below_trans [OF status_op [of w i op] Cons.IH [of "apply_op w op"]] invar_op by simp
qed

end

datatype window_op = OpAdmit u64 | OpFinish u64 recv_status | OpClose

fun window_apply :: "Window \<Rightarrow> window_op \<Rightarrow> Window" where
  "window_apply w (OpAdmit i) = snd (Admit w i)"
| "window_apply w (OpFinish i t) = snd (Finish w i t)"
| "window_apply w OpClose = Window_Close w"

lemma Closed_iff: "State w i = Closed \<longleftrightarrow> \<not> window_open w"
  by (auto simp: State_def window_open_def Let_def split: if_splits)

lemma window_apply_cases:
  assumes "window_inv w"
  obtains "window_apply w op = w"
    | "\<not> window_open (window_apply w op)" "window_inv (window_apply w op)"
    | i where "op = OpAdmit i" "window_open w" "win_highest w < i"
    | i t where "op = OpFinish i t" "window_open w" "t \<in> {Completed, Expired}" "i \<noteq> 0"
        "i \<le> win_highest w" "State w i = Unseen"
proof (cases op)
  case (OpAdmit i)
  then show ?thesis
    using that(1,3) Admit_other [of w i] by (cases "window_open w \<and> win_highest w < i") (auto simp: not_less)
next
  case (OpFinish i t)
  then show ?thesis using that(1,4) Finish_other [of w t i] by fastforce
next
  case OpClose
  then show ?thesis using that(2) assms by (simp add: Window_Close_def window_open_def window_inv_def)
qed

lemma window_inv_apply:
  assumes inv: "window_inv w"
  shows "window_inv (window_apply w op)"
  using inv
proof (cases rule: window_apply_cases [where op = op])
  case 1
  then show ?thesis using inv by simp
next
  case 2
  then show ?thesis by simp
next
  case (3 i)
  obtain st w' where "Admit w i = (st, w')" by force
  with Admit_advance [OF inv 3(2,3) this] 3(1) show ?thesis by simp
next
  case (4 i t)
  obtain b w' where "Finish w i t = (b, w')" by force
  with Finish_records [OF inv 4(2-6) this] 4(1) show ?thesis by simp
qed

lemma Floor_mono:
  "win_span w' = win_span w \<Longrightarrow> win_highest w \<le> win_highest w' \<Longrightarrow> Floor w \<le> Floor w'"
proof (cases "win_span w = 0")
  case False
  assume "win_span w' = win_span w" "win_highest w \<le> win_highest w'"
  then show ?thesis
    using False unfolding word_le_nat_alt by (simp add: unat_Floor)
qed (simp add: Floor_def)

lemma State_apply:
  assumes inv: "window_inv w"
  shows "status_le (State w i) (State (window_apply w op) i)"
  using inv
proof (cases rule: window_apply_cases [where op = op])
  case 1
  then show ?thesis by (cases "State w i") simp_all
next
  case 2
  then have "State (window_apply w op) i = Closed" by (simp add: Closed_iff)
  then show ?thesis by (cases "State w i") simp_all
next
  case (3 j)
  obtain st w' where r: "Admit w j = (st, w')" by force
  note post = Admit_advance [OF inv 3(2,3) r]
  then have fl: "Floor w \<le> Floor w'" using 3(3) by (auto intro!: Floor_mono)
  have floor: "i < Floor w'" if "\<not> unat j < unat i + unat (win_span w)" "i \<noteq> 0"
    using that post 3(2) unat_gt_0 [of i] by (auto simp: window_open_def word_less_nat_alt unat_Floor)
  show ?thesis
    using post fl floor 3(1) r State_iff [OF inv 3(2), of i] State_iff [of w' i] by auto
next
  case (4 j t)
  obtain b w' where r: "Finish w j t = (b, w')" by force
  note post = Finish_records [OF inv 4(2-6) r]
  then have "Floor w' = Floor w" by (simp add: Floor_def)
  moreover have "unat i = unat j \<longleftrightarrow> i = j" by (simp add: word_unat_eq_iff)
  ultimately show ?thesis
    using post 4 r State_iff [OF inv 4(2), of i] State_iff [OF inv 4(2), of j] State_iff [of w' i]
    by (auto split: if_splits)
qed

interpretation recv_history: monotone_status window_apply State status_le window_inv
proof
  fix s t u :: recv_status
  show "status_le s s" by (cases s) simp_all
  show "status_le s t \<Longrightarrow> status_le t u \<Longrightarrow> status_le s u"
    by (cases s; cases t; cases u) simp_all
qed (simp_all add: window_inv_apply State_apply)

text \<open>The windows a program can hold: built by \<open>New\<close> and changed by the operations only.\<close>

definition window_start :: "Window \<Rightarrow> bool" where
  "window_start w \<longleftrightarrow> (\<exists>span. New span = Inr w)"

definition window_step :: "Window \<Rightarrow> Window \<Rightarrow> bool" where
  "window_step w w' \<longleftrightarrow> (\<exists>op. w' = window_apply w op)"

interpretation recv_system: transition_system window_start window_step window_inv
  by unfold_locales (auto simp: window_start_def window_step_def dest: window_inv_New intro: window_inv_apply)

abbreviation window_reachable :: "Window \<Rightarrow> bool" where
  "window_reachable \<equiv> reachable window_start window_step"

lemma reachable_run: "window_reachable w \<Longrightarrow> window_reachable (foldl window_apply w ops)"
proof (induction ops arbitrary: w)
  case (Cons op ops)
  have "window_reachable (window_apply w op)"
    using Cons.prems by (rule reach_step) (auto simp: window_step_def)
  with Cons.IH show ?case by simp
qed simp

text \<open>The abstraction agrees with the statuses the program reports.\<close>

lemma ids_of_status:
  assumes inv: "window_inv w" and opn: "window_open w"
  shows "unat ` {i. State w i = Completed} = completed_ids w"
    and "unat ` {i. State w i = Expired} = expired_ids w"
proof -
  let ?s = "unat (win_span w)" and ?h = "unat (win_highest w)"
  have nz: "win_span w \<noteq> 0" using opn by (simp add: window_open_def)
  have disj: "k \<notin> expired_ids w" if "k \<in> completed_ids w" for k
    using that inv opn by (auto simp: window_inv_def rings_ok_def completed_ids_def expired_ids_def window_ids_def)
  have word: "\<exists>i. k = unat i \<and> i \<noteq> 0 \<and> \<not> i < Floor w" if "k \<in> window_range 1 ?s ?h" for k
  proof -
    have "k < 2 ^ LENGTH(64)"
      using that unat_less_u64 [of "win_highest w"] by (simp add: window_range_def)
    then have "k = unat (word_of_nat k :: u64)" by (simp only: unat_of_nat_eq)
    then show ?thesis using that in_window_iff [OF nz, of "word_of_nat k"] by metis
  qed
  show "unat ` {i. State w i = Completed} = completed_ids w"
    using word State_iff [OF inv opn] by (auto simp: completed_ids_def window_ids_def split: if_splits)
  show "unat ` {i. State w i = Expired} = expired_ids w"
    using word disj State_iff [OF inv opn]
    by (auto simp: expired_ids_def completed_ids_def window_ids_def split: if_splits)
qed

subsection \<open>What an operation does to every status\<close>

lemma Admit_status:
  assumes inv: "window_inv w" and opn: "window_open w" and new: "win_highest w < i" and res: "Admit w i = (st, w')"
  shows "st = Unseen \<and> win_highest w' = i \<and> unat (Floor w') = max 1 (Suc (unat i) - unat (win_span w)) \<and>
         (\<forall>j. State w' j = (if j \<noteq> 0 \<and> j < Floor w' then Retired else State w j))"
proof -
  note post = Admit_advance [OF inv opn new res]
  have fl: "Floor w \<le> Floor w'" using post new by (auto intro!: Floor_mono)
  have uf: "unat (Floor w') = max 1 (Suc (unat i) - unat (win_span w))"
    using post opn by (simp add: unat_Floor window_open_def)
  have "State w' j = (if j \<noteq> 0 \<and> j < Floor w' then Retired else State w j)" for j
  proof (cases "j \<noteq> 0 \<and> \<not> j < Floor w'")
    case True
    then have "unat i < unat j + unat (win_span w)" "\<not> j < Floor w"
      using fl uf by (auto simp: word_less_nat_alt word_le_nat_alt)
    then show ?thesis
      using True post State_iff [OF inv opn, of j] State_iff [of w' j] by auto
  next
    case False
    then show ?thesis using post State_iff [of w' j] State_iff [OF inv opn, of j] by auto
  qed
  then show ?thesis using post uf by blast
qed

lemma Finish_status:
  assumes inv: "window_inv w" and opn: "window_open w" and i: "i \<noteq> 0" "i \<le> win_highest w"
    and t: "t \<in> {Completed, Expired}" and res: "Finish w i t = (ok, w')"
  shows "ok = (State w i \<in> {Unseen, Retired, t}) \<and>
         (\<forall>j. State w' j = (if j = i \<and> State w i = Unseen then t else State w j))"
proof (cases "State w i = Unseen")
  case True
  note post = Finish_records [OF inv opn t i True res]
  then have fl: "Floor w' = Floor w" by (simp add: Floor_def)
  have "unat j = unat i \<longleftrightarrow> j = i" for j by (simp add: word_unat_eq_iff)
  then have "State w' j = (if j = i then t else State w j)" for j
    using post fl t True State_iff [OF inv opn, of i] State_iff [OF inv opn, of j] State_iff [of w' j]
    by (auto split: if_splits)
  then show ?thesis using post True by simp
next
  case False
  then show ?thesis using Finish_other [of w t i] i t res opn by auto
qed

subsection \<open>Properties\<close>

text \<open>C36: a terminal identifier never comes back. Once a reachable history reports an identifier as
  completed, expired or retired, every later sequence of admissions, finishes and closes leaves it
  in the same status, retired, or in a closed history; it can never be admitted as unseen again and
  never changes from completed to expired or back.\<close>

theorem terminal_status_is_final:
  assumes "window_reachable w" "State w i \<in> {Completed, Expired, Retired}"
  shows "State (foldl window_apply w ops) i \<in> {State w i, Retired, Closed}"
  using recv_history.status_run [OF recv_system.reachable_inv [OF assms(1)], of i ops] assms(2)
  by (cases "State w i") auto

definition example_window :: Window where
  "example_window = foldl window_apply
     \<lparr>win_span = 4, win_highest = 0, win_completed = [0], win_expired = [0], win_completedCount = 0,
      win_expiredCount = 0, win_closed = False\<rparr>
     [OpAdmit 5, OpFinish 5 Completed, OpAdmit 6]"

lemma example_window_reachable: "window_reachable example_window"
proof -
  have "window_start \<lparr>win_span = 4, win_highest = 0, win_completed = [0], win_expired = [0],
      win_completedCount = 0, win_expiredCount = 0, win_closed = False\<rparr>"
    unfolding window_start_def by (rule exI [of _ 4]) (simp add: New_def)
  then have "window_reachable \<lparr>win_span = 4, win_highest = 0, win_completed = [0], win_expired = [0],
      win_completedCount = 0, win_expiredCount = 0, win_closed = False\<rparr>"
    by (rule reach_start)
  then show ?thesis
    unfolding example_window_def by (rule reachable_run)
qed

lemma example_window_eq:
  "example_window = \<lparr>win_span = 4, win_highest = 6, win_completed = [2], win_expired = [0],
     win_completedCount = 1, win_expiredCount = 0, win_closed = False\<rparr>"
  by code_simp

theorem terminal_status_is_final_witness:
  "State example_window 5 = Completed \<and>
   State (foldl window_apply example_window [OpFinish 5 Expired, OpAdmit 9]) 5 \<in> {Completed, Retired, Closed}"
proof -
  have "State example_window 5 = Completed" unfolding example_window_eq by code_simp
  then show ?thesis
    using terminal_status_is_final [OF example_window_reachable, of 5 "[OpFinish 5 Expired, OpAdmit 9]"] by simp
qed

text \<open>C37: admitting an identifier moves the retirement floor and nothing else. If a reachable open
  history admits an identifier above its highest one, the result is Unseen, the floor becomes the
  first of the last span identifiers, every nonzero identifier below it is retired, and every other
  identifier keeps its status: the word-by-word ring clearing forgets exactly the retired slots.\<close>

theorem admit_retires_exactly_below_floor:
  assumes "window_reachable w" "State w 0 \<noteq> Closed" "win_highest w < i" "Admit w i = (st, w')"
  shows "st = Unseen \<and> win_highest w' = i \<and> unat (Floor w') = max 1 (Suc (unat i) - unat (win_span w)) \<and>
         (\<forall>j. State w' j = (if j \<noteq> 0 \<and> j < Floor w' then Retired else State w j))"
  using Admit_status [OF recv_system.reachable_inv [OF assms(1)] _ assms(3,4)] assms(2) Closed_iff by blast

theorem admit_retires_exactly_below_floor_witness:
  "\<exists>w'. Admit example_window 9 = (Unseen, w') \<and> unat (Floor w') = 6 \<and> State w' 5 = Retired"
proof -
  have h: "State example_window 0 \<noteq> Closed" "win_highest example_window < 9" "win_span example_window = 4"
    unfolding example_window_eq by (code_simp, simp, simp)
  obtain st w' where r: "Admit example_window 9 = (st, w')" by force
  show ?thesis
    using admit_retires_exactly_below_floor [OF example_window_reachable h(1,2) r] r h(3)
    by (auto simp: word_less_nat_alt)
qed

text \<open>C19: finishing is exact, idempotent and conflict-free. On a reachable open history, finishing an
  admitted identifier succeeds exactly when it is unseen, already retired, or already has that very
  terminal status; it gives an unseen identifier that status and changes no other identifier.\<close>

theorem finish_functional:
  assumes "window_reachable w" "State w 0 \<noteq> Closed" "i \<noteq> 0" "i \<le> win_highest w"
    and "t = Completed \<or> t = Expired" "Finish w i t = (ok, w')"
  shows "ok = (State w i \<in> {Unseen, Retired, t}) \<and>
         (\<forall>j. State w' j = (if j = i \<and> State w i = Unseen then t else State w j))"
  using Finish_status [OF recv_system.reachable_inv [OF assms(1)] _ assms(3,4) _ assms(6)] assms(2,5) Closed_iff by blast

theorem finish_functional_witness:
  "\<exists>w'. Finish example_window 6 Expired = (True, w') \<and> State w' 6 = Expired \<and> State w' 5 = Completed"
proof -
  have h: "State example_window 0 \<noteq> Closed" "(6::u64) \<noteq> 0" "6 \<le> win_highest example_window"
    "State example_window 6 = Unseen" "State example_window 5 = Completed"
    unfolding example_window_eq by (code_simp, simp, simp, code_simp, code_simp)
  obtain ok w' where r: "Finish example_window 6 Expired = (ok, w')" by force
  show ?thesis
    using finish_functional [OF example_window_reachable h(1-3) _ r] r h(4,5) by auto
qed

text \<open>The counters of a snapshot are exact and bounded. In every reachable open history the
  reported numbers are the numbers of identifiers whose status is Completed and Expired, together
  they never exceed the span, and each bitmap holds at most 1024 words.\<close>

theorem snapshot_counts_exact:
  assumes "window_reachable w" "State w 0 \<noteq> Closed"
  shows "rs_Completed (Window_Snapshot w) = int (card {i. State w i = Completed}) \<and>
         rs_Expired (Window_Snapshot w) = int (card {i. State w i = Expired}) \<and>
         rs_Completed (Window_Snapshot w) + rs_Expired (Window_Snapshot w) \<le> int (unat (win_span w)) \<and>
         length (win_completed w) \<le> 1024 \<and> length (win_expired w) \<le> 1024"
proof -
  have inv: "window_inv w" using assms(1) by (rule recv_system.reachable_inv)
  have opn: "window_open w" using assms(2) Closed_iff by blast
  let ?s = "unat (win_span w)" and ?h = "unat (win_highest w)"
  have rok: "rings_ok ?s ?h (win_completed w) (win_expired w) (win_completedCount w) (win_expiredCount w)"
    and s: "?s \<le> 65536" "win_span w \<noteq> 0" "0 < ?s"
    using inv opn by (auto simp: window_inv_def window_open_def unat_gt_0)
  then have cards: "win_completedCount w = int (card (completed_ids w))" "win_expiredCount w = int (card (expired_ids w))"
    by (simp_all add: rings_ok_def completed_ids_def expired_ids_def window_card)
  have below: "k < 18446744073709551616" if "k \<in> window_range 1 ?s ?h" for k
    using that unat_less_u64 [of "win_highest w"] by (simp add: window_range_def)
  have img: "unat ` {i. State w i = Completed} = completed_ids w" "unat ` {i. State w i = Expired} = expired_ids w"
    using ids_of_status [OF inv opn] by auto
  have "card {i. State w i = Completed} = card (completed_ids w)" "card {i. State w i = Expired} = card (expired_ids w)"
    unfolding img [symmetric] by (simp_all add: card_image inj_on_def word_unat_eq_iff)
  moreover have "card (bits (win_completed w) \<union> bits (win_expired w)) \<le> card {..<?s}"
    using rok s(3) by (intro card_mono) (auto simp: rings_ok_def window_fits_def)
  then have "card (bits (win_completed w)) + card (bits (win_expired w)) \<le> ?s"
    using rok by (simp add: card_Un_disjoint rings_ok_def)
  moreover have "(?s + 63) div 64 \<le> 1024" using s(1) by linarith
  ultimately show ?thesis
    using cards s rok by (simp add: Window_Snapshot_def rings_ok_def del: of_nat_unat)
qed

theorem snapshot_counts_exact_witness:
  "rs_Completed (Window_Snapshot example_window) = int (card {i. State example_window i = Completed})"
proof -
  have "State example_window 0 \<noteq> Closed" unfolding example_window_eq by code_simp
  then show ?thesis using snapshot_counts_exact [OF example_window_reachable] by blast
qed

end
