(* ===== verification/Scheduler.thy ===== *)
theory Scheduler
  imports Prelude
begin

text \<open>
  Block scheduling (\<^verbatim>\<open>src/internal/scheduler/scheduler.go\<close>): \<open>Assign\<close> maps the shards of one FEC
  block onto the available paths, starting at a path chosen by the packet identifier.
\<close>

abbreviation (input) MaxShards :: int where "MaxShards \<equiv> 256"
abbreviation (input) MaxPaths :: int where "MaxPaths \<equiv> 256"

datatype scheduler_cause = ErrInvalidShardCount | ErrNoPaths | ErrTooManyShards | ErrTooManyPaths

record CountError =
  ce_Field :: string
  ce_Value :: int
  ce_Min :: int
  ce_Max :: int
  ce_cause :: scheduler_cause

definition countError :: "string \<Rightarrow> int \<Rightarrow> int \<Rightarrow> int \<Rightarrow> scheduler_cause \<Rightarrow> CountError" where
  "countError f v lo hi c = \<lparr>ce_Field = f, ce_Value = v, ce_Min = lo, ce_Max = hi, ce_cause = c\<rparr>"

definition Assign :: "u64 \<Rightarrow> int \<Rightarrow> int \<Rightarrow> (CountError, nat list) result" where
  "Assign packetID shardCount pathCount =
     (if shardCount \<le> 0 then Inl (countError ''shard count'' shardCount 1 MaxShards ErrInvalidShardCount)
      else if shardCount > MaxShards then Inl (countError ''shard count'' shardCount 1 MaxShards ErrTooManyShards)
      else if pathCount \<le> 0 then Inl (countError ''path count'' pathCount 1 MaxPaths ErrNoPaths)
      else if pathCount > MaxPaths then Inl (countError ''path count'' pathCount 1 MaxPaths ErrTooManyPaths)
      else
        let start = unat packetID mod nat pathCount
        in Inr (map (\<lambda>shard. (start + shard) mod nat pathCount) [0..<nat shardCount]))"

subsection \<open>Balance of a rotated assignment\<close>

lemma count_residues:
  assumes "j < m"
  shows "length (filter (\<lambda>s. s mod m = j) [0..<n]) = n div m + (if j < n mod m then 1 else 0)"
proof (induction n)
  case (Suc n)
  have m: "0 < m" using assms by simp
  show ?case
  proof (cases "Suc (n mod m) = m")
    case True
    then have "Suc n mod m = 0" "Suc n div m = Suc (n div m)" by (simp_all add: mod_Suc div_Suc)
    then show ?thesis using Suc True assms by auto
  next
    case False
    then have "Suc n mod m = Suc (n mod m)" "Suc n div m = n div m" by (simp_all add: mod_Suc div_Suc)
    then show ?thesis using Suc by auto
  qed
qed simp

lemma rotate_residue:
  fixes a s m j :: nat
  assumes "j < m"
  shows "(a + s) mod m = j \<longleftrightarrow> s mod m = (j + (m - a mod m)) mod m"
proof -
  have m: "0 < m" "a mod m < m" using assms by simp_all
  have "(a + s) mod m = j \<longleftrightarrow> (a mod m + s) mod m = j" by (simp add: mod_add_left_eq)
  also have "\<dots> \<longleftrightarrow> ((m - a mod m) + (a mod m + s)) mod m = ((m - a mod m) + j) mod m"
  proof
    assume "((m - a mod m) + (a mod m + s)) mod m = ((m - a mod m) + j) mod m"
    then have "(a mod m + ((m - a mod m) + (a mod m + s))) mod m = (a mod m + ((m - a mod m) + j)) mod m"
      by (metis mod_add_right_eq)
    moreover have "a mod m + ((m - a mod m) + x) = m + x" for x using m by simp
    ultimately have "(m + (a mod m + s)) mod m = (m + j) mod m" by metis
    then show "(a mod m + s) mod m = j" using assms by (metis mod_add_self1 mod_less)
  qed (metis mod_add_right_eq)
  also have "(m - a mod m) + (a mod m + s) = m + s" using m by simp
  finally show ?thesis by (simp add: add.commute)
qed

text \<open>How many shards one path carries.\<close>

definition pathLoad :: "nat list \<Rightarrow> nat \<Rightarrow> nat" where
  "pathLoad plan path = length (filter (\<lambda>p. p = path) plan)"

lemma pathLoad_rotation:
  fixes m n a path :: nat
  assumes "path < m"
  shows "pathLoad (map (\<lambda>s. (a + s) mod m) [0..<n]) path
         = n div m + (if (path + (m - a mod m)) mod m < n mod m then 1 else 0)"
proof -
  have "pathLoad (map (\<lambda>s. (a + s) mod m) [0..<n]) path
      = length (filter (\<lambda>s. s mod m = (path + (m - a mod m)) mod m) [0..<n])"
    unfolding pathLoad_def filter_map length_map comp_def rotate_residue [OF assms] ..
  also have "\<dots> = n div m + (if (path + (m - a mod m)) mod m < n mod m then 1 else 0)"
    using assms by (intro count_residues) simp
  finally show ?thesis .
qed

text \<open>C29: scheduling is total, balanced and diverse. For shard and path counts within the limits
  \<open>Assign\<close> succeeds with one existing path per shard; every path carries the floor or the ceiling of
  shards over paths; and any two shards fewer than the path count apart are on different paths, so
  losing one path loses at most the ceiling.\<close>

theorem assign_balanced:
  assumes "0 < shards" "shards \<le> MaxShards" "0 < paths" "paths \<le> MaxPaths"
  shows "\<exists>plan. Assign packetID shards paths = Inr plan \<and> int (length plan) = shards \<and>
           (\<forall>s < length plan. plan ! s = (unat packetID + s) mod nat paths \<and> int (plan ! s) < paths) \<and>
           (\<forall>path < nat paths. pathLoad plan path = nat shards div nat paths \<or>
              pathLoad plan path = (nat shards + nat paths - 1) div nat paths) \<and>
           (\<forall>s t. s < t \<longrightarrow> t < length plan \<longrightarrow> t < s + nat paths \<longrightarrow> plan ! s \<noteq> plan ! t)"
proof -
  let ?m = "nat paths" and ?n = "nat shards"
  let ?plan = "map (\<lambda>s. (unat packetID mod ?m + s) mod ?m) [0..<?n]"
  have m: "0 < ?m" using assms by simp
  have assign: "Assign packetID shards paths = Inr ?plan"
    using assms by (simp add: Assign_def Let_def)
  have nth: "?plan ! s = (unat packetID + s) mod ?m" if "s < ?n" for s
    using that by (simp add: mod_add_left_eq)
  have load: "pathLoad ?plan path = ?n div ?m \<or> pathLoad ?plan path = (?n + ?m - 1) div ?m"
    if path: "path < ?m" for path
  proof (cases "(path + (?m - (unat packetID mod ?m) mod ?m)) mod ?m < ?n mod ?m")
    case True
    then have r: "0 < ?n mod ?m" by (metis less_zeroE neq0_conv)
    have "?n + ?m - 1 = (?n mod ?m - 1) + (?n div ?m + 1) * ?m"
      using r div_mult_mod_eq [of ?n ?m] unfolding add_mult_distrib mult_1_left by linarith
    then have "(?n + ?m - 1) div ?m = (?n mod ?m - 1) div ?m + (?n div ?m + 1)"
      using m by (metis add.commute div_mult_self1 less_not_refl)
    also have "(?n mod ?m - 1) div ?m = 0"
      using m by (simp add: less_imp_diff_less)
    finally show ?thesis
      using True pathLoad_rotation [OF path, of "unat packetID mod ?m" ?n] by simp
  next
    case False
    then show ?thesis
      using pathLoad_rotation [OF path, of "unat packetID mod ?m" ?n] by simp
  qed
  have distinct: "?plan ! s \<noteq> ?plan ! t" if st: "s < t" "t < ?n" "t < s + ?m" for s t
  proof
    assume "?plan ! s = ?plan ! t"
    then have "(unat packetID + s) mod ?m = (unat packetID + t) mod ?m"
      using nth [of s] nth [of t] st by simp
    then have "?m dvd (unat packetID + t) - (unat packetID + s)"
      using st by (metis add_le_cancel_left mod_eq_dvd_iff_nat less_imp_le)
    then have "?m dvd t - s" by simp
    then show False using st by (metis dvd_imp_le less_diff_conv2 less_imp_le not_le zero_less_diff add.commute)
  qed
  show ?thesis
  proof (intro exI conjI allI impI)
    show "Assign packetID shards paths = Inr ?plan" by (rule assign)
  next
    fix s assume "s < length ?plan"
    then have "?plan ! s < ?m" using nth [of s] m by simp
    then show "int (?plan ! s) < paths" by linarith
  qed (use assms nth load distinct in auto)
qed

theorem assign_balanced_witness:
  "\<exists>plan. Assign 7 5 2 = Inr plan \<and> int (length plan) = 5 \<and>
     (\<forall>path < 2. pathLoad plan path = 2 \<or> pathLoad plan path = 3)"
  using assign_balanced [of 5 2 7] by auto

text \<open>Every rejection is one of the four documented dimension errors, and it reports the
  offending value: counts below one or above the limits are rejected and nothing else is.\<close>

theorem assign_rejects:
  "Assign packetID shards paths = Inl e \<longleftrightarrow>
     (\<exists>c. e = countError ''shard count'' shards 1 MaxShards c \<and>
          (shards \<le> 0 \<and> c = ErrInvalidShardCount \<or> MaxShards < shards \<and> c = ErrTooManyShards)) \<or>
     (0 < shards \<and> shards \<le> MaxShards \<and>
      (\<exists>c. e = countError ''path count'' paths 1 MaxPaths c \<and>
          (paths \<le> 0 \<and> c = ErrNoPaths \<or> MaxPaths < paths \<and> c = ErrTooManyPaths)))"
  by (auto simp: Assign_def Let_def)

end
