(* ===== verification/FecEncoder.thy ===== *)
theory FecEncoder
  imports Prelude
begin

text \<open>
  The v0.1 FEC sender (\<^verbatim>\<open>src/internal/fec\<close>: \<^verbatim>\<open>limits.go\<close>, \<^verbatim>\<open>errors.go\<close>, \<^verbatim>\<open>codec.go\<close>,
  \<^verbatim>\<open>encoder.go\<close>): checked derivation of shard and datagram limits, the Reed-Solomon codec as a
  parameter, and the encoder that assigns packet identifiers. Go \<open>int\<close> values are \<open>int\<close>s; every
  product the code computes is shown to stay below \<open>maxInt\<close>.

  The codec is \<^verbatim>\<open>github.com/klauspost/reedsolomon\<close>, which is not part of the sources: it is the
  record \<open>rs_codec\<close>, obtained from a constructor parameter \<open>rs_New\<close>, and \<open>reed_solomon_laws\<close>
  states what its documentation promises. \<open>xor_codec\<close> is a single-parity code that meets the
  laws.
\<close>

subsection \<open>errors.go\<close>

datatype FecError =
    ErrInvalidParameters | ErrInvalidBudget | ErrInvalidDecoderConfig | ErrMessageTooLarge
  | ErrPacketIDExhausted | ErrInvalidShard | ErrInconsistentBlock | ErrConflictingShard
  | ErrDecoderFull | ErrClosed | ErrEncode | ErrDecode

subsection \<open>limits.go\<close>

abbreviation (input) MaxTotalShards :: int where "MaxTotalShards \<equiv> 256"

abbreviation (input) maxWireOriginalLength :: int where "maxWireOriginalLength \<equiv> 4294967295"

record Params =
  DataShards :: int
  ParityShards :: int

record Budget =
  bg_MaxUDPPayload :: int
  bg_DataShardWireOverhead :: int
  bg_MaxDatagramSize :: int

record Limits =
  lm_MaxUDPPayload :: int
  lm_DataShardWireOverhead :: int
  ShardCapacity :: int
  FECDerivedDatagramLimit :: int
  EffectiveDatagramLimit :: int

definition validateParams :: "Params \<Rightarrow> (FecError, int) result" where
  "validateParams params =
     (if DataShards params \<le> 0 then Inl ErrInvalidParameters
      else if ParityShards params \<le> 0 then Inl ErrInvalidParameters
      else if ParityShards params > MaxTotalShards \<or> DataShards params > MaxTotalShards - ParityShards params
        then Inl ErrInvalidParameters
      else Inr (DataShards params + ParityShards params))"

definition DeriveLimits :: "Params \<Rightarrow> Budget \<Rightarrow> (FecError, Limits) result" where
  "DeriveLimits params budget =
     (case validateParams params of
        Inl err \<Rightarrow> Inl err
      | Inr n \<Rightarrow>
          if bg_DataShardWireOverhead budget < 0 then Inl ErrInvalidBudget
          else if bg_MaxUDPPayload budget \<le> bg_DataShardWireOverhead budget then Inl ErrInvalidBudget
          else if bg_MaxDatagramSize budget \<le> 0 then Inl ErrInvalidBudget
          else if bg_MaxDatagramSize budget > maxWireOriginalLength then Inl ErrInvalidBudget
          else
            let capacity = bg_MaxUDPPayload budget - bg_DataShardWireOverhead budget
            in if capacity > maxInt div DataShards params then Inl ErrInvalidBudget
               else if capacity > maxInt div n then Inl ErrInvalidBudget
               else
                 let fecLimit = DataShards params * capacity;
                     effective = min fecLimit (bg_MaxDatagramSize budget)
                 in Inr \<lparr>lm_MaxUDPPayload = bg_MaxUDPPayload budget,
                         lm_DataShardWireOverhead = bg_DataShardWireOverhead budget,
                         ShardCapacity = capacity, FECDerivedDatagramLimit = fecLimit,
                         EffectiveDatagramLimit = effective\<rparr>)"

definition shardSizeForDatagram :: "int \<Rightarrow> int \<Rightarrow> int" where
  "shardSizeForDatagram len dataShards =
     (if len = 0 then 1
      else let r = len div dataShards in if len mod dataShards \<noteq> 0 then r + 1 else r)"

lemma validateParams_iff:
  "validateParams p = Inr t \<longleftrightarrow>
     0 < DataShards p \<and> 0 < ParityShards p \<and> DataShards p + ParityShards p \<le> 256 \<and>
     t = DataShards p + ParityShards p"
  by (auto simp: validateParams_def)

lemma DeriveLimits_iff:
  "DeriveLimits p b = Inr l \<longleftrightarrow>
     validateParams p = Inr (DataShards p + ParityShards p) \<and>
     0 \<le> bg_DataShardWireOverhead b \<and> bg_DataShardWireOverhead b < bg_MaxUDPPayload b \<and>
     0 < bg_MaxDatagramSize b \<and> bg_MaxDatagramSize b \<le> 4294967295 \<and>
     (DataShards p + ParityShards p) * (bg_MaxUDPPayload b - bg_DataShardWireOverhead b) \<le> maxInt \<and>
     l = \<lparr>lm_MaxUDPPayload = bg_MaxUDPPayload b, lm_DataShardWireOverhead = bg_DataShardWireOverhead b,
          ShardCapacity = bg_MaxUDPPayload b - bg_DataShardWireOverhead b,
          FECDerivedDatagramLimit = DataShards p * (bg_MaxUDPPayload b - bg_DataShardWireOverhead b),
          EffectiveDatagramLimit =
            min (DataShards p * (bg_MaxUDPPayload b - bg_DataShardWireOverhead b)) (bg_MaxDatagramSize b)\<rparr>"
proof (cases "validateParams p")
  case (Inl e)
  then show ?thesis by (simp add: DeriveLimits_def)
next
  case (Inr t)
  then have t: "t = DataShards p + ParityShards p" "0 < DataShards p" "DataShards p < t"
    by (simp_all add: validateParams_iff)
  define c where "c = bg_MaxUDPPayload b - bg_DataShardWireOverhead b"
  have quot: "c \<le> maxInt div x \<longleftrightarrow> x * c \<le> maxInt" if "0 < x" for x
    using that by (rule le_div_pos)
  show ?thesis
  proof (cases "0 < c \<and> t * c \<le> maxInt")
    case True
    moreover from this have "DataShards p * c \<le> t * c" using t by (intro mult_right_mono) auto
    ultimately have "DataShards p * c \<le> maxInt" by linarith
    then show ?thesis
      using True Inr t quot [of t] quot [of "DataShards p"]
      by (auto simp: DeriveLimits_def Let_def simp flip: c_def)
  next
    case False
    then show ?thesis
      using Inr t quot [of t] by (auto simp: DeriveLimits_def Let_def c_def)
  qed
qed

lemma shardSize_bounds:
  assumes "0 < k" "0 \<le> n"
  shows "0 < shardSizeForDatagram n k \<and> n \<le> k * shardSizeForDatagram n k \<and>
    (n \<le> k * c \<and> 0 < c \<longrightarrow> shardSizeForDatagram n k \<le> c)"
proof (cases "n = 0")
  case True
  then show ?thesis using assms by (simp add: shardSizeForDatagram_def)
next
  case False
  define q where "q = n div k"
  have n: "n = k * q + n mod k" "0 \<le> n mod k" "n mod k < k"
    using assms by (simp_all add: q_def)
  have q: "0 \<le> q" using assms by (simp add: q_def pos_imp_zdiv_nonneg_iff)
  show ?thesis
  proof (cases "n mod k = 0")
    case True
    then have sz: "shardSizeForDatagram n k = q" using False by (simp add: shardSizeForDatagram_def q_def)
    have "0 < q" using n(1) True False q by (cases "q = 0") auto
    moreover have "q \<le> c" if "n \<le> k * c" using n(1) True that assms(1) by simp
    ultimately show ?thesis using sz n(1) True by simp
  next
    case m: False
    then have sz: "shardSizeForDatagram n k = q + 1" using False by (simp add: shardSizeForDatagram_def q_def)
    have "q + 1 \<le> c" if "n \<le> k * c"
    proof -
      have "k * q < k * c" using n that m by linarith
      then show ?thesis using assms(1) by simp
    qed
    then show ?thesis using sz n q by (simp add: distrib_left)
  qed
qed

subsection \<open>codec.go and the Reed-Solomon contract\<close>

text \<open>A slot of a shard slice is \<open>None\<close> where the Go slice holds \<open>nil\<close>. The operations return
  \<open>None\<close> for an error.\<close>

type_synonym shard = "bytes option"

record rs_codec =
  rs_Encode :: "bytes list \<Rightarrow> bytes list option"
  rs_ReconstructData :: "shard list \<Rightarrow> shard list option"
  rs_Reconstruct :: "shard list \<Rightarrow> shard list option"
  rs_Verify :: "bytes list \<Rightarrow> bool option"

definition newCodec :: "(int \<Rightarrow> int \<Rightarrow> rs_codec option) \<Rightarrow> Params \<Rightarrow> (FecError, rs_codec \<times> int) result" where
  "newCodec rs_New params =
     (case validateParams params of
        Inl err \<Rightarrow> Inl err
      | Inr n \<Rightarrow>
          (case rs_New (DataShards params) (ParityShards params) of
             None \<Rightarrow> Inl ErrInvalidParameters
           | Some c \<Rightarrow> Inr (c, n)))"

text \<open>A received slice agrees with a codeword where it holds a shard at all.\<close>

definition consistent :: "shard list \<Rightarrow> bytes list \<Rightarrow> bool" where
  "consistent ws ys \<longleftrightarrow> length ws = length ys \<and> (\<forall>i < length ys. ws ! i = None \<or> ws ! i = Some (ys ! i))"

definition present_count :: "shard list \<Rightarrow> nat" where
  "present_count ws = length (filter (\<lambda>w. w \<noteq> None) ws)"

text \<open>
  What the codec documents for \<open>k\<close> data and \<open>m\<close> parity shards: \<open>Encode\<close> of equally long, nonempty
  shards leaves the data and fills in parity of the same length; from a codeword with at least \<open>k\<close>
  shards left, \<open>ReconstructData\<close> restores the data shards and \<open>Reconstruct\<close> all of them; \<open>Verify\<close>
  accepts exactly what \<open>Encode\<close> produces.
\<close>

definition reed_solomon_laws :: "nat \<Rightarrow> nat \<Rightarrow> rs_codec \<Rightarrow> bool" where
  "reed_solomon_laws k m c \<longleftrightarrow>
     (\<forall>xs s. length xs = k + m \<and> 0 < s \<and> (\<forall>x \<in> set xs. length x = s) \<longrightarrow>
        (\<exists>ps. rs_Encode c xs = Some (take k xs @ ps) \<and> length ps = m \<and> (\<forall>p \<in> set ps. length p = s) \<and>
              rs_Encode c (take k xs @ ps) = Some (take k xs @ ps))) \<and>
     (\<forall>xs ys ws. rs_Encode c xs = Some ys \<and> consistent ws ys \<and> k \<le> present_count ws \<longrightarrow>
        (\<exists>zs. rs_ReconstructData c ws = Some zs \<and> length zs = k + m \<and> (\<forall>i < k. zs ! i = Some (ys ! i))) \<and>
        rs_Reconstruct c ws = Some (map Some ys)) \<and>
     (\<forall>xs s. length xs = k + m \<and> 0 < s \<and> (\<forall>x \<in> set xs. length x = s) \<longrightarrow>
        (rs_Verify c xs = Some True \<longleftrightarrow> rs_Encode c xs = Some xs) \<and> rs_Verify c xs \<noteq> None)"

lemma rs_encode:
  assumes "reed_solomon_laws k m c" "length xs = k + m" "0 < s" "\<And>x. x \<in> set xs \<Longrightarrow> length x = s"
  obtains ps where "rs_Encode c xs = Some (take k xs @ ps)" "length ps = m"
    "\<And>p. p \<in> set ps \<Longrightarrow> length p = s" "rs_Encode c (take k xs @ ps) = Some (take k xs @ ps)"
proof -
  have "\<exists>ps. rs_Encode c xs = Some (take k xs @ ps) \<and> length ps = m \<and> (\<forall>p \<in> set ps. length p = s) \<and>
      rs_Encode c (take k xs @ ps) = Some (take k xs @ ps)"
    using assms(2-4) assms(1) [unfolded reed_solomon_laws_def, THEN conjunct1, rule_format, of xs s] by simp
  then show ?thesis using that by blast
qed

lemma rs_reconstruct:
  assumes "reed_solomon_laws k m c" "rs_Encode c xs = Some ys" "consistent ws ys" "k \<le> present_count ws"
  obtains zs where "rs_ReconstructData c ws = Some zs" "length zs = k + m" "\<And>i. i < k \<Longrightarrow> zs ! i = Some (ys ! i)"
  using assms(2-4) assms(1) [unfolded reed_solomon_laws_def, THEN conjunct2, THEN conjunct1, rule_format, of xs ys ws]
  by blast

text \<open>A single-parity code: the parity shard is the exclusive or of the data shards.\<close>

definition xor_column :: "bytes list \<Rightarrow> nat \<Rightarrow> byte" where
  "xor_column xs j = foldr (\<lambda>x a. x ! j XOR a) xs 0"

definition xor_shards :: "nat \<Rightarrow> bytes list \<Rightarrow> bytes" where
  "xor_shards s xs = map (xor_column xs) [0..<s]"

definition xor_encode :: "nat \<Rightarrow> bytes list \<Rightarrow> bytes list option" where
  "xor_encode k xs =
     (if length xs = k + 1 \<and> length (hd xs) \<noteq> 0 \<and> (\<forall>x \<in> set xs. length x = length (hd xs))
      then Some (take k xs @ [xor_shards (length (hd xs)) (take k xs)]) else None)"

definition xor_reconstruct :: "nat \<Rightarrow> shard list \<Rightarrow> shard list option" where
  "xor_reconstruct k ws =
     (let held = List.map_filter (\<lambda>w. w) ws
      in if length ws = k + 1 \<and> k \<le> length held
         then Some (map (\<lambda>w. case w of None \<Rightarrow> Some (xor_shards (length (hd held)) held) | Some x \<Rightarrow> Some x) ws)
         else None)"

definition xor_codec :: "nat \<Rightarrow> rs_codec" where
  "xor_codec k =
     \<lparr>rs_Encode = xor_encode k, rs_ReconstructData = xor_reconstruct k, rs_Reconstruct = xor_reconstruct k,
      rs_Verify = (\<lambda>xs. map_option (\<lambda>ys. ys = xs) (xor_encode k xs))\<rparr>"

lemma xor_column_append: "xor_column (xs @ ys) j = xor_column xs j XOR xor_column ys j"
  by (induction xs) (simp_all add: xor_column_def xor.assoc)

lemma xor_column_Cons: "xor_column (x # xs) j = x ! j XOR xor_column xs j"
  by (simp add: xor_column_def)

lemma xor_encode_Some:
  assumes "xor_encode k xs = Some ys"
  obtains s where "0 < s" "length ys = k + 1" "\<And>y. y \<in> set ys \<Longrightarrow> length y = s"
    "\<And>j. j < s \<Longrightarrow> xor_column ys j = 0"
proof -
  let ?s = "length (hd xs)" and ?d = "take k xs"
  have a: "length xs = k + 1" "?s \<noteq> 0" "\<forall>x \<in> set xs. length x = ?s" and ys: "ys = ?d @ [xor_shards ?s ?d]"
    using assms by (auto simp: xor_encode_def split: if_splits)
  have "xor_column ys j = 0" if "j < ?s" for j
    using that unfolding ys by (simp add: xor_column_append xor_column_Cons xor_shards_def) (simp add: xor_column_def)
  moreover have "length y = ?s" if "y \<in> set ys" for y
    using that a(3) by (auto simp: ys xor_shards_def dest: in_set_takeD)
  moreover have "length ys = k + 1" using a(1) by (simp add: ys)
  ultimately show ?thesis using a(2) that by blast
qed

lemma held_append [simp]:
  "List.map_filter (\<lambda>w. w) (us @ vs) = List.map_filter (\<lambda>w. w) us @ List.map_filter (\<lambda>w. w) vs"
  by (simp add: List.map_filter_def)

lemma held_Cons [simp]:
  "List.map_filter (\<lambda>w. w) (w # vs) = (case w of None \<Rightarrow> [] | Some x \<Rightarrow> [x]) @ List.map_filter (\<lambda>w. w) vs"
  by (simp add: List.map_filter_def split: option.split)

lemma held_Some [simp]: "List.map_filter (\<lambda>w. w) (map Some xs) = xs"
  by (simp add: List.map_filter_def comp_def)

lemma present_count_held: "present_count ws = length (List.map_filter (\<lambda>w. w) ws)"
  by (simp add: present_count_def List.map_filter_def)

lemma consistent_one_missing:
  assumes "consistent ws ys" "length ys = k + 1" "k \<le> present_count ws"
  shows "ws = map Some ys \<or> (\<exists>us y vs. ys = us @ y # vs \<and> ws = map Some us @ None # map Some vs)"
proof (cases "None \<in> set ws")
  case False
  have "ws = map Some ys"
  proof (rule nth_equalityI)
    fix i assume i: "i < length ws"
    then have "ws ! i \<noteq> None" using False nth_mem by metis
    then show "ws ! i = map Some ys ! i" using assms(1) i by (auto simp: consistent_def)
  qed (use assms(1) in \<open>simp add: consistent_def\<close>)
  then show ?thesis ..
next
  case True
  then obtain as bs where ws: "ws = as @ None # bs" by (meson split_list)
  have len: "length ws = k + 1" using assms(1,2) by (simp add: consistent_def)
  have "length (filter (\<lambda>w. w \<noteq> None) as) + length (filter (\<lambda>w. w \<noteq> None) bs) \<ge> length as + length bs"
    using assms(3) len by (simp add: ws present_count_def)
  moreover have "length (filter (\<lambda>w. w \<noteq> None) zs) < length zs" if "None \<in> set zs" for zs :: "shard list"
    using that by (intro length_filter_less) auto
  ultimately have full: "None \<notin> set as" "None \<notin> set bs"
    using length_filter_le [of "\<lambda>w. w \<noteq> None" as] length_filter_le [of "\<lambda>w. w \<noteq> None" bs]
    by (meson add_less_le_mono add_le_less_mono not_le)+
  let ?us = "take (length as) ys" and ?vs = "drop (Suc (length as)) ys"
  have n: "length as < length ys" using len assms(2) by (simp add: ws)
  have each: "ws ! i = Some (ys ! i)" if "i < length ws" "ws ! i \<noteq> None" for i
    using assms(1) that by (auto simp: consistent_def)
  have "as = map Some ?us"
  proof (rule nth_equalityI)
    fix i assume i: "i < length as"
    then have "as ! i \<noteq> None" using full(1) nth_mem [OF i] by metis
    then show "as ! i = map Some ?us ! i" using each [of i] i n len by (simp add: ws nth_append)
  qed (use n in simp)
  moreover have "bs = map Some ?vs"
  proof (rule nth_equalityI)
    fix i assume i: "i < length bs"
    then have "bs ! i \<noteq> None" using full(2) nth_mem [OF i] by metis
    then show "bs ! i = map Some ?vs ! i"
      using each [of "Suc (length as) + i"] i n len assms(2) by (simp add: ws nth_append)
  qed (use n len assms(2) in \<open>simp add: ws\<close>)
  ultimately show ?thesis using ws id_take_nth_drop [OF n] by metis
qed

lemma xor_zero_eq: "a XOR b = 0 \<Longrightarrow> a = (b :: 'a::len word)"
  by (simp add: bit_eq_iff bit_xor_iff)

lemma xor_reconstruct_codeword:
  assumes enc: "xor_encode k xs = Some ys" and k: "0 < k" and ws: "consistent ws ys" "k \<le> present_count ws"
  shows "xor_reconstruct k ws = Some (map Some ys)"
proof -
  obtain s where s: "0 < s" "length ys = k + 1" "\<And>y. y \<in> set ys \<Longrightarrow> length y = s" "\<And>j. j < s \<Longrightarrow> xor_column ys j = 0"
    using xor_encode_Some [OF enc] by blast
  have len: "length ws = k + 1" using ws(1) s(2) by (simp add: consistent_def)
  from consistent_one_missing [OF ws(1) s(2) ws(2)] show ?thesis
  proof
    assume "ws = map Some ys"
    then show ?thesis using s(2) by (simp add: xor_reconstruct_def comp_def)
  next
    assume "\<exists>us y vs. ys = us @ y # vs \<and> ws = map Some us @ None # map Some vs"
    then obtain us y vs where ys: "ys = us @ y # vs" and w: "ws = map Some us @ None # map Some vs" by blast
    have y: "length y = s" using s(3) by (simp add: ys)
    have col: "xor_column (us @ vs) j = y ! j" if "j < s" for j
    proof -
      have "xor_column us j XOR (y ! j XOR xor_column vs j) = 0"
        using s(4) [OF that] by (simp add: ys xor_column_append xor_column_Cons)
      then have "(xor_column us j XOR xor_column vs j) XOR y ! j = 0"
        by (simp add: xor.assoc xor.commute xor.left_commute)
      then have "xor_column us j XOR xor_column vs j = y ! j"
        by (rule xor_zero_eq)
      then show ?thesis by (simp add: xor_column_append)
    qed
    have "us @ vs \<noteq> []" using s(2) k by (auto simp: ys)
    then have "length (hd (us @ vs)) = s" using s(3) hd_in_set [of "us @ vs"] by (auto simp: ys)
    then have fill: "xor_shards (length (hd (us @ vs))) (us @ vs) = y"
      using y col by (simp only: xor_shards_def list_eq_iff_nth_eq) simp
    have held: "List.map_filter (\<lambda>w. w) ws = us @ vs" by (simp add: w)
    have "k \<le> length (us @ vs)" using s(2) by (simp add: ys)
    then show ?thesis
      unfolding xor_reconstruct_def Let_def held fill using len by (simp add: w ys comp_def)
  qed
qed

lemma xor_encode_shape:
  assumes "length xs = k + 1" "0 < s" "\<And>x. x \<in> set xs \<Longrightarrow> length x = s"
  shows "xor_encode k xs = Some (take k xs @ [xor_shards s (take k xs)])"
proof -
  have "length (hd xs) = s" using assms(1,3) by (cases xs) auto
  then show ?thesis using assms by (simp add: xor_encode_def)
qed

lemma xor_codec_laws: "0 < k \<Longrightarrow> reed_solomon_laws k 1 (xor_codec k)"
  unfolding reed_solomon_laws_def
proof (intro conjI allI impI)
  fix xs :: "bytes list" and s
  assume a: "length xs = k + 1 \<and> 0 < s \<and> (\<forall>x \<in> set xs. length x = s)"
  then have e: "xor_encode k xs = Some (take k xs @ [xor_shards s (take k xs)])"
    by (intro xor_encode_shape) auto
  moreover have "xor_encode k (take k xs @ [xor_shards s (take k xs)]) = Some (take k xs @ [xor_shards s (take k xs)])"
    by (subst xor_encode_shape [where s = s]) (use a in \<open>auto simp: xor_shards_def dest: in_set_takeD\<close>)
  ultimately show "\<exists>ps. rs_Encode (xor_codec k) xs = Some (take k xs @ ps) \<and> length ps = 1 \<and> (\<forall>p \<in> set ps. length p = s) \<and>
      rs_Encode (xor_codec k) (take k xs @ ps) = Some (take k xs @ ps)"
    by (intro exI [of _ "[xor_shards s (take k xs)]"]) (simp add: xor_codec_def xor_shards_def)
  show "(rs_Verify (xor_codec k) xs = Some True) = (rs_Encode (xor_codec k) xs = Some xs)"
    "rs_Verify (xor_codec k) xs \<noteq> None"
    using e by (auto simp: xor_codec_def)
next
  fix xs ys ws
  assume k: "0 < k" and a: "rs_Encode (xor_codec k) xs = Some ys \<and> consistent ws ys \<and> k \<le> present_count ws"
  then have r: "xor_reconstruct k ws = Some (map Some ys)"
    using xor_reconstruct_codeword [of k xs ys ws] by (simp add: xor_codec_def)
  have "length ys = k + 1" using a xor_encode_Some [of k xs ys] by (auto simp: xor_codec_def)
  then show "\<exists>zs. rs_ReconstructData (xor_codec k) ws = Some zs \<and> length zs = k + 1 \<and> (\<forall>i < k. zs ! i = Some (ys ! i))"
    using r by (simp add: xor_codec_def)
  show "rs_Reconstruct (xor_codec k) ws = Some (map Some ys)" using r by (simp add: xor_codec_def)
qed

subsection \<open>encoder.go\<close>

record EncodedBlock =
  eb_PacketID :: u64
  eb_OriginalLength :: int
  eb_Params :: Params
  eb_Shards :: "bytes list"

record Encoder =
  en_params :: Params
  en_limits :: Limits
  en_codec :: rs_codec
  en_total :: int
  en_next :: u64
  en_exhausted :: bool

definition newEncoderAt ::
    "(int \<Rightarrow> int \<Rightarrow> rs_codec option) \<Rightarrow> Params \<Rightarrow> Budget \<Rightarrow> u64 \<Rightarrow> bool \<Rightarrow> (FecError, Encoder) result" where
  "newEncoderAt rs_New params budget next_id exh =
     (case DeriveLimits params budget of
        Inl err \<Rightarrow> Inl err
      | Inr limits \<Rightarrow>
          (case newCodec rs_New params of
             Inl err \<Rightarrow> Inl err
           | Inr (c, n) \<Rightarrow>
               Inr \<lparr>en_params = params, en_limits = limits, en_codec = c, en_total = n,
                    en_next = next_id, en_exhausted = exh\<rparr>))"

definition NewEncoder ::
    "(int \<Rightarrow> int \<Rightarrow> rs_codec option) \<Rightarrow> Params \<Rightarrow> Budget \<Rightarrow> (FecError, Encoder) result" where
  "NewEncoder rs_New params budget = newEncoderAt rs_New params budget 0 False"

text \<open>The shard storage before parity: one zeroed backing array cut into \<open>total\<close> shards, with the
  payload copied over its data part.\<close>

definition shard_storage :: "nat \<Rightarrow> nat \<Rightarrow> nat \<Rightarrow> bytes \<Rightarrow> bytes list" where
  "shard_storage n k s payload =
     (let backing = replicate (n * s) 0;
          backing = go_copy (take (k * s) backing) payload @ drop (k * s) backing
      in map (\<lambda>index. slice (index * s) (index * s + s) backing) [0..<n])"

definition Encode :: "bytes \<Rightarrow> Encoder \<Rightarrow> (FecError, EncodedBlock) result \<times> Encoder" where
  "Encode payload e =
     (if int (length payload) > EffectiveDatagramLimit (en_limits e) then (Inl ErrMessageTooLarge, e)
      else if en_exhausted e then (Inl ErrPacketIDExhausted, e)
      else
        let shardSize = shardSizeForDatagram (int (length payload)) (DataShards (en_params e))
        in if shardSize > ShardCapacity (en_limits e) then (Inl ErrMessageTooLarge, e)
           else if shardSize > maxInt div en_total e then (Inl ErrEncode, e)
           else
             (case rs_Encode (en_codec e)
                     (shard_storage (nat (en_total e)) (nat (DataShards (en_params e))) (nat shardSize) payload) of
                None \<Rightarrow> (Inl ErrEncode, e)
              | Some shards \<Rightarrow>
                  let packetID = en_next e;
                      e' = (if packetID = - 1 then e\<lparr>en_exhausted := True\<rparr>
                            else e\<lparr>en_next := packetID + 1\<rparr>)
                  in (Inr \<lparr>eb_PacketID = packetID, eb_OriginalLength = int (length payload),
                           eb_Params = en_params e, eb_Shards = shards\<rparr>, e')))"

text \<open>Consecutive calls of \<open>Encode\<close> on one encoder.\<close>

fun encode_all :: "bytes list \<Rightarrow> Encoder \<Rightarrow> (FecError, EncodedBlock) result list \<times> Encoder" where
  "encode_all [] e = ([], e)"
| "encode_all (p # ps) e =
     (case Encode p e of (r, e') \<Rightarrow> (case encode_all ps e' of (rs, e'') \<Rightarrow> (r # rs, e'')))"

definition emitted :: "(FecError, EncodedBlock) result list \<Rightarrow> EncodedBlock list" where
  "emitted rs = List.map_filter (\<lambda>r. case r of Inl err \<Rightarrow> None | Inr b \<Rightarrow> Some b) rs"

subsection \<open>The encoder is sound\<close>

text \<open>What \<open>newEncoderAt\<close> establishes and \<open>Encode\<close> keeps.\<close>

definition encoder_ok :: "Encoder \<Rightarrow> bool" where
  "encoder_ok e \<longleftrightarrow>
     (\<exists>b. DeriveLimits (en_params e) b = Inr (en_limits e)) \<and>
     en_total e = DataShards (en_params e) + ParityShards (en_params e) \<and>
     reed_solomon_laws (nat (DataShards (en_params e))) (nat (ParityShards (en_params e))) (en_codec e)"

lemma newEncoderAt_Inr:
  assumes "newEncoderAt rs_New p b i x = Inr e"
  shows "DeriveLimits p b = Inr (en_limits e) \<and> rs_New (DataShards p) (ParityShards p) = Some (en_codec e) \<and>
    en_params e = p \<and> en_total e = DataShards p + ParityShards p \<and> en_next e = i \<and> en_exhausted e = x"
  using assms
  by (auto simp: newEncoderAt_def newCodec_def validateParams_iff split: sum.splits option.splits)

lemma shard_storage_shape:
  assumes "k \<le> n" "length payload \<le> k * s"
  shows "length (shard_storage n k s payload) = n \<and> (\<forall>x \<in> set (shard_storage n k s payload). length x = s) \<and>
    concat (take k (shard_storage n k s payload)) = payload @ replicate (k * s - length payload) 0"
proof -
  define backing :: bytes where
    "backing = go_copy (take (k * s) (replicate (n * s) 0)) payload @ drop (k * s) (replicate (n * s) 0)"
  have ks: "k * s \<le> n * s" using assms(1) by (rule mult_le_mono1)
  have len: "length backing = n * s" using ks by (simp add: backing_def)
  have sh: "shard_storage n k s payload = map (\<lambda>i. slice (i * s) (i * s + s) backing) [0..<n]"
    by (simp add: shard_storage_def backing_def Let_def)
  have "min s (n * s - i * s) = s" if "i < n" for i
  proof -
    have "Suc i * s \<le> n * s" using that by (intro mult_le_mono1) simp
    then show ?thesis by simp
  qed
  then have "\<forall>x \<in> set (shard_storage n k s payload). length x = s" by (auto simp: sh len)
  moreover have "take k (shard_storage n k s payload) = map (\<lambda>i. slice (i * s) (i * s + s) backing) [0..<k]"
    using assms(1) by (simp add: sh take_map)
  then have "concat (take k (shard_storage n k s payload)) = take (k * s) backing"
    by (simp only: concat_slices)
  moreover have "take (k * s) backing = payload @ replicate (k * s - length payload) 0"
    using ks assms(2) by (simp add: backing_def go_copy_def)
  ultimately show ?thesis by (simp add: sh)
qed

lemma Encode_ok_cases:
  assumes ok: "encoder_ok e" and len: "int (length payload) \<le> EffectiveDatagramLimit (en_limits e)"
    and live: "\<not> en_exhausted e"
  shows "\<exists>shards.
    Encode payload e = (Inr \<lparr>eb_PacketID = en_next e, eb_OriginalLength = int (length payload),
        eb_Params = en_params e, eb_Shards = shards\<rparr>,
        if en_next e = - 1 then e\<lparr>en_exhausted := True\<rparr> else e\<lparr>en_next := en_next e + 1\<rparr>) \<and>
    length shards = nat (en_total e) \<and>
    (\<forall>x \<in> set shards. int (length x) = shardSizeForDatagram (int (length payload)) (DataShards (en_params e))) \<and>
    shardSizeForDatagram (int (length payload)) (DataShards (en_params e)) \<le> ShardCapacity (en_limits e) \<and>
    take (length payload) (concat (take (nat (DataShards (en_params e))) shards)) = payload \<and>
    rs_Encode (en_codec e) shards = Some shards"
proof -
  let ?k = "DataShards (en_params e)" and ?m = "ParityShards (en_params e)"
  let ?s = "shardSizeForDatagram (int (length payload)) ?k"
  obtain b where lim: "DeriveLimits (en_params e) b = Inr (en_limits e)" using ok by (auto simp: encoder_ok_def)
  have pos: "0 < ?k" "0 < ?m" and tot: "en_total e = ?k + ?m"
    using lim ok by (simp_all add: DeriveLimits_iff validateParams_iff encoder_ok_def)
  let ?c = "ShardCapacity (en_limits e)"
  have c: "0 < ?c" "int (length payload) \<le> ?k * ?c" "en_total e * ?c \<le> maxInt"
    using lim len tot by (auto simp: DeriveLimits_iff)
  have s: "0 < ?s" "int (length payload) \<le> ?k * ?s" "?s \<le> ?c"
    using shardSize_bounds [OF pos(1), of "int (length payload)" ?c] c by auto
  have fits: "?s \<le> maxInt div en_total e"
  proof -
    have "en_total e * ?s \<le> en_total e * ?c" using s tot pos by (intro mult_left_mono) auto
    then show ?thesis using c(3) tot pos le_div_pos [of "en_total e" ?s maxInt] by linarith
  qed
  let ?st = "shard_storage (nat (en_total e)) (nat ?k) (nat ?s) payload"
  have n: "nat (en_total e) = nat ?k + nat ?m" using tot pos by simp
  have "length payload \<le> nat ?k * nat ?s"
    using s(2) pos s(1) by (simp add: nat_mult_distrib [symmetric] le_nat_iff)
  moreover have "nat ?k \<le> nat (en_total e)" using n by simp
  ultimately have shape: "length ?st = nat (en_total e)" "\<forall>x \<in> set ?st. length x = nat ?s"
    "concat (take (nat ?k) ?st) = payload @ replicate (nat ?k * nat ?s - length payload) 0"
    using shard_storage_shape [of "nat ?k" "nat (en_total e)" payload "nat ?s"] by blast+
  have laws: "reed_solomon_laws (nat ?k) (nat ?m) (en_codec e)" using ok by (simp add: encoder_ok_def)
  have s0: "0 < nat ?s" using s(1) by simp
  obtain ps where ps: "rs_Encode (en_codec e) ?st = Some (take (nat ?k) ?st @ ps)" "length ps = nat ?m"
    "\<And>p. p \<in> set ps \<Longrightarrow> length p = nat ?s"
    "rs_Encode (en_codec e) (take (nat ?k) ?st @ ps) = Some (take (nat ?k) ?st @ ps)"
    using rs_encode [OF laws trans [OF shape(1) n] s0 bspec [OF shape(2)]] by blast
  let ?sh = "take (nat ?k) ?st @ ps"
  have take_sh: "take (nat ?k) ?sh = take (nat ?k) ?st" using shape(1) n by simp
  show ?thesis
  proof (intro exI [of _ ?sh] conjI ballI)
    show "Encode payload e = (Inr \<lparr>eb_PacketID = en_next e, eb_OriginalLength = int (length payload),
        eb_Params = en_params e, eb_Shards = ?sh\<rparr>,
        if en_next e = - 1 then e\<lparr>en_exhausted := True\<rparr> else e\<lparr>en_next := en_next e + 1\<rparr>)"
      using len live s(3) fits ps(1) by (simp add: Encode_def Let_def)
    show "length ?sh = nat (en_total e)" using shape(1) n ps(2) by simp
    show "int (length x) = ?s" if "x \<in> set ?sh" for x
    proof -
      have "x \<in> set ?st \<or> x \<in> set ps" using that by (metis Un_iff in_set_takeD set_append)
      then have "length x = nat ?s" using shape(2) ps(3) by metis
      then show ?thesis using s(1) by simp
    qed
    show "?s \<le> ?c" by (rule s(3))
    show "take (length payload) (concat (take (nat ?k) ?sh)) = payload"
      unfolding take_sh shape(3) by simp
    show "rs_Encode (en_codec e) ?sh = Some ?sh" by (rule ps(4))
  qed
qed

lemma Encode_rejects:
  "int (length payload) > EffectiveDatagramLimit (en_limits e) \<Longrightarrow> Encode payload e = (Inl ErrMessageTooLarge, e)"
  "int (length payload) \<le> EffectiveDatagramLimit (en_limits e) \<Longrightarrow> en_exhausted e \<Longrightarrow>
     Encode payload e = (Inl ErrPacketIDExhausted, e)"
  by (simp_all add: Encode_def)

lemma emitted_Cons:
  "emitted (r # rs) = (case r of Inl err \<Rightarrow> [] | Inr b \<Rightarrow> [b]) @ emitted rs"
  by (simp add: emitted_def List.map_filter_def split: sum.split)

text \<open>How a call moves the identifier counter.\<close>

lemma Encode_counter:
  "Encode payload e = (r, e') \<Longrightarrow>
     (case r of
        Inl err \<Rightarrow> e' = e
      | Inr b \<Rightarrow> \<not> en_exhausted e \<and> eb_PacketID b = en_next e \<and>
          e' = (if en_next e = - 1 then e\<lparr>en_exhausted := True\<rparr> else e\<lparr>en_next := en_next e + 1\<rparr>))"
  by (auto simp: Encode_def Let_def split: if_splits option.splits)

lemma encode_all_ids:
  assumes "encode_all ps e = (rs, e')"
    and "if en_exhausted e then j = 2 ^ 64 else j < 2 ^ 64 \<and> en_next e = word_of_nat j"
  shows "map eb_PacketID (emitted rs) = map word_of_nat [j..<j + length (emitted rs)] \<and>
    j + length (emitted rs) \<le> 2 ^ 64"
  using assms
proof (induction ps arbitrary: e rs j)
  case Nil
  then show ?case by (auto simp: emitted_def List.map_filter_def split: if_splits)
next
  case (Cons p ps)
  obtain r e1 where r: "Encode p e = (r, e1)" by force
  obtain rs' where rs': "encode_all ps e1 = (rs', e')" "rs = r # rs'"
    using Cons.prems(1) r by (auto split: prod.splits)
  note step = Encode_counter [OF r]
  show ?case
  proof (cases r)
    case (Inl err)
    then have "e1 = e" using step by simp
    then show ?thesis
      using Cons.IH [OF rs'(1), of j] Cons.prems(2) unfolding \<open>e1 = e\<close> rs'(2) Inl emitted_Cons by simp
  next
    case (Inr b)
    then have live: "\<not> en_exhausted e" and id: "eb_PacketID b = en_next e" using step by simp_all
    have j: "j < 2 ^ 64" "en_next e = word_of_nat j" using Cons.prems(2) live by simp_all
    have "(word_of_nat j :: u64) = - 1 \<longleftrightarrow> Suc j = 2 ^ 64"
      using j(1) by (simp add: word_unat_eq_iff unat_of_nat_eq unsigned_minus_1_eq_mask mask_eq_exp_minus_1)
    then have "if en_exhausted e1 then Suc j = 2 ^ 64 else Suc j < 2 ^ 64 \<and> en_next e1 = word_of_nat (Suc j)"
      using step Inr j live by (auto simp: add.commute)
    from Cons.IH [OF rs'(1) this] show ?thesis
      using Inr id j by (simp add: emitted_Cons rs'(2) upt_conv_Cons del: upt_Suc)
  qed
qed

subsection \<open>Properties\<close>

text \<open>C40: Limit derivation is checked arithmetic. Whenever \<open>DeriveLimits\<close> succeeds, a shard plus its
  wire overhead fills the UDP payload exactly, the products \<open>k * capacity\<close> and \<open>n * capacity\<close> do not
  overflow a Go \<open>int\<close>, the effective limit is the smaller of the FEC and the configured limit and
  fits the uint32 wire field, and every datagram within the effective limit is cut into shards that
  hold it, are nonempty and fit the capacity.\<close>

theorem derive_limits_sound:
  assumes "DeriveLimits p b = Inr l" and "0 \<le> len" "len \<le> EffectiveDatagramLimit l"
  shows "ShardCapacity l + lm_DataShardWireOverhead l = lm_MaxUDPPayload l \<and>
    0 < ShardCapacity l \<and>
    (DataShards p + ParityShards p) * ShardCapacity l \<le> maxInt \<and>
    FECDerivedDatagramLimit l = DataShards p * ShardCapacity l \<and> FECDerivedDatagramLimit l \<le> maxInt \<and>
    EffectiveDatagramLimit l = min (FECDerivedDatagramLimit l) (bg_MaxDatagramSize b) \<and>
    EffectiveDatagramLimit l < 2 ^ 32 \<and>
    0 < shardSizeForDatagram len (DataShards p) \<and>
    shardSizeForDatagram len (DataShards p) \<le> ShardCapacity l \<and>
    len \<le> DataShards p * shardSizeForDatagram len (DataShards p)"
proof -
  let ?k = "DataShards p" and ?m = "ParityShards p" and ?c = "ShardCapacity l"
  have k: "0 < ?k" "0 < ?m" "0 < ?c" "(?k + ?m) * ?c \<le> maxInt" "len \<le> ?k * ?c"
    using assms(1,3) by (auto simp: DeriveLimits_iff validateParams_iff)
  have "?k * ?c \<le> (?k + ?m) * ?c" using k by (intro mult_right_mono) auto
  then have "?k * ?c \<le> maxInt" using k(4) by linarith
  then show ?thesis
    using shardSize_bounds [OF k(1) assms(2), of ?c] assms(1) k by (auto simp: DeriveLimits_iff)
qed

theorem derive_limits_sound_witness:
  "let p = \<lparr>DataShards = 4, ParityShards = 2\<rparr>;
       b = \<lparr>bg_MaxUDPPayload = 1200, bg_DataShardWireOverhead = 68, bg_MaxDatagramSize = 4000\<rparr>;
       l = \<lparr>lm_MaxUDPPayload = 1200, lm_DataShardWireOverhead = 68, ShardCapacity = 1132,
            FECDerivedDatagramLimit = 4528, EffectiveDatagramLimit = 4000\<rparr>
   in DeriveLimits p b = Inr l \<and> shardSizeForDatagram 4000 4 = 1000 \<and> shardSizeForDatagram 4000 4 \<le> ShardCapacity l"
proof -
  let ?p = "\<lparr>DataShards = 4, ParityShards = 2\<rparr>"
  let ?b = "\<lparr>bg_MaxUDPPayload = 1200, bg_DataShardWireOverhead = 68, bg_MaxDatagramSize = 4000\<rparr>"
  let ?l = "\<lparr>lm_MaxUDPPayload = 1200, lm_DataShardWireOverhead = 68, ShardCapacity = 1132,
            FECDerivedDatagramLimit = 4528, EffectiveDatagramLimit = 4000\<rparr>"
  have d: "DeriveLimits ?p ?b = Inr ?l" by code_simp
  show ?thesis
    using derive_limits_sound [OF d, of 4000] d by (simp add: Let_def) code_simp
qed

text \<open>Given the codec's documented behaviour, \<open>Encode\<close> on an encoder obtained from
  \<open>newEncoderAt\<close> has exactly three outcomes: an over-limit payload and an exhausted identifier space
  are refused and leave the encoder unchanged; otherwise the block carries the next identifier, \<open>k +
  m\<close> shards of the canonical size, which fits the shard capacity, and the data shards hold the
  payload. The codec error and the allocation overflow branches are unreachable.\<close>

theorem encode_outcomes:
  assumes "newEncoderAt rs_New p b i x = Inr e"
    and "reed_solomon_laws (nat (DataShards p)) (nat (ParityShards p)) (en_codec e)"
    and "Encode payload e = (r, e')"
  shows "case r of
      Inl err \<Rightarrow>
        e' = e \<and>
        (err = ErrMessageTooLarge \<and> int (length payload) > EffectiveDatagramLimit (en_limits e) \<or>
         err = ErrPacketIDExhausted \<and> int (length payload) \<le> EffectiveDatagramLimit (en_limits e) \<and> x)
    | Inr blk \<Rightarrow>
        int (length payload) \<le> EffectiveDatagramLimit (en_limits e) \<and> \<not> x \<and>
        eb_PacketID blk = i \<and> eb_OriginalLength blk = int (length payload) \<and> eb_Params blk = p \<and>
        int (length (eb_Shards blk)) = DataShards p + ParityShards p \<and>
        (\<forall>s \<in> set (eb_Shards blk). int (length s) = shardSizeForDatagram (int (length payload)) (DataShards p)) \<and>
        shardSizeForDatagram (int (length payload)) (DataShards p) \<le> ShardCapacity (en_limits e) \<and>
        take (length payload) (concat (take (nat (DataShards p)) (eb_Shards blk))) = payload"
proof -
  note e = newEncoderAt_Inr [OF assms(1)]
  have ok: "encoder_ok e" using e assms(2) by (auto simp: encoder_ok_def)
  have tot: "0 \<le> en_total e" using e by (simp add: DeriveLimits_iff validateParams_iff)
  consider "int (length payload) > EffectiveDatagramLimit (en_limits e)"
    | "int (length payload) \<le> EffectiveDatagramLimit (en_limits e)" "en_exhausted e"
    | "int (length payload) \<le> EffectiveDatagramLimit (en_limits e)" "\<not> en_exhausted e" by linarith
  then show ?thesis
  proof cases
    case 3
    from Encode_ok_cases [OF ok 3] obtain shards where sh: "Encode payload e = (Inr \<lparr>eb_PacketID = en_next e,
        eb_OriginalLength = int (length payload), eb_Params = en_params e, eb_Shards = shards\<rparr>,
        if en_next e = - 1 then e\<lparr>en_exhausted := True\<rparr> else e\<lparr>en_next := en_next e + 1\<rparr>)"
      "length shards = nat (en_total e)"
      "\<forall>x \<in> set shards. int (length x) = shardSizeForDatagram (int (length payload)) (DataShards (en_params e))"
      "shardSizeForDatagram (int (length payload)) (DataShards (en_params e)) \<le> ShardCapacity (en_limits e)"
      "take (length payload) (concat (take (nat (DataShards (en_params e))) shards)) = payload"
      by (elim exE conjE)
    have r: "r = Inr \<lparr>eb_PacketID = en_next e, eb_OriginalLength = int (length payload),
        eb_Params = en_params e, eb_Shards = shards\<rparr>"
      using sh(1) assms(3) by simp
    have "int (length shards) = DataShards p + ParityShards p" using sh(2) tot e by simp
    moreover have "\<not> x" "en_next e = i" "en_params e = p" using 3 e by simp_all
    ultimately show ?thesis unfolding r using sh(3-5) 3 by simp
  qed (use assms(3) e Encode_rejects(1) [where e = e and payload = payload] Encode_rejects(2) [where e = e and payload = payload] in auto)
qed

text \<open>A small configuration: two data shards, one parity shard, at most 8 bytes of shard.\<close>

definition xor_New :: "int \<Rightarrow> int \<Rightarrow> rs_codec option" where
  "xor_New k m = (if m = 1 then Some (xor_codec (nat k)) else None)"

abbreviation (input) example_params :: Params where
  "example_params \<equiv> \<lparr>DataShards = 2, ParityShards = 1\<rparr>"

abbreviation (input) example_budget :: Budget where
  "example_budget \<equiv> \<lparr>bg_MaxUDPPayload = 76, bg_DataShardWireOverhead = 68, bg_MaxDatagramSize = 100\<rparr>"

definition example_encoder :: Encoder where
  "example_encoder =
     \<lparr>en_params = example_params,
      en_limits = \<lparr>lm_MaxUDPPayload = 76, lm_DataShardWireOverhead = 68, ShardCapacity = 8,
                   FECDerivedDatagramLimit = 16, EffectiveDatagramLimit = 16\<rparr>,
      en_codec = xor_codec 2, en_total = 3, en_next = 0, en_exhausted = False\<rparr>"

lemma example_encoder_new: "newEncoderAt xor_New example_params example_budget 0 False = Inr example_encoder"
proof -
  have "DeriveLimits example_params example_budget = Inr (en_limits example_encoder)" by code_simp
  then show ?thesis
    by (simp add: newEncoderAt_def newCodec_def validateParams_def xor_New_def example_encoder_def)
qed

lemma example_encoder_ok: "encoder_ok example_encoder"
proof -
  have "DeriveLimits example_params example_budget = Inr (en_limits example_encoder)" by code_simp
  then show ?thesis
    using xor_codec_laws [of 2] by (auto simp: encoder_ok_def example_encoder_def)
qed

theorem encode_outcomes_witness:
  "case fst (Encode [1, 2, 3] example_encoder) of
     Inl err \<Rightarrow> False
   | Inr blk \<Rightarrow> eb_Shards blk = [[1, 2], [3, 0], [2, 2]] \<and> take 3 (concat (take 2 (eb_Shards blk))) = [1, 2, 3]"
proof -
  have "reed_solomon_laws (nat (DataShards example_params)) (nat (ParityShards example_params)) (en_codec example_encoder)"
    using example_encoder_ok by (simp add: encoder_ok_def example_encoder_def)
  from encode_outcomes [OF example_encoder_new this surjective_pairing, of "[1, 2, 3]"]
  have "case fst (Encode [1, 2, 3] example_encoder) of Inl err \<Rightarrow> True
      | Inr blk \<Rightarrow> take 3 (concat (take 2 (eb_Shards blk))) = [1, 2, 3]"
    by (simp add: numeral_3_eq_3 split: sum.splits)
  moreover have "case fst (Encode [1, 2, 3] example_encoder) of Inl err \<Rightarrow> False
      | Inr blk \<Rightarrow> eb_Shards blk = [[1, 2], [3, 0], [2, 2]]"
    by code_simp
  ultimately show ?thesis by (auto split: sum.splits)
qed

text \<open>Packet identifiers are never reused. Over any sequence of \<open>Encode\<close> calls on a fresh
  encoder, whatever is refused in between, the emitted blocks carry 0, 1, 2, ... in order, at most
  \<open>2 ^ 64\<close> of them, and so pairwise different identifiers.\<close>

theorem packet_ids_consecutive:
  assumes "NewEncoder rs_New p b = Inr e" and "encode_all payloads e = (rs, e')"
  shows "map eb_PacketID (emitted rs) = map word_of_nat [0..<length (emitted rs)] \<and>
    length (emitted rs) \<le> 2 ^ 64 \<and> distinct (map eb_PacketID (emitted rs))"
proof -
  have "en_next e = 0" "\<not> en_exhausted e"
    using newEncoderAt_Inr assms(1) by (auto simp: NewEncoder_def)
  then have ids: "map eb_PacketID (emitted rs) = map word_of_nat [0..<length (emitted rs)] \<and> length (emitted rs) \<le> 2 ^ 64"
    using encode_all_ids [OF assms(2), of 0] by simp
  moreover have "inj_on (word_of_nat :: nat \<Rightarrow> u64) {0..<length (emitted rs)}"
    using ids by (intro inj_on_inverseI [where g = unat]) (simp add: unat_of_nat_eq)
  ultimately show ?thesis by (simp add: distinct_map)
qed

theorem packet_ids_consecutive_witness:
  "map eb_PacketID (emitted (fst (encode_all [[1], replicate 99 0, [2, 3]] example_encoder))) = [0, 1] \<and>
   distinct (map eb_PacketID (emitted (fst (encode_all [[1], replicate 99 0, [2, 3]] example_encoder))))"
proof -
  have n: "NewEncoder xor_New example_params example_budget = Inr example_encoder"
    by (simp only: NewEncoder_def example_encoder_new)
  have "map eb_PacketID (emitted (fst (encode_all [[1], replicate 99 0, [2, 3]] example_encoder))) = [0, 1]"
    by code_simp
  then show ?thesis
    using packet_ids_consecutive [OF n surjective_pairing, of "[[1], replicate 99 0, [2, 3]]"] by blast
qed

end
