(* ===== verification/GoHeap.thy ===== *)
theory GoHeap
  imports Prelude "HOL-Library.Multiset"
begin

text \<open>
  \<^verbatim>\<open>container/heap\<close> of the Go standard library over a slice, as the FEC decoder drives it through
  \<^verbatim>\<open>expiry_heap.go\<close>. The two operations a client supplies are parameters of the functions: \<open>lt\<close>
  compares two entries, \<open>idx\<close> records an entry's new position (\<^verbatim>\<open>Swap\<close> and \<^verbatim>\<open>Push\<close> store it in the
  entry). The locale \<open>heap_order\<close> states what the client owes and proves that pushes, pops and
  removals keep the heap order and the entries, and that a pop returns a least entry.
\<close>

subsection \<open>The algorithms\<close>

definition heap_swap :: "(nat \<Rightarrow> 'a \<Rightarrow> 'a) \<Rightarrow> nat \<Rightarrow> nat \<Rightarrow> 'a list \<Rightarrow> 'a list" where
  "heap_swap idx i j h = h[i := idx i (h ! j), j := idx j (h ! i)]"

text \<open>\<open>(j - 1) / 2\<close> truncates, so position 0 is its own parent.\<close>

definition parent :: "nat \<Rightarrow> nat" where
  "parent j = (j - 1) div 2"

definition least_child :: "('a \<Rightarrow> 'a \<Rightarrow> bool) \<Rightarrow> 'a list \<Rightarrow> nat \<Rightarrow> nat \<Rightarrow> nat" where
  "least_child lt h i n =
     (if 2 * i + 2 < n \<and> lt (h ! (2 * i + 2)) (h ! (2 * i + 1)) then 2 * i + 2 else 2 * i + 1)"

function heap_up :: "('a \<Rightarrow> 'a \<Rightarrow> bool) \<Rightarrow> (nat \<Rightarrow> 'a \<Rightarrow> 'a) \<Rightarrow> 'a list \<Rightarrow> nat \<Rightarrow> 'a list" where
  "heap_up lt idx h j =
     (let i = parent j
      in if i = j \<or> \<not> lt (h ! j) (h ! i) then h else heap_up lt idx (heap_swap idx i j h) i)"
  by pat_completeness auto
termination
  by (relation "measure (\<lambda>(lt, idx, h, j). j)") (auto simp: parent_def)

text \<open>\<open>heap_down\<close> returns the slice and the position where the sift stopped; the Go function
  reports whether that position differs from the start.\<close>

function heap_down :: "('a \<Rightarrow> 'a \<Rightarrow> bool) \<Rightarrow> (nat \<Rightarrow> 'a \<Rightarrow> 'a) \<Rightarrow> 'a list \<Rightarrow> nat \<Rightarrow> nat \<Rightarrow> 'a list \<times> nat" where
  "heap_down lt idx h i n =
     (if 2 * i + 1 \<ge> n then (h, i)
      else
        let j = least_child lt h i n
        in if \<not> lt (h ! j) (h ! i) then (h, i) else heap_down lt idx (heap_swap idx i j h) j n)"
  by pat_completeness auto
termination
  by (relation "measure (\<lambda>(lt, idx, h, i, n). n - i)") (auto simp: least_child_def)

declare heap_up.simps [simp del] heap_down.simps [simp del]

definition heap_push :: "('a \<Rightarrow> 'a \<Rightarrow> bool) \<Rightarrow> (nat \<Rightarrow> 'a \<Rightarrow> 'a) \<Rightarrow> 'a list \<Rightarrow> 'a \<Rightarrow> 'a list" where
  "heap_push lt idx h x = heap_up lt idx (h @ [idx (length h) x]) (length h)"

text \<open>\<open>Pop\<close> of a nonempty heap: the returned entry and the remaining slice.\<close>

definition heap_pop :: "('a \<Rightarrow> 'a \<Rightarrow> bool) \<Rightarrow> (nat \<Rightarrow> 'a \<Rightarrow> 'a) \<Rightarrow> 'a list \<Rightarrow> 'a \<times> 'a list" where
  "heap_pop lt idx h =
     (let n = length h - 1; h' = fst (heap_down lt idx (heap_swap idx 0 n h) 0 n)
      in (last h', butlast h'))"

definition heap_remove :: "('a \<Rightarrow> 'a \<Rightarrow> bool) \<Rightarrow> (nat \<Rightarrow> 'a \<Rightarrow> 'a) \<Rightarrow> 'a list \<Rightarrow> nat \<Rightarrow> 'a \<times> 'a list" where
  "heap_remove lt idx h i =
     (let n = length h - 1;
          h' = (if n \<noteq> i then
                  (case heap_down lt idx (heap_swap idx i n h) i n of
                     (g, k) \<Rightarrow> if k > i then g else heap_up lt idx g i)
                else h)
      in (last h', butlast h'))"

subsection \<open>Heap order\<close>

definition heap_ordered :: "('a \<Rightarrow> 'a \<Rightarrow> bool) \<Rightarrow> 'a list \<Rightarrow> nat \<Rightarrow> bool" where
  "heap_ordered lt h n \<longleftrightarrow> (\<forall>c. 0 < c \<and> c < n \<longrightarrow> \<not> lt (h ! c) (h ! parent c))"

lemma length_heap_swap [simp]: "length (heap_swap idx i j h) = length h"
  by (simp add: heap_swap_def)

lemma nth_heap_swap:
  "i < length h \<Longrightarrow> j < length h \<Longrightarrow>
     heap_swap idx i j h ! k = (if k = j then idx j (h ! i) else if k = i then idx i (h ! j) else h ! k)"
  by (auto simp: heap_swap_def nth_list_update)

lemma length_heap_up [simp]: "length (heap_up lt idx h j) = length h"
proof (induction lt idx h j rule: heap_up.induct)
  case (1 lt idx h j)
  then show ?case by (subst heap_up.simps) (auto simp: Let_def)
qed

lemma length_heap_down [simp]: "length (fst (heap_down lt idx h i n)) = length h"
proof (induction lt idx h i n rule: heap_down.induct)
  case (1 lt idx h i n)
  then show ?case by (subst heap_down.simps) (auto simp: Let_def)
qed

lemma length_heap_pop [simp]: "length (snd (heap_pop lt idx h)) = length h - 1"
  by (simp add: heap_pop_def Let_def)

lemma parent_less: "0 < c \<Longrightarrow> parent c < c"
  unfolding parent_def by linarith

lemma parent_0 [simp]: "parent 0 = 0"
  by (simp add: parent_def)

lemma parent_eq: "parent j = j \<longleftrightarrow> j = 0"
  using parent_less [of j] by (cases "j = 0") auto

lemma parent_child: "0 < c \<Longrightarrow> parent c = i \<longleftrightarrow> c = 2 * i + 1 \<or> c = 2 * i + 2"
  unfolding parent_def by linarith

lemma least_child_bounds:
  "2 * i + 1 < n \<Longrightarrow> i < least_child lt h i n \<and> least_child lt h i n < n \<and> parent (least_child lt h i n) = i"
  by (auto simp: least_child_def parent_def)

lemma heap_up_stop: "j = 0 \<or> \<not> lt (h ! j) (h ! parent j) \<Longrightarrow> heap_up lt idx h j = h"
  by (subst heap_up.simps) (auto simp: parent_eq)

lemma heap_up_go:
  "0 < j \<Longrightarrow> lt (h ! j) (h ! parent j) \<Longrightarrow> heap_up lt idx h j = heap_up lt idx (heap_swap idx (parent j) j h) (parent j)"
  by (subst heap_up.simps) (auto simp: parent_eq Let_def)

lemma heap_down_stop:
  "n \<le> 2 * i + 1 \<or> \<not> lt (h ! least_child lt h i n) (h ! i) \<Longrightarrow> heap_down lt idx h i n = (h, i)"
  by (subst heap_down.simps) (auto simp: Let_def)

lemma heap_down_go:
  "2 * i + 1 < n \<Longrightarrow> lt (h ! least_child lt h i n) (h ! i) \<Longrightarrow>
     heap_down lt idx h i n = heap_down lt idx (heap_swap idx i (least_child lt h i n) h) (least_child lt h i n) n"
  by (subst heap_down.simps) (auto simp: Let_def)

lemma heap_down_position: "i \<le> snd (heap_down lt idx h i n)"
proof (induction lt idx h i n rule: heap_down.induct)
  case (1 lt idx h i n)
  show ?case
  proof (cases "n \<le> 2 * i + 1 \<or> \<not> lt (h ! least_child lt h i n) (h ! i)")
    case True
    then show ?thesis by (simp add: heap_down_stop)
  next
    case False
    then show ?thesis
      using "1.IH" [OF _ refl] least_child_bounds [of i n lt h] heap_down_go [of i n lt h idx] by auto
  qed
qed

locale heap_order =
  fixes lt :: "'a \<Rightarrow> 'a \<Rightarrow> bool" and idx :: "nat \<Rightarrow> 'a \<Rightarrow> 'a" and tag :: "'a \<Rightarrow> 'b" and pos :: "'a \<Rightarrow> int"
  assumes lt_asym: "lt a b \<Longrightarrow> \<not> lt b a"
    and not_less_trans: "\<not> lt b a \<Longrightarrow> \<not> lt c b \<Longrightarrow> \<not> lt c a"
    and lt_idx: "lt (idx i a) b = lt a b" "lt a (idx i b) = lt a b"
    and tag_idx: "tag (idx i a) = tag a"
    and pos_idx: "pos (idx i a) = int i"
begin

lemma lt_irrefl: "\<not> lt a a"
  using lt_asym by blast

text \<open>Entries are identified by \<open>tag\<close>; \<open>placed\<close> says each knows its position.\<close>

definition placed :: "'a list \<Rightarrow> bool" where
  "placed h \<longleftrightarrow> (\<forall>i < length h. pos (h ! i) = int i)"

lemma placed_swap: "placed h \<Longrightarrow> i < length h \<Longrightarrow> j < length h \<Longrightarrow> placed (heap_swap idx i j h)"
  by (auto simp: placed_def nth_heap_swap pos_idx)

lemma tags_swap:
  assumes "i < length h" "j < length h"
  shows "mset (map tag (heap_swap idx i j h)) = mset (map tag h)"
proof -
  have "map tag (heap_swap idx i j h) = (map tag h)[i := map tag h ! j, j := map tag h ! i]"
    using assms by (simp add: heap_swap_def map_update tag_idx)
  then show ?thesis
    using assms mset_swap [of j "map tag h" i] by (simp add: list_update_swap)
qed

lemma up_frame:
  "j < length h \<Longrightarrow> mset (map tag (heap_up lt idx h j)) = mset (map tag h) \<and>
     (placed h \<longrightarrow> placed (heap_up lt idx h j)) \<and> (\<forall>k > j. heap_up lt idx h j ! k = h ! k)"
proof (induction j arbitrary: h rule: less_induct)
  case (less j)
  show ?case
  proof (cases "j = 0 \<or> \<not> lt (h ! j) (h ! parent j)")
    case True
    then show ?thesis by (simp add: heap_up_stop)
  next
    case False
    then have j: "parent j < j" using parent_less by simp
    let ?g = "heap_swap idx (parent j) j h"
    have "heap_up lt idx h j = heap_up lt idx ?g (parent j)"
      using False by (simp add: heap_up_go)
    then show ?thesis
      using less.IH [OF j, of ?g] less.prems j tags_swap [of "parent j" h j] placed_swap [of h "parent j" j]
      by (auto simp: nth_heap_swap)
  qed
qed

lemma up_ordered:
  assumes "n \<le> length h" "j < n"
    and "\<forall>c. 0 < c \<and> c < n \<and> c \<noteq> j \<longrightarrow> \<not> lt (h ! c) (h ! parent c)"
    and "0 < j \<longrightarrow> (\<forall>c. 0 < c \<and> c < n \<and> parent c = j \<longrightarrow> \<not> lt (h ! c) (h ! parent j))"
  shows "heap_ordered lt (heap_up lt idx h j) n"
  using assms
proof (induction j arbitrary: h rule: less_induct)
  case (less j)
  show ?case
  proof (cases "j = 0 \<or> \<not> lt (h ! j) (h ! parent j)")
    case True
    have "\<not> lt (h ! c) (h ! parent c)" if "0 < c" "c < n" for c
      using that less.prems(3) True by (cases "c = j") auto
    then show ?thesis
      using True by (simp add: heap_up_stop heap_ordered_def)
  next
    case False
    let ?i = "parent j"
    let ?g = "heap_swap idx ?i j h"
    have j: "?i < j" "0 < j" using False parent_less by auto
    have len: "?i < length h" "j < length h" using less.prems(1,2) j by simp_all
    note g = nth_heap_swap [OF len, of idx]
    have lt: "lt (h ! j) (h ! ?i)" using False by simp
    have step: "\<not> lt (?g ! c) (?g ! parent c)" if c: "0 < c" "c < n" "c \<noteq> ?i" for c
    proof (cases "c = j")
      case True
      then show ?thesis using lt lt_asym j by (simp add: g lt_idx)
    next
      case cj: False
      consider "parent c = j" | "parent c = ?i" | "parent c \<noteq> j" "parent c \<noteq> ?i" by blast
      then show ?thesis
      proof cases
        case 1
        then show ?thesis using less.prems(4) c cj j by (simp add: g lt_idx)
      next
        case 2
        then have "\<not> lt (h ! c) (h ! ?i)" using less.prems(3) c cj by metis
        then have "\<not> lt (h ! c) (h ! j)" using not_less_trans lt lt_asym by blast
        then show ?thesis using 2 c cj j by (simp add: g lt_idx)
      next
        case 3
        then show ?thesis using less.prems(3) c cj by (simp add: g)
      qed
    qed
    have grand: "\<not> lt (?g ! c) (?g ! parent ?i)" if c: "0 < ?i" "0 < c" "c < n" "parent c = ?i" for c
    proof -
      have p: "parent ?i < ?i" using c(1) by (rule parent_less)
      have up: "\<not> lt (h ! ?i) (h ! parent ?i)" using less.prems(2,3) c(1) j by simp
      have "\<not> lt (h ! c) (h ! parent ?i)" if "c \<noteq> j"
        using less.prems(3) c(2-4) that up not_less_trans by metis
      then show ?thesis using c p j up by (auto simp: g lt_idx)
    qed
    have "heap_ordered lt (heap_up lt idx ?g ?i) n"
      by (rule less.IH) (use j less.prems(1,2) step grand in auto)
    then show ?thesis
      using False by (simp add: heap_up_go)
  qed
qed

lemma down_frame:
  "i < n \<Longrightarrow> n \<le> length h \<Longrightarrow>
     mset (map tag (fst (heap_down lt idx h i n))) = mset (map tag h) \<and>
     (placed h \<longrightarrow> placed (fst (heap_down lt idx h i n))) \<and>
     (\<forall>k. k < i \<or> n \<le> k \<longrightarrow> fst (heap_down lt idx h i n) ! k = h ! k)"
proof (induction "n - i" arbitrary: i h rule: less_induct)
  case less
  define j where "j = least_child lt h i n"
  show ?case
  proof (cases "2 * i + 1 \<ge> n \<or> \<not> lt (h ! j) (h ! i)")
    case True
    then show ?thesis by (simp add: heap_down_stop j_def)
  next
    case False
    then have j: "i < j" "j < n" using least_child_bounds [of i n lt h] by (auto simp: j_def)
    let ?g = "heap_swap idx i j h"
    have "heap_down lt idx h i n = heap_down lt idx ?g j n"
      using False by (simp add: heap_down_go j_def)
    moreover have "n - j < n - i" using j by simp
    ultimately show ?thesis
      using less.hyps [of j ?g] less.prems j tags_swap [of i h j] placed_swap [of h i j]
      by (auto simp: nth_heap_swap)
  qed
qed

lemma down_ordered:
  assumes "i < n" "n \<le> length h"
    and "\<forall>c. 0 < c \<and> c < n \<and> c \<noteq> i \<and> parent c \<noteq> i \<longrightarrow> \<not> lt (h ! c) (h ! parent c)"
    and "0 < i \<longrightarrow> (\<forall>c. 0 < c \<and> c < n \<and> parent c = i \<longrightarrow> \<not> lt (h ! c) (h ! parent i))"
    and "heap_down lt idx h i n = (g, k)"
  shows "(\<forall>c. 0 < c \<and> c < n \<and> c \<noteq> i \<longrightarrow> \<not> lt (g ! c) (g ! parent c)) \<and>
         (0 < i \<and> (i < k \<or> \<not> lt (h ! i) (h ! parent i)) \<longrightarrow> \<not> lt (g ! i) (g ! parent i)) \<and>
         (k = i \<longrightarrow> g = h)"
  using assms
proof (induction "n - i" arbitrary: i h rule: less_induct)
  case less
  define j where "j = least_child lt h i n"
  have kids: "c = 2 * i + 1 \<or> c = 2 * i + 2" if "0 < c" "parent c = i" for c
    using that by (simp add: parent_child)
  show ?case
  proof (cases "2 * i + 1 \<ge> n \<or> \<not> lt (h ! j) (h ! i)")
    case True
    then have r: "g = h" "k = i"
      using less.prems(5) by (simp_all add: heap_down_stop j_def)
    have "\<not> lt (h ! c) (h ! parent c)" if c: "0 < c" "c < n" "c \<noteq> i" for c
    proof (cases "parent c = i")
      case True
      note p = this
      have "\<not> lt (h ! j) (h ! i)" using \<open>2 * i + 1 \<ge> n \<or> \<not> lt (h ! j) (h ! i)\<close> kids [OF c(1) p] c(2) by auto
      moreover have "\<not> lt (h ! c) (h ! j)"
        using kids [OF c(1) p] c(2) lt_asym lt_irrefl by (auto simp: j_def least_child_def)
      ultimately show ?thesis using p not_less_trans by metis
    next
      case False
      then show ?thesis using less.prems(3) c by blast
    qed
    then show ?thesis using r by auto
  next
    case False
    then have j: "i < j" "j < n" "parent j = i" using least_child_bounds [of i n lt h] by (auto simp: j_def)
    let ?g = "heap_swap idx i j h"
    have len: "i < length h" "j < length h" using j less.prems(1,2) by simp_all
    note sw = nth_heap_swap [OF len, of idx]
    have ltj: "lt (h ! j) (h ! i)" using False by simp
    have eq: "heap_down lt idx ?g j n = (g, k)"
      using False less.prems(5) by (simp add: heap_down_go j_def)
    have kj: "j \<le> k" using heap_down_position [of j lt idx ?g n] eq by simp
    have sib: "\<not> lt (h ! c) (h ! j)" if "0 < c" "c < n" "parent c = i" for c
      using kids [OF that(1,3)] that(2) lt_asym lt_irrefl by (auto simp: j_def least_child_def)
    have a: "\<forall>c. 0 < c \<and> c < n \<and> c \<noteq> j \<and> parent c \<noteq> j \<longrightarrow> \<not> lt (?g ! c) (?g ! parent c)"
    proof (intro allI impI)
      fix c assume c: "0 < c \<and> c < n \<and> c \<noteq> j \<and> parent c \<noteq> j"
      consider "c = i" | "parent c = i" "c \<noteq> i" | "c \<noteq> i" "parent c \<noteq> i" by blast
      then show "\<not> lt (?g ! c) (?g ! parent c)"
      proof cases
        case 1
        then have "parent i \<noteq> i" "parent i \<noteq> j" using c j(1) parent_less [of i] by auto
        then show ?thesis using less.prems(4) 1 c j by (simp add: sw lt_idx)
      next
        case 2
        then show ?thesis using sib c by (simp add: sw lt_idx)
      next
        case 3
        then show ?thesis using less.prems(3) c by (simp add: sw)
      qed
    qed
    have b: "\<forall>c. 0 < c \<and> c < n \<and> parent c = j \<longrightarrow> \<not> lt (?g ! c) (?g ! parent j)"
    proof (intro allI impI)
      fix c assume c: "0 < c \<and> c < n \<and> parent c = j"
      then have "j < c" using parent_less [of c] by simp
      then have "\<not> lt (h ! c) (h ! j)" using less.prems(3) c j by auto
      then show "\<not> lt (?g ! c) (?g ! parent j)"
        using c j \<open>j < c\<close> by (simp add: sw lt_idx)
    qed
    have "n - j < n - i" using j by simp
    from less.hyps [OF this j(2) _ a _ eq] b less.prems(2)
    have post: "\<forall>c. 0 < c \<and> c < n \<and> c \<noteq> j \<longrightarrow> \<not> lt (g ! c) (g ! parent c)"
      "j < k \<or> \<not> lt (?g ! j) (?g ! parent j) \<longrightarrow> \<not> lt (g ! j) (g ! parent j)" "k = j \<longrightarrow> g = ?g"
      using j(1) by auto
    have "\<not> lt (?g ! j) (?g ! parent j)" using lt_asym [OF ltj] j by (simp add: sw lt_idx)
    then show ?thesis using post j kj by auto
  qed
qed

text \<open>The contract: pushes and removals keep order, positions and entries.\<close>

definition heap_inv :: "'a list \<Rightarrow> bool" where
  "heap_inv h \<longleftrightarrow> heap_ordered lt h (length h) \<and> placed h"

lemma heap_inv_Nil: "heap_inv []"
  by (simp add: heap_inv_def heap_ordered_def placed_def)

lemma push_spec:
  assumes "heap_inv h"
  shows "heap_inv (heap_push lt idx h x) \<and>
    mset (map tag (heap_push lt idx h x)) = add_mset (tag x) (mset (map tag h))"
proof -
  let ?h = "h @ [idx (length h) x]"
  have ord: "\<not> lt (?h ! c) (?h ! parent c)" if "0 < c" "c < length h" for c
    using assms that parent_less [of c] by (simp add: heap_inv_def heap_ordered_def nth_append)
  have kids: "c \<ge> Suc (length h)" if "0 < c" "parent c = length h" for c
    using that parent_less [of c] by simp
  have "\<forall>c. 0 < c \<and> c < length ?h \<and> c \<noteq> length h \<longrightarrow> \<not> lt (?h ! c) (?h ! parent c)"
    using ord by (metis length_append_singleton less_SucE)
  moreover have "\<forall>c. 0 < c \<and> c < length ?h \<and> parent c = length h \<longrightarrow> \<not> lt (?h ! c) (?h ! parent (length h))"
    using kids by (metis length_append_singleton linorder_not_less)
  ultimately have "heap_ordered lt (heap_up lt idx ?h (length h)) (length ?h)"
    by (intro up_ordered) simp_all
  moreover have "placed ?h"
    using assms by (auto simp: heap_inv_def placed_def nth_append pos_idx less_Suc_eq)
  ultimately show ?thesis
    using up_frame [of "length h" ?h] by (simp add: heap_push_def heap_inv_def tag_idx)
qed

lemma ordered_butlast:
  assumes "heap_ordered lt h (length h - 1)" "placed h"
  shows "heap_inv (butlast h)"
proof -
  have "\<not> lt (butlast h ! c) (butlast h ! parent c)" if "0 < c" "c < length h - 1" for c
    using assms(1) that parent_less [of c] by (simp add: heap_ordered_def nth_butlast)
  moreover have "placed (butlast h)"
    using assms(2) by (simp add: placed_def nth_butlast)
  ultimately show ?thesis by (simp add: heap_inv_def heap_ordered_def)
qed

lemma last_swapped:
  assumes "h \<noteq> []" "length g = length h" "g ! (length h - 1) = y" "mset (map tag g) = mset (map tag h)"
  shows "last g = y \<and> mset (map tag (butlast g)) = mset (map tag h) - {#tag y#}"
proof -
  have g: "g = butlast g @ [y]"
    using assms(1-3) by (metis append_butlast_last_id last_conv_nth length_0_conv)
  have "mset (map tag g) = add_mset (tag y) (mset (map tag (butlast g)))"
    by (subst g) simp
  then show ?thesis using g assms(4) by (metis add_mset_remove_trivial last_snoc)
qed

lemma remove_spec:
  assumes inv: "heap_inv h" and i: "i < length h" and r: "heap_remove lt idx h i = (y, g)"
  shows "heap_inv g \<and> tag y = tag (h ! i) \<and> mset (map tag g) = mset (map tag h) - {#tag (h ! i)#}"
proof -
  define n where "n = length h - 1"
  then have n_eq: "length h - Suc 0 = n" by simp
  have ord: "heap_ordered lt h (length h)" and pl: "placed h" using inv by (simp_all add: heap_inv_def)
  have n: "n < length h" "h \<noteq> []" using i by (auto simp: n_def)
  show ?thesis
  proof (cases "n = i")
    case True
    have "heap_inv (butlast h)"
      by (rule ordered_butlast) (use ord pl in \<open>auto simp: heap_ordered_def\<close>)
    moreover have "y = last h" "g = butlast h" using r True by (simp_all add: heap_remove_def Let_def n_eq)
    ultimately show ?thesis
      using last_swapped [OF n(2) refl refl refl] True by (simp add: last_conv_nth n n_eq)
  next
    case False
    then have i': "i < n" using i by (simp add: n_def)
    let ?s = "heap_swap idx i n h"
    obtain d k where d: "heap_down lt idx ?s i n = (d, k)" by force
    define u where "u = (if i < k then d else heap_up lt idx d i)"
    have yg: "y = last u" "g = butlast u" using r False d by (simp_all add: heap_remove_def u_def Let_def n_eq)
    note sw = nth_heap_swap [OF i n(1), of idx]
    have base: "\<not> lt (h ! c) (h ! parent c)" if "0 < c" "c < length h" for c
      using ord that by (simp add: heap_ordered_def)
    have pre1: "\<forall>c. 0 < c \<and> c < n \<and> c \<noteq> i \<and> parent c \<noteq> i \<longrightarrow> \<not> lt (?s ! c) (?s ! parent c)"
    proof (intro allI impI)
      fix c assume c: "0 < c \<and> c < n \<and> c \<noteq> i \<and> parent c \<noteq> i"
      then have "parent c < c" using parent_less by simp
      then have "c \<noteq> n" "parent c \<noteq> n" "c < length h" using c n by auto
      then show "\<not> lt (?s ! c) (?s ! parent c)" using base [of c] c by (simp add: sw)
    qed
    have pre2: "0 < i \<longrightarrow> (\<forall>c. 0 < c \<and> c < n \<and> parent c = i \<longrightarrow> \<not> lt (?s ! c) (?s ! parent i))"
    proof (intro impI allI)
      fix c assume "0 < i" and c: "0 < c \<and> c < n \<and> parent c = i"
      have "c < length h" using c n by linarith
      then have "\<not> lt (h ! c) (h ! i)" "\<not> lt (h ! i) (h ! parent i)" using base [of c] base [of i] i c \<open>0 < i\<close> by auto
      then have "\<not> lt (h ! c) (h ! parent i)" using not_less_trans by blast
      moreover have "parent i < i" "i < c" using \<open>0 < i\<close> c parent_less [of c] parent_less [of i] by auto
      ultimately show "\<not> lt (?s ! c) (?s ! parent i)" using c i' by (simp add: sw)
    qed
    have len: "n \<le> length ?s" using n by simp
    note down = down_ordered [OF i' len pre1 pre2 d]
    have fr: "mset (map tag d) = mset (map tag ?s) \<and> placed d \<and> (\<forall>k. k < i \<or> n \<le> k \<longrightarrow> d ! k = ?s ! k)"
      using down_frame [OF i' len] placed_swap [OF pl i n(1)] d by simp
    have ld: "length d = length h" using length_heap_down [of lt idx ?s i n] d by simp
    have ki: "i \<le> k" using heap_down_position [of i lt idx ?s n] d by simp
    have u: "heap_ordered lt u n \<and> placed u \<and> mset (map tag u) = mset (map tag h) \<and> u ! n = ?s ! n \<and> length u = length h"
    proof (cases "i < k")
      case True
      then have "heap_ordered lt d n"
        using down unfolding heap_ordered_def by (metis gr0I)
      then show ?thesis using True fr ld tags_swap [OF i n(1)] by (simp add: u_def)
    next
      case False
      then have "d = ?s" using down ki by simp
      have "heap_ordered lt (heap_up lt idx d i) n"
        by (rule up_ordered) (use ld i' n(1) down pre2 \<open>d = ?s\<close> in auto)
      then show ?thesis
        using False fr ld tags_swap [OF i n(1)] up_frame [of i d] i i' by (auto simp: u_def)
    qed
    have "u ! n = idx n (h ! i)" using u by (simp add: sw)
    then have "last u = idx n (h ! i)" "mset (map tag (butlast u)) = mset (map tag h) - {#tag (h ! i)#}"
      using last_swapped [OF n(2), of u] u by (simp_all add: tag_idx n_eq)
    moreover have "heap_inv (butlast u)"
      by (rule ordered_butlast) (use u in \<open>auto simp: n_def\<close>)
    ultimately show ?thesis using yg by (simp add: tag_idx)
  qed
qed

lemma root_least:
  assumes "heap_inv h" "k < length h"
  shows "\<not> lt (h ! k) (h ! 0)"
  using assms(2)
proof (induction k rule: less_induct)
  case (less k)
  show ?case
  proof (cases "k = 0")
    case False
    then have "\<not> lt (h ! k) (h ! parent k)" using assms(1) less.prems by (simp add: heap_inv_def heap_ordered_def)
    moreover have "\<not> lt (h ! parent k) (h ! 0)"
      using less.IH [of "parent k"] less.prems parent_less [of k] False by simp
    ultimately show ?thesis using not_less_trans by blast
  qed (simp add: lt_irrefl)
qed

lemma positions: "heap_inv h \<Longrightarrow> i < length h \<Longrightarrow> pos (h ! i) = int i"
  by (simp add: heap_inv_def placed_def)

text \<open>\<open>Pop\<close> is the removal of the root.\<close>

lemma pop_as_remove:
  assumes "1 < length h"
  shows "heap_pop lt idx h = heap_remove lt idx h 0"
proof -
  obtain d k where d: "heap_down lt idx (heap_swap idx 0 (length h - 1) h) 0 (length h - 1) = (d, k)" by force
  then show ?thesis
    using assms by (simp add: heap_pop_def heap_remove_def heap_up_stop Let_def)
qed

lemma pop_spec:
  assumes "h \<noteq> []" "heap_inv h" "heap_pop lt idx h = (y, g)"
  shows "heap_inv g \<and> tag y = tag (h ! 0) \<and> mset (map tag g) = mset (map tag h) - {#tag (h ! 0)#}"
proof (cases "1 < length h")
  case True
  then show ?thesis using remove_spec [of h 0 y g] assms pop_as_remove by simp
next
  case False
  then obtain a where a: "h = [a]" using assms(1) by (cases h) auto
  then show ?thesis
    using assms(3) by (auto simp: heap_pop_def heap_down_stop heap_swap_def tag_idx heap_inv_Nil)
qed

end

end
