(* ===== verification/ReplayWindow.thy ===== *)
theory ReplayWindow
  imports Bitmap Wire
begin

text \<open>
  The bounded lifetime deduplication window of one v0.1 receive direction
  (\<^verbatim>\<open>src/internal/fec/replay_window.go\<close>): a ring bitmap over the last 65536 packet
  identifiers. \<open>completedIDs\<close> is the set of identifiers it reports as completed; every operation
  refines the obvious operation on that set. Identifiers are 64-bit words; ring positions are
  below 65536 and are kept as natural numbers.
\<close>

abbreviation (input) ReplayWindowIDs :: nat where "ReplayWindowIDs \<equiv> 65536"

record replayWindow =
  rw_sessionID :: SessionID
  rw_completed :: "u64 list"
  rw_highest :: u64
  rw_started :: bool
  rw_count :: int

definition newReplayWindow :: "SessionID \<Rightarrow> replayWindow" where
  "newReplayWindow sid =
     \<lparr>rw_sessionID = sid, rw_completed = replicate (ReplayWindowIDs div 64) 0, rw_highest = 0,
      rw_started = False, rw_count = 0\<rparr>"

definition tooOld :: "replayWindow \<Rightarrow> u64 \<Rightarrow> bool" where
  "tooOld w pid \<longleftrightarrow> rw_started w \<and> pid < rw_highest w \<and> unat (rw_highest w - pid) \<ge> ReplayWindowIDs"

definition contains :: "replayWindow \<Rightarrow> u64 \<Rightarrow> bool" where
  "contains w pid =
     (if \<not> rw_started w \<or> pid > rw_highest w \<or> tooOld w pid then False
      else let index = unat (pid mod 65536)
           in rw_completed w ! (index div 64) AND bit_mask index \<noteq> 0)"

text \<open>The clearing loop of \<open>admit\<close>.\<close>

function clear_replay :: "nat \<Rightarrow> nat \<Rightarrow> u64 list \<Rightarrow> int \<Rightarrow> u64 list \<times> int" where
  "clear_replay position remaining ws count =
     (if remaining = 0 then (ws, count)
      else let width = min remaining (64 - position mod 64)
           in clear_replay ((position + width) mod ReplayWindowIDs) (remaining - width)
                (clear_run position width ws)
                (count - int (OnesCount64 (ws ! (position div 64) AND run_mask position width))))"
  by pat_completeness auto
termination
  by (relation "measure (\<lambda>(position, remaining, ws, count). remaining)") auto

declare clear_replay.simps [simp del]

definition admit :: "replayWindow \<Rightarrow> u64 \<Rightarrow> replayWindow" where
  "admit w pid =
     (if \<not> rw_started w then w\<lparr>rw_started := True, rw_highest := pid\<rparr>
      else if pid \<le> rw_highest w then w
      else
        let distance = pid - rw_highest w
        in if unat distance \<ge> ReplayWindowIDs
           then w\<lparr>rw_completed := clear_all (rw_completed w), rw_count := 0, rw_highest := pid\<rparr>
           else
             (case clear_replay (unat ((rw_highest w + 1) mod 65536)) (unat distance)
                     (rw_completed w) (rw_count w) of
                (ws, n) \<Rightarrow> w\<lparr>rw_completed := ws, rw_count := n, rw_highest := pid\<rparr>))"

definition complete :: "replayWindow \<Rightarrow> u64 \<Rightarrow> replayWindow" where
  "complete w pid =
     (if tooOld w pid then w
      else
        let index = unat (pid mod 65536); word = index div 64
        in if rw_completed w ! word AND bit_mask index = 0
           then w\<lparr>rw_completed := (rw_completed w)[word := rw_completed w ! word OR bit_mask index],
                  rw_count := rw_count w + 1\<rparr>
           else w)"

subsection \<open>Invariant and abstraction\<close>

definition completedIDs :: "replayWindow \<Rightarrow> nat set" where
  "completedIDs w =
     (if rw_started w then window_ids 0 ReplayWindowIDs (unat (rw_highest w)) (rw_completed w) else {})"

definition replay_inv :: "replayWindow \<Rightarrow> bool" where
  "replay_inv w \<longleftrightarrow>
     length (rw_completed w) = 1024 \<and> rw_count w = int (card (bits (rw_completed w))) \<and>
     (if rw_started w then window_fits 0 ReplayWindowIDs (unat (rw_highest w)) (rw_completed w)
      else bits (rw_completed w) = {})"

lemma replay_inv_new: "replay_inv (newReplayWindow sid)"
  by (simp add: replay_inv_def newReplayWindow_def)

lemma unat_ring: "unat (pid mod (65536 :: u64)) = unat pid mod 65536"
  by (simp add: unat_mod_distrib)

lemma tooOld_iff:
  "tooOld w pid \<longleftrightarrow> rw_started w \<and> unat pid + 65536 \<le> unat (rw_highest w)"
  by (auto simp: tooOld_def word_less_nat_alt unat_sub_if_size split: if_splits)

lemma in_range_iff:
  "rw_started w \<Longrightarrow> unat pid \<in> window_range 0 65536 (unat (rw_highest w)) \<longleftrightarrow>
     pid \<le> rw_highest w \<and> \<not> tooOld w pid"
  by (auto simp: window_range_def tooOld_iff word_le_nat_alt)

lemma contains_iff:
  assumes "replay_inv w"
  shows "contains w pid \<longleftrightarrow> unat pid \<in> completedIDs w"
proof (cases "rw_started w \<and> pid \<le> rw_highest w \<and> \<not> tooOld w pid")
  case True
  have "unat pid mod 65536 < 64 * length (rw_completed w)"
    using assms by (simp add: replay_inv_def)
  then show ?thesis
    using True in_range_iff [of w pid]
    by (auto simp: contains_def completedIDs_def window_ids_def unat_ring test_bit Let_def)
next
  case False
  then show ?thesis
    using in_range_iff [of w pid] by (auto simp: contains_def completedIDs_def window_ids_def)
qed

lemma ring_width: "position < 65536 \<Longrightarrow> position mod 64 + width \<le> 64 \<Longrightarrow> position + width \<le> (65536::nat)"
  using div_mult_mod_eq [of position 64] less_mult_imp_div_less [of position 1024 64] by linarith

lemma clear_replay_spec:
  assumes "length ws = 1024" "remaining < 65536" "position = Suc high mod 65536"
    and "count = int (card (bits ws))"
  shows "\<exists>ws'. clear_replay position remaining ws count = (ws', int (card (bits ws'))) \<and>
           length ws' = 1024 \<and> bits ws' = bits ws - ring_segment 65536 high remaining"
  using assms
proof (induction position remaining ws count arbitrary: high rule: clear_replay.induct)
  case (1 position remaining ws count)
  show ?case
  proof (cases "remaining = 0")
    case True
    then show ?thesis using "1.prems" by (auto simp: clear_replay.simps)
  next
    case False
    define width where "width = min remaining (64 - position mod 64)"
    have pos: "position < 65536" by (simp add: "1.prems")
    have w: "width \<le> remaining" "position mod 64 + width \<le> 64" "position < 64 * length ws"
      using pos "1.prems"(1) mod_less_divisor [of 64 position] by (auto simp: width_def)
    note w = w ring_width [OF pos w(2)]
    have seg: "ring_segment 65536 high remaining
        = {position..<position + width} \<union> ring_segment 65536 (high + width) (remaining - width)"
      using ring_segment_step [of 65536 width remaining "Suc high" high] w "1.prems"(3) by simp
    have next_pos: "(position + width) mod 65536 = Suc (high + width) mod 65536"
      by (simp add: "1.prems"(3) mod_add_left_eq)
    have rest: "remaining - width < 65536" using "1.prems"(2) by linarith
    have cnt: "count - int (OnesCount64 (ws ! (position div 64) AND run_mask position width))
        = int (card (bits (clear_run position width ws)))"
      unfolding card_bits_clear_run [OF w(2,3)] OnesCount64_run [OF w(2,3)]
      by (simp add: "1.prems"(4) card_mono)
    obtain ws' where ws': "clear_replay ((position + width) mod 65536) (remaining - width)
          (clear_run position width ws)
          (count - int (OnesCount64 (ws ! (position div 64) AND run_mask position width)))
        = (ws', int (card (bits ws')))"
      "length ws' = 1024"
      "bits ws' = bits (clear_run position width ws) - ring_segment 65536 (high + width) (remaining - width)"
      using "1.IH" [OF False width_def _ _ next_pos cnt] "1.prems"(1) rest by auto
    moreover have "bits ws' = bits ws - ring_segment 65536 high remaining"
      unfolding ws'(3) bits_clear_run [OF w(2,3)] seg by auto
    ultimately show ?thesis
      using False by (simp add: clear_replay.simps [of position] width_def Let_def)
  qed
qed

lemma admit_frame [simp]: "rw_sessionID (admit w pid) = rw_sessionID w"
  by (simp add: admit_def Let_def split: prod.splits)

lemma admit_advance:
  assumes inv: "replay_inv w" and st: "rw_started w" and new: "rw_highest w < pid"
  shows "replay_inv (admit w pid) \<and> rw_started (admit w pid) \<and> rw_highest (admit w pid) = pid \<and>
         completedIDs (admit w pid) = {k \<in> completedIDs w. unat pid < k + 65536}"
proof -
  let ?h = "unat (rw_highest w)" and ?d = "unat (pid - rw_highest w)"
  have d: "unat pid = ?h + ?d"
    using new by (simp add: word_less_nat_alt unat_sub_if_size)
  have notle: "\<not> pid \<le> rw_highest w" using new by simp
  show ?thesis
  proof (cases "65536 \<le> ?d")
    case True
    then have "completedIDs w \<inter> {k. unat pid < k + 65536} = {}"
      using d by (auto simp: completedIDs_def window_ids_def window_range_def)
    then show ?thesis
      using True st notle inv
      by (auto simp: admit_def replay_inv_def completedIDs_def Let_def)
  next
    case False
    have "unat (rw_highest w + 1) = Suc ?h"
      using new by (simp add: unat_Suc_below)
    then have pos: "unat ((rw_highest w + 1) mod 65536) = Suc ?h mod 65536"
      by (simp only: unat_ring)
    have invs: "length (rw_completed w) = 1024" "rw_count w = int (card (bits (rw_completed w)))"
      "window_fits 0 65536 ?h (rw_completed w)"
      using inv st by (simp_all add: replay_inv_def)
    from clear_replay_spec [OF invs(1) _ pos invs(2), of ?d] False
    obtain ws' where ws': "clear_replay (unat ((rw_highest w + 1) mod 65536)) ?d (rw_completed w) (rw_count w)
          = (ws', int (card (bits ws')))"
      "length ws' = 1024" "bits ws' = bits (rw_completed w) - ring_segment 65536 ?h ?d"
      by auto
    then have "admit w pid = w\<lparr>rw_completed := ws', rw_count := int (card (bits ws')), rw_highest := pid\<rparr>"
      using False st notle by (simp add: admit_def Let_def)
    moreover have "window_fits 0 65536 (?h + ?d) ws'"
      using window_fits_advance [OF invs(3) ws'(3)] False by simp
    ultimately show ?thesis
      using st ws' window_ids_advance [OF ws'(3), of 0] d
      by (simp add: replay_inv_def completedIDs_def)
  qed
qed

lemma admit_first:
  assumes "replay_inv w" "\<not> rw_started w"
  shows "replay_inv (admit w pid) \<and> rw_started (admit w pid) \<and> rw_highest (admit w pid) = pid \<and>
         completedIDs (admit w pid) = {}"
  using assms by (simp add: admit_def replay_inv_def completedIDs_def)

lemma admit_below:
  assumes "rw_started w" "pid \<le> rw_highest w"
  shows "admit w pid = w"
  using assms by (simp add: admit_def)

lemma replay_inv_admit: "replay_inv w \<Longrightarrow> replay_inv (admit w pid)"
  using admit_advance admit_first admit_below by (metis linorder_not_le)

lemma complete_spec:
  assumes inv: "replay_inv w" and st: "rw_started w" and le: "pid \<le> rw_highest w"
  shows "replay_inv (complete w pid) \<and>
         completedIDs (complete w pid) = (if tooOld w pid then completedIDs w else insert (unat pid) (completedIDs w)) \<and>
         rw_highest (complete w pid) = rw_highest w \<and> rw_started (complete w pid) \<and>
         rw_sessionID (complete w pid) = rw_sessionID w"
proof (cases "tooOld w pid")
  case True
  then show ?thesis using assms by (simp add: complete_def)
next
  case False
  let ?i = "unat pid mod 65536" and ?ws = "rw_completed w"
  let ?ws' = "?ws[?i div 64 := ?ws ! (?i div 64) OR bit_mask ?i]"
  have range: "unat pid \<in> window_range 0 65536 (unat (rw_highest w))"
    using in_range_iff [OF st] le False by simp
  have i: "?i < 64 * length ?ws" using inv by (simp add: replay_inv_def)
  note b = bits_set [OF i]
  have zero: "?ws ! (?i div 64) AND bit_mask ?i = 0 \<longleftrightarrow> ?i \<notin> bits ?ws"
    using test_bit [OF i] by blast
  show ?thesis
  proof (cases "?i \<in> bits ?ws")
    case True
    then have "complete w pid = w" "unat pid \<in> completedIDs w"
      using False zero range st
      by (simp_all add: complete_def unat_ring Let_def completedIDs_def window_ids_def)
    then show ?thesis using False inv st by (simp add: insert_absorb)
  next
    case new: False
    then have "complete w pid = w\<lparr>rw_completed := ?ws', rw_count := rw_count w + 1\<rparr>"
      using False zero by (simp add: complete_def unat_ring Let_def)
    then show ?thesis
      using window_ids_insert [OF range b] window_fits_insert [OF range b] False inv st new b
      by (simp add: replay_inv_def completedIDs_def)
  qed
qed

end
