(* ===== verification/ExpiryHeap.thy ===== *)
theory ExpiryHeap
  imports GoHeap ReplayWindow
begin

text \<open>
  The deadline queue of the FEC decoder (\<^verbatim>\<open>src/internal/fec/expiry_heap.go\<close>): entries ordered by
  deadline and then by block key, kept in a \<^verbatim>\<open>container/heap\<close>. An entry is a pointer in the source;
  here it carries its address \<open>ee_ref\<close>, so that the identity tests of the decoder can be stated, and
  it lives in the slice that holds it. An entry that is in no slice has index -1.

  The interpretation \<open>expiry\<close> discharges the laws of \<open>heap_order\<close>; the lemmas after it describe the
  queue as a set of (address, key, deadline) triples.
\<close>

record BlockKey =
  bk_SessionID :: SessionID
  bk_PacketID :: u64

record expiryEntry =
  ee_ref :: nat
  ee_key :: BlockKey
  ee_deadline :: int
  ee_index :: int

type_synonym expiryHeap = "expiryEntry list"

text \<open>The first position where the byte loop of \<open>keyLess\<close> finds a difference.\<close>

fun first_difference :: "bytes \<Rightarrow> bytes \<Rightarrow> (byte \<times> byte) option" where
  "first_difference (x # xs) (y # ys) = (if x \<noteq> y then Some (x, y) else first_difference xs ys)"
| "first_difference _ _ = None"

definition keyLess :: "BlockKey \<Rightarrow> BlockKey \<Rightarrow> bool" where
  "keyLess a b =
     (case first_difference (be_put 16 (bk_SessionID a)) (be_put 16 (bk_SessionID b)) of
        Some (x, y) \<Rightarrow> x < y
      | None \<Rightarrow> bk_PacketID a < bk_PacketID b)"

definition Less :: "expiryEntry \<Rightarrow> expiryEntry \<Rightarrow> bool" where
  "Less a b =
     (if ee_deadline a \<noteq> ee_deadline b then ee_deadline a < ee_deadline b else keyLess (ee_key a) (ee_key b))"

text \<open>\<open>Swap\<close> and \<open>Push\<close> store an entry's position in it.\<close>

definition set_index :: "nat \<Rightarrow> expiryEntry \<Rightarrow> expiryEntry" where
  "set_index i e = e\<lparr>ee_index := int i\<rparr>"

abbreviation (input) expiry_push :: "expiryHeap \<Rightarrow> expiryEntry \<Rightarrow> expiryHeap" where
  "expiry_push \<equiv> heap_push Less set_index"

abbreviation (input) expiry_pop :: "expiryHeap \<Rightarrow> expiryEntry \<times> expiryHeap" where
  "expiry_pop \<equiv> heap_pop Less set_index"

abbreviation (input) expiry_remove :: "expiryHeap \<Rightarrow> nat \<Rightarrow> expiryEntry \<times> expiryHeap" where
  "expiry_remove \<equiv> heap_remove Less set_index"

text \<open>\<open>entry.index\<close> through a pointer to the entry.\<close>

definition entry_index :: "expiryHeap \<Rightarrow> nat \<Rightarrow> int" where
  "entry_index h ref = (case find (\<lambda>e. ee_ref e = ref) h of None \<Rightarrow> - 1 | Some e \<Rightarrow> ee_index e)"

subsection \<open>The order\<close>

lemma be_nat_Cons: "be_nat (x # xs) = unat x * 256 ^ length xs + be_nat xs"
  by (induction xs rule: rev_induct) (simp_all add: algebra_simps flip: append_Cons, simp add: be_nat_def)

lemma first_difference_None: "length xs = length ys \<Longrightarrow> first_difference xs ys = None \<longleftrightarrow> xs = ys"
  by (induction xs ys rule: first_difference.induct) auto

lemma first_difference_Some:
  "length xs = length ys \<Longrightarrow> first_difference xs ys = Some (x, y) \<Longrightarrow>
     x \<noteq> y \<and> (x < y \<longleftrightarrow> be_nat xs < be_nat ys)"
proof (induction xs ys rule: first_difference.induct)
  case (1 a xs b ys)
  show ?case
  proof (cases "a = b")
    case False
    let ?p = "256 ^ length xs :: nat"
    have lt: "be_nat xs < ?p" "be_nat ys < ?p" using be_nat_less [of xs] be_nat_less [of ys] 1(2) by simp_all
    have len: "length ys = length xs" using 1(2) by simp
    have "a < b \<longleftrightarrow> be_nat (a # xs) < be_nat (b # ys)"
    proof (cases "a < b")
      case True
      then have "Suc (unat a) \<le> unat b" by (simp add: word_less_nat_alt)
      then have "Suc (unat a) * ?p \<le> unat b * ?p" by (rule mult_le_mono1)
      then show ?thesis using True lt len by (simp add: be_nat_Cons)
    next
      case nlt: False
      then have "Suc (unat b) \<le> unat a" using False by (simp add: word_less_nat_alt word_unat_eq_iff)
      then have "Suc (unat b) * ?p \<le> unat a * ?p" by (rule mult_le_mono1)
      then show ?thesis using nlt lt len by (simp add: be_nat_Cons)
    qed
    then show ?thesis using False 1(3) by simp
  next
    case True
    then show ?thesis using 1 by (simp add: be_nat_Cons)
  qed
qed auto

lemma be_nat_session: "be_nat (be_put 16 (s :: SessionID)) = unat s"
  using unsigned_less [of s, where ?'a = nat] by (simp add: be_nat_put)

lemma keyLess_iff:
  "keyLess a b \<longleftrightarrow>
     bk_SessionID a < bk_SessionID b \<or> bk_SessionID a = bk_SessionID b \<and> bk_PacketID a < bk_PacketID b"
proof (cases "first_difference (be_put 16 (bk_SessionID a)) (be_put 16 (bk_SessionID b))")
  case None
  then have "be_put 16 (bk_SessionID a) = be_put 16 (bk_SessionID b)" by (simp add: first_difference_None)
  then have "bk_SessionID a = bk_SessionID b" using be_nat_session by (metis word_unat_eq_iff)
  with None show ?thesis by (simp add: keyLess_def)
next
  case (Some xy)
  obtain x y where xy: "xy = (x, y)" by force
  have d: "x \<noteq> y \<and> (x < y \<longleftrightarrow> bk_SessionID a < bk_SessionID b)"
    using first_difference_Some [OF _ Some [unfolded xy]] by (simp add: be_nat_session word_less_nat_alt)
  moreover have "bk_SessionID a \<noteq> bk_SessionID b" using Some first_difference_None [of "be_put 16 (bk_SessionID a)" "be_put 16 (bk_SessionID b)"] by auto
  ultimately show ?thesis using Some xy by (simp add: keyLess_def)
qed

definition entry_tag :: "expiryEntry \<Rightarrow> nat \<times> BlockKey \<times> int" where
  "entry_tag e = (ee_ref e, ee_key e, ee_deadline e)"

lemma Less_iff:
  "Less a b \<longleftrightarrow> ee_deadline a < ee_deadline b \<or> ee_deadline a = ee_deadline b \<and> keyLess (ee_key a) (ee_key b)"
  by (auto simp: Less_def)

interpretation expiry: heap_order Less set_index entry_tag ee_index
proof unfold_locales
  show "Less a b \<Longrightarrow> \<not> Less b a" for a b
    by (auto simp: Less_iff keyLess_iff)
  show "\<not> Less b a \<Longrightarrow> \<not> Less c b \<Longrightarrow> \<not> Less c a" for a b c
    by (fastforce simp: Less_iff keyLess_iff)
qed (simp_all add: Less_def set_index_def entry_tag_def)

subsection \<open>The queue as a set of entries\<close>

abbreviation refs :: "expiryHeap \<Rightarrow> nat list" where
  "refs h \<equiv> map ee_ref h"

definition queue_ok :: "expiryHeap \<Rightarrow> bool" where
  "queue_ok h \<longleftrightarrow> expiry.heap_inv h \<and> distinct (refs h)"

definition entries :: "expiryHeap \<Rightarrow> (nat \<times> BlockKey \<times> int) set" where
  "entries h = set (map entry_tag h)"

lemma queue_ok_Nil [simp]: "queue_ok []"
  by (simp add: queue_ok_def expiry.heap_inv_Nil)

lemma entries_Nil [simp]: "entries [] = {}"
  by (simp add: entries_def)

lemma refs_tags: "refs h = map fst (map entry_tag h)"
  by (simp add: entry_tag_def comp_def)

lemma refs_entries: "set (refs h) = fst ` entries h"
  by (auto simp: entries_def refs_tags simp del: map_map)

lemma mset_refs: "mset (map entry_tag g) = mset (map entry_tag h) \<Longrightarrow> mset (refs g) = mset (refs h)"
  unfolding refs_tags by (metis mset_map)

lemma push_queue:
  assumes "queue_ok h" "ee_ref e \<notin> set (refs h)"
  shows "queue_ok (expiry_push h e) \<and> entries (expiry_push h e) = insert (entry_tag e) (entries h)"
proof -
  note p = expiry.push_spec [of h e]
  have m: "mset (map entry_tag (expiry_push h e)) = mset (map entry_tag (e # h))"
    using p assms(1) by (simp add: queue_ok_def)
  then have "distinct (refs (expiry_push h e))"
    using mset_refs [OF m] assms by (metis distinct.simps(2) list.simps(9) mset_eq_imp_distinct_iff queue_ok_def)
  moreover have "entries (expiry_push h e) = insert (entry_tag e) (entries h)"
    using mset_eq_setD [OF m] by (simp add: entries_def)
  ultimately show ?thesis using p assms(1) by (simp add: queue_ok_def)
qed

lemma tags_distinct: "distinct (refs h) \<Longrightarrow> distinct (map entry_tag h)"
  unfolding refs_tags using distinct_map by metis

lemma removed_queue:
  assumes "queue_ok h" "expiry.heap_inv g" "t \<in> entries h" "mset (map entry_tag g) = mset (map entry_tag h) - {#t#}"
  shows "queue_ok g \<and> entries g = entries h - {t}"
proof -
  have "t \<in># mset (map entry_tag h)" using assms(3) by (simp add: entries_def)
  then have m: "mset (map entry_tag h) = mset (t # map entry_tag g)"
    using assms(4) by simp
  then have d: "distinct (t # map entry_tag g)"
    using assms(1) tags_distinct mset_eq_imp_distinct_iff by (metis queue_ok_def)
  have "mset (refs h) = mset (fst t # refs g)"
    using arg_cong [OF m, of "image_mset fst"] by (simp add: refs_tags comp_def del: map_map flip: mset_map)
  then have "distinct (refs g)"
    using assms(1) mset_eq_imp_distinct_iff by (metis distinct.simps(2) queue_ok_def)
  then show ?thesis
    using assms(2) d mset_eq_setD [OF m] by (auto simp: queue_ok_def entries_def)
qed

lemma pop_queue:
  assumes "queue_ok h" "h \<noteq> []" "expiry_pop h = (e, g)"
  shows "queue_ok g \<and> entry_tag e = entry_tag (h ! 0) \<and> entry_tag e \<in> entries h \<and>
    entries g = entries h - {entry_tag e} \<and> (\<forall>(r, k, t) \<in> entries h. ee_deadline e \<le> t)"
proof -
  have inv: "expiry.heap_inv h" using assms(1) by (simp add: queue_ok_def)
  note p = expiry.pop_spec [OF assms(2) inv assms(3)]
  have mem: "entry_tag (h ! 0) \<in> entries h" using assms(2) by (simp add: entries_def)
  have least: "ee_deadline e \<le> ee_deadline x" if x: "x \<in> set h" for x
  proof -
    obtain i where i: "i < length h" "x = h ! i" using x by (auto simp: in_set_conv_nth)
    have "ee_deadline e = ee_deadline (h ! 0)" using p by (simp add: entry_tag_def)
    then show ?thesis using expiry.root_least [OF inv i(1)] i(2) by (simp add: Less_def split: if_splits)
  qed
  then have "\<forall>(r, k, t) \<in> entries h. ee_deadline e \<le> t" by (auto simp: entries_def entry_tag_def)
  then show ?thesis using removed_queue [OF assms(1) _ mem] p mem by simp
qed

lemma entry_index_queue:
  assumes "queue_ok h" "(r, k, t) \<in> entries h"
  shows "0 \<le> entry_index h r \<and> nat (entry_index h r) < length h \<and> entry_tag (h ! nat (entry_index h r)) = (r, k, t)"
proof -
  obtain i where i: "i < length h" "entry_tag (h ! i) = (r, k, t)"
    using assms(2) by (auto simp: entries_def in_set_conv_nth)
  obtain e where e: "find (\<lambda>e. ee_ref e = r) h = Some e"
    using i by (cases "find (\<lambda>e. ee_ref e = r) h") (auto simp: find_None_iff entry_tag_def)
  then obtain j where j: "j < length h" "h ! j = e" "ee_ref e = r" by (auto simp: find_Some_iff)
  have "i = j"
    using assms(1) i j nth_eq_iff_index_eq [of "refs h" i j] by (simp add: queue_ok_def entry_tag_def)
  then have "ee_index e = int i"
    using assms(1) j expiry.positions [of h j] by (simp add: queue_ok_def)
  then show ?thesis using i e by (simp add: entry_index_def)
qed

lemma remove_queue:
  assumes "queue_ok h" "(r, k, t) \<in> entries h" "expiry_remove h (nat (entry_index h r)) = (e, g)"
  shows "queue_ok g \<and> entries g = entries h - {(r, k, t)}"
proof -
  note i = entry_index_queue [OF assms(1,2)]
  have "expiry.heap_inv h" using assms(1) by (simp add: queue_ok_def)
  from expiry.remove_spec [OF this _ assms(3)] i
  show ?thesis using removed_queue [OF assms(1) _ assms(2)] by simp
qed

end
