(* ===== verification/Assoc.thy ===== *)
theory Assoc
  imports "HOL-Library.AList" "HOL-Library.Multiset"
begin

text \<open>
  Go maps as association lists with distinct keys: what \<open>m[k] = v\<close> (\<^const>\<open>AList.update\<close>) and
  \<open>delete(m, k)\<close> (\<^const>\<open>AList.delete\<close>) do to the length, to the set of pairs and to sums over the
  values. The sums are what the resource accounts of the components are compared with.
\<close>

abbreviation keys :: "('k \<times> 'v) list \<Rightarrow> 'k list" where
  "keys m \<equiv> map fst m"

lemma map_of_mem: "distinct (keys m) \<Longrightarrow> map_of m k = Some v \<longleftrightarrow> (k, v) \<in> set m"
  by (rule map_of_eq_Some_iff)

lemma delete_filter: "AList.delete k m = filter (\<lambda>(k', _). k' \<noteq> k) m"
  unfolding AList.delete_eq by (rule filter_cong) auto

lemma delete_absent: "k \<notin> set (keys m) \<Longrightarrow> AList.delete k m = m"
  by (force simp: delete_filter filter_id_conv)

lemma set_delete: "set (AList.delete k m) = {(k', v) \<in> set m. k' \<noteq> k}"
  by (auto simp: delete_filter)

lemma map_of_update: "map_of (AList.update k v m) = (map_of m)(k \<mapsto> v)"
  by (rule update_conv')

lemma map_of_delete: "map_of (AList.delete k m) = (map_of m)(k := None)"
  by (rule delete_conv')

lemma distinct_keys_update: "distinct (keys m) \<Longrightarrow> distinct (keys (AList.update k v m))"
  by (rule distinct_update)

lemma distinct_keys_delete: "distinct (keys m) \<Longrightarrow> distinct (keys (AList.delete k m))"
  by (rule distinct_delete)

lemma keys_update: "set (keys (AList.update k v m)) = insert k (set (keys m))"
  by (induction m) auto

lemma keys_delete: "set (keys (AList.delete k m)) = set (keys m) - {k}"
  by (induction m) auto

lemma map_of_None_keys: "map_of m k = None \<longleftrightarrow> k \<notin> set (keys m)"
  by (simp add: map_of_eq_None_iff)

lemma update_new: "map_of m k = None \<Longrightarrow> AList.update k v m = m @ [(k, v)]"
  by (induction m) (auto split: if_splits)

lemma set_update_old: "distinct (keys m) \<Longrightarrow> map_of m k = Some v \<Longrightarrow> set (AList.update k w m) = insert (k, w) (set m - {(k, v)})"
proof (induction m)
  case (Cons p m)
  obtain a b where p: "p = (a, b)" by force
  show ?case
  proof (cases "a = k")
    case True
    then have "(k, v) \<notin> set m" using Cons.prems(1) p by (force simp: image_iff)
    then show ?thesis using True Cons.prems p by auto
  next
    case False
    then show ?thesis using Cons p by auto
  qed
qed simp

lemma mset_delete: "distinct (keys m) \<Longrightarrow> map_of m k = Some v \<Longrightarrow> mset m = add_mset (k, v) (mset (AList.delete k m))"
proof (induction m)
  case (Cons p m)
  obtain a b where p: "p = (a, b)" by force
  show ?case
  proof (cases "a = k")
    case True
    then have "AList.delete k m = m" using Cons.prems(1) p by (intro delete_absent) auto
    then show ?thesis using True Cons.prems p by simp
  next
    case False
    then show ?thesis using Cons p by simp
  qed
qed simp

lemma mset_update_old:
  "distinct (keys m) \<Longrightarrow> map_of m k = Some v \<Longrightarrow> mset (AList.update k w m) = add_mset (k, w) (mset (AList.delete k m))"
proof (induction m)
  case (Cons p m)
  obtain a b where p: "p = (a, b)" by force
  show ?case
  proof (cases "a = k")
    case True
    then have "AList.delete k m = m" using Cons.prems(1) p by (intro delete_absent) auto
    then show ?thesis using True p by simp
  next
    case False
    then show ?thesis using Cons p by simp
  qed
qed simp

definition tally :: "('v \<Rightarrow> int) \<Rightarrow> ('k \<times> 'v) list \<Rightarrow> int" where
  "tally f m = sum_list (map (\<lambda>p. f (snd p)) m)"

lemma tally_Nil [simp]: "tally f [] = 0"
  by (simp add: tally_def)

lemma tally_mset: "tally f m = sum_mset (image_mset (\<lambda>p. f (snd p)) (mset m))"
  by (simp add: tally_def flip: sum_mset_sum_list mset_map)

lemma tally_delete:
  "distinct (keys m) \<Longrightarrow> map_of m k = Some v \<Longrightarrow> tally f (AList.delete k m) = tally f m - f v"
  using mset_delete [of m k v] by (simp add: tally_mset)

lemma tally_update_old:
  "distinct (keys m) \<Longrightarrow> map_of m k = Some v \<Longrightarrow> tally f (AList.update k w m) = tally f m - f v + f w"
  using mset_delete [of m k v] mset_update_old [of m k v w] by (simp add: tally_mset)

lemma tally_update_new: "map_of m k = None \<Longrightarrow> tally f (AList.update k v m) = tally f m + f v"
  by (simp add: update_new tally_def)

lemma length_delete: "distinct (keys m) \<Longrightarrow> map_of m k = Some v \<Longrightarrow> length m = Suc (length (AList.delete k m))"
  using mset_delete [of m k v] by (metis size_add_mset size_mset)

lemma length_update_old: "distinct (keys m) \<Longrightarrow> map_of m k = Some v \<Longrightarrow> length (AList.update k w m) = length m"
  using mset_delete [of m k v] mset_update_old [of m k v w] by (metis size_add_mset size_mset)

lemma length_update_new: "map_of m k = None \<Longrightarrow> length (AList.update k v m) = Suc (length m)"
  by (simp add: update_new)

lemma tally_nonneg: "(\<And>k v. (k, v) \<in> set m \<Longrightarrow> 0 \<le> f v) \<Longrightarrow> 0 \<le> tally f m"
  unfolding tally_def by (rule sum_list_nonneg) auto

lemma tally_le_length: "(\<And>k v. (k, v) \<in> set m \<Longrightarrow> f v \<le> c) \<Longrightarrow> tally f m \<le> int (length m) * c"
proof (induction m)
  case (Cons p m)
  have "f (snd p) \<le> c" using Cons.prems [of "fst p" "snd p"] by simp
  moreover have "tally f m \<le> int (length m) * c" using Cons.prems by (intro Cons.IH) (meson list.set_intros(2))
  ultimately show ?case by (simp add: tally_def algebra_simps)
qed simp

lemma member_le_tally:
  assumes "\<And>k v. (k, v) \<in> set m \<Longrightarrow> 0 \<le> f v" and "(k, v) \<in> set m"
  shows "f v \<le> tally f m"
proof -
  have "f v \<in> set (map (\<lambda>p. f (snd p)) m)" using assms(2) by (force simp: image_iff)
  then show ?thesis
    unfolding tally_def using assms(1) by (intro member_le_sum_list) auto
qed

end
