(* ===== verification/FecDecoder.thy ===== *)
theory FecDecoder
  imports FecEncoder ExpiryHeap Assoc
begin

text \<open>
  The v0.1 FEC receiver (\<^verbatim>\<open>src/internal/fec/decoder.go\<close>, \<^verbatim>\<open>statistics.go\<close>). The decoder is a record
  with the fields of the Go struct; a Go map is an association list with distinct keys; times and
  durations are nanosecond counts (\<open>int\<close>), and the reading of the injected clock is an argument of
  the operations that take one. The mutex makes every exported method one atomic step, so each is a
  function from states to states. \<open>dc_alloc\<close> numbers the expiry entries the decoder has allocated.

  The optional \<open>Counters\<close> collector is modelled as owned by one decoder.
\<close>

subsection \<open>statistics.go\<close>

record Counters =
  st_CompletedBlocks :: u64
  st_CompletedCapacityEvictions :: u64
  st_RecoveredBlocks :: u64
  st_RecoveredShards :: u64
  st_ExpiredBlocks :: u64
  st_DecoderFull :: u64
  st_LateShards :: u64
  st_TooOldShards :: u64
  st_DuplicateShards :: u64
  st_PendingBlocks :: int
  st_PendingShards :: int
  st_PendingBytes :: int
  st_PendingBlocksHighWater :: u64
  st_PendingShardsHighWater :: u64
  st_PendingBytesHighWater :: u64

definition changeGauge :: "int \<Rightarrow> u64 \<Rightarrow> int \<Rightarrow> int \<times> u64" where
  "changeGauge current peak delta =
     (if delta = 0 then (current, peak)
      else
        let now = current + delta
        in if delta < 0 then (now, peak)
           else let val = word_of_int now in (now, if val > peak then val else peak))"

definition changePending :: "int \<Rightarrow> int \<Rightarrow> int \<Rightarrow> Counters option \<Rightarrow> Counters option" where
  "changePending blocks shards bts c =
     (case c of
        None \<Rightarrow> None
      | Some s \<Rightarrow>
          (case changeGauge (st_PendingBlocks s) (st_PendingBlocksHighWater s) blocks of (b, bh) \<Rightarrow>
           case changeGauge (st_PendingShards s) (st_PendingShardsHighWater s) shards of (n, nh) \<Rightarrow>
           case changeGauge (st_PendingBytes s) (st_PendingBytesHighWater s) bts of (y, yh) \<Rightarrow>
             Some (s\<lparr>st_PendingBlocks := b, st_PendingBlocksHighWater := bh,
                     st_PendingShards := n, st_PendingShardsHighWater := nh,
                     st_PendingBytes := y, st_PendingBytesHighWater := yh\<rparr>)))"

subsection \<open>decoder.go: data\<close>

record IncomingShard =
  is_Key :: BlockKey
  is_Params :: Params
  is_Index :: int
  is_OriginalLength :: int
  is_Payload :: bytes

datatype Outcome = OutcomePending | OutcomeDuplicate | OutcomeComplete | OutcomeTooOld

record Result =
  rs_Outcome :: Outcome
  rs_Datagram :: "bytes option"

record DecoderConfig =
  cf_Params :: Params
  cf_Budget :: Budget
  cf_DecodeTimeout :: int
  cf_CompletionTTL :: int
  cf_MaxPendingBlocks :: int
  cf_MaxCompletedBlocks :: int
  cf_Statistics :: "Counters option"
  cf_ReplayWindow :: "SessionID option"

record Stats =
  sn_PendingBlocks :: int
  sn_PendingShards :: int
  sn_PendingBytes :: int
  sn_CompletedBlocks :: int

record ExpireStats =
  ex_PendingBlocks :: int
  ex_CompletedBlocks :: int

record pendingBlock =
  pb_originalLength :: int
  pb_shardSize :: int
  pb_shards :: "shard list"
  pb_present :: int
  pb_bytes :: int
  pb_expiry :: nat

record Decoder =
  dc_params :: Params
  dc_limits :: Limits
  dc_codec :: rs_codec
  dc_total :: int
  dc_decodeTimeout :: int
  dc_completionTTL :: int
  dc_maxPendingBlocks :: int
  dc_maxCompletedBlocks :: int
  dc_pending :: "(BlockKey \<times> pendingBlock) list"
  dc_pendingExpiry :: expiryHeap
  dc_completed :: "(BlockKey \<times> nat) list"
  dc_completedExpiry :: expiryHeap
  dc_pendingShards :: int
  dc_pendingBytes :: int
  dc_closed :: bool
  dc_statistics :: "Counters option"
  dc_replay :: "replayWindow option"
  dc_alloc :: nat

definition NewDecoder :: "(int \<Rightarrow> int \<Rightarrow> rs_codec option) \<Rightarrow> DecoderConfig \<Rightarrow> (FecError, Decoder) result" where
  "NewDecoder rs_New config =
     (case DeriveLimits (cf_Params config) (cf_Budget config) of
        Inl err \<Rightarrow> Inl err
      | Inr limits \<Rightarrow>
          if cf_DecodeTimeout config \<le> 0 then Inl ErrInvalidDecoderConfig
          else if cf_ReplayWindow config = None \<and> cf_CompletionTTL config \<le> 0 then Inl ErrInvalidDecoderConfig
          else if cf_MaxPendingBlocks config \<le> 0 then Inl ErrInvalidDecoderConfig
          else if cf_ReplayWindow config = None \<and> cf_MaxCompletedBlocks config \<le> 0 then Inl ErrInvalidDecoderConfig
          else
            (case newCodec rs_New (cf_Params config) of
               Inl err \<Rightarrow> Inl err
             | Inr (c, n) \<Rightarrow>
                 Inr \<lparr>dc_params = cf_Params config, dc_limits = limits, dc_codec = c, dc_total = n,
                      dc_decodeTimeout = cf_DecodeTimeout config, dc_completionTTL = cf_CompletionTTL config,
                      dc_maxPendingBlocks = cf_MaxPendingBlocks config,
                      dc_maxCompletedBlocks = cf_MaxCompletedBlocks config,
                      dc_pending = [], dc_pendingExpiry = [], dc_completed = [], dc_completedExpiry = [],
                      dc_pendingShards = 0, dc_pendingBytes = 0, dc_closed = False,
                      dc_statistics = cf_Statistics config,
                      dc_replay = map_option newReplayWindow (cf_ReplayWindow config), dc_alloc = 0\<rparr>))"

subsection \<open>decoder.go: validation and removal\<close>

definition validateShard :: "IncomingShard \<Rightarrow> Decoder \<Rightarrow> (FecError, int) result" where
  "validateShard input d =
     (if (case dc_replay d of None \<Rightarrow> False | Some w \<Rightarrow> bk_SessionID (is_Key input) \<noteq> rw_sessionID w)
        then Inl ErrInvalidShard
      else if is_Params input \<noteq> dc_params d then Inl ErrInvalidShard
      else if is_Index input < 0 \<or> is_Index input \<ge> dc_total d then Inl ErrInvalidShard
      else if is_OriginalLength input < 0 \<or> is_OriginalLength input > EffectiveDatagramLimit (dc_limits d)
        then Inl ErrInvalidShard
      else
        let shardSize = shardSizeForDatagram (is_OriginalLength input) (DataShards (dc_params d))
        in if shardSize > ShardCapacity (dc_limits d) \<or> int (length (is_Payload input)) \<noteq> shardSize
             then Inl ErrInvalidShard
           else Inr shardSize)"

text \<open>\<open>if d.statistics != nil { d.statistics.X.Add(n) }\<close>\<close>

definition bump :: "(Counters \<Rightarrow> Counters) \<Rightarrow> Decoder \<Rightarrow> Decoder" where
  "bump f d = d\<lparr>dc_statistics := map_option f (dc_statistics d)\<rparr>"

definition pending_gauge :: "int \<Rightarrow> int \<Rightarrow> int \<Rightarrow> Decoder \<Rightarrow> Decoder" where
  "pending_gauge b s y d = d\<lparr>dc_statistics := changePending b s y (dc_statistics d)\<rparr>"

definition removePendingLocked :: "BlockKey \<Rightarrow> pendingBlock \<Rightarrow> Decoder \<Rightarrow> Decoder" where
  "removePendingLocked key block d =
     (let d = d\<lparr>dc_pending := AList.delete key (dc_pending d)\<rparr>;
          i = entry_index (dc_pendingExpiry d) (pb_expiry block);
          d = (if i \<ge> 0 then d\<lparr>dc_pendingExpiry := snd (expiry_remove (dc_pendingExpiry d) (nat i))\<rparr> else d);
          d = d\<lparr>dc_pendingShards := dc_pendingShards d - pb_present block,
                dc_pendingBytes := dc_pendingBytes d - pb_bytes block\<rparr>
      in pending_gauge (- 1) (- pb_present block) (- pb_bytes block) d)"

definition rememberCompletedLocked :: "BlockKey \<Rightarrow> int \<Rightarrow> Decoder \<Rightarrow> Decoder" where
  "rememberCompletedLocked key now d =
     (case dc_replay d of
        Some w \<Rightarrow> d\<lparr>dc_replay := Some (complete w (bk_PacketID key))\<rparr>
      | None \<Rightarrow>
          let d = (if int (length (dc_completed d)) \<ge> dc_maxCompletedBlocks d then
                     (case expiry_pop (dc_completedExpiry d) of (oldest, h) \<Rightarrow>
                        bump (\<lambda>s. s\<lparr>st_CompletedCapacityEvictions := st_CompletedCapacityEvictions s + 1\<rparr>)
                          (d\<lparr>dc_completedExpiry := h, dc_completed := AList.delete (ee_key oldest) (dc_completed d)\<rparr>))
                   else d);
              entry = \<lparr>ee_ref = dc_alloc d, ee_key = key, ee_deadline = now + dc_completionTTL d, ee_index = - 1\<rparr>
          in d\<lparr>dc_completed := AList.update key (dc_alloc d) (dc_completed d),
               dc_completedExpiry := expiry_push (dc_completedExpiry d) entry,
               dc_alloc := dc_alloc d + 1\<rparr>)"

subsection \<open>decoder.go: sweeping\<close>

text \<open>The two loops of \<open>sweepLocked\<close>; the number is the running count in \<open>ExpireStats\<close>.\<close>

function sweep_pending :: "int \<Rightarrow> int \<Rightarrow> Decoder \<Rightarrow> int \<times> Decoder" where
  "sweep_pending now n d =
     (if dc_pendingExpiry d \<noteq> [] \<and> \<not> ee_deadline (dc_pendingExpiry d ! 0) > now then
        let popped = expiry_pop (dc_pendingExpiry d); entry = fst popped;
            d = d\<lparr>dc_pendingExpiry := snd popped\<rparr>
        in case map_of (dc_pending d) (ee_key entry) of
             None \<Rightarrow> sweep_pending now n d
           | Some block \<Rightarrow>
               if pb_expiry block \<noteq> ee_ref entry then sweep_pending now n d
               else
                 sweep_pending now (n + 1)
                   (bump (\<lambda>s. s\<lparr>st_ExpiredBlocks := st_ExpiredBlocks s + 1\<rparr>)
                     (pending_gauge (- 1) (- pb_present block) (- pb_bytes block)
                       (d\<lparr>dc_pending := AList.delete (ee_key entry) (dc_pending d),
                          dc_pendingShards := dc_pendingShards d - pb_present block,
                          dc_pendingBytes := dc_pendingBytes d - pb_bytes block\<rparr>)))
      else (n, d))"
  by pat_completeness auto
termination
  by (relation "measure (\<lambda>(now, n, d). length (dc_pendingExpiry d))") (auto simp: bump_def pending_gauge_def)

function sweep_completed :: "int \<Rightarrow> int \<Rightarrow> Decoder \<Rightarrow> int \<times> Decoder" where
  "sweep_completed now n d =
     (if dc_completedExpiry d \<noteq> [] \<and> \<not> ee_deadline (dc_completedExpiry d ! 0) > now then
        let popped = expiry_pop (dc_completedExpiry d); entry = fst popped;
            d = d\<lparr>dc_completedExpiry := snd popped\<rparr>
        in case map_of (dc_completed d) (ee_key entry) of
             None \<Rightarrow> sweep_completed now n d
           | Some current \<Rightarrow>
               if current \<noteq> ee_ref entry then sweep_completed now n d
               else sweep_completed now (n + 1) (d\<lparr>dc_completed := AList.delete (ee_key entry) (dc_completed d)\<rparr>)
      else (n, d))"
  by pat_completeness auto
termination
  by (relation "measure (\<lambda>(now, n, d). length (dc_completedExpiry d))") auto

declare sweep_pending.simps [simp del] sweep_completed.simps [simp del]

definition sweepLocked :: "int \<Rightarrow> Decoder \<Rightarrow> ExpireStats \<times> Decoder" where
  "sweepLocked now d =
     (case sweep_pending now 0 d of (p, d) \<Rightarrow>
      case sweep_completed now 0 d of (c, d) \<Rightarrow> (\<lparr>ex_PendingBlocks = p, ex_CompletedBlocks = c\<rparr>, d))"

definition Sweep :: "int \<Rightarrow> Decoder \<Rightarrow> ExpireStats \<times> Decoder" where
  "Sweep now d =
     (if dc_closed d then (\<lparr>ex_PendingBlocks = 0, ex_CompletedBlocks = 0\<rparr>, d) else sweepLocked now d)"

subsection \<open>decoder.go: aggregation\<close>

text \<open>\<open>AddVerifiedShard\<close> in the order of the source. \<open>openBlock\<close> finds or creates the pending block
  (or returns early), \<open>gather\<close> is the copy loop that assembles the datagram, \<open>finishBlock\<close> is the
  part after the \<open>k\<close>-th shard.\<close>

definition openBlock ::
    "int \<Rightarrow> IncomingShard \<Rightarrow> int \<Rightarrow> Decoder \<Rightarrow> ((FecError, Result) result \<times> Decoder) + (pendingBlock \<times> Decoder)" where
  "openBlock now input shardSize d =
     (let key = is_Key input
      in case map_of (dc_pending d) key of
           Some block \<Rightarrow>
             if pb_originalLength block \<noteq> is_OriginalLength input \<or> pb_shardSize block \<noteq> shardSize
             then Inl (Inl ErrInconsistentBlock, d) else Inr (block, d)
         | None \<Rightarrow>
             if (case dc_replay d of None \<Rightarrow> False | Some w \<Rightarrow> tooOld w (bk_PacketID key)) then
               Inl (Inr \<lparr>rs_Outcome = OutcomeTooOld, rs_Datagram = None\<rparr>,
                    bump (\<lambda>s. s\<lparr>st_TooOldShards := st_TooOldShards s + 1\<rparr>) d)
             else if map_of (dc_completed d) key \<noteq> None \<or>
                 (case dc_replay d of None \<Rightarrow> False | Some w \<Rightarrow> contains w (bk_PacketID key)) then
               Inl (Inr \<lparr>rs_Outcome = OutcomeDuplicate, rs_Datagram = None\<rparr>,
                    bump (\<lambda>s. s\<lparr>st_LateShards := st_LateShards s + 1\<rparr>) d)
             else if int (length (dc_pending d)) \<ge> dc_maxPendingBlocks d then
               Inl (Inl ErrDecoderFull, bump (\<lambda>s. s\<lparr>st_DecoderFull := st_DecoderFull s + 1\<rparr>) d)
             else
               let expiry = \<lparr>ee_ref = dc_alloc d, ee_key = key, ee_deadline = now + dc_decodeTimeout d, ee_index = - 1\<rparr>;
                   block = \<lparr>pb_originalLength = is_OriginalLength input, pb_shardSize = shardSize,
                            pb_shards = replicate (nat (dc_total d)) None, pb_present = 0, pb_bytes = 0,
                            pb_expiry = dc_alloc d\<rparr>;
                   d = pending_gauge 1 0 0
                         (d\<lparr>dc_pending := AList.update key block (dc_pending d),
                            dc_pendingExpiry := expiry_push (dc_pendingExpiry d) expiry,
                            dc_alloc := dc_alloc d + 1\<rparr>)
               in Inr (block, d\<lparr>dc_replay := map_option (\<lambda>w. admit w (bk_PacketID key)) (dc_replay d)\<rparr>))"

fun gather :: "nat \<Rightarrow> bytes \<Rightarrow> shard list \<Rightarrow> bytes" where
  "gather n written [] = written"
| "gather n written (s # ss) =
     (if length written = n then written
      else gather n (written @ take (n - length written) (case s of None \<Rightarrow> [] | Some x \<Rightarrow> x)) ss)"

definition finishBlock ::
    "int \<Rightarrow> IncomingShard \<Rightarrow> pendingBlock \<Rightarrow> Decoder \<Rightarrow> (FecError, Result) result \<times> Decoder" where
  "finishBlock now input block d =
     (let key = is_Key input; k = nat (DataShards (dc_params d));
          missingData = length (filter (\<lambda>s. s = None) (take k (pb_shards block)))
      in case rs_ReconstructData (dc_codec d) (pb_shards block) of
           None \<Rightarrow> (Inl ErrDecode, removePendingLocked key block d)
         | Some working \<Rightarrow>
             let datagram = gather (nat (is_OriginalLength input)) [] (take k working)
             in if length datagram \<noteq> nat (is_OriginalLength input)
                then (Inl ErrDecode, removePendingLocked key block d)
                else
                  (Inr \<lparr>rs_Outcome = OutcomeComplete, rs_Datagram = Some datagram\<rparr>,
                   bump (\<lambda>s. let s = s\<lparr>st_CompletedBlocks := st_CompletedBlocks s + 1\<rparr>
                             in if missingData \<noteq> 0
                                then s\<lparr>st_RecoveredBlocks := st_RecoveredBlocks s + 1,
                                       st_RecoveredShards := st_RecoveredShards s + of_nat missingData\<rparr>
                                else s)
                     (rememberCompletedLocked key now (removePendingLocked key block d))))"

definition AddVerifiedShard ::
    "int \<Rightarrow> IncomingShard \<Rightarrow> Decoder \<Rightarrow> (FecError, Result) result \<times> Decoder" where
  "AddVerifiedShard now input d =
     (if dc_closed d then (Inl ErrClosed, d)
      else
        case validateShard input d of
          Inl err \<Rightarrow> (Inl err, d)
        | Inr shardSize \<Rightarrow>
            (case openBlock now input shardSize (snd (sweepLocked now d)) of
               Inl ret \<Rightarrow> ret
             | Inr (block, d) \<Rightarrow>
                 (case pb_shards block ! nat (is_Index input) of
                    Some existing \<Rightarrow>
                      if existing = is_Payload input
                      then (Inr \<lparr>rs_Outcome = OutcomeDuplicate, rs_Datagram = None\<rparr>,
                            bump (\<lambda>s. s\<lparr>st_DuplicateShards := st_DuplicateShards s + 1\<rparr>) d)
                      else (Inl ErrConflictingShard, d)
                  | None \<Rightarrow>
                      let owned = is_Payload input;
                          block = block\<lparr>pb_shards := (pb_shards block)[nat (is_Index input) := Some owned],
                                        pb_present := pb_present block + 1,
                                        pb_bytes := pb_bytes block + int (length owned)\<rparr>;
                          d = pending_gauge 0 1 (int (length owned))
                                (d\<lparr>dc_pending := AList.update (is_Key input) block (dc_pending d),
                                   dc_pendingShards := dc_pendingShards d + 1,
                                   dc_pendingBytes := dc_pendingBytes d + int (length owned)\<rparr>)
                      in if pb_present block < DataShards (dc_params d)
                         then (Inr \<lparr>rs_Outcome = OutcomePending, rs_Datagram = None\<rparr>, d)
                         else finishBlock now input block d)))"

subsection \<open>decoder.go: observation and shutdown\<close>

definition Decoder_Stats :: "Decoder \<Rightarrow> Stats" where
  "Decoder_Stats d =
     \<lparr>sn_PendingBlocks = int (length (dc_pending d)), sn_PendingShards = dc_pendingShards d,
      sn_PendingBytes = dc_pendingBytes d,
      sn_CompletedBlocks =
        (case dc_replay d of None \<Rightarrow> int (length (dc_completed d)) | Some w \<Rightarrow> rw_count w)\<rparr>"

definition Decoder_Close :: "Decoder \<Rightarrow> Decoder" where
  "Decoder_Close d =
     (if dc_closed d then d
      else
        let d = pending_gauge (- int (length (dc_pending d))) (- dc_pendingShards d) (- dc_pendingBytes d)
                  (d\<lparr>dc_closed := True\<rparr>)
        in d\<lparr>dc_pending := [], dc_completed := [], dc_replay := None, dc_pendingExpiry := [],
             dc_completedExpiry := [], dc_pendingShards := 0, dc_pendingBytes := 0\<rparr>)"

end
