(* ===== verification/FecDecoderInv.thy ===== *)
theory FecDecoderInv
  imports FecDecoder
begin

text \<open>
  The invariant of the v0.1 decoder and its preservation. \<open>tracked\<close> ties a map of retained objects to
  its deadline queue: every object has exactly one queue entry. It is proved once, for any kind of
  object, and used for the pending blocks and for the legacy completion cache.
\<close>

subsection \<open>A map tracked by a deadline queue\<close>

definition tracked :: "('b \<Rightarrow> nat) \<Rightarrow> (BlockKey \<times> 'b) list \<Rightarrow> expiryHeap \<Rightarrow> nat \<Rightarrow> bool" where
  "tracked ref m h a \<longleftrightarrow>
     distinct (keys m) \<and> queue_ok h \<and> (\<forall>r \<in> set (refs h). r < a) \<and>
     (\<lambda>(r, k, t). (r, k)) ` entries h = (\<lambda>(k, b). (ref b, k)) ` set m"

lemma tracked_Nil [simp]: "tracked ref [] [] a"
  by (simp add: tracked_def)

lemma tracked_alloc: "tracked ref m h a \<Longrightarrow> a \<le> a' \<Longrightarrow> tracked ref m h a'"
  by (auto simp: tracked_def)

lemma tracked_entry:
  assumes "tracked ref m h a" "map_of m k = Some b"
  shows "\<exists>t. (ref b, k, t) \<in> entries h"
proof -
  have "(ref b, k) \<in> (\<lambda>(k, b). (ref b, k)) ` set m"
    using assms by (force dest: map_of_SomeD)
  then have "(ref b, k) \<in> (\<lambda>(r, k, t). (r, k)) ` entries h" using assms(1) by (simp add: tracked_def)
  then show ?thesis by auto
qed

lemma tracked_block:
  assumes "tracked ref m h a" "(r, k, t) \<in> entries h"
  shows "\<exists>b. map_of m k = Some b \<and> ref b = r"
proof -
  have "(r, k) \<in> (\<lambda>(r, k, t). (r, k)) ` entries h" using assms(2) by force
  then have "(r, k) \<in> (\<lambda>(k, b). (ref b, k)) ` set m" using assms(1) by (simp add: tracked_def)
  then show ?thesis using assms(1) by (auto simp: tracked_def map_of_mem)
qed

lemma entries_ref_unique: "queue_ok h \<Longrightarrow> (r, k, t) \<in> entries h \<Longrightarrow> (r, k', t') \<in> entries h \<Longrightarrow> k = k' \<and> t = t'"
  using entry_index_queue [of h r k t] entry_index_queue [of h r k' t'] by simp

lemma tracked_key_unique:
  "tracked ref m h a \<Longrightarrow> (r, k, t) \<in> entries h \<Longrightarrow> (r', k, t') \<in> entries h \<Longrightarrow> r = r' \<and> t = t'"
  using tracked_block [of ref m h a r k t] tracked_block [of ref m h a r' k t'] entries_ref_unique [of h r k t k t']
  by (metis option.inject tracked_def)

lemma image_remove: "(\<And>y. y \<in> A \<Longrightarrow> f y = f x \<Longrightarrow> y = x) \<Longrightarrow> f ` (A - {x}) = f ` A - {f x}"
  by auto

lemma tracked_remove:
  assumes t: "tracked ref m h a" and e: "(r, k, t) \<in> entries h" and g: "queue_ok g" "entries g = entries h - {(r, k, t)}"
  shows "tracked ref (AList.delete k m) g a"
proof -
  obtain b where b: "map_of m k = Some b" "ref b = r" using tracked_block [OF t e] by blast
  have d: "distinct (keys m)" using t by (simp add: tracked_def)
  have "(\<lambda>(r, k, t). (r, k)) ` entries g = (\<lambda>(r, k, t). (r, k)) ` entries h - {(r, k)}"
  proof -
    let ?f = "\<lambda>(r, k, t). (r, k)"
    have "x = (r, k, t)" if "x \<in> entries h" "?f x = ?f (r, k, t)" for x
    proof (cases x)
      case (fields a b c)
      then show ?thesis using tracked_key_unique [OF t e, of a c] that by auto
    qed
    then have "?f ` (entries h - {(r, k, t)}) = ?f ` entries h - {?f (r, k, t)}"
      by (rule image_remove)
    then show ?thesis unfolding g(2) by simp
  qed
  also have "\<dots> = (\<lambda>(k, b). (ref b, k)) ` set m - {(r, k)}" using t by (simp add: tracked_def)
  also have "\<dots> = (\<lambda>(k, b). (ref b, k)) ` set (AList.delete k m)"
  proof -
    let ?f = "\<lambda>(k, b). (ref b, k)"
    have only: "b' = b" if "(k, b') \<in> set m" for b' using that b(1) d by (metis map_of_mem option.inject)
    then have "x = (k, b)" if "x \<in> set m" "?f x = ?f (k, b)" for x using that by (cases x) auto
    then have "?f ` (set m - {(k, b)}) = ?f ` set m - {?f (k, b)}" by (rule image_remove)
    moreover have "set (AList.delete k m) = set m - {(k, b)}" using only by (auto simp: set_delete)
    ultimately show ?thesis using b(2) by simp
  qed
  finally have "(\<lambda>(r, k, t). (r, k)) ` entries g = (\<lambda>(k, b). (ref b, k)) ` set (AList.delete k m)" .
  moreover have "\<forall>x \<in> set (refs g). x < a"
    using t g(2) unfolding tracked_def refs_entries by auto
  ultimately show ?thesis using g(1) d by (simp add: tracked_def distinct_keys_delete)
qed

lemma tracked_add:
  assumes t: "tracked ref m h a" and n: "map_of m k = None" and b: "ref b = a"
    and e: "ee_ref e = a" "ee_key e = k"
  shows "tracked ref (AList.update k b m) (expiry_push h e) (a + 1) \<and>
    entries (expiry_push h e) = insert (a, k, ee_deadline e) (entries h)"
proof -
  have "ee_ref e \<notin> set (refs h)" using t e(1) by (auto simp: tracked_def)
  then have p: "queue_ok (expiry_push h e)" "entries (expiry_push h e) = insert (a, k, ee_deadline e) (entries h)"
    using push_queue [of h e] t e by (simp_all add: tracked_def entry_tag_def)
  moreover have "\<forall>r \<in> set (refs (expiry_push h e)). r < a + 1"
    using t unfolding tracked_def refs_entries p(2) by auto
  moreover have "(\<lambda>(r, k, t). (r, k)) ` entries (expiry_push h e) = (\<lambda>(k, b). (ref b, k)) ` set (AList.update k b m)"
    using t b n unfolding p(2) tracked_def by (simp add: update_new)
  ultimately show ?thesis using t by (simp add: tracked_def distinct_keys_update)
qed

lemma tracked_update:
  assumes t: "tracked ref m h a" and b: "map_of m k = Some b" and b': "ref b' = ref b"
  shows "tracked ref (AList.update k b' m) h a"
proof -
  have d: "distinct (keys m)" using t by (simp add: tracked_def)
  have "(k, b) \<in> set m" using b by (rule map_of_SomeD)
  then have "(\<lambda>(k, b). (ref b, k)) ` set (AList.update k b' m) = (\<lambda>(k, b). (ref b, k)) ` set m"
    using b' set_update_old [OF d b] by (force simp: image_iff)
  then show ?thesis using t by (simp add: tracked_def distinct_keys_update)
qed

lemma tracked_pop:
  assumes t: "tracked ref m h a" and h: "h \<noteq> []" and p: "expiry_pop h = (e, g)"
  obtains b where "map_of m (ee_key e) = Some b" "ref b = ee_ref e" "tracked ref (AList.delete (ee_key e) m) g a"
    "(ee_ref e, ee_key e, ee_deadline e) \<in> entries h" "entries g = entries h - {(ee_ref e, ee_key e, ee_deadline e)}"
    "\<And>r k t. (r, k, t) \<in> entries h \<Longrightarrow> ee_deadline e \<le> t" "ee_deadline e = ee_deadline (h ! 0)"
proof -
  have "queue_ok h" using t by (simp add: tracked_def)
  note q = pop_queue [OF this h p]
  have e: "(ee_ref e, ee_key e, ee_deadline e) \<in> entries h" using q by (metis entry_tag_def)
  obtain b where b: "map_of m (ee_key e) = Some b" "ref b = ee_ref e" using tracked_block [OF t e] by blast
  have "tracked ref (AList.delete (ee_key e) m) g a"
    using q by (intro tracked_remove [OF t e]) (simp_all add: entry_tag_def)
  moreover have "ee_deadline e \<le> t'" if "(r, k, t') \<in> entries h" for r k t'
    using q that by blast
  ultimately show ?thesis using that [OF b _ e] q unfolding entry_tag_def by blast
qed

subsection \<open>Accounts of the pending blocks\<close>

definition gauges_ok :: "Counters option \<Rightarrow> int \<Rightarrow> int \<Rightarrow> int \<Rightarrow> bool" where
  "gauges_ok c n s y \<longleftrightarrow>
     (\<forall>st. c = Some st \<longrightarrow> st_PendingBlocks st = n \<and> st_PendingShards st = s \<and> st_PendingBytes st = y)"

lemma changeGauge_fst: "fst (changeGauge v p delta) = v + delta"
  by (simp add: changeGauge_def Let_def)

lemma gauges_change: "gauges_ok c n s y \<Longrightarrow> gauges_ok (changePending dn ds dy c) (n + dn) (s + ds) (y + dy)"
  by (cases c) (auto simp: gauges_ok_def changePending_def split_beta changeGauge_fst)

lemma gauges_bump:
  "(\<And>st. st_PendingBlocks (f st) = st_PendingBlocks st \<and> st_PendingShards (f st) = st_PendingShards st \<and>
      st_PendingBytes (f st) = st_PendingBytes st) \<Longrightarrow> gauges_ok c n s y \<Longrightarrow> gauges_ok (map_option f c) n s y"
  by (auto simp: gauges_ok_def)

definition pending_ok :: "Decoder \<Rightarrow> bool" where
  "pending_ok d \<longleftrightarrow>
     tracked pb_expiry (dc_pending d) (dc_pendingExpiry d) (dc_alloc d) \<and>
     dc_pendingShards d = tally pb_present (dc_pending d) \<and>
     dc_pendingBytes d = tally pb_bytes (dc_pending d) \<and>
     gauges_ok (dc_statistics d) (int (length (dc_pending d))) (dc_pendingShards d) (dc_pendingBytes d)"

lemma pending_okD:
  assumes "pending_ok d"
  shows "tracked pb_expiry (dc_pending d) (dc_pendingExpiry d) (dc_alloc d)"
    "dc_pendingShards d = tally pb_present (dc_pending d)" "dc_pendingBytes d = tally pb_bytes (dc_pending d)"
    "gauges_ok (dc_statistics d) (int (length (dc_pending d))) (dc_pendingShards d) (dc_pendingBytes d)"
    "distinct (keys (dc_pending d))"
  using assms unfolding pending_ok_def tracked_def by blast+

text \<open>The fields that the pending table and its accounts consist of may change, nothing else.\<close>

definition pending_frame :: "Decoder \<Rightarrow> Decoder \<Rightarrow> bool" where
  "pending_frame d d' \<longleftrightarrow>
     d' = d\<lparr>dc_pending := dc_pending d', dc_pendingExpiry := dc_pendingExpiry d', dc_pendingShards := dc_pendingShards d',
            dc_pendingBytes := dc_pendingBytes d', dc_statistics := dc_statistics d'\<rparr>"

lemma pending_frame_refl [simp]: "pending_frame d d"
  by (simp add: pending_frame_def)

lemma pending_frame_trans: "pending_frame a b \<Longrightarrow> pending_frame b c \<Longrightarrow> pending_frame a c"
  unfolding pending_frame_def by (cases a; cases b; cases c) simp

lemma pending_frame_fields:
  assumes "pending_frame d d'"
  shows "dc_params d' = dc_params d" "dc_limits d' = dc_limits d" "dc_codec d' = dc_codec d" "dc_total d' = dc_total d"
    "dc_decodeTimeout d' = dc_decodeTimeout d" "dc_completionTTL d' = dc_completionTTL d"
    "dc_maxPendingBlocks d' = dc_maxPendingBlocks d" "dc_maxCompletedBlocks d' = dc_maxCompletedBlocks d"
    "dc_completed d' = dc_completed d" "dc_completedExpiry d' = dc_completedExpiry d" "dc_closed d' = dc_closed d"
    "dc_replay d' = dc_replay d" "dc_alloc d' = dc_alloc d"
  by (subst assms [unfolded pending_frame_def], simp)+

text \<open>Dropping one block with its queue entry, as \<open>sweepLocked\<close> and \<open>removePendingLocked\<close> do.\<close>

definition drop_block :: "BlockKey \<Rightarrow> pendingBlock \<Rightarrow> expiryHeap \<Rightarrow> Decoder \<Rightarrow> Decoder" where
  "drop_block k b g d =
     pending_gauge (- 1) (- pb_present b) (- pb_bytes b)
       (d\<lparr>dc_pendingExpiry := g, dc_pending := AList.delete k (dc_pending d),
          dc_pendingShards := dc_pendingShards d - pb_present b, dc_pendingBytes := dc_pendingBytes d - pb_bytes b\<rparr>)"

lemma drop_block_fields [simp]:
  "dc_pending (drop_block k b g d) = AList.delete k (dc_pending d)"
  "dc_pendingExpiry (drop_block k b g d) = g"
  "dc_pendingShards (drop_block k b g d) = dc_pendingShards d - pb_present b"
  "dc_pendingBytes (drop_block k b g d) = dc_pendingBytes d - pb_bytes b"
  "dc_statistics (drop_block k b g d) = changePending (- 1) (- pb_present b) (- pb_bytes b) (dc_statistics d)"
  by (simp_all add: drop_block_def pending_gauge_def)

lemma drop_block_frame: "pending_frame d (drop_block k b g d)"
  by (simp add: pending_frame_def drop_block_def pending_gauge_def)

lemma drop_block_ok:
  assumes ok: "pending_ok d" and b: "map_of (dc_pending d) k = Some b"
    and g: "tracked pb_expiry (AList.delete k (dc_pending d)) g (dc_alloc d)"
  shows "pending_ok (drop_block k b g d)"
proof -
  have d: "distinct (keys (dc_pending d))" using ok by (simp add: pending_ok_def tracked_def)
  have "int (length (dc_pending d)) = int (length (AList.delete k (dc_pending d))) + 1"
    using length_delete [OF d b] by simp
  moreover note pending_okD(4) [OF ok]
  ultimately have "gauges_ok (changePending (- 1) (- pb_present b) (- pb_bytes b) (dc_statistics d))
      (int (length (AList.delete k (dc_pending d)))) (dc_pendingShards d - pb_present b) (dc_pendingBytes d - pb_bytes b)"
    using gauges_change [of "dc_statistics d" "int (length (dc_pending d))" "dc_pendingShards d" "dc_pendingBytes d"
        "- 1" "- pb_present b" "- pb_bytes b"] by simp
  then show ?thesis
    using ok g drop_block_frame [of d k b g, THEN pending_frame_fields(13)] tally_delete [OF d b]
    unfolding pending_ok_def drop_block_fields by metis
qed

subsection \<open>Sweeping\<close>

definition due :: "int \<Rightarrow> expiryHeap \<Rightarrow> BlockKey \<Rightarrow> bool" where
  "due now h k \<longleftrightarrow> (\<exists>r t. (r, k, t) \<in> entries h \<and> t \<le> now)"

lemma none_due:
  assumes "queue_ok h" "h = [] \<or> now < ee_deadline (h ! 0)" "(r, k, t) \<in> entries h"
  shows "now < t"
proof -
  have h: "h \<noteq> []" using assms(3) by auto
  obtain e g where p: "expiry_pop h = (e, g)" by force
  have "ee_deadline e = ee_deadline (h ! 0)" "ee_deadline e \<le> t"
    using pop_queue [OF assms(1) h p] assms(3) by (auto simp: entry_tag_def)
  then show ?thesis using assms(2) h by simp
qed

lemma due_pop:
  assumes "tracked ref m h a" "(r, k, t) \<in> entries h" "t \<le> now" "entries g = entries h - {(r, k, t)}"
  shows "filter (\<lambda>(k', b). \<not> due now g k') (AList.delete k m) = filter (\<lambda>(k', b). \<not> due now h k') m"
proof -
  have "due now g k' \<longleftrightarrow> due now h k'" if "k' \<noteq> k" for k'
    using that assms(4) by (auto simp: due_def)
  moreover have "due now h k" using assms(2,3) by (auto simp: due_def)
  ultimately have "k' \<noteq> k \<and> \<not> due now g k' \<longleftrightarrow> \<not> due now h k'" for k' by metis
  then show ?thesis
    unfolding delete_filter filter_filter by (intro filter_cong) (auto simp: split_beta)
qed

lemma sweep_pending_step:
  assumes "tracked pb_expiry (dc_pending d) (dc_pendingExpiry d) (dc_alloc d)"
    and "dc_pendingExpiry d \<noteq> []" "ee_deadline (dc_pendingExpiry d ! 0) \<le> now"
    and "expiry_pop (dc_pendingExpiry d) = (e, g)" and "map_of (dc_pending d) (ee_key e) = Some b" "pb_expiry b = ee_ref e"
  shows "sweep_pending now n d = sweep_pending now (n + 1)
    (bump (\<lambda>s. s\<lparr>st_ExpiredBlocks := st_ExpiredBlocks s + 1\<rparr>) (drop_block (ee_key e) b g d))"
  using assms(2-) by (subst sweep_pending.simps) (simp add: Let_def drop_block_def)

lemma bump_frame: "pending_frame d (bump f d)"
  by (simp add: pending_frame_def bump_def)

lemma bump_pending_ok:
  "(\<And>st. st_PendingBlocks (f st) = st_PendingBlocks st \<and> st_PendingShards (f st) = st_PendingShards st \<and>
      st_PendingBytes (f st) = st_PendingBytes st) \<Longrightarrow> pending_ok d \<Longrightarrow> pending_ok (bump f d)"
  using gauges_bump [of f "dc_statistics d"] pending_okD [of d] unfolding bump_def pending_ok_def [of "d\<lparr>dc_statistics := map_option f (dc_statistics d)\<rparr>"] by simp

lemma sweep_pending_spec:
  assumes "pending_ok d" and "sweep_pending now n d = (n', d')"
  shows "pending_ok d' \<and> pending_frame d d' \<and>
    dc_pending d' = filter (\<lambda>(k, b). \<not> due now (dc_pendingExpiry d) k) (dc_pending d) \<and>
    entries (dc_pendingExpiry d') = {(r, k, t) \<in> entries (dc_pendingExpiry d). now < t} \<and>
    n' = n + int (length (dc_pending d)) - int (length (dc_pending d'))"
  using assms
proof (induction "length (dc_pendingExpiry d)" arbitrary: n d rule: less_induct)
  case less
  let ?h = "dc_pendingExpiry d" and ?m = "dc_pending d"
  have t: "tracked pb_expiry ?m ?h (dc_alloc d)" using less.prems(1) by (simp add: pending_ok_def)
  show ?case
  proof (cases "?h = [] \<or> now < ee_deadline (?h ! 0)")
    case True
    then have r: "n' = n" "d' = d" using less.prems(2) by (subst (asm) sweep_pending.simps, auto)+
    have "now < t'" if "(r, k, t') \<in> entries ?h" for r k t'
      using none_due [OF _ True that] t by (simp add: tracked_def)
    then have "\<not> due now ?h k" "entries ?h = {(r, k, t) \<in> entries ?h. now < t}" for k
      by (force simp: due_def)+
    then show ?thesis using less.prems(1) r by simp
  next
    case False
    then have h: "?h \<noteq> []" "ee_deadline (?h ! 0) \<le> now" by simp_all
    obtain e g where p: "expiry_pop ?h = (e, g)" by force
    obtain b where b: "map_of ?m (ee_key e) = Some b" "pb_expiry b = ee_ref e"
      and g: "tracked pb_expiry (AList.delete (ee_key e) ?m) g (dc_alloc d)"
      and e: "(ee_ref e, ee_key e, ee_deadline e) \<in> entries ?h" "entries g = entries ?h - {(ee_ref e, ee_key e, ee_deadline e)}"
        "ee_deadline e = ee_deadline (?h ! 0)"
      using tracked_pop [OF t h(1) p] by metis
    define d1 where "d1 = bump (\<lambda>s. s\<lparr>st_ExpiredBlocks := st_ExpiredBlocks s + 1\<rparr>) (drop_block (ee_key e) b g d)"
    have d1: "pending_ok d1"
      unfolding d1_def by (rule bump_pending_ok) (simp_all add: drop_block_ok [OF less.prems(1) b(1) g])
    have d1_frame: "pending_frame d d1"
      unfolding d1_def using drop_block_frame bump_frame by (rule pending_frame_trans)
    have d1_fields: "dc_pending d1 = AList.delete (ee_key e) ?m" "dc_pendingExpiry d1 = g"
      by (simp_all add: d1_def bump_def)
    have "length g < length ?h" using h(1) arg_cong [OF p, of "\<lambda>x. length (snd x)"] by (cases ?h) auto
    moreover have "sweep_pending now (n + 1) d1 = (n', d')"
      using sweep_pending_step [OF t h p b, of n] less.prems(2) by (simp add: d1_def)
    ultimately have IH: "pending_ok d' \<and> pending_frame d1 d' \<and>
        dc_pending d' = filter (\<lambda>(k, b). \<not> due now g k) (AList.delete (ee_key e) ?m) \<and>
        entries (dc_pendingExpiry d') = {(r, k, t) \<in> entries g. now < t} \<and>
        n' = n + 1 + int (length (AList.delete (ee_key e) ?m)) - int (length (dc_pending d'))"
      using less.hyps [of d1 "n + 1"] d1 d1_fields by simp
    have due_eq: "filter (\<lambda>(k, b). \<not> due now g k) (AList.delete (ee_key e) ?m) = filter (\<lambda>(k, b). \<not> due now ?h k) ?m"
      by (rule due_pop [OF t e(1) _ e(2)]) (use e(3) h(2) in simp)
    have ent: "{(r, k, t) \<in> entries g. now < t} = {(r, k, t) \<in> entries ?h. now < t}"
      unfolding e(2) using e(3) h(2) by auto
    have "length ?m = Suc (length (AList.delete (ee_key e) ?m))"
      using length_delete [OF pending_okD(5) [OF less.prems(1)] b(1)] .
    then have "n' = n + int (length ?m) - int (length (dc_pending d'))" using IH by linarith
    then show ?thesis using IH pending_frame_trans [OF d1_frame] unfolding due_eq ent by blast
  qed
qed

abbreviation completed_ok :: "Decoder \<Rightarrow> bool" where
  "completed_ok d \<equiv> tracked (\<lambda>r. r) (dc_completed d) (dc_completedExpiry d) (dc_alloc d)"

lemma sweep_completed_spec:
  assumes "completed_ok d" and "sweep_completed now n d = (n', d')"
  shows "\<exists>h. d' = d\<lparr>dc_completed := filter (\<lambda>(k, r). \<not> due now (dc_completedExpiry d) k) (dc_completed d), dc_completedExpiry := h\<rparr> \<and>
    completed_ok d' \<and> entries h = {(r, k, t) \<in> entries (dc_completedExpiry d). now < t} \<and>
    n' = n + int (length (dc_completed d)) - int (length (dc_completed d'))"
  using assms
proof (induction "length (dc_completedExpiry d)" arbitrary: n d rule: less_induct)
  case less
  let ?h = "dc_completedExpiry d" and ?m = "dc_completed d"
  note t = less.prems(1)
  show ?case
  proof (cases "?h = [] \<or> now < ee_deadline (?h ! 0)")
    case True
    then have r: "n' = n" "d' = d" using less.prems(2) by (subst (asm) sweep_completed.simps, auto)+
    have "now < t'" if "(r, k, t') \<in> entries ?h" for r k t'
      using none_due [OF _ True that] t by (simp add: tracked_def)
    then have "\<not> due now ?h k" "entries ?h = {(r, k, t) \<in> entries ?h. now < t}" for k
      by (force simp: due_def)+
    then show ?thesis using t r by (intro exI [of _ ?h]) simp
  next
    case False
    then have h: "?h \<noteq> []" "ee_deadline (?h ! 0) \<le> now" by simp_all
    obtain e g where p: "expiry_pop ?h = (e, g)" by force
    have b: "map_of ?m (ee_key e) = Some (ee_ref e)"
      and g: "tracked (\<lambda>r. r) (AList.delete (ee_key e) ?m) g (dc_alloc d)"
      and e: "(ee_ref e, ee_key e, ee_deadline e) \<in> entries ?h" "entries g = entries ?h - {(ee_ref e, ee_key e, ee_deadline e)}"
        "ee_deadline e = ee_deadline (?h ! 0)"
      using tracked_pop [OF t h(1) p] by metis+
    define d1 where "d1 = d\<lparr>dc_completedExpiry := g, dc_completed := AList.delete (ee_key e) ?m\<rparr>"
    have d1: "completed_ok d1" "dc_completed d1 = AList.delete (ee_key e) ?m" "dc_completedExpiry d1 = g"
      using g by (simp_all add: d1_def)
    have len: "length (dc_completedExpiry d1) < length ?h" unfolding d1(3) using h(1) arg_cong [OF p, of "\<lambda>x. length (snd x)"] by (cases ?h) auto
    have sw: "sweep_completed now (n + 1) d1 = (n', d')"
      using less.prems(2) h p b by (subst (asm) sweep_completed.simps) (simp add: Let_def d1_def)
    from less.hyps [OF len d1(1) sw] obtain h' where
      IH: "d' = d1\<lparr>dc_completed := filter (\<lambda>(k, r). \<not> due now g k) (AList.delete (ee_key e) ?m), dc_completedExpiry := h'\<rparr>"
        "completed_ok d'" "entries h' = {(r, k, t) \<in> entries g. now < t}"
        "n' = n + 1 + int (length (AList.delete (ee_key e) ?m)) - int (length (dc_completed d'))"
      unfolding d1(2,3) by blast
    have due_eq: "filter (\<lambda>(k, b). \<not> due now g k) (AList.delete (ee_key e) ?m) = filter (\<lambda>(k, b). \<not> due now ?h k) ?m"
      by (rule due_pop [OF t e(1) _ e(2)]) (use e(3) h(2) in simp)
    have ent: "{(r, k, t) \<in> entries g. now < t} = {(r, k, t) \<in> entries ?h. now < t}"
      unfolding e(2) using e(3) h(2) by auto
    have "distinct (keys ?m)" using t by (simp add: tracked_def)
    from length_delete [OF this b] have "n' = n + int (length ?m) - int (length (dc_completed d'))" using IH(4) by linarith
    moreover have "d' = d\<lparr>dc_completed := filter (\<lambda>(k, r). \<not> due now ?h k) ?m, dc_completedExpiry := h'\<rparr>"
      using IH(1) unfolding due_eq d1_def by simp
    ultimately show ?thesis using IH(2,3) unfolding ent by blast
  qed
qed

subsection \<open>The invariant\<close>

definition block_ok :: "Decoder \<Rightarrow> pendingBlock \<Rightarrow> bool" where
  "block_ok d b \<longleftrightarrow>
     length (pb_shards b) = nat (dc_total d) \<and>
     0 \<le> pb_originalLength b \<and> pb_originalLength b \<le> EffectiveDatagramLimit (dc_limits d) \<and>
     pb_shardSize b = shardSizeForDatagram (pb_originalLength b) (DataShards (dc_params d)) \<and>
     (\<forall>x. Some x \<in> set (pb_shards b) \<longrightarrow> int (length x) = pb_shardSize b) \<and>
     pb_present b = int (present_count (pb_shards b)) \<and> pb_bytes b = pb_present b * pb_shardSize b"

definition config_ok :: "Decoder \<Rightarrow> bool" where
  "config_ok d \<longleftrightarrow>
     (\<exists>b. DeriveLimits (dc_params d) b = Inr (dc_limits d)) \<and>
     dc_total d = DataShards (dc_params d) + ParityShards (dc_params d) \<and>
     0 < dc_decodeTimeout d \<and> 0 < dc_maxPendingBlocks d"

definition replay_ok :: "Decoder \<Rightarrow> bool" where
  "replay_ok d \<longleftrightarrow>
     (case dc_replay d of
        None \<Rightarrow>
          (\<not> dc_closed d \<longrightarrow>
             0 < dc_maxCompletedBlocks d \<and> int (length (dc_completed d)) \<le> dc_maxCompletedBlocks d) \<and>
          set (keys (dc_pending d)) \<inter> set (keys (dc_completed d)) = {}
      | Some w \<Rightarrow>
          replay_inv w \<and> dc_completed d = [] \<and>
          (\<forall>k \<in> set (keys (dc_pending d)).
             bk_SessionID k = rw_sessionID w \<and> rw_started w \<and> bk_PacketID k \<le> rw_highest w))"

text \<open>\<open>decoder_pre K\<close> is the invariant except that the blocks with keys in \<open>K\<close> may have reached \<open>k\<close>
  shards; \<open>AddVerifiedShard\<close> passes through such a state.\<close>

definition decoder_pre :: "BlockKey set \<Rightarrow> Decoder \<Rightarrow> bool" where
  "decoder_pre K d \<longleftrightarrow>
     config_ok d \<and> pending_ok d \<and> completed_ok d \<and> replay_ok d \<and>
     (\<forall>(k, b) \<in> set (dc_pending d). block_ok d b \<and> (k \<notin> K \<longrightarrow> pb_present b < DataShards (dc_params d))) \<and>
     int (length (dc_pending d)) \<le> dc_maxPendingBlocks d \<and>
     (dc_closed d \<longrightarrow> dc_pending d = [] \<and> dc_completed d = [] \<and> dc_replay d = None)"

abbreviation decoder_inv :: "Decoder \<Rightarrow> bool" where
  "decoder_inv \<equiv> decoder_pre {}"

lemma decoder_preD:
  assumes "decoder_pre K d"
  shows "config_ok d" "pending_ok d" "completed_ok d" "replay_ok d"
    "\<And>k b. map_of (dc_pending d) k = Some b \<Longrightarrow> block_ok d b"
    "\<And>k b. map_of (dc_pending d) k = Some b \<Longrightarrow> k \<notin> K \<Longrightarrow> pb_present b < DataShards (dc_params d)"
    "int (length (dc_pending d)) \<le> dc_maxPendingBlocks d" "distinct (keys (dc_pending d))"
  using assms pending_okD(5) [of d] unfolding decoder_pre_def by (blast dest: map_of_SomeD)+

lemma config_okD:
  assumes "config_ok d"
  shows "0 < DataShards (dc_params d)" "0 < ParityShards (dc_params d)" "0 < ShardCapacity (dc_limits d)"
    "EffectiveDatagramLimit (dc_limits d) \<le> DataShards (dc_params d) * ShardCapacity (dc_limits d)"
    "dc_total d = DataShards (dc_params d) + ParityShards (dc_params d)"
  using assms by (auto simp: config_ok_def DeriveLimits_iff validateParams_iff)

lemma decoder_pre_subset:
  assumes pre: "decoder_pre K d" and frame: "pending_frame d d'" and ok: "pending_ok d'"
    and sub: "set (dc_pending d') \<subseteq> set (dc_pending d)" and len: "length (dc_pending d') \<le> length (dc_pending d)"
    and gone: "\<And>k b. (k, b) \<in> set (dc_pending d') \<Longrightarrow> k \<in> K \<Longrightarrow> k \<in> K'"
  shows "decoder_pre K' d'"
proof -
  note f = pending_frame_fields [OF frame]
  have "set (keys (dc_pending d')) \<subseteq> set (keys (dc_pending d))" using sub by auto
  then have "replay_ok d'"
    using decoder_preD(4) [OF pre] sub unfolding replay_ok_def f by (auto split: option.splits)
  moreover have "config_ok d'" "completed_ok d'"
    using decoder_preD(1,3) [OF pre] unfolding config_ok_def f by simp_all
  moreover have "block_ok d' b \<and> (k \<notin> K' \<longrightarrow> pb_present b < DataShards (dc_params d'))" if "(k, b) \<in> set (dc_pending d')" for k b
    using pre sub gone that unfolding decoder_pre_def block_ok_def f by blast
  moreover have "dc_closed d' \<longrightarrow> dc_pending d' = [] \<and> dc_completed d' = [] \<and> dc_replay d' = None"
    using pre len unfolding decoder_pre_def f by auto
  moreover have "int (length (dc_pending d')) \<le> dc_maxPendingBlocks d'"
    using decoder_preD(7) [OF pre] len f(7) by linarith
  ultimately show ?thesis using ok unfolding decoder_pre_def by blast
qed

lemma bump_pre:
  assumes "decoder_pre K d"
    and "\<And>st. st_PendingBlocks (f st) = st_PendingBlocks st \<and> st_PendingShards (f st) = st_PendingShards st \<and>
      st_PendingBytes (f st) = st_PendingBytes st"
  shows "decoder_pre K (bump f d)"
  by (rule decoder_pre_subset [OF assms(1) bump_frame bump_pending_ok [OF assms(2) decoder_preD(2) [OF assms(1)]]])
     (simp_all add: bump_def)

end
