(* ===== verification/FecDecoderSteps.thy ===== *)
theory FecDecoderSteps
  imports FecDecoderInv
begin

text \<open>
  Every exported operation of the v0.1 decoder keeps the invariant; \<open>decoder_system\<close> lifts it to all
  reachable states.
\<close>

subsection \<open>Sweeping keeps the invariant\<close>

lemma sweepLocked_spec:
  assumes pre: "decoder_pre K d" and sw: "sweepLocked now d = (x, d')"
  shows "decoder_pre K d' \<and>
    dc_pending d' = filter (\<lambda>(k, b). \<not> due now (dc_pendingExpiry d) k) (dc_pending d) \<and>
    dc_completed d' = filter (\<lambda>(k, r). \<not> due now (dc_completedExpiry d) k) (dc_completed d) \<and>
    entries (dc_pendingExpiry d') = {(r, k, t) \<in> entries (dc_pendingExpiry d). now < t} \<and>
    ex_PendingBlocks x = int (length (dc_pending d)) - int (length (dc_pending d')) \<and>
    ex_CompletedBlocks x = int (length (dc_completed d)) - int (length (dc_completed d')) \<and>
    dc_replay d' = dc_replay d \<and> dc_closed d' = dc_closed d \<and> dc_params d' = dc_params d \<and>
    dc_limits d' = dc_limits d \<and> dc_total d' = dc_total d \<and> dc_codec d' = dc_codec d \<and>
    dc_decodeTimeout d' = dc_decodeTimeout d \<and> dc_maxPendingBlocks d' = dc_maxPendingBlocks d"
proof -
  obtain n1 d1 where s1: "sweep_pending now 0 d = (n1, d1)" by force
  obtain n2 where s2: "sweep_completed now 0 d1 = (n2, d')" and x: "x = \<lparr>ex_PendingBlocks = n1, ex_CompletedBlocks = n2\<rparr>"
    using sw s1 by (auto simp: sweepLocked_def split: prod.splits)
  note p = sweep_pending_spec [OF decoder_preD(2) [OF pre] s1]
  then have fr: "pending_frame d d1" by blast
  note f = pending_frame_fields [OF fr]
  have sub: "set (dc_pending d1) \<subseteq> set (dc_pending d)" "length (dc_pending d1) \<le> length (dc_pending d)"
    using p by auto
  have pre1: "decoder_pre K d1"
    by (rule decoder_pre_subset [OF pre fr _ sub]) (use p in auto)
  obtain h where d': "d' = d1\<lparr>dc_completed := filter (\<lambda>(k, r). \<not> due now (dc_completedExpiry d1) k) (dc_completed d1), dc_completedExpiry := h\<rparr>"
    and c: "completed_ok d'" "n2 = 0 + int (length (dc_completed d1)) - int (length (dc_completed d'))"
    using sweep_completed_spec [OF decoder_preD(3) [OF pre1] s2] by blast
  have len: "length (dc_completed d') \<le> length (dc_completed d1)" by (simp add: d')
  have "pending_ok d'" using pending_okD [OF decoder_preD(2) [OF pre1]] unfolding pending_ok_def d' by simp
  moreover have "config_ok d'" using decoder_preD(1) [OF pre1] by (simp add: config_ok_def d')
  moreover have "replay_ok d'"
    using decoder_preD(4) [OF pre1] len order_trans [of "int (length (dc_completed d'))" "int (length (dc_completed d1))"]
    unfolding replay_ok_def by (auto simp: d' split: option.splits)
  moreover have "\<forall>(k, b) \<in> set (dc_pending d'). block_ok d' b \<and> (k \<notin> K \<longrightarrow> pb_present b < DataShards (dc_params d'))"
    using pre1 unfolding decoder_pre_def block_ok_def d' by simp
  ultimately have pre': "decoder_pre K d'"
    using pre1 c(1) unfolding decoder_pre_def by (auto simp: d')
  show ?thesis
    using pre' p c(2) f by (simp add: x d')
qed

subsection \<open>Opening a block\<close>

lemma validateShard_Inr:
  "validateShard input d = Inr s \<longleftrightarrow>
     (\<forall>w. dc_replay d = Some w \<longrightarrow> bk_SessionID (is_Key input) = rw_sessionID w) \<and>
     is_Params input = dc_params d \<and> 0 \<le> is_Index input \<and> is_Index input < dc_total d \<and>
     0 \<le> is_OriginalLength input \<and> is_OriginalLength input \<le> EffectiveDatagramLimit (dc_limits d) \<and>
     s = shardSizeForDatagram (is_OriginalLength input) (DataShards (dc_params d)) \<and>
     s \<le> ShardCapacity (dc_limits d) \<and> int (length (is_Payload input)) = s"
  by (auto simp: validateShard_def Let_def split: option.splits)

lemma replay_ok_admit:
  assumes "replay_ok d" "dc_replay d = Some w" "bk_SessionID key = rw_sessionID w" "\<not> tooOld w (bk_PacketID key)"
    and "keys p = keys (dc_pending d) @ [key]"
  shows "replay_inv (admit w (bk_PacketID key)) \<and>
    (\<forall>k \<in> set (keys p). bk_SessionID k = rw_sessionID (admit w (bk_PacketID key)) \<and>
       rw_started (admit w (bk_PacketID key)) \<and> bk_PacketID k \<le> rw_highest (admit w (bk_PacketID key)))"
proof -
  let ?p = "bk_PacketID key"
  have w: "replay_inv w" and old: "\<forall>k \<in> set (keys (dc_pending d)). bk_SessionID k = rw_sessionID w \<and> rw_started w \<and> bk_PacketID k \<le> rw_highest w"
    using assms(1,2) by (simp_all add: replay_ok_def)
  have "rw_started (admit w ?p) \<and> ?p \<le> rw_highest (admit w ?p) \<and> (rw_started w \<longrightarrow> rw_highest w \<le> rw_highest (admit w ?p))"
  proof (cases "rw_started w")
    case False
    then show ?thesis using admit_first [OF w, of ?p] by simp
  next
    case True
    then show ?thesis
    proof (cases "rw_highest w < ?p")
      case lt: True
      then show ?thesis using admit_advance [OF w True lt] by (simp add: less_imp_le)
    next
      case False
      then show ?thesis using admit_below [of w ?p] True by simp
    qed
  qed
  then have "\<forall>k \<in> set (keys p). bk_SessionID k = rw_sessionID (admit w ?p) \<and>
       rw_started (admit w ?p) \<and> bk_PacketID k \<le> rw_highest (admit w ?p)"
    using old assms(3,5) by fastforce
  then show ?thesis using replay_inv_admit [OF w] by blast
qed

definition fresh_key :: "Decoder \<Rightarrow> BlockKey \<Rightarrow> bool" where
  "fresh_key d key \<longleftrightarrow>
     map_of (dc_pending d) key = None \<and> map_of (dc_completed d) key = None \<and>
     (\<forall>w. dc_replay d = Some w \<longrightarrow> \<not> tooOld w (bk_PacketID key) \<and> \<not> contains w (bk_PacketID key)) \<and>
     int (length (dc_pending d)) < dc_maxPendingBlocks d"

definition new_block :: "IncomingShard \<Rightarrow> int \<Rightarrow> Decoder \<Rightarrow> pendingBlock" where
  "new_block input shardSize d =
     \<lparr>pb_originalLength = is_OriginalLength input, pb_shardSize = shardSize,
      pb_shards = replicate (nat (dc_total d)) None, pb_present = 0, pb_bytes = 0, pb_expiry = dc_alloc d\<rparr>"

definition opened :: "int \<Rightarrow> IncomingShard \<Rightarrow> int \<Rightarrow> Decoder \<Rightarrow> Decoder" where
  "opened now input shardSize d =
     (let key = is_Key input;
          e = \<lparr>ee_ref = dc_alloc d, ee_key = key, ee_deadline = now + dc_decodeTimeout d, ee_index = - 1\<rparr>
      in (pending_gauge 1 0 0
           (d\<lparr>dc_pending := AList.update key (new_block input shardSize d) (dc_pending d),
              dc_pendingExpiry := expiry_push (dc_pendingExpiry d) e, dc_alloc := dc_alloc d + 1\<rparr>))
         \<lparr>dc_replay := map_option (\<lambda>w. admit w (bk_PacketID key)) (dc_replay d)\<rparr>)"

lemma opened_fields:
  "dc_params (opened now i s d) = dc_params d" "dc_limits (opened now i s d) = dc_limits d"
  "dc_codec (opened now i s d) = dc_codec d" "dc_total (opened now i s d) = dc_total d"
  "dc_decodeTimeout (opened now i s d) = dc_decodeTimeout d" "dc_maxPendingBlocks (opened now i s d) = dc_maxPendingBlocks d"
  "dc_maxCompletedBlocks (opened now i s d) = dc_maxCompletedBlocks d"
  "dc_completed (opened now i s d) = dc_completed d" "dc_completedExpiry (opened now i s d) = dc_completedExpiry d"
  "dc_closed (opened now i s d) = dc_closed d" "dc_alloc (opened now i s d) = dc_alloc d + 1"
  "dc_pending (opened now i s d) = AList.update (is_Key i) (new_block i s d) (dc_pending d)"
  "dc_pendingShards (opened now i s d) = dc_pendingShards d" "dc_pendingBytes (opened now i s d) = dc_pendingBytes d"
  "dc_statistics (opened now i s d) = changePending 1 0 0 (dc_statistics d)"
  "dc_replay (opened now i s d) = map_option (\<lambda>w. admit w (bk_PacketID (is_Key i))) (dc_replay d)"
  "dc_pendingExpiry (opened now i s d) =
     expiry_push (dc_pendingExpiry d)
       \<lparr>ee_ref = dc_alloc d, ee_key = is_Key i, ee_deadline = now + dc_decodeTimeout d, ee_index = - 1\<rparr>"
  by (simp_all add: opened_def pending_gauge_def Let_def)

lemma openBlock_fresh: "fresh_key d (is_Key input) \<Longrightarrow> openBlock now input s d = Inr (new_block input s d, opened now input s d)"
  by (auto simp: openBlock_def fresh_key_def Let_def new_block_def opened_def pending_gauge_def split: option.split)

lemma openBlock_cases:
  obtains (known) b where "map_of (dc_pending d) (is_Key input) = Some b" "openBlock now input s d = Inr (b, d)"
      "pb_originalLength b = is_OriginalLength input" "pb_shardSize b = s"
  | (new) "fresh_key d (is_Key input)" "openBlock now input s d = Inr (new_block input s d, opened now input s d)"
  | (early) r d' where "openBlock now input s d = Inl (r, d')" "r \<noteq> Inr \<lparr>rs_Outcome = OutcomePending, rs_Datagram = None\<rparr>"
      "\<And>y. r \<noteq> Inr \<lparr>rs_Outcome = OutcomeComplete, rs_Datagram = y\<rparr>"
      "d' = d \<or> (\<exists>f. d' = bump f d \<and> (\<forall>st. st_PendingBlocks (f st) = st_PendingBlocks st \<and>
         st_PendingShards (f st) = st_PendingShards st \<and> st_PendingBytes (f st) = st_PendingBytes st))"
proof (cases "fresh_key d (is_Key input)")
  case True
  then show ?thesis using new openBlock_fresh by blast
next
  case False
  note nf = this
  show ?thesis
  proof (cases "map_of (dc_pending d) (is_Key input)")
    case (Some b)
    show ?thesis
    proof (cases "pb_originalLength b \<noteq> is_OriginalLength input \<or> pb_shardSize b \<noteq> s")
      case True
      then show ?thesis using early [of "Inl ErrInconsistentBlock" d] Some by (simp add: openBlock_def Let_def)
    next
      case False
      then show ?thesis using known [OF Some] Some by (simp add: openBlock_def Let_def)
    qed
  next
    case None
    let ?p = "bk_PacketID (is_Key input)"
    let ?old = "case dc_replay d of None \<Rightarrow> False | Some w \<Rightarrow> tooOld w ?p"
    let ?dup = "map_of (dc_completed d) (is_Key input) \<noteq> None \<or> (case dc_replay d of None \<Rightarrow> False | Some w \<Rightarrow> contains w ?p)"
    have "?old \<or> ?dup \<or> int (length (dc_pending d)) \<ge> dc_maxPendingBlocks d"
      using nf None by (cases "dc_replay d") (auto simp: fresh_key_def)
    then consider (old) ?old | (dup) "\<not> ?old" ?dup | (full) "\<not> ?old" "\<not> ?dup" "int (length (dc_pending d)) \<ge> dc_maxPendingBlocks d"
      by argo
    then show ?thesis
    proof cases
      case old
      then have "openBlock now input s d = Inl (Inr \<lparr>rs_Outcome = OutcomeTooOld, rs_Datagram = None\<rparr>,
          bump (\<lambda>s. s\<lparr>st_TooOldShards := st_TooOldShards s + 1\<rparr>) d)"
        using None by (simp add: openBlock_def Let_def)
      then show ?thesis by (rule early) auto
    next
      case dup
      then have "openBlock now input s d = Inl (Inr \<lparr>rs_Outcome = OutcomeDuplicate, rs_Datagram = None\<rparr>,
          bump (\<lambda>s. s\<lparr>st_LateShards := st_LateShards s + 1\<rparr>) d)"
        using None by (simp add: openBlock_def Let_def)
      then show ?thesis by (rule early) auto
    next
      case full
      then have "openBlock now input s d = Inl (Inl ErrDecoderFull, bump (\<lambda>s. s\<lparr>st_DecoderFull := st_DecoderFull s + 1\<rparr>) d)"
        using None by (simp add: openBlock_def Let_def)
      then show ?thesis by (rule early) auto
    qed
  qed
qed

lemma decoder_preI:
  assumes "config_ok d" "pending_ok d" "completed_ok d" "replay_ok d" "\<not> dc_closed d"
    and "\<And>k b. (k, b) \<in> set (dc_pending d) \<Longrightarrow> block_ok d b \<and> (k \<notin> K \<longrightarrow> pb_present b < DataShards (dc_params d))"
    and "int (length (dc_pending d)) \<le> dc_maxPendingBlocks d"
  shows "decoder_pre K d"
  using assms unfolding decoder_pre_def by blast

lemma opened_tracked:
  assumes "pending_ok d" "map_of (dc_pending d) (is_Key input) = None"
  shows "tracked pb_expiry (dc_pending (opened now input s d)) (dc_pendingExpiry (opened now input s d)) (dc_alloc d + 1) \<and>
    entries (dc_pendingExpiry (opened now input s d)) =
      insert (dc_alloc d, is_Key input, now + dc_decodeTimeout d) (entries (dc_pendingExpiry d))"
  using tracked_add [OF pending_okD(1) [OF assms(1)] assms(2), of "new_block input s d"
      "\<lparr>ee_ref = dc_alloc d, ee_key = is_Key input, ee_deadline = now + dc_decodeTimeout d, ee_index = - 1\<rparr>"]
  by (simp add: opened_fields new_block_def)

lemma opened_pending_ok:
  assumes ok: "pending_ok d" and n: "map_of (dc_pending d) (is_Key input) = None"
  shows "pending_ok (opened now input s d)"
proof -
  note p = pending_okD [OF ok]
  have "gauges_ok (changePending 1 0 0 (dc_statistics d)) (int (length (dc_pending d)) + 1) (dc_pendingShards d) (dc_pendingBytes d)"
    using gauges_change [OF p(4), of 1 0 0] by simp
  moreover have "int (length (dc_pending (opened now input s d))) = int (length (dc_pending d)) + 1"
    by (simp add: opened_fields length_update_new [OF n])
  moreover have "tally pb_present (dc_pending (opened now input s d)) = dc_pendingShards d"
    "tally pb_bytes (dc_pending (opened now input s d)) = dc_pendingBytes d"
    by (simp_all add: opened_fields tally_update_new [OF n] new_block_def p(2,3))
  ultimately show ?thesis
    using opened_tracked [OF ok n, of now s] unfolding pending_ok_def opened_fields(11,13-15) by simp
qed

lemma opened_pre:
  assumes inv: "decoder_inv d" and fresh: "fresh_key d (is_Key input)" and live: "\<not> dc_closed d"
    and v: "validateShard input d = Inr s"
  shows "decoder_inv (opened now input s d)"
proof (rule decoder_preI)
  let ?d = "opened now input s d"
  have n: "map_of (dc_pending d) (is_Key input) = None" and cap: "int (length (dc_pending d)) < dc_maxPendingBlocks d"
    using fresh by (simp_all add: fresh_key_def)
  note k = config_okD [OF decoder_preD(1) [OF inv]]
  show "config_ok ?d" using decoder_preD(1) [OF inv] by (simp add: config_ok_def opened_fields)
  show "pending_ok ?d" by (rule opened_pending_ok [OF decoder_preD(2) [OF inv] n])
  show "completed_ok ?d" unfolding opened_fields by (rule tracked_alloc [OF decoder_preD(3) [OF inv]]) simp
  show "replay_ok ?d"
  proof (cases "dc_replay d")
    case None
    have "is_Key input \<notin> set (keys (dc_completed d))" using fresh by (simp add: fresh_key_def map_of_None_keys)
    then show ?thesis using decoder_preD(4) [OF inv] None unfolding replay_ok_def opened_fields keys_update by simp
  next
    case (Some w)
    have "bk_SessionID (is_Key input) = rw_sessionID w" "\<not> tooOld w (bk_PacketID (is_Key input))"
      using v fresh Some by (simp_all add: validateShard_Inr fresh_key_def)
    moreover have "keys (dc_pending ?d) = keys (dc_pending d) @ [is_Key input]"
      by (simp add: opened_fields update_new [OF n])
    ultimately have "replay_inv (admit w (bk_PacketID (is_Key input))) \<and>
        (\<forall>k \<in> set (keys (dc_pending ?d)). bk_SessionID k = rw_sessionID (admit w (bk_PacketID (is_Key input))) \<and>
           rw_started (admit w (bk_PacketID (is_Key input))) \<and> bk_PacketID k \<le> rw_highest (admit w (bk_PacketID (is_Key input))))"
      by (rule replay_ok_admit [OF decoder_preD(4) [OF inv] Some])
    moreover have "dc_completed d = []" using decoder_preD(4) [OF inv] Some by (simp add: replay_ok_def)
    ultimately show ?thesis using Some unfolding replay_ok_def by (simp add: opened_fields)
  qed
  show "\<not> dc_closed ?d" using live by (simp add: opened_fields)
  show "block_ok ?d b \<and> (k \<notin> {} \<longrightarrow> pb_present b < DataShards (dc_params ?d))" if "(k, b) \<in> set (dc_pending ?d)" for k b
  proof (cases "(k, b) \<in> set (dc_pending d)")
    case True
    then show ?thesis using inv unfolding decoder_pre_def block_ok_def opened_fields by blast
  next
    case False
    then have "b = new_block input s d" using that by (simp add: opened_fields update_new [OF n])
    then show ?thesis
      using v k(1) by (simp add: block_ok_def new_block_def opened_fields validateShard_Inr present_count_def)
  qed
  show "int (length (dc_pending ?d)) \<le> dc_maxPendingBlocks ?d"
    using cap by (simp add: opened_fields length_update_new [OF n])
qed

subsection \<open>Storing a shard\<close>

definition stored_block :: "IncomingShard \<Rightarrow> pendingBlock \<Rightarrow> pendingBlock" where
  "stored_block input b =
     b\<lparr>pb_shards := (pb_shards b)[nat (is_Index input) := Some (is_Payload input)],
       pb_present := pb_present b + 1, pb_bytes := pb_bytes b + int (length (is_Payload input))\<rparr>"

definition stored :: "IncomingShard \<Rightarrow> pendingBlock \<Rightarrow> Decoder \<Rightarrow> Decoder" where
  "stored input b d =
     pending_gauge 0 1 (int (length (is_Payload input)))
       (d\<lparr>dc_pending := AList.update (is_Key input) (stored_block input b) (dc_pending d),
          dc_pendingShards := dc_pendingShards d + 1,
          dc_pendingBytes := dc_pendingBytes d + int (length (is_Payload input))\<rparr>)"

lemma stored_frame: "pending_frame d (stored input b d)"
  by (simp add: pending_frame_def stored_def pending_gauge_def)

lemma stored_fields:
  "dc_pending (stored input b d) = AList.update (is_Key input) (stored_block input b) (dc_pending d)"
  "dc_pendingShards (stored input b d) = dc_pendingShards d + 1"
  "dc_pendingBytes (stored input b d) = dc_pendingBytes d + int (length (is_Payload input))"
  "dc_pendingExpiry (stored input b d) = dc_pendingExpiry d"
  "dc_statistics (stored input b d) = changePending 0 1 (int (length (is_Payload input))) (dc_statistics d)"
  by (simp_all add: stored_def pending_gauge_def)

lemma present_count_update:
  "i < length ws \<Longrightarrow> ws ! i = None \<Longrightarrow> present_count (ws[i := Some x]) = Suc (present_count ws)"
proof (induction ws arbitrary: i)
  case (Cons w ws)
  then show ?case by (cases i) (auto simp: present_count_def)
qed simp

lemma stored_pending_ok:
  assumes ok: "pending_ok d" and b: "map_of (dc_pending d) (is_Key input) = Some b"
  shows "pending_ok (stored input b d)"
proof -
  note p = pending_okD [OF ok]
  have "tracked pb_expiry (dc_pending (stored input b d)) (dc_pendingExpiry d) (dc_alloc d)"
    unfolding stored_fields by (rule tracked_update [OF p(1) b]) (simp add: stored_block_def)
  moreover have "tally pb_present (dc_pending (stored input b d)) = dc_pendingShards d + 1"
    "tally pb_bytes (dc_pending (stored input b d)) = dc_pendingBytes d + int (length (is_Payload input))"
    by (simp_all add: stored_fields tally_update_old [OF p(5) b] stored_block_def p(2,3))
  moreover have "length (dc_pending (stored input b d)) = length (dc_pending d)"
    by (simp add: stored_fields length_update_old [OF p(5) b])
  ultimately show ?thesis
    using gauges_change [OF p(4), of 0 1 "int (length (is_Payload input))"] pending_frame_fields(13) [OF stored_frame, of input b d]
    unfolding pending_ok_def stored_fields(2-5) by simp
qed

lemma stored_block_ok:
  assumes b: "block_ok d b" and v: "validateShard input d = Inr s" and s: "pb_shardSize b = s"
    and hole: "pb_shards b ! nat (is_Index input) = None"
  shows "block_ok d (stored_block input b)"
proof -
  have i: "nat (is_Index input) < length (pb_shards b)"
    using b v by (auto simp: block_ok_def validateShard_Inr nat_less_iff)
  have "int (length x) = s" if "Some x \<in> set ((pb_shards b)[nat (is_Index input) := Some (is_Payload input)])" for x
  proof -
    have "Some x \<in> insert (Some (is_Payload input)) (set (pb_shards b))"
      using set_update_subset_insert that by (metis subsetD)
    then show ?thesis using b v s by (auto simp: block_ok_def validateShard_Inr)
  qed
  then show ?thesis
    using b v s present_count_update [OF i hole]
    by (simp add: block_ok_def stored_block_def validateShard_Inr algebra_simps)
qed

lemma stored_pre:
  assumes inv: "decoder_inv d" and live: "\<not> dc_closed d" and b: "map_of (dc_pending d) (is_Key input) = Some b"
    and v: "validateShard input d = Inr s" and s: "pb_shardSize b = s"
    and hole: "pb_shards b ! nat (is_Index input) = None"
  shows "decoder_pre {is_Key input} (stored input b d)"
proof (rule decoder_preI)
  let ?d = "stored input b d"
  note f = pending_frame_fields [OF stored_frame, of input b d]
  have d: "distinct (keys (dc_pending d))" by (rule decoder_preD(8) [OF inv])
  show "config_ok ?d" using decoder_preD(1) [OF inv] by (simp add: config_ok_def f)
  show "pending_ok ?d" by (rule stored_pending_ok [OF decoder_preD(2) [OF inv] b])
  show "completed_ok ?d" using decoder_preD(3) [OF inv] by (simp add: f)
  have "set (keys (dc_pending ?d)) = set (keys (dc_pending d))"
    using map_of_SomeD [OF b] unfolding stored_fields keys_update by (force simp: image_iff)
  then show "replay_ok ?d" using decoder_preD(4) [OF inv] by (simp add: replay_ok_def f split: option.splits)
  show "\<not> dc_closed ?d" using live by (simp add: f)
  show "block_ok ?d b' \<and> (k \<notin> {is_Key input} \<longrightarrow> pb_present b' < DataShards (dc_params ?d))" if "(k, b') \<in> set (dc_pending ?d)" for k b'
  proof -
    have "(k, b') = (is_Key input, stored_block input b) \<or> (k, b') \<in> set (dc_pending d)"
      using that set_update_old [OF d b, of "stored_block input b"] by (auto simp: stored_fields)
    moreover have "block_ok d (stored_block input b)"
      by (rule stored_block_ok [OF decoder_preD(5) [OF inv b] v s hole])
    ultimately show ?thesis using inv unfolding decoder_pre_def block_ok_def f by auto
  qed
  show "int (length (dc_pending ?d)) \<le> dc_maxPendingBlocks ?d"
    using decoder_preD(7) [OF inv] by (simp add: f stored_fields length_update_old [OF d b])
qed

subsection \<open>Removal and completion\<close>

lemma removePendingLocked_drop:
  assumes ok: "pending_ok d" and b: "map_of (dc_pending d) key = Some b"
  obtains g t where "removePendingLocked key b d = drop_block key b g d"
    "tracked pb_expiry (AList.delete key (dc_pending d)) g (dc_alloc d)"
    "(pb_expiry b, key, t) \<in> entries (dc_pendingExpiry d)"
    "entries g = entries (dc_pendingExpiry d) - {(pb_expiry b, key, t)}"
proof -
  let ?h = "dc_pendingExpiry d" and ?i = "entry_index (dc_pendingExpiry d) (pb_expiry b)"
  note tr = pending_okD(1) [OF ok]
  obtain t where t: "(pb_expiry b, key, t) \<in> entries ?h" using tracked_entry [OF tr b] by blast
  have q: "queue_ok ?h" using tr by (simp add: tracked_def)
  obtain e g where g: "expiry_remove ?h (nat ?i) = (e, g)" by force
  note r = remove_queue [OF q t g]
  have "0 \<le> ?i" using entry_index_queue [OF q t] by simp
  then have "removePendingLocked key b d = drop_block key b g d"
    using g by (cases d) (simp add: removePendingLocked_def drop_block_def pending_gauge_def Let_def)
  then show ?thesis using that [OF _ tracked_remove [OF tr t] t] r by blast
qed

lemma remove_pre:
  assumes pre: "decoder_pre {key} d" and b: "map_of (dc_pending d) key = Some b"
  shows "decoder_inv (removePendingLocked key b d) \<and> pending_frame d (removePendingLocked key b d) \<and>
    dc_pending (removePendingLocked key b d) = AList.delete key (dc_pending d)"
proof -
  obtain g where g: "removePendingLocked key b d = drop_block key b g d"
    "tracked pb_expiry (AList.delete key (dc_pending d)) g (dc_alloc d)"
    using removePendingLocked_drop [OF decoder_preD(2) [OF pre] b] by blast
  have "decoder_inv (drop_block key b g d)"
    by (rule decoder_pre_subset [OF pre drop_block_frame drop_block_ok [OF decoder_preD(2) [OF pre] b g(2)]])
       (auto simp: set_delete delete_filter)
  then show ?thesis using drop_block_frame by (simp add: g(1))
qed

lemma remember_replay:
  assumes inv: "decoder_inv d" and w: "dc_replay d = Some w" "rw_started w" "bk_PacketID key \<le> rw_highest w"
  shows "decoder_inv (rememberCompletedLocked key now d)"
proof -
  let ?d = "rememberCompletedLocked key now d" and ?w = "complete w (bk_PacketID key)"
  have d: "?d = d\<lparr>dc_replay := Some ?w\<rparr>" by (simp add: rememberCompletedLocked_def w(1))
  have ri: "replay_inv w" using decoder_preD(4) [OF inv] w(1) by (simp add: replay_ok_def)
  have live: "\<not> dc_closed d" using inv w(1) by (auto simp: decoder_pre_def)
  show ?thesis unfolding d
  proof (rule decoder_preI)
    show "pending_ok (d\<lparr>dc_replay := Some ?w\<rparr>)"
      using pending_okD [OF decoder_preD(2) [OF inv]] unfolding pending_ok_def by simp
    show "config_ok (d\<lparr>dc_replay := Some ?w\<rparr>)" using decoder_preD(1) [OF inv] by (simp add: config_ok_def)
    show "replay_ok (d\<lparr>dc_replay := Some ?w\<rparr>)"
      using decoder_preD(4) [OF inv] complete_spec [OF ri w(2,3)] w(1) by (simp add: replay_ok_def)
    show "block_ok (d\<lparr>dc_replay := Some ?w\<rparr>) b \<and> (k \<notin> {} \<longrightarrow> pb_present b < DataShards (dc_params (d\<lparr>dc_replay := Some ?w\<rparr>)))"
      if "(k, b) \<in> set (dc_pending (d\<lparr>dc_replay := Some ?w\<rparr>))" for k b
      using inv that unfolding decoder_pre_def block_ok_def by auto
  qed (use decoder_preD(3,7) [OF inv] live in simp_all)
qed

lemma decoder_inv_completed:
  assumes inv: "decoder_inv d" and live: "\<not> dc_closed d" and leg: "dc_replay d = None"
    and c: "tracked (\<lambda>r. r) c h a" "dc_alloc d \<le> a" "int (length c) \<le> dc_maxCompletedBlocks d"
    and disj: "set (keys (dc_pending d)) \<inter> set (keys c) = {}"
  shows "decoder_inv (d\<lparr>dc_completed := c, dc_completedExpiry := h, dc_alloc := a\<rparr>)"
proof (rule decoder_preI)
  let ?d = "d\<lparr>dc_completed := c, dc_completedExpiry := h, dc_alloc := a\<rparr>"
  note p = pending_okD [OF decoder_preD(2) [OF inv]]
  show "pending_ok ?d" using p tracked_alloc [OF p(1) c(2)] unfolding pending_ok_def by simp
  show "config_ok ?d" using decoder_preD(1) [OF inv] by (simp add: config_ok_def)
  show "replay_ok ?d" using decoder_preD(4) [OF inv] leg live c disj by (simp add: replay_ok_def)
  show "block_ok ?d b \<and> (k \<notin> {} \<longrightarrow> pb_present b < DataShards (dc_params ?d))" if "(k, b) \<in> set (dc_pending ?d)" for k b
    using inv that unfolding decoder_pre_def block_ok_def by auto
qed (use decoder_preD(7) [OF inv] live c in simp_all)

lemma remember_legacy:
  assumes inv: "decoder_inv d" and live: "\<not> dc_closed d" and leg: "dc_replay d = None"
    and key: "key \<notin> set (keys (dc_pending d))" "key \<notin> set (keys (dc_completed d))"
  shows "decoder_inv (rememberCompletedLocked key now d)"
proof -
  let ?e = "\<lparr>ee_ref = dc_alloc d, ee_key = key, ee_deadline = now + dc_completionTTL d, ee_index = - 1\<rparr>"
  note co = decoder_preD(3) [OF inv]
  have max: "0 < dc_maxCompletedBlocks d" "int (length (dc_completed d)) \<le> dc_maxCompletedBlocks d"
    and disj: "set (keys (dc_pending d)) \<inter> set (keys (dc_completed d)) = {}"
    using decoder_preD(4) [OF inv] leg live by (simp_all add: replay_ok_def)
  show ?thesis
  proof (cases "int (length (dc_completed d)) \<ge> dc_maxCompletedBlocks d")
    case False
    have n: "map_of (dc_completed d) key = None" using key by (simp add: map_of_None_keys)
    let ?d = "d\<lparr>dc_completed := AList.update key (dc_alloc d) (dc_completed d),
        dc_completedExpiry := expiry_push (dc_completedExpiry d) ?e, dc_alloc := dc_alloc d + 1\<rparr>"
    have eq: "rememberCompletedLocked key now d = ?d" using leg False by (simp add: rememberCompletedLocked_def Let_def)
    show ?thesis unfolding eq
    proof (rule decoder_inv_completed [OF inv live leg])
      show "tracked (\<lambda>r. r) (AList.update key (dc_alloc d) (dc_completed d)) (expiry_push (dc_completedExpiry d) ?e) (dc_alloc d + 1)"
        using tracked_add [OF co n, of "dc_alloc d" ?e] by simp
      show "set (keys (dc_pending d)) \<inter> set (keys (AList.update key (dc_alloc d) (dc_completed d))) = {}"
        using key disj unfolding keys_update by simp
    qed (use False in \<open>simp_all add: length_update_new [OF n]\<close>)
  next
    case True
    let ?h = "dc_completedExpiry d"
    have ne: "dc_completed d \<noteq> []" using True max by auto
    have "?h \<noteq> []"
    proof
      assume "?h = []"
      then have "(\<lambda>(k, r). (r, k)) ` set (dc_completed d) = {}" using co by (simp add: tracked_def)
      then show False using ne by simp
    qed
    obtain oldest g where p: "expiry_pop ?h = (oldest, g)" by force
    let ?c = "AList.delete (ee_key oldest) (dc_completed d)"
    have o: "map_of (dc_completed d) (ee_key oldest) = Some (ee_ref oldest)"
      and g: "tracked (\<lambda>r. r) ?c g (dc_alloc d)"
      using tracked_pop [OF co \<open>?h \<noteq> []\<close> p] by metis+
    have n: "map_of ?c key = None" using key unfolding map_of_None_keys keys_delete by simp
    have len: "length (dc_completed d) = Suc (length ?c)"
      using length_delete [OF _ o] co by (simp add: tracked_def)
    let ?b = "bump (\<lambda>s. s\<lparr>st_CompletedCapacityEvictions := st_CompletedCapacityEvictions s + 1\<rparr>) d"
    let ?d = "?b\<lparr>dc_completed := AList.update key (dc_alloc d) ?c,
        dc_completedExpiry := expiry_push g ?e, dc_alloc := dc_alloc d + 1\<rparr>"
    have eq: "rememberCompletedLocked key now d = ?d"
      using leg True p by (cases d) (simp add: rememberCompletedLocked_def Let_def bump_def)
    have binv: "decoder_inv ?b" by (rule bump_pre [OF inv]) simp
    show ?thesis unfolding eq
    proof (rule decoder_inv_completed [OF binv])
      show "tracked (\<lambda>r. r) (AList.update key (dc_alloc d) ?c) (expiry_push g ?e) (dc_alloc d + 1)"
        using tracked_add [OF g n, of "dc_alloc d" ?e] by simp
      show "set (keys (dc_pending ?b)) \<inter> set (keys (AList.update key (dc_alloc d) ?c)) = {}"
        using key disj unfolding keys_update keys_delete by (auto simp: bump_def)
    qed (use live leg max len in \<open>simp_all add: length_update_new [OF n] bump_def\<close>)
  qed
qed

lemma remember_pre:
  assumes pre: "decoder_pre {key} d" and b: "map_of (dc_pending d) key = Some b" and live: "\<not> dc_closed d"
  shows "decoder_inv (rememberCompletedLocked key now (removePendingLocked key b d))"
proof -
  let ?r = "removePendingLocked key b d"
  have r: "decoder_inv ?r" "pending_frame d ?r" "dc_pending ?r = AList.delete key (dc_pending d)"
    using remove_pre [OF pre b] by simp_all
  note f = pending_frame_fields [OF r(2)]
  have mem: "key \<in> set (keys (dc_pending d))" using map_of_SomeD [OF b] by force
  show ?thesis
  proof (cases "dc_replay d")
    case None
    then have "key \<notin> set (keys (dc_completed d))"
      using decoder_preD(4) [OF pre] mem by (auto simp: replay_ok_def)
    moreover have "key \<notin> set (keys (dc_pending ?r))" unfolding r(3) keys_delete by simp
    ultimately show ?thesis using remember_legacy [OF r(1)] live None f by simp
  next
    case (Some w)
    then have "rw_started w" "bk_PacketID key \<le> rw_highest w"
      using decoder_preD(4) [OF pre] mem by (auto simp: replay_ok_def)
    then show ?thesis using remember_replay [OF r(1)] Some f(12) by simp
  qed
qed

lemma finishBlock_cases:
  obtains (complete) y f where "finishBlock now input b d =
      (Inr \<lparr>rs_Outcome = OutcomeComplete, rs_Datagram = Some y\<rparr>,
       bump f (rememberCompletedLocked (is_Key input) now (removePendingLocked (is_Key input) b d)))"
      "\<And>st. st_PendingBlocks (f st) = st_PendingBlocks st \<and> st_PendingShards (f st) = st_PendingShards st \<and>
        st_PendingBytes (f st) = st_PendingBytes st"
  | (failed) "finishBlock now input b d = (Inl ErrDecode, removePendingLocked (is_Key input) b d)"
proof (cases "rs_ReconstructData (dc_codec d) (pb_shards b)")
  case None
  then show ?thesis by (intro failed) (simp add: finishBlock_def Let_def)
next
  case (Some w)
  let ?y = "gather (nat (is_OriginalLength input)) [] (take (nat (DataShards (dc_params d))) w)"
  show ?thesis
  proof (cases "length ?y = nat (is_OriginalLength input)")
    case True
    let ?n = "length (filter (\<lambda>s. s = None) (take (nat (DataShards (dc_params d))) (pb_shards b)))"
    let ?f = "\<lambda>s. let s = s\<lparr>st_CompletedBlocks := st_CompletedBlocks s + 1\<rparr>
        in if ?n \<noteq> 0 then s\<lparr>st_RecoveredBlocks := st_RecoveredBlocks s + 1, st_RecoveredShards := st_RecoveredShards s + of_nat ?n\<rparr>
           else s"
    have "finishBlock now input b d = (Inr \<lparr>rs_Outcome = OutcomeComplete, rs_Datagram = Some ?y\<rparr>,
       bump ?f (rememberCompletedLocked (is_Key input) now (removePendingLocked (is_Key input) b d)))"
      using Some True by (simp add: finishBlock_def Let_def)
    then show ?thesis by (rule complete) (simp add: Let_def)
  next
    case False
    then show ?thesis using Some by (intro failed) (simp add: finishBlock_def Let_def)
  qed
qed

text \<open>\<open>AddVerifiedShard\<close> after validation, sweep and \<open>openBlock\<close>.\<close>

definition placeShard :: "int \<Rightarrow> IncomingShard \<Rightarrow> pendingBlock \<Rightarrow> Decoder \<Rightarrow> (FecError, Result) result \<times> Decoder" where
  "placeShard now input b d =
     (case pb_shards b ! nat (is_Index input) of
        Some existing \<Rightarrow>
          if existing = is_Payload input
          then (Inr \<lparr>rs_Outcome = OutcomeDuplicate, rs_Datagram = None\<rparr>,
                bump (\<lambda>s. s\<lparr>st_DuplicateShards := st_DuplicateShards s + 1\<rparr>) d)
          else (Inl ErrConflictingShard, d)
      | None \<Rightarrow>
          if pb_present b + 1 < DataShards (dc_params d)
          then (Inr \<lparr>rs_Outcome = OutcomePending, rs_Datagram = None\<rparr>, stored input b d)
          else finishBlock now input (stored_block input b) (stored input b d))"

lemma AddVerifiedShard_eq:
  "AddVerifiedShard now input d =
     (if dc_closed d then (Inl ErrClosed, d)
      else case validateShard input d of
          Inl err \<Rightarrow> (Inl err, d)
        | Inr s \<Rightarrow>
            (case openBlock now input s (snd (sweepLocked now d)) of
               Inl ret \<Rightarrow> ret
             | Inr (b, d) \<Rightarrow> placeShard now input b d))"
  unfolding AddVerifiedShard_def placeShard_def Let_def stored_def [symmetric] stored_block_def [symmetric]
  by (auto simp: stored_def pending_gauge_def stored_block_def split: sum.split prod.split option.split)

lemma placeShard_inv:
  assumes inv: "decoder_inv d" and live: "\<not> dc_closed d" and b: "map_of (dc_pending d) (is_Key input) = Some b"
    and v: "validateShard input d = Inr s" and s: "pb_shardSize b = s"
  shows "decoder_inv (snd (placeShard now input b d))"
proof (cases "pb_shards b ! nat (is_Index input)")
  case (Some x)
  then show ?thesis using inv bump_pre [OF inv] by (simp add: placeShard_def)
next
  case None
  let ?d = "stored input b d" and ?b = "stored_block input b"
  have pre: "decoder_pre {is_Key input} ?d" by (rule stored_pre [OF inv live b v s None])
  have f: "dc_params ?d = dc_params d" "dc_closed ?d = dc_closed d"
    using pending_frame_fields [OF stored_frame] by simp_all
  have b': "map_of (dc_pending ?d) (is_Key input) = Some ?b" by (simp add: stored_fields map_of_update)
  show ?thesis
  proof (cases "pb_present b + 1 < DataShards (dc_params d)")
    case True
    have "\<forall>k b. (k, b) \<in> set (dc_pending ?d) \<longrightarrow> k = is_Key input \<longrightarrow> b = ?b"
      using b' map_of_mem [OF decoder_preD(8) [OF pre]] by (metis option.inject)
    then have "decoder_inv ?d"
      using pre True unfolding decoder_pre_def f by (auto simp: stored_block_def)
    then show ?thesis using None True by (simp add: placeShard_def)
  next
    case False
    then have eq: "placeShard now input b d = finishBlock now input ?b ?d" using None by (simp add: placeShard_def)
    show ?thesis unfolding eq
    proof (cases rule: finishBlock_cases [of now input ?b ?d])
      case (complete y g)
      have "decoder_inv (rememberCompletedLocked (is_Key input) now (removePendingLocked (is_Key input) ?b ?d))"
        by (rule remember_pre [OF pre b']) (use live f in simp)
      from bump_pre [OF this complete(2)] show "decoder_inv (snd (finishBlock now input ?b ?d))" by (simp add: complete(1))
    next
      case failed
      then show "decoder_inv (snd (finishBlock now input ?b ?d))" using remove_pre [OF pre b'] by simp
    qed
  qed
qed

subsection \<open>The operations\<close>

lemma validateShard_cong:
  "dc_params d' = dc_params d \<Longrightarrow> dc_limits d' = dc_limits d \<Longrightarrow> dc_total d' = dc_total d \<Longrightarrow>
     map_option rw_sessionID (dc_replay d') = map_option rw_sessionID (dc_replay d) \<Longrightarrow>
     validateShard input d' = validateShard input d"
  unfolding validateShard_def by (auto split: option.splits)

text \<open>The four ways through \<open>AddVerifiedShard\<close>: refused at the door, answered without touching a
  block, or a shard placed in a block that is already pending or just opened.\<close>

lemma AddVerifiedShard_cases:
  assumes inv: "decoder_inv d"
  obtains (refused) err where "AddVerifiedShard now input d = (Inl err, d)"
      "dc_closed d \<and> err = ErrClosed \<or> \<not> dc_closed d \<and> validateShard input d = Inl err"
  | (answered) s r d' where "\<not> dc_closed d" "validateShard input d = Inr s"
      "openBlock now input s (snd (sweepLocked now d)) = Inl (r, d')" "AddVerifiedShard now input d = (r, d')" "decoder_inv d'"
      "r \<noteq> Inr \<lparr>rs_Outcome = OutcomePending, rs_Datagram = None\<rparr>"
      "\<And>y. r \<noteq> Inr \<lparr>rs_Outcome = OutcomeComplete, rs_Datagram = y\<rparr>"
      "\<exists>c. d' = snd (sweepLocked now d)\<lparr>dc_statistics := c\<rparr>"
  | (placed) s b d2 where "\<not> dc_closed d" "validateShard input d = Inr s" "AddVerifiedShard now input d = placeShard now input b d2"
      "decoder_inv d2" "\<not> dc_closed d2" "map_of (dc_pending d2) (is_Key input) = Some b" "validateShard input d2 = Inr s"
      "pb_shardSize b = s" "pb_originalLength b = is_OriginalLength input"
      "d2 = snd (sweepLocked now d) \<or>
       fresh_key (snd (sweepLocked now d)) (is_Key input) \<and> d2 = opened now input s (snd (sweepLocked now d)) \<and>
       b = new_block input s (snd (sweepLocked now d))"
proof (cases "dc_closed d")
  case True
  then show ?thesis by (intro refused) (auto simp: AddVerifiedShard_eq)
next
  case live: False
  show ?thesis
  proof (cases "validateShard input d")
    case (Inl err)
    then show ?thesis using live by (intro refused) (auto simp: AddVerifiedShard_eq)
  next
    case (Inr s)
    obtain x d1 where sw: "sweepLocked now d = (x, d1)" by force
    note sp = sweepLocked_spec [OF inv sw]
    have d1: "decoder_inv d1" "\<not> dc_closed d1" using sp live by simp_all
    have v1: "validateShard input d1 = Inr s" using sp Inr validateShard_cong [of d1 d input] by simp
    show ?thesis
    proof (cases rule: openBlock_cases [of d1 input now s])
      case (known b)
      have "AddVerifiedShard now input d = placeShard now input b d1"
        using live Inr known(2) by (simp add: AddVerifiedShard_eq sw)
      then show ?thesis by (rule placed [OF live Inr _ d1 known(1) v1 known(4,3)]) (simp add: sw)
    next
      case new
      let ?d2 = "opened now input s d1"
      have "decoder_inv ?d2" by (rule opened_pre [OF d1(1) new(1) d1(2) v1])
      moreover have "\<not> dc_closed ?d2" "map_of (dc_pending ?d2) (is_Key input) = Some (new_block input s d1)"
        using d1(2) by (simp_all add: opened_fields map_of_update)
      moreover have "validateShard input ?d2 = Inr s"
        using v1 validateShard_cong [of ?d2 d1 input] by (cases "dc_replay d1") (simp_all add: opened_fields)
      moreover have "AddVerifiedShard now input d = placeShard now input (new_block input s d1) ?d2"
        using live Inr new(2) by (simp add: AddVerifiedShard_eq sw)
      ultimately show ?thesis
        using placed [OF live Inr, of "new_block input s d1" ?d2] new(1) by (simp add: sw new_block_def)
    next
      case (early r d')
      have "decoder_inv d'" using early(4) d1(1) bump_pre [OF d1(1)] by auto
      moreover have "\<exists>c. d' = d1\<lparr>dc_statistics := c\<rparr>"
        using early(4) by (elim disjE exE) (auto simp: bump_def intro: exI [of _ "dc_statistics d1"])
      moreover have "AddVerifiedShard now input d = (r, d')"
        using live Inr early(1) by (simp add: AddVerifiedShard_eq sw)
      ultimately show ?thesis using answered [OF live Inr _ _ _ early(2,3)] early(1) by (simp add: sw)
    qed
  qed
qed

lemma AddVerifiedShard_inv:
  assumes inv: "decoder_inv d"
  shows "decoder_inv (snd (AddVerifiedShard now input d))"
  using inv
proof (cases rule: AddVerifiedShard_cases [where now = now and input = input])
  case (placed s b d2)
  then show ?thesis using placeShard_inv by metis
qed (simp_all add: inv)

lemma Sweep_inv: "decoder_inv d \<Longrightarrow> decoder_inv (snd (Sweep now d))"
  using sweepLocked_spec [of "{}" d now] by (cases "sweepLocked now d") (simp add: Sweep_def)

lemma Close_inv:
  assumes inv: "decoder_inv d"
  shows "decoder_inv (Decoder_Close d)"
proof (cases "dc_closed d")
  case False
  note p = pending_okD [OF decoder_preD(2) [OF inv]]
  have "gauges_ok (changePending (- int (length (dc_pending d))) (- dc_pendingShards d) (- dc_pendingBytes d) (dc_statistics d)) 0 0 0"
    using gauges_change [OF p(4), of "- int (length (dc_pending d))" "- dc_pendingShards d" "- dc_pendingBytes d"] by simp
  then show ?thesis
    using False decoder_preD(1) [OF inv]
    by (simp add: Decoder_Close_def decoder_pre_def pending_ok_def config_ok_def replay_ok_def pending_gauge_def Let_def)
qed (simp add: Decoder_Close_def inv)

lemma NewDecoder_Inr:
  assumes "NewDecoder rs_New config = Inr d"
  shows "DeriveLimits (cf_Params config) (cf_Budget config) = Inr (dc_limits d) \<and>
    rs_New (DataShards (cf_Params config)) (ParityShards (cf_Params config)) = Some (dc_codec d) \<and>
    dc_params d = cf_Params config \<and> dc_total d = DataShards (cf_Params config) + ParityShards (cf_Params config) \<and>
    dc_decodeTimeout d = cf_DecodeTimeout config \<and> 0 < cf_DecodeTimeout config \<and>
    dc_maxPendingBlocks d = cf_MaxPendingBlocks config \<and> 0 < cf_MaxPendingBlocks config \<and>
    dc_maxCompletedBlocks d = cf_MaxCompletedBlocks config \<and>
    (cf_ReplayWindow config = None \<longrightarrow> 0 < cf_MaxCompletedBlocks config \<and> 0 < cf_CompletionTTL config) \<and>
    dc_pending d = [] \<and> dc_pendingExpiry d = [] \<and> dc_completed d = [] \<and> dc_completedExpiry d = [] \<and>
    dc_pendingShards d = 0 \<and> dc_pendingBytes d = 0 \<and> \<not> dc_closed d \<and> dc_statistics d = cf_Statistics config \<and>
    dc_replay d = map_option newReplayWindow (cf_ReplayWindow config)"
  using assms
  by (auto simp: NewDecoder_def newCodec_def validateParams_iff split: sum.splits option.splits if_splits)

lemma NewDecoder_inv:
  assumes "NewDecoder rs_New config = Inr d" "gauges_ok (cf_Statistics config) 0 0 0"
  shows "decoder_inv d"
proof -
  note n = NewDecoder_Inr [OF assms(1)]
  have "pending_ok d" using n assms(2) by (simp add: pending_ok_def)
  moreover have "config_ok d" using n by (auto simp: config_ok_def)
  moreover have "replay_ok d" using n by (auto simp: replay_ok_def replay_inv_new split: option.splits)
  ultimately show ?thesis using n by (simp add: decoder_pre_def)
qed

subsection \<open>The decoder as a transition system\<close>

datatype decoder_op = OpAdd int IncomingShard | OpSweep int | OpClose

text \<open>An operation and what it hands to the session: the recovered datagram with its key.\<close>

fun decoder_apply :: "decoder_op \<Rightarrow> Decoder \<Rightarrow> (BlockKey \<times> bytes) list \<times> Decoder" where
  "decoder_apply (OpAdd now input) d =
     (case AddVerifiedShard now input d of
        (Inr r, d') \<Rightarrow> ((case rs_Datagram r of None \<Rightarrow> [] | Some y \<Rightarrow> [(is_Key input, y)]), d')
      | (Inl err, d') \<Rightarrow> ([], d'))"
| "decoder_apply (OpSweep now) d = ([], snd (Sweep now d))"
| "decoder_apply OpClose d = ([], Decoder_Close d)"

fun decoder_run :: "decoder_op list \<Rightarrow> Decoder \<Rightarrow> (BlockKey \<times> bytes) list \<times> Decoder" where
  "decoder_run [] d = ([], d)"
| "decoder_run (op # ops) d =
     (case decoder_apply op d of (out, d') \<Rightarrow> (case decoder_run ops d' of (out', d'') \<Rightarrow> (out @ out', d'')))"

definition decoder_start :: "Decoder \<Rightarrow> bool" where
  "decoder_start d \<longleftrightarrow> (\<exists>rs_New config. NewDecoder rs_New config = Inr d \<and> gauges_ok (cf_Statistics config) 0 0 0)"

definition decoder_step :: "Decoder \<Rightarrow> Decoder \<Rightarrow> bool" where
  "decoder_step d d' \<longleftrightarrow> (\<exists>op. d' = snd (decoder_apply op d))"

lemma decoder_apply_inv: "decoder_inv d \<Longrightarrow> decoder_inv (snd (decoder_apply op d))"
proof (cases op)
  case (OpAdd now input)
  assume "decoder_inv d"
  from AddVerifiedShard_inv [OF this, of now input] show ?thesis
    by (simp add: OpAdd split_beta split: sum.split)
qed (simp_all add: Sweep_inv Close_inv)

interpretation decoder_system: transition_system decoder_start decoder_step decoder_inv
proof unfold_locales
  show "decoder_start d \<Longrightarrow> decoder_inv d" for d
    using NewDecoder_inv by (auto simp: decoder_start_def)
  show "decoder_inv d \<Longrightarrow> decoder_step d d' \<Longrightarrow> decoder_inv d'" for d d'
    using decoder_apply_inv by (auto simp: decoder_step_def)
qed

lemma decoder_run_reachable:
  "reachable decoder_start decoder_step d \<Longrightarrow> reachable decoder_start decoder_step (snd (decoder_run ops d))"
proof (induction ops arbitrary: d)
  case (Cons op ops)
  have "reachable decoder_start decoder_step (snd (decoder_apply op d))"
    using Cons.prems by (rule reach_step) (auto simp: decoder_step_def)
  from Cons.IH [OF this] show ?case by (simp add: split_beta)
qed simp

end
