(* ===== verification/FecDelivery.thy ===== *)
theory FecDelivery
  imports FecDecoderSteps
begin

text \<open>
  What the v0.1 FEC path promises the session above it: bounded and exactly accounted state, expiry of
  exactly the due blocks, at most one delivery per block key under the replay window, and delivery of
  the sent datagram as soon as any \<open>k\<close> of its shards have arrived, in any order and interleaved with
  any other traffic.
\<close>

subsection \<open>At most one delivery\<close>

definition retired :: "replayWindow \<Rightarrow> u64 \<Rightarrow> bool" where
  "retired w p \<longleftrightarrow> tooOld w p \<or> unat p \<in> completedIDs w"

lemma retired_iff: "replay_inv w \<Longrightarrow> retired w p \<longleftrightarrow> tooOld w p \<or> contains w p"
  by (simp add: retired_def contains_iff)

lemma retired_admit:
  assumes "replay_inv w" "retired w p"
  shows "retired (admit w q) p"
proof (cases "rw_started w")
  case False
  then show ?thesis using assms(2) by (simp add: retired_def tooOld_iff completedIDs_def)
next
  case True
  show ?thesis
  proof (cases "rw_highest w < q")
    case lt: True
    then have a: "rw_started (admit w q)" "rw_highest (admit w q) = q"
      "completedIDs (admit w q) = {k \<in> completedIDs w. unat q < k + 65536}"
      using admit_advance [OF assms(1) True lt] by blast+
    have "unat (rw_highest w) < unat q" using lt by (simp add: word_less_nat_alt)
    then show ?thesis using assms(2) True unfolding retired_def tooOld_iff a(2,3) by (auto simp: a(1))
  next
    case False
    then show ?thesis using assms(2) admit_below [OF True, of q] by simp
  qed
qed

lemma retired_complete:
  assumes "replay_inv w" "rw_started w" "q \<le> rw_highest w"
  shows "retired (complete w q) q" "retired w p \<Longrightarrow> retired (complete w q) p"
  using complete_spec [OF assms] by (auto simp: retired_def tooOld_iff split: if_splits)

text \<open>A key is spent once it can never be delivered (again).\<close>

definition spent :: "Decoder \<Rightarrow> BlockKey \<Rightarrow> bool" where
  "spent d key \<longleftrightarrow>
     dc_closed d \<or>
     map_of (dc_pending d) key = None \<and> (\<exists>w. dc_replay d = Some w \<and> retired w (bk_PacketID key))"

lemma spent_frame:
  assumes "spent d key" "dc_closed d' = dc_closed d" "dc_replay d' = dc_replay d"
    and "map_of (dc_pending d) key = None \<Longrightarrow> map_of (dc_pending d') key = None"
  shows "spent d' key"
  using assms by (auto simp: spent_def)

lemma map_of_filter_None: "map_of m k = None \<Longrightarrow> map_of (filter p m) k = None"
  by (auto simp: map_of_eq_None_iff)

lemma sweepLocked_spent: "decoder_inv d \<Longrightarrow> spent d key \<Longrightarrow> spent (snd (sweepLocked now d)) key"
  using sweepLocked_spec [of "{}" d now] map_of_filter_None
  by (cases "sweepLocked now d") (rule spent_frame, simp_all)

lemma opened_spent:
  assumes "decoder_inv d" "fresh_key d (is_Key input)" "\<not> dc_closed d" "spent d key"
  shows "spent (opened now input s d) key \<and> key \<noteq> is_Key input"
proof -
  obtain w where w: "dc_replay d = Some w" "retired w (bk_PacketID key)" "map_of (dc_pending d) key = None"
    using assms(3,4) by (auto simp: spent_def)
  have inv: "replay_inv w" using decoder_preD(4) [OF assms(1)] w(1) by (simp add: replay_ok_def)
  have "key \<noteq> is_Key input"
    using w assms(2) retired_iff [OF inv] by (auto simp: fresh_key_def)
  then show ?thesis using w retired_admit [OF inv] by (simp add: spent_def opened_fields map_of_update)
qed

lemma bump_fields [simp]:
  "dc_pending (bump f d) = dc_pending d" "dc_replay (bump f d) = dc_replay d" "dc_closed (bump f d) = dc_closed d"
  "dc_pendingExpiry (bump f d) = dc_pendingExpiry d"
  by (simp_all add: bump_def)

lemma remember_fields:
  "dc_pending (rememberCompletedLocked k now d) = dc_pending d"
  "dc_closed (rememberCompletedLocked k now d) = dc_closed d"
  "dc_pendingExpiry (rememberCompletedLocked k now d) = dc_pendingExpiry d"
  "dc_replay (rememberCompletedLocked k now d) = map_option (\<lambda>w. complete w (bk_PacketID k)) (dc_replay d)"
  by (auto simp: rememberCompletedLocked_def Let_def bump_def split: option.split prod.split)

lemma finish_spent:
  assumes pre: "decoder_pre {is_Key input} d" and b: "map_of (dc_pending d) (is_Key input) = Some b"
    and fin: "finishBlock now input b d = (r, d')"
  shows "spent d key \<Longrightarrow> spent d' key"
    and "r = Inr \<lparr>rs_Outcome = OutcomeComplete, rs_Datagram = Some y\<rparr> \<Longrightarrow> dc_replay d \<noteq> None \<Longrightarrow> spent d' (is_Key input)"
proof -
  let ?rm = "removePendingLocked (is_Key input) b d"
  have rm: "pending_frame d ?rm" "dc_pending ?rm = AList.delete (is_Key input) (dc_pending d)"
    using remove_pre [OF pre b] by simp_all
  note f = pending_frame_fields [OF rm(1)]
  have keep: "spent d key \<Longrightarrow> spent ?rm key"
    by (rule spent_frame) (auto simp: f rm(2) map_of_delete)
  have ok: "replay_inv w \<and> rw_started w \<and> bk_PacketID (is_Key input) \<le> rw_highest w" if "dc_replay d = Some w" for w
    using decoder_preD(4) [OF pre] map_of_SomeD [OF b] that by (force simp: replay_ok_def)
  have rem: "spent (rememberCompletedLocked (is_Key input) now ?rm) key" if "spent d key"
    using keep [OF that] ok retired_complete(2) by (auto simp: spent_def remember_fields f)
  have new: "spent (rememberCompletedLocked (is_Key input) now ?rm) (is_Key input)" if "dc_replay d \<noteq> None"
    using that ok retired_complete(1) by (auto simp: spent_def remember_fields f rm(2) map_of_delete)
  show "spent d key \<Longrightarrow> spent d' key"
    using fin keep rem by (cases rule: finishBlock_cases [of now input b d]) (auto simp: spent_def)
  show "r = Inr \<lparr>rs_Outcome = OutcomeComplete, rs_Datagram = Some y\<rparr> \<Longrightarrow> dc_replay d \<noteq> None \<Longrightarrow> spent d' (is_Key input)"
    using fin new by (cases rule: finishBlock_cases [of now input b d]) (auto simp: spent_def)
qed

lemma place_spent:
  assumes inv: "decoder_inv d" and live: "\<not> dc_closed d" and b: "map_of (dc_pending d) (is_Key input) = Some b"
    and v: "validateShard input d = Inr s" and s: "pb_shardSize b = s" and r: "placeShard now input b d = (r, d')"
  shows "spent d key \<Longrightarrow> spent d' key"
    and "r = Inr \<lparr>rs_Outcome = OutcomeComplete, rs_Datagram = Some y\<rparr> \<Longrightarrow> dc_replay d \<noteq> None \<Longrightarrow> spent d' (is_Key input)"
proof -
  let ?d = "stored input b d" and ?b = "stored_block input b"
  have f: "dc_replay ?d = dc_replay d" "dc_closed ?d = dc_closed d" using pending_frame_fields [OF stored_frame] by simp_all
  have b': "map_of (dc_pending ?d) (is_Key input) = Some ?b" by (simp add: stored_fields map_of_update)
  have keep: "spent d key \<Longrightarrow> spent ?d key"
    by (rule spent_frame) (use b in \<open>auto simp: f stored_fields map_of_update\<close>)
  have bump: "spent d key \<Longrightarrow> spent (bump f d) key" for f by (simp add: spent_def)
  show "spent d key \<Longrightarrow> spent d' key"
    using r keep bump stored_pre [OF inv live b v s] finish_spent(1) [OF _ b']
    by (auto simp: placeShard_def split: option.splits if_splits)
  show "r = Inr \<lparr>rs_Outcome = OutcomeComplete, rs_Datagram = Some y\<rparr> \<Longrightarrow> dc_replay d \<noteq> None \<Longrightarrow> spent d' (is_Key input)"
    using r stored_pre [OF inv live b v s] finish_spent(2) [OF _ b'] f
    by (auto simp: placeShard_def split: option.splits if_splits)
qed

lemma place_result:
  assumes "placeShard now input b d = (Inr r, d')" "rs_Datagram r = Some y"
  shows "r = \<lparr>rs_Outcome = OutcomeComplete, rs_Datagram = Some y\<rparr>"
proof -
  have "r = \<lparr>rs_Outcome = OutcomeComplete, rs_Datagram = Some y\<rparr>"
    if "finishBlock now input b' d1 = (Inr r, d')" for b' d1
    using that assms(2) by (cases rule: finishBlock_cases [of now input b' d1]) auto
  then show ?thesis using assms by (auto simp: placeShard_def split: option.splits if_splits)
qed

lemma early_result:
  "openBlock now input s d = Inl (Inr r, d') \<Longrightarrow> rs_Datagram r = None"
  by (auto simp: openBlock_def Let_def split: option.splits if_splits)

lemma apply_spent:
  assumes inv: "decoder_inv d" and a: "decoder_apply op d = (out, d')"
  shows "spent d key \<Longrightarrow> spent d' key"
    and "out = [] \<or> (\<exists>k y. out = [(k, y)] \<and> \<not> spent d k \<and> (dc_replay d \<noteq> None \<longrightarrow> spent d' k))"
    and "dc_replay d' = None \<Longrightarrow> dc_replay d \<noteq> None \<Longrightarrow> dc_closed d'"
proof -
  have main: "(spent d key \<longrightarrow> spent d' key) \<and>
      (out = [] \<or> (\<exists>k y. out = [(k, y)] \<and> \<not> spent d k \<and> (dc_replay d \<noteq> None \<longrightarrow> spent d' k))) \<and>
      (dc_replay d' = None \<longrightarrow> dc_replay d \<noteq> None \<longrightarrow> dc_closed d')"
  proof (cases op)
    case (OpSweep now)
    then have out: "out = []" "d' = (if dc_closed d then d else snd (sweepLocked now d))"
      using a by (auto simp: Sweep_def split: if_splits)
    have "dc_replay (snd (sweepLocked now d)) = dc_replay d"
      using sweepLocked_spec [OF inv surjective_pairing] by blast
    then show ?thesis using out sweepLocked_spent [OF inv, of key now] by simp
  next
    case OpClose
    have "dc_closed (Decoder_Close d)" by (simp add: Decoder_Close_def pending_gauge_def Let_def)
    then show ?thesis using a OpClose by (auto simp: spent_def)
  next
    case (OpAdd now input)
    let ?sw = "snd (sweepLocked now d)"
    have sp: "dc_replay ?sw = dc_replay d" "dc_closed ?sw = dc_closed d" "decoder_inv ?sw"
      using sweepLocked_spec [OF inv surjective_pairing, of now] by blast+
    from inv show ?thesis
    proof (cases rule: AddVerifiedShard_cases [where now = now and input = input])
      case (refused err)
      then show ?thesis using a OpAdd by auto
    next
      case (answered s r d1)
      have "out = []" "d' = d1"
        using a OpAdd answered(3,4) early_result by (auto split: sum.splits option.splits)
      moreover obtain c where "d1 = ?sw\<lparr>dc_statistics := c\<rparr>" using answered(8) by blast
      ultimately show ?thesis using sweepLocked_spent [OF inv, of key now] sp by (auto simp: spent_def)
    next
      case (placed s b d2)
      obtain r d3 where r: "placeShard now input b d2 = (r, d3)" by force
      note ps = place_spent [OF placed(4-8) r]
      have d': "d' = d3" using a OpAdd placed(3) r by (auto split: sum.splits)
      have live: "\<not> dc_closed ?sw" using placed(1) sp by simp
      have pend: "\<not> spent d2 (is_Key input)" using placed(5,6) by (simp add: spent_def)
      have earlier: "spent d k \<Longrightarrow> spent d2 k" for k
        using placed(10) sweepLocked_spent [OF inv, of k now] opened_spent [of ?sw input k now s] sp live by auto
      have rep: "dc_replay d \<noteq> None \<longleftrightarrow> dc_replay d2 \<noteq> None"
        using placed(10) sp(1) by (elim disjE) (simp_all add: opened_fields)
      have fwd: "spent d key \<Longrightarrow> spent d' key" using earlier ps(1) d' by blast
      have keep: "dc_replay d3 = None \<Longrightarrow> dc_replay d2 = None"
        using r pending_frame_fields(12) [OF stored_frame, of input b d2]
          remove_pre [OF stored_pre [OF placed(4-8)], of "stored_block input b"]
        by (auto simp: placeShard_def finishBlock_def Let_def remember_fields stored_fields map_of_update pending_frame_fields(12)
            split: option.splits if_splits)
      have "out = [] \<or> (\<exists>y. out = [(is_Key input, y)] \<and> r = Inr \<lparr>rs_Outcome = OutcomeComplete, rs_Datagram = Some y\<rparr>)"
        using a OpAdd placed(3) r place_result [of now input b d2 _ d3] by (auto split: sum.splits option.splits)
      then have "out = [] \<or> (\<exists>k y. out = [(k, y)] \<and> \<not> spent d k \<and> (dc_replay d \<noteq> None \<longrightarrow> spent d' k))"
        using pend earlier ps(2) rep d' by metis
      then show ?thesis using fwd keep rep d' by simp
    qed
  qed
  show "spent d key \<Longrightarrow> spent d' key"
    and "out = [] \<or> (\<exists>k y. out = [(k, y)] \<and> \<not> spent d k \<and> (dc_replay d \<noteq> None \<longrightarrow> spent d' k))"
    and "dc_replay d' = None \<Longrightarrow> dc_replay d \<noteq> None \<Longrightarrow> dc_closed d'"
    using main by blast+
qed

lemma run_spent:
  assumes "decoder_inv d" "dc_closed d \<or> dc_replay d \<noteq> None" "decoder_run ops d = (out, d')"
  shows "distinct (map fst out) \<and> (\<forall>k \<in> set (map fst out). \<not> spent d k)"
  using assms
proof (induction ops arbitrary: d out)
  case (Cons op ops)
  obtain o1 d1 o2 where r: "decoder_apply op d = (o1, d1)" "decoder_run ops d1 = (o2, d')" "out = o1 @ o2"
    using Cons.prems(3) by (auto split: prod.splits)
  note ap = apply_spent [OF Cons.prems(1) r(1)]
  have inv1: "decoder_inv d1" using decoder_apply_inv [OF Cons.prems(1), of op] r(1) by simp
  have "dc_closed d1 \<or> dc_replay d1 \<noteq> None"
  proof (cases "dc_closed d")
    case True
    then have "dc_closed d1" using r(1) by (cases op) (auto simp: AddVerifiedShard_def Sweep_def Decoder_Close_def)
    then show ?thesis ..
  qed (use Cons.prems(2) ap(3) in auto)
  from Cons.IH [OF inv1 this r(2)]
  have IH: "distinct (map fst o2)" "\<forall>k \<in> set (map fst o2). \<not> spent d1 k" by blast+
  then have IH': "\<forall>k \<in> set (map fst o2). \<not> spent d k" using ap(1) by blast
  from ap(2) show ?case
  proof
    assume "o1 = []"
    then show ?thesis using IH IH' r(3) by simp
  next
    assume "\<exists>k y. o1 = [(k, y)] \<and> \<not> spent d k \<and> (dc_replay d \<noteq> None \<longrightarrow> spent d1 k)"
    then obtain k y where k: "o1 = [(k, y)]" "\<not> spent d k" "dc_replay d \<noteq> None \<longrightarrow> spent d1 k" by blast
    then have "spent d1 k" using Cons.prems(2) by (auto simp: spent_def)
    then show ?thesis using k IH IH' r(3) by auto
  qed
qed simp

subsection \<open>Delivery of a sent block\<close>

definition shard_of :: "EncodedBlock \<Rightarrow> SessionID \<Rightarrow> nat \<Rightarrow> IncomingShard" where
  "shard_of blk sid i =
     \<lparr>is_Key = \<lparr>bk_SessionID = sid, bk_PacketID = eb_PacketID blk\<rparr>, is_Params = eb_Params blk, is_Index = int i,
      is_OriginalLength = eb_OriginalLength blk, is_Payload = eb_Shards blk ! i\<rparr>"

lemma shard_of_fields [simp]:
  "is_Key (shard_of blk sid i) = \<lparr>bk_SessionID = sid, bk_PacketID = eb_PacketID blk\<rparr>"
  "is_Params (shard_of blk sid i) = eb_Params blk" "is_Index (shard_of blk sid i) = int i"
  "is_OriginalLength (shard_of blk sid i) = eb_OriginalLength blk" "is_Payload (shard_of blk sid i) = eb_Shards blk ! i"
  by (simp_all add: shard_of_def)

definition held_shards :: "bytes list \<Rightarrow> nat set \<Rightarrow> shard list" where
  "held_shards sh H = map (\<lambda>i. if i \<in> H then Some (sh ! i) else None) [0..<length sh]"

lemma held_shards_simps:
  "length (held_shards sh H) = length sh"
  "i < length sh \<Longrightarrow> held_shards sh H ! i = (if i \<in> H then Some (sh ! i) else None)"
  "held_shards sh {} = replicate (length sh) None"
  by (simp_all add: held_shards_def map_replicate_const)

lemma held_shards_insert:
  "i < length sh \<Longrightarrow> (held_shards sh H)[i := Some (sh ! i)] = held_shards sh (insert i H)"
  by (rule nth_equalityI) (simp_all add: held_shards_simps nth_list_update)

lemma held_shards_consistent: "consistent (held_shards sh H) sh"
  by (simp add: consistent_def held_shards_simps)

lemma held_shards_count: "H \<subseteq> {..<length sh} \<Longrightarrow> present_count (held_shards sh H) = card H"
proof -
  assume H: "H \<subseteq> {..<length sh}"
  have "present_count (held_shards sh H) = length (filter (\<lambda>i. i \<in> H) [0..<length sh])"
    by (simp add: present_count_def held_shards_def filter_map comp_def if_distrib)
  also have "\<dots> = card (set (filter (\<lambda>i. i \<in> H) [0..<length sh]))"
    by (rule distinct_card [symmetric]) simp
  also have "set (filter (\<lambda>i. i \<in> H) [0..<length sh]) = H" using H by auto
  finally show ?thesis .
qed

lemma gather_take:
  "length w \<le> n \<Longrightarrow> gather n w ss = take n (w @ concat (map (\<lambda>s. case s of None \<Rightarrow> [] | Some x \<Rightarrow> x) ss))"
proof (induction ss arbitrary: w)
  case (Cons s ss)
  show ?case
  proof (cases "length w = n")
    case False
    let ?x = "case s of None \<Rightarrow> [] | Some x \<Rightarrow> x"
    have "length (w @ take (n - length w) ?x) \<le> n" using Cons.prems by simp
    from Cons.IH [OF this] show ?thesis
      using False Cons.prems by (cases "length w + length ?x \<le> n") simp_all
  qed simp
qed simp

text \<open>A block the encoder produced and a decoder with the same parameters and codec.\<close>

definition sent_block :: "EncodedBlock \<Rightarrow> bytes \<Rightarrow> Decoder \<Rightarrow> bool" where
  "sent_block blk payload d \<longleftrightarrow>
     eb_Params blk = dc_params d \<and> length (eb_Shards blk) = nat (dc_total d) \<and>
     eb_OriginalLength blk = int (length payload) \<and> int (length payload) \<le> EffectiveDatagramLimit (dc_limits d) \<and>
     (\<forall>x \<in> set (eb_Shards blk). int (length x) = shardSizeForDatagram (int (length payload)) (DataShards (dc_params d))) \<and>
     shardSizeForDatagram (int (length payload)) (DataShards (dc_params d)) \<le> ShardCapacity (dc_limits d) \<and>
     take (length payload) (concat (take (nat (DataShards (dc_params d))) (eb_Shards blk))) = payload \<and>
     rs_Encode (dc_codec d) (eb_Shards blk) = Some (eb_Shards blk) \<and>
     reed_solomon_laws (nat (DataShards (dc_params d))) (nat (ParityShards (dc_params d))) (dc_codec d)"

lemma sent_block_cong:
  "dc_params d' = dc_params d \<Longrightarrow> dc_limits d' = dc_limits d \<Longrightarrow> dc_total d' = dc_total d \<Longrightarrow> dc_codec d' = dc_codec d \<Longrightarrow>
     sent_block blk payload d' \<longleftrightarrow> sent_block blk payload d"
  by (simp add: sent_block_def)

lemma finish_sent:
  assumes sent: "sent_block blk payload d" and cfg: "config_ok d" and H: "H \<subseteq> {..<length (eb_Shards blk)}"
    and k: "DataShards (dc_params d) \<le> int (card H)" and b: "pb_shards b = held_shards (eb_Shards blk) H"
  shows "fst (finishBlock now (shard_of blk sid i) b d) =
    Inr \<lparr>rs_Outcome = OutcomeComplete, rs_Datagram = Some payload\<rparr>"
proof -
  let ?k = "nat (DataShards (dc_params d))" and ?m = "nat (ParityShards (dc_params d))" and ?sh = "eb_Shards blk"
  have laws: "reed_solomon_laws ?k ?m (dc_codec d)" and enc: "rs_Encode (dc_codec d) ?sh = Some ?sh"
    and len: "eb_OriginalLength blk = int (length payload)"
    and data: "take (length payload) (concat (take ?k ?sh)) = payload"
    using sent by (simp_all add: sent_block_def)
  have "?k \<le> present_count (pb_shards b)" using k b held_shards_count [OF H] by simp
  then obtain zs where zs: "rs_ReconstructData (dc_codec d) (pb_shards b) = Some zs" "length zs = ?k + ?m"
    "\<And>i. i < ?k \<Longrightarrow> zs ! i = Some (?sh ! i)"
    using rs_reconstruct [OF laws enc, of "pb_shards b"] held_shards_consistent b by metis
  have total: "length ?sh = ?k + ?m"
    using sent config_okD [OF cfg] by (simp add: sent_block_def nat_add_distrib)
  have "take ?k zs = map Some (take ?k ?sh)"
    using zs(2,3) total by (intro nth_equalityI) simp_all
  then have "gather (length payload) [] (take ?k zs) = payload"
    using data by (simp add: gather_take comp_def)
  then show ?thesis using zs(1) len by (simp add: finishBlock_def Let_def)
qed

text \<open>\<open>holds d key b T\<close>: block \<open>b\<close> is pending under \<open>key\<close> and expires at \<open>T\<close>. Everything that concerns
  other keys, and every sweep before \<open>T\<close>, leaves it in place.\<close>

definition holds :: "Decoder \<Rightarrow> BlockKey \<Rightarrow> pendingBlock \<Rightarrow> int \<Rightarrow> bool" where
  "holds d key b T \<longleftrightarrow> map_of (dc_pending d) key = Some b \<and> (pb_expiry b, key, T) \<in> entries (dc_pendingExpiry d)"

lemma map_of_filter_keys: "distinct (keys m) \<Longrightarrow> map_of m k = Some b \<Longrightarrow> p (k, b) \<Longrightarrow> map_of (filter p m) k = Some b"
  by (simp add: map_of_eq_Some_iff distinct_map_filter)

lemma holds_sweep:
  assumes inv: "decoder_inv d" and h: "holds d key b T" and now: "now < T"
  shows "holds (snd (sweepLocked now d)) key b T"
proof -
  note sp = sweepLocked_spec [OF inv surjective_pairing, of now]
  have e: "(pb_expiry b, key, T) \<in> entries (dc_pendingExpiry d)" and m: "map_of (dc_pending d) key = Some b"
    using h by (simp_all add: holds_def)
  have "\<not> due now (dc_pendingExpiry d) key"
    using tracked_key_unique [OF pending_okD(1) [OF decoder_preD(2) [OF inv]] e] now by (force simp: due_def)
  then have "map_of (dc_pending (snd (sweepLocked now d))) key = Some b"
    using sp map_of_filter_keys [OF decoder_preD(8) [OF inv] m] by simp
  moreover have "(pb_expiry b, key, T) \<in> entries (dc_pendingExpiry (snd (sweepLocked now d)))"
    using sp e now by blast
  ultimately show ?thesis by (simp add: holds_def)
qed

lemma holds_opened:
  assumes "decoder_inv d" "fresh_key d (is_Key input)" "holds d key b T"
  shows "holds (opened now input s d) key b T"
proof -
  have n: "map_of (dc_pending d) (is_Key input) = None" using assms(2) by (simp add: fresh_key_def)
  then have "key \<noteq> is_Key input" using assms(3) by (auto simp: holds_def)
  then show ?thesis
    using assms(3) opened_tracked [OF decoder_preD(2) [OF assms(1)] n, of now s]
    by (simp add: holds_def opened_fields(12) map_of_update)
qed

lemma holds_remove:
  assumes "pending_ok d" "map_of (dc_pending d) k' = Some b'" "k' \<noteq> key" "holds d key b T"
  shows "holds (removePendingLocked k' b' d) key b T"
proof -
  obtain g t where "removePendingLocked k' b' d = drop_block k' b' g d"
    "entries g = entries (dc_pendingExpiry d) - {(pb_expiry b', k', t)}"
    using removePendingLocked_drop [OF assms(1,2)] by blast
  then show ?thesis using assms(3,4) by (auto simp: holds_def map_of_delete)
qed

lemma holds_place_other:
  assumes inv: "decoder_inv d" and live: "\<not> dc_closed d" and b': "map_of (dc_pending d) (is_Key input) = Some b'"
    and v: "validateShard input d = Inr s" and s: "pb_shardSize b' = s"
    and ne: "is_Key input \<noteq> key" and h: "holds d key b T"
  shows "holds (snd (placeShard now input b' d)) key b T"
proof -
  let ?d = "stored input b' d" and ?b = "stored_block input b'"
  have st: "holds ?d key b T" using h ne by (simp add: holds_def stored_fields map_of_update)
  have b2: "map_of (dc_pending ?d) (is_Key input) = Some ?b" by (simp add: stored_fields map_of_update)
  have rm: "holds (removePendingLocked (is_Key input) ?b ?d) key b T" if "pending_ok ?d"
    by (rule holds_remove [OF that b2 ne st])
  have fin: "holds (snd (finishBlock now input ?b ?d)) key b T" if "pending_ok ?d"
    using rm [OF that] by (cases rule: finishBlock_cases [of now input ?b ?d]) (simp_all add: holds_def remember_fields)
  show ?thesis
    using h st fin stored_pending_ok [OF decoder_preD(2) [OF inv] b']
    by (auto simp: placeShard_def holds_def split: option.split)
qed

definition timely :: "int \<Rightarrow> decoder_op \<Rightarrow> bool" where
  "timely T op = (case op of OpAdd t input \<Rightarrow> t < T | OpSweep t \<Rightarrow> t < T | OpClose \<Rightarrow> False)"

definition about :: "BlockKey \<Rightarrow> decoder_op \<Rightarrow> bool" where
  "about key op = (case op of OpAdd t input \<Rightarrow> is_Key input = key | _ \<Rightarrow> False)"

text \<open>What no operation but \<open>Close\<close> changes.\<close>

definition same_config :: "Decoder \<Rightarrow> Decoder \<Rightarrow> bool" where
  "same_config d d' \<longleftrightarrow>
     dc_params d' = dc_params d \<and> dc_limits d' = dc_limits d \<and> dc_total d' = dc_total d \<and> dc_codec d' = dc_codec d \<and>
     dc_decodeTimeout d' = dc_decodeTimeout d \<and> dc_closed d' = dc_closed d"

lemma same_config_trans: "same_config a b \<Longrightarrow> same_config b c \<Longrightarrow> same_config a c"
  by (simp add: same_config_def)

lemma same_config_prims:
  "same_config d (bump f d)" "same_config d (opened now input s d)" "same_config d (stored input b d)"
  "same_config d (removePendingLocked k b d)" "same_config d (rememberCompletedLocked k now d)"
  by (auto simp: same_config_def bump_def opened_fields stored_def pending_gauge_def removePendingLocked_def
      rememberCompletedLocked_def Let_def split: option.split prod.split)

lemma same_config_sweep: "decoder_inv d \<Longrightarrow> same_config d (snd (sweepLocked now d))"
  using sweepLocked_spec [of "{}" d now] by (cases "sweepLocked now d") (simp add: same_config_def)

lemma same_config_place: "same_config d (snd (placeShard now input b d))"
proof -
  let ?d = "stored input b d"
  have fin: "same_config d (snd (finishBlock now input (stored_block input b) ?d))"
    by (cases rule: finishBlock_cases [of now input "stored_block input b" ?d])
       (simp_all add: same_config_def same_config_prims [unfolded same_config_def])
  show ?thesis
    using fin same_config_prims by (auto simp: placeShard_def same_config_def split: option.split)
qed

lemma same_config_apply:
  assumes inv: "decoder_inv d" and op: "op \<noteq> OpClose"
  shows "same_config d (snd (decoder_apply op d))"
proof (cases op)
  case (OpAdd now input)
  have "same_config d (snd (AddVerifiedShard now input d))"
    using inv
  proof (cases rule: AddVerifiedShard_cases [where now = now and input = input])
    case (answered s r d')
    then obtain c where "d' = snd (sweepLocked now d)\<lparr>dc_statistics := c\<rparr>" by blast
    then show ?thesis using answered(4) same_config_sweep [OF inv, of now] by (simp add: same_config_def)
  next
    case (placed s b d2)
    have "same_config d d2"
      using placed(10) same_config_sweep [OF inv, of now] same_config_trans same_config_prims(2) by metis
    then show ?thesis using placed(3) same_config_place same_config_trans by metis
  qed (simp add: same_config_def)
  then show ?thesis by (simp add: OpAdd split_beta split: sum.split)
next
  case (OpSweep now)
  then show ?thesis using same_config_sweep [OF inv] by (simp add: Sweep_def same_config_def)
qed (use op in simp)

lemma other_step:
  assumes inv: "decoder_inv d" and live: "\<not> dc_closed d" and t: "timely T op" and other: "\<not> about key op"
    and h: "holds d key b T" and a: "decoder_apply op d = (out, d')"
  shows "holds d' key b T \<and> (\<forall>y. (key, y) \<notin> set out)"
proof (cases op)
  case (OpAdd now input)
  have now: "now < T" and ne: "is_Key input \<noteq> key" using t other OpAdd by (simp_all add: timely_def about_def)
  have sw: "holds (snd (sweepLocked now d)) key b T" "decoder_inv (snd (sweepLocked now d))"
    using holds_sweep [OF inv h now] sweepLocked_spec [OF inv surjective_pairing, of now] by blast+
  have out: "\<forall>y. (key, y) \<notin> set out"
    using a ne OpAdd by (auto split: prod.splits sum.splits option.splits)
  have "holds (snd (AddVerifiedShard now input d)) key b T"
    using inv
  proof (cases rule: AddVerifiedShard_cases [where now = now and input = input])
    case (answered s r d1)
    then obtain c where "d1 = snd (sweepLocked now d)\<lparr>dc_statistics := c\<rparr>" by blast
    then show ?thesis using sw(1) answered(4) by (simp add: holds_def)
  next
    case (placed s b' d2)
    have "holds d2 key b T" using placed(10) sw holds_opened by blast
    from holds_place_other [OF placed(4-8) ne this] show ?thesis by (simp add: placed(3))
  qed (use h in simp)
  then show ?thesis using out a OpAdd by (auto split: prod.splits sum.splits)
next
  case (OpSweep now)
  then show ?thesis
    using a holds_sweep [OF inv h, of now] t live by (auto simp: Sweep_def timely_def)
qed (use t in \<open>simp add: timely_def\<close>)

text \<open>A shard of the block itself.\<close>

lemma place_own:
  assumes inv: "decoder_inv d" and live: "\<not> dc_closed d" and sent: "sent_block blk payload d"
    and h: "holds d key b T" and key: "key = \<lparr>bk_SessionID = sid, bk_PacketID = eb_PacketID blk\<rparr>"
    and H: "H \<subseteq> {..<length (eb_Shards blk)}" "pb_shards b = held_shards (eb_Shards blk) H" "pb_originalLength b = int (length payload)"
    and i: "i < length (eb_Shards blk)" and v: "validateShard (shard_of blk sid i) d = Inr s"
    and r: "placeShard now (shard_of blk sid i) b d = (r, d')"
  shows "r = Inr \<lparr>rs_Outcome = OutcomeComplete, rs_Datagram = Some payload\<rparr> \<or>
    (\<exists>b'. holds d' key b' T \<and> pb_shards b' = held_shards (eb_Shards blk) (insert i H) \<and>
       pb_originalLength b' = int (length payload) \<and> (\<forall>x. r = Inr x \<longrightarrow> rs_Datagram x = None))"
proof (cases "i \<in> H")
  case True
  then have "r = Inr \<lparr>rs_Outcome = OutcomeDuplicate, rs_Datagram = None\<rparr>" "holds d' key b T" "insert i H = H"
    using r i H(2) h by (auto simp: placeShard_def held_shards_simps holds_def)
  then show ?thesis using H by auto
next
  case False
  let ?in = "shard_of blk sid i" and ?b = "stored_block (shard_of blk sid i) b"
  let ?d = "stored ?in b d"
  have m: "map_of (dc_pending d) key = Some b" using h by (simp add: holds_def)
  have none: "pb_shards b ! nat (is_Index ?in) = None" using False i H(2) by (simp add: held_shards_simps)
  have sh: "pb_shards ?b = held_shards (eb_Shards blk) (insert i H)"
    using H(2) i by (simp add: stored_block_def held_shards_insert)
  have fin: "finite H" using H(1) finite_subset by blast
  have present: "pb_present b = int (card H)"
    using decoder_preD(5) [OF inv m] H held_shards_count by (simp add: block_ok_def)
  show ?thesis
  proof (cases "pb_present b + 1 < DataShards (dc_params d)")
    case True
    then have "r = Inr \<lparr>rs_Outcome = OutcomePending, rs_Datagram = None\<rparr>" "d' = ?d"
      using r none by (simp_all add: placeShard_def)
    moreover have "holds ?d key ?b T" using h key by (simp add: holds_def stored_fields map_of_update stored_block_def)
    moreover have "pb_originalLength ?b = int (length payload)" using H(3) by (simp add: stored_block_def)
    ultimately show ?thesis using sh by auto
  next
    case ge: False
    have cfg: "config_ok ?d" "sent_block blk payload ?d" "dc_params ?d = dc_params d"
      using decoder_preD(1) [OF inv] sent pending_frame_fields [OF stored_frame, of ?in b d]
      by (simp_all add: config_ok_def sent_block_def)
    have "fst (finishBlock now ?in ?b ?d) = Inr \<lparr>rs_Outcome = OutcomeComplete, rs_Datagram = Some payload\<rparr>"
      by (rule finish_sent [OF cfg(2,1) _ _ sh]) (use H(1) i ge present False fin cfg(3) in auto)
    moreover have "placeShard now ?in b d = finishBlock now ?in ?b ?d" using ge none by (simp add: placeShard_def)
    ultimately show ?thesis using r by (metis fst_conv)
  qed
qed

lemma validate_own:
  assumes "sent_block blk payload d" "config_ok d" "i < length (eb_Shards blk)"
    and "\<And>w. dc_replay d = Some w \<Longrightarrow> rw_sessionID w = sid"
  shows "validateShard (shard_of blk sid i) d = Inr (shardSizeForDatagram (int (length payload)) (DataShards (dc_params d)))"
proof -
  have "eb_Shards blk ! i \<in> set (eb_Shards blk)" using assms(3) by simp
  then show ?thesis
    using assms config_okD [OF assms(2)] by (auto simp: validateShard_Inr sent_block_def)
qed

lemma own_step:
  assumes inv: "decoder_inv d" and live: "\<not> dc_closed d" and sent: "sent_block blk payload d"
    and h: "holds d key b T" and key: "key = \<lparr>bk_SessionID = sid, bk_PacketID = eb_PacketID blk\<rparr>"
    and H: "H \<subseteq> {..<length (eb_Shards blk)}" "pb_shards b = held_shards (eb_Shards blk) H" "pb_originalLength b = int (length payload)"
    and i: "i < length (eb_Shards blk)" and now: "now < T"
    and a: "decoder_apply (OpAdd now (shard_of blk sid i)) d = (out, d')"
  shows "out = [(key, payload)] \<or>
    (\<exists>b'. holds d' key b' T \<and> pb_shards b' = held_shards (eb_Shards blk) (insert i H) \<and> pb_originalLength b' = int (length payload))"
proof -
  let ?in = "shard_of blk sid i" and ?sw = "snd (sweepLocked now d)"
  let ?s = "shardSizeForDatagram (int (length payload)) (DataShards (dc_params d))"
  have sw: "decoder_inv ?sw" "holds ?sw key b T" "same_config d ?sw" "dc_replay ?sw = dc_replay d"
    using sweepLocked_spec [OF inv surjective_pairing, of now] holds_sweep [OF inv h now] same_config_sweep [OF inv, of now]
    by simp_all
  have sent': "sent_block blk payload ?sw" using sent sw(3) sent_block_cong [of ?sw d] by (simp add: same_config_def)
  have m: "map_of (dc_pending d) key = Some b" using h by (simp add: holds_def)
  have sid: "rw_sessionID w = sid" if "dc_replay d = Some w" for w
  proof -
    have "key \<in> set (keys (dc_pending d))" using map_of_SomeD [OF m] by force
    moreover have "\<forall>k \<in> set (keys (dc_pending d)). bk_SessionID k = rw_sessionID w"
      using decoder_preD(4) [OF inv] that by (simp add: replay_ok_def)
    ultimately have "bk_SessionID key = rw_sessionID w" by blast
    then show ?thesis by (simp add: key)
  qed
  have v: "validateShard ?in d = Inr ?s" "validateShard ?in ?sw = Inr ?s"
    using validate_own [OF sent decoder_preD(1) [OF inv] i sid]
      validate_own [OF sent' decoder_preD(1) [OF sw(1)] i sid [folded sw(4)]] sw(3) unfolding same_config_def by metis+
  have "pb_shardSize b = ?s" using decoder_preD(5) [OF inv m] H(3) by (simp add: block_ok_def)
  then have "openBlock now ?in ?s ?sw = Inr (b, ?sw)"
    using sw(2) H(3) sent key by (simp add: openBlock_def holds_def sent_block_def)
  then have add: "AddVerifiedShard now ?in d = placeShard now ?in b ?sw"
    using live v(1) by (simp add: AddVerifiedShard_eq)
  obtain r d1 where r: "placeShard now ?in b ?sw = (r, d1)" by force
  have "\<not> dc_closed ?sw" using live sw(3) by (simp add: same_config_def)
  from place_own [OF sw(1) this sent' sw(2) key H i v(2) r]
  show ?thesis using a add r key by (auto split: sum.splits)
qed

lemma first_step:
  assumes inv: "decoder_inv d" and live: "\<not> dc_closed d" and sent: "sent_block blk payload d"
    and fresh: "fresh_key d key" and key: "key = \<lparr>bk_SessionID = sid, bk_PacketID = eb_PacketID blk\<rparr>"
    and sid: "\<And>w. dc_replay d = Some w \<Longrightarrow> rw_sessionID w = sid" and i: "i < length (eb_Shards blk)"
    and a: "decoder_apply (OpAdd now (shard_of blk sid i)) d = (out, d')"
  shows "out = [(key, payload)] \<or>
    (\<exists>b'. holds d' key b' (now + dc_decodeTimeout d) \<and> pb_shards b' = held_shards (eb_Shards blk) {i} \<and>
       pb_originalLength b' = int (length payload))"
proof -
  let ?in = "shard_of blk sid i" and ?sw = "snd (sweepLocked now d)"
  let ?s = "shardSizeForDatagram (int (length payload)) (DataShards (dc_params d))"
  let ?o = "opened now ?in ?s ?sw" and ?b = "new_block ?in ?s ?sw"
  note sp = sweepLocked_spec [OF inv surjective_pairing, of now]
  have sw: "decoder_inv ?sw" "same_config d ?sw" "dc_replay ?sw = dc_replay d"
    using sp same_config_sweep [OF inv] by blast+
  have live': "\<not> dc_closed ?sw" using live sw(2) by (simp add: same_config_def)
  have "int (length (dc_pending ?sw)) \<le> int (length (dc_pending d))" using sp by simp
  then have "int (length (dc_pending ?sw)) < dc_maxPendingBlocks ?sw" using fresh sp unfolding fresh_key_def by linarith
  then have "fresh_key ?sw key"
    using fresh sp unfolding fresh_key_def by (simp add: map_of_filter_None)
  then have fr: "fresh_key ?sw (is_Key ?in)" using key by simp
  have sent': "sent_block blk payload ?sw" "sent_block blk payload ?o"
    using sent sw(2) sent_block_cong [of ?sw d] sent_block_cong [of ?o d] by (simp_all add: same_config_def opened_fields)
  have v: "validateShard ?in d = Inr ?s" "validateShard ?in ?sw = Inr ?s"
    using validate_own [OF sent decoder_preD(1) [OF inv] i sid]
      validate_own [OF sent'(1) decoder_preD(1) [OF sw(1)] i sid [folded sw(3)]] sw(2) unfolding same_config_def by metis+
  have oinv: "decoder_inv ?o" by (rule opened_pre [OF sw(1) fr live' v(2)])
  have v': "validateShard ?in ?o = Inr ?s"
  proof -
    have "rw_sessionID w = sid" if "dc_replay ?o = Some w" for w
      using that sid sw(3) by (auto simp: opened_fields)
    from validate_own [OF sent'(2) decoder_preD(1) [OF oinv] i this] show ?thesis
      using sw(2) by (simp add: opened_fields same_config_def)
  qed
  have h: "holds ?o key ?b (now + dc_decodeTimeout d)"
    using opened_tracked [OF decoder_preD(2) [OF sw(1)], of ?in now ?s] fr key sw(2)
    by (simp add: holds_def opened_fields(12) map_of_update fresh_key_def new_block_def same_config_def)
  have add: "AddVerifiedShard now ?in d = placeShard now ?in ?b ?o"
    using live v(1) openBlock_fresh [OF fr] by (simp add: AddVerifiedShard_eq)
  obtain r d1 where r: "placeShard now ?in ?b ?o = (r, d1)" by force
  have shards: "pb_shards ?b = held_shards (eb_Shards blk) {}" "pb_originalLength ?b = int (length payload)"
    using sent' by (simp_all add: new_block_def held_shards_simps sent_block_def)
  have "\<not> dc_closed ?o" using live' by (simp add: opened_fields)
  from place_own [OF oinv this sent'(2) h key _ shards i v' r]
  show ?thesis using a add r key by (auto split: sum.splits)
qed

definition own_indices :: "BlockKey \<Rightarrow> decoder_op list \<Rightarrow> nat set" where
  "own_indices key ops = {nat (is_Index input) | t input. OpAdd t input \<in> set ops \<and> is_Key input = key}"

lemma own_indices_Cons:
  "own_indices key (op # ops) =
     (case op of OpAdd t input \<Rightarrow> if is_Key input = key then {nat (is_Index input)} else {} | _ \<Rightarrow> {}) \<union> own_indices key ops"
  by (auto simp: own_indices_def split: decoder_op.splits)

lemma run_delivers:
  assumes "decoder_inv d" "\<not> dc_closed d" "sent_block blk payload d"
    and "holds d key b T" and key: "key = \<lparr>bk_SessionID = sid, bk_PacketID = eb_PacketID blk\<rparr>"
    and "H \<subseteq> {..<length (eb_Shards blk)}" "pb_shards b = held_shards (eb_Shards blk) H" "pb_originalLength b = int (length payload)"
    and "\<And>op. op \<in> set ops \<Longrightarrow> timely T op \<and> (about key op \<longrightarrow> (\<exists>t i. i < length (eb_Shards blk) \<and> op = OpAdd t (shard_of blk sid i)))"
    and "DataShards (dc_params d) \<le> int (card (H \<union> own_indices key ops))"
  shows "(key, payload) \<in> set (fst (decoder_run ops d))"
  using assms(1-4,6-)
proof (induction ops arbitrary: d b H)
  case Nil
  have m: "map_of (dc_pending d) key = Some b" using Nil.prems(4) by (simp add: holds_def)
  have "pb_present b < DataShards (dc_params d)" using decoder_preD(6) [OF Nil.prems(1) m] by simp
  moreover have "pb_present b = int (card H)"
    using decoder_preD(5) [OF Nil.prems(1) m] Nil.prems(5,6) held_shards_count by (simp add: block_ok_def)
  ultimately show ?case using Nil.prems(9) by (simp add: own_indices_def)
next
  case (Cons op ops)
  obtain out d1 where a: "decoder_apply op d = (out, d1)" by force
  have run: "fst (decoder_run (op # ops) d) = out @ fst (decoder_run ops d1)" by (simp add: a split_beta)
  have op: "timely T op" using Cons.prems(8) by simp
  then have "op \<noteq> OpClose" by (auto simp: timely_def)
  then have cfg: "same_config d d1" using same_config_apply [OF Cons.prems(1)] a by (metis snd_conv)
  have d1: "decoder_inv d1" "\<not> dc_closed d1" "sent_block blk payload d1" "dc_params d1 = dc_params d"
    using decoder_apply_inv [OF Cons.prems(1), of op] a cfg Cons.prems(2,3) sent_block_cong [of d1 d]
    by (simp_all add: same_config_def)
  note IH = Cons.IH [OF d1(1-3)]
  have rest: "timely T x \<and> (about key x \<longrightarrow> (\<exists>t i. i < length (eb_Shards blk) \<and> x = OpAdd t (shard_of blk sid i)))"
    if "x \<in> set ops" for x using Cons.prems(8) that by simp
  show ?case
  proof (cases "about key op")
    case False
    then have o: "holds d1 key b T" using other_step [OF Cons.prems(1,2) op False Cons.prems(4) a] by blast
    have "own_indices key (op # ops) = own_indices key ops"
      using False by (auto simp: own_indices_Cons about_def split: decoder_op.splits)
    then show ?thesis
      using IH [OF o Cons.prems(5-7) rest] Cons.prems(9) d1(4) run by simp
  next
    case True
    then obtain t i where i: "i < length (eb_Shards blk)" "op = OpAdd t (shard_of blk sid i)" using Cons.prems(8) [of op] by auto
    have t: "t < T" using op i(2) by (simp add: timely_def)
    from own_step [OF Cons.prems(1-4) key Cons.prems(5-7) i(1) t a [unfolded i(2)]]
    show ?thesis
    proof
      assume "out = [(key, payload)]"
      then show ?thesis using run by simp
    next
      assume "\<exists>b'. holds d1 key b' T \<and> pb_shards b' = held_shards (eb_Shards blk) (insert i H) \<and> pb_originalLength b' = int (length payload)"
      then obtain b' where b': "holds d1 key b' T" "pb_shards b' = held_shards (eb_Shards blk) (insert i H)"
        "pb_originalLength b' = int (length payload)" by blast
      have "own_indices key (op # ops) = insert i (own_indices key ops)" using i(2) key by (simp add: own_indices_Cons)
      then have "DataShards (dc_params d1) \<le> int (card (insert i H \<union> own_indices key ops))"
        using Cons.prems(9) d1(4) by simp
      then show ?thesis using IH [OF b'(1) _ b'(2,3) rest] Cons.prems(5) i(1) run by simp
    qed
  qed
qed

lemma Encode_sent:
  assumes new: "newEncoderAt rs_New p b i False = Inr e" and enc: "Encode payload e = (Inr blk, e')"
    and laws: "reed_solomon_laws (nat (DataShards p)) (nat (ParityShards p)) (en_codec e)"
    and d: "dc_params d = p" "dc_limits d = en_limits e" "dc_codec d = en_codec e" "dc_total d = DataShards p + ParityShards p"
  shows "sent_block blk payload d"
proof -
  note e = newEncoderAt_Inr [OF new]
  have ok: "encoder_ok e" using e laws by (auto simp: encoder_ok_def)
  have len: "int (length payload) \<le> EffectiveDatagramLimit (en_limits e)"
  proof (rule ccontr)
    assume "\<not> ?thesis"
    then show False using enc by (simp add: Encode_def)
  qed
  from Encode_ok_cases [OF ok len] e obtain shards where sh:
    "Encode payload e = (Inr \<lparr>eb_PacketID = en_next e, eb_OriginalLength = int (length payload), eb_Params = en_params e,
        eb_Shards = shards\<rparr>, if en_next e = - 1 then e\<lparr>en_exhausted := True\<rparr> else e\<lparr>en_next := en_next e + 1\<rparr>)"
    "length shards = nat (en_total e)"
    "\<forall>x \<in> set shards. int (length x) = shardSizeForDatagram (int (length payload)) (DataShards (en_params e))"
    "shardSizeForDatagram (int (length payload)) (DataShards (en_params e)) \<le> ShardCapacity (en_limits e)"
    "take (length payload) (concat (take (nat (DataShards (en_params e))) shards)) = payload"
    "rs_Encode (en_codec e) shards = Some shards"
    by blast
  have "blk = \<lparr>eb_PacketID = en_next e, eb_OriginalLength = int (length payload), eb_Params = en_params e, eb_Shards = shards\<rparr>"
    using sh(1) enc by simp
  then show ?thesis using sh(2-) e d laws len unfolding sent_block_def by simp
qed

lemma filter_unique:
  assumes "distinct (map fst xs)" "(k, y) \<in> set xs"
  shows "filter (\<lambda>(k', _). k' = k) xs = [(k, y)]"
  using assms
proof (induction xs)
  case (Cons x xs)
  show ?case
  proof (cases "x = (k, y)")
    case True
    then have "filter (\<lambda>(k', _). k' = k) xs = []" using Cons.prems(1) by (force simp: filter_empty_conv)
    then show ?thesis using True by simp
  next
    case False
    then have "(k, y) \<in> set xs" using Cons.prems(2) by simp
    moreover from this have "k \<in> set (map fst xs)" by force
    then have "fst x \<noteq> k" using Cons.prems(1) by auto
    ultimately show ?thesis using Cons by (simp add: split_beta)
  qed
qed simp

subsection \<open>Properties\<close>

text \<open>C1: End-to-end delivery. An encoder and a decoder of the same parameters, limits and codec (with
  the codec's documented behaviour) are given. The decoder is in any reachable state, is open, has
  room for one more block and has not seen the key. Then the first shard of an encoded block opens it,
  and from there on any sequence of further operations that happen before the block's deadline (shards
  of this block in any order and with any duplicates, shards of other blocks, sweeps) that brings the
  distinct shards of this block to at least \<open>k\<close> delivers exactly the sent payload; under the replay
  window it is delivered exactly once.\<close>

theorem fec_delivers_datagram:
  assumes "newEncoderAt rs_New p bud nid False = Inr e" and "Encode payload e = (Inr blk, e')"
    and "reed_solomon_laws (nat (DataShards p)) (nat (ParityShards p)) (en_codec e)"
    and "reachable decoder_start decoder_step d"
    and "dc_params d = p" "dc_limits d = en_limits e" "dc_codec d = en_codec e"
    and "\<not> dc_closed d" and "fresh_key d \<lparr>bk_SessionID = sid, bk_PacketID = eb_PacketID blk\<rparr>"
    and "\<forall>w. dc_replay d = Some w \<longrightarrow> rw_sessionID w = sid"
    and "i0 < length (eb_Shards blk)"
    and "\<forall>op \<in> set ops. timely (t0 + dc_decodeTimeout d) op \<and>
          (about \<lparr>bk_SessionID = sid, bk_PacketID = eb_PacketID blk\<rparr> op \<longrightarrow>
             (\<exists>t i. i < length (eb_Shards blk) \<and> op = OpAdd t (shard_of blk sid i)))"
    and "DataShards p \<le> int (card (insert i0 (own_indices \<lparr>bk_SessionID = sid, bk_PacketID = eb_PacketID blk\<rparr> ops)))"
  shows "(\<lparr>bk_SessionID = sid, bk_PacketID = eb_PacketID blk\<rparr>, payload) \<in>
      set (fst (decoder_run (OpAdd t0 (shard_of blk sid i0) # ops) d)) \<and>
    (dc_replay d \<noteq> None \<longrightarrow>
      filter (\<lambda>(k, _). k = \<lparr>bk_SessionID = sid, bk_PacketID = eb_PacketID blk\<rparr>)
        (fst (decoder_run (OpAdd t0 (shard_of blk sid i0) # ops) d)) =
      [(\<lparr>bk_SessionID = sid, bk_PacketID = eb_PacketID blk\<rparr>, payload)])"
proof -
  let ?key = "\<lparr>bk_SessionID = sid, bk_PacketID = eb_PacketID blk\<rparr>" and ?T = "t0 + dc_decodeTimeout d"
  let ?op = "OpAdd t0 (shard_of blk sid i0)"
  have inv: "decoder_inv d" by (rule decoder_system.reachable_inv [OF assms(4)])
  have total: "dc_total d = DataShards p + ParityShards p" using config_okD(5) [OF decoder_preD(1) [OF inv]] assms(5) by simp
  have sent: "sent_block blk payload d" by (rule Encode_sent [OF assms(1-3,5-7) total])
  obtain out d1 where a: "decoder_apply ?op d = (out, d1)" by force
  have run: "fst (decoder_run (?op # ops) d) = out @ fst (decoder_run ops d1)" by (simp only: decoder_run.simps a prod.case split_beta fst_conv snd_conv)
  have cfg: "same_config d d1" using same_config_apply [OF inv, of ?op] a by simp
  have d1: "decoder_inv d1" "\<not> dc_closed d1" "sent_block blk payload d1" "dc_params d1 = p"
    using decoder_apply_inv [OF inv, of ?op] a cfg assms(5,8) sent sent_block_cong [of d1 d] by (simp_all add: same_config_def)
  have sid: "\<And>w. dc_replay d = Some w \<Longrightarrow> rw_sessionID w = sid" using assms(10) by blast
  from first_step [OF inv assms(8) sent assms(9) refl sid assms(11) a]
  have mem: "(?key, payload) \<in> set (fst (decoder_run (?op # ops) d))"
  proof
    assume "\<exists>b'. holds d1 ?key b' ?T \<and> pb_shards b' = held_shards (eb_Shards blk) {i0} \<and> pb_originalLength b' = int (length payload)"
    then obtain b' where b': "holds d1 ?key b' ?T" "pb_shards b' = held_shards (eb_Shards blk) {i0}"
      "pb_originalLength b' = int (length payload)" by blast
    have "(?key, payload) \<in> set (fst (decoder_run ops d1))"
      by (rule run_delivers [OF d1(1-3) b'(1) refl _ b'(2,3)]) (use assms(11-13) d1(4) in auto)
    then show ?thesis using run by simp
  next
    assume "out = [(?key, payload)]"
    then show ?thesis unfolding run by simp
  qed
  moreover have "filter (\<lambda>(k, _). k = ?key) (fst (decoder_run (?op # ops) d)) = [(?key, payload)]" if "dc_replay d \<noteq> None"
    using run_spent [OF inv _ surjective_pairing, of "?op # ops"] that mem by (intro filter_unique) auto
  ultimately show ?thesis by blast
qed

text \<open>A small receiver: the replay window of session 9, two pending blocks at most.\<close>

abbreviation (input) example_config :: DecoderConfig where
  "example_config \<equiv> \<lparr>cf_Params = example_params, cf_Budget = example_budget, cf_DecodeTimeout = 100, cf_CompletionTTL = 0,
     cf_MaxPendingBlocks = 2, cf_MaxCompletedBlocks = 0, cf_Statistics = None, cf_ReplayWindow = Some 9\<rparr>"

definition example_decoder :: Decoder where
  "example_decoder =
     \<lparr>dc_params = example_params, dc_limits = en_limits example_encoder, dc_codec = xor_codec 2, dc_total = 3,
      dc_decodeTimeout = 100, dc_completionTTL = 0, dc_maxPendingBlocks = 2, dc_maxCompletedBlocks = 0,
      dc_pending = [], dc_pendingExpiry = [], dc_completed = [], dc_completedExpiry = [],
      dc_pendingShards = 0, dc_pendingBytes = 0, dc_closed = False, dc_statistics = None,
      dc_replay = Some (newReplayWindow 9), dc_alloc = 0\<rparr>"

definition example_block :: EncodedBlock where
  "example_block =
     \<lparr>eb_PacketID = 0, eb_OriginalLength = 3, eb_Params = example_params, eb_Shards = [[1, 2], [3, 0], [2, 2]]\<rparr>"

lemma example_decoder_new: "NewDecoder xor_New example_config = Inr example_decoder"
proof -
  have "DeriveLimits example_params example_budget = Inr (en_limits example_encoder)" by code_simp
  then show ?thesis
    by (simp add: NewDecoder_def newCodec_def validateParams_def xor_New_def example_decoder_def)
qed

lemma example_decoder_reachable: "reachable decoder_start decoder_step example_decoder"
proof (rule reach_start)
  have "gauges_ok (cf_Statistics example_config) 0 0 0" by (simp add: gauges_ok_def)
  then show "decoder_start example_decoder" using example_decoder_new unfolding decoder_start_def by blast
qed

lemma example_block_encoded: "Encode [1, 2, 3] example_encoder = (Inr example_block, snd (Encode [1, 2, 3] example_encoder))"
proof -
  have "fst (Encode [1, 2, 3] example_encoder) = Inr example_block" by code_simp
  then show ?thesis by (metis prod.collapse)
qed

lemma example_codec_laws:
  "reed_solomon_laws (nat (DataShards example_params)) (nat (ParityShards example_params)) (en_codec example_encoder)"
  using example_encoder_ok by (simp add: encoder_ok_def example_encoder_def)

theorem fec_delivers_datagram_witness:
  "(\<lparr>bk_SessionID = 9, bk_PacketID = 0\<rparr>, [1, 2, 3]) \<in>
     set (fst (decoder_run [OpAdd 0 (shard_of example_block 9 0), OpSweep 3, OpAdd 5 (shard_of example_block 9 2)] example_decoder))"
proof -
  let ?ops = "[OpSweep 3, OpAdd 5 (shard_of example_block 9 2)]"
  have p: "eb_PacketID example_block = 0" "length (eb_Shards example_block) = 3" by (simp_all add: example_block_def)
  have "own_indices \<lparr>bk_SessionID = 9, bk_PacketID = 0\<rparr> ?ops = {2}"
    by (simp add: own_indices_Cons p) (simp add: own_indices_def)
  then have two: "DataShards example_params \<le> int (card (insert 0 (own_indices \<lparr>bk_SessionID = 9, bk_PacketID = eb_PacketID example_block\<rparr> ?ops)))"
    by (simp add: p)
  have fresh: "fresh_key example_decoder \<lparr>bk_SessionID = 9, bk_PacketID = eb_PacketID example_block\<rparr>"
    by (simp add: fresh_key_def example_decoder_def newReplayWindow_def tooOld_def contains_def)
  have d: "dc_params example_decoder = example_params" "dc_limits example_decoder = en_limits example_encoder"
    "dc_codec example_decoder = en_codec example_encoder" "\<not> dc_closed example_decoder" "dc_decodeTimeout example_decoder = 100"
    "\<forall>w. dc_replay example_decoder = Some w \<longrightarrow> rw_sessionID w = 9"
    by (simp_all add: example_decoder_def example_encoder_def newReplayWindow_def)
  have ops: "\<forall>op \<in> set ?ops. timely (0 + dc_decodeTimeout example_decoder) op \<and>
      (about \<lparr>bk_SessionID = 9, bk_PacketID = eb_PacketID example_block\<rparr> op \<longrightarrow>
        (\<exists>t i. i < length (eb_Shards example_block) \<and> op = OpAdd t (shard_of example_block 9 i)))"
    by (auto simp: d(5) p timely_def about_def intro!: exI [of _ 2])
  have "0 < length (eb_Shards example_block)" by (simp add: p)
  from fec_delivers_datagram [OF example_encoder_new example_block_encoded example_codec_laws example_decoder_reachable
      d(1-4) fresh d(6) this ops two]
  show ?thesis unfolding p by blast
qed

text \<open>C2: At most once. On a decoder created with a replay window, whatever sequence of shards (of any
  content), sweeps and a close is applied, no block key is delivered twice.\<close>

theorem delivered_at_most_once:
  assumes "NewDecoder rs_New config = Inr d" "cf_ReplayWindow config \<noteq> None" "gauges_ok (cf_Statistics config) 0 0 0"
    and "decoder_run ops d = (out, d')"
  shows "distinct (map fst out)"
proof -
  have "dc_replay d \<noteq> None" using NewDecoder_Inr [OF assms(1)] assms(2) by simp
  then show ?thesis using run_spent [OF NewDecoder_inv [OF assms(1,3)] _ assms(4)] by simp
qed

theorem delivered_at_most_once_witness:
  "distinct (map fst (fst (decoder_run (concat (replicate 3 (map (\<lambda>i. OpAdd 0 (shard_of example_block 9 i)) [0, 1, 2]))) example_decoder)))"
  by (rule delivered_at_most_once [OF example_decoder_new _ _ surjective_pairing]) (simp_all add: gauges_ok_def)

text \<open>C33: Bounded, exact accounts. In every reachable state of the decoder the number of pending
  blocks is within its limit, the retained shard and byte counts that \<open>Stats\<close> reports are the sums over
  the pending blocks, no block holds \<open>k\<close> or more shards, retained bytes are bounded by \<open>blocks * (k - 1) *
  capacity\<close>, the gauges of the collector agree with \<open>Stats\<close>, and the completion memory is bounded.\<close>

theorem decoder_accounts_exact:
  assumes "reachable decoder_start decoder_step d"
  shows "sn_PendingBlocks (Decoder_Stats d) \<le> dc_maxPendingBlocks d \<and>
    sn_PendingShards (Decoder_Stats d) = tally (\<lambda>b. int (present_count (pb_shards b))) (dc_pending d) \<and>
    sn_PendingBytes (Decoder_Stats d) = tally (\<lambda>b. int (present_count (pb_shards b)) * pb_shardSize b) (dc_pending d) \<and>
    sn_PendingShards (Decoder_Stats d) \<le> sn_PendingBlocks (Decoder_Stats d) * (DataShards (dc_params d) - 1) \<and>
    sn_PendingBytes (Decoder_Stats d) \<le> sn_PendingBlocks (Decoder_Stats d) * ((DataShards (dc_params d) - 1) * ShardCapacity (dc_limits d)) \<and>
    (\<forall>st. dc_statistics d = Some st \<longrightarrow>
       st_PendingBlocks st = sn_PendingBlocks (Decoder_Stats d) \<and> st_PendingShards st = sn_PendingShards (Decoder_Stats d) \<and>
       st_PendingBytes st = sn_PendingBytes (Decoder_Stats d)) \<and>
    (dc_replay d = None \<and> \<not> dc_closed d \<longrightarrow> sn_CompletedBlocks (Decoder_Stats d) \<le> dc_maxCompletedBlocks d) \<and>
    (dc_replay d \<noteq> None \<longrightarrow> 0 \<le> sn_CompletedBlocks (Decoder_Stats d) \<and> sn_CompletedBlocks (Decoder_Stats d) \<le> 65536)"
proof -
  have inv: "decoder_inv d" by (rule decoder_system.reachable_inv [OF assms])
  note p = pending_okD [OF decoder_preD(2) [OF inv]] and k = config_okD [OF decoder_preD(1) [OF inv]]
  let ?n = "DataShards (dc_params d) - 1" and ?c = "ShardCapacity (dc_limits d)"
  have each: "block_ok d b" "pb_present b \<le> ?n" if "(key, b) \<in> set (dc_pending d)" for key b
    using inv that unfolding decoder_pre_def by force+
  have size: "pb_bytes b \<le> ?n * ?c" if "(key, b) \<in> set (dc_pending d)" for key b
  proof -
    have b: "pb_bytes b = pb_present b * pb_shardSize b" "0 \<le> pb_present b" "0 \<le> pb_originalLength b"
      "pb_originalLength b \<le> DataShards (dc_params d) * ?c"
      "pb_shardSize b = shardSizeForDatagram (pb_originalLength b) (DataShards (dc_params d))"
      using each(1) [OF that] k(4) by (auto simp: block_ok_def)
    then have "0 \<le> pb_shardSize b" "pb_shardSize b \<le> ?c" using shardSize_bounds [OF k(1) b(3), of ?c] k(3) by auto
    then show ?thesis using b(1,2) each(2) [OF that] k(1) by (simp add: mult_mono)
  qed
  have "tally pb_present (dc_pending d) = tally (\<lambda>b. int (present_count (pb_shards b))) (dc_pending d)"
    "tally pb_bytes (dc_pending d) = tally (\<lambda>b. int (present_count (pb_shards b)) * pb_shardSize b) (dc_pending d)"
    using each(1) unfolding tally_def by (auto simp: block_ok_def intro!: arg_cong [where f = sum_list] map_cong)
  moreover have "tally pb_present (dc_pending d) \<le> int (length (dc_pending d)) * ?n"
    "tally pb_bytes (dc_pending d) \<le> int (length (dc_pending d)) * (?n * ?c)"
    using each(2) size by (intro tally_le_length; blast)+
  moreover have "rw_count w \<le> 65536 \<and> 0 \<le> rw_count w" if "dc_replay d = Some w" for w
  proof -
    have w: "replay_inv w" using decoder_preD(4) [OF inv] that by (simp add: replay_ok_def)
    then have "card (bits (rw_completed w)) \<le> card {..<64 * length (rw_completed w)}"
      by (intro card_mono bits_subset) simp
    then show ?thesis using w by (simp add: replay_inv_def)
  qed
  ultimately show ?thesis
    using p(2-4) decoder_preD(4,7) [OF inv]
    by (auto simp: Decoder_Stats_def gauges_ok_def replay_ok_def split: option.splits)
qed

theorem decoder_accounts_exact_witness:
  "let d = snd (decoder_run [OpAdd 0 (shard_of example_block 9 0)] example_decoder)
   in sn_PendingShards (Decoder_Stats d) \<le> sn_PendingBlocks (Decoder_Stats d) * (DataShards (dc_params d) - 1)"
  using decoder_accounts_exact [OF decoder_run_reachable [OF example_decoder_reachable]] unfolding Let_def by blast

definition deadline_of :: "expiryHeap \<Rightarrow> nat \<Rightarrow> int" where
  "deadline_of h r = (case find (\<lambda>e. ee_ref e = r) h of None \<Rightarrow> 0 | Some e \<Rightarrow> ee_deadline e)"

lemma due_deadline:
  assumes t: "tracked ref m h a" and k: "(k, b) \<in> set m"
  shows "due now h k \<longleftrightarrow> deadline_of h (ref b) \<le> now"
proof -
  have m: "map_of m k = Some b" using t k by (simp add: tracked_def map_of_mem)
  obtain u where u: "(ref b, k, u) \<in> entries h" using tracked_entry [OF t m] by blast
  obtain e where e: "find (\<lambda>e. ee_ref e = ref b) h = Some e"
    using u by (cases "find (\<lambda>e. ee_ref e = ref b) h") (auto simp: find_None_iff entries_def entry_tag_def)
  then have "e \<in> set h" "ee_ref e = ref b" by (auto simp: find_Some_iff)
  then have "(ref b, ee_key e, ee_deadline e) \<in> entries h" by (force simp: entries_def entry_tag_def)
  then have "ee_deadline e = u" using entries_ref_unique u t by (metis tracked_def)
  moreover have "due now h k \<longleftrightarrow> u \<le> now"
    unfolding due_def using u tracked_key_unique [OF t u] by metis
  ultimately show ?thesis using e by (simp add: deadline_of_def)
qed

text \<open>C34: Expiry is exact. On any reachable open decoder, \<open>Sweep\<close> removes precisely the pending blocks
  and the cached completions whose deadline has been reached, keeps every other one unchanged, reports
  both numbers, and leaves the replay window alone.\<close>

theorem sweep_removes_exactly_due:
  assumes "reachable decoder_start decoder_step d" "\<not> dc_closed d" "Sweep now d = (x, d')"
  shows "dc_pending d' = filter (\<lambda>(k, b). now < deadline_of (dc_pendingExpiry d) (pb_expiry b)) (dc_pending d) \<and>
    dc_completed d' = filter (\<lambda>(k, r). now < deadline_of (dc_completedExpiry d) r) (dc_completed d) \<and>
    ex_PendingBlocks x = int (length (dc_pending d)) - int (length (dc_pending d')) \<and>
    ex_CompletedBlocks x = int (length (dc_completed d)) - int (length (dc_completed d')) \<and>
    dc_replay d' = dc_replay d"
proof -
  have inv: "decoder_inv d" by (rule decoder_system.reachable_inv [OF assms(1)])
  have "sweepLocked now d = (x, d')" using assms(2,3) by (simp add: Sweep_def)
  note sp = sweepLocked_spec [OF inv this]
  note tp = pending_okD(1) [OF decoder_preD(2) [OF inv]] and tc = decoder_preD(3) [OF inv]
  have "filter (\<lambda>(k, b). \<not> due now (dc_pendingExpiry d) k) (dc_pending d) =
      filter (\<lambda>(k, b). now < deadline_of (dc_pendingExpiry d) (pb_expiry b)) (dc_pending d)"
    using due_deadline [OF tp] by (intro filter_cong) (auto simp: not_le)
  moreover have "filter (\<lambda>(k, r). \<not> due now (dc_completedExpiry d) k) (dc_completed d) =
      filter (\<lambda>(k, r). now < deadline_of (dc_completedExpiry d) r) (dc_completed d)"
    using due_deadline [OF tc] by (intro filter_cong) (auto simp: not_le)
  ultimately show ?thesis using sp by simp
qed

theorem sweep_removes_exactly_due_witness:
  "let d = snd (decoder_run [OpAdd 0 (shard_of example_block 9 0)] example_decoder)
   in dc_pending (snd (Sweep 50 d)) =
      filter (\<lambda>(k, b). 50 < deadline_of (dc_pendingExpiry d) (pb_expiry b)) (dc_pending d)"
proof -
  let ?d = "snd (decoder_run [OpAdd 0 (shard_of example_block 9 0)] example_decoder)"
  have "same_config example_decoder (snd (decoder_apply (OpAdd 0 (shard_of example_block 9 0)) example_decoder))"
    by (rule same_config_apply [OF decoder_system.reachable_inv [OF example_decoder_reachable]]) simp
  then have "\<not> dc_closed ?d"
    by (simp add: same_config_def example_decoder_def split_beta del: decoder_apply.simps)
  from sweep_removes_exactly_due [OF decoder_run_reachable [OF example_decoder_reachable] this surjective_pairing]
  show ?thesis unfolding Let_def by blast
qed

lemma validateShard_error: "validateShard input d = Inl err \<Longrightarrow> err = ErrInvalidShard"
  by (auto simp: validateShard_def Let_def split: option.splits if_splits)

lemma openBlock_error:
  "openBlock now input s d = Inl (Inl err, d') \<Longrightarrow> err = ErrInconsistentBlock \<or> err = ErrDecoderFull"
  by (auto simp: openBlock_def Let_def split: option.splits if_splits)

lemma delete_updated: "AList.delete k (AList.update k v m) = AList.delete k m"
  by (induction m) auto

lemma place_error:
  assumes r: "placeShard now input b d = (Inl err, d')"
  shows "err = ErrConflictingShard \<and> d' = d \<and> (\<exists>x. pb_shards b ! nat (is_Index input) = Some x) \<or>
    err = ErrDecode \<and> pb_shards b ! nat (is_Index input) = None \<and>
      d' = removePendingLocked (is_Key input) (stored_block input b) (stored input b d)"
proof (cases "pb_shards b ! nat (is_Index input)")
  case None
  let ?d = "stored input b d" and ?b = "stored_block input b"
  have fin: "finishBlock now input ?b ?d = (Inl err, d')"
    using r None by (simp add: placeShard_def split: if_splits)
  then show ?thesis using None by (cases rule: finishBlock_cases [of now input ?b ?d]) auto
next
  case (Some x)
  then show ?thesis using r by (auto simp: placeShard_def split: if_splits)
qed

text \<open>The deadline of a block is the only one with its key.\<close>

lemma tracked_without:
  assumes "tracked ref m h a" "(r, k, t) \<in> entries h"
  shows "entries h - {(r, k, t)} = {(r', k', t') \<in> entries h. k' \<noteq> k}"
proof -
  have "k' = k \<longleftrightarrow> (r', k', t') = (r, k, t)" if "(r', k', t') \<in> entries h" for r' k' t'
    using tracked_key_unique [OF assms] that by blast
  then show ?thesis by blast
qed

text \<open>Storing the last shard and dropping the block again.\<close>

lemma stored_removed:
  assumes inv: "decoder_inv d" and b: "map_of (dc_pending d) (is_Key input) = Some b"
    and d': "d' = removePendingLocked (is_Key input) (stored_block input b) (stored input b d)"
  shows "d' = d\<lparr>dc_pending := AList.delete (is_Key input) (dc_pending d), dc_pendingShards := dc_pendingShards d - pb_present b,
      dc_pendingBytes := dc_pendingBytes d - pb_bytes b, dc_pendingExpiry := dc_pendingExpiry d', dc_statistics := dc_statistics d'\<rparr>"
    "queue_ok (dc_pendingExpiry d')" "entries (dc_pendingExpiry d') = {(r, k, t) \<in> entries (dc_pendingExpiry d). k \<noteq> is_Key input}"
proof -
  let ?key = "is_Key input" and ?b = "stored_block input b"
  have ok: "pending_ok (stored input b d)" by (rule stored_pending_ok [OF decoder_preD(2) [OF inv] b])
  have b': "map_of (dc_pending (stored input b d)) ?key = Some ?b" by (simp add: stored_fields map_of_update)
  obtain g t where g: "d' = drop_block ?key ?b g (stored input b d)" "tracked pb_expiry (AList.delete ?key (dc_pending (stored input b d))) g (dc_alloc (stored input b d))"
    "(pb_expiry ?b, ?key, t) \<in> entries (dc_pendingExpiry (stored input b d))"
    "entries g = entries (dc_pendingExpiry (stored input b d)) - {(pb_expiry ?b, ?key, t)}"
    using removePendingLocked_drop [OF ok b'] unfolding d' by metis
  have e: "pb_expiry ?b = pb_expiry b" by (simp add: stored_block_def)
  show "queue_ok (dc_pendingExpiry d')" using g(2) by (simp add: g(1) tracked_def)
  show "entries (dc_pendingExpiry d') = {(r, k, t) \<in> entries (dc_pendingExpiry d). k \<noteq> ?key}"
    using g(3,4) tracked_without [OF pending_okD(1) [OF decoder_preD(2) [OF inv]]] by (simp add: g(1) e stored_fields)
  show "d' = d\<lparr>dc_pending := AList.delete ?key (dc_pending d), dc_pendingShards := dc_pendingShards d - pb_present b,
      dc_pendingBytes := dc_pendingBytes d - pb_bytes b, dc_pendingExpiry := dc_pendingExpiry d', dc_statistics := dc_statistics d'\<rparr>"
    unfolding g(1) by (simp add: drop_block_def stored_def stored_block_def pending_gauge_def delete_updated)
qed

text \<open>What a codec failure leaves of a decoder: the block of the key and its deadline are gone and its shards and bytes
  are taken off the counters. A block that the failing shard itself has opened leaves a mark of its identifier in the
  replay window, as every new block does. Nothing else changes, up to the statistics: in particular no key is remembered
  as completed.\<close>

definition failed_block :: "BlockKey \<Rightarrow> Decoder \<Rightarrow> Decoder \<Rightarrow> bool" where
  "failed_block key d d' \<longleftrightarrow>
     (let old = map_of (dc_pending d) key
      in d' = d\<lparr>dc_pending := AList.delete key (dc_pending d),
             dc_pendingShards := dc_pendingShards d - (case old of None \<Rightarrow> 0 | Some b \<Rightarrow> pb_present b),
             dc_pendingBytes := dc_pendingBytes d - (case old of None \<Rightarrow> 0 | Some b \<Rightarrow> pb_bytes b),
             dc_replay := (if old = None then map_option (\<lambda>w. admit w (bk_PacketID key)) (dc_replay d) else dc_replay d),
             dc_alloc := (if old = None then dc_alloc d + 1 else dc_alloc d),
             dc_pendingExpiry := dc_pendingExpiry d', dc_statistics := dc_statistics d'\<rparr>) \<and>
     queue_ok (dc_pendingExpiry d') \<and> entries (dc_pendingExpiry d') = {(r, k, t) \<in> entries (dc_pendingExpiry d). k \<noteq> key}"

lemma failed_known:
  assumes inv: "decoder_inv d" and b: "map_of (dc_pending d) (is_Key input) = Some b"
    and d': "d' = removePendingLocked (is_Key input) (stored_block input b) (stored input b d)"
  shows "failed_block (is_Key input) d d'"
proof -
  note R = stored_removed [OF inv b d']
  show ?thesis unfolding failed_block_def Let_def b
    using R(2,3) by (intro conjI) (subst R(1), simp_all)
qed

lemma failed_opened:
  assumes inv: "decoder_inv d" and fresh: "fresh_key d (is_Key input)" and inv2: "decoder_inv (opened now input s d)"
    and d': "d' = removePendingLocked (is_Key input) (stored_block input (new_block input s d)) (stored input (new_block input s d) (opened now input s d))"
  shows "failed_block (is_Key input) d d'"
proof -
  let ?key = "is_Key input" and ?o = "opened now input s d"
  have n: "map_of (dc_pending d) ?key = None" using fresh by (simp add: fresh_key_def)
  have b: "map_of (dc_pending ?o) ?key = Some (new_block input s d)" by (simp add: opened_fields map_of_update)
  note R = stored_removed [OF inv2 b d'] and tr = pending_okD(1) [OF decoder_preD(2) [OF inv]]
  have "queue_ok (dc_pendingExpiry d)" "dc_alloc d \<notin> set (refs (dc_pendingExpiry d))" using tr by (auto simp: tracked_def)
  then have "entries (dc_pendingExpiry ?o) = insert (dc_alloc d, ?key, now + dc_decodeTimeout d) (entries (dc_pendingExpiry d))"
    using push_queue by (simp add: opened_fields entry_tag_def)
  then have en: "entries (dc_pendingExpiry d') = {(r, k, t) \<in> entries (dc_pendingExpiry d). k \<noteq> ?key}" using R(3) by auto
  have eq: "d' = d\<lparr>dc_pending := AList.delete ?key (dc_pending d), dc_pendingShards := dc_pendingShards d, dc_pendingBytes := dc_pendingBytes d,
      dc_replay := map_option (\<lambda>w. admit w (bk_PacketID ?key)) (dc_replay d), dc_alloc := dc_alloc d + 1,
      dc_pendingExpiry := dc_pendingExpiry d', dc_statistics := dc_statistics d'\<rparr>"
    by (subst R(1)) (cases d, simp add: opened_def new_block_def pending_gauge_def Let_def delete_updated)
  show ?thesis unfolding failed_block_def Let_def n
    using R(2) en by (intro conjI) (subst eq, simp_all)
qed

text \<open>C35: What a refused shard does. An error of \<open>AddVerifiedShard\<close> on a reachable decoder is one of:
  closed or invalid, with no effect at all; inconsistent metadata, a conflicting payload or a full
  table, with no effect beyond the opportunistic sweep and the statistics; or a codec failure, which after the sweep
  drops exactly the block of that key with its deadline, its shards and its bytes and keeps every other block, deadline
  and counter: no completion is remembered, and the replay window is the same, except that an identifier
  whose block this very shard opened is admitted to it as for every new block.\<close>

theorem add_error_effects:
  assumes "reachable decoder_start decoder_step d" "AddVerifiedShard now input d = (Inl err, d')"
  shows "err = ErrClosed \<and> dc_closed d \<and> d' = d \<or>
    err = ErrInvalidShard \<and> validateShard input d = Inl ErrInvalidShard \<and> d' = d \<or>
    err \<in> {ErrInconsistentBlock, ErrConflictingShard, ErrDecoderFull} \<and>
      (\<exists>c. d' = snd (sweepLocked now d)\<lparr>dc_statistics := c\<rparr>) \<or>
    err = ErrDecode \<and> failed_block (is_Key input) (snd (sweepLocked now d)) d'"
proof -
  have inv: "decoder_inv d" by (rule decoder_system.reachable_inv [OF assms(1)])
  let ?sw = "snd (sweepLocked now d)"
  have isw: "decoder_inv ?sw" using sweepLocked_spec [OF inv] by (metis surjective_pairing)
  from inv show ?thesis
  proof (cases rule: AddVerifiedShard_cases [where now = now and input = input])
    case (refused e)
    then show ?thesis using assms(2) validateShard_error by auto
  next
    case (answered s r d1)
    then have "r = Inl err" "d' = d1" using assms(2) by simp_all
    then show ?thesis using answered(3,8) openBlock_error by blast
  next
    case (placed s b d2)
    note P = place_error [OF assms(2) [unfolded placed(3)]]
    from placed(10) show ?thesis
    proof
      assume d2: "d2 = ?sw"
      have same: "\<exists>c. ?sw = ?sw\<lparr>dc_statistics := c\<rparr>" by (rule exI [of _ "dc_statistics ?sw"]) simp
      from P show ?thesis unfolding d2
        using same failed_known [OF placed(4,6), unfolded d2] by (elim disjE) simp_all
    next
      assume o: "fresh_key ?sw (is_Key input) \<and> d2 = opened now input s ?sw \<and> b = new_block input s ?sw"
      have "nat (is_Index input) < nat (dc_total ?sw)"
        using placed(7) o by (auto simp: validateShard_Inr opened_fields nat_less_iff)
      then have "pb_shards b ! nat (is_Index input) = None" using o by (simp add: new_block_def)
      then show ?thesis using P o failed_opened [OF isw, of input now s d'] placed(4) by simp
    qed
  qed
qed

theorem add_error_effects_witness:
  "let bad = (shard_of example_block 9 0)\<lparr>is_Index := 3\<rparr>
   in AddVerifiedShard 0 bad example_decoder = (Inl ErrInvalidShard, example_decoder)"
proof -
  let ?bad = "(shard_of example_block 9 0)\<lparr>is_Index := 3\<rparr>"
  have live: "\<not> dc_closed example_decoder" by (simp add: example_decoder_def)
  have v: "validateShard ?bad example_decoder = Inl ErrInvalidShard"
    by (simp add: validateShard_def example_decoder_def example_block_def newReplayWindow_def)
  then obtain d' where r: "AddVerifiedShard 0 ?bad example_decoder = (Inl ErrInvalidShard, d')"
    using live by (simp add: AddVerifiedShard_def)
  then have "d' = example_decoder"
    using add_error_effects [OF example_decoder_reachable r] by simp
  then show ?thesis using r by (simp add: Let_def)
qed

end
