(* ===== verification/CreditLedger.thy ===== *)
theory CreditLedger
  imports Prelude
begin

text \<open>
  The v2 credit ledger (\<^verbatim>\<open>src/internal/creditv2/ledger.go\<close>): hierarchical admission of bytes, streams,
  pending accepts, reservations and session slots for one \<^verbatim>\<open>Peer\<close>. The Go code shares
  \<^verbatim>\<open>sessionState\<close> and \<^verbatim>\<open>leaseState\<close> objects between handles; here the ledger is an explicit store
  and a pointer is an index into the list of all sessions, or of all leases, allocated so far. A
  handle is \<open>None\<close> when the Go pointer is nil and otherwise names the peer and the index. The peer's
  mutex makes every operation atomic. Byte counts are 64-bit words as in the source; the invariant
  shows that none of the additions and subtractions wraps.
\<close>

subsection \<open>Types\<close>

abbreviation (input) MaxRetainedBytes :: nat where "MaxRetainedBytes \<equiv> 1073741824"
abbreviation (input) MaxReservationsBound :: int where "MaxReservationsBound \<equiv> 1048576"

datatype credit_error = ErrInvalid | ErrResourceLimit | ErrClosed | ErrReleased

record Limits =
  MaxPeerBytes :: u64
  MaxSessionBytes :: u64
  MaxSessions :: int
  MaxPendingHandshakes :: int
  MaxPendingAccepts :: int
  MaxStreamsPerSession :: int
  MaxPeerStreams :: int
  MaxReservations :: int

record Claim =
  cl_Bytes :: u64
  cl_BusinessStream :: bool
  cl_PendingAccept :: bool

record Usage =
  us_Bytes :: u64
  us_Reservations :: int
  us_BusinessStreams :: int
  us_PendingAccepts :: int

record PeerSnapshot =
  ps_Usage :: Usage
  ps_SessionSlots :: int
  ps_PendingHandshakes :: int
  ps_EstablishedSessions :: int
  ps_Closed :: bool

record SessionSnapshot =
  sn_Usage :: Usage
  sn_PendingHandshake :: bool
  sn_Closed :: bool
  sn_Retired :: bool

record LeaseSnapshot =
  ln_Claim :: Claim
  ln_Released :: bool

record sessionState =
  ss_usage :: Usage
  ss_pendingHandshake :: bool
  ss_closed :: bool
  ss_retired :: bool

record leaseState =
  ls_owner :: "nat option"
  ls_claim :: Claim
  ls_acceptReserved :: bool
  ls_bound :: bool
  ls_released :: bool

text \<open>\<open>peerState\<close> with the objects it owns; \<open>lg_live\<close> holds the keys of its \<open>sessions\<close> map.\<close>

record Ledger =
  lg_peer :: nat
  lg_limits :: Limits
  lg_usage :: PeerSnapshot
  lg_live :: "nat list"
  lg_sessions :: "sessionState list"
  lg_leases :: "leaseState list"

type_synonym handle = "(nat \<times> nat) option"

definition zeroUsage :: Usage where
  "zeroUsage = \<lparr>us_Bytes = 0, us_Reservations = 0, us_BusinessStreams = 0, us_PendingAccepts = 0\<rparr>"

definition zeroClaim :: Claim where
  "zeroClaim = \<lparr>cl_Bytes = 0, cl_BusinessStream = False, cl_PendingAccept = False\<rparr>"

subsection \<open>Construction and checks\<close>

definition Peer_New :: "nat \<Rightarrow> Limits \<Rightarrow> (credit_error, Ledger) result" where
  "Peer_New peer limits =
     (if MaxPeerBytes limits = 0 \<or> unat (MaxPeerBytes limits) > MaxRetainedBytes \<or> MaxSessionBytes limits = 0 \<or>
         MaxSessionBytes limits > MaxPeerBytes limits then Inl ErrInvalid
      else if MaxSessions limits < 1 \<or> MaxSessions limits > 65536 \<or> MaxPendingHandshakes limits < 1 \<or>
         MaxPendingHandshakes limits > 4096 \<or> MaxPendingAccepts limits < 1 \<or> MaxPendingAccepts limits > 65536
        then Inl ErrInvalid
      else if MaxStreamsPerSession limits < 1 \<or> MaxStreamsPerSession limits > 4096 \<or> MaxPeerStreams limits < 1 \<or>
         MaxPeerStreams limits > 65536 \<or> MaxReservations limits < 1 \<or> MaxReservations limits > MaxReservationsBound
        then Inl ErrInvalid
      else Inr \<lparr>lg_peer = peer, lg_limits = limits,
                lg_usage = \<lparr>ps_Usage = zeroUsage, ps_SessionSlots = 0, ps_PendingHandshakes = 0,
                            ps_EstablishedSessions = 0, ps_Closed = False\<rparr>,
                lg_live = [], lg_sessions = [], lg_leases = []\<rparr>)"

definition claim_empty :: "Claim \<Rightarrow> bool" where
  "claim_empty claim \<longleftrightarrow> cl_Bytes claim = 0 \<and> \<not> cl_BusinessStream claim \<and> \<not> cl_PendingAccept claim"

definition checkSessionClaimLocked :: "Limits \<Rightarrow> Usage \<Rightarrow> Claim \<Rightarrow> credit_error option" where
  "checkSessionClaimLocked limits u claim =
     (if cl_Bytes claim > MaxSessionBytes limits - us_Bytes u \<or>
         (cl_BusinessStream claim \<and> us_BusinessStreams u = MaxStreamsPerSession limits)
      then Some ErrResourceLimit else None)"

definition checkClaimLocked :: "Ledger \<Rightarrow> Usage \<Rightarrow> Claim \<Rightarrow> credit_error option" where
  "checkClaimLocked p u claim =
     (case checkSessionClaimLocked (lg_limits p) u claim of
        Some err \<Rightarrow> Some err
      | None \<Rightarrow>
          let pu = ps_Usage (lg_usage p); limits = lg_limits p
          in if cl_Bytes claim > MaxPeerBytes limits - us_Bytes pu \<or>
                us_Reservations pu = MaxReservations limits \<or>
                (cl_BusinessStream claim \<and> us_BusinessStreams pu = MaxPeerStreams limits) \<or>
                (cl_PendingAccept claim \<and> us_PendingAccepts pu = MaxPendingAccepts limits)
             then Some ErrResourceLimit else None)"

definition addClaim :: "Claim \<Rightarrow> Usage \<Rightarrow> Usage" where
  "addClaim claim u =
     u\<lparr>us_Bytes := us_Bytes u + cl_Bytes claim, us_Reservations := us_Reservations u + 1,
       us_BusinessStreams := us_BusinessStreams u + (if cl_BusinessStream claim then 1 else 0),
       us_PendingAccepts := us_PendingAccepts u + (if cl_PendingAccept claim then 1 else 0)\<rparr>"

definition subtractClaim :: "Claim \<Rightarrow> Usage \<Rightarrow> Usage" where
  "subtractClaim claim u =
     u\<lparr>us_Bytes := us_Bytes u - cl_Bytes claim, us_Reservations := us_Reservations u - 1,
       us_BusinessStreams := us_BusinessStreams u - (if cl_BusinessStream claim then 1 else 0),
       us_PendingAccepts := us_PendingAccepts u - (if cl_PendingAccept claim then 1 else 0)\<rparr>"

text \<open>Updates through a pointer.\<close>

definition on_session :: "nat \<Rightarrow> (sessionState \<Rightarrow> sessionState) \<Rightarrow> Ledger \<Rightarrow> Ledger" where
  "on_session s f p = p\<lparr>lg_sessions := (lg_sessions p)[s := f (lg_sessions p ! s)]\<rparr>"

definition on_lease :: "nat \<Rightarrow> (leaseState \<Rightarrow> leaseState) \<Rightarrow> Ledger \<Rightarrow> Ledger" where
  "on_lease l f p = p\<lparr>lg_leases := (lg_leases p)[l := f (lg_leases p ! l)]\<rparr>"

definition on_usage :: "(Usage \<Rightarrow> Usage) \<Rightarrow> Ledger \<Rightarrow> Ledger" where
  "on_usage f p = p\<lparr>lg_usage := (lg_usage p)\<lparr>ps_Usage := f (ps_Usage (lg_usage p))\<rparr>\<rparr>"

definition on_session_usage :: "nat \<Rightarrow> (Usage \<Rightarrow> Usage) \<Rightarrow> Ledger \<Rightarrow> Ledger" where
  "on_session_usage s f = on_session s (\<lambda>x. x\<lparr>ss_usage := f (ss_usage x)\<rparr>)"

definition chargeLocked :: "nat \<Rightarrow> Claim \<Rightarrow> Ledger \<Rightarrow> Ledger" where
  "chargeLocked s claim p = on_session_usage s (addClaim claim) (on_usage (addClaim claim) p)"

definition newLease :: "nat \<Rightarrow> Claim \<Rightarrow> leaseState" where
  "newLease s claim =
     \<lparr>ls_owner = Some s, ls_claim = claim, ls_acceptReserved = cl_PendingAccept claim, ls_bound = False, ls_released = False\<rparr>"

definition retireLocked :: "nat \<Rightarrow> Ledger \<Rightarrow> Ledger" where
  "retireLocked s p =
     (let x = lg_sessions p ! s
      in if \<not> ss_closed x \<or> ss_retired x \<or> us_Reservations (ss_usage x) \<noteq> 0 then p
         else
           let p = on_session s (\<lambda>x. x\<lparr>ss_retired := True\<rparr>) p;
               u = (lg_usage p)\<lparr>ps_SessionSlots := ps_SessionSlots (lg_usage p) - 1\<rparr>;
               u = (if ss_pendingHandshake x then u\<lparr>ps_PendingHandshakes := ps_PendingHandshakes u - 1\<rparr>
                    else u\<lparr>ps_EstablishedSessions := ps_EstablishedSessions u - 1\<rparr>)
           in p\<lparr>lg_usage := u, lg_live := filter (\<lambda>i. i \<noteq> s) (lg_live p)\<rparr>)"

subsection \<open>Admission\<close>

definition Peer_begin :: "Claim \<Rightarrow> bool \<Rightarrow> Ledger \<Rightarrow> (credit_error, handle \<times> handle) result \<times> Ledger" where
  "Peer_begin initial pending p =
     (let u = lg_usage p; limits = lg_limits p
      in if ps_Closed u then (Inl ErrClosed, p)
         else if ps_SessionSlots u = MaxSessions limits \<or> (pending \<and> ps_PendingHandshakes u = MaxPendingHandshakes limits)
           then (Inl ErrResourceLimit, p)
         else
           case (if claim_empty initial then None else checkClaimLocked p zeroUsage initial) of
             Some err \<Rightarrow> (Inl err, p)
           | None \<Rightarrow>
               let s = length (lg_sessions p);
                   l = length (lg_leases p);
                   p = p\<lparr>lg_sessions := lg_sessions p @
                           [\<lparr>ss_usage = zeroUsage, ss_pendingHandshake = pending, ss_closed = False, ss_retired = False\<rparr>]\<rparr>;
                   p = (if claim_empty initial then p
                        else chargeLocked s initial (p\<lparr>lg_leases := lg_leases p @ [newLease s initial]\<rparr>));
                   u = (lg_usage p)\<lparr>ps_SessionSlots := ps_SessionSlots (lg_usage p) + 1\<rparr>;
                   u = (if pending then u\<lparr>ps_PendingHandshakes := ps_PendingHandshakes u + 1\<rparr>
                        else u\<lparr>ps_EstablishedSessions := ps_EstablishedSessions u + 1\<rparr>)
               in (Inr (Some (lg_peer p, s), if claim_empty initial then None else Some (lg_peer p, l)),
                   p\<lparr>lg_usage := u, lg_live := s # lg_live p\<rparr>))"

definition BeginHandshake :: "Claim \<Rightarrow> Ledger \<Rightarrow> (credit_error, handle \<times> handle) result \<times> Ledger" where
  "BeginHandshake initial = Peer_begin initial True"

definition BeginSession :: "Claim \<Rightarrow> Ledger \<Rightarrow> (credit_error, handle \<times> handle) result \<times> Ledger" where
  "BeginSession initial = Peer_begin initial False"

definition Session_Promote :: "handle \<Rightarrow> Ledger \<Rightarrow> credit_error option \<times> Ledger" where
  "Session_Promote h p =
     (case h of
        None \<Rightarrow> (Some ErrInvalid, p)
      | Some (_, s) \<Rightarrow>
          if ss_closed (lg_sessions p ! s) \<or> ps_Closed (lg_usage p) then (Some ErrClosed, p)
          else if ss_pendingHandshake (lg_sessions p ! s) then
            let p = on_session s (\<lambda>x. x\<lparr>ss_pendingHandshake := False\<rparr>) p; u = lg_usage p
            in (None, p\<lparr>lg_usage := u\<lparr>ps_PendingHandshakes := ps_PendingHandshakes u - 1,
                                       ps_EstablishedSessions := ps_EstablishedSessions u + 1\<rparr>\<rparr>)
          else (None, p))"

definition Session_Reserve :: "handle \<Rightarrow> Claim \<Rightarrow> Ledger \<Rightarrow> (credit_error, handle) result \<times> Ledger" where
  "Session_Reserve h claim p =
     (case h of
        None \<Rightarrow> (Inl ErrInvalid, p)
      | Some (_, s) \<Rightarrow>
          if claim_empty claim then (Inl ErrInvalid, p)
          else if ss_closed (lg_sessions p ! s) \<or> ps_Closed (lg_usage p) then (Inl ErrClosed, p)
          else
            (case checkClaimLocked p (ss_usage (lg_sessions p ! s)) claim of
               Some err \<Rightarrow> (Inl err, p)
             | None \<Rightarrow>
                 (Inr (Some (lg_peer p, length (lg_leases p))),
                  chargeLocked s claim (p\<lparr>lg_leases := lg_leases p @ [newLease s claim]\<rparr>))))"

definition Session_BindBytes :: "handle \<Rightarrow> handle \<Rightarrow> u64 \<Rightarrow> Ledger \<Rightarrow> (credit_error, handle) result \<times> Ledger" where
  "Session_BindBytes h lease required p =
     (case (h, lease) of
        (Some (_, s), Some (q, l)) \<Rightarrow>
          if required = 0 \<or> unat required > MaxRetainedBytes then (Inl ErrInvalid, p)
          else if q \<noteq> lg_peer p then (Inl ErrInvalid, p)
          else if ss_closed (lg_sessions p ! s) \<or> ps_Closed (lg_usage p) then (Inl ErrClosed, p)
          else if ss_pendingHandshake (lg_sessions p ! s) then (Inl ErrInvalid, p)
          else
            let x = lg_leases p ! l
            in if ls_released x then (Inl ErrReleased, p)
               else if ls_owner x \<noteq> Some s \<or> ls_bound x \<or> cl_BusinessStream (ls_claim x) \<or>
                   cl_PendingAccept (ls_claim x) \<or> cl_Bytes (ls_claim x) < required then (Inl ErrInvalid, p)
               else (Inr (Some (lg_peer p, l)), on_lease l (\<lambda>x. x\<lparr>ls_bound := True\<rparr>) p)
      | _ \<Rightarrow> (Inl ErrInvalid, p))"

subsection \<open>Lease operations\<close>

definition Lease_Transfer :: "handle \<Rightarrow> handle \<Rightarrow> Ledger \<Rightarrow> credit_error option \<times> Ledger" where
  "Lease_Transfer lease dest p =
     (case (lease, dest) of
        (Some (_, l), Some (q, t)) \<Rightarrow>
          if q \<noteq> lg_peer p then (Some ErrInvalid, p)
          else
            let x = lg_leases p ! l
            in if ls_released x then (Some ErrReleased, p)
               else if ss_closed (lg_sessions p ! t) \<or> ps_Closed (lg_usage p) then (Some ErrClosed, p)
               else if ls_owner x = Some t then (None, p)
               else if ls_bound x then (Some ErrInvalid, p)
               else
                 (case checkSessionClaimLocked (lg_limits p) (ss_usage (lg_sessions p ! t)) (ls_claim x) of
                    Some err \<Rightarrow> (Some err, p)
                  | None \<Rightarrow>
                      let source = the (ls_owner x);
                          p = on_session_usage source (subtractClaim (ls_claim x)) p;
                          p = on_session_usage t (addClaim (ls_claim x)) p;
                          p = on_lease l (\<lambda>x. x\<lparr>ls_owner := Some t\<rparr>) p
                      in (None, retireLocked source p))
      | _ \<Rightarrow> (Some ErrInvalid, p))"

definition Lease_MarkAccepted :: "handle \<Rightarrow> Ledger \<Rightarrow> credit_error option \<times> Ledger" where
  "Lease_MarkAccepted lease p =
     (case lease of
        None \<Rightarrow> (Some ErrInvalid, p)
      | Some (_, l) \<Rightarrow>
          let x = lg_leases p ! l; s = the (ls_owner x)
          in if ls_released x then (Some ErrReleased, p)
             else if ss_closed (lg_sessions p ! s) \<or> ps_Closed (lg_usage p) then (Some ErrClosed, p)
             else if ss_pendingHandshake (lg_sessions p ! s) \<or> \<not> ls_acceptReserved x then (Some ErrInvalid, p)
             else if cl_PendingAccept (ls_claim x) then
               let dec = (\<lambda>u. u\<lparr>us_PendingAccepts := us_PendingAccepts u - 1\<rparr>);
                   p = on_lease l (\<lambda>x. x\<lparr>ls_claim := (ls_claim x)\<lparr>cl_PendingAccept := False\<rparr>\<rparr>) p
               in (None, on_usage dec (on_session_usage s dec p))
             else (None, p))"

definition Lease_ShrinkBytes :: "handle \<Rightarrow> u64 \<Rightarrow> Ledger \<Rightarrow> credit_error option \<times> Ledger" where
  "Lease_ShrinkBytes lease bts p =
     (case lease of
        None \<Rightarrow> (Some ErrInvalid, p)
      | Some (_, l) \<Rightarrow>
          let x = lg_leases p ! l
          in if ls_released x then (Some ErrReleased, p)
             else if bts > cl_Bytes (ls_claim x) then (Some ErrInvalid, p)
             else
               let freed = cl_Bytes (ls_claim x) - bts;
                   dec = (\<lambda>u. u\<lparr>us_Bytes := us_Bytes u - freed\<rparr>);
                   p = on_lease l (\<lambda>x. x\<lparr>ls_claim := (ls_claim x)\<lparr>cl_Bytes := bts\<rparr>\<rparr>) p
               in (None, on_usage dec (on_session_usage (the (ls_owner x)) dec p)))"

definition Lease_Release :: "handle \<Rightarrow> Ledger \<Rightarrow> Ledger" where
  "Lease_Release lease p =
     (case lease of
        None \<Rightarrow> p
      | Some (_, l) \<Rightarrow>
          let x = lg_leases p ! l
          in if ls_released x then p
             else
               let owner = the (ls_owner x);
                   p = on_session_usage owner (subtractClaim (ls_claim x)) p;
                   p = on_usage (subtractClaim (ls_claim x)) p;
                   p = on_lease l (\<lambda>x. x\<lparr>ls_released := True, ls_owner := None, ls_claim := zeroClaim\<rparr>) p
               in retireLocked owner p)"

subsection \<open>Shutdown and observation\<close>

definition Session_Close :: "handle \<Rightarrow> Ledger \<Rightarrow> Ledger" where
  "Session_Close h p =
     (case h of
        None \<Rightarrow> p
      | Some (_, s) \<Rightarrow> retireLocked s (on_session s (\<lambda>x. x\<lparr>ss_closed := True\<rparr>) p))"

text \<open>The loop of \<open>Peer.Close\<close> over the sessions map; Go leaves its order open, the list fixes one.\<close>

definition Peer_Close :: "Ledger \<Rightarrow> Ledger" where
  "Peer_Close p =
     (if ps_Closed (lg_usage p) then p
      else fold (\<lambda>s p. retireLocked s (on_session s (\<lambda>x. x\<lparr>ss_closed := True\<rparr>) p)) (lg_live p)
             (p\<lparr>lg_usage := (lg_usage p)\<lparr>ps_Closed := True\<rparr>\<rparr>))"

definition Peer_Snapshot :: "Ledger \<Rightarrow> PeerSnapshot" where
  "Peer_Snapshot p = lg_usage p"

definition Session_Snapshot :: "handle \<Rightarrow> Ledger \<Rightarrow> SessionSnapshot" where
  "Session_Snapshot h p =
     (case h of
        None \<Rightarrow> \<lparr>sn_Usage = zeroUsage, sn_PendingHandshake = False, sn_Closed = True, sn_Retired = True\<rparr>
      | Some (_, s) \<Rightarrow>
          let x = lg_sessions p ! s
          in \<lparr>sn_Usage = ss_usage x, sn_PendingHandshake = ss_pendingHandshake x, sn_Closed = ss_closed x,
              sn_Retired = ss_retired x\<rparr>)"

definition Lease_Snapshot :: "handle \<Rightarrow> Ledger \<Rightarrow> LeaseSnapshot" where
  "Lease_Snapshot h p =
     (case h of
        None \<Rightarrow> \<lparr>ln_Claim = zeroClaim, ln_Released = True\<rparr>
      | Some (_, l) \<Rightarrow> \<lparr>ln_Claim = ls_claim (lg_leases p ! l), ln_Released = ls_released (lg_leases p ! l)\<rparr>)"

end
