(* ===== verification/CreditInv.thy ===== *)
theory CreditInv
  imports CreditLedger
begin

text \<open>
  The invariant of the credit ledger: the counters of the peer and of every session are the sums over
  the live leases, every ceiling holds, and the slot counters count the sessions that are not retired.
  \<open>accounts\<close> is the part about sums, \<open>slots\<close> the part about sessions; every operation is one lemma of
  each kind.
\<close>

subsection \<open>Amounts\<close>

datatype dim = DBytes | DReservations | DStreams | DAccepts

fun amount :: "dim \<Rightarrow> Claim \<Rightarrow> int" where
  "amount DBytes c = int (unat (cl_Bytes c))"
| "amount DReservations c = 1"
| "amount DStreams c = (if cl_BusinessStream c then 1 else 0)"
| "amount DAccepts c = (if cl_PendingAccept c then 1 else 0)"

fun used :: "dim \<Rightarrow> Usage \<Rightarrow> int" where
  "used DBytes u = int (unat (us_Bytes u))"
| "used DReservations u = us_Reservations u"
| "used DStreams u = us_BusinessStreams u"
| "used DAccepts u = us_PendingAccepts u"

definition share :: "(nat option \<Rightarrow> bool) \<Rightarrow> dim \<Rightarrow> leaseState \<Rightarrow> int" where
  "share Q k l = (if Q (ls_owner l) then amount k (ls_claim l) else 0)"

definition owed :: "(nat option \<Rightarrow> bool) \<Rightarrow> dim \<Rightarrow> leaseState list \<Rightarrow> int" where
  "owed Q k ls = sum_list (map (share Q k) ls)"

lemma amount_nonneg: "0 \<le> amount k c"
  by (cases k) simp_all

lemma share_nonneg: "0 \<le> share Q k l"
  by (simp add: share_def amount_nonneg)

lemma sum_list_replace:
  "i < length xs \<Longrightarrow> sum_list (map g (xs[i := y])) = sum_list (map g xs) - g (xs ! i) + (g y :: int)"
proof (induction xs arbitrary: i)
  case (Cons x xs)
  then show ?case by (cases i) simp_all
qed simp

lemma owed_append: "owed Q k (ls @ [l]) = owed Q k ls + share Q k l"
  by (simp add: owed_def)

lemma owed_update: "i < length ls \<Longrightarrow> owed Q k (ls[i := y]) = owed Q k ls - share Q k (ls ! i) + share Q k y"
  by (simp add: owed_def sum_list_replace)

lemma owed_nonneg: "0 \<le> owed Q k ls"
  unfolding owed_def by (rule sum_list_nonneg) (auto simp: share_nonneg)

lemma share_le_owed: "i < length ls \<Longrightarrow> share Q k (ls ! i) \<le> owed Q k ls"
  unfolding owed_def by (rule member_le_sum_list) (auto simp: share_nonneg)

lemma used_zero [simp]: "used k zeroUsage = 0"
  by (cases k) (simp_all add: zeroUsage_def)

lemma used_addClaim:
  assumes "unat (us_Bytes u) + unat (cl_Bytes c) < 2 ^ 64"
  shows "used k (addClaim c u) = used k u + amount k c"
  using assms by (cases k) (simp_all add: addClaim_def unat_word_ariths)

lemma used_subtractClaim:
  assumes "cl_Bytes c \<le> us_Bytes u"
  shows "used k (subtractClaim c u) = used k u - amount k c"
  using assms by (cases k) (simp_all add: subtractClaim_def unat_sub word_le_nat_alt of_nat_diff)

subsection \<open>The accounts\<close>

definition limits_ok :: "Limits \<Rightarrow> bool" where
  "limits_ok L \<longleftrightarrow>
     0 < unat (MaxPeerBytes L) \<and> unat (MaxPeerBytes L) \<le> MaxRetainedBytes \<and> 0 < unat (MaxSessionBytes L) \<and>
     MaxSessionBytes L \<le> MaxPeerBytes L \<and> 1 \<le> MaxSessions L \<and> MaxSessions L \<le> 65536 \<and>
     1 \<le> MaxPendingHandshakes L \<and> 1 \<le> MaxPendingAccepts L \<and> 1 \<le> MaxStreamsPerSession L \<and>
     1 \<le> MaxPeerStreams L \<and> 1 \<le> MaxReservations L"

definition lease_ok :: "nat \<Rightarrow> leaseState \<Rightarrow> bool" where
  "lease_ok n l \<longleftrightarrow>
     (ls_released l \<longleftrightarrow> ls_owner l = None) \<and> (\<forall>s. ls_owner l = Some s \<longrightarrow> s < n) \<and>
     (ls_released l \<longrightarrow> ls_claim l = zeroClaim) \<and> (cl_PendingAccept (ls_claim l) \<longrightarrow> ls_acceptReserved l) \<and>
     (ls_bound l \<longrightarrow> \<not> cl_BusinessStream (ls_claim l) \<and> \<not> cl_PendingAccept (ls_claim l))"

definition peer_within :: "Limits \<Rightarrow> Usage \<Rightarrow> bool" where
  "peer_within L u \<longleftrightarrow>
     us_Bytes u \<le> MaxPeerBytes L \<and> us_Reservations u \<le> MaxReservations L \<and>
     us_BusinessStreams u \<le> MaxPeerStreams L \<and> us_PendingAccepts u \<le> MaxPendingAccepts L"

definition session_within :: "Limits \<Rightarrow> Usage \<Rightarrow> bool" where
  "session_within L u \<longleftrightarrow> us_Bytes u \<le> MaxSessionBytes L \<and> us_BusinessStreams u \<le> MaxStreamsPerSession L"

definition accounts :: "Limits \<Rightarrow> Usage \<Rightarrow> Usage list \<Rightarrow> leaseState list \<Rightarrow> bool" where
  "accounts L u us ls \<longleftrightarrow>
     (\<forall>l \<in> set ls. lease_ok (length us) l) \<and>
     (\<forall>k. used k u = owed (\<lambda>w. w \<noteq> None) k ls) \<and> peer_within L u \<and>
     (\<forall>s < length us. (\<forall>k. used k (us ! s) = owed (\<lambda>w. w = Some s) k ls) \<and> session_within L (us ! s))"

lemma accountsD:
  assumes "accounts L u us ls"
  shows "\<And>l. l < length ls \<Longrightarrow> lease_ok (length us) (ls ! l)"
    "used k u = owed (\<lambda>w. w \<noteq> None) k ls" "peer_within L u"
    "s < length us \<Longrightarrow> used k (us ! s) = owed (\<lambda>w. w = Some s) k ls"
    "s < length us \<Longrightarrow> session_within L (us ! s)"
  using assms by (simp_all add: accounts_def)

lemma lease_ok_mono: "lease_ok n l \<Longrightarrow> n \<le> m \<Longrightarrow> lease_ok m l"
  by (auto simp: lease_ok_def)

lemma owed_fresh: "(\<And>l. l \<in> set ls \<Longrightarrow> ls_owner l \<noteq> Some s) \<Longrightarrow> owed (\<lambda>w. w = Some s) k ls = 0"
  unfolding owed_def by (rule sum_list_nonneg_eq_0_iff [THEN iffD2]) (auto simp: share_def amount_nonneg)

lemma accounts_new_session:
  assumes "accounts L u us ls" "limits_ok L"
  shows "accounts L u (us @ [zeroUsage]) ls"
proof -
  have "owed (\<lambda>w. w = Some (length us)) k ls = 0" for k
    using assms(1) by (intro owed_fresh) (auto simp: accounts_def lease_ok_def)
  moreover have "session_within L zeroUsage" using assms(2) by (simp add: session_within_def zeroUsage_def limits_ok_def)
  ultimately show ?thesis
    using assms(1) lease_ok_mono [of "length us"] by (auto simp: accounts_def nth_append less_Suc_eq)
qed

text \<open>One lease is replaced (or appended) and the counters move by the difference of its shares.\<close>

lemma accounts_replace:
  assumes acc: "accounts L u us ls" and l: "l < length ls" and y: "lease_ok (length us) y"
    and len: "length us' = length us"
    and u': "\<And>k. used k u' = used k u - share (\<lambda>w. w \<noteq> None) k (ls ! l) + share (\<lambda>w. w \<noteq> None) k y" "peer_within L u'"
    and us': "\<And>s k. s < length us \<Longrightarrow>
        used k (us' ! s) = used k (us ! s) - share (\<lambda>w. w = Some s) k (ls ! l) + share (\<lambda>w. w = Some s) k y"
      "\<And>s. s < length us \<Longrightarrow> session_within L (us' ! s)"
  shows "accounts L u' us' (ls[l := y])"
proof -
  have "\<forall>x \<in> set (ls[l := y]). lease_ok (length us') x"
    using acc y len set_update_subset_insert [of ls l y] by (auto simp: accounts_def)
  then show ?thesis
    using u' us' len accountsD(2,4) [OF acc] unfolding accounts_def owed_update [OF l] by simp
qed

lemma accounts_charge:
  assumes acc: "accounts L u us ls" and L: "limits_ok L" and s: "s < length us"
    and chk: "checkSessionClaimLocked L (us ! s) c = None"
      "cl_Bytes c \<le> MaxPeerBytes L - us_Bytes u" "us_Reservations u \<noteq> MaxReservations L"
      "cl_BusinessStream c \<longrightarrow> us_BusinessStreams u \<noteq> MaxPeerStreams L"
      "cl_PendingAccept c \<longrightarrow> us_PendingAccepts u \<noteq> MaxPendingAccepts L"
  shows "accounts L (addClaim c u) (us[s := addClaim c (us ! s)]) (ls @ [newLease s c])"
proof -
  have within: "peer_within L u" "session_within L (us ! s)" using accountsD(3,5) [OF acc] s by simp_all
  have "unat (MaxPeerBytes L) \<le> 1073741824" "unat (MaxSessionBytes L) \<le> unat (MaxPeerBytes L)"
    using L by (simp_all add: limits_ok_def word_le_nat_alt)
  moreover have pb: "unat (us_Bytes u) + unat (cl_Bytes c) \<le> unat (MaxPeerBytes L)"
    using within(1) chk(2) by (auto simp: peer_within_def word_le_nat_alt unat_sub)
  moreover have sb: "unat (us_Bytes (us ! s)) + unat (cl_Bytes c) \<le> unat (MaxSessionBytes L)"
    using within(2) chk(1) by (auto simp: session_within_def checkSessionClaimLocked_def word_le_nat_alt not_less unat_sub split: if_splits)
  ultimately have fit: "unat (us_Bytes u) + unat (cl_Bytes c) < 2 ^ 64" "unat (us_Bytes (us ! s)) + unat (cl_Bytes c) < 2 ^ 64"
    by simp_all
  note add = used_addClaim [OF fit(1)] used_addClaim [OF fit(2)]
  have sum: "unat (us_Bytes u + cl_Bytes c) = unat (us_Bytes u) + unat (cl_Bytes c)"
    "unat (us_Bytes (us ! s) + cl_Bytes c) = unat (us_Bytes (us ! s)) + unat (cl_Bytes c)"
    using fit by (simp_all add: unat_word_ariths)
  have peer: "peer_within L (addClaim c u)"
    using within(1) chk(3-5) pb sum(1) by (auto simp: peer_within_def addClaim_def word_le_nat_alt)
  have sess: "session_within L (addClaim c (us ! s))"
    using within(2) chk(1) sb sum(2)
    by (auto simp: session_within_def checkSessionClaimLocked_def addClaim_def word_le_nat_alt split: if_splits)
  have "lease_ok (length us) (newLease s c)" using s by (simp add: lease_ok_def newLease_def)
  moreover have "used k (us[s := addClaim c (us ! s)] ! i) = owed (\<lambda>w. w = Some i) k (ls @ [newLease s c])" if "i < length us" for i k
    using that add(2) [of k] accountsD(4) [OF acc that, of k] by (auto simp: owed_append share_def newLease_def nth_list_update)
  moreover have "used k (addClaim c u) = owed (\<lambda>w. w \<noteq> None) k (ls @ [newLease s c])" for k
    using add(1) [of k] accountsD(2) [OF acc, of k] by (simp add: owed_append share_def newLease_def)
  ultimately show ?thesis
    using acc peer sess s by (auto simp: accounts_def nth_list_update)
qed

lemma bytes_le_used:
  assumes acc: "accounts L u us ls" and l: "l < length ls" and o: "ls_owner (ls ! l) = Some s"
  shows "cl_Bytes (ls_claim (ls ! l)) \<le> us_Bytes u" "cl_Bytes (ls_claim (ls ! l)) \<le> us_Bytes (us ! s)" "s < length us"
proof -
  show s: "s < length us" using accountsD(1) [OF acc l] o by (simp add: lease_ok_def)
  show "cl_Bytes (ls_claim (ls ! l)) \<le> us_Bytes u"
    using share_le_owed [OF l, of "\<lambda>w. w \<noteq> None" DBytes] accountsD(2) [OF acc, of DBytes] o
    by (simp add: share_def word_le_nat_alt del: of_nat_unat)
  show "cl_Bytes (ls_claim (ls ! l)) \<le> us_Bytes (us ! s)"
    using share_le_owed [OF l, of "\<lambda>w. w = Some s" DBytes] accountsD(4) [OF acc s, of DBytes] o
    by (simp add: share_def word_le_nat_alt del: of_nat_unat)
qed

lemma within_subtract:
  assumes "cl_Bytes c \<le> us_Bytes u"
  shows "peer_within L u \<Longrightarrow> peer_within L (subtractClaim c u)" "session_within L u \<Longrightarrow> session_within L (subtractClaim c u)"
  using assms by (auto simp: peer_within_def session_within_def subtractClaim_def word_le_nat_alt unat_sub)

lemma accounts_release:
  assumes acc: "accounts L u us ls" and l: "l < length ls" and o: "ls_owner (ls ! l) = Some s"
    and y: "ls_released y" "ls_owner y = None" "ls_claim y = zeroClaim" "ls_acceptReserved y = ls_acceptReserved (ls ! l)"
  shows "accounts L (subtractClaim (ls_claim (ls ! l)) u) (us[s := subtractClaim (ls_claim (ls ! l)) (us ! s)]) (ls[l := y])"
proof -
  let ?c = "ls_claim (ls ! l)"
  note b = bytes_le_used [OF acc l o]
  have sub: "used k (subtractClaim ?c u) = used k u - amount k ?c"
    "used k (subtractClaim ?c (us ! s)) = used k (us ! s) - amount k ?c" for k
    by (simp_all add: used_subtractClaim b)
  show ?thesis
  proof (rule accounts_replace [OF acc l])
    show "lease_ok (length us) y" using y by (simp add: lease_ok_def zeroClaim_def)
    show "peer_within L (subtractClaim ?c u)" using within_subtract(1) b(1) accountsD(3) [OF acc] by simp
    show "session_within L (us[s := subtractClaim ?c (us ! s)] ! i)" if "i < length us" for i
      using within_subtract(2) [OF b(2)] accountsD(5) [OF acc that] accountsD(5) [OF acc b(3)] that b(3) by (auto simp: nth_list_update)
  qed (use y o b(3) in \<open>auto simp: share_def sub nth_list_update\<close>)
qed

text \<open>The claim of a live lease shrinks in place (fewer bytes, or the accept slot given back).\<close>

lemma accounts_shrink:
  assumes acc: "accounts L u us ls" and l: "l < length ls" and o: "ls_owner (ls ! l) = Some s"
    and y: "ls_owner y = Some s" "lease_ok (length us) y"
    and v: "\<And>k. used k u' = used k u - amount k (ls_claim (ls ! l)) + amount k (ls_claim y)"
      "\<And>k. used k v' = used k (us ! s) - amount k (ls_claim (ls ! l)) + amount k (ls_claim y)"
    and w: "peer_within L u'" "session_within L v'"
  shows "accounts L u' (us[s := v']) (ls[l := y])"
proof (rule accounts_replace [OF acc l y(2)])
  show "session_within L (us[s := v'] ! i)" if "i < length us" for i
    using w(2) accountsD(5) [OF acc that] that bytes_le_used(3) [OF acc l o] by (auto simp: nth_list_update)
qed (use y o v w(1) bytes_le_used(3) [OF acc l o] in \<open>auto simp: share_def nth_list_update\<close>)

lemma accounts_transfer:
  assumes acc: "accounts L u us ls" and L: "limits_ok L" and l: "l < length ls" and o: "ls_owner (ls ! l) = Some s"
    and t: "t < length us" "t \<noteq> s" and chk: "checkSessionClaimLocked L (us ! t) (ls_claim (ls ! l)) = None"
  shows "accounts L u (us[s := subtractClaim (ls_claim (ls ! l)) (us ! s), t := addClaim (ls_claim (ls ! l)) (us ! t)])
    (ls[l := (ls ! l)\<lparr>ls_owner := Some t\<rparr>])"
proof -
  let ?c = "ls_claim (ls ! l)" and ?y = "(ls ! l)\<lparr>ls_owner := Some t\<rparr>"
  note b = bytes_le_used [OF acc l o]
  have within: "session_within L (us ! t)" using accountsD(5) [OF acc t(1)] .
  have "unat (MaxPeerBytes L) \<le> 1073741824" "unat (MaxSessionBytes L) \<le> unat (MaxPeerBytes L)"
    using L by (simp_all add: limits_ok_def word_le_nat_alt)
  moreover have sb: "unat (us_Bytes (us ! t)) + unat (cl_Bytes ?c) \<le> unat (MaxSessionBytes L)"
    using within chk by (auto simp: session_within_def checkSessionClaimLocked_def word_le_nat_alt not_less unat_sub split: if_splits)
  ultimately have fit: "unat (us_Bytes (us ! t)) + unat (cl_Bytes ?c) < 2 ^ 64" by simp
  have sum: "unat (us_Bytes (us ! t) + cl_Bytes ?c) = unat (us_Bytes (us ! t)) + unat (cl_Bytes ?c)"
    using fit by (simp add: unat_word_ariths)
  have sess: "session_within L (addClaim ?c (us ! t))"
    using within chk sb sum
    by (auto simp: session_within_def checkSessionClaimLocked_def addClaim_def word_le_nat_alt split: if_splits)
  have lo: "lease_ok (length us) (ls ! l)" by (rule accountsD(1) [OF acc l])
  show ?thesis
  proof (rule accounts_replace [OF acc l])
    show "lease_ok (length us) ?y" using lo o t(1) by (auto simp: lease_ok_def)
    show "peer_within L u" by (rule accountsD(3) [OF acc])
    show "session_within L (us[s := subtractClaim ?c (us ! s), t := addClaim ?c (us ! t)] ! i)" if "i < length us" for i
      using sess within_subtract(2) [OF b(2)] accountsD(5) [OF acc that] accountsD(5) [OF acc b(3)] that b(3) t(1)
      by (auto simp: nth_list_update)
  qed (use o t b(3) in \<open>auto simp: share_def nth_list_update used_addClaim [OF fit] used_subtractClaim [OF b(2)]\<close>)
qed

subsection \<open>Session slots\<close>

definition tallied :: "(sessionState \<Rightarrow> bool) \<Rightarrow> sessionState list \<Rightarrow> int" where
  "tallied P ss = sum_list (map (\<lambda>x. if P x then 1 else 0) ss)"

lemma tallied_append: "tallied P (ss @ [x]) = tallied P ss + (if P x then 1 else 0)"
  by (simp add: tallied_def)

lemma tallied_update:
  "s < length ss \<Longrightarrow> tallied P (ss[s := x]) = tallied P ss - (if P (ss ! s) then 1 else 0) + (if P x then 1 else 0)"
  by (simp add: tallied_def sum_list_replace)

lemma tallied_nonneg: "0 \<le> tallied P ss"
  unfolding tallied_def by (rule sum_list_nonneg) auto

definition slot_counts :: "Limits \<Rightarrow> PeerSnapshot \<Rightarrow> sessionState list \<Rightarrow> bool" where
  "slot_counts L u ss \<longleftrightarrow>
     ps_SessionSlots u = tallied (\<lambda>x. \<not> ss_retired x) ss \<and>
     ps_PendingHandshakes u = tallied (\<lambda>x. \<not> ss_retired x \<and> ss_pendingHandshake x) ss \<and>
     ps_EstablishedSessions u = tallied (\<lambda>x. \<not> ss_retired x \<and> \<not> ss_pendingHandshake x) ss \<and>
     ps_SessionSlots u \<le> MaxSessions L \<and> ps_PendingHandshakes u \<le> MaxPendingHandshakes L"

definition live_ok :: "nat list \<Rightarrow> sessionState list \<Rightarrow> bool" where
  "live_ok live ss \<longleftrightarrow> distinct live \<and> set live = {s. s < length ss \<and> \<not> ss_retired (ss ! s)}"

text \<open>A session is retired exactly when it is closed and idle, and a closed peer has only closed
  sessions. The sessions in \<open>S\<close> may be behind: the states inside an operation, just before
  \<open>retireLocked\<close>.\<close>

definition flag_ok :: "bool \<Rightarrow> bool \<Rightarrow> sessionState \<Rightarrow> bool" where
  "flag_ok behind peer_closed x \<longleftrightarrow>
     (ss_retired x \<longrightarrow> ss_closed x \<and> us_Reservations (ss_usage x) = 0) \<and>
     (\<not> behind \<longrightarrow> (ss_closed x \<and> us_Reservations (ss_usage x) = 0 \<longrightarrow> ss_retired x) \<and> (peer_closed \<longrightarrow> ss_closed x))"

definition slots :: "nat set \<Rightarrow> Ledger \<Rightarrow> bool" where
  "slots S p \<longleftrightarrow>
     slot_counts (lg_limits p) (lg_usage p) (lg_sessions p) \<and> live_ok (lg_live p) (lg_sessions p) \<and>
     (\<forall>s < length (lg_sessions p). flag_ok (s \<in> S) (ps_Closed (lg_usage p)) (lg_sessions p ! s))"

lemma slotsD:
  assumes "slots S p"
  shows "slot_counts (lg_limits p) (lg_usage p) (lg_sessions p)" "live_ok (lg_live p) (lg_sessions p)"
    "s < length (lg_sessions p) \<Longrightarrow> flag_ok (s \<in> S) (ps_Closed (lg_usage p)) (lg_sessions p ! s)"
  using assms by (simp_all add: slots_def)

lemma slot_counts_update:
  assumes "slot_counts L u ss" "s < length ss"
    and "ss_retired x = ss_retired (ss ! s)" "ss_pendingHandshake x = ss_pendingHandshake (ss ! s)"
  shows "slot_counts L u (ss[s := x])"
  using assms by (simp add: slot_counts_def tallied_update)

lemma live_ok_update:
  assumes "live_ok live ss" "s < length ss" "ss_retired x = ss_retired (ss ! s)"
  shows "live_ok live (ss[s := x])"
proof -
  have "{i. i < length (ss[s := x]) \<and> \<not> ss_retired (ss[s := x] ! i)} = {i. i < length ss \<and> \<not> ss_retired (ss ! i)}"
    using assms(2,3) by (auto simp: nth_list_update)
  then show ?thesis using assms(1) by (simp add: live_ok_def)
qed

lemma flags_update:
  assumes "\<And>i. i < length ss \<Longrightarrow> flag_ok (i \<in> S) c (ss ! i)" "flag_ok (s \<in> S') c x" "S \<subseteq> insert s S'"
  shows "i < length (ss[s := x]) \<Longrightarrow> flag_ok (i \<in> S') c (ss[s := x] ! i)"
proof (cases "i = s")
  case False
  assume "i < length (ss[s := x])"
  then show ?thesis using False assms(1) [of i] assms(3) by (auto simp: flag_ok_def)
qed (use assms(2) in simp)

abbreviation booked :: "Ledger \<Rightarrow> bool" where
  "booked p \<equiv> accounts (lg_limits p) (ps_Usage (lg_usage p)) (map ss_usage (lg_sessions p)) (lg_leases p)"

definition ledger_pre :: "nat set \<Rightarrow> Ledger \<Rightarrow> bool" where
  "ledger_pre S p \<longleftrightarrow> limits_ok (lg_limits p) \<and> booked p \<and> slots S p"

abbreviation ledger_inv :: "Ledger \<Rightarrow> bool" where
  "ledger_inv \<equiv> ledger_pre {}"

lemma ledger_preD:
  assumes "ledger_pre S p"
  shows "limits_ok (lg_limits p)" "booked p" "slots S p"
  using assms by (simp_all add: ledger_pre_def)

lemma update_fields [simp]:
  "lg_sessions (on_session s f p) = (lg_sessions p)[s := f (lg_sessions p ! s)]"
  "lg_leases (on_session s f p) = lg_leases p" "lg_usage (on_session s f p) = lg_usage p"
  "lg_limits (on_session s f p) = lg_limits p" "lg_live (on_session s f p) = lg_live p" "lg_peer (on_session s f p) = lg_peer p"
  "lg_sessions (on_lease l g p) = lg_sessions p" "lg_leases (on_lease l g p) = (lg_leases p)[l := g (lg_leases p ! l)]"
  "lg_usage (on_lease l g p) = lg_usage p" "lg_limits (on_lease l g p) = lg_limits p" "lg_live (on_lease l g p) = lg_live p"
  "lg_peer (on_lease l g p) = lg_peer p"
  "lg_sessions (on_usage h p) = lg_sessions p" "lg_leases (on_usage h p) = lg_leases p"
  "lg_usage (on_usage h p) = (lg_usage p)\<lparr>ps_Usage := h (ps_Usage (lg_usage p))\<rparr>"
  "lg_limits (on_usage h p) = lg_limits p" "lg_live (on_usage h p) = lg_live p" "lg_peer (on_usage h p) = lg_peer p"
  by (simp_all add: on_session_def on_lease_def on_usage_def)

lemma slots_session:
  assumes sl: "slots S p" and s: "s < length (lg_sessions p)"
    and x: "ss_retired x = ss_retired (lg_sessions p ! s)" "ss_pendingHandshake x = ss_pendingHandshake (lg_sessions p ! s)"
      "flag_ok (s \<in> S') (ps_Closed (lg_usage p)) x" "S \<subseteq> insert s S'"
    and p': "lg_sessions p' = (lg_sessions p)[s := x]" "lg_usage p' = (lg_usage p)\<lparr>ps_Usage := u\<rparr>"
      "lg_limits p' = lg_limits p" "lg_live p' = lg_live p"
  shows "slots S' p'"
proof -
  have "slot_counts (lg_limits p) (lg_usage p) (lg_sessions p')" "live_ok (lg_live p) (lg_sessions p')"
    unfolding p' using slot_counts_update live_ok_update slotsD(1,2) [OF sl] s x(1,2) by metis+
  then have "slot_counts (lg_limits p') (lg_usage p') (lg_sessions p')" "live_ok (lg_live p') (lg_sessions p')"
    by (simp_all add: slot_counts_def p'(2-4))
  moreover have "flag_ok (i \<in> S') (ps_Closed (lg_usage p')) (lg_sessions p' ! i)" if "i < length (lg_sessions p')" for i
    using flags_update [OF slotsD(3) [OF sl] x(3,4)] that by (simp add: p'(1,2))
  ultimately show ?thesis by (simp add: slots_def)
qed

lemma retire_pre:
  assumes pre: "ledger_pre S p" and s: "s < length (lg_sessions p)"
    and c: "ps_Closed (lg_usage p) \<longrightarrow> ss_closed (lg_sessions p ! s)"
  shows "ledger_pre (S - {s}) (retireLocked s p)"
proof (cases "\<not> ss_closed (lg_sessions p ! s) \<or> ss_retired (lg_sessions p ! s) \<or> us_Reservations (ss_usage (lg_sessions p ! s)) \<noteq> 0")
  case True
  then have "retireLocked s p = p" by (simp add: retireLocked_def Let_def)
  moreover have "slots (S - {s}) p" using ledger_preD(3) [OF pre] True s c unfolding slots_def flag_ok_def by auto
  ultimately show ?thesis using pre by (simp add: ledger_pre_def)
next
  case False
  let ?p = "retireLocked s p" and ?x = "lg_sessions p ! s"
  have f: "lg_sessions ?p = (lg_sessions p)[s := ?x\<lparr>ss_retired := True\<rparr>]" "lg_leases ?p = lg_leases p" "lg_limits ?p = lg_limits p"
    "lg_live ?p = filter (\<lambda>i. i \<noteq> s) (lg_live p)" "ps_Usage (lg_usage ?p) = ps_Usage (lg_usage p)"
    "ps_Closed (lg_usage ?p) = ps_Closed (lg_usage p)" "ps_SessionSlots (lg_usage ?p) = ps_SessionSlots (lg_usage p) - 1"
    "ps_PendingHandshakes (lg_usage ?p) = ps_PendingHandshakes (lg_usage p) - (if ss_pendingHandshake ?x then 1 else 0)"
    "ps_EstablishedSessions (lg_usage ?p) = ps_EstablishedSessions (lg_usage p) - (if ss_pendingHandshake ?x then 0 else 1)"
    using False by (simp_all add: retireLocked_def Let_def)
  have "map ss_usage (lg_sessions ?p) = map ss_usage (lg_sessions p)"
    using s by (simp add: f(1) map_update list_update_same_conv)
  then have "booked ?p" using ledger_preD(2) [OF pre] f by simp
  moreover have "slot_counts (lg_limits ?p) (lg_usage ?p) (lg_sessions ?p)"
    using slotsD(1) [OF ledger_preD(3) [OF pre]] False s unfolding slot_counts_def f by (auto simp: tallied_update)
  moreover have "live_ok (lg_live ?p) (lg_sessions ?p)"
    using slotsD(2) [OF ledger_preD(3) [OF pre]] s unfolding live_ok_def f(1,4) by (auto simp: nth_list_update)
  moreover have "flag_ok (i \<in> S - {s}) (ps_Closed (lg_usage ?p)) (lg_sessions ?p ! i)" if "i < length (lg_sessions ?p)" for i
  proof -
    have "flag_ok (s \<in> S - {s}) (ps_Closed (lg_usage p)) (?x\<lparr>ss_retired := True\<rparr>)" using False c by (simp add: flag_ok_def)
    from flags_update [OF slotsD(3) [OF ledger_preD(3) [OF pre]] this] that show ?thesis unfolding f(1,6) by auto
  qed
  ultimately show ?thesis using ledger_preD(1) [OF pre] f(3) by (simp add: ledger_pre_def slots_def)
qed

end
