(* ===== verification/CreditSteps.thy ===== *)
theory CreditSteps
  imports CreditInv
begin

text \<open>
  Every operation of the credit ledger keeps the invariant; \<open>ledger_system\<close> lifts it to all reachable
  ledgers, and the properties of the ledger follow.
\<close>

subsection \<open>Handles\<close>

definition session_handle :: "Ledger \<Rightarrow> handle \<Rightarrow> bool" where
  "session_handle p h \<longleftrightarrow> (\<forall>q s. h = Some (q, s) \<longrightarrow> q = lg_peer p \<longrightarrow> s < length (lg_sessions p))"

definition lease_handle :: "Ledger \<Rightarrow> handle \<Rightarrow> bool" where
  "lease_handle p h \<longleftrightarrow> (\<forall>q l. h = Some (q, l) \<longrightarrow> q = lg_peer p \<longrightarrow> l < length (lg_leases p))"

text \<open>The receiver of a method belongs to this peer.\<close>

definition own_handle :: "Ledger \<Rightarrow> handle \<Rightarrow> bool" where
  "own_handle p h \<longleftrightarrow> (\<forall>q i. h = Some (q, i) \<longrightarrow> q = lg_peer p)"

lemma ledger_preI:
  assumes "limits_ok (lg_limits p)" "booked p" "slot_counts (lg_limits p) (lg_usage p) (lg_sessions p)"
    "live_ok (lg_live p) (lg_sessions p)"
    "\<And>s. s < length (lg_sessions p) \<Longrightarrow> flag_ok (s \<in> S) (ps_Closed (lg_usage p)) (lg_sessions p ! s)"
  shows "ledger_pre S p"
  using assms unfolding ledger_pre_def slots_def by blast

lemma flag_ok_cong:
  "flag_ok b c x \<Longrightarrow> ss_retired y = ss_retired x \<Longrightarrow> ss_closed y = ss_closed x \<Longrightarrow>
   us_Reservations (ss_usage y) = us_Reservations (ss_usage x) \<Longrightarrow> flag_ok b c y"
  by (simp only: flag_ok_def)

lemma flag_ok_open: "\<not> ss_closed x \<Longrightarrow> \<not> ss_retired x \<Longrightarrow> \<not> c \<Longrightarrow> flag_ok b c x"
  by (simp add: flag_ok_def)

lemma flag_ok_live: "\<not> ss_retired x \<Longrightarrow> flag_ok True c x"
  by (simp add: flag_ok_def)

lemma flag_ok_retired: "ss_retired x \<Longrightarrow> flag_ok b c x \<Longrightarrow> flag_ok b' c' x"
  by (simp add: flag_ok_def)

subsection \<open>Charging\<close>

lemma checkClaim_None:
  "checkClaimLocked p v c = None \<longleftrightarrow>
     checkSessionClaimLocked (lg_limits p) v c = None \<and>
     cl_Bytes c \<le> MaxPeerBytes (lg_limits p) - us_Bytes (ps_Usage (lg_usage p)) \<and>
     us_Reservations (ps_Usage (lg_usage p)) \<noteq> MaxReservations (lg_limits p) \<and>
     (cl_BusinessStream c \<longrightarrow> us_BusinessStreams (ps_Usage (lg_usage p)) \<noteq> MaxPeerStreams (lg_limits p)) \<and>
     (cl_PendingAccept c \<longrightarrow> us_PendingAccepts (ps_Usage (lg_usage p)) \<noteq> MaxPendingAccepts (lg_limits p))"
  by (auto simp: checkClaimLocked_def Let_def not_less split: option.split)

lemma charge_fields:
  "lg_sessions (chargeLocked s c p) =
     (lg_sessions p)[s := (lg_sessions p ! s)\<lparr>ss_usage := addClaim c (ss_usage (lg_sessions p ! s))\<rparr>]"
  "lg_leases (chargeLocked s c p) = lg_leases p"
  "lg_usage (chargeLocked s c p) = (lg_usage p)\<lparr>ps_Usage := addClaim c (ps_Usage (lg_usage p))\<rparr>"
  "lg_limits (chargeLocked s c p) = lg_limits p" "lg_live (chargeLocked s c p) = lg_live p" "lg_peer (chargeLocked s c p) = lg_peer p"
  by (simp_all add: chargeLocked_def on_session_usage_def)

lemma charge_pre:
  assumes pre: "ledger_pre S p" and s: "s < length (lg_sessions p)" and live: "\<not> ss_closed (lg_sessions p ! s)"
    and chk: "checkClaimLocked p (ss_usage (lg_sessions p ! s)) c = None"
  shows "ledger_pre S (chargeLocked s c (p\<lparr>lg_leases := lg_leases p @ [newLease s c]\<rparr>))" (is "ledger_pre S ?p")
proof -
  let ?x = "lg_sessions p ! s" and ?v = "addClaim c (ss_usage (lg_sessions p ! s))"
  note D = ledger_preD [OF pre]
  have "accounts (lg_limits p) (addClaim c (ps_Usage (lg_usage p))) ((map ss_usage (lg_sessions p))[s := ?v]) (lg_leases p @ [newLease s c])"
    using accounts_charge [OF D(2,1), of s c] s chk by (simp add: checkClaim_None)
  then have "booked ?p" by (simp add: charge_fields map_update)
  moreover have "slots S ?p"
  proof (rule slots_session [OF D(3) s])
    show "flag_ok (s \<in> S) (ps_Closed (lg_usage p)) (?x\<lparr>ss_usage := ?v\<rparr>)"
      using slotsD(3) [OF D(3) s] live by (auto simp: flag_ok_def)
  qed (auto simp: charge_fields)
  ultimately show ?thesis using D(1) by (simp add: ledger_pre_def charge_fields)
qed

subsection \<open>Admission\<close>

lemma new_session_pre:
  assumes pre: "ledger_inv p" and open_peer: "\<not> ps_Closed (lg_usage p)"
    and room: "ps_SessionSlots (lg_usage p) \<noteq> MaxSessions (lg_limits p)"
      "pending \<longrightarrow> ps_PendingHandshakes (lg_usage p) \<noteq> MaxPendingHandshakes (lg_limits p)"
    and p': "lg_sessions p' = lg_sessions p @
        [\<lparr>ss_usage = zeroUsage, ss_pendingHandshake = pending, ss_closed = False, ss_retired = False\<rparr>]"
      "lg_leases p' = lg_leases p" "lg_limits p' = lg_limits p" "lg_live p' = length (lg_sessions p) # lg_live p"
      "ps_Usage (lg_usage p') = ps_Usage (lg_usage p)" "ps_Closed (lg_usage p') = ps_Closed (lg_usage p)"
      "ps_SessionSlots (lg_usage p') = ps_SessionSlots (lg_usage p) + 1"
      "ps_PendingHandshakes (lg_usage p') = ps_PendingHandshakes (lg_usage p) + (if pending then 1 else 0)"
      "ps_EstablishedSessions (lg_usage p') = ps_EstablishedSessions (lg_usage p) + (if pending then 0 else 1)"
  shows "ledger_inv p'"
proof -
  note D = ledger_preD [OF pre]
  have "booked p'" using accounts_new_session [OF D(2,1)] by (simp add: p')
  moreover have "slot_counts (lg_limits p') (lg_usage p') (lg_sessions p')"
  proof -
    note C = slotsD(1) [OF D(3), unfolded slot_counts_def]
    have "tallied P (lg_sessions p') = tallied P (lg_sessions p) +
        (if P \<lparr>ss_usage = zeroUsage, ss_pendingHandshake = pending, ss_closed = False, ss_retired = False\<rparr> then 1 else 0)" for P
      by (simp add: p'(1) tallied_append)
    then show ?thesis using C room by (cases pending) (simp_all add: slot_counts_def p'(3,7-9))
  qed
  moreover have "live_ok (lg_live p') (lg_sessions p')"
  proof -
    have "{s. s < length (lg_sessions p') \<and> \<not> ss_retired (lg_sessions p' ! s)} =
        insert (length (lg_sessions p)) {s. s < length (lg_sessions p) \<and> \<not> ss_retired (lg_sessions p ! s)}"
      unfolding p'(1) by (auto simp: nth_append less_Suc_eq)
    then show ?thesis using slotsD(2) [OF D(3)] by (simp add: live_ok_def p'(4))
  qed
  moreover have "flag_ok (i \<in> {}) (ps_Closed (lg_usage p')) (lg_sessions p' ! i)" if "i < length (lg_sessions p')" for i
  proof (cases "i = length (lg_sessions p)")
    case True
    then show ?thesis using open_peer by (simp add: p'(1,6) flag_ok_def)
  next
    case False
    then have "i < length (lg_sessions p)" using that by (simp add: p'(1))
    then show ?thesis using slotsD(3) [OF D(3)] unfolding p'(1,6) by (simp add: nth_append)
  qed
  moreover have "limits_ok (lg_limits p')" using D(1) by (simp only: p'(3))
  ultimately show ?thesis by (intro ledger_preI)
qed

lemma checkClaim_cong:
  "lg_limits p' = lg_limits p \<Longrightarrow> ps_Usage (lg_usage p') = ps_Usage (lg_usage p) \<Longrightarrow> checkClaimLocked p' v c = checkClaimLocked p v c"
  by (simp only: checkClaimLocked_def)

text \<open>The session is entered first and charged after; the code charges first, with the same result.\<close>

definition enter_session :: "bool \<Rightarrow> Ledger \<Rightarrow> Ledger" where
  "enter_session pending p =
     (let u = (lg_usage p)\<lparr>ps_SessionSlots := ps_SessionSlots (lg_usage p) + 1\<rparr>;
          u = (if pending then u\<lparr>ps_PendingHandshakes := ps_PendingHandshakes u + 1\<rparr>
               else u\<lparr>ps_EstablishedSessions := ps_EstablishedSessions u + 1\<rparr>)
      in p\<lparr>lg_sessions := lg_sessions p @
             [\<lparr>ss_usage = zeroUsage, ss_pendingHandshake = pending, ss_closed = False, ss_retired = False\<rparr>],
           lg_usage := u, lg_live := length (lg_sessions p) # lg_live p\<rparr>)"

lemma Peer_begin_ok:
  assumes "\<not> ps_Closed (lg_usage p)" "ps_SessionSlots (lg_usage p) \<noteq> MaxSessions (lg_limits p)"
    "pending \<longrightarrow> ps_PendingHandshakes (lg_usage p) \<noteq> MaxPendingHandshakes (lg_limits p)"
    "claim_empty c \<or> checkClaimLocked p zeroUsage c = None"
  shows "Peer_begin c pending p =
    (Inr (Some (lg_peer p, length (lg_sessions p)), if claim_empty c then None else Some (lg_peer p, length (lg_leases p))),
     let q = enter_session pending p
     in if claim_empty c then q
        else chargeLocked (length (lg_sessions p)) c (q\<lparr>lg_leases := lg_leases q @ [newLease (length (lg_sessions p)) c]\<rparr>))"
  using assms
  by (cases p)
     (auto simp: Peer_begin_def enter_session_def chargeLocked_def on_session_usage_def on_session_def on_usage_def Let_def)

lemma Peer_begin_inv:
  assumes pre: "ledger_inv p"
  shows "ledger_inv (snd (Peer_begin c pending p))"
proof (cases "\<not> ps_Closed (lg_usage p) \<and> ps_SessionSlots (lg_usage p) \<noteq> MaxSessions (lg_limits p) \<and>
    (pending \<longrightarrow> ps_PendingHandshakes (lg_usage p) \<noteq> MaxPendingHandshakes (lg_limits p)) \<and>
    (claim_empty c \<or> checkClaimLocked p zeroUsage c = None)")
  case False
  then have "snd (Peer_begin c pending p) = p" by (auto simp: Peer_begin_def Let_def split: option.splits)
  then show ?thesis using pre by simp
next
  case True
  let ?q = "enter_session pending p" and ?s = "length (lg_sessions p)"
  have q: "ledger_inv ?q"
    by (rule new_session_pre [OF pre, of pending]) (use True in \<open>auto simp: enter_session_def Let_def\<close>)
  have "lg_sessions ?q ! ?s = \<lparr>ss_usage = zeroUsage, ss_pendingHandshake = pending, ss_closed = False, ss_retired = False\<rparr>"
    "?s < length (lg_sessions ?q)"
    by (simp_all add: enter_session_def Let_def)
  moreover have "checkClaimLocked ?q zeroUsage c = checkClaimLocked p zeroUsage c"
    by (rule checkClaim_cong) (simp_all add: enter_session_def Let_def)
  ultimately have "claim_empty c \<or> ledger_inv (chargeLocked ?s c (?q\<lparr>lg_leases := lg_leases ?q @ [newLease ?s c]\<rparr>))"
    using charge_pre [OF q, of ?s c] True by auto
  then show ?thesis using Peer_begin_ok [of p pending c] True q by (cases "claim_empty c") (simp_all add: Let_def)
qed

lemma Reserve_inv:
  assumes pre: "ledger_inv p" and h: "session_handle p h" "own_handle p h"
  shows "ledger_inv (snd (Session_Reserve h c p))"
proof (cases h)
  case None
  then show ?thesis using pre by (simp add: Session_Reserve_def)
next
  case (Some qs)
  then obtain q s where hs: "h = Some (q, s)" by force
  have s: "s < length (lg_sessions p)" using h hs by (simp add: session_handle_def own_handle_def)
  show ?thesis
    using pre charge_pre [OF pre s, of c] by (auto simp: hs Session_Reserve_def split: option.split)
qed

lemma Promote_inv:
  assumes pre: "ledger_inv p" and h: "session_handle p h" "own_handle p h"
  shows "ledger_inv (snd (Session_Promote h p))"
proof (cases "\<exists>q s. h = Some (q, s) \<and> \<not> ss_closed (lg_sessions p ! s) \<and> \<not> ps_Closed (lg_usage p) \<and> ss_pendingHandshake (lg_sessions p ! s)")
  case False
  then have "snd (Session_Promote h p) = p" by (auto simp: Session_Promote_def split: option.split)
  then show ?thesis using pre by simp
next
  case True
  then obtain q s where hs: "h = Some (q, s)" and x: "\<not> ss_closed (lg_sessions p ! s)" "\<not> ps_Closed (lg_usage p)"
    "ss_pendingHandshake (lg_sessions p ! s)" by blast
  note D = ledger_preD [OF pre]
  have s: "s < length (lg_sessions p)" using h hs by (simp add: session_handle_def own_handle_def)
  let ?x = "lg_sessions p ! s" and ?p = "snd (Session_Promote h p)"
  have r: "\<not> ss_retired ?x" using slotsD(3) [OF D(3) s] x(1) by (auto simp: flag_ok_def)
  have f: "lg_sessions ?p = (lg_sessions p)[s := ?x\<lparr>ss_pendingHandshake := False\<rparr>]" "lg_leases ?p = lg_leases p"
    "lg_limits ?p = lg_limits p" "lg_live ?p = lg_live p" "ps_Usage (lg_usage ?p) = ps_Usage (lg_usage p)"
    "ps_Closed (lg_usage ?p) = ps_Closed (lg_usage p)" "ps_SessionSlots (lg_usage ?p) = ps_SessionSlots (lg_usage p)"
    "ps_PendingHandshakes (lg_usage ?p) = ps_PendingHandshakes (lg_usage p) - 1"
    "ps_EstablishedSessions (lg_usage ?p) = ps_EstablishedSessions (lg_usage p) + 1"
    using x by (simp_all add: hs Session_Promote_def Let_def)
  have "map ss_usage (lg_sessions ?p) = map ss_usage (lg_sessions p)"
    using s by (simp add: f(1) map_update list_update_same_conv)
  then have "booked ?p" using D(2) f by simp
  moreover have "slot_counts (lg_limits ?p) (lg_usage ?p) (lg_sessions ?p)"
  proof -
    note C = slotsD(1) [OF D(3), unfolded slot_counts_def]
    have "ps_PendingHandshakes (lg_usage p) - 1 \<le> MaxPendingHandshakes (lg_limits p)" using C by simp
    moreover have "tallied P (lg_sessions ?p) = tallied P (lg_sessions p) - (if P ?x then 1 else 0) +
        (if P (?x\<lparr>ss_pendingHandshake := False\<rparr>) then 1 else 0)" for P
      unfolding f(1) by (rule tallied_update [OF s])
    ultimately show ?thesis using C x r unfolding slot_counts_def f(3,7-9) by simp
  qed
  moreover have "live_ok (lg_live ?p) (lg_sessions ?p)"
    unfolding f by (rule live_ok_update [OF slotsD(2) [OF D(3)] s]) simp
  moreover have "flag_ok (i \<in> {}) (ps_Closed (lg_usage ?p)) (lg_sessions ?p ! i)" if "i < length (lg_sessions ?p)" for i
  proof -
    have "flag_ok (s \<in> {}) (ps_Closed (lg_usage p)) (?x\<lparr>ss_pendingHandshake := False\<rparr>)"
      by (rule flag_ok_cong [OF slotsD(3) [OF D(3) s]]) simp_all
    from flags_update [OF slotsD(3) [OF D(3)] this] that show ?thesis unfolding f(1,6) by auto
  qed
  moreover have "limits_ok (lg_limits ?p)" using D(1) by (simp only: f(3))
  ultimately show ?thesis by (intro ledger_preI)
qed

subsection \<open>Leases\<close>

lemma live_lease:
  assumes "ledger_pre S p" "l < length (lg_leases p)" "\<not> ls_released (lg_leases p ! l)"
  obtains s where "ls_owner (lg_leases p ! l) = Some s" "s < length (lg_sessions p)"
proof -
  have "lease_ok (length (lg_sessions p)) (lg_leases p ! l)"
    using accountsD(1) [OF ledger_preD(2) [OF assms(1)] assms(2)] by simp
  then show ?thesis using that assms(3) by (auto simp: lease_ok_def)
qed

lemma owner_reserved:
  assumes pre: "ledger_pre S p" and l: "l < length (lg_leases p)" and o: "ls_owner (lg_leases p ! l) = Some s"
  shows "s < length (lg_sessions p)" "1 \<le> us_Reservations (ss_usage (lg_sessions p ! s))" "\<not> ss_retired (lg_sessions p ! s)"
proof -
  note D = ledger_preD [OF pre]
  show s: "s < length (lg_sessions p)" using bytes_le_used(3) [OF D(2) l o] by simp
  show r: "1 \<le> us_Reservations (ss_usage (lg_sessions p ! s))"
    using share_le_owed [OF l, of "\<lambda>w. w = Some s" DReservations] accountsD(4) [OF D(2), of s DReservations] s o
    by (simp add: share_def)
  show "\<not> ss_retired (lg_sessions p ! s)" using slotsD(3) [OF D(3) s] r by (auto simp: flag_ok_def)
qed

text \<open>A live lease is replaced by one of the same owner, and peer and owner are debited alike.\<close>

lemma debit_inv:
  assumes pre: "ledger_inv p" and l: "l < length (lg_leases p)" and o: "ls_owner (lg_leases p ! l) = Some s"
    and y: "ls_owner (g (lg_leases p ! l)) = Some s" "lease_ok (length (lg_sessions p)) (g (lg_leases p ! l))"
    and f: "\<And>k u. (\<And>k. amount k (ls_claim (lg_leases p ! l)) \<le> used k u) \<Longrightarrow>
        used k (f u) = used k u - amount k (ls_claim (lg_leases p ! l)) + amount k (ls_claim (g (lg_leases p ! l)))"
      "\<And>u. us_Reservations (f u) = us_Reservations u"
      "\<And>u L. (\<And>k. amount k (ls_claim (lg_leases p ! l)) \<le> used k u) \<Longrightarrow> peer_within L u \<Longrightarrow> peer_within L (f u)"
      "\<And>u L. (\<And>k. amount k (ls_claim (lg_leases p ! l)) \<le> used k u) \<Longrightarrow> session_within L u \<Longrightarrow> session_within L (f u)"
  shows "ledger_inv (on_usage f (on_session_usage s f (on_lease l g p)))" (is "ledger_inv ?p")
proof -
  let ?c = "ls_claim (lg_leases p ! l)" and ?x = "lg_sessions p ! s"
  note D = ledger_preD [OF pre]
  have s: "s < length (lg_sessions p)" by (rule owner_reserved(1) [OF pre l o])
  have le: "amount k ?c \<le> used k (ps_Usage (lg_usage p))" "amount k ?c \<le> used k (ss_usage ?x)" for k
    using share_le_owed [OF l, of "\<lambda>w. w \<noteq> None" k] share_le_owed [OF l, of "\<lambda>w. w = Some s" k]
      accountsD(2) [OF D(2), of k] accountsD(4) [OF D(2), of s k] s o by (simp_all add: share_def)
  have "accounts (lg_limits p) (f (ps_Usage (lg_usage p))) ((map ss_usage (lg_sessions p))[s := f (ss_usage ?x)])
      ((lg_leases p)[l := g (lg_leases p ! l)])"
    by (rule accounts_shrink [OF D(2) l o y(1)])
       (use y(2) f(1) [OF le(1)] f(1) [OF le(2)] f(3) [OF le(1) accountsD(3) [OF D(2)]] f(4) [OF le(2)] accountsD(5) [OF D(2), of s] s in simp_all)
  then have "booked ?p" by (simp add: on_session_usage_def map_update)
  moreover have "slots {} ?p"
  proof (rule slots_session [OF D(3) s])
    show "flag_ok (s \<in> {}) (ps_Closed (lg_usage p)) (?x\<lparr>ss_usage := f (ss_usage ?x)\<rparr>)"
      by (rule flag_ok_cong [OF slotsD(3) [OF D(3) s]]) (simp_all add: f(2))
  qed (simp_all add: on_session_usage_def)
  ultimately show ?thesis using D(1) by (simp add: ledger_pre_def on_session_usage_def)
qed

lemma MarkAccepted_inv:
  assumes pre: "ledger_inv p" and h: "lease_handle p h" "own_handle p h"
  shows "ledger_inv (snd (Lease_MarkAccepted h p))"
proof (cases h)
  case None
  then show ?thesis using pre by (simp add: Lease_MarkAccepted_def)
next
  case (Some ql)
  then obtain q l where hl: "h = Some (q, l)" by force
  have l: "l < length (lg_leases p)" using h hl by (simp add: lease_handle_def own_handle_def)
  let ?x = "lg_leases p ! l"
  show ?thesis
  proof (cases "\<not> ls_released ?x \<and> cl_PendingAccept (ls_claim ?x)")
    case False
    then have "snd (Lease_MarkAccepted h p) = p" by (auto simp: hl Lease_MarkAccepted_def Let_def)
    then show ?thesis using pre by simp
  next
    case True
    then obtain s where o: "ls_owner ?x = Some s" using live_lease [OF pre l] by blast
    have ok: "lease_ok (length (lg_sessions p)) ?x" using accountsD(1) [OF ledger_preD(2) [OF pre] l] by simp
    have "ledger_inv (on_usage (\<lambda>u. u\<lparr>us_PendingAccepts := us_PendingAccepts u - 1\<rparr>)
        (on_session_usage s (\<lambda>u. u\<lparr>us_PendingAccepts := us_PendingAccepts u - 1\<rparr>)
          (on_lease l (\<lambda>x. x\<lparr>ls_claim := (ls_claim x)\<lparr>cl_PendingAccept := False\<rparr>\<rparr>) p)))"
    proof (rule debit_inv [OF pre l o])
      show "used k (u\<lparr>us_PendingAccepts := us_PendingAccepts u - 1\<rparr>) = used k u - amount k (ls_claim ?x) +
          amount k (ls_claim (?x\<lparr>ls_claim := (ls_claim ?x)\<lparr>cl_PendingAccept := False\<rparr>\<rparr>))" for k u
        using True by (cases k) simp_all
    qed (use ok o True in \<open>auto simp: lease_ok_def peer_within_def session_within_def\<close>)
    then show ?thesis using pre o by (auto simp: hl Lease_MarkAccepted_def Let_def)
  qed
qed

lemma ShrinkBytes_inv:
  assumes pre: "ledger_inv p" and h: "lease_handle p h" "own_handle p h"
  shows "ledger_inv (snd (Lease_ShrinkBytes h n p))"
proof (cases h)
  case None
  then show ?thesis using pre by (simp add: Lease_ShrinkBytes_def)
next
  case (Some ql)
  then obtain q l where hl: "h = Some (q, l)" by force
  have l: "l < length (lg_leases p)" using h hl by (simp add: lease_handle_def own_handle_def)
  let ?x = "lg_leases p ! l"
  show ?thesis
  proof (cases "\<not> ls_released ?x \<and> n \<le> cl_Bytes (ls_claim ?x)")
    case False
    then have "snd (Lease_ShrinkBytes h n p) = p" by (auto simp: hl Lease_ShrinkBytes_def Let_def)
    then show ?thesis using pre by simp
  next
    case True
    then obtain s where o: "ls_owner ?x = Some s" using live_lease [OF pre l] by blast
    have ok: "lease_ok (length (lg_sessions p)) ?x" using accountsD(1) [OF ledger_preD(2) [OF pre] l] by simp
    let ?d = "cl_Bytes (ls_claim ?x) - n"
    have d: "unat ?d = unat (cl_Bytes (ls_claim ?x)) - unat n" "unat n \<le> unat (cl_Bytes (ls_claim ?x))"
      using True by (simp_all add: unat_sub word_le_nat_alt)
    have sub: "unat (us_Bytes u - ?d) = unat (us_Bytes u) - unat ?d" "unat ?d \<le> unat (us_Bytes u)"
      if "\<And>k. amount k (ls_claim ?x) \<le> used k u" for u
    proof -
      have "unat (cl_Bytes (ls_claim ?x)) \<le> unat (us_Bytes u)" using that [of DBytes] by (simp del: of_nat_unat)
      then show "unat ?d \<le> unat (us_Bytes u)" using d by simp
      then show "unat (us_Bytes u - ?d) = unat (us_Bytes u) - unat ?d" by (simp add: unat_sub word_le_nat_alt)
    qed
    have "ledger_inv (on_usage (\<lambda>u. u\<lparr>us_Bytes := us_Bytes u - ?d\<rparr>)
        (on_session_usage s (\<lambda>u. u\<lparr>us_Bytes := us_Bytes u - ?d\<rparr>)
          (on_lease l (\<lambda>x. x\<lparr>ls_claim := (ls_claim x)\<lparr>cl_Bytes := n\<rparr>\<rparr>) p)))"
    proof (rule debit_inv [OF pre l o])
      show "used k (u\<lparr>us_Bytes := us_Bytes u - ?d\<rparr>) = used k u - amount k (ls_claim ?x) +
          amount k (ls_claim (?x\<lparr>ls_claim := (ls_claim ?x)\<lparr>cl_Bytes := n\<rparr>\<rparr>))"
        if "\<And>k. amount k (ls_claim ?x) \<le> used k u" for k u
        using sub [OF that] d by (cases k) (simp_all del: of_nat_unat)
      show "peer_within L (u\<lparr>us_Bytes := us_Bytes u - ?d\<rparr>)" if "\<And>k. amount k (ls_claim ?x) \<le> used k u" "peer_within L u" for u L
        using sub [OF that(1)] that(2) by (auto simp: peer_within_def word_le_nat_alt intro: le_trans [OF diff_le_self])
      show "session_within L (u\<lparr>us_Bytes := us_Bytes u - ?d\<rparr>)" if "\<And>k. amount k (ls_claim ?x) \<le> used k u" "session_within L u" for u L
        using sub [OF that(1)] that(2) by (auto simp: session_within_def word_le_nat_alt intro: le_trans [OF diff_le_self])
    qed (use ok o in \<open>auto simp: lease_ok_def\<close>)
    then show ?thesis using True o by (auto simp: hl Lease_ShrinkBytes_def Let_def)
  qed
qed

lemma BindBytes_inv:
  assumes pre: "ledger_inv p" and h: "lease_handle p lease"
  shows "ledger_inv (snd (Session_BindBytes h lease n p))"
proof (cases "snd (Session_BindBytes h lease n p) = p")
  case False
  then obtain q s q' l where hl: "h = Some (q, s)" "lease = Some (q', l)" and q': "q' = lg_peer p"
    and x: "\<not> ls_released (lg_leases p ! l)" "\<not> cl_BusinessStream (ls_claim (lg_leases p ! l))" "\<not> cl_PendingAccept (ls_claim (lg_leases p ! l))"
    and p': "snd (Session_BindBytes h lease n p) = on_lease l (\<lambda>x. x\<lparr>ls_bound := True\<rparr>) p"
    by (auto simp: Session_BindBytes_def Let_def split: option.splits prod.splits if_splits)
  have l: "l < length (lg_leases p)" using h hl q' by (simp add: lease_handle_def)
  note D = ledger_preD [OF pre]
  have ok: "lease_ok (length (lg_sessions p)) (lg_leases p ! l)" using accountsD(1) [OF D(2) l] by simp
  let ?p = "on_lease l (\<lambda>x. x\<lparr>ls_bound := True\<rparr>) p"
  have "accounts (lg_limits p) (ps_Usage (lg_usage p)) (map ss_usage (lg_sessions p))
      ((lg_leases p)[l := (lg_leases p ! l)\<lparr>ls_bound := True\<rparr>])"
  proof (rule accounts_replace [OF D(2) l])
    show "lease_ok (length (map ss_usage (lg_sessions p))) ((lg_leases p ! l)\<lparr>ls_bound := True\<rparr>)"
      using ok x by (simp add: lease_ok_def)
    show "session_within (lg_limits p) (map ss_usage (lg_sessions p) ! i)" if "i < length (map ss_usage (lg_sessions p))" for i
      by (rule accountsD(5) [OF D(2) that])
  qed (simp_all add: share_def accountsD(3) [OF D(2)])
  then have "booked ?p" by simp
  moreover have "slots {} ?p" using D(3) by (simp add: slots_def)
  ultimately show ?thesis using D(1) unfolding p' by (simp add: ledger_pre_def)
qed (use pre in simp)

text \<open>Between the debit of a session and \<open>retireLocked\<close> that session may be behind.\<close>

lemma slots_behind:
  assumes sl: "slots {} p" and s: "s < length (lg_sessions p)" and r: "\<not> ss_retired (lg_sessions p ! s)"
    and p': "lg_sessions p' = (lg_sessions p)[s := (lg_sessions p ! s)\<lparr>ss_usage := v\<rparr>]" "lg_usage p' = (lg_usage p)\<lparr>ps_Usage := u\<rparr>"
      "lg_limits p' = lg_limits p" "lg_live p' = lg_live p"
  shows "slots {s} p'"
proof (rule slots_session [OF sl s])
  show "flag_ok (s \<in> {s}) (ps_Closed (lg_usage p)) ((lg_sessions p ! s)\<lparr>ss_usage := v\<rparr>)"
    using r by (simp add: flag_ok_def)
qed (use p' in simp_all)

lemma closed_session:
  "ledger_inv p \<Longrightarrow> s < length (lg_sessions p) \<Longrightarrow> ps_Closed (lg_usage p) \<longrightarrow> ss_closed (lg_sessions p ! s)"
  using slotsD(3) [OF ledger_preD(3), of "{}" p s] unfolding flag_ok_def by blast

lemma Release_inv:
  assumes pre: "ledger_inv p" and h: "lease_handle p h" "own_handle p h"
  shows "ledger_inv (Lease_Release h p)"
proof (cases "\<exists>q l. h = Some (q, l) \<and> \<not> ls_released (lg_leases p ! l)")
  case False
  then have "Lease_Release h p = p" by (auto simp: Lease_Release_def split: option.split)
  then show ?thesis using pre by simp
next
  case True
  then obtain q l where hl: "h = Some (q, l)" and live: "\<not> ls_released (lg_leases p ! l)" by blast
  have l: "l < length (lg_leases p)" using h hl by (simp add: lease_handle_def own_handle_def)
  obtain s where o: "ls_owner (lg_leases p ! l) = Some s" using live_lease [OF pre l live] by blast
  note s = owner_reserved [OF pre l o] and D = ledger_preD [OF pre]
  let ?c = "ls_claim (lg_leases p ! l)"
  define p1 where "p1 = on_lease l (\<lambda>x. x\<lparr>ls_released := True, ls_owner := None, ls_claim := zeroClaim\<rparr>)
      (on_usage (subtractClaim ?c) (on_session_usage s (subtractClaim ?c) p))"
  have eq: "Lease_Release h p = retireLocked s p1" using live o by (simp add: hl Lease_Release_def Let_def p1_def)
  have "booked p1"
    using accounts_release [OF D(2) l o, of "(lg_leases p ! l)\<lparr>ls_released := True, ls_owner := None, ls_claim := zeroClaim\<rparr>"] s(1)
    by (simp add: p1_def on_session_usage_def map_update)
  moreover have "slots {s} p1"
    by (rule slots_behind [OF D(3) s(1,3)]) (simp_all add: p1_def on_session_usage_def)
  ultimately have "ledger_pre {s} p1" using D(1) by (simp add: ledger_pre_def p1_def on_session_usage_def)
  from retire_pre [OF this, of s] closed_session [OF pre s(1)] s(1) show ?thesis
    by (simp add: eq p1_def on_session_usage_def)
qed

lemma Transfer_inv:
  assumes pre: "ledger_inv p" and h: "lease_handle p h" "own_handle p h" and d: "session_handle p d"
  shows "ledger_inv (snd (Lease_Transfer h d p))"
proof (cases "snd (Lease_Transfer h d p) = p")
  case False
  then obtain q l t where hl: "h = Some (q, l)" and dt: "d = Some (lg_peer p, t)" and live: "\<not> ls_released (lg_leases p ! l)"
    and t: "\<not> ss_closed (lg_sessions p ! t)" "ls_owner (lg_leases p ! l) \<noteq> Some t"
    and chk: "checkSessionClaimLocked (lg_limits p) (ss_usage (lg_sessions p ! t)) (ls_claim (lg_leases p ! l)) = None"
    and p': "snd (Lease_Transfer h d p) = retireLocked (the (ls_owner (lg_leases p ! l)))
        (on_lease l (\<lambda>x. x\<lparr>ls_owner := Some t\<rparr>) (on_session_usage t (addClaim (ls_claim (lg_leases p ! l)))
          (on_session_usage (the (ls_owner (lg_leases p ! l))) (subtractClaim (ls_claim (lg_leases p ! l))) p)))"
    unfolding Lease_Transfer_def Let_def by (auto split: option.splits prod.splits if_splits)
  have l: "l < length (lg_leases p)" using h hl by (simp add: lease_handle_def own_handle_def)
  have tl: "t < length (lg_sessions p)" using d dt by (simp add: session_handle_def)
  obtain s where o: "ls_owner (lg_leases p ! l) = Some s" using live_lease [OF pre l live] by blast
  note s = owner_reserved [OF pre l o] and D = ledger_preD [OF pre]
  have ts: "t \<noteq> s" using t(2) o by simp
  let ?c = "ls_claim (lg_leases p ! l)"
  define p1 where "p1 = on_session_usage s (subtractClaim ?c) p"
  define p2 where "p2 = on_lease l (\<lambda>x. x\<lparr>ls_owner := Some t\<rparr>) (on_session_usage t (addClaim ?c) p1)"
  have sl1: "slots {s} p1"
    by (rule slots_behind [OF D(3) s(1,3), where u = "ps_Usage (lg_usage p)"]) (simp_all add: p1_def on_session_usage_def)
  have x1: "lg_sessions p1 ! t = lg_sessions p ! t" "t < length (lg_sessions p1)" "lg_usage p1 = lg_usage p"
    using ts tl by (simp_all add: p1_def on_session_usage_def)
  have open_t: "\<not> ss_retired (lg_sessions p ! t)" "\<not> ps_Closed (lg_usage p)"
    using slotsD(3) [OF D(3) tl] t(1) by (auto simp: flag_ok_def)
  have "slots {s} p2"
  proof (rule slots_session [OF sl1 x1(2)])
    let ?y = "(lg_sessions p ! t)\<lparr>ss_usage := addClaim ?c (ss_usage (lg_sessions p ! t))\<rparr>"
    show "flag_ok (t \<in> {s}) (ps_Closed (lg_usage p1)) ?y" by (rule flag_ok_open) (use t(1) open_t x1(3) in simp_all)
    show "lg_sessions p2 = (lg_sessions p1)[t := ?y]" by (simp add: p2_def on_session_usage_def x1(1))
    show "lg_usage p2 = (lg_usage p1)\<lparr>ps_Usage := ps_Usage (lg_usage p)\<rparr>" by (simp add: p2_def on_session_usage_def x1(3))
  qed (simp_all add: p2_def on_session_usage_def x1(1))
  moreover have "booked p2"
    using accounts_transfer [OF D(2,1) l o _ ts] tl s(1) chk x1 by (simp add: p2_def p1_def on_session_usage_def map_update)
  ultimately have "ledger_pre {s} p2" using D(1) by (simp add: ledger_pre_def p2_def p1_def on_session_usage_def)
  from retire_pre [OF this, of s] closed_session [OF pre s(1)] s(1) ts show ?thesis
    unfolding p' by (simp add: o p2_def p1_def on_session_usage_def)
qed (use pre in simp)

subsection \<open>Shutdown\<close>

lemma close_pre:
  assumes pre: "ledger_pre S p" and s: "s < length (lg_sessions p)"
  shows "ledger_pre (S - {s}) (retireLocked s (on_session s (\<lambda>x. x\<lparr>ss_closed := True\<rparr>) p))"
proof -
  let ?p = "on_session s (\<lambda>x. x\<lparr>ss_closed := True\<rparr>) p" and ?x = "lg_sessions p ! s"
  note D = ledger_preD [OF pre]
  have "map ss_usage (lg_sessions ?p) = map ss_usage (lg_sessions p)"
    using s by (simp add: map_update list_update_same_conv)
  then have "booked ?p" using D(2) by simp
  moreover have "slots (insert s S) ?p"
  proof (rule slots_session [OF D(3) s, where u = "ps_Usage (lg_usage p)"])
    show "flag_ok (s \<in> insert s S) (ps_Closed (lg_usage p)) (?x\<lparr>ss_closed := True\<rparr>)"
      using slotsD(3) [OF D(3) s] by (simp add: flag_ok_def)
  qed auto
  ultimately have "ledger_pre (insert s S) ?p" using D(1) by (simp add: ledger_pre_def)
  from retire_pre [OF this, of s] s show ?thesis by (simp add: insert_Diff_if)
qed

lemma Session_Close_inv:
  assumes pre: "ledger_inv p" and h: "session_handle p h" "own_handle p h"
  shows "ledger_inv (Session_Close h p)"
  using close_pre [OF pre] pre h
  by (auto simp: Session_Close_def session_handle_def own_handle_def split: option.split)

lemma retire_length [simp]: "length (lg_sessions (retireLocked s p)) = length (lg_sessions p)"
  by (simp add: retireLocked_def Let_def)

lemma close_all_pre:
  assumes "ledger_pre S p" "set live \<subseteq> {s. s < length (lg_sessions p)}"
  shows "ledger_pre (S - set live) (fold (\<lambda>s p. retireLocked s (on_session s (\<lambda>x. x\<lparr>ss_closed := True\<rparr>) p)) live p)"
  using assms
proof (induction live arbitrary: S p)
  case (Cons s live)
  have "S - set (s # live) = S - {s} - set live" by auto
  then show ?case using Cons.IH [OF close_pre [OF Cons.prems(1), of s]] Cons.prems(2) by auto
qed simp

lemma Peer_Close_inv:
  assumes pre: "ledger_inv p"
  shows "ledger_inv (Peer_Close p)"
proof (cases "ps_Closed (lg_usage p)")
  case False
  let ?p = "p\<lparr>lg_usage := (lg_usage p)\<lparr>ps_Closed := True\<rparr>\<rparr>"
  note D = ledger_preD [OF pre]
  have live: "set (lg_live p) = {s. s < length (lg_sessions p) \<and> \<not> ss_retired (lg_sessions p ! s)}"
    using slotsD(2) [OF D(3)] by (simp add: live_ok_def)
  have "ledger_pre (set (lg_live p)) ?p"
  proof (rule ledger_preI)
    show "slot_counts (lg_limits ?p) (lg_usage ?p) (lg_sessions ?p)" using slotsD(1) [OF D(3)] by (simp add: slot_counts_def)
    show "flag_ok (s \<in> set (lg_live p)) (ps_Closed (lg_usage ?p)) (lg_sessions ?p ! s)" if "s < length (lg_sessions ?p)" for s
    proof -
      have "s < length (lg_sessions p)" using that by simp
      then have "s \<in> set (lg_live p) \<or> ss_retired (lg_sessions p ! s)" "flag_ok (s \<in> {}) (ps_Closed (lg_usage p)) (lg_sessions p ! s)"
        using slotsD(3) [OF D(3), of s] by (simp_all add: live)
      moreover have "s \<in> set (lg_live p) \<Longrightarrow> \<not> ss_retired (lg_sessions p ! s)" by (simp add: live)
      ultimately have "flag_ok (s \<in> set (lg_live p)) True (lg_sessions p ! s)"
        using flag_ok_retired [of "lg_sessions p ! s"] flag_ok_live [of "lg_sessions p ! s" True]
        by (cases "s \<in> set (lg_live p)") (simp only: simp_thms, blast)
      then show ?thesis by simp
    qed
  qed (use D(1,2) slotsD(2) [OF D(3)] in simp_all)
  from close_all_pre [OF this, of "lg_live p"] live False show ?thesis by (auto simp: Peer_Close_def)
qed (use pre in \<open>simp add: Peer_Close_def\<close>)

end
