(* ===== verification/CreditUse.thy ===== *)
theory CreditUse
  imports CreditSteps
begin

text \<open>
  The ledger as a transition system over all its operations, and its properties: the counters are the
  sums over the live leases within every ceiling, a refusal changes nothing, a reservation is granted
  exactly when there is room, release returns exactly what was taken, and a closed peer whose leases
  are all released is empty.
\<close>

subsection \<open>Operations\<close>

datatype ledger_op =
    OpBegin Claim bool
  | OpPromote handle
  | OpReserve handle Claim
  | OpBind handle handle u64
  | OpTransfer handle handle
  | OpAccept handle
  | OpShrink handle u64
  | OpRelease handle
  | OpCloseSession handle
  | OpClosePeer

text \<open>A Go pointer always denotes an allocated object; the receiver belongs to this peer, an argument
  may belong to another one.\<close>

fun op_ok :: "Ledger \<Rightarrow> ledger_op \<Rightarrow> bool" where
  "op_ok p (OpBegin c b) = True"
| "op_ok p (OpPromote h) = (session_handle p h \<and> own_handle p h)"
| "op_ok p (OpReserve h c) = (session_handle p h \<and> own_handle p h)"
| "op_ok p (OpBind h l n) = (session_handle p h \<and> own_handle p h \<and> lease_handle p l)"
| "op_ok p (OpTransfer l h) = (lease_handle p l \<and> own_handle p l \<and> session_handle p h)"
| "op_ok p (OpAccept l) = (lease_handle p l \<and> own_handle p l)"
| "op_ok p (OpShrink l n) = (lease_handle p l \<and> own_handle p l)"
| "op_ok p (OpRelease l) = (lease_handle p l \<and> own_handle p l)"
| "op_ok p (OpCloseSession h) = (session_handle p h \<and> own_handle p h)"
| "op_ok p OpClosePeer = True"

definition failed :: "('e, 'a) result \<times> 's \<Rightarrow> 'e option \<times> 's" where
  "failed r = (case fst r of Inl e \<Rightarrow> Some e | Inr _ \<Rightarrow> None, snd r)"

fun ledger_apply :: "ledger_op \<Rightarrow> Ledger \<Rightarrow> credit_error option \<times> Ledger" where
  "ledger_apply (OpBegin c b) p = failed (if b then BeginHandshake c p else BeginSession c p)"
| "ledger_apply (OpPromote h) p = Session_Promote h p"
| "ledger_apply (OpReserve h c) p = failed (Session_Reserve h c p)"
| "ledger_apply (OpBind h l n) p = failed (Session_BindBytes h l n p)"
| "ledger_apply (OpTransfer l h) p = Lease_Transfer l h p"
| "ledger_apply (OpAccept l) p = Lease_MarkAccepted l p"
| "ledger_apply (OpShrink l n) p = Lease_ShrinkBytes l n p"
| "ledger_apply (OpRelease l) p = (None, Lease_Release l p)"
| "ledger_apply (OpCloseSession h) p = (None, Session_Close h p)"
| "ledger_apply OpClosePeer p = (None, Peer_Close p)"

definition ledger_start :: "Ledger \<Rightarrow> bool" where
  "ledger_start p \<longleftrightarrow> (\<exists>peer limits. Peer_New peer limits = Inr p)"

inductive ledger_step :: "Ledger \<Rightarrow> Ledger \<Rightarrow> bool" where
  step: "op_ok p op \<Longrightarrow> ledger_step p (snd (ledger_apply op p))"

inductive_cases ledger_stepE: "ledger_step p p'"

lemma Peer_New_inv:
  assumes "Peer_New peer limits = Inr p"
  shows "ledger_inv p"
proof -
  have L: "limits_ok limits"
    using assms by (auto simp: Peer_New_def limits_ok_def not_less unat_gt_0 split: if_splits)
  have p: "lg_limits p = limits" "lg_sessions p = []" "lg_leases p = []" "lg_live p = []"
    "lg_usage p = \<lparr>ps_Usage = zeroUsage, ps_SessionSlots = 0, ps_PendingHandshakes = 0, ps_EstablishedSessions = 0, ps_Closed = False\<rparr>"
    using assms by (auto simp: Peer_New_def split: if_splits)
  have "accounts limits zeroUsage [] []" using L
    by (simp add: accounts_def owed_def peer_within_def zeroUsage_def limits_ok_def)
       (auto simp: zeroUsage_def intro: used_zero [unfolded zeroUsage_def])
  then show ?thesis using L
    by (intro ledger_preI) (simp_all add: p slot_counts_def tallied_def live_ok_def limits_ok_def)
qed

interpretation ledger_system: transition_system ledger_start ledger_step ledger_inv
proof unfold_locales
  show "ledger_start p \<Longrightarrow> ledger_inv p" for p
    using Peer_New_inv by (auto simp: ledger_start_def)
  show "ledger_inv p'" if inv: "ledger_inv p" and "ledger_step p p'" for p p'
  proof -
    obtain op where "op_ok p op" "p' = snd (ledger_apply op p)" using \<open>ledger_step p p'\<close> by (elim ledger_stepE) blast
    then show ?thesis
      by (cases op) (simp_all add: inv failed_def BeginHandshake_def BeginSession_def Peer_begin_inv Promote_inv Reserve_inv
          BindBytes_inv Transfer_inv MarkAccepted_inv ShrinkBytes_inv Release_inv Session_Close_inv Peer_Close_inv)
  qed
qed

subsection \<open>Live leases\<close>

definition live_leases :: "(nat option \<Rightarrow> bool) \<Rightarrow> Ledger \<Rightarrow> leaseState list" where
  "live_leases Q p = filter (\<lambda>l. Q (ls_owner l)) (lg_leases p)"

lemma owed_filter: "owed Q k ls = sum_list (map (amount k \<circ> ls_claim) (filter (\<lambda>l. Q (ls_owner l)) ls))"
  unfolding owed_def by (induction ls) (simp_all add: share_def)

lemma inv_used:
  assumes "ledger_inv p"
  shows "used k (ps_Usage (lg_usage p)) = sum_list (map (amount k \<circ> ls_claim) (live_leases (\<lambda>w. w \<noteq> None) p))"
    "s < length (lg_sessions p) \<Longrightarrow>
       used k (ss_usage (lg_sessions p ! s)) = sum_list (map (amount k \<circ> ls_claim) (live_leases (\<lambda>w. w = Some s) p))"
  using accountsD(2,4) [OF ledger_preD(2) [OF assms]] by (simp_all add: live_leases_def owed_filter)

lemma inv_released:
  "ledger_inv p \<Longrightarrow> l < length (lg_leases p) \<Longrightarrow> ls_released (lg_leases p ! l) \<longleftrightarrow> ls_owner (lg_leases p ! l) = None"
  using accountsD(1) [OF ledger_preD(2)] by (simp add: lease_ok_def)

lemma tallied_length: "tallied P ss = int (length (filter P ss))"
  unfolding tallied_def by (induction ss) simp_all

text \<open>C6: In every reachable ledger each counter of the peer's snapshot is the sum over the leases that
  have not been released, and each counter of a session is the sum over the leases it owns; all of them
  respect the peer's and the session's ceilings, the slot counters count the sessions that are not
  retired, and a session is retired exactly when it is closed and owns no lease.\<close>

theorem ledger_accounts_exact:
  assumes "reachable ledger_start ledger_step p"
  shows "used k (ps_Usage (Peer_Snapshot p)) = sum_list (map (amount k \<circ> ls_claim) (filter (\<lambda>l. \<not> ls_released l) (lg_leases p))) \<and>
    peer_within (lg_limits p) (ps_Usage (Peer_Snapshot p)) \<and>
    (\<forall>s < length (lg_sessions p).
       used k (sn_Usage (Session_Snapshot (Some (lg_peer p, s)) p)) =
         sum_list (map (amount k \<circ> ls_claim) (live_leases (\<lambda>w. w = Some s) p)) \<and>
       session_within (lg_limits p) (ss_usage (lg_sessions p ! s)) \<and>
       (ss_retired (lg_sessions p ! s) \<longleftrightarrow> ss_closed (lg_sessions p ! s) \<and> live_leases (\<lambda>w. w = Some s) p = [])) \<and>
    ps_SessionSlots (Peer_Snapshot p) = int (length (filter (\<lambda>x. \<not> ss_retired x) (lg_sessions p))) \<and>
    ps_SessionSlots (Peer_Snapshot p) \<le> MaxSessions (lg_limits p) \<and>
    ps_PendingHandshakes (Peer_Snapshot p) \<le> MaxPendingHandshakes (lg_limits p) \<and>
    ps_SessionSlots (Peer_Snapshot p) = ps_PendingHandshakes (Peer_Snapshot p) + ps_EstablishedSessions (Peer_Snapshot p)"
proof -
  have inv: "ledger_inv p" by (rule ledger_system.reachable_inv [OF assms])
  note D = ledger_preD [OF inv]
  have "filter (\<lambda>l. \<not> ls_released l) (lg_leases p) = live_leases (\<lambda>w. w \<noteq> None) p"
    unfolding live_leases_def by (rule filter_cong) (auto simp: in_set_conv_nth inv_released [OF inv])
  moreover have "ss_retired (lg_sessions p ! s) \<longleftrightarrow> ss_closed (lg_sessions p ! s) \<and> live_leases (\<lambda>w. w = Some s) p = []"
    if s: "s < length (lg_sessions p)" for s
  proof -
    have "used DReservations (ss_usage (lg_sessions p ! s)) = int (length (live_leases (\<lambda>w. w = Some s) p))"
      by (simp only: inv_used(2) [OF inv s] o_def amount.simps) (simp add: sum_list_triv)
    then have "us_Reservations (ss_usage (lg_sessions p ! s)) = 0 \<longleftrightarrow> live_leases (\<lambda>w. w = Some s) p = []" by simp
    then show ?thesis using slotsD(3) [OF D(3) s] unfolding flag_ok_def by blast
  qed
  moreover have "session_within (lg_limits p) (ss_usage (lg_sessions p ! s))" if "s < length (lg_sessions p)" for s
    using accountsD(5) [OF D(2), of s] that by simp
  moreover have "length (filter (\<lambda>x. \<not> ss_retired x \<and> ss_pendingHandshake x) ss) + length (filter (\<lambda>x. \<not> ss_retired x \<and> \<not> ss_pendingHandshake x) ss)
      = length (filter (\<lambda>x. \<not> ss_retired x) ss)" for ss
    by (induction ss) simp_all
  then have "length (filter (\<lambda>x. \<not> ss_retired x) (lg_sessions p)) = length (filter (\<lambda>x. \<not> ss_retired x \<and> ss_pendingHandshake x) (lg_sessions p)) +
      length (filter (\<lambda>x. \<not> ss_retired x \<and> \<not> ss_pendingHandshake x) (lg_sessions p))" by (rule sym)
  ultimately show ?thesis
    using inv_used [OF inv, where k = k] accountsD(3) [OF D(2)] slotsD(1) [OF D(3)]
    by (simp add: Peer_Snapshot_def Session_Snapshot_def Let_def slot_counts_def tallied_length flip: of_nat_add)
qed

subsection \<open>Refusals\<close>

text \<open>Admission is transactional: whichever operation reports an error, the ledger is exactly what it
  was, no partial charge, lease or session remains.\<close>

theorem ledger_errors_change_nothing:
  assumes "fst (ledger_apply op p) = Some err"
  shows "snd (ledger_apply op p) = p"
proof (cases op)
  case (OpBegin c b)
  then show ?thesis using assms
    by (auto simp: failed_def BeginHandshake_def BeginSession_def Peer_begin_def Let_def split: option.splits if_splits)
next
  case (OpPromote h)
  then show ?thesis using assms by (auto simp: Session_Promote_def Let_def split: option.splits if_splits)
next
  case (OpReserve h c)
  then show ?thesis using assms by (auto simp: failed_def Session_Reserve_def split: option.splits if_splits)
next
  case (OpBind h l n)
  then show ?thesis using assms
    by (auto simp: failed_def Session_BindBytes_def Let_def split: option.splits prod.splits if_splits)
next
  case (OpTransfer l h)
  then show ?thesis using assms by (auto simp: Lease_Transfer_def Let_def split: option.splits prod.splits if_splits)
next
  case (OpAccept l)
  then show ?thesis using assms by (auto simp: Lease_MarkAccepted_def Let_def split: option.splits if_splits)
next
  case (OpShrink l n)
  then show ?thesis using assms by (auto simp: Lease_ShrinkBytes_def Let_def split: option.splits if_splits)
qed (use assms in simp_all)

definition example_limits :: Limits where
  "example_limits = \<lparr>MaxPeerBytes = 100, MaxSessionBytes = 60, MaxSessions = 4, MaxPendingHandshakes = 2,
     MaxPendingAccepts = 2, MaxStreamsPerSession = 2, MaxPeerStreams = 3, MaxReservations = 8\<rparr>"

definition bytes_claim :: "u64 \<Rightarrow> Claim" where
  "bytes_claim n = \<lparr>cl_Bytes = n, cl_BusinessStream = False, cl_PendingAccept = False\<rparr>"

definition example_start :: Ledger where
  "example_start = \<lparr>lg_peer = 7, lg_limits = example_limits,
     lg_usage = \<lparr>ps_Usage = zeroUsage, ps_SessionSlots = 0, ps_PendingHandshakes = 0, ps_EstablishedSessions = 0, ps_Closed = False\<rparr>,
     lg_live = [], lg_sessions = [], lg_leases = []\<rparr>"

lemma example_new: "Peer_New 7 example_limits = Inr example_start"
  by (simp add: Peer_New_def example_limits_def example_start_def)

text \<open>Two sessions are begun, the first with an initial lease of 50 bytes and a second lease of 10.\<close>

definition example_ledger :: Ledger where
  "example_ledger = snd (Session_Reserve (Some (7, 0)) (bytes_claim 10)
     (snd (BeginSession zeroClaim (snd (BeginHandshake (bytes_claim 50) (example_start))))))"

lemma example_reachable: "reachable ledger_start ledger_step example_ledger"
proof -
  have "reachable ledger_start ledger_step (example_start)"
    by (rule reach_start) (use example_new in \<open>auto simp: ledger_start_def\<close>)
  from reach_step [OF this step [of _ "OpBegin (bytes_claim 50) True"]]
  have "reachable ledger_start ledger_step (snd (BeginHandshake (bytes_claim 50) (example_start)))"
    by (simp add: failed_def)
  from reach_step [OF this step [of _ "OpBegin zeroClaim False"]]
  have *: "reachable ledger_start ledger_step (snd (BeginSession zeroClaim (snd (BeginHandshake (bytes_claim 50) (example_start)))))"
    by (simp add: failed_def)
  have "length (lg_sessions (snd (BeginSession zeroClaim (snd (BeginHandshake (bytes_claim 50) example_start))))) = 2"
    "lg_peer (snd (BeginSession zeroClaim (snd (BeginHandshake (bytes_claim 50) example_start)))) = 7" by code_simp+
  then have "op_ok (snd (BeginSession zeroClaim (snd (BeginHandshake (bytes_claim 50) example_start)))) (OpReserve (Some (7, 0)) (bytes_claim 10))"
    by (simp add: session_handle_def own_handle_def)
  from reach_step [OF * step [OF this]] show ?thesis by (simp add: failed_def example_ledger_def)
qed

theorem ledger_accounts_exact_witness:
  "reachable ledger_start ledger_step example_ledger \<and>
   used DBytes (ps_Usage (Peer_Snapshot example_ledger)) = 60 \<and>
   sum_list (map (amount DBytes \<circ> ls_claim) (filter (\<lambda>l. \<not> ls_released l) (lg_leases example_ledger))) = 60"
proof -
  have "used DBytes (ps_Usage (Peer_Snapshot example_ledger)) = 60" by code_simp
  then show ?thesis using ledger_accounts_exact [OF example_reachable, of DBytes] example_reachable by simp
qed

theorem ledger_errors_change_nothing_witness:
  "fst (ledger_apply (OpReserve (Some (7, 0)) (bytes_claim 1)) example_ledger) = Some ErrResourceLimit \<and>
   snd (ledger_apply (OpReserve (Some (7, 0)) (bytes_claim 1)) example_ledger) = example_ledger"
proof -
  have "fst (ledger_apply (OpReserve (Some (7, 0)) (bytes_claim 1)) example_ledger) = Some ErrResourceLimit" by code_simp
  then show ?thesis using ledger_errors_change_nothing by blast
qed

subsection \<open>Reservations\<close>

lemma session_room:
  assumes "session_within L u" "MaxSessionBytes L \<le> MaxPeerBytes L"
  shows "checkSessionClaimLocked L u c = None \<longleftrightarrow>
    unat (us_Bytes u) + unat (cl_Bytes c) \<le> unat (MaxSessionBytes L) \<and>
    (cl_BusinessStream c \<longrightarrow> us_BusinessStreams u < MaxStreamsPerSession L)"
proof -
  have "unat (us_Bytes u) \<le> unat (MaxSessionBytes L)" using assms by (simp add: session_within_def word_le_nat_alt)
  then have "MaxSessionBytes L - us_Bytes u < cl_Bytes c \<longleftrightarrow> unat (MaxSessionBytes L) < unat (us_Bytes u) + unat (cl_Bytes c)"
    by (simp add: word_less_nat_alt unat_sub word_le_nat_alt less_diff_conv2 add.commute)
  then show ?thesis using assms by (auto simp: session_within_def checkSessionClaimLocked_def)
qed

lemma peer_room:
  assumes "peer_within L u"
  shows "cl_Bytes c \<le> MaxPeerBytes L - us_Bytes u \<longleftrightarrow> unat (us_Bytes u) + unat (cl_Bytes c) \<le> unat (MaxPeerBytes L)"
    "us_Reservations u \<noteq> MaxReservations L \<longleftrightarrow> us_Reservations u < MaxReservations L"
    "us_BusinessStreams u \<noteq> MaxPeerStreams L \<longleftrightarrow> us_BusinessStreams u < MaxPeerStreams L"
    "us_PendingAccepts u \<noteq> MaxPendingAccepts L \<longleftrightarrow> us_PendingAccepts u < MaxPendingAccepts L"
  using assms by (auto simp: peer_within_def word_le_nat_alt unat_sub)

text \<open>Room for a claim, in unbounded arithmetic.\<close>

definition has_room :: "Limits \<Rightarrow> Usage \<Rightarrow> Usage \<Rightarrow> Claim \<Rightarrow> bool" where
  "has_room L peer sess c \<longleftrightarrow>
     unat (us_Bytes sess) + unat (cl_Bytes c) \<le> unat (MaxSessionBytes L) \<and>
     unat (us_Bytes peer) + unat (cl_Bytes c) \<le> unat (MaxPeerBytes L) \<and>
     us_Reservations peer < MaxReservations L \<and>
     (cl_BusinessStream c \<longrightarrow> us_BusinessStreams sess < MaxStreamsPerSession L \<and> us_BusinessStreams peer < MaxPeerStreams L) \<and>
     (cl_PendingAccept c \<longrightarrow> us_PendingAccepts peer < MaxPendingAccepts L)"

lemma checkClaim_room:
  assumes inv: "ledger_inv p" and s: "s < length (lg_sessions p)"
  shows "checkClaimLocked p (ss_usage (lg_sessions p ! s)) c =
    (if has_room (lg_limits p) (ps_Usage (lg_usage p)) (ss_usage (lg_sessions p ! s)) c then None else Some ErrResourceLimit)"
proof -
  note D = ledger_preD [OF inv]
  have w: "peer_within (lg_limits p) (ps_Usage (lg_usage p))" "session_within (lg_limits p) (ss_usage (lg_sessions p ! s))"
    using accountsD(3,5) [OF D(2)] s by simp_all
  have "checkClaimLocked p v c = None \<or> checkClaimLocked p v c = Some ErrResourceLimit" for v
    by (simp add: checkClaimLocked_def checkSessionClaimLocked_def Let_def)
  moreover have "checkClaimLocked p (ss_usage (lg_sessions p ! s)) c = None \<longleftrightarrow>
      has_room (lg_limits p) (ps_Usage (lg_usage p)) (ss_usage (lg_sessions p ! s)) c"
    using D(1) by (auto simp: checkClaim_None session_room [OF w(2)] peer_room [OF w(1)] has_room_def limits_ok_def)
  ultimately show ?thesis by metis
qed

text \<open>C21: \<open>Session.Reserve\<close> on a reachable ledger: an empty claim is invalid, a closed session or peer
  refuses, and otherwise the lease is granted exactly when the claim fits the session and the peer in
  unbounded arithmetic, so the wrapping 64-bit comparisons never admit too much. A granted claim is
  added exactly to the peer and to this session and to no other session.\<close>

theorem reserve_grants_iff_room:
  assumes "reachable ledger_start ledger_step p" "s < length (lg_sessions p)" "\<not> claim_empty c"
    "\<not> ss_closed (lg_sessions p ! s)" "\<not> ps_Closed (lg_usage p)"
  shows "if has_room (lg_limits p) (ps_Usage (lg_usage p)) (ss_usage (lg_sessions p ! s)) c
     then \<exists>p'. Session_Reserve (Some (lg_peer p, s)) c p = (Inr (Some (lg_peer p, length (lg_leases p))), p') \<and>
       (\<forall>k. used k (ps_Usage (lg_usage p')) = used k (ps_Usage (lg_usage p)) + amount k c) \<and>
       (\<forall>k. used k (ss_usage (lg_sessions p' ! s)) = used k (ss_usage (lg_sessions p ! s)) + amount k c) \<and>
       (\<forall>t. t \<noteq> s \<longrightarrow> lg_sessions p' ! t = lg_sessions p ! t) \<and>
       Lease_Snapshot (Some (lg_peer p, length (lg_leases p))) p' = \<lparr>ln_Claim = c, ln_Released = False\<rparr>
     else Session_Reserve (Some (lg_peer p, s)) c p = (Inl ErrResourceLimit, p)"
proof -
  have inv: "ledger_inv p" by (rule ledger_system.reachable_inv [OF assms(1)])
  note D = ledger_preD [OF inv] and room = checkClaim_room [OF inv assms(2), of c]
  show ?thesis
  proof (cases "has_room (lg_limits p) (ps_Usage (lg_usage p)) (ss_usage (lg_sessions p ! s)) c")
    case True
    have "unat (MaxPeerBytes (lg_limits p)) < 2 ^ 64" "unat (MaxSessionBytes (lg_limits p)) < 2 ^ 64"
      using unat_less_u64 by simp_all
    then have "unat (us_Bytes (ps_Usage (lg_usage p))) + unat (cl_Bytes c) < 2 ^ 64"
      "unat (us_Bytes (ss_usage (lg_sessions p ! s))) + unat (cl_Bytes c) < 2 ^ 64"
      using True unfolding has_room_def by (meson le_less_trans)+
    note add = used_addClaim [OF this(1)] used_addClaim [OF this(2)]
    show ?thesis
      using True room assms(2-5)
      by (simp add: Session_Reserve_def charge_fields Lease_Snapshot_def newLease_def add)
  next
    case False
    then show ?thesis using room assms(3-5) by (simp add: Session_Reserve_def)
  qed
qed

theorem reserve_grants_iff_room_witness:
  "has_room (lg_limits example_ledger) (ps_Usage (lg_usage example_ledger)) (ss_usage (lg_sessions example_ledger ! 1)) (bytes_claim 40) \<and>
   \<not> has_room (lg_limits example_ledger) (ps_Usage (lg_usage example_ledger)) (ss_usage (lg_sessions example_ledger ! 1)) (bytes_claim 41) \<and>
   (\<exists>p'. Session_Reserve (Some (7, 1)) (bytes_claim 40) example_ledger = (Inr (Some (7, 2)), p')) \<and>
   Session_Reserve (Some (7, 1)) (bytes_claim 41) example_ledger = (Inl ErrResourceLimit, example_ledger)"
proof -
  let ?room = "has_room (lg_limits example_ledger) (ps_Usage (lg_usage example_ledger)) (ss_usage (lg_sessions example_ledger ! 1))"
  have e: "1 < length (lg_sessions example_ledger)" "\<not> ss_closed (lg_sessions example_ledger ! 1)" "\<not> ps_Closed (lg_usage example_ledger)"
    "lg_peer example_ledger = 7" "length (lg_leases example_ledger) = 2" "\<not> claim_empty (bytes_claim 40)" "\<not> claim_empty (bytes_claim 41)"
    by code_simp+
  have r: "?room (bytes_claim 40)" "\<not> ?room (bytes_claim 41)" by code_simp+
  show ?thesis
    using reserve_grants_iff_room [OF example_reachable e(1,6,2,3)] reserve_grants_iff_room [OF example_reachable e(1,7,2,3)] r
    unfolding e(4,5) by auto
qed

subsection \<open>Release\<close>

lemma retire_fields [simp]:
  "lg_leases (retireLocked s p) = lg_leases p" "ps_Usage (lg_usage (retireLocked s p)) = ps_Usage (lg_usage p)"
  "ps_Closed (lg_usage (retireLocked s p)) = ps_Closed (lg_usage p)"
  by (simp_all add: retireLocked_def Let_def)

lemma retire_usage: "t < length (lg_sessions p) \<Longrightarrow> ss_usage (lg_sessions (retireLocked s p) ! t) = ss_usage (lg_sessions p ! t)"
  by (cases "t = s") (simp_all add: retireLocked_def Let_def)

text \<open>Releasing a live lease gives back exactly its claim to the peer and to the owning session,
  changes no other session's usage and no other lease, and releasing it again changes nothing.\<close>

theorem release_exact_and_idempotent:
  assumes "reachable ledger_start ledger_step p" "l < length (lg_leases p)" "ls_owner (lg_leases p ! l) = Some s"
  shows "let p' = Lease_Release (Some (lg_peer p, l)) p
    in (\<forall>k. used k (ps_Usage (lg_usage p')) = used k (ps_Usage (lg_usage p)) - amount k (ls_claim (lg_leases p ! l))) \<and>
       (\<forall>k. used k (ss_usage (lg_sessions p' ! s)) = used k (ss_usage (lg_sessions p ! s)) - amount k (ls_claim (lg_leases p ! l))) \<and>
       (\<forall>t < length (lg_sessions p). t \<noteq> s \<longrightarrow> ss_usage (lg_sessions p' ! t) = ss_usage (lg_sessions p ! t)) \<and>
       (\<forall>j. j \<noteq> l \<longrightarrow> lg_leases p' ! j = lg_leases p ! j) \<and>
       Lease_Snapshot (Some (lg_peer p, l)) p' = \<lparr>ln_Claim = zeroClaim, ln_Released = True\<rparr> \<and>
       Lease_Release (Some (lg_peer p, l)) p' = p'"
proof -
  have inv: "ledger_inv p" by (rule ledger_system.reachable_inv [OF assms(1)])
  note D = ledger_preD [OF inv] and l = assms(2) and o = assms(3)
  note s = owner_reserved(1) [OF inv l o]
  let ?c = "ls_claim (lg_leases p ! l)"
  define p1 where "p1 = on_lease l (\<lambda>x. x\<lparr>ls_released := True, ls_owner := None, ls_claim := zeroClaim\<rparr>)
      (on_usage (subtractClaim ?c) (on_session_usage s (subtractClaim ?c) p))"
  have eq: "Lease_Release (Some (lg_peer p, l)) p = retireLocked s p1"
    using inv_released [OF inv l] o by (simp add: Lease_Release_def Let_def p1_def)
  have "cl_Bytes ?c \<le> us_Bytes (ps_Usage (lg_usage p))" "cl_Bytes ?c \<le> us_Bytes (ss_usage (lg_sessions p ! s))"
    using bytes_le_used(1,2) [OF D(2) l o] s by simp_all
  note sub = this [THEN used_subtractClaim]
  have f: "lg_leases p1 = (lg_leases p)[l := (lg_leases p ! l)\<lparr>ls_released := True, ls_owner := None, ls_claim := zeroClaim\<rparr>]"
    "ps_Usage (lg_usage p1) = subtractClaim ?c (ps_Usage (lg_usage p))"
    "ss_usage (lg_sessions p1 ! s) = subtractClaim ?c (ss_usage (lg_sessions p ! s))"
    "length (lg_sessions p1) = length (lg_sessions p)"
    "\<And>t. t \<noteq> s \<Longrightarrow> ss_usage (lg_sessions p1 ! t) = ss_usage (lg_sessions p ! t)"
    using s by (simp_all add: p1_def on_session_usage_def)
  have "Lease_Release (Some (lg_peer p, l)) (retireLocked s p1) = retireLocked s p1"
    using l by (simp add: Lease_Release_def f(1))
  then show ?thesis
    using s l by (simp add: Let_def eq sub f retire_usage Lease_Snapshot_def)
qed

theorem release_exact_and_idempotent_witness:
  "used DBytes (ps_Usage (lg_usage (Lease_Release (Some (7, 0)) example_ledger))) = 10 \<and>
   Lease_Release (Some (7, 0)) (Lease_Release (Some (7, 0)) example_ledger) = Lease_Release (Some (7, 0)) example_ledger"
proof -
  have e: "0 < length (lg_leases example_ledger)" "ls_owner (lg_leases example_ledger ! 0) = Some 0" "lg_peer example_ledger = 7"
    "used DBytes (ps_Usage (lg_usage example_ledger)) = 60" "amount DBytes (ls_claim (lg_leases example_ledger ! 0)) = 50"
    by code_simp+
  show ?thesis using release_exact_and_idempotent [OF example_reachable e(1,2)] e(4,5) unfolding e(3) Let_def by auto
qed

subsection \<open>Shutdown\<close>

text \<open>Closing the peer keeps what live leases hold, admits nothing more, and once every lease has been
  released, in whatever order the closing and the releases happened, the snapshot of the peer is zero:
  no byte, stream, accept, reservation or slot leaks.\<close>

theorem drained_peer_is_empty:
  assumes "reachable ledger_start ledger_step p" "ps_Closed (lg_usage p)"
    and "\<forall>l < length (lg_leases p). ls_released (lg_leases p ! l)"
  shows "Peer_Snapshot p = \<lparr>ps_Usage = zeroUsage, ps_SessionSlots = 0, ps_PendingHandshakes = 0, ps_EstablishedSessions = 0, ps_Closed = True\<rparr> \<and>
    lg_live p = [] \<and> fst (BeginSession c p) = Inl ErrClosed \<and> Peer_Close p = p"
proof -
  have inv: "ledger_inv p" by (rule ledger_system.reachable_inv [OF assms(1)])
  note D = ledger_preD [OF inv]
  have none: "live_leases Q p = []" if "\<not> Q None" for Q
    unfolding live_leases_def using inv_released [OF inv] assms(3) that by (auto simp: filter_empty_conv in_set_conv_nth)
  have zero: "used k (ps_Usage (lg_usage p)) = 0" for k by (simp add: inv_used(1) [OF inv] none)
  have "us_Bytes (ps_Usage (lg_usage p)) = 0" "us_Reservations (ps_Usage (lg_usage p)) = 0"
    "us_BusinessStreams (ps_Usage (lg_usage p)) = 0" "us_PendingAccepts (ps_Usage (lg_usage p)) = 0"
    using zero [of DBytes] zero [of DReservations] zero [of DStreams] zero [of DAccepts]
    by (simp_all add: unat_eq_0 del: of_nat_unat)
  then have u: "ps_Usage (lg_usage p) = zeroUsage" by (simp add: zeroUsage_def)
  have ret: "ss_retired x" if x: "x \<in> set (lg_sessions p)" for x
  proof -
    obtain s where s: "s < length (lg_sessions p)" "x = lg_sessions p ! s" using x by (metis in_set_conv_nth)
    have "used DReservations (ss_usage x) = 0" by (simp only: s(2) inv_used(2) [OF inv s(1)]) (simp add: none)
    then show ?thesis using slotsD(3) [OF D(3) s(1)] assms(2) s(2) by (simp add: flag_ok_def)
  qed
  then have "ps_SessionSlots (lg_usage p) = 0" "ps_PendingHandshakes (lg_usage p) = 0" "ps_EstablishedSessions (lg_usage p) = 0"
    using slotsD(1) [OF D(3)] by (simp_all add: slot_counts_def tallied_length)
  moreover have "lg_live p = []"
  proof -
    have "set (lg_live p) = {}" using slotsD(2) [OF D(3)] ret nth_mem by (auto simp: live_ok_def)
    then show ?thesis by simp
  qed
  ultimately show ?thesis
    using u assms(2) by (simp add: Peer_Snapshot_def BeginSession_def Peer_begin_def Peer_Close_def Let_def)
qed

definition drained_ledger :: Ledger where
  "drained_ledger = Lease_Release (Some (7, 1)) (Peer_Close (Lease_Release (Some (7, 0)) example_ledger))"

lemma drained_reachable: "reachable ledger_start ledger_step drained_ledger"
proof -
  have e: "length (lg_leases example_ledger) = 2" "lg_peer example_ledger = 7"
    "length (lg_leases (Peer_Close (Lease_Release (Some (7, 0)) example_ledger))) = 2"
    "lg_peer (Peer_Close (Lease_Release (Some (7, 0)) example_ledger)) = 7" by code_simp+
  have "reachable ledger_start ledger_step (Lease_Release (Some (7, 0)) example_ledger)"
    using reach_step [OF example_reachable step [of _ "OpRelease (Some (7, 0))"]] e by (simp add: lease_handle_def own_handle_def)
  from reach_step [OF this step [of _ OpClosePeer]]
  have "reachable ledger_start ledger_step (Peer_Close (Lease_Release (Some (7, 0)) example_ledger))" by simp
  from reach_step [OF this step [of _ "OpRelease (Some (7, 1))"]] e show ?thesis
    by (simp add: lease_handle_def own_handle_def drained_ledger_def)
qed

theorem drained_peer_is_empty_witness:
  "ps_Closed (lg_usage drained_ledger) \<and> length (lg_leases drained_ledger) = 2 \<and>
   ps_Usage (Peer_Snapshot drained_ledger) = zeroUsage \<and> fst (BeginSession zeroClaim drained_ledger) = Inl ErrClosed"
proof -
  have e: "ps_Closed (lg_usage drained_ledger)" "length (lg_leases drained_ledger) = 2"
    "\<forall>l < 2. ls_released (lg_leases drained_ledger ! l)" by code_simp+
  show ?thesis using drained_peer_is_empty [OF drained_reachable e(1), of zeroClaim] e by simp
qed

end
