(* ===== verification/FecGroup.thy ===== *)
theory FecGroup
  imports FecEncoder
begin

text \<open>
  The v2 equal-shard group codec (\<^verbatim>\<open>src/internal/fecv2/group.go\<close>, \<^verbatim>\<open>packing.go\<close>): a manifest of
  fragment descriptors followed by the payloads, zero padded to full shards and protected by
  Reed-Solomon parity. The Reed-Solomon package is the parameter \<open>rs_New\<close> with the laws of
  \<open>FecEncoder\<close>; its mutex makes each call atomic. A nil shard is \<open>None\<close>.
\<close>

subsection \<open>group.go\<close>

abbreviation (input) ManifestVersion :: u16 where "ManifestVersion \<equiv> 1"
abbreviation (input) ManifestBytes :: nat where "ManifestBytes \<equiv> 4"
abbreviation (input) DescriptorBytes :: nat where "DescriptorBytes \<equiv> 20"
abbreviation (input) MaxDescriptorsBound :: int where "MaxDescriptorsBound \<equiv> 256"
abbreviation (input) MaxLogicalBytesBound :: int where "MaxLogicalBytesBound \<equiv> 16777216"
abbreviation (input) MaxShardBytes :: int where "MaxShardBytes \<equiv> 65413"

datatype fecv2_error = ErrInvalid | ErrInsufficientShards | ErrNoPayloadCapacity

record Parameters =
  pr_DataShards :: int
  pr_ParityShards :: int
  pr_ShardBytes :: int
  pr_MaxDescriptors :: int
  pr_MaxLogicalBytes :: int
  pr_MaxDatagramBytes :: int

definition Parameters_validate :: "Parameters \<Rightarrow> fecv2_error option" where
  "Parameters_validate p =
     (if pr_DataShards p < 1 \<or> pr_DataShards p > 255 \<or> pr_ParityShards p < 1 \<or> pr_ParityShards p > 255 \<or>
         pr_DataShards p + pr_ParityShards p > 256 then Some ErrInvalid
      else if pr_ShardBytes p < 1 \<or> pr_ShardBytes p > MaxShardBytes then Some ErrInvalid
      else if pr_MaxDescriptors p < 1 \<or> pr_MaxDescriptors p > MaxDescriptorsBound \<or>
         pr_MaxLogicalBytes p < int (ManifestBytes + DescriptorBytes) \<or> pr_MaxLogicalBytes p > MaxLogicalBytesBound \<or>
         pr_MaxLogicalBytes p > pr_DataShards p * pr_ShardBytes p then Some ErrInvalid
      else if pr_MaxDatagramBytes p < 1 \<or> pr_MaxDatagramBytes p > MaxLogicalBytesBound then Some ErrInvalid
      else None)"

record Fragment =
  fr_DatagramID :: u64
  fr_TotalBytes :: u32
  fr_Offset :: u32
  fr_Payload :: bytes

record Group =
  gr_LogicalBytes :: u32
  gr_Shards :: "bytes list"

record Codec =
  cd_params :: Parameters
  cd_rs :: rs_codec

definition Codec_New :: "(int \<Rightarrow> int \<Rightarrow> rs_codec option) \<Rightarrow> Parameters \<Rightarrow> (fecv2_error, Codec) result" where
  "Codec_New rs_New p =
     (case Parameters_validate p of
        Some err \<Rightarrow> Inl err
      | None \<Rightarrow>
          (case rs_New (pr_DataShards p) (pr_ParityShards p) of
             None \<Rightarrow> Inl ErrInvalid
           | Some rs \<Rightarrow> Inr \<lparr>cd_params = p, cd_rs = rs\<rparr>))"

definition validateFragment :: "Codec \<Rightarrow> Fragment \<Rightarrow> u64 \<Rightarrow> fecv2_error option" where
  "validateFragment c f previous =
     (if fr_DatagramID f = 0 \<or> fr_DatagramID f \<le> previous then Some ErrInvalid
      else if fr_TotalBytes f > word_of_int (pr_MaxDatagramBytes (cd_params c)) \<or> fr_Offset f > fr_TotalBytes f \<or>
         length (fr_Payload f) > unat (fr_TotalBytes f - fr_Offset f) then Some ErrInvalid
      else if fr_Payload f = [] \<and> fr_TotalBytes f \<noteq> 0 then Some ErrInvalid
      else None)"

fun sum_fragments :: "Codec \<Rightarrow> u64 \<Rightarrow> int \<Rightarrow> Fragment list \<Rightarrow> (fecv2_error, int) result" where
  "sum_fragments c previous sz [] = Inr sz"
| "sum_fragments c previous sz (f # fs) =
     (case validateFragment c f previous of
        Some err \<Rightarrow> Inl err
      | None \<Rightarrow>
          if int (length (fr_Payload f)) > pr_MaxLogicalBytes (cd_params c) - sz then Inl ErrInvalid
          else sum_fragments c (fr_DatagramID f) (sz + int (length (fr_Payload f))) fs)"

definition logicalSize :: "Codec \<Rightarrow> Fragment list \<Rightarrow> (fecv2_error, int) result" where
  "logicalSize c fragments =
     (if int (length fragments) < 1 \<or> int (length fragments) > pr_MaxDescriptors (cd_params c) then Inl ErrInvalid
      else
        let sz = int (ManifestBytes + DescriptorBytes * length fragments)
        in if sz > pr_MaxLogicalBytes (cd_params c) then Inl ErrInvalid
           else sum_fragments c 0 sz fragments)"

text \<open>A write at an offset of the backing array: \<open>copy(b[i:], src)\<close>; \<open>PutUint\<close> stores through it
  too, and \<open>encode_backing\<close> below shows that every store is in range.\<close>

definition write_at :: "nat \<Rightarrow> bytes \<Rightarrow> bytes \<Rightarrow> bytes" where
  "write_at i src b = take i b @ go_copy (drop i b) src"

definition put_descriptor :: "nat \<Rightarrow> Fragment \<Rightarrow> bytes \<Rightarrow> bytes" where
  "put_descriptor d f b =
     write_at (d + 16) (be_put 4 (word_of_nat (length (fr_Payload f)) :: u32))
       (write_at (d + 12) (be_put 4 (fr_Offset f))
         (write_at (d + 8) (be_put 4 (fr_TotalBytes f)) (write_at d (be_put 8 (fr_DatagramID f)) b)))"

fun put_fragments :: "nat \<Rightarrow> nat \<Rightarrow> Fragment list \<Rightarrow> bytes \<Rightarrow> bytes" where
  "put_fragments i dataAt [] b = b"
| "put_fragments i dataAt (f # fs) b =
     (let b = put_descriptor (ManifestBytes + i * DescriptorBytes) f b
      in put_fragments (Suc i) (dataAt + min (length b - dataAt) (length (fr_Payload f))) fs (write_at dataAt (fr_Payload f) b))"

definition shardSlices :: "bytes \<Rightarrow> nat \<Rightarrow> bytes list" where
  "shardSlices backing sz = map (\<lambda>i. slice (i * sz) ((i + 1) * sz) backing) [0..<length backing div sz]"

definition Codec_Encode :: "Codec \<Rightarrow> Fragment list \<Rightarrow> (fecv2_error, Group) result" where
  "Codec_Encode c fragments =
     (case logicalSize c fragments of
        Inl err \<Rightarrow> Inl err
      | Inr sz \<Rightarrow>
          let p = cd_params c;
              backing = replicate (nat ((pr_DataShards p + pr_ParityShards p) * pr_ShardBytes p)) 0;
              backing = write_at 0 (be_put 2 ManifestVersion) backing;
              backing = write_at 2 (be_put 2 (word_of_nat (length fragments) :: u16)) backing;
              backing = put_fragments 0 (ManifestBytes + DescriptorBytes * length fragments) fragments backing
          in (case rs_Encode (cd_rs c) (shardSlices backing (nat (pr_ShardBytes p))) of
                None \<Rightarrow> Inl ErrInvalid
              | Some shards \<Rightarrow> Inr \<lparr>gr_LogicalBytes = word_of_int sz, gr_Shards = shards\<rparr>))"

text \<open>The descriptor at \<open>d\<close> with the payload that starts at \<open>dataAt\<close>.\<close>

definition descriptor_size :: "bytes \<Rightarrow> nat \<Rightarrow> nat" where
  "descriptor_size logical i =
     unat (be_get (slice 16 20 (drop (ManifestBytes + i * DescriptorBytes) logical)) :: u32)"

definition read_fragment :: "bytes \<Rightarrow> nat \<Rightarrow> nat \<Rightarrow> Fragment" where
  "read_fragment logical i dataAt =
     (let d = drop (ManifestBytes + i * DescriptorBytes) logical
      in \<lparr>fr_DatagramID = be_get (slice 0 8 d), fr_TotalBytes = be_get (slice 8 12 d), fr_Offset = be_get (slice 12 16 d),
          fr_Payload = slice dataAt (dataAt + descriptor_size logical i) logical\<rparr>)"

text \<open>The two loops over the descriptors \<open>i, ..., i + n - 1\<close>: validation, then construction.\<close>

primrec check_descriptors :: "nat \<Rightarrow> Codec \<Rightarrow> bytes \<Rightarrow> nat \<Rightarrow> u64 \<Rightarrow> nat \<Rightarrow> (fecv2_error, nat) result" where
  "check_descriptors 0 c logical i previous dataAt = Inr dataAt"
| "check_descriptors (Suc n) c logical i previous dataAt =
     (if descriptor_size logical i > length logical - dataAt then Inl ErrInvalid
      else
        let f = read_fragment logical i dataAt
        in (case validateFragment c f previous of
              Some err \<Rightarrow> Inl err
            | None \<Rightarrow> check_descriptors n c logical (Suc i) (fr_DatagramID f) (dataAt + descriptor_size logical i)))"

primrec build_fragments :: "nat \<Rightarrow> bytes \<Rightarrow> nat \<Rightarrow> nat \<Rightarrow> Fragment list" where
  "build_fragments 0 logical i dataAt = []"
| "build_fragments (Suc n) logical i dataAt =
     read_fragment logical i dataAt # build_fragments n logical (Suc i) (dataAt + descriptor_size logical i)"

definition parseManifest :: "Codec \<Rightarrow> bytes \<Rightarrow> (fecv2_error, Fragment list) result" where
  "parseManifest c logical =
     (if length logical < ManifestBytes \<or> (be_get (slice 0 2 logical) :: u16) \<noteq> ManifestVersion then Inl ErrInvalid
      else
        let count = unat (be_get (slice 2 4 logical) :: u16);
            dataAt = ManifestBytes + count * DescriptorBytes
        in if count < 1 \<or> int count > pr_MaxDescriptors (cd_params c) \<or> dataAt > length logical then Inl ErrInvalid
           else
             (case check_descriptors count c logical 0 0 dataAt of
                Inl err \<Rightarrow> Inl err
              | Inr at_end \<Rightarrow>
                  if at_end \<noteq> length logical then Inl ErrInvalid
                  else Inr (build_fragments count logical 0 dataAt)))"

fun count_present :: "nat \<Rightarrow> shard list \<Rightarrow> nat option" where
  "count_present sz [] = Some 0"
| "count_present sz (None # ws) = count_present sz ws"
| "count_present sz (Some w # ws) =
     (if length w \<noteq> sz then None else map_option Suc (count_present sz ws))"

text \<open>The copy of the data shards into the logical bytes, with the padding check of every shard.\<close>

fun gather_logical :: "nat \<Rightarrow> nat \<Rightarrow> bytes list \<Rightarrow> bytes \<Rightarrow> bytes option" where
  "gather_logical sz i [] logical = Some logical"
| "gather_logical sz i (shard # shards) logical =
     (let start = i * sz;
          n = min (length logical - start) sz;
          logical' = (if n > 0 then write_at start (take n shard) logical else logical)
      in if \<exists>b \<in> set (drop n shard). b \<noteq> 0 then None else gather_logical sz (Suc i) shards logical')"

definition Codec_Decode :: "Codec \<Rightarrow> u32 \<Rightarrow> shard list \<Rightarrow> (fecv2_error, Fragment list) result" where
  "Codec_Decode c logicalBytes input =
     (let p = cd_params c
      in if logicalBytes < word_of_nat (ManifestBytes + DescriptorBytes) \<or> logicalBytes > word_of_int (pr_MaxLogicalBytes p) \<or>
            int (length input) \<noteq> pr_DataShards p + pr_ParityShards p then Inl ErrInvalid
         else
           (case count_present (nat (pr_ShardBytes p)) input of
              None \<Rightarrow> Inl ErrInvalid
            | Some present \<Rightarrow>
                if int present < pr_DataShards p then Inl ErrInsufficientShards
                else
                  (case rs_Reconstruct (cd_rs c) input of
                     None \<Rightarrow> Inl ErrInvalid
                   | Some ws \<Rightarrow>
                       let shards = map (\<lambda>w. case w of None \<Rightarrow> [] | Some x \<Rightarrow> x) ws
                       in (case rs_Verify (cd_rs c) shards of
                             None \<Rightarrow> Inl ErrInvalid
                           | Some valid \<Rightarrow>
                               if \<not> valid then Inl ErrInvalid
                               else
                                 (case gather_logical (nat (pr_ShardBytes p)) 0 (take (nat (pr_DataShards p)) shards)
                                         (replicate (unat logicalBytes) 0) of
                                    None \<Rightarrow> Inl ErrInvalid
                                  | Some logical \<Rightarrow> parseManifest c logical)))))"

subsection \<open>packing.go\<close>

record Cursor =
  cu_Next :: nat
  cu_Bytes :: nat

fun validate_all :: "Codec \<Rightarrow> u64 \<Rightarrow> Fragment list \<Rightarrow> fecv2_error option" where
  "validate_all c previous [] = None"
| "validate_all c previous (f # fs) =
     (case validateFragment c f previous of
        Some err \<Rightarrow> Some err
      | None \<Rightarrow> validate_all c (fr_DatagramID f) fs)"

text \<open>The packing loop: \<open>planned\<close> and the cursor so far, the position \<open>i\<close>, the logical bytes used.\<close>

fun plan :: "Codec \<Rightarrow> Fragment list \<Rightarrow> Fragment list \<Rightarrow> nat \<Rightarrow> int \<Rightarrow> Cursor \<Rightarrow> Fragment list \<times> Cursor" where
  "plan c [] planned i used cursor = (planned, cursor)"
| "plan c (f # fs) planned i used cursor =
     (let room = pr_MaxLogicalBytes (cd_params c) - used - int DescriptorBytes
      in if int (length planned) = pr_MaxDescriptors (cd_params c) \<or> room < 0 \<or> (room = 0 \<and> fr_Payload f \<noteq> [])
         then (planned, cursor)
         else
           let consumed = nat (min room (int (length (fr_Payload f))));
               planned' = planned @ [f\<lparr>fr_Payload := take consumed (fr_Payload f)\<rparr>]
           in if consumed < length (fr_Payload f) then (planned', \<lparr>cu_Next = i, cu_Bytes = consumed\<rparr>)
              else plan c fs planned' (Suc i) (used + int DescriptorBytes + int consumed) \<lparr>cu_Next = Suc i, cu_Bytes = 0\<rparr>)"

definition EncodePrefix :: "Codec \<Rightarrow> Fragment list \<Rightarrow> (fecv2_error, Group \<times> Cursor) result" where
  "EncodePrefix c input =
     (if input = [] \<or> int (length input) > MaxDescriptorsBound then Inl ErrInvalid
      else
        (case validate_all c 0 input of
           Some err \<Rightarrow> Inl err
         | None \<Rightarrow>
             let (planned, cursor) = plan c input [] 0 (int ManifestBytes) \<lparr>cu_Next = 0, cu_Bytes = 0\<rparr>
             in if planned = [] then Inl ErrNoPayloadCapacity
                else
                  (case Codec_Encode c planned of
                     Inl err \<Rightarrow> Inl err
                   | Inr g \<Rightarrow> Inr (g, cursor))))"

end
