(* ===== verification/Slices.thy ===== *)
theory Slices
  imports Prelude
begin

text \<open>Lemmas on slices of byte strings that the v2 formats share.\<close>

lemma slice_app: "length a = i \<Longrightarrow> j = i + length b \<Longrightarrow> slice i j (a @ b @ c) = b"
  by (simp add: slice_def)

lemma slice_slice: "i \<le> j \<Longrightarrow> j \<le> k \<Longrightarrow> slice i j xs @ slice j k xs = slice i k xs"
proof -
  assume "i \<le> j" "j \<le> k"
  then have "k - i = (j - i) + (k - j)" "drop (j - i) (drop i xs) = drop j xs" by simp_all
  then show ?thesis unfolding slice_def by (metis take_add)
qed

lemma slice_drop: "slice i j (drop d xs) = slice (d + i) (d + j) xs"
  by (simp add: slice_def add.commute)

lemma slice_nth: "i < length xs \<Longrightarrow> [xs ! i] = slice i (Suc i) xs"
  by (simp add: slice_def Cons_nth_drop_Suc [symmetric])

lemma slice_nth2: "Suc i < length xs \<Longrightarrow> [xs ! i, xs ! Suc i] = slice i (Suc (Suc i)) xs"
  by (simp add: slice_def Cons_nth_drop_Suc [symmetric])

lemma slice_rest: "i \<le> j \<Longrightarrow> slice i j xs @ drop j xs = drop i xs"
  unfolding slice_def by (metis append_take_drop_id drop_drop le_add_diff_inverse2)

lemma take_slice: "slice 0 i xs = take i xs"
  by (simp add: slice_def)

lemma be_put_slice:
  "length xs \<ge> j \<Longrightarrow> j = i + n \<Longrightarrow> 8 * n \<le> LENGTH('a::len) \<Longrightarrow> be_put n (be_get (slice i j xs) :: 'a word) = slice i j xs"
  by (rule be_put_get) simp_all

lemma zeros: "(\<forall>b \<in> set bs. b = 0) \<longleftrightarrow> bs = replicate (length bs) (0 :: byte)"
  by (metis in_set_replicate replicate_eqI)

end
