(* ===== verification/FecGroupCodec.thy ===== *)
theory FecGroupCodec
  imports FecGroup Slices
begin

text \<open>
  The v2 group codec is a bijection between admissible fragment lists and logical byte strings, and
  every set of at least \<open>k\<close> shards of a group decodes to the fragments it was made of.
\<close>

subsection \<open>The manifest as a byte string\<close>

definition descriptor :: "Fragment \<Rightarrow> bytes" where
  "descriptor f = be_put 8 (fr_DatagramID f) @ be_put 4 (fr_TotalBytes f) @ be_put 4 (fr_Offset f) @
     be_put 4 (word_of_nat (length (fr_Payload f)) :: u32)"

definition manifest :: "Fragment list \<Rightarrow> bytes" where
  "manifest fs = be_put 2 ManifestVersion @ be_put 2 (word_of_nat (length fs) :: u16) @
     concat (map descriptor fs) @ concat (map fr_Payload fs)"

lemma length_descriptor [simp]: "length (descriptor f) = 20"
  by (simp add: descriptor_def)

lemma length_descriptors [simp]: "length (concat (map descriptor fs)) = 20 * length fs"
  by (induction fs) simp_all

lemma length_manifest: "length (manifest fs) = 4 + 20 * length fs + length (concat (map fr_Payload fs))"
  by (simp only: manifest_def length_append length_be_put length_descriptors)

lemma length_write_at [simp]: "length (write_at i src b) = length b"
  by (simp add: write_at_def)

lemma write_at_app: "length a = i \<Longrightarrow> length b = length src \<Longrightarrow> write_at i src (a @ b @ c) = a @ src @ c"
  by (simp add: write_at_def go_copy_def)

lemma put_descriptor_app:
  assumes "length a = d" "length b = 20"
  shows "put_descriptor d f (a @ b @ c) = a @ descriptor f @ c"
proof -
  obtain b1 b2 b3 b4 where b: "b = b1 @ b2 @ b3 @ b4" "length b1 = 8" "length b2 = 4" "length b3 = 4" "length b4 = 4"
  proof
    show "b = take 8 b @ take 4 (drop 8 b) @ take 4 (drop 12 b) @ drop 16 b"
      using append_take_drop_id [of 8 b] append_take_drop_id [of 4 "drop 8 b"] append_take_drop_id [of 4 "drop 12 b"]
      by simp
  qed (use assms(2) in simp_all)
  have "write_at d (be_put 8 (fr_DatagramID f)) (a @ b @ c) = (a @ be_put 8 (fr_DatagramID f)) @ b2 @ b3 @ b4 @ c"
    using write_at_app [of a d b1 "be_put 8 (fr_DatagramID f)"] assms(1) b by simp
  moreover have "write_at (d + 8) (be_put 4 (fr_TotalBytes f)) ((a @ be_put 8 (fr_DatagramID f)) @ b2 @ b3 @ b4 @ c) =
      (a @ be_put 8 (fr_DatagramID f) @ be_put 4 (fr_TotalBytes f)) @ b3 @ b4 @ c"
    by (subst write_at_app) (simp_all add: assms(1) b(3))
  moreover have "write_at (d + 12) (be_put 4 (fr_Offset f)) ((a @ be_put 8 (fr_DatagramID f) @ be_put 4 (fr_TotalBytes f)) @ b3 @ b4 @ c) =
      (a @ be_put 8 (fr_DatagramID f) @ be_put 4 (fr_TotalBytes f) @ be_put 4 (fr_Offset f)) @ b4 @ c"
    by (subst write_at_app) (simp_all add: assms(1) b(4))
  moreover have "write_at (d + 16) w ((a @ be_put 8 (fr_DatagramID f) @ be_put 4 (fr_TotalBytes f) @ be_put 4 (fr_Offset f)) @ b4 @ c) =
      (a @ be_put 8 (fr_DatagramID f) @ be_put 4 (fr_TotalBytes f) @ be_put 4 (fr_Offset f)) @ w @ c" if "length w = 4" for w
    by (rule write_at_app) (simp_all add: assms(1) b(5) that)
  ultimately show ?thesis by (simp add: put_descriptor_def descriptor_def)
qed

lemma put_fragments_app:
  assumes "length h = 4 + i * 20" "length d = 20 * length fs" "dataAt = length h + length d + length p"
    "length (concat (map fr_Payload fs)) \<le> length z"
  shows "put_fragments i dataAt fs (h @ d @ p @ z) =
    h @ concat (map descriptor fs) @ p @ concat (map fr_Payload fs) @ drop (length (concat (map fr_Payload fs))) z"
  using assms
proof (induction fs arbitrary: i h d p z dataAt)
  case (Cons f fs)
  define n where "n = length (fr_Payload f)"
  have d: "d = take 20 d @ drop 20 d" "length (take 20 d) = 20" "length (drop 20 d) = 20 * length fs" using Cons.prems(2) by simp_all
  have z: "z = take n z @ drop n z" "length (take n z) = n" using Cons.prems(4) by (simp_all add: n_def)
  have b: "put_descriptor (4 + i * 20) f (h @ d @ p @ z) = h @ descriptor f @ drop 20 d @ p @ z"
    using put_descriptor_app [OF Cons.prems(1) d(2), of f "drop 20 d @ p @ z"] d(1) by (metis append.assoc)
  have at: "length (h @ descriptor f @ drop 20 d @ p) = dataAt" using Cons.prems(2,3) by simp
  have "write_at dataAt (fr_Payload f) (h @ descriptor f @ drop 20 d @ p @ z) =
      (h @ descriptor f) @ drop 20 d @ (p @ fr_Payload f) @ drop n z"
    using write_at_app [OF at, of "take n z" "fr_Payload f" "drop n z"] z by (simp add: n_def)
  moreover have "min (length (h @ descriptor f @ drop 20 d @ p @ z) - dataAt) n = n"
    using Cons.prems(4) at by (simp add: n_def)
  ultimately have "put_fragments i dataAt (f # fs) (h @ d @ p @ z) =
      put_fragments (Suc i) (dataAt + n) fs ((h @ descriptor f) @ drop 20 d @ (p @ fr_Payload f) @ drop n z)"
    using b by (simp only: put_fragments.simps Let_def n_def)
  also have "\<dots> = (h @ descriptor f) @ concat (map descriptor fs) @ (p @ fr_Payload f) @ concat (map fr_Payload fs) @
      drop (length (concat (map fr_Payload fs))) (drop n z)"
    by (rule Cons.IH) (use Cons.prems d in \<open>simp_all add: n_def\<close>)
  finally show ?case by (simp add: n_def add.commute)
qed simp

lemma encode_backing:
  assumes "length (manifest fs) \<le> N"
  shows "put_fragments 0 (4 + 20 * length fs) fs
    (write_at 2 (be_put 2 (word_of_nat (length fs) :: u16)) (write_at 0 (be_put 2 ManifestVersion) (replicate N 0))) =
    manifest fs @ replicate (N - length (manifest fs)) 0"
proof -
  let ?v = "be_put 2 ManifestVersion" and ?n = "be_put 2 (word_of_nat (length fs) :: u16)"
  let ?P = "length (concat (map fr_Payload fs))"
  have N: "N = 2 + (2 + (20 * length fs + (N - 4 - 20 * length fs)))" using assms unfolding length_manifest by linarith
  have "replicate N (0::byte) = [] @ replicate 2 0 @ replicate 2 0 @ replicate (20 * length fs) 0 @ replicate (N - 4 - 20 * length fs) 0"
    by (subst N) (simp only: replicate_add append_Nil)
  then have "write_at 0 ?v (replicate N 0) = [] @ ?v @ replicate 2 0 @ replicate (20 * length fs) 0 @ replicate (N - 4 - 20 * length fs) 0"
    by (simp only: write_at_app length_replicate length_be_put list.size)
  moreover have "write_at 2 ?n (?v @ replicate 2 0 @ replicate (20 * length fs) 0 @ replicate (N - 4 - 20 * length fs) 0) =
      ?v @ ?n @ replicate (20 * length fs) 0 @ replicate (N - 4 - 20 * length fs) 0"
    by (rule write_at_app) simp_all
  moreover have "put_fragments 0 (4 + 20 * length fs) fs
      ((?v @ ?n) @ replicate (20 * length fs) 0 @ [] @ replicate (N - 4 - 20 * length fs) 0) =
      (?v @ ?n) @ concat (map descriptor fs) @ [] @ concat (map fr_Payload fs) @ drop ?P (replicate (N - 4 - 20 * length fs) 0)"
    by (rule put_fragments_app) (use assms in \<open>simp_all add: length_manifest del: be_put.simps\<close>)
  ultimately show ?thesis
    using length_manifest [of fs] by (simp add: manifest_def del: be_put.simps)
qed

subsection \<open>Reading a manifest\<close>

lemma read_descriptor:
  assumes "drop (4 + i * 20) logical = descriptor f @ rest" "length (fr_Payload f) < 2 ^ 32"
    "slice dataAt (dataAt + length (fr_Payload f)) logical = fr_Payload f"
  shows "descriptor_size logical i = length (fr_Payload f)" "read_fragment logical i dataAt = f"
proof -
  let ?a = "be_put 8 (fr_DatagramID f)" and ?b = "be_put 4 (fr_TotalBytes f)" and ?c = "be_put 4 (fr_Offset f)"
    and ?d = "be_put 4 (word_of_nat (length (fr_Payload f)) :: u32)"
  have s: "slice 0 8 (descriptor f @ rest) = ?a" "slice 8 12 (descriptor f @ rest) = ?b"
    "slice 12 16 (descriptor f @ rest) = ?c" "slice 16 20 (descriptor f @ rest) = ?d"
    unfolding descriptor_def
    using slice_app [of "[]" 0 8 ?a] slice_app [of ?a 8 12 ?b] slice_app [of "?a @ ?b" 12 16 ?c] slice_app [of "?a @ ?b @ ?c" 16 20 ?d]
    by (simp_all del: be_put.simps)
  show sz: "descriptor_size logical i = length (fr_Payload f)"
    using assms(1,2) s(4) by (simp only: descriptor_size_def) (simp add: be_simps unat_of_nat)
  show "read_fragment logical i dataAt = f"
    using assms(1,3) s sz by (simp only: read_fragment_def Let_def) (simp add: be_simps)
qed

lemma sum_fragments_iff:
  assumes "sz \<le> pr_MaxLogicalBytes (cd_params c)"
  shows "sum_fragments c previous sz fs = Inr r \<longleftrightarrow>
    validate_all c previous fs = None \<and> r = sz + int (length (concat (map fr_Payload fs))) \<and> r \<le> pr_MaxLogicalBytes (cd_params c)"
  using assms
proof (induction fs arbitrary: previous sz)
  case (Cons f fs)
  show ?case
  proof (cases "validateFragment c f previous = None \<and> \<not> int (length (fr_Payload f)) > pr_MaxLogicalBytes (cd_params c) - sz")
    case True
    then show ?thesis using Cons.IH [of "sz + int (length (fr_Payload f))" "fr_DatagramID f"] by (auto simp: algebra_simps)
  qed (auto split: option.splits)
qed auto

lemma logicalSize_iff:
  "logicalSize c fs = Inr r \<longleftrightarrow>
    fs \<noteq> [] \<and> int (length fs) \<le> pr_MaxDescriptors (cd_params c) \<and> validate_all c 0 fs = None \<and>
    r = int (length (manifest fs)) \<and> r \<le> pr_MaxLogicalBytes (cd_params c)"
proof (cases "int (4 + 20 * length fs) \<le> pr_MaxLogicalBytes (cd_params c)")
  case True
  then show ?thesis
    using sum_fragments_iff [OF True, of 0 fs r] by (cases fs) (auto simp: logicalSize_def Let_def length_manifest)
next
  case False
  then show ?thesis by (auto simp: logicalSize_def Let_def length_manifest)
qed

lemma scan_manifest:
  assumes "logical = h @ concat (map descriptor fs) @ p @ concat (map fr_Payload fs)" "length h = 4 + i * 20"
    "dataAt = length h + 20 * length fs + length p" "validate_all c previous fs = None"
    "\<And>f. f \<in> set fs \<Longrightarrow> length (fr_Payload f) < 2 ^ 32"
  shows "check_descriptors (length fs) c logical i previous dataAt = Inr (length logical) \<and>
    build_fragments (length fs) logical i dataAt = fs"
  using assms
proof (induction fs arbitrary: i h p previous dataAt)
  case (Cons f fs)
  have at: "length (h @ descriptor f @ concat (map descriptor fs) @ p) = dataAt" using Cons.prems(3) by simp
  have logical: "logical = (h @ descriptor f @ concat (map descriptor fs) @ p) @ fr_Payload f @ concat (map fr_Payload fs)"
    using Cons.prems(1) by simp
  have "drop (4 + i * 20) logical = descriptor f @ concat (map descriptor fs) @ p @ fr_Payload f @ concat (map fr_Payload fs)"
    using Cons.prems(1,2) by simp
  moreover have "slice dataAt (dataAt + length (fr_Payload f)) logical = fr_Payload f"
    unfolding logical by (rule slice_app [OF at refl])
  ultimately have rd: "descriptor_size logical i = length (fr_Payload f)" "read_fragment logical i dataAt = f"
    using read_descriptor [of i logical f] Cons.prems(5) [of f] by auto
  have v: "validateFragment c f previous = None" "validate_all c (fr_DatagramID f) fs = None"
    using Cons.prems(4) by (simp_all split: option.splits)
  have "\<not> length (fr_Payload f) > length logical - dataAt"
    unfolding logical length_append [of "h @ descriptor f @ concat (map descriptor fs) @ p"] at by simp
  moreover have "check_descriptors (length fs) c logical (Suc i) (fr_DatagramID f) (dataAt + length (fr_Payload f)) = Inr (length logical) \<and>
      build_fragments (length fs) logical (Suc i) (dataAt + length (fr_Payload f)) = fs"
    by (rule Cons.IH [of "h @ descriptor f" "p @ fr_Payload f"]) (use Cons.prems v(2) in simp_all)
  ultimately show ?case using rd v(1) by (simp add: Let_def)
qed simp

lemma validate_payload: "validateFragment c f previous = None \<Longrightarrow> length (fr_Payload f) < 2 ^ 32"
  using unat_less_u32 [of "fr_TotalBytes f - fr_Offset f"] by (auto simp: validateFragment_def split: if_splits)

lemma validate_all_payload: "validate_all c previous fs = None \<Longrightarrow> f \<in> set fs \<Longrightarrow> length (fr_Payload f) < 2 ^ 32"
  by (induction fs arbitrary: previous) (auto split: option.splits dest: validate_payload)

definition codec_ok :: "Codec \<Rightarrow> bool" where
  "codec_ok c \<longleftrightarrow> Parameters_validate (cd_params c) = None \<and>
     reed_solomon_laws (nat (pr_DataShards (cd_params c))) (nat (pr_ParityShards (cd_params c))) (cd_rs c)"

lemma codec_okD:
  assumes "codec_ok c"
  shows "1 \<le> pr_DataShards (cd_params c)" "1 \<le> pr_ParityShards (cd_params c)" "1 \<le> pr_ShardBytes (cd_params c)"
    "pr_MaxDescriptors (cd_params c) \<le> 256" "pr_MaxLogicalBytes (cd_params c) \<le> 16777216" "24 \<le> pr_MaxLogicalBytes (cd_params c)"
    "pr_MaxLogicalBytes (cd_params c) \<le> pr_DataShards (cd_params c) * pr_ShardBytes (cd_params c)"
    "1 \<le> pr_MaxDescriptors (cd_params c)"
    "reed_solomon_laws (nat (pr_DataShards (cd_params c))) (nat (pr_ParityShards (cd_params c))) (cd_rs c)"
  using assms by (auto simp: codec_ok_def Parameters_validate_def split: if_splits)

text \<open>The fragment lists a context admits.\<close>

definition admissible :: "Codec \<Rightarrow> Fragment list \<Rightarrow> bool" where
  "admissible c fs \<longleftrightarrow> logicalSize c fs = Inr (int (length (manifest fs)))"

lemma admissible_iff:
  "admissible c fs \<longleftrightarrow> fs \<noteq> [] \<and> int (length fs) \<le> pr_MaxDescriptors (cd_params c) \<and> validate_all c 0 fs = None \<and>
     int (length (manifest fs)) \<le> pr_MaxLogicalBytes (cd_params c)"
  by (simp add: admissible_def logicalSize_iff)

lemma parse_manifest:
  assumes ok: "codec_ok c" and adm: "admissible c fs"
  shows "parseManifest c (manifest fs) = Inr fs"
proof -
  let ?L = "manifest fs" and ?v = "be_put 2 ManifestVersion" and ?n = "be_put 2 (word_of_nat (length fs) :: u16)"
  have a: "fs \<noteq> []" "int (length fs) \<le> pr_MaxDescriptors (cd_params c)" "validate_all c 0 fs = None"
    using adm by (simp_all add: admissible_iff)
  have n: "length fs < 65536" using a(2) codec_okD(4) [OF ok] by simp
  have "slice 0 2 ?L = ?v" "slice 2 4 ?L = ?n"
    unfolding manifest_def using slice_app [of "[]" 0 2 ?v] slice_app [of ?v 2 4 ?n] by (simp_all del: be_put.simps)
  then have hd: "(be_get (slice 0 2 ?L) :: u16) = 1" "unat (be_get (slice 2 4 ?L) :: u16) = length fs"
    using n by (simp_all add: be_simps unat_of_nat del: be_put.simps)
  have "check_descriptors (length fs) c ?L 0 0 (4 + length fs * 20) = Inr (length ?L) \<and> build_fragments (length fs) ?L 0 (4 + length fs * 20) = fs"
    by (rule scan_manifest [where h = "?v @ ?n" and p = "[]"])
       (use a(3) validate_all_payload [OF a(3)] in \<open>simp_all add: manifest_def del: be_put.simps\<close>)
  then show ?thesis using hd a(1,2) by (auto simp: parseManifest_def Let_def length_manifest Suc_le_eq)
qed

subsection \<open>Every accepted manifest is canonical\<close>

lemma descriptor_read:
  assumes "4 + i * 20 + 20 \<le> length logical" "descriptor_size logical i \<le> length logical - dataAt"
  shows "descriptor (read_fragment logical i dataAt) = slice (4 + i * 20) (4 + i * 20 + 20) logical"
    "length (fr_Payload (read_fragment logical i dataAt)) = descriptor_size logical i"
proof -
  let ?o = "4 + i * 20" and ?f = "read_fragment logical i dataAt"
  show len: "length (fr_Payload ?f) = descriptor_size logical i"
    using assms(2) by (simp add: read_fragment_def Let_def)
  have "be_put 8 (fr_DatagramID ?f) = slice ?o (?o + 8) logical" "be_put 4 (fr_TotalBytes ?f) = slice (?o + 8) (?o + 12) logical"
    "be_put 4 (fr_Offset ?f) = slice (?o + 12) (?o + 16) logical"
    using assms(1) by (simp_all add: read_fragment_def Let_def slice_drop be_put_get del: be_put.simps)
  moreover have "be_put 4 (word_of_nat (length (fr_Payload ?f)) :: u32) = slice (?o + 16) (?o + 20) logical"
    using assms(1) by (simp add: len descriptor_size_def slice_drop be_put_get del: be_put.simps)
  ultimately show "descriptor ?f = slice ?o (?o + 20) logical" by (simp add: descriptor_def slice_slice del: be_put.simps)
qed

lemma scan_canonical:
  assumes "check_descriptors n c logical i previous dataAt = Inr e" "dataAt \<le> length logical" "4 + (i + n) * 20 \<le> length logical"
  shows "validate_all c previous (build_fragments n logical i dataAt) = None \<and> length (build_fragments n logical i dataAt) = n \<and>
    dataAt \<le> e \<and> e \<le> length logical \<and> concat (map fr_Payload (build_fragments n logical i dataAt)) = slice dataAt e logical \<and>
    concat (map descriptor (build_fragments n logical i dataAt)) = slice (4 + i * 20) (4 + (i + n) * 20) logical"
  using assms
proof (induction n arbitrary: i previous dataAt)
  case (Suc n)
  let ?f = "read_fragment logical i dataAt" and ?s = "descriptor_size logical i"
  have s: "?s \<le> length logical - dataAt" and v: "validateFragment c ?f previous = None"
    and r: "check_descriptors n c logical (Suc i) (fr_DatagramID ?f) (dataAt + ?s) = Inr e"
    using Suc.prems(1) by (auto simp: Let_def split: if_splits option.splits)
  have "dataAt + ?s \<le> length logical" "4 + (Suc i + n) * 20 \<le> length logical" using s Suc.prems(2,3) by simp_all
  note IH = Suc.IH [OF r this]
  have "fr_Payload ?f = slice dataAt (dataAt + ?s) logical" by (simp add: read_fragment_def Let_def)
  moreover have "descriptor ?f = slice (4 + i * 20) (4 + i * 20 + 20) logical"
    by (rule descriptor_read(1)) (use Suc.prems(3) s in simp_all)
  ultimately show ?case
    using IH s v add_leD1 [of dataAt ?s e] by (simp add: slice_slice algebra_simps)
qed (simp add: slice_def)

lemma parse_canonical:
  assumes "parseManifest c logical = Inr fs" "int (length logical) \<le> pr_MaxLogicalBytes (cd_params c)"
  shows "admissible c fs \<and> manifest fs = logical"
proof -
  define n where "n = unat (be_get (slice 2 4 logical) :: u16)"
  have v: "4 \<le> length logical" "(be_get (slice 0 2 logical) :: u16) = 1" "1 \<le> n" "int n \<le> pr_MaxDescriptors (cd_params c)"
    "4 + n * 20 \<le> length logical" and chk: "check_descriptors n c logical 0 0 (4 + n * 20) = Inr (length logical)"
    and fs: "fs = build_fragments n logical 0 (4 + n * 20)"
    using assms(1) by (auto simp: parseManifest_def Let_def n_def Suc_le_eq split: if_splits sum.splits)
  note S = scan_canonical [OF chk v(5), folded fs]
  have "be_put 2 (1 :: u16) = slice 0 2 logical" "be_put 2 (word_of_nat n :: u16) = slice 2 4 logical"
    using v(1,2) by (simp_all add: n_def be_put_get flip: v(2) del: be_put.simps)
  moreover have "concat (map descriptor fs) = slice 4 (4 + n * 20) logical" "concat (map fr_Payload fs) = slice (4 + n * 20) (length logical) logical"
    "length fs = n" using S v(5) by simp_all
  moreover have "slice 0 (length logical) logical = logical" by (simp add: slice_def)
  ultimately have m: "manifest fs = logical"
    using v(5) by (simp add: manifest_def slice_slice del: be_put.simps)
  moreover have "fs \<noteq> []" using \<open>length fs = n\<close> v(3) by auto
  ultimately show ?thesis using S v(4,5) assms(2) by (auto simp: admissible_iff)
qed


subsection \<open>Shards\<close>

lemma concat_shardSlices:
  assumes "0 < s" "length b = n * s"
  shows "length (shardSlices b s) = n" "x \<in> set (shardSlices b s) \<Longrightarrow> length x = s" "k \<le> n \<Longrightarrow> concat (take k (shardSlices b s)) = take (k * s) b"
proof -
  have n: "length b div s = n" using assms by simp
  show "length (shardSlices b s) = n" by (simp add: shardSlices_def n)
  show "length x = s" if x: "x \<in> set (shardSlices b s)"
  proof -
    obtain i where i: "i < n" "x = slice (i * s) ((i + 1) * s) b" using x by (auto simp: shardSlices_def n)
    have "Suc i * s \<le> n * s" using i(1) by (intro mult_le_mono1) simp
    then have "s \<le> n * s - i * s" by (simp add: algebra_simps)
    then show ?thesis using assms(2) by (simp add: i(2))
  qed
  show "concat (take k (shardSlices b s)) = take (k * s) b" if "k \<le> n"
    using that concat_slices [of s b k] by (simp add: shardSlices_def n take_map algebra_simps)
qed

lemma concat_equal_length: "(\<And>x. x \<in> set xs \<Longrightarrow> length x = s) \<Longrightarrow> length (concat xs) = length xs * s"
  by (induction xs) simp_all

lemma equal_shards_eq:
  assumes "length xs = length ys" "\<And>x. x \<in> set xs \<Longrightarrow> length x = s" "\<And>y. y \<in> set ys \<Longrightarrow> length y = s" "concat xs = concat ys"
  shows "xs = ys"
proof (rule concat_injective [OF assms(4,1)])
  show "\<forall>(x, y) \<in> set (zip xs ys). length x = length y"
    using assms(2,3) set_zip_leftD [of _ _ xs ys] set_zip_rightD [of _ _ xs ys] by fastforce
qed

lemma gather_logical_eq:
  assumes "\<And>x. x \<in> set shards \<Longrightarrow> length x = s" "length logical \<le> (i + length shards) * s"
  shows "gather_logical s i shards logical =
    (if \<forall>b \<in> set (drop (length logical - i * s) (concat shards)). b = 0
     then Some (take (i * s) logical @ take (length logical - i * s) (concat shards)) else None)"
  using assms
proof (induction shards arbitrary: i logical)
  case Nil
  then show ?case by simp
next
  case (Cons x xs)
  let ?n = "min (length logical - i * s) s"
  define l' where "l' = (if ?n > 0 then write_at (i * s) (take ?n x) logical else logical)"
  have x: "length x = s" using Cons.prems(1) by simp
  have len: "length l' = length logical" by (simp add: l'_def)
  have l': "take (Suc i * s) l' = take (i * s) logical @ take (length logical - i * s) x"
  proof (cases "i * s < length logical")
    case True
    define m where "m = i * s"
    have n: "take (length logical - m) x = take ?n x" "length (take ?n x) = ?n" "?n \<le> length logical - m" using x by (simp_all add: m_def min_def)
    show ?thesis
    proof (cases "s = 0")
      case False
      have "l' = take m logical @ take ?n x @ drop (m + ?n) logical"
        using True False n by (simp add: l'_def write_at_def go_copy_def m_def add.commute)
      moreover have "take s (take ?n x @ drop (m + ?n) logical) = take ?n x" using x by (cases "s \<le> length logical - m") (simp_all add: m_def min_def)
      moreover have "length (take m logical) = m" using True by (simp add: m_def)
      ultimately show ?thesis using n(1) by (simp add: m_def [symmetric] add.commute)
    qed (use x in \<open>simp add: l'_def\<close>)
  qed (simp add: l'_def)
  have step: "gather_logical s i (x # xs) logical =
      (if \<exists>b \<in> set (drop ?n x). b \<noteq> 0 then None else gather_logical s (Suc i) xs l')"
    by (simp only: gather_logical.simps Let_def l'_def)
  have IH: "gather_logical s (Suc i) xs l' =
      (if \<forall>b \<in> set (drop (length logical - Suc i * s) (concat xs)). b = 0
       then Some (take (Suc i * s) l' @ take (length logical - Suc i * s) (concat xs)) else None)"
    using Cons.IH [of l' "Suc i"] Cons.prems len by simp
  have "length logical - i * s - s = length logical - Suc i * s" by simp
  then have "take (length logical - i * s) (concat (x # xs)) = take (length logical - i * s) x @ take (length logical - Suc i * s) (concat xs)"
    "set (drop (length logical - i * s) (concat (x # xs))) = set (drop ?n x) \<union> set (drop (length logical - Suc i * s) (concat xs))"
    using x by (simp_all add: min_def)
  then show ?case unfolding step IH l' by auto
qed


subsection \<open>Encoding and decoding\<close>

lemma rs_verify:
  assumes "reed_solomon_laws k m c" "length xs = k + m" "0 < s" "\<And>x. x \<in> set xs \<Longrightarrow> length x = s"
  shows "rs_Verify c xs = Some True \<longleftrightarrow> rs_Encode c xs = Some xs"
  using assms(1) [unfolded reed_solomon_laws_def, THEN conjunct2, THEN conjunct2, rule_format, of xs s] assms(2-4) by simp

lemma rs_reconstruct_all:
  assumes "reed_solomon_laws k m c" "rs_Encode c xs = Some ys" "consistent ws ys" "k \<le> present_count ws"
  shows "rs_Reconstruct c ws = Some (map Some ys)"
  using assms(2-4) assms(1) [unfolded reed_solomon_laws_def, THEN conjunct2, THEN conjunct1, rule_format, of xs ys ws] by blast

text \<open>The code is systematic: a codeword is determined by its data shards.\<close>

lemma rs_unique:
  assumes laws: "reed_solomon_laws k m c" and e: "rs_Encode c xs = Some ys" "rs_Encode c xs' = Some ys'"
    and len: "length ys = k + m" "length ys' = k + m" and t: "take k ys = take k ys'"
  shows "ys = ys'"
proof -
  let ?ws = "map Some (take k ys) @ replicate m None"
  have nth: "ys ! i = ys' ! i" if "i < k" for i using t that len by (metis nth_take)
  have "consistent ?ws ys" using len(1) by (auto simp: consistent_def nth_append)
  moreover have "consistent ?ws ys'" using len nth by (auto simp: consistent_def nth_append)
  moreover have "k \<le> present_count ?ws" using len(1) by (simp add: present_count_def filter_empty_conv comp_def)
  ultimately have "rs_Reconstruct c ?ws = Some (map Some ys)" "rs_Reconstruct c ?ws = Some (map Some ys')"
    using rs_reconstruct_all [OF laws] e by blast+
  then show ?thesis by (simp add: inj_map_eq_map)
qed

lemma Encode_ok:
  assumes ok: "codec_ok c" and adm: "admissible c fs"
  defines "k \<equiv> nat (pr_DataShards (cd_params c))" and "m \<equiv> nat (pr_ParityShards (cd_params c))" and "s \<equiv> nat (pr_ShardBytes (cd_params c))"
  shows "\<exists>g xs. Codec_Encode c fs = Inr g \<and> unat (gr_LogicalBytes g) = length (manifest fs) \<and> length (gr_Shards g) = k + m \<and>
    (\<forall>x \<in> set (gr_Shards g). length x = s) \<and>
    concat (take k (gr_Shards g)) = manifest fs @ replicate (k * s - length (manifest fs)) 0 \<and>
    rs_Encode (cd_rs c) xs = Some (gr_Shards g) \<and> rs_Encode (cd_rs c) (gr_Shards g) = Some (gr_Shards g)"
proof -
  note D = codec_okD [OF ok]
  have s: "0 < s" and k: "0 < k" and s_int: "int s = pr_ShardBytes (cd_params c)" and k_int: "int k = pr_DataShards (cd_params c)"
    using D by (simp_all add: s_def k_def)
  have size: "logicalSize c fs = Inr (int (length (manifest fs)))" "int (length (manifest fs)) \<le> pr_MaxLogicalBytes (cd_params c)"
    using adm by (simp add: admissible_def, simp add: admissible_iff)
  define N where "N = nat ((pr_DataShards (cd_params c) + pr_ParityShards (cd_params c)) * pr_ShardBytes (cd_params c))"
  have N: "N = (k + m) * s"
    using D(1-3) by (simp add: N_def k_def m_def s_def nat_mult_distrib nat_add_distrib)
  have "int (length (manifest fs)) \<le> int (k * s)" using size(2) D(7) s_int k_int by simp
  then have fits: "length (manifest fs) \<le> k * s" by linarith
  define b where "b = manifest fs @ replicate (N - length (manifest fs)) 0"
  have bN: "length (manifest fs) \<le> N" using fits N by (simp add: algebra_simps)
  have lb: "length b = (k + m) * s" using bN by (simp add: b_def N)
  note S = concat_shardSlices [OF s lb]
  obtain ps where ps: "rs_Encode (cd_rs c) (shardSlices b s) = Some (take k (shardSlices b s) @ ps)" "length ps = m"
    "\<And>p. p \<in> set ps \<Longrightarrow> length p = s"
    "rs_Encode (cd_rs c) (take k (shardSlices b s) @ ps) = Some (take k (shardSlices b s) @ ps)"
    using rs_encode [OF D(9) [folded k_def m_def] S(1) s S(2)] by blast
  define g where "g = \<lparr>gr_LogicalBytes = word_of_int (int (length (manifest fs))), gr_Shards = take k (shardSlices b s) @ ps\<rparr>"
  have "Codec_Encode c fs = Inr g"
    using ps(1) encode_backing [OF bN]
    unfolding Codec_Encode_def size(1) by (simp add: Let_def N_def [symmetric] b_def g_def s_def del: be_put.simps)
  moreover have "unat (gr_LogicalBytes g) = length (manifest fs)"
    using size(2) D(5) by (simp add: g_def unat_of_nat)
  moreover have "concat (take k (gr_Shards g)) = manifest fs @ replicate (k * s - length (manifest fs)) 0"
  proof -
    have "take k (gr_Shards g) = take k (shardSlices b s)" using S(1) by (simp add: g_def)
    then have "concat (take k (gr_Shards g)) = take (k * s) b" using S(3) by simp
    also have "\<dots> = manifest fs @ replicate (k * s - length (manifest fs)) 0"
      using fits by (simp add: b_def N min_def algebra_simps)
    finally show ?thesis .
  qed
  moreover have "\<forall>x \<in> set (gr_Shards g). length x = s" using S(2) ps(3) by (auto simp: g_def dest: in_set_takeD)
  moreover have "length (gr_Shards g) = k + m" using S(1) ps(2) by (simp add: g_def)
  moreover have "rs_Encode (cd_rs c) (shardSlices b s) = Some (gr_Shards g)" "rs_Encode (cd_rs c) (gr_Shards g) = Some (gr_Shards g)"
    using ps(1,4) by (simp_all add: g_def)
  ultimately show ?thesis by blast
qed

lemma Encode_admissible: "Codec_Encode c fs = Inr g \<Longrightarrow> admissible c fs"
  by (auto simp: Codec_Encode_def admissible_def logicalSize_iff split: sum.splits)

lemma count_present_eq:
  "(\<And>w. Some w \<in> set ws \<Longrightarrow> length w = s) \<Longrightarrow> count_present s ws = Some (present_count ws)"
  by (induction s ws rule: count_present.induct) (simp_all add: present_count_def)

lemma count_present_Some:
  "count_present s ws = Some n \<Longrightarrow> n = present_count ws \<and> (\<forall>w. Some w \<in> set ws \<longrightarrow> length w = s)"
  by (induction s ws arbitrary: n rule: count_present.induct) (auto simp: present_count_def split: if_splits)

lemma unat_limit: "n \<le> 16777216 \<Longrightarrow> 0 \<le> n \<Longrightarrow> unat (word_of_int n :: u32) = nat n"
  by (simp add: unat_eq_nat_uint uint_word_of_int)

text \<open>C9: From any at least \<open>k\<close> of the shards of a group, the others absent, \<open>Decode\<close> returns exactly the
  fragments that \<open>Encode\<close> was given: identifiers, totals, offsets and payloads.\<close>

theorem group_round_trip:
  assumes ok: "codec_ok c" and enc: "Codec_Encode c fs = Inr g"
    and ws: "consistent ws (gr_Shards g)" "nat (pr_DataShards (cd_params c)) \<le> present_count ws"
  shows "Codec_Decode c (gr_LogicalBytes g) ws = Inr fs"
proof -
  define k m s where "k = nat (pr_DataShards (cd_params c))" and "m = nat (pr_ParityShards (cd_params c))"
    and "s = nat (pr_ShardBytes (cd_params c))"
  note D = codec_okD [OF ok]
  have adm: "admissible c fs" by (rule Encode_admissible [OF enc])
  obtain xs where lb: "unat (gr_LogicalBytes g) = length (manifest fs)" and len: "length (gr_Shards g) = k + m"
    and sz: "\<forall>x \<in> set (gr_Shards g). length x = s"
    and data: "concat (take k (gr_Shards g)) = manifest fs @ replicate (k * s - length (manifest fs)) 0"
    and e: "rs_Encode (cd_rs c) xs = Some (gr_Shards g)" "rs_Encode (cd_rs c) (gr_Shards g) = Some (gr_Shards g)"
    using Encode_ok [OF ok adm] enc by (auto simp: k_def m_def s_def)
  have laws: "reed_solomon_laws k m (cd_rs c)" using D(9) by (simp add: k_def m_def)
  have s: "0 < s" using D(3) by (simp add: s_def)
  have "Some w \<in> set ws \<Longrightarrow> length w = s" for w
    using ws(1) sz by (auto simp: consistent_def in_set_conv_nth) (metis nth_mem option.distinct(1) option.inject)
  then have cnt: "count_present s ws = Some (present_count ws)" by (rule count_present_eq)
  have rec: "rs_Reconstruct (cd_rs c) ws = Some (map Some (gr_Shards g))"
    using rs_reconstruct_all [OF laws e(1) ws(1)] ws(2) by (simp add: k_def)
  have ver: "rs_Verify (cd_rs c) (gr_Shards g) = Some True"
    using rs_verify [OF laws len s, of] sz e(2) by blast
  have small: "length (manifest fs) \<le> k * s"
  proof -
    have "length (concat (take k (gr_Shards g))) = k * s"
      using concat_equal_length [of "take k (gr_Shards g)" s] sz len by (auto dest: in_set_takeD)
    then show ?thesis unfolding data by simp
  qed
  have gather: "gather_logical s 0 (take k (gr_Shards g)) (replicate (length (manifest fs)) 0) = Some (manifest fs)"
    using gather_logical_eq [of "take k (gr_Shards g)" s "replicate (length (manifest fs)) 0" 0] sz len small data
    by (auto dest: in_set_takeD)
  have bounds: "\<not> gr_LogicalBytes g < word_of_nat 24" "\<not> gr_LogicalBytes g > word_of_int (pr_MaxLogicalBytes (cd_params c))"
    "int (length ws) = pr_DataShards (cd_params c) + pr_ParityShards (cd_params c)"
  proof -
    have "24 \<le> length (manifest fs)" using adm by (cases fs) (simp_all add: admissible_iff length_manifest)
    then show "\<not> gr_LogicalBytes g < word_of_nat 24" using lb by (simp add: word_less_nat_alt)
    have "unat (word_of_int (pr_MaxLogicalBytes (cd_params c)) :: u32) = nat (pr_MaxLogicalBytes (cd_params c))"
      using unat_limit [OF D(5)] D(6) by simp
    then show "\<not> gr_LogicalBytes g > word_of_int (pr_MaxLogicalBytes (cd_params c))"
      using lb adm by (auto simp: word_less_nat_alt admissible_iff)
    show "int (length ws) = pr_DataShards (cd_params c) + pr_ParityShards (cd_params c)"
      using ws(1) len D(1,2) by (simp add: consistent_def k_def m_def)
  qed
  have "\<not> int (present_count ws) < pr_DataShards (cd_params c)" using ws(2) D(1) by simp
  moreover have "map (\<lambda>w. case w of None \<Rightarrow> [] | Some x \<Rightarrow> x) (map Some (gr_Shards g)) = gr_Shards g" by (simp add: comp_def)
  ultimately show ?thesis
    using bounds cnt rec ver gather parse_manifest [OF ok adm] lb
    by (simp add: Codec_Decode_def Let_def k_def s_def comp_def)
qed


text \<open>What \<open>Reconstruct\<close> documents for any input: it keeps the shards it is given and fills in the others
  with shards of the same length.\<close>

definition reconstruct_keeps :: "rs_codec \<Rightarrow> bool" where
  "reconstruct_keeps c \<longleftrightarrow>
     (\<forall>ws zs s. rs_Reconstruct c ws = Some zs \<and> (\<forall>w. Some w \<in> set ws \<longrightarrow> length w = s) \<longrightarrow>
        length zs = length ws \<and> (\<forall>i < length ws. ws ! i \<noteq> None \<longrightarrow> zs ! i = ws ! i) \<and>
        (\<forall>z \<in> set zs. \<exists>x. z = Some x \<and> length x = s))"

lemma xor_keeps: "0 < k \<Longrightarrow> reconstruct_keeps (xor_codec k)"
  unfolding reconstruct_keeps_def
proof (intro allI impI)
  fix ws zs s
  assume k: "0 < k" and a: "rs_Reconstruct (xor_codec k) ws = Some zs \<and> (\<forall>w. Some w \<in> set ws \<longrightarrow> length w = s)"
  define held where "held = List.map_filter (\<lambda>w. w) ws"
  have zs: "zs = map (\<lambda>w. case w of None \<Rightarrow> Some (xor_shards (length (hd held)) held) | Some x \<Rightarrow> Some x) ws"
    and h: "k \<le> length held"
    using a unfolding held_def by (simp_all add: xor_codec_def xor_reconstruct_def Let_def split: if_splits)
  have "hd held \<in> set held" using h k by (intro hd_in_set) auto
  then have "Some (hd held) \<in> set ws" by (auto simp: held_def map_filter_def)
  then have "length (xor_shards (length (hd held)) held) = s" using a by (simp add: xor_shards_def)
  moreover have "\<forall>w. Some w \<in> set ws \<longrightarrow> length w = s" using a by blast
  ultimately show "length zs = length ws \<and> (\<forall>i < length ws. ws ! i \<noteq> None \<longrightarrow> zs ! i = ws ! i) \<and>
      (\<forall>z \<in> set zs. \<exists>x. z = Some x \<and> length x = s)"
    by (auto simp: zs split: option.split)
qed

lemma Decode_cases:
  assumes "Codec_Decode c lb ws = Inr fs"
  defines "k \<equiv> nat (pr_DataShards (cd_params c))" and "s \<equiv> nat (pr_ShardBytes (cd_params c))"
  shows "\<exists>zs logical. lb \<le> word_of_int (pr_MaxLogicalBytes (cd_params c)) \<and>
    int (length ws) = pr_DataShards (cd_params c) + pr_ParityShards (cd_params c) \<and>
    count_present s ws = Some (present_count ws) \<and> rs_Reconstruct (cd_rs c) ws = Some zs \<and>
    rs_Verify (cd_rs c) (map (\<lambda>w. case w of None \<Rightarrow> [] | Some x \<Rightarrow> x) zs) = Some True \<and>
    gather_logical s 0 (take k (map (\<lambda>w. case w of None \<Rightarrow> [] | Some x \<Rightarrow> x) zs)) (replicate (unat lb) 0) = Some logical \<and>
    parseManifest c logical = Inr fs"
  using assms unfolding Codec_Decode_def Let_def
  by (auto split: if_splits option.splits bool.splits dest: count_present_Some)

text \<open>C20: Whatever \<open>Decode\<close> accepts is canonical: the returned fragments are admissible, encoding them
  gives a group of exactly the announced logical size, and every shard that was supplied is the shard
  of that group; no other bytes decode to the same fragments.\<close>

theorem decode_accepts_only_encodings:
  assumes ok: "codec_ok c" and keeps: "reconstruct_keeps (cd_rs c)" and dec: "Codec_Decode c lb ws = Inr fs"
  shows "\<exists>g. Codec_Encode c fs = Inr g \<and> gr_LogicalBytes g = lb \<and> consistent ws (gr_Shards g)"
proof -
  define k m s where "k = nat (pr_DataShards (cd_params c))" and "m = nat (pr_ParityShards (cd_params c))"
    and "s = nat (pr_ShardBytes (cd_params c))"
  note D = codec_okD [OF ok]
  have laws: "reed_solomon_laws k m (cd_rs c)" and s: "0 < s" using D(3,9) by (simp_all add: k_def m_def s_def)
  obtain zs logical where lb: "lb \<le> word_of_int (pr_MaxLogicalBytes (cd_params c))"
    and lws: "int (length ws) = pr_DataShards (cd_params c) + pr_ParityShards (cd_params c)"
    and cnt: "count_present s ws = Some (present_count ws)" and rec: "rs_Reconstruct (cd_rs c) ws = Some zs"
    and ver: "rs_Verify (cd_rs c) (map (\<lambda>w. case w of None \<Rightarrow> [] | Some x \<Rightarrow> x) zs) = Some True"
    and gat: "gather_logical s 0 (take k (map (\<lambda>w. case w of None \<Rightarrow> [] | Some x \<Rightarrow> x) zs)) (replicate (unat lb) 0) = Some logical"
    and parse: "parseManifest c logical = Inr fs"
    using Decode_cases [OF dec] unfolding k_def s_def by blast
  define xs where "xs = map (\<lambda>w. case w of None \<Rightarrow> [] | Some x \<Rightarrow> x) zs"
  have sz: "\<forall>w. Some w \<in> set ws \<longrightarrow> length w = s" using count_present_Some [OF cnt] by blast
  have kept: "length zs = length ws" "\<And>i. i < length ws \<Longrightarrow> ws ! i \<noteq> None \<Longrightarrow> zs ! i = ws ! i"
    and all: "\<And>z. z \<in> set zs \<Longrightarrow> \<exists>x. z = Some x \<and> length x = s"
    using keeps [unfolded reconstruct_keeps_def, rule_format, of ws zs s] rec sz by auto
  have len: "length xs = k + m" using lws kept(1) D(1,2) by (simp add: xs_def k_def m_def)
  have xsz: "length x = s" if x: "x \<in> set xs" for x
  proof -
    obtain z where "z \<in> set zs" "x = (case z of None \<Rightarrow> [] | Some x \<Rightarrow> x)" using x by (auto simp: xs_def)
    then show ?thesis using all [of z] by auto
  qed
  have e: "rs_Encode (cd_rs c) xs = Some xs" using rs_verify [OF laws len s xsz] ver by (simp add: xs_def)
  have ulb: "unat lb \<le> nat (pr_MaxLogicalBytes (cd_params c))"
    using lb unat_limit [OF D(5)] D(6) by (simp add: word_le_nat_alt)
  have cat: "length (concat (take k xs)) = k * s"
    using concat_equal_length [of "take k xs" s] xsz len by (auto dest: in_set_takeD)
  have "nat (pr_MaxLogicalBytes (cd_params c)) \<le> k * s"
    using D(1,3,7) by (simp add: k_def s_def nat_mult_distrib [symmetric])
  then have fits: "unat lb \<le> k * s" using ulb by simp
  have "gather_logical s 0 (take k xs) (replicate (unat lb) 0) =
      (if \<forall>b \<in> set (drop (unat lb) (concat (take k xs))). b = 0 then Some (take (unat lb) (concat (take k xs))) else None)"
    by (subst gather_logical_eq) (use xsz len fits in \<open>auto dest: in_set_takeD\<close>)
  then have g: "\<forall>b \<in> set (drop (unat lb) (concat (take k xs))). b = 0" "logical = take (unat lb) (concat (take k xs))"
    using gat unfolding xs_def [symmetric] by (simp_all split: if_splits)
  have ll: "length logical = unat lb" using g(2) cat fits by simp
  have adm: "admissible c fs" and man: "manifest fs = logical"
  proof -
    have "int (length logical) \<le> pr_MaxLogicalBytes (cd_params c)" using ll ulb D(6) by linarith
    then show "admissible c fs" "manifest fs = logical" using parse_canonical [OF parse] by blast+
  qed
  obtain g' xs' where G: "Codec_Encode c fs = Inr g'" "unat (gr_LogicalBytes g') = length (manifest fs)" "length (gr_Shards g') = k + m"
    "\<forall>x \<in> set (gr_Shards g'). length x = s"
    "concat (take k (gr_Shards g')) = manifest fs @ replicate (k * s - length (manifest fs)) 0"
    "rs_Encode (cd_rs c) xs' = Some (gr_Shards g')"
    using Encode_ok [OF ok adm] unfolding k_def m_def s_def by blast
  have "drop (unat lb) (concat (take k xs)) = replicate (k * s - unat lb) 0"
    using g(1) cat by (intro replicate_eqI) auto
  then have "concat (take k xs) = concat (take k (gr_Shards g'))"
    using append_take_drop_id [of "unat lb" "concat (take k xs)"] g(2) G(5) man ll by simp
  then have "take k xs = take k (gr_Shards g')"
    using equal_shards_eq [of "take k xs" "take k (gr_Shards g')" s] xsz G(3,4) len by (auto dest: in_set_takeD)
  then have "gr_Shards g' = xs" using rs_unique [OF laws e G(6) len G(3)] by simp
  moreover have "consistent ws xs"
  proof -
    have "ws ! i = None \<or> ws ! i = Some (xs ! i)" if i: "i < length ws" for i
    proof (cases "ws ! i")
      case (Some w)
      then have "zs ! i = Some w" using kept(2) [OF i] by simp
      then show ?thesis using Some i kept(1) by (simp add: xs_def)
    qed simp
    then show ?thesis using kept(1) by (simp add: consistent_def xs_def)
  qed
  moreover have "gr_LogicalBytes g' = lb" using G(2) man ll by (simp add: word_unat_eq_iff)
  ultimately show ?thesis using G(1) by auto
qed

definition example_params :: Parameters where
  "example_params = \<lparr>pr_DataShards = 2, pr_ParityShards = 1, pr_ShardBytes = 30, pr_MaxDescriptors = 3, pr_MaxLogicalBytes = 50,
     pr_MaxDatagramBytes = 9\<rparr>"

definition example_codec :: Codec where
  "example_codec = \<lparr>cd_params = example_params, cd_rs = xor_codec 2\<rparr>"

definition example_fragments :: "Fragment list" where
  "example_fragments = [\<lparr>fr_DatagramID = 5, fr_TotalBytes = 0, fr_Offset = 0, fr_Payload = []\<rparr>,
     \<lparr>fr_DatagramID = 6, fr_TotalBytes = 8, fr_Offset = 2, fr_Payload = [1, 2, 3, 4]\<rparr>]"

definition example_group :: Group where
  "example_group = projr (Codec_Encode example_codec example_fragments)"

lemma example_codec_ok: "codec_ok example_codec" "reconstruct_keeps (cd_rs example_codec)"
  using xor_codec_laws [of 2] xor_keeps [of 2]
  by (simp_all add: codec_ok_def example_codec_def example_params_def Parameters_validate_def)

lemma example_encode: "Codec_Encode example_codec example_fragments = Inr example_group"
proof -
  have "admissible example_codec example_fragments"
    by (simp add: admissible_iff length_manifest) code_simp
  then show ?thesis using Encode_ok [OF example_codec_ok(1)] unfolding example_group_def by fastforce
qed

theorem group_round_trip_witness:
  "Codec_Decode example_codec (gr_LogicalBytes example_group)
     [None, Some (gr_Shards example_group ! 1), Some (gr_Shards example_group ! 2)] = Inr example_fragments"
proof -
  have "length (gr_Shards example_group) = 3"
    using Encode_ok [OF example_codec_ok(1) Encode_admissible [OF example_encode]] example_encode
    by (auto simp: example_codec_def example_params_def)
  then show ?thesis
    by (intro group_round_trip [OF example_codec_ok(1) example_encode])
       (auto simp: consistent_def present_count_def example_codec_def example_params_def less_Suc_eq numeral_3_eq_3 numeral_2_eq_2)
qed

theorem decode_accepts_only_encodings_witness:
  "\<exists>lb ws fs g. Codec_Decode example_codec lb ws = Inr fs \<and> Codec_Encode example_codec fs = Inr g \<and> gr_LogicalBytes g = lb \<and>
     consistent ws (gr_Shards g)"
proof -
  have "present_count (map Some (gr_Shards example_group)) = 3"
    using Encode_ok [OF example_codec_ok(1) Encode_admissible [OF example_encode]] example_encode
    by (auto simp: example_codec_def example_params_def present_count_def comp_def)
  then have "Codec_Decode example_codec (gr_LogicalBytes example_group) (map Some (gr_Shards example_group)) = Inr example_fragments"
    by (intro group_round_trip [OF example_codec_ok(1) example_encode])
       (simp_all add: consistent_def example_codec_def example_params_def)
  from decode_accepts_only_encodings [OF example_codec_ok this] this show ?thesis by blast
qed


subsection \<open>Packing\<close>

fun last_id :: "u64 \<Rightarrow> Fragment list \<Rightarrow> u64" where
  "last_id previous [] = previous"
| "last_id previous (f # fs) = last_id (fr_DatagramID f) fs"

lemma validate_all_append:
  "validate_all c previous (xs @ ys) = None \<longleftrightarrow> validate_all c previous xs = None \<and> validate_all c (last_id previous xs) ys = None"
  by (induction xs arbitrary: previous) (auto split: option.split)

lemma validate_mono: "validateFragment c f p = None \<Longrightarrow> p' \<le> p \<Longrightarrow> validateFragment c f p' = None"
  by (auto simp: validateFragment_def split: if_splits)

lemma validate_all_zero: "validate_all c p fs = None \<Longrightarrow> validate_all c 0 fs = None"
  by (cases fs) (auto split: option.splits dest: validate_mono [where p' = 0])

text \<open>What remains of the input after a cursor, as the comment of \<open>Cursor\<close> prescribes.\<close>

definition advance :: "Fragment list \<Rightarrow> Cursor \<Rightarrow> Fragment list" where
  "advance input cur =
     (case drop (cu_Next cur) input of
        [] \<Rightarrow> []
      | f # fs \<Rightarrow> f\<lparr>fr_Offset := fr_Offset f + word_of_nat (cu_Bytes cur), fr_Payload := drop (cu_Bytes cur) (fr_Payload f)\<rparr> # fs)"

definition consumed :: "Fragment list \<Rightarrow> Cursor \<Rightarrow> Fragment list" where
  "consumed input cur = take (cu_Next cur) input @
     (if cu_Bytes cur = 0 then [] else [(input ! cu_Next cur)\<lparr>fr_Payload := take (cu_Bytes cur) (fr_Payload (input ! cu_Next cur))\<rparr>])"

definition cursor_ok :: "Fragment list \<Rightarrow> Cursor \<Rightarrow> bool" where
  "cursor_ok input cur \<longleftrightarrow> cu_Next cur \<le> length input \<and>
     (cu_Bytes cur \<noteq> 0 \<longrightarrow> cu_Next cur < length input \<and> cu_Bytes cur < length (fr_Payload (input ! cu_Next cur)))"

lemma plan_consumes:
  assumes "plan c fs pre (length pre) (int (length (manifest pre))) \<lparr>cu_Next = length pre, cu_Bytes = 0\<rparr> = (planned, cur)"
    "int (length pre) \<le> pr_MaxDescriptors (cd_params c)" "int (length (manifest pre)) \<le> pr_MaxLogicalBytes (cd_params c)"
  shows "planned = consumed (pre @ fs) cur \<and> cursor_ok (pre @ fs) cur \<and>
    int (length planned) \<le> pr_MaxDescriptors (cd_params c) \<and> int (length (manifest planned)) \<le> pr_MaxLogicalBytes (cd_params c)"
  using assms
proof (induction fs arbitrary: pre)
  case Nil
  then show ?case by (auto simp: consumed_def cursor_ok_def)
next
  case (Cons f fs)
  define room where "room = pr_MaxLogicalBytes (cd_params c) - int (length (manifest pre)) - 20"
  define n where "n = nat (min room (int (length (fr_Payload f))))"
  show ?case
  proof (cases "int (length pre) = pr_MaxDescriptors (cd_params c) \<or> room < 0 \<or> (room = 0 \<and> fr_Payload f \<noteq> [])")
    case True
    then have "planned = pre" "cur = \<lparr>cu_Next = length pre, cu_Bytes = 0\<rparr>"
      using Cons.prems(1) by (auto simp: room_def Let_def)
    then show ?thesis using Cons.prems(2,3) by (simp add: consumed_def cursor_ok_def)
  next
    case False
    have n: "n \<le> length (fr_Payload f)" "int n \<le> room" using False by (auto simp: n_def)
    have m: "int (length (manifest (pre @ [g]))) = int (length (manifest pre)) + 20 + int (length (fr_Payload g))" for g
      by (simp add: length_manifest)
    show ?thesis
    proof (cases "n < length (fr_Payload f)")
      case True
      then have "planned = pre @ [f\<lparr>fr_Payload := take n (fr_Payload f)\<rparr>]" "cur = \<lparr>cu_Next = length pre, cu_Bytes = n\<rparr>"
        using Cons.prems(1) False by (simp_all add: room_def [symmetric] n_def [symmetric] Let_def)
      moreover have "n \<noteq> 0" using True False by (auto simp: n_def)
      ultimately show ?thesis
        using True False Cons.prems(2) n m by (auto simp: consumed_def cursor_ok_def room_def)
    next
      case full: False
      then have "n = length (fr_Payload f)" using n(1) by simp
      then have f: "f\<lparr>fr_Payload := take n (fr_Payload f)\<rparr> = f" by simp
      have "int (length (manifest pre)) + 20 + int n = int (length (manifest (pre @ [f])))"
        using \<open>n = length (fr_Payload f)\<close> m by simp
      then have "plan c fs (pre @ [f]) (length (pre @ [f])) (int (length (manifest (pre @ [f]))))
          \<lparr>cu_Next = length (pre @ [f]), cu_Bytes = 0\<rparr> = (planned, cur)"
        using Cons.prems(1) False full f by (simp add: room_def [symmetric] n_def [symmetric] Let_def)
      moreover have "int (length (pre @ [f])) \<le> pr_MaxDescriptors (cd_params c)" using False Cons.prems(2) by simp
      moreover have "int (length (manifest (pre @ [f]))) \<le> pr_MaxLogicalBytes (cd_params c)"
        using n(2) m [of f] \<open>n = length (fr_Payload f)\<close> by (simp add: room_def)
      ultimately have "planned = consumed ((pre @ [f]) @ fs) cur \<and> cursor_ok ((pre @ [f]) @ fs) cur \<and>
          int (length planned) \<le> pr_MaxDescriptors (cd_params c) \<and> int (length (manifest planned)) \<le> pr_MaxLogicalBytes (cd_params c)"
        by (rule Cons.IH)
      then show ?thesis unfolding append.assoc append.simps by blast
    qed
  qed
qed

lemma validate_prefix:
  assumes "validateFragment c f p = None" "0 < n" "n < length (fr_Payload f)"
  shows "validateFragment c (f\<lparr>fr_Payload := take n (fr_Payload f)\<rparr>) p = None"
    "validateFragment c (f\<lparr>fr_Offset := fr_Offset f + word_of_nat n, fr_Payload := drop n (fr_Payload f)\<rparr>) p = None"
proof -
  have v: "fr_Offset f \<le> fr_TotalBytes f" "length (fr_Payload f) \<le> unat (fr_TotalBytes f - fr_Offset f)"
    using assms(1) by (auto simp: validateFragment_def split: if_splits)
  have d: "unat (fr_TotalBytes f - fr_Offset f) = unat (fr_TotalBytes f) - unat (fr_Offset f)" using v(1) by (rule unat_sub)
  have le: "unat (fr_Offset f) + n < 2 ^ 32" "unat (fr_Offset f) + n \<le> unat (fr_TotalBytes f)"
    using v(2) d assms(3) unat_less_u32 [of "fr_TotalBytes f"] by simp_all
  then have o: "unat (fr_Offset f + word_of_nat n) = unat (fr_Offset f) + n"
    by (simp add: unat_word_ariths unat_of_nat)
  then have "fr_Offset f + word_of_nat n \<le> fr_TotalBytes f" using le(2) by (simp add: word_le_nat_alt)
  then have "unat (fr_TotalBytes f - (fr_Offset f + word_of_nat n)) = unat (fr_TotalBytes f) - (unat (fr_Offset f) + n)"
    using o by (simp only: unat_sub)
  then show "validateFragment c (f\<lparr>fr_Offset := fr_Offset f + word_of_nat n, fr_Payload := drop n (fr_Payload f)\<rparr>) p = None"
    using assms v d o le by (auto simp: validateFragment_def word_less_nat_alt split: if_splits)
  show "validateFragment c (f\<lparr>fr_Payload := take n (fr_Payload f)\<rparr>) p = None"
    using assms by (auto simp: validateFragment_def split: if_splits)
qed

lemma cursor_validates:
  assumes "validate_all c 0 input = None" "cursor_ok input cur"
  shows "validate_all c 0 (consumed input cur) = None" "validate_all c 0 (advance input cur) = None"
proof -
  let ?i = "cu_Next cur" and ?n = "cu_Bytes cur"
  have "validate_all c 0 (take ?i input @ drop ?i input) = None" using assms(1) by simp
  then have v: "validate_all c 0 (take ?i input) = None" "validate_all c (last_id 0 (take ?i input)) (drop ?i input) = None"
    unfolding validate_all_append by simp_all
  have "validate_all c 0 (consumed input cur) = None \<and> validate_all c 0 (advance input cur) = None"
  proof (cases "?n = 0")
    case True
    then show ?thesis
      using v(1) validate_all_zero [OF v(2)] by (cases "drop ?i input") (simp_all add: consumed_def advance_def)
  next
    case False
    then have i: "?i < length input" "?n < length (fr_Payload (input ! ?i))" using assms(2) by (simp_all add: cursor_ok_def)
    have dr: "drop ?i input = input ! ?i # drop (Suc ?i) input" using i(1) by (rule Cons_nth_drop_Suc [symmetric])
    have w: "validateFragment c (input ! ?i) (last_id 0 (take ?i input)) = None"
      "validate_all c (fr_DatagramID (input ! ?i)) (drop (Suc ?i) input) = None"
      using v(2) unfolding dr by (simp_all split: option.splits)
    note pre = validate_prefix [OF w(1), of ?n]
    have "validate_all c 0 (consumed input cur) = None"
      using False v(1) pre(1) i(2) by (simp add: consumed_def validate_all_append)
    moreover have "validate_all c 0 (advance input cur) = None"
      using False validate_mono [OF pre(2), of 0] i(2) w(2) by (simp add: advance_def dr)
    ultimately show ?thesis by blast
  qed
  then show "validate_all c 0 (consumed input cur) = None" "validate_all c 0 (advance input cur) = None" by blast+
qed

definition backlog :: "Fragment list \<Rightarrow> nat" where
  "backlog fs = length fs + length (concat (map fr_Payload fs))"

lemma cursor_progress:
  assumes "cursor_ok input cur" "consumed input cur \<noteq> []"
  shows "backlog (advance input cur) < backlog input"
    "concat (map fr_Payload (consumed input cur)) @ concat (map fr_Payload (advance input cur)) = concat (map fr_Payload input)"
proof -
  let ?i = "cu_Next cur" and ?n = "cu_Bytes cur"
  have split: "concat (map fr_Payload input) = concat (map fr_Payload (take ?i input)) @ concat (map fr_Payload (drop ?i input))"
    by (metis append_take_drop_id concat_append map_append)
  have "backlog (advance input cur) < backlog input \<and>
    concat (map fr_Payload (consumed input cur)) @ concat (map fr_Payload (advance input cur)) = concat (map fr_Payload input)"
  proof (cases "?n = 0")
    case True
    then have "advance input cur = drop ?i input" by (cases "drop ?i input") (simp_all add: advance_def)
    moreover have "0 < ?i" "input \<noteq> []" using True assms(2) by (auto simp: consumed_def)
    then have "length (drop ?i input) < length input" by (cases input) simp_all
    ultimately show ?thesis using True split by (simp add: consumed_def backlog_def)
  next
    case False
    then have i: "?i < length input" "?n < length (fr_Payload (input ! ?i))" using assms(1) by (simp_all add: cursor_ok_def)
    have dr: "drop ?i input = input ! ?i # drop (Suc ?i) input" using i(1) by (rule Cons_nth_drop_Suc [symmetric])
    show ?thesis using False i split unfolding dr by (simp add: consumed_def advance_def backlog_def dr)
  qed
  then show "backlog (advance input cur) < backlog input"
    "concat (map fr_Payload (consumed input cur)) @ concat (map fr_Payload (advance input cur)) = concat (map fr_Payload input)"
    by blast+
qed

lemma plan_progress:
  assumes "plan c (f # fs) [] 0 4 cur0 = (planned, cur)" "1 \<le> pr_MaxDescriptors (cd_params c)" "24 \<le> pr_MaxLogicalBytes (cd_params c)"
  shows "planned = [] \<longleftrightarrow> pr_MaxLogicalBytes (cd_params c) = 24 \<and> fr_Payload f \<noteq> []"
proof -
  have grow: "plan c fs pl i u cr = (pl', cr') \<Longrightarrow> pl \<noteq> [] \<Longrightarrow> pl' \<noteq> []" for fs pl i u cr pl' cr'
    by (induction c fs pl i u cr rule: plan.induct) (auto simp: Let_def split: if_splits)
  show ?thesis using assms grow by (auto simp: Let_def split: if_splits)
qed

text \<open>On an ordered, valid input \<open>EncodePrefix\<close> either reports that the context has room for a
  descriptor but for no payload byte, or emits a group of exactly the fragments before the cursor. The
  packed payloads followed by the remaining ones are the input's, the remaining input is valid again
  and strictly smaller, so repeated packing terminates; its inner \<open>Encode\<close> never fails.\<close>

theorem encode_prefix_progress:
  assumes ok: "codec_ok c" and "input \<noteq> []" "length input \<le> 256" "validate_all c 0 input = None"
  shows "(EncodePrefix c input = Inl ErrNoPayloadCapacity \<and> pr_MaxLogicalBytes (cd_params c) = 24 \<and> fr_Payload (hd input) \<noteq> []) \<or>
    (\<exists>g cur. EncodePrefix c input = Inr (g, cur) \<and> cursor_ok input cur \<and> Codec_Encode c (consumed input cur) = Inr g \<and>
       concat (map fr_Payload (consumed input cur)) @ concat (map fr_Payload (advance input cur)) = concat (map fr_Payload input) \<and>
       validate_all c 0 (advance input cur) = None \<and> backlog (advance input cur) < backlog input)"
proof -
  note D = codec_okD [OF ok]
  obtain planned cur where p: "plan c input [] 0 4 \<lparr>cu_Next = 0, cu_Bytes = 0\<rparr> = (planned, cur)" by (cases "plan c input [] 0 4 \<lparr>cu_Next = 0, cu_Bytes = 0\<rparr>")
  have P: "planned = consumed input cur" "cursor_ok input cur" "int (length planned) \<le> pr_MaxDescriptors (cd_params c)"
    "int (length (manifest planned)) \<le> pr_MaxLogicalBytes (cd_params c)"
  proof -
    have "planned = consumed ([] @ input) cur \<and> cursor_ok ([] @ input) cur \<and> int (length planned) \<le> pr_MaxDescriptors (cd_params c) \<and>
        int (length (manifest planned)) \<le> pr_MaxLogicalBytes (cd_params c)"
      by (rule plan_consumes) (use p D(6,8) in \<open>simp_all add: length_manifest\<close>)
    then show "planned = consumed input cur" "cursor_ok input cur" "int (length planned) \<le> pr_MaxDescriptors (cd_params c)"
      "int (length (manifest planned)) \<le> pr_MaxLogicalBytes (cd_params c)" unfolding append.simps by blast+
  qed
  have emp: "planned = [] \<longleftrightarrow> pr_MaxLogicalBytes (cd_params c) = 24 \<and> fr_Payload (hd input) \<noteq> []"
    using plan_progress [of c "hd input" "tl input"] p D(6,8) assms(2) by simp
  show ?thesis
  proof (cases "planned = []")
    case True
    then show ?thesis using emp p assms(2-4) by (simp add: EncodePrefix_def)
  next
    case False
    note V = cursor_validates [OF assms(4) P(2)]
    have "admissible c planned" using False P V(1) by (simp add: admissible_iff)
    then obtain g where "Codec_Encode c planned = Inr g" using Encode_ok [OF ok] by blast
    then show ?thesis using False P p assms(2-4) V(2) cursor_progress [OF P(2)] by (simp add: EncodePrefix_def)
  qed
qed

definition example_input :: "Fragment list" where
  "example_input = [\<lparr>fr_DatagramID = 5, fr_TotalBytes = 1, fr_Offset = 0, fr_Payload = [9]\<rparr>,
     \<lparr>fr_DatagramID = 6, fr_TotalBytes = 8, fr_Offset = 0, fr_Payload = [1, 2, 3, 4, 5, 6, 7, 8]\<rparr>]"

theorem encode_prefix_progress_witness:
  "\<exists>g cur. EncodePrefix example_codec example_input = Inr (g, cur) \<and> cursor_ok example_input cur \<and>
     backlog (advance example_input cur) < backlog example_input"
proof -
  have "example_input \<noteq> []" "length example_input \<le> 256" "validate_all example_codec 0 example_input = None" by code_simp+
  from encode_prefix_progress [OF example_codec_ok(1) this] show ?thesis
    by (auto simp: example_codec_def example_params_def)
qed


end
