(* ===== verification/WireV2.thy ===== *)
theory WireV2
  imports Sha256
begin

text \<open>
  The v2 packet formats (\<^verbatim>\<open>src/internal/wirev2\<close>): the authenticated envelope, the handshake with its
  TLVs, the routed established packets, encoding contexts with their acknowledgements, FEC bundles, the
  handshake transcript and the key schedule. Fixed-size byte arrays are machine words of that size,
  written big-endian. Slices are values: what a function borrows, copies or owns is not modelled, and
  \<open>dst\<close> with the appended packet is a list. HMAC-SHA-256 and HKDF are the standard's functions.
\<close>

subsection \<open>constants.go, errors.go, types.go\<close>

definition Magic :: bytes where "Magic = [0x4d, 0x50, 0x55, 0x44]"
abbreviation (input) Version :: u8 where "Version \<equiv> 2"
abbreviation (input) PrefixSize :: nat where "PrefixSize \<equiv> 24"
abbreviation (input) AuthenticationTagSize :: nat where "AuthenticationTagSize \<equiv> 32"
abbreviation (input) EnvelopeOverhead :: nat where "EnvelopeOverhead \<equiv> 56"
abbreviation (input) RouteSize :: nat where "RouteSize \<equiv> 16"
abbreviation (input) TypedBodyOverhead :: nat where "TypedBodyOverhead \<equiv> 72"
abbreviation (input) MaxUDPPayload :: nat where "MaxUDPPayload \<equiv> 65507"
abbreviation (input) MaxBodySize :: nat where "MaxBodySize \<equiv> 65451"
abbreviation (input) HandshakePacketSize :: nat where "HandshakePacketSize \<equiv> 512"
abbreviation (input) HandshakeBodySize :: nat where "HandshakeBodySize \<equiv> 456"
abbreviation (input) HandshakeFixedSize :: nat where "HandshakeFixedSize \<equiv> 84"
abbreviation (input) MaxTLVBytes :: nat where "MaxTLVBytes \<equiv> 372"
abbreviation (input) MaxTLVs :: nat where "MaxTLVs \<equiv> 16"

datatype wirev2_error =
    ErrMalformed | ErrUnsupportedVersion | ErrUnknownPacketType | ErrAuthentication | ErrInvalidSessionID
  | ErrPacketTooLarge | ErrInvalidKey | ErrInvalidTLV | ErrRequiredTLV | ErrTranscript
  | ErrInvalidRoute | ErrInvalidPayloadLimit | ErrInvalidContext | ErrContextUnavailable | ErrContextAck
  | ErrInvalidFECBundle

type_synonym PacketType = u8

abbreviation (input) TypeHello :: PacketType where "TypeHello \<equiv> 1"
abbreviation (input) TypeChallenge :: PacketType where "TypeChallenge \<equiv> 2"
abbreviation (input) TypeFinish :: PacketType where "TypeFinish \<equiv> 3"
abbreviation (input) TypeReady :: PacketType where "TypeReady \<equiv> 4"
abbreviation (input) TypeReject :: PacketType where "TypeReject \<equiv> 5"
abbreviation (input) TypePathJoin :: PacketType where "TypePathJoin \<equiv> 16"
abbreviation (input) TypePathReady :: PacketType where "TypePathReady \<equiv> 19"
abbreviation (input) TypeEncodingContext :: PacketType where "TypeEncodingContext \<equiv> 27"
abbreviation (input) TypeEncodingContextAck :: PacketType where "TypeEncodingContextAck \<equiv> 28"
abbreviation (input) TypeFECBundle :: PacketType where "TypeFECBundle \<equiv> 32"
abbreviation (input) TypeDatagramExpired :: PacketType where "TypeDatagramExpired \<equiv> 38"
abbreviation (input) TypeKCPBundle :: PacketType where "TypeKCPBundle \<equiv> 48"
abbreviation (input) TypeClose :: PacketType where "TypeClose \<equiv> 63"

definition IsHandshake :: "PacketType \<Rightarrow> bool" where
  "IsHandshake t \<longleftrightarrow> TypeHello \<le> t \<and> t \<le> TypeReject"

definition knownPacketType :: "PacketType \<Rightarrow> bool" where
  "knownPacketType t \<longleftrightarrow>
     IsHandshake t \<or> (TypePathJoin \<le> t \<and> t \<le> TypeEncodingContextAck) \<or> (TypeFECBundle \<le> t \<and> t \<le> TypeDatagramExpired) \<or>
     t = TypeKCPBundle \<or> t = TypeClose"

type_synonym TLVType = u16

abbreviation (input) TLVProtocol :: TLVType where "TLVProtocol \<equiv> 0x8001"
abbreviation (input) TLVRepair :: TLVType where "TLVRepair \<equiv> 0x8009"
abbreviation (input) TLVPaths :: TLVType where "TLVPaths \<equiv> 0x800c"
abbreviation (input) TLVError :: TLVType where "TLVError \<equiv> 0x800d"

definition tlvLength :: "TLVType \<Rightarrow> nat option" where
  "tlvLength t =
     (if t = 0x8001 then Some 1
      else if t = 0x8002 then Some 16
      else if t = 0x8003 \<or> t = 0x8004 \<or> t = 0x8005 \<or> t = 0x8006 then Some 2
      else if t = 0x8007 \<or> t = 0x8009 \<or> t = 0x800b then Some 8
      else if t = 0x8008 then Some 20
      else if t = 0x800a then Some 28
      else if t = 0x800c \<or> t = 0x800d then Some 4
      else None)"

type_synonym SessionID = "128 word"
type_synonym Nonce = "128 word"
type_synonym Digest = "256 word"
type_synonym Key = "256 word"

record Header =
  hd_Type :: PacketType
  hd_SessionID :: SessionID

record Envelope =
  ev_packet :: bytes
  ev_header :: Header

record AuthenticatedEnvelope =
  ae_envelope :: Envelope
  ae_verified :: bool

definition ae_Header :: "AuthenticatedEnvelope \<Rightarrow> Header" where
  "ae_Header e = ev_header (ae_envelope e)"

definition ae_Body :: "AuthenticatedEnvelope \<Rightarrow> bytes" where
  "ae_Body e =
     (if \<not> ae_verified e then []
      else slice PrefixSize (length (ev_packet (ae_envelope e)) - AuthenticationTagSize) (ev_packet (ae_envelope e)))"

record TLV =
  tlv_Type :: TLVType
  tlv_Value :: bytes

record Handshake =
  hs_Header :: Header
  hs_ClientNonce :: Nonce
  hs_ServerNonce :: Nonce
  hs_TranscriptDigest :: Digest
  hs_ReturnPathToken :: Nonce
  hs_TLVs :: "TLV list"

record DirectionalKeys =
  ClientToServer :: Key
  ServerToClient :: Key

definition allZero :: "bytes \<Rightarrow> bool" where
  "allZero bs \<longleftrightarrow> (\<forall>b \<in> set bs. b = 0)"

subsection \<open>authenticator.go: state\<close>

text \<open>A keyed \<open>hash.Hash\<close> is its key and the bytes written since the last \<open>Reset\<close>.\<close>

type_synonym mac = "bytes \<times> bytes"

definition hmac_new :: "Key \<Rightarrow> mac" where "hmac_new key = (be_put 32 key, [])"
definition mac_Reset :: "mac \<Rightarrow> mac" where "mac_Reset m = (fst m, [])"
definition mac_Write :: "bytes \<Rightarrow> mac \<Rightarrow> mac" where "mac_Write bs m = (fst m, snd m @ bs)"
definition mac_Sum :: "mac \<Rightarrow> bytes" where "mac_Sum m = hmac_sha256 (fst m) (snd m)"

record Authenticator =
  au_key :: Key
  au_mac :: "mac option"
  au_prefix :: bytes
  au_tag :: bytes

subsection \<open>envelope.go\<close>

definition validateEnvelope :: "Header \<Rightarrow> nat \<Rightarrow> wirev2_error option" where
  "validateEnvelope header bodySize =
     (if \<not> knownPacketType (hd_Type header) then Some ErrUnknownPacketType
      else if hd_SessionID header = 0 then Some ErrInvalidSessionID
      else if bodySize > MaxBodySize then Some ErrPacketTooLarge
      else if (IsHandshake (hd_Type header) \<and> bodySize \<noteq> HandshakeBodySize) \<or>
              (\<not> IsHandshake (hd_Type header) \<and> bodySize < RouteSize) then Some ErrMalformed
      else None)"

definition ParseEnvelope :: "bytes \<Rightarrow> (wirev2_error, Envelope) result" where
  "ParseEnvelope packet =
     (if length packet > MaxUDPPayload then Inl ErrPacketTooLarge
      else if length packet < EnvelopeOverhead \<or> take 4 packet \<noteq> Magic then Inl ErrMalformed
      else if packet ! 4 \<noteq> Version then Inl ErrUnsupportedVersion
      else
        let header = \<lparr>hd_Type = packet ! 5, hd_SessionID = be_get (slice 8 24 packet)\<rparr>;
            bodySize = unat (be_get (slice 6 8 packet) :: u16)
        in if bodySize + EnvelopeOverhead \<noteq> length packet then Inl ErrMalformed
           else
             (case validateEnvelope header bodySize of
                Some err \<Rightarrow> Inl err
              | None \<Rightarrow> Inr \<lparr>ev_packet = packet, ev_header = header\<rparr>))"

definition verifyEnvelope :: "mac \<Rightarrow> bytes \<Rightarrow> nat \<Rightarrow> bool" where
  "verifyEnvelope mac packet tagOffset \<longleftrightarrow> mac_Sum (mac_Write (take tagOffset packet) mac) = drop tagOffset packet"

definition authenticateStateless :: "bytes \<Rightarrow> nat \<Rightarrow> Key \<Rightarrow> bool" where
  "authenticateStateless packet tagOffset key = verifyEnvelope (hmac_new key) packet tagOffset"

definition use_mac :: "bytes \<Rightarrow> Authenticator \<Rightarrow> Authenticator" where
  "use_mac written a = a\<lparr>au_mac := map_option (\<lambda>m. mac_Write written (mac_Reset m)) (au_mac a)\<rparr>"

definition authenticate ::
    "Envelope \<Rightarrow> Key \<Rightarrow> Authenticator option \<Rightarrow> (wirev2_error, AuthenticatedEnvelope) result \<times> Authenticator option" where
  "authenticate e key authenticator =
     (if key = 0 then (Inl ErrInvalidKey, authenticator)
      else if length (ev_packet e) < EnvelopeOverhead then (Inl ErrMalformed, authenticator)
      else
        let tagOffset = length (ev_packet e) - AuthenticationTagSize;
            (valid, authenticator') =
              (case authenticator of
                 None \<Rightarrow> (authenticateStateless (ev_packet e) tagOffset key, None)
               | Some a \<Rightarrow>
                   (verifyEnvelope (mac_Reset (the (au_mac a))) (ev_packet e) tagOffset,
                    Some ((use_mac (take tagOffset (ev_packet e)) a)\<lparr>au_tag := replicate AuthenticationTagSize 0\<rparr>)))
        in (if \<not> valid then Inl ErrAuthentication else Inr \<lparr>ae_envelope = e, ae_verified = True\<rparr>, authenticator'))"

definition Authenticate :: "Envelope \<Rightarrow> Key \<Rightarrow> (wirev2_error, AuthenticatedEnvelope) result" where
  "Authenticate e key = fst (authenticate e key None)"

definition envelope_prefix :: "Header \<Rightarrow> nat \<Rightarrow> bytes" where
  "envelope_prefix header bodySize =
     Magic @ [Version, hd_Type header] @ be_put 2 (word_of_nat bodySize :: u16) @ be_put 16 (hd_SessionID header)"

definition appendSignedEnvelope :: "bytes \<Rightarrow> Header \<Rightarrow> bytes \<Rightarrow> mac \<Rightarrow> bytes" where
  "appendSignedEnvelope dst header body mac =
     (let prefix = envelope_prefix header (length body);
          tag = mac_Sum (mac_Write body (mac_Write prefix mac))
      in dst @ prefix @ body @ tag)"

definition appendEnvelopeStateless :: "bytes \<Rightarrow> Header \<Rightarrow> bytes \<Rightarrow> Key \<Rightarrow> bytes" where
  "appendEnvelopeStateless dst header body key = appendSignedEnvelope dst header body (hmac_new key)"

definition appendEnvelope ::
    "bytes \<Rightarrow> Header \<Rightarrow> bytes \<Rightarrow> Key \<Rightarrow> Authenticator option \<Rightarrow> bytes \<times> wirev2_error option \<times> Authenticator option" where
  "appendEnvelope dst header body key authenticator =
     (if key = 0 then (dst, Some ErrInvalidKey, authenticator)
      else
        (case validateEnvelope header (length body) of
           Some err \<Rightarrow> (dst, Some err, authenticator)
         | None \<Rightarrow>
             (case authenticator of
                None \<Rightarrow> (appendEnvelopeStateless dst header body key, None, None)
              | Some a \<Rightarrow>
                  (appendSignedEnvelope dst header body (mac_Reset (the (au_mac a))), None,
                   Some ((use_mac (envelope_prefix header (length body) @ body) a)
                           \<lparr>au_prefix := replicate PrefixSize 0, au_tag := replicate AuthenticationTagSize 0\<rparr>)))))"

definition AppendEnvelope :: "bytes \<Rightarrow> Header \<Rightarrow> bytes \<Rightarrow> Key \<Rightarrow> bytes \<times> wirev2_error option" where
  "AppendEnvelope dst header body key =
     (let (out, err, _) = appendEnvelope dst header body key None in (out, err))"

subsection \<open>handshake.go\<close>

fun check_tlvs :: "PacketType \<Rightarrow> TLVType option \<Rightarrow> u16 \<Rightarrow> nat \<Rightarrow> TLV list \<Rightarrow> wirev2_error option" where
  "check_tlvs packetType previous seen bytes_so_far [] =
     (if packetType \<noteq> TypeReject \<and> seen \<noteq> 0xfff then Some ErrInvalidTLV else None)"
| "check_tlvs packetType previous seen bytes_so_far (tlv # tlvs) =
     (let t = tlv_Type tlv; v = tlv_Value tlv
      in if (case previous of None \<Rightarrow> False | Some p \<Rightarrow> t \<le> p) then Some ErrInvalidTLV
         else if length v > MaxTLVBytes - 4 \<or> bytes_so_far > MaxTLVBytes - 4 - length v then Some ErrInvalidTLV
         else
           (case tlvLength t of
              Some len \<Rightarrow>
                if length v \<noteq> len \<or> (packetType \<noteq> TypeReject \<and> t = TLVError) then Some ErrInvalidTLV
                else if t = TLVRepair \<and> \<not> allZero (slice 6 8 v) then Some ErrInvalidTLV
                else if t = TLVError \<and>
                  ((be_get (slice 0 2 v) :: u16) < 1 \<or> (be_get (slice 0 2 v) :: u16) > 9 \<or> (be_get (slice 2 4 v) :: u16) > 1000)
                  then Some ErrInvalidTLV
                else
                  check_tlvs packetType (Some t)
                    (if TLVProtocol \<le> t \<and> t \<le> TLVPaths then seen OR push_bit (unat (t - TLVProtocol)) 1 else seen)
                    (bytes_so_far + 4 + length v) tlvs
            | None \<Rightarrow>
                if t AND 0x8000 \<noteq> 0 then Some ErrRequiredTLV
                else check_tlvs packetType (Some t) seen (bytes_so_far + 4 + length v) tlvs))"

definition validateTLVs :: "PacketType \<Rightarrow> TLV list \<Rightarrow> wirev2_error option" where
  "validateTLVs packetType tlvs =
     (if length tlvs > MaxTLVs then Some ErrInvalidTLV
      else if packetType = TypeFinish \<or> packetType = TypeReady then
        (if length tlvs \<noteq> 0 then Some ErrInvalidTLV else None)
      else if packetType = TypeReject \<and> (length tlvs \<noteq> 1 \<or> tlv_Type (tlvs ! 0) \<noteq> TLVError) then Some ErrInvalidTLV
      else check_tlvs packetType None 0 0 tlvs)"

definition validateHandshake :: "Handshake \<Rightarrow> wirev2_error option" where
  "validateHandshake message =
     (let t = hd_Type (hs_Header message)
      in if \<not> IsHandshake t then Some ErrUnknownPacketType
         else if hd_SessionID (hs_Header message) = 0 then Some ErrInvalidSessionID
         else if hs_ClientNonce message = 0 then Some ErrMalformed
         else if t = TypeHello \<and>
           (hs_ServerNonce message \<noteq> 0 \<or> hs_TranscriptDigest message \<noteq> 0 \<or> hs_ReturnPathToken message \<noteq> 0) then Some ErrMalformed
         else if t = TypeReject \<and> (hs_ServerNonce message \<noteq> 0 \<or> hs_ReturnPathToken message \<noteq> 0) then Some ErrMalformed
         else validateTLVs t (hs_TLVs message))"

definition encode_tlv :: "TLV \<Rightarrow> bytes" where
  "encode_tlv tlv = be_put 2 (tlv_Type tlv) @ be_put 2 (word_of_nat (length (tlv_Value tlv)) :: u16) @ tlv_Value tlv"

definition handshake_body :: "Handshake \<Rightarrow> bytes" where
  "handshake_body message =
     (let tlvs = concat (map encode_tlv (hs_TLVs message))
      in be_put 16 (hs_ClientNonce message) @ be_put 16 (hs_ServerNonce message) @ be_put 32 (hs_TranscriptDigest message) @
         be_put 16 (hs_ReturnPathToken message) @ be_put 2 (word_of_nat (length tlvs) :: u16) @ [0, 0] @ tlvs @
         replicate (HandshakeBodySize - HandshakeFixedSize - length tlvs) 0)"

definition AppendHandshake :: "bytes \<Rightarrow> Handshake \<Rightarrow> Key \<Rightarrow> bytes \<times> wirev2_error option" where
  "AppendHandshake dst message key =
     (case validateHandshake message of
        Some err \<Rightarrow> (dst, Some err)
      | None \<Rightarrow> AppendEnvelope dst (hs_Header message) (handshake_body message) key)"

text \<open>The loop over \<open>remaining\<close>; the first argument is the number of TLVs that may still be appended.\<close>

primrec decode_tlvs :: "nat \<Rightarrow> bytes \<Rightarrow> (wirev2_error, TLV list) result" where
  "decode_tlvs 0 remaining = (if remaining = [] then Inr [] else Inl ErrInvalidTLV)"
| "decode_tlvs (Suc n) remaining =
     (if remaining = [] then Inr []
      else if length remaining < 4 then Inl ErrInvalidTLV
      else
        let valueBytes = unat (be_get (slice 2 4 remaining) :: u16)
        in if valueBytes > length remaining - 4 then Inl ErrInvalidTLV
           else
             (case decode_tlvs n (drop (4 + valueBytes) remaining) of
                Inl err \<Rightarrow> Inl err
              | Inr tlvs \<Rightarrow>
                  Inr (\<lparr>tlv_Type = be_get (slice 0 2 remaining), tlv_Value = slice 4 (4 + valueBytes) remaining\<rparr> # tlvs)))"

definition DecodeHandshake :: "AuthenticatedEnvelope \<Rightarrow> (wirev2_error, Handshake) result" where
  "DecodeHandshake envelope =
     (if \<not> ae_verified envelope then Inl ErrAuthentication
      else if \<not> IsHandshake (hd_Type (ae_Header envelope)) then Inl ErrUnknownPacketType
      else
        let body = ae_Body envelope
        in if length body \<noteq> HandshakeBodySize then Inl ErrMalformed
           else
             let tlvBytes = unat (be_get (slice 80 82 body) :: u16)
             in if tlvBytes > MaxTLVBytes \<or> (be_get (slice 82 84 body) :: u16) \<noteq> 0 \<or> \<not> allZero (drop (HandshakeFixedSize + tlvBytes) body)
                then Inl ErrMalformed
                else
                  (case decode_tlvs MaxTLVs (slice HandshakeFixedSize (HandshakeFixedSize + tlvBytes) body) of
                     Inl err \<Rightarrow> Inl err
                   | Inr tlvs \<Rightarrow>
                       let message = \<lparr>hs_Header = ae_Header envelope, hs_ClientNonce = be_get (slice 0 16 body),
                             hs_ServerNonce = be_get (slice 16 32 body), hs_TranscriptDigest = be_get (slice 32 64 body),
                             hs_ReturnPathToken = be_get (slice 64 80 body), hs_TLVs = tlvs\<rparr>
                       in (case validateHandshake message of
                             Some err \<Rightarrow> Inl err
                           | None \<Rightarrow> Inr message)))"

subsection \<open>established.go\<close>

record Route =
  rt_PathID :: u32
  rt_Generation :: u64
  rt_BudgetEpoch :: u32

record Established =
  es_Header :: Header
  es_Route :: Route
  es_Body :: bytes

definition validateRoute :: "PacketType \<Rightarrow> Route \<Rightarrow> wirev2_error option" where
  "validateRoute packetType route =
     (if rt_PathID route < 1 \<or> rt_PathID route > 256 \<or> rt_Generation route = 0 then Some ErrInvalidRoute
      else
        let pending = (TypePathJoin \<le> packetType \<and> packetType \<le> TypePathReady)
        in if (pending \<and> rt_BudgetEpoch route \<noteq> 0) \<or> (\<not> pending \<and> rt_BudgetEpoch route = 0) then Some ErrInvalidRoute
           else None)"

definition encodeRoute :: "Route \<Rightarrow> bytes" where
  "encodeRoute route = be_put 4 (rt_PathID route) @ be_put 8 (rt_Generation route) @ be_put 4 (rt_BudgetEpoch route)"

definition validatePayloadLimit :: "int \<Rightarrow> wirev2_error option" where
  "validatePayloadLimit maxPayload =
     (if maxPayload < int HandshakePacketSize \<or> maxPayload > int MaxUDPPayload then Some ErrInvalidPayloadLimit else None)"

definition DecodeEstablished :: "AuthenticatedEnvelope \<Rightarrow> (wirev2_error, Established) result" where
  "DecodeEstablished envelope =
     (if \<not> ae_verified envelope then Inl ErrAuthentication
      else
        let header = ae_Header envelope
        in if IsHandshake (hd_Type header) then Inl ErrUnknownPacketType
           else
             let body = ae_Body envelope
             in if length body < RouteSize then Inl ErrMalformed
                else
                  let route = \<lparr>rt_PathID = be_get (slice 0 4 body), rt_Generation = be_get (slice 4 12 body),
                               rt_BudgetEpoch = be_get (slice 12 16 body)\<rparr>
                  in (case validateRoute (hd_Type header) route of
                        Some err \<Rightarrow> Inl err
                      | None \<Rightarrow> Inr \<lparr>es_Header = header, es_Route = route, es_Body = drop RouteSize body\<rparr>))"

definition AppendEstablished :: "bytes \<Rightarrow> Header \<Rightarrow> Route \<Rightarrow> bytes \<Rightarrow> Key \<Rightarrow> bytes \<times> wirev2_error option" where
  "AppendEstablished dst header route typedBody key =
     (if key = 0 then (dst, Some ErrInvalidKey)
      else if IsHandshake (hd_Type header) then (dst, Some ErrUnknownPacketType)
      else if length typedBody > MaxBodySize - RouteSize then (dst, Some ErrPacketTooLarge)
      else
        (case validateEnvelope header (RouteSize + length typedBody) of
           Some err \<Rightarrow> (dst, Some err)
         | None \<Rightarrow>
             (case validateRoute (hd_Type header) route of
                Some err \<Rightarrow> (dst, Some err)
              | None \<Rightarrow> AppendEnvelope dst header (encodeRoute route @ typedBody) key)))"

end
