(* ===== verification/WireV2Messages.thy ===== *)
theory WireV2Messages
  imports WireV2
begin

text \<open>
  The typed v2 messages on top of the envelope: encoding contexts and acknowledgements
  (\<^verbatim>\<open>context.go\<close>), FEC bundles (\<^verbatim>\<open>bundle.go\<close>), the handshake transcript (\<^verbatim>\<open>transcript.go\<close>), the key
  schedule (\<^verbatim>\<open>keys.go\<close>) and the stateful authenticator (\<^verbatim>\<open>authenticator.go\<close>). \<open>ContextLookup\<close> is the
  caller's function, a parameter of the bundle codec.
\<close>

subsection \<open>context.go\<close>

abbreviation (input) EncodingContextBodySize :: nat where "EncodingContextBodySize \<equiv> 24"
abbreviation (input) EncodingContextAckBodySize :: nat where "EncodingContextAckBodySize \<equiv> 36"
abbreviation (input) FECBundlePrefixSize :: nat where "FECBundlePrefixSize \<equiv> 4"
abbreviation (input) FECRecordHeaderSize :: nat where "FECRecordHeaderSize \<equiv> 18"
abbreviation (input) MaxFECRecords :: nat where "MaxFECRecords \<equiv> 16"
abbreviation (input) MinimumFECLogicalBytes :: nat where "MinimumFECLogicalBytes \<equiv> 24"
abbreviation (input) MaxFECLogicalBytes :: nat where "MaxFECLogicalBytes \<equiv> 16777216"
abbreviation (input) MaxFECShardBytes :: nat where "MaxFECShardBytes \<equiv> 65413"

record EncodingContext =
  ec_Epoch :: u32
  ec_LayoutID :: u16
  ec_ProtectionID :: u16
  ec_DataShards :: u8
  ec_ParityShards :: u8
  ec_ShardBytes :: u16
  ec_MaxDescriptors :: u16
  ec_MaxLogicalBytes :: u32

definition EncodingContext_Validate :: "EncodingContext \<Rightarrow> wirev2_error option" where
  "EncodingContext_Validate c =
     (if ec_Epoch c = 0 \<or> ec_LayoutID c \<noteq> 1 \<or> ec_ProtectionID c \<noteq> 1 \<or> ec_DataShards c = 0 \<or> ec_ParityShards c = 0 \<or>
         unat (ec_DataShards c) + unat (ec_ParityShards c) > 256 then Some ErrInvalidContext
      else if ec_ShardBytes c = 0 \<or> unat (ec_ShardBytes c) > MaxFECShardBytes \<or> ec_MaxDescriptors c = 0 \<or> ec_MaxDescriptors c > 256
        then Some ErrInvalidContext
      else if unat (ec_MaxLogicalBytes c) < MinimumFECLogicalBytes \<or> unat (ec_MaxLogicalBytes c) > MaxFECLogicalBytes \<or>
         (ucast (ec_MaxLogicalBytes c) :: u64) > ucast (ec_DataShards c) * ucast (ec_ShardBytes c) then Some ErrInvalidContext
      else None)"

definition context_body :: "EncodingContext \<Rightarrow> bytes" where
  "context_body c =
     be_put 4 (ec_Epoch c) @ be_put 2 (ec_LayoutID c) @ be_put 2 (ec_ProtectionID c) @ [ec_DataShards c, ec_ParityShards c] @
     be_put 2 (ec_ShardBytes c) @ be_put 2 (ec_MaxDescriptors c) @ [0, 0] @ be_put 4 (ec_MaxLogicalBytes c) @ [0, 0, 0, 0]"

definition encodeContext :: "EncodingContext \<Rightarrow> (wirev2_error, bytes) result" where
  "encodeContext c = (case EncodingContext_Validate c of Some err \<Rightarrow> Inl err | None \<Rightarrow> Inr (context_body c))"

definition AppendEncodingContext ::
    "bytes \<Rightarrow> SessionID \<Rightarrow> Route \<Rightarrow> EncodingContext \<Rightarrow> Key \<Rightarrow> bytes \<times> wirev2_error option" where
  "AppendEncodingContext dst sessionID route c key =
     (case encodeContext c of
        Inl err \<Rightarrow> (dst, Some err)
      | Inr body \<Rightarrow> AppendEstablished dst \<lparr>hd_Type = TypeEncodingContext, hd_SessionID = sessionID\<rparr> route body key)"

definition DecodeEncodingContext :: "AuthenticatedEnvelope \<Rightarrow> (wirev2_error, Route \<times> EncodingContext) result" where
  "DecodeEncodingContext envelope =
     (case DecodeEstablished envelope of
        Inl err \<Rightarrow> Inl err
      | Inr message \<Rightarrow>
          if hd_Type (es_Header message) \<noteq> TypeEncodingContext then Inl ErrUnknownPacketType
          else
            let body = es_Body message
            in if length body \<noteq> EncodingContextBodySize \<or> \<not> allZero (slice 14 16 body) \<or> \<not> allZero (slice 20 24 body) then Inl ErrMalformed
               else
                 let c = \<lparr>ec_Epoch = be_get (slice 0 4 body), ec_LayoutID = be_get (slice 4 6 body), ec_ProtectionID = be_get (slice 6 8 body),
                          ec_DataShards = body ! 8, ec_ParityShards = body ! 9, ec_ShardBytes = be_get (slice 10 12 body),
                          ec_MaxDescriptors = be_get (slice 12 14 body), ec_MaxLogicalBytes = be_get (slice 16 20 body)\<rparr>
                 in (case EncodingContext_Validate c of
                       Some err \<Rightarrow> Inl err
                     | None \<Rightarrow> Inr (es_Route message, c)))"

record EncodingContextAck =
  ak_Epoch :: u32
  ak_Digest :: Digest

definition NewEncodingContextAck :: "EncodingContext \<Rightarrow> (wirev2_error, EncodingContextAck) result" where
  "NewEncodingContextAck c =
     (case encodeContext c of
        Inl err \<Rightarrow> Inl err
      | Inr body \<Rightarrow> Inr \<lparr>ak_Epoch = ec_Epoch c, ak_Digest = be_get (sha256 body)\<rparr>)"

definition ValidateContext :: "EncodingContextAck \<Rightarrow> EncodingContext \<Rightarrow> wirev2_error option" where
  "ValidateContext ack c =
     (case NewEncodingContextAck c of
        Inl err \<Rightarrow> Some err
      | Inr expected \<Rightarrow> if ack \<noteq> expected then Some ErrContextAck else None)"

definition AppendEncodingContextAck ::
    "bytes \<Rightarrow> SessionID \<Rightarrow> Route \<Rightarrow> EncodingContextAck \<Rightarrow> Key \<Rightarrow> bytes \<times> wirev2_error option" where
  "AppendEncodingContextAck dst sessionID route ack key =
     (if ak_Epoch ack = 0 then (dst, Some ErrInvalidContext)
      else AppendEstablished dst \<lparr>hd_Type = TypeEncodingContextAck, hd_SessionID = sessionID\<rparr> route
             (be_put 4 (ak_Epoch ack) @ be_put 32 (ak_Digest ack)) key)"

definition DecodeEncodingContextAck :: "AuthenticatedEnvelope \<Rightarrow> (wirev2_error, Route \<times> EncodingContextAck) result" where
  "DecodeEncodingContextAck envelope =
     (case DecodeEstablished envelope of
        Inl err \<Rightarrow> Inl err
      | Inr message \<Rightarrow>
          if hd_Type (es_Header message) \<noteq> TypeEncodingContextAck then Inl ErrUnknownPacketType
          else if length (es_Body message) \<noteq> EncodingContextAckBodySize then Inl ErrMalformed
          else
            let ack = \<lparr>ak_Epoch = be_get (slice 0 4 (es_Body message)), ak_Digest = be_get (drop 4 (es_Body message))\<rparr>
            in if ak_Epoch ack = 0 then Inl ErrInvalidContext else Inr (es_Route message, ack))"

subsection \<open>bundle.go\<close>

type_synonym ContextLookup = "u32 \<Rightarrow> EncodingContext option"

record FECRecord =
  rc_GroupID :: u64
  rc_EncodingEpoch :: u32
  rc_LogicalBytes :: u32
  rc_ShardIndex :: u8
  rc_Payload :: bytes

record FECBundle =
  bd_Header :: Header
  bd_Route :: Route
  bd_Records :: "FECRecord list"

text \<open>The cache of one codec call: \<open>None\<close> is a nil lookup.\<close>

record contextCache =
  cc_lookup :: "ContextLookup option"
  cc_contexts :: "EncodingContext list"

definition cache_get :: "u32 \<Rightarrow> contextCache \<Rightarrow> (wirev2_error, EncodingContext) result \<times> contextCache" where
  "cache_get epoch c =
     (if epoch = 0 then (Inl ErrInvalidContext, c)
      else
        (case List.find (\<lambda>x. ec_Epoch x = epoch) (cc_contexts c) of
           Some x \<Rightarrow> (Inr x, c)
         | None \<Rightarrow>
             (case cc_lookup c of
                None \<Rightarrow> (Inl ErrContextUnavailable, c)
              | Some lookup \<Rightarrow>
                  (case lookup epoch of
                     None \<Rightarrow> (Inl ErrContextUnavailable, c)
                   | Some x \<Rightarrow>
                       if ec_Epoch x \<noteq> epoch then (Inl ErrInvalidContext, c)
                       else
                         (case EncodingContext_Validate x of
                            Some err \<Rightarrow> (Inl err, c)
                          | None \<Rightarrow> (Inr x, c\<lparr>cc_contexts := cc_contexts c @ [x]\<rparr>))))))"

definition validateFECRecord :: "FECRecord \<Rightarrow> EncodingContext \<Rightarrow> wirev2_error option" where
  "validateFECRecord r c =
     (if rc_GroupID r = 0 \<or> unat (rc_LogicalBytes r) < MinimumFECLogicalBytes \<or> rc_LogicalBytes r > ec_MaxLogicalBytes c \<or>
         unat (rc_ShardIndex r) \<ge> unat (ec_DataShards c) + unat (ec_ParityShards c) \<or> length (rc_Payload r) \<noteq> unat (ec_ShardBytes c)
      then Some ErrInvalidFECBundle
      else if rc_ShardIndex r < ec_DataShards c then
        let start = (ucast (rc_ShardIndex r) :: u64) * ucast (ec_ShardBytes c);
            n = (if ucast (rc_LogicalBytes r) > start
                 then unat (min (ucast (rc_LogicalBytes r) - start) (ucast (ec_ShardBytes c))) else 0)
        in if \<not> allZero (drop n (rc_Payload r)) then Some ErrInvalidFECBundle else None
      else None)"

definition duplicateGroup :: "FECRecord list \<Rightarrow> u64 \<Rightarrow> bool" where
  "duplicateGroup records groupID \<longleftrightarrow> (\<exists>r \<in> set records. rc_GroupID r = groupID)"

text \<open>The validation loop of the encoder: \<open>before\<close> are the records already checked.\<close>

fun check_records ::
    "int \<Rightarrow> contextCache \<Rightarrow> FECRecord list \<Rightarrow> int \<Rightarrow> FECRecord list \<Rightarrow> (wirev2_error, int) result" where
  "check_records maxPayload cache before typedBytes [] = Inr typedBytes"
| "check_records maxPayload cache before typedBytes (r # rs) =
     (if duplicateGroup before (rc_GroupID r) then Inl ErrInvalidFECBundle
      else
        (case cache_get (rc_EncodingEpoch r) cache of
           (Inl err, _) \<Rightarrow> Inl err
         | (Inr c, cache') \<Rightarrow>
             (case validateFECRecord r c of
                Some err \<Rightarrow> Inl err
              | None \<Rightarrow>
                  let recordBytes = int (FECRecordHeaderSize + length (rc_Payload r))
                  in if recordBytes > maxPayload - int TypedBodyOverhead - typedBytes then Inl ErrPacketTooLarge
                     else check_records maxPayload cache' (before @ [r]) (typedBytes + recordBytes) rs)))"

definition encode_record :: "FECRecord \<Rightarrow> bytes" where
  "encode_record r =
     be_put 8 (rc_GroupID r) @ be_put 4 (rc_EncodingEpoch r) @ be_put 4 (rc_LogicalBytes r) @ [rc_ShardIndex r, 0] @ rc_Payload r"

definition bundle_body :: "FECBundle \<Rightarrow> bytes" where
  "bundle_body b = be_put 2 (word_of_nat (length (bd_Records b)) :: u16) @ [0, 0] @ concat (map encode_record (bd_Records b))"

definition appendFECBundle ::
    "bytes \<Rightarrow> FECBundle \<Rightarrow> ContextLookup option \<Rightarrow> Key \<Rightarrow> int \<Rightarrow> Authenticator option \<Rightarrow>
     bytes \<times> wirev2_error option \<times> Authenticator option" where
  "appendFECBundle dst bundle lookup key maxPayload authenticator =
     (if hd_Type (bd_Header bundle) \<noteq> TypeFECBundle then (dst, Some ErrUnknownPacketType, authenticator)
      else if hd_SessionID (bd_Header bundle) = 0 then (dst, Some ErrInvalidSessionID, authenticator)
      else if key = 0 then (dst, Some ErrInvalidKey, authenticator)
      else
        (case validateRoute (hd_Type (bd_Header bundle)) (bd_Route bundle) of
           Some err \<Rightarrow> (dst, Some err, authenticator)
         | None \<Rightarrow>
             (case validatePayloadLimit maxPayload of
                Some err \<Rightarrow> (dst, Some err, authenticator)
              | None \<Rightarrow>
                  if length (bd_Records bundle) < 1 \<or> length (bd_Records bundle) > MaxFECRecords
                  then (dst, Some ErrInvalidFECBundle, authenticator)
                  else
                    (case check_records maxPayload \<lparr>cc_lookup = lookup, cc_contexts = []\<rparr> [] (int FECBundlePrefixSize) (bd_Records bundle) of
                       Inl err \<Rightarrow> (dst, Some err, authenticator)
                     | Inr _ \<Rightarrow>
                         appendEnvelope dst (bd_Header bundle) (encodeRoute (bd_Route bundle) @ bundle_body bundle) key authenticator))))"

definition AppendFECBundle ::
    "bytes \<Rightarrow> FECBundle \<Rightarrow> ContextLookup option \<Rightarrow> Key \<Rightarrow> int \<Rightarrow> bytes \<times> wirev2_error option" where
  "AppendFECBundle dst bundle lookup key maxPayload =
     (let (out, err, _) = appendFECBundle dst bundle lookup key maxPayload None in (out, err))"

text \<open>The decoding loop: \<open>n\<close> records are left, \<open>body\<close> is the rest of the typed body.\<close>

primrec decode_records ::
    "nat \<Rightarrow> contextCache \<Rightarrow> FECRecord list \<Rightarrow> bytes \<Rightarrow> (wirev2_error, FECRecord list) result" where
  "decode_records 0 cache before body = (if body \<noteq> [] then Inl ErrMalformed else Inr before)"
| "decode_records (Suc n) cache before body =
     (if length body < FECRecordHeaderSize then Inl ErrMalformed
      else
        let groupID = be_get (slice 0 8 body); epoch = be_get (slice 8 12 body)
        in if body ! 17 \<noteq> 0 \<or> duplicateGroup before groupID then Inl ErrInvalidFECBundle
           else
             (case cache_get epoch cache of
                (Inl err, _) \<Rightarrow> Inl err
              | (Inr c, cache') \<Rightarrow>
                  if unat (ec_ShardBytes c) > length body - FECRecordHeaderSize then Inl ErrMalformed
                  else
                    let r = \<lparr>rc_GroupID = groupID, rc_EncodingEpoch = epoch, rc_LogicalBytes = be_get (slice 12 16 body),
                             rc_ShardIndex = body ! 16,
                             rc_Payload = slice FECRecordHeaderSize (FECRecordHeaderSize + unat (ec_ShardBytes c)) body\<rparr>
                    in (case validateFECRecord r c of
                          Some err \<Rightarrow> Inl err
                        | None \<Rightarrow> decode_records n cache' (before @ [r]) (drop (FECRecordHeaderSize + unat (ec_ShardBytes c)) body))))"

definition DecodeFECBundle ::
    "AuthenticatedEnvelope \<Rightarrow> ContextLookup option \<Rightarrow> int \<Rightarrow> (wirev2_error, FECBundle) result" where
  "DecodeFECBundle envelope lookup maxPayload =
     (case DecodeEstablished envelope of
        Inl err \<Rightarrow> Inl err
      | Inr message \<Rightarrow>
          if hd_Type (es_Header message) \<noteq> TypeFECBundle then Inl ErrUnknownPacketType
          else
            (case validatePayloadLimit maxPayload of
               Some err \<Rightarrow> Inl err
             | None \<Rightarrow>
                 if int (length (ev_packet (ae_envelope envelope))) > maxPayload then Inl ErrPacketTooLarge
                 else
                   let body = es_Body message
                   in if length body < FECBundlePrefixSize \<or> \<not> allZero (slice 2 4 body) then Inl ErrMalformed
                      else
                        let count = unat (be_get (slice 0 2 body) :: u16)
                        in if count < 1 \<or> count > MaxFECRecords then Inl ErrInvalidFECBundle
                           else
                             (case decode_records count \<lparr>cc_lookup = lookup, cc_contexts = []\<rparr> [] (drop FECBundlePrefixSize body) of
                                Inl err \<Rightarrow> Inl err
                              | Inr records \<Rightarrow>
                                  Inr \<lparr>bd_Header = es_Header message, bd_Route = es_Route message, bd_Records = records\<rparr>)))"

subsection \<open>transcript.go\<close>

record Transcript =
  ts_sessionID :: SessionID
  ts_clientNonce :: Nonce
  ts_serverNonce :: Nonce
  ts_returnPathToken :: Nonce
  ts_digest :: Digest
  ts_valid :: bool

text \<open>\<open>packet[:HandshakePacketSize-AuthenticationTagSize]\<close>: prefix and body without the tag.\<close>

definition signed_bytes :: "AuthenticatedEnvelope \<Rightarrow> bytes" where
  "signed_bytes e = take (HandshakePacketSize - AuthenticationTagSize) (ev_packet (ae_envelope e))"

definition HandshakeDigest :: "AuthenticatedEnvelope \<Rightarrow> (wirev2_error, Digest) result" where
  "HandshakeDigest envelope =
     (case DecodeHandshake envelope of
        Inl err \<Rightarrow> Inl err
      | Inr _ \<Rightarrow> Inr (be_get (sha256 (signed_bytes envelope))))"

definition NewTranscript :: "AuthenticatedEnvelope \<Rightarrow> AuthenticatedEnvelope \<Rightarrow> (wirev2_error, Transcript) result" where
  "NewTranscript hello challenge =
     (case DecodeHandshake hello of
        Inl err \<Rightarrow> Inl err
      | Inr h \<Rightarrow>
          (case DecodeHandshake challenge of
             Inl err \<Rightarrow> Inl err
           | Inr c \<Rightarrow>
               if hd_Type (hs_Header h) \<noteq> TypeHello \<or> hd_Type (hs_Header c) \<noteq> TypeChallenge \<or>
                  hd_SessionID (hs_Header h) \<noteq> hd_SessionID (hs_Header c) \<or> hs_ClientNonce h \<noteq> hs_ClientNonce c then Inl ErrTranscript
               else if hs_TranscriptDigest c \<noteq> be_get (sha256 (signed_bytes hello)) then Inl ErrTranscript
               else
                 Inr \<lparr>ts_sessionID = hd_SessionID (hs_Header h), ts_clientNonce = hs_ClientNonce h, ts_serverNonce = hs_ServerNonce c,
                      ts_returnPathToken = hs_ReturnPathToken c,
                      ts_digest = be_get (sha256 (signed_bytes hello @ signed_bytes challenge)), ts_valid = True\<rparr>))"

definition Confirmation :: "Transcript \<Rightarrow> PacketType \<Rightarrow> (wirev2_error, Handshake) result" where
  "Confirmation t packetType =
     (if \<not> ts_valid t \<or> (packetType \<noteq> TypeFinish \<and> packetType \<noteq> TypeReady) then Inl ErrTranscript
      else Inr \<lparr>hs_Header = \<lparr>hd_Type = packetType, hd_SessionID = ts_sessionID t\<rparr>, hs_ClientNonce = ts_clientNonce t,
                hs_ServerNonce = ts_serverNonce t, hs_TranscriptDigest = ts_digest t, hs_ReturnPathToken = ts_returnPathToken t,
                hs_TLVs = []\<rparr>)"

definition ValidateConfirmation :: "Transcript \<Rightarrow> AuthenticatedEnvelope \<Rightarrow> wirev2_error option" where
  "ValidateConfirmation t envelope =
     (if \<not> ts_valid t then Some ErrTranscript
      else
        (case DecodeHandshake envelope of
           Inl err \<Rightarrow> Some err
         | Inr m \<Rightarrow>
             if (hd_Type (hs_Header m) \<noteq> TypeFinish \<and> hd_Type (hs_Header m) \<noteq> TypeReady) \<or>
                hd_SessionID (hs_Header m) \<noteq> ts_sessionID t \<or> hs_ClientNonce m \<noteq> ts_clientNonce t \<or>
                hs_ServerNonce m \<noteq> ts_serverNonce t \<or> hs_ReturnPathToken m \<noteq> ts_returnPathToken t \<or>
                hs_TranscriptDigest m \<noteq> ts_digest t then Some ErrTranscript
             else None))"

definition ValidateReject :: "AuthenticatedEnvelope \<Rightarrow> AuthenticatedEnvelope \<Rightarrow> wirev2_error option" where
  "ValidateReject hello reject =
     (case DecodeHandshake hello of
        Inl err \<Rightarrow> Some err
      | Inr h \<Rightarrow>
          (case DecodeHandshake reject of
             Inl err \<Rightarrow> Some err
           | Inr r \<Rightarrow>
               if hd_Type (hs_Header h) \<noteq> TypeHello \<or> hd_Type (hs_Header r) \<noteq> TypeReject \<or>
                  hd_SessionID (hs_Header h) \<noteq> hd_SessionID (hs_Header r) \<or> hs_ClientNonce h \<noteq> hs_ClientNonce r \<or>
                  hs_TranscriptDigest r \<noteq> be_get (sha256 (signed_bytes hello)) then Some ErrTranscript
               else None))"

subsection \<open>keys.go\<close>

text \<open>HKDF-SHA-256 of RFC 5869 for one output block of 32 bytes; an empty salt is a block of zeros.\<close>

definition hkdf32 :: "bytes \<Rightarrow> bytes \<Rightarrow> bytes \<Rightarrow> bytes" where
  "hkdf32 secret salt info =
     (let prk = hmac_sha256 (if salt = [] then replicate 32 0 else salt) secret
      in hmac_sha256 prk (info @ [1]))"

definition deriveKey :: "bytes \<Rightarrow> bytes \<Rightarrow> bytes \<Rightarrow> (wirev2_error, Key) result" where
  "deriveKey psk salt info = (if psk = [] then Inl ErrInvalidKey else Inr (be_get (hkdf32 psk salt info)))"

definition ascii :: "string \<Rightarrow> bytes" where
  "ascii s = map (\<lambda>c. word_of_nat (of_char c)) s"

definition DeriveHandshakeKey :: "bytes \<Rightarrow> (wirev2_error, Key) result" where
  "DeriveHandshakeKey psk = deriveKey psk [] (ascii ''MPUDP/v2/handshake'')"

definition DeriveDirectionalKeys :: "bytes \<Rightarrow> Transcript \<Rightarrow> (wirev2_error, DirectionalKeys) result" where
  "DeriveDirectionalKeys psk t =
     (if \<not> ts_valid t then Inl ErrTranscript
      else
        let salt = be_put 16 (ts_clientNonce t) @ be_put 16 (ts_serverNonce t);
            binding = be_put 16 (ts_sessionID t) @ be_put 32 (ts_digest t)
        in (case deriveKey psk salt (ascii ''MPUDP/v2/c2s'' @ binding) of
              Inl err \<Rightarrow> Inl err
            | Inr c2s \<Rightarrow>
                (case deriveKey psk salt (ascii ''MPUDP/v2/s2c'' @ binding) of
                   Inl err \<Rightarrow> Inl err
                 | Inr s2c \<Rightarrow> Inr \<lparr>ClientToServer = c2s, ServerToClient = s2c\<rparr>)))"

subsection \<open>authenticator.go\<close>

definition NewAuthenticator :: "Key \<Rightarrow> (wirev2_error, Authenticator) result" where
  "NewAuthenticator key =
     (if key = 0 then Inl ErrInvalidKey
      else Inr \<lparr>au_key = key, au_mac = Some (mac_Reset (hmac_new key)), au_prefix = replicate PrefixSize 0,
                au_tag = replicate AuthenticationTagSize 0\<rparr>)"

text \<open>The receiver may be nil.\<close>

definition Authenticator_AppendFECBundle ::
    "Authenticator option \<Rightarrow> bytes \<Rightarrow> FECBundle \<Rightarrow> ContextLookup option \<Rightarrow> int \<Rightarrow>
     bytes \<times> wirev2_error option \<times> Authenticator option" where
  "Authenticator_AppendFECBundle a dst bundle lookup maxPayload =
     (case a of
        None \<Rightarrow> (dst, Some ErrInvalidKey, a)
      | Some s \<Rightarrow>
          if au_mac s = None then (dst, Some ErrInvalidKey, a)
          else appendFECBundle dst bundle lookup (au_key s) maxPayload a)"

definition Authenticator_Authenticate ::
    "Authenticator option \<Rightarrow> Envelope \<Rightarrow> (wirev2_error, AuthenticatedEnvelope) result \<times> Authenticator option" where
  "Authenticator_Authenticate a envelope =
     (case a of
        None \<Rightarrow> (Inl ErrInvalidKey, a)
      | Some s \<Rightarrow> if au_mac s = None then (Inl ErrInvalidKey, a) else authenticate envelope (au_key s) a)"

definition Authenticator_Close :: "Authenticator option \<Rightarrow> Authenticator option" where
  "Authenticator_Close a =
     map_option (\<lambda>s. \<lparr>au_key = 0, au_mac = None, au_prefix = replicate PrefixSize 0, au_tag = replicate AuthenticationTagSize 0\<rparr>) a"

end
