(* ===== verification/WireV2Codec.thy ===== *)
theory WireV2Codec
  imports WireV2Messages Slices
begin

text \<open>
  The v2 formats as codecs: for the envelope, the handshake, the routed packets, contexts,
  acknowledgements and FEC bundles, whatever the encoder emits decodes to what was encoded, and
  whatever the decoder accepts is the encoding of what it returns.
\<close>

subsection \<open>The envelope\<close>

definition envelope :: "Key \<Rightarrow> Header \<Rightarrow> bytes \<Rightarrow> bytes" where
  "envelope key h b = (let p = envelope_prefix h (length b) @ b in p @ hmac_sha256 (be_put 32 key) p)"

text \<open>The receiver's first two steps: framing, then authentication.\<close>

definition receive :: "Key \<Rightarrow> bytes \<Rightarrow> (wirev2_error, AuthenticatedEnvelope) result" where
  "receive key packet = (case ParseEnvelope packet of Inl err \<Rightarrow> Inl err | Inr e \<Rightarrow> Authenticate e key)"

definition opened :: "Key \<Rightarrow> Header \<Rightarrow> bytes \<Rightarrow> AuthenticatedEnvelope" where
  "opened key h b = \<lparr>ae_envelope = \<lparr>ev_packet = envelope key h b, ev_header = h\<rparr>, ae_verified = True\<rparr>"

definition frame_ok :: "Key \<Rightarrow> Header \<Rightarrow> bytes \<Rightarrow> bool" where
  "frame_ok key h b \<longleftrightarrow> key \<noteq> 0 \<and> validateEnvelope h (length b) = None"

lemma length_envelope_prefix [simp]: "length (envelope_prefix h n) = 24"
  by (simp add: envelope_prefix_def Magic_def)

lemma length_envelope [simp]: "length (envelope key h b) = 56 + length b"
  by (simp add: envelope_def Let_def)

lemma validateEnvelope_size: "validateEnvelope h n = None \<Longrightarrow> n \<le> 65451"
  by (auto simp: validateEnvelope_def split: if_splits)

lemma envelope_fields:
  "take 4 (envelope_prefix h n @ rest) = Magic" "(envelope_prefix h n @ rest) ! 4 = 2"
  "(envelope_prefix h n @ rest) ! 5 = hd_Type h" "slice 6 8 (envelope_prefix h n @ rest) = be_put 2 (word_of_nat n :: u16)"
  "slice 8 24 (envelope_prefix h n @ rest) = be_put 16 (hd_SessionID h)"
  by (simp_all add: envelope_prefix_def Magic_def slice_def)

lemma opened_body [simp]: "ae_Body (opened key h b) = b" "ae_Header (opened key h b) = h" "ae_verified (opened key h b)"
proof -
  show "ae_Body (opened key h b) = b"
    using slice_app [of "envelope_prefix h (length b)" 24 "24 + length b" b]
    by (simp add: ae_Body_def opened_def envelope_def Let_def)
qed (simp_all add: ae_Header_def opened_def)

lemma receive_envelope:
  assumes "frame_ok key h b"
  shows "receive key (envelope key h b) = Inr (opened key h b)"
proof -
  have v: "key \<noteq> 0" "validateEnvelope h (length b) = None" "length b \<le> 65451"
    using assms validateEnvelope_size by (auto simp: frame_ok_def)
  let ?p = "envelope key h b"
  have p: "?p = envelope_prefix h (length b) @ b @ hmac_sha256 (be_put 32 key) (envelope_prefix h (length b) @ b)"
    by (simp add: envelope_def Let_def)
  note f = envelope_fields [of h "length b" "b @ hmac_sha256 (be_put 32 key) (envelope_prefix h (length b) @ b)", folded p]
  have n: "unat (be_get (slice 6 8 ?p) :: u16) = length b" using v(3) by (simp only: f(4) be_simps) (simp add: unat_of_nat)
  have s: "(be_get (slice 8 24 ?p) :: SessionID) = hd_SessionID h" by (simp only: f(5) be_simps)
  have "ParseEnvelope ?p = Inr \<lparr>ev_packet = ?p, ev_header = h\<rparr>"
    using v f(1-3) n s by (cases h) (simp add: ParseEnvelope_def Let_def)
  moreover have "verifyEnvelope (hmac_new key) ?p (24 + length b)"
    unfolding verifyEnvelope_def p by (simp add: hmac_new_def mac_Write_def mac_Sum_def)
  ultimately show ?thesis
    using v(1) by (simp add: receive_def Authenticate_def authenticate_def authenticateStateless_def opened_def)
qed

lemma receive_accepted:
  assumes "receive key packet = Inr a"
  shows "\<exists>h b. frame_ok key h b \<and> packet = envelope key h b \<and> a = opened key h b"
proof -
  define n where "n = unat (be_get (slice 6 8 packet) :: u16)"
  define h where "h = \<lparr>hd_Type = packet ! 5, hd_SessionID = be_get (slice 8 24 packet)\<rparr>"
  define b where "b = slice 24 (24 + n) packet"
  have pre: "56 \<le> length packet" "take 4 packet = Magic" "packet ! 4 = 2" "n + 56 = length packet" "validateEnvelope h n = None"
    "key \<noteq> 0" and v: "verifyEnvelope (hmac_new key) packet (length packet - 32)"
    and a: "a = \<lparr>ae_envelope = \<lparr>ev_packet = packet, ev_header = h\<rparr>, ae_verified = True\<rparr>"
    using assms unfolding receive_def ParseEnvelope_def Let_def Authenticate_def authenticate_def authenticateStateless_def
    by (auto simp: n_def h_def split: if_splits option.splits)
  have ver: "verifyEnvelope (hmac_new key) packet (24 + n)" using v by (simp flip: pre(4))
  have lb: "length b = n" using pre(4) by (simp add: b_def)
  have "be_put 2 (word_of_nat n :: u16) = slice 6 8 packet" "be_put 16 (hd_SessionID h) = slice 8 24 packet"
    using pre(1) by (simp_all add: n_def h_def be_put_slice del: be_put.simps)
  moreover have "[2, packet ! 5] = slice 4 6 packet" using slice_nth2 [of 4 packet] pre(1,3) by simp
  ultimately have "envelope_prefix h n = slice 0 24 packet"
    using pre(2) slice_slice [of 0 4 24 packet] by (simp add: envelope_prefix_def take_slice [symmetric] h_def slice_slice del: be_put.simps)
  then have pb: "envelope_prefix h n @ b = take (24 + n) packet"
    using slice_slice [of 0 24 "24 + n" packet] by (simp add: b_def take_slice)
  have "packet = envelope key h b"
    using ver pb lb append_take_drop_id [of "24 + n" packet]
    by (simp add: verifyEnvelope_def envelope_def Let_def hmac_new_def mac_Write_def mac_Sum_def)
  then show ?thesis using pre(5,6) lb a by (auto simp: frame_ok_def opened_def)
qed

lemma receive_iff:
  "receive key packet = Inr a \<longleftrightarrow> (\<exists>h b. frame_ok key h b \<and> packet = envelope key h b \<and> a = opened key h b)"
  using receive_envelope receive_accepted by blast

lemma AppendEnvelope_ok:
  "AppendEnvelope dst h b key = (if key = 0 then (dst, Some ErrInvalidKey)
     else case validateEnvelope h (length b) of Some err \<Rightarrow> (dst, Some err) | None \<Rightarrow> (dst @ envelope key h b, None))"
  by (simp add: AppendEnvelope_def appendEnvelope_def appendEnvelopeStateless_def appendSignedEnvelope_def envelope_def
      hmac_new_def mac_Write_def mac_Sum_def Let_def split: option.split)

interpretation envelope_codec: codec "\<lambda>(h, b). envelope key h b"
  "\<lambda>p. map_sum id (\<lambda>a. (ae_Header a, ae_Body a)) (receive key p)" "\<lambda>(h, b). frame_ok key h b" for key
proof unfold_locales
  fix m :: "Header \<times> bytes"
  assume "case m of (h, b) \<Rightarrow> frame_ok key h b"
  then show "map_sum id (\<lambda>a. (ae_Header a, ae_Body a)) (receive key (case m of (h, b) \<Rightarrow> envelope key h b)) = Inr m"
    by (cases m) (simp add: receive_envelope)
next
  fix p m
  assume "map_sum id (\<lambda>a. (ae_Header a, ae_Body a)) (receive key p) = Inr m"
  then obtain a where "receive key p = Inr a" "m = (ae_Header a, ae_Body a)" by (cases "receive key p") auto
  then show "(case m of (h, b) \<Rightarrow> frame_ok key h b) \<and> (case m of (h, b) \<Rightarrow> envelope key h b) = p"
    by (auto simp: receive_iff)
qed

subsection \<open>Handshakes\<close>

lemma length_encode_tlv [simp]: "length (encode_tlv t) = 4 + length (tlv_Value t)"
  by (simp add: encode_tlv_def)

lemma check_tlvs_bounds:
  assumes "check_tlvs pt prev seen n ts = None" "n \<le> 372"
  shows "n + length (concat (map encode_tlv ts)) \<le> 372 \<and> (\<forall>t \<in> set ts. length (tlv_Value t) \<le> 368)"
  using assms
proof (induction ts arbitrary: prev seen n)
  case (Cons t ts)
  then have b: "length (tlv_Value t) \<le> 368" "n \<le> 368 - length (tlv_Value t)" by (auto simp: Let_def split: if_splits)
  obtain prev' seen' where "check_tlvs pt prev' seen' (n + 4 + length (tlv_Value t)) ts = None"
    using Cons.prems(1) by (auto simp: Let_def split: if_splits option.splits)
  from Cons.IH [OF this] b show ?case by simp
qed simp

lemma validateTLVs_bounds:
  assumes "validateTLVs pt ts = None"
  shows "length (concat (map encode_tlv ts)) \<le> 372" "\<And>t. t \<in> set ts \<Longrightarrow> length (tlv_Value t) \<le> 368" "length ts \<le> 16"
proof -
  have "length ts \<le> 16 \<and> (ts = [] \<or> check_tlvs pt None 0 0 ts = None)"
    using assms by (auto simp: validateTLVs_def split: if_splits)
  then show "length (concat (map encode_tlv ts)) \<le> 372" "\<And>t. t \<in> set ts \<Longrightarrow> length (tlv_Value t) \<le> 368" "length ts \<le> 16"
    using check_tlvs_bounds [of pt None 0 0 ts] by auto
qed

lemma encode_tlv_fields:
  "slice 0 2 (encode_tlv t @ rest) = be_put 2 (tlv_Type t)"
  "slice 2 4 (encode_tlv t @ rest) = be_put 2 (word_of_nat (length (tlv_Value t)) :: u16)"
  "slice 4 (4 + length (tlv_Value t)) (encode_tlv t @ rest) = tlv_Value t"
  by (simp_all add: encode_tlv_def slice_def)

lemma decode_encode_tlvs:
  assumes "length ts \<le> n" "\<And>t. t \<in> set ts \<Longrightarrow> length (tlv_Value t) \<le> 368"
  shows "decode_tlvs n (concat (map encode_tlv ts)) = Inr ts"
  using assms
proof (induction ts arbitrary: n)
  case Nil
  then show ?case by (cases n) simp_all
next
  case (Cons t ts)
  then obtain k where n: "n = Suc k" by (cases n) auto
  let ?rest = "concat (map encode_tlv ts)"
  note f = encode_tlv_fields [of t ?rest]
  have v: "unat (be_get (slice 2 4 (encode_tlv t @ ?rest)) :: u16) = length (tlv_Value t)"
    using Cons.prems(2) [of t] by (simp only: f(2) be_simps) (simp add: unat_of_nat)
  have ty: "be_get (slice 0 2 (encode_tlv t @ ?rest)) = tlv_Type t" by (simp only: f(1) be_simps)
  have "length (encode_tlv t @ ?rest) \<noteq> 0" by simp
  then have "encode_tlv t @ ?rest \<noteq> []" by (metis list.size(3))
  moreover have "decode_tlvs k ?rest = Inr ts" using Cons n by simp
  moreover have "drop (4 + length (tlv_Value t)) (encode_tlv t @ ?rest) = ?rest" by simp
  ultimately show ?case by (simp add: n v ty f(3) Let_def del: drop_append)
qed

lemma decode_tlvs_canonical:
  assumes "decode_tlvs n remaining = Inr ts"
  shows "concat (map encode_tlv ts) = remaining"
  using assms
proof (induction n arbitrary: remaining ts)
  case (Suc n)
  show ?case
  proof (cases "remaining = []")
    case False
    define v where "v = unat (be_get (slice 2 4 remaining) :: u16)"
    obtain ts' where r: "4 \<le> length remaining" "v \<le> length remaining - 4" "decode_tlvs n (drop (4 + v) remaining) = Inr ts'"
      and ts: "ts = \<lparr>tlv_Type = be_get (slice 0 2 remaining), tlv_Value = slice 4 (4 + v) remaining\<rparr> # ts'"
      using Suc.prems False by (auto simp: Let_def v_def split: if_splits sum.splits)
    have "encode_tlv (hd ts) = slice 0 (4 + v) remaining"
    proof -
      have "length (slice 4 (4 + v) remaining) = v" using r(1,2) by simp
      moreover have "be_put 2 (word_of_nat v :: u16) = slice 2 4 remaining" "be_put 2 (be_get (slice 0 2 remaining) :: u16) = slice 0 2 remaining"
        using r(1) by (simp_all add: v_def be_put_slice del: be_put.simps)
      ultimately show ?thesis by (simp add: encode_tlv_def ts slice_slice del: be_put.simps)
    qed
    moreover have "concat (map encode_tlv ts') = drop (4 + v) remaining" by (rule Suc.IH [OF r(3)])
    ultimately show ?thesis using ts by (simp add: take_slice)
  qed (use Suc.prems in simp)
qed (simp split: if_splits)

lemma handshake_fields:
  fixes m :: Handshake
  defines "tb \<equiv> concat (map encode_tlv (hs_TLVs m))"
  assumes "length (tb) \<le> 372"
  shows "length (handshake_body m) = 456" "slice 0 16 (handshake_body m) = be_put 16 (hs_ClientNonce m)"
    "slice 16 32 (handshake_body m) = be_put 16 (hs_ServerNonce m)" "slice 32 64 (handshake_body m) = be_put 32 (hs_TranscriptDigest m)"
    "slice 64 80 (handshake_body m) = be_put 16 (hs_ReturnPathToken m)"
    "slice 80 82 (handshake_body m) = be_put 2 (word_of_nat (length (tb)) :: u16)" "slice 82 84 (handshake_body m) = [0, 0]"
    "slice 84 (84 + length (tb)) (handshake_body m) = tb" "allZero (drop (84 + length (tb)) (handshake_body m))"
  using assms(2) by (simp_all add: handshake_body_def Let_def tb_def [symmetric] slice_def allZero_def del: be_put.simps)

lemma validateHandshake_D:
  assumes "validateHandshake m = None"
  shows "IsHandshake (hd_Type (hs_Header m))" "hd_SessionID (hs_Header m) \<noteq> 0" "validateTLVs (hd_Type (hs_Header m)) (hs_TLVs m) = None"
  using assms by (auto simp: validateHandshake_def Let_def split: if_splits)

lemma decode_handshake_body:
  assumes "validateHandshake m = None" "hs_Header m = h"
  shows "DecodeHandshake (opened key h (handshake_body m)) = Inr m"
proof -
  note V = validateTLVs_bounds [OF validateHandshake_D(3) [OF assms(1)]]
  note f = handshake_fields [OF V(1)]
  have n: "unat (be_get (slice 80 82 (handshake_body m)) :: u16) = length (concat (map encode_tlv (hs_TLVs m)))"
    using V(1) by (simp only: f(6) be_simps) (simp add: unat_of_nat)
  have z: "(be_get (slice 82 84 (handshake_body m)) :: u16) = 0" by (simp add: f(7) be_get_def be_nat_def)
  have w: "(be_get (slice 0 16 (handshake_body m)) :: Nonce) = hs_ClientNonce m" "(be_get (slice 16 32 (handshake_body m)) :: Nonce) = hs_ServerNonce m"
    "(be_get (slice 32 64 (handshake_body m)) :: Digest) = hs_TranscriptDigest m" "(be_get (slice 64 80 (handshake_body m)) :: Nonce) = hs_ReturnPathToken m"
    by (simp_all only: f(2-5) be_simps)
  have "decode_tlvs 16 (concat (map encode_tlv (hs_TLVs m))) = Inr (hs_TLVs m)" by (rule decode_encode_tlvs) (use V in auto)
  then have "DecodeHandshake (opened key h (handshake_body m)) =
      (case validateHandshake \<lparr>hs_Header = h, hs_ClientNonce = hs_ClientNonce m, hs_ServerNonce = hs_ServerNonce m,
          hs_TranscriptDigest = hs_TranscriptDigest m, hs_ReturnPathToken = hs_ReturnPathToken m, hs_TLVs = hs_TLVs m\<rparr> of
         Some err \<Rightarrow> Inl err
       | None \<Rightarrow> Inr \<lparr>hs_Header = h, hs_ClientNonce = hs_ClientNonce m, hs_ServerNonce = hs_ServerNonce m,
          hs_TranscriptDigest = hs_TranscriptDigest m, hs_ReturnPathToken = hs_ReturnPathToken m, hs_TLVs = hs_TLVs m\<rparr>)"
    using validateHandshake_D(1) [OF assms(1)] assms(2) V(1)
    by (simp add: DecodeHandshake_def Let_def f(1) n z w f(8,9))
  moreover have "\<lparr>hs_Header = h, hs_ClientNonce = hs_ClientNonce m, hs_ServerNonce = hs_ServerNonce m,
      hs_TranscriptDigest = hs_TranscriptDigest m, hs_ReturnPathToken = hs_ReturnPathToken m, hs_TLVs = hs_TLVs m\<rparr> = m"
    using assms(2) by (cases m) simp
  ultimately show ?thesis using assms(1) by (simp only: option.case)
qed

lemma decode_handshake_accepted:
  assumes "DecodeHandshake (opened key h b) = Inr m"
  shows "validateHandshake m = None \<and> hs_Header m = h \<and> b = handshake_body m"
proof -
  define n where "n = unat (be_get (slice 80 82 b) :: u16)"
  obtain ts where len: "length b = 456" and n: "n \<le> 372" and z: "(be_get (slice 82 84 b) :: u16) = 0" "allZero (drop (84 + n) b)"
    and ts: "decode_tlvs 16 (slice 84 (84 + n) b) = Inr ts"
    and m: "m = \<lparr>hs_Header = h, hs_ClientNonce = be_get (slice 0 16 b), hs_ServerNonce = be_get (slice 16 32 b),
        hs_TranscriptDigest = be_get (slice 32 64 b), hs_ReturnPathToken = be_get (slice 64 80 b), hs_TLVs = ts\<rparr>"
    and v: "validateHandshake m = None"
    using assms unfolding DecodeHandshake_def Let_def n_def by (auto split: if_splits option.splits sum.splits)
  have tl: "concat (map encode_tlv (hs_TLVs m)) = slice 84 (84 + n) b" using decode_tlvs_canonical [OF ts] by (simp add: m)
  have lt: "length (slice 84 (84 + n) b) = n" using len n by simp
  have rsv: "slice 82 84 b = [0, 0]"
  proof -
    have "slice 82 84 b = be_put 2 (be_get (slice 82 84 b) :: u16)" by (rule be_put_slice [symmetric]) (simp_all add: len)
    also have "\<dots> = [0, 0]" unfolding z(1) by (simp add: numeral_eq_Suc)
    finally show ?thesis .
  qed
  have pad: "replicate (456 - 84 - n) 0 = drop (84 + n) b"
    using z(2) len n zeros [of "drop (84 + n) b"] by (simp add: allZero_def)
  have parts: "be_put 16 (hs_ClientNonce m) = slice 0 16 b" "be_put 16 (hs_ServerNonce m) = slice 16 32 b"
    "be_put 32 (hs_TranscriptDigest m) = slice 32 64 b" "be_put 16 (hs_ReturnPathToken m) = slice 64 80 b"
    "be_put 2 (word_of_nat n :: u16) = slice 80 82 b"
    using len by (simp_all add: m n_def be_put_slice del: be_put.simps)
  have "handshake_body m = slice 0 16 b @ slice 16 32 b @ slice 32 64 b @ slice 64 80 b @ slice 80 82 b @ slice 82 84 b @
      slice 84 (84 + n) b @ drop (84 + n) b"
    unfolding handshake_body_def Let_def tl lt parts pad rsv by simp
  also have "\<dots> = b" by (simp add: slice_rest slice_def [of 0])
  finally show ?thesis using v by (simp add: m)
qed

definition receive_handshake :: "Key \<Rightarrow> bytes \<Rightarrow> (wirev2_error, Handshake) result" where
  "receive_handshake key p = (case receive key p of Inl err \<Rightarrow> Inl err | Inr a \<Rightarrow> DecodeHandshake a)"

definition handshake_packet :: "Key \<Rightarrow> Handshake \<Rightarrow> bytes" where
  "handshake_packet key m = envelope key (hs_Header m) (handshake_body m)"

lemma handshake_frame: "validateHandshake m = None \<Longrightarrow> key \<noteq> 0 \<Longrightarrow> frame_ok key (hs_Header m) (handshake_body m)"
  using validateHandshake_D [of m] handshake_fields(1) [OF validateTLVs_bounds(1) [OF validateHandshake_D(3), of m]]
  by (simp add: frame_ok_def validateEnvelope_def knownPacketType_def)

interpretation handshake_codec: codec "handshake_packet key" "receive_handshake key" "\<lambda>m. key \<noteq> 0 \<and> validateHandshake m = None" for key
proof unfold_locales
  fix m
  assume "key \<noteq> 0 \<and> validateHandshake m = None"
  then show "receive_handshake key (handshake_packet key m) = Inr m"
    by (simp add: receive_handshake_def handshake_packet_def receive_envelope handshake_frame decode_handshake_body)
next
  fix p m
  assume r: "receive_handshake key p = Inr m"
  then obtain a where "receive key p = Inr a" "DecodeHandshake a = Inr m" by (auto simp: receive_handshake_def split: sum.splits)
  then show "(key \<noteq> 0 \<and> validateHandshake m = None) \<and> handshake_packet key m = p"
    using decode_handshake_accepted unfolding receive_iff by (auto simp: handshake_packet_def frame_ok_def)
qed

lemma AppendHandshake_ok:
  "AppendHandshake dst m key = (out, None) \<longleftrightarrow> key \<noteq> 0 \<and> validateHandshake m = None \<and> out = dst @ handshake_packet key m"
proof (cases "validateHandshake m")
  case None
  then show ?thesis using handshake_frame [of m key]
    by (auto simp: AppendHandshake_def AppendEnvelope_ok handshake_packet_def frame_ok_def)
qed (simp add: AppendHandshake_def)

subsection \<open>Routed packets\<close>

lemma length_encodeRoute [simp]: "length (encodeRoute r) = 16"
  by (simp add: encodeRoute_def)

lemma route_fields:
  "be_get (slice 0 4 (encodeRoute r @ b)) = rt_PathID r" "be_get (slice 4 12 (encodeRoute r @ b)) = rt_Generation r"
  "be_get (slice 12 16 (encodeRoute r @ b)) = rt_BudgetEpoch r"
proof -
  have "slice 0 4 (encodeRoute r @ b) = be_put 4 (rt_PathID r)" "slice 4 12 (encodeRoute r @ b) = be_put 8 (rt_Generation r)"
    "slice 12 16 (encodeRoute r @ b) = be_put 4 (rt_BudgetEpoch r)"
    by (simp_all add: encodeRoute_def slice_def)
  then show "be_get (slice 0 4 (encodeRoute r @ b)) = rt_PathID r" "be_get (slice 4 12 (encodeRoute r @ b)) = rt_Generation r"
    "be_get (slice 12 16 (encodeRoute r @ b)) = rt_BudgetEpoch r" by (simp_all only: be_simps)
qed

lemma encode_route_read:
  assumes "16 \<le> length b"
  shows "encodeRoute \<lparr>rt_PathID = be_get (slice 0 4 b), rt_Generation = be_get (slice 4 12 b), rt_BudgetEpoch = be_get (slice 12 16 b)\<rparr> = take 16 b"
  using assms by (simp add: encodeRoute_def be_put_slice slice_slice del: be_put.simps) (simp add: slice_def)

lemma route_eta: "\<lparr>rt_PathID = rt_PathID r, rt_Generation = rt_Generation r, rt_BudgetEpoch = rt_BudgetEpoch r\<rparr> = r"
  by simp

lemma DecodeEstablished_opened:
  "DecodeEstablished (opened key h b) = Inr m \<longleftrightarrow>
     \<not> IsHandshake (hd_Type h) \<and> es_Header m = h \<and> validateRoute (hd_Type h) (es_Route m) = None \<and> b = encodeRoute (es_Route m) @ es_Body m"
    (is "?L \<longleftrightarrow> ?R")
proof
  assume ?L
  then show ?R using encode_route_read [of b]
    by (auto simp: DecodeEstablished_def Let_def split: if_splits option.splits)
next
  assume R: ?R
  then have "DecodeEstablished (opened key h b) = Inr \<lparr>es_Header = h, es_Route = es_Route m, es_Body = es_Body m\<rparr>"
    using route_fields [of "es_Route m" "es_Body m"] by (simp add: DecodeEstablished_def Let_def route_eta)
  also have "\<lparr>es_Header = h, es_Route = es_Route m, es_Body = es_Body m\<rparr> = m" using R by (cases m) simp
  finally show ?L .
qed

subsection \<open>Encoding contexts and acknowledgements\<close>

lemma length_context_body [simp]: "length (context_body c) = 24"
  by (simp add: context_body_def)

lemma context_fields:
  "slice 0 4 (context_body c) = be_put 4 (ec_Epoch c)" "slice 4 6 (context_body c) = be_put 2 (ec_LayoutID c)"
  "slice 6 8 (context_body c) = be_put 2 (ec_ProtectionID c)" "context_body c ! 8 = ec_DataShards c" "context_body c ! 9 = ec_ParityShards c"
  "slice 10 12 (context_body c) = be_put 2 (ec_ShardBytes c)" "slice 12 14 (context_body c) = be_put 2 (ec_MaxDescriptors c)"
  "slice 14 16 (context_body c) = [0, 0]" "slice 16 20 (context_body c) = be_put 4 (ec_MaxLogicalBytes c)"
  "slice 20 24 (context_body c) = [0, 0, 0, 0]"
  by (simp_all add: context_body_def slice_def nth_append)

lemma two_zeros: "length bs = 2 \<Longrightarrow> allZero bs \<Longrightarrow> bs = [0, 0]"
  using zeros [of bs] by (simp add: allZero_def numeral_eq_Suc)

lemma four_zeros: "length bs = 4 \<Longrightarrow> allZero bs \<Longrightarrow> bs = [0, 0, 0, 0]"
  using zeros [of bs] by (simp add: allZero_def numeral_eq_Suc)

lemma context_body_read:
  assumes "length b = 24" "allZero (slice 14 16 b)" "allZero (slice 20 24 b)"
  shows "context_body \<lparr>ec_Epoch = be_get (slice 0 4 b), ec_LayoutID = be_get (slice 4 6 b), ec_ProtectionID = be_get (slice 6 8 b),
     ec_DataShards = b ! 8, ec_ParityShards = b ! 9, ec_ShardBytes = be_get (slice 10 12 b),
     ec_MaxDescriptors = be_get (slice 12 14 b), ec_MaxLogicalBytes = be_get (slice 16 20 b)\<rparr> = b" (is "context_body ?c = b")
proof -
  have "slice 14 16 b = [0, 0]" "slice 20 24 b = [0, 0, 0, 0]" using assms two_zeros four_zeros by simp_all
  moreover have "[b ! 8, b ! 9] = slice 8 10 b" using slice_nth2 [of 8 b] assms(1) by simp
  ultimately have "context_body ?c = slice 0 4 b @ slice 4 6 b @ slice 6 8 b @ slice 8 10 b @ slice 10 12 b @ slice 12 14 b @
      slice 14 16 b @ slice 16 20 b @ slice 20 24 b"
    using assms(1) by (simp add: context_body_def be_put_slice del: be_put.simps)
  also have "\<dots> = b" using assms(1) by (simp add: slice_slice) (simp add: slice_def)
  finally show ?thesis .
qed

lemma DecodeEncodingContext_opened:
  "DecodeEncodingContext (opened key h b) = Inr (r, c) \<longleftrightarrow>
     hd_Type h = TypeEncodingContext \<and> validateRoute (hd_Type h) r = None \<and> EncodingContext_Validate c = None \<and> b = encodeRoute r @ context_body c"
    (is "?L \<longleftrightarrow> ?R")
proof
  assume L: ?L
  then obtain m where "DecodeEstablished (opened key h b) = Inr m" by (auto simp: DecodeEncodingContext_def split: sum.splits)
  with L show ?R using context_body_read [of "es_Body m"] unfolding DecodeEstablished_opened
    by (auto simp: DecodeEncodingContext_def Let_def DecodeEstablished_opened split: sum.splits if_splits option.splits)
next
  assume R: ?R
  then have "DecodeEstablished (opened key h b) = Inr \<lparr>es_Header = h, es_Route = r, es_Body = context_body c\<rparr>"
    by (auto simp: DecodeEstablished_opened IsHandshake_def)
  then show ?L using R
    by (cases c) (simp add: DecodeEncodingContext_def Let_def context_fields be_simps allZero_def del: be_put.simps)
qed

lemma DecodeEncodingContextAck_opened:
  "DecodeEncodingContextAck (opened key h b) = Inr (r, k) \<longleftrightarrow>
     hd_Type h = TypeEncodingContextAck \<and> validateRoute (hd_Type h) r = None \<and> ak_Epoch k \<noteq> 0 \<and>
     b = encodeRoute r @ be_put 4 (ak_Epoch k) @ be_put 32 (ak_Digest k)" (is "?L \<longleftrightarrow> ?R")
proof
  assume L: ?L
  then obtain m where m: "DecodeEstablished (opened key h b) = Inr m" by (auto simp: DecodeEncodingContextAck_def split: sum.splits)
  let ?b = "es_Body m"
  have k: "length ?b = 36" "k = \<lparr>ak_Epoch = be_get (slice 0 4 ?b), ak_Digest = be_get (drop 4 ?b)\<rparr>" "ak_Epoch k \<noteq> 0" "r = es_Route m"
    "hd_Type (es_Header m) = 28"
    using L m by (auto simp: DecodeEncodingContextAck_def Let_def split: if_splits)
  have "be_put 4 (ak_Epoch k) @ be_put 32 (ak_Digest k) = slice 0 4 ?b @ drop 4 ?b"
    using k(1) by (simp add: k(2) be_put_slice be_put_get del: be_put.simps)
  then have "be_put 4 (ak_Epoch k) @ be_put 32 (ak_Digest k) = ?b" by (simp add: slice_def)
  then show ?R using m k(3-5) by (simp add: DecodeEstablished_opened)
next
  assume R: ?R
  then have "DecodeEstablished (opened key h b) = Inr \<lparr>es_Header = h, es_Route = r, es_Body = be_put 4 (ak_Epoch k) @ be_put 32 (ak_Digest k)\<rparr>"
    by (auto simp: DecodeEstablished_opened IsHandshake_def)
  moreover have "slice 0 4 (be_put 4 (ak_Epoch k) @ be_put 32 (ak_Digest k)) = be_put 4 (ak_Epoch k)" by (simp add: slice_def)
  ultimately show ?L using R by (cases k) (simp add: DecodeEncodingContextAck_def Let_def be_simps del: be_put.simps)
qed


subsection \<open>FEC bundles\<close>

text \<open>The checks that encoder and decoder share: no group twice, a known context, a valid record.\<close>

fun records_ok :: "contextCache \<Rightarrow> FECRecord list \<Rightarrow> FECRecord list \<Rightarrow> bool" where
  "records_ok cache before [] = True"
| "records_ok cache before (r # rs) =
     (\<not> duplicateGroup before (rc_GroupID r) \<and>
      (case cache_get (rc_EncodingEpoch r) cache of
         (Inl _, _) \<Rightarrow> False
       | (Inr c, cache') \<Rightarrow> validateFECRecord r c = None \<and> records_ok cache' (before @ [r]) rs))"

lemma length_encode_record [simp]: "length (encode_record r) = 18 + length (rc_Payload r)"
  by (simp add: encode_record_def)

lemma check_records_iff:
  assumes "sz \<le> mp - 72"
  shows "check_records mp cache before sz rs = Inr n \<longleftrightarrow>
    records_ok cache before rs \<and> n = sz + int (length (concat (map encode_record rs))) \<and> n \<le> mp - 72"
  using assms
proof (induction rs arbitrary: cache before sz)
  case (Cons r rs)
  obtain res cache' where g: "cache_get (rc_EncodingEpoch r) cache = (res, cache')" by (cases "cache_get (rc_EncodingEpoch r) cache")
  let ?n = "int (18 + length (rc_Payload r))"
  show ?case
  proof (cases res)
    case (Inr c)
    show ?thesis
    proof (cases "validateFECRecord r c = None \<and> \<not> duplicateGroup before (rc_GroupID r) \<and> \<not> ?n > mp - 72 - sz")
      case True
      then show ?thesis using Cons.IH [of "sz + ?n" cache' "before @ [r]"] by (simp add: g Inr Let_def algebra_simps)
    next
      case False
      then show ?thesis by (auto simp: g Inr Let_def split: option.splits)
    qed
  qed (simp add: g)
qed auto

lemma record_fields:
  "slice 0 8 (encode_record r @ rest) = be_put 8 (rc_GroupID r)" "slice 8 12 (encode_record r @ rest) = be_put 4 (rc_EncodingEpoch r)"
  "slice 12 16 (encode_record r @ rest) = be_put 4 (rc_LogicalBytes r)" "(encode_record r @ rest) ! 16 = rc_ShardIndex r"
  "(encode_record r @ rest) ! 17 = 0" "slice 18 (18 + length (rc_Payload r)) (encode_record r @ rest) = rc_Payload r"
  by (simp_all add: encode_record_def slice_def nth_append)

lemma validateFECRecord_size: "validateFECRecord r c = None \<Longrightarrow> length (rc_Payload r) = unat (ec_ShardBytes c)"
  by (auto simp: validateFECRecord_def split: if_splits)

lemma record_eta:
  "\<lparr>rc_GroupID = rc_GroupID r, rc_EncodingEpoch = rc_EncodingEpoch r, rc_LogicalBytes = rc_LogicalBytes r, rc_ShardIndex = rc_ShardIndex r,
    rc_Payload = rc_Payload r\<rparr> = r"
  by simp

lemma decode_encode_records:
  "records_ok cache before rs \<Longrightarrow> decode_records (length rs) cache before (concat (map encode_record rs)) = Inr (before @ rs)"
proof (induction rs arbitrary: cache before)
  case (Cons r rs)
  obtain c cache' where g: "cache_get (rc_EncodingEpoch r) cache = (Inr c, cache')" and v: "validateFECRecord r c = None"
    and nd: "\<not> duplicateGroup before (rc_GroupID r)" and ok: "records_ok cache' (before @ [r]) rs"
    using Cons.prems by (auto split: prod.splits sum.splits)
  let ?b = "encode_record r @ concat (map encode_record rs)"
  note f = record_fields [of r "concat (map encode_record rs)"]
  have w: "(be_get (slice 0 8 ?b) :: u64) = rc_GroupID r" "(be_get (slice 8 12 ?b) :: u32) = rc_EncodingEpoch r"
    "(be_get (slice 12 16 ?b) :: u32) = rc_LogicalBytes r" by (simp_all only: f(1-3) be_simps)
  have d: "drop (18 + length (rc_Payload r)) ?b = concat (map encode_record rs)" by simp
  show ?case
    using Cons.IH [OF ok] nd v
    by (simp add: Let_def w f(4-6) g validateFECRecord_size [OF v, symmetric] record_eta d del: drop_append)
qed simp

lemma decode_records_canonical:
  assumes "decode_records n cache before body = Inr out"
  shows "\<exists>rs. out = before @ rs \<and> length rs = n \<and> records_ok cache before rs \<and> body = concat (map encode_record rs)"
  using assms
proof (induction n arbitrary: cache before body)
  case 0
  then show ?case by (simp split: if_splits)
next
  case (Suc n)
  obtain c cache' where len: "18 \<le> length body" and z: "body ! 17 = 0" "\<not> duplicateGroup before (be_get (slice 0 8 body))"
    and g: "cache_get (be_get (slice 8 12 body)) cache = (Inr c, cache')" and fits: "unat (ec_ShardBytes c) \<le> length body - 18"
    using Suc.prems by (auto simp: Let_def split: if_splits prod.splits sum.splits)
  define s where "s = unat (ec_ShardBytes c)"
  define r where "r = \<lparr>rc_GroupID = be_get (slice 0 8 body), rc_EncodingEpoch = be_get (slice 8 12 body), rc_LogicalBytes = be_get (slice 12 16 body),
    rc_ShardIndex = body ! 16, rc_Payload = slice 18 (18 + s) body\<rparr>"
  have v: "validateFECRecord r c = None" and rest: "decode_records n cache' (before @ [r]) (drop (18 + s) body) = Inr out"
    using Suc.prems len z g fits by (auto simp: Let_def r_def s_def split: option.splits)
  obtain rs where rs: "out = (before @ [r]) @ rs" "length rs = n" "records_ok cache' (before @ [r]) rs" "drop (18 + s) body = concat (map encode_record rs)"
    using Suc.IH [OF rest] by blast
  have "[body ! 16, 0] = slice 16 18 body" using slice_nth2 [of 16 body] len z(1) by simp
  then have "encode_record r = slice 0 8 body @ slice 8 12 body @ slice 12 16 body @ slice 16 18 body @ slice 18 (18 + s) body"
    using len by (simp add: encode_record_def r_def be_put_slice del: be_put.simps)
  also have "\<dots> = take (18 + s) body" by (simp add: slice_slice) (simp add: slice_slice flip: take_slice)
  finally have "body = concat (map encode_record (r # rs))" using append_take_drop_id [of "18 + s" body] rs(4) by simp
  moreover have "records_ok cache before (r # rs)" using z(2) g v rs(3) by (simp add: r_def)
  ultimately show ?case using rs(1,2) by (intro exI [of _ "r # rs"]) simp
qed

definition bundle_ok :: "ContextLookup option \<Rightarrow> int \<Rightarrow> Key \<Rightarrow> FECBundle \<Rightarrow> bool" where
  "bundle_ok lookup mp key b \<longleftrightarrow>
     key \<noteq> 0 \<and> hd_Type (bd_Header b) = TypeFECBundle \<and> hd_SessionID (bd_Header b) \<noteq> 0 \<and>
     validateRoute TypeFECBundle (bd_Route b) = None \<and> validatePayloadLimit mp = None \<and>
     1 \<le> length (bd_Records b) \<and> length (bd_Records b) \<le> 16 \<and>
     records_ok \<lparr>cc_lookup = lookup, cc_contexts = []\<rparr> [] (bd_Records b) \<and>
     int (76 + length (concat (map encode_record (bd_Records b)))) \<le> mp"

definition bundle_packet :: "Key \<Rightarrow> FECBundle \<Rightarrow> bytes" where
  "bundle_packet key b = envelope key (bd_Header b) (encodeRoute (bd_Route b) @ bundle_body b)"

lemma length_bundle_body: "length (bundle_body b) = 4 + length (concat (map encode_record (bd_Records b)))"
  by (simp add: bundle_body_def)

lemma bundle_frame: "bundle_ok lookup mp key b \<Longrightarrow> frame_ok key (bd_Header b) (encodeRoute (bd_Route b) @ bundle_body b)"
  by (auto simp: bundle_ok_def frame_ok_def validateEnvelope_def knownPacketType_def IsHandshake_def length_bundle_body
      validatePayloadLimit_def split: if_splits)

lemma bundle_fields:
  "slice 0 2 (bundle_body b) = be_put 2 (word_of_nat (length (bd_Records b)) :: u16)" "slice 2 4 (bundle_body b) = [0, 0]"
  "drop 4 (bundle_body b) = concat (map encode_record (bd_Records b))"
  by (simp_all add: bundle_body_def slice_def)

lemma decode_bundle:
  assumes "bundle_ok lookup mp key b"
  shows "DecodeFECBundle (opened key (bd_Header b) (encodeRoute (bd_Route b) @ bundle_body b)) lookup mp = Inr b"
proof -
  note ok = assms [unfolded bundle_ok_def]
  have est: "DecodeEstablished (opened key (bd_Header b) (encodeRoute (bd_Route b) @ bundle_body b)) =
      Inr \<lparr>es_Header = bd_Header b, es_Route = bd_Route b, es_Body = bundle_body b\<rparr>"
    using ok by (simp add: DecodeEstablished_opened IsHandshake_def)
  have n: "unat (be_get (slice 0 2 (bundle_body b)) :: u16) = length (bd_Records b)"
    using ok by (simp only: bundle_fields be_simps) (simp add: unat_of_nat)
  have d: "decode_records (length (bd_Records b)) \<lparr>cc_lookup = lookup, cc_contexts = []\<rparr> [] (concat (map encode_record (bd_Records b))) = Inr (bd_Records b)"
    using decode_encode_records ok by fastforce
  have "\<lparr>bd_Header = bd_Header b, bd_Route = bd_Route b, bd_Records = bd_Records b\<rparr> = b" by simp
  moreover have "\<not> int (length (ev_packet (ae_envelope (opened key (bd_Header b) (encodeRoute (bd_Route b) @ bundle_body b))))) > mp"
    using ok by (simp add: opened_def length_bundle_body)
  ultimately show ?thesis
    using ok by (simp add: DecodeFECBundle_def est Let_def n d bundle_fields(2,3) length_bundle_body allZero_def Suc_le_eq)
qed

lemma decode_bundle_accepted:
  assumes fr: "frame_ok key h body" and dec: "DecodeFECBundle (opened key h body) lookup mp = Inr b"
  shows "bundle_ok lookup mp key b \<and> bd_Header b = h \<and> body = encodeRoute (bd_Route b) @ bundle_body b"
proof -
  obtain m where m: "DecodeEstablished (opened key h body) = Inr m" using dec by (auto simp: DecodeFECBundle_def split: sum.splits)
  note E = m [unfolded DecodeEstablished_opened]
  define n where "n = unat (be_get (slice 0 2 (es_Body m)) :: u16)"
  obtain rs where t: "hd_Type h = 32" "validatePayloadLimit mp = None" "int (56 + length body) \<le> mp"
    "4 \<le> length (es_Body m)" "allZero (slice 2 4 (es_Body m))" "1 \<le> n" "n \<le> 16"
    and rs: "decode_records n \<lparr>cc_lookup = lookup, cc_contexts = []\<rparr> [] (drop 4 (es_Body m)) = Inr rs"
    and b: "b = \<lparr>bd_Header = h, bd_Route = es_Route m, bd_Records = rs\<rparr>"
  proof -
    have len: "length (ev_packet (ae_envelope (opened key h body))) = 56 + length body" by (simp add: opened_def)
    show ?thesis
      using dec E that unfolding DecodeFECBundle_def m n_def Let_def len
      by (auto simp: Suc_le_eq split: if_splits option.splits sum.splits)
  qed
  have r: "length rs = n" "records_ok \<lparr>cc_lookup = lookup, cc_contexts = []\<rparr> [] rs" "drop 4 (es_Body m) = concat (map encode_record rs)"
    using decode_records_canonical [OF rs] by auto
  have "slice 2 4 (es_Body m) = [0, 0]" using two_zeros t(4,5) by simp
  moreover have "be_put 2 (word_of_nat n :: u16) = slice 0 2 (es_Body m)"
    using t(4) by (simp add: n_def be_put_slice del: be_put.simps)
  ultimately have "bundle_body b = slice 0 2 (es_Body m) @ slice 2 4 (es_Body m) @ drop 4 (es_Body m)"
    using r by (simp add: bundle_body_def b del: be_put.simps)
  then have bb: "bundle_body b = es_Body m" by (simp add: slice_rest)
  have "bundle_ok lookup mp key b"
    using fr E t(1-3,6,7) r length_bundle_body [of b]
    by (auto simp: bundle_ok_def b frame_ok_def validateEnvelope_def bb [unfolded b] split: if_splits)
  then show ?thesis using E bb by (simp add: b)
qed

definition receive_bundle :: "ContextLookup option \<Rightarrow> int \<Rightarrow> Key \<Rightarrow> bytes \<Rightarrow> (wirev2_error, FECBundle) result" where
  "receive_bundle lookup mp key p = (case receive key p of Inl err \<Rightarrow> Inl err | Inr a \<Rightarrow> DecodeFECBundle a lookup mp)"

interpretation bundle_codec: codec "bundle_packet key" "receive_bundle lookup mp key" "bundle_ok lookup mp key" for lookup mp key
proof unfold_locales
  fix b
  assume "bundle_ok lookup mp key b"
  then show "receive_bundle lookup mp key (bundle_packet key b) = Inr b"
    by (simp add: receive_bundle_def bundle_packet_def receive_envelope [OF bundle_frame] decode_bundle)
next
  fix p b
  assume "receive_bundle lookup mp key p = Inr b"
  then obtain a where "receive key p = Inr a" "DecodeFECBundle a lookup mp = Inr b" by (auto simp: receive_bundle_def split: sum.splits)
  then show "bundle_ok lookup mp key b \<and> bundle_packet key b = p"
    using decode_bundle_accepted unfolding receive_iff bundle_packet_def by blast
qed

lemma check_records_fit:
  assumes "validatePayloadLimit mp = None"
  shows "(\<exists>n. check_records mp cache [] 4 rs = Inr n) \<longleftrightarrow> records_ok cache [] rs \<and> int (76 + length (concat (map encode_record rs))) \<le> mp"
proof -
  have "4 \<le> mp - 72" using assms by (auto simp: validatePayloadLimit_def split: if_splits)
  from check_records_iff [OF this, of cache "[]" rs] show ?thesis by auto
qed

lemma AppendFECBundle_ok:
  "AppendFECBundle dst b lookup key mp = (out, None) \<longleftrightarrow> bundle_ok lookup mp key b \<and> out = dst @ bundle_packet key b"
proof (cases "bundle_ok lookup mp key b")
  case ok: True
  then obtain n where "check_records mp \<lparr>cc_lookup = lookup, cc_contexts = []\<rparr> [] 4 (bd_Records b) = Inr n"
    using check_records_fit [of mp "\<lparr>cc_lookup = lookup, cc_contexts = []\<rparr>" "bd_Records b"] unfolding bundle_ok_def by blast
  then have "AppendFECBundle dst b lookup key mp = (dst @ bundle_packet key b, None)"
    using ok bundle_frame [OF ok] AppendEnvelope_ok [of dst "bd_Header b" "encodeRoute (bd_Route b) @ bundle_body b" key]
    by (auto simp: AppendFECBundle_def appendFECBundle_def bundle_ok_def bundle_packet_def frame_ok_def AppendEnvelope_def Let_def not_le Suc_le_eq)
  then show ?thesis using ok by auto
next
  case False
  have "AppendFECBundle dst b lookup key mp \<noteq> (out, None)"
  proof
    assume "AppendFECBundle dst b lookup key mp = (out, None)"
    then have "key \<noteq> 0" "hd_Type (bd_Header b) = 32" "hd_SessionID (bd_Header b) \<noteq> 0" "validateRoute 32 (bd_Route b) = None"
      "validatePayloadLimit mp = None" "1 \<le> length (bd_Records b)" "length (bd_Records b) \<le> 16"
      "\<exists>n. check_records mp \<lparr>cc_lookup = lookup, cc_contexts = []\<rparr> [] 4 (bd_Records b) = Inr n"
      by (auto simp: AppendFECBundle_def appendFECBundle_def Let_def Suc_le_eq split: if_splits option.splits sum.splits)
    then show False using False check_records_fit by (simp add: bundle_ok_def)
  qed
  then show ?thesis using False by blast
qed

lemma AppendEstablished_ok:
  "AppendEstablished dst h r b key = (out, None) \<longleftrightarrow>
     frame_ok key h (encodeRoute r @ b) \<and> \<not> IsHandshake (hd_Type h) \<and> validateRoute (hd_Type h) r = None \<and>
     out = dst @ envelope key h (encodeRoute r @ b)"
  using validateEnvelope_size [of h "16 + length b"]
  by (auto simp: AppendEstablished_def AppendEnvelope_ok frame_ok_def split: option.splits)

subsection \<open>Properties of the formats\<close>

text \<open>C30: The v2 handshake format is canonical: the bytes that framing, authentication and
  \<open>DecodeHandshake\<close> accept under a key as a message are exactly the bytes \<open>AppendHandshake\<close> emits for
  that message under that key, TLV order, lengths, reserved fields and padding included.\<close>

theorem v2_handshake_canonical:
  "receive_handshake key p = Inr m \<longleftrightarrow> AppendHandshake [] m key = (p, None)"
  using handshake_codec.dec_enc [of key m] handshake_codec.enc_dec [of key p m] by (auto simp: AppendHandshake_ok)

text \<open>C31: The v2 FEC bundle format is canonical for every context lookup, payload limit and key: the bytes
  accepted as a bundle are exactly the bytes \<open>AppendFECBundle\<close> emits for it.\<close>

theorem v2_bundle_canonical:
  "receive_bundle lookup mp key p = Inr b \<longleftrightarrow> AppendFECBundle [] b lookup key mp = (p, None)"
  using bundle_codec.dec_enc [of lookup mp key b] bundle_codec.enc_dec [of lookup mp key p b] by (auto simp: AppendFECBundle_ok)

text \<open>Encoding contexts and their acknowledgements round trip: what a receiver decodes from authentic
  bytes is what the sender appended, and an acknowledgement made for the received context is accepted by
  the sender for exactly the context it announced, up to a collision of the digests.\<close>

theorem v2_context_exchange:
  assumes "AppendEncodingContext [] sid r c key = (p, None)"
  shows "\<exists>a k. receive key p = Inr a \<and> hd_SessionID (ae_Header a) = sid \<and> DecodeEncodingContext a = Inr (r, c) \<and>
    NewEncodingContextAck c = Inr k \<and> ValidateContext k c = None \<and>
    (\<exists>q b. AppendEncodingContextAck [] sid r k key = (q, None) \<and> receive key q = Inr b \<and> DecodeEncodingContextAck b = Inr (r, k)) \<and>
    (\<forall>c'. ValidateContext k c' = None \<longrightarrow>
       EncodingContext_Validate c' = None \<and> ec_Epoch c' = ec_Epoch c \<and>
       (be_get (sha256 (context_body c')) :: Digest) = be_get (sha256 (context_body c)))"
proof -
  let ?h = "\<lparr>hd_Type = TypeEncodingContext, hd_SessionID = sid\<rparr>" and ?h' = "\<lparr>hd_Type = TypeEncodingContextAck, hd_SessionID = sid\<rparr>"
  define k where "k = \<lparr>ak_Epoch = ec_Epoch c, ak_Digest = be_get (sha256 (context_body c))\<rparr>"
  have v: "EncodingContext_Validate c = None" and p: "p = envelope key ?h (encodeRoute r @ context_body c)"
    and fr: "frame_ok key ?h (encodeRoute r @ context_body c)" and rt: "validateRoute 27 r = None"
    using assms by (auto simp: AppendEncodingContext_def encodeContext_def AppendEstablished_ok split: option.splits)
  have epoch: "ec_Epoch c \<noteq> 0" using v by (auto simp: EncodingContext_Validate_def split: if_splits)
  have rt': "validateRoute 28 r = None" using rt by (simp add: validateRoute_def Let_def split: if_splits)
  let ?b = "be_put 4 (ak_Epoch k) @ be_put 32 (ak_Digest k)"
  have fr': "frame_ok key ?h' (encodeRoute r @ ?b)"
    using fr by (auto simp: frame_ok_def validateEnvelope_def knownPacketType_def IsHandshake_def split: if_splits)
  have "NewEncodingContextAck c = Inr k" using v by (simp add: NewEncodingContextAck_def encodeContext_def k_def)
  moreover have "AppendEncodingContextAck [] sid r k key = (envelope key ?h' (encodeRoute r @ ?b), None)"
    using fr' rt' epoch by (simp add: AppendEncodingContextAck_def AppendEstablished_ok IsHandshake_def k_def)
  moreover have "DecodeEncodingContextAck (opened key ?h' (encodeRoute r @ ?b)) = Inr (r, k)"
    using rt' epoch by (simp add: DecodeEncodingContextAck_opened k_def)
  moreover have "DecodeEncodingContext (opened key ?h (encodeRoute r @ context_body c)) = Inr (r, c)"
    using v rt by (simp add: DecodeEncodingContext_opened)
  moreover have "ValidateContext k c' = None \<longleftrightarrow> NewEncodingContextAck c' = Inr k" for c'
    by (auto simp: ValidateContext_def split: sum.splits)
  moreover have "EncodingContext_Validate c' = None \<and> ec_Epoch c' = ec_Epoch c \<and>
      (be_get (sha256 (context_body c')) :: Digest) = be_get (sha256 (context_body c))" if "NewEncodingContextAck c' = Inr k" for c'
    using that by (auto simp: NewEncodingContextAck_def encodeContext_def k_def split: option.splits)
  moreover have "receive key p = Inr (opened key ?h (encodeRoute r @ context_body c))" unfolding p by (rule receive_envelope [OF fr])
  moreover have "receive key (envelope key ?h' (encodeRoute r @ ?b)) = Inr (opened key ?h' (encodeRoute r @ ?b))" by (rule receive_envelope [OF fr'])
  ultimately have "receive key p = Inr (opened key ?h (encodeRoute r @ context_body c)) \<and>
      hd_SessionID (ae_Header (opened key ?h (encodeRoute r @ context_body c))) = sid \<and>
      DecodeEncodingContext (opened key ?h (encodeRoute r @ context_body c)) = Inr (r, c) \<and>
      NewEncodingContextAck c = Inr k \<and> ValidateContext k c = None \<and>
      (\<exists>q b. AppendEncodingContextAck [] sid r k key = (q, None) \<and> receive key q = Inr b \<and> DecodeEncodingContextAck b = Inr (r, k)) \<and>
      (\<forall>c'. ValidateContext k c' = None \<longrightarrow> EncodingContext_Validate c' = None \<and> ec_Epoch c' = ec_Epoch c \<and>
         (be_get (sha256 (context_body c')) :: Digest) = be_get (sha256 (context_body c)))"
    unfolding opened_body(2) Header.select_convs by blast
  then show ?thesis by blast
qed

definition example_route :: Route where
  "example_route = \<lparr>rt_PathID = 1, rt_Generation = 7, rt_BudgetEpoch = 3\<rparr>"

definition example_context :: EncodingContext where
  "example_context = \<lparr>ec_Epoch = 1, ec_LayoutID = 1, ec_ProtectionID = 1, ec_DataShards = 2, ec_ParityShards = 1, ec_ShardBytes = 30,
     ec_MaxDescriptors = 3, ec_MaxLogicalBytes = 50\<rparr>"

lemma example_context_valid: "EncodingContext_Validate example_context = None"
  by (simp add: EncodingContext_Validate_def example_context_def)

theorem v2_context_exchange_witness:
  "\<exists>p a. AppendEncodingContext [] 5 example_route example_context 9 = (p, None) \<and> receive 9 p = Inr a \<and>
     DecodeEncodingContext a = Inr (example_route, example_context)"
proof -
  let ?h = "\<lparr>hd_Type = 27, hd_SessionID = 5\<rparr>"
  have "AppendEncodingContext [] 5 example_route example_context 9 =
      (envelope 9 ?h (encodeRoute example_route @ context_body example_context), None)"
    using example_context_valid
    by (simp add: AppendEncodingContext_def encodeContext_def AppendEstablished_ok frame_ok_def validateEnvelope_def knownPacketType_def
        IsHandshake_def validateRoute_def example_route_def)
  from v2_context_exchange [OF this] this show ?thesis by blast
qed


end
