(* ===== verification/WireV2Binding.thy ===== *)
theory WireV2Binding
  imports WireV2Codec
begin

text \<open>
  What the handshake transcript binds, and that the stateful authenticator behaves like the stateless
  functions in every state its owner can bring it into.
\<close>

subsection \<open>Transcripts\<close>

lemma NewTranscript_valid:
  assumes "NewTranscript hello challenge = Inr t"
  shows "ts_valid t" "\<exists>h c. DecodeHandshake hello = Inr h \<and> DecodeHandshake challenge = Inr c \<and>
    ts_sessionID t = hd_SessionID (hs_Header h) \<and> ts_clientNonce t = hs_ClientNonce h \<and> hs_ClientNonce c = hs_ClientNonce h \<and>
    ts_serverNonce t = hs_ServerNonce c \<and> ts_returnPathToken t = hs_ReturnPathToken c \<and>
    hs_TranscriptDigest c = be_get (sha256 (signed_bytes hello))"
  using assms by (auto simp: NewTranscript_def split: sum.splits if_splits)

lemma DecodeHandshake_valid: "DecodeHandshake a = Inr m \<Longrightarrow> validateHandshake m = None"
  by (auto simp: DecodeHandshake_def Let_def split: if_splits sum.splits option.splits)

lemma Confirmation_valid:
  assumes t: "NewTranscript hello challenge = Inr t" and m: "Confirmation t ty = Inr m"
  shows "validateHandshake m = None"
proof -
  obtain h where h: "DecodeHandshake hello = Inr h" "ts_sessionID t = hd_SessionID (hs_Header h)" "ts_clientNonce t = hs_ClientNonce h"
    using NewTranscript_valid(2) [OF t] by blast
  have "hd_SessionID (hs_Header h) \<noteq> 0" "hs_ClientNonce h \<noteq> 0"
    using DecodeHandshake_valid [OF h(1)] by (auto simp: validateHandshake_def Let_def split: if_splits)
  then show ?thesis using m h(2,3)
    by (auto simp: Confirmation_def validateHandshake_def validateTLVs_def IsHandshake_def Let_def split: if_splits)
qed

lemma Confirmation_fields:
  assumes "ts_valid t" "validateHandshake m = None"
  shows "(\<exists>ty. Confirmation t ty = Inr m) \<longleftrightarrow>
    (hd_Type (hs_Header m) = TypeFinish \<or> hd_Type (hs_Header m) = TypeReady) \<and> hd_SessionID (hs_Header m) = ts_sessionID t \<and>
    hs_ClientNonce m = ts_clientNonce t \<and> hs_ServerNonce m = ts_serverNonce t \<and> hs_ReturnPathToken m = ts_returnPathToken t \<and>
    hs_TranscriptDigest m = ts_digest t" (is "?L \<longleftrightarrow> ?R")
proof
  assume R: ?R
  then have "hs_TLVs m = []"
    using validateHandshake_D(3) [OF assms(2)] by (auto simp: validateTLVs_def split: if_splits)
  then have "Confirmation t (hd_Type (hs_Header m)) = Inr m"
    using R assms(1) by (cases m, cases "hs_Header m") (auto simp: Confirmation_def)
  then show ?L by blast
qed (auto simp: Confirmation_def split: if_splits)

text \<open>C18: A transcript confirms itself and nothing else: for the transcript of a HELLO and a CHALLENGE, an
  authentic packet passes \<open>ValidateConfirmation\<close> exactly when it is the FINISH or the READY that
  \<open>Confirmation\<close> builds from this transcript, byte for byte; and these packets can always be sent.\<close>

theorem confirmation_binds_transcript:
  assumes t: "NewTranscript hello challenge = Inr t" and key: "key \<noteq> 0"
  shows "(\<exists>a. receive key p = Inr a \<and> ValidateConfirmation t a = None) \<longleftrightarrow>
    (\<exists>ty m. Confirmation t ty = Inr m \<and> AppendHandshake [] m key = (p, None))"
proof -
  have valid: "ts_valid t" by (rule NewTranscript_valid(1) [OF t])
  have iff: "ValidateConfirmation t a = None \<longleftrightarrow> (\<exists>m ty. DecodeHandshake a = Inr m \<and> Confirmation t ty = Inr m)" for a
  proof (cases "DecodeHandshake a")
    case (Inr m)
    then show ?thesis using Confirmation_fields [OF valid DecodeHandshake_valid [OF Inr]] valid
      by (auto simp: ValidateConfirmation_def)
  qed (simp add: ValidateConfirmation_def valid)
  have "(\<exists>a. receive key p = Inr a \<and> ValidateConfirmation t a = None) \<longleftrightarrow> (\<exists>m ty. receive_handshake key p = Inr m \<and> Confirmation t ty = Inr m)"
    unfolding iff receive_handshake_def by (auto split: sum.splits)
  also have "\<dots> \<longleftrightarrow> (\<exists>ty m. Confirmation t ty = Inr m \<and> AppendHandshake [] m key = (p, None))"
    using handshake_codec.dec_enc [of key] handshake_codec.enc_dec [of key p] by (auto simp: AppendHandshake_ok)
  finally show ?thesis .
qed

subsection \<open>The stateful authenticator\<close>

datatype auth_op = AuthAuthenticate Envelope | AuthAppend bytes FECBundle "ContextLookup option" int | AuthClose

fun auth_apply :: "auth_op \<Rightarrow> Authenticator option \<Rightarrow> Authenticator option" where
  "auth_apply (AuthAuthenticate e) a = snd (Authenticator_Authenticate a e)"
| "auth_apply (AuthAppend dst b lookup mp) a = snd (snd (Authenticator_AppendFECBundle a dst b lookup mp))"
| "auth_apply AuthClose a = Authenticator_Close a"

definition auth_start :: "Key \<Rightarrow> Authenticator option \<Rightarrow> bool" where
  "auth_start key a \<longleftrightarrow> (\<exists>s. NewAuthenticator key = Inr s \<and> a = Some s)"

definition auth_step :: "Authenticator option \<Rightarrow> Authenticator option \<Rightarrow> bool" where
  "auth_step a a' \<longleftrightarrow> (\<exists>op. a' = auth_apply op a)"

definition auth_inv :: "Key \<Rightarrow> Authenticator option \<Rightarrow> bool" where
  "auth_inv key a \<longleftrightarrow> (\<exists>s. a = Some s \<and> au_prefix s = replicate 24 0 \<and> au_tag s = replicate 32 0 \<and>
     (if au_mac s = None then au_key s = 0 else key \<noteq> 0 \<and> au_key s = key \<and> fst (the (au_mac s)) = be_put 32 key))"

lemma reset_new: "fst m = be_put 32 key \<Longrightarrow> mac_Reset m = hmac_new key"
  by (simp add: mac_Reset_def hmac_new_def)

lemma authenticate_stateful:
  assumes "auth_inv key (Some s)" "au_mac s \<noteq> None"
  shows "fst (authenticate e key (Some s)) = Authenticate e key" "auth_inv key (snd (authenticate e key (Some s)))"
  using assms
  by (auto simp: auth_inv_def authenticate_def Authenticate_def authenticateStateless_def reset_new use_mac_def Let_def mac_Write_def mac_Reset_def hmac_new_def)

lemma appendEnvelope_stateful:
  assumes "auth_inv key (Some s)" "au_mac s \<noteq> None"
  shows "fst (appendEnvelope dst h b key (Some s)) = fst (AppendEnvelope dst h b key)"
    "fst (snd (appendEnvelope dst h b key (Some s))) = snd (AppendEnvelope dst h b key)"
    "auth_inv key (snd (snd (appendEnvelope dst h b key (Some s))))"
  using assms
  by (auto simp: auth_inv_def appendEnvelope_def AppendEnvelope_def appendEnvelopeStateless_def reset_new use_mac_def Let_def mac_Write_def
      mac_Reset_def hmac_new_def split: option.splits)

lemma appendFECBundle_stateful:
  assumes "auth_inv key (Some s)" "au_mac s \<noteq> None"
  shows "(case appendFECBundle dst b lookup key mp (Some s) of (out, err, _) \<Rightarrow> (out, err)) = AppendFECBundle dst b lookup key mp"
    "auth_inv key (snd (snd (appendFECBundle dst b lookup key mp (Some s))))"
  using assms(1) appendEnvelope_stateful [OF assms, of dst "bd_Header b" "encodeRoute (bd_Route b) @ bundle_body b"]
  by (auto simp: appendFECBundle_def AppendFECBundle_def AppendEnvelope_def Let_def split: option.splits sum.splits prod.splits)

interpretation auth_system: transition_system "auth_start key" auth_step "auth_inv key" for key
proof unfold_locales
  show "auth_start key a \<Longrightarrow> auth_inv key a" for a
    by (auto simp: auth_start_def NewAuthenticator_def auth_inv_def mac_Reset_def hmac_new_def split: if_splits)
  show "auth_inv key a'" if inv: "auth_inv key a" and st: "auth_step a a'" for a a'
  proof -
    obtain s where s: "a = Some s" "auth_inv key (Some s)" using inv unfolding auth_inv_def by blast
    then have k: "au_mac s \<noteq> None \<Longrightarrow> au_key s = key" by (auto simp: auth_inv_def)
    obtain op where op: "a' = auth_apply op a" using st unfolding auth_step_def by blast
    show ?thesis
    proof (cases op)
      case (AuthAuthenticate e)
      then show ?thesis using s k authenticate_stateful(2) [OF s(2), of e] by (auto simp: op Authenticator_Authenticate_def)
    next
      case (AuthAppend dst b lookup mp)
      then show ?thesis using s k appendFECBundle_stateful(2) [OF s(2), of dst b lookup mp] by (auto simp: op Authenticator_AppendFECBundle_def)
    qed (simp add: op s auth_inv_def Authenticator_Close_def)
  qed
qed

text \<open>C38: An authenticator made for a key, after any sequence of its operations, answers exactly like the
  stateless functions under that key, leaves its scratch arrays zeroed, and once closed holds no key and
  refuses everything with \<open>ErrInvalidKey\<close>.\<close>

theorem authenticator_refines_stateless:
  assumes "reachable (auth_start key) auth_step a"
  shows "\<exists>s. a = Some s \<and> au_prefix s = replicate PrefixSize 0 \<and> au_tag s = replicate AuthenticationTagSize 0 \<and>
    (if au_mac s = None
     then au_key s = 0 \<and> fst (Authenticator_Authenticate a e) = Inl ErrInvalidKey \<and>
       fst (snd (Authenticator_AppendFECBundle a dst b lookup mp)) = Some ErrInvalidKey
     else fst (Authenticator_Authenticate a e) = Authenticate e key \<and>
       (case Authenticator_AppendFECBundle a dst b lookup mp of (out, err, _) \<Rightarrow> (out, err)) = AppendFECBundle dst b lookup key mp)"
proof -
  have inv: "auth_inv key a" by (rule auth_system.reachable_inv [OF assms])
  then obtain s where s: "a = Some s" "auth_inv key (Some s)" unfolding auth_inv_def by blast
  show ?thesis
  proof (cases "au_mac s = None")
    case True
    then show ?thesis using s by (auto simp: auth_inv_def Authenticator_Authenticate_def Authenticator_AppendFECBundle_def)
  next
    case False
    then have "au_key s = key" using s(2) by (simp add: auth_inv_def)
    then show ?thesis
      using False s authenticate_stateful(1) [OF s(2) False] appendFECBundle_stateful(1) [OF s(2) False]
      by (auto simp: auth_inv_def Authenticator_Authenticate_def Authenticator_AppendFECBundle_def)
  qed
qed

subsection \<open>Examples\<close>

definition example_hello :: Handshake where
  "example_hello = \<lparr>hs_Header = \<lparr>hd_Type = 1, hd_SessionID = 5\<rparr>, hs_ClientNonce = 11, hs_ServerNonce = 0, hs_TranscriptDigest = 0,
     hs_ReturnPathToken = 0,
     hs_TLVs = map (\<lambda>(t, n). \<lparr>tlv_Type = t, tlv_Value = replicate n 0\<rparr>)
       [(0x8001, 1), (0x8002, 16), (0x8003, 2), (0x8004, 2), (0x8005, 2), (0x8006, 2), (0x8007, 8), (0x8008, 20), (0x8009, 8), (0x800a, 28),
        (0x800b, 8), (0x800c, 4)]\<rparr>"

definition hello_envelope :: AuthenticatedEnvelope where
  "hello_envelope = opened 9 (hs_Header example_hello) (handshake_body example_hello)"

definition example_challenge :: Handshake where
  "example_challenge = example_hello\<lparr>hs_Header := \<lparr>hd_Type = 2, hd_SessionID = 5\<rparr>, hs_ServerNonce := 12,
     hs_TranscriptDigest := be_get (sha256 (signed_bytes hello_envelope)), hs_ReturnPathToken := 13\<rparr>"

definition challenge_envelope :: AuthenticatedEnvelope where
  "challenge_envelope = opened 9 (hs_Header example_challenge) (handshake_body example_challenge)"

lemma example_hello_valid: "validateHandshake example_hello = None"
  by code_simp

lemma example_challenge_valid: "validateHandshake example_challenge = None"
proof -
  have "validateTLVs 2 (hs_TLVs example_hello) = None" by code_simp
  moreover have "hs_ClientNonce example_hello \<noteq> 0" by code_simp
  ultimately show ?thesis by (simp add: validateHandshake_def Let_def IsHandshake_def example_challenge_def)
qed

lemma example_transcript: "\<exists>t. NewTranscript hello_envelope challenge_envelope = Inr t"
proof -
  have "DecodeHandshake hello_envelope = Inr example_hello" "DecodeHandshake challenge_envelope = Inr example_challenge"
    unfolding hello_envelope_def challenge_envelope_def
    by (rule decode_handshake_body; simp add: example_hello_valid example_challenge_valid)+
  then show ?thesis by (simp add: NewTranscript_def example_challenge_def) (simp add: example_hello_def)
qed

theorem confirmation_binds_transcript_witness:
  "\<exists>t p a. NewTranscript hello_envelope challenge_envelope = Inr t \<and> receive 9 p = Inr a \<and> ValidateConfirmation t a = None"
proof -
  obtain t where t: "NewTranscript hello_envelope challenge_envelope = Inr t" using example_transcript by blast
  obtain m where m: "Confirmation t 3 = Inr m" using NewTranscript_valid(1) [OF t] by (simp add: Confirmation_def)
  have "AppendHandshake [] m 9 = (handshake_packet 9 m, None)"
    using Confirmation_valid [OF t m] by (simp add: AppendHandshake_ok)
  then show ?thesis using confirmation_binds_transcript [OF t, of 9 "handshake_packet 9 m"] m t by auto
qed

theorem authenticator_refines_stateless_witness:
  "\<exists>s. NewAuthenticator 9 = Inr s \<and>
     fst (Authenticator_Authenticate (Authenticator_Close (Some s)) (ae_envelope hello_envelope)) = Inl ErrInvalidKey \<and>
     fst (Authenticator_Authenticate (Some s) (ae_envelope hello_envelope)) = Authenticate (ae_envelope hello_envelope) 9"
proof -
  obtain s where s: "NewAuthenticator 9 = Inr s" "au_mac s \<noteq> None" by (simp add: NewAuthenticator_def)
  then have r: "reachable (auth_start 9) auth_step (Some s)" by (intro reach_start) (simp add: auth_start_def)
  have step: "auth_step (Some s) (Authenticator_Close (Some s))"
    unfolding auth_step_def by (intro exI [of _ AuthClose]) simp
  show ?thesis
    using authenticator_refines_stateless [OF r, of "ae_envelope hello_envelope"]
      authenticator_refines_stateless [OF reach_step [OF r step], of "ae_envelope hello_envelope"] s
    by (auto simp: Authenticator_Close_def)
qed


end
