(* ===== verification/Negotiation.thy ===== *)
theory Negotiation
  imports WireV2
begin

text \<open>
  The v2 contract negotiation (\<^verbatim>\<open>src/internal/negotiationv2\<close>): endpoint profiles, their validation, the
  TLV encoding of an advertisement, the listener's selection, the client's acceptance and the limits of
  each sending direction. Enumerations are the machine integers of the source, so unknown values from
  the wire are values of the model.
\<close>

subsection \<open>types.go\<close>

datatype negotiation_error = ErrInvalid | ErrIncompatible | ErrUnsupportedCapability

type_synonym Protocol = u8
abbreviation (input) DatagramProtocol :: Protocol where "DatagramProtocol \<equiv> 1"
abbreviation (input) KCP :: Protocol where "KCP \<equiv> 2"

type_synonym Capabilities = u64
abbreviation (input) FragmentManifest :: Capabilities where "FragmentManifest \<equiv> 1"
abbreviation (input) Aggregation :: Capabilities where "Aggregation \<equiv> 2"
abbreviation (input) DatagramRepair :: Capabilities where "DatagramRepair \<equiv> 4"
abbreviation (input) NativeKCP :: Capabilities where "NativeKCP \<equiv> 8"
abbreviation (input) KCPPacketPieces :: Capabilities where "KCPPacketPieces \<equiv> 16"
abbreviation (input) SmuxAdmission :: Capabilities where "SmuxAdmission \<equiv> 32"
abbreviation (input) PLPMTUD :: Capabilities where "PLPMTUD \<equiv> 64"
abbreviation (input) PerCarrierBudget :: Capabilities where "PerCarrierBudget \<equiv> 128"
abbreviation (input) GroupMigration :: Capabilities where "GroupMigration \<equiv> 256"
abbreviation (input) KnownCapabilities :: Capabilities where "KnownCapabilities \<equiv> 511"

abbreviation (input) MuxOff :: u16 where "MuxOff \<equiv> 0"
abbreviation (input) SmuxWire2 :: u16 where "SmuxWire2 \<equiv> 1"
abbreviation (input) Fixed :: u8 where "Fixed \<equiv> 0"
abbreviation (input) ProbeMTU :: u8 where "ProbeMTU \<equiv> 1"
abbreviation (input) SessionBudget :: u8 where "SessionBudget \<equiv> 0"
abbreviation (input) CarrierBudget :: u8 where "CarrierBudget \<equiv> 1"

record PayloadLimits =
  pl_SendHardCap :: u16
  pl_ReceiveHardCap :: u16
  pl_BootstrapBytes :: u16
  pl_InnerKCPBytes :: u16

record DatagramLimits =
  dl_DatagramWindow :: u32
  dl_GroupWindow :: u32
  dl_MaxDatagramBytes :: u32
  dl_MaxFragments :: u16
  dl_MaxDescriptors :: u16
  dl_MaxDatagramAssemblies :: u32

record RepairLimits =
  rl_MaxAgeMS :: u32
  rl_MaxAttempts :: u16

record StreamLimits =
  sl_MaxBusinessStreams :: u32
  sl_MaxPendingAccepts :: u32
  sl_SessionReceiveBytes :: u32
  sl_StreamReceiveBytes :: u32
  sl_ControlReceiveReserve :: u32
  sl_MaxPendingOpens :: u32
  sl_MaxFrameBytes :: u32

record EpochLimits =
  el_MaxOldEpochs :: u16
  el_MaxMigrations :: u16
  el_GraceMS :: u32

record Profile =
  pf_Protocol :: Protocol
  pf_OfferedCaps :: Capabilities
  pf_RequiredCaps :: Capabilities
  pf_LayoutID :: u16
  pf_DataShards :: u8
  pf_ParityShards :: u8
  pf_Mux :: u16
  pf_Discovery :: u8
  pf_Scope :: u8
  pf_Payload :: PayloadLimits
  pf_Datagram :: DatagramLimits
  pf_Repair :: RepairLimits
  pf_Streams :: StreamLimits
  pf_Epochs :: EpochLimits
  pf_MaxPaths :: u16

record Advertisement =
  ad_Profile :: Profile
  ad_BootstrapPathID :: u16

datatype Role = Initiator | Responder | UnknownRole u8

record StreamSendLimits =
  ss_MaxOpenStreams :: u32
  ss_MaxPendingOpens :: u32
  ss_SessionBytes :: u32
  ss_StreamBytes :: u32

record SendLimits =
  sd_Datagram :: DatagramLimits
  sd_Streams :: StreamSendLimits

record DirectionLimits =
  dr_MaxUDPPayload :: u16
  dr_Datagram :: DatagramLimits
  dr_Streams :: StreamSendLimits
  dr_ControlReceiveReserve :: u32
  dr_BusinessSessionBytes :: u32

record Contract =
  ct_SelectedCaps :: Capabilities
  ct_ActiveCaps :: Capabilities
  ct_MaxPaths :: u16
  ct_BootstrapPathID :: u16
  ct_MuxFrameBytes :: u32
  ct_Repair :: RepairLimits
  ct_Epochs :: EpochLimits
  ct_client :: Profile
  ct_server :: Profile
  ct_valid :: bool

definition zeroDatagram :: DatagramLimits where
  "zeroDatagram = \<lparr>dl_DatagramWindow = 0, dl_GroupWindow = 0, dl_MaxDatagramBytes = 0, dl_MaxFragments = 0, dl_MaxDescriptors = 0,
     dl_MaxDatagramAssemblies = 0\<rparr>"

definition zeroRepair :: RepairLimits where
  "zeroRepair = \<lparr>rl_MaxAgeMS = 0, rl_MaxAttempts = 0\<rparr>"

definition zeroStreams :: StreamLimits where
  "zeroStreams = \<lparr>sl_MaxBusinessStreams = 0, sl_MaxPendingAccepts = 0, sl_SessionReceiveBytes = 0, sl_StreamReceiveBytes = 0,
     sl_ControlReceiveReserve = 0, sl_MaxPendingOpens = 0, sl_MaxFrameBytes = 0\<rparr>"

definition zeroStreamSend :: StreamSendLimits where
  "zeroStreamSend = \<lparr>ss_MaxOpenStreams = 0, ss_MaxPendingOpens = 0, ss_SessionBytes = 0, ss_StreamBytes = 0\<rparr>"

subsection \<open>validate.go\<close>

abbreviation (input) maxReceiveBytes :: u32 where "maxReceiveBytes \<equiv> 1073741824"
abbreviation (input) initialSmuxWindow :: u64 where "initialSmuxWindow \<equiv> 262144"

definition validateDatagram :: "DatagramLimits \<Rightarrow> negotiation_error option" where
  "validateDatagram d =
     (if dl_DatagramWindow d < 1 \<or> dl_DatagramWindow d > 65536 \<or> dl_GroupWindow d < 1 \<or> dl_GroupWindow d > 65536 \<or>
         dl_MaxDatagramBytes d < 1 \<or> dl_MaxDatagramBytes d > 16777216 \<or> dl_MaxFragments d < 1 \<or> dl_MaxFragments d > 4096 \<or>
         dl_MaxDescriptors d < 1 \<or> dl_MaxDescriptors d > 256 \<or> dl_MaxDatagramAssemblies d < 1 \<or>
         dl_MaxDatagramAssemblies d > dl_DatagramWindow d
      then Some ErrInvalid else None)"

definition validateStreams :: "StreamLimits \<Rightarrow> u16 \<Rightarrow> negotiation_error option" where
  "validateStreams s mux =
     (if sl_MaxPendingAccepts s < 1 \<or> sl_MaxPendingAccepts s > 65536 \<or> sl_SessionReceiveBytes s < 1 \<or>
         sl_SessionReceiveBytes s > maxReceiveBytes \<or> sl_StreamReceiveBytes s < 1 \<or> sl_StreamReceiveBytes s > sl_SessionReceiveBytes s
      then Some ErrInvalid
      else if mux = MuxOff then
        (if sl_MaxBusinessStreams s \<noteq> 0 \<or> sl_ControlReceiveReserve s \<noteq> 0 \<or> sl_MaxPendingOpens s \<noteq> 0 \<or> sl_MaxFrameBytes s \<noteq> 0
         then Some ErrInvalid else None)
      else if sl_MaxBusinessStreams s < 1 \<or> sl_MaxBusinessStreams s > 4096 \<or> sl_MaxPendingOpens s < 1 \<or> sl_MaxPendingOpens s > 128 \<or>
         sl_MaxFrameBytes s < 128 \<or> sl_MaxFrameBytes s > 65535 then Some ErrInvalid
      else
        let minimum = initialSmuxWindow + ucast (sl_MaxFrameBytes s)
        in if ucast (sl_StreamReceiveBytes s) < minimum \<or> ucast (sl_ControlReceiveReserve s) < minimum \<or>
              ucast (sl_ControlReceiveReserve s) + minimum > ucast (sl_SessionReceiveBytes s)
           then Some ErrInvalid else None)"

definition applicableCaps :: "Profile \<Rightarrow> Capabilities" where
  "applicableCaps p =
     (let caps = (if pf_Protocol p = DatagramProtocol then FragmentManifest OR Aggregation OR DatagramRepair OR GroupMigration
                  else if pf_Mux p = SmuxWire2 then NativeKCP OR KCPPacketPieces OR SmuxAdmission
                  else NativeKCP OR KCPPacketPieces);
          caps = (if pf_Discovery p = ProbeMTU then caps OR PLPMTUD else caps)
      in if pf_Scope p = CarrierBudget then caps OR PerCarrierBudget else caps)"

text \<open>The accumulated \<open>required\<close> capabilities of \<open>Validate\<close>.\<close>

definition requiredCaps :: "Profile \<Rightarrow> Capabilities" where
  "requiredCaps p =
     (let required = 0;
          required = (if pf_Discovery p = ProbeMTU then required OR PLPMTUD else required);
          required = (if pf_Scope p = CarrierBudget then required OR PerCarrierBudget else required);
          required = (if pf_Protocol p = DatagramProtocol then required OR FragmentManifest
                      else if pf_Discovery p = ProbeMTU \<or> pf_Scope p = CarrierBudget then required OR NativeKCP OR KCPPacketPieces
                      else required OR NativeKCP)
      in if pf_Mux p = SmuxWire2 then required OR SmuxAdmission else required)"

definition validate_mode :: "Profile \<Rightarrow> negotiation_error option" where
  "validate_mode p =
     (if pf_Protocol p = DatagramProtocol then
        (if pf_LayoutID p \<noteq> 1 \<or> pf_DataShards p = 0 \<or> pf_ParityShards p = 0 \<or> unat (pf_DataShards p) + unat (pf_ParityShards p) > 256
         then Some ErrInvalid
         else if pl_InnerKCPBytes (pf_Payload p) \<noteq> 0 \<or> pf_Mux p \<noteq> MuxOff \<or> pf_Streams p \<noteq> zeroStreams then Some ErrInvalid
         else validateDatagram (pf_Datagram p))
      else
        (if pf_LayoutID p \<noteq> 0 \<or> pf_DataShards p \<noteq> 0 \<or> pf_ParityShards p \<noteq> 0 \<or> pf_Datagram p \<noteq> zeroDatagram \<or>
            pl_InnerKCPBytes (pf_Payload p) \<noteq> 1500 then Some ErrInvalid
         else validateStreams (pf_Streams p) (pf_Mux p)))"

definition Validate :: "Profile \<Rightarrow> negotiation_error option" where
  "Validate p =
     (if pf_Protocol p \<noteq> DatagramProtocol \<and> pf_Protocol p \<noteq> KCP then Some ErrInvalid
      else if pf_Mux p > SmuxWire2 \<or> pf_Discovery p > ProbeMTU \<or> pf_Scope p > CarrierBudget then Some ErrInvalid
      else if pf_RequiredCaps p AND NOT KnownCapabilities \<noteq> 0 then Some ErrUnsupportedCapability
      else if pf_RequiredCaps p AND NOT (pf_OfferedCaps p) \<noteq> 0 then Some ErrInvalid
      else if pl_SendHardCap (pf_Payload p) < 512 \<or> pl_SendHardCap (pf_Payload p) > 65507 \<or> pl_ReceiveHardCap (pf_Payload p) < 512 \<or>
         pl_ReceiveHardCap (pf_Payload p) > 65507 \<or> pl_BootstrapBytes (pf_Payload p) \<noteq> 512 then Some ErrInvalid
      else if pf_MaxPaths p < 1 \<or> pf_MaxPaths p > 256 then Some ErrInvalid
      else if el_MaxOldEpochs (pf_Epochs p) < 1 \<or> el_MaxOldEpochs (pf_Epochs p) > 8 \<or> el_GraceMS (pf_Epochs p) < 100 \<or>
         el_GraceMS (pf_Epochs p) > 60000 then Some ErrInvalid
      else if (if pf_OfferedCaps p AND GroupMigration = 0 then el_MaxMigrations (pf_Epochs p) \<noteq> 0
               else el_MaxMigrations (pf_Epochs p) < 1 \<or> el_MaxMigrations (pf_Epochs p) > 2) then Some ErrInvalid
      else
        (case validate_mode p of
           Some err \<Rightarrow> Some err
         | None \<Rightarrow>
             if (if pf_RequiredCaps p AND DatagramRepair \<noteq> 0
                 then pf_Protocol p \<noteq> DatagramProtocol \<or> rl_MaxAgeMS (pf_Repair p) < 100 \<or> rl_MaxAgeMS (pf_Repair p) > 60000 \<or>
                      rl_MaxAttempts (pf_Repair p) < 1 \<or> rl_MaxAttempts (pf_Repair p) > 16
                 else pf_Repair p \<noteq> zeroRepair) then Some ErrInvalid
             else if pf_OfferedCaps p AND DatagramRepair \<noteq> pf_RequiredCaps p AND DatagramRepair then Some ErrInvalid
             else if pf_Mux p \<noteq> SmuxWire2 \<and> pf_OfferedCaps p AND SmuxAdmission \<noteq> 0 then Some ErrInvalid
             else if pf_RequiredCaps p AND requiredCaps p \<noteq> requiredCaps p then Some ErrInvalid
             else if pf_RequiredCaps p AND NOT (applicableCaps p) \<noteq> 0 then Some ErrInvalid
             else None))"

definition Advertisement_validate :: "Advertisement \<Rightarrow> negotiation_error option" where
  "Advertisement_validate a =
     (case Validate (ad_Profile a) of
        Some err \<Rightarrow> Some err
      | None \<Rightarrow>
          if ad_BootstrapPathID a < 1 \<or> ad_BootstrapPathID a > pf_MaxPaths (ad_Profile a) then Some ErrInvalid else None)"

subsection \<open>tlv.go\<close>

definition mandatoryLengths :: "nat list" where
  "mandatoryLengths = [1, 16, 2, 2, 2, 2, 8, 20, 8, 28, 8, 4]"

fun collect_tlvs :: "TLVType option \<Rightarrow> nat \<Rightarrow> bytes option list \<Rightarrow> TLV list \<Rightarrow> (negotiation_error, bytes option list) result" where
  "collect_tlvs previous bytes_so_far values [] = Inr values"
| "collect_tlvs previous bytes_so_far values (tlv # tlvs) =
     (let t = tlv_Type tlv; v = tlv_Value tlv
      in if (case previous of None \<Rightarrow> False | Some p \<Rightarrow> t \<le> p) then Inl ErrInvalid
         else if length v > MaxTLVBytes - 4 \<or> bytes_so_far > MaxTLVBytes - 4 - length v then Inl ErrInvalid
         else if t < TLVProtocol \<or> t > TLVPaths then
           (if t AND 0x8000 \<noteq> 0 then Inl ErrInvalid
            else collect_tlvs (Some t) (bytes_so_far + 4 + length v) values tlvs)
         else
           let index = unat (t - TLVProtocol)
           in if length v \<noteq> mandatoryLengths ! index then Inl ErrInvalid
              else collect_tlvs (Some t) (bytes_so_far + 4 + length v) (values[index := Some v]) tlvs)"

definition read_advertisement :: "bytes list \<Rightarrow> Advertisement" where
  "read_advertisement v =
     \<lparr>ad_Profile =
        \<lparr>pf_Protocol = v ! 0 ! 0, pf_OfferedCaps = be_get (slice 0 8 (v ! 1)), pf_RequiredCaps = be_get (slice 8 16 (v ! 1)),
         pf_LayoutID = be_get (slice 0 2 (v ! 2)), pf_DataShards = v ! 3 ! 0, pf_ParityShards = v ! 3 ! 1,
         pf_Mux = be_get (slice 0 2 (v ! 4)), pf_Discovery = v ! 5 ! 0, pf_Scope = v ! 5 ! 1,
         pf_Payload = \<lparr>pl_SendHardCap = be_get (slice 0 2 (v ! 6)), pl_ReceiveHardCap = be_get (slice 2 4 (v ! 6)),
           pl_BootstrapBytes = be_get (slice 4 6 (v ! 6)), pl_InnerKCPBytes = be_get (slice 6 8 (v ! 6))\<rparr>,
         pf_Datagram = \<lparr>dl_DatagramWindow = be_get (slice 0 4 (v ! 7)), dl_GroupWindow = be_get (slice 4 8 (v ! 7)),
           dl_MaxDatagramBytes = be_get (slice 8 12 (v ! 7)), dl_MaxFragments = be_get (slice 12 14 (v ! 7)),
           dl_MaxDescriptors = be_get (slice 14 16 (v ! 7)), dl_MaxDatagramAssemblies = be_get (slice 16 20 (v ! 7))\<rparr>,
         pf_Repair = \<lparr>rl_MaxAgeMS = be_get (slice 0 4 (v ! 8)), rl_MaxAttempts = be_get (slice 4 6 (v ! 8))\<rparr>,
         pf_Streams = \<lparr>sl_MaxBusinessStreams = be_get (slice 0 4 (v ! 9)), sl_MaxPendingAccepts = be_get (slice 4 8 (v ! 9)),
           sl_SessionReceiveBytes = be_get (slice 8 12 (v ! 9)), sl_StreamReceiveBytes = be_get (slice 12 16 (v ! 9)),
           sl_ControlReceiveReserve = be_get (slice 16 20 (v ! 9)), sl_MaxPendingOpens = be_get (slice 20 24 (v ! 9)),
           sl_MaxFrameBytes = be_get (slice 24 28 (v ! 9))\<rparr>,
         pf_Epochs = \<lparr>el_MaxOldEpochs = be_get (slice 0 2 (v ! 10)), el_MaxMigrations = be_get (slice 2 4 (v ! 10)),
           el_GraceMS = be_get (slice 4 8 (v ! 10))\<rparr>,
         pf_MaxPaths = be_get (slice 0 2 (v ! 11))\<rparr>,
      ad_BootstrapPathID = be_get (slice 2 4 (v ! 11))\<rparr>"

definition decodeAdvertisement :: "Handshake \<Rightarrow> PacketType \<Rightarrow> (negotiation_error, Advertisement) result" where
  "decodeAdvertisement message packetType =
     (if hd_Type (hs_Header message) \<noteq> packetType \<or> length (hs_TLVs message) < length mandatoryLengths \<or>
         length (hs_TLVs message) > MaxTLVs then Inl ErrInvalid
      else
        (case collect_tlvs None 0 (replicate (length mandatoryLengths) None) (hs_TLVs message) of
           Inl err \<Rightarrow> Inl err
         | Inr values \<Rightarrow>
             if None \<in> set values then Inl ErrInvalid
             else
               let v = map the values
               in if (be_get (slice 6 8 (v ! 8)) :: u16) \<noteq> 0 then Inl ErrInvalid
                  else
                    let a = read_advertisement v
                    in (case Advertisement_validate a of
                          Some err \<Rightarrow> Inl err
                        | None \<Rightarrow> Inr a)))"

definition DecodeHello :: "Handshake \<Rightarrow> (negotiation_error, Advertisement) result" where
  "DecodeHello message = decodeAdvertisement message TypeHello"

definition DecodeChallenge :: "Handshake \<Rightarrow> (negotiation_error, Advertisement) result" where
  "DecodeChallenge message = decodeAdvertisement message TypeChallenge"

definition tlv_values :: "Advertisement \<Rightarrow> bytes list" where
  "tlv_values a =
     (let p = ad_Profile a
      in [[pf_Protocol p],
          be_put 8 (pf_OfferedCaps p) @ be_put 8 (pf_RequiredCaps p),
          be_put 2 (pf_LayoutID p),
          [pf_DataShards p, pf_ParityShards p],
          be_put 2 (pf_Mux p),
          [pf_Discovery p, pf_Scope p],
          be_put 2 (pl_SendHardCap (pf_Payload p)) @ be_put 2 (pl_ReceiveHardCap (pf_Payload p)) @
            be_put 2 (pl_BootstrapBytes (pf_Payload p)) @ be_put 2 (pl_InnerKCPBytes (pf_Payload p)),
          be_put 4 (dl_DatagramWindow (pf_Datagram p)) @ be_put 4 (dl_GroupWindow (pf_Datagram p)) @
            be_put 4 (dl_MaxDatagramBytes (pf_Datagram p)) @ be_put 2 (dl_MaxFragments (pf_Datagram p)) @
            be_put 2 (dl_MaxDescriptors (pf_Datagram p)) @ be_put 4 (dl_MaxDatagramAssemblies (pf_Datagram p)),
          be_put 4 (rl_MaxAgeMS (pf_Repair p)) @ be_put 2 (rl_MaxAttempts (pf_Repair p)) @ [0, 0],
          be_put 4 (sl_MaxBusinessStreams (pf_Streams p)) @ be_put 4 (sl_MaxPendingAccepts (pf_Streams p)) @
            be_put 4 (sl_SessionReceiveBytes (pf_Streams p)) @ be_put 4 (sl_StreamReceiveBytes (pf_Streams p)) @
            be_put 4 (sl_ControlReceiveReserve (pf_Streams p)) @ be_put 4 (sl_MaxPendingOpens (pf_Streams p)) @
            be_put 4 (sl_MaxFrameBytes (pf_Streams p)),
          be_put 2 (el_MaxOldEpochs (pf_Epochs p)) @ be_put 2 (el_MaxMigrations (pf_Epochs p)) @ be_put 4 (el_GraceMS (pf_Epochs p)),
          be_put 2 (pf_MaxPaths p) @ be_put 2 (ad_BootstrapPathID a)])"

definition Advertisement_TLVs :: "Advertisement \<Rightarrow> (negotiation_error, TLV list) result" where
  "Advertisement_TLVs a =
     (case Advertisement_validate a of
        Some err \<Rightarrow> Inl err
      | None \<Rightarrow>
          Inr (map (\<lambda>i. \<lparr>tlv_Type = TLVProtocol + word_of_nat i, tlv_Value = tlv_values a ! i\<rparr>) [0..<length mandatoryLengths]))"

subsection \<open>select.go\<close>

definition Contract_Profiles :: "Contract \<Rightarrow> Role \<Rightarrow> (negotiation_error, Profile \<times> Profile) result" where
  "Contract_Profiles c role =
     (if \<not> ct_valid c \<or> (role \<noteq> Initiator \<and> role \<noteq> Responder) then Inl ErrInvalid
      else if role = Responder then Inr (ct_server c, ct_client c)
      else Inr (ct_client c, ct_server c))"

definition samePolicy :: "Profile \<Rightarrow> Profile \<Rightarrow> bool" where
  "samePolicy a b \<longleftrightarrow>
     pf_Protocol a = pf_Protocol b \<and> pf_LayoutID a = pf_LayoutID b \<and> pf_DataShards a = pf_DataShards b \<and>
     pf_ParityShards a = pf_ParityShards b \<and> pf_Mux a = pf_Mux b \<and> pf_Discovery a = pf_Discovery b \<and> pf_Scope a = pf_Scope b \<and>
     pf_RequiredCaps a AND DatagramRepair = pf_RequiredCaps b AND DatagramRepair"

definition Accept :: "Advertisement \<Rightarrow> Advertisement \<Rightarrow> (negotiation_error, Contract) result" where
  "Accept hello challenge =
     (case Advertisement_validate hello of
        Some err \<Rightarrow> Inl err
      | None \<Rightarrow>
          (case Advertisement_validate challenge of
             Some err \<Rightarrow> Inl err
           | None \<Rightarrow>
               let h = ad_Profile hello; c = ad_Profile challenge; selected = pf_OfferedCaps c
               in if \<not> samePolicy h c \<or> selected AND NOT KnownCapabilities \<noteq> 0 \<or> selected AND NOT (pf_OfferedCaps h) \<noteq> 0 \<or>
                     (pf_RequiredCaps h OR pf_RequiredCaps c) AND NOT selected \<noteq> 0 \<or>
                     ad_BootstrapPathID hello \<noteq> ad_BootstrapPathID challenge then Inl ErrIncompatible
                  else
                    let paths = min (pf_MaxPaths h) (pf_MaxPaths c)
                    in if ad_BootstrapPathID hello > paths \<or>
                          (pf_Discovery h = Fixed \<and> pf_Scope h = CarrierBudget \<and> pf_MaxPaths h > pf_MaxPaths c) then Inl ErrIncompatible
                       else
                         Inr \<lparr>ct_SelectedCaps = selected, ct_ActiveCaps = selected AND applicableCaps h, ct_MaxPaths = paths,
                              ct_BootstrapPathID = ad_BootstrapPathID hello,
                              ct_MuxFrameBytes = min (sl_MaxFrameBytes (pf_Streams h)) (sl_MaxFrameBytes (pf_Streams c)),
                              ct_Repair = \<lparr>rl_MaxAgeMS = min (rl_MaxAgeMS (pf_Repair h)) (rl_MaxAgeMS (pf_Repair c)),
                                rl_MaxAttempts = min (rl_MaxAttempts (pf_Repair h)) (rl_MaxAttempts (pf_Repair c))\<rparr>,
                              ct_Epochs = \<lparr>el_MaxOldEpochs = min (el_MaxOldEpochs (pf_Epochs h)) (el_MaxOldEpochs (pf_Epochs c)),
                                el_MaxMigrations = min (el_MaxMigrations (pf_Epochs h)) (el_MaxMigrations (pf_Epochs c)),
                                el_GraceMS = min (el_GraceMS (pf_Epochs h)) (el_GraceMS (pf_Epochs c))\<rparr>,
                              ct_client = h, ct_server = c, ct_valid = True\<rparr>))"

definition Select :: "Advertisement \<Rightarrow> Profile \<Rightarrow> (negotiation_error, Advertisement \<times> Contract) result" where
  "Select hello listener =
     (case Advertisement_validate hello of
        Some err \<Rightarrow> Inl err
      | None \<Rightarrow>
          (case Validate listener of
             Some err \<Rightarrow> Inl err
           | None \<Rightarrow>
               if \<not> samePolicy (ad_Profile hello) listener then Inl ErrIncompatible
               else
                 let selected = pf_OfferedCaps (ad_Profile hello) AND pf_OfferedCaps listener AND KnownCapabilities
                 in if (pf_RequiredCaps (ad_Profile hello) OR pf_RequiredCaps listener) AND NOT selected \<noteq> 0 then Inl ErrIncompatible
                    else
                      let profile = listener\<lparr>pf_OfferedCaps := selected\<rparr>;
                          profile = (if selected AND GroupMigration = 0
                                     then profile\<lparr>pf_Epochs := (pf_Epochs profile)\<lparr>el_MaxMigrations := 0\<rparr>\<rparr> else profile);
                          challenge = \<lparr>ad_Profile = profile, ad_BootstrapPathID = ad_BootstrapPathID hello\<rparr>
                      in (case Accept hello challenge of
                            Inl err \<Rightarrow> Inl err
                          | Inr contract \<Rightarrow> Inr (challenge, contract))))"

definition send_datagram :: "DatagramLimits \<Rightarrow> DatagramLimits \<Rightarrow> DatagramLimits" where
  "send_datagram a b =
     \<lparr>dl_DatagramWindow = min (dl_DatagramWindow a) (dl_DatagramWindow b), dl_GroupWindow = min (dl_GroupWindow a) (dl_GroupWindow b),
      dl_MaxDatagramBytes = min (dl_MaxDatagramBytes a) (dl_MaxDatagramBytes b), dl_MaxFragments = min (dl_MaxFragments a) (dl_MaxFragments b),
      dl_MaxDescriptors = min (dl_MaxDescriptors a) (dl_MaxDescriptors b),
      dl_MaxDatagramAssemblies = min (min (dl_MaxDatagramAssemblies a) (dl_MaxDatagramAssemblies b)) (min (dl_DatagramWindow a) (dl_DatagramWindow b))\<rparr>"

definition EffectiveSend :: "Contract \<Rightarrow> Role \<Rightarrow> SendLimits \<Rightarrow> (negotiation_error, DirectionLimits) result" where
  "EffectiveSend c role local =
     (if \<not> ct_valid c \<or> (role \<noteq> Initiator \<and> role \<noteq> Responder) then Inl ErrInvalid
      else
        let (self, peer) = (if role = Responder then (ct_server c, ct_client c) else (ct_client c, ct_server c));
            result = \<lparr>dr_MaxUDPPayload = min (pl_SendHardCap (pf_Payload self)) (pl_ReceiveHardCap (pf_Payload peer)),
                      dr_Datagram = zeroDatagram, dr_Streams = zeroStreamSend, dr_ControlReceiveReserve = 0, dr_BusinessSessionBytes = 0\<rparr>
        in if pf_Protocol self = DatagramProtocol then
             (case validateDatagram (sd_Datagram local) of
                Some err \<Rightarrow> Inl err
              | None \<Rightarrow>
                  if sd_Streams local \<noteq> zeroStreamSend then Inl ErrInvalid
                  else Inr (result\<lparr>dr_Datagram := send_datagram (sd_Datagram local) (pf_Datagram peer)\<rparr>))
           else
             let s = sd_Streams local; ps = pf_Streams peer
             in if sd_Datagram local \<noteq> zeroDatagram \<or> ss_SessionBytes s < 1 \<or> ss_SessionBytes s > maxReceiveBytes \<or> ss_StreamBytes s < 1 \<or>
                   ss_StreamBytes s > ss_SessionBytes s then Inl ErrInvalid
                else if (if pf_Mux self = MuxOff then ss_MaxOpenStreams s \<noteq> 0 \<or> ss_MaxPendingOpens s \<noteq> 0
                         else ss_MaxOpenStreams s < 1 \<or> ss_MaxOpenStreams s > 4096 \<or> ss_MaxPendingOpens s < 1 \<or> ss_MaxPendingOpens s > 128)
                  then Inl ErrInvalid
                else
                  let business = min (ss_SessionBytes s) (sl_SessionReceiveBytes ps - sl_ControlReceiveReserve ps)
                  in Inr (result\<lparr>dr_ControlReceiveReserve := sl_ControlReceiveReserve ps, dr_BusinessSessionBytes := business,
                        dr_Streams := \<lparr>ss_MaxOpenStreams = min (ss_MaxOpenStreams s) (sl_MaxBusinessStreams ps),
                          ss_MaxPendingOpens = min (min (ss_MaxPendingOpens s) (sl_MaxPendingOpens ps)) (sl_MaxPendingAccepts ps),
                          ss_SessionBytes = min (ss_SessionBytes s) (sl_SessionReceiveBytes ps),
                          ss_StreamBytes = min (min (ss_StreamBytes s) (sl_StreamReceiveBytes ps)) business\<rparr>\<rparr>))"

end
