(* ===== verification/NegotiationContract.thy ===== *)
theory NegotiationContract
  imports Negotiation Slices
begin

text \<open>
  The negotiated contract: advertisements survive their TLV encoding, listener and client end with the
  same contract, the selection covers what both require, and the limits of a sending direction respect
  the local ceilings and the peer's receive limits without wrap-around.
\<close>

subsection \<open>Capability sets\<close>

lemma caps_subset: "a AND NOT b = 0 \<longleftrightarrow> a AND b = (a :: u64)"
  by (auto simp: bit_eq_iff bit_simps)

lemma caps_or: "(a OR b) AND NOT s = 0 \<longleftrightarrow> a AND NOT s = 0 \<and> b AND NOT s = (0 :: u64)"
  by (auto simp: bit_eq_iff bit_simps)

subsection \<open>TLVs\<close>

lemma tlv_lengths: "map length (tlv_values a) = mandatoryLengths"
  by (simp add: tlv_values_def mandatoryLengths_def Let_def)

lemma tlvs_expand:
  "map (\<lambda>i. \<lparr>tlv_Type = (0x8001 :: u16) + word_of_nat i, tlv_Value = f i\<rparr>) [0..<length mandatoryLengths] =
    [\<lparr>tlv_Type = 0x8001, tlv_Value = f 0\<rparr>, \<lparr>tlv_Type = 0x8002, tlv_Value = f 1\<rparr>, \<lparr>tlv_Type = 0x8003, tlv_Value = f 2\<rparr>,
     \<lparr>tlv_Type = 0x8004, tlv_Value = f 3\<rparr>, \<lparr>tlv_Type = 0x8005, tlv_Value = f 4\<rparr>, \<lparr>tlv_Type = 0x8006, tlv_Value = f 5\<rparr>,
     \<lparr>tlv_Type = 0x8007, tlv_Value = f 6\<rparr>, \<lparr>tlv_Type = 0x8008, tlv_Value = f 7\<rparr>, \<lparr>tlv_Type = 0x8009, tlv_Value = f 8\<rparr>,
     \<lparr>tlv_Type = 0x800a, tlv_Value = f 9\<rparr>, \<lparr>tlv_Type = 0x800b, tlv_Value = f 10\<rparr>, \<lparr>tlv_Type = 0x800c, tlv_Value = f 11\<rparr>]"
  by (simp add: mandatoryLengths_def upt_rec eval_nat_numeral)

lemma collect_mandatory:
  assumes "map length [v0, v1, v2, v3, v4, v5, v6, v7, v8, v9, v10, v11] = mandatoryLengths"
  shows "collect_tlvs None 0 (replicate (length mandatoryLengths) None)
    [\<lparr>tlv_Type = 0x8001, tlv_Value = v0\<rparr>, \<lparr>tlv_Type = 0x8002, tlv_Value = v1\<rparr>, \<lparr>tlv_Type = 0x8003, tlv_Value = v2\<rparr>,
     \<lparr>tlv_Type = 0x8004, tlv_Value = v3\<rparr>, \<lparr>tlv_Type = 0x8005, tlv_Value = v4\<rparr>, \<lparr>tlv_Type = 0x8006, tlv_Value = v5\<rparr>,
     \<lparr>tlv_Type = 0x8007, tlv_Value = v6\<rparr>, \<lparr>tlv_Type = 0x8008, tlv_Value = v7\<rparr>, \<lparr>tlv_Type = 0x8009, tlv_Value = v8\<rparr>,
     \<lparr>tlv_Type = 0x800a, tlv_Value = v9\<rparr>, \<lparr>tlv_Type = 0x800b, tlv_Value = v10\<rparr>, \<lparr>tlv_Type = 0x800c, tlv_Value = v11\<rparr>] =
    Inr (map Some [v0, v1, v2, v3, v4, v5, v6, v7, v8, v9, v10, v11])"
proof -
  have r: "replicate (length mandatoryLengths) None = [None, None, None, None, None, None, None, None, None, None, None, None]"
    by (simp add: mandatoryLengths_def)
  show ?thesis unfolding r using assms by (simp add: mandatoryLengths_def Let_def)
qed

lemma read_values: "read_advertisement (tlv_values a) = a"
  by (simp add: read_advertisement_def tlv_values_def Let_def slice_def be_simps)

lemma check_mandatory:
  assumes "map length [v0, v1, v2, v3, v4, v5, v6, v7, v8, v9, v10, v11] = mandatoryLengths" "allZero (slice 6 8 v8)" "ty \<noteq> TypeReject"
  shows "check_tlvs ty None 0 0
    [\<lparr>tlv_Type = 0x8001, tlv_Value = v0\<rparr>, \<lparr>tlv_Type = 0x8002, tlv_Value = v1\<rparr>, \<lparr>tlv_Type = 0x8003, tlv_Value = v2\<rparr>,
     \<lparr>tlv_Type = 0x8004, tlv_Value = v3\<rparr>, \<lparr>tlv_Type = 0x8005, tlv_Value = v4\<rparr>, \<lparr>tlv_Type = 0x8006, tlv_Value = v5\<rparr>,
     \<lparr>tlv_Type = 0x8007, tlv_Value = v6\<rparr>, \<lparr>tlv_Type = 0x8008, tlv_Value = v7\<rparr>, \<lparr>tlv_Type = 0x8009, tlv_Value = v8\<rparr>,
     \<lparr>tlv_Type = 0x800a, tlv_Value = v9\<rparr>, \<lparr>tlv_Type = 0x800b, tlv_Value = v10\<rparr>, \<lparr>tlv_Type = 0x800c, tlv_Value = v11\<rparr>] = None"
  using assms by (simp add: mandatoryLengths_def Let_def tlvLength_def push_bit_eq_mult)

lemma tlv_values_list:
  "tlv_values a = [tlv_values a ! 0, tlv_values a ! 1, tlv_values a ! 2, tlv_values a ! 3, tlv_values a ! 4, tlv_values a ! 5,
     tlv_values a ! 6, tlv_values a ! 7, tlv_values a ! 8, tlv_values a ! 9, tlv_values a ! 10, tlv_values a ! 11]"
  by (simp add: tlv_values_def Let_def)

lemma decode_advertisement:
  assumes "Advertisement_TLVs a = Inr ts" "hs_TLVs m = ts" "hd_Type (hs_Header m) = ty"
  shows "decodeAdvertisement m ty = Inr a"
proof -
  let ?v = "\<lambda>i. tlv_values a ! i"
  have v: "Advertisement_validate a = None"
    and ts: "ts = map (\<lambda>i. \<lparr>tlv_Type = 0x8001 + word_of_nat i, tlv_Value = ?v i\<rparr>) [0..<length mandatoryLengths]"
    using assms(1) by (auto simp: Advertisement_TLVs_def split: option.splits)
  have lens: "map length [?v 0, ?v 1, ?v 2, ?v 3, ?v 4, ?v 5, ?v 6, ?v 7, ?v 8, ?v 9, ?v 10, ?v 11] = mandatoryLengths"
    using tlv_lengths [of a] by (simp only: tlv_values_list [symmetric])
  have z: "slice 6 8 (?v 8) = [0, 0]" by (simp add: tlv_values_def Let_def slice_def)
  have "collect_tlvs None 0 (replicate (length mandatoryLengths) None) ts = Inr (map Some (tlv_values a))"
    unfolding ts tlvs_expand collect_mandatory [OF lens] by (simp only: tlv_values_list [symmetric])
  moreover have "map the (map Some (tlv_values a)) = tlv_values a" by (simp add: comp_def)
  moreover have "length ts = 12" by (simp add: ts mandatoryLengths_def)
  moreover have "None \<notin> set (map Some (tlv_values a))" by auto
  moreover have "(be_get (slice 6 8 (?v 8)) :: u16) = 0" by (simp add: z be_get_def be_nat_def)
  ultimately show ?thesis
    using v assms(2,3) by (simp add: decodeAdvertisement_def Let_def read_values mandatoryLengths_def)
qed

text \<open>The TLVs of a valid advertisement pass the wire-level checks of a HELLO or CHALLENGE and decode to
  the same advertisement, all fields included.\<close>

theorem advertisement_round_trip:
  assumes "Advertisement_TLVs a = Inr ts" "hs_TLVs m = ts" "hd_Type (hs_Header m) = ty" "ty = TypeHello \<or> ty = TypeChallenge"
  shows "decodeAdvertisement m ty = Inr a \<and> validateTLVs ty ts = None"
proof -
  let ?v = "\<lambda>i. tlv_values a ! i"
  have ts: "ts = map (\<lambda>i. \<lparr>tlv_Type = 0x8001 + word_of_nat i, tlv_Value = ?v i\<rparr>) [0..<length mandatoryLengths]"
    using assms(1) by (auto simp: Advertisement_TLVs_def split: option.splits)
  have lens: "map length [?v 0, ?v 1, ?v 2, ?v 3, ?v 4, ?v 5, ?v 6, ?v 7, ?v 8, ?v 9, ?v 10, ?v 11] = mandatoryLengths"
    using tlv_lengths [of a] by (simp only: tlv_values_list [symmetric])
  have "slice 6 8 (?v 8) = [0, 0]" by (simp add: tlv_values_def Let_def slice_def)
  then have "check_tlvs ty None 0 0 ts = None"
    unfolding ts tlvs_expand by (intro check_mandatory [OF lens]) (use assms(4) in \<open>auto simp: allZero_def\<close>)
  moreover have "length ts = 12" by (simp add: ts mandatoryLengths_def)
  ultimately have "validateTLVs ty ts = None" using assms(4) by (auto simp: validateTLVs_def)
  then show ?thesis using decode_advertisement [OF assms(1-3)] by blast
qed

subsection \<open>Selection and acceptance\<close>

text \<open>The part of \<open>Validate\<close> that neither the offered capabilities nor the migration limit touch.\<close>

definition static_ok :: "Profile \<Rightarrow> bool" where
  "static_ok p \<longleftrightarrow>
     (pf_Protocol p = DatagramProtocol \<or> pf_Protocol p = KCP) \<and> pf_Mux p \<le> SmuxWire2 \<and> pf_Discovery p \<le> ProbeMTU \<and> pf_Scope p \<le> CarrierBudget \<and>
     pf_RequiredCaps p AND NOT KnownCapabilities = 0 \<and>
     512 \<le> pl_SendHardCap (pf_Payload p) \<and> pl_SendHardCap (pf_Payload p) \<le> 65507 \<and> 512 \<le> pl_ReceiveHardCap (pf_Payload p) \<and>
     pl_ReceiveHardCap (pf_Payload p) \<le> 65507 \<and> pl_BootstrapBytes (pf_Payload p) = 512 \<and> 1 \<le> pf_MaxPaths p \<and> pf_MaxPaths p \<le> 256 \<and>
     1 \<le> el_MaxOldEpochs (pf_Epochs p) \<and> el_MaxOldEpochs (pf_Epochs p) \<le> 8 \<and> 100 \<le> el_GraceMS (pf_Epochs p) \<and> el_GraceMS (pf_Epochs p) \<le> 60000 \<and>
     validate_mode p = None \<and>
     (if pf_RequiredCaps p AND DatagramRepair \<noteq> 0
      then pf_Protocol p = DatagramProtocol \<and> 100 \<le> rl_MaxAgeMS (pf_Repair p) \<and> rl_MaxAgeMS (pf_Repair p) \<le> 60000 \<and>
           1 \<le> rl_MaxAttempts (pf_Repair p) \<and> rl_MaxAttempts (pf_Repair p) \<le> 16
      else pf_Repair p = zeroRepair) \<and>
     pf_RequiredCaps p AND requiredCaps p = requiredCaps p \<and> pf_RequiredCaps p AND NOT (applicableCaps p) = 0"

definition migrations_ok :: "Capabilities \<Rightarrow> u16 \<Rightarrow> bool" where
  "migrations_ok caps n \<longleftrightarrow> (if caps AND GroupMigration = 0 then n = 0 else 1 \<le> n \<and> n \<le> 2)"

lemma one_le_word: "1 \<le> x \<longleftrightarrow> x \<noteq> (0 :: 'a::len word)"
  by (metis linorder_not_less word_less_1)

lemma Validate_iff:
  "Validate p = None \<longleftrightarrow>
     static_ok p \<and> pf_RequiredCaps p AND NOT (pf_OfferedCaps p) = 0 \<and> migrations_ok (pf_OfferedCaps p) (el_MaxMigrations (pf_Epochs p)) \<and>
     pf_OfferedCaps p AND DatagramRepair = pf_RequiredCaps p AND DatagramRepair \<and>
     (pf_Mux p = SmuxWire2 \<or> pf_OfferedCaps p AND SmuxAdmission = 0)"
  unfolding Validate_def static_ok_def migrations_ok_def by (auto simp: not_less not_le one_le_word split: option.splits if_splits)

lemma static_ok_update:
  "static_ok (p\<lparr>pf_OfferedCaps := s\<rparr>) = static_ok p"
  "static_ok (p\<lparr>pf_OfferedCaps := s, pf_Epochs := (pf_Epochs p)\<lparr>el_MaxMigrations := n\<rparr>\<rparr>) = static_ok p"
  by (simp_all add: static_ok_def validate_mode_def requiredCaps_def applicableCaps_def Let_def)

text \<open>The profile that \<open>Select\<close> puts into the CHALLENGE.\<close>

definition challenge_profile :: "Advertisement \<Rightarrow> Profile \<Rightarrow> Profile" where
  "challenge_profile hello listener =
     (let s = pf_OfferedCaps (ad_Profile hello) AND pf_OfferedCaps listener AND KnownCapabilities;
          p = listener\<lparr>pf_OfferedCaps := s\<rparr>
      in if s AND GroupMigration = 0 then p\<lparr>pf_Epochs := (pf_Epochs p)\<lparr>el_MaxMigrations := 0\<rparr>\<rparr> else p)"

lemma challenge_fields:
  "pf_OfferedCaps (challenge_profile hello listener) = pf_OfferedCaps (ad_Profile hello) AND pf_OfferedCaps listener AND KnownCapabilities"
  "pf_RequiredCaps (challenge_profile hello listener) = pf_RequiredCaps listener" "pf_MaxPaths (challenge_profile hello listener) = pf_MaxPaths listener"
  "static_ok (challenge_profile hello listener) = static_ok listener" "pf_Mux (challenge_profile hello listener) = pf_Mux listener"
  "samePolicy p (challenge_profile hello listener) = samePolicy p listener"
  "pf_Discovery (challenge_profile hello listener) = pf_Discovery listener" "pf_Scope (challenge_profile hello listener) = pf_Scope listener"
  unfolding challenge_profile_def Let_def by (simp_all add: static_ok_update samePolicy_def)

lemma repair_common: "(a AND b AND KnownCapabilities) AND DatagramRepair = (a AND DatagramRepair) AND (b AND DatagramRepair)"
proof -
  have "KnownCapabilities AND DatagramRepair = DatagramRepair" by simp
  then have k: "bit DatagramRepair n \<Longrightarrow> bit KnownCapabilities n" for n by (metis bit_and_iff)
  show ?thesis by (rule bit_word_eqI) (use k in \<open>auto simp: bit_and_iff\<close>)
qed

text \<open>The listener's CHALLENGE is always a valid profile again: restricting the offer to the common known
  capabilities can break none of its rules.\<close>

lemma challenge_valid:
  assumes h: "Validate (ad_Profile hello) = None" and l: "Validate listener = None" and pol: "samePolicy (ad_Profile hello) listener"
    and cov: "(pf_RequiredCaps (ad_Profile hello) OR pf_RequiredCaps listener) AND NOT (pf_OfferedCaps (ad_Profile hello) AND pf_OfferedCaps listener AND KnownCapabilities) = 0"
  shows "Validate (challenge_profile hello listener) = None"
proof -
  let ?H = "ad_Profile hello" and ?s = "pf_OfferedCaps (ad_Profile hello) AND pf_OfferedCaps listener AND KnownCapabilities"
  note H = h [unfolded Validate_iff] and L = l [unfolded Validate_iff]
  have req: "pf_RequiredCaps listener AND NOT ?s = 0" using cov by (simp only: caps_or)
  have "?s AND DatagramRepair = (pf_OfferedCaps ?H AND DatagramRepair) AND (pf_OfferedCaps listener AND DatagramRepair)"
    by (rule repair_common)
  then have rep: "?s AND DatagramRepair = pf_RequiredCaps listener AND DatagramRepair"
    using H L pol by (simp add: samePolicy_def)
  have mux: "pf_Mux listener = 1 \<or> ?s AND SmuxAdmission = 0"
  proof -
    have "?s AND SmuxAdmission = (pf_OfferedCaps listener AND SmuxAdmission) AND ?s" by (simp add: and.assoc and.commute and.left_commute)
    then show ?thesis using L by auto
  qed
  have mig: "migrations_ok ?s (el_MaxMigrations (pf_Epochs (challenge_profile hello listener)))"
  proof (cases "?s AND GroupMigration = 0")
    case True
    then show ?thesis by (simp add: challenge_profile_def Let_def migrations_ok_def)
  next
    case False
    have "?s AND GroupMigration = (pf_OfferedCaps listener AND GroupMigration) AND ?s" by (simp add: and.assoc and.commute and.left_commute)
    then have "pf_OfferedCaps listener AND GroupMigration \<noteq> 0" using False by auto
    then show ?thesis using False L by (simp add: challenge_profile_def Let_def migrations_ok_def)
  qed
  show ?thesis unfolding Validate_iff challenge_fields using L req rep mux mig by simp
qed

lemma Advertisement_valid_iff:
  "Advertisement_validate a = None \<longleftrightarrow> Validate (ad_Profile a) = None \<and> 1 \<le> ad_BootstrapPathID a \<and> ad_BootstrapPathID a \<le> pf_MaxPaths (ad_Profile a)"
  by (auto simp: Advertisement_validate_def not_less one_le_word split: option.splits)

lemma Select_eq:
  assumes "Advertisement_validate hello = None" "Validate listener = None"
  shows "Select hello listener =
    (if \<not> samePolicy (ad_Profile hello) listener \<or>
        (pf_RequiredCaps (ad_Profile hello) OR pf_RequiredCaps listener) AND NOT (pf_OfferedCaps (challenge_profile hello listener)) \<noteq> 0
     then Inl ErrIncompatible
     else map_sum id (Pair \<lparr>ad_Profile = challenge_profile hello listener, ad_BootstrapPathID = ad_BootstrapPathID hello\<rparr>)
            (Accept hello \<lparr>ad_Profile = challenge_profile hello listener, ad_BootstrapPathID = ad_BootstrapPathID hello\<rparr>))"
  using assms unfolding Select_def challenge_profile_def Let_def by (auto split: sum.split)

text \<open>C39: Every outcome of \<open>Select\<close> for a valid HELLO and a valid listener profile: different policies or
  requirements outside the common known capabilities are incompatible; a winning path beyond the
  listener's path count is reported as invalid, because the CHALLENGE built from it does not validate; a
  fixed per-carrier client with more paths than the listener is incompatible; everything else succeeds.\<close>

theorem select_outcomes:
  assumes h: "Advertisement_validate hello = None" and l: "Validate listener = None"
  shows "if \<not> samePolicy (ad_Profile hello) listener \<or>
      (pf_RequiredCaps (ad_Profile hello) OR pf_RequiredCaps listener) AND
        NOT (pf_OfferedCaps (ad_Profile hello) AND pf_OfferedCaps listener AND KnownCapabilities) \<noteq> 0
    then Select hello listener = Inl ErrIncompatible
    else if ad_BootstrapPathID hello > pf_MaxPaths listener then Select hello listener = Inl ErrInvalid
    else if pf_Discovery listener = Fixed \<and> pf_Scope listener = CarrierBudget \<and> pf_MaxPaths (ad_Profile hello) > pf_MaxPaths listener
    then Select hello listener = Inl ErrIncompatible
    else \<exists>challenge contract. Select hello listener = Inr (challenge, contract)"
proof -
  let ?H = "ad_Profile hello" and ?c = "challenge_profile hello listener"
  let ?a = "\<lparr>ad_Profile = ?c, ad_BootstrapPathID = ad_BootstrapPathID hello\<rparr>"
  note eq = Select_eq [OF h l, unfolded challenge_fields]
  have H: "Validate ?H = None" "1 \<le> ad_BootstrapPathID hello" "ad_BootstrapPathID hello \<le> pf_MaxPaths ?H"
    using h by (simp_all add: Advertisement_valid_iff)
  show ?thesis
  proof (cases "samePolicy ?H listener \<and> (pf_RequiredCaps ?H OR pf_RequiredCaps listener) AND
      NOT (pf_OfferedCaps ?H AND pf_OfferedCaps listener AND KnownCapabilities) = 0")
    case True
    then have pol: "samePolicy ?H listener" and cov: "(pf_RequiredCaps ?H OR pf_RequiredCaps listener) AND
      NOT (pf_OfferedCaps ?H AND pf_OfferedCaps listener AND KnownCapabilities) = 0" by simp_all
    have v: "Validate ?c = None" by (rule challenge_valid [OF H(1) l pol cov])
    then have va: "Advertisement_validate ?a = (if ad_BootstrapPathID hello > pf_MaxPaths listener then Some ErrInvalid else None)"
      using H(2) by (auto simp: Advertisement_validate_def challenge_fields one_le_word)
    have sub: "(x AND y AND k) AND NOT k = 0" "(x AND y AND k) AND NOT x = 0" for x y k :: u64
      by (auto simp: bit_eq_iff bit_simps)
    have d: "pf_Discovery ?H = pf_Discovery listener" "pf_Scope ?H = pf_Scope listener" using pol by (simp_all add: samePolicy_def)
    show ?thesis
    proof (cases "ad_BootstrapPathID hello > pf_MaxPaths listener")
      case bad: True
      then show ?thesis using True eq va h by (simp add: Accept_def)
    next
      case False
      have "\<not> ad_BootstrapPathID hello > min (pf_MaxPaths ?H) (pf_MaxPaths listener)" using False H(3) by (simp add: not_less)
      then show ?thesis
        using True False eq va h d sub(1) [of "pf_OfferedCaps ?H" "pf_OfferedCaps listener" KnownCapabilities] sub(2) [of "pf_OfferedCaps ?H"]
        by (simp add: Accept_def Let_def challenge_fields)
    qed
  qed (use eq in auto)
qed

lemma Accept_cases:
  assumes "Accept hello challenge = Inr c"
  shows "Advertisement_validate hello = None" "Advertisement_validate challenge = None" "samePolicy (ad_Profile hello) (ad_Profile challenge)"
    "ct_SelectedCaps c = pf_OfferedCaps (ad_Profile challenge)"
    "(pf_RequiredCaps (ad_Profile hello) OR pf_RequiredCaps (ad_Profile challenge)) AND NOT (ct_SelectedCaps c) = 0"
    "ct_ActiveCaps c = ct_SelectedCaps c AND applicableCaps (ad_Profile hello)"
    "ct_MaxPaths c = min (pf_MaxPaths (ad_Profile hello)) (pf_MaxPaths (ad_Profile challenge))"
    "ct_BootstrapPathID c = ad_BootstrapPathID hello" "ad_BootstrapPathID hello \<le> ct_MaxPaths c"
    "ct_client c = ad_Profile hello" "ct_server c = ad_Profile challenge" "ct_valid c"
    "el_MaxOldEpochs (ct_Epochs c) = min (el_MaxOldEpochs (pf_Epochs (ad_Profile hello))) (el_MaxOldEpochs (pf_Epochs (ad_Profile challenge)))"
    "el_MaxMigrations (ct_Epochs c) = min (el_MaxMigrations (pf_Epochs (ad_Profile hello))) (el_MaxMigrations (pf_Epochs (ad_Profile challenge)))"
    "rl_MaxAgeMS (ct_Repair c) = min (rl_MaxAgeMS (pf_Repair (ad_Profile hello))) (rl_MaxAgeMS (pf_Repair (ad_Profile challenge)))"
    "rl_MaxAttempts (ct_Repair c) = min (rl_MaxAttempts (pf_Repair (ad_Profile hello))) (rl_MaxAttempts (pf_Repair (ad_Profile challenge)))"
    "el_GraceMS (ct_Epochs c) = min (el_GraceMS (pf_Epochs (ad_Profile hello))) (el_GraceMS (pf_Epochs (ad_Profile challenge)))"
    "ct_MuxFrameBytes c = min (sl_MaxFrameBytes (pf_Streams (ad_Profile hello))) (sl_MaxFrameBytes (pf_Streams (ad_Profile challenge)))"
  using assms unfolding Accept_def Let_def by (auto simp: not_less split: option.splits if_splits)

lemma challenge_bounds:
  "pf_Streams (challenge_profile hello listener) = pf_Streams listener" "pf_Repair (challenge_profile hello listener) = pf_Repair listener"
  "el_MaxOldEpochs (pf_Epochs (challenge_profile hello listener)) = el_MaxOldEpochs (pf_Epochs listener)"
  "el_GraceMS (pf_Epochs (challenge_profile hello listener)) = el_GraceMS (pf_Epochs listener)"
  "el_MaxMigrations (pf_Epochs (challenge_profile hello listener)) =
     (if pf_OfferedCaps (ad_Profile hello) AND pf_OfferedCaps listener AND KnownCapabilities AND GroupMigration = 0 then 0
      else el_MaxMigrations (pf_Epochs listener))"
  by (simp_all add: challenge_profile_def Let_def and.assoc)

text \<open>C10: When the listener selects a contract, its CHALLENGE can be encoded, the client decodes the same
  CHALLENGE from those TLVs and its \<open>Accept\<close> yields the same contract. The selected capabilities are the
  common known ones and cover what both sides require. Every bound of the contract is the smaller of the
  client's and the listener's: paths, mux frame bytes, repair age and attempts, old epochs, grace time and
  migrations, the last being zero when group migration was not selected. The winning path is within the
  path bound, and each role sees its own and the peer's profile.\<close>

theorem negotiation_agreement:
  assumes sel: "Select hello listener = Inr (challenge, c)"
  shows "\<exists>ts. Advertisement_TLVs challenge = Inr ts \<and>
    (\<forall>m. hs_TLVs m = ts \<and> hd_Type (hs_Header m) = TypeChallenge \<longrightarrow> DecodeChallenge m = Inr challenge) \<and>
    Accept hello challenge = Inr c \<and>
    ct_SelectedCaps c = pf_OfferedCaps (ad_Profile hello) AND pf_OfferedCaps listener AND KnownCapabilities \<and>
    (pf_RequiredCaps (ad_Profile hello) OR pf_RequiredCaps listener) AND NOT (ct_SelectedCaps c) = 0 \<and>
    1 \<le> ct_BootstrapPathID c \<and> ct_BootstrapPathID c \<le> ct_MaxPaths c \<and>
    ct_MaxPaths c = min (pf_MaxPaths (ad_Profile hello)) (pf_MaxPaths listener) \<and>
    ct_MuxFrameBytes c = min (sl_MaxFrameBytes (pf_Streams (ad_Profile hello))) (sl_MaxFrameBytes (pf_Streams listener)) \<and>
    ct_Repair c = \<lparr>rl_MaxAgeMS = min (rl_MaxAgeMS (pf_Repair (ad_Profile hello))) (rl_MaxAgeMS (pf_Repair listener)),
      rl_MaxAttempts = min (rl_MaxAttempts (pf_Repair (ad_Profile hello))) (rl_MaxAttempts (pf_Repair listener))\<rparr> \<and>
    ct_Epochs c = \<lparr>el_MaxOldEpochs = min (el_MaxOldEpochs (pf_Epochs (ad_Profile hello))) (el_MaxOldEpochs (pf_Epochs listener)),
      el_MaxMigrations = (if ct_SelectedCaps c AND GroupMigration = 0 then 0
        else min (el_MaxMigrations (pf_Epochs (ad_Profile hello))) (el_MaxMigrations (pf_Epochs listener))),
      el_GraceMS = min (el_GraceMS (pf_Epochs (ad_Profile hello))) (el_GraceMS (pf_Epochs listener))\<rparr> \<and>
    Contract_Profiles c Initiator = Inr (ad_Profile hello, ad_Profile challenge) \<and>
    Contract_Profiles c Responder = Inr (ad_Profile challenge, ad_Profile hello)"
proof -
  have h: "Advertisement_validate hello = None" and l: "Validate listener = None"
    using sel by (auto simp: Select_def split: option.splits)
  have ch: "challenge = \<lparr>ad_Profile = challenge_profile hello listener, ad_BootstrapPathID = ad_BootstrapPathID hello\<rparr>"
    and acc: "Accept hello challenge = Inr c"
    using sel unfolding Select_eq [OF h l] by (auto split: if_splits sum.splits simp: map_sum_def)
  note A = Accept_cases [OF acc]
  obtain ts where ts: "Advertisement_TLVs challenge = Inr ts" using A(2) by (simp add: Advertisement_TLVs_def)
  have "DecodeChallenge m = Inr challenge" if "hs_TLVs m = ts" "hd_Type (hs_Header m) = 2" for m
    using decode_advertisement [OF ts that] by (simp add: DecodeChallenge_def)
  moreover have "1 \<le> ad_BootstrapPathID hello" using h by (simp add: Advertisement_valid_iff)
  ultimately show ?thesis
    using ts acc A by (intro exI [of _ ts]) (simp add: ch challenge_fields challenge_bounds Contract_Profiles_def and.assoc)
qed


subsection \<open>Sending limits\<close>

definition role_self :: "Contract \<Rightarrow> Role \<Rightarrow> Profile" where
  "role_self c role = (if role = Responder then ct_server c else ct_client c)"

definition role_peer :: "Contract \<Rightarrow> Role \<Rightarrow> Profile" where
  "role_peer c role = (if role = Responder then ct_client c else ct_server c)"

lemma accepted_profiles:
  assumes "Accept hello challenge = Inr c"
  shows "Validate (role_self c role) = None" "Validate (role_peer c role) = None" "pf_Protocol (role_self c role) = pf_Protocol (role_peer c role)"
    "pf_Mux (role_self c role) = pf_Mux (role_peer c role)"
  using Accept_cases(1-3,10,11) [OF assms] by (auto simp: role_self_def role_peer_def Advertisement_valid_iff samePolicy_def)

lemma send_datagram_valid:
  "validateDatagram a = None \<Longrightarrow> validateDatagram b = None \<Longrightarrow> validateDatagram (send_datagram a b) = None"
  by (auto simp: validateDatagram_def send_datagram_def not_less one_le_word min_def split: if_splits)

lemma reserve_fits:
  assumes "validateStreams s mux = None"
  shows "unat (sl_ControlReceiveReserve s) < unat (sl_SessionReceiveBytes s)"
proof (cases "mux = MuxOff")
  case True
  then show ?thesis using assms by (auto simp: validateStreams_def one_le_word unat_gt_0 split: if_splits)
next
  case False
  let ?m = "262144 + ucast (sl_MaxFrameBytes s) :: u64"
  have b: "unat (sl_MaxFrameBytes s) \<le> 65535" and r: "\<not> ucast (sl_ControlReceiveReserve s) + ?m > (ucast (sl_SessionReceiveBytes s) :: u64)"
    using assms False by (auto simp: validateStreams_def Let_def word_le_nat_alt not_less split: if_splits)
  have m: "unat ?m = 262144 + unat (sl_MaxFrameBytes s)" using b by (simp add: unat_word_ariths)
  have "unat (ucast (sl_ControlReceiveReserve s) + ?m) = unat (sl_ControlReceiveReserve s) + 262144 + unat (sl_MaxFrameBytes s)"
    using b unat_less_u32 [of "sl_ControlReceiveReserve s"] by (simp add: unat_word_ariths m)
  then show ?thesis using r by (simp add: word_less_nat_alt)
qed

lemma Validate_modes:
  assumes "Validate p = None"
  shows "pf_Protocol p = DatagramProtocol \<Longrightarrow> validateDatagram (pf_Datagram p) = None"
    "pf_Protocol p \<noteq> DatagramProtocol \<Longrightarrow> validateStreams (pf_Streams p) (pf_Mux p) = None"
    "512 \<le> pl_SendHardCap (pf_Payload p)" "512 \<le> pl_ReceiveHardCap (pf_Payload p)"
  using assms by (auto simp: Validate_iff static_ok_def validate_mode_def split: if_splits)

text \<open>The limits of a sending direction under an accepted contract: the UDP ceiling is at least the
  bootstrap size and within both hard caps; in Datagram mode the result is again a valid set of limits,
  bounded by the local sender ceilings and by the peer's receive limits; in KCP mode the business bytes
  are positive and, with the peer's control reserve, fit the peer's session receive capacity without
  wrap-around, and one stream never exceeds them.\<close>

theorem effective_send_bounds:
  assumes acc: "Accept hello challenge = Inr c" and eff: "EffectiveSend c role local = Inr d"
  shows "512 \<le> dr_MaxUDPPayload d \<and> dr_MaxUDPPayload d \<le> pl_SendHardCap (pf_Payload (role_self c role)) \<and>
    dr_MaxUDPPayload d \<le> pl_ReceiveHardCap (pf_Payload (role_peer c role)) \<and>
    (if pf_Protocol (role_self c role) = DatagramProtocol
     then validateDatagram (dr_Datagram d) = None \<and> dr_Streams d = zeroStreamSend \<and>
       dl_DatagramWindow (dr_Datagram d) \<le> dl_DatagramWindow (sd_Datagram local) \<and>
       dl_DatagramWindow (dr_Datagram d) \<le> dl_DatagramWindow (pf_Datagram (role_peer c role)) \<and>
       dl_MaxDatagramBytes (dr_Datagram d) \<le> dl_MaxDatagramBytes (sd_Datagram local) \<and>
       dl_MaxDatagramBytes (dr_Datagram d) \<le> dl_MaxDatagramBytes (pf_Datagram (role_peer c role)) \<and>
       dl_MaxDatagramAssemblies (dr_Datagram d) \<le> dl_DatagramWindow (dr_Datagram d)
     else dr_Datagram d = zeroDatagram \<and> 0 < unat (dr_BusinessSessionBytes d) \<and>
       unat (dr_BusinessSessionBytes d) + unat (dr_ControlReceiveReserve d) \<le> unat (sl_SessionReceiveBytes (pf_Streams (role_peer c role))) \<and>
       dr_BusinessSessionBytes d \<le> ss_SessionBytes (sd_Streams local) \<and>
       ss_StreamBytes (dr_Streams d) \<le> dr_BusinessSessionBytes d \<and>
       ss_StreamBytes (dr_Streams d) \<le> sl_StreamReceiveBytes (pf_Streams (role_peer c role)) \<and>
       ss_MaxPendingOpens (dr_Streams d) \<le> sl_MaxPendingAccepts (pf_Streams (role_peer c role)))"
proof -
  define self peer where "self = role_self c role" and "peer = role_peer c role"
  note P = accepted_profiles [OF acc, of role, folded self_def peer_def]
  note S = Validate_modes [OF P(1)] and R = Validate_modes [OF P(2)]
  have rl: "ct_valid c" "role = Initiator \<or> role = Responder" using eff by (auto simp: EffectiveSend_def split: if_splits)
  have pair: "(if role = Responder then (ct_server c, ct_client c) else (ct_client c, ct_server c)) = (self, peer)"
    by (simp add: self_def peer_def role_self_def role_peer_def)
  note E = eff [unfolded EffectiveSend_def pair Let_def prod.case]
  show ?thesis
  proof (cases "pf_Protocol self = DatagramProtocol")
    case True
    then have v: "validateDatagram (sd_Datagram local) = None" and d: "dr_Datagram d = send_datagram (sd_Datagram local) (pf_Datagram peer)"
      "dr_Streams d = zeroStreamSend" "dr_MaxUDPPayload d = min (pl_SendHardCap (pf_Payload self)) (pl_ReceiveHardCap (pf_Payload peer))"
      using E rl by (auto split: option.splits if_splits)
    have "validateDatagram (dr_Datagram d) = None" unfolding d(1) using True P(3) R(1) v send_datagram_valid by simp
    then show ?thesis unfolding self_def [symmetric] peer_def [symmetric]
      using True S(3) R(4) by (simp add: d) (simp add: send_datagram_def min.coboundedI2)
  next
    case False
    let ?s = "sd_Streams local" and ?ps = "pf_Streams peer"
    have d: "dr_Datagram d = zeroDatagram" "dr_MaxUDPPayload d = min (pl_SendHardCap (pf_Payload self)) (pl_ReceiveHardCap (pf_Payload peer))"
      "dr_ControlReceiveReserve d = sl_ControlReceiveReserve ?ps"
      "dr_BusinessSessionBytes d = min (ss_SessionBytes ?s) (sl_SessionReceiveBytes ?ps - sl_ControlReceiveReserve ?ps)"
      "ss_StreamBytes (dr_Streams d) = min (min (ss_StreamBytes ?s) (sl_StreamReceiveBytes ?ps)) (dr_BusinessSessionBytes d)"
      "ss_MaxPendingOpens (dr_Streams d) = min (min (ss_MaxPendingOpens ?s) (sl_MaxPendingOpens ?ps)) (sl_MaxPendingAccepts ?ps)"
      and pos: "ss_SessionBytes ?s \<noteq> 0"
      using E rl False by (auto split: if_splits)
    have lt: "unat (sl_ControlReceiveReserve ?ps) < unat (sl_SessionReceiveBytes ?ps)"
      using reserve_fits R(2) False P(3) by simp
    then have sub: "unat (sl_SessionReceiveBytes ?ps - sl_ControlReceiveReserve ?ps) = unat (sl_SessionReceiveBytes ?ps) - unat (sl_ControlReceiveReserve ?ps)"
      by (simp add: unat_sub word_le_nat_alt)
    have bus: "unat (dr_BusinessSessionBytes d) = min (unat (ss_SessionBytes ?s)) (unat (sl_SessionReceiveBytes ?ps) - unat (sl_ControlReceiveReserve ?ps))"
      unfolding d(4) sub [symmetric] by (simp add: min_def word_le_nat_alt)
    have "0 < unat (dr_BusinessSessionBytes d)"
      "unat (dr_BusinessSessionBytes d) + unat (dr_ControlReceiveReserve d) \<le> unat (sl_SessionReceiveBytes ?ps)"
      using bus lt pos by (auto simp: unat_gt_0 d(3))
    moreover have "512 \<le> dr_MaxUDPPayload d" using S(3) R(4) by (simp add: d(2))
    ultimately show ?thesis unfolding self_def [symmetric] peer_def [symmetric]
      using False d by (simp add: min.coboundedI1 min.coboundedI2)
  qed
qed

subsection \<open>Examples\<close>

definition example_profile :: Profile where
  "example_profile = \<lparr>pf_Protocol = 1, pf_OfferedCaps = 259, pf_RequiredCaps = 1, pf_LayoutID = 1, pf_DataShards = 4, pf_ParityShards = 2,
     pf_Mux = 0, pf_Discovery = 0, pf_Scope = 0,
     pf_Payload = \<lparr>pl_SendHardCap = 1400, pl_ReceiveHardCap = 1300, pl_BootstrapBytes = 512, pl_InnerKCPBytes = 0\<rparr>,
     pf_Datagram = \<lparr>dl_DatagramWindow = 64, dl_GroupWindow = 32, dl_MaxDatagramBytes = 9000, dl_MaxFragments = 16, dl_MaxDescriptors = 8,
       dl_MaxDatagramAssemblies = 20\<rparr>,
     pf_Repair = zeroRepair, pf_Streams = zeroStreams, pf_Epochs = \<lparr>el_MaxOldEpochs = 2, el_MaxMigrations = 2, el_GraceMS = 500\<rparr>,
     pf_MaxPaths = 3\<rparr>"

definition example_offer :: Advertisement where
  "example_offer = \<lparr>ad_Profile = example_profile, ad_BootstrapPathID = 2\<rparr>"

definition example_listener :: Profile where
  "example_listener = example_profile\<lparr>pf_OfferedCaps := 3, pf_Epochs := \<lparr>el_MaxOldEpochs = 1, el_MaxMigrations = 0, el_GraceMS = 900\<rparr>, pf_MaxPaths := 2\<rparr>"

lemma example_offer_valid: "Advertisement_validate example_offer = None" "Validate example_listener = None"
  by code_simp+

lemma example_select: "\<exists>challenge c. Select example_offer example_listener = Inr (challenge, c)"
proof -
  have "fst (case Select example_offer example_listener of Inr _ \<Rightarrow> (True, True) | Inl _ \<Rightarrow> (False, False))" by code_simp
  then show ?thesis by (cases "Select example_offer example_listener") auto
qed

theorem advertisement_round_trip_witness:
  "\<exists>ts. Advertisement_TLVs example_offer = Inr ts \<and>
     decodeAdvertisement \<lparr>hs_Header = \<lparr>hd_Type = 1, hd_SessionID = 5\<rparr>, hs_ClientNonce = 1, hs_ServerNonce = 0, hs_TranscriptDigest = 0,
       hs_ReturnPathToken = 0, hs_TLVs = ts\<rparr> 1 = Inr example_offer \<and> validateTLVs 1 ts = None"
proof -
  obtain ts where "Advertisement_TLVs example_offer = Inr ts" using example_offer_valid(1) by (simp add: Advertisement_TLVs_def)
  from advertisement_round_trip [OF this, of "\<lparr>hs_Header = \<lparr>hd_Type = 1, hd_SessionID = 5\<rparr>, hs_ClientNonce = 1, hs_ServerNonce = 0,
      hs_TranscriptDigest = 0, hs_ReturnPathToken = 0, hs_TLVs = ts\<rparr>" 1] this
  show ?thesis by auto
qed

theorem select_outcomes_witness:
  "Select (example_offer\<lparr>ad_BootstrapPathID := 3\<rparr>) example_listener = Inl ErrInvalid \<and>
   (\<exists>challenge c. Select example_offer example_listener = Inr (challenge, c))"
proof -
  have a: "Advertisement_validate (example_offer\<lparr>ad_BootstrapPathID := 3\<rparr>) = None" by code_simp
  have b: "samePolicy (ad_Profile (example_offer\<lparr>ad_BootstrapPathID := 3\<rparr>)) example_listener"
    "(pf_RequiredCaps (ad_Profile (example_offer\<lparr>ad_BootstrapPathID := 3\<rparr>)) OR pf_RequiredCaps example_listener) AND
        NOT (pf_OfferedCaps (ad_Profile (example_offer\<lparr>ad_BootstrapPathID := 3\<rparr>)) AND pf_OfferedCaps example_listener AND KnownCapabilities) = 0"
    "ad_BootstrapPathID (example_offer\<lparr>ad_BootstrapPathID := 3\<rparr>) > pf_MaxPaths example_listener" by code_simp+
  show ?thesis using select_outcomes [OF a example_offer_valid(2)] b example_select by auto
qed

theorem negotiation_agreement_witness:
  "\<exists>challenge c. Select example_offer example_listener = Inr (challenge, c) \<and> Accept example_offer challenge = Inr c \<and> ct_SelectedCaps c = 3"
proof -
  obtain challenge c where s: "Select example_offer example_listener = Inr (challenge, c)" using example_select by blast
  have "pf_OfferedCaps (ad_Profile example_offer) AND pf_OfferedCaps example_listener AND KnownCapabilities = 3" by code_simp
  then show ?thesis using negotiation_agreement [OF s] s by auto
qed

theorem effective_send_bounds_witness:
  "\<exists>challenge c d. Accept example_offer challenge = Inr c \<and>
     EffectiveSend c Responder \<lparr>sd_Datagram = pf_Datagram example_profile, sd_Streams = zeroStreamSend\<rparr> = Inr d \<and> 512 \<le> dr_MaxUDPPayload d"
proof -
  obtain challenge c where s: "Select example_offer example_listener = Inr (challenge, c)" using example_select by blast
  then have acc: "Accept example_offer challenge = Inr c" by (auto simp: Select_def Let_def split: option.splits if_splits sum.splits)
  have "pf_Protocol (role_self c Responder) = 1"
    using accepted_profiles(3) [OF acc, of Responder] Accept_cases(10) [OF acc]
    by (simp add: role_peer_def example_offer_def example_profile_def)
  moreover have "validateDatagram (pf_Datagram example_profile) = None" by code_simp
  ultimately obtain d where "EffectiveSend c Responder \<lparr>sd_Datagram = pf_Datagram example_profile, sd_Streams = zeroStreamSend\<rparr> = Inr d"
    using Accept_cases(12) [OF acc] by (simp add: EffectiveSend_def Let_def role_self_def)
  from effective_send_bounds [OF acc this] this acc show ?thesis by blast
qed


end
