(* ===== verification/Reassembly.thy ===== *)
theory Reassembly
  imports RecvWindow Assoc CreditUse FecGroup
begin

text \<open>
  The v2 datagram reassembly (\<^verbatim>\<open>src/internal/reassemblyv2/reassembly.go\<close>): fragments of decoded FEC
  groups are collected into original datagrams under one session's credit, with a terminal history
  (\<open>RecvWindow\<close>) and a deadline list threaded through the pending assemblies. An operation is a function
  on the receiver and the credit ledger.

  The pointer \<open>*assembly\<close> of a pending datagram is its key in the \<open>pending\<close> map; an assembly that is
  planned but not admitted yet is a value. A nil \<open>*Receiver\<close> behaves as the zero value, whose window has
  span zero. A \<open>time.Time\<close> is an integer number of nanoseconds, \<open>None\<close> for its zero value; the clock
  reading is an argument as in the source. The owner's receive lock makes every operation atomic.
\<close>

subsection \<open>Types\<close>

datatype reassembly_error = ErrInvalid | ErrClosed | CreditError credit_error

record Limits =
  rl_MaxDatagrams :: int
  rl_MaxDatagramBytes :: int
  rl_MaxFragments :: int
  rl_Span :: u32
  rl_Timeout :: int

record interval =
  iv_start :: u32
  iv_end :: u32

abbreviation (input) intervalBytes :: u64 where "intervalBytes \<equiv> 8"
abbreviation (input) deadlineLinkBytes :: u64 where "deadlineLinkBytes \<equiv> 16"

record assembly =
  as_total :: u32
  as_admitted :: int
  as_data :: bytes
  as_ranges :: "interval list"
  as_received :: u32
  as_lease :: handle
  as_previous :: u64
  as_next :: u64

record Receiver =
  rv_scope :: handle
  rv_limits :: Limits
  rv_window :: Window
  rv_windowLease :: handle
  rv_pending :: "(u64 \<times> assembly) list"
  rv_head :: u64
  rv_tail :: u64
  rv_last :: int
  rv_haveTime :: bool
  rv_closed :: bool

record datagramState =
  dg_id :: u64
  dg_data :: bytes
  dg_lease :: handle

text \<open>A \<open>*Datagram\<close> is \<open>None\<close> when it or its state is nil.\<close>

type_synonym Datagram = "datagramState option"

record Snapshot =
  sp_Pending :: int
  sp_History :: recv_Snapshot

subsection \<open>Construction\<close>

definition nilWindow :: Window where
  "nilWindow = \<lparr>win_span = 0, win_highest = 0, win_completed = [], win_expired = [], win_completedCount = 0,
     win_expiredCount = 0, win_closed = False\<rparr>"

definition RequiredInitialBytes :: "Limits \<Rightarrow> (reassembly_error, u64) result" where
  "RequiredInitialBytes limits =
     (if rl_MaxDatagrams limits < 1 \<or> rl_MaxDatagrams limits > 65536 \<or> rl_MaxDatagramBytes limits < 1 \<or>
         rl_MaxDatagramBytes limits > MaxLogicalBytesBound \<or> rl_MaxFragments limits < 1 \<or> rl_MaxFragments limits > 4096 \<or>
         rl_Span limits < 1 \<or> unat (rl_Span limits) > MaxSpan \<or> rl_MaxDatagrams limits > uint (rl_Span limits) \<or>
         rl_Timeout limits < 100000000 \<or> rl_Timeout limits > 60000000000
      then Inl ErrInvalid
      else Inr (ucast ((rl_Span limits + 63) div 64) * 16))"

definition bytesClaim :: "u64 \<Rightarrow> Claim" where
  "bytesClaim n = \<lparr>cl_Bytes = n, cl_BusinessStream = False, cl_PendingAccept = False\<rparr>"

definition NewPrepaid :: "handle \<Rightarrow> Limits \<Rightarrow> handle \<Rightarrow> Ledger \<Rightarrow> (reassembly_error, Receiver) result \<times> Ledger" where
  "NewPrepaid scope limits prepaid lg =
     (case RequiredInitialBytes limits of
        Inl err \<Rightarrow> (Inl err, lg)
      | Inr bytes \<Rightarrow>
          let state = Session_Snapshot scope lg
          in if sn_Closed state \<or> sn_PendingHandshake state then (Inl ErrInvalid, lg)
             else
               (case Session_BindBytes scope prepaid bytes lg of
                  (Inl err, lg) \<Rightarrow> (Inl (CreditError err), lg)
                | (Inr lease, lg) \<Rightarrow>
                    let window = (case New (rl_Span limits) of Inr w \<Rightarrow> w | Inl _ \<Rightarrow> nilWindow)
                    in (Inr \<lparr>rv_scope = scope, rv_limits = limits, rv_window = window, rv_windowLease = lease,
                          rv_pending = [], rv_head = 0, rv_tail = 0, rv_last = 0, rv_haveTime = False,
                          rv_closed = False\<rparr>, lg)))"

definition Receiver_New :: "handle \<Rightarrow> Limits \<Rightarrow> Ledger \<Rightarrow> (reassembly_error, Receiver) result \<times> Ledger" where
  "Receiver_New scope limits lg =
     (case RequiredInitialBytes limits of
        Inl err \<Rightarrow> (Inl err, lg)
      | Inr bytes \<Rightarrow>
          let state = Session_Snapshot scope lg
          in if sn_Closed state \<or> sn_PendingHandshake state then (Inl ErrInvalid, lg)
             else
               (case Session_Reserve scope (bytesClaim bytes) lg of
                  (Inl err, lg) \<Rightarrow> (Inl (CreditError err), lg)
                | (Inr lease, lg) \<Rightarrow>
                    (case NewPrepaid scope limits lease lg of
                       (Inl err, lg) \<Rightarrow> (Inl err, Lease_Release lease lg)
                     | (Inr receiver, lg) \<Rightarrow> (Inr receiver, lg))))"

subsection \<open>Checks\<close>

definition checkTime :: "Receiver \<Rightarrow> int \<Rightarrow> reassembly_error option" where
  "checkTime r now =
     (if win_span (rv_window r) = 0 \<or> rv_closed r then Some ErrClosed
      else if rv_haveTime r \<and> now < rv_last r then Some ErrInvalid
      else None)"

fun canonical_from :: "u32 \<Rightarrow> u64 \<Rightarrow> Fragment list \<Rightarrow> bool" where
  "canonical_from maxBytes previous [] = True"
| "canonical_from maxBytes previous (f # fragments) =
     (if fr_DatagramID f = 0 \<or> fr_DatagramID f \<le> previous \<or> fr_TotalBytes f > maxBytes \<or>
         fr_Offset f > fr_TotalBytes f \<or> length (fr_Payload f) > unat (fr_TotalBytes f - fr_Offset f) \<or>
         (fr_Payload f = [] \<and> fr_TotalBytes f \<noteq> 0)
      then False
      else canonical_from maxBytes (fr_DatagramID f) fragments)"

definition Receiver_validate :: "Receiver \<Rightarrow> Fragment list \<Rightarrow> reassembly_error option" where
  "Receiver_validate r fragments =
     (if length fragments < 1 \<or> int (length fragments) > MaxDescriptorsBound then Some ErrInvalid
      else if canonical_from (word_of_int (rl_MaxDatagramBytes (rv_limits r))) 0 fragments then None
      else Some ErrInvalid)"

definition due :: "Receiver \<Rightarrow> assembly \<Rightarrow> int \<Rightarrow> bool" where
  "due r a now \<longleftrightarrow> now - as_admitted a \<ge> rl_Timeout (rv_limits r)"

text \<open>\<open>slices.BinarySearchFunc\<close> with the comparison of \<open>inspect\<close>.\<close>

function search_from :: "interval list \<Rightarrow> u32 \<Rightarrow> nat \<Rightarrow> nat \<Rightarrow> nat" where
  "search_from xs target i j =
     (if i < j then
        let h = (i + j) div 2
        in if iv_start (xs ! h) < target then search_from xs target (h + 1) j
           else search_from xs target i h
      else i)"
  by pat_completeness auto
termination
  by (relation "measure (\<lambda>(xs, target, i, j). j - i)") auto

declare search_from.simps [simp del]

definition BinarySearch :: "interval list \<Rightarrow> u32 \<Rightarrow> nat \<times> bool" where
  "BinarySearch xs target =
     (let i = search_from xs target 0 (length xs)
      in (i, i < length xs \<and> iv_start (xs ! i) = target))"

definition inspect :: "assembly \<Rightarrow> Fragment \<Rightarrow> (reassembly_error, nat \<times> bool) result" where
  "inspect a f =
     (let end_at = fr_Offset f + word_of_nat (length (fr_Payload f))
      in case BinarySearch (as_ranges a) (fr_Offset f) of
           (k, found) \<Rightarrow>
             if found \<and> iv_end (as_ranges a ! k) = end_at then
               if slice (unat (fr_Offset f)) (unat end_at) (as_data a) \<noteq> fr_Payload f then Inl ErrInvalid
               else Inr (k, True)
             else if (k > 0 \<and> iv_end (as_ranges a ! (k - 1)) > fr_Offset f) \<or>
                (k < length (as_ranges a) \<and> iv_start (as_ranges a ! k) < end_at) then Inl ErrInvalid
             else Inr (k, False))"

subsection \<open>The deadline list\<close>

definition on_pending :: "u64 \<Rightarrow> (assembly \<Rightarrow> assembly) \<Rightarrow> Receiver \<Rightarrow> Receiver" where
  "on_pending i g r = (case map_of (rv_pending r) i of
      None \<Rightarrow> r
    | Some a \<Rightarrow> r\<lparr>rv_pending := AList.update i (g a) (rv_pending r)\<rparr>)"

definition addPending :: "u64 \<Rightarrow> assembly \<Rightarrow> Receiver \<Rightarrow> Receiver" where
  "addPending i a r =
     (let a = a\<lparr>as_previous := rv_tail r\<rparr>;
          r = (if rv_tail r = 0 then r\<lparr>rv_head := i\<rparr> else on_pending (rv_tail r) (\<lambda>b. b\<lparr>as_next := i\<rparr>) r)
      in r\<lparr>rv_pending := AList.update i a (rv_pending r), rv_tail := i\<rparr>)"

definition removePending :: "u64 \<Rightarrow> assembly \<Rightarrow> Receiver \<Rightarrow> Receiver" where
  "removePending i a r =
     (let r = (if as_previous a = 0 then r\<lparr>rv_head := as_next a\<rparr>
               else on_pending (as_previous a) (\<lambda>b. b\<lparr>as_next := as_next a\<rparr>) r);
          r = (if as_next a = 0 then r\<lparr>rv_tail := as_previous a\<rparr>
               else on_pending (as_next a) (\<lambda>b. b\<lparr>as_previous := as_previous a\<rparr>) r)
      in r\<lparr>rv_pending := AList.delete i (rv_pending r)\<rparr>)"

fun expire :: "u64 \<Rightarrow> assembly \<Rightarrow> Receiver \<times> Ledger \<Rightarrow> Receiver \<times> Ledger" where
  "expire i a (r, lg) =
     (let r = r\<lparr>rv_window := snd (Finish (rv_window r) i Expired)\<rparr>
        in (removePending i a r, Lease_Release (as_lease a) lg))"

declare expire.simps [simp del]

subsection \<open>AddGroup\<close>

text \<open>The pointer in a plan entry: nil, the pending assembly with the fragment's identifier, or the new one.\<close>

datatype assembly_ref = NilAssembly | PendingAssembly | NewAssembly assembly

record planned =
  pl_a :: assembly_ref
  pl_new :: bool
  pl_expire :: bool
  pl_duplicate :: bool
  pl_insert :: nat

definition noPlan :: planned where
  "noPlan = \<lparr>pl_a = NilAssembly, pl_new = False, pl_expire = False, pl_duplicate = False, pl_insert = 0\<rparr>"

text \<open>One round of the planning loop; the number is the count of pending datagrams.\<close>

definition plan_one :: "Receiver \<Rightarrow> int \<Rightarrow> Fragment \<Rightarrow> int \<Rightarrow> (reassembly_error, planned \<times> int) result" where
  "plan_one r now f cnt =
     (case map_of (rv_pending r) (fr_DatagramID f) of
        Some a \<Rightarrow>
          if as_total a \<noteq> fr_TotalBytes f then Inl ErrInvalid
          else if due r a now then Inr (noPlan\<lparr>pl_a := PendingAssembly, pl_expire := True\<rparr>, cnt - 1)
          else
            (case inspect a f of
               Inl err \<Rightarrow> Inl err
             | Inr (k, duplicate) \<Rightarrow>
                 if \<not> duplicate \<and> int (length (as_ranges a)) = rl_MaxFragments (rv_limits r)
                 then Inl (CreditError ErrResourceLimit)
                 else Inr (noPlan\<lparr>pl_a := PendingAssembly, pl_duplicate := duplicate, pl_insert := k\<rparr>, cnt))
      | None \<Rightarrow>
          if State (rv_window r) (fr_DatagramID f) \<noteq> Unseen then Inr (noPlan, cnt)
          else Inr (noPlan\<lparr>pl_new := True\<rparr>, cnt + 1))"

fun plan_all :: "Receiver \<Rightarrow> int \<Rightarrow> Fragment list \<Rightarrow> int \<Rightarrow> (reassembly_error, planned list \<times> int) result" where
  "plan_all r now [] cnt = Inr ([], cnt)"
| "plan_all r now (f # fragments) cnt =
     (case plan_one r now f cnt of
        Inl err \<Rightarrow> Inl err
      | Inr (p, cnt) \<Rightarrow>
          (case plan_all r now fragments cnt of
             Inl err \<Rightarrow> Inl err
           | Inr (ps, cnt) \<Rightarrow> Inr (p # ps, cnt)))"

definition charge :: "Receiver \<Rightarrow> Fragment \<Rightarrow> u64" where
  "charge r f = ucast (fr_TotalBytes f) + word_of_int (rl_MaxFragments (rv_limits r)) * intervalBytes + deadlineLinkBytes"

definition newAssembly :: "u32 \<Rightarrow> int \<Rightarrow> handle \<Rightarrow> assembly" where
  "newAssembly n now lease =
     \<lparr>as_total = n, as_admitted = now, as_data = [], as_ranges = [], as_received = 0, as_lease = lease,
      as_previous = 0, as_next = 0\<rparr>"

definition rollback :: "planned list \<Rightarrow> Ledger \<Rightarrow> Ledger" where
  "rollback pls lg =
     fold (\<lambda>p lg. case pl_a p of NewAssembly a \<Rightarrow> if pl_new p then Lease_Release (as_lease a) lg else lg | _ \<Rightarrow> lg) pls lg"

text \<open>The reservation loop: \<open>earlier\<close> holds the plan entries of the rounds already done.\<close>

fun reserve_all ::
    "Receiver \<Rightarrow> int \<Rightarrow> planned list \<Rightarrow> (Fragment \<times> planned) list \<Rightarrow> Ledger \<Rightarrow> (credit_error, planned list) result \<times> Ledger" where
  "reserve_all r now earlier [] lg = (Inr earlier, lg)"
| "reserve_all r now earlier ((f, p) # rest) lg =
     (if \<not> pl_new p then reserve_all r now (earlier @ [p]) rest lg
      else
        (case Session_Reserve (rv_scope r) (bytesClaim (charge r f)) lg of
           (Inl err, lg) \<Rightarrow> (Inl err, rollback earlier lg)
         | (Inr lease, lg) \<Rightarrow>
             reserve_all r now (earlier @ [p\<lparr>pl_a := NewAssembly (newAssembly (fr_TotalBytes f) now lease)\<rparr>]) rest lg))"

definition allocate :: "planned \<Rightarrow> planned" where
  "allocate p =
     (case pl_a p of
        NewAssembly a \<Rightarrow>
          if pl_new p then p\<lparr>pl_a := NewAssembly (a\<lparr>as_data := replicate (unat (as_total a)) 0, as_ranges := []\<rparr>)\<rparr> else p
      | _ \<Rightarrow> p)"

text \<open>\<open>slices.Insert\<close> for an index within the slice.\<close>

definition Insert :: "'a list \<Rightarrow> nat \<Rightarrow> 'a \<Rightarrow> 'a list" where
  "Insert xs k x = take k xs @ x # drop k xs"

definition store :: "Fragment \<Rightarrow> nat \<Rightarrow> assembly \<Rightarrow> assembly" where
  "store f k a =
     (let offset = unat (fr_Offset f); n = word_of_nat (length (fr_Payload f))
      in a\<lparr>as_data := take offset (as_data a) @ go_copy (drop offset (as_data a)) (fr_Payload f),
           as_ranges := Insert (as_ranges a) k \<lparr>iv_start = fr_Offset f, iv_end = fr_Offset f + n\<rparr>,
           as_received := as_received a + n\<rparr>)"

fun finish_full :: "u64 \<Rightarrow> assembly \<Rightarrow> Receiver \<times> Ledger \<Rightarrow> datagramState list \<times> Receiver \<times> Ledger" where
  "finish_full i a (r, lg) =
     (if as_received a = as_total a then
          let r = r\<lparr>rv_window := snd (Finish (rv_window r) i Completed)\<rparr>;
              r = removePending i a r;
              lg = snd (Lease_ShrinkBytes (as_lease a) (word_of_nat (length (as_data a))) lg)
          in ([\<lparr>dg_id = i, dg_data = as_data a, dg_lease = as_lease a\<rparr>], r, lg)
        else ([], r, lg))"

declare finish_full.simps [simp del]

text \<open>One round of the commit loop.\<close>

fun commit_one :: "Fragment \<Rightarrow> planned \<Rightarrow> Receiver \<times> Ledger \<Rightarrow> datagramState list \<times> Receiver \<times> Ledger" where
  "commit_one f p (r, lg) =
     (let i = fr_DatagramID f
        in if pl_expire p then
             (case map_of (rv_pending r) i of
                Some a \<Rightarrow> ([], expire i a (r, lg))
              | None \<Rightarrow> ([], r, lg))
           else if pl_a p = NilAssembly \<or> pl_duplicate p then ([], r, lg)
           else
             let r = (case pl_a p of
                        NewAssembly a \<Rightarrow>
                          if pl_new p then addPending i a (r\<lparr>rv_window := snd (Admit (rv_window r) i)\<rparr>) else r
                      | _ \<Rightarrow> r);
                 r = on_pending i (store f (pl_insert p)) r
             in case map_of (rv_pending r) i of
                  Some a \<Rightarrow> finish_full i a (r, lg)
                | None \<Rightarrow> ([], r, lg))"

declare commit_one.simps [simp del]

fun commit_all :: "(Fragment \<times> planned) list \<Rightarrow> Receiver \<times> Ledger \<Rightarrow> datagramState list \<times> Receiver \<times> Ledger" where
  "commit_all [] st = ([], st)"
| "commit_all ((f, p) # rest) st =
     (case commit_one f p st of
        (ds, st) \<Rightarrow> (case commit_all rest st of (ds', st) \<Rightarrow> (ds @ ds', st)))"

fun AddGroup ::
    "int \<Rightarrow> Fragment list \<Rightarrow> Receiver \<times> Ledger \<Rightarrow> (reassembly_error, datagramState list) result \<times> Receiver \<times> Ledger" where
  "AddGroup now fragments (r, lg) =
     (case checkTime r now of
          Some err \<Rightarrow> (Inl err, r, lg)
        | None \<Rightarrow>
            if sn_Closed (Session_Snapshot (rv_scope r) lg) then (Inl (CreditError credit_error.ErrClosed), r, lg)
            else
              (case Receiver_validate r fragments of
                 Some err \<Rightarrow> (Inl err, r, lg)
               | None \<Rightarrow>
                   (case plan_all r now fragments (int (length (rv_pending r))) of
                      Inl err \<Rightarrow> (Inl err, r, lg)
                    | Inr (pls, cnt) \<Rightarrow>
                        if cnt > rl_MaxDatagrams (rv_limits r) then (Inl (CreditError ErrResourceLimit), r, lg)
                        else
                          (case reserve_all r now [] (zip fragments pls) lg of
                             (Inl err, lg) \<Rightarrow> (Inl (CreditError err), r, lg)
                           | (Inr pls, lg) \<Rightarrow>
                               (case commit_all (zip fragments (map allocate pls)) (r\<lparr>rv_last := now, rv_haveTime := True\<rparr>, lg) of
                                  (completed, st) \<Rightarrow> (Inr completed, st))))))"

declare AddGroup.simps [simp del]

subsection \<open>Expiry, observation and shutdown\<close>

lemma delete_shorter: "map_of m k = Some v \<Longrightarrow> length (AList.delete k m) < length m"
  by (induction m) (auto simp: less_Suc_eq_le length_delete_le split: if_splits)

lemma length_on_pending [simp]: "length (rv_pending (on_pending i g r)) = length (rv_pending r)"
proof -
  have upd: "length (AList.update k v m) = length m" if "map_of m k = Some w" for m :: "('k \<times> 'v) list" and k v w
    using that by (induction m) (auto split: if_splits)
  show ?thesis by (auto simp: on_pending_def upd split: option.splits)
qed

lemma map_of_on_pending: "map_of (rv_pending (on_pending i g r)) j = (if i = j then map_option g (map_of (rv_pending r) j) else map_of (rv_pending r) j)"
  by (auto simp: on_pending_def update_conv' split: option.splits)

lemma removePending_shorter: "map_of (rv_pending r) i = Some a \<Longrightarrow> length (rv_pending (removePending i b r)) < length (rv_pending r)"
proof -
  assume some: "map_of (rv_pending r) i = Some a"
  define r1 where "r1 = (if as_previous b = 0 then r\<lparr>rv_head := as_next b\<rparr> else on_pending (as_previous b) (\<lambda>c. c\<lparr>as_next := as_next b\<rparr>) r)"
  define r2 where "r2 = (if as_next b = 0 then r1\<lparr>rv_tail := as_previous b\<rparr> else on_pending (as_next b) (\<lambda>c. c\<lparr>as_previous := as_previous b\<rparr>) r1)"
  have len: "length (rv_pending r2) = length (rv_pending r)" by (simp add: r1_def r2_def)
  have "\<exists>c. map_of (rv_pending r2) i = Some c" using some by (auto simp: r1_def r2_def map_of_on_pending)
  then obtain c where "map_of (rv_pending r2) i = Some c" ..
  then have "length (AList.delete i (rv_pending r2)) < length (rv_pending r2)" by (rule delete_shorter)
  moreover have "removePending i b r = r2\<lparr>rv_pending := AList.delete i (rv_pending r2)\<rparr>"
    unfolding removePending_def Let_def r1_def r2_def ..
  ultimately show ?thesis using len by simp
qed

text \<open>The loop of \<open>Expire\<close>. The head is always a pending identifier; a nil assembly would panic.\<close>

function expire_due :: "int \<Rightarrow> Receiver \<times> Ledger \<Rightarrow> u64 list \<times> Receiver \<times> Ledger" where
  "expire_due now (r, lg) =
     (if rv_head r = 0 then ([], r, lg)
      else
        (case map_of (rv_pending r) (rv_head r) of
           None \<Rightarrow> ([], r, lg)
         | Some a \<Rightarrow>
             if \<not> due r a now then ([], r, lg)
             else
               (case expire_due now (expire (rv_head r) a (r, lg)) of
                  (ids, st) \<Rightarrow> (rv_head r # ids, st))))"
  by pat_completeness auto
termination
proof (relation "measure (\<lambda>(now, r, lg). length (rv_pending r))")
  fix now a and r :: Receiver and lg :: Ledger
  assume "rv_head r \<noteq> 0" "map_of (rv_pending r) (rv_head r) = Some a"
  then show "((now, expire (rv_head r) a (r, lg)), now, r, lg) \<in> measure (\<lambda>(now, r, lg). length (rv_pending r))"
    using removePending_shorter [of "r\<lparr>rv_window := snd (Finish (rv_window r) (rv_head r) Expired)\<rparr>" "rv_head r" a a]
    by (simp add: expire.simps)
qed simp

declare expire_due.simps [simp del]

fun Receiver_Expire :: "int \<Rightarrow> Receiver \<times> Ledger \<Rightarrow> (reassembly_error, u64 list) result \<times> Receiver \<times> Ledger" where
  "Receiver_Expire now (r, lg) =
     (case checkTime r now of
          Some err \<Rightarrow> (Inl err, r, lg)
        | None \<Rightarrow>
            (case expire_due now (r\<lparr>rv_last := now, rv_haveTime := True\<rparr>, lg) of
               (ids, st) \<Rightarrow> (Inr ids, st)))"

declare Receiver_Expire.simps [simp del]

definition Receiver_State :: "Receiver \<Rightarrow> u64 \<Rightarrow> recv_status" where
  "Receiver_State r i = (if rv_closed r then Closed else State (rv_window r) i)"

definition NextDeadline :: "Receiver \<Rightarrow> int option" where
  "NextDeadline r =
     (if rv_closed r \<or> rv_head r = 0 then None
      else map_option (\<lambda>a. as_admitted a + rl_Timeout (rv_limits r)) (map_of (rv_pending r) (rv_head r)))"

definition Receiver_Snapshot :: "Receiver \<Rightarrow> Snapshot" where
  "Receiver_Snapshot r = \<lparr>sp_Pending = int (length (rv_pending r)), sp_History = Window_Snapshot (rv_window r)\<rparr>"

text \<open>The loop of \<open>Close\<close>.\<close>

function expire_all :: "Receiver \<times> Ledger \<Rightarrow> Receiver \<times> Ledger" where
  "expire_all (r, lg) =
     (if rv_head r = 0 then (r, lg)
      else
        (case map_of (rv_pending r) (rv_head r) of
           None \<Rightarrow> (r, lg)
         | Some a \<Rightarrow> expire_all (expire (rv_head r) a (r, lg))))"
  by pat_completeness auto
termination
proof (relation "measure (\<lambda>(r, lg). length (rv_pending r))")
  fix a and r :: Receiver and lg :: Ledger
  assume "rv_head r \<noteq> 0" "map_of (rv_pending r) (rv_head r) = Some a"
  then show "(expire (rv_head r) a (r, lg), r, lg) \<in> measure (\<lambda>(r, lg). length (rv_pending r))"
    using removePending_shorter [of "r\<lparr>rv_window := snd (Finish (rv_window r) (rv_head r) Expired)\<rparr>" "rv_head r" a a]
    by (simp add: expire.simps)
qed simp

declare expire_all.simps [simp del]

fun Receiver_Close :: "Receiver \<times> Ledger \<Rightarrow> Receiver \<times> Ledger" where
  "Receiver_Close (r, lg) =
     (if rv_closed r then (r, lg)
        else
          (case expire_all (r\<lparr>rv_closed := True\<rparr>, lg) of
             (r, lg) \<Rightarrow>
               (r\<lparr>rv_pending := [], rv_window := Window_Close (rv_window r), rv_windowLease := None\<rparr>,
                Lease_Release (rv_windowLease r) lg)))"

declare Receiver_Close.simps [simp del]

subsection \<open>Completed datagrams\<close>

definition Datagram_ID :: "Datagram \<Rightarrow> u64" where
  "Datagram_ID d = (case d of None \<Rightarrow> 0 | Some s \<Rightarrow> dg_id s)"

definition Datagram_Payload :: "Datagram \<Rightarrow> bytes" where
  "Datagram_Payload d = (case d of None \<Rightarrow> [] | Some s \<Rightarrow> dg_data s)"

definition Datagram_Release :: "Datagram \<Rightarrow> Ledger \<Rightarrow> Datagram \<times> Ledger" where
  "Datagram_Release d lg =
     (case d of
        None \<Rightarrow> (None, lg)
      | Some s \<Rightarrow> (Some (s\<lparr>dg_data := [], dg_lease := None\<rparr>), Lease_Release (dg_lease s) lg))"

end
