(* ===== verification/DeadlineList.thy ===== *)
theory DeadlineList
  imports Reassembly
begin

text \<open>
  The deadline list of the v2 reassembly: \<open>head\<close>, \<open>tail\<close> and the links inside the pending assemblies
  represent a list of identifiers, \<open>addPending\<close> appends to it and \<open>removePending\<close> deletes from it.
\<close>

subsection \<open>The list behind the links\<close>

definition first :: "u64 list \<Rightarrow> u64" where
  "first xs = (case xs of [] \<Rightarrow> 0 | x # _ \<Rightarrow> x)"

definition final :: "u64 list \<Rightarrow> u64" where
  "final xs = (if xs = [] then 0 else last xs)"

lemma first_simps [simp]: "first [] = 0" "first (x # xs) = x" "first ((x # xs) @ ys) = x"
  by (simp_all add: first_def)

lemma final_simps [simp]: "final [] = 0" "final (xs @ [x]) = x" "final (xs @ x # ys) = final (x # ys)" "final [x] = x"
  by (simp_all add: final_def)

lemma final_Cons: "final (x # xs) = (if xs = [] then x else final xs)"
  by (simp add: final_def)

lemma first_append: "first (xs @ ys) = (if xs = [] then first ys else first xs)"
  by (cases xs) simp_all

lemma final_append: "final (xs @ ys) = (if ys = [] then final xs else final ys)"
  by (simp add: final_def)

lemma first_mem: "xs \<noteq> [] \<Longrightarrow> first xs \<in> set xs"
  by (cases xs) simp_all

lemma final_mem: "xs \<noteq> [] \<Longrightarrow> final xs \<in> set xs"
  by (simp add: final_def)

definition linked :: "(u64 \<Rightarrow> assembly option) \<Rightarrow> u64 list \<Rightarrow> bool" where
  "linked m order \<longleftrightarrow>
     (\<forall>xs y ys. order = xs @ y # ys \<longrightarrow> (\<exists>a. m y = Some a \<and> as_previous a = final xs \<and> as_next a = first ys))"

definition links :: "Receiver \<Rightarrow> u64 list \<Rightarrow> bool" where
  "links r order \<longleftrightarrow>
     distinct (keys (rv_pending r)) \<and> distinct order \<and> 0 \<notin> set order \<and> set order = set (keys (rv_pending r)) \<and>
     rv_head r = first order \<and> rv_tail r = final order \<and> linked (map_of (rv_pending r)) order"

lemma linkedD: "linked m (xs @ y # ys) \<Longrightarrow> \<exists>a. m y = Some a \<and> as_previous a = final xs \<and> as_next a = first ys"
  by (simp add: linked_def)

lemma linked_cong:
  assumes "linked m order"
    and "\<And>i. i \<in> set order \<Longrightarrow> map_option (\<lambda>a. (as_previous a, as_next a)) (m' i) = map_option (\<lambda>a. (as_previous a, as_next a)) (m i)"
  shows "linked m' order"
  unfolding linked_def
proof (intro allI impI)
  fix xs y ys assume o: "order = xs @ y # ys"
  obtain a where a: "m y = Some a" "as_previous a = final xs" "as_next a = first ys" using linkedD assms(1) o by blast
  then show "\<exists>a. m' y = Some a \<and> as_previous a = final xs \<and> as_next a = first ys" using assms(2) [of y] o by auto
qed

lemma linked_append:
  assumes l: "linked m order" and new: "i \<notin> set order" "i \<noteq> 0" and d: "distinct order" "0 \<notin> set order"
    and m': "m' i = Some a" "as_previous a = final order" "as_next a = 0"
      "\<And>j. j \<in> set order \<Longrightarrow> m' j = (if j = final order then map_option (\<lambda>b. b\<lparr>as_next := i\<rparr>) (m j) else m j)"
  shows "linked m' (order @ [i])"
  unfolding linked_def
proof (intro allI impI)
  fix xs y ys assume o: "order @ [i] = xs @ y # ys"
  show "\<exists>a. m' y = Some a \<and> as_previous a = final xs \<and> as_next a = first ys"
  proof (cases ys rule: rev_cases)
    case Nil
    then show ?thesis using o m' by simp
  next
    case (snoc zs z)
    then have o': "order = xs @ y # zs" "z = i" using o by simp_all
    obtain b where b: "m y = Some b" "as_previous b = final xs" "as_next b = first zs" using linkedD l o'(1) by blast
    have "y = final order \<longleftrightarrow> zs = []" using o'(1) d(1) final_mem [of zs] by (auto simp: final_append final_Cons)
    then show ?thesis using b m'(4) [of y] o' snoc by (auto simp: first_append)
  qed
qed

lemma linked_remove:
  assumes l: "linked m (xs @ i # ys)" and d: "distinct (xs @ i # ys)" "0 \<notin> set (xs @ i # ys)"
    and m': "\<And>j. j \<in> set (xs @ ys) \<Longrightarrow> m' j = map_option (\<lambda>b. b\<lparr>as_next := if j = final xs then first ys else as_next b,
        as_previous := if j = first ys then final xs else as_previous b\<rparr>) (m j)"
  shows "linked m' (xs @ ys)"
  unfolding linked_def
proof (intro allI impI)
  fix us y vs assume o: "xs @ ys = us @ y # vs"
  then have y: "y \<in> set (xs @ ys)" by simp
  consider ws where "xs = us @ y # ws" "vs = ws @ ys" | ws where "us = xs @ ws" "ys = ws @ y # vs"
    using o by (auto simp: append_eq_append_conv2 append_eq_Cons_conv Cons_eq_append_conv)
  then show "\<exists>a. m' y = Some a \<and> as_previous a = final us \<and> as_next a = first vs"
  proof cases
    case 1
    obtain b where b: "m y = Some b" "as_previous b = final us" "as_next b = first (ws @ i # ys)"
      using linkedD [of m us y "ws @ i # ys"] l 1 by auto
    have "y = final xs \<longleftrightarrow> ws = []" using 1 d(1) final_mem [of ws] by (auto simp: final_append final_Cons)
    moreover have "y \<noteq> first ys" using 1 d first_mem [of ys] by (cases ys) auto
    ultimately show ?thesis using b m' [OF y] 1 by (auto simp: first_append)
  next
    case 2
    obtain b where b: "m y = Some b" "as_previous b = final (xs @ i # ws)" "as_next b = first vs"
      using linkedD [of m "xs @ i # ws" y vs] l 2 by auto
    have "y = first ys \<longleftrightarrow> ws = []" using 2 d(1) first_mem [of ws] by (cases ws) auto
    moreover have "y \<noteq> final xs" using 2 d final_mem [of xs] by (cases "xs = []") auto
    ultimately show ?thesis using b m' [OF y] 2 by (auto simp: final_append final_Cons)
  qed
qed

subsection \<open>Operations\<close>

lemma on_pending_fields [simp]:
  "rv_head (on_pending i g r) = rv_head r" "rv_tail (on_pending i g r) = rv_tail r"
  "rv_window (on_pending i g r) = rv_window r" "rv_limits (on_pending i g r) = rv_limits r"
  "rv_scope (on_pending i g r) = rv_scope r" "rv_windowLease (on_pending i g r) = rv_windowLease r"
  "rv_last (on_pending i g r) = rv_last r" "rv_haveTime (on_pending i g r) = rv_haveTime r"
  "rv_closed (on_pending i g r) = rv_closed r"
  by (simp_all add: on_pending_def split: option.splits)

lemma keys_on_pending [simp]: "keys (rv_pending (on_pending i g r)) = keys (rv_pending r)"
proof -
  have "keys (AList.update k v m) = keys m" if "map_of m k = Some w" for m :: "('k \<times> 'v) list" and k v w
    using that by (induction m) (auto split: if_splits)
  then show ?thesis by (auto simp: on_pending_def split: option.splits)
qed

lemma pending_on_pending [simp]: "fst ` set (rv_pending (on_pending i g r)) = fst ` set (rv_pending r)"
  using keys_on_pending [of i g r] by (metis set_map)

lemma addPending_fields [simp]:
  "rv_window (addPending i a r) = rv_window r" "rv_limits (addPending i a r) = rv_limits r"
  "rv_scope (addPending i a r) = rv_scope r" "rv_windowLease (addPending i a r) = rv_windowLease r"
  "rv_last (addPending i a r) = rv_last r" "rv_haveTime (addPending i a r) = rv_haveTime r"
  "rv_closed (addPending i a r) = rv_closed r" "rv_tail (addPending i a r) = i"
  "rv_head (addPending i a r) = (if rv_tail r = 0 then i else rv_head r)"
  by (simp_all add: addPending_def Let_def)

lemma removePending_fields [simp]:
  "rv_window (removePending i a r) = rv_window r" "rv_limits (removePending i a r) = rv_limits r"
  "rv_scope (removePending i a r) = rv_scope r" "rv_windowLease (removePending i a r) = rv_windowLease r"
  "rv_last (removePending i a r) = rv_last r" "rv_haveTime (removePending i a r) = rv_haveTime r"
  "rv_closed (removePending i a r) = rv_closed r"
  "rv_head (removePending i a r) = (if as_previous a = 0 then as_next a else rv_head r)"
  "rv_tail (removePending i a r) = (if as_next a = 0 then as_previous a else rv_tail r)"
  by (simp_all add: removePending_def Let_def)

lemma map_of_addPending:
  "map_of (rv_pending (addPending i a r)) j =
     (if j = i then Some (a\<lparr>as_previous := rv_tail r\<rparr>)
      else if j = rv_tail r \<and> rv_tail r \<noteq> 0 then map_option (\<lambda>b. b\<lparr>as_next := i\<rparr>) (map_of (rv_pending r) j)
      else map_of (rv_pending r) j)"
  by (auto simp: addPending_def Let_def update_conv' map_of_on_pending)

lemma map_of_removePending:
  assumes "as_next a \<noteq> 0 \<Longrightarrow> as_next a \<noteq> as_previous a"
  shows "map_of (rv_pending (removePending i a r)) j =
     (if j = i then None
      else map_option (\<lambda>b. b\<lparr>as_next := if j = as_previous a \<and> j \<noteq> 0 then as_next a else as_next b,
                             as_previous := if j = as_next a \<and> j \<noteq> 0 then as_previous a else as_previous b\<rparr>)
        (map_of (rv_pending r) j))"
  using assms
  by (cases "map_of (rv_pending r) j") (auto simp: removePending_def Let_def delete_conv' map_of_on_pending)

lemma keys_addPending: "set (keys (rv_pending (addPending i a r))) = insert i (set (keys (rv_pending r)))"
  by (simp add: addPending_def Let_def keys_update [simplified])

lemma keys_removePending: "set (keys (rv_pending (removePending i a r))) = set (keys (rv_pending r)) - {i}"
  by (simp add: removePending_def Let_def keys_delete [simplified])

lemma distinct_addPending: "distinct (keys (rv_pending r)) \<Longrightarrow> distinct (keys (rv_pending (addPending i a r)))"
  by (simp add: addPending_def Let_def distinct_keys_update)

lemma distinct_removePending: "distinct (keys (rv_pending r)) \<Longrightarrow> distinct (keys (rv_pending (removePending i a r)))"
  by (simp add: removePending_def Let_def distinct_keys_delete)

lemma linksD:
  assumes "links r order"
  shows "distinct (keys (rv_pending r))" "distinct order" "0 \<notin> set order" "set order = set (keys (rv_pending r))"
    "rv_head r = first order" "rv_tail r = final order" "linked (map_of (rv_pending r)) order"
  using assms unfolding links_def by blast+

lemma links_addPending:
  assumes l: "links r order" and new: "i \<notin> set order" "i \<noteq> 0" and a: "as_next a = 0"
  shows "links (addPending i a r) (order @ [i])"
proof -
  note D = linksD [OF l]
  have tail: "rv_tail r = 0 \<longleftrightarrow> order = []" using D(3,6) final_mem [of order] by (cases "order = []") auto
  have "linked (map_of (rv_pending (addPending i a r))) (order @ [i])"
  proof (rule linked_append [OF D(7) new D(2,3)])
    show "map_of (rv_pending (addPending i a r)) i = Some (a\<lparr>as_previous := rv_tail r\<rparr>)" by (simp add: map_of_addPending)
    show "map_of (rv_pending (addPending i a r)) j =
        (if j = final order then map_option (\<lambda>b. b\<lparr>as_next := i\<rparr>) (map_of (rv_pending r) j) else map_of (rv_pending r) j)"
      if "j \<in> set order" for j using that new D(3,6) by (auto simp: map_of_addPending)
  qed (use a D(6) in auto)
  moreover have "rv_head (addPending i a r) = first (order @ [i])" using D(5) tail by (auto simp: first_append)
  ultimately show ?thesis
    using D new distinct_addPending by (auto simp: links_def keys_addPending [simplified])
qed

lemma links_removePending:
  assumes l: "links r (xs @ i # ys)" and a: "map_of (rv_pending r) i = Some a"
  shows "links (removePending i a r) (xs @ ys)"
proof -
  note D = linksD [OF l]
  have pn: "as_previous a = final xs" "as_next a = first ys" using linkedD [OF D(7)] a by auto
  have nz: "first ys = 0 \<longleftrightarrow> ys = []" "final xs = 0 \<longleftrightarrow> xs = []"
    using D(3) first_mem [of ys] final_mem [of xs] by (cases "ys = []"; cases "xs = []"; force)+
  have ne: "as_next a \<noteq> as_previous a" if "as_next a \<noteq> 0"
    using that D(2,3) pn nz first_mem [of ys] final_mem [of xs] by (cases "xs = []") auto
  have "linked (map_of (rv_pending (removePending i a r))) (xs @ ys)"
  proof (rule linked_remove [OF D(7,2,3)])
    fix j assume j: "j \<in> set (xs @ ys)"
    then have "j \<noteq> i" "j \<noteq> 0" using D(2,3) by auto
    then show "map_of (rv_pending (removePending i a r)) j =
        map_option (\<lambda>b. b\<lparr>as_next := if j = final xs then first ys else as_next b,
          as_previous := if j = first ys then final xs else as_previous b\<rparr>) (map_of (rv_pending r) j)"
      unfolding map_of_removePending [OF ne, simplified] pn by simp
  qed
  moreover have "rv_head (removePending i a r) = first (xs @ ys)" "rv_tail (removePending i a r) = final (xs @ ys)"
    using D(5,6) pn nz by (auto simp: first_append final_append final_Cons)
  moreover have "set (xs @ ys) = set (keys (rv_pending (removePending i a r)))"
    using D(2,4) unfolding keys_removePending by auto
  ultimately show ?thesis
    using D(1-3) distinct_removePending by (simp add: links_def)
qed

text \<open>The other fields of an assembly are untouched by the relinking of its neighbours.\<close>

definition core :: "assembly \<Rightarrow> assembly" where
  "core a = a\<lparr>as_previous := 0, as_next := 0\<rparr>"

lemma core_eq: "core a = core b \<longleftrightarrow>
    as_total a = as_total b \<and> as_admitted a = as_admitted b \<and> as_data a = as_data b \<and> as_ranges a = as_ranges b \<and>
    as_received a = as_received b \<and> as_lease a = as_lease b"
  by (cases a; cases b) (simp add: core_def)

lemma core_links [simp]: "core (a\<lparr>as_next := x\<rparr>) = core a" "core (a\<lparr>as_previous := x\<rparr>) = core a"
  by (simp_all add: core_def)

lemma core_addPending:
  "i \<noteq> j \<Longrightarrow> map_option core (map_of (rv_pending (addPending i a r)) j) = map_option core (map_of (rv_pending r) j)"
  by (cases "map_of (rv_pending r) j") (auto simp: map_of_addPending)

lemma core_removePending:
  assumes "links r (xs @ i # ys)" "map_of (rv_pending r) i = Some a"
  shows "map_option core (map_of (rv_pending (removePending i a r)) j) = (if j = i then None else map_option core (map_of (rv_pending r) j))"
proof -
  note D = linksD [OF assms(1)]
  have pn: "as_previous a = final xs" "as_next a = first ys" using linkedD [OF D(7)] assms(2) by auto
  have ne: "as_next a \<noteq> as_previous a" if "as_next a \<noteq> 0"
    using that D(2,3) pn first_mem [of ys] final_mem [of xs] by (cases "xs = []"; cases "ys = []") auto
  show ?thesis by (cases "map_of (rv_pending r) j") (auto simp: map_of_removePending ne)
qed

end
