(* ===== verification/FragmentRanges.thy ===== *)
theory FragmentRanges
  imports DeadlineList
begin

text \<open>
  One assembly of the v2 reassembly: its sorted, disjoint ranges, the binary search, the three outcomes
  of \<open>inspect\<close> and the effect of storing a fragment. The invariant \<open>asm_ok\<close> says that the byte counter
  is the number of bytes covered by the ranges.
\<close>

subsection \<open>Ranges\<close>

definition iv_set :: "interval \<Rightarrow> nat set" where
  "iv_set x = {unat (iv_start x)..<unat (iv_end x)}"

definition cover :: "interval list \<Rightarrow> nat set" where
  "cover xs = (\<Union>x \<in> set xs. iv_set x)"

definition ranges_ok :: "nat \<Rightarrow> interval list \<Rightarrow> bool" where
  "ranges_ok n xs \<longleftrightarrow>
     (\<forall>x \<in> set xs. iv_start x < iv_end x \<and> unat (iv_end x) \<le> n) \<and> sorted_wrt (\<lambda>x y. iv_end x \<le> iv_start y) xs"

lemma ranges_okD:
  assumes "ranges_ok n xs"
  shows "x \<in> set xs \<Longrightarrow> iv_start x < iv_end x" "x \<in> set xs \<Longrightarrow> unat (iv_end x) \<le> n"
    "j < k \<Longrightarrow> k < length xs \<Longrightarrow> iv_end (xs ! j) \<le> iv_start (xs ! k)"
  using assms sorted_wrt_nth_less [of _ xs j k] by (auto simp: ranges_ok_def)

lemma starts_increase:
  assumes "ranges_ok n xs" "j < k" "k < length xs"
  shows "iv_start (xs ! j) < iv_start (xs ! k)"
  using ranges_okD(1) [OF assms(1), of "xs ! j"] ranges_okD(3) [OF assms] assms(2,3) by simp

lemma cover_bound: "ranges_ok n xs \<Longrightarrow> cover xs \<subseteq> {..<n}"
  by (fastforce simp: cover_def iv_set_def ranges_ok_def)

lemma finite_cover [simp]: "finite (cover xs)"
  by (simp add: cover_def iv_set_def)

lemma cover_Insert: "cover (Insert xs k x) = iv_set x \<union> cover xs"
proof -
  have "set (take k xs) \<union> set (drop k xs) = set xs" by (metis append_take_drop_id set_append)
  then show ?thesis by (auto simp: cover_def Insert_def)
qed

subsection \<open>Binary search\<close>

lemma search_from_spec:
  assumes sorted: "\<And>j k. j < k \<Longrightarrow> k < length xs \<Longrightarrow> iv_start (xs ! j) < iv_start (xs ! k)"
  shows "i \<le> j \<Longrightarrow> j \<le> length xs \<Longrightarrow> \<forall>k < i. iv_start (xs ! k) < t \<Longrightarrow>
      \<forall>k. j \<le> k \<and> k < length xs \<longrightarrow> t \<le> iv_start (xs ! k) \<Longrightarrow>
    search_from xs t i j \<le> length xs \<and> (\<forall>k < search_from xs t i j. iv_start (xs ! k) < t) \<and>
    (\<forall>k. search_from xs t i j \<le> k \<and> k < length xs \<longrightarrow> t \<le> iv_start (xs ! k))"
proof (induction "j - i" arbitrary: i j rule: less_induct)
  case less
  note unfold = search_from.simps [of xs t i j]
  show ?case
  proof (cases "i < j")
    case True
    define h where "h = (i + j) div 2"
    have h: "i \<le> h" "h < j" using True by (auto simp: h_def)
    show ?thesis
    proof (cases "iv_start (xs ! h) < t")
      case below: True
      have "\<forall>k < h + 1. iv_start (xs ! k) < t"
      proof (intro allI impI)
        fix k assume "k < h + 1"
        then show "iv_start (xs ! k) < t"
          using sorted [of k h] below h less.prems(2) by (cases "k = h") (auto intro: less_trans)
      qed
      from less.hyps [of j "h + 1", OF _ _ less.prems(2) this less.prems(4)] h show ?thesis
        using True below by (simp add: unfold h_def Let_def)
    next
      case False
      have "\<forall>k. h \<le> k \<and> k < length xs \<longrightarrow> t \<le> iv_start (xs ! k)"
      proof (intro allI impI)
        fix k assume "h \<le> k \<and> k < length xs"
        then show "t \<le> iv_start (xs ! k)"
          using sorted [of h k] False by (cases "k = h") (auto simp: not_less)
      qed
      from less.hyps [of h i, OF _ h(1) _ less.prems(3) this] h less.prems(2) show ?thesis
        using True False by (simp add: unfold h_def Let_def)
    qed
  next
    case False
    have "search_from xs t i j = i" unfolding unfold using False by simp
    moreover have "i = j" using False less.prems(1) by simp
    ultimately show ?thesis using less.prems(2-4) by simp
  qed
qed

lemma BinarySearch_spec:
  assumes ok: "ranges_ok n xs" and res: "BinarySearch xs t = (k, found)"
  shows "k \<le> length xs" "\<And>j. j < k \<Longrightarrow> iv_start (xs ! j) < t" "\<And>j. k \<le> j \<Longrightarrow> j < length xs \<Longrightarrow> t \<le> iv_start (xs ! j)"
    "found \<longleftrightarrow> k < length xs \<and> iv_start (xs ! k) = t"
proof -
  have vac: "\<forall>k < 0. iv_start (xs ! k) < t" "\<forall>k. length xs \<le> k \<and> k < length xs \<longrightarrow> t \<le> iv_start (xs ! k)" by auto
  note S = search_from_spec [OF starts_increase [OF ok] le0 order_refl vac]
  have "k = search_from xs t 0 (length xs)" and found: "found \<longleftrightarrow> k < length xs \<and> iv_start (xs ! k) = t"
    using res by (auto simp: BinarySearch_def Let_def)
  with S show "k \<le> length xs" "\<And>j. j < k \<Longrightarrow> iv_start (xs ! j) < t" "\<And>j. k \<le> j \<Longrightarrow> j < length xs \<Longrightarrow> t \<le> iv_start (xs ! j)"
    by blast+
  show "found \<longleftrightarrow> k < length xs \<and> iv_start (xs ! k) = t" by (rule found)
qed

subsection \<open>The outcomes of inspect\<close>

text \<open>A fragment of a datagram of \<open>n > 0\<close> bytes, as \<open>Receiver.validate\<close> admits it.\<close>

definition piece :: "nat \<Rightarrow> Fragment \<Rightarrow> bool" where
  "piece n f \<longleftrightarrow> fr_Payload f \<noteq> [] \<and> unat (fr_Offset f) + length (fr_Payload f) \<le> n"

definition span_of :: "Fragment \<Rightarrow> interval" where
  "span_of f = \<lparr>iv_start = fr_Offset f, iv_end = fr_Offset f + word_of_nat (length (fr_Payload f))\<rparr>"

lemma unat_end:
  assumes "unat (fr_Offset f) + length (fr_Payload f) \<le> unat (n :: u32)"
  shows "unat (fr_Offset f + word_of_nat (length (fr_Payload f))) = unat (fr_Offset f) + length (fr_Payload f)"
proof -
  have "unat (fr_Offset f) + length (fr_Payload f) < 2 ^ 32" using assms unat_less_u32 [of n] by simp
  then show ?thesis by (simp add: unat_word_ariths unat_of_nat)
qed

lemma span_of_set:
  assumes "unat (fr_Offset f) + length (fr_Payload f) \<le> unat (n :: u32)"
  shows "iv_set (span_of f) = {unat (fr_Offset f)..<unat (fr_Offset f) + length (fr_Payload f)}"
  using unat_end [OF assms] by (simp add: iv_set_def span_of_def)

text \<open>The position found by the search separates the ranges below and above a new disjoint range.\<close>

lemma insert_position:
  assumes ok: "ranges_ok (unat (n :: u32)) xs" and p: "piece (unat n) f" and s: "BinarySearch xs (fr_Offset f) = (k, found)"
    and gap: "\<not> (k > 0 \<and> iv_end (xs ! (k - 1)) > fr_Offset f)"
      "\<not> (k < length xs \<and> iv_start (xs ! k) < iv_end (span_of f))"
  shows "\<And>j. j < k \<Longrightarrow> iv_end (xs ! j) \<le> fr_Offset f" "\<And>j. k \<le> j \<Longrightarrow> j < length xs \<Longrightarrow> iv_end (span_of f) \<le> iv_start (xs ! j)"
proof -
  note B = BinarySearch_spec [OF ok s]
  show "iv_end (xs ! j) \<le> fr_Offset f" if j: "j < k" for j
  proof (cases "j = k - 1")
    case False
    then have "iv_end (xs ! j) \<le> iv_start (xs ! (k - 1))" using ranges_okD(3) [OF ok, of j "k - 1"] j B(1) by simp
    then show ?thesis using B(2) [of "k - 1"] j by (simp add: order.strict_implies_order order_trans)
  qed (use gap(1) j in \<open>simp add: not_less\<close>)
  show "iv_end (span_of f) \<le> iv_start (xs ! j)" if j: "k \<le> j" "j < length xs" for j
  proof (cases "j = k")
    case False
    then have "iv_start (xs ! k) < iv_start (xs ! j)" using starts_increase [OF ok] j by simp
    then show ?thesis using gap(2) j by (auto simp: not_less)
  qed (use gap(2) j in \<open>simp add: not_less\<close>)
qed

lemma ranges_ok_Insert:
  assumes ok: "ranges_ok (unat (n :: u32)) xs" and p: "piece (unat n) f" and k: "k \<le> length xs"
    and lo: "\<And>j. j < k \<Longrightarrow> iv_end (xs ! j) \<le> fr_Offset f"
    and hi: "\<And>j. k \<le> j \<Longrightarrow> j < length xs \<Longrightarrow> iv_end (span_of f) \<le> iv_start (xs ! j)"
  shows "ranges_ok (unat n) (Insert xs k (span_of f))" "iv_set (span_of f) \<inter> cover xs = {}"
proof -
  have len: "0 < length (fr_Payload f)" using p by (simp add: piece_def)
  have e: "unat (iv_end (span_of f)) = unat (fr_Offset f) + length (fr_Payload f)"
    using unat_end [of f n] p by (simp add: piece_def span_of_def)
  then have own: "iv_start (span_of f) < iv_end (span_of f)" "unat (iv_end (span_of f)) \<le> unat n"
    using p len by (simp_all add: word_less_nat_alt piece_def span_of_def)
  have below: "\<forall>x \<in> set (take k xs). iv_end x \<le> iv_start (span_of f)" using lo k by (auto simp: in_set_conv_nth span_of_def)
  have above: "\<forall>x \<in> set (drop k xs). iv_end (span_of f) \<le> iv_start x" using hi by (auto simp: in_set_conv_nth)
  have split: "sorted_wrt (\<lambda>x y. iv_end x \<le> iv_start y) (take k xs @ drop k xs)" using ok by (simp add: ranges_ok_def)
  have all: "set xs = set (take k xs) \<union> set (drop k xs)" by (metis append_take_drop_id set_append)
  show "ranges_ok (unat n) (Insert xs k (span_of f))"
    using split below above own ranges_okD(1,2) [OF ok] all unfolding ranges_ok_def Insert_def sorted_wrt_append by auto
  show "iv_set (span_of f) \<inter> cover xs = {}"
  proof -
    have "iv_set (span_of f) \<inter> iv_set x = {}" if "x \<in> set xs" for x
    proof -
      have "iv_end x \<le> iv_start (span_of f) \<or> iv_end (span_of f) \<le> iv_start x" using that below above all by blast
      then show ?thesis by (auto simp: iv_set_def word_le_nat_alt)
    qed
    then show ?thesis by (auto simp: cover_def)
  qed
qed

definition asm_ok :: "assembly \<Rightarrow> bool" where
  "asm_ok a \<longleftrightarrow>
     length (as_data a) = unat (as_total a) \<and> ranges_ok (unat (as_total a)) (as_ranges a) \<and>
     unat (as_received a) = card (cover (as_ranges a))"

definition same_bytes :: "assembly \<Rightarrow> Fragment \<Rightarrow> bool" where
  "same_bytes a f \<longleftrightarrow>
     slice (unat (fr_Offset f)) (unat (fr_Offset f) + length (fr_Payload f)) (as_data a) = fr_Payload f"

lemma asm_okD:
  assumes "asm_ok a"
  shows "length (as_data a) = unat (as_total a)" "ranges_ok (unat (as_total a)) (as_ranges a)"
    "unat (as_received a) = card (cover (as_ranges a))"
  using assms by (simp_all add: asm_ok_def)

lemma inspect_eq:
  assumes ok: "asm_ok a" and p: "piece (unat (as_total a)) f"
  obtains k where "inspect a f =
      (if span_of f \<in> set (as_ranges a) then if same_bytes a f then Inr (k, True) else Inl ErrInvalid
       else if iv_set (span_of f) \<inter> cover (as_ranges a) = {} then Inr (k, False) else Inl ErrInvalid)"
    and "k \<le> length (as_ranges a)"
    and "iv_set (span_of f) \<inter> cover (as_ranges a) = {} \<Longrightarrow> ranges_ok (unat (as_total a)) (Insert (as_ranges a) k (span_of f))"
proof -
  let ?xs = "as_ranges a" and ?e = "fr_Offset f + word_of_nat (length (fr_Payload f))"
  obtain k found where s: "BinarySearch ?xs (fr_Offset f) = (k, found)" by force
  note r = asm_okD(2) [OF ok]
  note B = BinarySearch_spec [OF r s]
  have e: "unat ?e = unat (fr_Offset f) + length (fr_Payload f)" and lt: "fr_Offset f < ?e"
    using unat_end [of f "as_total a"] p by (auto simp: piece_def word_less_nat_alt)
  have sp: "iv_start (span_of f) = fr_Offset f" "iv_end (span_of f) = ?e" by (simp_all add: span_of_def)
  have hit: "found \<and> iv_end (?xs ! k) = ?e \<longleftrightarrow> span_of f \<in> set ?xs"
  proof
    assume "found \<and> iv_end (?xs ! k) = ?e"
    then have "k < length ?xs" "?xs ! k = span_of f" using B(4) by (simp_all add: span_of_def)
    then show "span_of f \<in> set ?xs" by (metis nth_mem)
  next
    assume "span_of f \<in> set ?xs"
    then obtain j where j: "j < length ?xs" "?xs ! j = span_of f" by (metis in_set_conv_nth)
    have "k \<le> j" using B(2) [of j] j sp by (auto simp: not_less [symmetric])
    moreover have "\<not> k < j"
    proof
      assume "k < j"
      then show False using starts_increase [OF r, of k j] B(3) [of k] j sp by simp
    qed
    ultimately have "j = k" by simp
    then show "found \<and> iv_end (?xs ! k) = ?e" using j sp B(4) by simp
  qed
  define gap where "gap \<longleftrightarrow> \<not> (k > 0 \<and> iv_end (?xs ! (k - 1)) > fr_Offset f) \<and> \<not> (k < length ?xs \<and> iv_start (?xs ! k) < ?e)"
  have free: "ranges_ok (unat (as_total a)) (Insert ?xs k (span_of f))" "iv_set (span_of f) \<inter> cover ?xs = {}" if gap
  proof -
    have g: "\<not> (k > 0 \<and> iv_end (?xs ! (k - 1)) > fr_Offset f)" "\<not> (k < length ?xs \<and> iv_start (?xs ! k) < iv_end (span_of f))"
      using that sp by (simp_all add: gap_def)
    note I = insert_position [OF r p s g]
    show "ranges_ok (unat (as_total a)) (Insert ?xs k (span_of f))" by (rule ranges_ok_Insert(1) [OF r p B(1) I])
    show "iv_set (span_of f) \<inter> cover ?xs = {}" by (rule ranges_ok_Insert(2) [OF r p B(1) I])
  qed
  have clash: "iv_set (span_of f) \<inter> cover ?xs \<noteq> {}" if ng: "\<not> gap"
  proof -
    consider "k > 0" "iv_end (?xs ! (k - 1)) > fr_Offset f" | "k < length ?xs" "iv_start (?xs ! k) < ?e"
      using ng by (auto simp: gap_def)
    then show ?thesis
    proof cases
      case 1
      then have "unat (fr_Offset f) \<in> iv_set (span_of f) \<inter> iv_set (?xs ! (k - 1))"
        using B(2) [of "k - 1"] lt sp by (auto simp: iv_set_def word_less_nat_alt)
      then show ?thesis using 1 B(1) by (fastforce simp: cover_def)
    next
      case 2
      then have "unat (iv_start (?xs ! k)) \<in> iv_set (span_of f) \<inter> iv_set (?xs ! k)"
        using B(3) [of k] sp ranges_okD(1) [OF r, of "?xs ! k"] by (auto simp: iv_set_def word_less_nat_alt word_le_nat_alt)
      then show ?thesis using 2 by (fastforce simp: cover_def)
    qed
  qed
  have "inspect a f =
      (if span_of f \<in> set ?xs then if same_bytes a f then Inr (k, True) else Inl ErrInvalid
       else if iv_set (span_of f) \<inter> cover ?xs = {} then Inr (k, False) else Inl ErrInvalid)"
    using free(2) clash by (auto simp: inspect_def s hit e same_bytes_def gap_def Let_def)
  then show thesis using that [of k] B(1) free(1) clash by blast
qed

text \<open>What the fragment of a nonempty datagram does when it is stored at the inspected position.\<close>

lemma nth_store:
  assumes "unat (fr_Offset f) + length (fr_Payload f) \<le> length (as_data a)" "j < length (as_data a)"
  shows "as_data (store f k a) ! j =
    (if j \<in> {unat (fr_Offset f)..<unat (fr_Offset f) + length (fr_Payload f)} then fr_Payload f ! (j - unat (fr_Offset f)) else as_data a ! j)"
  using assms by (auto simp: store_def Let_def go_copy_def nth_append)

lemma length_store [simp]:
  "unat (fr_Offset f) \<le> length (as_data a) \<Longrightarrow> length (as_data (store f k a)) = length (as_data a)"
  by (simp add: store_def Let_def)

lemma store_fields [simp]:
  "as_total (store f k a) = as_total a" "as_admitted (store f k a) = as_admitted a" "as_lease (store f k a) = as_lease a"
  "as_previous (store f k a) = as_previous a" "as_next (store f k a) = as_next a"
  "as_ranges (store f k a) = Insert (as_ranges a) k (span_of f)"
  by (simp_all add: store_def Let_def span_of_def)

lemma asm_ok_store:
  assumes ok: "asm_ok a" and p: "piece (unat (as_total a)) f"
    and ins: "ranges_ok (unat (as_total a)) (Insert (as_ranges a) k (span_of f))" and free: "iv_set (span_of f) \<inter> cover (as_ranges a) = {}"
  shows "asm_ok (store f k a)" "cover (as_ranges (store f k a)) = iv_set (span_of f) \<union> cover (as_ranges a)"
proof -
  show c: "cover (as_ranges (store f k a)) = iv_set (span_of f) \<union> cover (as_ranges a)" by (simp add: cover_Insert)
  have b: "unat (fr_Offset f) + length (fr_Payload f) \<le> unat (as_total a)" using p by (simp add: piece_def)
  have card: "card (cover (as_ranges (store f k a))) = card (cover (as_ranges a)) + length (fr_Payload f)"
    using card_Un_disjoint [OF _ _ free] span_of_set [OF b] unfolding c by simp
  have "card (cover (as_ranges (store f k a))) \<le> card {..<unat (as_total a)}"
    by (rule card_mono) (use cover_bound [OF ins] in auto)
  then have "unat (as_received a) + length (fr_Payload f) < 2 ^ 32"
    using card asm_okD(3) [OF ok] unat_less_u32 [of "as_total a"] by simp
  then have "unat (as_received (store f k a)) = card (cover (as_ranges (store f k a)))"
    using card asm_okD(3) [OF ok] by (simp add: store_def Let_def unat_word_ariths unat_of_nat)
  then show "asm_ok (store f k a)" using ins asm_okD(1) [OF ok] b by (simp add: asm_ok_def)
qed

lemma full_cover:
  assumes "asm_ok a"
  shows "as_received a = as_total a \<longleftrightarrow> cover (as_ranges a) = {..<unat (as_total a)}"
proof -
  note D = asm_okD [OF assms] and b = cover_bound [OF asm_okD(2) [OF assms]]
  have "cover (as_ranges a) = {..<unat (as_total a)}" if "card (cover (as_ranges a)) = unat (as_total a)"
    by (rule card_subset_eq) (use that b in auto)
  moreover have "as_received a = as_total a \<longleftrightarrow> card (cover (as_ranges a)) = unat (as_total a)"
    unfolding D(3) [symmetric] by (rule word_unat_eq_iff)
  ultimately show ?thesis by (metis card_lessThan)
qed

text \<open>\<open>matches orig a\<close>: every byte received so far is the byte of the original datagram.\<close>

definition matches :: "bytes \<Rightarrow> assembly \<Rightarrow> bool" where
  "matches orig a \<longleftrightarrow> length orig = unat (as_total a) \<and> (\<forall>j \<in> cover (as_ranges a). as_data a ! j = orig ! j)"

definition fragment_of :: "bytes \<Rightarrow> Fragment \<Rightarrow> bool" where
  "fragment_of orig f \<longleftrightarrow>
     unat (fr_TotalBytes f) = length orig \<and> unat (fr_Offset f) + length (fr_Payload f) \<le> length orig \<and>
     fr_Payload f = slice (unat (fr_Offset f)) (unat (fr_Offset f) + length (fr_Payload f)) orig"

lemma fragment_nth:
  assumes "fragment_of orig f" "j < length (fr_Payload f)"
  shows "fr_Payload f ! j = orig ! (unat (fr_Offset f) + j)"
proof -
  have "fr_Payload f ! j = slice (unat (fr_Offset f)) (unat (fr_Offset f) + length (fr_Payload f)) orig ! j"
    using assms(1) by (metis fragment_of_def)
  then show ?thesis using assms by (simp add: slice_def fragment_of_def)
qed

lemma matches_store:
  assumes m: "matches orig a" and f: "fragment_of orig f" and len: "length (as_data a) = unat (as_total a)"
    and c: "cover (as_ranges a) \<subseteq> {..<unat (as_total a)}"
  shows "matches orig (store f k a)"
proof -
  have b: "unat (fr_Offset f) + length (fr_Payload f) \<le> unat (as_total a)" and n: "length orig = unat (as_total a)"
    using m f by (auto simp: matches_def fragment_of_def)
  have "as_data (store f k a) ! j = orig ! j" if j: "j \<in> iv_set (span_of f) \<union> cover (as_ranges a)" for j
  proof -
    have "j < length (as_data a)" using j c b len span_of_set [OF b] by auto
    then show ?thesis
      using j m fragment_nth [OF f, of "j - unat (fr_Offset f)"] len b
      by (auto simp: nth_store span_of_set [OF b] matches_def)
  qed
  then show ?thesis using n by (simp add: matches_def cover_Insert)
qed

end
