(* ===== verification/LeaseScope.thy ===== *)
theory LeaseScope
  imports CreditUse
begin

text \<open>
  The credit ledger as its clients see it: a partial map from live leases to their owner and claim,
  on which reserving adds one fresh entry, shrinking lowers one entry and releasing removes one.
  \<open>lease_provider\<close> is that contract; the v2 reassembly is written against it.
\<close>

subsection \<open>The contract\<close>

locale lease_provider =
  fixes view :: "'l \<Rightarrow> 'h \<Rightarrow> ('s \<times> 'c) option"
    and invar :: "'l \<Rightarrow> bool"
    and scope :: "'l \<Rightarrow> 's \<Rightarrow> bool"
    and reserve :: "'s \<Rightarrow> 'c \<Rightarrow> 'l \<Rightarrow> ('e, 'h) result \<times> 'l"
    and release :: "'h \<Rightarrow> 'l \<Rightarrow> 'l"
  assumes reserve_ok: "invar p \<Longrightarrow> scope p s \<Longrightarrow> reserve s c p = (Inr h, p') \<Longrightarrow>
      invar p' \<and> view p h = None \<and> view p' = (view p)(h \<mapsto> (s, c)) \<and> scope p' = scope p"
    and reserve_err: "reserve s c p = (Inl e, p') \<Longrightarrow> p' = p"
    and release_live: "invar p \<Longrightarrow> view p h = Some x \<Longrightarrow>
      invar (release h p) \<and> view (release h p) = (view p)(h := None) \<and> scope (release h p) = scope p"
begin

text \<open>Releasing a list of distinct live leases removes exactly these.\<close>

lemma release_all:
  "invar p \<Longrightarrow> distinct hs \<Longrightarrow> (\<And>h. h \<in> set hs \<Longrightarrow> view p h \<noteq> None) \<Longrightarrow>
   invar (fold release hs p) \<and> view (fold release hs p) = (\<lambda>h. if h \<in> set hs then None else view p h) \<and>
   scope (fold release hs p) = scope p"
proof (induction hs arbitrary: p)
  case (Cons h hs)
  obtain x where x: "view p h = Some x" using Cons.prems(3) [of h] by auto
  note r = release_live [OF Cons.prems(1) x]
  have "invar (fold release hs (release h p)) \<and>
      view (fold release hs (release h p)) = (\<lambda>j. if j \<in> set hs then None else view (release h p) j) \<and>
      scope (fold release hs (release h p)) = scope (release h p)"
    using r Cons.prems by (intro Cons.IH) auto
  then show ?case using r Cons.prems(2) by (auto simp: fun_eq_iff)
qed simp

lemma reserve_keeps:
  assumes "invar p" "scope p s" "reserve s c p = (Inr h, p')" "view p h' = Some x"
  shows "h' \<noteq> h" "view p' h' = Some x"
  using reserve_ok [OF assms(1-3)] assms(4) by auto

end

subsection \<open>The ledger provides it\<close>

definition leases_of :: "Ledger \<Rightarrow> handle \<Rightarrow> (nat \<times> Claim) option" where
  "leases_of p h =
     (case h of
        None \<Rightarrow> None
      | Some (q, l) \<Rightarrow>
          if q = lg_peer p \<and> l < length (lg_leases p) \<and> \<not> ls_released (lg_leases p ! l)
          then Some (the (ls_owner (lg_leases p ! l)), ls_claim (lg_leases p ! l)) else None)"

definition session_of :: "Ledger \<Rightarrow> nat \<Rightarrow> bool" where
  "session_of p s \<longleftrightarrow> s < length (lg_sessions p)"

definition reserve_in :: "nat \<Rightarrow> Claim \<Rightarrow> Ledger \<Rightarrow> (credit_error, handle) result \<times> Ledger" where
  "reserve_in s c p = Session_Reserve (Some (lg_peer p, s)) c p"

lemma leases_of_None [simp]: "leases_of p None = None"
  by (simp add: leases_of_def)

lemma leases_of_SomeE:
  assumes "leases_of p h = Some (s, c)"
  obtains l where "h = Some (lg_peer p, l)" "l < length (lg_leases p)" "\<not> ls_released (lg_leases p ! l)"
    "s = the (ls_owner (lg_leases p ! l))" "c = ls_claim (lg_leases p ! l)"
  using assms by (auto simp: leases_of_def split: option.splits prod.splits if_splits)

lemma reserve_outcomes:
  "(\<exists>e. reserve_in s c p = (Inl e, p)) \<or>
   reserve_in s c p = (Inr (Some (lg_peer p, length (lg_leases p))), chargeLocked s c (p\<lparr>lg_leases := lg_leases p @ [newLease s c]\<rparr>))"
  by (auto simp: reserve_in_def Session_Reserve_def split: option.split)

lemma retire_more_fields [simp]: "lg_peer (retireLocked s p) = lg_peer p" "lg_limits (retireLocked s p) = lg_limits p"
  by (simp_all add: retireLocked_def Let_def)

lemma release_leases:
  assumes "\<not> ls_released (lg_leases p ! l)"
  shows "lg_leases (Lease_Release (Some (q, l)) p) =
      (lg_leases p)[l := (lg_leases p ! l)\<lparr>ls_released := True, ls_owner := None, ls_claim := zeroClaim\<rparr>]"
    "lg_peer (Lease_Release (Some (q, l)) p) = lg_peer p"
    "length (lg_sessions (Lease_Release (Some (q, l)) p)) = length (lg_sessions p)"
  using assms by (simp_all add: Lease_Release_def Let_def on_session_usage_def)

interpretation ledger_scope: lease_provider leases_of ledger_inv session_of reserve_in Lease_Release
proof
  fix p p' s c h assume inv: "ledger_inv p" and s: "session_of p s" and r: "reserve_in s c p = (Inr h, p')"
  have p': "h = Some (lg_peer p, length (lg_leases p))" "p' = chargeLocked s c (p\<lparr>lg_leases := lg_leases p @ [newLease s c]\<rparr>)"
    using r reserve_outcomes [of s c p] by auto
  have "ledger_inv p'"
    using Reserve_inv [OF inv, of "Some (lg_peer p, s)" c] r s
    by (simp add: reserve_in_def session_handle_def own_handle_def session_of_def)
  then show "ledger_inv p' \<and> leases_of p h = None \<and> leases_of p' = (leases_of p)(h \<mapsto> (s, c)) \<and> session_of p' = session_of p"
    by (auto simp: p' leases_of_def charge_fields session_of_def fun_eq_iff newLease_def nth_append split: option.splits)
next
  fix p p' s c e assume "reserve_in s c p = (Inl e, p')"
  then show "p' = p" using reserve_outcomes [of s c p] by auto
next
  fix p h x assume inv: "ledger_inv p" and x: "leases_of p h = Some x"
  obtain s c where sc: "x = (s, c)" by force
  obtain l where l: "h = Some (lg_peer p, l)" "l < length (lg_leases p)" "\<not> ls_released (lg_leases p ! l)"
    using x sc by (auto elim: leases_of_SomeE)
  have "ledger_inv (Lease_Release h p)"
    by (rule Release_inv [OF inv]) (use l in \<open>simp_all add: lease_handle_def own_handle_def\<close>)
  then show "ledger_inv (Lease_Release h p) \<and> leases_of (Lease_Release h p) = (leases_of p)(h := None) \<and>
      session_of (Lease_Release h p) = session_of p"
    using l by (auto simp: leases_of_def session_of_def fun_eq_iff release_leases nth_list_update split: option.splits)
qed

lemma Release_None [simp]: "Lease_Release None p = p"
  by (simp add: Lease_Release_def)

lemma shrink_live:
  assumes inv: "ledger_inv p" and h: "leases_of p h = Some (s, c)" and n: "n \<le> cl_Bytes c"
  shows "\<exists>p'. Lease_ShrinkBytes h n p = (None, p') \<and> ledger_inv p' \<and>
    leases_of p' = (leases_of p)(h \<mapsto> (s, c\<lparr>cl_Bytes := n\<rparr>)) \<and> session_of p' = session_of p \<and> lg_peer p' = lg_peer p"
proof -
  obtain l where l: "h = Some (lg_peer p, l)" "l < length (lg_leases p)" "\<not> ls_released (lg_leases p ! l)"
    "s = the (ls_owner (lg_leases p ! l))" "c = ls_claim (lg_leases p ! l)"
    using h by (rule leases_of_SomeE)
  obtain p' where p': "Lease_ShrinkBytes h n p = (None, p')"
    "lg_leases p' = (lg_leases p)[l := (lg_leases p ! l)\<lparr>ls_claim := (ls_claim (lg_leases p ! l))\<lparr>cl_Bytes := n\<rparr>\<rparr>]"
    "length (lg_sessions p') = length (lg_sessions p)" "lg_peer p' = lg_peer p"
    using l n by (simp add: Lease_ShrinkBytes_def Let_def on_session_usage_def not_less)
  have "ledger_inv p'"
    using ShrinkBytes_inv [OF inv, of h n] p'(1) l by (simp add: lease_handle_def own_handle_def)
  then show ?thesis
    using p' l by (auto simp: leases_of_def session_of_def fun_eq_iff nth_list_update split: option.splits)
qed

text \<open>Reserving and releasing leaves nothing behind but a dead lease.\<close>

definition dead_lease :: leaseState where
  "dead_lease = \<lparr>ls_owner = None, ls_claim = zeroClaim, ls_acceptReserved = False, ls_bound = False, ls_released = True\<rparr>"

text \<open>The ledger after \<open>d\<close> released and then the reservations \<open>cs\<close> on session \<open>s\<close> since \<open>p\<close>.\<close>

definition owing :: "nat \<Rightarrow> Claim list \<Rightarrow> nat \<Rightarrow> Ledger \<Rightarrow> Ledger" where
  "owing s cs d p =
     p\<lparr>lg_usage := (lg_usage p)\<lparr>ps_Usage := fold addClaim cs (ps_Usage (lg_usage p))\<rparr>,
       lg_sessions := (lg_sessions p)[s := (lg_sessions p ! s)\<lparr>ss_usage := fold addClaim cs (ss_usage (lg_sessions p ! s))\<rparr>],
       lg_leases := lg_leases p @ replicate d dead_lease @ map (newLease s) cs\<rparr>"

lemma owing_start: "owing s [] 0 p = p"
  by (simp add: owing_def)

lemma addClaim_commute: "addClaim c (addClaim d u) = addClaim d (addClaim c u)"
  by (simp add: addClaim_def add_ac)

lemma fold_addClaim: "fold addClaim cs (addClaim c u) = addClaim c (fold addClaim cs u)"
proof (induction cs arbitrary: u)
  case (Cons a cs)
  have "fold addClaim (a # cs) (addClaim c u) = fold addClaim cs (addClaim c (addClaim a u))"
    by (simp add: addClaim_commute [of a c])
  with Cons.IH [of "addClaim a u"] show ?case by simp
qed simp

lemma subtract_add: "subtractClaim c (addClaim c u) = u"
  by (simp add: subtractClaim_def addClaim_def)

lemma reserve_owing:
  assumes "reserve_in s c (owing s cs 0 p) = (Inr h, p')" "s < length (lg_sessions p)"
  shows "h = Some (lg_peer p, length (lg_leases p) + length cs)" "p' = owing s (cs @ [c]) 0 p"
  using reserve_outcomes [of s c "owing s cs 0 p"] assms
  by (auto simp: owing_def chargeLocked_def on_session_usage_def on_session_def on_usage_def)

lemma release_owing:
  assumes "\<not> ss_closed (lg_sessions p ! s)" "s < length (lg_sessions p)" "\<not> cl_PendingAccept c"
  shows "Lease_Release (Some (q, length (lg_leases p) + d)) (owing s (c # cs) d p) = owing s cs (Suc d) p"
proof -
  let ?p = "owing s (c # cs) d p" and ?l = "length (lg_leases p) + d"
  have lease: "lg_leases ?p ! ?l = newLease s c" by (simp add: owing_def nth_append)
  have upd: "(lg_leases ?p)[?l := dead_lease] = lg_leases (owing s cs (Suc d) p)"
    by (simp add: owing_def list_update_append replicate_app_Cons_same)
  have "(newLease s c)\<lparr>ls_released := True, ls_owner := None, ls_claim := zeroClaim\<rparr> = dead_lease"
    using assms(3) by (simp add: newLease_def dead_lease_def)
  then show ?thesis
    using lease upd assms(1,2)
    by (simp add: Lease_Release_def Let_def newLease_def retireLocked_def on_session_usage_def on_session_def on_usage_def
        on_lease_def owing_def fold_addClaim subtract_add)
qed

lemma rollback_owing:
  assumes "\<not> ss_closed (lg_sessions p ! s)" "s < length (lg_sessions p)" "\<forall>c \<in> set cs. \<not> cl_PendingAccept c"
  shows "fold Lease_Release (map (\<lambda>k. Some (lg_peer p, length (lg_leases p) + k)) [d..<d + length cs]) (owing s cs d p) =
    owing s [] (d + length cs) p"
  using assms(3)
proof (induction cs arbitrary: d)
  case (Cons c cs)
  have "[d..<d + length (c # cs)] = d # [Suc d..<Suc d + length cs]"
    using upt_conv_Cons [of d "d + length (c # cs)"] by simp
  then have "fold Lease_Release (map (\<lambda>k. Some (lg_peer p, length (lg_leases p) + k)) [d..<d + length (c # cs)]) (owing s (c # cs) d p)
      = fold Lease_Release (map (\<lambda>k. Some (lg_peer p, length (lg_leases p) + k)) [Suc d..<Suc d + length cs]) (owing s cs (Suc d) p)"
    using Cons.prems release_owing [OF assms(1,2), of c "lg_peer p" d cs] by (simp del: upt_Suc add_Suc)
  then show ?case using Cons.IH [of "Suc d"] Cons.prems by simp
qed simp

lemma owing_nothing: "owing s [] d p = p\<lparr>lg_leases := lg_leases p @ replicate d dead_lease\<rparr>"
  by (simp add: owing_def)

subsection \<open>Other users of the ledger\<close>

lemma ledger_step_keeps:
  assumes "ledger_step p p'"
  shows "lg_peer p' = lg_peer p \<and> length (lg_sessions p) \<le> length (lg_sessions p')"
proof -
  obtain op where op: "op_ok p op" "p' = snd (ledger_apply op p)" using assms by (rule ledger_stepE)
  have fold: "lg_peer (fold (\<lambda>s p. retireLocked s (on_session s g p)) ss q) = lg_peer q \<and>
      length (lg_sessions (fold (\<lambda>s p. retireLocked s (on_session s g p)) ss q)) = length (lg_sessions q)" for g ss q
    by (induction ss arbitrary: q) simp_all
  show ?thesis
  proof (cases op)
    case (OpBegin c b)
    then show ?thesis using op(2)
      by (auto simp: failed_def BeginHandshake_def BeginSession_def Peer_begin_def charge_fields Let_def split: option.splits)
  qed (use op(2) fold in \<open>auto simp: failed_def Session_Promote_def Session_Reserve_def Session_BindBytes_def Lease_Transfer_def
      Lease_MarkAccepted_def Lease_ShrinkBytes_def Lease_Release_def Session_Close_def Peer_Close_def charge_fields
      on_session_usage_def Let_def split: option.splits prod.splits\<close>)
qed

end
