(* ===== verification/ReassemblyInv.thy ===== *)
theory ReassemblyInv
  imports FragmentRanges LeaseScope
begin

text \<open>
  The invariant of the v2 reassembly receiver: the deadline list is in admission order, every pending
  assembly is incomplete, within its limits and holds its own live lease for exactly its charge, and its
  identifier can still be finished in the terminal history. The removal of an assembly, the admission of
  a new one and the storing of a fragment each keep it.
\<close>

subsection \<open>The history window\<close>

definition id_ok :: "Window \<Rightarrow> u64 \<Rightarrow> bool" where
  "id_ok w i \<longleftrightarrow> i \<noteq> 0 \<and> i \<le> win_highest w \<and> State w i \<in> {Unseen, Retired}"

lemma admit_window:
  assumes inv: "window_inv w" and opn: "window_open w" and un: "State w i = Unseen"
  shows "window_inv (snd (Admit w i))" "window_open (snd (Admit w i))" "id_ok (snd (Admit w i)) i"
    "id_ok w j \<Longrightarrow> id_ok (snd (Admit w i)) j"
    "i < j \<Longrightarrow> State w j = Unseen \<Longrightarrow> State (snd (Admit w i)) j = Unseen"
proof -
  obtain st w' where r: "Admit w i = (st, w')" by force
  have nz: "i \<noteq> 0" using un State_iff [OF inv opn, of i] by auto
  have goal: "window_inv w' \<and> window_open w' \<and> id_ok w' i \<and> (id_ok w j \<longrightarrow> id_ok w' j) \<and>
      (i < j \<longrightarrow> State w j = Unseen \<longrightarrow> State w' j = Unseen)"
  proof (cases "win_highest w < i")
    case True
    note A = Admit_advance [OF inv opn True r] and S = Admit_status [OF inv opn True r]
    have span: "0 < unat (win_span w)" using opn by (simp add: window_open_def unat_gt_0)
    have "1 \<le> unat i" using nz by (metis One_nat_def Suc_le_eq unat_gt_0)
    then have fl: "unat (Floor w') \<le> unat i" using S span by simp
    then have "\<not> i < Floor w'" "i < j \<Longrightarrow> \<not> j < Floor w'" by (simp_all add: word_less_nat_alt)
    then show ?thesis using A S True nz un by (auto simp: id_ok_def)
  next
    case False
    then have "w' = w" using r Admit_other [of w i] by (simp add: not_less)
    then show ?thesis using inv opn un nz False by (simp add: id_ok_def)
  qed
  then show "window_inv (snd (Admit w i))" "window_open (snd (Admit w i))" "id_ok (snd (Admit w i)) i"
    "id_ok w j \<Longrightarrow> id_ok (snd (Admit w i)) j"
    "i < j \<Longrightarrow> State w j = Unseen \<Longrightarrow> State (snd (Admit w i)) j = Unseen"
    by (simp_all add: r)
qed

lemma finish_window:
  assumes inv: "window_inv w" and opn: "window_open w" and i: "id_ok w i" and t: "t \<in> {Completed, Expired}"
  shows "window_inv (snd (Finish w i t))" "window_open (snd (Finish w i t))"
    "State (snd (Finish w i t)) i \<in> {t, Retired}" "j \<noteq> i \<Longrightarrow> State (snd (Finish w i t)) j = State w j"
    "j \<noteq> i \<Longrightarrow> id_ok w j \<Longrightarrow> id_ok (snd (Finish w i t)) j"
proof -
  obtain b w' where r: "Finish w i t = (b, w')" by force
  have ii: "i \<noteq> 0" "i \<le> win_highest w" using i by (auto simp: id_ok_def)
  note S = Finish_status [OF inv opn ii t r]
  have goal: "window_inv w' \<and> window_open w' \<and> win_highest w' = win_highest w"
  proof (cases "State w i = Unseen")
    case True
    then show ?thesis using Finish_records [OF inv opn t ii True r] by blast
  next
    case False
    then have "w' = w" using Finish_other [of w t i] r by auto
    then show ?thesis using inv opn by simp
  qed
  then show "window_inv (snd (Finish w i t))" "window_open (snd (Finish w i t))" by (simp_all add: r)
  show "State (snd (Finish w i t)) i \<in> {t, Retired}" using S i by (auto simp: r id_ok_def)
  show st: "j \<noteq> i \<Longrightarrow> State (snd (Finish w i t)) j = State w j" using S by (simp add: r)
  show "j \<noteq> i \<Longrightarrow> id_ok w j \<Longrightarrow> id_ok (snd (Finish w i t)) j" using st goal by (simp add: r id_ok_def)
qed

text \<open>Terminal identifiers stay terminal.\<close>

definition retired :: "Window \<Rightarrow> u64 \<Rightarrow> bool" where
  "retired w i \<longleftrightarrow> State w i \<in> {Completed, Expired, Retired}"

lemma retired_stays:
  assumes "window_inv w" "retired w i" "window_open (window_apply w op)"
  shows "retired (window_apply w op) i"
proof -
  have "status_le (State w i) (State (window_apply w op) i)" by (rule State_apply [OF assms(1)])
  moreover have "State (window_apply w op) i \<noteq> Closed" using assms(3) by (simp add: Closed_iff)
  ultimately show ?thesis using assms(2) by (cases "State w i") (auto simp: retired_def)
qed

lemma retired_on_admit: "window_inv w \<Longrightarrow> window_open w \<Longrightarrow> State w j = Unseen \<Longrightarrow> retired w i \<Longrightarrow> retired (snd (Admit w j)) i"
  using retired_stays [of w i "OpAdmit j"] admit_window(2) [of w j] by simp

lemma retired_on_finish:
  "window_inv w \<Longrightarrow> window_open w \<Longrightarrow> id_ok w j \<Longrightarrow> t \<in> {Completed, Expired} \<Longrightarrow> retired w i \<Longrightarrow> retired (snd (Finish w j t)) i"
  using retired_stays [of w i "OpFinish j t"] finish_window(2) [of w j t] by simp

subsection \<open>Contents and invariant\<close>

text \<open>The contents of the \<open>pending\<close> map without the links.\<close>

definition pend :: "Receiver \<Rightarrow> u64 \<Rightarrow> assembly option" where
  "pend r i = map_option core (map_of (rv_pending r) i)"

definition charge_of :: "Limits \<Rightarrow> u32 \<Rightarrow> u64" where
  "charge_of L n = ucast n + word_of_int (rl_MaxFragments L) * intervalBytes + deadlineLinkBytes"

lemma charge_eq: "charge r f = charge_of (rv_limits r) (fr_TotalBytes f)"
  by (simp add: charge_def charge_of_def)

definition limits_valid :: "Limits \<Rightarrow> bool" where
  "limits_valid L \<longleftrightarrow> (\<exists>n. RequiredInitialBytes L = Inr n)"

definition body_ok :: "Limits \<Rightarrow> assembly \<Rightarrow> bool" where
  "body_ok L a \<longleftrightarrow>
     asm_ok a \<and> as_received a \<noteq> as_total a \<and> int (length (as_ranges a)) \<le> rl_MaxFragments L \<and>
     unat (as_total a) \<le> nat (rl_MaxDatagramBytes L)"

definition held_ok :: "Receiver \<Rightarrow> Ledger \<Rightarrow> nat \<Rightarrow> u64 \<Rightarrow> assembly \<Rightarrow> bool" where
  "held_ok r lg s i a \<longleftrightarrow>
     id_ok (rv_window r) i \<and> leases_of lg (as_lease a) = Some (s, bytesClaim (charge_of (rv_limits r) (as_total a))) \<and>
     rv_haveTime r \<and> as_admitted a \<le> rv_last r"

definition admitted_at :: "Receiver \<Rightarrow> u64 \<Rightarrow> int" where
  "admitted_at r i = as_admitted (the (pend r i))"

definition deadlines :: "Receiver \<Rightarrow> u64 list \<Rightarrow> bool" where
  "deadlines r order \<longleftrightarrow> links r order \<and> sorted (map (admitted_at r) order)"

text \<open>The invariant of an open receiver and the ledger; the bodies of the identifiers in \<open>X\<close> may be in transit.\<close>

definition recv_core :: "u64 set \<Rightarrow> Receiver \<Rightarrow> Ledger \<Rightarrow> nat \<Rightarrow> bool" where
  "recv_core X r lg s \<longleftrightarrow>
     limits_valid (rv_limits r) \<and> window_inv (rv_window r) \<and> window_open (rv_window r) \<and>
     ledger_inv lg \<and> rv_scope r = Some (lg_peer lg, s) \<and> session_of lg s \<and> (\<exists>order. deadlines r order) \<and>
     (\<forall>i a. pend r i = Some a \<longrightarrow> held_ok r lg s i a \<and> (i \<notin> X \<longrightarrow> body_ok (rv_limits r) a)) \<and>
     (\<forall>i j a b. pend r i = Some a \<and> pend r j = Some b \<and> as_lease a = as_lease b \<longrightarrow> i = j)"

lemma recv_coreD:
  assumes "recv_core X r lg s"
  shows "limits_valid (rv_limits r)" "window_inv (rv_window r)" "window_open (rv_window r)" "ledger_inv lg"
    "rv_scope r = Some (lg_peer lg, s)" "session_of lg s" "\<exists>order. deadlines r order"
    "\<And>i a. pend r i = Some a \<Longrightarrow> held_ok r lg s i a" "\<And>i a. pend r i = Some a \<Longrightarrow> i \<notin> X \<Longrightarrow> body_ok (rv_limits r) a"
    "\<And>i j a b. pend r i = Some a \<Longrightarrow> pend r j = Some b \<Longrightarrow> as_lease a = as_lease b \<Longrightarrow> i = j"
  using assms unfolding recv_core_def by blast+

lemma pend_Some: "map_of (rv_pending r) i = Some a \<Longrightarrow> pend r i = Some (core a)"
  by (simp add: pend_def)

lemma core_fields [simp]:
  "as_total (core a) = as_total a" "as_admitted (core a) = as_admitted a" "as_data (core a) = as_data a"
  "as_ranges (core a) = as_ranges a" "as_received (core a) = as_received a" "as_lease (core a) = as_lease a"
  by (simp_all add: core_def)

lemma core_core [simp]: "core (core a) = core a"
  by (simp add: core_def)

lemma asm_ok_core [simp]: "asm_ok (core a) = asm_ok a"
  by (simp add: asm_ok_def)

lemma body_ok_core [simp]: "body_ok L (core a) = body_ok L a"
  by (simp add: body_ok_def)

lemma matches_core [simp]: "matches orig (core a) = matches orig a"
  by (simp add: matches_def)

lemma inspect_core [simp]: "inspect (core a) f = inspect a f"
  by (simp only: inspect_def core_fields)

lemma core_store: "core (store f k a) = store f k (core a)"
  by (simp add: store_def core_def Let_def)

lemma dom_pend: "dom (pend r) = set (keys (rv_pending r))"
proof -
  have "dom (pend r) = dom (map_of (rv_pending r))" by (auto simp: pend_def)
  then show ?thesis by (simp add: dom_map_of_conv_image_fst)
qed

lemma length_pending: "distinct (keys (rv_pending r)) \<Longrightarrow> length (rv_pending r) = card (dom (pend r))"
  unfolding dom_pend by (metis distinct_card length_map)

lemma links_fields [simp]:
  "links (r\<lparr>rv_window := w\<rparr>) order = links r order" "links (r\<lparr>rv_last := t, rv_haveTime := b\<rparr>) order = links r order"
  "links (r\<lparr>rv_closed := b\<rparr>) order = links r order"
  by (simp_all add: links_def)

lemma pend_fields [simp]:
  "pend (r\<lparr>rv_window := w\<rparr>) = pend r" "pend (r\<lparr>rv_last := t, rv_haveTime := b\<rparr>) = pend r" "pend (r\<lparr>rv_closed := b\<rparr>) = pend r"
  by (simp_all add: pend_def fun_eq_iff)

text \<open>A change of the ledger elsewhere.\<close>

lemma recv_core_ledger:
  assumes "recv_core X r lg s" "ledger_inv lg'" "lg_peer lg' = lg_peer lg" "session_of lg' s"
    and "\<And>i a. pend r i = Some a \<Longrightarrow> leases_of lg' (as_lease a) = leases_of lg (as_lease a)"
  shows "recv_core X r lg' s"
  using assms unfolding recv_core_def held_ok_def by auto

subsection \<open>Removing an assembly\<close>

lemma deadlines_remove:
  assumes d: "deadlines r order" and a: "map_of (rv_pending r) i = Some a"
    and r': "r' = removePending i a (r\<lparr>rv_window := w\<rparr>)"
  shows "pend r' = (pend r)(i := None)" "\<exists>xs ys. order = xs @ i # ys \<and> deadlines r' (xs @ ys)"
proof -
  have l: "links r order" using d by (simp add: deadlines_def)
  have "i \<in> set order" using a linksD(4) [OF l] by (metis fst_conv image_eqI map_of_SomeD set_map)
  then obtain xs ys where o: "order = xs @ i # ys" by (meson split_list)
  have lw: "links (r\<lparr>rv_window := w\<rparr>) (xs @ i # ys)" using l o by simp
  have aw: "map_of (rv_pending (r\<lparr>rv_window := w\<rparr>)) i = Some a" using a by simp
  show p: "pend r' = (pend r)(i := None)"
    using core_removePending [OF lw aw] by (auto simp: pend_def r' fun_eq_iff)
  have "i \<notin> set xs" "i \<notin> set ys" using linksD(2) [OF lw] by auto
  then have "map (admitted_at r') (xs @ ys) = map (admitted_at r) (xs @ ys)" by (auto simp: admitted_at_def p)
  moreover have "sorted (map (admitted_at r) (xs @ ys))" using d o by (simp add: deadlines_def sorted_append)
  ultimately have "sorted (map (admitted_at r') (xs @ ys))" by (simp only:)
  then show "\<exists>xs ys. order = xs @ i # ys \<and> deadlines r' (xs @ ys)"
    using o links_removePending [OF lw aw] by (auto simp: deadlines_def r')
qed

lemma recv_core_remove:
  assumes core: "recv_core X r lg s" and X: "X \<subseteq> {i}" and a: "map_of (rv_pending r) i = Some a" and t: "t \<in> {Completed, Expired}"
    and r': "r' = removePending i a (r\<lparr>rv_window := snd (Finish (rv_window r) i t)\<rparr>)"
  shows "recv_core {} r' lg s" "pend r' = (pend r)(i := None)" "rv_limits r' = rv_limits r" "rv_last r' = rv_last r"
    "rv_haveTime r' = rv_haveTime r" "rv_closed r' = rv_closed r" "rv_windowLease r' = rv_windowLease r"
    "State (rv_window r') i \<in> {t, Retired}" "\<And>j. j \<noteq> i \<Longrightarrow> State (rv_window r') j = State (rv_window r) j"
    "\<And>j. retired (rv_window r) j \<Longrightarrow> retired (rv_window r') j"
proof -
  note D = recv_coreD [OF core]
  obtain order where o: "deadlines r order" using D(7) by blast
  note rem = deadlines_remove [OF o a r']
  have iok: "id_ok (rv_window r) i" using D(8) [OF pend_Some [OF a]] by (simp add: held_ok_def)
  note F = finish_window [OF D(2,3) iok t]
  have w: "rv_window r' = snd (Finish (rv_window r) i t)" by (simp add: r')
  show p: "pend r' = (pend r)(i := None)" by (rule rem(1))
  show f: "rv_limits r' = rv_limits r" "rv_last r' = rv_last r" "rv_haveTime r' = rv_haveTime r"
    "rv_closed r' = rv_closed r" "rv_windowLease r' = rv_windowLease r" by (simp_all add: r')
  show "State (rv_window r') i \<in> {t, Retired}" "\<And>j. j \<noteq> i \<Longrightarrow> State (rv_window r') j = State (rv_window r) j"
    using F(3,4) by (simp_all add: w)
  show "\<And>j. retired (rv_window r) j \<Longrightarrow> retired (rv_window r') j" using retired_on_finish [OF D(2,3) iok t] by (simp add: w)
  have "held_ok r' lg s j b \<and> body_ok (rv_limits r') b" if "pend r' j = Some b" for j b
  proof -
    have j: "j \<noteq> i" "pend r j = Some b" using that p by (auto split: if_splits)
    then show ?thesis using D(8,9) [OF j(2)] X F(5) [OF j(1)] f by (auto simp: held_ok_def w)
  qed
  moreover have "\<exists>order. deadlines r' order" using rem(2) by blast
  moreover have "rv_scope r' = rv_scope r" by (simp add: r')
  ultimately show "recv_core {} r' lg s"
    using D F(1,2) p unfolding recv_core_def w f by (auto split: if_splits)
qed

subsection \<open>Admitting an assembly\<close>

lemma recv_core_add:
  assumes core: "recv_core {} r lg s" and new: "pend r i = None" and un: "State (rv_window r) i = Unseen"
    and a: "as_next a = 0" "leases_of lg (as_lease a) = Some (s, bytesClaim (charge_of (rv_limits r) (as_total a)))"
      "as_admitted a = rv_last r" and time: "rv_haveTime r"
    and own: "\<And>j b. pend r j = Some b \<Longrightarrow> as_lease b \<noteq> as_lease a"
    and r': "r' = addPending i a (r\<lparr>rv_window := snd (Admit (rv_window r) i)\<rparr>)"
  shows "recv_core {i} r' lg s" "pend r' = (pend r)(i \<mapsto> core a)"
    "\<And>j. i < j \<Longrightarrow> State (rv_window r) j = Unseen \<Longrightarrow> State (rv_window r') j = Unseen"
    "\<And>j. retired (rv_window r) j \<Longrightarrow> retired (rv_window r') j"
proof -
  note D = recv_coreD [OF core]
  note A = admit_window [OF D(2,3) un]
  obtain order where o: "deadlines r order" using D(7) by blast
  then have l: "links (r\<lparr>rv_window := snd (Admit (rv_window r) i)\<rparr>) order" by (simp add: deadlines_def)
  have dom: "set order = dom (pend r)" using linksD(4) [OF l] dom_pend [of r] by simp
  have ni: "i \<notin> set order" and nz: "i \<noteq> 0" using new dom A(3) by (auto simp: id_ok_def)
  show p: "pend r' = (pend r)(i \<mapsto> core a)"
    using core_addPending [of i _ a "r\<lparr>rv_window := snd (Admit (rv_window r) i)\<rparr>"]
    by (auto simp: pend_def r' fun_eq_iff map_of_addPending)
  have w: "rv_window r' = snd (Admit (rv_window r) i)" by (simp add: r')
  have f: "rv_limits r' = rv_limits r" "rv_last r' = rv_last r" "rv_haveTime r' = rv_haveTime r" "rv_scope r' = rv_scope r" by (simp_all add: r')
  show "\<And>j. i < j \<Longrightarrow> State (rv_window r) j = Unseen \<Longrightarrow> State (rv_window r') j = Unseen" using A(5) by (simp add: w)
  show "\<And>j. retired (rv_window r) j \<Longrightarrow> retired (rv_window r') j" using retired_on_admit [OF D(2,3) un] by (simp add: w)
  have adm: "admitted_at r' j = admitted_at r j" if "j \<in> set order" for j using that ni by (auto simp: admitted_at_def p)
  have "\<forall>j \<in> set order. admitted_at r' j \<le> admitted_at r' i"
  proof
    fix j assume j: "j \<in> set order"
    then obtain b where b: "pend r j = Some b" using dom by auto
    then have "admitted_at r j \<le> rv_last r" using D(8) [OF b] by (simp add: admitted_at_def held_ok_def)
    then show "admitted_at r' j \<le> admitted_at r' i" using adm [OF j] a(3) by (simp add: admitted_at_def p)
  qed
  moreover have "sorted (map (admitted_at r') order)"
    using o adm by (simp add: deadlines_def cong: map_cong)
  ultimately have "deadlines r' (order @ [i])"
    using links_addPending [OF l ni nz a(1)] by (auto simp: deadlines_def r' sorted_append)
  moreover have "held_ok r' lg s j b \<and> (j \<noteq> i \<longrightarrow> body_ok (rv_limits r') b)" if "pend r' j = Some b" for j b
  proof (cases "j = i")
    case True
    then show ?thesis using that p a time A(3) f by (auto simp: held_ok_def w)
  next
    case False
    then have "pend r j = Some b" using that p by simp
    then show ?thesis using D(8,9) A(4) f by (auto simp: held_ok_def w)
  qed
  moreover have "j = k" if "pend r' j = Some b" "pend r' k = Some c" "as_lease b = as_lease c" for j k b c
    using that own [of j b] own [of k c] D(10) [of j b k c] unfolding p by (auto split: if_splits)
  ultimately show "recv_core {i} r' lg s"
    unfolding recv_core_def w f using D(1,4,5,6) A(1,2) by blast
qed

subsection \<open>Storing a fragment\<close>

lemma pend_on_pending: "pend (on_pending i (store f k) r) = (pend r)(i := map_option (store f k) (pend r i))"
  by (auto simp: pend_def map_of_on_pending fun_eq_iff core_store option.map_comp comp_def)

lemma links_on_pending:
  assumes "links r order"
  shows "links (on_pending i (store f k) r) order"
proof -
  have "linked (map_of (rv_pending (on_pending i (store f k) r))) order"
    by (rule linked_cong [OF linksD(7) [OF assms]]) (auto simp: map_of_on_pending option.map_comp comp_def)
  then show ?thesis using linksD [OF assms] unfolding links_def by simp
qed

lemma recv_core_store:
  assumes core: "recv_core X r lg s" and X: "X \<subseteq> {i}" and a: "pend r i = Some a" and r': "r' = on_pending i (store f k) r"
  shows "recv_core {i} r' lg s" "pend r' = (pend r)(i \<mapsto> store f k a)"
    "body_ok (rv_limits r) (store f k a) \<Longrightarrow> recv_core {} r' lg s"
proof -
  note D = recv_coreD [OF core]
  obtain order where o: "deadlines r order" using D(7) by blast
  show p: "pend r' = (pend r)(i \<mapsto> store f k a)" using pend_on_pending [of i f k r] a by (simp add: r')
  have "admitted_at r' = admitted_at r" using a by (auto simp: admitted_at_def p)
  then have d: "deadlines r' order" using o links_on_pending [of r order i f k] by (simp add: deadlines_def r')
  have f: "rv_limits r' = rv_limits r" "rv_window r' = rv_window r" "rv_scope r' = rv_scope r" "rv_last r' = rv_last r"
    "rv_haveTime r' = rv_haveTime r" by (simp_all add: r')
  have h: "held_ok r' lg s j b" "j \<noteq> i \<Longrightarrow> body_ok (rv_limits r') b" if "pend r' j = Some b" for j b
    using that D(8) [of j] D(9) [of j b] D(8) [OF a] X by (auto simp: p held_ok_def f split: if_splits)
  have inj: "j = l" if jb: "pend r' j = Some b" and lc: "pend r' l = Some c" and eq: "as_lease b = as_lease c" for j l b c
  proof -
    have old: "\<exists>b0. pend r j = Some b0 \<and> as_lease b0 = as_lease b" if "pend r' j = Some b" for j b
      using that a by (auto simp: p split: if_splits)
    obtain b0 c0 where "pend r j = Some b0" "as_lease b0 = as_lease b" "pend r l = Some c0" "as_lease c0 = as_lease c"
      using old [OF jb] old [OF lc] by blast
    then show ?thesis using D(10) eq by metis
  qed
  show "recv_core {i} r' lg s" unfolding recv_core_def f(2,3) using D(1-6) d h inj unfolding f(1) by blast
  show "recv_core {} r' lg s" if body: "body_ok (rv_limits r) (store f k a)"
  proof -
    have "body_ok (rv_limits r') b" if "pend r' j = Some b" for j b
      using that h(2) [OF that] body by (cases "j = i") (auto simp: p f)
    then show ?thesis unfolding recv_core_def f(2,3) using D(1-6) d h(1) inj unfolding f(1) by blast
  qed
qed

end
