(* ===== verification/ReassemblySteps.thy ===== *)
theory ReassemblySteps
  imports ReassemblyInv
begin

text \<open>
  The commit loop of \<open>AddGroup\<close> against its abstract meaning: \<open>acommit\<close> is one round on the contents of
  the pending map, without links, history and credit. Under the plan's promises (\<open>plan_ok\<close>) each round
  keeps the invariant and computes \<open>acommit\<close>, and the loop is the iteration of it.
\<close>

subsection \<open>Fragments and charges\<close>

definition frag_ok :: "Limits \<Rightarrow> Fragment \<Rightarrow> bool" where
  "frag_ok L f \<longleftrightarrow>
     fr_DatagramID f \<noteq> 0 \<and> unat (fr_TotalBytes f) \<le> nat (rl_MaxDatagramBytes L) \<and>
     unat (fr_Offset f) + length (fr_Payload f) \<le> unat (fr_TotalBytes f) \<and> (fr_Payload f = [] \<longrightarrow> fr_TotalBytes f = 0)"

lemma frag_piece: "frag_ok L f \<Longrightarrow> fr_TotalBytes f \<noteq> 0 \<Longrightarrow> piece (unat (fr_TotalBytes f)) f"
  by (auto simp: frag_ok_def piece_def)

lemma limits_validD:
  assumes "limits_valid L"
  shows "1 \<le> rl_MaxDatagrams L" "1 \<le> rl_MaxDatagramBytes L" "rl_MaxDatagramBytes L \<le> 16777216" "1 \<le> rl_MaxFragments L"
    "rl_MaxFragments L \<le> 4096" "0 < rl_Timeout L"
  using assms by (auto simp: limits_valid_def RequiredInitialBytes_def split: if_splits)

lemma unat_charge_of:
  assumes "limits_valid L"
  shows "unat (charge_of L n) = unat n + 8 * nat (rl_MaxFragments L) + 16"
proof -
  define k where "k = nat (rl_MaxFragments L)"
  have k: "k \<le> 4096" "rl_MaxFragments L = int k" using limits_validD(4,5) [OF assms] by (simp_all add: k_def)
  have u: "unat (word_of_int (rl_MaxFragments L) :: u64) = k" using k by (simp add: unat_of_nat)
  have m: "unat ((word_of_int (rl_MaxFragments L) :: u64) * 8) = 8 * k" using k(1) by (simp add: unat_word_ariths u)
  have n: "unat n < 4294967296" by (rule unat_less_u32)
  show ?thesis using m n k(1) by (simp add: charge_of_def unat_word_ariths k_def)
qed

lemma canonical_one:
  assumes L: "limits_valid L" and can: "canonical_from (word_of_int (rl_MaxDatagramBytes L)) prev (f # fs)"
  shows "frag_ok L f" "prev < fr_DatagramID f" "canonical_from (word_of_int (rl_MaxDatagramBytes L)) (fr_DatagramID f) fs"
proof -
  define k where "k = nat (rl_MaxDatagramBytes L)"
  have k: "k \<le> 16777216" "rl_MaxDatagramBytes L = int k" using limits_validD(2,3) [OF L] by (simp_all add: k_def)
  have mx: "unat (word_of_int (rl_MaxDatagramBytes L) :: u32) = k" using k by (simp add: unat_of_nat)
  have c: "fr_DatagramID f \<noteq> 0" "prev < fr_DatagramID f" "\<not> fr_TotalBytes f > word_of_int (rl_MaxDatagramBytes L)"
    "\<not> fr_Offset f > fr_TotalBytes f" "\<not> length (fr_Payload f) > unat (fr_TotalBytes f - fr_Offset f)"
    "\<not> (fr_Payload f = [] \<and> fr_TotalBytes f \<noteq> 0)"
    and rest: "canonical_from (word_of_int (rl_MaxDatagramBytes L)) (fr_DatagramID f) fs"
    using can by (auto split: if_splits simp: not_le)
  have "unat (fr_TotalBytes f) \<le> k" using c(3) unfolding not_less word_le_nat_alt mx .
  moreover have "unat (fr_TotalBytes f - fr_Offset f) = unat (fr_TotalBytes f) - unat (fr_Offset f)" "unat (fr_Offset f) \<le> unat (fr_TotalBytes f)"
    using c(4) by (simp_all add: not_less unat_sub word_le_nat_alt)
  ultimately show "frag_ok L f" using c k(2) unfolding frag_ok_def by auto
  show "prev < fr_DatagramID f" "canonical_from (word_of_int (rl_MaxDatagramBytes L)) (fr_DatagramID f) fs" by fact+
qed

lemma canonical_frags:
  assumes L: "limits_valid L"
  shows "canonical_from (word_of_int (rl_MaxDatagramBytes L)) prev fs \<Longrightarrow>
    (\<forall>f \<in> set fs. frag_ok L f \<and> prev < fr_DatagramID f) \<and> sorted_wrt (<) (map fr_DatagramID fs)"
proof (induction fs arbitrary: prev)
  case (Cons f fs)
  note c = canonical_one [OF L Cons.prems]
  from Cons.IH [OF c(3)] c(1,2) show ?case by (auto intro: less_trans)
qed simp

subsection \<open>One round of the commit loop\<close>

definition fresh :: "u32 \<Rightarrow> int \<Rightarrow> handle \<Rightarrow> assembly" where
  "fresh n now h = (newAssembly n now h)\<lparr>as_data := replicate (unat n) 0\<rparr>"

lemma fresh_fields [simp]:
  "as_total (fresh n now h) = n" "as_admitted (fresh n now h) = now" "as_lease (fresh n now h) = h"
  "as_data (fresh n now h) = replicate (unat n) 0" "as_ranges (fresh n now h) = []" "as_received (fresh n now h) = 0"
  "as_next (fresh n now h) = 0" "core (fresh n now h) = fresh n now h"
  by (simp_all add: fresh_def newAssembly_def core_def)

text \<open>What the plan promises of one fragment at the moment it is committed.\<close>

definition plan_ok :: "Receiver \<Rightarrow> Ledger \<Rightarrow> nat \<Rightarrow> Fragment \<Rightarrow> planned \<Rightarrow> bool" where
  "plan_ok r lg s f p \<longleftrightarrow>
     frag_ok (rv_limits r) f \<and>
     (if pl_expire p then pend r (fr_DatagramID f) \<noteq> None \<and> pl_a p = PendingAssembly
      else
        (case pl_a p of
           NilAssembly \<Rightarrow> True
         | PendingAssembly \<Rightarrow>
             pl_duplicate p \<or>
             (\<exists>a. pend r (fr_DatagramID f) = Some a \<and> as_total a = fr_TotalBytes f \<and>
                  inspect a f = Inr (pl_insert p, False) \<and> int (length (as_ranges a)) < rl_MaxFragments (rv_limits r))
         | NewAssembly a \<Rightarrow>
             pl_new p \<and> \<not> pl_duplicate p \<and> pl_insert p = 0 \<and> pend r (fr_DatagramID f) = None \<and>
             State (rv_window r) (fr_DatagramID f) = Unseen \<and> a = fresh (fr_TotalBytes f) (rv_last r) (as_lease a) \<and>
             leases_of lg (as_lease a) = Some (s, bytesClaim (charge_of (rv_limits r) (fr_TotalBytes f))) \<and>
             (\<forall>j b. pend r j = Some b \<longrightarrow> as_lease b \<noteq> as_lease a)))"

definition skips :: "planned \<Rightarrow> bool" where
  "skips p \<longleftrightarrow> \<not> pl_expire p \<and> (pl_a p = NilAssembly \<or> pl_duplicate p)"

text \<open>The assembly a round works on and the assembly with the fragment stored.\<close>

definition target :: "(u64 \<Rightarrow> assembly option) \<Rightarrow> Fragment \<Rightarrow> planned \<Rightarrow> assembly" where
  "target m f p = (case pl_a p of NewAssembly a \<Rightarrow> core a | _ \<Rightarrow> the (m (fr_DatagramID f)))"

definition stored :: "(u64 \<Rightarrow> assembly option) \<Rightarrow> Fragment \<Rightarrow> planned \<Rightarrow> assembly" where
  "stored m f p = store f (pl_insert p) (target m f p)"

definition acommit :: "Fragment \<Rightarrow> planned \<Rightarrow> (u64 \<Rightarrow> assembly option) \<Rightarrow> datagramState list \<times> (u64 \<Rightarrow> assembly option)" where
  "acommit f p m =
     (let i = fr_DatagramID f; b = stored m f p
      in if pl_expire p then ([], m(i := None))
         else if skips p then ([], m)
         else if as_received b = as_total b then ([\<lparr>dg_id = i, dg_data = as_data b, dg_lease = as_lease b\<rparr>], m(i := None))
         else ([], m(i \<mapsto> b)))"

text \<open>What happens to the live leases meanwhile.\<close>

definition acredit :: "nat \<Rightarrow> Fragment \<Rightarrow> planned \<Rightarrow> (u64 \<Rightarrow> assembly option) \<Rightarrow> (handle \<Rightarrow> (nat \<times> Claim) option) \<Rightarrow> handle \<Rightarrow> (nat \<times> Claim) option" where
  "acredit s f p m v =
     (let b = stored m f p
      in if pl_expire p then v(as_lease (the (m (fr_DatagramID f))) := None)
         else if skips p then v
         else if as_received b = as_total b then v(as_lease b \<mapsto> (s, bytesClaim (word_of_nat (length (as_data b)))))
         else v)"

lemma stored_ok:
  assumes core: "recv_core {} r lg s" and p: "plan_ok r lg s f p" and work: "\<not> pl_expire p" "\<not> skips p"
  defines "a \<equiv> target (pend r) f p" and "b \<equiv> stored (pend r) f p"
  shows "as_total a = fr_TotalBytes f" "length (as_data a) = unat (as_total a)" "cover (as_ranges a) \<subseteq> {..<unat (as_total a)}"
    "as_received b \<noteq> as_total b \<Longrightarrow> body_ok (rv_limits r) b"
    "as_received b = as_total b \<longleftrightarrow> cover (as_ranges a) \<union> iv_set (span_of f) = {..<unat (as_total a)}"
    "leases_of lg (as_lease b) = Some (s, bytesClaim (charge_of (rv_limits r) (as_total a)))"
proof -
  note D = recv_coreD [OF core]
  have fo: "frag_ok (rv_limits r) f" using p by (simp add: plan_ok_def)
  have b: "b = store f (pl_insert p) a" by (simp add: a_def b_def stored_def)
  consider "pl_a p = PendingAssembly" "pend r (fr_DatagramID f) = Some a" "as_total a = fr_TotalBytes f"
      "inspect a f = Inr (pl_insert p, False)" "int (length (as_ranges a)) < rl_MaxFragments (rv_limits r)"
    | h where "pl_a p = NewAssembly (fresh (fr_TotalBytes f) (rv_last r) h)" "a = fresh (fr_TotalBytes f) (rv_last r) h" "pl_insert p = 0"
      "leases_of lg h = Some (s, bytesClaim (charge_of (rv_limits r) (fr_TotalBytes f)))"
    using p work by (cases "pl_a p") (auto simp: plan_ok_def skips_def a_def target_def)
  then have "as_total a = fr_TotalBytes f \<and> length (as_data a) = unat (as_total a) \<and> cover (as_ranges a) \<subseteq> {..<unat (as_total a)} \<and>
      leases_of lg (as_lease a) = Some (s, bytesClaim (charge_of (rv_limits r) (as_total a))) \<and>
      (fr_TotalBytes f \<noteq> 0 \<longrightarrow> asm_ok b \<and> int (length (as_ranges b)) \<le> rl_MaxFragments (rv_limits r)) \<and>
      (fr_TotalBytes f = 0 \<longrightarrow> as_received b = as_total b)"
  proof cases
    case 1
    have bo: "body_ok (rv_limits r) a" and lease: "leases_of lg (as_lease a) = Some (s, bytesClaim (charge_of (rv_limits r) (as_total a)))"
      using D(8,9) [OF 1(2)] by (simp_all add: held_ok_def)
    then have ok: "asm_ok a" and inc: "as_received a \<noteq> as_total a" by (simp_all add: body_ok_def)
    have "fr_TotalBytes f \<noteq> 0"
    proof
      assume "fr_TotalBytes f = 0"
      then have "cover (as_ranges a) = {..<unat (as_total a)}" using cover_bound [OF asm_okD(2) [OF ok]] 1(3) by simp
      then show False using full_cover [OF ok] inc by simp
    qed
    note pc = frag_piece [OF fo this]
    obtain k where k: "inspect a f =
        (if span_of f \<in> set (as_ranges a) then if same_bytes a f then Inr (k, True) else Inl ErrInvalid
         else if iv_set (span_of f) \<inter> cover (as_ranges a) = {} then Inr (k, False) else Inl ErrInvalid)"
      "k \<le> length (as_ranges a)"
      "iv_set (span_of f) \<inter> cover (as_ranges a) = {} \<Longrightarrow> ranges_ok (unat (as_total a)) (Insert (as_ranges a) k (span_of f))"
      using inspect_eq [OF ok, of f] pc 1(3) by metis
    have free: "iv_set (span_of f) \<inter> cover (as_ranges a) = {}" and ki: "pl_insert p = k"
      using k(1) 1(4) by (auto split: if_splits)
    have "asm_ok b" using asm_ok_store(1) [OF ok _ k(3) [OF free] free] pc 1(3) by (simp add: b ki)
    moreover have "length (as_ranges b) = Suc (length (as_ranges a))" using k(2) ki by (simp add: b Insert_def)
    ultimately show ?thesis
      using 1(3,5) lease asm_okD(1) [OF ok] cover_bound [OF asm_okD(2) [OF ok]] \<open>fr_TotalBytes f \<noteq> 0\<close> by simp
  next
    case (2 h)
    have c0: "cover (as_ranges a) = {}" using 2(2) by (simp add: cover_def)
    have "asm_ok b" if "fr_TotalBytes f \<noteq> 0"
    proof -
      note pc = frag_piece [OF fo that]
      have ok: "asm_ok a" using 2(2) c0 by (simp add: asm_ok_def ranges_ok_def)
      have "ranges_ok (unat (as_total a)) (Insert (as_ranges a) 0 (span_of f))"
        using ranges_ok_Insert(1) [of "as_total a" "as_ranges a" f 0] asm_okD(2) [OF ok] pc 2(2) by simp
      from asm_ok_store(1) [OF ok _ this] c0 pc 2(2,3) show ?thesis by (simp add: b)
    qed
    moreover have "as_received b = as_total b" if "fr_TotalBytes f = 0"
      using that fo 2(2) by (simp add: b frag_ok_def store_def Let_def)
    moreover have "length (as_ranges b) = 1" using 2(2) by (simp add: b Insert_def)
    ultimately show ?thesis using 2 c0 limits_validD(4) [OF D(1)] by simp
  qed
  note F = this
  show "as_total a = fr_TotalBytes f" "length (as_data a) = unat (as_total a)" "cover (as_ranges a) \<subseteq> {..<unat (as_total a)}"
    using F by blast+
  show "leases_of lg (as_lease b) = Some (s, bytesClaim (charge_of (rv_limits r) (as_total a)))" using F by (simp add: b)
  show "body_ok (rv_limits r) b" if "as_received b \<noteq> as_total b"
    using F fo that by (auto simp: body_ok_def b frag_ok_def)
  have cb: "cover (as_ranges b) = cover (as_ranges a) \<union> iv_set (span_of f)" by (simp add: b cover_Insert Un_commute)
  show "as_received b = as_total b \<longleftrightarrow> cover (as_ranges a) \<union> iv_set (span_of f) = {..<unat (as_total a)}"
  proof (cases "fr_TotalBytes f = 0")
    case True
    then have "unat (fr_Offset f) + length (fr_Payload f) \<le> unat (fr_TotalBytes f)" "fr_Payload f = []" using fo by (simp_all add: frag_ok_def)
    then have "iv_set (span_of f) = {}" using span_of_set [of f "fr_TotalBytes f"] by simp
    then show ?thesis using F True by auto
  next
    case False
    then show ?thesis using full_cover [of b] F cb by (simp add: b)
  qed
qed

lemma peer_kept [simp]: "lg_peer (Lease_Release h p) = lg_peer p" "lg_peer (snd (Lease_ShrinkBytes h n p)) = lg_peer p"
  by (auto simp: Lease_Release_def Lease_ShrinkBytes_def on_session_usage_def Let_def split: option.split)

definition same_frame :: "Receiver \<Rightarrow> Receiver \<Rightarrow> bool" where
  "same_frame r r' \<longleftrightarrow> rv_limits r' = rv_limits r \<and> rv_last r' = rv_last r \<and> rv_haveTime r' = rv_haveTime r \<and>
     rv_closed r' = rv_closed r \<and> rv_windowLease r' = rv_windowLease r \<and> rv_scope r' = rv_scope r"

definition history_le :: "Receiver \<Rightarrow> Receiver \<Rightarrow> bool" where
  "history_le r r' \<longleftrightarrow> (\<forall>j. retired (rv_window r) j \<longrightarrow> retired (rv_window r') j)"

lemma frame_refl [simp]: "same_frame r r" "history_le r r"
  by (simp_all add: same_frame_def history_le_def)

lemma frame_trans: "same_frame r r' \<Longrightarrow> same_frame r' r'' \<Longrightarrow> same_frame r r''"
    "history_le r r' \<Longrightarrow> history_le r' r'' \<Longrightarrow> history_le r r''"
  by (simp_all add: same_frame_def history_le_def)

text \<open>\<open>round_ok\<close>: the invariant, the abstract contents and leases, and the rest of the receiver.\<close>

definition round_ok ::
    "nat \<Rightarrow> Fragment \<Rightarrow> planned \<Rightarrow> Receiver \<Rightarrow> Ledger \<Rightarrow> datagramState list \<Rightarrow> Receiver \<Rightarrow> Ledger \<Rightarrow> bool" where
  "round_ok s f p r lg ds r' lg' \<longleftrightarrow>
     recv_core {} r' lg' s \<and> (ds, pend r') = acommit f p (pend r) \<and> leases_of lg' = acredit s f p (pend r) (leases_of lg) \<and>
     lg_peer lg' = lg_peer lg \<and> same_frame r r' \<and> history_le r r' \<and>
     (\<forall>j > fr_DatagramID f. State (rv_window r) j = Unseen \<longrightarrow> State (rv_window r') j = Unseen) \<and>
     (\<not> skips p \<and> pend r' (fr_DatagramID f) = None \<longrightarrow> retired (rv_window r') (fr_DatagramID f))"

lemma expire_ok:
  assumes core: "recv_core {} r lg s" and a: "map_of (rv_pending r) i = Some a" and e: "expire i a (r, lg) = (r', lg')"
  shows "recv_core {} r' lg' s" "pend r' = (pend r)(i := None)" "leases_of lg' = (leases_of lg)(as_lease a := None)"
    "lg_peer lg' = lg_peer lg" "same_frame r r'" "history_le r r'" "retired (rv_window r') i"
    "\<And>j. j \<noteq> i \<Longrightarrow> State (rv_window r') j = State (rv_window r) j"
proof -
  have r': "r' = removePending i a (r\<lparr>rv_window := snd (Finish (rv_window r) i Expired)\<rparr>)" and lg': "lg' = Lease_Release (as_lease a) lg"
    using e by (simp_all add: expire.simps Let_def)
  note R = recv_core_remove [OF core _ a _ r', simplified]
  note D = recv_coreD [OF core]
  have live: "leases_of lg (as_lease a) = Some (s, bytesClaim (charge_of (rv_limits r) (as_total a)))"
    using D(8) [OF pend_Some [OF a]] by (simp add: held_ok_def)
  note L = ledger_scope.release_live [OF D(4) live]
  show p: "pend r' = (pend r)(i := None)" by (rule R(2))
  show l: "leases_of lg' = (leases_of lg)(as_lease a := None)" using L by (simp add: lg')
  show "lg_peer lg' = lg_peer lg" by (simp add: lg')
  show "recv_core {} r' lg' s"
  proof (rule recv_core_ledger [OF R(1)])
    show "ledger_inv lg'" "session_of lg' s" using L D(6) by (simp_all add: lg')
    show "lg_peer lg' = lg_peer lg" by (simp add: lg')
    show "leases_of lg' (as_lease b) = leases_of lg (as_lease b)" if "pend r' j = Some b" for j b
    proof -
      have "j \<noteq> i" "pend r j = Some b" using that p by (auto split: if_splits)
      then have "as_lease b \<noteq> as_lease a" using D(10) [of j b i] pend_Some [OF a] by auto
      then show ?thesis by (simp add: l)
    qed
  qed
  show "same_frame r r'" by (simp add: same_frame_def r')
  show "history_le r r'" using R(10) by (simp add: history_le_def)
  show "retired (rv_window r') i" using R(8) by (auto simp: retired_def)
  show "\<And>j. j \<noteq> i \<Longrightarrow> State (rv_window r') j = State (rv_window r) j" by (rule R(9))
qed

lemma complete_ok:
  assumes core: "recv_core {i} r lg s" and a: "map_of (rv_pending r) i = Some a" and full: "as_received a = as_total a"
    and data: "length (as_data a) = unat (as_total a)" and e: "finish_full i a (r, lg) = (ds, r', lg')"
  shows "recv_core {} r' lg' s" "pend r' = (pend r)(i := None)"
    "leases_of lg' = (leases_of lg)(as_lease a \<mapsto> (s, bytesClaim (word_of_nat (length (as_data a)))))"
    "lg_peer lg' = lg_peer lg" "same_frame r r'" "history_le r r'" "retired (rv_window r') i"
    "\<And>j. j \<noteq> i \<Longrightarrow> State (rv_window r') j = State (rv_window r) j"
    "ds = [\<lparr>dg_id = i, dg_data = as_data a, dg_lease = as_lease a\<rparr>]"
proof -
  have r': "r' = removePending i a (r\<lparr>rv_window := snd (Finish (rv_window r) i Completed)\<rparr>)"
    and lg': "lg' = snd (Lease_ShrinkBytes (as_lease a) (word_of_nat (length (as_data a))) lg)"
    and ds: "ds = [\<lparr>dg_id = i, dg_data = as_data a, dg_lease = as_lease a\<rparr>]"
    using e full by (simp_all add: finish_full.simps Let_def)
  note R = recv_core_remove [OF core _ a _ r', simplified]
  note D = recv_coreD [OF core]
  have live: "leases_of lg (as_lease a) = Some (s, bytesClaim (charge_of (rv_limits r) (as_total a)))"
    using D(8) [OF pend_Some [OF a]] by (simp add: held_ok_def)
  have "unat (word_of_nat (length (as_data a)) :: u64) = unat (as_total a)"
    using data unat_less_u32 [of "as_total a"] by (simp add: unat_of_nat)
  then have "word_of_nat (length (as_data a)) \<le> cl_Bytes (bytesClaim (charge_of (rv_limits r) (as_total a)))"
    using unat_charge_of [OF D(1), of "as_total a"] by (simp add: bytesClaim_def word_le_nat_alt)
  from shrink_live [OF D(4) live this] have L: "ledger_inv lg'" "session_of lg' s"
    "leases_of lg' = (leases_of lg)(as_lease a \<mapsto> (s, bytesClaim (word_of_nat (length (as_data a)))))"
    using D(6) by (auto simp: lg' bytesClaim_def)
  show p: "pend r' = (pend r)(i := None)" by (rule R(2))
  show "leases_of lg' = (leases_of lg)(as_lease a \<mapsto> (s, bytesClaim (word_of_nat (length (as_data a)))))" by (rule L(3))
  show "lg_peer lg' = lg_peer lg" by (simp add: lg')
  show "recv_core {} r' lg' s"
  proof (rule recv_core_ledger [OF R(1) L(1) _ L(2)])
    show "lg_peer lg' = lg_peer lg" by (simp add: lg')
    show "leases_of lg' (as_lease b) = leases_of lg (as_lease b)" if "pend r' j = Some b" for j b
    proof -
      have "j \<noteq> i" "pend r j = Some b" using that p by (auto split: if_splits)
      then have "as_lease b \<noteq> as_lease a" using D(10) [of j b i] pend_Some [OF a] by auto
      then show ?thesis by (simp add: L(3))
    qed
  qed
  show "same_frame r r'" by (simp add: same_frame_def r')
  show "history_le r r'" using R(10) by (simp add: history_le_def)
  show "retired (rv_window r') i" using R(8) by (auto simp: retired_def)
  show "\<And>j. j \<noteq> i \<Longrightarrow> State (rv_window r') j = State (rv_window r) j" by (rule R(9))
  show "ds = [\<lparr>dg_id = i, dg_data = as_data a, dg_lease = as_lease a\<rparr>]" by (rule ds)
qed

lemma recv_core_mono: "recv_core X r lg s \<Longrightarrow> X \<subseteq> Y \<Longrightarrow> recv_core Y r lg s"
  unfolding recv_core_def by blast

text \<open>The receiver after a new assembly has been admitted, if the fragment starts one.\<close>

definition admitted :: "Fragment \<Rightarrow> planned \<Rightarrow> Receiver \<Rightarrow> Receiver" where
  "admitted f p r =
     (case pl_a p of
        NewAssembly a \<Rightarrow>
          if pl_new p then addPending (fr_DatagramID f) a (r\<lparr>rv_window := snd (Admit (rv_window r) (fr_DatagramID f))\<rparr>) else r
      | _ \<Rightarrow> r)"

lemma admitted_ok:
  assumes core: "recv_core {} r lg s" and time: "rv_haveTime r" and p: "plan_ok r lg s f p" and work: "\<not> pl_expire p" "\<not> skips p"
  defines "i \<equiv> fr_DatagramID f"
  shows "recv_core {i} (admitted f p r) lg s" "pend (admitted f p r) = (pend r)(i \<mapsto> target (pend r) f p)"
    "same_frame r (admitted f p r)" "history_le r (admitted f p r)"
    "\<And>j. i < j \<Longrightarrow> State (rv_window r) j = Unseen \<Longrightarrow> State (rv_window (admitted f p r)) j = Unseen"
proof -
  consider a where "pl_a p = PendingAssembly" "pend r i = Some a"
    | a where "pl_a p = NewAssembly a" "pl_new p" "a = fresh (fr_TotalBytes f) (rv_last r) (as_lease a)" "pend r i = None"
      "State (rv_window r) i = Unseen" "leases_of lg (as_lease a) = Some (s, bytesClaim (charge_of (rv_limits r) (fr_TotalBytes f)))"
      "\<And>j b. pend r j = Some b \<Longrightarrow> as_lease b \<noteq> as_lease a"
    using p work unfolding plan_ok_def skips_def i_def by (cases "pl_a p") auto
  then have "recv_core {i} (admitted f p r) lg s \<and> pend (admitted f p r) = (pend r)(i \<mapsto> target (pend r) f p) \<and>
    same_frame r (admitted f p r) \<and> history_le r (admitted f p r) \<and>
    (\<forall>j. i < j \<longrightarrow> State (rv_window r) j = Unseen \<longrightarrow> State (rv_window (admitted f p r)) j = Unseen)"
  proof cases
    case 1
    then have "admitted f p r = r" "target (pend r) f p = a" by (simp_all add: admitted_def target_def i_def)
    then show ?thesis using recv_core_mono [OF core, of "{i}"] 1(2) by (simp add: fun_upd_idem)
  next
    case (2 a)
    have tot: "as_total a = fr_TotalBytes f" "as_admitted a = rv_last r" "as_next a = 0" by (subst 2(3), simp)+
    have adm: "admitted f p r = addPending i a (r\<lparr>rv_window := snd (Admit (rv_window r) i)\<rparr>)" using 2 by (simp add: admitted_def i_def)
    have lease: "leases_of lg (as_lease a) = Some (s, bytesClaim (charge_of (rv_limits r) (as_total a)))" using 2(6) tot by simp
    note A = recv_core_add [OF core 2(4,5) tot(3) lease tot(2) time 2(7) adm]
    have "target (pend r) f p = core a" using 2(1) by (simp add: target_def)
    then show ?thesis using A by (auto simp: history_le_def same_frame_def adm)
  qed
  then show "recv_core {i} (admitted f p r) lg s" "pend (admitted f p r) = (pend r)(i \<mapsto> target (pend r) f p)"
    "same_frame r (admitted f p r)" "history_le r (admitted f p r)"
    "\<And>j. i < j \<Longrightarrow> State (rv_window r) j = Unseen \<Longrightarrow> State (rv_window (admitted f p r)) j = Unseen" by blast+
qed

lemma commit_one_ok:
  assumes core: "recv_core {} r lg s" and time: "rv_haveTime r" and p: "plan_ok r lg s f p"
    and e: "commit_one f p (r, lg) = (ds, r', lg')"
  shows "round_ok s f p r lg ds r' lg'"
proof -
  let ?i = "fr_DatagramID f"
  consider "pl_expire p" | "\<not> pl_expire p" "skips p" | "\<not> pl_expire p" "\<not> skips p" by blast
  then show ?thesis
  proof cases
    case 1
    then have "pend r ?i \<noteq> None" using p by (simp add: plan_ok_def)
    then obtain a where a: "map_of (rv_pending r) ?i = Some a" by (auto simp: pend_def)
    have ds: "ds = []" and ex: "expire ?i a (r, lg) = (r', lg')" using e 1 a by (auto simp: commit_one.simps Let_def)
    have sk: "\<not> skips p" using 1 by (simp add: skips_def)
    note X = expire_ok [OF core a ex]
    show ?thesis unfolding round_ok_def
      using X ds 1 sk pend_Some [OF a] by (auto simp: acommit_def acredit_def Let_def)
  next
    case 2
    then have "ds = [] \<and> r' = r \<and> lg' = lg" using e by (auto simp: commit_one.simps Let_def skips_def)
    then show ?thesis using core 2 by (simp add: round_ok_def acommit_def acredit_def Let_def)
  next
    case 3
    define r1 where "r1 = admitted f p r"
    define r2 where "r2 = on_pending ?i (store f (pl_insert p)) r1"
    note A = admitted_ok [OF core time p 3, folded r1_def]
    have t1: "pend r1 ?i = Some (target (pend r) f p)" using A(2) by simp
    note S = recv_core_store [OF A(1) subset_refl t1 r2_def, folded stored_def]
    note T = stored_ok [OF core p 3]
    have p2: "pend r2 = (pend r)(?i \<mapsto> stored (pend r) f p)" using S(2) A(2) by simp
    then obtain b where b: "map_of (rv_pending r2) ?i = Some b" "core b = stored (pend r) f p"
      by (cases "map_of (rv_pending r2) ?i") (auto simp: pend_def fun_eq_iff split: if_splits)
    have bf: "as_received b = as_received (stored (pend r) f p)" "as_total b = as_total (stored (pend r) f p)"
      "as_data b = as_data (stored (pend r) f p)" "as_lease b = as_lease (stored (pend r) f p)"
      by (simp_all flip: b(2))
    have fin: "finish_full ?i b (r2, lg) = (ds, r', lg')"
      using e 3 b(1) by (simp add: commit_one.simps Let_def skips_def flip: admitted_def r1_def r2_def)
    have fr: "same_frame r r2" "history_le r r2" "rv_window r2 = rv_window r1"
      using A(3,4) by (simp_all add: r2_def same_frame_def history_le_def)
    have lim: "rv_limits r1 = rv_limits r" using A(3) by (simp add: same_frame_def)
    show ?thesis
    proof (cases "as_received b = as_total b")
      case full: True
      have "length (as_data b) = unat (as_total b)" using T(1,2) frag_ok_def p by (simp add: bf stored_def plan_ok_def)
      note C = complete_ok [OF S(1) b(1) full this fin]
      show ?thesis unfolding round_ok_def
        using C 3 full bf p2 A(5) fr frame_trans by (auto simp: acommit_def acredit_def Let_def)
    next
      case False
      have "recv_core {} r2 lg s" using S(3) T(4) False lim by (simp add: bf)
      moreover have "ds = [] \<and> r' = r2 \<and> lg' = lg" using fin False by (simp add: finish_full.simps)
      ultimately show ?thesis unfolding round_ok_def
        using 3 False bf p2 A(5) fr by (auto simp: acommit_def acredit_def Let_def)
    qed
  qed
qed

end
