(* ===== verification/ReassemblyCommit.thy ===== *)
theory ReassemblyCommit
  imports ReassemblySteps
begin

text \<open>
  The whole commit loop of \<open>AddGroup\<close>: every round leaves the plan of the later fragments valid, so the
  loop keeps the invariant and is the iteration of the abstract round.
\<close>

subsection \<open>What a round leaves alone\<close>

definition pend_leases :: "Receiver \<Rightarrow> handle set" where
  "pend_leases r = as_lease ` ran (pend r)"

lemma pend_leasesI: "pend r j = Some b \<Longrightarrow> as_lease b \<in> pend_leases r"
  by (auto simp: pend_leases_def ran_def)

lemma pend_leases_iff: "h \<in> pend_leases r \<longleftrightarrow> (\<exists>j b. pend r j = Some b \<and> as_lease b = h)"
  by (force simp: pend_leases_def ran_def)

fun new_leases :: "(Fragment \<times> planned) list \<Rightarrow> handle list" where
  "new_leases [] = []"
| "new_leases ((f, p) # rest) = (case pl_a p of NewAssembly a \<Rightarrow> as_lease a # new_leases rest | _ \<Rightarrow> new_leases rest)"

lemma acommit_other: "j \<noteq> fr_DatagramID f \<Longrightarrow> snd (acommit f p m) j = m j"
  by (simp add: acommit_def Let_def)

lemma stored_lease [simp]: "as_lease (stored m f p) = as_lease (target m f p)" "as_total (stored m f p) = as_total (target m f p)"
  by (simp_all add: stored_def)

lemma target_lease:
  assumes "plan_ok r lg s f p" "\<not> pl_expire p" "\<not> skips p"
  shows "as_lease (target (pend r) f p) \<in> pend_leases r \<union> set (new_leases [(f, p)])"
  using assms pend_leasesI [of r "fr_DatagramID f"]
  by (cases "pl_a p") (auto simp: plan_ok_def skips_def target_def)

lemma round_pend:
  assumes "round_ok s f p r lg ds r' lg'"
  shows "j \<noteq> fr_DatagramID f \<Longrightarrow> pend r' j = pend r j"
  using assms acommit_other [of j f p "pend r"] by (auto simp: round_ok_def dest: arg_cong [where f = snd])

lemma round_leases:
  assumes ok: "round_ok s f p r lg ds r' lg'" and p: "plan_ok r lg s f p"
  shows "h \<notin> pend_leases r \<union> set (new_leases [(f, p)]) \<Longrightarrow> leases_of lg' h = leases_of lg h"
    "pend_leases r' \<subseteq> pend_leases r \<union> set (new_leases [(f, p)])"
    "d \<in> set ds \<Longrightarrow> dg_lease d \<in> pend_leases r \<union> set (new_leases [(f, p)])"
proof -
  have pe: "(ds, pend r') = acommit f p (pend r)" "leases_of lg' = acredit s f p (pend r) (leases_of lg)"
    using ok by (simp_all add: round_ok_def)
  have ex: "as_lease (the (pend r (fr_DatagramID f))) \<in> pend_leases r" if "pl_expire p"
    using that p by (auto simp: plan_ok_def intro: pend_leasesI)
  note tl = target_lease [OF p]
  show "leases_of lg' h = leases_of lg h" if "h \<notin> pend_leases r \<union> set (new_leases [(f, p)])"
    using that tl ex unfolding pe(2) acredit_def Let_def by auto
  show "dg_lease d \<in> pend_leases r \<union> set (new_leases [(f, p)])" if "d \<in> set ds"
    using that tl pe(1) by (auto simp: acommit_def Let_def split: if_splits)
  show "pend_leases r' \<subseteq> pend_leases r \<union> set (new_leases [(f, p)])"
  proof
    fix h assume "h \<in> pend_leases r'"
    then obtain j b where b: "pend r' j = Some b" "h = as_lease b" by (auto simp: pend_leases_def ran_def)
    show "h \<in> pend_leases r \<union> set (new_leases [(f, p)])"
    proof (cases "pend r j = Some b")
      case True
      then show ?thesis using b(2) pend_leasesI by auto
    next
      case False
      then have "\<not> pl_expire p \<and> \<not> skips p \<and> b = stored (pend r) f p"
        using b(1) pe(1) by (auto simp: acommit_def Let_def split: if_splits)
      then show ?thesis using tl b(2) by auto
    qed
  qed
qed

lemma plan_ok_later:
  assumes ok: "round_ok s f p r lg ds r' lg'" and p: "plan_ok r lg s f p" and q: "plan_ok r lg s g q"
    and lt: "fr_DatagramID f < fr_DatagramID g" and disj: "set (new_leases [(f, p)]) \<inter> set (new_leases [(g, q)]) = {}"
  shows "plan_ok r' lg' s g q"
proof -
  have same: "pend r' (fr_DatagramID g) = pend r (fr_DatagramID g)" using round_pend [OF ok] lt by simp
  have fr: "rv_limits r' = rv_limits r" "rv_last r' = rv_last r" using ok by (simp_all add: round_ok_def same_frame_def)
  show ?thesis
  proof (cases "pl_a q")
    case (NewAssembly a)
    show ?thesis
    proof (cases "pl_expire q")
      case True
      then show ?thesis using q same fr by (simp add: plan_ok_def)
    next
      case False
      have "\<forall>j b. pend r j = Some b \<longrightarrow> as_lease b \<noteq> as_lease a" using q NewAssembly False by (simp add: plan_ok_def)
      then have "as_lease a \<notin> pend_leases r" unfolding pend_leases_iff by blast
      moreover have "as_lease a \<notin> set (new_leases [(f, p)])" using NewAssembly disj by auto
      ultimately have "leases_of lg' (as_lease a) = leases_of lg (as_lease a)" "as_lease a \<notin> pend_leases r'"
        using round_leases [OF ok p] by auto
      moreover have "State (rv_window r) (fr_DatagramID g) = Unseen \<longrightarrow> State (rv_window r') (fr_DatagramID g) = Unseen"
        using ok lt by (simp add: round_ok_def)
      ultimately show ?thesis using q same fr NewAssembly False pend_leasesI [of r'] by (fastforce simp: plan_ok_def)
    qed
  qed (use q same fr in \<open>auto simp: plan_ok_def split: if_splits\<close>)
qed

subsection \<open>The loop\<close>

fun acommits :: "(Fragment \<times> planned) list \<Rightarrow> (u64 \<Rightarrow> assembly option) \<Rightarrow> datagramState list \<times> (u64 \<Rightarrow> assembly option)" where
  "acommits [] m = ([], m)"
| "acommits ((f, p) # rest) m =
     (case acommit f p m of (ds, m) \<Rightarrow> (case acommits rest m of (ds', m) \<Rightarrow> (ds @ ds', m)))"

definition plans_ok :: "Receiver \<Rightarrow> Ledger \<Rightarrow> nat \<Rightarrow> (Fragment \<times> planned) list \<Rightarrow> bool" where
  "plans_ok r lg s rest \<longleftrightarrow>
     (\<forall>(f, p) \<in> set rest. plan_ok r lg s f p) \<and> sorted_wrt (<) (map (fr_DatagramID \<circ> fst) rest) \<and> distinct (new_leases rest)"

lemma new_leases_mem: "(g, q) \<in> set rest \<Longrightarrow> set (new_leases [(g, q)]) \<subseteq> set (new_leases rest)"
  by (induction rest rule: new_leases.induct) (auto split: assembly_ref.splits)

lemma new_leases_fresh:
  assumes "\<And>f p. (f, p) \<in> set rest \<Longrightarrow> plan_ok r lg s f p"
  shows "set (new_leases rest) \<inter> pend_leases r = {}"
  using assms
proof (induction rest)
  case (Cons fp rest)
  obtain f p where fp: "fp = (f, p)" by force
  have "set (new_leases rest) \<inter> pend_leases r = {}" using Cons.prems by (intro Cons.IH) simp
  moreover have "as_lease a \<notin> pend_leases r" if "pl_a p = NewAssembly a" for a
  proof -
    have "plan_ok r lg s f p" using Cons.prems fp by simp
    then have "\<forall>j b. pend r j = Some b \<longrightarrow> as_lease b \<noteq> as_lease a" using that by (simp add: plan_ok_def split: if_splits)
    then show ?thesis unfolding pend_leases_iff by blast
  qed
  ultimately show ?case by (cases "pl_a p") (auto simp: fp)
qed simp

lemma plans_ok_step:
  assumes "plans_ok r lg s ((f, p) # rest)" "round_ok s f p r lg ds r' lg'"
  shows "plans_ok r' lg' s rest"
proof -
  have p: "plan_ok r lg s f p" using assms(1) by (simp add: plans_ok_def)
  have "plan_ok r' lg' s g q" if gq: "(g, q) \<in> set rest" for g q
  proof (rule plan_ok_later [OF assms(2) p])
    show "plan_ok r lg s g q" "fr_DatagramID f < fr_DatagramID g" using assms(1) gq by (auto simp: plans_ok_def)
    show "set (new_leases [(f, p)]) \<inter> set (new_leases [(g, q)]) = {}"
      using assms(1) new_leases_mem [OF gq] by (auto simp: plans_ok_def split: assembly_ref.splits)
  qed
  then show ?thesis using assms(1) by (auto simp: plans_ok_def split: assembly_ref.splits)
qed

lemma acommits_other: "j \<notin> fr_DatagramID ` fst ` set rest \<Longrightarrow> snd (acommits rest m) j = m j"
proof (induction rest m rule: acommits.induct)
  case (2 f p rest m)
  obtain ds m1 where m1: "acommit f p m = (ds, m1)" by force
  have "m1 j = m j" using acommit_other [of j f p m] 2(2) m1 by simp
  then show ?case using 2(1) [OF m1 [symmetric]] 2(2) m1 by (cases "acommits rest m1") simp
qed simp

text \<open>The delivered datagrams own their leases, are out of the pending map and terminal in the history.\<close>

definition delivered_ok :: "Receiver \<Rightarrow> Ledger \<Rightarrow> nat \<Rightarrow> datagramState \<Rightarrow> bool" where
  "delivered_ok r lg s d \<longleftrightarrow>
     leases_of lg (dg_lease d) = Some (s, bytesClaim (word_of_nat (length (dg_data d)))) \<and> dg_lease d \<notin> pend_leases r \<and>
     pend r (dg_id d) = None \<and> retired (rv_window r) (dg_id d)"

lemma round_delivers:
  assumes ok: "round_ok s f p r lg ds r' lg'" and core: "recv_core {} r lg s" and p: "plan_ok r lg s f p" and d: "d \<in> set ds"
  shows "delivered_ok r' lg' s d" "dg_id d = fr_DatagramID f" "ds = [d]"
proof -
  have pe: "(ds, pend r') = acommit f p (pend r)" "leases_of lg' = acredit s f p (pend r) (leases_of lg)"
    using ok by (simp_all add: round_ok_def)
  let ?b = "stored (pend r) f p"
  have c: "\<not> pl_expire p" "\<not> skips p" "as_received ?b = as_total ?b" "d = \<lparr>dg_id = fr_DatagramID f, dg_data = as_data ?b, dg_lease = as_lease ?b\<rparr>"
    "pend r' = (pend r)(fr_DatagramID f := None)" "ds = [d]"
    using d pe(1) by (auto simp: acommit_def Let_def split: if_splits)
  show "dg_id d = fr_DatagramID f" "ds = [d]" using c by simp_all
  have "as_lease ?b \<notin> pend_leases r'"
  proof
    assume "as_lease ?b \<in> pend_leases r'"
    then obtain j b where b: "pend r j = Some b" "j \<noteq> fr_DatagramID f" "as_lease b = as_lease ?b"
      using c(5) by (auto simp: pend_leases_def ran_def split: if_splits)
    show False
    proof (cases "pl_a p")
      case PendingAssembly
      then obtain a where "pend r (fr_DatagramID f) = Some a" "target (pend r) f p = a"
        using p c(1,2) by (auto simp: plan_ok_def skips_def target_def)
      then show False using recv_coreD(10) [OF core b(1)] b(2,3) by simp
    next
      case (NewAssembly a)
      then show False using p c(1,2) b(1,3) by (auto simp: plan_ok_def target_def)
    qed (use c(1,2) in \<open>simp add: skips_def\<close>)
  qed
  moreover have "leases_of lg' (as_lease ?b) = Some (s, bytesClaim (word_of_nat (length (as_data ?b))))"
    using c(1-3) by (simp add: pe(2) acredit_def Let_def)
  moreover have "retired (rv_window r') (fr_DatagramID f)" using ok c(2,5) by (simp add: round_ok_def)
  ultimately show "delivered_ok r' lg' s d" using c(4,5) by (simp add: delivered_ok_def)
qed

lemma commit_all_ok:
  assumes "recv_core {} r lg s" "rv_haveTime r" "plans_ok r lg s rest" "commit_all rest (r, lg) = (ds, r', lg')"
  shows "recv_core {} r' lg' s \<and> (ds, pend r') = acommits rest (pend r) \<and> lg_peer lg' = lg_peer lg \<and> same_frame r r' \<and>
    history_le r r' \<and> (\<forall>d \<in> set ds. delivered_ok r' lg' s d) \<and> distinct (map dg_lease ds) \<and> distinct (map dg_id ds) \<and>
    dg_id ` set ds \<subseteq> fr_DatagramID ` fst ` set rest \<and>
    dg_lease ` set ds \<union> pend_leases r' \<subseteq> pend_leases r \<union> set (new_leases rest) \<and>
    (\<forall>h. h \<notin> pend_leases r \<union> set (new_leases rest) \<longrightarrow> leases_of lg' h = leases_of lg h)"
  using assms
proof (induction rest arbitrary: r lg ds)
  case Nil
  then show ?case by (simp add: pend_leases_def)
next
  case (Cons fp rest)
  obtain f p where fp: "fp = (f, p)" by force
  obtain ds1 r1 lg1 where c1: "commit_one f p (r, lg) = (ds1, r1, lg1)" by (metis prod_cases3)
  obtain ds2 where c2: "commit_all rest (r1, lg1) = (ds2, r', lg')" "ds = ds1 @ ds2"
    using Cons.prems(4) c1 by (auto simp: fp split: prod.splits)
  have p: "plan_ok r lg s f p" using Cons.prems(3) by (simp add: plans_ok_def fp)
  note R = commit_one_ok [OF Cons.prems(1,2) p c1]
  have core1: "recv_core {} r1 lg1 s" and f1: "same_frame r r1" "history_le r r1" "lg_peer lg1 = lg_peer lg" "(ds1, pend r1) = acommit f p (pend r)"
    using R by (simp_all add: round_ok_def)
  have time1: "rv_haveTime r1" using f1(1) Cons.prems(2) by (simp add: same_frame_def)
  note I = Cons.IH [OF core1 time1 plans_ok_step [OF Cons.prems(3) [unfolded fp] R] c2(1)]
  note L = round_leases [OF R p]
  have nl: "set (new_leases (fp # rest)) = set (new_leases [(f, p)]) \<union> set (new_leases rest)"
    and nd: "set (new_leases [(f, p)]) \<inter> set (new_leases rest) = {}"
    using Cons.prems(3) by (auto simp: fp plans_ok_def split: assembly_ref.splits)
  have ids: "fr_DatagramID f \<notin> fr_DatagramID ` fst ` set rest" using Cons.prems(3) by (auto simp: fp plans_ok_def)
  have pend2: "(ds2, pend r') = acommits rest (pend r1)" and fr2: "lg_peer lg' = lg_peer lg1" "same_frame r1 r'" "history_le r1 r'" using I by blast+
  have lease2: "dg_lease ` set ds2 \<union> pend_leases r' \<subseteq> pend_leases r1 \<union> set (new_leases rest)" using I by blast
  have d1: "delivered_ok r' lg' s d \<and> dg_lease d \<notin> dg_lease ` set ds2 \<and> dg_id d = fr_DatagramID f" if d: "d \<in> set ds1" for d
  proof -
    note D = round_delivers [OF R Cons.prems(1) p d]
    have "dg_lease d \<in> pend_leases r \<union> set (new_leases [(f, p)])" by (rule L(3) [OF d])
    moreover have "dg_lease d \<notin> pend_leases r1" using D(1) by (simp add: delivered_ok_def)
    moreover have "set (new_leases rest) \<inter> pend_leases r = {}"
      using Cons.prems(3) by (intro new_leases_fresh) (auto simp: fp plans_ok_def)
    ultimately have out: "dg_lease d \<notin> pend_leases r1 \<union> set (new_leases rest)" using nd by blast
    moreover have "pend r' (fr_DatagramID f) = pend r1 (fr_DatagramID f)"
      using acommits_other [OF ids, of "pend r1"] pend2 by (metis snd_conv)
    ultimately show ?thesis using D I lease2 unfolding delivered_ok_def history_le_def by auto
  qed
  have len: "ds1 = [] \<or> (\<exists>d. ds1 = [d])" using round_delivers(3) [OF R Cons.prems(1) p] by (cases ds1) auto
  have "recv_core {} r' lg' s" using I by blast
  moreover have "(ds, pend r') = acommits (fp # rest) (pend r)"
    using f1(4) pend2 c2(2) by (simp add: fp flip: f1(4) pend2)
  moreover have "lg_peer lg' = lg_peer lg" "same_frame r r'" "history_le r r'" using f1 fr2 frame_trans by auto
  moreover have "\<forall>d \<in> set ds. delivered_ok r' lg' s d" using d1 I c2(2) by auto
  moreover have "distinct (map dg_lease ds)" using len d1 I c2(2) by auto
  moreover have ids2: "dg_id ` set ds2 \<subseteq> fr_DatagramID ` fst ` set rest" using I by blast
  then have "distinct (map dg_id ds)" using len d1 I c2(2) ids by auto
  moreover have "dg_id ` set ds \<subseteq> fr_DatagramID ` fst ` set (fp # rest)" using d1 ids2 c2(2) by (auto simp: fp)
  moreover have "dg_lease ` set ds \<union> pend_leases r' \<subseteq> pend_leases r \<union> set (new_leases (fp # rest))"
    using lease2 L(2,3) c2(2) unfolding nl by auto
  moreover have "\<forall>h. h \<notin> pend_leases r \<union> set (new_leases (fp # rest)) \<longrightarrow> leases_of lg' h = leases_of lg h"
  proof (intro allI impI)
    fix h assume h: "h \<notin> pend_leases r \<union> set (new_leases (fp # rest))"
    then have "leases_of lg1 h = leases_of lg h" using L(1) nl by blast
    moreover have "h \<notin> pend_leases r1 \<union> set (new_leases rest)" using h L(2) nl by blast
    ultimately show "leases_of lg' h = leases_of lg h" using I by metis
  qed
  ultimately show ?case by blast
qed

end
