(* ===== verification/ReassemblyGroup.thy ===== *)
theory ReassemblyGroup
  imports ReassemblyCommit
begin

text \<open>
  \<open>AddGroup\<close> as a whole: planning, reservation with its exact rollback, and the commit of a plan whose
  promises hold. A failure changes neither the receiver nor any account of the ledger.
\<close>

subsection \<open>Planning\<close>

definition delta :: "planned \<Rightarrow> int" where
  "delta p = (if pl_expire p then - 1 else if pl_new p then 1 else 0)"

text \<open>The entry that the planning loop makes for a fragment.\<close>

definition plan_for :: "Receiver \<Rightarrow> int \<Rightarrow> Fragment \<Rightarrow> planned \<Rightarrow> bool" where
  "plan_for r now f p \<longleftrightarrow> plan_one r now f 0 = Inr (p, delta p)"

lemma plan_one_count: "plan_one r now f c = Inr (p, c') \<longleftrightarrow> plan_for r now f p \<and> c' = c + delta p"
  by (auto simp: plan_for_def plan_one_def delta_def noPlan_def split: option.splits if_splits sum.splits)

lemma plan_all_spec:
  "plan_all r now fs c = Inr (pls, c') \<Longrightarrow> list_all2 (plan_for r now) fs pls \<and> c' = c + sum_list (map delta pls)"
proof (induction fs arbitrary: c pls)
  case (Cons f fs)
  obtain p c1 where p: "plan_one r now f c = Inr (p, c1)" using Cons.prems by (auto split: sum.splits)
  then obtain ps where ps: "plan_all r now fs c1 = Inr (ps, c')" "pls = p # ps" using Cons.prems by (auto split: sum.splits)
  then show ?case using Cons.IH [OF ps(1)] p by (simp add: plan_one_count)
qed simp

lemma plan_forD:
  assumes "plan_for r now f p"
  shows "pl_new p \<Longrightarrow> p = noPlan\<lparr>pl_new := True\<rparr> \<and> pend r (fr_DatagramID f) = None \<and> State (rv_window r) (fr_DatagramID f) = Unseen"
    "\<not> pl_new p \<Longrightarrow> pl_a p \<noteq> NilAssembly \<Longrightarrow> pl_a p = PendingAssembly"
    "pl_expire p \<Longrightarrow> pl_a p = PendingAssembly \<and> (\<exists>a. pend r (fr_DatagramID f) = Some a \<and> now - as_admitted a \<ge> rl_Timeout (rv_limits r))"
    "pl_a p = PendingAssembly \<Longrightarrow> \<not> pl_expire p \<Longrightarrow> \<not> pl_duplicate p \<Longrightarrow>
      (\<exists>a. pend r (fr_DatagramID f) = Some a \<and> as_total a = fr_TotalBytes f \<and> inspect a f = Inr (pl_insert p, False) \<and>
        int (length (as_ranges a)) \<noteq> rl_MaxFragments (rv_limits r))"
proof -
  have one: "plan_one r now f 0 = Inr (p, delta p)" using assms by (simp add: plan_for_def)
  consider (pending) a where "map_of (rv_pending r) (fr_DatagramID f) = Some a" | (absent) "map_of (rv_pending r) (fr_DatagramID f) = None" by auto
  then have "(pl_new p \<longrightarrow> p = noPlan\<lparr>pl_new := True\<rparr> \<and> pend r (fr_DatagramID f) = None \<and> State (rv_window r) (fr_DatagramID f) = Unseen) \<and>
    (\<not> pl_new p \<longrightarrow> pl_a p \<noteq> NilAssembly \<longrightarrow> pl_a p = PendingAssembly) \<and>
    (pl_expire p \<longrightarrow> pl_a p = PendingAssembly \<and> (\<exists>a. pend r (fr_DatagramID f) = Some a \<and> now - as_admitted a \<ge> rl_Timeout (rv_limits r))) \<and>
    (pl_a p = PendingAssembly \<longrightarrow> \<not> pl_expire p \<longrightarrow> \<not> pl_duplicate p \<longrightarrow>
      (\<exists>a. pend r (fr_DatagramID f) = Some a \<and> as_total a = fr_TotalBytes f \<and> inspect a f = Inr (pl_insert p, False) \<and>
        int (length (as_ranges a)) \<noteq> rl_MaxFragments (rv_limits r)))"
  proof cases
    case (pending a)
    then show ?thesis using one by (auto simp: plan_one_def noPlan_def pend_def due_def split: if_splits sum.splits)
  next
    case absent
    then show ?thesis using one by (auto simp: plan_one_def noPlan_def pend_def split: if_splits)
  qed
  then show "pl_new p \<Longrightarrow> p = noPlan\<lparr>pl_new := True\<rparr> \<and> pend r (fr_DatagramID f) = None \<and> State (rv_window r) (fr_DatagramID f) = Unseen"
    "\<not> pl_new p \<Longrightarrow> pl_a p \<noteq> NilAssembly \<Longrightarrow> pl_a p = PendingAssembly"
    "pl_expire p \<Longrightarrow> pl_a p = PendingAssembly \<and> (\<exists>a. pend r (fr_DatagramID f) = Some a \<and> now - as_admitted a \<ge> rl_Timeout (rv_limits r))"
    "pl_a p = PendingAssembly \<Longrightarrow> \<not> pl_expire p \<Longrightarrow> \<not> pl_duplicate p \<Longrightarrow>
      (\<exists>a. pend r (fr_DatagramID f) = Some a \<and> as_total a = fr_TotalBytes f \<and> inspect a f = Inr (pl_insert p, False) \<and>
        int (length (as_ranges a)) \<noteq> rl_MaxFragments (rv_limits r))"
    by blast+
qed

subsection \<open>Reservation\<close>

definition reserved :: "Receiver \<Rightarrow> int \<Rightarrow> nat \<Rightarrow> Ledger \<Rightarrow> Ledger \<Rightarrow> Fragment \<times> planned \<Rightarrow> planned \<Rightarrow> bool" where
  "reserved r now s lg lg' fp q \<longleftrightarrow>
     (if pl_new (snd fp)
      then \<exists>h. q = (snd fp)\<lparr>pl_a := NewAssembly (newAssembly (fr_TotalBytes (fst fp)) now h)\<rparr> \<and> leases_of lg h = None \<and>
             leases_of lg' h = Some (s, bytesClaim (charge r (fst fp)))
      else q = snd fp)"

lemma reserve_all_ok:
  assumes "ledger_inv lg" "rv_scope r = Some (lg_peer lg, s)" "session_of lg s"
    and "\<forall>fp \<in> set rest. \<forall>a. pl_a (snd fp) \<noteq> NewAssembly a"
    and "reserve_all r now before rest lg = (Inr out, lg')"
  shows "\<exists>qs. out = before @ qs \<and> ledger_inv lg' \<and> lg_peer lg' = lg_peer lg \<and> session_of lg' s \<and>
    (\<forall>h x. leases_of lg h = Some x \<longrightarrow> leases_of lg' h = Some x) \<and> list_all2 (reserved r now s lg lg') rest qs \<and>
    distinct (new_leases (zip (map fst rest) qs)) \<and> (\<forall>h \<in> set (new_leases (zip (map fst rest) qs)). leases_of lg h = None)"
  using assms
proof (induction rest arbitrary: before lg)
  case (Cons fp rest)
  obtain f p where fp: "fp = (f, p)" by force
  have na: "\<forall>a. pl_a p \<noteq> NewAssembly a" and na2: "\<forall>fp \<in> set rest. \<forall>a. pl_a (snd fp) \<noteq> NewAssembly a"
    using Cons.prems(4) fp by simp_all
  show ?case
  proof (cases "pl_new p")
    case False
    have "reserve_all r now (before @ [p]) rest lg = (Inr out, lg')" using Cons.prems(5) False by (simp add: fp)
    then obtain qs where "out = (before @ [p]) @ qs" and I: "ledger_inv lg'" "lg_peer lg' = lg_peer lg" "session_of lg' s"
      "\<forall>h x. leases_of lg h = Some x \<longrightarrow> leases_of lg' h = Some x" "list_all2 (reserved r now s lg lg') rest qs"
      "distinct (new_leases (zip (map fst rest) qs))" "\<forall>h \<in> set (new_leases (zip (map fst rest) qs)). leases_of lg h = None"
      using Cons.IH [OF Cons.prems(1-3) na2, of "before @ [p]"] by blast
    moreover have "new_leases ((f, p) # zip (map fst rest) qs) = new_leases (zip (map fst rest) qs)"
      using na by (cases "pl_a p") auto
    moreover have "reserved r now s lg lg' (f, p) p" using False by (simp add: reserved_def)
    ultimately show ?thesis by (intro exI [of _ "p # qs"]) (simp add: fp)
  next
    case True
    obtain h lg1 where res: "reserve_in s (bytesClaim (charge r f)) lg = (Inr h, lg1)"
      and rest: "reserve_all r now (before @ [p\<lparr>pl_a := NewAssembly (newAssembly (fr_TotalBytes f) now h)\<rparr>]) rest lg1 = (Inr out, lg')"
      using Cons.prems(2,5) True by (auto simp: fp reserve_in_def split: sum.splits prod.splits)
    note R = ledger_scope.reserve_ok [OF Cons.prems(1,3) res]
    have peer: "lg_peer lg1 = lg_peer lg" using reserve_outcomes [of s "bytesClaim (charge r f)" lg] res by (auto simp: charge_fields)
    have pre: "ledger_inv lg1" "rv_scope r = Some (lg_peer lg1, s)" "session_of lg1 s" using R Cons.prems(2,3) peer by simp_all
    obtain qs where out: "out = (before @ [p\<lparr>pl_a := NewAssembly (newAssembly (fr_TotalBytes f) now h)\<rparr>]) @ qs"
      and I: "ledger_inv lg'" "lg_peer lg' = lg_peer lg1" "session_of lg' s"
      "\<forall>h x. leases_of lg1 h = Some x \<longrightarrow> leases_of lg' h = Some x" "list_all2 (reserved r now s lg1 lg') rest qs"
      "distinct (new_leases (zip (map fst rest) qs))" "\<forall>h \<in> set (new_leases (zip (map fst rest) qs)). leases_of lg1 h = None"
      using Cons.IH [OF pre na2 rest] by blast
    have old: "leases_of lg j = None" if "leases_of lg1 j = None" for j using that R by (auto split: if_splits)
    have "list_all2 (reserved r now s lg lg') rest qs"
      using I(5) by (rule list_all2_mono) (auto simp: reserved_def split: if_splits intro: old)
    moreover have "h \<notin> set (new_leases (zip (map fst rest) qs))" using I(7) R by auto
    moreover have "\<forall>j x. leases_of lg j = Some x \<longrightarrow> leases_of lg' j = Some x"
      using I(4) ledger_scope.reserve_keeps(2) [OF Cons.prems(1,3) res] by blast
    moreover have "leases_of lg' h = Some (s, bytesClaim (charge r f))" using I(4) R by simp
    moreover have "reserved r now s lg lg' (f, p) (p\<lparr>pl_a := NewAssembly (newAssembly (fr_TotalBytes f) now h)\<rparr>)"
      if "leases_of lg' h = Some (s, bytesClaim (charge r f))" using that True R by (auto simp: reserved_def)
    ultimately show ?thesis
      using out I peer R old
      by (intro exI [of _ "p\<lparr>pl_a := NewAssembly (newAssembly (fr_TotalBytes f) now h)\<rparr> # qs"]) (auto simp: fp newAssembly_def)
  qed
qed simp

text \<open>A failed reservation: all earlier ones of the group are released again.\<close>

definition own_leases :: "planned list \<Rightarrow> handle list" where
  "own_leases ps = concat (map (\<lambda>p. case pl_a p of NewAssembly a \<Rightarrow> if pl_new p then [as_lease a] else [] | _ \<Rightarrow> []) ps)"

lemma rollback_fold: "rollback ps lg = fold Lease_Release (own_leases ps) lg"
  unfolding rollback_def own_leases_def
  by (induction ps arbitrary: lg) (simp_all split: assembly_ref.split)

lemma reserve_all_err:
  assumes "\<not> ss_closed (lg_sessions p0 ! s)" "s < length (lg_sessions p0)" "rv_scope r = Some (lg_peer p0, s)"
    and "\<forall>fp \<in> set rest. \<forall>a. pl_a (snd fp) \<noteq> NewAssembly a" "\<forall>c \<in> set cs. \<not> cl_PendingAccept c"
    and "own_leases before = map (\<lambda>k. Some (lg_peer p0, length (lg_leases p0) + k)) [0..<length cs]"
    and "reserve_all r now before rest (owing s cs 0 p0) = (Inl e, lg')"
  shows "\<exists>n. lg' = p0\<lparr>lg_leases := lg_leases p0 @ replicate n dead_lease\<rparr>"
  using assms(4-7)
proof (induction rest arbitrary: before cs)
  case (Cons fp rest)
  obtain f p where fp: "fp = (f, p)" by force
  have peer: "lg_peer (owing s cs 0 p0) = lg_peer p0" by (simp add: owing_def)
  show ?case
  proof (cases "pl_new p")
    case False
    have "own_leases (before @ [p]) = own_leases before" using False by (simp add: own_leases_def split: assembly_ref.split)
    then show ?thesis using Cons.IH [of cs "before @ [p]"] Cons.prems False by (simp add: fp)
  next
    case True
    have rs: "Session_Reserve (rv_scope r) (bytesClaim (charge r f)) (owing s cs 0 p0) = reserve_in s (bytesClaim (charge r f)) (owing s cs 0 p0)"
      by (simp add: reserve_in_def peer assms(3))
    obtain res lg1 where res: "reserve_in s (bytesClaim (charge r f)) (owing s cs 0 p0) = (res, lg1)" by force
    show ?thesis
    proof (cases res)
      case (Inl err)
      then have "lg1 = owing s cs 0 p0" using ledger_scope.reserve_err res by blast
      then have "lg' = fold Lease_Release (own_leases before) (owing s cs 0 p0)"
        using Cons.prems(4) True Inl res rs by (simp add: fp rollback_fold)
      also have "\<dots> = owing s [] (length cs) p0"
        using rollback_owing [OF assms(1,2) Cons.prems(2), of 0] Cons.prems(3) by simp
      finally show ?thesis by (auto simp: owing_nothing)
    next
      case (Inr h)
      let ?q = "p\<lparr>pl_a := NewAssembly (newAssembly (fr_TotalBytes f) now h)\<rparr>"
      have h: "h = Some (lg_peer p0, length (lg_leases p0) + length cs)" "lg1 = owing s (cs @ [bytesClaim (charge r f)]) 0 p0"
        using reserve_owing [of s _ cs p0 h lg1] res Inr assms(2) by auto
      have "own_leases (before @ [?q]) = map (\<lambda>k. Some (lg_peer p0, length (lg_leases p0) + k)) [0..<length (cs @ [bytesClaim (charge r f)])]"
        using Cons.prems(3) True h(1) by (simp add: own_leases_def newAssembly_def)
      moreover have "\<forall>c \<in> set (cs @ [bytesClaim (charge r f)]). \<not> cl_PendingAccept c"
        using Cons.prems(2) by (simp add: bytesClaim_def)
      moreover have "reserve_all r now (before @ [?q]) rest (owing s (cs @ [bytesClaim (charge r f)]) 0 p0) = (Inl e, lg')"
        using Cons.prems(4) True Inr res rs h(2) by (simp add: fp)
      moreover have "\<forall>fp \<in> set rest. \<forall>a. pl_a (snd fp) \<noteq> NewAssembly a" using Cons.prems(1) by simp
      ultimately show ?thesis using Cons.IH by blast
    qed
  qed
qed simp

subsection \<open>The plan's promises\<close>

lemma list_all2_zip_D:
  "list_all2 P xs ys \<Longrightarrow> (x, y) \<in> set (zip xs ys) \<Longrightarrow> P x y"
  by (auto simp: list_all2_iff)

definition arrived :: "int \<Rightarrow> Receiver \<Rightarrow> Receiver" where
  "arrived now r = r\<lparr>rv_last := now, rv_haveTime := True\<rparr>"

lemma arrived_core:
  assumes "recv_core {} r lg s" "checkTime r now = None"
  shows "recv_core {} (arrived now r) lg s"
proof -
  have t: "rv_haveTime r \<longrightarrow> rv_last r \<le> now" using assms(2) by (auto simp: checkTime_def split: if_splits)
  note D = recv_coreD [OF assms(1)]
  have "admitted_at (arrived now r) = admitted_at r" by (simp add: admitted_at_def arrived_def fun_eq_iff)
  then have "\<exists>order. deadlines (arrived now r) order" using D(7) by (simp add: deadlines_def arrived_def)
  moreover have "held_ok (arrived now r) lg s i a" if "pend r i = Some a" for i a
    using D(8) [OF that] t by (auto simp: held_ok_def arrived_def)
  moreover have "pend (arrived now r) = pend r" "rv_limits (arrived now r) = rv_limits r" "rv_window (arrived now r) = rv_window r"
    "rv_scope (arrived now r) = rv_scope r" by (simp_all add: arrived_def)
  ultimately show ?thesis unfolding recv_core_def using D by auto
qed

lemma new_leases_allocate: "new_leases (zip fs (map allocate qs)) = new_leases (zip fs qs)"
proof (induction fs arbitrary: qs)
  case (Cons f fs)
  then show ?case by (cases qs) (auto simp: allocate_def split: assembly_ref.splits)
qed simp

lemma reserved_plan_ok:
  assumes core: "recv_core {} r lg s" and fo: "frag_ok (rv_limits r) f" and p: "plan_for r now f p"
    and q: "reserved r now s lg lg' (f, p) q" and keep: "\<And>h x. leases_of lg h = Some x \<Longrightarrow> leases_of lg' h = Some x"
  shows "plan_ok (arrived now r) lg' s f (allocate q)"
proof (cases "pl_new p")
  case True
  note P = plan_forD(1) [OF p True]
  obtain h where h: "q = p\<lparr>pl_a := NewAssembly (newAssembly (fr_TotalBytes f) now h)\<rparr>" "leases_of lg h = None"
    "leases_of lg' h = Some (s, bytesClaim (charge r f))" using q True by (auto simp: reserved_def)
  have "as_lease b \<noteq> h" if "pend r j = Some b" for j b
    using recv_coreD(8) [OF core that] h(2) by (auto simp: held_ok_def)
  moreover have "allocate q = (noPlan\<lparr>pl_new := True\<rparr>)\<lparr>pl_a := NewAssembly (fresh (fr_TotalBytes f) now h)\<rparr>"
    using P h(1) True by (simp add: allocate_def fresh_def newAssembly_def)
  ultimately show ?thesis
    using P fo h(3) by (simp add: plan_ok_def arrived_def noPlan_def charge_eq)
next
  case False
  then have "q = p" using q by (simp add: reserved_def)
  have na: "pl_a p = NilAssembly \<or> pl_a p = PendingAssembly" using plan_forD(2) [OF p False] by blast
  then have al: "allocate q = p" using \<open>q = p\<close> by (auto simp: allocate_def)
  have "int (length (as_ranges a)) < rl_MaxFragments (rv_limits r)"
    if "pend r i = Some a" "int (length (as_ranges a)) \<noteq> rl_MaxFragments (rv_limits r)" for i a
    using recv_coreD(9) [OF core that(1)] that(2) by (simp add: body_ok_def)
  then show ?thesis
    using fo na plan_forD(3,4) [OF p] unfolding al plan_ok_def by (fastforce simp: arrived_def)
qed

subsection \<open>The number of pending datagrams\<close>

definition plan_fits :: "(u64 \<Rightarrow> assembly option) \<Rightarrow> Fragment \<times> planned \<Rightarrow> bool" where
  "plan_fits m fp \<longleftrightarrow>
     (pl_expire (snd fp) \<or> pl_a (snd fp) = PendingAssembly \<and> \<not> skips (snd fp) \<longrightarrow> m (fr_DatagramID (fst fp)) \<noteq> None) \<and>
     (pl_a (snd fp) = PendingAssembly \<or> pl_a (snd fp) = NilAssembly \<or> pl_new (snd fp))"

lemma acommit_card:
  assumes fin: "finite (dom m)" and fits: "plan_fits m (f, p)"
  shows "finite (dom (snd (acommit f p m)))" "int (card (dom (snd (acommit f p m)))) \<le> int (card (dom m)) + delta p"
proof -
  let ?i = "fr_DatagramID f"
  have del: "card (dom m - {?i}) = (if m ?i = None then card (dom m) else card (dom m) - 1)"
    using fin by (auto simp: card_Diff_singleton_if domIff)
  have ins: "card (insert ?i (dom m)) = (if m ?i = None then Suc (card (dom m)) else card (dom m))"
    using card_insert_if [OF fin, of ?i] by (auto simp: domIff)
  have pos: "m ?i \<noteq> None \<Longrightarrow> 0 < card (dom m)" using fin by (auto simp: card_gt_0_iff)
  show "finite (dom (snd (acommit f p m)))" using fin by (simp add: acommit_def Let_def)
  show "int (card (dom (snd (acommit f p m)))) \<le> int (card (dom m)) + delta p"
    using fits del ins pos by (auto simp: plan_fits_def acommit_def Let_def delta_def skips_def)
qed

lemma acommits_card:
  assumes "finite (dom m)" "distinct (map (fr_DatagramID \<circ> fst) rest)" "\<forall>fp \<in> set rest. plan_fits m fp"
  shows "int (card (dom (snd (acommits rest m)))) \<le> int (card (dom m)) + sum_list (map (delta \<circ> snd) rest)"
  using assms
proof (induction rest arbitrary: m)
  case (Cons fp rest)
  obtain f p where fp: "fp = (f, p)" by force
  obtain ds m1 where m1: "acommit f p m = (ds, m1)" by force
  have one: "finite (dom m1)" "int (card (dom m1)) \<le> int (card (dom m)) + delta p"
    using acommit_card [of m f p] Cons.prems(1,3) m1 by (auto simp: fp)
  have "plan_fits m1 gq" if gq: "gq \<in> set rest" for gq
  proof -
    have "fr_DatagramID (fst gq) \<noteq> fr_DatagramID f" using Cons.prems(2) gq by (force simp: fp)
    then have "m1 (fr_DatagramID (fst gq)) = m (fr_DatagramID (fst gq))"
      using acommit_other [of "fr_DatagramID (fst gq)" f p m] m1 by simp
    then show ?thesis using Cons.prems(3) gq by (simp add: plan_fits_def)
  qed
  then have "int (card (dom (snd (acommits rest m1)))) \<le> int (card (dom m1)) + sum_list (map (delta \<circ> snd) rest)"
    using Cons.prems(2) one(1) by (intro Cons.IH) auto
  then show ?case using one(2) m1 by (cases "acommits rest m1") (simp add: fp comp_def)
qed simp

subsection \<open>AddGroup\<close>

text \<open>The entry that is committed for a fragment.\<close>

definition executes :: "Receiver \<Rightarrow> int \<Rightarrow> Fragment \<Rightarrow> planned \<Rightarrow> bool" where
  "executes r now f q \<longleftrightarrow>
     (\<exists>p. plan_for r now f p \<and>
        (if pl_new p then \<exists>h. q = p\<lparr>pl_a := NewAssembly (fresh (fr_TotalBytes f) now h)\<rparr> else q = p))"

text \<open>The plan of a successful call and the ledger after the reservations.\<close>

definition group_plan :: "Receiver \<Rightarrow> Ledger \<Rightarrow> nat \<Rightarrow> int \<Rightarrow> Fragment list \<Rightarrow> Ledger \<Rightarrow> (Fragment \<times> planned) list \<Rightarrow> bool" where
  "group_plan r lg s now fs lg1 rest \<longleftrightarrow>
     map fst rest = fs \<and> plans_ok (arrived now r) lg1 s rest \<and> (\<forall>(f, q) \<in> set rest. executes r now f q) \<and>
     int (card (dom (pend r))) + sum_list (map (delta \<circ> snd) rest) \<le> rl_MaxDatagrams (rv_limits r) \<and>
     recv_core {} (arrived now r) lg1 s \<and> lg_peer lg1 = lg_peer lg \<and>
     (\<forall>h x. leases_of lg h = Some x \<longrightarrow> leases_of lg1 h = Some x) \<and> (\<forall>h \<in> set (new_leases rest). leases_of lg h = None)"

lemma zip_sel: "list_all2 P xs ys \<Longrightarrow> map fst (zip xs ys) = xs \<and> map snd (zip xs ys) = ys"
  by (simp add: list_all2_lengthD)

lemma delta_executes:
  assumes "list_all2 (plan_for r now) fs pls" "list_all2 (reserved r now s lg lg1) (zip fs pls) qs"
  shows "map delta (map allocate qs) = map delta pls" "length qs = length fs" "length pls = length fs"
    "\<And>f q. (f, q) \<in> set (zip fs (map allocate qs)) \<Longrightarrow> \<exists>p q0. plan_for r now f p \<and> reserved r now s lg lg1 (f, p) q0 \<and> q = allocate q0"
proof -
  show len: "length qs = length fs" "length pls = length fs" using assms by (simp_all add: list_all2_iff)
  have nth: "plan_for r now (fs ! k) (pls ! k)" "reserved r now s lg lg1 (fs ! k, pls ! k) (qs ! k)" if "k < length fs" for k
    using that assms len by (simp_all add: list_all2_conv_all_nth)
  have same: "delta (allocate q) = delta p" if "reserved r now s lg lg1 (f, p) q" for f p q
    using that by (auto simp: reserved_def allocate_def delta_def split: if_splits assembly_ref.splits)
  show "map delta (map allocate qs) = map delta pls"
    by (rule nth_equalityI) (use len same [OF nth(2)] in auto)
  show "\<exists>p q0. plan_for r now f p \<and> reserved r now s lg lg1 (f, p) q0 \<and> q = allocate q0"
    if fq: "(f, q) \<in> set (zip fs (map allocate qs))" for f q
  proof -
    obtain k where "k < length fs" "f = fs ! k" "q = allocate (qs ! k)" using fq len by (auto simp: set_zip)
    then show ?thesis using nth by blast
  qed
qed

lemma AddGroup_plan:
  assumes core: "recv_core {} r lg s" and e: "AddGroup now fs (r, lg) = (Inr ds, r', lg')"
  obtains rest lg1 where "group_plan r lg s now fs lg1 rest" "commit_all rest (arrived now r, lg1) = (ds, r', lg')" "checkTime r now = None"
    "Receiver_validate r fs = None"
proof -
  note D = recv_coreD [OF core]
  have ct: "checkTime r now = None" using e by (auto simp: AddGroup.simps split: option.splits)
  have rv: "Receiver_validate r fs = None" using e ct by (auto simp: AddGroup.simps split: option.splits if_splits)
  obtain pls c where pl: "plan_all r now fs (int (length (rv_pending r))) = Inr (pls, c)" and c: "c \<le> rl_MaxDatagrams (rv_limits r)"
    using e ct rv by (auto simp: AddGroup.simps split: sum.splits prod.splits if_splits)
  obtain out lg1 where ra: "reserve_all r now [] (zip fs pls) lg = (Inr out, lg1)"
    and ca: "commit_all (zip fs (map allocate out)) (arrived now r, lg1) = (ds, r', lg')"
    using e ct rv pl c by (auto simp: AddGroup.simps arrived_def split: sum.splits prod.splits if_splits)
  note P = plan_all_spec [OF pl]
  have na: "\<forall>fp \<in> set (zip fs pls). \<forall>a. pl_a (snd fp) \<noteq> NewAssembly a"
  proof
    fix fp assume "fp \<in> set (zip fs pls)"
    then have pf: "plan_for r now (fst fp) (snd fp)" using P by (auto simp: list_all2_iff)
    show "\<forall>a. pl_a (snd fp) \<noteq> NewAssembly a"
      using plan_forD(1,2) [OF pf] by (cases "pl_new (snd fp)") (auto simp: noPlan_def)
  qed
  obtain qs where "out = [] @ qs" and R: "ledger_inv lg1" "lg_peer lg1 = lg_peer lg" "session_of lg1 s"
    "\<forall>h x. leases_of lg h = Some x \<longrightarrow> leases_of lg1 h = Some x" "list_all2 (reserved r now s lg lg1) (zip fs pls) qs"
    "distinct (new_leases (zip (map fst (zip fs pls)) qs))" "\<forall>h \<in> set (new_leases (zip (map fst (zip fs pls)) qs)). leases_of lg h = None"
    using reserve_all_ok [OF D(4,5,6) na ra] by blast
  then have out: "out = qs" by simp
  have fz: "map fst (zip fs pls) = fs" using zip_sel P by blast
  define rest where "rest = zip fs (map allocate qs)"
  note E = delta_executes [OF conjunct1 [OF P] R(5)]
  have nl: "new_leases rest = new_leases (zip fs qs)" by (simp add: rest_def new_leases_allocate)
  have can: "(\<forall>f \<in> set fs. frag_ok (rv_limits r) f \<and> 0 < fr_DatagramID f) \<and> sorted_wrt (<) (map fr_DatagramID fs)"
    using canonical_frags [OF D(1), of 0 fs] rv by (auto simp: Receiver_validate_def split: if_splits)
  have po: "plan_ok (arrived now r) lg1 s f q \<and> executes r now f q" if fq: "(f, q) \<in> set rest" for f q
  proof -
    obtain p q0 where pq: "plan_for r now f p" "reserved r now s lg lg1 (f, p) q0" "q = allocate q0"
      using E(4) [OF fq [unfolded rest_def]] by blast
    have "frag_ok (rv_limits r) f" using can fq by (auto simp: rest_def dest: set_zip_leftD)
    then have "plan_ok (arrived now r) lg1 s f q" using reserved_plan_ok [OF core _ pq(1,2)] R(4) pq(3) by blast
    moreover have "executes r now f q"
    proof (cases "pl_new p")
      case True
      then obtain h where "q0 = p\<lparr>pl_a := NewAssembly (newAssembly (fr_TotalBytes f) now h)\<rparr>" using pq(2) by (auto simp: reserved_def)
      then have "q = p\<lparr>pl_a := NewAssembly (fresh (fr_TotalBytes f) now h)\<rparr>"
        using True pq(3) by (simp add: allocate_def fresh_def newAssembly_def)
      then show ?thesis using pq(1) True by (auto simp: executes_def)
    next
      case False
      then have "q = p" using pq(2,3) plan_forD(2) [OF pq(1) False] by (auto simp: reserved_def allocate_def split: assembly_ref.splits)
      then show ?thesis using pq(1) False by (auto simp: executes_def)
    qed
    ultimately show ?thesis ..
  qed
  have mf: "map fst rest = fs" "map snd rest = map allocate qs" using E(2) by (simp_all add: rest_def)
  then have "map (fr_DatagramID \<circ> fst) rest = map fr_DatagramID fs" by (metis map_map)
  then have "plans_ok (arrived now r) lg1 s rest" using po can R(6) by (auto simp: plans_ok_def nl fz)
  moreover have "int (card (dom (pend r))) + sum_list (map (delta \<circ> snd) rest) \<le> rl_MaxDatagrams (rv_limits r)"
  proof -
    have "map (delta \<circ> snd) rest = map delta pls" using E(1) mf(2) by (metis map_map)
    moreover have "length (rv_pending r) = card (dom (pend r))"
      using D(7) by (auto simp: deadlines_def intro: length_pending linksD(1))
    ultimately show ?thesis using P c by simp
  qed
  moreover have "recv_core {} (arrived now r) lg1 s"
  proof (rule recv_core_ledger [OF arrived_core [OF core ct] R(1,2,3)])
    fix i a assume "pend (arrived now r) i = Some a"
    then have "pend r i = Some a" by (simp add: arrived_def)
    from D(8) [OF this] R(4) show "leases_of lg1 (as_lease a) = leases_of lg (as_lease a)" by (simp add: held_ok_def)
  qed
  ultimately have "group_plan r lg s now fs lg1 rest"
    unfolding group_plan_def using po R(2,4,7) mf(1) nl fz by auto
  then show thesis using that ca ct rv by (simp add: out rest_def)
qed

text \<open>A failed call leaves the receiver as it was and the ledger with some released leases more.\<close>

lemma AddGroup_error:
  assumes core: "recv_core {} r lg s" and e: "AddGroup now fs (r, lg) = (Inl err, r', lg')"
  shows "r' = r \<and> (\<exists>n. lg' = lg\<lparr>lg_leases := lg_leases lg @ replicate n dead_lease\<rparr>)"
proof -
  note D = recv_coreD [OF core]
  have self: "\<exists>n. lg = lg\<lparr>lg_leases := lg_leases lg @ replicate n dead_lease\<rparr>" by (rule exI [of _ 0]) simp
  show ?thesis
  proof (cases "\<exists>pls c out. checkTime r now = None \<and> \<not> sn_Closed (Session_Snapshot (rv_scope r) lg) \<and>
      plan_all r now fs (int (length (rv_pending r))) = Inr (pls, c) \<and> reserve_all r now [] (zip fs pls) lg = (Inl out, lg')")
    case False
    then have "r' = r \<and> lg' = lg"
      using e by (auto simp: AddGroup.simps split: option.splits if_splits sum.splits prod.splits)
    then show ?thesis using self by simp
  next
    case True
    then obtain pls c out where t: "checkTime r now = None" "\<not> sn_Closed (Session_Snapshot (rv_scope r) lg)"
      "plan_all r now fs (int (length (rv_pending r))) = Inr (pls, c)" "reserve_all r now [] (zip fs pls) lg = (Inl out, lg')" by blast
    have "r' = r" using e t by (auto simp: AddGroup.simps split: option.splits if_splits)
    moreover have open_s: "\<not> ss_closed (lg_sessions lg ! s)" "s < length (lg_sessions lg)"
      using t(2) D(5,6) by (simp_all add: Session_Snapshot_def session_of_def Let_def)
    have "\<forall>fp \<in> set (zip fs pls). \<forall>a. pl_a (snd fp) \<noteq> NewAssembly a"
    proof
      fix fp assume "fp \<in> set (zip fs pls)"
      then have pf: "plan_for r now (fst fp) (snd fp)" using plan_all_spec [OF t(3)] by (auto simp: list_all2_iff)
      show "\<forall>a. pl_a (snd fp) \<noteq> NewAssembly a"
        using plan_forD(1,2) [OF pf] by (cases "pl_new (snd fp)") (auto simp: noPlan_def)
    qed
    from reserve_all_err [OF open_s D(5) this, of "[]" "[]"] t(4)
    have "\<exists>n. lg' = lg\<lparr>lg_leases := lg_leases lg @ replicate n dead_lease\<rparr>" by (simp add: own_leases_def owing_start)
    ultimately show ?thesis by blast
  qed
qed

lemma AddGroup_count:
  assumes g: "group_plan r lg s now fs lg1 rest" and c: "commit_all rest (arrived now r, lg1) = (ds, r', lg')"
  shows "int (length (rv_pending r')) \<le> rl_MaxDatagrams (rv_limits r)"
proof -
  have core: "recv_core {} (arrived now r) lg1 s" and po: "plans_ok (arrived now r) lg1 s rest" and ex: "\<forall>(f, q) \<in> set rest. executes r now f q"
    and b: "int (card (dom (pend r))) + sum_list (map (delta \<circ> snd) rest) \<le> rl_MaxDatagrams (rv_limits r)"
    using g by (simp_all add: group_plan_def)
  have C: "recv_core {} r' lg' s" "(ds, pend r') = acommits rest (pend r)"
    using commit_all_ok [OF core _ po c] by (simp_all add: arrived_def)
  have "plan_fits (pend r) fq" if "fq \<in> set rest" for fq
  proof -
    obtain f q where fq: "fq = (f, q)" by force
    have p: "plan_ok (arrived now r) lg1 s f q" and "executes r now f q" using po ex that by (auto simp: plans_ok_def fq)
    then obtain p where pf: "plan_for r now f p" "if pl_new p then \<exists>h. q = p\<lparr>pl_a := NewAssembly (fresh (fr_TotalBytes f) now h)\<rparr> else q = p"
      by (auto simp: executes_def)
    then have "pl_a q = PendingAssembly \<or> pl_a q = NilAssembly \<or> pl_new q" using plan_forD(2) [OF pf(1)] by (auto split: if_splits)
    moreover have "pend (arrived now r) = pend r" by (simp add: arrived_def)
    then have "pl_expire q \<or> pl_a q = PendingAssembly \<and> \<not> skips q \<longrightarrow> pend r (fr_DatagramID f) \<noteq> None"
      using p by (cases "pl_expire q"; cases "pl_a q") (auto simp: plan_ok_def skips_def)
    ultimately show ?thesis by (simp add: plan_fits_def fq)
  qed
  moreover have "distinct (map (fr_DatagramID \<circ> fst) rest)"
    using po unfolding plans_ok_def by (blast intro: strict_sorted_iff [THEN iffD1, THEN conjunct2])
  ultimately have "int (card (dom (pend r'))) \<le> int (card (dom (pend r))) + sum_list (map (delta \<circ> snd) rest)"
    using acommits_card [of "pend r" rest] C(2) by (metis finite_set dom_pend snd_conv)
  moreover have "length (rv_pending r') = card (dom (pend r'))"
    using recv_coreD(7) [OF C(1)] by (auto simp: deadlines_def intro: length_pending linksD(1))
  ultimately show ?thesis using b by simp
qed

subsection \<open>Expiry\<close>

lemma deadlines_head:
  assumes "deadlines r order" "order \<noteq> []"
  shows "rv_head r = hd order" "rv_head r \<noteq> 0" "\<exists>a. map_of (rv_pending r) (rv_head r) = Some a"
proof -
  have l: "links r order" using assms(1) by (simp add: deadlines_def)
  show h: "rv_head r = hd order" using linksD(5) [OF l] assms(2) by (cases order) auto
  have m: "rv_head r \<in> set order" using h assms(2) by simp
  then show "rv_head r \<noteq> 0" using linksD(3) [OF l] by auto
  show "\<exists>a. map_of (rv_pending r) (rv_head r) = Some a"
    using m linksD(4) [OF l] by (metis map_of_None_keys option.exhaust)
qed

lemma expire_due_ok:
  assumes "recv_core {} r lg s" "deadlines r order" "expire_due now (r, lg) = (ids, r', lg')"
  shows "recv_core {} r' lg' s \<and> ids = takeWhile (\<lambda>i. now - admitted_at r i \<ge> rl_Timeout (rv_limits r)) order \<and>
    pend r' = (\<lambda>i. if i \<in> set ids then None else pend r i) \<and> same_frame r r' \<and> history_le r r' \<and> lg_peer lg' = lg_peer lg \<and>
    (\<forall>i \<in> set ids. State (rv_window r') i \<in> {Expired, Retired}) \<and>
    (\<forall>i. i \<notin> set ids \<longrightarrow> State (rv_window r') i = State (rv_window r) i) \<and>
    leases_of lg' = (\<lambda>h. if \<exists>i \<in> set ids. h = as_lease (the (pend r i)) then None else leases_of lg h)"
  using assms
proof (induction order arbitrary: r lg ids)
  case Nil
  then have "rv_head r = 0" by (simp add: deadlines_def links_def)
  then show ?case using Nil by (simp add: expire_due.simps [of now r lg])
next
  case (Cons i order)
  note H = deadlines_head [OF Cons.prems(2)]
  obtain a where a: "map_of (rv_pending r) i = Some a" using H by auto
  have adm: "admitted_at r i = as_admitted a" using a by (simp add: admitted_at_def pend_def)
  have hd: "rv_head r = i" "i \<noteq> 0" using H by simp_all
  show ?case
  proof (cases "due r a now")
    case False
    then show ?thesis using Cons.prems a hd adm by (simp add: expire_due.simps [of now r lg] due_def)
  next
    case True
    obtain r1 lg1 where ex: "expire i a (r, lg) = (r1, lg1)" by force
    obtain ids1 where rec: "expire_due now (r1, lg1) = (ids1, r', lg')" "ids = i # ids1"
      using Cons.prems(3) a hd True ex by (auto simp: expire_due.simps [of now r lg] split: prod.splits)
    note X = expire_ok [OF Cons.prems(1) a ex]
    have r1: "r1 = removePending i a (r\<lparr>rv_window := snd (Finish (rv_window r) i Expired)\<rparr>)" using ex by (simp add: expire.simps Let_def)
    obtain xs ys where xy: "i # order = xs @ i # ys" "deadlines r1 (xs @ ys)" using deadlines_remove(2) [OF Cons.prems(2) a r1] by blast
    have dist: "distinct (i # order)" using Cons.prems(2) by (auto simp: deadlines_def dest: linksD(2))
    then have "xs = []" using xy(1) by (cases xs) auto
    then have d1: "deadlines r1 order" using xy by simp
    note I = Cons.IH [OF X(1) d1 rec(1)]
    have lim: "rv_limits r1 = rv_limits r" using X(5) by (simp add: same_frame_def)
    have adm1: "admitted_at r1 j = admitted_at r j" if "j \<in> set order" for j
      using that dist X(2) by (auto simp: admitted_at_def)
    have tw: "takeWhile (\<lambda>j. now - admitted_at r1 j \<ge> rl_Timeout (rv_limits r1)) order = takeWhile (\<lambda>j. now - admitted_at r j \<ge> rl_Timeout (rv_limits r)) order"
      by (rule takeWhile_cong) (simp_all add: adm1 lim)
    have ids: "ids = takeWhile (\<lambda>j. now - admitted_at r j \<ge> rl_Timeout (rv_limits r)) (i # order)"
      using I rec(2) tw True adm by (simp add: due_def)
    have ni: "i \<notin> set ids1" using I dist by (auto dest: set_takeWhileD)
    have wi: "State (rv_window r1) i \<in> {Expired, Retired}"
      using recv_core_remove(8) [OF Cons.prems(1) _ a _ r1] by simp
    have "pend r' = (\<lambda>j. if j \<in> set ids then None else pend r j)" using I X(2) rec(2) by (auto simp: fun_eq_iff)
    moreover have "leases_of lg' = (\<lambda>h. if \<exists>j \<in> set ids. h = as_lease (the (pend r j)) then None else leases_of lg h)"
    proof -
      have "as_lease (the (pend r1 j)) = as_lease (the (pend r j))" if "j \<in> set ids1" for j using that ni X(2) by auto
      then show ?thesis using I X(3) rec(2) pend_Some [OF a] by (auto simp: fun_eq_iff)
    qed
    moreover have "\<forall>j \<in> set ids. State (rv_window r') j \<in> {Expired, Retired}" using I rec(2) wi ni by auto
    moreover have "\<forall>j. j \<notin> set ids \<longrightarrow> State (rv_window r') j = State (rv_window r) j" using I rec(2) X(8) by auto
    ultimately show ?thesis using I ids X(4,5,6) frame_trans by auto
  qed
qed

lemma due_exactly:
  assumes "deadlines r order"
  shows "set (takeWhile (\<lambda>i. now - admitted_at r i \<ge> T) order) = {i. \<exists>a. pend r i = Some a \<and> now - as_admitted a \<ge> T}"
proof -
  have l: "links r order" and st: "sorted (map (admitted_at r) order)" using assms by (simp_all add: deadlines_def)
  have dom: "set order = dom (pend r)" using linksD(4) [OF l] dom_pend [of r] by simp
  have "set (takeWhile (\<lambda>i. now - f i \<ge> T) xs) = {i \<in> set xs. now - f i \<ge> T}" if "sorted (map f xs)" for f :: "u64 \<Rightarrow> int" and xs
    using that by (induction xs) fastforce+
  from this [OF st] show ?thesis unfolding dom by (auto simp: admitted_at_def)
qed

end
