(* ===== verification/ReassemblyUse.thy ===== *)
theory ReassemblyUse
  imports ReassemblyGroup
begin

text \<open>
  The v2 reassembly at work: the receiver, the credit ledger it shares with other users, and the
  datagrams it has handed out, as a transition system; and the properties: what is delivered, when, and
  at most once; what every error and every expiry leaves; and that all memory is charged exactly.
\<close>

subsection \<open>Contents\<close>

lemma round_matches:
  assumes core: "recv_core {} r lg s" and p: "plan_ok r lg s f p" and ok: "round_ok s f p r lg ds r' lg'"
    and f: "fragment_of (orig (fr_DatagramID f)) f" and m: "\<And>i a. pend r i = Some a \<Longrightarrow> matches (orig i) a"
  shows "pend r' i = Some a \<Longrightarrow> matches (orig i) a" "d \<in> set ds \<Longrightarrow> dg_data d = orig (dg_id d)"
proof -
  let ?i = "fr_DatagramID f" and ?t = "target (pend r) f p" and ?b = "stored (pend r) f p"
  have pe: "(ds, pend r') = acommit f p (pend r)" using ok by (simp add: round_ok_def)
  have work: "matches (orig ?i) ?b \<and> (as_received ?b = as_total ?b \<longrightarrow> as_data ?b = orig ?i)" if w: "\<not> pl_expire p" "\<not> skips p"
  proof -
    note S = stored_ok [OF core p w]
    have "matches (orig ?i) ?t"
    proof (cases "pl_a p")
      case PendingAssembly
      then obtain a where "pend r ?i = Some a" "?t = a" using p w by (auto simp: plan_ok_def skips_def target_def)
      then show ?thesis using m by simp
    next
      case (NewAssembly a)
      then have "?t = fresh (fr_TotalBytes f) (rv_last r) (as_lease a)" using p w by (simp add: plan_ok_def target_def) (metis fresh_fields(8))
      then show ?thesis using f by (simp add: matches_def cover_def fragment_of_def)
    qed (use w in \<open>simp add: skips_def\<close>)
    then have mb: "matches (orig ?i) ?b" unfolding stored_def by (rule matches_store [OF _ f S(2,3)])
    have "as_data ?b = orig ?i" if "as_received ?b = as_total ?b"
    proof (rule nth_equalityI)
      have off: "unat (fr_Offset f) \<le> unat (as_total ?t)" using p S(1) by (simp add: plan_ok_def frag_ok_def)
      show len: "length (as_data ?b) = length (orig ?i)" using mb off S(2) by (simp add: matches_def stored_def)
      fix j assume "j < length (as_data ?b)"
      then have "j \<in> cover (as_ranges ?b)" using S(2,5) that off by (auto simp: stored_def cover_Insert)
      then show "as_data ?b ! j = orig ?i ! j" using mb by (simp add: matches_def)
    qed
    then show ?thesis using mb by simp
  qed
  show "matches (orig i) a" if "pend r' i = Some a"
    using that pe work m by (auto simp: acommit_def Let_def split: if_splits)
  show "dg_data d = orig (dg_id d)" if "d \<in> set ds"
    using that pe work by (auto simp: acommit_def Let_def split: if_splits)
qed

lemma commit_all_matches:
  assumes "recv_core {} r lg s" "rv_haveTime r" "plans_ok r lg s rest" "commit_all rest (r, lg) = (ds, r', lg')"
    and "\<And>f p. (f, p) \<in> set rest \<Longrightarrow> fragment_of (orig (fr_DatagramID f)) f" "\<And>i a. pend r i = Some a \<Longrightarrow> matches (orig i) a"
  shows "(\<forall>i a. pend r' i = Some a \<longrightarrow> matches (orig i) a) \<and> (\<forall>d \<in> set ds. dg_data d = orig (dg_id d))"
  using assms
proof (induction rest arbitrary: r lg ds)
  case (Cons fp rest)
  obtain f p where fp: "fp = (f, p)" by force
  obtain ds1 r1 lg1 where c1: "commit_one f p (r, lg) = (ds1, r1, lg1)" by (metis prod_cases3)
  obtain ds2 where c2: "commit_all rest (r1, lg1) = (ds2, r', lg')" "ds = ds1 @ ds2"
    using Cons.prems(4) c1 by (auto simp: fp split: prod.splits)
  have p: "plan_ok r lg s f p" using Cons.prems(3) by (simp add: plans_ok_def fp)
  note R = commit_one_ok [OF Cons.prems(1,2) p c1]
  have f: "fragment_of (orig (fr_DatagramID f)) f" using Cons.prems(5) [of f p] fp by simp
  note M = round_matches [where orig = orig, OF Cons.prems(1) p R f Cons.prems(6)]
  have time1: "rv_haveTime r1" and core1: "recv_core {} r1 lg1 s" using R Cons.prems(2) by (simp_all add: round_ok_def same_frame_def)
  have "fragment_of (orig (fr_DatagramID g)) g" if "(g, q) \<in> set rest" for g q using Cons.prems(5) [of g q] that by simp
  from Cons.IH [OF core1 time1 plans_ok_step [OF Cons.prems(3) [unfolded fp] R] c2(1) this M(1)] M(2) c2(2)
  show ?case by auto
qed simp

text \<open>The identifiers of a group are distinct, so each fragment meets the contents as they were.\<close>

lemma acommits_at:
  assumes "distinct (map (fr_DatagramID \<circ> fst) rest)" "(f, p) \<in> set rest"
  shows "snd (acommits rest m) (fr_DatagramID f) = snd (acommit f p m) (fr_DatagramID f)"
    "{d \<in> set (fst (acommits rest m)). dg_id d = fr_DatagramID f} = set (fst (acommit f p m))"
proof -
  have id: "dg_id d = fr_DatagramID g" if "d \<in> set (fst (acommit g q n))" for d g q n
    using that by (auto simp: acommit_def Let_def split: if_splits)
  have ids: "dg_id ` set (fst (acommits qs n)) \<subseteq> fr_DatagramID ` fst ` set qs" for qs n
  proof (induction qs n rule: acommits.induct)
    case (2 g q qs n)
    obtain ds1 m1 ds2 m2 where e: "acommit g q n = (ds1, m1)" "acommits qs m1 = (ds2, m2)" by (metis surj_pair)
    then show ?case using "2.IH" [OF e(1) [symmetric]] id [of _ g q n] by (auto simp: image_subset_iff)
  qed simp
  have cong: "snd (acommit f p n) (fr_DatagramID f) = snd (acommit f p m) (fr_DatagramID f) \<and> fst (acommit f p n) = fst (acommit f p m)"
    if "n (fr_DatagramID f) = m (fr_DatagramID f)" for n m
    using that by (simp add: acommit_def Let_def stored_def target_def split: assembly_ref.split)
  have "snd (acommits rest m) (fr_DatagramID f) = snd (acommit f p m) (fr_DatagramID f) \<and>
    {d \<in> set (fst (acommits rest m)). dg_id d = fr_DatagramID f} = set (fst (acommit f p m))"
    using assms
  proof (induction rest arbitrary: m)
    case (Cons gq rest)
    obtain g q where gq: "gq = (g, q)" by force
    obtain ds1 m1 where m1: "acommit g q m = (ds1, m1)" by force
    obtain ds2 m2 where m2: "acommits rest m1 = (ds2, m2)" by force
    show ?case
    proof (cases "(f, p) = gq")
      case True
      have ni: "fr_DatagramID f \<notin> fr_DatagramID ` fst ` set rest" using Cons.prems(1) True by (auto simp: gq)
      have "m2 (fr_DatagramID f) = m1 (fr_DatagramID f)" using acommits_other [OF ni, of m1] m2 by simp
      moreover have "{d \<in> set ds2. dg_id d = fr_DatagramID f} = {}" using ids [of rest m1] m2 ni unfolding image_subset_iff by (metis (mono_tags, lifting) Collect_empty_eq fst_conv)
      moreover have "dg_id d = fr_DatagramID f" if "d \<in> set ds1" for d using id [of d g q m] m1 that True gq by simp
      ultimately show ?thesis using m1 m2 True gq by auto
    next
      case False
      then have mem: "(f, p) \<in> set rest" using Cons.prems(2) by auto
      then have ne: "fr_DatagramID f \<noteq> fr_DatagramID g" using Cons.prems(1) by (force simp: gq)
      have "m1 (fr_DatagramID f) = m (fr_DatagramID f)" using acommit_other [OF ne, of q m] m1 by simp
      from cong [of m1 m, OF this] Cons.IH [OF _ mem, of m1] Cons.prems(1) m2
      have "m2 (fr_DatagramID f) = snd (acommit f p m) (fr_DatagramID f)" "{d \<in> set ds2. dg_id d = fr_DatagramID f} = set (fst (acommit f p m))"
        by auto
      moreover have "dg_id d \<noteq> fr_DatagramID f" if "d \<in> set ds1" for d using id [of d g q m] m1 that ne by simp
      ultimately show ?thesis using m1 m2 gq by auto
    qed
  qed simp
  then show "snd (acommits rest m) (fr_DatagramID f) = snd (acommit f p m) (fr_DatagramID f)"
    "{d \<in> set (fst (acommits rest m)). dg_id d = fr_DatagramID f} = set (fst (acommit f p m))" by blast+
qed

subsection \<open>The system\<close>

text \<open>The receiver, the ledger and every datagram handed out so far (a released one holds no lease).\<close>

type_synonym world = "Receiver \<times> Ledger \<times> datagramState list"

fun world_leases :: "world \<Rightarrow> handle set" where
  "world_leases (r, lg, out) = (pend_leases r \<union> {rv_windowLease r} \<union> dg_lease ` set out) - {None}"

definition world_start :: "world \<Rightarrow> bool" where
  "world_start w \<longleftrightarrow>
     (\<exists>r lg' lg s limits. w = (r, lg', []) \<and> reachable ledger_start ledger_step lg \<and> s < length (lg_sessions lg) \<and>
        (Receiver_New (Some (lg_peer lg, s)) limits lg = (Inr r, lg') \<or>
         (\<exists>prepaid. lease_handle lg prepaid \<and> NewPrepaid (Some (lg_peer lg, s)) limits prepaid lg = (Inr r, lg'))))"

text \<open>Groups whose fragments satisfy \<open>P\<close>, the other operations, and any other use of the shared ledger
  that leaves the leases held here alone.\<close>

inductive world_step :: "(Fragment \<Rightarrow> bool) \<Rightarrow> world \<Rightarrow> world \<Rightarrow> bool" for P where
  step_add: "AddGroup now fs (r, lg) = (Inr ds, r', lg') \<Longrightarrow> \<forall>f \<in> set fs. P f \<Longrightarrow> world_step P (r, lg, out) (r', lg', out @ ds)"
| step_fail: "AddGroup now fs (r, lg) = (Inl e, r', lg') \<Longrightarrow> world_step P (r, lg, out) (r', lg', out)"
| step_expire: "Receiver_Expire now (r, lg) = (res, r', lg') \<Longrightarrow> world_step P (r, lg, out) (r', lg', out)"
| step_close: "Receiver_Close (r, lg) = (r', lg') \<Longrightarrow> world_step P (r, lg, out) (r', lg', out)"
| step_release: "k < length out \<Longrightarrow> Datagram_Release (Some (out ! k)) lg = (Some d, lg') \<Longrightarrow> world_step P (r, lg, out) (r, lg', out[k := d])"
| step_other: "ledger_step lg lg' \<Longrightarrow> \<forall>h \<in> world_leases (r, lg, out). leases_of lg' h = leases_of lg h \<Longrightarrow>
    world_step P (r, lg, out) (r, lg', out)"

inductive_cases world_stepE: "world_step P (r, lg, out) w'"

definition out_ok :: "Ledger \<Rightarrow> nat \<Rightarrow> datagramState list \<Rightarrow> bool" where
  "out_ok lg s out \<longleftrightarrow>
     distinct (map dg_id out) \<and> distinct (filter (\<lambda>h. h \<noteq> None) (map dg_lease out)) \<and>
     (\<forall>d \<in> set out. dg_lease d \<noteq> None \<longrightarrow> leases_of lg (dg_lease d) = Some (s, bytesClaim (word_of_nat (length (dg_data d)))))"

definition open_ok :: "Receiver \<Rightarrow> Ledger \<Rightarrow> nat \<Rightarrow> datagramState list \<Rightarrow> bool" where
  "open_ok r lg s out \<longleftrightarrow>
     recv_core {} r lg s \<and> int (length (rv_pending r)) \<le> rl_MaxDatagrams (rv_limits r) \<and>
     (\<exists>c n. leases_of lg (rv_windowLease r) = Some (s, c) \<and> RequiredInitialBytes (rv_limits r) = Inr n \<and> n \<le> cl_Bytes c) \<and>
     rv_windowLease r \<notin> pend_leases r \<and>
     (\<forall>d \<in> set out. retired (rv_window r) (dg_id d) \<and> pend r (dg_id d) = None \<and>
        (dg_lease d \<noteq> None \<longrightarrow> dg_lease d \<notin> pend_leases r \<and> dg_lease d \<noteq> rv_windowLease r))"

definition closed_ok :: "Receiver \<Rightarrow> bool" where
  "closed_ok r \<longleftrightarrow> rv_pending r = [] \<and> rv_head r = 0 \<and> rv_windowLease r = None \<and> win_closed (rv_window r)"

fun world_inv :: "nat \<Rightarrow> world \<Rightarrow> bool" where
  "world_inv s (r, lg, out) \<longleftrightarrow>
     ledger_inv lg \<and> session_of lg s \<and> out_ok lg s out \<and> (if rv_closed r then closed_ok r else open_ok r lg s out)"

lemma closed_pend: "closed_ok r \<Longrightarrow> pend r = Map.empty \<and> pend_leases r = {}"
proof -
  assume "closed_ok r"
  then have "pend r = Map.empty" by (simp add: closed_ok_def pend_def fun_eq_iff)
  then show ?thesis by (simp add: pend_leases_def)
qed

subsection \<open>Start\<close>

lemma NewPrepaid_ok:
  assumes inv: "ledger_inv lg" and s: "s < length (lg_sessions lg)" and h: "lease_handle lg prepaid"
    and e: "NewPrepaid (Some (lg_peer lg, s)) limits prepaid lg = (Inr r, lg')"
  shows "world_inv s (r, lg', [])"
proof -
  obtain n where n: "RequiredInitialBytes limits = Inr n" using e by (auto simp: NewPrepaid_def split: sum.splits)
  obtain h' where b: "Session_BindBytes (Some (lg_peer lg, s)) prepaid n lg = (Inr h', lg')"
    and r: "r = \<lparr>rv_scope = Some (lg_peer lg, s), rv_limits = limits,
      rv_window = (case New (rl_Span limits) of Inr w \<Rightarrow> w | Inl _ \<Rightarrow> nilWindow), rv_windowLease = h',
      rv_pending = [], rv_head = 0, rv_tail = 0, rv_last = 0, rv_haveTime = False, rv_closed = False\<rparr>"
    using e n by (auto simp: NewPrepaid_def Let_def split: sum.splits prod.splits if_splits)
  have "1 \<le> unat (rl_Span limits) \<and> unat (rl_Span limits) \<le> 65536"
    using n by (auto simp: RequiredInitialBytes_def word_less_nat_alt split: if_splits)
  then obtain w where w: "New (rl_Span limits) = Inr w" by (simp add: New_def Let_def)
  note W = window_inv_New [OF w]
  obtain l where l: "prepaid = Some (lg_peer lg, l)" "\<not> ls_released (lg_leases lg ! l)" "ls_owner (lg_leases lg ! l) = Some s"
    "n \<le> cl_Bytes (ls_claim (lg_leases lg ! l))" "h' = Some (lg_peer lg, l)" "lg' = on_lease l (\<lambda>x. x\<lparr>ls_bound := True\<rparr>) lg"
    using b by (auto simp: Session_BindBytes_def Let_def not_less split: option.splits prod.splits if_splits)
  have len: "l < length (lg_leases lg)" using h l(1) by (simp add: lease_handle_def)
  have inv': "ledger_inv lg'" using BindBytes_inv [OF inv h, of "Some (lg_peer lg, s)" n] b by simp
  have "leases_of lg' h' = Some (s, ls_claim (lg_leases lg ! l))" using l len by (simp add: leases_of_def)
  moreover have "pend r = Map.empty" by (simp add: r pend_def fun_eq_iff)
  moreover have "deadlines r []" by (simp add: r deadlines_def links_def linked_def)
  moreover have "0 \<le> rl_MaxDatagrams limits" using limits_validD(1) [of limits] n by (simp add: limits_valid_def)
  ultimately show ?thesis
    using inv' s l n w W by (auto simp: out_ok_def open_ok_def recv_core_def r session_of_def limits_valid_def pend_leases_def)
qed

lemma world_start_inv: "world_start w \<Longrightarrow> \<exists>s. world_inv s w"
proof -
  assume "world_start w"
  then obtain r lg' lg s limits where w: "w = (r, lg', [])" and re: "reachable ledger_start ledger_step lg" and s: "s < length (lg_sessions lg)"
    and e: "Receiver_New (Some (lg_peer lg, s)) limits lg = (Inr r, lg') \<or>
      (\<exists>prepaid. lease_handle lg prepaid \<and> NewPrepaid (Some (lg_peer lg, s)) limits prepaid lg = (Inr r, lg'))"
    unfolding world_start_def by blast
  have inv: "ledger_inv lg" by (rule ledger_system.reachable_inv [OF re])
  show ?thesis
  proof (cases "Receiver_New (Some (lg_peer lg, s)) limits lg = (Inr r, lg')")
    case True
    then obtain n h lg1 where res: "reserve_in s (bytesClaim n) lg = (Inr h, lg1)"
      and np: "NewPrepaid (Some (lg_peer lg, s)) limits h lg1 = (Inr r, lg')"
      by (auto simp: Receiver_New_def reserve_in_def Let_def split: sum.splits prod.splits if_splits)
    have R: "h = Some (lg_peer lg, length (lg_leases lg))" "lg1 = chargeLocked s (bytesClaim n) (lg\<lparr>lg_leases := lg_leases lg @ [newLease s (bytesClaim n)]\<rparr>)"
      using res reserve_outcomes [of s "bytesClaim n" lg] by auto
    have inv1: "ledger_inv lg1" using ledger_scope.reserve_ok [OF inv _ res] s by (simp add: session_of_def)
    have "world_inv s (r, lg', [])"
      by (rule NewPrepaid_ok [OF inv1, of s h limits]) (use R s np in \<open>auto simp: charge_fields lease_handle_def\<close>)
    then show ?thesis using w by blast
  next
    case False
    then show ?thesis using NewPrepaid_ok [OF inv s] e w by blast
  qed
qed

subsection \<open>Steps\<close>

lemma live_Some: "leases_of lg h = Some x \<Longrightarrow> h \<noteq> None"
  by (cases h) simp_all

text \<open>Any change of the ledger that keeps the leases held here.\<close>

lemma world_ledger:
  assumes inv: "world_inv s (r, lg, out)" and lg': "ledger_inv lg'" "lg_peer lg' = lg_peer lg" "session_of lg' s"
    and same: "\<And>h. h \<in> world_leases (r, lg, out) \<Longrightarrow> leases_of lg' h = leases_of lg h"
  shows "world_inv s (r, lg', out)"
proof -
  have out: "out_ok lg' s out" using inv same by (auto simp: out_ok_def)
  have "open_ok r lg' s out" if o: "\<not> rv_closed r"
  proof -
    have ok: "open_ok r lg s out" using inv o by simp
    then have core: "recv_core {} r lg s" and "leases_of lg (rv_windowLease r) \<noteq> None" by (auto simp: open_ok_def)
    then have wl: "rv_windowLease r \<noteq> None" by (metis leases_of_None)
    have "recv_core {} r lg' s"
    proof (rule recv_core_ledger [OF core lg'])
      fix i a assume a: "pend r i = Some a"
      have "as_lease a \<noteq> None" using recv_coreD(8) [OF core a] live_Some unfolding held_ok_def by blast
      then show "leases_of lg' (as_lease a) = leases_of lg (as_lease a)" using same pend_leasesI [OF a] by simp
    qed
    moreover have "leases_of lg' (rv_windowLease r) = leases_of lg (rv_windowLease r)" using same wl by simp
    ultimately show ?thesis using ok by (simp add: open_ok_def)
  qed
  then show ?thesis using inv lg' out by simp
qed

lemma dead_lease_inv:
  assumes "ledger_inv p"
  shows "ledger_inv (p\<lparr>lg_leases := lg_leases p @ replicate n dead_lease\<rparr>)"
proof (induction n)
  case (Suc n)
  let ?q = "p\<lparr>lg_leases := lg_leases p @ replicate n dead_lease\<rparr>"
  note D = ledger_preD [OF Suc]
  have dead: "lease_ok k dead_lease" "share Q j dead_lease = (if Q None then amount j zeroClaim else 0)" for k Q j
    by (simp_all add: lease_ok_def dead_lease_def share_def zeroClaim_def)
  have acc: "accounts L u us (ls @ [dead_lease])" if "accounts L u us ls" for L u us ls
    using that dead unfolding accounts_def owed_append by simp
  have "accounts (lg_limits ?q) (ps_Usage (lg_usage ?q)) (map ss_usage (lg_sessions ?q)) (lg_leases ?q @ [dead_lease])"
    by (rule acc [OF D(2)])
  moreover have "slots {} (?q\<lparr>lg_leases := lg_leases ?q @ [dead_lease]\<rparr>)" using D(3) by (simp add: slots_def)
  ultimately have "ledger_inv (?q\<lparr>lg_leases := lg_leases ?q @ [dead_lease]\<rparr>)" using D(1) by (simp add: ledger_pre_def)
  moreover have "?q\<lparr>lg_leases := lg_leases ?q @ [dead_lease]\<rparr> = p\<lparr>lg_leases := lg_leases p @ replicate (Suc n) dead_lease\<rparr>"
    by (simp add: replicate_append_same [symmetric])
  ultimately show ?case by (simp only:)
qed (use assms in simp)

lemma dead_lease_view: "leases_of (p\<lparr>lg_leases := lg_leases p @ replicate n dead_lease\<rparr>) = leases_of p"
  by (auto simp: leases_of_def fun_eq_iff nth_append dead_lease_def split: option.split)

lemma open_of_time: "checkTime r now = None \<Longrightarrow> \<not> rv_closed r"
  by (auto simp: checkTime_def split: if_splits)

lemma world_fail:
  assumes inv: "world_inv s (r, lg, out)" and e: "AddGroup now fs (r, lg) = (Inl err, r', lg')"
  shows "world_inv s (r', lg', out)"
proof (cases "rv_closed r")
  case True
  then have "r' = r \<and> lg' = lg" using e by (simp add: AddGroup.simps checkTime_def)
  then show ?thesis using inv by simp
next
  case False
  then have "recv_core {} r lg s" using inv by (simp add: open_ok_def)
  from AddGroup_error [OF this e] obtain n where n: "r' = r" "lg' = lg\<lparr>lg_leases := lg_leases lg @ replicate n dead_lease\<rparr>" by blast
  show ?thesis unfolding n(1)
    by (rule world_ledger [OF inv])
      (use inv dead_lease_inv [of lg n] dead_lease_view [of lg n] in \<open>simp_all add: n(2) session_of_def\<close>)
qed

text \<open>A terminal identifier is skipped, and never delivered again.\<close>

lemma terminal_skips:
  assumes g: "group_plan r lg s now fs lg1 rest" and f: "(f, q) \<in> set rest"
    and t: "pend r (fr_DatagramID f) = None" "State (rv_window r) (fr_DatagramID f) \<noteq> Unseen"
  shows "\<not> pl_expire q \<and> skips q"
proof -
  obtain p where pf: "plan_for r now f p" and pq: "if pl_new p then \<exists>h. q = p\<lparr>pl_a := NewAssembly (fresh (fr_TotalBytes f) now h)\<rparr> else q = p"
    using g f by (auto simp: group_plan_def executes_def)
  have "map_of (rv_pending r) (fr_DatagramID f) = None" using t(1) by (simp add: pend_def)
  then have "p = noPlan" using pf t(2) by (simp add: plan_for_def plan_one_def)
  then show ?thesis using pq by (simp add: noPlan_def skips_def)
qed

lemma group_result:
  assumes g: "group_plan r lg s now fs lg1 rest" and c: "commit_all rest (arrived now r, lg1) = (ds, r', lg')"
  shows "(f, q) \<in> set rest \<Longrightarrow> pend r' (fr_DatagramID f) = snd (acommit f q (pend r)) (fr_DatagramID f)"
    "(f, q) \<in> set rest \<Longrightarrow> {d \<in> set ds. dg_id d = fr_DatagramID f} = set (fst (acommit f q (pend r)))"
    "pend r i = None \<Longrightarrow> State (rv_window r) i \<noteq> Unseen \<Longrightarrow> pend r' i = None \<and> (\<forall>d \<in> set ds. dg_id d \<noteq> i)"
proof -
  have core: "recv_core {} (arrived now r) lg1 s" and po: "plans_ok (arrived now r) lg1 s rest" using g by (simp_all add: group_plan_def)
  have pa: "pend (arrived now r) = pend r" "rv_haveTime (arrived now r)" by (simp_all add: arrived_def)
  have C: "(ds, pend r') = acommits rest (pend r)" "dg_id ` set ds \<subseteq> fr_DatagramID ` fst ` set rest"
    using commit_all_ok [OF core pa(2) po c] unfolding pa by blast+
  have dist: "distinct (map (fr_DatagramID \<circ> fst) rest)"
    using po unfolding plans_ok_def by (blast intro: strict_sorted_iff [THEN iffD1, THEN conjunct2])
  have eq: "ds = fst (acommits rest (pend r))" "pend r' = snd (acommits rest (pend r))" by (simp_all flip: C(1))
  show at: "(f, q) \<in> set rest \<Longrightarrow> pend r' (fr_DatagramID f) = snd (acommit f q (pend r)) (fr_DatagramID f)"
    "(f, q) \<in> set rest \<Longrightarrow> {d \<in> set ds. dg_id d = fr_DatagramID f} = set (fst (acommit f q (pend r)))" for f q
    using acommits_at [OF dist, of f q "pend r"] unfolding eq by blast+
  show "pend r' i = None \<and> (\<forall>d \<in> set ds. dg_id d \<noteq> i)" if t: "pend r i = None" "State (rv_window r) i \<noteq> Unseen"
  proof (cases "i \<in> fr_DatagramID ` fst ` set rest")
    case True
    then obtain f q where f: "(f, q) \<in> set rest" "i = fr_DatagramID f" by auto
    have "\<not> pl_expire q \<and> skips q" by (rule terminal_skips [OF g f(1)]) (use t f(2) in simp_all)
    then have "acommit f q (pend r) = ([], pend r)" by (simp add: acommit_def Let_def)
    then show ?thesis using at [OF f(1)] t(1) f(2) by auto
  next
    case False
    then show ?thesis using acommits_other [OF False, of "pend r"] t(1) C(2) unfolding eq by auto
  qed
qed

lemma world_add:
  assumes inv: "world_inv s (r, lg, out)" and e: "AddGroup now fs (r, lg) = (Inr ds, r', lg')"
  shows "world_inv s (r', lg', out @ ds)"
proof -
  have o: "\<not> rv_closed r" using e by (auto simp: AddGroup.simps checkTime_def split: if_splits)
  then have ok: "open_ok r lg s out" and oo: "out_ok lg s out" using inv by simp_all
  then have core: "recv_core {} r lg s" by (simp add: open_ok_def)
  obtain rest lg1 where g: "group_plan r lg s now fs lg1 rest" and c: "commit_all rest (arrived now r, lg1) = (ds, r', lg')"
    by (rule AddGroup_plan [OF core e])
  have core1: "recv_core {} (arrived now r) lg1 s" and po: "plans_ok (arrived now r) lg1 s rest"
    and keep: "\<And>h x. leases_of lg h = Some x \<Longrightarrow> leases_of lg1 h = Some x" and nf: "\<And>h. h \<in> set (new_leases rest) \<Longrightarrow> leases_of lg h = None"
    using g unfolding group_plan_def by blast+
  have pa: "pend (arrived now r) = pend r" "rv_haveTime (arrived now r)" "pend_leases (arrived now r) = pend_leases r"
    "rv_window (arrived now r) = rv_window r" by (simp_all add: arrived_def pend_leases_def)
  note C = commit_all_ok [OF core1 pa(2) po c, unfolded pa]
  have fr: "rv_limits r' = rv_limits r" "rv_windowLease r' = rv_windowLease r" "rv_closed r' = rv_closed r"
    using C by (auto simp: same_frame_def arrived_def)
  have held: "leases_of lg' h = Some x \<and> h \<notin> pend_leases r' \<and> h \<notin> dg_lease ` set ds" if "leases_of lg h = Some x" "h \<notin> pend_leases r" for h x
  proof -
    have "h \<notin> pend_leases r \<union> set (new_leases rest)" using that nf by auto
    moreover have "\<forall>h. h \<notin> pend_leases r \<union> set (new_leases rest) \<longrightarrow> leases_of lg' h = leases_of lg1 h"
      and "dg_lease ` set ds \<union> pend_leases r' \<subseteq> pend_leases r \<union> set (new_leases rest)" using C by blast+
    ultimately show ?thesis using keep [OF that(1)] by auto
  qed
  have old: "d \<in> set out \<Longrightarrow> retired (rv_window r) (dg_id d) \<and> pend r (dg_id d) = None" for d using ok by (simp add: open_ok_def)
  have notagain: "pend r' (dg_id d) = None \<and> (\<forall>x \<in> set ds. dg_id x \<noteq> dg_id d)" if "d \<in> set out" for d
    using group_result(3) [OF g c] old [OF that] by (auto simp: retired_def)
  have live: "dg_lease d \<noteq> None \<Longrightarrow> leases_of lg (dg_lease d) = Some (s, bytesClaim (word_of_nat (length (dg_data d)))) \<and>
      dg_lease d \<notin> pend_leases r \<and> dg_lease d \<noteq> rv_windowLease r" if "d \<in> set out" for d
    using that ok oo by (simp add: open_ok_def out_ok_def)
  have kept: "leases_of lg' (dg_lease d) = Some (s, bytesClaim (word_of_nat (length (dg_data d)))) \<and> dg_lease d \<notin> pend_leases r' \<and>
      dg_lease d \<notin> dg_lease ` set ds \<and> dg_lease d \<noteq> rv_windowLease r" if "d \<in> set out" "dg_lease d \<noteq> None" for d
    using live [OF that] held by blast
  have new: "delivered_ok r' lg' s d" if "d \<in> set ds" for d using C that by blast
  have dsome: "dg_lease d \<noteq> None" if "d \<in> set ds" for d using new [OF that] live_Some unfolding delivered_ok_def by blast
  have "out_ok lg' s (out @ ds)"
  proof -
    have "distinct (map dg_id ds)" "distinct (map dg_lease ds)" using C by blast+
    moreover have "\<forall>d \<in> set out. \<forall>x \<in> set ds. dg_id x \<noteq> dg_id d" using notagain by simp
    then have "dg_id ` set out \<inter> dg_id ` set ds = {}" unfolding disjoint_iff image_iff by metis
    ultimately have d1: "distinct (map dg_id (out @ ds))" and d2: "distinct (map dg_lease ds)" using oo by (simp_all add: out_ok_def)
    have "dg_lease ` set out \<inter> dg_lease ` set ds \<subseteq> {None}" 
    proof
      fix h assume "h \<in> dg_lease ` set out \<inter> dg_lease ` set ds"
      then obtain d where d: "d \<in> set out" "h = dg_lease d" "h \<in> dg_lease ` set ds" by blast
      then show "h \<in> {None}" using kept by blast
    qed
    then have "set (filter (\<lambda>h. h \<noteq> None) (map dg_lease out)) \<inter> set (map dg_lease ds) = {}" by auto
    moreover have "filter (\<lambda>h. h \<noteq> None) (map dg_lease ds) = map dg_lease ds" using dsome by (simp add: filter_id_conv)
    moreover have "distinct (filter (\<lambda>h. h \<noteq> None) (map dg_lease out))" using oo by (simp add: out_ok_def)
    ultimately have "distinct (filter (\<lambda>h. h \<noteq> None) (map dg_lease (out @ ds)))" using d2 by (simp only: map_append filter_append distinct_append)
    moreover have "leases_of lg' (dg_lease d) = Some (s, bytesClaim (word_of_nat (length (dg_data d))))" if "d \<in> set (out @ ds)" "dg_lease d \<noteq> None" for d
      using that kept new unfolding delivered_ok_def set_append by blast
    ultimately show ?thesis using d1 unfolding out_ok_def by blast
  qed
  moreover have "open_ok r' lg' s (out @ ds)"
  proof -
    obtain cl n where w: "leases_of lg (rv_windowLease r) = Some (s, cl)" "RequiredInitialBytes (rv_limits r) = Inr n" "n \<le> cl_Bytes cl"
      "rv_windowLease r \<notin> pend_leases r" using ok by (auto simp: open_ok_def)
    note hw = held [OF w(1,4)]
    have hist: "history_le (arrived now r) r'" using C by blast
    have each: "retired (rv_window r') (dg_id d) \<and> pend r' (dg_id d) = None \<and>
        (dg_lease d \<noteq> None \<longrightarrow> dg_lease d \<notin> pend_leases r' \<and> dg_lease d \<noteq> rv_windowLease r')" if d: "d \<in> set (out @ ds)" for d
    proof (cases "d \<in> set out")
      case True
      have "retired (rv_window r') (dg_id d)" using old [OF True] hist by (simp add: history_le_def pa)
      then show ?thesis using notagain [OF True] kept [OF True] unfolding fr by blast
    next
      case False
      then have dd: "d \<in> set ds" using d by simp
      have "dg_lease d \<noteq> rv_windowLease r" using hw imageI [OF dd, of dg_lease] by metis
      then show ?thesis using new [OF dd] unfolding fr delivered_ok_def by blast
    qed
    have "recv_core {} r' lg' s" using C by blast
    moreover have "\<exists>c n. leases_of lg' (rv_windowLease r) = Some (s, c) \<and> RequiredInitialBytes (rv_limits r) = Inr n \<and> n \<le> cl_Bytes c"
      using hw w(2,3) by blast
    moreover have "\<forall>d \<in> set (out @ ds). retired (rv_window r') (dg_id d) \<and> pend r' (dg_id d) = None \<and>
        (dg_lease d \<noteq> None \<longrightarrow> dg_lease d \<notin> pend_leases r' \<and> dg_lease d \<noteq> rv_windowLease r)"
      by (intro ballI, unfold fr(2) [symmetric]) (rule each)
    ultimately show ?thesis using AddGroup_count [OF g c] conjunct1 [OF conjunct2 [OF hw]] by (simp only: open_ok_def fr simp_thms)
  qed
  moreover have "recv_core {} r' lg' s" using C by blast
  then have "ledger_inv lg'" "session_of lg' s" by (rule recv_coreD)+
  ultimately show ?thesis using o fr by simp
qed

lemma open_shrinks:
  assumes ok: "open_ok r lg s out" and oo: "out_ok lg s out" and core: "recv_core {} r' lg' s"
    and sub: "\<And>i. pend r' i = None \<or> pend r' i = pend r i" and hist: "history_le r r'"
    and fr: "rv_limits r' = rv_limits r" "rv_windowLease r' = rv_windowLease r"
    and same: "\<And>h. h \<notin> pend_leases r \<Longrightarrow> leases_of lg' h = leases_of lg h"
  shows "open_ok r' lg' s out" "out_ok lg' s out"
proof -
  have core0: "recv_core {} r lg s" using ok by (simp add: open_ok_def)
  have pl: "pend_leases r' \<subseteq> pend_leases r"
  proof
    fix h assume "h \<in> pend_leases r'"
    then obtain j b where b: "pend r' j = Some b" "as_lease b = h" by (auto simp: pend_leases_iff)
    then have "pend r j = Some b" using sub [of j] by simp
    then show "h \<in> pend_leases r" using b(2) pend_leases_iff by blast
  qed
  have "dom (pend r') \<subseteq> dom (pend r)"
  proof
    fix i assume "i \<in> dom (pend r')"
    then show "i \<in> dom (pend r)" using sub [of i] by auto
  qed
  then have "card (dom (pend r')) \<le> card (dom (pend r))" by (intro card_mono) (simp_all add: dom_pend)
  moreover have "length (rv_pending r') = card (dom (pend r'))" "length (rv_pending r) = card (dom (pend r))"
    using recv_coreD(7) [OF core] recv_coreD(7) [OF core0] by (auto simp: deadlines_def intro: length_pending linksD(1))
  ultimately have cnt: "int (length (rv_pending r')) \<le> rl_MaxDatagrams (rv_limits r')" using ok fr by (simp add: open_ok_def)
  have out: "d \<in> set out \<Longrightarrow> retired (rv_window r) (dg_id d) \<and> pend r (dg_id d) = None \<and>
      (dg_lease d \<noteq> None \<longrightarrow> dg_lease d \<notin> pend_leases r \<and> dg_lease d \<noteq> rv_windowLease r)" for d
    using ok unfolding open_ok_def by blast
  have "retired (rv_window r') (dg_id d) \<and> pend r' (dg_id d) = None \<and>
      (dg_lease d \<noteq> None \<longrightarrow> dg_lease d \<notin> pend_leases r' \<and> dg_lease d \<noteq> rv_windowLease r')" if "d \<in> set out" for d
  proof -
    have "pend r' (dg_id d) = None" using sub [of "dg_id d"] out [OF that] by auto
    moreover have "retired (rv_window r') (dg_id d)" using hist out [OF that] by (simp add: history_le_def)
    ultimately show ?thesis using out [OF that] pl unfolding fr by blast
  qed
  moreover obtain c n where w: "leases_of lg (rv_windowLease r) = Some (s, c)" "RequiredInitialBytes (rv_limits r) = Inr n" "n \<le> cl_Bytes c"
    "rv_windowLease r \<notin> pend_leases r" using ok by (auto simp: open_ok_def)
  have "leases_of lg' (rv_windowLease r') = Some (s, c)" "rv_windowLease r' \<notin> pend_leases r'" using same [OF w(4)] w(1,4) pl fr by auto
  ultimately show "open_ok r' lg' s out" unfolding open_ok_def using core cnt w(2,3) fr(1) by auto
  show "out_ok lg' s out" using oo out same unfolding out_ok_def by auto
qed

lemma world_expire:
  assumes inv: "world_inv s (r, lg, out)" and e: "Receiver_Expire now (r, lg) = (res, r', lg')"
  shows "world_inv s (r', lg', out)"
proof (cases "checkTime r now")
  case (Some err)
  then have "r' = r \<and> lg' = lg" using e by (simp add: Receiver_Expire.simps)
  then show ?thesis using inv by simp
next
  case None
  then have o: "\<not> rv_closed r" by (rule open_of_time)
  obtain ids where x: "expire_due now (arrived now r, lg) = (ids, r', lg')"
    using e None by (auto simp: Receiver_Expire.simps arrived_def split: prod.splits)
  have ok: "open_ok r lg s out" "out_ok lg s out" using inv o by simp_all
  then have core: "recv_core {} (arrived now r) lg s" using arrived_core [OF _ None] by (simp add: open_ok_def)
  obtain order where d: "deadlines (arrived now r) order" using recv_coreD(7) [OF core] by blast
  note X = expire_due_ok [OF core d x]
  have pa: "pend (arrived now r) = pend r" "rv_window (arrived now r) = rv_window r" by (simp_all add: arrived_def)
  have core': "recv_core {} r' lg' s" using X by blast
  have fr: "rv_limits r' = rv_limits r" "rv_windowLease r' = rv_windowLease r" "rv_closed r' = rv_closed r"
    using X by (auto simp: same_frame_def arrived_def)
  have hist: "history_le r r'" using X by (simp add: history_le_def pa)
  have sub: "pend r' i = None \<or> pend r' i = pend r i" for i using X by (simp add: pa)
  have due: "set ids \<subseteq> dom (pend r)"
    using X due_exactly [OF d, where now = now and T = "rl_Timeout (rv_limits (arrived now r))"] by (auto simp: pa)
  have same: "leases_of lg' h = leases_of lg h" if "h \<notin> pend_leases r" for h
  proof -
    have "h \<noteq> as_lease (the (pend r i))" if "i \<in> set ids" for i
      using that due pend_leasesI [of r i] \<open>h \<notin> pend_leases r\<close> by force
    then show ?thesis using X by (simp add: pa)
  qed
  from open_shrinks [OF ok core' sub hist fr(1,2) same] recv_coreD(4,6) [OF core'] show ?thesis using o fr(3) by simp
qed

lemma expire_all_due:
  "(\<And>i a. pend r i = Some a \<Longrightarrow> due r a now) \<Longrightarrow> expire_all (r, lg) = snd (expire_due now (r, lg))"
proof (induction now "(r, lg)" arbitrary: r lg rule: expire_due.induct)
  case (1 now r lg)
  show ?case
  proof (cases "rv_head r = 0")
    case False
    show ?thesis
    proof (cases "map_of (rv_pending r) (rv_head r)")
      case (Some a)
      then have da: "due r a now" using "1.prems" [OF pend_Some [OF Some]] by (simp add: due_def)
      obtain r1 lg1 where ex: "expire (rv_head r) a (r, lg) = (r1, lg1)" by force
      then have r1: "r1 = removePending (rv_head r) a (r\<lparr>rv_window := snd (Finish (rv_window r) (rv_head r) Expired)\<rparr>)"
        by (simp add: expire.simps Let_def)
      have "due r1 b now" if ib: "pend r1 i = Some b" for i b
      proof -
        obtain c where c: "pend r i = Some c" "as_admitted c = as_admitted b"
          using ib unfolding r1 pend_def
          by (auto simp: removePending_def Let_def delete_conv' map_of_on_pending split: if_splits)
        then show ?thesis using "1.prems" [OF c(1)] by (simp add: due_def r1)
      qed
      then have "expire_all (r1, lg1) = snd (expire_due now (r1, lg1))" using "1.hyps" [OF False Some _ ex] da by simp
      then show ?thesis
        using False Some da ex by (simp add: expire_all.simps [of r] expire_due.simps [of now r] split: prod.splits)
    qed (use False in \<open>simp add: expire_all.simps [of r] expire_due.simps [of now r]\<close>)
  qed (simp add: expire_all.simps [of r] expire_due.simps [of now r])
qed
end
