(* ===== verification/ReassemblyWorld.thy ===== *)
theory ReassemblyWorld
  imports ReassemblyUse
begin

text \<open>Closing the receiver, releasing delivered datagrams, and the reachable states.\<close>

lemma admitted_closed [simp]: "admitted_at (r\<lparr>rv_closed := b\<rparr>) = admitted_at r"
  by (simp add: admitted_at_def fun_eq_iff)

lemma recv_core_closed [simp]: "recv_core X (r\<lparr>rv_closed := b\<rparr>) lg s = recv_core X r lg s"
  by (simp add: recv_core_def held_ok_def deadlines_def)

lemma world_close:
  assumes inv: "world_inv s (r, lg, out)" and e: "Receiver_Close (r, lg) = (r', lg')"
  shows "world_inv s (r', lg', out)" "\<not> rv_closed r \<Longrightarrow> rv_closed r' \<and>
    leases_of lg' = (\<lambda>h. if h \<in> insert (rv_windowLease r) (pend_leases r) then None else leases_of lg h)"
proof -
  have "world_inv s (r', lg', out) \<and> (\<not> rv_closed r \<longrightarrow> rv_closed r' \<and>
    leases_of lg' = (\<lambda>h. if h \<in> insert (rv_windowLease r) (pend_leases r) then None else leases_of lg h))"
  proof (cases "rv_closed r")
    case True
    then have "r' = r \<and> lg' = lg" using e by (simp add: Receiver_Close.simps)
    then show ?thesis using inv True by simp
  next
    case False
    let ?r = "r\<lparr>rv_closed := True\<rparr>"
    have ok: "open_ok r lg s out" "out_ok lg s out" using inv False by simp_all
    then have core: "recv_core {} ?r lg s" by (simp add: open_ok_def)
    obtain order where d: "deadlines ?r order" using recv_coreD(7) [OF core] by blast
    define now where "now = rv_last r + rl_Timeout (rv_limits r)"
    have alldue: "due ?r a now" if "pend ?r i = Some a" for i a
      using recv_coreD(8) [OF core that] by (simp add: due_def now_def held_ok_def)
    obtain ids r2 lg2 where x: "expire_due now (?r, lg) = (ids, r2, lg2)" by (metis prod_cases3)
    have ea: "expire_all (?r, lg) = (r2, lg2)" using expire_all_due [of ?r now lg] alldue x by simp
    note X = expire_due_ok [OF core d x]
    have ids: "set ids = dom (pend r)"
      using X due_exactly [OF d, where now = now and T = "rl_Timeout (rv_limits ?r)"] alldue by (auto simp: due_def)
    have core2: "recv_core {} r2 lg2 s" using X by blast
    have empty: "pend r2 = Map.empty" using X ids by (auto simp: fun_eq_iff)
    then have "set (keys (rv_pending r2)) = {}" using dom_pend [of r2] by simp
    then have pe: "rv_pending r2 = []" by simp
    obtain order2 where "links r2 order2" using recv_coreD(7) [OF core2] by (auto simp: deadlines_def)
    then have hd: "rv_head r2 = 0" using linksD(4,5) [of r2 order2] pe by simp
    have fr: "rv_windowLease r2 = rv_windowLease r" "rv_closed r2" using X by (auto simp: same_frame_def)
    have l2: "leases_of lg2 = (\<lambda>h. if h \<in> pend_leases r then None else leases_of lg h)"
    proof -
      have "(\<exists>i \<in> dom (pend r). h = as_lease (the (pend r i))) = (h \<in> pend_leases r)" for h
        unfolding pend_leases_iff by force
      then show ?thesis using X unfolding ids by simp
    qed
    obtain c where w: "leases_of lg (rv_windowLease r) = Some (s, c)" "rv_windowLease r \<notin> pend_leases r" using ok(1) by (auto simp: open_ok_def)
    then have w2: "leases_of lg2 (rv_windowLease r) = Some (s, c)" by (simp add: l2)
    have res: "r' = r2\<lparr>rv_pending := [], rv_window := Window_Close (rv_window r2), rv_windowLease := None\<rparr>" "lg' = Lease_Release (rv_windowLease r) lg2"
      using e False ea fr by (simp_all add: Receiver_Close.simps)
    note R = ledger_scope.release_live [OF recv_coreD(4) [OF core2] w2]
    have lv: "leases_of lg' = (\<lambda>h. if h \<in> insert (rv_windowLease r) (pend_leases r) then None else leases_of lg h)"
      using R l2 by (auto simp: res fun_eq_iff)
    have "\<And>d. d \<in> set out \<Longrightarrow> dg_lease d \<noteq> None \<Longrightarrow> dg_lease d \<notin> insert (rv_windowLease r) (pend_leases r)"
      using ok(1) unfolding open_ok_def by blast
    then have "out_ok lg' s out" using ok(2) unfolding out_ok_def lv by auto
    moreover have "closed_ok r'" using hd by (simp add: closed_ok_def res Window_Close_def)
    ultimately show ?thesis using R recv_coreD(6) [OF core2] fr(2) lv by (simp add: res)
  qed
  then show "world_inv s (r', lg', out)" "\<not> rv_closed r \<Longrightarrow> rv_closed r' \<and>
    leases_of lg' = (\<lambda>h. if h \<in> insert (rv_windowLease r) (pend_leases r) then None else leases_of lg h)" by blast+
qed

lemma distinct_clear: "k < length xs \<Longrightarrow> distinct (filter Q xs) \<Longrightarrow> \<not> Q z \<Longrightarrow>
    distinct (filter Q (xs[k := z])) \<and> (\<forall>j < length xs. j \<noteq> k \<longrightarrow> Q (xs ! k) \<longrightarrow> xs ! j \<noteq> xs ! k)"
proof (induction xs arbitrary: k)
  case (Cons x xs)
  show ?case
  proof (cases k)
    case 0
    have "Q x \<Longrightarrow> x \<notin> set xs" using Cons.prems(2) by auto
    then have "\<forall>j < length xs. Q x \<longrightarrow> xs ! j \<noteq> x" using nth_mem by blast
    then show ?thesis using Cons.prems 0 by (auto simp: nth_Cons split: nat.splits if_splits)
  next
    case (Suc l)
    have d: "distinct (filter Q xs)" using Cons.prems(2) by (auto split: if_splits)
    have l: "l < length xs" using Cons.prems(1) Suc by simp
    note I = Cons.IH [OF l d Cons.prems(3)]
    have "set (filter Q (xs[l := z])) \<subseteq> set (filter Q xs)"
      using set_update_subset_insert [of xs l z] Cons.prems(3) by auto
    then have "distinct (filter Q ((x # xs)[k := z]))" using I Cons.prems(2) Suc by (auto split: if_splits)
    moreover have "x \<noteq> xs ! l" if "Q (xs ! l)" using Cons.prems(2) that nth_mem [OF l] by auto
    then have "\<forall>j < length (x # xs). j \<noteq> k \<longrightarrow> Q ((x # xs) ! k) \<longrightarrow> (x # xs) ! j \<noteq> (x # xs) ! k"
      using I Suc by (auto simp: nth_Cons split: nat.splits)
    ultimately show ?thesis by blast
  qed
qed simp

lemma world_release:
  assumes inv: "world_inv s (r, lg, out)" and k: "k < length out" and e: "Datagram_Release (Some (out ! k)) lg = (Some d, lg')"
  shows "world_inv s (r, lg', out[k := d])"
proof -
  have d: "d = (out ! k)\<lparr>dg_data := [], dg_lease := None\<rparr>" and lg': "lg' = Lease_Release (dg_lease (out ! k)) lg"
    using e by (auto simp: Datagram_Release_def)
  have oo: "out_ok lg s out" using inv by simp
  have ids: "map dg_id (out[k := d]) = map dg_id out" using k by (simp add: d map_update list_update_same_conv)
  have ls: "map dg_lease (out[k := d]) = (map dg_lease out)[k := None]" by (simp add: d map_update)
  have dist: "distinct (filter (\<lambda>h. h \<noteq> None) (map dg_lease (out[k := d])))"
    and other: "\<And>j. j < length out \<Longrightarrow> j \<noteq> k \<Longrightarrow> dg_lease (out ! k) \<noteq> None \<Longrightarrow> dg_lease (out ! j) \<noteq> dg_lease (out ! k)"
    using distinct_clear [of k "map dg_lease out" "\<lambda>h. h \<noteq> None" None] k oo unfolding ls out_ok_def by simp_all
  have lease: "ledger_inv lg'" "session_of lg' s" "lg_peer lg' = lg_peer lg" "\<And>h. h \<noteq> dg_lease (out ! k) \<Longrightarrow> leases_of lg' h = leases_of lg h"
  proof -
    have "ledger_inv lg' \<and> session_of lg' s \<and> (\<forall>h. h \<noteq> dg_lease (out ! k) \<longrightarrow> leases_of lg' h = leases_of lg h)"
    proof (cases "dg_lease (out ! k) = None")
      case True
      then show ?thesis using inv by (simp add: lg')
    next
      case False
      then have "leases_of lg (dg_lease (out ! k)) = Some (s, bytesClaim (word_of_nat (length (dg_data (out ! k)))))"
        using oo k unfolding out_ok_def by (meson nth_mem)
      from ledger_scope.release_live [OF _ this] inv show ?thesis by (simp add: lg')
    qed
    then show "ledger_inv lg'" "session_of lg' s" "\<And>h. h \<noteq> dg_lease (out ! k) \<Longrightarrow> leases_of lg' h = leases_of lg h" by blast+
    show "lg_peer lg' = lg_peer lg" by (simp add: lg')
  qed
  have mem: "x = d \<or> (\<exists>j < length out. j \<noteq> k \<and> x = out ! j)" if x: "x \<in> set (out[k := d])" for x
  proof -
    obtain j where "j < length out" "x = out[k := d] ! j" using x by (auto simp: in_set_conv_nth)
    then show ?thesis by (cases "j = k") auto
  qed
  have out': "out_ok lg' s (out[k := d])"
  proof -
    have "leases_of lg' (dg_lease x) = Some (s, bytesClaim (word_of_nat (length (dg_data x))))" if x: "x \<in> set (out[k := d])" "dg_lease x \<noteq> None" for x
    proof -
      obtain j where j: "j < length out" "j \<noteq> k" "x = out ! j" using mem [OF x(1)] x(2) d by auto
      have "dg_lease x \<noteq> dg_lease (out ! k)" using other [OF j(1,2)] j(3) x(2) by auto
      then show ?thesis using lease(4) oo j x(2) nth_mem [OF j(1)] unfolding out_ok_def by metis
    qed
    moreover have "distinct (map dg_id (out[k := d]))" using oo ids by (simp add: out_ok_def)
    ultimately show ?thesis using dist unfolding out_ok_def by blast
  qed
  have "open_ok r lg' s (out[k := d])" if "\<not> rv_closed r"
  proof -
    have ok: "open_ok r lg s out" using inv that by simp
    have core: "recv_core {} r lg s" using ok by (simp add: open_ok_def)
    have old: "d \<in> set out \<Longrightarrow> retired (rv_window r) (dg_id d) \<and> pend r (dg_id d) = None \<and>
      (dg_lease d \<noteq> None \<longrightarrow> dg_lease d \<notin> pend_leases r \<and> dg_lease d \<noteq> rv_windowLease r)" for d
      using ok unfolding open_ok_def by blast
    have kk: "dg_lease (out ! k) \<noteq> None \<Longrightarrow> dg_lease (out ! k) \<notin> pend_leases r \<and> dg_lease (out ! k) \<noteq> rv_windowLease r"
      using old [OF nth_mem [OF k]] by blast
    have live: "leases_of lg' h = leases_of lg h" if "h \<in> pend_leases r \<or> h = rv_windowLease r" "h \<noteq> None" for h
    proof (rule lease(4))
      show "h \<noteq> dg_lease (out ! k)" using kk that by metis
    qed
    have nn: "h \<noteq> None" if "h \<in> pend_leases r" for h
      using that recv_coreD(8) [OF core] live_Some unfolding pend_leases_iff held_ok_def by blast
    have "recv_core {} r lg' s"
    proof (rule recv_core_ledger [OF core lease(1,3,2)])
      fix i a assume "pend r i = Some a"
      then have "as_lease a \<in> pend_leases r" by (rule pend_leasesI)
      then show "leases_of lg' (as_lease a) = leases_of lg (as_lease a)" using live nn by metis
    qed
    moreover obtain c n where w: "leases_of lg (rv_windowLease r) = Some (s, c)" "RequiredInitialBytes (rv_limits r) = Inr n" "n \<le> cl_Bytes c"
      using ok unfolding open_ok_def by blast
    have "leases_of lg' (rv_windowLease r) = Some (s, c)" using live w(1) live_Some by metis
    moreover have "retired (rv_window r) (dg_id x) \<and> pend r (dg_id x) = None \<and>
        (dg_lease x \<noteq> None \<longrightarrow> dg_lease x \<notin> pend_leases r \<and> dg_lease x \<noteq> rv_windowLease r)" if x: "x \<in> set (out[k := d])" for x
      using mem [OF x]
    proof
      assume "x = d"
      then show ?thesis using old [OF nth_mem [OF k]] by (simp add: d)
    next
      assume "\<exists>j < length out. j \<noteq> k \<and> x = out ! j"
      then show ?thesis using old nth_mem by metis
    qed
    moreover have "int (length (rv_pending r)) \<le> rl_MaxDatagrams (rv_limits r)" "rv_windowLease r \<notin> pend_leases r"
      using ok unfolding open_ok_def by blast+
    ultimately show ?thesis using w(2,3) unfolding open_ok_def by (intro conjI ballI exI) blast+
  qed
  then show ?thesis using inv lease(1,2) out' by simp
qed

lemma world_step_inv:
  assumes inv: "world_inv s w" and st: "world_step P w w'"
  shows "world_inv s w'"
proof -
  obtain r lg out where w: "w = (r, lg, out)" by (metis prod_cases3)
  note inv = inv [unfolded w]
  show ?thesis
    using st unfolding w
  proof (cases rule: world_step.cases)
    case step_add
    then show ?thesis using world_add [OF inv] by simp
  next
    case step_fail
    then show ?thesis using world_fail [OF inv] by simp
  next
    case step_expire
    then show ?thesis using world_expire [OF inv] by simp
  next
    case step_close
    then show ?thesis using world_close(1) [OF inv] by simp
  next
    case step_release
    then show ?thesis using world_release [OF inv] by simp
  next
    case (step_other lg')
    have k: "lg_peer lg' = lg_peer lg" "session_of lg' s" using ledger_step_keeps [OF step_other(2)] inv by (auto simp: session_of_def)
    have "ledger_inv lg'" using ledger_system.inv_step [OF _ step_other(2)] inv by simp
    from world_ledger [OF inv this k] step_other show ?thesis by simp
  qed
qed

interpretation world_system: transition_system world_start "world_step P" "\<lambda>w. \<exists>s. world_inv s w"
  for P :: "Fragment \<Rightarrow> bool"
  by unfold_locales (use world_start_inv world_step_inv in blast)+

subsection \<open>Contents over time\<close>

text \<open>All fragments of a datagram are pieces of one original.\<close>

definition piece_of :: "(u64 \<Rightarrow> bytes) \<Rightarrow> Fragment \<Rightarrow> bool" where
  "piece_of orig f \<longleftrightarrow> fragment_of (orig (fr_DatagramID f)) f"

fun content :: "(u64 \<Rightarrow> bytes) \<Rightarrow> world \<Rightarrow> bool" where
  "content orig (r, lg, out) \<longleftrightarrow>
     (\<forall>i a. pend r i = Some a \<longrightarrow> matches (orig i) a) \<and> (\<forall>d \<in> set out. dg_lease d \<noteq> None \<longrightarrow> dg_data d = orig (dg_id d))"

lemma content_add:
  assumes inv: "world_inv s (r, lg, out)" and c: "content orig (r, lg, out)" and e: "AddGroup now fs (r, lg) = (Inr ds, r', lg')"
    and fs: "\<forall>f \<in> set fs. piece_of orig f"
  shows "content orig (r', lg', out @ ds)"
proof -
  have o: "\<not> rv_closed r" using e by (auto simp: AddGroup.simps checkTime_def split: if_splits)
  then have core: "recv_core {} r lg s" using inv by (simp add: open_ok_def)
  obtain rest lg1 where g: "group_plan r lg s now fs lg1 rest" and co: "commit_all rest (arrived now r, lg1) = (ds, r', lg')"
    by (rule AddGroup_plan [OF core e])
  have G: "recv_core {} (arrived now r) lg1 s" "plans_ok (arrived now r) lg1 s rest" "map fst rest = fs"
    using g by (simp_all add: group_plan_def)
  have "fragment_of (orig (fr_DatagramID f)) f" if "(f, p) \<in> set rest" for f p
    using fs G(3) that unfolding piece_of_def by force
  from commit_all_matches [where orig = orig, OF G(1) _ G(2) co this] c show ?thesis by (auto simp: arrived_def)
qed

lemma content_shrinks:
  "content orig (r, lg, out) \<Longrightarrow> (\<And>i. pend r' i = None \<or> pend r' i = pend r i) \<Longrightarrow> content orig (r', lg', out)"
  unfolding content.simps by (metis option.distinct(1))

lemma expire_shrinks:
  assumes inv: "world_inv s (r, lg, out)" and e: "Receiver_Expire now (r, lg) = (res, r', lg')"
  shows "pend r' i = None \<or> pend r' i = pend r i"
proof (cases "checkTime r now")
  case (Some err)
  then show ?thesis using e by (simp add: Receiver_Expire.simps)
next
  case None
  then have "recv_core {} r lg s" using inv open_of_time [OF None] by (simp add: open_ok_def)
  then have core: "recv_core {} (arrived now r) lg s" using None by (rule arrived_core)
  obtain order where d: "deadlines (arrived now r) order" using recv_coreD(7) [OF core] by blast
  obtain ids where "expire_due now (arrived now r, lg) = (ids, r', lg')"
    using e None by (auto simp: Receiver_Expire.simps arrived_def split: prod.splits)
  from expire_due_ok [OF core d this] show ?thesis by (auto simp: arrived_def)
qed

lemma content_step:
  assumes inv: "world_inv s w" and c: "content orig w" and st: "world_step (piece_of orig) w w'"
  shows "content orig w'"
proof -
  obtain r lg out where w: "w = (r, lg, out)" by (metis prod_cases3)
  note inv = inv [unfolded w] and c = c [unfolded w]
  show ?thesis
    using st unfolding w
  proof (cases rule: world_step.cases)
    case step_add
    then show ?thesis using content_add [OF inv c] by blast
  next
    case (step_fail now fs e r' lg')
    have "pend r' = pend r"
    proof (cases "rv_closed r")
      case True
      then show ?thesis using step_fail(2) by (simp add: AddGroup.simps checkTime_def)
    next
      case False
      then have "recv_core {} r lg s" using inv by (simp add: open_ok_def)
      from AddGroup_error [OF this step_fail(2)] show ?thesis by blast
    qed
    then show ?thesis using c step_fail(1) by simp
  next
    case (step_expire now res r' lg')
    from expire_shrinks [OF inv step_expire(2)] have "content orig (r', lg', out)" by (rule content_shrinks [OF c])
    then show ?thesis using step_expire(1) by simp
  next
    case (step_close r' lg')
    have "world_inv s (r', lg', out)" "rv_closed r \<Longrightarrow> r' = r" "\<not> rv_closed r \<Longrightarrow> rv_closed r'"
      using world_close [OF inv step_close(2)] step_close(2) by (auto simp: Receiver_Close.simps)
    then have "pend r' = Map.empty" using closed_pend [of r'] by (cases "rv_closed r") simp_all
    then show ?thesis using c step_close(1) by simp
  next
    case (step_release k d lg')
    have "dg_lease d = None" using step_release(3) by (auto simp: Datagram_Release_def)
    then show ?thesis using c step_release(1) set_update_subset_insert [of out k d] by auto
  next
    case step_other
    then show ?thesis using c by simp
  qed
qed

lemma NewPrepaid_empty: "NewPrepaid scope limits h lg = (Inr r, lg') \<Longrightarrow> rv_pending r = []"
  by (auto simp: NewPrepaid_def Let_def split: sum.splits prod.splits if_splits)

lemma Receiver_New_empty: "Receiver_New scope limits lg = (Inr r, lg') \<Longrightarrow> rv_pending r = []"
  by (auto simp: Receiver_New_def Let_def split: sum.splits prod.splits if_splits dest: NewPrepaid_empty)

lemma start_content:
  assumes "world_start w"
  shows "content orig w"
proof -
  obtain r lg where w: "w = (r, lg, [])" and "rv_pending r = []"
    using assms NewPrepaid_empty Receiver_New_empty unfolding world_start_def by metis
  then have "pend r i = None" for i by (simp add: pend_def)
  then show ?thesis by (simp add: w)
qed

interpretation content_system: transition_system world_start "world_step (piece_of orig)"
  "\<lambda>w. (\<exists>s. world_inv s w) \<and> content orig w"
  for orig :: "u64 \<Rightarrow> bytes"
proof unfold_locales
  fix w assume w: "world_start w"
  obtain s where inv: "world_inv s w" using world_start_inv [OF w] by blast
  have "content orig w" by (rule start_content [OF w])
  then show "(\<exists>s. world_inv s w) \<and> content orig w" using inv by blast
next
  fix w w' assume "(\<exists>s. world_inv s w) \<and> content orig w" "world_step (piece_of orig) w w'"
  then show "(\<exists>s. world_inv s w') \<and> content orig w'" using world_step_inv content_step by blast
qed

end
