(* ===== verification/ReassemblyProps.thy ===== *)
theory ReassemblyProps
  imports ReassemblyWorld
begin

text \<open>
  The properties of the v2 reassembly: what is delivered and that it is the original, what every error
  and every expiry leaves, what a group does to each of its datagrams, and that all memory is charged.
  They hold in every state reachable by groups, expiries, closing, releases and any other use of the
  shared ledger.
\<close>

lemma reach_inv: "reachable world_start (world_step P) w \<Longrightarrow> \<exists>s. world_inv s w"
  by (rule world_system.reachable_inv)

lemma reach_core:
  assumes "reachable world_start (world_step P) (r, lg, out)" "\<not> rv_closed r"
  obtains s where "world_inv s (r, lg, out)" "recv_core {} r lg s"
  using reach_inv [OF assms(1)] assms(2) by (auto simp: open_ok_def)

text \<open>The earliest deadline is at the head of the list.\<close>

lemma NextDeadline_least:
  assumes core: "recv_core {} r lg s" and o: "\<not> rv_closed r"
  shows "case NextDeadline r of
      None \<Rightarrow> pend r = Map.empty
    | Some t \<Rightarrow> (\<exists>i a. pend r i = Some a \<and> t = as_admitted a + rl_Timeout (rv_limits r)) \<and>
        (\<forall>i a. pend r i = Some a \<longrightarrow> t \<le> as_admitted a + rl_Timeout (rv_limits r))"
proof -
  obtain order where d: "deadlines r order" using recv_coreD(7) [OF core] by blast
  then have l: "links r order" and st: "sorted (map (admitted_at r) order)" by (simp_all add: deadlines_def)
  have dom: "set order = dom (pend r)" using linksD(4) [OF l] dom_pend [of r] by simp
  show ?thesis
  proof (cases order)
    case Nil
    then have "rv_head r = 0" using linksD(5) [OF l] by simp
    moreover have "pend r i = None" for i using dom Nil by auto
    then have "pend r = Map.empty" by (rule ext)
    ultimately show ?thesis by (simp add: NextDeadline_def)
  next
    case (Cons h rest)
    have H: "rv_head r = h" "rv_head r \<noteq> 0" using deadlines_head(1,2) [OF d] Cons by simp_all
    obtain a where a: "map_of (rv_pending r) h = Some a" using deadlines_head(3) [OF d] Cons H(1) by auto
    have "as_admitted a \<le> as_admitted b" if b: "pend r i = Some b" for i b
    proof -
      have "i \<in> set (h # rest)" using b dom Cons by auto
      moreover have "admitted_at r i = as_admitted b" "admitted_at r h = as_admitted a" using b pend_Some [OF a] by (simp_all add: admitted_at_def)
      ultimately show ?thesis using st Cons by auto
    qed
    then show ?thesis using o H a pend_Some [OF a] by (auto simp: NextDeadline_def intro: exI [of _ h])
  qed
qed

subsection \<open>A run\<close>

text \<open>A session of a small peer, a receiver with its history paid, and a datagram of two bytes in two groups.\<close>

definition example_session :: Ledger where
  "example_session = snd (BeginSession zeroClaim example_start)"

definition example_receiver_limits :: Limits where
  "example_receiver_limits = \<lparr>rl_MaxDatagrams = 2, rl_MaxDatagramBytes = 8, rl_MaxFragments = 2, rl_Span = 4, rl_Timeout = 100000000\<rparr>"

definition example_piece :: "u64 \<Rightarrow> u32 \<Rightarrow> 8 word \<Rightarrow> Fragment" where
  "example_piece i k b = \<lparr>fr_DatagramID = i, fr_TotalBytes = 2, fr_Offset = k, fr_Payload = [b]\<rparr>"

definition example_receiver :: Receiver where
  "example_receiver = \<lparr>rv_scope = Some (7, 0), rv_limits = example_receiver_limits,
     rv_window = \<lparr>win_span = 4, win_highest = 0, win_completed = [0], win_expired = [0], win_completedCount = 0, win_expiredCount = 0, win_closed = False\<rparr>,
     rv_windowLease = Some (7, 0), rv_pending = [], rv_head = 0, rv_tail = 0, rv_last = 0, rv_haveTime = False, rv_closed = False\<rparr>"

definition example_reserved :: Ledger where
  "example_reserved = snd (Session_Reserve (Some (7, 0)) (bytesClaim 16) example_session)"

definition example_paid :: Ledger where
  "example_paid = on_lease 0 (\<lambda>x. x\<lparr>ls_bound := True\<rparr>) example_reserved"

definition example_first :: "Receiver \<times> Ledger" where
  "example_first = snd (AddGroup 0 [example_piece 1 0 10] (example_receiver, example_paid))"

definition example_second :: "(reassembly_error, datagramState list) result \<times> Receiver \<times> Ledger" where
  "example_second = AddGroup 1 [example_piece 1 1 20] example_first"

lemma example_receiver_new: "Receiver_New (Some (7, 0)) example_receiver_limits example_session = (Inr example_receiver, example_paid)"
proof -
  have n: "RequiredInitialBytes example_receiver_limits = Inr 16"
    by (simp add: RequiredInitialBytes_def example_receiver_limits_def)
  have snap: "\<not> sn_Closed (Session_Snapshot (Some (7, 0)) example_session)" "\<not> sn_PendingHandshake (Session_Snapshot (Some (7, 0)) example_session)"
    "\<not> sn_Closed (Session_Snapshot (Some (7, 0)) example_reserved)" "\<not> sn_PendingHandshake (Session_Snapshot (Some (7, 0)) example_reserved)"
    by code_simp+
  have res: "Session_Reserve (Some (7, 0)) (bytesClaim 16) example_session = (Inr (Some (7, 0)), example_reserved)"
  proof (rule prod_eqI)
    show "fst (Session_Reserve (Some (7, 0)) (bytesClaim 16) example_session) = fst (Inr (Some (7, 0)), example_reserved)" by code_simp
  qed (simp add: example_reserved_def)
  have l: "lg_peer example_reserved = 7" "\<not> ss_closed (lg_sessions example_reserved ! 0)" "\<not> ps_Closed (lg_usage example_reserved)"
    "\<not> ss_pendingHandshake (lg_sessions example_reserved ! 0)" "lg_leases example_reserved ! 0 = newLease 0 (bytesClaim 16)" by code_simp+
  have bind: "Session_BindBytes (Some (7, 0)) (Some (7, 0)) 16 example_reserved = (Inr (Some (7, 0)), example_paid)"
    using l by (simp add: Session_BindBytes_def Let_def example_paid_def newLease_def bytesClaim_def)
  have w: "New (rl_Span example_receiver_limits) = Inr (rv_window example_receiver)"
    by (simp add: New_def example_receiver_limits_def example_receiver_def Let_def)
  show ?thesis
    by (simp add: Receiver_New_def NewPrepaid_def n snap res bind w Let_def) (simp add: example_receiver_def)
qed

lemma example_world_start: "world_start (example_receiver, example_paid, [])"
proof -
  have "reachable ledger_start ledger_step example_start"
    by (rule reach_start) (use example_new in \<open>auto simp: ledger_start_def\<close>)
  from reach_step [OF this step [of _ "OpBegin zeroClaim False"]]
  have "reachable ledger_start ledger_step example_session" by (simp add: failed_def example_session_def)
  moreover have "lg_peer example_session = 7" "length (lg_sessions example_session) = 1" by code_simp+
  ultimately show ?thesis using example_receiver_new unfolding world_start_def by (intro exI [of _ example_session] exI) auto
qed

lemma example_pieces: "piece_of (\<lambda>_. [10, 20]) (example_piece 1 0 10)" "piece_of (\<lambda>_. [10, 20]) (example_piece 1 1 20)"
  by code_simp+

lemma example_added: "AddGroup 0 [example_piece 1 0 10] (example_receiver, example_paid) = (Inr [], example_first)"
proof (rule prod_eqI)
  show "fst (AddGroup 0 [example_piece 1 0 10] (example_receiver, example_paid)) = fst (Inr [], example_first)" by code_simp
qed (simp add: example_first_def)

lemma example_worlds:
  "reachable world_start (world_step (piece_of (\<lambda>_. [10, 20]))) (example_receiver, example_paid, [])"
  "reachable world_start (world_step (piece_of (\<lambda>_. [10, 20]))) (fst example_first, snd example_first, [])"
  "reachable world_start (world_step (piece_of (\<lambda>_. [10, 20])))
     (fst (snd example_second), snd (snd example_second), [\<lparr>dg_id = 1, dg_data = [10, 20], dg_lease = Some (7, 1)\<rparr>])"
proof -
  show w0: "reachable world_start (world_step (piece_of (\<lambda>_. [10, 20]))) (example_receiver, example_paid, [])"
    by (rule reach_start) (rule example_world_start)
  have "AddGroup 0 [example_piece 1 0 10] (example_receiver, example_paid) = (Inr [], fst example_first, snd example_first)"
    using example_added by simp
  from reach_step [OF w0 step_add [OF this]] example_pieces(1)
  show w1: "reachable world_start (world_step (piece_of (\<lambda>_. [10, 20]))) (fst example_first, snd example_first, [])" by simp
  have "fst example_second = Inr [\<lparr>dg_id = 1, dg_data = [10, 20], dg_lease = Some (7, 1)\<rparr>]" by code_simp
  then have "AddGroup 1 [example_piece 1 1 20] (fst example_first, snd example_first) =
      (Inr [\<lparr>dg_id = 1, dg_data = [10, 20], dg_lease = Some (7, 1)\<rparr>], fst (snd example_second), snd (snd example_second))"
    unfolding example_second_def by (metis prod.collapse)
  from reach_step [OF w1 step_add [OF this]] example_pieces(2)
  show "reachable world_start (world_step (piece_of (\<lambda>_. [10, 20])))
     (fst (snd example_second), snd (snd example_second), [\<lparr>dg_id = 1, dg_data = [10, 20], dg_lease = Some (7, 1)\<rparr>])" by simp
qed

subsection \<open>Delivery\<close>

text \<open>C7: As long as every fragment accepted is a piece of the original datagram of its identifier, a
  delivered datagram that has not been released yet is exactly the original with its identifier, no
  identifier is delivered twice, whatever groups, duplicates, expiries and releases happen in between, and
  a delivered identifier is never pending again nor open for admission.\<close>

theorem reassembly_delivers_originals:
  assumes "reachable world_start (world_step (piece_of orig)) (r, lg, out)"
  shows "distinct (map dg_id out) \<and> (\<forall>d \<in> set out. dg_lease d \<noteq> None \<longrightarrow> dg_data d = orig (dg_id d)) \<and>
    (\<forall>d \<in> set out. pend r (dg_id d) = None \<and> Receiver_State r (dg_id d) \<noteq> Unseen)"
proof -
  obtain s where inv: "world_inv s (r, lg, out)" and c: "content orig (r, lg, out)"
    using content_system.reachable_inv [OF assms] by blast
  have "pend r (dg_id d) = None \<and> Receiver_State r (dg_id d) \<noteq> Unseen" if "d \<in> set out" for d
  proof (cases "rv_closed r")
    case True
    then show ?thesis using inv closed_pend [of r] by (simp add: Receiver_State_def)
  next
    case False
    then have "retired (rv_window r) (dg_id d)" "pend r (dg_id d) = None" using inv that by (simp_all add: open_ok_def)
    then show ?thesis using False by (auto simp: Receiver_State_def retired_def)
  qed
  then show ?thesis using inv c by (simp add: out_ok_def)
qed

theorem reassembly_delivers_originals_witness:
  "\<exists>d. fst example_second = Inr [d] \<and> dg_id d = 1 \<and> dg_lease d \<noteq> None \<and> dg_data d = [10, 20] \<and>
     pend (fst (snd example_second)) 1 = None \<and> Receiver_State (fst (snd example_second)) 1 \<noteq> Unseen"
proof -
  have "fst example_second = Inr [\<lparr>dg_id = 1, dg_data = [10, 20], dg_lease = Some (7, 1)\<rparr>]" by code_simp
  then show ?thesis using reassembly_delivers_originals [OF example_worlds(3)] by auto
qed

subsection \<open>Groups\<close>

text \<open>C22: A group that is refused, whatever the reason and however many reservations had been made for it,
  leaves the receiver as it was; the ledger differs only by reservations that were made and released again,
  so no usage, no session and no lease in use changes.\<close>

theorem addgroup_error_atomic:
  assumes "reachable world_start (world_step P) (r, lg, out)" "AddGroup now fs (r, lg) = (Inl err, r', lg')"
  shows "r' = r \<and> (\<exists>n. lg' = lg\<lparr>lg_leases := lg_leases lg @ replicate n dead_lease\<rparr>) \<and> leases_of lg' = leases_of lg"
proof (cases "rv_closed r")
  case True
  then have "r' = r \<and> lg' = lg" using assms(2) by (simp add: AddGroup.simps checkTime_def)
  then show ?thesis by (auto intro: exI [of _ 0])
next
  case False
  then obtain s where "recv_core {} r lg s" using reach_core [OF assms(1)] by blast
  from AddGroup_error [OF this assms(2)] show ?thesis using dead_lease_view [of lg] by auto
qed

theorem addgroup_error_atomic_witness:
  "fst (AddGroup 0 [example_piece 1 0 10, example_piece 2 0 30] (example_receiver, example_paid)) = Inl (CreditError ErrResourceLimit) \<and>
   fst (snd (AddGroup 0 [example_piece 1 0 10, example_piece 2 0 30] (example_receiver, example_paid))) = example_receiver \<and>
   length (lg_leases (snd (snd (AddGroup 0 [example_piece 1 0 10, example_piece 2 0 30] (example_receiver, example_paid))))) = 2 \<and>
   leases_of (snd (snd (AddGroup 0 [example_piece 1 0 10, example_piece 2 0 30] (example_receiver, example_paid)))) = leases_of example_paid"
proof -
  let ?res = "AddGroup 0 [example_piece 1 0 10, example_piece 2 0 30] (example_receiver, example_paid)"
  have e: "fst ?res = Inl (CreditError ErrResourceLimit)" "length (lg_leases (snd (snd ?res))) = 2" by code_simp+
  then have "?res = (Inl (CreditError ErrResourceLimit), fst (snd ?res), snd (snd ?res))" by (metis prod.collapse)
  from addgroup_error_atomic [OF example_worlds(1) this] e show ?thesis by blast
qed

definition covered :: "Receiver \<Rightarrow> u64 \<Rightarrow> nat set" where
  "covered r i = (case pend r i of None \<Rightarrow> {} | Some a \<Rightarrow> cover (as_ranges a))"

definition byte_span :: "Fragment \<Rightarrow> nat set" where
  "byte_span f = {unat (fr_Offset f)..<unat (fr_Offset f) + length (fr_Payload f)}"

definition handed :: "datagramState list \<Rightarrow> u64 \<Rightarrow> datagramState set" where
  "handed ds i = {d \<in> set ds. dg_id d = i}"

text \<open>The outcome of storing a fragment's bytes: complete and handed out, or kept with the bytes added.\<close>

definition stores :: "Receiver \<Rightarrow> Fragment \<Rightarrow> datagramState list \<Rightarrow> Receiver \<Rightarrow> bool" where
  "stores r f ds r' \<longleftrightarrow>
     (let i = fr_DatagramID f; got = covered r i \<union> byte_span f
      in if got = {..<unat (fr_TotalBytes f)}
         then pend r' i = None \<and> (\<exists>d. handed ds i = {d} \<and> length (dg_data d) = unat (fr_TotalBytes f))
         else pend r' i \<noteq> None \<and> covered r' i = got \<and> handed ds i = {})"

lemma group_stores:
  assumes g: "group_plan r lg s now fs lg1 rest" and c: "commit_all rest (arrived now r, lg1) = (ds, r', lg')"
    and f: "(f, q) \<in> set rest" and work: "\<not> pl_expire q" "\<not> skips q" and t: "cover (as_ranges (target (pend r) f q)) = covered r (fr_DatagramID f)"
  shows "stores r f ds r'"
proof -
  have core: "recv_core {} (arrived now r) lg1 s" and p: "plan_ok (arrived now r) lg1 s f q"
    using g f by (auto simp: group_plan_def plans_ok_def)
  have pa: "pend (arrived now r) = pend r" "rv_limits (arrived now r) = rv_limits r" by (simp_all add: arrived_def)
  note S = stored_ok [OF core p work, unfolded pa]
  note R = group_result(1,2) [OF g c f]
  have fo: "unat (fr_Offset f) + length (fr_Payload f) \<le> unat (fr_TotalBytes f)" using p by (simp add: plan_ok_def frag_ok_def)
  have span: "iv_set (span_of f) = byte_span f" using span_of_set [OF fo] by (simp add: byte_span_def)
  let ?b = "stored (pend r) f q"
  have full: "as_received ?b = as_total ?b \<longleftrightarrow> covered r (fr_DatagramID f) \<union> byte_span f = {..<unat (fr_TotalBytes f)}"
    using S(1,5) t span by simp
  have "length (as_data ?b) = unat (fr_TotalBytes f)" using S(1,2) fo by (simp add: stored_def)
  moreover have "cover (as_ranges ?b) = covered r (fr_DatagramID f) \<union> byte_span f" using t span by (auto simp: stored_def cover_Insert)
  ultimately show ?thesis using R work full by (auto simp: stores_def acommit_def Let_def handed_def covered_def)
qed

lemma pending_duplicate:
  assumes core: "recv_core {} r lg s" and a: "map_of (rv_pending r) i = Some a" and f: "frag_ok (rv_limits r) f" "as_total a = fr_TotalBytes f"
    and e: "inspect a f = Inr (k, b)"
  shows "b \<longleftrightarrow> span_of f \<in> set (as_ranges a)"
proof -
  have "body_ok (rv_limits r) (core a)" using recv_coreD(9) [OF core pend_Some [OF a]] by simp
  then have ok: "asm_ok a" and ne: "as_received a \<noteq> as_total a" by (simp_all add: body_ok_def asm_ok_def)
  have "card (cover (as_ranges a)) \<le> unat (as_total a)"
    using card_mono [OF _ cover_bound [OF asm_okD(2) [OF ok]]] by simp
  then have "as_total a \<noteq> 0" using ne asm_okD(3) [OF ok] by (auto simp: unat_eq_0)
  then have "piece (unat (as_total a)) f" using frag_piece [OF f(1)] f(2) by simp
  from inspect_eq [OF ok this] e show ?thesis by (metis Inl_Inr_False Pair_inject sum.inject(2))
qed

lemma fragment_fate:
  assumes core: "recv_core {} r lg s" and o: "\<not> rv_closed r" and g: "group_plan r lg s now fs lg1 rest"
    and c: "commit_all rest (arrived now r, lg1) = (ds, r', lg')" and f: "(f, q) \<in> set rest"
  shows "let i = fr_DatagramID f in
      case pend r i of
        None \<Rightarrow> if Receiver_State r i = Unseen then stores r f ds r' else pend r' i = None \<and> handed ds i = {}
      | Some a \<Rightarrow>
          if due r a now then pend r' i = None \<and> handed ds i = {}
          else if span_of f \<in> set (as_ranges a) then pend r' i = Some a \<and> handed ds i = {}
          else stores r f ds r'"
proof -
  let ?i = "fr_DatagramID f"
  obtain p where pf: "plan_for r now f p" and pq: "if pl_new p then \<exists>h. q = p\<lparr>pl_a := NewAssembly (fresh (fr_TotalBytes f) now h)\<rparr> else q = p"
    using g f by (auto simp: group_plan_def executes_def)
  have fo: "frag_ok (rv_limits r) f" using g f by (auto simp: group_plan_def plans_ok_def plan_ok_def arrived_def)
  note R = group_result(1,2) [OF g c f]
  have skip: "pend r' ?i = pend r ?i \<and> handed ds ?i = {}" if "skips q" 
    using R that by (auto simp: acommit_def Let_def handed_def skips_def)
  show ?thesis
  proof (cases "map_of (rv_pending r) ?i")
    case None
    then have n: "pend r ?i = None" by (simp add: pend_def)
    show ?thesis
    proof (cases "State (rv_window r) ?i = Unseen")
      case True
      then have "p = noPlan\<lparr>pl_new := True\<rparr>" using pf None by (simp add: plan_for_def plan_one_def)
      then obtain h where q: "q = noPlan\<lparr>pl_new := True, pl_a := NewAssembly (fresh (fr_TotalBytes f) now h)\<rparr>" using pq by (auto simp: noPlan_def)
      have "stores r f ds r'"
        by (rule group_stores [OF g c f]) (simp_all add: q noPlan_def skips_def target_def covered_def n cover_def)
      then show ?thesis using n True o by (simp add: Receiver_State_def)
    next
      case False
      then have "skips q" using terminal_skips [OF g f n] by blast
      then show ?thesis using n False o skip by (simp add: Receiver_State_def)
    qed
  next
    case (Some a)
    then have pd: "pend r ?i = Some (core a)" by (rule pend_Some)
    have tot: "as_total a = fr_TotalBytes f" using pf Some by (auto simp: plan_for_def plan_one_def split: if_splits)
    show ?thesis
    proof (cases "due r a now")
      case True
      then have "q = noPlan\<lparr>pl_a := PendingAssembly, pl_expire := True\<rparr>" using pf pq Some tot by (auto simp: plan_for_def plan_one_def noPlan_def)
      then show ?thesis using R pd True by (auto simp: due_def acommit_def noPlan_def handed_def)
    next
      case False
      have plan: "plan_one r now f 0 = Inr (p, delta p)" using pf by (simp add: plan_for_def)
      obtain k b where ins: "inspect a f = Inr (k, b)" and p: "p = noPlan\<lparr>pl_a := PendingAssembly, pl_duplicate := b, pl_insert := k\<rparr>"
        using plan Some tot False by (auto simp: plan_one_def split: sum.splits if_splits)
      have q: "q = noPlan\<lparr>pl_a := PendingAssembly, pl_duplicate := b, pl_insert := k\<rparr>" using pq by (simp add: p noPlan_def)
      have nd: "\<not> due r (core a) now" using False by (simp add: due_def)
      have b: "b \<longleftrightarrow> span_of f \<in> set (as_ranges a)" by (rule pending_duplicate [OF core Some fo tot ins])
      have "stores r f ds r'" if "\<not> b"
        by (rule group_stores [OF g c f]) (use that pd in \<open>simp_all add: q noPlan_def skips_def target_def covered_def\<close>)
      moreover have "skips q" if b using that by (simp add: q skips_def noPlan_def)
      ultimately show ?thesis using nd b pd skip by auto
    qed
  qed
qed

text \<open>C13: What a successful call of AddGroup does to the datagram of each fragment: an identifier that is
  terminal is ignored; one whose deadline has passed is expired; an exact duplicate changes nothing;
  otherwise the bytes are added, and the datagram is delivered exactly when all its bytes are there. The
  other datagrams are not touched.\<close>

theorem addgroup_outcome:
  assumes "reachable world_start (world_step P) (r, lg, out)" "AddGroup now fs (r, lg) = (Inr ds, r', lg')"
  shows "(\<forall>f \<in> set fs. let i = fr_DatagramID f in
      case pend r i of
        None \<Rightarrow> if Receiver_State r i = Unseen then stores r f ds r' else pend r' i = None \<and> handed ds i = {}
      | Some a \<Rightarrow>
          if due r a now then pend r' i = None \<and> handed ds i = {}
          else if span_of f \<in> set (as_ranges a) then pend r' i = Some a \<and> handed ds i = {}
          else stores r f ds r') \<and>
    (\<forall>i. i \<notin> fr_DatagramID ` set fs \<longrightarrow> pend r' i = pend r i \<and> handed ds i = {})"
proof -
  have o: "\<not> rv_closed r" using assms(2) by (auto simp: AddGroup.simps checkTime_def split: if_splits)
  obtain s where core: "recv_core {} r lg s" using reach_core [OF assms(1) o] by blast
  obtain rest lg1 where g: "group_plan r lg s now fs lg1 rest" and c: "commit_all rest (arrived now r, lg1) = (ds, r', lg')"
    by (rule AddGroup_plan [OF core assms(2)])
  have G: "recv_core {} (arrived now r) lg1 s" "plans_ok (arrived now r) lg1 s rest" "map fst rest = fs"
    using g by (simp_all add: group_plan_def)
  have pa: "pend (arrived now r) = pend r" "rv_haveTime (arrived now r)" by (simp_all add: arrived_def)
  have C: "(ds, pend r') = acommits rest (pend r)" "dg_id ` set ds \<subseteq> fr_DatagramID ` fst ` set rest"
    using commit_all_ok [OF G(1) pa(2) G(2) c] unfolding pa by blast+
  have eq: "pend r' = snd (acommits rest (pend r))" by (simp flip: C(1))
  have fs: "fst ` set rest = set fs" using G(3) by force
  have "pend r' i = pend r i \<and> handed ds i = {}" if i: "i \<notin> fr_DatagramID ` set fs" for i
  proof
    have "i \<notin> fr_DatagramID ` fst ` set rest" using i fs by simp
    from acommits_other [OF this, of "pend r"] show "pend r' i = pend r i" unfolding eq .
    show "handed ds i = {}" using C(2) i unfolding fs handed_def by blast
  qed
  moreover have "\<exists>q. (f, q) \<in> set rest" if "f \<in> set fs" for f using that fs by force
  ultimately show ?thesis using fragment_fate [OF core o g c] by blast
qed

theorem addgroup_outcome_witness:
  "(case pend (fst example_first) 1 of None \<Rightarrow> False | Some a \<Rightarrow> as_ranges a = [\<lparr>iv_start = 0, iv_end = 1\<rparr>]) \<and>
   (\<exists>ds. fst example_second = Inr ds \<and> stores (fst example_first) (example_piece 1 1 20) ds (fst (snd example_second)) \<and> handed ds 2 = {})"
proof -
  have p: "map_of (rv_pending (fst example_first)) 1 =
      Some \<lparr>as_total = 2, as_admitted = 0, as_data = [10, 0], as_ranges = [\<lparr>iv_start = 0, iv_end = 1\<rparr>], as_received = 1, as_lease = Some (7, 1),
        as_previous = 0, as_next = 0\<rparr>" by code_simp
  have q: "rl_Timeout (rv_limits (fst example_first)) = 100000000" by code_simp
  define ds where "ds = [\<lparr>dg_id = 1, dg_data = [10, 20], dg_lease = Some (7, 1 :: nat)\<rparr>]"
  have f: "fst example_second = Inr ds" unfolding ds_def by code_simp
  then have "AddGroup 1 [example_piece 1 1 20] (fst example_first, snd example_first) = (Inr ds, fst (snd example_second), snd (snd example_second))"
    unfolding example_second_def by (metis prod.collapse)
  note A = addgroup_outcome [OF example_worlds(2) this]
  have i: "fr_DatagramID (example_piece 1 1 20) = 1" "span_of (example_piece 1 1 20) = \<lparr>iv_start = 1, iv_end = 2\<rparr>"
    by (simp_all add: example_piece_def span_of_def)
  have "stores (fst example_first) (example_piece 1 1 20) ds (fst (snd example_second))"
    using conjunct1 [OF A] by (simp add: i p pend_def due_def q Let_def)
  moreover have "handed ds 2 = {}" using conjunct2 [OF A] by (simp add: i)
  ultimately show ?thesis using f p by (simp add: pend_def)
qed

subsection \<open>Expiry\<close>

text \<open>C28: Expire returns exactly the identifiers whose deadline has passed, each once and in the order of
  their admission, forgets them with their leases and marks them expired, and changes no other pending
  datagram. After it, the next deadline is the earliest of the pending datagrams and lies in the future.\<close>

theorem expire_exact:
  assumes "reachable world_start (world_step P) (r, lg, out)" "Receiver_Expire now (r, lg) = (Inr ids, r', lg')"
  shows "set ids = {i. \<exists>a. pend r i = Some a \<and> due r a now} \<and> distinct ids \<and> sorted (map (admitted_at r) ids) \<and>
    pend r' = (\<lambda>i. if i \<in> set ids then None else pend r i) \<and>
    (\<forall>i \<in> set ids. Receiver_State r' i \<in> {Expired, Retired} \<and> leases_of lg' (as_lease (the (pend r i))) = None) \<and>
    (case NextDeadline r' of
       None \<Rightarrow> pend r' = Map.empty
     | Some t \<Rightarrow> now < t \<and> (\<exists>i a. pend r' i = Some a \<and> t = as_admitted a + rl_Timeout (rv_limits r)) \<and>
         (\<forall>i a. pend r' i = Some a \<longrightarrow> t \<le> as_admitted a + rl_Timeout (rv_limits r)))"
proof -
  have ct: "checkTime r now = None" using assms(2) by (cases "checkTime r now") (simp_all add: Receiver_Expire.simps)
  note o = open_of_time [OF ct]
  obtain s where "recv_core {} r lg s" using reach_core [OF assms(1) o] by blast
  then have core: "recv_core {} (arrived now r) lg s" using ct by (rule arrived_core)
  obtain order where d: "deadlines (arrived now r) order" using recv_coreD(7) [OF core] by blast
  have x: "expire_due now (arrived now r, lg) = (ids, r', lg')"
    using assms(2) ct by (auto simp: Receiver_Expire.simps arrived_def split: prod.splits)
  note X = expire_due_ok [OF core d x]
  have pa: "pend (arrived now r) = pend r" "rv_limits (arrived now r) = rv_limits r" "admitted_at (arrived now r) = admitted_at r"
    by (simp_all add: arrived_def admitted_at_def fun_eq_iff)
  have core': "recv_core {} r' lg' s" and ids: "ids = takeWhile (\<lambda>i. now - admitted_at r i \<ge> rl_Timeout (rv_limits r)) order"
    and p': "pend r' = (\<lambda>i. if i \<in> set ids then None else pend r i)" and st: "\<forall>i \<in> set ids. State (rv_window r') i \<in> {Expired, Retired}"
    and lv: "leases_of lg' = (\<lambda>h. if \<exists>i \<in> set ids. h = as_lease (the (pend r i)) then None else leases_of lg h)"
    using X unfolding pa by blast+
  have fr: "rv_limits r' = rv_limits r" "\<not> rv_closed r'" using X o by (auto simp: same_frame_def arrived_def)
  have set_ids: "set ids = {i. \<exists>a. pend r i = Some a \<and> due r a now}"
    using due_exactly [OF d, where now = now and T = "rl_Timeout (rv_limits r)"] unfolding ids pa due_def .
  have "distinct order" "sorted (map (admitted_at r) order)" using d linksD(2) unfolding deadlines_def pa by blast+
  moreover obtain k where k: "ids = take k order" using ids takeWhile_eq_take by metis
  ultimately have "distinct ids" "sorted (map (admitted_at r) ids)"
    unfolding k take_map [symmetric] by (simp_all only: distinct_take sorted_wrt_take)
  moreover have "\<forall>i a. pend r' i = Some a \<longrightarrow> now < as_admitted a + rl_Timeout (rv_limits r)"
    using p' set_ids by (auto simp: due_def split: if_splits)
  then have "case NextDeadline r' of
       None \<Rightarrow> pend r' = Map.empty
     | Some t \<Rightarrow> now < t \<and> (\<exists>i a. pend r' i = Some a \<and> t = as_admitted a + rl_Timeout (rv_limits r)) \<and>
         (\<forall>i a. pend r' i = Some a \<longrightarrow> t \<le> as_admitted a + rl_Timeout (rv_limits r))"
    using NextDeadline_least [OF core' fr(2)] unfolding fr by (auto split: option.splits)
  moreover have "\<forall>i \<in> set ids. Receiver_State r' i \<in> {Expired, Retired} \<and> leases_of lg' (as_lease (the (pend r i))) = None"
    using st fr(2) unfolding Receiver_State_def lv by auto
  ultimately show ?thesis using set_ids p' by blast
qed

theorem expire_exact_witness:
  "\<exists>ids. fst (Receiver_Expire 100000000 example_first) = Inr ids \<and> set ids = {1} \<and> distinct ids \<and>
     pend (fst (snd (Receiver_Expire 100000000 example_first))) 1 = None"
proof -
  let ?res = "Receiver_Expire 100000000 example_first"
  have e: "fst ?res = Inr [1]" by code_simp
  then have "Receiver_Expire 100000000 (fst example_first, snd example_first) = (Inr [1], fst (snd ?res), snd (snd ?res))" by (metis prod.collapse)
  from expire_exact [OF example_worlds(2) this] e show ?thesis by auto
qed

subsection \<open>Accounting\<close>

text \<open>The dimensions fixed when the receiver is created: its limits and the span of its history.\<close>

definition dims :: "Receiver \<Rightarrow> Limits \<times> u64" where
  "dims r = (rv_limits r, win_span (rv_window r))"

lemma window_span:
  "win_span (snd (Admit w i)) = win_span w" "win_span (snd (Finish w i t)) = win_span w" "win_span (Window_Close w) = win_span w"
  by (simp_all add: Admit_def Finish_def Window_Close_def Let_def split: prod.split)

lemma pending_dims:
  "dims (on_pending i g r) = dims r" "dims (addPending i a r) = dims r" "dims (removePending i a r) = dims r"
  by (simp_all add: dims_def on_pending_def addPending_def removePending_def Let_def split: option.split)

lemma window_dims:
  "win_span w = win_span (rv_window r) \<Longrightarrow> dims (r\<lparr>rv_window := w\<rparr>) = dims r"
  "dims (r\<lparr>rv_last := now, rv_haveTime := b\<rparr>) = dims r" "dims (r\<lparr>rv_closed := b\<rparr>) = dims r"
  by (simp_all add: dims_def window_span)

lemma pending_window: "rv_window (on_pending i g r) = rv_window r" "rv_window (addPending i a r) = rv_window r"
  by (simp_all add: on_pending_def addPending_def Let_def split: option.split)

lemma expire_dims: "dims (fst (expire i a (r, lg))) = dims r"
  by (simp add: expire.simps pending_dims window_dims window_span)

lemma commit_one_dims: "dims (fst (snd (commit_one f p (r, lg)))) = dims r"
  by (auto simp: commit_one.simps finish_full.simps Let_def pending_dims pending_window window_dims window_span expire_dims split: option.split assembly_ref.split)

lemma commit_all_dims: "dims (fst (snd (commit_all fps st))) = dims (fst st)"
proof (induction fps st rule: commit_all.induct)
  case (2 f p rest st)
  obtain ds r lg where c: "commit_one f p st = (ds, r, lg)" by (metis prod_cases3)
  have "dims r = dims (fst st)" using commit_one_dims [of f p "fst st" "snd st"] by (simp add: c)
  then show ?case using 2 by (simp add: c split: prod.split) (metis fst_conv snd_conv)
qed simp

lemma expire_due_dims: "dims (fst (snd (expire_due now st))) = dims (fst st)"
proof (induction now st rule: expire_due.induct)
  case (1 now r lg)
  show ?case
  proof (cases "rv_head r = 0 \<or> map_of (rv_pending r) (rv_head r) = None")
    case False
    then obtain a where a: "rv_head r \<noteq> 0" "map_of (rv_pending r) (rv_head r) = Some a" by auto
    show ?thesis using 1 [OF a] a expire_dims [of "rv_head r" a r lg]
      by (subst expire_due.simps) (simp split: prod.split, metis fst_conv snd_conv)
  qed (subst expire_due.simps, auto)
qed

lemma expire_all_dims: "dims (fst (expire_all st)) = dims (fst st)"
proof (induction st rule: expire_all.induct)
  case (1 r lg)
  show ?case
  proof (cases "rv_head r = 0 \<or> map_of (rv_pending r) (rv_head r) = None")
    case False
    then obtain a where a: "rv_head r \<noteq> 0" "map_of (rv_pending r) (rv_head r) = Some a" by auto
    show ?thesis using 1 [OF a] a expire_dims [of "rv_head r" a r lg] by (subst expire_all.simps) simp
  qed (subst expire_all.simps, auto)
qed

lemma operation_dims:
  "dims (fst (snd (AddGroup now fs (r, lg)))) = dims r" "dims (fst (snd (Receiver_Expire now (r, lg)))) = dims r"
  "dims (fst (Receiver_Close (r, lg))) = dims r"
proof -
  show "dims (fst (snd (AddGroup now fs (r, lg)))) = dims r"
    using commit_all_dims [of _ "(r\<lparr>rv_last := now, rv_haveTime := True\<rparr>, _)"]
    by (auto simp: AddGroup.simps window_dims split: option.split sum.split prod.split) (metis fst_conv snd_conv window_dims(2))
  show "dims (fst (snd (Receiver_Expire now (r, lg)))) = dims r"
    using expire_due_dims [of now "(r\<lparr>rv_last := now, rv_haveTime := True\<rparr>, lg)"]
    by (simp add: Receiver_Expire.simps window_dims split: option.split prod.split) (metis fst_conv snd_conv)
  obtain r1 lg1 where e: "expire_all (r\<lparr>rv_closed := True\<rparr>, lg) = (r1, lg1)" by force
  have "dims r1 = dims r" using expire_all_dims [of "(r\<lparr>rv_closed := True\<rparr>, lg)"] by (simp add: e window_dims)
  then show "dims (fst (Receiver_Close (r, lg))) = dims r" using e by (cases "rv_closed r") (simp_all add: dims_def window_span Receiver_Close.simps)
qed

lemma prepaid_dims: "NewPrepaid scope limits prepaid lg = (Inr r, lg') \<Longrightarrow> dims r = (limits, ucast (rl_Span limits))"
  by (auto simp: NewPrepaid_def RequiredInitialBytes_def New_def Let_def dims_def word_less_nat_alt split: sum.splits prod.splits if_splits)

lemma new_dims: "Receiver_New scope limits lg = (Inr r, lg') \<Longrightarrow> dims r = (limits, ucast (rl_Span limits))"
  using prepaid_dims [of scope limits _ _ r lg'] by (auto simp: Receiver_New_def Let_def split: sum.splits prod.splits if_splits)

definition spanned :: "world \<Rightarrow> bool" where
  "spanned w \<longleftrightarrow> (\<exists>limits. dims (fst w) = (limits, ucast (rl_Span limits)))"

interpretation span_system: transition_system world_start "world_step P" spanned
proof unfold_locales
  fix w assume "world_start w"
  then show "spanned w"
    using prepaid_dims new_dims unfolding world_start_def spanned_def by (metis fst_conv)
next
  fix w w' assume "spanned w" "world_step P w w'"
  moreover have "dims (fst w') = dims (fst w)" using \<open>world_step P w w'\<close> by cases (metis operation_dims fst_conv snd_conv)+
  ultimately show "spanned w'" by (simp add: spanned_def)
qed

lemma history_bytes:
  assumes inv: "window_inv w" "window_open w" and span: "win_span w = ucast (rl_Span limits)" and n: "RequiredInitialBytes limits = Inr n"
  shows "unat n = 8 * (length (win_completed w) + length (win_expired w))" "length (win_completed w) = (unat (rl_Span limits) + 63) div 64"
proof -
  let ?s = "rl_Span limits"
  have s: "unat ?s \<le> 65536" "n = ucast ((?s + 63) div 64) * 16" using n by (auto simp: RequiredInitialBytes_def split: if_splits)
  have "unat (?s + 63) = unat ?s + 63" using s(1) by (subst unat_add_lem [THEN iffD1]) simp_all
  then have q: "unat ((?s + 63) div 64) = (unat ?s + 63) div 64" by (simp add: unat_div)
  have "(unat ?s + 63) div 64 \<le> 1024" using div_le_mono [of "unat ?s + 63" "65536 + 63" 64] s(1) by simp
  then have un: "unat n = (unat ?s + 63) div 64 * 16" unfolding s(2) by (simp add: unat_word_ariths unat_widen q)
  have "unat (win_span w) = unat ?s" by (simp add: span unat_widen)
  then show "length (win_completed w) = (unat ?s + 63) div 64" "unat n = 8 * (length (win_completed w) + length (win_expired w))"
    using inv un by (simp_all add: window_inv_def rings_ok_def)
qed

text \<open>C24: The memory of the receiver is charged. An open receiver holds at most MaxDatagrams pending
  datagrams; each has its own live lease of its session for precisely its bytes, its interval table and its
  links, the sum not wrapping, and stays within its buffer and table. The history consists of two bitmaps with a bit for
  every identifier of the span and has a live lease of its own that covers the bytes of both; they are exactly
  \<open>RequiredInitialBytes\<close>, and only a lease that the caller has prepaid can be larger.
  A delivered datagram that is not released has a lease for exactly its payload. A closed receiver holds nothing,
  and closing gives back every lease it held and no other.\<close>

theorem receiver_accounts_exact:
  assumes "reachable world_start (world_step P) (r, lg, out)"
  shows "\<exists>s. (if rv_closed r then rv_pending r = [] \<and> rv_windowLease r = None
       else int (length (rv_pending r)) \<le> rl_MaxDatagrams (rv_limits r) \<and>
         (\<forall>i a. pend r i = Some a \<longrightarrow>
            (\<exists>c. leases_of lg (as_lease a) = Some (s, bytesClaim c) \<and> unat c = unat (as_total a) + 8 * nat (rl_MaxFragments (rv_limits r)) + 16) \<and>
            length (as_data a) = unat (as_total a) \<and> int (length (as_ranges a)) \<le> rl_MaxFragments (rv_limits r)) \<and>
         (\<forall>i j a b. pend r i = Some a \<and> pend r j = Some b \<and> as_lease a = as_lease b \<longrightarrow> i = j) \<and>
         (\<exists>c n. leases_of lg (rv_windowLease r) = Some (s, c) \<and> RequiredInitialBytes (rv_limits r) = Inr n \<and>
            unat n = 8 * (length (win_completed (rv_window r)) + length (win_expired (rv_window r))) \<and>
            length (win_completed (rv_window r)) = (unat (rl_Span (rv_limits r)) + 63) div 64 \<and>
            length (win_expired (rv_window r)) = length (win_completed (rv_window r)) \<and>
            n \<le> cl_Bytes c \<and> rv_windowLease r \<notin> pend_leases r) \<and>
         leases_of (snd (Receiver_Close (r, lg))) =
           (\<lambda>h. if h = rv_windowLease r \<or> h \<in> pend_leases r then None else leases_of lg h)) \<and>
     (\<forall>d \<in> set out. dg_lease d \<noteq> None \<longrightarrow> leases_of lg (dg_lease d) = Some (s, bytesClaim (word_of_nat (length (dg_data d)))) \<and>
        dg_lease d \<notin> pend_leases r \<and> dg_lease d \<noteq> rv_windowLease r) \<and>
     distinct (filter (\<lambda>h. h \<noteq> None) (map dg_lease out))"
proof -
  obtain s where inv: "world_inv s (r, lg, out)" using reach_inv [OF assms] by blast
  have out: "out_ok lg s out" using inv by simp
  show ?thesis
  proof (cases "rv_closed r")
    case True
    then have "closed_ok r" using inv by simp
    then show ?thesis using True out closed_pend [of r] by (auto simp: closed_ok_def out_ok_def)
  next
    case False
    then have ok: "open_ok r lg s out" using inv by simp
    then have core: "recv_core {} r lg s" by (simp add: open_ok_def)
    have each: "(\<exists>c. leases_of lg (as_lease a) = Some (s, bytesClaim c) \<and> unat c = unat (as_total a) + 8 * nat (rl_MaxFragments (rv_limits r)) + 16) \<and>
        length (as_data a) = unat (as_total a) \<and> int (length (as_ranges a)) \<le> rl_MaxFragments (rv_limits r)" if a: "pend r i = Some a" for i a
      using recv_coreD(8) [OF core a] recv_coreD(9) [OF core a] unat_charge_of [OF recv_coreD(1) [OF core], of "as_total a"]
      by (auto simp: held_ok_def body_ok_def asm_ok_def)
    obtain r' lg' where e: "Receiver_Close (r, lg) = (r', lg')" by force
    have cl: "leases_of (snd (Receiver_Close (r, lg))) = (\<lambda>h. if h = rv_windowLease r \<or> h \<in> pend_leases r then None else leases_of lg h)"
      using world_close(2) [OF inv e False] by (simp add: e)
    obtain c n where w: "leases_of lg (rv_windowLease r) = Some (s, c)" "RequiredInitialBytes (rv_limits r) = Inr n" "rv_windowLease r \<notin> pend_leases r"
      "n \<le> cl_Bytes c" "int (length (rv_pending r)) \<le> rl_MaxDatagrams (rv_limits r)"
      using ok unfolding open_ok_def by blast
    have "\<forall>d \<in> set out. dg_lease d \<noteq> None \<longrightarrow> leases_of lg (dg_lease d) = Some (s, bytesClaim (word_of_nat (length (dg_data d)))) \<and>
        dg_lease d \<notin> pend_leases r \<and> dg_lease d \<noteq> rv_windowLease r" "distinct (filter (\<lambda>h. h \<noteq> None) (map dg_lease out))"
      using ok out unfolding open_ok_def out_ok_def by blast+
    moreover have "\<exists>c n. leases_of lg (rv_windowLease r) = Some (s, c) \<and> RequiredInitialBytes (rv_limits r) = Inr n \<and>
        unat n = 8 * (length (win_completed (rv_window r)) + length (win_expired (rv_window r))) \<and>
        length (win_completed (rv_window r)) = (unat (rl_Span (rv_limits r)) + 63) div 64 \<and>
        length (win_expired (rv_window r)) = length (win_completed (rv_window r)) \<and>
        n \<le> cl_Bytes c \<and> rv_windowLease r \<notin> pend_leases r"
    proof -
      have "win_span (rv_window r) = ucast (rl_Span (rv_limits r))"
        using span_system.reachable_inv [OF assms] by (auto simp: spanned_def dims_def)
      note H = history_bytes [OF recv_coreD(2,3) [OF core] this w(2)]
      have "length (win_expired (rv_window r)) = length (win_completed (rv_window r))"
        using recv_coreD(2,3) [OF core] by (simp add: window_inv_def rings_ok_def)
      then show ?thesis using w(1-4) H by (intro exI [of _ c] exI [of _ n]) simp
    qed
    ultimately show ?thesis using False cl w(5) each recv_coreD(10) [OF core] by (intro exI [of _ s], simp only: simp_thms if_False) blast
  qed
qed

theorem receiver_accounts_exact_witness:
  "\<exists>s a c. pend (fst example_first) 1 = Some a \<and> leases_of (snd example_first) (as_lease a) = Some (s, bytesClaim c) \<and> unat c = 34 \<and>
     leases_of (snd (Receiver_Close example_first)) (as_lease a) = None"
proof -
  obtain a where a: "map_of (rv_pending (fst example_first)) 1 = Some a" "as_total a = 2"
  proof -
    have "map_option as_total (map_of (rv_pending (fst example_first)) 1) = Some 2" by code_simp
    then show ?thesis using that by blast
  qed
  have m: "\<not> rv_closed (fst example_first)" "rl_MaxFragments (rv_limits (fst example_first)) = 2" by code_simp+
  note p = pend_Some [OF a(1)]
  have "as_lease (core a) \<in> pend_leases (fst example_first)" by (rule pend_leasesI [OF p])
  moreover obtain s where s: "\<exists>c. leases_of (snd example_first) (as_lease (core a)) = Some (s, bytesClaim c) \<and> unat c = 34"
    and l: "leases_of (snd (Receiver_Close (fst example_first, snd example_first))) =
      (\<lambda>h. if h = rv_windowLease (fst example_first) \<or> h \<in> pend_leases (fst example_first) then None else leases_of (snd example_first) h)"
    using receiver_accounts_exact [OF example_worlds(2)] p m a(2) by fastforce
  ultimately have "leases_of (snd (Receiver_Close example_first)) (as_lease (core a)) = None" by simp
  then show ?thesis using s p by blast
qed

end
