(* ===== verification/SessionTypes.thy ===== *)
theory SessionTypes
  imports Wire Scheduler FecDelivery "HOL-Library.List_Lexorder" "HOL-Library.Char_ord"
begin

text \<open>
  The vocabulary of the v0.1 session (\<^verbatim>\<open>src/internal/session\<close>: \<^verbatim>\<open>types.go\<close>, \<^verbatim>\<open>errors.go\<close>, \<^verbatim>\<open>config.go\<close>, and the
  path identities of \<^verbatim>\<open>session.go\<close>) and the one-shot block sender it drives
  (\<^verbatim>\<open>src/internal/transport/send_block.go\<close>).

  A path is what the session can observe of it: its identifier and, for a reply path, the socket
  generation and the two addresses. Whether it is available and what a send returns is decided by the
  network, so both are arguments of the operations that ask. An error of a send is the set of sentinels
  that \<^verbatim>\<open>errors.Is\<close> and \<^verbatim>\<open>errors.As\<close> find in its chain. Strings are byte strings.
\<close>

subsection \<open>Errors\<close>

datatype sentinel =
    ContextCanceled | ContextDeadlineExceeded | PathError | ErrPathUnavailable | ErrPathMTUExceeded | OtherError

type_synonym net_error = "sentinel list"

text \<open>What a caller hands in as its context: nil, done with its error, or live.\<close>

datatype ctx = NilContext | DoneContext net_error | LiveContext

text \<open>A control packet fails in its encoding or on the network; a block as \<^verbatim>\<open>SendBlock\<close> reports it. A nil
  pointer dereference, a panic in Go, is an error value here.\<close>

datatype send_error = EncodeFailure wire_error | NetFailure net_error

datatype block_error = BadArgument | NoAvailablePaths | CountFailure CountError | ErrPartialSend | ErrAllSendsFailed

datatype session_error =
    ErrInvalidConfig | ErrClosed | ErrNotEstablished | ErrHandshakeFailed | ErrHandshakeIncompatible
  | ErrUnexpectedPacket | ErrUnknownSession | ErrUnknownPath | ErrInvalidReplyPath | ErrEndpointLimit
  | ErrSessionLimit | ErrProbeMismatch | ErrPacketOverBudget
  | ContextError net_error | WireError wire_error | FecFailure FecError | BlockFailure block_error
  | CloseFailures "send_error list" | NilPointer

definition check_context :: "ctx \<Rightarrow> session_error option" where
  "check_context c = (case c of NilContext \<Rightarrow> Some ErrInvalidConfig | DoneContext e \<Rightarrow> Some (ContextError e) | LiveContext \<Rightarrow> None)"

subsection \<open>Paths\<close>

record Addr =
  ad_Network :: string
  ad_String :: string

record ReplyPath =
  rp_PathID :: string
  rp_Generation :: u64
  rp_LocalAddr :: "Addr option"
  rp_RemoteAddr :: "Addr option"

text \<open>A \<open>Path\<close> is a carrier or a reply path.\<close>

datatype Path = Carrier string | Reply ReplyPath

fun PathID :: "Path \<Rightarrow> string" where
  "PathID (Carrier i) = i"
| "PathID (Reply p) = rp_PathID p"

text \<open>\<^verbatim>\<open>strconv.FormatUint\<close> in base ten.\<close>

definition digit :: "nat \<Rightarrow> char" where
  "digit n = char_of (48 + n)"

fun FormatUint :: "nat \<Rightarrow> string" where
  "FormatUint n = (if n < 10 then [digit n] else FormatUint (n div 10) @ [digit (n mod 10)])"

declare FormatUint.simps [simp del]

abbreviation (input) NUL :: char where "NUL \<equiv> CHR 0x00"

text \<open>\<^verbatim>\<open>strings.Join\<close> with the NUL byte.\<close>

fun join :: "string list \<Rightarrow> string" where
  "join [] = []"
| "join [x] = x"
| "join (x # y # rest) = x @ NUL # join (y # rest)"

definition replyIdentityUnchecked :: "ReplyPath option \<Rightarrow> (session_error, string) result" where
  "replyIdentityUnchecked path =
     (case path of
        None \<Rightarrow> Inl ErrInvalidReplyPath
      | Some p \<Rightarrow>
          (case (rp_LocalAddr p, rp_RemoteAddr p) of
             (Some local, Some remote) \<Rightarrow>
               if rp_PathID p = [] then Inl ErrInvalidReplyPath
               else Inr (join [rp_PathID p, FormatUint (unat (rp_Generation p)),
                      ad_Network local, ad_String local, ad_Network remote, ad_String remote])
           | _ \<Rightarrow> Inl ErrInvalidReplyPath))"

definition replyIdentity :: "(Path \<Rightarrow> bool) \<Rightarrow> ReplyPath option \<Rightarrow> (session_error, string) result" where
  "replyIdentity available path =
     (case replyIdentityUnchecked path of
        Inl err \<Rightarrow> Inl ErrInvalidReplyPath
      | Inr key \<Rightarrow> if (case path of None \<Rightarrow> False | Some p \<Rightarrow> available (Reply p)) then Inr key else Inl ErrInvalidReplyPath)"

subsection \<open>Configuration\<close>

text \<open>The bounds of \<^verbatim>\<open>src/config/defaults.go\<close> that are used here, in bytes, counts and nanoseconds.\<close>

abbreviation (input) MaxPSKBytes :: int where "MaxPSKBytes \<equiv> 4096"
abbreviation (input) MinMaxDatagramSize :: int where "MinMaxDatagramSize \<equiv> 1"
abbreviation (input) MaxMaxDatagramSize :: int where "MaxMaxDatagramSize \<equiv> 16777216"
abbreviation (input) MinMaxPendingFECBlocks :: int where "MinMaxPendingFECBlocks \<equiv> 1"
abbreviation (input) MaxMaxPendingFECBlocks :: int where "MaxMaxPendingFECBlocks \<equiv> 65536"
abbreviation (input) MinDecodeTimeout :: int where "MinDecodeTimeout \<equiv> 100000000"
abbreviation (input) MaxDecodeTimeout :: int where "MaxDecodeTimeout \<equiv> 60000000000"
abbreviation (input) MinEndpointTTL :: int where "MinEndpointTTL \<equiv> 5000000000"
abbreviation (input) MaxEndpointTTL :: int where "MaxEndpointTTL \<equiv> 86400000000000"
abbreviation (input) MinKeepaliveInterval :: int where "MinKeepaliveInterval \<equiv> 1000000000"
abbreviation (input) MaxKeepaliveInterval :: int where "MaxKeepaliveInterval \<equiv> 300000000000"
abbreviation (input) MinHandshakeRetryInterval :: int where "MinHandshakeRetryInterval \<equiv> 100000000"
abbreviation (input) MaxHandshakeRetryInterval :: int where "MaxHandshakeRetryInterval \<equiv> 60000000000"
abbreviation (input) maxPaths :: int where "maxPaths \<equiv> 256"

text \<open>\<open>Config\<close> without the clock and the collectors of statistics.\<close>

record Config =
  co_PSK :: bytes
  co_FEC :: Params
  co_LocalMaxUDPPayload :: int
  co_MaxDatagramSize :: int
  co_MaxEndpoints :: int
  co_MaxHandshakeAttempts :: int
  co_MaxPendingFECBlocks :: int
  co_MaxCompletedFECBlocks :: int
  co_DecodeTimeout :: int
  co_CompletionTTL :: int
  co_EndpointTTL :: int
  co_KeepaliveInterval :: int
  co_HandshakeRetryInterval :: int
  co_HandshakeRetryJitterLimit :: int

record settings =
  sg_authenticator :: Authenticator
  sg_params :: Params
  sg_localMaxUDPPayload :: int
  sg_maxDatagramSize :: int
  sg_maxEndpoints :: int
  sg_maxHandshakeAttempts :: int
  sg_maxPendingFECBlocks :: int
  sg_maxCompletedFECBlocks :: int
  sg_decodeTimeout :: int
  sg_completionTTL :: int
  sg_endpointTTL :: int
  sg_keepaliveInterval :: int
  sg_handshakeRetryInterval :: int
  sg_handshakeJitterLimit :: int

definition normalizeConfig :: "Config \<Rightarrow> (session_error, settings) result" where
  "normalizeConfig c =
     (if co_PSK c = [] \<or> int (length (co_PSK c)) > MaxPSKBytes then Inl ErrInvalidConfig
      else if DataShards (co_FEC c) \<le> 0 \<or> DataShards (co_FEC c) > 255 \<or> ParityShards (co_FEC c) \<le> 0 \<or>
          ParityShards (co_FEC c) > 255 \<or> DataShards (co_FEC c) > MaxTotalShards - ParityShards (co_FEC c)
        then Inl ErrInvalidConfig
      else if co_LocalMaxUDPPayload c < int MinUDPPayload \<or> co_LocalMaxUDPPayload c > int MaxUDPPayload then Inl ErrInvalidConfig
      else if co_MaxDatagramSize c < MinMaxDatagramSize \<or> co_MaxDatagramSize c > MaxMaxDatagramSize then Inl ErrInvalidConfig
      else if co_MaxEndpoints c \<le> 0 \<or> co_MaxEndpoints c > maxPaths then Inl ErrInvalidConfig
      else if co_MaxHandshakeAttempts c \<le> 0 \<or> co_MaxHandshakeAttempts c > 64 then Inl ErrInvalidConfig
      else if co_MaxPendingFECBlocks c < MinMaxPendingFECBlocks \<or> co_MaxPendingFECBlocks c > MaxMaxPendingFECBlocks \<or>
          co_MaxCompletedFECBlocks c < MinMaxPendingFECBlocks \<or> co_MaxCompletedFECBlocks c > MaxMaxPendingFECBlocks
        then Inl ErrInvalidConfig
      else if co_DecodeTimeout c < MinDecodeTimeout \<or> co_DecodeTimeout c > MaxDecodeTimeout \<or> co_CompletionTTL c \<le> 0 \<or>
          co_EndpointTTL c < MinEndpointTTL \<or> co_EndpointTTL c > MaxEndpointTTL \<or>
          co_KeepaliveInterval c < MinKeepaliveInterval \<or> co_KeepaliveInterval c > MaxKeepaliveInterval \<or>
          co_HandshakeRetryInterval c < MinHandshakeRetryInterval \<or> co_HandshakeRetryInterval c > MaxHandshakeRetryInterval
        then Inl ErrInvalidConfig
      else
        let jitter = (if co_HandshakeRetryJitterLimit c = 0 then co_HandshakeRetryInterval c div 4 else co_HandshakeRetryJitterLimit c)
        in if jitter < 0 \<or> jitter > co_HandshakeRetryInterval c then Inl ErrInvalidConfig
           else
             (case NewAuthenticator (co_PSK c) of
                Inl err \<Rightarrow> Inl (WireError err)
              | Inr authenticator \<Rightarrow>
                  Inr \<lparr>sg_authenticator = authenticator, sg_params = co_FEC c, sg_localMaxUDPPayload = co_LocalMaxUDPPayload c,
                    sg_maxDatagramSize = co_MaxDatagramSize c, sg_maxEndpoints = co_MaxEndpoints c,
                    sg_maxHandshakeAttempts = co_MaxHandshakeAttempts c, sg_maxPendingFECBlocks = co_MaxPendingFECBlocks c,
                    sg_maxCompletedFECBlocks = co_MaxCompletedFECBlocks c, sg_decodeTimeout = co_DecodeTimeout c,
                    sg_completionTTL = co_CompletionTTL c, sg_endpointTTL = co_EndpointTTL c,
                    sg_keepaliveInterval = co_KeepaliveInterval c, sg_handshakeRetryInterval = co_HandshakeRetryInterval c,
                    sg_handshakeJitterLimit = jitter\<rparr>))"

subsection \<open>One-shot block sends\<close>

record ShardAttempt =
  at_ShardIndex :: nat
  at_PathIndex :: nat
  at_PathID :: string
  at_Err :: "net_error option"

record BlockSendResult =
  bs_PacketID :: u64
  bs_PathsAvailable :: nat
  bs_Attempted :: nat
  bs_Succeeded :: nat
  bs_Attempts :: "ShardAttempt list"

text \<open>What the \<open>n\<close>-th send of a call returns for a path and a packet.\<close>

type_synonym network = "nat \<Rightarrow> Path \<Rightarrow> bytes \<Rightarrow> net_error option"

text \<open>The paths of \<open>SendBlock\<close> are not nil here: its only caller passes paths of a session.\<close>

definition SendBlock ::
    "ctx \<Rightarrow> (Path \<Rightarrow> bool) \<Rightarrow> network \<Rightarrow> u64 \<Rightarrow> bytes list \<Rightarrow> Path list \<Rightarrow> BlockSendResult \<times> block_error option" where
  "SendBlock c available net packetID shards paths =
     (let result = \<lparr>bs_PacketID = packetID, bs_PathsAvailable = 0, bs_Attempted = 0, bs_Succeeded = 0, bs_Attempts = []\<rparr>
      in if c = NilContext then (result, Some BadArgument)
         else
           let usable = filter (\<lambda>(path, inputIndex). available path) (zip paths [0..<length paths]);
               result = result\<lparr>bs_PathsAvailable := length usable\<rparr>
           in if usable = [] then
                (if shards = [] then (result, case Assign packetID 0 0 of Inl err \<Rightarrow> Some (CountFailure err) | Inr _ \<Rightarrow> None)
                 else (result, Some NoAvailablePaths))
              else
                (case Assign packetID (int (length shards)) (int (length usable)) of
                   Inl err \<Rightarrow> (result, Some (CountFailure err))
                 | Inr assignments \<Rightarrow>
                     let attempts = map (\<lambda>(shardIndex, availableIndex).
                           let (path, inputIndex) = usable ! availableIndex
                           in \<lparr>at_ShardIndex = shardIndex, at_PathIndex = inputIndex, at_PathID = PathID path,
                               at_Err = net shardIndex path (shards ! shardIndex)\<rparr>) (zip [0..<length assignments] assignments);
                         succeeded = length (filter (\<lambda>a. at_Err a = None) attempts);
                         result = result\<lparr>bs_Attempted := length attempts, bs_Succeeded := succeeded, bs_Attempts := attempts\<rparr>
                     in if succeeded = length attempts then (result, None)
                        else if succeeded = 0 then (result, Some ErrAllSendsFailed)
                        else (result, Some ErrPartialSend)))"

end
