(* ===== verification/Session.thy ===== *)
theory Session
  imports SessionTypes
begin

text \<open>
  The v0.1 session (\<^verbatim>\<open>src/internal/session/session.go\<close>): bootstrap over several carriers, endpoint learning,
  keepalive probes, path health and the FEC data plane.

  The methods work in sections under the session's mutex and send outside of it. Every locked section is
  a function of its own (\<open>start_locked\<close>, \<open>handle_locked\<close>, \<open>advance_locked\<close>, \<open>write_locked\<close>, \<open>close_locked\<close>, and what is
  done after a send, \<open>settle\<close>); the methods compose them. A context that ends early acts through the results of the sends. The two Go
  maps are association lists; the map \<open>carrierByID\<close> is the list of carriers, whose identifiers are distinct.
  A zero \<open>time.Time\<close> is \<open>None\<close>. Collectors of statistics are left out. The pool inside the
  authenticator does not influence its results and is not threaded through.
\<close>

subsection \<open>State\<close>

datatype Role = RoleInitiator | RoleListener

datatype session_state = StateHandshaking | StateEstablished | StateHandshakeFailed | StateClosed

record carrierState =
  ca_path :: Path
  ca_attempts :: int
  ca_acked :: bool
  ca_exhausted :: bool
  ca_nextRetry :: "int option"
  ca_healthy :: bool

record endpointState =
  ep_key :: string
  ep_path :: ReplyPath
  ep_lastActivity :: int
  ep_rtt :: int
  ep_hasRTT :: bool
  ep_healthy :: bool

record outstandingProbe =
  ob_token :: u64
  ob_timestamp :: u64
  ob_sentAt :: int

record sendPlan =
  pn_message :: Message
  pn_path :: Path
  pn_budget :: int
  pn_probeKey :: string
  pn_probe :: outstandingProbe

record Session =
  se_id :: SessionID
  se_role :: Role
  se_settings :: settings
  se_state :: session_state
  se_started :: bool
  se_carriers :: "carrierState list"
  se_endpoints :: "(string \<times> endpointState) list"
  se_outstanding :: "(string \<times> outstandingProbe) list"
  se_nextToken :: u64
  se_peerMaxUDPPayload :: int
  se_sendMaxUDPPayload :: int
  se_receiveMaxUDPPayload :: int
  se_encoder :: "Encoder option"
  se_decoder :: "Decoder option"
  se_nextKeepalive :: "int option"
  se_nextDecodeSweep :: "int option"
  se_closeOnce :: bool
  se_closeErr :: "session_error option"

record SendAttempt =
  sa_Type :: PacketType
  sa_PathID :: string
  sa_Err :: "send_error option"

record AdvanceResult =
  ar_Sends :: "SendAttempt list"
  ar_ExpiredEndpoints :: nat
  ar_ExpiredFEC :: ExpireStats
  ar_HandshakeFailed :: bool

record HandleResult =
  hr_Message :: Message
  hr_Created :: bool
  hr_Established :: bool
  hr_EndpointAdded :: bool
  hr_EndpointRefreshed :: bool
  hr_RTTUpdated :: bool
  hr_RTT :: int
  hr_Datagram :: "bytes option"
  hr_Response :: "SendAttempt option"

record WriteResult =
  wr_PacketID :: u64
  wr_Send :: BlockSendResult

record ReceivedPacket =
  rc_Payload :: bytes
  rc_Reply :: "ReplyPath option"

text \<open>What one call observes: the session's and the decoder's reading of the clock, and whether a path is
  available at the \<open>n\<close>-th time the call looks.\<close>

record Env =
  ev_now :: int
  ev_decoderNow :: int
  ev_available :: "nat \<Rightarrow> Path \<Rightarrow> bool"

subsection \<open>Construction\<close>

definition initialToken :: "SessionID \<Rightarrow> u64" where
  "initialToken i = (let token = be_get (take 8 (sha256 (be_put 16 i))) in if token = 0 then 1 else token)"

definition NewInitiator :: "SessionID \<Rightarrow> Config \<Rightarrow> Path list \<Rightarrow> (session_error, Session) result" where
  "NewInitiator i config carriers =
     (case normalizeConfig config of
        Inl err \<Rightarrow> Inl err
      | Inr settings \<Rightarrow>
          if i = 0 then Inl ErrInvalidConfig
          else if carriers = [] \<or> int (length carriers) > maxPaths then Inl ErrInvalidConfig
          else if \<exists>p \<in> set carriers. PathID p = [] then Inl ErrInvalidConfig
          else if \<not> distinct (map PathID carriers) then Inl ErrInvalidConfig
          else Inr \<lparr>se_id = i, se_role = RoleInitiator, se_settings = settings, se_state = StateHandshaking, se_started = False,
                 se_carriers = map (\<lambda>p. \<lparr>ca_path = p, ca_attempts = 0, ca_acked = False, ca_exhausted = False,
                   ca_nextRetry = None, ca_healthy = True\<rparr>) carriers,
                 se_endpoints = [], se_outstanding = [], se_nextToken = initialToken i,
                 se_peerMaxUDPPayload = 0, se_sendMaxUDPPayload = 0, se_receiveMaxUDPPayload = 0,
                 se_encoder = None, se_decoder = None, se_nextKeepalive = None, se_nextDecodeSweep = None,
                 se_closeOnce = False, se_closeErr = None\<rparr>)"

subsection \<open>Carriers and endpoints\<close>

definition carrierByID :: "Session \<Rightarrow> string \<Rightarrow> carrierState option" where
  "carrierByID s i = List.find (\<lambda>c. PathID (ca_path c) = i) (se_carriers s)"

definition on_carrier :: "string \<Rightarrow> (carrierState \<Rightarrow> carrierState) \<Rightarrow> Session \<Rightarrow> Session" where
  "on_carrier i f s = s\<lparr>se_carriers := map (\<lambda>c. if PathID (ca_path c) = i then f c else c) (se_carriers s)\<rparr>"

definition on_endpoint :: "string \<Rightarrow> (endpointState \<Rightarrow> endpointState) \<Rightarrow> Session \<Rightarrow> Session" where
  "on_endpoint key f s = (case map_of (se_endpoints s) key of
      None \<Rightarrow> s
    | Some e \<Rightarrow> s\<lparr>se_endpoints := AList.update key (f e) (se_endpoints s)\<rparr>)"

definition endpoint_live :: "Session \<Rightarrow> int \<Rightarrow> endpointState \<Rightarrow> bool" where
  "endpoint_live s now e \<longleftrightarrow> now < ep_lastActivity e + sg_endpointTTL (se_settings s)"

text \<open>The loop of the sweep over the expired entries.\<close>

fun drop_expired :: "(string \<times> endpointState) list \<Rightarrow> Session \<Rightarrow> Session" where
  "drop_expired [] s = s"
| "drop_expired ((key, e) # rest) s =
     drop_expired rest
       (let s = s\<lparr>se_endpoints := AList.delete key (se_endpoints s)\<rparr>
        in if se_role s = RoleListener then s\<lparr>se_outstanding := AList.delete key (se_outstanding s)\<rparr>
           else on_carrier (rp_PathID (ep_path e)) (\<lambda>c. c\<lparr>ca_healthy := False\<rparr>) s)"

definition sweepEndpointsLocked :: "int \<Rightarrow> Session \<Rightarrow> nat \<times> Session" where
  "sweepEndpointsLocked now s =
     (let expired = filter (\<lambda>(key, e). \<not> endpoint_live s now e) (se_endpoints s)
      in (length expired, drop_expired expired s))"

definition canLearnEndpointLocked :: "(Path \<Rightarrow> bool) \<Rightarrow> string \<Rightarrow> ReplyPath \<Rightarrow> int \<Rightarrow> Session \<Rightarrow> session_error option \<times> Session" where
  "canLearnEndpointLocked available key path now s =
     (let s = snd (sweepEndpointsLocked now s)
      in if map_of (se_endpoints s) key \<noteq> None then (None, s)
         else
           let s = (if se_role s = RoleInitiator
                    then s\<lparr>se_endpoints := filter (\<lambda>(oldKey, e). \<not> (rp_PathID (ep_path e) = rp_PathID path \<and>
                           \<not> available (Reply (ep_path e)))) (se_endpoints s)\<rparr>
                    else s)
           in if int (length (se_endpoints s)) \<ge> sg_maxEndpoints (se_settings s) then (Some ErrEndpointLimit, s) else (None, s))"

definition learnEndpointLocked ::
    "(Path \<Rightarrow> bool) \<Rightarrow> string \<Rightarrow> ReplyPath \<Rightarrow> int \<Rightarrow> Session \<Rightarrow> (session_error, bool \<times> bool) result \<times> Session" where
  "learnEndpointLocked available key path now s =
     (case canLearnEndpointLocked available key path now s of
        (Some err, s) \<Rightarrow> (Inl err, s)
      | (None, s) \<Rightarrow>
          (case map_of (se_endpoints s) key of
             Some e \<Rightarrow>
               (Inr (False, True),
                on_carrier (rp_PathID path) (\<lambda>c. c\<lparr>ca_healthy := True\<rparr>)
                  (on_endpoint key (\<lambda>e. e\<lparr>ep_path := path, ep_lastActivity := now, ep_healthy := True\<rparr>) s))
           | None \<Rightarrow>
               (Inr (True, False),
                on_carrier (rp_PathID path) (\<lambda>c. c\<lparr>ca_healthy := True\<rparr>)
                  (s\<lparr>se_endpoints := AList.update key \<lparr>ep_key = key, ep_path = path, ep_lastActivity = now, ep_rtt = 0,
                       ep_hasRTT = False, ep_healthy = True\<rparr> (se_endpoints s)\<rparr>))))"

definition sorted_paths :: "(endpointState \<Rightarrow> bool) \<Rightarrow> Session \<Rightarrow> Path list" where
  "sorted_paths pick s =
     map (\<lambda>key. Reply (ep_path (the (map_of (se_endpoints s) key)))) (sort (map fst (filter (\<lambda>(key, e). pick e) (se_endpoints s))))"

definition keepalivePathsLocked :: "(Path \<Rightarrow> bool) \<Rightarrow> int \<Rightarrow> Session \<Rightarrow> Path list" where
  "keepalivePathsLocked available now s =
     (if se_role s = RoleInitiator then filter available (map ca_path (se_carriers s))
      else sorted_paths (\<lambda>e. endpoint_live s now e \<and> available (Reply (ep_path e))) s)"

definition sendPathsLocked :: "(Path \<Rightarrow> bool) \<Rightarrow> int \<Rightarrow> Session \<Rightarrow> Path list" where
  "sendPathsLocked available now s =
     (if se_state s \<noteq> StateEstablished then []
      else if se_role s = RoleInitiator then map ca_path (filter (\<lambda>c. ca_healthy c \<and> available (ca_path c)) (se_carriers s))
      else sorted_paths (\<lambda>e. endpoint_live s now e \<and> ep_healthy e \<and> available (Reply (ep_path e))) s)"

definition closePathsLocked :: "(Path \<Rightarrow> bool) \<Rightarrow> int \<Rightarrow> Session \<Rightarrow> Path list" where
  "closePathsLocked available now s =
     (if se_role s = RoleInitiator then filter available (map ca_path (se_carriers s))
      else sorted_paths (\<lambda>e. endpoint_live s now e \<and> available (Reply (ep_path e))) s)"

subsection \<open>Handshake parameters\<close>

definition validateHandshake :: "settings \<Rightarrow> Handshake \<Rightarrow> session_error option" where
  "validateHandshake g h =
     (if int (unat (hs_DataShards h)) \<noteq> DataShards (sg_params g) \<or> int (unat (hs_ParityShards h)) \<noteq> ParityShards (sg_params g)
      then Some ErrHandshakeIncompatible
      else if unat (hs_MaxUDPPayload h) < MinUDPPayload \<or> unat (hs_MaxUDPPayload h) > MaxUDPPayload then Some ErrHandshakeIncompatible
      else None)"

definition validateFrozenHandshakeLocked :: "Handshake \<Rightarrow> Session \<Rightarrow> session_error option" where
  "validateFrozenHandshakeLocked h s =
     (case validateHandshake (se_settings s) h of
        Some err \<Rightarrow> Some err
      | None \<Rightarrow> if int (unat (hs_MaxUDPPayload h)) \<noteq> se_peerMaxUDPPayload s then Some ErrHandshakeIncompatible else None)"

definition establishLocked ::
    "(int \<Rightarrow> int \<Rightarrow> rs_codec option) \<Rightarrow> Handshake \<Rightarrow> int \<Rightarrow> Session \<Rightarrow> session_error option \<times> Session" where
  "establishLocked rs_New h now s =
     (let g = se_settings s
      in case validateHandshake g h of
           Some err \<Rightarrow> (Some err, s)
         | None \<Rightarrow>
             let negotiated = min (sg_localMaxUDPPayload g) (int (unat (hs_MaxUDPPayload h)));
                 budget = \<lparr>bg_MaxUDPPayload = negotiated, bg_DataShardWireOverhead = int DataShardOverhead,
                           bg_MaxDatagramSize = sg_maxDatagramSize g\<rparr>
             in case NewEncoder rs_New (sg_params g) budget of
                  Inl err \<Rightarrow> (Some ErrHandshakeIncompatible, s)
                | Inr encoder \<Rightarrow>
                    (case NewDecoder rs_New \<lparr>cf_Params = sg_params g, cf_Budget = budget, cf_DecodeTimeout = sg_decodeTimeout g,
                         cf_CompletionTTL = sg_completionTTL g, cf_MaxPendingBlocks = sg_maxPendingFECBlocks g,
                         cf_MaxCompletedBlocks = sg_maxCompletedFECBlocks g, cf_Statistics = None,
                         cf_ReplayWindow = Some (se_id s)\<rparr> of
                       Inl err \<Rightarrow> (Some ErrHandshakeIncompatible, s)
                     | Inr decoder \<Rightarrow>
                         (None, s\<lparr>se_peerMaxUDPPayload := int (unat (hs_MaxUDPPayload h)), se_sendMaxUDPPayload := negotiated,
                            se_receiveMaxUDPPayload := negotiated, se_encoder := Some encoder, se_decoder := Some decoder,
                            se_state := StateEstablished, se_nextKeepalive := Some (now + sg_keepaliveInterval g),
                            se_nextDecodeSweep := Some (now + sg_decodeTimeout g)\<rparr>)))"

subsection \<open>Plans\<close>

definition retryJitter :: "Session \<Rightarrow> string \<Rightarrow> int \<Rightarrow> int" where
  "retryJitter s pathID attempt =
     (let limit = sg_handshakeJitterLimit (se_settings s)
      in if limit \<le> 0 then 0
         else
           let sum = sha256 (be_put 16 (se_id s) @ map of_char pathID @ be_put 8 (word_of_int attempt :: u64))
           in uint ((be_get (take 8 sum) :: u64) mod (word_of_int limit + 1)))"

definition planHelloLocked :: "Session \<Rightarrow> int \<Rightarrow> carrierState \<Rightarrow> (wire_error, sendPlan) result \<times> carrierState" where
  "planHelloLocked s now c =
     (let g = se_settings s
      in case NewHello (se_id s) (word_of_int (DataShards (sg_params g))) (word_of_int (ParityShards (sg_params g)))
                (word_of_int (sg_localMaxUDPPayload g)) of
           Inl err \<Rightarrow> (Inl err, c)
         | Inr message \<Rightarrow>
             let attempts = ca_attempts c + 1
             in (Inr \<lparr>pn_message = message, pn_path = ca_path c, pn_budget = sg_localMaxUDPPayload g, pn_probeKey = [],
                   pn_probe = \<lparr>ob_token = 0, ob_timestamp = 0, ob_sentAt = 0\<rparr>\<rparr>,
                 c\<lparr>ca_attempts := attempts,
                   ca_nextRetry := Some (now + (sg_handshakeRetryInterval g + retryJitter s (PathID (ca_path c)) attempts))\<rparr>))"

definition probePathKeyLocked :: "(Path \<Rightarrow> bool) \<Rightarrow> Path \<Rightarrow> Session \<Rightarrow> string" where
  "probePathKeyLocked available path s =
     (if se_role s = RoleInitiator then PathID path
      else
        (case path of
           Reply p \<Rightarrow> (case replyIdentity available (Some p) of Inr key \<Rightarrow> key | Inl _ \<Rightarrow> PathID path)
         | Carrier _ \<Rightarrow> PathID path))"

definition planPingLocked :: "(Path \<Rightarrow> bool) \<Rightarrow> Path \<Rightarrow> int \<Rightarrow> Session \<Rightarrow> (wire_error, sendPlan) result \<times> Session" where
  "planPingLocked available path now s =
     (let token = se_nextToken s;
          s = s\<lparr>se_nextToken := if token + 1 = 0 then 1 else token + 1\<rparr>;
          timestamp = word_of_int now
      in case NewPing (se_id s) token timestamp of
           Inl err \<Rightarrow> (Inl err, s)
         | Inr message \<Rightarrow>
             let key = probePathKeyLocked available path s;
                 probe = \<lparr>ob_token = token, ob_timestamp = timestamp, ob_sentAt = now\<rparr>
             in (Inr \<lparr>pn_message = message, pn_path = path, pn_budget = se_sendMaxUDPPayload s, pn_probeKey = key, pn_probe = probe\<rparr>,
                 s\<lparr>se_outstanding := AList.update key probe (se_outstanding s)\<rparr>))"

subsection \<open>Sending\<close>

definition isPathHealthFailure :: "send_error option \<Rightarrow> bool" where
  "isPathHealthFailure err =
     (case err of
        Some (NetFailure e) \<Rightarrow>
          \<not> (ContextCanceled \<in> set e \<or> ContextDeadlineExceeded \<in> set e) \<and>
          (PathError \<in> set e \<or> ErrPathUnavailable \<in> set e \<or> ErrPathMTUExceeded \<in> set e)
      | _ \<Rightarrow> False)"

definition setPathHealthForPath :: "Path \<Rightarrow> bool \<Rightarrow> Session \<Rightarrow> Session" where
  "setPathHealthForPath path healthy s =
     (if se_role s = RoleInitiator then on_carrier (PathID path) (\<lambda>c. c\<lparr>ca_healthy := healthy\<rparr>) s
      else
        (case path of
           Carrier _ \<Rightarrow> s
         | Reply p \<Rightarrow>
             (case replyIdentityUnchecked (Some p) of
                Inl _ \<Rightarrow> s
              | Inr key \<Rightarrow> on_endpoint key (\<lambda>e. e\<lparr>ep_healthy := healthy\<rparr>) s)))"

text \<open>What the result of one send does to the session.\<close>

definition settle :: "bool \<Rightarrow> sendPlan \<Rightarrow> send_error option \<Rightarrow> Session \<Rightarrow> Session" where
  "settle cleanFailedProbes p err s =
     (let s = (if cleanFailedProbes \<and> err \<noteq> None \<and> pn_probeKey p \<noteq> [] then
                 (case map_of (se_outstanding s) (pn_probeKey p) of
                    Some current \<Rightarrow>
                      if ob_token current = ob_token (pn_probe p)
                      then s\<lparr>se_outstanding := AList.delete (pn_probeKey p) (se_outstanding s)\<rparr> else s
                  | None \<Rightarrow> s)
               else s)
      in if isPathHealthFailure err then setPathHealthForPath (pn_path p) False s else s)"

definition send_one :: "settings \<Rightarrow> network \<Rightarrow> nat \<Rightarrow> sendPlan \<Rightarrow> send_error option" where
  "send_one g net n p =
     (case Authenticator_Append (Some (sg_authenticator g)) [] (pn_message p) (pn_budget p) of
        (packet, Some err, _) \<Rightarrow> Some (EncodeFailure err)
      | (packet, None, _) \<Rightarrow> map_option NetFailure (net n (pn_path p) packet))"

fun execute :: "network \<Rightarrow> bool \<Rightarrow> nat \<Rightarrow> sendPlan list \<Rightarrow> Session \<Rightarrow> SendAttempt list \<times> Session" where
  "execute net cleanFailedProbes n [] s = ([], s)"
| "execute net cleanFailedProbes n (p # plans) s =
     (let err = send_one (se_settings s) net n p
      in case execute net cleanFailedProbes (n + 1) plans (settle cleanFailedProbes p err s) of
           (attempts, s) \<Rightarrow>
             (\<lparr>sa_Type = hdr_Type (msg_Header (pn_message p)), sa_PathID = PathID (pn_path p), sa_Err = err\<rparr> # attempts, s))"

subsection \<open>Start\<close>

text \<open>The loop over the carriers; an error leaves the later carriers as they are.\<close>

fun hello_all :: "Session \<Rightarrow> int \<Rightarrow> carrierState list \<Rightarrow> (wire_error, sendPlan list) result \<times> carrierState list" where
  "hello_all s now [] = (Inr [], [])"
| "hello_all s now (c # cs) =
     (case planHelloLocked s now c of
        (Inl err, c) \<Rightarrow> (Inl err, c # cs)
      | (Inr p, c) \<Rightarrow>
          (case hello_all s now cs of
             (Inl err, cs) \<Rightarrow> (Inl err, c # cs)
           | (Inr ps, cs) \<Rightarrow> (Inr (p # ps), c # cs)))"

definition start_locked :: "int \<Rightarrow> Session \<Rightarrow> (session_error, sendPlan list) result \<times> Session" where
  "start_locked now s =
     (if se_state s = StateClosed then (Inl ErrClosed, s)
      else if se_role s \<noteq> RoleInitiator \<or> se_state s \<noteq> StateHandshaking then (Inl ErrUnexpectedPacket, s)
      else if se_started s then (Inr [], s)
      else
        (case hello_all (s\<lparr>se_started := True\<rparr>) now (se_carriers s) of
           (Inl err, cs) \<Rightarrow> (Inl (WireError err), s\<lparr>se_started := True, se_carriers := cs\<rparr>)
         | (Inr plans, cs) \<Rightarrow> (Inr plans, s\<lparr>se_started := True, se_carriers := cs\<rparr>)))"

definition Start :: "ctx \<Rightarrow> Env \<Rightarrow> network \<Rightarrow> Session \<Rightarrow> (session_error, SendAttempt list) result \<times> Session" where
  "Start c ev net s =
     (case check_context c of
        Some err \<Rightarrow> (Inl err, s)
      | None \<Rightarrow>
          (case start_locked (ev_now ev) s of
             (Inl err, s) \<Rightarrow> (Inl err, s)
           | (Inr plans, s) \<Rightarrow> (case execute net True 0 plans s of (attempts, s) \<Rightarrow> (Inr attempts, s))))"


subsection \<open>Receiving\<close>

definition markClosedLocked :: "Session \<Rightarrow> Session" where
  "markClosedLocked s =
     s\<lparr>se_state := StateClosed, se_nextKeepalive := None, se_nextDecodeSweep := None,
       se_carriers := map (\<lambda>c. c\<lparr>ca_nextRetry := None\<rparr>) (se_carriers s), se_endpoints := [], se_outstanding := []\<rparr>"

text \<open>One case of the switch on the packet type: the error, the result, the response to send, and the session.\<close>

type_synonym handled = "session_error option \<times> HandleResult \<times> sendPlan option \<times> Session"

definition responsePlan :: "Message \<Rightarrow> string \<Rightarrow> HandleResult \<Rightarrow> Session \<Rightarrow> handled" where
  "responsePlan m key result s =
     (case map_of (se_endpoints s) key of
        None \<Rightarrow> (Some NilPointer, result, None, s)
      | Some e \<Rightarrow>
          (None, result, Some \<lparr>pn_message = m, pn_path = Reply (ep_path e), pn_budget = se_sendMaxUDPPayload s, pn_probeKey = [],
             pn_probe = \<lparr>ob_token = 0, ob_timestamp = 0, ob_sentAt = 0\<rparr>\<rparr>, s))"

definition learned :: "bool \<times> bool \<Rightarrow> HandleResult \<Rightarrow> HandleResult" where
  "learned flags result = result\<lparr>hr_EndpointAdded := fst flags, hr_EndpointRefreshed := snd flags\<rparr>"

definition handle_hello :: "Env \<Rightarrow> string \<Rightarrow> ReplyPath \<Rightarrow> Message \<Rightarrow> HandleResult \<Rightarrow> Session \<Rightarrow> handled" where
  "handle_hello ev key reply m result s =
     (if se_role s \<noteq> RoleListener \<or> se_state s \<noteq> StateEstablished then (Some ErrUnexpectedPacket, result, None, s)
      else
        (case validateFrozenHandshakeLocked (msg_Handshake m) s of
           Some err \<Rightarrow> (Some err, result, None, s)
         | None \<Rightarrow>
             (case learnEndpointLocked (ev_available ev 1) key reply (ev_now ev) s of
                (Inl err, s) \<Rightarrow> (Some err, result, None, s)
              | (Inr flags, s) \<Rightarrow>
                  (case NewHelloAck (se_id s) (word_of_int (DataShards (sg_params (se_settings s))))
                          (word_of_int (ParityShards (sg_params (se_settings s))))
                          (word_of_int (sg_localMaxUDPPayload (se_settings s))) of
                     Inl err \<Rightarrow> (Some (WireError err), learned flags result, None, s)
                   | Inr ack \<Rightarrow> responsePlan ack key (learned flags result) s))))"

definition handle_hello_ack ::
    "(int \<Rightarrow> int \<Rightarrow> rs_codec option) \<Rightarrow> Env \<Rightarrow> string \<Rightarrow> ReplyPath \<Rightarrow> Message \<Rightarrow> HandleResult \<Rightarrow> Session \<Rightarrow> handled" where
  "handle_hello_ack rs_New ev key reply m result s =
     (if se_role s \<noteq> RoleInitiator \<or> (se_state s \<noteq> StateHandshaking \<and> se_state s \<noteq> StateEstablished)
      then (Some ErrUnexpectedPacket, result, None, s)
      else
        let (err, result, s) =
              (if se_state s = StateHandshaking then
                 (case establishLocked rs_New (msg_Handshake m) (ev_now ev) s of
                    (Some err, s) \<Rightarrow> (Some err, result, s)
                  | (None, s) \<Rightarrow> (None, result\<lparr>hr_Established := True\<rparr>, s))
               else (validateFrozenHandshakeLocked (msg_Handshake m) s, result, s))
        in if err \<noteq> None then (err, result, None, s)
           else
             (case learnEndpointLocked (ev_available ev 1) key reply (ev_now ev) s of
                (Inl err, s) \<Rightarrow> (Some err, result, None, s)
              | (Inr flags, s) \<Rightarrow>
                  (None, learned flags result, None,
                   on_carrier (rp_PathID reply)
                     (\<lambda>c. c\<lparr>ca_acked := True, ca_healthy := True, ca_exhausted := False, ca_nextRetry := None\<rparr>) s)))"

definition incoming :: "Session \<Rightarrow> DataShard \<Rightarrow> IncomingShard" where
  "incoming s d =
     \<lparr>is_Key = \<lparr>bk_SessionID = se_id s, bk_PacketID = ds_PacketID d\<rparr>, is_Params = sg_params (se_settings s),
      is_Index = int (unat (ds_ShardIndex d)), is_OriginalLength = int (unat (ds_OriginalLength d)), is_Payload = ds_Payload d\<rparr>"

definition handle_data :: "Env \<Rightarrow> string \<Rightarrow> ReplyPath \<Rightarrow> Message \<Rightarrow> HandleResult \<Rightarrow> Session \<Rightarrow> handled" where
  "handle_data ev key reply m result s =
     (let d = msg_DataShard m
      in if se_state s \<noteq> StateEstablished then (Some ErrNotEstablished, result, None, s)
         else if int (unat (ds_DataShards d)) \<noteq> DataShards (sg_params (se_settings s)) \<or>
             int (unat (ds_ParityShards d)) \<noteq> ParityShards (sg_params (se_settings s))
           then (Some ErrHandshakeIncompatible, result, None, s)
         else
           (case canLearnEndpointLocked (ev_available ev 1) key reply (ev_now ev) s of
              (Some err, s) \<Rightarrow> (Some err, result, None, s)
            | (None, s) \<Rightarrow>
                (case se_decoder s of
                   None \<Rightarrow> (Some NilPointer, result, None, s)
                 | Some decoder \<Rightarrow>
                     (case AddVerifiedShard (ev_decoderNow ev) (incoming s d) decoder of
                        (Inl err, decoder) \<Rightarrow> (Some (FecFailure err), result, None, s\<lparr>se_decoder := Some decoder\<rparr>)
                      | (Inr decoded, decoder) \<Rightarrow>
                          let s = s\<lparr>se_decoder := Some decoder\<rparr>
                          in if rs_Outcome decoded = OutcomeTooOld then (None, result, None, s)
                             else
                               (case learnEndpointLocked (ev_available ev 2) key reply (ev_now ev) s of
                                  (Inl err, s) \<Rightarrow> (Some err, result, None, s)
                                | (Inr flags, s) \<Rightarrow>
                                    (None,
                                     (learned flags result)\<lparr>hr_Datagram :=
                                        if rs_Outcome decoded = OutcomeComplete then rs_Datagram decoded else hr_Datagram result\<rparr>,
                                     None, s))))))"

definition handle_ping :: "Env \<Rightarrow> string \<Rightarrow> ReplyPath \<Rightarrow> Message \<Rightarrow> HandleResult \<Rightarrow> Session \<Rightarrow> handled" where
  "handle_ping ev key reply m result s =
     (if se_state s \<noteq> StateEstablished then (Some ErrNotEstablished, result, None, s)
      else
        (case learnEndpointLocked (ev_available ev 1) key reply (ev_now ev) s of
           (Inl err, s) \<Rightarrow> (Some err, result, None, s)
         | (Inr flags, s) \<Rightarrow>
             (case NewPong (se_id s) (pr_Token (msg_Probe m)) (pr_Timestamp (msg_Probe m)) of
                Inl err \<Rightarrow> (Some (WireError err), learned flags result, None, s)
              | Inr pong \<Rightarrow> responsePlan pong key (learned flags result) s)))"

definition probeKeyLocked :: "ReplyPath \<Rightarrow> string \<Rightarrow> Session \<Rightarrow> string" where
  "probeKeyLocked path endpointKey s = (if se_role s = RoleInitiator then rp_PathID path else endpointKey)"

definition handle_pong :: "Env \<Rightarrow> string \<Rightarrow> ReplyPath \<Rightarrow> Message \<Rightarrow> HandleResult \<Rightarrow> Session \<Rightarrow> handled" where
  "handle_pong ev key reply m result s =
     (if se_state s \<noteq> StateEstablished then (Some ErrNotEstablished, result, None, s)
      else
        let probeKey = probeKeyLocked reply key s; now = ev_now ev
        in case map_of (se_outstanding s) probeKey of
             None \<Rightarrow> (Some ErrProbeMismatch, result, None, s)
           | Some probe \<Rightarrow>
               if ob_token probe \<noteq> pr_Token (msg_Probe m) \<or> ob_timestamp probe \<noteq> pr_Timestamp (msg_Probe m) \<or> now < ob_sentAt probe
               then (Some ErrProbeMismatch, result, None, s)
               else
                 (case canLearnEndpointLocked (ev_available ev 1) key reply now s of
                    (Some err, s) \<Rightarrow> (Some err, result, None, s)
                  | (None, s) \<Rightarrow>
                      (case learnEndpointLocked (ev_available ev 2) key reply now
                              (s\<lparr>se_outstanding := AList.delete probeKey (se_outstanding s)\<rparr>) of
                         (Inl err, s) \<Rightarrow> (Some err, result, None, s)
                       | (Inr flags, s) \<Rightarrow>
                           let rtt = now - ob_sentAt probe
                           in (None, (learned flags result)\<lparr>hr_RTTUpdated := True, hr_RTT := rtt\<rparr>, None,
                               on_endpoint key (\<lambda>e. e\<lparr>ep_rtt := rtt, ep_hasRTT := True\<rparr>) s))))"

definition handle_close :: "HandleResult \<Rightarrow> Session \<Rightarrow> handled" where
  "handle_close result s = (None, result, None, markClosedLocked (s\<lparr>se_decoder := None, se_encoder := None\<rparr>))"

definition handle_message ::
    "(int \<Rightarrow> int \<Rightarrow> rs_codec option) \<Rightarrow> Env \<Rightarrow> string \<Rightarrow> ReplyPath \<Rightarrow> Message \<Rightarrow> HandleResult \<Rightarrow> Session \<Rightarrow> handled" where
  "handle_message rs_New ev key reply m result s =
     (let t = hdr_Type (msg_Header m)
      in if t = TypeHello then handle_hello ev key reply m result s
         else if t = TypeHelloAck then handle_hello_ack rs_New ev key reply m result s
         else if t = TypeDataShard then handle_data ev key reply m result s
         else if t = TypePing then handle_ping ev key reply m result s
         else if t = TypePong then handle_pong ev key reply m result s
         else if t = TypeClose then handle_close result s
         else (Some ErrUnexpectedPacket, result, None, s))"

definition newResult :: "Message \<Rightarrow> HandleResult" where
  "newResult m =
     \<lparr>hr_Message = m, hr_Created = False, hr_Established = False, hr_EndpointAdded = False, hr_EndpointRefreshed = False,
      hr_RTTUpdated = False, hr_RTT = 0, hr_Datagram = None, hr_Response = None\<rparr>"

definition zeroMessage :: Message where
  "zeroMessage = \<lparr>msg_Header = \<lparr>hdr_Type = 0, hdr_SessionID = 0\<rparr>, msg_Handshake = zeroHandshake,
     msg_DataShard = emptyDataShard, msg_Probe = zeroProbe\<rparr>"

text \<open>The locked section of \<open>handleAuthenticatedWithIdentity\<close> and the checks before it.\<close>

definition handle_locked ::
    "(int \<Rightarrow> int \<Rightarrow> rs_codec option) \<Rightarrow> Env \<Rightarrow> ReceivedPacket \<Rightarrow> Message \<Rightarrow> string \<Rightarrow> Session \<Rightarrow> handled" where
  "handle_locked rs_New ev packet m key s =
     (let result = newResult m
      in if hdr_SessionID (msg_Header m) \<noteq> se_id s then (Some ErrUnknownSession, result, None, s)
         else
           (case (if key = [] then replyIdentityUnchecked (rc_Reply packet) else Inr key, rc_Reply packet) of
              (Inr key, Some reply) \<Rightarrow>
                if \<not> ev_available ev 0 (Reply reply) then (Some ErrInvalidReplyPath, result, None, s)
                else if se_state s = StateClosed then (Some ErrClosed, result, None, s)
                else if se_role s = RoleInitiator \<and> carrierByID s (rp_PathID reply) = None then (Some ErrUnknownPath, result, None, s)
                else if se_state s = StateEstablished \<and> int (length (rc_Payload packet)) > se_receiveMaxUDPPayload s
                  then (Some ErrPacketOverBudget, result, None, s)
                else handle_message rs_New ev key reply m result s
            | _ \<Rightarrow> (Some ErrInvalidReplyPath, result, None, s)))"

definition handleAuthenticatedWithIdentity ::
    "(int \<Rightarrow> int \<Rightarrow> rs_codec option) \<Rightarrow> Env \<Rightarrow> network \<Rightarrow> ReceivedPacket \<Rightarrow> Message \<Rightarrow> string \<Rightarrow> Session \<Rightarrow>
      HandleResult \<times> session_error option \<times> Session" where
  "handleAuthenticatedWithIdentity rs_New ev net packet m key s =
     (case handle_locked rs_New ev packet m key s of
        (Some err, result, _, s) \<Rightarrow> (result, Some err, s)
      | (None, result, None, s) \<Rightarrow> (result, None, s)
      | (None, result, Some response, s) \<Rightarrow>
          (case execute net True 0 [response] s of (attempts, s) \<Rightarrow> (result\<lparr>hr_Response := Some (hd attempts)\<rparr>, None, s)))"

definition HandlePacket ::
    "(int \<Rightarrow> int \<Rightarrow> rs_codec option) \<Rightarrow> ctx \<Rightarrow> Env \<Rightarrow> network \<Rightarrow> ReceivedPacket \<Rightarrow> Session \<Rightarrow> HandleResult \<times> session_error option \<times> Session" where
  "HandlePacket rs_New c ev net packet s =
     (case check_context c of
        Some err \<Rightarrow> (newResult zeroMessage, Some err, s)
      | None \<Rightarrow>
          (case Authenticator_Decode (Some (sg_authenticator (se_settings s))) (rc_Payload packet) (sg_localMaxUDPPayload (se_settings s)) of
             (Inl err, _) \<Rightarrow> (newResult zeroMessage, Some (WireError err), s)
           | (Inr m, _) \<Rightarrow> handleAuthenticatedWithIdentity rs_New ev net packet m [] s))"


subsection \<open>Advance\<close>

definition allCarriersExhaustedLocked :: "Session \<Rightarrow> bool" where
  "allCarriersExhaustedLocked s \<longleftrightarrow> (\<forall>c \<in> set (se_carriers s). \<not> ca_acked c \<and> ca_exhausted c)"

text \<open>The loop over the carriers; an error leaves the later carriers as they are.\<close>

fun retry_all :: "Session \<Rightarrow> int \<Rightarrow> carrierState list \<Rightarrow> (wire_error, sendPlan list) result \<times> carrierState list" where
  "retry_all s now [] = (Inr [], [])"
| "retry_all s now (c # cs) =
     (if ca_acked c \<or> ca_exhausted c \<or> (case ca_nextRetry c of None \<Rightarrow> True | Some t \<Rightarrow> now < t) then
        (case retry_all s now cs of (res, cs) \<Rightarrow> (res, c # cs))
      else if ca_attempts c \<ge> sg_maxHandshakeAttempts (se_settings s) then
        (case retry_all s now cs of (res, cs) \<Rightarrow> (res, c\<lparr>ca_exhausted := True, ca_healthy := False, ca_nextRetry := None\<rparr> # cs))
      else
        (case planHelloLocked s now c of
           (Inl err, c) \<Rightarrow> (Inl err, c # cs)
         | (Inr p, c) \<Rightarrow>
             (case retry_all s now cs of
                (Inl err, cs) \<Rightarrow> (Inl err, c # cs)
              | (Inr ps, cs) \<Rightarrow> (Inr (p # ps), c # cs))))"

fun ping_all :: "(Path \<Rightarrow> bool) \<Rightarrow> int \<Rightarrow> Path list \<Rightarrow> Session \<Rightarrow> (wire_error, sendPlan list) result \<times> Session" where
  "ping_all available now [] s = (Inr [], s)"
| "ping_all available now (path # paths) s =
     (case planPingLocked available path now s of
        (Inl err, s) \<Rightarrow> (Inl err, s)
      | (Inr p, s) \<Rightarrow>
          (case ping_all available now paths s of
             (Inl err, s) \<Rightarrow> (Inl err, s)
           | (Inr ps, s) \<Rightarrow> (Inr (p # ps), s)))"

definition noExpired :: ExpireStats where
  "noExpired = \<lparr>ex_PendingBlocks = 0, ex_CompletedBlocks = 0\<rparr>"

definition sweep_decoder :: "Env \<Rightarrow> Session \<Rightarrow> ExpireStats \<times> Session" where
  "sweep_decoder ev s =
     (case (se_decoder s, se_nextDecodeSweep s) of
        (Some decoder, Some t) \<Rightarrow>
          if t \<le> ev_now ev then
            (case Sweep (ev_decoderNow ev) decoder of
               (stats, decoder) \<Rightarrow>
                 (stats, s\<lparr>se_decoder := Some decoder, se_nextDecodeSweep := Some (ev_now ev + sg_decodeTimeout (se_settings s))\<rparr>))
          else (noExpired, s)
      | _ \<Rightarrow> (noExpired, s))"

text \<open>The part for a started initiator, with the flag \<open>HandshakeFailed\<close>, and the keepalive part.\<close>

definition retry_carriers :: "Env \<Rightarrow> Session \<Rightarrow> (wire_error, sendPlan list) result \<times> bool \<times> Session" where
  "retry_carriers ev s =
     (if se_role s = RoleInitiator \<and> se_started s then
        (case retry_all s (ev_now ev) (se_carriers s) of
           (Inl err, cs) \<Rightarrow> (Inl err, False, s\<lparr>se_carriers := cs\<rparr>)
         | (Inr plans, cs) \<Rightarrow>
             let s = s\<lparr>se_carriers := cs\<rparr>
             in if se_state s = StateHandshaking \<and> allCarriersExhaustedLocked s
                then (Inr plans, True, s\<lparr>se_state := StateHandshakeFailed\<rparr>)
                else (Inr plans, False, s))
      else (Inr [], False, s))"

definition keepalive :: "Env \<Rightarrow> Session \<Rightarrow> (wire_error, sendPlan list) result \<times> Session" where
  "keepalive ev s =
     (if se_state s = StateEstablished \<and> (case se_nextKeepalive s of None \<Rightarrow> False | Some t \<Rightarrow> t \<le> ev_now ev) then
        (case ping_all (ev_available ev 1) (ev_now ev) (keepalivePathsLocked (ev_available ev 0) (ev_now ev) s) s of
           (Inl err, s) \<Rightarrow> (Inl err, s)
         | (Inr plans, s) \<Rightarrow> (Inr plans, s\<lparr>se_nextKeepalive := Some (ev_now ev + sg_keepaliveInterval (se_settings s))\<rparr>))
      else (Inr [], s))"

definition advance_locked :: "Env \<Rightarrow> Session \<Rightarrow> (session_error, sendPlan list) result \<times> AdvanceResult \<times> Session" where
  "advance_locked ev s =
     (let result = \<lparr>ar_Sends = [], ar_ExpiredEndpoints = 0, ar_ExpiredFEC = noExpired, ar_HandshakeFailed = False\<rparr>
      in if se_state s = StateClosed then (Inl ErrClosed, result, s)
         else
           (case sweepEndpointsLocked (ev_now ev) s of
              (n, s) \<Rightarrow>
                (case sweep_decoder ev s of
                   (stats, s) \<Rightarrow>
                     let result = result\<lparr>ar_ExpiredEndpoints := n, ar_ExpiredFEC := stats\<rparr>
                     in (case retry_carriers ev s of
                           (Inl err, failed, s) \<Rightarrow> (Inl (WireError err), result, s)
                         | (Inr plans, failed, s) \<Rightarrow>
                             let result = result\<lparr>ar_HandshakeFailed := failed\<rparr>
                             in (case keepalive ev s of
                                   (Inl err, s) \<Rightarrow> (Inl (WireError err), result, s)
                                 | (Inr pings, s) \<Rightarrow> (Inr (plans @ pings), result, s))))))"

definition Advance :: "ctx \<Rightarrow> Env \<Rightarrow> network \<Rightarrow> Session \<Rightarrow> AdvanceResult \<times> session_error option \<times> Session" where
  "Advance c ev net s =
     (case check_context c of
        Some err \<Rightarrow> (\<lparr>ar_Sends = [], ar_ExpiredEndpoints = 0, ar_ExpiredFEC = noExpired, ar_HandshakeFailed = False\<rparr>, Some err, s)
      | None \<Rightarrow>
          (case advance_locked ev s of
             (Inl err, result, s) \<Rightarrow> (result, Some err, s)
           | (Inr plans, result, s) \<Rightarrow>
               (case execute net True 0 plans s of
                  (attempts, s) \<Rightarrow>
                    (result\<lparr>ar_Sends := attempts\<rparr>, if ar_HandshakeFailed result then Some ErrHandshakeFailed else None, s))))"

subsection \<open>WritePacket\<close>

definition write_locked :: "Env \<Rightarrow> Session \<Rightarrow> (session_error, Path list \<times> int) result \<times> Session" where
  "write_locked ev s =
     (if se_state s = StateClosed then (Inl ErrClosed, s)
      else if se_state s \<noteq> StateEstablished \<or> se_encoder s = None then (Inl ErrNotEstablished, s)
      else
        let s = snd (sweepEndpointsLocked (ev_now ev) s)
        in (Inr (sendPathsLocked (ev_available ev 0) (ev_now ev) s, se_sendMaxUDPPayload s), s))"

text \<open>The encoder has a lock of its own; its state lives in the session. The code works on the encoder it has read
  under the lock, so that \<open>NilPointer\<close> here only stands for a session that was closed meanwhile.\<close>

definition encode_payload :: "bytes \<Rightarrow> Session \<Rightarrow> (session_error, EncodedBlock) result \<times> Session" where
  "encode_payload payload s =
     (case se_encoder s of
        None \<Rightarrow> (Inl NilPointer, s)
      | Some encoder \<Rightarrow>
          (case Encode payload encoder of
             (Inl err, encoder) \<Rightarrow> (Inl (FecFailure err), s\<lparr>se_encoder := Some encoder\<rparr>)
           | (Inr block, encoder) \<Rightarrow> (Inr block, s\<lparr>se_encoder := Some encoder\<rparr>)))"

fun shard_packets :: "settings \<Rightarrow> SessionID \<Rightarrow> int \<Rightarrow> EncodedBlock \<Rightarrow> nat \<Rightarrow> bytes list \<Rightarrow> (wire_error, bytes list) result" where
  "shard_packets g i budget block index [] = Inr []"
| "shard_packets g i budget block index (shard # shards) =
     (case NewDataShard i (eb_PacketID block) (word_of_int (DataShards (eb_Params block))) (word_of_int (ParityShards (eb_Params block)))
             (word_of_nat index) (word_of_int (eb_OriginalLength block)) shard of
        Inl err \<Rightarrow> Inl err
      | Inr m \<Rightarrow>
          (case Authenticator_Append (Some (sg_authenticator g)) [] m budget of
             (packet, Some err, _) \<Rightarrow> Inl err
           | (packet, None, _) \<Rightarrow>
               (case shard_packets g i budget block (index + 1) shards of
                  Inl err \<Rightarrow> Inl err
                | Inr packets \<Rightarrow> Inr (packet # packets))))"

definition recordBlockPathFailures :: "BlockSendResult \<Rightarrow> Path list \<Rightarrow> Session \<Rightarrow> Session" where
  "recordBlockPathFailures result paths s =
     fold (\<lambda>a s. if isPathHealthFailure (map_option NetFailure (at_Err a)) \<and> at_PathIndex a < length paths
                 then setPathHealthForPath (paths ! at_PathIndex a) False s else s) (bs_Attempts result) s"

definition noSend :: BlockSendResult where
  "noSend = \<lparr>bs_PacketID = 0, bs_PathsAvailable = 0, bs_Attempted = 0, bs_Succeeded = 0, bs_Attempts = []\<rparr>"

definition WritePacket :: "ctx \<Rightarrow> Env \<Rightarrow> network \<Rightarrow> bytes \<Rightarrow> Session \<Rightarrow> WriteResult \<times> session_error option \<times> Session" where
  "WritePacket c ev net payload s =
     (let none = \<lparr>wr_PacketID = 0, wr_Send = noSend\<rparr>
      in case check_context c of
           Some err \<Rightarrow> (none, Some err, s)
         | None \<Rightarrow>
             (case write_locked ev s of
                (Inl err, s) \<Rightarrow> (none, Some err, s)
              | (Inr (paths, budget), s) \<Rightarrow>
                  (case encode_payload payload s of
                     (Inl err, s) \<Rightarrow> (none, Some err, s)
                   | (Inr block, s) \<Rightarrow>
                       (case shard_packets (se_settings s) (se_id s) budget block 0 (eb_Shards block) of
                          Inl err \<Rightarrow> (none\<lparr>wr_PacketID := eb_PacketID block\<rparr>, Some (WireError err), s)
                        | Inr packets \<Rightarrow>
                            (case SendBlock LiveContext (ev_available ev 1) net (eb_PacketID block) packets paths of
                               (send, err) \<Rightarrow>
                                 (\<lparr>wr_PacketID = eb_PacketID block, wr_Send = send\<rparr>, map_option BlockFailure err,
                                  recordBlockPathFailures send paths s))))))"

subsection \<open>Close\<close>

definition close_locked :: "Env \<Rightarrow> Session \<Rightarrow> (Path list \<times> bool \<times> int) \<times> Session" where
  "close_locked ev s =
     ((closePathsLocked (ev_available ev 0) (ev_now ev) s, se_state s = StateEstablished, se_sendMaxUDPPayload s),
      markClosedLocked (s\<lparr>se_decoder := None, se_encoder := None\<rparr>))"

definition close_plans :: "Message \<Rightarrow> int \<Rightarrow> Path list \<Rightarrow> sendPlan list" where
  "close_plans m budget paths =
     map (\<lambda>path. \<lparr>pn_message = m, pn_path = path, pn_budget = budget, pn_probeKey = [],
        pn_probe = \<lparr>ob_token = 0, ob_timestamp = 0, ob_sentAt = 0\<rparr>\<rparr>) paths"

definition join_errors :: "SendAttempt list \<Rightarrow> session_error option" where
  "join_errors attempts =
     (let failures = List.map_filter sa_Err attempts in if failures = [] then None else Some (CloseFailures failures))"

text \<open>The attempts are returned for the statements below; the Go method returns only the error.\<close>

definition CloseSession :: "ctx \<Rightarrow> Env \<Rightarrow> network \<Rightarrow> Session \<Rightarrow> session_error option \<times> SendAttempt list \<times> Session" where
  "CloseSession c ev net s =
     (if c = NilContext then (Some ErrInvalidConfig, [], s)
      else if se_closeOnce s then (se_closeErr s, [], s)
      else
        (case close_locked ev (s\<lparr>se_closeOnce := True\<rparr>) of
           ((paths, wasEstablished, budget), s) \<Rightarrow>
             if \<not> wasEstablished then (se_closeErr s, [], s)
             else
               (case NewClose (se_id s) of
                  Inl err \<Rightarrow> (Some (WireError err), [], s\<lparr>se_closeErr := Some (WireError err)\<rparr>)
                | Inr m \<Rightarrow>
                    (case execute net False 0 (close_plans m budget paths) s of
                       (attempts, s) \<Rightarrow> (join_errors attempts, attempts, s\<lparr>se_closeErr := join_errors attempts\<rparr>)))))"

subsection \<open>Observation and health\<close>

definition hasRetryDeadlineLocked :: "Session \<Rightarrow> bool" where
  "hasRetryDeadlineLocked s \<longleftrightarrow> (\<exists>c \<in> set (se_carriers s). ca_nextRetry c \<noteq> None)"

definition consider_deadline :: "int option \<Rightarrow> int option \<Rightarrow> int option" where
  "consider_deadline candidate best =
     (case (candidate, best) of
        (None, _) \<Rightarrow> best
      | (Some t, None) \<Rightarrow> Some t
      | (Some t, Some u) \<Rightarrow> if t < u then Some t else Some u)"

definition nextDeadlineLocked :: "Session \<Rightarrow> int option" where
  "nextDeadlineLocked s =
     (let best = fold (\<lambda>c. consider_deadline (ca_nextRetry c)) (se_carriers s) None;
          best = consider_deadline (se_nextKeepalive s) best;
          best = consider_deadline (se_nextDecodeSweep s) best
      in fold (\<lambda>(key, e). consider_deadline (Some (ep_lastActivity e + sg_endpointTTL (se_settings s)))) (se_endpoints s) best)"

record SessionSnapshot =
  ss_ID :: SessionID
  ss_Role :: Role
  ss_State :: session_state
  ss_PeerMaxUDPPayload :: int
  ss_SendMaxUDPPayload :: int
  ss_ReceiveMaxUDPPayload :: int
  ss_HandshakeAttempts :: int
  ss_AcknowledgedCarriers :: nat
  ss_Endpoints :: nat
  ss_OutstandingProbes :: nat
  ss_HasRetryDeadline :: bool
  ss_HasKeepaliveDeadline :: bool
  ss_HasDecodeSweepDeadline :: bool
  ss_NextDeadline :: "int option"

definition SnapshotSession :: "Session \<Rightarrow> SessionSnapshot" where
  "SnapshotSession s =
     \<lparr>ss_ID = se_id s, ss_Role = se_role s, ss_State = se_state s, ss_PeerMaxUDPPayload = se_peerMaxUDPPayload s,
      ss_SendMaxUDPPayload = se_sendMaxUDPPayload s, ss_ReceiveMaxUDPPayload = se_receiveMaxUDPPayload s,
      ss_HandshakeAttempts = sum_list (map ca_attempts (se_carriers s)),
      ss_AcknowledgedCarriers = length (filter ca_acked (se_carriers s)), ss_Endpoints = length (se_endpoints s),
      ss_OutstandingProbes = length (se_outstanding s), ss_HasRetryDeadline = hasRetryDeadlineLocked s,
      ss_HasKeepaliveDeadline = (se_nextKeepalive s \<noteq> None), ss_HasDecodeSweepDeadline = (se_nextDecodeSweep s \<noteq> None),
      ss_NextDeadline = nextDeadlineLocked s\<rparr>"

record EndpointSnapshot =
  es_Key :: string
  es_PathID :: string
  es_Generation :: u64
  es_LocalAddr :: string
  es_RemoteAddr :: string
  es_LastActivity :: int
  es_RTT :: int
  es_HasRTT :: bool
  es_Available :: bool

text \<open>The addresses of a learned path are never nil.\<close>

definition addr_String :: "Addr option \<Rightarrow> string" where
  "addr_String a = (case a of Some x \<Rightarrow> ad_String x | None \<Rightarrow> [])"

definition Session_Endpoints :: "(Path \<Rightarrow> bool) \<Rightarrow> Session \<Rightarrow> EndpointSnapshot list" where
  "Session_Endpoints available s =
     map (\<lambda>key. let e = the (map_of (se_endpoints s) key); p = ep_path e
                in \<lparr>es_Key = key, es_PathID = rp_PathID p, es_Generation = rp_Generation p, es_LocalAddr = addr_String (rp_LocalAddr p),
                    es_RemoteAddr = addr_String (rp_RemoteAddr p), es_LastActivity = ep_lastActivity e, es_RTT = ep_rtt e, es_HasRTT = ep_hasRTT e,
                    es_Available = (ep_healthy e \<and> available (Reply p))\<rparr>)
       (sort (map fst (se_endpoints s)))"

definition SendPaths :: "Env \<Rightarrow> Session \<Rightarrow> Path list \<times> Session" where
  "SendPaths ev s =
     (let s = snd (sweepEndpointsLocked (ev_now ev) s) in (sendPathsLocked (ev_available ev 0) (ev_now ev) s, s))"

definition SetPathHealthy :: "string \<Rightarrow> bool \<Rightarrow> Session \<Rightarrow> session_error option \<times> Session" where
  "SetPathHealthy pathID healthy s =
     (if pathID = [] then (Some ErrUnknownPath, s)
      else if se_state s = StateClosed then (Some ErrClosed, s)
      else
        let hit = (\<lambda>e. rp_PathID (ep_path e) = pathID \<or> ep_key e = pathID);
            found = (carrierByID s pathID \<noteq> None \<or> (\<exists>(key, e) \<in> set (se_endpoints s). hit e));
            s = on_carrier pathID (\<lambda>c. c\<lparr>ca_healthy := healthy\<rparr>) s;
            s = s\<lparr>se_endpoints := map (\<lambda>(key, e). (key, if hit e then e\<lparr>ep_healthy := healthy\<rparr> else e)) (se_endpoints s)\<rparr>
        in (if found then None else Some ErrUnknownPath, s))"


end
