(* ===== verification/SessionInv.thy ===== *)
theory SessionInv
  imports Session
begin

text \<open>
  The invariant of a v0.1 session: carriers within their attempts, endpoints under their own identities and
  within the limit, probes with nonzero tokens, and for every phase of the life of the session what it
  holds: nothing before it is established, the two codecs, the negotiated budget and both timers
  while it is, nothing once it is closed. Every locked section keeps it.
\<close>

subsection \<open>The decoder keeps its session\<close>

definition replay_session :: "Decoder \<Rightarrow> SessionID option" where
  "replay_session d = map_option rw_sessionID (dc_replay d)"

lemma complete_session [simp]: "rw_sessionID (complete w p) = rw_sessionID w"
  by (simp add: complete_def Let_def)

lemma replay_session_prims [simp]:
  "replay_session (bump f d) = replay_session d" "replay_session (opened now i s d) = replay_session d"
  "replay_session (stored i b d) = replay_session d" "replay_session (removePendingLocked k b d) = replay_session d"
  "replay_session (rememberCompletedLocked k now d) = replay_session d" "replay_session (d\<lparr>dc_statistics := c\<rparr>) = replay_session d"
  by (auto simp: replay_session_def bump_def opened_def stored_def pending_gauge_def removePendingLocked_def
      rememberCompletedLocked_def Let_def option.map_comp comp_def split: option.split prod.split)

lemma replay_session_sweep: "decoder_inv d \<Longrightarrow> replay_session (snd (sweepLocked now d)) = replay_session d"
  using sweepLocked_spec [of "{}" d now] by (cases "sweepLocked now d") (simp add: replay_session_def)

lemma replay_session_place: "replay_session (snd (placeShard now input b d)) = replay_session d"
proof -
  have "replay_session (snd (finishBlock now input (stored_block input b) (stored input b d))) = replay_session d"
    by (cases rule: finishBlock_cases [of now input "stored_block input b" "stored input b d"]) simp_all
  then show ?thesis by (simp add: placeShard_def split: option.split)
qed

lemma replay_session_add:
  assumes inv: "decoder_inv d"
  shows "replay_session (snd (AddVerifiedShard now input d)) = replay_session d"
  using inv
proof (cases rule: AddVerifiedShard_cases [where now = now and input = input])
  case (answered s r d')
  then show ?thesis using replay_session_sweep [OF inv, of now] by auto
next
  case (placed s b d2)
  then show ?thesis using replay_session_sweep [OF inv, of now] replay_session_place by auto
qed simp

subsection \<open>Settings\<close>

definition settings_ok :: "settings \<Rightarrow> bool" where
  "settings_ok g \<longleftrightarrow> (\<exists>config. normalizeConfig config = Inr g)"

lemma settings_okD:
  assumes "settings_ok g"
  shows "auth_key (sg_authenticator g) \<noteq> []" "0 < DataShards (sg_params g)" "DataShards (sg_params g) \<le> 255"
    "0 < ParityShards (sg_params g)" "ParityShards (sg_params g) \<le> 255" "DataShards (sg_params g) + ParityShards (sg_params g) \<le> 256"
    "72 \<le> sg_localMaxUDPPayload g" "sg_localMaxUDPPayload g \<le> 65507" "1 \<le> sg_maxDatagramSize g" "sg_maxDatagramSize g \<le> 16777216"
    "1 \<le> sg_maxEndpoints g" "sg_maxEndpoints g \<le> 256" "1 \<le> sg_maxHandshakeAttempts g" "0 < sg_decodeTimeout g" "0 < sg_endpointTTL g"
    "0 < sg_keepaliveInterval g" "0 < sg_handshakeRetryInterval g" "0 \<le> sg_handshakeJitterLimit g"
    "sg_handshakeJitterLimit g \<le> sg_handshakeRetryInterval g" "0 < sg_maxPendingFECBlocks g" "sg_handshakeJitterLimit g \<le> 60000000000"
  using assms
  by (auto simp: settings_ok_def normalizeConfig_def NewAuthenticator_def Let_def split: if_splits sum.splits)

text \<open>The handshake messages of valid settings are always well formed.\<close>

lemma settings_fields:
  assumes "settings_ok g"
  shows "unat (word_of_int (DataShards (sg_params g)) :: u8) = nat (DataShards (sg_params g))"
    "unat (word_of_int (ParityShards (sg_params g)) :: u8) = nat (ParityShards (sg_params g))"
    "unat (word_of_int (sg_localMaxUDPPayload g) :: u16) = nat (sg_localMaxUDPPayload g)"
  using settings_okD [OF assms] by (simp_all add: unat_eq_nat_uint uint_word_of_int)

lemma newHandshake_ok:
  assumes g: "settings_ok g" and i: "i \<noteq> 0" and t: "t = TypeHello \<or> t = TypeHelloAck"
  shows "newHandshake t i (word_of_int (DataShards (sg_params g))) (word_of_int (ParityShards (sg_params g))) (word_of_int (sg_localMaxUDPPayload g)) =
    Inr \<lparr>msg_Header = \<lparr>hdr_Type = t, hdr_SessionID = i\<rparr>,
       msg_Handshake = \<lparr>hs_DataShards = word_of_int (DataShards (sg_params g)), hs_ParityShards = word_of_int (ParityShards (sg_params g)),
         hs_MaxUDPPayload = word_of_int (sg_localMaxUDPPayload g)\<rparr>,
       msg_DataShard = emptyDataShard, msg_Probe = zeroProbe\<rparr>"
proof -
  note D = settings_okD [OF g] and F = settings_fields [OF g]
  have nz: "(word_of_int (DataShards (sg_params g)) :: u8) \<noteq> 0" "(word_of_int (ParityShards (sg_params g)) :: u8) \<noteq> 0"
    using F D(2,4) by (metis unat_0 nat_0_iff not_less)+
  have "validateFEC (word_of_int (DataShards (sg_params g))) (word_of_int (ParityShards (sg_params g))) = None"
    using nz F D(6) D(2,4) by (simp add: validateFEC_def)
  moreover have "validateBudget (int (unat (word_of_int (sg_localMaxUDPPayload g) :: u16))) = None"
    using F(3) D(7,8) by (simp add: validateBudget_None)
  ultimately show ?thesis
    using t i by (auto simp: newHandshake_def checked_def EncodedLen_eq validateMessage_def Let_def encodeBody_def knownPacketType_def zeroDataShard_iff)
qed

lemma newProbe_ok:
  assumes "i \<noteq> 0" "token \<noteq> 0" "t = TypePing \<or> t = TypePong"
  shows "newProbe t i token ts = Inr \<lparr>msg_Header = \<lparr>hdr_Type = t, hdr_SessionID = i\<rparr>, msg_Handshake = zeroHandshake,
      msg_DataShard = emptyDataShard, msg_Probe = \<lparr>pr_Token = token, pr_Timestamp = ts\<rparr>\<rparr>"
proof -
  let ?m = "\<lparr>msg_Header = \<lparr>hdr_Type = t, hdr_SessionID = i\<rparr>, msg_Handshake = zeroHandshake,
      msg_DataShard = emptyDataShard, msg_Probe = \<lparr>pr_Token = token, pr_Timestamp = ts\<rparr>\<rparr>"
  have "knownPacketType t" using assms(3) by (elim disjE) (simp_all add: knownPacketType_def)
  then have "validateMessage ?m = None" using assms by (elim disjE) (simp_all add: validateMessage_def zeroDataShard_iff)
  moreover have "length (encodeBody ?m) \<le> 16" using assms(3) by (elim disjE) (simp_all add: encodeBody_def)
  ultimately show ?thesis by (simp add: newProbe_def checked_def EncodedLen_eq)
qed

subsection \<open>The invariant\<close>

definition carrier_ok :: "settings \<Rightarrow> carrierState \<Rightarrow> bool" where
  "carrier_ok g c \<longleftrightarrow>
     PathID (ca_path c) \<noteq> [] \<and> 0 \<le> ca_attempts c \<and> ca_attempts c \<le> sg_maxHandshakeAttempts g \<and>
     (ca_acked c \<longrightarrow> \<not> ca_exhausted c \<and> ca_nextRetry c = None) \<and>
     (ca_exhausted c \<longrightarrow> ca_nextRetry c = None \<and> ca_attempts c = sg_maxHandshakeAttempts g)"

definition carrier_ids :: "Session \<Rightarrow> string set" where
  "carrier_ids s = (PathID \<circ> ca_path) ` set (se_carriers s)"

definition carriers_ok :: "Session \<Rightarrow> bool" where
  "carriers_ok s \<longleftrightarrow>
     distinct (map (PathID \<circ> ca_path) (se_carriers s)) \<and> int (length (se_carriers s)) \<le> 256 \<and>
     (se_role s = RoleListener \<longrightarrow> se_carriers s = []) \<and> (\<forall>c \<in> set (se_carriers s). carrier_ok (se_settings s) c)"

text \<open>An endpoint is stored under the identity of its path; an initiator's belongs to one of its carriers.\<close>

definition endpoint_ok :: "Session \<Rightarrow> string \<Rightarrow> endpointState \<Rightarrow> bool" where
  "endpoint_ok s key e \<longleftrightarrow>
     ep_key e = key \<and> replyIdentityUnchecked (Some (ep_path e)) = Inr key \<and>
     (se_role s = RoleInitiator \<longrightarrow> rp_PathID (ep_path e) \<in> carrier_ids s)"

definition endpoints_ok :: "Session \<Rightarrow> bool" where
  "endpoints_ok s \<longleftrightarrow>
     distinct (keys (se_endpoints s)) \<and> int (length (se_endpoints s)) \<le> sg_maxEndpoints (se_settings s) \<and>
     (\<forall>(key, e) \<in> set (se_endpoints s). endpoint_ok s key e)"

definition probes_ok :: "Session \<Rightarrow> bool" where
  "probes_ok s \<longleftrightarrow>
     distinct (keys (se_outstanding s)) \<and> (\<forall>(key, p) \<in> set (se_outstanding s). ob_token p \<noteq> 0) \<and>
     (se_role s = RoleInitiator \<longrightarrow> set (keys (se_outstanding s)) \<subseteq> carrier_ids s)"

definition base_ok :: "Session \<Rightarrow> bool" where
  "base_ok s \<longleftrightarrow>
     settings_ok (se_settings s) \<and> se_id s \<noteq> 0 \<and> se_nextToken s \<noteq> 0 \<and> carriers_ok s \<and> endpoints_ok s \<and> probes_ok s"

text \<open>The budget that both codecs are built for.\<close>

definition budget_of :: "Session \<Rightarrow> Budget" where
  "budget_of s = \<lparr>bg_MaxUDPPayload = min (sg_localMaxUDPPayload (se_settings s)) (se_peerMaxUDPPayload s),
     bg_DataShardWireOverhead = int DataShardOverhead, bg_MaxDatagramSize = sg_maxDatagramSize (se_settings s)\<rparr>"

definition encoder_for :: "(int \<Rightarrow> int \<Rightarrow> rs_codec option) \<Rightarrow> Session \<Rightarrow> Encoder \<Rightarrow> bool" where
  "encoder_for rs_New s e \<longleftrightarrow>
     DeriveLimits (sg_params (se_settings s)) (budget_of s) = Inr (en_limits e) \<and> en_params e = sg_params (se_settings s) \<and>
     rs_New (DataShards (sg_params (se_settings s))) (ParityShards (sg_params (se_settings s))) = Some (en_codec e) \<and>
     en_total e = DataShards (sg_params (se_settings s)) + ParityShards (sg_params (se_settings s))"

definition decoder_for :: "(int \<Rightarrow> int \<Rightarrow> rs_codec option) \<Rightarrow> Session \<Rightarrow> Decoder \<Rightarrow> bool" where
  "decoder_for rs_New s d \<longleftrightarrow>
     reachable decoder_start decoder_step d \<and> \<not> dc_closed d \<and> replay_session d = Some (se_id s) \<and>
     DeriveLimits (sg_params (se_settings s)) (budget_of s) = Inr (dc_limits d) \<and> dc_params d = sg_params (se_settings s) \<and>
     rs_New (DataShards (sg_params (se_settings s))) (ParityShards (sg_params (se_settings s))) = Some (dc_codec d) \<and>
     dc_decodeTimeout d = sg_decodeTimeout (se_settings s)"

definition idle :: "Session \<Rightarrow> bool" where
  "idle s \<longleftrightarrow>
     se_encoder s = None \<and> se_decoder s = None \<and> se_endpoints s = [] \<and> se_outstanding s = [] \<and>
     se_nextKeepalive s = None \<and> se_nextDecodeSweep s = None"

definition established :: "(int \<Rightarrow> int \<Rightarrow> rs_codec option) \<Rightarrow> Session \<Rightarrow> bool" where
  "established rs_New s \<longleftrightarrow>
     72 \<le> se_peerMaxUDPPayload s \<and> se_peerMaxUDPPayload s \<le> 65507 \<and>
     se_sendMaxUDPPayload s = min (sg_localMaxUDPPayload (se_settings s)) (se_peerMaxUDPPayload s) \<and>
     se_receiveMaxUDPPayload s = se_sendMaxUDPPayload s \<and>
     (\<exists>e. se_encoder s = Some e \<and> encoder_for rs_New s e) \<and> (\<exists>d. se_decoder s = Some d \<and> decoder_for rs_New s d) \<and>
     se_nextKeepalive s \<noteq> None \<and> se_nextDecodeSweep s \<noteq> None"

definition phase_ok :: "(int \<Rightarrow> int \<Rightarrow> rs_codec option) \<Rightarrow> Session \<Rightarrow> bool" where
  "phase_ok rs_New s =
     (case se_state s of
        StateHandshaking \<Rightarrow> se_role s = RoleInitiator \<and> idle s \<and> (\<forall>c \<in> set (se_carriers s). \<not> ca_acked c)
      | StateHandshakeFailed \<Rightarrow> se_role s = RoleInitiator \<and> idle s \<and> allCarriersExhaustedLocked s
      | StateEstablished \<Rightarrow> established rs_New s
      | StateClosed \<Rightarrow> idle s \<and> (\<forall>c \<in> set (se_carriers s). ca_nextRetry c = None))"

text \<open>Once started, every carrier is confirmed, exhausted or waits for its next attempt; before that none has been tried.\<close>

definition waiting :: "Session \<Rightarrow> bool" where
  "waiting s \<longleftrightarrow>
     (se_started s \<and> se_state s \<noteq> StateClosed \<longrightarrow> (\<forall>c \<in> set (se_carriers s). ca_acked c \<or> ca_exhausted c \<or> ca_nextRetry c \<noteq> None)) \<and>
     (\<not> se_started s \<longrightarrow> (\<forall>c \<in> set (se_carriers s). ca_attempts c = 0))"

definition session_inv :: "(int \<Rightarrow> int \<Rightarrow> rs_codec option) \<Rightarrow> Session \<Rightarrow> bool" where
  "session_inv rs_New s \<longleftrightarrow> base_ok s \<and> phase_ok rs_New s \<and> waiting s"

lemmas session_defs = session_inv_def base_ok_def carriers_ok_def endpoints_ok_def endpoint_ok_def probes_ok_def phase_ok_def idle_def
  established_def waiting_def encoder_for_def decoder_for_def budget_of_def carrier_ids_def allCarriersExhaustedLocked_def

lemma session_invD:
  assumes "session_inv rs_New s"
  shows "settings_ok (se_settings s)" "se_id s \<noteq> 0" "se_nextToken s \<noteq> 0" "carriers_ok s" "endpoints_ok s" "probes_ok s" "phase_ok rs_New s" "waiting s"
  using assms by (simp_all add: session_inv_def base_ok_def)

lemma session_invI:
  "settings_ok (se_settings s) \<Longrightarrow> se_id s \<noteq> 0 \<Longrightarrow> se_nextToken s \<noteq> 0 \<Longrightarrow> carriers_ok s \<Longrightarrow> endpoints_ok s \<Longrightarrow> probes_ok s \<Longrightarrow>
    phase_ok rs_New s \<Longrightarrow> waiting s \<Longrightarrow> session_inv rs_New s"
  by (simp add: session_inv_def base_ok_def)

subsection \<open>Changes that keep it\<close>

text \<open>Carriers may change their health.\<close>

lemma carrier_ids_map: "carrier_ids s = set (map (PathID \<circ> ca_path) (se_carriers s))"
  by (simp add: carrier_ids_def)

lemma carrier_map:
  assumes path: "\<And>c. ca_path (f c) = ca_path c"
  shows "map (PathID \<circ> ca_path) (se_carriers (on_carrier i f s)) = map (PathID \<circ> ca_path) (se_carriers s)"
    "carrier_ids (on_carrier i f s) = carrier_ids s"
proof -
  show m: "map (PathID \<circ> ca_path) (se_carriers (on_carrier i f s)) = map (PathID \<circ> ca_path) (se_carriers s)"
    using path by (simp add: on_carrier_def comp_def)
  show "carrier_ids (on_carrier i f s) = carrier_ids s" unfolding carrier_ids_map m ..
qed

lemma on_carrier_fields [simp]:
  "se_id (on_carrier i f s) = se_id s" "se_role (on_carrier i f s) = se_role s" "se_settings (on_carrier i f s) = se_settings s"
  "se_state (on_carrier i f s) = se_state s" "se_started (on_carrier i f s) = se_started s" "se_endpoints (on_carrier i f s) = se_endpoints s"
  "se_outstanding (on_carrier i f s) = se_outstanding s" "se_nextToken (on_carrier i f s) = se_nextToken s"
  "se_peerMaxUDPPayload (on_carrier i f s) = se_peerMaxUDPPayload s" "se_sendMaxUDPPayload (on_carrier i f s) = se_sendMaxUDPPayload s"
  "se_receiveMaxUDPPayload (on_carrier i f s) = se_receiveMaxUDPPayload s" "se_encoder (on_carrier i f s) = se_encoder s"
  "se_decoder (on_carrier i f s) = se_decoder s" "se_nextKeepalive (on_carrier i f s) = se_nextKeepalive s"
  "se_nextDecodeSweep (on_carrier i f s) = se_nextDecodeSweep s" "se_closeOnce (on_carrier i f s) = se_closeOnce s"
  "se_closeErr (on_carrier i f s) = se_closeErr s" "length (se_carriers (on_carrier i f s)) = length (se_carriers s)"
  by (simp_all add: on_carrier_def)

lemma set_on_carrier:
  "c' \<in> set (se_carriers (on_carrier i f s)) \<Longrightarrow> \<exists>c \<in> set (se_carriers s). c' = (if PathID (ca_path c) = i then f c else c)"
  by (auto simp: on_carrier_def)

definition same_progress :: "carrierState \<Rightarrow> carrierState \<Rightarrow> bool" where
  "same_progress c c' \<longleftrightarrow>
     ca_path c' = ca_path c \<and> ca_attempts c' = ca_attempts c \<and> ca_acked c' = ca_acked c \<and> ca_exhausted c' = ca_exhausted c \<and>
     ca_nextRetry c' = ca_nextRetry c"

lemma inv_carrier_health:
  assumes inv: "session_inv rs_New s" and f: "\<And>c. same_progress c (f c)"
  shows "session_inv rs_New (on_carrier i f s)"
proof -
  have path: "\<And>c. ca_path (f c) = ca_path c" using f by (simp add: same_progress_def)
  note C = carrier_map [where f = f and i = i and s = s, OF path]
  let ?s = "on_carrier i f s"
  have old: "\<exists>c \<in> set (se_carriers s). same_progress c c'" if "c' \<in> set (se_carriers ?s)" for c'
    using set_on_carrier [OF that] f by (auto simp: same_progress_def)
  note K = session_invD(4) [OF inv, unfolded carriers_ok_def]
  have "carrier_ok (se_settings s) c'" if c: "c' \<in> set (se_carriers ?s)" for c'
    using old [OF c] K by (auto simp: carrier_ok_def same_progress_def)
  moreover have "se_role s = RoleListener \<longrightarrow> se_carriers ?s = []" using K by (simp add: on_carrier_def)
  ultimately have "carriers_ok ?s" using K by (simp add: carriers_ok_def C(1))
  moreover have "endpoints_ok ?s" "probes_ok ?s"
    using session_invD(5,6) [OF inv] by (simp_all add: endpoints_ok_def endpoint_ok_def probes_ok_def C(2))
  moreover have "phase_ok rs_New ?s"
    using session_invD(7) [OF inv] old
    by (cases "se_state s")
       (fastforce simp: phase_ok_def idle_def established_def encoder_for_def decoder_for_def budget_of_def allCarriersExhaustedLocked_def same_progress_def)+
  moreover have "waiting ?s" unfolding waiting_def on_carrier_fields
    using session_invD(8) [OF inv, unfolded waiting_def] old [unfolded same_progress_def] by (intro conjI impI ballI) metis+
  ultimately show ?thesis using session_invD(1,2,3) [OF inv] by (intro session_invI) simp_all
qed

text \<open>Endpoints may be dropped or updated in place, and probes be dropped.\<close>

lemma phase_endpoints: "phase_ok rs_New s \<Longrightarrow> (se_endpoints s = [] \<Longrightarrow> eps = [] \<or> se_state s = StateEstablished) \<Longrightarrow> phase_ok rs_New (s\<lparr>se_endpoints := eps\<rparr>)"
  by (cases "se_state s")
     (auto simp: phase_ok_def idle_def established_def encoder_for_def decoder_for_def budget_of_def allCarriersExhaustedLocked_def)

lemma phase_probes: "phase_ok rs_New s \<Longrightarrow> (se_outstanding s = [] \<Longrightarrow> ps = [] \<or> se_state s = StateEstablished) \<Longrightarrow> phase_ok rs_New (s\<lparr>se_outstanding := ps\<rparr>)"
  by (cases "se_state s")
     (auto simp: phase_ok_def idle_def established_def encoder_for_def decoder_for_def budget_of_def allCarriersExhaustedLocked_def)

lemma inv_endpoints:
  assumes inv: "session_inv rs_New s" and d: "distinct (keys eps)" and n: "int (length eps) \<le> sg_maxEndpoints (se_settings s)"
    and ok: "\<And>key e. (key, e) \<in> set eps \<Longrightarrow> endpoint_ok s key e" and e: "se_endpoints s = [] \<Longrightarrow> eps = [] \<or> se_state s = StateEstablished"
  shows "session_inv rs_New (s\<lparr>se_endpoints := eps\<rparr>)"
proof -
  have "endpoints_ok (s\<lparr>se_endpoints := eps\<rparr>)" using d n ok by (auto simp: endpoints_ok_def endpoint_ok_def carrier_ids_def)
  moreover have "phase_ok rs_New (s\<lparr>se_endpoints := eps\<rparr>)" by (rule phase_endpoints [OF session_invD(7) [OF inv] e])
  ultimately show ?thesis
    using session_invD(1-4,6,8) [OF inv] by (intro session_invI) (simp_all add: carriers_ok_def probes_ok_def waiting_def carrier_ids_def)
qed

lemma inv_drop_endpoints:
  assumes inv: "session_inv rs_New s" and eps: "eps = filter P (se_endpoints s)"
  shows "session_inv rs_New (s\<lparr>se_endpoints := eps\<rparr>)"
proof (rule inv_endpoints [OF inv])
  have E: "distinct (keys (se_endpoints s))" "int (length (se_endpoints s)) \<le> sg_maxEndpoints (se_settings s)"
    "\<forall>(key, e) \<in> set (se_endpoints s). endpoint_ok s key e" using session_invD(5) [OF inv] by (simp_all add: endpoints_ok_def)
  show "distinct (keys eps)" using E(1) by (simp add: eps distinct_map_filter)
  show "int (length eps) \<le> sg_maxEndpoints (se_settings s)" using E(2) length_filter_le [of P "se_endpoints s"] unfolding eps by linarith
  show "endpoint_ok s key e" if "(key, e) \<in> set eps" for key e using E(3) that by (auto simp: eps)
qed (simp add: eps)

lemma inv_probes:
  assumes inv: "session_inv rs_New s" and d: "distinct (keys ps)" and t: "\<And>key p. (key, p) \<in> set ps \<Longrightarrow> ob_token p \<noteq> 0"
    and k: "se_role s = RoleInitiator \<Longrightarrow> set (keys ps) \<subseteq> carrier_ids s" and e: "se_outstanding s = [] \<Longrightarrow> ps = [] \<or> se_state s = StateEstablished"
  shows "session_inv rs_New (s\<lparr>se_outstanding := ps\<rparr>)"
proof -
  have "probes_ok (s\<lparr>se_outstanding := ps\<rparr>)" using d t k by (auto simp: probes_ok_def carrier_ids_def)
  moreover have "phase_ok rs_New (s\<lparr>se_outstanding := ps\<rparr>)" by (rule phase_probes [OF session_invD(7) [OF inv] e])
  ultimately show ?thesis
    using session_invD(1-5,8) [OF inv] by (intro session_invI) (simp_all add: carriers_ok_def endpoints_ok_def endpoint_ok_def waiting_def carrier_ids_def)
qed

lemma inv_drop_probe:
  assumes inv: "session_inv rs_New s"
  shows "session_inv rs_New (s\<lparr>se_outstanding := AList.delete key (se_outstanding s)\<rparr>)"
proof (rule inv_probes [OF inv])
  have P: "probes_ok s" using inv by (rule session_invD)
  show "distinct (keys (AList.delete key (se_outstanding s)))" using P by (simp add: probes_ok_def distinct_delete)
  show "ob_token p \<noteq> 0" if "(k, p) \<in> set (AList.delete key (se_outstanding s))" for k p using P that by (auto simp: probes_ok_def set_delete)
  show "set (keys (AList.delete key (se_outstanding s))) \<subseteq> carrier_ids s" if "se_role s = RoleInitiator"
    using P that by (auto simp: probes_ok_def set_delete)
qed simp

lemma inv_on_endpoint:
  assumes inv: "session_inv rs_New s" and f: "\<And>e. ep_key (f e) = ep_key e"
    and p: "\<And>e. map_of (se_endpoints s) key = Some e \<Longrightarrow> endpoint_ok s key (f e)"
  shows "session_inv rs_New (on_endpoint key f s)"
proof (cases "map_of (se_endpoints s) key")
  case (Some e)
  have E: "distinct (keys (se_endpoints s))" "int (length (se_endpoints s)) \<le> sg_maxEndpoints (se_settings s)"
    "\<forall>(key, e) \<in> set (se_endpoints s). endpoint_ok s key e" using session_invD(5) [OF inv] by (simp_all add: endpoints_ok_def)
  have "session_inv rs_New (s\<lparr>se_endpoints := AList.update key (f e) (se_endpoints s)\<rparr>)"
  proof (rule inv_endpoints [OF inv])
    show "distinct (keys (AList.update key (f e) (se_endpoints s)))" using E(1) by (rule distinct_keys_update)
    show "int (length (AList.update key (f e) (se_endpoints s))) \<le> sg_maxEndpoints (se_settings s)"
      using E(1,2) length_update_old [OF E(1) Some] by simp
    show "endpoint_ok s k x" if "(k, x) \<in> set (AList.update key (f e) (se_endpoints s))" for k x
      using that E(3) p [OF Some] unfolding set_update_old [OF E(1) Some] by auto
  qed (use Some in simp)
  then show ?thesis by (simp add: on_endpoint_def Some)
qed (simp add: on_endpoint_def inv)


subsection \<open>Sweeping and learning\<close>

text \<open>What sweeping, learning and the results of sends may touch: endpoints, probes, and the health of
  carriers.\<close>

definition quiet :: "Session \<Rightarrow> Session \<Rightarrow> bool" where
  "quiet s s' \<longleftrightarrow>
     (\<exists>cs eps ps. s' = s\<lparr>se_carriers := cs, se_endpoints := eps, se_outstanding := ps\<rparr> \<and> list_all2 same_progress (se_carriers s) cs)"

lemma same_progress_refl [simp]: "same_progress c c"
  by (simp add: same_progress_def)

lemma quietI: "list_all2 same_progress (se_carriers s) cs \<Longrightarrow> quiet s (s\<lparr>se_carriers := cs, se_endpoints := eps, se_outstanding := ps\<rparr>)"
  by (auto simp: quiet_def)

lemma quiet_refl [simp, intro]: "quiet s s"
  unfolding quiet_def by (intro exI [of _ "se_carriers s"] exI [of _ "se_endpoints s"] exI [of _ "se_outstanding s"]) (simp add: list.rel_refl)

lemma quiet_trans [trans]:
  assumes "quiet s t" "quiet t u"
  shows "quiet s u"
proof -
  obtain cs eps ps where t: "t = s\<lparr>se_carriers := cs, se_endpoints := eps, se_outstanding := ps\<rparr>" and a: "list_all2 same_progress (se_carriers s) cs"
    using assms(1) by (auto simp: quiet_def)
  obtain cs' eps' ps' where u: "u = t\<lparr>se_carriers := cs', se_endpoints := eps', se_outstanding := ps'\<rparr>" and b: "list_all2 same_progress cs cs'"
    using assms(2) by (auto simp: quiet_def t)
  have "list_all2 same_progress (se_carriers s) cs'" by (rule list_all2_trans [OF _ a b]) (simp add: same_progress_def)
  then show ?thesis using quietI [where s = s and cs = cs' and eps = eps' and ps = ps'] by (simp add: t u)
qed

lemma quiet_fields:
  assumes "quiet s s'"
  shows "se_id s' = se_id s" "se_role s' = se_role s" "se_settings s' = se_settings s" "se_state s' = se_state s" "se_started s' = se_started s"
    "se_nextToken s' = se_nextToken s" "se_peerMaxUDPPayload s' = se_peerMaxUDPPayload s" "se_sendMaxUDPPayload s' = se_sendMaxUDPPayload s"
    "se_receiveMaxUDPPayload s' = se_receiveMaxUDPPayload s" "se_encoder s' = se_encoder s" "se_decoder s' = se_decoder s"
    "se_nextKeepalive s' = se_nextKeepalive s" "se_nextDecodeSweep s' = se_nextDecodeSweep s" "list_all2 same_progress (se_carriers s) (se_carriers s')"
  using assms by (auto simp: quiet_def)

lemma quiet_ids:
  assumes "quiet s s'"
  shows "carrier_ids s' = carrier_ids s" "map (PathID \<circ> ca_path) (se_carriers s') = map (PathID \<circ> ca_path) (se_carriers s)"
proof -
  have *: "map (PathID \<circ> ca_path) ys = map (PathID \<circ> ca_path) xs" if "list_all2 same_progress xs ys" for xs ys
    using that by induction (simp_all add: same_progress_def)
  show m: "map (PathID \<circ> ca_path) (se_carriers s') = map (PathID \<circ> ca_path) (se_carriers s)" by (rule * [OF quiet_fields(14) [OF assms]])
  show "carrier_ids s' = carrier_ids s" unfolding carrier_ids_map m ..
qed

lemma quiet_endpoints [simp]: "quiet s (s\<lparr>se_endpoints := eps\<rparr>)"
  using quietI [where s = s and cs = "se_carriers s" and eps = eps and ps = "se_outstanding s"] by (simp add: list.rel_refl)

lemma quiet_probes [simp]: "quiet s (s\<lparr>se_outstanding := ps\<rparr>)"
  using quietI [where s = s and cs = "se_carriers s" and eps = "se_endpoints s" and ps = ps] by (simp add: list.rel_refl)

lemma quiet_on_carrier: "(\<And>c. same_progress c (f c)) \<Longrightarrow> quiet s (on_carrier i f s)"
  using quietI [where s = s and cs = "se_carriers (on_carrier i f s)" and eps = "se_endpoints s" and ps = "se_outstanding s"]
  by (simp add: on_carrier_def list_all2_map2 list.rel_refl)

lemma quiet_on_endpoint [simp]: "quiet s (on_endpoint key f s)"
  by (simp add: on_endpoint_def split: option.split)

lemma same_progress_health [simp]: "same_progress c (c\<lparr>ca_healthy := b\<rparr>)"
  by (simp add: same_progress_def)

lemma drop_expired_keeps: "session_inv rs_New s \<Longrightarrow> session_inv rs_New (drop_expired es s) \<and> quiet s (drop_expired es s)"
proof (induction es arbitrary: s)
  case (Cons x es)
  obtain key e where x: "x = (key, e)" by (cases x)
  let ?a = "s\<lparr>se_endpoints := AList.delete key (se_endpoints s)\<rparr>"
  have a: "session_inv rs_New ?a" by (rule inv_drop_endpoints [OF Cons.prems]) (simp add: AList.delete_eq)
  let ?b = "if se_role ?a = RoleListener then ?a\<lparr>se_outstanding := AList.delete key (se_outstanding ?a)\<rparr>
    else on_carrier (rp_PathID (ep_path e)) (\<lambda>c. c\<lparr>ca_healthy := False\<rparr>) ?a"
  have "session_inv rs_New ?b" using inv_drop_probe [OF a, of key] inv_carrier_health [OF a] by auto
  moreover have "quiet ?a ?b" using quiet_on_carrier quiet_probes by auto
  ultimately show ?case using Cons.IH [of ?b] quiet_trans quiet_endpoints unfolding x drop_expired.simps Let_def by blast
qed simp

lemma sweepEndpointsLocked_keeps:
  "session_inv rs_New s \<Longrightarrow> session_inv rs_New (snd (sweepEndpointsLocked now s)) \<and> quiet s (snd (sweepEndpointsLocked now s))"
  by (simp add: sweepEndpointsLocked_def Let_def drop_expired_keeps)

lemma canLearnEndpointLocked_keeps:
  assumes inv: "session_inv rs_New s" and r: "canLearnEndpointLocked available key path now s = (r, s')"
  shows "session_inv rs_New s'" "quiet s s'"
    "r = None \<Longrightarrow> map_of (se_endpoints s') key \<noteq> None \<or> int (length (se_endpoints s')) < sg_maxEndpoints (se_settings s')"
    "r = None \<or> r = Some ErrEndpointLimit"
proof -
  define a where "a = snd (sweepEndpointsLocked now s)"
  define P where "P = (\<lambda>(oldKey :: string, e :: endpointState). \<not> (rp_PathID (ep_path e) = rp_PathID path \<and> \<not> available (Reply (ep_path e))))"
  define b where "b = (if se_role a = RoleInitiator then a\<lparr>se_endpoints := filter P (se_endpoints a)\<rparr> else a)"
  have a: "session_inv rs_New a" "quiet s a" using sweepEndpointsLocked_keeps [OF inv] by (simp_all add: a_def)
  have b: "session_inv rs_New b" using a(1) inv_drop_endpoints [OF a(1) refl] by (simp add: b_def)
  have qb: "quiet s b" using a(2) quiet_trans [OF a(2) quiet_endpoints] by (simp add: b_def)
  have eq: "canLearnEndpointLocked available key path now s =
      (if map_of (se_endpoints a) key \<noteq> None then (None, a)
       else if int (length (se_endpoints b)) \<ge> sg_maxEndpoints (se_settings b) then (Some ErrEndpointLimit, b) else (None, b))"
    by (simp only: canLearnEndpointLocked_def Let_def a_def b_def P_def)
  consider "map_of (se_endpoints a) key \<noteq> None" "r = None" "s' = a"
    | "int (length (se_endpoints b)) \<ge> sg_maxEndpoints (se_settings b)" "r = Some ErrEndpointLimit" "s' = b"
    | "int (length (se_endpoints b)) < sg_maxEndpoints (se_settings b)" "r = None" "s' = b"
    using r unfolding eq by (metis (no_types) not_le prod.inject)
  then show "session_inv rs_New s'" "quiet s s'"
    "r = None \<Longrightarrow> map_of (se_endpoints s') key \<noteq> None \<or> int (length (se_endpoints s')) < sg_maxEndpoints (se_settings s')"
    "r = None \<or> r = Some ErrEndpointLimit"
    using a b qb by (cases, simp_all)+
qed

text \<open>Learning a path under its identity, in a session that is established.\<close>

definition learnable :: "string \<Rightarrow> ReplyPath \<Rightarrow> Session \<Rightarrow> bool" where
  "learnable key path s \<longleftrightarrow>
     replyIdentityUnchecked (Some path) = Inr key \<and> (se_role s = RoleInitiator \<longrightarrow> rp_PathID path \<in> carrier_ids s)"

lemma learnable_quiet: "quiet s s' \<Longrightarrow> learnable key path s' = learnable key path s"
  by (simp add: learnable_def quiet_fields quiet_ids)

lemma learnEndpointLocked_keeps:
  assumes inv: "session_inv rs_New s" and est: "se_state s = StateEstablished" and path: "learnable key path s"
    and r: "learnEndpointLocked available key path now s = (r, s')"
  shows "session_inv rs_New s'" "quiet s s'" "r = Inl ErrEndpointLimit \<or> (\<exists>flags. r = Inr flags \<and> map_of (se_endpoints s') key \<noteq> None)"
proof -
  obtain q a where q: "canLearnEndpointLocked available key path now s = (q, a)" by (cases "canLearnEndpointLocked available key path now s")
  note C = canLearnEndpointLocked_keeps [OF inv q]
  note F = quiet_fields [OF C(2)]
  have la: "learnable key path a" using path by (simp add: learnable_quiet [OF C(2)])
  note E = session_invD(5) [OF C(1), unfolded endpoints_ok_def]
  let ?h = "on_carrier (rp_PathID path) (\<lambda>c. c\<lparr>ca_healthy := True\<rparr>)"
  let ?new = "\<lparr>ep_key = key, ep_path = path, ep_lastActivity = now, ep_rtt = 0, ep_hasRTT = False, ep_healthy = True\<rparr>"
  let ?f = "\<lambda>e. e\<lparr>ep_path := path, ep_lastActivity := now, ep_healthy := True\<rparr>"
  consider "q = Some ErrEndpointLimit" "r = Inl ErrEndpointLimit" "s' = a"
    | e where "q = None" "map_of (se_endpoints a) key = Some e" "r = Inr (False, True)" "s' = ?h (on_endpoint key ?f a)"
    | "q = None" "map_of (se_endpoints a) key = None" "r = Inr (True, False)" "s' = ?h (a\<lparr>se_endpoints := AList.update key ?new (se_endpoints a)\<rparr>)"
    using r C(4) by (auto simp: learnEndpointLocked_def q split: option.splits)
  then have "session_inv rs_New s' \<and> quiet s s' \<and> (r = Inl ErrEndpointLimit \<or> (\<exists>flags. r = Inr flags \<and> map_of (se_endpoints s') key \<noteq> None))"
  proof cases
    case 1
    then show ?thesis using C by simp
  next
    case (2 e)
    have m: "(key, e) \<in> set (se_endpoints a)" using 2(2) by (rule map_of_SomeD)
    have "session_inv rs_New (on_endpoint key ?f a)"
      by (rule inv_on_endpoint [OF C(1)]) (use m E la in \<open>auto simp: endpoint_ok_def learnable_def\<close>)
    then have "session_inv rs_New s'" using inv_carrier_health unfolding 2 by simp
    moreover have "quiet s s'" unfolding 2 by (rule quiet_trans [OF quiet_trans [OF C(2) quiet_on_endpoint] quiet_on_carrier]) simp
    moreover have "map_of (se_endpoints s') key \<noteq> None" unfolding 2 by (simp add: on_endpoint_def 2(2) update_conv)
    ultimately show ?thesis using 2(3) by blast
  next
    case 3
    let ?t = "a\<lparr>se_endpoints := AList.update key ?new (se_endpoints a)\<rparr>"
    have "session_inv rs_New ?t"
    proof (rule inv_endpoints [OF C(1)])
      show "distinct (keys (AList.update key ?new (se_endpoints a)))" using E by (simp add: distinct_keys_update)
      show "int (length (AList.update key ?new (se_endpoints a))) \<le> sg_maxEndpoints (se_settings a)" using C(3) 3(1,2) by (simp add: length_update_new)
      show "endpoint_ok a k x" if "(k, x) \<in> set (AList.update key ?new (se_endpoints a))" for k x
        using that E la 3(2) by (auto simp: update_new endpoint_ok_def learnable_def)
    qed (simp add: F(4) est)
    then have "session_inv rs_New s'" using inv_carrier_health unfolding 3 by simp
    moreover have "quiet s s'" unfolding 3 by (rule quiet_trans [OF quiet_trans [OF C(2) quiet_endpoints] quiet_on_carrier]) simp
    moreover have "map_of (se_endpoints s') key \<noteq> None" unfolding 3 by (simp add: update_conv)
    ultimately show ?thesis using 3(3) by blast
  qed
  then show "session_inv rs_New s'" "quiet s s'" "r = Inl ErrEndpointLimit \<or> (\<exists>flags. r = Inr flags \<and> map_of (se_endpoints s') key \<noteq> None)"
    by simp_all
qed

text \<open>A session that holds nothing always has room for its first path.\<close>

lemma learn_first:
  assumes inv: "session_inv rs_New s" and e: "se_endpoints s = []"
  shows "fst (learnEndpointLocked available key path now s) = Inr (True, False)"
proof -
  have m: "sg_maxEndpoints (se_settings s) \<ge> 1" using settings_okD(11) [OF session_invD(1) [OF inv]] .
  have sw: "sweepEndpointsLocked now s = (0, s)" by (simp add: sweepEndpointsLocked_def e)
  have "fst (canLearnEndpointLocked available key path now s) = None" "se_endpoints (snd (canLearnEndpointLocked available key path now s)) = []"
    using m by (simp_all add: canLearnEndpointLocked_def Let_def sw e)
  then show ?thesis by (cases "canLearnEndpointLocked available key path now s") (simp add: learnEndpointLocked_def)
qed

end
