(* ===== verification/SessionListener.thy ===== *)
theory SessionListener
  imports Session
begin

text \<open>
  The registry of the v0.1 listener (\<^verbatim>\<open>src/internal/session/listener.go\<close>): authenticated packets are dispatched to
  the session of their identifier, and only a compatible HELLO creates one. The sessions are stored in
  the registry by value; the callback \<open>onClose\<close> of a session that a CLOSE packet has closed removes it.
  The check of the reply path before the registry is consulted is the third time a call looks at it. A call of
  \<open>HandlePacket\<close> is one step of the registry; a session that is closed between its creation and its first answer
  (an \<open>ErrClosed\<close> of the code) does not occur in it.
\<close>

record Listener =
  li_settings :: settings
  li_maxSessions :: int
  li_sessions :: "(SessionID \<times> Session) list"
  li_closed :: bool
  li_closeErr :: "session_error list"

record ListenerStats =
  lt_Sessions :: nat
  lt_Endpoints :: nat
  lt_OutstandingProbes :: nat
  lt_LogicalDeadlines :: nat

record SessionAdvance =
  sv_SessionID :: SessionID
  sv_Result :: AdvanceResult
  sv_Err :: "session_error option"

definition NewListener :: "Config \<Rightarrow> int \<Rightarrow> (session_error, Listener) result" where
  "NewListener config maxSessions =
     (case normalizeConfig config of
        Inl err \<Rightarrow> Inl err
      | Inr settings \<Rightarrow>
          if maxSessions \<le> 0 \<or> maxSessions > 65536 then Inl ErrInvalidConfig
          else Inr \<lparr>li_settings = settings, li_maxSessions = maxSessions, li_sessions = [], li_closed = False, li_closeErr = []\<rparr>)"

definition validateHandshakeSettings :: "settings \<Rightarrow> Handshake \<Rightarrow> session_error option" where
  "validateHandshakeSettings g h =
     (case validateHandshake g h of
        Some err \<Rightarrow> Some err
      | None \<Rightarrow>
          (case DeriveLimits (sg_params g)
                  \<lparr>bg_MaxUDPPayload = min (sg_localMaxUDPPayload g) (int (unat (hs_MaxUDPPayload h))),
                   bg_DataShardWireOverhead = int DataShardOverhead, bg_MaxDatagramSize = sg_maxDatagramSize g\<rparr> of
             Inl err \<Rightarrow> Some ErrHandshakeIncompatible
           | Inr _ \<Rightarrow> None))"

definition emptyListenerSession :: "SessionID \<Rightarrow> settings \<Rightarrow> Session" where
  "emptyListenerSession i g =
     \<lparr>se_id = i, se_role = RoleListener, se_settings = g, se_state = StateHandshaking, se_started = True,
      se_carriers = [], se_endpoints = [], se_outstanding = [], se_nextToken = initialToken i,
      se_peerMaxUDPPayload = 0, se_sendMaxUDPPayload = 0, se_receiveMaxUDPPayload = 0,
      se_encoder = None, se_decoder = None, se_nextKeepalive = None, se_nextDecodeSweep = None,
      se_closeOnce = False, se_closeErr = None\<rparr>"

definition newListenerSession ::
    "(int \<Rightarrow> int \<Rightarrow> rs_codec option) \<Rightarrow> Env \<Rightarrow> SessionID \<Rightarrow> settings \<Rightarrow> Handshake \<Rightarrow> string \<Rightarrow> ReplyPath \<Rightarrow> (session_error, Session) result" where
  "newListenerSession rs_New ev i g h endpointKey path =
     (case establishLocked rs_New h (ev_now ev) (emptyListenerSession i g) of
        (Some err, _) \<Rightarrow> Inl err
      | (None, s) \<Rightarrow>
          (case learnEndpointLocked (ev_available ev 1) endpointKey path (ev_now ev) s of
             (Inl err, _) \<Rightarrow> Inl err
           | (Inr _, s) \<Rightarrow> Inr s))"

definition removeSession :: "SessionID \<Rightarrow> Listener \<Rightarrow> Listener" where
  "removeSession i l = l\<lparr>li_sessions := AList.delete i (li_sessions l)\<rparr>"

definition storeSession :: "Session \<Rightarrow> Listener \<Rightarrow> Listener" where
  "storeSession s l = l\<lparr>li_sessions := AList.update (se_id s) s (li_sessions l)\<rparr>"

text \<open>A packet for a session that is in the registry.\<close>

definition dispatch_existing ::
    "(int \<Rightarrow> int \<Rightarrow> rs_codec option) \<Rightarrow> Env \<Rightarrow> network \<Rightarrow> ReceivedPacket \<Rightarrow> Message \<Rightarrow> string \<Rightarrow> Session \<Rightarrow> Listener \<Rightarrow>
      (SessionID option \<times> HandleResult \<times> session_error option) \<times> Listener" where
  "dispatch_existing rs_New ev net packet m key existing l =
     (case handleAuthenticatedWithIdentity rs_New ev net packet m key existing of
        (result, err, s) \<Rightarrow>
          ((Some (se_id existing), result, err),
           if err = None \<and> hdr_Type (msg_Header m) = TypeClose then removeSession (se_id existing) l else storeSession s l))"

text \<open>A HELLO for an identifier that is not in the registry.\<close>

definition create_session ::
    "(int \<Rightarrow> int \<Rightarrow> rs_codec option) \<Rightarrow> Env \<Rightarrow> network \<Rightarrow> Message \<Rightarrow> string \<Rightarrow> ReplyPath \<Rightarrow> Listener \<Rightarrow>
      (SessionID option \<times> HandleResult \<times> session_error option) \<times> Listener" where
  "create_session rs_New ev net m key reply l =
     (let g = li_settings l; i = hdr_SessionID (msg_Header m)
      in case newListenerSession rs_New ev i g (msg_Handshake m) key reply of
           Inl err \<Rightarrow> ((None, newResult m, Some err), l)
         | Inr s \<Rightarrow>
             let result = (newResult m)\<lparr>hr_Created := True, hr_Established := True, hr_EndpointAdded := True\<rparr>;
                 path = ep_path (the (map_of (se_endpoints s) key))
             in case NewHelloAck i (word_of_int (DataShards (sg_params g))) (word_of_int (ParityShards (sg_params g)))
                       (word_of_int (sg_localMaxUDPPayload g)) of
                  Inl err \<Rightarrow> ((Some i, result, Some (WireError err)), storeSession s l)
                | Inr ack \<Rightarrow>
                    (case execute net True 0 [\<lparr>pn_message = ack, pn_path = Reply path, pn_budget = se_sendMaxUDPPayload s,
                              pn_probeKey = [], pn_probe = \<lparr>ob_token = 0, ob_timestamp = 0, ob_sentAt = 0\<rparr>\<rparr>] s of
                       (attempts, s) \<Rightarrow> ((Some i, result\<lparr>hr_Response := Some (hd attempts)\<rparr>, None), storeSession s l)))"

definition Listener_HandlePacket ::
    "(int \<Rightarrow> int \<Rightarrow> rs_codec option) \<Rightarrow> ctx \<Rightarrow> Env \<Rightarrow> network \<Rightarrow> ReceivedPacket \<Rightarrow> Listener \<Rightarrow>
      (SessionID option \<times> HandleResult \<times> session_error option) \<times> Listener" where
  "Listener_HandlePacket rs_New c ev net packet l =
     (case check_context c of
        Some err \<Rightarrow> ((None, newResult zeroMessage, Some err), l)
      | None \<Rightarrow>
          (case Authenticator_Decode (Some (sg_authenticator (li_settings l))) (rc_Payload packet) (sg_localMaxUDPPayload (li_settings l)) of
             (Inl err, _) \<Rightarrow> ((None, newResult zeroMessage, Some (WireError err)), l)
           | (Inr m, _) \<Rightarrow>
               (case (replyIdentity (ev_available ev 3) (rc_Reply packet), rc_Reply packet) of
                  (Inr key, Some reply) \<Rightarrow>
                    if li_closed l then ((None, newResult m, Some ErrClosed), l)
                    else
                      (case map_of (li_sessions l) (hdr_SessionID (msg_Header m)) of
                         Some existing \<Rightarrow> dispatch_existing rs_New ev net packet m key existing l
                       | None \<Rightarrow>
                           if hdr_Type (msg_Header m) \<noteq> TypeHello then ((None, newResult m, Some ErrUnknownSession), l)
                           else
                             (case validateHandshakeSettings (li_settings l) (msg_Handshake m) of
                                Some err \<Rightarrow> ((None, newResult m, Some err), l)
                              | None \<Rightarrow>
                                  if int (length (li_sessions l)) \<ge> li_maxSessions l then ((None, newResult m, Some ErrSessionLimit), l)
                                  else create_session rs_New ev net m key reply l))
                | _ \<Rightarrow> ((None, newResult m, Some ErrInvalidReplyPath), l))))"

text \<open>\<open>Advance\<close> drives the sessions in the order of their identifiers; a session can meet a clock, paths and
  a network of its own.\<close>

fun advance_sessions ::
    "ctx \<Rightarrow> (SessionID \<Rightarrow> Env) \<Rightarrow> (SessionID \<Rightarrow> network) \<Rightarrow> SessionID list \<Rightarrow> Listener \<Rightarrow> SessionAdvance list \<times> Listener" where
  "advance_sessions c ev net [] l = ([], l)"
| "advance_sessions c ev net (i # ids) l =
     (case map_of (li_sessions l) i of
        None \<Rightarrow> advance_sessions c ev net ids l
      | Some s \<Rightarrow>
          (case Advance c (ev i) (net i) s of
             (result, err, s) \<Rightarrow>
               (case advance_sessions c ev net ids (storeSession s l) of
                  (results, l) \<Rightarrow> (\<lparr>sv_SessionID = i, sv_Result = result, sv_Err = err\<rparr> # results, l))))"

definition Listener_Advance :: "ctx \<Rightarrow> (SessionID \<Rightarrow> Env) \<Rightarrow> (SessionID \<Rightarrow> network) \<Rightarrow> Listener \<Rightarrow> SessionAdvance list \<times> Listener" where
  "Listener_Advance c ev net l =
     (if c = NilContext then
        ([\<lparr>sv_SessionID = 0, sv_Result = \<lparr>ar_Sends = [], ar_ExpiredEndpoints = 0, ar_ExpiredFEC = noExpired, ar_HandshakeFailed = False\<rparr>,
           sv_Err = Some ErrInvalidConfig\<rparr>], l)
      else advance_sessions c ev net (sort (map fst (li_sessions l))) l)"

definition Listener_Session :: "SessionID \<Rightarrow> Listener \<Rightarrow> Session option" where
  "Listener_Session i l = map_of (li_sessions l) i"

definition Listener_Stats :: "Listener \<Rightarrow> ListenerStats" where
  "Listener_Stats l =
     (let snapshots = map (SnapshotSession \<circ> snd) (li_sessions l)
      in \<lparr>lt_Sessions = length snapshots, lt_Endpoints = sum_list (map ss_Endpoints snapshots),
          lt_OutstandingProbes = sum_list (map ss_OutstandingProbes snapshots),
          lt_LogicalDeadlines = length (filter (\<lambda>x. ss_NextDeadline x \<noteq> None) snapshots)\<rparr>)"

text \<open>\<open>errors.Join\<close> is the list of the errors. The sessions that \<open>Close\<close> has closed are returned for the statements below; a
  second call changes nothing and returns the first one's errors.\<close>

definition Listener_Close ::
    "ctx \<Rightarrow> (SessionID \<Rightarrow> Env) \<Rightarrow> (SessionID \<Rightarrow> network) \<Rightarrow> Listener \<Rightarrow> (session_error list \<times> Session list) \<times> Listener" where
  "Listener_Close c ev net l =
     (if c = NilContext then (([ErrInvalidConfig], []), l)
      else if li_closed l then ((li_closeErr l, []), l)
      else
        let results = map (\<lambda>(i, s). CloseSession c (ev i) (net i) s) (li_sessions l);
            failures = List.map_filter fst results
        in ((failures, map (snd \<circ> snd) results), l\<lparr>li_closed := True, li_sessions := [], li_closeErr := failures\<rparr>))"

end
