(* ===== verification/SessionSteps.thy ===== *)
theory SessionSteps
  imports SessionInv SessionListener
begin

text \<open>
  Every locked section of a v0.1 session keeps the invariant of \<open>SessionInv\<close>, and no section moves a session
  back in its life.
\<close>

subsection \<open>Establishing\<close>

lemma NewEncoder_fields:
  assumes "NewEncoder rs_New params budget = Inr e"
  shows "DeriveLimits params budget = Inr (en_limits e)" "en_params e = params"
    "rs_New (DataShards params) (ParityShards params) = Some (en_codec e)" "en_total e = DataShards params + ParityShards params"
  using assms
  by (auto simp: NewEncoder_def newEncoderAt_def newCodec_def validateParams_def split: sum.splits option.splits if_splits)

lemma NewDecoder_fields:
  assumes "NewDecoder rs_New config = Inr d"
  shows "DeriveLimits (cf_Params config) (cf_Budget config) = Inr (dc_limits d)" "dc_params d = cf_Params config"
    "rs_New (DataShards (cf_Params config)) (ParityShards (cf_Params config)) = Some (dc_codec d)"
    "dc_decodeTimeout d = cf_DecodeTimeout config" "\<not> dc_closed d" "replay_session d = cf_ReplayWindow config"
    "cf_Statistics config = None \<Longrightarrow> reachable decoder_start decoder_step d"
proof -
  show "reachable decoder_start decoder_step d" if "cf_Statistics config = None"
  proof (rule reach_start)
    have "gauges_ok (cf_Statistics config) 0 0 0" by (simp add: that gauges_ok_def)
    with assms show "decoder_start d" unfolding decoder_start_def by blast
  qed
qed (use assms in \<open>auto simp: NewDecoder_def newCodec_def replay_session_def newReplayWindow_def option.map_comp comp_def option.map_ident
      split: sum.splits option.splits if_splits\<close>)

lemma validateHandshake_None:
  "validateHandshake g h = None \<longleftrightarrow>
     int (unat (hs_DataShards h)) = DataShards (sg_params g) \<and> int (unat (hs_ParityShards h)) = ParityShards (sg_params g) \<and>
     72 \<le> unat (hs_MaxUDPPayload h) \<and> unat (hs_MaxUDPPayload h) \<le> 65507"
  by (auto simp: validateHandshake_def)

definition established_with :: "Handshake \<Rightarrow> int \<Rightarrow> Encoder \<Rightarrow> Decoder \<Rightarrow> Session \<Rightarrow> Session" where
  "established_with h now encoder decoder s =
     (let negotiated = min (sg_localMaxUDPPayload (se_settings s)) (int (unat (hs_MaxUDPPayload h)))
      in s\<lparr>se_peerMaxUDPPayload := int (unat (hs_MaxUDPPayload h)), se_sendMaxUDPPayload := negotiated,
           se_receiveMaxUDPPayload := negotiated, se_encoder := Some encoder, se_decoder := Some decoder,
           se_state := StateEstablished, se_nextKeepalive := Some (now + sg_keepaliveInterval (se_settings s)),
           se_nextDecodeSweep := Some (now + sg_decodeTimeout (se_settings s))\<rparr>)"

lemma establishLocked_cases:
  assumes "establishLocked rs_New h now s = (err, s')"
  obtains (failed) "err = Some ErrHandshakeIncompatible" "s' = s"
  | (done_with) encoder decoder where "err = None" "validateHandshake (se_settings s) h = None" "s' = established_with h now encoder decoder s"
      "encoder_for rs_New s' encoder" "decoder_for rs_New s' decoder"
proof (cases "validateHandshake (se_settings s) h")
  case (Some e)
  then have "e = ErrHandshakeIncompatible" by (auto simp: validateHandshake_def split: if_splits)
  with Some show thesis using assms by (intro failed) (auto simp: establishLocked_def)
next
  case None
  let ?g = "se_settings s"
  let ?b = "\<lparr>bg_MaxUDPPayload = min (sg_localMaxUDPPayload ?g) (int (unat (hs_MaxUDPPayload h))),
     bg_DataShardWireOverhead = int DataShardOverhead, bg_MaxDatagramSize = sg_maxDatagramSize ?g\<rparr>"
  let ?c = "\<lparr>cf_Params = sg_params ?g, cf_Budget = ?b, cf_DecodeTimeout = sg_decodeTimeout ?g, cf_CompletionTTL = sg_completionTTL ?g,
     cf_MaxPendingBlocks = sg_maxPendingFECBlocks ?g, cf_MaxCompletedBlocks = sg_maxCompletedFECBlocks ?g, cf_Statistics = None,
     cf_ReplayWindow = Some (se_id s)\<rparr>"
  consider (bad) "err = Some ErrHandshakeIncompatible" "s' = s"
    | (good) e d where "NewEncoder rs_New (sg_params ?g) ?b = Inr e" "NewDecoder rs_New ?c = Inr d" "err = None" "s' = established_with h now e d s"
    using assms None by (auto simp: establishLocked_def established_with_def Let_def split: sum.splits)
  then show thesis
  proof cases
    case bad
    then show thesis by (rule failed)
  next
    case (good e d)
    show thesis
      by (rule done_with [OF good(3) None good(4)])
         (use NewEncoder_fields [OF good(1)] NewDecoder_fields [OF good(2)] in
           \<open>simp_all add: good(4) established_with_def Let_def encoder_for_def decoder_for_def budget_of_def\<close>)
  qed
qed

lemma establishLocked_keeps:
  assumes base: "base_ok s" "se_state s \<noteq> StateClosed" "waiting s" and e: "establishLocked rs_New h now s = (None, s')"
  shows "session_inv rs_New s'"
  using e
proof (cases rule: establishLocked_cases)
  case (done_with encoder decoder)
  note V = done_with(2) [unfolded validateHandshake_None]
  have "72 \<le> uint (hs_MaxUDPPayload h)" "uint (hs_MaxUDPPayload h) \<le> 65507"
    using V uint_nat [of "hs_MaxUDPPayload h"] by linarith+
  moreover have "se_peerMaxUDPPayload s' = uint (hs_MaxUDPPayload h)" "se_state s' = StateEstablished" "se_encoder s' = Some encoder"
    "se_decoder s' = Some decoder" "se_receiveMaxUDPPayload s' = se_sendMaxUDPPayload s'"
    "se_sendMaxUDPPayload s' = min (sg_localMaxUDPPayload (se_settings s')) (se_peerMaxUDPPayload s')"
    "se_nextKeepalive s' \<noteq> None" "se_nextDecodeSweep s' \<noteq> None"
    by (simp_all add: done_with(3) established_with_def Let_def)
  ultimately have "phase_ok rs_New s'" using done_with(4,5) by (simp add: phase_ok_def established_def)
  moreover have "waiting s'" using base(2,3) by (simp add: done_with(3) established_with_def Let_def waiting_def)
  moreover have "base_ok s'" using base(1)
    by (simp add: done_with(3) established_with_def Let_def base_ok_def carriers_ok_def endpoints_ok_def endpoint_ok_def probes_ok_def carrier_ids_def)
  ultimately show ?thesis by (simp add: session_inv_def)
qed simp
subsection \<open>The handshake of an initiator\<close>

definition helloMessage :: "PacketType \<Rightarrow> Session \<Rightarrow> Message" where
  "helloMessage t s =
     (let g = se_settings s
      in \<lparr>msg_Header = \<lparr>hdr_Type = t, hdr_SessionID = se_id s\<rparr>,
          msg_Handshake = \<lparr>hs_DataShards = word_of_int (DataShards (sg_params g)), hs_ParityShards = word_of_int (ParityShards (sg_params g)),
            hs_MaxUDPPayload = word_of_int (sg_localMaxUDPPayload g)\<rparr>,
          msg_DataShard = emptyDataShard, msg_Probe = zeroProbe\<rparr>)"

definition hello_plan :: "Session \<Rightarrow> carrierState \<Rightarrow> sendPlan" where
  "hello_plan s c =
     \<lparr>pn_message = helloMessage TypeHello s, pn_path = ca_path c, pn_budget = sg_localMaxUDPPayload (se_settings s), pn_probeKey = [],
      pn_probe = \<lparr>ob_token = 0, ob_timestamp = 0, ob_sentAt = 0\<rparr>\<rparr>"

definition attempted :: "Session \<Rightarrow> int \<Rightarrow> carrierState \<Rightarrow> carrierState" where
  "attempted s now c =
     c\<lparr>ca_attempts := ca_attempts c + 1,
       ca_nextRetry := Some (now + (sg_handshakeRetryInterval (se_settings s) + retryJitter s (PathID (ca_path c)) (ca_attempts c + 1)))\<rparr>"

definition retry_due :: "int \<Rightarrow> carrierState \<Rightarrow> bool" where
  "retry_due now c \<longleftrightarrow> \<not> ca_acked c \<and> \<not> ca_exhausted c \<and> (\<exists>t. ca_nextRetry c = Some t \<and> t \<le> now)"

definition retried :: "Session \<Rightarrow> int \<Rightarrow> carrierState \<Rightarrow> carrierState" where
  "retried s now c =
     (if \<not> retry_due now c then c
      else if ca_attempts c \<ge> sg_maxHandshakeAttempts (se_settings s)
        then c\<lparr>ca_exhausted := True, ca_healthy := False, ca_nextRetry := None\<rparr>
      else attempted s now c)"

lemma planHelloLocked_ok:
  assumes "settings_ok (se_settings s)" "se_id s \<noteq> 0"
  shows "planHelloLocked s now c = (Inr (hello_plan s c), attempted s now c)"
  using newHandshake_ok [OF assms, of TypeHello]
  by (simp add: planHelloLocked_def NewHello_def hello_plan_def attempted_def helloMessage_def Let_def)

lemma hello_all_ok:
  assumes "settings_ok (se_settings s)" "se_id s \<noteq> 0"
  shows "hello_all s now cs = (Inr (map (hello_plan s) cs), map (attempted s now) cs)"
  by (induction cs) (simp_all add: planHelloLocked_ok [OF assms])

lemma retry_all_ok:
  assumes "settings_ok (se_settings s)" "se_id s \<noteq> 0"
  shows "retry_all s now cs =
    (Inr (map (hello_plan s) (filter (\<lambda>c. retry_due now c \<and> ca_attempts c < sg_maxHandshakeAttempts (se_settings s)) cs)), map (retried s now) cs)"
proof (induction cs)
  case (Cons c cs)
  have d: "retry_due now c \<longleftrightarrow> \<not> (ca_acked c \<or> ca_exhausted c \<or> (case ca_nextRetry c of None \<Rightarrow> True | Some t \<Rightarrow> now < t))"
    by (auto simp: retry_due_def split: option.split)
  show ?case unfolding retry_all.simps d [symmetric, THEN arg_cong [where f = Not], simplified]
    using Cons planHelloLocked_ok [OF assms, of now c] by (auto simp: retried_def d)
qed simp

lemma retryJitter_bounds:
  assumes "settings_ok (se_settings s)"
  shows "0 \<le> retryJitter s p n" "retryJitter s p n \<le> sg_handshakeJitterLimit (se_settings s)"
proof -
  let ?l = "sg_handshakeJitterLimit (se_settings s)"
  have l: "0 \<le> ?l" "?l \<le> 60000000000" using settings_okD [OF assms] by simp_all
  have u: "uint (word_of_int ?l + 1 :: u64) = ?l + 1" using l by (simp add: uint_word_ariths uint_word_of_int)
  have "uint (x mod (word_of_int ?l + 1) :: u64) \<le> ?l" for x
    using l pos_mod_bound [of "?l + 1" "uint x"] by (simp only: uint_mod u) linarith
  then show "retryJitter s p n \<le> ?l" "0 \<le> retryJitter s p n" using l by (simp_all add: retryJitter_def Let_def)
qed

lemma inv_carriers:
  assumes inv: "session_inv rs_New s" and state: "se_state s \<noteq> StateClosed"
    and path: "\<And>c. ca_path (f c) = ca_path c" and acked: "\<And>c. ca_acked (f c) = ca_acked c"
    and ok: "\<And>c. c \<in> set (se_carriers s) \<Longrightarrow> carrier_ok (se_settings s) c \<Longrightarrow> carrier_ok (se_settings s) (f c)"
    and ex: "\<And>c. ca_exhausted c \<Longrightarrow> ca_exhausted (f c)"
    and wait: "\<And>c. c \<in> set (se_carriers s) \<Longrightarrow> b \<Longrightarrow> ca_acked (f c) \<or> ca_exhausted (f c) \<or> ca_nextRetry (f c) \<noteq> None"
    and b: "se_started s \<longrightarrow> b" "b \<or> (\<forall>c. f c = c)"
  shows "session_inv rs_New (s\<lparr>se_started := b, se_carriers := map f (se_carriers s)\<rparr>)" (is "session_inv _ ?s")
proof -
  have ids: "carrier_ids ?s = carrier_ids s" using path by (auto simp: carrier_ids_def image_image)
  have m: "map (PathID \<circ> ca_path) (map f (se_carriers s)) = map (PathID \<circ> ca_path) (se_carriers s)" by (simp add: path)
  have "carriers_ok ?s" using session_invD(4) [OF inv] ok unfolding carriers_ok_def by (auto simp: m [unfolded map_map])
  moreover have "endpoints_ok ?s" "probes_ok ?s"
    using session_invD(5,6) [OF inv] by (simp_all add: endpoints_ok_def endpoint_ok_def probes_ok_def ids)
  moreover have "phase_ok rs_New ?s"
    using session_invD(7) [OF inv] acked ex state
    by (cases "se_state s")
       (auto simp: phase_ok_def idle_def established_def encoder_for_def decoder_for_def budget_of_def allCarriersExhaustedLocked_def)
  moreover have "waiting ?s" using session_invD(8) [OF inv] wait b by (auto simp: waiting_def)
  ultimately show ?thesis using session_invD(1,2,3) [OF inv] by (intro session_invI) simp_all
qed

lemma start_locked_keeps:
  assumes inv: "session_inv rs_New s" and r: "start_locked now s = (r, s')"
  shows "session_inv rs_New s'"
proof (cases "se_state s = StateHandshaking \<and> se_role s = RoleInitiator \<and> \<not> se_started s")
  case True
  let ?t = "s\<lparr>se_started := True\<rparr>"
  have "hello_all ?t now (se_carriers s) = (Inr (map (hello_plan ?t) (se_carriers s)), map (attempted ?t now) (se_carriers s))"
    by (rule hello_all_ok) (use session_invD [OF inv] in simp_all)
  then have s': "s' = s\<lparr>se_started := True, se_carriers := map (attempted ?t now) (se_carriers s)\<rparr>"
    using r True by (simp add: start_locked_def)
  have m: "1 \<le> sg_maxHandshakeAttempts (se_settings s)" by (rule settings_okD(13) [OF session_invD(1) [OF inv]])
  have z: "\<forall>c \<in> set (se_carriers s). ca_attempts c = 0 \<and> \<not> ca_acked c"
    using session_invD(7,8) [OF inv] True by (auto simp: waiting_def phase_ok_def)
  show ?thesis unfolding s'
    by (rule inv_carriers [OF inv]) (use True m z in \<open>auto simp: attempted_def carrier_ok_def\<close>)
next
  case False
  then show ?thesis using r inv by (auto simp: start_locked_def split: if_splits)
qed

subsection \<open>The results of sends\<close>

lemma setPathHealthForPath_keeps:
  assumes inv: "session_inv rs_New s"
  shows "session_inv rs_New (setPathHealthForPath path b s)" "quiet s (setPathHealthForPath path b s)"
proof -
  have c: "session_inv rs_New (on_carrier i (\<lambda>c. c\<lparr>ca_healthy := b\<rparr>) s)" for i by (rule inv_carrier_health [OF inv]) simp
  have e: "session_inv rs_New (on_endpoint key (\<lambda>e. e\<lparr>ep_healthy := b\<rparr>) s)" for key
  proof (rule inv_on_endpoint [OF inv])
    show "endpoint_ok s key (e\<lparr>ep_healthy := b\<rparr>)" if "map_of (se_endpoints s) key = Some e" for e
      using map_of_SomeD [OF that] session_invD(5) [OF inv] by (auto simp: endpoints_ok_def endpoint_ok_def)
  qed simp
  show "session_inv rs_New (setPathHealthForPath path b s)" using c e inv by (simp add: setPathHealthForPath_def split: Path.split sum.split)
  show "quiet s (setPathHealthForPath path b s)" using quiet_on_carrier by (simp add: setPathHealthForPath_def split: Path.split sum.split)
qed

lemma settle_keeps:
  assumes inv: "session_inv rs_New s"
  shows "session_inv rs_New (settle b p err s)" "quiet s (settle b p err s)"
proof -
  define t where "t = (if b \<and> err \<noteq> None \<and> pn_probeKey p \<noteq> [] then
      (case map_of (se_outstanding s) (pn_probeKey p) of
         Some current \<Rightarrow> if ob_token current = ob_token (pn_probe p) then s\<lparr>se_outstanding := AList.delete (pn_probeKey p) (se_outstanding s)\<rparr> else s
       | None \<Rightarrow> s) else s)"
  have e: "settle b p err s = (if isPathHealthFailure err then setPathHealthForPath (pn_path p) False t else t)"
    by (simp only: settle_def Let_def t_def)
  have t: "session_inv rs_New t" "quiet s t" using inv inv_drop_probe [OF inv] by (simp_all add: t_def split: option.split)
  show "session_inv rs_New (settle b p err s)" "quiet s (settle b p err s)"
    unfolding e using setPathHealthForPath_keeps [OF t(1)] t quiet_trans by auto
qed

lemma execute_keeps:
  "session_inv rs_New s \<Longrightarrow> session_inv rs_New (snd (execute net b n plans s)) \<and> quiet s (snd (execute net b n plans s))"
proof (induction plans arbitrary: n s)
  case (Cons p plans)
  let ?t = "settle b p (send_one (se_settings s) net n p) s"
  have t: "session_inv rs_New ?t" "quiet s ?t" using settle_keeps [OF Cons.prems] by simp_all
  show ?case using Cons.IH [OF t(1), of "n + 1"] quiet_trans [OF t(2)] by (auto simp: Let_def split: prod.split)
qed simp

lemma length_execute: "length (fst (execute net b n plans s)) = length plans"
  by (induction plans arbitrary: n s) (simp_all add: Let_def split_beta)

lemma recordBlockPathFailures_keeps:
  assumes inv: "session_inv rs_New s"
  shows "session_inv rs_New (recordBlockPathFailures result paths s) \<and> quiet s (recordBlockPathFailures result paths s)"
  unfolding recordBlockPathFailures_def
proof (induction "bs_Attempts result" arbitrary: result rule: rev_induct)
  case Nil
  then show ?case using inv by simp
next
  case (snoc a as)
  have IH: "session_inv rs_New t \<and> quiet s t" if "t = fold (\<lambda>a s. if isPathHealthFailure (map_option NetFailure (at_Err a)) \<and> at_PathIndex a < length paths
      then setPathHealthForPath (paths ! at_PathIndex a) False s else s) as s" for t
    using snoc(1) [of "result\<lparr>bs_Attempts := as\<rparr>"] that by simp
  show ?case unfolding snoc(2) [symmetric] fold_append comp_def
    using IH [OF refl] setPathHealthForPath_keeps quiet_trans by (auto split: if_split)
qed

subsection \<open>Advance\<close>

lemma retryable:
  assumes "carrier_ok (se_settings s) c" "settings_ok (se_settings s)"
  shows "carrier_ok (se_settings s) (retried s now c)"
  using assms by (auto simp: retried_def attempted_def carrier_ok_def retry_due_def)

lemma retry_carriers_eq:
  assumes inv: "session_inv rs_New s" and on: "se_role s = RoleInitiator" "se_started s"
  shows "retry_carriers ev s =
    (let t = s\<lparr>se_carriers := map (retried s (ev_now ev)) (se_carriers s)\<rparr>; failed = (se_state s = StateHandshaking \<and> allCarriersExhaustedLocked t)
     in (Inr (map (hello_plan s) (filter (\<lambda>c. retry_due (ev_now ev) c \<and> ca_attempts c < sg_maxHandshakeAttempts (se_settings s)) (se_carriers s))),
         failed, if failed then t\<lparr>se_state := StateHandshakeFailed\<rparr> else t))"
  using on by (simp add: retry_carriers_def retry_all_ok [OF session_invD(1,2) [OF inv]] Let_def)

lemma retry_carriers_keeps:
  assumes inv: "session_inv rs_New s" and state: "se_state s \<noteq> StateClosed" and r: "retry_carriers ev s = (r, failed, s')"
  shows "session_inv rs_New s'"
proof (cases "se_role s = RoleInitiator \<and> se_started s")
  case True
  let ?t = "s\<lparr>se_carriers := map (retried s (ev_now ev)) (se_carriers s)\<rparr>"
  have "session_inv rs_New (s\<lparr>se_started := True, se_carriers := map (retried s (ev_now ev)) (se_carriers s)\<rparr>)"
    by (rule inv_carriers [OF inv state])
       (use True session_invD(8) [OF inv] state retryable session_invD(1) [OF inv] in
         \<open>auto simp: retried_def attempted_def retry_due_def waiting_def\<close>)
  moreover have "s\<lparr>se_started := True\<rparr> = s" using True by (cases s) simp
  ultimately have t: "session_inv rs_New ?t" by metis
  have "session_inv rs_New (?t\<lparr>se_state := StateHandshakeFailed\<rparr>)" if h: "se_state s = StateHandshaking" "allCarriersExhaustedLocked ?t"
  proof -
    have "phase_ok rs_New (?t\<lparr>se_state := StateHandshakeFailed\<rparr>)"
      using session_invD(7) [OF t] h by (simp add: phase_ok_def idle_def allCarriersExhaustedLocked_def)
    then show ?thesis using session_invD [OF t] h
      by (intro session_invI) (auto simp: carriers_ok_def endpoints_ok_def endpoint_ok_def probes_ok_def carrier_ids_def waiting_def)
  qed
  then show ?thesis using r t True unfolding retry_carriers_eq [OF inv conjunct1 [OF True] conjunct2 [OF True]] by (auto simp: Let_def split: if_splits)
next
  case False
  then show ?thesis using r inv by (auto simp: retry_carriers_def)
qed

lemma inv_nextToken: "session_inv rs_New s \<Longrightarrow> token \<noteq> 0 \<Longrightarrow> session_inv rs_New (s\<lparr>se_nextToken := token\<rparr>)"
  using session_invD [of rs_New s]
  by (intro session_invI)
     (auto simp: carriers_ok_def endpoints_ok_def endpoint_ok_def probes_ok_def carrier_ids_def waiting_def phase_ok_def idle_def
       established_def encoder_for_def decoder_for_def budget_of_def allCarriersExhaustedLocked_def split: session_state.splits)

lemma set_update_subset: "set (AList.update k v m) \<subseteq> insert (k, v) (set m)"
  by (induction m) auto

lemma planPingLocked_keeps:
  assumes inv: "session_inv rs_New s" and est: "se_state s = StateEstablished"
    and path: "se_role s = RoleInitiator \<Longrightarrow> PathID path \<in> carrier_ids s"
  obtains p token ps where "planPingLocked available path now s = (Inr p, s\<lparr>se_nextToken := token, se_outstanding := ps\<rparr>)"
    "session_inv rs_New (s\<lparr>se_nextToken := token, se_outstanding := ps\<rparr>)"
proof -
  let ?token = "if se_nextToken s + 1 = 0 then 1 else se_nextToken s + 1"
  define t where "t = s\<lparr>se_nextToken := ?token\<rparr>"
  let ?key = "probePathKeyLocked available path t"
  let ?ps = "AList.update ?key \<lparr>ob_token = se_nextToken s, ob_timestamp = word_of_int now, ob_sentAt = now\<rparr> (se_outstanding s)"
  have t: "session_inv rs_New t" unfolding t_def by (rule inv_nextToken [OF inv]) simp
  have same: "se_outstanding t = se_outstanding s" "se_state t = se_state s" "se_role t = se_role s" "carrier_ids t = carrier_ids s" "se_id t = se_id s"
    by (simp_all add: t_def carrier_ids_def)
  have P: "probes_ok s" using inv by (rule session_invD)
  have "session_inv rs_New (t\<lparr>se_outstanding := ?ps\<rparr>)"
  proof (rule inv_probes [OF t])
    show "distinct (keys ?ps)" using P by (simp add: probes_ok_def distinct_keys_update)
    show "ob_token p \<noteq> 0" if "(k, p) \<in> set ?ps" for k p
      using subsetD [OF set_update_subset that] P session_invD(3) [OF inv] by (auto simp: probes_ok_def)
    show "set (keys ?ps) \<subseteq> carrier_ids t" if "se_role t = RoleInitiator"
      using that path P unfolding keys_update by (simp add: same probePathKeyLocked_def probes_ok_def)
  qed (simp add: same est)
  moreover have "NewPing (se_id t) (se_nextToken s) (word_of_int now) = Inr m" if "m = \<lparr>msg_Header = \<lparr>hdr_Type = TypePing, hdr_SessionID = se_id s\<rparr>,
      msg_Handshake = zeroHandshake, msg_DataShard = emptyDataShard, msg_Probe = \<lparr>pr_Token = se_nextToken s, pr_Timestamp = word_of_int now\<rparr>\<rparr>" for m
    using newProbe_ok [of "se_id s" "se_nextToken s" TypePing] session_invD(2,3) [OF inv] that by (simp add: NewPing_def same)
  ultimately show thesis
    by (intro that) (simp_all add: planPingLocked_def Let_def t_def)
qed

lemma ping_all_keeps:
  assumes inv: "session_inv rs_New s" and est: "se_state s = StateEstablished"
    and path: "\<And>path. path \<in> set paths \<Longrightarrow> se_role s = RoleInitiator \<Longrightarrow> PathID path \<in> carrier_ids s"
  shows "\<exists>plans token ps. ping_all available now paths s = (Inr plans, s\<lparr>se_nextToken := token, se_outstanding := ps\<rparr>) \<and>
    session_inv rs_New (s\<lparr>se_nextToken := token, se_outstanding := ps\<rparr>)"
  using assms
proof (induction paths arbitrary: s)
  case Nil
  have "s = s\<lparr>se_nextToken := se_nextToken s, se_outstanding := se_outstanding s\<rparr>" by simp
  then show ?case using Nil.prems(1) by (metis ping_all.simps(1))
next
  case (Cons path paths)
  obtain p token ps where 1: "planPingLocked available path now s = (Inr p, s\<lparr>se_nextToken := token, se_outstanding := ps\<rparr>)"
    and inv: "session_inv rs_New (s\<lparr>se_nextToken := token, se_outstanding := ps\<rparr>)"
    by (rule planPingLocked_keeps [OF Cons.prems(1,2), of path available now]) (use Cons.prems(3) [of path] in auto)
  have "carrier_ids (s\<lparr>se_nextToken := token, se_outstanding := ps\<rparr>) = carrier_ids s" by (simp add: carrier_ids_def)
  then obtain plans token' ps' where
    "ping_all available now paths (s\<lparr>se_nextToken := token, se_outstanding := ps\<rparr>) = (Inr plans, s\<lparr>se_nextToken := token', se_outstanding := ps'\<rparr>)"
    "session_inv rs_New (s\<lparr>se_nextToken := token', se_outstanding := ps'\<rparr>)"
    using Cons.IH [OF inv] Cons.prems(2,3) by auto
  then have "ping_all available now (path # paths) s = (Inr (p # plans), s\<lparr>se_nextToken := token', se_outstanding := ps'\<rparr>)" by (simp add: 1)
  with \<open>session_inv rs_New (s\<lparr>se_nextToken := token', se_outstanding := ps'\<rparr>)\<close> show ?case by blast
qed

lemma keepalivePathsLocked_ids: "path \<in> set (keepalivePathsLocked available now s) \<Longrightarrow> se_role s = RoleInitiator \<Longrightarrow> PathID path \<in> carrier_ids s"
  by (auto simp: keepalivePathsLocked_def carrier_ids_def)

text \<open>Timers and the decoder of an established session.\<close>

lemma inv_timers:
  assumes inv: "session_inv rs_New s" and est: "se_state s = StateEstablished" and d: "decoder_for rs_New s d"
  shows "session_inv rs_New (s\<lparr>se_decoder := Some d, se_nextKeepalive := Some x, se_nextDecodeSweep := Some y\<rparr>)"
  using session_invD [OF inv] est d
  by (intro session_invI)
     (auto simp: carriers_ok_def endpoints_ok_def endpoint_ok_def probes_ok_def carrier_ids_def waiting_def phase_ok_def
       established_def encoder_for_def decoder_for_def budget_of_def)

lemma established_fields:
  assumes inv: "session_inv rs_New s" and est: "se_state s = StateEstablished"
  obtains e d x y where "se_encoder s = Some e" "encoder_for rs_New s e" "se_decoder s = Some d" "decoder_for rs_New s d"
    "se_nextKeepalive s = Some x" "se_nextDecodeSweep s = Some y"
  using session_invD(7) [OF inv] est by (auto simp: phase_ok_def established_def)

lemma not_established_idle: "session_inv rs_New s \<Longrightarrow> se_state s \<noteq> StateEstablished \<Longrightarrow> idle s"
  using session_invD(7) [of rs_New s] by (auto simp: phase_ok_def split: session_state.splits)

lemma keepalive_keeps:
  assumes inv: "session_inv rs_New s"
  shows "\<exists>plans token ps t. keepalive ev s = (Inr plans, s\<lparr>se_nextToken := token, se_outstanding := ps, se_nextKeepalive := t\<rparr>) \<and>
    session_inv rs_New (s\<lparr>se_nextToken := token, se_outstanding := ps, se_nextKeepalive := t\<rparr>) \<and>
    (t = se_nextKeepalive s \<and> (\<forall>x. t = Some x \<longrightarrow> ev_now ev < x) \<or> t = Some (ev_now ev + sg_keepaliveInterval (se_settings s)))"
proof (cases "se_state s = StateEstablished \<and> (case se_nextKeepalive s of None \<Rightarrow> False | Some t \<Rightarrow> t \<le> ev_now ev)")
  case True
  then have est: "se_state s = StateEstablished" by simp
  obtain plans token ps where p: "ping_all (ev_available ev 1) (ev_now ev) (keepalivePathsLocked (ev_available ev 0) (ev_now ev) s) s =
      (Inr plans, s\<lparr>se_nextToken := token, se_outstanding := ps\<rparr>)" and i: "session_inv rs_New (s\<lparr>se_nextToken := token, se_outstanding := ps\<rparr>)"
    using ping_all_keeps [where available = "ev_available ev 1" and now = "ev_now ev", OF inv est
        keepalivePathsLocked_ids [where available = "ev_available ev 0" and now = "ev_now ev"]] by blast
  let ?t = "s\<lparr>se_nextToken := token, se_outstanding := ps\<rparr>"
  obtain d y where d: "se_decoder ?t = Some d" "decoder_for rs_New ?t d" "se_nextDecodeSweep ?t = Some y"
    by (rule established_fields [OF i]) (simp_all add: est)
  have "?t\<lparr>se_decoder := Some d, se_nextKeepalive := Some x, se_nextDecodeSweep := Some y\<rparr> = ?t\<lparr>se_nextKeepalive := Some x\<rparr>" for x
    using d by (cases s) simp
  moreover have "se_state ?t = StateEstablished" using est by simp
  ultimately have "session_inv rs_New (?t\<lparr>se_nextKeepalive := Some x\<rparr>)" for x
    using inv_timers [where x = x and y = y, OF i _ d(2)] by (simp only:)
  then show ?thesis using True p by (simp add: keepalive_def) blast
next
  case False
  have "s\<lparr>se_nextToken := se_nextToken s, se_outstanding := se_outstanding s, se_nextKeepalive := se_nextKeepalive s\<rparr> = s" by simp
  moreover have "\<forall>x. se_nextKeepalive s = Some x \<longrightarrow> ev_now ev < x"
    using False not_established_idle [OF inv] by (cases "se_nextKeepalive s") (auto simp: idle_def)
  moreover have "keepalive ev s = (Inr [], s)" using False by (auto simp: keepalive_def)
  ultimately show ?thesis using inv by metis
qed

lemma decoder_for_inv: "decoder_for rs_New s d \<Longrightarrow> decoder_inv d"
  using decoder_system.reachable_inv by (simp add: decoder_for_def)

lemma replay_session_apply:
  assumes "decoder_inv d"
  shows "replay_session (snd (decoder_apply (OpAdd now input) d)) = replay_session d" "replay_session (snd (decoder_apply (OpSweep now) d)) = replay_session d"
  using replay_session_add [OF assms, of now input] replay_session_sweep [OF assms, of now]
  by (simp_all add: Sweep_def split_beta split: sum.split)

lemma decoder_for_op:
  assumes d: "decoder_for rs_New s d" and op: "op = OpAdd now input \<or> op = OpSweep now"
  shows "decoder_for rs_New s (snd (decoder_apply op d))"
proof -
  have inv: "decoder_inv d" using d by (rule decoder_for_inv)
  have "op \<noteq> OpClose" using op by auto
  then have c: "same_config d (snd (decoder_apply op d))" by (rule same_config_apply [OF inv])
  have r: "replay_session (snd (decoder_apply op d)) = replay_session d" using op replay_session_apply [OF inv] by auto
  have "decoder_step d (snd (decoder_apply op d))" unfolding decoder_step_def by blast
  then have "reachable decoder_start decoder_step (snd (decoder_apply op d))" using d reach_step unfolding decoder_for_def by metis
  then show ?thesis using d c r by (simp add: decoder_for_def same_config_def)
qed

lemma decoder_for_add: "decoder_for rs_New s d \<Longrightarrow> decoder_for rs_New s (snd (AddVerifiedShard now input d))"
  using decoder_for_op [of rs_New s d "OpAdd now input"] by (simp add: split_beta split: sum.split_asm)

lemma decoder_for_sweep: "decoder_for rs_New s d \<Longrightarrow> decoder_for rs_New s (snd (Sweep now d))"
  using decoder_for_op [of rs_New s d "OpSweep now"] by simp

lemma inv_decoder:
  assumes inv: "session_inv rs_New s" and est: "se_state s = StateEstablished" and d: "decoder_for rs_New s d"
  shows "session_inv rs_New (s\<lparr>se_decoder := Some d\<rparr>)"
proof -
  obtain x y where "se_nextKeepalive s = Some x" "se_nextDecodeSweep s = Some y" by (rule established_fields [OF inv est])
  then have "s\<lparr>se_decoder := Some d, se_nextKeepalive := Some x, se_nextDecodeSweep := Some y\<rparr> = s\<lparr>se_decoder := Some d\<rparr>" by (cases s) simp
  then show ?thesis using inv_timers [OF inv est d] by metis
qed

lemma sweep_decoder_keeps:
  assumes inv: "session_inv rs_New s"
  shows "\<exists>stats d t. sweep_decoder ev s = (stats, s\<lparr>se_decoder := d, se_nextDecodeSweep := t\<rparr>) \<and> session_inv rs_New (s\<lparr>se_decoder := d, se_nextDecodeSweep := t\<rparr>) \<and>
    (t = se_nextDecodeSweep s \<and> (\<forall>x. t = Some x \<longrightarrow> ev_now ev < x) \<or> t = Some (ev_now ev + sg_decodeTimeout (se_settings s)))"
proof (cases "se_state s = StateEstablished")
  case True
  obtain d x y where d: "se_decoder s = Some d" "decoder_for rs_New s d" "se_nextKeepalive s = Some x" "se_nextDecodeSweep s = Some y"
    by (rule established_fields [OF inv True])
  show ?thesis
  proof (cases "y \<le> ev_now ev")
    case due: True
    let ?d = "snd (Sweep (ev_decoderNow ev) d)" and ?t = "ev_now ev + sg_decodeTimeout (se_settings s)"
    have "s\<lparr>se_decoder := Some ?d, se_nextKeepalive := Some x, se_nextDecodeSweep := Some ?t\<rparr> = s\<lparr>se_decoder := Some ?d, se_nextDecodeSweep := Some ?t\<rparr>"
      using d by (cases s) simp
    then have "session_inv rs_New (s\<lparr>se_decoder := Some ?d, se_nextDecodeSweep := Some ?t\<rparr>)"
      using inv_timers [OF inv True decoder_for_sweep [OF d(2)]] by metis
    moreover have "sweep_decoder ev s = (fst (Sweep (ev_decoderNow ev) d), s\<lparr>se_decoder := Some ?d, se_nextDecodeSweep := Some ?t\<rparr>)"
      using due by (simp add: sweep_decoder_def d split_beta)
    ultimately show ?thesis by blast
  next
    case False
    have "sweep_decoder ev s = (noExpired, s)" "s\<lparr>se_decoder := se_decoder s, se_nextDecodeSweep := se_nextDecodeSweep s\<rparr> = s"
      using False by (simp_all add: sweep_decoder_def d)
    moreover have "\<forall>x. se_nextDecodeSweep s = Some x \<longrightarrow> ev_now ev < x" using False d by simp
    ultimately show ?thesis using inv by metis
  qed
next
  case False
  have i: "se_decoder s = None" "se_nextDecodeSweep s = None" using not_established_idle [OF inv False] by (simp_all add: idle_def)
  have "sweep_decoder ev s = (noExpired, s)" "s\<lparr>se_decoder := se_decoder s, se_nextDecodeSweep := se_nextDecodeSweep s\<rparr> = s"
    by (simp_all add: sweep_decoder_def i)
  then show ?thesis using inv i by (metis option.distinct(1))
qed

text \<open>The four stages of a live session's \<open>Advance\<close>; none of them fails.\<close>

lemma advance_locked_stages:
  assumes inv: "session_inv rs_New s" and live: "se_state s \<noteq> StateClosed" and r: "advance_locked ev s = (r, result, s')"
  obtains n a stats d t plans failed c pings token ps u where
    "sweepEndpointsLocked (ev_now ev) s = (n, a)" "quiet s a"
    "session_inv rs_New (a\<lparr>se_decoder := d, se_nextDecodeSweep := t\<rparr>)"
    "t = se_nextDecodeSweep a \<and> (\<forall>x. t = Some x \<longrightarrow> ev_now ev < x) \<or> t = Some (ev_now ev + sg_decodeTimeout (se_settings a))"
    "retry_carriers ev (a\<lparr>se_decoder := d, se_nextDecodeSweep := t\<rparr>) = (Inr plans, failed, c)" "session_inv rs_New c"
    "s' = c\<lparr>se_nextToken := token, se_outstanding := ps, se_nextKeepalive := u\<rparr>" "session_inv rs_New s'"
    "u = se_nextKeepalive c \<and> (\<forall>x. u = Some x \<longrightarrow> ev_now ev < x) \<or> u = Some (ev_now ev + sg_keepaliveInterval (se_settings c))"
    "r = Inr (plans @ pings)"
    "result = \<lparr>ar_Sends = [], ar_ExpiredEndpoints = n, ar_ExpiredFEC = stats, ar_HandshakeFailed = failed\<rparr>"
proof -
  obtain n a where a: "sweepEndpointsLocked (ev_now ev) s = (n, a)" by fastforce
  have ia: "session_inv rs_New a" and qa: "quiet s a" using sweepEndpointsLocked_keeps [OF inv, of "ev_now ev"] a by simp_all
  obtain stats d t where b: "sweep_decoder ev a = (stats, a\<lparr>se_decoder := d, se_nextDecodeSweep := t\<rparr>)"
    and ib: "session_inv rs_New (a\<lparr>se_decoder := d, se_nextDecodeSweep := t\<rparr>)"
    and t: "t = se_nextDecodeSweep a \<and> (\<forall>x. t = Some x \<longrightarrow> ev_now ev < x) \<or> t = Some (ev_now ev + sg_decodeTimeout (se_settings a))"
    using sweep_decoder_keeps [OF ia] by blast
  let ?b = "a\<lparr>se_decoder := d, se_nextDecodeSweep := t\<rparr>"
  obtain q failed c where c: "retry_carriers ev ?b = (q, failed, c)" by (cases "retry_carriers ev ?b")
  have ic: "session_inv rs_New c" by (rule retry_carriers_keeps [OF ib _ c]) (use live quiet_fields(4) [OF qa] in simp)
  obtain plans where q: "q = Inr plans"
    using c retry_all_ok [OF session_invD(1,2) [OF ib]] by (auto simp: retry_carriers_def Let_def split: if_splits)
  obtain pings token ps u where e: "keepalive ev c = (Inr pings, c\<lparr>se_nextToken := token, se_outstanding := ps, se_nextKeepalive := u\<rparr>)"
    "session_inv rs_New (c\<lparr>se_nextToken := token, se_outstanding := ps, se_nextKeepalive := u\<rparr>)"
    "u = se_nextKeepalive c \<and> (\<forall>x. u = Some x \<longrightarrow> ev_now ev < x) \<or> u = Some (ev_now ev + sg_keepaliveInterval (se_settings c))"
    using keepalive_keeps [OF ic] by blast
  have "r = Inr (plans @ pings) \<and> s' = c\<lparr>se_nextToken := token, se_outstanding := ps, se_nextKeepalive := u\<rparr> \<and>
      result = \<lparr>ar_Sends = [], ar_ExpiredEndpoints = n, ar_ExpiredFEC = stats, ar_HandshakeFailed = failed\<rparr>"
    using r live by (simp add: advance_locked_def a b c q e)
  then show thesis using that [OF a qa ib t c [unfolded q] ic] e by blast
qed

lemma advance_locked_keeps:
  assumes inv: "session_inv rs_New s" and r: "advance_locked ev s = (r, result, s')"
  shows "session_inv rs_New s'"
proof (cases "se_state s = StateClosed")
  case True
  then show ?thesis using r inv by (simp add: advance_locked_def)
qed (rule advance_locked_stages [OF inv _ r])

subsection \<open>Closing and sending\<close>

lemma markClosedLocked_keeps:
  assumes inv: "session_inv rs_New s"
  shows "session_inv rs_New (markClosedLocked (s\<lparr>se_decoder := None, se_encoder := None\<rparr>))" (is "session_inv _ ?s")
proof -
  have m: "map ((PathID \<circ> ca_path) \<circ> (\<lambda>c. c\<lparr>ca_nextRetry := None\<rparr>)) cs = map (PathID \<circ> ca_path) cs" for cs by simp
  have "carriers_ok ?s" using session_invD(4) [OF inv] by (auto simp: carriers_ok_def markClosedLocked_def carrier_ok_def m)
  moreover have "endpoints_ok ?s" using settings_okD(11) [OF session_invD(1) [OF inv]] by (simp add: endpoints_ok_def markClosedLocked_def)
  moreover have "probes_ok ?s" "phase_ok rs_New ?s" by (simp_all add: probes_ok_def markClosedLocked_def phase_ok_def idle_def)
  moreover have "waiting ?s" using session_invD(8) [OF inv] by (auto simp: waiting_def markClosedLocked_def)
  ultimately show ?thesis using session_invD(1,2,3) [OF inv] by (intro session_invI) (simp_all add: markClosedLocked_def)
qed

lemma inv_close_flags: "session_inv rs_New (s\<lparr>se_closeOnce := a, se_closeErr := b\<rparr>) = session_inv rs_New s"
  by (simp add: session_inv_def base_ok_def carriers_ok_def endpoints_ok_def endpoint_ok_def probes_ok_def carrier_ids_def waiting_def phase_ok_def
      idle_def established_def encoder_for_def decoder_for_def budget_of_def allCarriersExhaustedLocked_def cong: session_state.case_cong)

lemma inv_closeOnce: "session_inv rs_New (s\<lparr>se_closeOnce := a\<rparr>) = session_inv rs_New s"
  using inv_close_flags [where s = s and a = a and b = "se_closeErr s"] by simp

lemma inv_closeErr: "session_inv rs_New (s\<lparr>se_closeErr := b\<rparr>) = session_inv rs_New s"
  using inv_close_flags [where s = s and a = "se_closeOnce s" and b = b] by simp

lemma close_locked_keeps: "session_inv rs_New s \<Longrightarrow> session_inv rs_New (snd (close_locked ev s))"
  by (simp add: close_locked_def markClosedLocked_keeps)

lemma write_locked_keeps: "session_inv rs_New s \<Longrightarrow> session_inv rs_New (snd (write_locked ev s)) \<and> quiet s (snd (write_locked ev s))"
  using sweepEndpointsLocked_keeps [of rs_New s "ev_now ev"] by (simp add: write_locked_def Let_def)

lemma Encode_fields:
  "en_params (snd (Encode payload e)) = en_params e" "en_limits (snd (Encode payload e)) = en_limits e" "en_codec (snd (Encode payload e)) = en_codec e"
  "en_total (snd (Encode payload e)) = en_total e"
  by (simp_all add: Encode_def Let_def split: option.split)

lemma inv_encoder:
  assumes inv: "session_inv rs_New s" and est: "se_state s = StateEstablished" and e: "encoder_for rs_New s e"
  shows "session_inv rs_New (s\<lparr>se_encoder := Some e\<rparr>)"
  using session_invD [OF inv] est e
  by (intro session_invI)
     (auto simp: carriers_ok_def endpoints_ok_def endpoint_ok_def probes_ok_def carrier_ids_def waiting_def phase_ok_def
       established_def encoder_for_def decoder_for_def budget_of_def)

lemma encode_payload_eq:
  assumes inv: "session_inv rs_New s" and est: "se_state s = StateEstablished" and e: "se_encoder s = Some e"
  shows "encode_payload payload s =
    (case fst (Encode payload e) of Inl err \<Rightarrow> Inl (FecFailure err) | Inr block \<Rightarrow> Inr block, s\<lparr>se_encoder := Some (snd (Encode payload e))\<rparr>)"
  by (simp add: encode_payload_def e split_beta split: sum.split)

lemma encode_payload_keeps:
  assumes inv: "session_inv rs_New s"
  shows "session_inv rs_New (snd (encode_payload payload s))"
proof (cases "se_state s = StateEstablished")
  case True
  obtain e where e: "se_encoder s = Some e" "encoder_for rs_New s e" by (rule established_fields [OF inv True])
  have "encoder_for rs_New s (snd (Encode payload e))" using e(2) by (simp add: encoder_for_def Encode_fields)
  then show ?thesis using inv_encoder [OF inv True] by (simp add: encode_payload_eq [OF inv True e(1)])
next
  case False
  then have "se_encoder s = None" using not_established_idle [OF inv] by (simp add: idle_def)
  then show ?thesis using inv by (simp add: encode_payload_def)
qed

lemma SetPathHealthy_keeps:
  assumes inv: "session_inv rs_New s"
  shows "session_inv rs_New (snd (SetPathHealthy pathID b s))" "quiet s (snd (SetPathHealthy pathID b s))"
proof -
  define t where "t = on_carrier pathID (\<lambda>c. c\<lparr>ca_healthy := b\<rparr>) s"
  let ?f = "\<lambda>e. if rp_PathID (ep_path e) = pathID \<or> ep_key e = pathID then e\<lparr>ep_healthy := b\<rparr> else e"
  let ?eps = "map (\<lambda>(key, e). (key, ?f e)) (se_endpoints t)"
  have t: "session_inv rs_New t" "quiet s t" using inv_carrier_health [OF inv] quiet_on_carrier by (simp_all add: t_def)
  have k: "keys ?eps = keys (se_endpoints t)" by (simp add: split_beta comp_def)
  have u: "session_inv rs_New (t\<lparr>se_endpoints := ?eps\<rparr>)"
  proof (rule inv_endpoints [OF t(1)])
    note E = session_invD(5) [OF t(1), unfolded endpoints_ok_def]
    show "distinct (keys ?eps)" using E unfolding k by simp
    show "int (length ?eps) \<le> sg_maxEndpoints (se_settings t)" using E by simp
    show "endpoint_ok t key e" if "(key, e) \<in> set ?eps" for key e using that E by (auto simp: endpoint_ok_def)
  qed simp
  have q: "quiet s (t\<lparr>se_endpoints := ?eps\<rparr>)" using t(2) quiet_endpoints by (rule quiet_trans)
  have "snd (SetPathHealthy pathID b s) = s \<or> snd (SetPathHealthy pathID b s) = t\<lparr>se_endpoints := ?eps\<rparr>"
    by (simp add: SetPathHealthy_def Let_def t_def)
  then show "session_inv rs_New (snd (SetPathHealthy pathID b s))" "quiet s (snd (SetPathHealthy pathID b s))"
    using inv u q by auto
qed

subsection \<open>Learning twice\<close>

lemma drop_expired_endpoints: "se_endpoints (drop_expired es s) = filter (\<lambda>(key, e). key \<notin> set (keys es)) (se_endpoints s)"
proof (induction es arbitrary: s)
  case (Cons x es)
  obtain key e where x: "x = (key, e)" by (cases x)
  show ?case by (auto simp: x Let_def Cons.IH AList.delete_eq case_prod_unfold intro!: filter_cong)
qed (simp add: case_prod_unfold)

lemma sweep_endpoints:
  assumes d: "distinct (keys (se_endpoints s))"
  shows "se_endpoints (snd (sweepEndpointsLocked now s)) = filter (\<lambda>(key, e). endpoint_live s now e) (se_endpoints s)"
proof -
  let ?es = "filter (\<lambda>(key, e). \<not> endpoint_live s now e) (se_endpoints s)"
  have "key \<notin> set (keys ?es) \<longleftrightarrow> endpoint_live s now e" if "(key, e) \<in> set (se_endpoints s)" for key e
  proof
    assume "key \<notin> set (keys ?es)"
    then have "(key, e) \<notin> set ?es" unfolding set_map by (metis fst_conv image_eqI)
    with that show "endpoint_live s now e" by simp
  next
    assume "endpoint_live s now e"
    moreover have "e' = e" if "(key, e') \<in> set (se_endpoints s)" for e'
      using that \<open>(key, e) \<in> set (se_endpoints s)\<close> d by (metis eq_key_imp_eq_value)
    ultimately show "key \<notin> set (keys ?es)" by auto
  qed
  then show ?thesis by (auto simp: sweepEndpointsLocked_def Let_def drop_expired_endpoints intro!: filter_cong)
qed

lemma canLearn_endpoints:
  assumes inv: "session_inv rs_New s"
  shows "set (se_endpoints (snd (canLearnEndpointLocked available key path now s))) \<subseteq> {(k, e) \<in> set (se_endpoints s). endpoint_live s now e}"
proof -
  have "distinct (keys (se_endpoints s))" using session_invD(5) [OF inv] by (simp add: endpoints_ok_def)
  then show ?thesis using sweep_endpoints [of s now] by (auto simp: canLearnEndpointLocked_def Let_def)
qed

text \<open>Once a path may be learned, it still may at the same time, whatever has become unavailable meanwhile.\<close>

lemma canLearn_again:
  assumes inv: "session_inv rs_New s" "session_inv rs_New t" and a: "canLearnEndpointLocked available key path now s = (None, a)"
    and t: "se_endpoints t = se_endpoints a" "se_settings t = se_settings a"
  shows "fst (canLearnEndpointLocked available' key path now t) = None"
proof -
  note C = canLearnEndpointLocked_keeps [OF inv(1) a]
  have "distinct (keys (se_endpoints t))" using session_invD(5) [OF inv(2)] by (simp add: endpoints_ok_def)
  then have sw: "se_endpoints (snd (sweepEndpointsLocked now t)) = filter (\<lambda>(key, e). endpoint_live t now e) (se_endpoints t)"
    by (rule sweep_endpoints)
  have "endpoint_live t now e" if "(k, e) \<in> set (se_endpoints t)" for k e
    using that canLearn_endpoints [OF inv(1), of available key path now] quiet_fields(3) [OF C(2)] by (auto simp: a t endpoint_live_def)
  then have same: "se_endpoints (snd (sweepEndpointsLocked now t)) = se_endpoints a"
    unfolding sw t(1) by (intro filter_True) (auto simp: t(1))
  have g: "sg_maxEndpoints (se_settings (snd (sweepEndpointsLocked now t))) = sg_maxEndpoints (se_settings a)"
    using quiet_fields(3) [OF conjunct2 [OF sweepEndpointsLocked_keeps [OF inv(2)]]] t(2) by simp
  have small: "map_of (se_endpoints a) key = None \<Longrightarrow> \<not> sg_maxEndpoints (se_settings a) \<le> int (length (filter P (se_endpoints a)))" for P
    using C(3) le_less_trans [OF of_nat_mono [OF length_filter_le [of P "se_endpoints a"]]] by (simp add: not_le)
  show ?thesis
  proof (cases "map_of (se_endpoints a) key")
    case None
    then show ?thesis using C(3) by (simp add: canLearnEndpointLocked_def Let_def same g not_le small [OF None, unfolded not_le])
  qed (simp add: canLearnEndpointLocked_def Let_def same)
qed

lemma learn_again:
  assumes inv: "session_inv rs_New s" "session_inv rs_New t" and est: "se_state t = StateEstablished" and path: "learnable key path t"
    and a: "canLearnEndpointLocked available key path now s = (None, a)" and t: "se_endpoints t = se_endpoints a" "se_settings t = se_settings a"
    and r: "learnEndpointLocked available' key path now t = (r, s')"
  shows "\<exists>flags. r = Inr flags"
proof -
  have "fst (canLearnEndpointLocked available' key path now t) = None" by (rule canLearn_again [OF inv a t])
  then show ?thesis using r by (auto simp: learnEndpointLocked_def split: prod.splits option.splits)
qed

end
