(* ===== verification/SessionHandle.thy ===== *)
theory SessionHandle
  imports SessionSteps
begin

text \<open>
  What the handlers of the v0.1 session do to it: they keep the invariant, they move the session only
  forward in its life, and every error leaves it as it was, up to what had expired before.
\<close>

subsection \<open>The life of a session\<close>

fun state_le :: "session_state \<Rightarrow> session_state \<Rightarrow> bool" where
  "state_le StateHandshaking t = True"
| "state_le s t = (t = s \<or> t = StateClosed)"

lemma state_le_refl [simp]: "state_le s s"
  by (cases s) simp_all

lemma state_le_trans: "state_le s t \<Longrightarrow> state_le t u \<Longrightarrow> state_le s u"
  by (cases s; cases t; cases u) simp_all

definition same_budgets :: "Session \<Rightarrow> Session \<Rightarrow> bool" where
  "same_budgets s s' \<longleftrightarrow> se_peerMaxUDPPayload s' = se_peerMaxUDPPayload s \<and> se_sendMaxUDPPayload s' = se_sendMaxUDPPayload s \<and>
     se_receiveMaxUDPPayload s' = se_receiveMaxUDPPayload s"

definition negotiated :: "Session \<Rightarrow> bool" where
  "negotiated s \<longleftrightarrow> se_sendMaxUDPPayload s = min (sg_localMaxUDPPayload (se_settings s)) (se_peerMaxUDPPayload s) \<and>
     se_receiveMaxUDPPayload s = se_sendMaxUDPPayload s"

definition forward :: "Session \<Rightarrow> Session \<Rightarrow> bool" where
  "forward s s' \<longleftrightarrow>
     se_id s' = se_id s \<and> se_role s' = se_role s \<and> se_settings s' = se_settings s \<and> carrier_ids s' = carrier_ids s \<and>
     state_le (se_state s) (se_state s') \<and>
     (same_budgets s s' \<or>
      se_state s = StateHandshaking \<and> negotiated s' \<and> (se_state s' = StateEstablished \<or> se_state s' = StateClosed))"

lemma forward_refl [simp]: "forward s s"
  by (simp add: forward_def same_budgets_def)

lemma state_le_handshaking: "state_le s StateHandshaking \<Longrightarrow> s = StateHandshaking"
  by (cases s) simp_all

lemma same_budgets_trans: "same_budgets s t \<Longrightarrow> same_budgets t u \<Longrightarrow> same_budgets s u"
  by (simp add: same_budgets_def)

lemma negotiated_same: "negotiated t \<Longrightarrow> same_budgets t u \<Longrightarrow> se_settings u = se_settings t \<Longrightarrow> negotiated u"
  by (simp add: negotiated_def same_budgets_def)

lemma state_le_done:
  "state_le s t \<Longrightarrow> s = StateEstablished \<or> s = StateClosed \<Longrightarrow> t = StateEstablished \<or> t = StateClosed"
  by (cases s; cases t) simp_all

lemma forward_trans:
  assumes "forward s t" "forward t u"
  shows "forward s u"
proof -
  have le: "state_le (se_state s) (se_state u)"
    using assms state_le_trans [of "se_state s" "se_state t" "se_state u"] by (auto simp: forward_def)
  have "same_budgets s u \<or> se_state s = StateHandshaking \<and> negotiated u \<and> (se_state u = StateEstablished \<or> se_state u = StateClosed)"
    using assms same_budgets_trans negotiated_same [of t u] state_le_handshaking [of "se_state s"] state_le_done [of "se_state t" "se_state u"]
    unfolding forward_def by metis
  then show ?thesis using assms le by (simp add: forward_def)
qed

lemma quiet_forward: "quiet s s' \<Longrightarrow> forward s s'"
  by (simp add: forward_def same_budgets_def quiet_fields quiet_ids)

lemma forward_quiet: "forward s t \<Longrightarrow> quiet t u \<Longrightarrow> forward s u"
  using forward_trans quiet_forward by blast

lemma forward_update [simp]:
  "forward s (s\<lparr>se_decoder := d\<rparr>)" "forward s (s\<lparr>se_encoder := e\<rparr>)" "forward s (s\<lparr>se_closeOnce := a\<rparr>)" "forward s (s\<lparr>se_closeErr := b\<rparr>)"
  by (simp_all add: forward_def same_budgets_def carrier_ids_def)

lemma forward_closed: "forward s (markClosedLocked (s\<lparr>se_decoder := None, se_encoder := None\<rparr>))"
  by (cases "se_state s") (auto simp: forward_def same_budgets_def markClosedLocked_def carrier_ids_def image_image)

lemma forward_established: "se_state s = StateHandshaking \<Longrightarrow> forward s (established_with h now e d s)"
  by (simp add: forward_def negotiated_def established_with_def carrier_ids_def Let_def min.commute)

lemma forward_on_carrier: "(\<And>c. ca_path (f c) = ca_path c) \<Longrightarrow> forward s (on_carrier i f s)"
  by (simp add: forward_def same_budgets_def carrier_map)

subsection \<open>Handlers\<close>

text \<open>The carriers with one of the given path identifiers, marked unhealthy.\<close>

definition unhealthy :: "string set \<Rightarrow> carrierState list \<Rightarrow> carrierState list" where
  "unhealthy ids cs = map (\<lambda>c. if PathID (ca_path c) \<in> ids then c\<lparr>ca_healthy := False\<rparr> else c) cs"

text \<open>The session without its dead endpoints: of a listener's session their probes are gone too, of an initiator's the
  carriers they were learned on are unhealthy. Everything else, live endpoints and all other probes included, is
  what it was.\<close>

definition without_dead :: "int \<Rightarrow> Session \<Rightarrow> Session" where
  "without_dead now s =
     (let dead = filter (\<lambda>(key, e). \<not> endpoint_live s now e) (se_endpoints s);
          kept = s\<lparr>se_endpoints := filter (\<lambda>(key, e). endpoint_live s now e) (se_endpoints s)\<rparr>
      in if se_role s = RoleListener
         then kept\<lparr>se_outstanding := filter (\<lambda>(key, p). key \<notin> set (keys dead)) (se_outstanding s)\<rparr>
         else kept\<lparr>se_carriers := unhealthy (set (map (\<lambda>(key, e). rp_PathID (ep_path e)) dead)) (se_carriers s)\<rparr>)"

text \<open>What looking for room for a path leaves: the dead endpoints are gone and, when the path is new to an initiator,
  the endpoints of the same path identifier that have become unavailable.\<close>

definition swept :: "(Path \<Rightarrow> bool) \<Rightarrow> string \<Rightarrow> ReplyPath \<Rightarrow> int \<Rightarrow> Session \<Rightarrow> Session" where
  "swept available key path now s =
     (let a = without_dead now s
      in if se_role s = RoleInitiator \<and> map_of (se_endpoints a) key = None
         then a\<lparr>se_endpoints := filter (\<lambda>(k, e). \<not> (rp_PathID (ep_path e) = rp_PathID path \<and> \<not> available (Reply (ep_path e)))) (se_endpoints a)\<rparr>
         else a)"

text \<open>The table has no room for an endpoint under a new key.\<close>

definition table_full :: "string \<Rightarrow> Session \<Rightarrow> bool" where
  "table_full key s \<longleftrightarrow> map_of (se_endpoints s) key = None \<and> int (length (se_endpoints s)) \<ge> sg_maxEndpoints (se_settings s)"

lemma filter_delete:
  "filter (\<lambda>(k, e). k \<notin> A) (AList.delete key xs) = filter (\<lambda>(k, e). k \<notin> insert key A) xs"
  by (auto simp: AList.delete_eq case_prod_unfold intro!: filter_cong)

lemma drop_expired_listener:
  "se_role s = RoleListener \<Longrightarrow> drop_expired es s =
     s\<lparr>se_endpoints := filter (\<lambda>(key, e). key \<notin> set (keys es)) (se_endpoints s),
       se_outstanding := filter (\<lambda>(key, p). key \<notin> set (keys es)) (se_outstanding s)\<rparr>"
proof (induction es arbitrary: s)
  case (Cons x es)
  obtain key e where x: "x = (key, e)" by (cases x)
  show ?case using Cons.prems by (simp add: x Let_def Cons.IH filter_delete del: insert_iff)
qed (simp add: case_prod_unfold)

lemma unhealthy_twice: "unhealthy A (unhealthy {i} cs) = unhealthy (insert i A) cs"
  by (auto simp: unhealthy_def)

lemma unhealthy_carrier: "on_carrier i (\<lambda>c. c\<lparr>ca_healthy := False\<rparr>) s = s\<lparr>se_carriers := unhealthy {i} (se_carriers s)\<rparr>"
  by (simp add: on_carrier_def unhealthy_def)

lemma drop_expired_initiator:
  "se_role s \<noteq> RoleListener \<Longrightarrow> drop_expired es s =
     s\<lparr>se_endpoints := filter (\<lambda>(key, e). key \<notin> set (keys es)) (se_endpoints s),
       se_carriers := unhealthy (set (map (\<lambda>(key, e). rp_PathID (ep_path e)) es)) (se_carriers s)\<rparr>"
proof (induction es arbitrary: s)
  case Nil
  then show ?case by (simp add: case_prod_unfold unhealthy_def)
next
  case (Cons x es)
  obtain key e where x: "x = (key, e)" by (cases x)
  show ?case using Cons.prems by (simp add: x Let_def Cons.IH filter_delete unhealthy_carrier unhealthy_twice del: insert_iff)
qed

lemma sweep_without_dead:
  assumes inv: "session_inv rs_New s"
  shows "snd (sweepEndpointsLocked now s) = without_dead now s"
proof -
  let ?es = "filter (\<lambda>(key, e). \<not> endpoint_live s now e) (se_endpoints s)"
  have "distinct (keys (se_endpoints s))" using session_invD(5) [OF inv] by (simp add: endpoints_ok_def)
  then have e: "filter (\<lambda>(key, e). key \<notin> set (keys ?es)) (se_endpoints s) = filter (\<lambda>(key, e). endpoint_live s now e) (se_endpoints s)"
    using sweep_endpoints [of s now] by (simp only: sweepEndpointsLocked_def Let_def snd_conv drop_expired_endpoints)
  show ?thesis
    unfolding without_dead_def sweepEndpointsLocked_def Let_def snd_conv
    using e drop_expired_listener [of s ?es] drop_expired_initiator [of s ?es] by (cases "se_role s") simp_all
qed

lemma canLearn_swept:
  assumes inv: "session_inv rs_New s"
  shows "canLearnEndpointLocked available key path now s =
    (if table_full key (swept available key path now s) then Some ErrEndpointLimit else None, swept available key path now s)"
proof -
  have r: "se_role (without_dead now s) = se_role s" by (simp add: without_dead_def Let_def)
  have n: "map_of (filter P xs) key = None" if "map_of xs key = None" for P and xs :: "(string \<times> endpointState) list"
    using that by (auto simp: map_of_eq_None_iff)
  show ?thesis
    by (cases "se_role s") (auto simp: canLearnEndpointLocked_def sweep_without_dead [OF inv] Let_def swept_def table_full_def r n)
qed

definition rejection :: "session_error \<Rightarrow> bool" where
  "rejection e \<longleftrightarrow> e \<in> {ErrUnknownSession, ErrInvalidReplyPath, ErrClosed, ErrUnknownPath, ErrPacketOverBudget, ErrUnexpectedPacket,
     ErrNotEstablished, ErrHandshakeIncompatible, ErrProbeMismatch}"

text \<open>What an error of a handler has done to the session.\<close>

definition error_effect :: "Env \<Rightarrow> ReplyPath option \<Rightarrow> Message \<Rightarrow> Session \<Rightarrow> session_error \<Rightarrow> Session \<Rightarrow> bool" where
  "error_effect ev reply m s err s' \<longleftrightarrow>
     rejection err \<and> s' = s \<or>
     (\<exists>path key. reply = Some path \<and> replyIdentityUnchecked reply = Inr key \<and>
       (err = ErrEndpointLimit \<and> s' = swept (ev_available ev 1) key path (ev_now ev) s \<and> table_full key s' \<or>
        (\<exists>e d d'. err = FecFailure e \<and> se_decoder s = Some d \<and>
           AddVerifiedShard (ev_decoderNow ev) (incoming s (msg_DataShard m)) d = (Inl e, d') \<and>
           s' = (swept (ev_available ev 1) key path (ev_now ev) s)\<lparr>se_decoder := Some d'\<rparr>)))"

definition handled_ok :: "(int \<Rightarrow> int \<Rightarrow> rs_codec option) \<Rightarrow> Env \<Rightarrow> ReplyPath option \<Rightarrow> Message \<Rightarrow> Session \<Rightarrow> handled \<Rightarrow> bool" where
  "handled_ok rs_New ev reply m s h =
     (case h of (err, result, plan, s') \<Rightarrow>
        session_inv rs_New s' \<and> forward s s' \<and> (case err of None \<Rightarrow> True | Some e \<Rightarrow> plan = None \<and> error_effect ev reply m s e s'))"

lemma handled_reject: "session_inv rs_New s \<Longrightarrow> rejection e \<Longrightarrow> handled_ok rs_New ev reply m s (Some e, result, None, s)"
  by (simp add: handled_ok_def error_effect_def)

lemma handled_done: "session_inv rs_New s' \<Longrightarrow> forward s s' \<Longrightarrow> handled_ok rs_New ev reply m s (None, result, plan, s')"
  by (simp add: handled_ok_def)

lemma learn_limit:
  assumes inv: "session_inv rs_New s" and r: "learnEndpointLocked available key path (ev_now ev) s = (Inl e, s')"
  shows "canLearnEndpointLocked available key path (ev_now ev) s = (Some e, s')"
  using r by (auto simp: learnEndpointLocked_def split: prod.splits option.splits)

lemma handled_limit:
  assumes inv: "session_inv rs_New s" and path: "learnable key path s" and r: "canLearnEndpointLocked (ev_available ev 1) key path (ev_now ev) s = (Some e, s')"
  shows "handled_ok rs_New ev (Some path) m s (Some e, result, None, s')"
  using r canLearn_swept [OF inv, of "ev_available ev 1" key path "ev_now ev"] canLearnEndpointLocked_keeps(1,2) [OF inv r] quiet_forward path
  by (auto simp: handled_ok_def error_effect_def learnable_def split: if_splits)

lemma responsePlan_ok:
  assumes "session_inv rs_New s'" "forward s s'" "map_of (se_endpoints s') key \<noteq> None"
  shows "handled_ok rs_New ev reply m s (responsePlan r key result s')"
  using assms by (auto simp: responsePlan_def intro: handled_done)

lemma frozen_rejects: "validateFrozenHandshakeLocked h s = Some e \<Longrightarrow> rejection e"
  by (auto simp: validateFrozenHandshakeLocked_def validateHandshake_def rejection_def split: if_splits option.splits)

lemma handle_hello_ok:
  assumes inv: "session_inv rs_New s" and path: "learnable key reply s"
  shows "handled_ok rs_New ev (Some reply) m s (handle_hello ev key reply m result s)"
proof (cases "se_role s \<noteq> RoleListener \<or> se_state s \<noteq> StateEstablished \<or> validateFrozenHandshakeLocked (msg_Handshake m) s \<noteq> None")
  case True
  then show ?thesis
    using handled_reject [OF inv] frozen_rejects by (auto simp: handle_hello_def rejection_def split: option.split)
next
  case False
  obtain r a where r: "learnEndpointLocked (ev_available ev 1) key reply (ev_now ev) s = (r, a)" by fastforce
  note L = learnEndpointLocked_keeps [OF inv _ path r]
  show ?thesis
  proof (cases r)
    case (Inl e)
    then show ?thesis using False handled_limit [OF inv path learn_limit [OF inv]] r by (simp add: handle_hello_def)
  next
    case (Inr flags)
    have a: "session_inv rs_New a" "forward s a" using L False quiet_forward by simp_all
    have "newHandshake TypeHelloAck (se_id a) (word_of_int (DataShards (sg_params (se_settings a)))) (word_of_int (ParityShards (sg_params (se_settings a))))
        (word_of_int (sg_localMaxUDPPayload (se_settings a))) = Inr (helloMessage TypeHelloAck a)"
      using newHandshake_ok [OF session_invD(1,2) [OF a(1)], of TypeHelloAck] by (simp add: helloMessage_def Let_def)
    then show ?thesis using responsePlan_ok [OF a] L(3) False Inr by (simp add: handle_hello_def r [unfolded One_nat_def] NewHelloAck_def)
  qed
qed

lemma handle_ping_ok:
  assumes inv: "session_inv rs_New s" and path: "learnable key reply s" and t: "pr_Token (msg_Probe m) \<noteq> 0"
  shows "handled_ok rs_New ev (Some reply) m s (handle_ping ev key reply m result s)"
proof (cases "se_state s = StateEstablished")
  case True
  obtain r a where r: "learnEndpointLocked (ev_available ev 1) key reply (ev_now ev) s = (r, a)" by fastforce
  note L = learnEndpointLocked_keeps [OF inv True path r]
  show ?thesis
  proof (cases r)
    case (Inl e)
    then show ?thesis using True handled_limit [OF inv path learn_limit [OF inv]] r by (simp add: handle_ping_def)
  next
    case (Inr flags)
    have a: "session_inv rs_New a" "forward s a" using L quiet_forward by simp_all
    have "\<exists>pong. NewPong (se_id a) (pr_Token (msg_Probe m)) (pr_Timestamp (msg_Probe m)) = Inr pong"
      using newProbe_ok [OF session_invD(2) [OF a(1)] t, of TypePong] by (simp add: NewPong_def)
    then show ?thesis using responsePlan_ok [OF a] L(3) True Inr by (auto simp: handle_ping_def r [unfolded One_nat_def])
  qed
qed (use handled_reject [OF inv] in \<open>simp add: handle_ping_def rejection_def\<close>)

lemma handle_close_ok: "session_inv rs_New s \<Longrightarrow> handled_ok rs_New ev reply m s (handle_close result s)"
  using markClosedLocked_keeps forward_closed by (simp add: handle_close_def handled_done)

lemma acked_keeps:
  assumes inv: "session_inv rs_New s" and est: "se_state s = StateEstablished"
  shows "session_inv rs_New (on_carrier i (\<lambda>c. c\<lparr>ca_acked := True, ca_healthy := True, ca_exhausted := False, ca_nextRetry := None\<rparr>) s)" (is "session_inv _ ?s")
proof -
  let ?f = "\<lambda>c. c\<lparr>ca_acked := True, ca_healthy := True, ca_exhausted := False, ca_nextRetry := None\<rparr>"
  note M = carrier_map [where f = ?f and s = s and i = i, simplified]
  note K = session_invD(4) [OF inv, unfolded carriers_ok_def]
  have "carrier_ok (se_settings s) c'" if "c' \<in> set (se_carriers ?s)" for c'
    using set_on_carrier [OF that] K by (auto simp: carrier_ok_def split: if_splits)
  moreover have "se_role s = RoleListener \<longrightarrow> se_carriers ?s = []" using K by (simp add: on_carrier_def)
  ultimately have "carriers_ok ?s" using K by (simp add: carriers_ok_def M(1))
  moreover have "endpoints_ok ?s" "probes_ok ?s"
    using session_invD(5,6) [OF inv] by (simp_all add: endpoints_ok_def endpoint_ok_def probes_ok_def M(2))
  moreover have "phase_ok rs_New ?s" using session_invD(7) [OF inv] est
    by (simp add: phase_ok_def established_def encoder_for_def decoder_for_def budget_of_def)
  moreover have "waiting ?s" using session_invD(8) [OF inv] set_on_carrier [of _ i ?f s] est unfolding waiting_def on_carrier_fields by fastforce
  ultimately show ?thesis using session_invD(1,2,3) [OF inv] by (intro session_invI) simp_all
qed

definition acked :: "carrierState \<Rightarrow> carrierState" where
  "acked c = c\<lparr>ca_acked := True, ca_healthy := True, ca_exhausted := False, ca_nextRetry := None\<rparr>"

text \<open>The first acceptable HELLO_ACK establishes an initiator.\<close>

lemma handle_hello_ack_establishes:
  assumes inv: "session_inv rs_New s" and path: "learnable key reply s" and new: "se_role s = RoleInitiator" "se_state s = StateHandshaking"
    and e: "establishLocked rs_New (msg_Handshake m) (ev_now ev) s = (None, a)"
  obtains b where "handle_hello_ack rs_New ev key reply m result s =
      (None, learned (True, False) (result\<lparr>hr_Established := True\<rparr>), None, on_carrier (rp_PathID reply) acked b)"
    "session_inv rs_New b" "se_state b = StateEstablished" "forward s b" "quiet a b"
  using e
proof (cases rule: establishLocked_cases)
  case (done_with encoder decoder)
  have ia: "session_inv rs_New a"
    by (rule establishLocked_keeps) (use inv new e in \<open>simp_all add: session_inv_def\<close>)
  have a: "se_state a = StateEstablished" "se_endpoints a = []" "learnable key reply a" "forward s a"
    using not_established_idle [OF inv] new path forward_established [OF new(2)]
    by (simp_all add: done_with(3) established_with_def Let_def idle_def learnable_def carrier_ids_def)
  obtain b where b: "learnEndpointLocked (ev_available ev 1) key reply (ev_now ev) a = (Inr (True, False), b)"
    using learn_first [OF ia a(2), of "ev_available ev 1" key reply "ev_now ev"] by (metis prod.collapse)
  note L = learnEndpointLocked_keeps [OF ia a(1,3) b]
  show thesis
    by (rule that [OF _ L(1) _ forward_quiet [OF a(4) L(2)] L(2)])
       (use new e a(1) quiet_fields(4) [OF L(2)] in \<open>simp_all add: handle_hello_ack_def acked_def [abs_def] b [unfolded One_nat_def]\<close>)
qed simp

lemma handle_hello_ack_ok:
  assumes inv: "session_inv rs_New s" and path: "learnable key reply s"
  shows "handled_ok rs_New ev (Some reply) m s (handle_hello_ack rs_New ev key reply m result s)"
proof -
  let ?f = "\<lambda>c. c\<lparr>ca_acked := True, ca_healthy := True, ca_exhausted := False, ca_nextRetry := None\<rparr>"
  have fin: "handled_ok rs_New ev (Some reply) m s (None, result', None, on_carrier i ?f b)" if "session_inv rs_New b" "se_state b = StateEstablished" "forward s b" for result' i b
    by (rule handled_done [OF acked_keeps [OF that(1,2)] forward_trans [OF that(3) forward_on_carrier]]) simp
  consider (off) "se_role s \<noteq> RoleInitiator \<or> se_state s \<noteq> StateHandshaking \<and> se_state s \<noteq> StateEstablished"
    | (new) "se_role s = RoleInitiator" "se_state s = StateHandshaking" | (old) "se_role s = RoleInitiator" "se_state s = StateEstablished" by blast
  then show ?thesis
  proof cases
    case off
    then show ?thesis using handled_reject [OF inv] by (auto simp: handle_hello_ack_def rejection_def)
  next
    case new
    obtain err a where e: "establishLocked rs_New (msg_Handshake m) (ev_now ev) s = (err, a)" by fastforce
    from e show ?thesis
    proof (cases rule: establishLocked_cases)
      case failed
      then show ?thesis using e new handled_reject [OF inv] by (simp add: handle_hello_ack_def rejection_def)
    next
      case (done_with encoder decoder)
      show ?thesis
        by (rule handle_hello_ack_establishes [where result = result, OF inv path new e [unfolded done_with(1)]]) (simp add: fin [folded acked_def [abs_def]])
    qed
  next
    case old
    show ?thesis
    proof (cases "validateFrozenHandshakeLocked (msg_Handshake m) s")
      case None
      obtain r b where b: "learnEndpointLocked (ev_available ev 1) key reply (ev_now ev) s = (r, b)" by fastforce
      note L = learnEndpointLocked_keeps [OF inv old(2) path b]
      show ?thesis
      proof (cases r)
        case (Inl e)
        then show ?thesis using old None handled_limit [OF inv path learn_limit [OF inv]] b by (simp add: handle_hello_ack_def)
      next
        case (Inr flags)
        then show ?thesis using fin [OF L(1)] quiet_fields(4) [OF L(2)] quiet_forward [OF L(2)] old None
          by (simp add: handle_hello_ack_def b [unfolded One_nat_def])
      qed
    qed (use old handled_reject [OF inv] frozen_rejects in \<open>simp add: handle_hello_ack_def\<close>)
  qed
qed


lemma inv_keep_decoder:
  assumes inv: "session_inv rs_New a" and est: "se_state a = StateEstablished" and d: "se_decoder a = Some d"
  shows "session_inv rs_New (a\<lparr>se_decoder := Some (snd (AddVerifiedShard now input d))\<rparr>)"
proof (rule inv_decoder [OF inv est])
  show "decoder_for rs_New a (snd (AddVerifiedShard now input d))"
    by (rule decoder_for_add) (rule established_fields [OF inv est], use d in simp)
qed

lemma handle_data_ok:
  assumes inv: "session_inv rs_New s" and path: "learnable key reply s"
  shows "handled_ok rs_New ev (Some reply) m s (handle_data ev key reply m result s)"
proof -
  let ?d = "msg_DataShard m"
  show ?thesis
  proof (cases "se_state s = StateEstablished \<and> int (unat (ds_DataShards ?d)) = DataShards (sg_params (se_settings s)) \<and>
      int (unat (ds_ParityShards ?d)) = ParityShards (sg_params (se_settings s))")
    case False
    have "rejection ErrNotEstablished" "rejection ErrHandshakeIncompatible" by (simp_all add: rejection_def)
    note R = this [THEN handled_reject [OF inv]]
    show ?thesis using False R unfolding handle_data_def Let_def by presburger
  next
    case True
    then have on: "se_state s = StateEstablished" by simp
    obtain q a where a: "canLearnEndpointLocked (ev_available ev 1) key reply (ev_now ev) s = (q, a)" by fastforce
    note C = canLearnEndpointLocked_keeps [OF inv a]
    note F = quiet_fields [OF C(2)]
    have sw: "a = swept (ev_available ev 1) key reply (ev_now ev) s" using canLearn_swept [OF inv, of "ev_available ev 1" key reply "ev_now ev"] a by simp
    have est: "se_state a = StateEstablished" using on F by simp
    obtain d where d: "se_decoder a = Some d" by (rule established_fields [OF C(1) est])
    obtain res d' where add: "AddVerifiedShard (ev_decoderNow ev) (incoming s ?d) d = (res, d')" by fastforce
    have inc: "incoming a ?d = incoming s ?d" by (simp add: incoming_def F)
    let ?b = "a\<lparr>se_decoder := Some d'\<rparr>"
    have b: "session_inv rs_New ?b" using inv_keep_decoder [OF C(1) est d, of "ev_decoderNow ev" "incoming s ?d"] by (simp add: add)
    have fb: "forward s ?b" by (rule forward_trans [OF quiet_forward [OF C(2)]]) simp
    have E: "handle_data ev key reply m result s =
        (case q of Some err \<Rightarrow> (Some err, result, None, a)
         | None \<Rightarrow>
            (case res of Inl err \<Rightarrow> (Some (FecFailure err), result, None, ?b)
             | Inr decoded \<Rightarrow>
                if rs_Outcome decoded = OutcomeTooOld then (None, result, None, ?b)
                else
                  (case learnEndpointLocked (ev_available ev 2) key reply (ev_now ev) ?b of
                     (Inl err, s) \<Rightarrow> (Some err, result, None, s)
                   | (Inr flags, s) \<Rightarrow>
                       (None, (learned flags result)\<lparr>hr_Datagram := if rs_Outcome decoded = OutcomeComplete then rs_Datagram decoded else hr_Datagram result\<rparr>, None, s))))"
      using True by (cases q; cases res) (simp_all add: handle_data_def Let_def a [unfolded One_nat_def] d add inc)
    show ?thesis
    proof (cases q)
      case (Some e)
      then show ?thesis using handled_limit [OF inv path] a by (simp add: E)
    next
      case None
      show ?thesis
      proof (cases res)
        case (Inl e)
        have "error_effect ev (Some reply) m s (FecFailure e) ?b" unfolding error_effect_def
          using path d add Inl F(11) unfolding sw learnable_def
          by (intro disjI2 exI [of _ reply] exI [of _ key] exI [of _ e] exI [of _ d] exI [of _ d'] conjI) simp_all
        then show ?thesis using b fb None Inl by (simp add: E handled_ok_def)
      next
        case (Inr x)
        obtain r c where c: "learnEndpointLocked (ev_available ev 2) key reply (ev_now ev) ?b = (r, c)" by fastforce
        have lb: "learnable key reply ?b" using path learnable_quiet [OF C(2), of key reply] by (simp add: learnable_def carrier_ids_def)
        note L = learnEndpointLocked_keeps [OF b _ lb c]
        have "\<exists>flags. r = Inr flags" by (rule learn_again [OF inv b _ lb a [unfolded None] _ _ c]) (simp_all add: est)
        then show ?thesis
          using handled_done [OF L(1) forward_quiet [OF fb L(2)]] handled_done [OF b fb] est None Inr
          by (auto simp: E c)
      qed
    qed
  qed
qed

lemma handle_pong_ok:
  assumes inv: "session_inv rs_New s" and path: "learnable key reply s"
  shows "handled_ok rs_New ev (Some reply) m s (handle_pong ev key reply m result s)"
proof -
  let ?k = "probeKeyLocked reply key s"
  have "rejection ErrNotEstablished" "rejection ErrProbeMismatch" by (simp_all add: rejection_def)
  note R = this [THEN handled_reject [OF inv]]
  show ?thesis
  proof (cases "se_state s = StateEstablished \<and> (\<exists>probe. map_of (se_outstanding s) ?k = Some probe \<and> ob_token probe = pr_Token (msg_Probe m) \<and>
      ob_timestamp probe = pr_Timestamp (msg_Probe m) \<and> \<not> ev_now ev < ob_sentAt probe)")
    case False
    then show ?thesis using R by (cases "map_of (se_outstanding s) ?k") (auto simp: handle_pong_def Let_def)
  next
    case True
    then obtain probe where on: "se_state s = StateEstablished" "map_of (se_outstanding s) ?k = Some probe" "ob_token probe = pr_Token (msg_Probe m)"
      "ob_timestamp probe = pr_Timestamp (msg_Probe m)" "\<not> ev_now ev < ob_sentAt probe" by blast
    obtain q a where a: "canLearnEndpointLocked (ev_available ev 1) key reply (ev_now ev) s = (q, a)" by fastforce
    note C = canLearnEndpointLocked_keeps [OF inv a]
    let ?b = "a\<lparr>se_outstanding := AList.delete ?k (se_outstanding a)\<rparr>"
    have b: "session_inv rs_New ?b" by (rule inv_drop_probe [OF C(1)])
    have qb: "quiet s ?b" using C(2) quiet_probes by (rule quiet_trans)
    obtain r c where c: "learnEndpointLocked (ev_available ev 2) key reply (ev_now ev) ?b = (r, c)" by fastforce
    have lb: "learnable key reply ?b" using path learnable_quiet [OF qb] by simp
    have est: "se_state ?b = StateEstablished" using quiet_fields(4) [OF qb] on by simp
    note L = learnEndpointLocked_keeps [OF b est lb c]
    let ?s = "on_endpoint key (\<lambda>e. e\<lparr>ep_rtt := ev_now ev - ob_sentAt probe, ep_hasRTT := True\<rparr>) c"
    have fin: "session_inv rs_New ?s"
    proof (rule inv_on_endpoint [OF L(1)])
      show "endpoint_ok c key (e\<lparr>ep_rtt := ev_now ev - ob_sentAt probe, ep_hasRTT := True\<rparr>)" if "map_of (se_endpoints c) key = Some e" for e
        using map_of_SomeD [OF that] session_invD(5) [OF L(1)] by (auto simp: endpoints_ok_def endpoint_ok_def)
    qed simp
    have "forward s ?s" by (rule quiet_forward [OF quiet_trans [OF quiet_trans [OF qb L(2)] quiet_on_endpoint]])
    moreover have "\<exists>flags. r = Inr flags" if "q = None"
      by (rule learn_again [OF inv b est lb a [unfolded that] _ _ c]) simp_all
    moreover have "handle_pong ev key reply m result s =
        (case q of Some err \<Rightarrow> (Some err, result, None, a)
         | None \<Rightarrow>
             (case r of Inl err \<Rightarrow> (Some err, result, None, c)
              | Inr flags \<Rightarrow> (None, (learned flags result)\<lparr>hr_RTTUpdated := True, hr_RTT := ev_now ev - ob_sentAt probe\<rparr>, None, ?s)))"
      using on by (cases q; cases r) (simp_all add: handle_pong_def Let_def a [unfolded One_nat_def] c)
    ultimately show ?thesis using handled_limit [OF inv path] a handled_done [OF fin] by (cases q) auto
  qed
qed

lemma handle_message_ok:
  assumes inv: "session_inv rs_New s" and path: "learnable key reply s" and t: "hdr_Type (msg_Header m) = TypePing \<Longrightarrow> pr_Token (msg_Probe m) \<noteq> 0"
  shows "handled_ok rs_New ev (Some reply) m s (handle_message rs_New ev key reply m result s)"
  using handle_hello_ok [OF inv path] handle_hello_ack_ok [OF inv path] handle_data_ok [OF inv path] handle_ping_ok [OF inv path t]
    handle_pong_ok [OF inv path] handle_close_ok [OF inv] handled_reject [OF inv, of ErrUnexpectedPacket]
  by (simp add: handle_message_def Let_def rejection_def)

lemma carrierByID_in: "carrierByID s i \<noteq> None \<longleftrightarrow> i \<in> carrier_ids s"
  by (auto simp: carrierByID_def carrier_ids_def find_None_iff)

text \<open>The whole locked section, for a message that the wire codec accepts.\<close>

lemma handle_locked_ok:
  assumes inv: "session_inv rs_New s" and t: "hdr_Type (msg_Header m) = TypePing \<Longrightarrow> pr_Token (msg_Probe m) \<noteq> 0"
    and key: "key = [] \<or> replyIdentityUnchecked (rc_Reply packet) = Inr key"
  shows "handled_ok rs_New ev (rc_Reply packet) m s (handle_locked rs_New ev packet m key s)"
proof (cases "replyIdentityUnchecked (rc_Reply packet)")
  case (Inl e)
  have "rejection ErrUnknownSession" "rejection ErrInvalidReplyPath" by (simp_all add: rejection_def)
  then show ?thesis using Inl key handled_reject [OF inv] by (simp add: handle_locked_def Let_def)
next
  case (Inr k)
  then obtain reply where reply: "rc_Reply packet = Some reply" by (auto simp: replyIdentityUnchecked_def split: option.splits)
  have k: "(if key = [] then replyIdentityUnchecked (rc_Reply packet) else Inr key) = Inr k" using key Inr by auto
  have "rejection ErrUnknownSession" "rejection ErrInvalidReplyPath" "rejection ErrClosed" "rejection ErrUnknownPath" "rejection ErrPacketOverBudget"
    by (simp_all add: rejection_def)
  note R = this [THEN handled_reject [OF inv]]
  have "handled_ok rs_New ev (Some reply) m s (handle_message rs_New ev k reply m (newResult m) s)"
    if "\<not> (se_role s = RoleInitiator \<and> carrierByID s (rp_PathID reply) = None)"
    by (rule handle_message_ok [OF inv _ t]) (use that Inr reply carrierByID_in in \<open>auto simp: learnable_def\<close>)
  moreover have "handle_locked rs_New ev packet m key s =
      (if hdr_SessionID (msg_Header m) \<noteq> se_id s then (Some ErrUnknownSession, newResult m, None, s)
       else if \<not> ev_available ev 0 (Reply reply) then (Some ErrInvalidReplyPath, newResult m, None, s)
       else if se_state s = StateClosed then (Some ErrClosed, newResult m, None, s)
       else if se_role s = RoleInitiator \<and> carrierByID s (rp_PathID reply) = None then (Some ErrUnknownPath, newResult m, None, s)
       else if se_state s = StateEstablished \<and> int (length (rc_Payload packet)) > se_receiveMaxUDPPayload s
         then (Some ErrPacketOverBudget, newResult m, None, s)
       else handle_message rs_New ev k reply m (newResult m) s)"
    unfolding handle_locked_def reply k [unfolded reply] Let_def prod.case sum.case option.case ..
  ultimately show ?thesis using R [where reply = "Some reply"] unfolding reply by (simp split: if_split)
qed

end
