(* ===== verification/SessionLife.thy ===== *)
theory SessionLife
  imports SessionHandle
begin

text \<open>
  A v0.1 session as a transition system: it starts as a new initiator or as the session a listener
  creates, and every locked section is a step, so that the sections of concurrent calls interleave freely. The
  public methods are sequences of such steps.
\<close>

subsection \<open>Systems that make progress\<close>

text \<open>A transition system whose steps respect a preorder on its states.\<close>

locale progress_system = transition_system +
  fixes before_or_same :: "'a \<Rightarrow> 'a \<Rightarrow> bool"
  assumes same: "before_or_same s s"
    and compose: "before_or_same s t \<Longrightarrow> before_or_same t u \<Longrightarrow> before_or_same s u"
    and progress: "inv s \<Longrightarrow> step s t \<Longrightarrow> before_or_same s t"
begin

lemma reachable_steps: "step\<^sup>*\<^sup>* s t \<Longrightarrow> reachable start step s \<Longrightarrow> reachable start step t"
  by (induction rule: rtranclp_induct) (auto intro: reach_step)

lemma run_progress: "step\<^sup>*\<^sup>* s t \<Longrightarrow> inv s \<Longrightarrow> inv t \<and> before_or_same s t"
  by (induction rule: rtranclp_induct) (auto intro: same inv_step compose progress)

end

subsection \<open>The system\<close>

definition decoded :: "settings \<Rightarrow> bytes \<Rightarrow> Message \<Rightarrow> bool" where
  "decoded g payload m \<longleftrightarrow> fst (Authenticator_Decode (Some (sg_authenticator g)) payload (sg_localMaxUDPPayload g)) = Inr m"

lemma decoded_iff: "decoded g payload m \<longleftrightarrow> DecodeAuthenticated payload (auth_key (sg_authenticator g)) (sg_localMaxUDPPayload g) = Inr m"
  by (simp add: decoded_def Authenticator_Decode_def decode_pooled)

lemma decoded_valid: "decoded g payload m \<Longrightarrow> validateMessage m = None"
  unfolding decoded_iff by (drule decode_accepted) (simp add: wireAdmissible_def)

lemma valid_ping: "validateMessage m = None \<Longrightarrow> hdr_Type (msg_Header m) = TypePing \<Longrightarrow> pr_Token (msg_Probe m) \<noteq> 0"
  by (auto simp: validateMessage_def Let_def split: if_splits)

definition session_start :: "(int \<Rightarrow> int \<Rightarrow> rs_codec option) \<Rightarrow> Session \<Rightarrow> bool" where
  "session_start rs_New s \<longleftrightarrow>
     (\<exists>i config carriers. NewInitiator i config carriers = Inr s) \<or>
     (\<exists>ev i g h key path. settings_ok g \<and> i \<noteq> 0 \<and> replyIdentityUnchecked (Some path) = Inr key \<and>
        newListenerSession rs_New ev i g h key path = Inr s)"

inductive session_step :: "(int \<Rightarrow> int \<Rightarrow> rs_codec option) \<Rightarrow> Session \<Rightarrow> Session \<Rightarrow> bool" for rs_New where
  step_start: "session_step rs_New s (snd (start_locked now s))"
| step_handle: "decoded (se_settings s) (rc_Payload packet) m \<Longrightarrow> key = [] \<or> replyIdentityUnchecked (rc_Reply packet) = Inr key \<Longrightarrow>
    handle_locked rs_New ev packet m key s = (err, result, response, s') \<Longrightarrow> session_step rs_New s s'"
| step_advance: "advance_locked ev s = (r, result, s') \<Longrightarrow> session_step rs_New s s'"
| step_write: "session_step rs_New s (snd (write_locked ev s))"
| step_encode: "session_step rs_New s (snd (encode_payload payload s))"
| step_settle: "session_step rs_New s (settle cleanFailedProbes p sent s)"
| step_health: "session_step rs_New s (setPathHealthForPath path healthy s)"
| step_set_healthy: "session_step rs_New s (snd (SetPathHealthy pathID healthy s))"
| step_send_paths: "session_step rs_New s (snd (SendPaths ev s))"
| step_close: "session_step rs_New s (snd (close_locked ev (s\<lparr>se_closeOnce := True\<rparr>)))"
| step_close_error: "session_step rs_New s (s\<lparr>se_closeErr := failure\<rparr>)"

inductive_cases session_stepE: "session_step rs_New s s'"

lemma NewInitiator_inv:
  assumes "NewInitiator i config carriers = Inr s"
  shows "session_inv rs_New s"
proof -
  obtain g where g: "normalizeConfig config = Inr g" and c: "i \<noteq> 0" "int (length carriers) \<le> 256" "\<forall>p \<in> set carriers. PathID p \<noteq> []"
      "distinct (map PathID carriers)"
    and s: "s = \<lparr>se_id = i, se_role = RoleInitiator, se_settings = g, se_state = StateHandshaking, se_started = False,
       se_carriers = map (\<lambda>p. \<lparr>ca_path = p, ca_attempts = 0, ca_acked = False, ca_exhausted = False, ca_nextRetry = None, ca_healthy = True\<rparr>) carriers,
       se_endpoints = [], se_outstanding = [], se_nextToken = initialToken i, se_peerMaxUDPPayload = 0, se_sendMaxUDPPayload = 0,
       se_receiveMaxUDPPayload = 0, se_encoder = None, se_decoder = None, se_nextKeepalive = None, se_nextDecodeSweep = None,
       se_closeOnce = False, se_closeErr = None\<rparr>"
    using assms by (auto simp: NewInitiator_def not_less split: sum.splits if_splits)
  have ok: "settings_ok g" using g by (auto simp: settings_ok_def)
  have "initialToken i \<noteq> 0" by (simp add: initialToken_def Let_def)
  then show ?thesis using c ok settings_okD [OF ok]
    by (intro session_invI) (auto simp: s carriers_ok_def carrier_ok_def endpoints_ok_def probes_ok_def phase_ok_def idle_def waiting_def comp_def)
qed

lemma emptyListenerSession_ok:
  "settings_ok g \<Longrightarrow> i \<noteq> 0 \<Longrightarrow> base_ok (emptyListenerSession i g) \<and> waiting (emptyListenerSession i g) \<and> se_state (emptyListenerSession i g) = StateHandshaking"
  using settings_okD(11) [of g]
  by (simp add: base_ok_def emptyListenerSession_def initialToken_def Let_def carriers_ok_def endpoints_ok_def probes_ok_def waiting_def)

lemma learn_path:
  assumes "learnEndpointLocked available key path now s = (Inr flags, s')"
  shows "ep_path (the (map_of (se_endpoints s') key)) = path"
  using assms by (auto simp: learnEndpointLocked_def on_endpoint_def update_conv split: prod.splits option.splits)

lemma newListenerSession_cases:
  assumes g: "settings_ok g" "i \<noteq> 0" and path: "replyIdentityUnchecked (Some path) = Inr key"
  obtains (failed) "newListenerSession rs_New ev i g h key path = Inl ErrHandshakeIncompatible"
      "fst (establishLocked rs_New h (ev_now ev) (emptyListenerSession i g)) \<noteq> None"
  | (created) e d s where "newListenerSession rs_New ev i g h key path = Inr s" "session_inv rs_New s" "validateHandshake g h = None"
      "quiet (established_with h (ev_now ev) e d (emptyListenerSession i g)) s" "map_of (se_endpoints s) key \<noteq> None"
      "ep_path (the (map_of (se_endpoints s) key)) = path"
proof -
  let ?s = "emptyListenerSession i g"
  obtain err a where e: "establishLocked rs_New h (ev_now ev) ?s = (err, a)" by fastforce
  from e show thesis
  proof (cases rule: establishLocked_cases)
    case failed
    then show thesis using e that(1) by (simp add: newListenerSession_def)
  next
    case (done_with enc dec)
    have ia: "session_inv rs_New a" by (rule establishLocked_keeps) (use emptyListenerSession_ok [OF g] e done_with(1) in auto)
    have a: "se_state a = StateEstablished" "se_endpoints a = []" "learnable key path a"
      using path by (simp_all add: done_with(3) established_with_def emptyListenerSession_def Let_def learnable_def)
    obtain b where b: "learnEndpointLocked (ev_available ev 1) key path (ev_now ev) a = (Inr (True, False), b)"
      using learn_first [OF ia a(2), of "ev_available ev 1" key path "ev_now ev"] by (metis prod.collapse)
    note L = learnEndpointLocked_keeps [OF ia a(1,3) b]
    have "newListenerSession rs_New ev i g h key path = Inr b"
      using e done_with(1) by (simp add: newListenerSession_def b [unfolded One_nat_def])
    moreover have "validateHandshake g h = None" using done_with(2) by (simp add: emptyListenerSession_def)
    moreover have "ep_path (the (map_of (se_endpoints b) key)) = path" using learn_path [OF b] .
    ultimately show thesis using that(2) L done_with(3) by auto
  qed
qed

lemma session_start_inv: "session_start rs_New s \<Longrightarrow> session_inv rs_New s"
  unfolding session_start_def
proof (elim disjE exE conjE)
  fix ev i g h key path
  assume a: "settings_ok g" "i \<noteq> 0" "replyIdentityUnchecked (Some path) = Inr key" and s: "newListenerSession rs_New ev i g h key path = Inr s"
  show "session_inv rs_New s"
    by (rule newListenerSession_cases [OF a, of rs_New ev h]) (use s in auto)
qed (rule NewInitiator_inv)

lemma start_locked_forward:
  assumes "session_inv rs_New s"
  shows "forward s (snd (start_locked now s))"
proof -
  have "settings_ok (se_settings (s\<lparr>se_started := True\<rparr>))" "se_id (s\<lparr>se_started := True\<rparr>) \<noteq> 0" using session_invD(1,2) [OF assms] by simp_all
  then show ?thesis by (auto simp: start_locked_def hello_all_ok forward_def same_budgets_def carrier_ids_def attempted_def image_image)
qed

lemma retry_carriers_forward:
  assumes "session_inv rs_New s" "retry_carriers ev s = (r, failed, s')"
  shows "forward s s'"
proof (cases "se_role s = RoleInitiator \<and> se_started s")
  case True
  define t where "t = s\<lparr>se_carriers := map (retried s (ev_now ev)) (se_carriers s)\<rparr>"
  have "map (PathID \<circ> ca_path) (se_carriers t) = map (PathID \<circ> ca_path) (se_carriers s)" by (simp add: t_def retried_def attempted_def)
  then have i: "carrier_ids t = carrier_ids s" unfolding carrier_ids_map by simp
  have "s' = t \<or> se_state s = StateHandshaking \<and> s' = t\<lparr>se_state := StateHandshakeFailed\<rparr>"
    using assms(2) unfolding retry_carriers_eq [OF assms(1) conjunct1 [OF True] conjunct2 [OF True]] by (auto simp: Let_def t_def split: if_splits)
  moreover have "carrier_ids (t\<lparr>se_state := StateHandshakeFailed\<rparr>) = carrier_ids s" using i by (simp add: carrier_ids_def)
  ultimately show ?thesis using i by (auto simp: forward_def same_budgets_def t_def)
qed (use assms(2) in \<open>auto simp: retry_carriers_def\<close>)

lemma forward_timers: "forward s (s\<lparr>se_decoder := d, se_nextDecodeSweep := t\<rparr>)" "forward s (s\<lparr>se_nextToken := n, se_outstanding := ps, se_nextKeepalive := u\<rparr>)"
  by (simp_all add: forward_def same_budgets_def carrier_ids_def)

lemma advance_locked_forward:
  assumes inv: "session_inv rs_New s" and r: "advance_locked ev s = (r, result, s')"
  shows "forward s s'"
proof (cases "se_state s = StateClosed")
  case True
  then show ?thesis using r by (simp add: advance_locked_def)
next
  case False
  show ?thesis
  proof (rule advance_locked_stages [OF inv False r])
    fix a d t plans failed c token ps u
    assume st: "quiet s a" "session_inv rs_New (a\<lparr>se_decoder := d, se_nextDecodeSweep := t\<rparr>)"
      "retry_carriers ev (a\<lparr>se_decoder := d, se_nextDecodeSweep := t\<rparr>) = (Inr plans, failed, c)"
      "s' = c\<lparr>se_nextToken := token, se_outstanding := ps, se_nextKeepalive := u\<rparr>"
    show "forward s s'" unfolding st(4)
      by (rule forward_trans [OF quiet_forward [OF st(1)] forward_trans [OF forward_timers(1)
            forward_trans [OF retry_carriers_forward [OF st(2,3)] forward_timers(2)]]])
  qed
qed

lemma close_locked_step: "session_inv rs_New s \<Longrightarrow> session_inv rs_New (snd (close_locked ev (s\<lparr>se_closeOnce := True\<rparr>))) \<and> forward s (snd (close_locked ev (s\<lparr>se_closeOnce := True\<rparr>)))"
  using close_locked_keeps [of rs_New "s\<lparr>se_closeOnce := True\<rparr>" ev] forward_trans [OF forward_update(3) forward_closed]
  by (simp add: inv_closeOnce close_locked_def)

lemma quiet_step: "session_inv rs_New s' \<and> quiet s s' \<Longrightarrow> session_inv rs_New s' \<and> forward s s'"
  using quiet_forward by blast

lemma session_step_ok:
  assumes "session_step rs_New s s'" "session_inv rs_New s"
  shows "session_inv rs_New s' \<and> forward s s'"
  using assms(1)
proof (cases rule: session_step.cases)
  case (step_start now)
  then show ?thesis using start_locked_keeps [OF assms(2) surjective_pairing] start_locked_forward [OF assms(2)] by simp
next
  case (step_handle packet m key ev err result response)
  then show ?thesis
    using handle_locked_ok [OF assms(2) valid_ping [OF decoded_valid [OF step_handle(1)]] step_handle(2), of ev] by (simp add: handled_ok_def)
next
  case (step_advance ev r result)
  then show ?thesis using advance_locked_keeps [OF assms(2)] advance_locked_forward [OF assms(2)] by blast
next
  case (step_write ev)
  show ?thesis unfolding step_write by (rule quiet_step [OF write_locked_keeps [OF assms(2)]])
next
  case (step_encode payload)
  have "forward s (snd (encode_payload payload s))" by (simp add: encode_payload_def split: option.split prod.split sum.split)
  then show ?thesis using step_encode encode_payload_keeps assms(2) by blast
next
  case (step_settle b p sent)
  show ?thesis unfolding step_settle by (rule quiet_step [OF conjI [OF settle_keeps [OF assms(2)]]])
next
  case (step_health path b)
  show ?thesis unfolding step_health by (rule quiet_step [OF conjI [OF setPathHealthForPath_keeps [OF assms(2)]]])
next
  case (step_set_healthy i b)
  show ?thesis unfolding step_set_healthy by (rule quiet_step [OF conjI [OF SetPathHealthy_keeps [OF assms(2)]]])
next
  case (step_send_paths ev)
  have "snd (SendPaths ev s) = snd (sweepEndpointsLocked (ev_now ev) s)" by (simp add: SendPaths_def Let_def)
  then show ?thesis unfolding step_send_paths using quiet_step [OF sweepEndpointsLocked_keeps [OF assms(2)]] by simp
next
  case (step_close ev)
  show ?thesis unfolding step_close by (rule close_locked_step [OF assms(2)])
next
  case (step_close_error e)
  show ?thesis unfolding step_close_error using assms(2) by (simp add: inv_closeErr)
qed

interpretation session_system: progress_system "session_start rs_New" "session_step rs_New" "session_inv rs_New" forward
proof unfold_locales
  show "session_start rs_New s \<Longrightarrow> session_inv rs_New s" for s by (rule session_start_inv)
  show "session_inv rs_New s \<Longrightarrow> session_step rs_New s t \<Longrightarrow> session_inv rs_New t" for s t using session_step_ok by blast
  show "forward s s" for s by simp
  show "forward s t \<Longrightarrow> forward t u \<Longrightarrow> forward s u" for s t u by (rule forward_trans)
  show "session_inv rs_New s \<Longrightarrow> session_step rs_New s t \<Longrightarrow> forward s t" for s t using session_step_ok by blast
qed

end
