(* ===== verification/SessionProps.thy ===== *)
theory SessionProps
  imports SessionLife
begin

text \<open>
  The properties of the v0.1 session and of its public methods.
\<close>

subsection \<open>The methods are sequences of steps\<close>

lemma execute_steps: "(session_step rs_New)\<^sup>*\<^sup>* s (snd (execute net b n plans s))"
proof (induction plans arbitrary: n s)
  case (Cons p plans)
  let ?t = "settle b p (send_one (se_settings s) net n p) s"
  have "session_step rs_New s ?t" by (rule step_settle)
  then show ?case using Cons.IH [where n = "n + 1" and s = ?t] by (simp add: Let_def split_beta converse_rtranclp_into_rtranclp)
qed simp

lemma executed_steps:
  assumes "(session_step rs_New)\<^sup>*\<^sup>* s a" "execute net b n plans a = (attempts, s')"
  shows "(session_step rs_New)\<^sup>*\<^sup>* s s'"
  using assms(1) execute_steps [of rs_New a net b n plans] unfolding assms(2) by simp

lemma Start_steps: "(session_step rs_New)\<^sup>*\<^sup>* s (snd (Start c ev net s))"
proof -
  have "(session_step rs_New)\<^sup>*\<^sup>* s (snd (start_locked (ev_now ev) s))" using step_start by blast
  from executed_steps [OF this] this show ?thesis by (auto simp: Start_def split: option.split prod.split sum.split)
qed

lemma handleAuthenticated_steps:
  assumes "decoded (se_settings s) (rc_Payload packet) m" "key = [] \<or> replyIdentityUnchecked (rc_Reply packet) = Inr key"
  shows "(session_step rs_New)\<^sup>*\<^sup>* s (snd (snd (handleAuthenticatedWithIdentity rs_New ev net packet m key s)))"
proof -
  obtain err result response a where h: "handle_locked rs_New ev packet m key s = (err, result, response, a)" by (metis prod_cases4)
  have "(session_step rs_New)\<^sup>*\<^sup>* s a" using step_handle [OF assms h] by blast
  from executed_steps [OF this] this show ?thesis
    by (auto simp: handleAuthenticatedWithIdentity_def h simp del: execute.simps split: option.split prod.split)
qed

lemma HandlePacket_steps: "(session_step rs_New)\<^sup>*\<^sup>* s (snd (snd (HandlePacket rs_New c ev net packet s)))"
proof (cases "\<exists>m. check_context c = None \<and> decoded (se_settings s) (rc_Payload packet) m")
  case True
  then obtain m where m: "check_context c = None" "decoded (se_settings s) (rc_Payload packet) m" by blast
  have "HandlePacket rs_New c ev net packet s = handleAuthenticatedWithIdentity rs_New ev net packet m [] s"
    using m by (auto simp: HandlePacket_def decoded_def split: prod.split)
  then show ?thesis using handleAuthenticated_steps [OF m(2)] by simp
next
  case False
  then have "snd (snd (HandlePacket rs_New c ev net packet s)) = s"
    by (auto simp: HandlePacket_def decoded_def split: prod.split sum.split option.split)
  then show ?thesis by simp
qed

lemma Advance_steps: "(session_step rs_New)\<^sup>*\<^sup>* s (snd (snd (Advance c ev net s)))"
proof -
  obtain r result a where a: "advance_locked ev s = (r, result, a)" by (metis prod_cases3)
  have "(session_step rs_New)\<^sup>*\<^sup>* s a" using step_advance [OF a] by blast
  from executed_steps [OF this] this show ?thesis by (auto simp: Advance_def a split: option.split prod.split sum.split)
qed

lemma recorded_steps: "(session_step rs_New)\<^sup>*\<^sup>* s (recordBlockPathFailures result paths s)"
proof -
  have "(session_step rs_New)\<^sup>*\<^sup>* s (fold (\<lambda>a s. if isPathHealthFailure (map_option NetFailure (at_Err a)) \<and> at_PathIndex a < length paths
      then setPathHealthForPath (paths ! at_PathIndex a) False s else s) as s)" for as
    by (induction as arbitrary: s) (auto intro: converse_rtranclp_into_rtranclp step_health)
  then show ?thesis by (simp add: recordBlockPathFailures_def)
qed

lemma WritePacket_steps: "(session_step rs_New)\<^sup>*\<^sup>* s (snd (snd (WritePacket c ev net payload s)))"
proof -
  let ?a = "snd (write_locked ev s)" and ?b = "snd (encode_payload payload (snd (write_locked ev s)))"
  have a: "(session_step rs_New)\<^sup>*\<^sup>* s ?a" using step_write by blast
  have b: "(session_step rs_New)\<^sup>*\<^sup>* s ?b" using a step_encode [of rs_New ?a payload] by (rule rtranclp.rtrancl_into_rtrancl)
  have c: "(session_step rs_New)\<^sup>*\<^sup>* s (recordBlockPathFailures result paths ?b)" for result paths using b recorded_steps by (rule rtranclp_trans)
  show ?thesis using a b c
    by (cases "write_locked ev s"; cases "encode_payload payload (snd (write_locked ev s))")
       (auto simp: WritePacket_def Let_def split: option.split sum.split prod.split)
qed

lemma CloseSession_steps: "(session_step rs_New)\<^sup>*\<^sup>* s (snd (snd (CloseSession c ev net s)))"
proof (cases "c = NilContext \<or> se_closeOnce s")
  case True
  then show ?thesis by (auto simp: CloseSession_def)
next
  case False
  obtain x a where a: "close_locked ev (s\<lparr>se_closeOnce := True\<rparr>) = (x, a)" by fastforce
  have 1: "(session_step rs_New)\<^sup>*\<^sup>* s a" using step_close [of rs_New s ev] by (auto simp: a)
  have e: "(session_step rs_New)\<^sup>*\<^sup>* s (b\<lparr>se_closeErr := err\<rparr>)" if "(session_step rs_New)\<^sup>*\<^sup>* s b" for b err
    using that step_close_error by (rule rtranclp.rtrancl_into_rtrancl)
  show ?thesis using False 1 e [OF 1] e [OF executed_steps [OF 1]]
    by (cases x) (auto simp: CloseSession_def a split: sum.split prod.split)
qed

text \<open>The reachable sessions.\<close>

abbreviation reachable_session :: "(int \<Rightarrow> int \<Rightarrow> rs_codec option) \<Rightarrow> Session \<Rightarrow> bool" where
  "reachable_session rs_New \<equiv> reachable (session_start rs_New) (session_step rs_New)"

lemma reachable_session_inv: "reachable_session rs_New s \<Longrightarrow> session_inv rs_New s"
  by (rule session_system.reachable_inv)

subsection \<open>An example\<close>

text \<open>Three shards of which two carry data; the codec of the example only has to exist, since its
  sessions carry no data.\<close>

definition exampleConfig :: Config where
  "exampleConfig =
     \<lparr>co_PSK = [1, 2, 3], co_FEC = \<lparr>DataShards = 2, ParityShards = 1\<rparr>, co_LocalMaxUDPPayload = 1200, co_MaxDatagramSize = 2000,
      co_MaxEndpoints = 4, co_MaxHandshakeAttempts = 3, co_MaxPendingFECBlocks = 16, co_MaxCompletedFECBlocks = 16,
      co_DecodeTimeout = 1000000000, co_CompletionTTL = 1000000000, co_EndpointTTL = 10000000000, co_KeepaliveInterval = 2000000000,
      co_HandshakeRetryInterval = 200000000, co_HandshakeRetryJitterLimit = 0\<rparr>"

definition exampleSettings :: settings where
  "exampleSettings =
     \<lparr>sg_authenticator = \<lparr>auth_key = [1, 2, 3], auth_states = 0\<rparr>, sg_params = \<lparr>DataShards = 2, ParityShards = 1\<rparr>, sg_localMaxUDPPayload = 1200,
      sg_maxDatagramSize = 2000, sg_maxEndpoints = 4, sg_maxHandshakeAttempts = 3, sg_maxPendingFECBlocks = 16, sg_maxCompletedFECBlocks = 16,
      sg_decodeTimeout = 1000000000, sg_completionTTL = 1000000000, sg_endpointTTL = 10000000000, sg_keepaliveInterval = 2000000000,
      sg_handshakeRetryInterval = 200000000, sg_handshakeJitterLimit = 50000000\<rparr>"

lemma exampleSettings_config: "normalizeConfig exampleConfig = Inr exampleSettings"
  by (simp add: normalizeConfig_def exampleConfig_def exampleSettings_def NewAuthenticator_def Let_def)

definition exampleInitiator :: Session where
  "exampleInitiator =
     \<lparr>se_id = 9, se_role = RoleInitiator, se_settings = exampleSettings, se_state = StateHandshaking, se_started = False,
      se_carriers = map (\<lambda>p. \<lparr>ca_path = p, ca_attempts = 0, ca_acked = False, ca_exhausted = False, ca_nextRetry = None, ca_healthy = True\<rparr>)
        [Carrier ''a'', Carrier ''b''],
      se_endpoints = [], se_outstanding = [], se_nextToken = initialToken 9, se_peerMaxUDPPayload = 0, se_sendMaxUDPPayload = 0,
      se_receiveMaxUDPPayload = 0, se_encoder = None, se_decoder = None, se_nextKeepalive = None, se_nextDecodeSweep = None,
      se_closeOnce = False, se_closeErr = None\<rparr>"

lemma exampleInitiator_new: "NewInitiator 9 exampleConfig [Carrier ''a'', Carrier ''b''] = Inr exampleInitiator"
  by (simp add: NewInitiator_def exampleSettings_config exampleInitiator_def)

lemma exampleInitiator_reachable: "reachable_session rs_New exampleInitiator"
  using exampleInitiator_new by (intro reach_start) (auto simp: session_start_def)

subsection \<open>Properties\<close>

text \<open>The budgets: none before the session is established, the smaller announced payload afterwards, and a closed session
  has those it had.\<close>

definition budgets_ok :: "Session \<Rightarrow> bool" where
  "budgets_ok s \<longleftrightarrow>
     (case se_state s of
        StateEstablished \<Rightarrow> negotiated s
      | StateClosed \<Rightarrow> se_peerMaxUDPPayload s = 0 \<and> se_sendMaxUDPPayload s = 0 \<and> se_receiveMaxUDPPayload s = 0 \<or> negotiated s
      | _ \<Rightarrow> se_peerMaxUDPPayload s = 0 \<and> se_sendMaxUDPPayload s = 0 \<and> se_receiveMaxUDPPayload s = 0)"

lemma established_negotiated: "session_inv rs_New s \<Longrightarrow> se_state s = StateEstablished \<Longrightarrow> negotiated s"
  using session_invD(7) by (fastforce simp: phase_ok_def established_def negotiated_def)

lemma budgets_start:
  assumes "session_start rs_New s"
  shows "budgets_ok s"
proof (cases "\<exists>i config carriers. NewInitiator i config carriers = Inr s")
  case True
  then obtain i config carriers where n: "NewInitiator i config carriers = Inr s" by blast
  then show ?thesis by (cases "normalizeConfig config") (auto simp: NewInitiator_def budgets_ok_def split: if_splits)
next
  case False
  then obtain ev i g h key path where p: "settings_ok g" "i \<noteq> 0" "replyIdentityUnchecked (Some path) = Inr key"
    and s: "newListenerSession rs_New ev i g h key path = Inr s" using assms unfolding session_start_def by blast
  have "se_state s = StateEstablished"
    by (rule newListenerSession_cases [OF p, of rs_New ev h]) (use s quiet_fields(4) in \<open>fastforce simp: established_with_def Let_def\<close>)+
  then show ?thesis using established_negotiated [OF session_start_inv [OF assms]] by (simp add: budgets_ok_def)
qed

lemma budgets_forward:
  assumes "budgets_ok s" "forward s s'" "session_inv rs_New s'"
  shows "budgets_ok s'"
proof -
  have "same_budgets s s' \<or> negotiated s' \<and> (se_state s' = StateEstablished \<or> se_state s' = StateClosed)"
    "state_le (se_state s) (se_state s')" "se_settings s' = se_settings s"
    using assms(2) unfolding forward_def by blast+
  then show ?thesis
    using assms(1) established_negotiated [OF assms(3)] negotiated_same [of s s']
    by (cases "se_state s"; cases "se_state s'") (auto simp: budgets_ok_def same_budgets_def)
qed

interpretation budget_system: transition_system "session_start rs_New" "session_step rs_New" "\<lambda>s. session_inv rs_New s \<and> budgets_ok s"
proof unfold_locales
  show "session_start rs_New s \<Longrightarrow> session_inv rs_New s \<and> budgets_ok s" for s using session_start_inv budgets_start by blast
  show "session_inv rs_New s \<and> budgets_ok s \<Longrightarrow> session_step rs_New s t \<Longrightarrow> session_inv rs_New t \<and> budgets_ok t" for s t
    using session_step_ok budgets_forward by blast
qed

text \<open>C25: every session that the sections of any interleaving of calls can produce is well formed. Identifier
  and next probe token are never zero, no carrier has more handshake attempts than configured, the learned endpoints stay
  within their limit, each once and under the identity of its own path, no key has two outstanding probes, and an initiator
  has at most one per carrier. Codecs and both timers exist exactly while the session is established; then
  sender and receiver work with the smaller of the two announced payloads and with the same limits.
  Outside of that state no codec, endpoint, probe or timer is left. While handshaking and after a failed handshake the three
  budgets are zero; a closed session has either none or still the negotiated ones. A failed handshake has
  exhausted every carrier.\<close>

theorem session_wellformed:
  assumes "reachable_session rs_New s"
  shows "se_id s \<noteq> 0 \<and> se_nextToken s \<noteq> 0 \<and>
    (\<forall>c \<in> set (se_carriers s). 0 \<le> ca_attempts c \<and> ca_attempts c \<le> sg_maxHandshakeAttempts (se_settings s)) \<and>
    int (length (se_endpoints s)) \<le> sg_maxEndpoints (se_settings s) \<and> distinct (map fst (se_endpoints s)) \<and>
    (\<forall>(key, e) \<in> set (se_endpoints s). replyIdentityUnchecked (Some (ep_path e)) = Inr key) \<and>
    distinct (map fst (se_outstanding s)) \<and> (se_role s = RoleInitiator \<longrightarrow> length (se_outstanding s) \<le> length (se_carriers s)) \<and>
    (se_state s = StateEstablished \<longrightarrow>
       se_sendMaxUDPPayload s = min (sg_localMaxUDPPayload (se_settings s)) (se_peerMaxUDPPayload s) \<and>
       se_receiveMaxUDPPayload s = se_sendMaxUDPPayload s \<and> 72 \<le> se_sendMaxUDPPayload s \<and> se_sendMaxUDPPayload s \<le> 65507 \<and>
       se_nextKeepalive s \<noteq> None \<and> se_nextDecodeSweep s \<noteq> None \<and>
       (\<exists>e d. se_encoder s = Some e \<and> se_decoder s = Some d \<and> en_limits e = dc_limits d \<and> en_params e = dc_params d \<and> \<not> dc_closed d)) \<and>
    (se_state s \<noteq> StateEstablished \<longrightarrow>
       se_encoder s = None \<and> se_decoder s = None \<and> se_endpoints s = [] \<and> se_outstanding s = [] \<and> se_nextKeepalive s = None \<and> se_nextDecodeSweep s = None) \<and>
    (se_state s = StateHandshaking \<or> se_state s = StateHandshakeFailed \<longrightarrow>
       se_peerMaxUDPPayload s = 0 \<and> se_sendMaxUDPPayload s = 0 \<and> se_receiveMaxUDPPayload s = 0) \<and>
    (se_state s = StateClosed \<longrightarrow>
       se_peerMaxUDPPayload s = 0 \<and> se_sendMaxUDPPayload s = 0 \<and> se_receiveMaxUDPPayload s = 0 \<or>
       se_sendMaxUDPPayload s = min (sg_localMaxUDPPayload (se_settings s)) (se_peerMaxUDPPayload s) \<and>
       se_receiveMaxUDPPayload s = se_sendMaxUDPPayload s) \<and>
    (se_state s = StateHandshakeFailed \<longrightarrow> allCarriersExhaustedLocked s)"
proof -
  have inv: "session_inv rs_New s" using assms by (rule reachable_session_inv)
  note I = session_invD [OF inv]
  have "\<forall>c \<in> set (se_carriers s). 0 \<le> ca_attempts c \<and> ca_attempts c \<le> sg_maxHandshakeAttempts (se_settings s)"
    using I(4) by (auto simp: carriers_ok_def carrier_ok_def)
  moreover have "int (length (se_endpoints s)) \<le> sg_maxEndpoints (se_settings s)" "distinct (map fst (se_endpoints s))"
    "\<forall>(key, e) \<in> set (se_endpoints s). replyIdentityUnchecked (Some (ep_path e)) = Inr key"
    using I(5) by (auto simp: endpoints_ok_def endpoint_ok_def)
  moreover have "length (se_outstanding s) \<le> length (se_carriers s)" if "se_role s = RoleInitiator"
  proof -
    have "set (map fst (se_outstanding s)) \<subseteq> set (map (PathID \<circ> ca_path) (se_carriers s))" "distinct (map fst (se_outstanding s))"
      using I(6) that by (auto simp: probes_ok_def carrier_ids_def)
    then have "length (map fst (se_outstanding s)) \<le> card (set (map (PathID \<circ> ca_path) (se_carriers s)))"
      by (metis card_mono distinct_card finite_set)
    also have "\<dots> \<le> length (se_carriers s)" using card_length [of "map (PathID \<circ> ca_path) (se_carriers s)"] by simp
    finally show ?thesis by simp
  qed
  moreover have "se_sendMaxUDPPayload s = min (sg_localMaxUDPPayload (se_settings s)) (se_peerMaxUDPPayload s) \<and>
       se_receiveMaxUDPPayload s = se_sendMaxUDPPayload s \<and> 72 \<le> se_sendMaxUDPPayload s \<and> se_sendMaxUDPPayload s \<le> 65507 \<and>
       se_nextKeepalive s \<noteq> None \<and> se_nextDecodeSweep s \<noteq> None \<and>
       (\<exists>e d. se_encoder s = Some e \<and> se_decoder s = Some d \<and> en_limits e = dc_limits d \<and> en_params e = dc_params d \<and> \<not> dc_closed d)"
    if "se_state s = StateEstablished"
    using I(7) that settings_okD(7,8) [OF I(1)] by (auto simp: phase_ok_def established_def encoder_for_def decoder_for_def)
  moreover have "se_encoder s = None \<and> se_decoder s = None \<and> se_endpoints s = [] \<and> se_outstanding s = [] \<and> se_nextKeepalive s = None \<and>
      se_nextDecodeSweep s = None" if "se_state s \<noteq> StateEstablished"
    using not_established_idle [OF inv that] by (simp add: idle_def)
  moreover have "se_state s = StateHandshakeFailed \<longrightarrow> allCarriersExhaustedLocked s" using I(7) by (auto simp: phase_ok_def)
  moreover have "se_peerMaxUDPPayload s = 0 \<and> se_sendMaxUDPPayload s = 0 \<and> se_receiveMaxUDPPayload s = 0"
    if "se_state s = StateHandshaking \<or> se_state s = StateHandshakeFailed"
    using budget_system.reachable_inv [OF assms] that by (auto simp: budgets_ok_def)
  moreover have "se_peerMaxUDPPayload s = 0 \<and> se_sendMaxUDPPayload s = 0 \<and> se_receiveMaxUDPPayload s = 0 \<or>
       se_sendMaxUDPPayload s = min (sg_localMaxUDPPayload (se_settings s)) (se_peerMaxUDPPayload s) \<and>
       se_receiveMaxUDPPayload s = se_sendMaxUDPPayload s" if "se_state s = StateClosed"
    using budget_system.reachable_inv [OF assms] that by (auto simp: budgets_ok_def negotiated_def)
  moreover have "distinct (map fst (se_outstanding s))" using I(6) by (simp add: probes_ok_def)
  ultimately show ?thesis using I(2,3) by blast
qed

theorem session_wellformed_witness:
  "reachable_session (\<lambda>k n. None) exampleInitiator \<and> se_id exampleInitiator = 9 \<and> se_nextToken exampleInitiator \<noteq> 0 \<and>
    length (se_carriers exampleInitiator) = 2 \<and> se_encoder exampleInitiator = None"
  using session_wellformed [OF exampleInitiator_reachable [of "\<lambda>k n. None"]] exampleInitiator_reachable [of "\<lambda>k n. None"]
  by (simp add: exampleInitiator_def)

text \<open>C14: a session moves only forward. Whatever sections run from a reachable session, its
  identifier, role, settings and set of carriers stay; it leaves the handshake for the established or the failed state or is
  closed, a failed handshake is never revived, and a closed session stays closed; and once
  the handshake is over the negotiated budgets never change again.\<close>

theorem session_lifecycle:
  assumes "reachable_session rs_New s" "(session_step rs_New)\<^sup>*\<^sup>* s s'"
  shows "se_id s' = se_id s \<and> se_role s' = se_role s \<and> se_settings s' = se_settings s \<and>
    PathID ` ca_path ` set (se_carriers s') = PathID ` ca_path ` set (se_carriers s) \<and>
    (se_state s' = se_state s \<or> se_state s = StateHandshaking \<or> se_state s' = StateClosed) \<and>
    (se_state s \<noteq> StateHandshaking \<longrightarrow>
       se_peerMaxUDPPayload s' = se_peerMaxUDPPayload s \<and> se_sendMaxUDPPayload s' = se_sendMaxUDPPayload s \<and>
       se_receiveMaxUDPPayload s' = se_receiveMaxUDPPayload s)"
proof -
  have "forward s s'" using session_system.run_progress [OF assms(2) reachable_session_inv [OF assms(1)]] by simp
  then show ?thesis by (cases "se_state s") (auto simp: forward_def same_budgets_def carrier_ids_def image_comp)
qed

theorem session_lifecycle_witness:
  "se_id (snd (Start LiveContext \<lparr>ev_now = 5, ev_decoderNow = 5, ev_available = \<lambda>n p. True\<rparr> (\<lambda>n p y. None) exampleInitiator)) = 9"
  using session_lifecycle [OF exampleInitiator_reachable Start_steps] by (simp add: exampleInitiator_def)

end
