(* ===== verification/SessionDeadlines.thy ===== *)
theory SessionDeadlines
  imports SessionProps
begin

text \<open>Deadlines, probes and the end of a v0.1 session.\<close>

subsection \<open>Deadlines\<close>

definition deadlines :: "Session \<Rightarrow> int set" where
  "deadlines s =
     {t. (\<exists>c \<in> set (se_carriers s). ca_nextRetry c = Some t) \<or> se_nextKeepalive s = Some t \<or> se_nextDecodeSweep s = Some t \<or>
         (\<exists>(key, e) \<in> set (se_endpoints s). t = ep_lastActivity e + sg_endpointTTL (se_settings s))}"

lemma consider_cases: "consider_deadline a b = Some t \<Longrightarrow> a = Some t \<or> b = Some t" "consider_deadline a b = None \<longleftrightarrow> a = None \<and> b = None"
  by (auto simp: consider_deadline_def split: option.splits if_splits)

lemma fold_consider_Some:
  "fold (\<lambda>x. consider_deadline (f x)) xs best = Some t \<Longrightarrow> best = Some t \<or> (\<exists>x \<in> set xs. f x = Some t)"
proof (induction xs arbitrary: best)
  case (Cons x xs)
  then have "consider_deadline (f x) best = Some t \<or> (\<exists>x \<in> set xs. f x = Some t)" by simp
  then show ?case using consider_cases(1) by (metis list.set_intros)
qed simp

lemma fold_consider_None:
  "fold (\<lambda>x. consider_deadline (f x)) xs best = None \<longleftrightarrow> best = None \<and> (\<forall>x \<in> set xs. f x = None)"
  by (induction xs arbitrary: best) (auto simp: consider_cases(2))

lemma nextDeadline_eq:
  "nextDeadlineLocked s =
     fold (\<lambda>x. consider_deadline (Some (ep_lastActivity (snd x) + sg_endpointTTL (se_settings s)))) (se_endpoints s)
       (consider_deadline (se_nextDecodeSweep s) (consider_deadline (se_nextKeepalive s) (fold (\<lambda>c. consider_deadline (ca_nextRetry c)) (se_carriers s) None)))"
  by (simp add: nextDeadlineLocked_def Let_def case_prod_unfold)

lemma nextDeadline_Some: "nextDeadlineLocked s = Some t \<Longrightarrow> t \<in> deadlines s"
  unfolding nextDeadline_eq by (drule fold_consider_Some, auto simp: deadlines_def dest!: consider_cases(1) fold_consider_Some)

lemma nextDeadline_None: "nextDeadlineLocked s = None \<longleftrightarrow> deadlines s = {}"
  unfolding nextDeadline_eq fold_consider_None consider_cases(2) deadlines_def by (auto, (metis not_None_eq)+)

text \<open>Sends do not touch deadlines.\<close>

lemma update_measure: "map_of m k = Some e \<Longrightarrow> g x = g e \<Longrightarrow> map (g \<circ> snd) (AList.update k x m) = map (g \<circ> snd) m"
  by (induction m) auto

lemma on_endpoint_activity:
  "(\<And>e. ep_lastActivity (f e) = ep_lastActivity e) \<Longrightarrow> map (ep_lastActivity \<circ> snd) (se_endpoints (on_endpoint key f s)) = map (ep_lastActivity \<circ> snd) (se_endpoints s)"
  by (auto simp: on_endpoint_def update_measure split: option.split)

lemma setPathHealth_activity: "map (ep_lastActivity \<circ> snd) (se_endpoints (setPathHealthForPath path b s)) = map (ep_lastActivity \<circ> snd) (se_endpoints s)"
  using on_endpoint_activity [of "\<lambda>e. e\<lparr>ep_healthy := b\<rparr>"] by (simp add: setPathHealthForPath_def split: Path.split sum.split)

lemma settle_activity: "map (ep_lastActivity \<circ> snd) (se_endpoints (settle b p err s)) = map (ep_lastActivity \<circ> snd) (se_endpoints s)"
  by (simp add: settle_def Let_def setPathHealth_activity split: option.split)

lemma execute_activity: "map (ep_lastActivity \<circ> snd) (se_endpoints (snd (execute net b n plans s))) = map (ep_lastActivity \<circ> snd) (se_endpoints s)"
  by (induction plans arbitrary: n s) (simp_all add: Let_def split_beta settle_activity)

lemma deadlines_map:
  "deadlines s = set (List.map_filter id (map ca_nextRetry (se_carriers s))) \<union> set_option (se_nextKeepalive s) \<union> set_option (se_nextDecodeSweep s) \<union>
     (\<lambda>x. x + sg_endpointTTL (se_settings s)) ` set (map (ep_lastActivity \<circ> snd) (se_endpoints s))"
  by (force simp: deadlines_def map_filter_def image_iff)

lemma execute_deadlines:
  assumes inv: "session_inv rs_New s"
  shows "deadlines (snd (execute net b n plans s)) = deadlines s"
proof -
  let ?t = "snd (execute net b n plans s)"
  have q: "quiet s ?t" using execute_keeps [OF inv] by blast
  have "map ca_nextRetry ys = map ca_nextRetry xs" if "list_all2 same_progress xs ys" for xs ys
    using that by induction (simp_all add: same_progress_def)
  from this [OF quiet_fields(14) [OF q]] show ?thesis
    unfolding deadlines_map execute_activity quiet_fields(3) [OF q] quiet_fields(12,13) [OF q] by simp
qed

lemma sweep_live:
  assumes inv: "session_inv rs_New s" and e: "(key, e) \<in> set (se_endpoints (snd (sweepEndpointsLocked now s)))"
  shows "now < ep_lastActivity e + sg_endpointTTL (se_settings s)"
  using e session_invD(5) [OF inv] by (auto simp: sweep_endpoints endpoints_ok_def endpoint_live_def)

lemma retried_deadline:
  assumes g: "settings_ok (se_settings s)" and c: "carrier_ok (se_settings s) c" and t: "ca_nextRetry (retried s now c) = Some t"
  shows "now < t"
proof (cases "retry_due now c")
  case True
  then show ?thesis
    using t settings_okD(17) [OF g] retryJitter_bounds(1) [OF g, of "PathID (ca_path c)" "ca_attempts c + 1"]
    by (auto simp: retried_def attempted_def split: if_splits)
next
  case False
  then show ?thesis using t c by (auto simp: retried_def retry_due_def carrier_ok_def)
qed

lemma retry_carriers_deadlines:
  assumes inv: "session_inv rs_New s" and r: "retry_carriers ev s = (r, failed, s')" and started: "se_role s = RoleInitiator \<longrightarrow> se_started s"
    and c: "c \<in> set (se_carriers s')" "ca_nextRetry c = Some t"
  shows "ev_now ev < t"
proof (cases "se_role s = RoleInitiator")
  case True
  then have "se_carriers s' = map (retried s (ev_now ev)) (se_carriers s)"
    using r started by (auto simp: retry_carriers_eq [OF inv True] Let_def split: if_splits)
  then show ?thesis using c session_invD(1,4) [OF inv] retried_deadline by (auto simp: carriers_ok_def)
next
  case False
  then have "se_role s = RoleListener" by (cases "se_role s") simp_all
  then have "se_carriers s = []" "s' = s" using session_invD(4) [OF inv] r by (simp_all add: carriers_ok_def retry_carriers_def)
  then show ?thesis using c by simp
qed

lemma retry_carriers_outcome:
  assumes inv: "session_inv rs_New s" and r: "retry_carriers ev s = (r, failed, s')" and on: "se_role s = RoleInitiator" "se_started s"
  shows "\<exists>cs. s' = s\<lparr>se_carriers := cs, se_state := if failed then StateHandshakeFailed else se_state s\<rparr>"
    "failed \<longleftrightarrow> se_state s = StateHandshaking \<and> allCarriersExhaustedLocked s'"
  using r unfolding retry_carriers_eq [OF inv on] Let_def by (auto simp: allCarriersExhaustedLocked_def split: if_splits)

lemma retry_carriers_shape:
  assumes inv: "session_inv rs_New s" and started: "se_started s" and r: "retry_carriers ev s = (r, failed, s')"
  shows "\<exists>cs. s' = s\<lparr>se_carriers := cs, se_state := if failed then StateHandshakeFailed else se_state s\<rparr>"
    "failed \<Longrightarrow> se_state s = StateHandshaking" "se_state s' = StateHandshaking \<Longrightarrow> \<not> allCarriersExhaustedLocked s'"
proof -
  have "(\<exists>cs. s' = s\<lparr>se_carriers := cs, se_state := if failed then StateHandshakeFailed else se_state s\<rparr>) \<and>
      (failed \<longrightarrow> se_state s = StateHandshaking) \<and> (se_state s' = StateHandshaking \<longrightarrow> \<not> allCarriersExhaustedLocked s')"
  proof (cases "se_role s = RoleInitiator")
    case True
    note O = retry_carriers_outcome [OF inv r True started]
    then obtain cs where cs: "s' = s\<lparr>se_carriers := cs, se_state := if failed then StateHandshakeFailed else se_state s\<rparr>" by blast
    then have "se_state s' = (if failed then StateHandshakeFailed else se_state s)" by simp
    then have "se_state s' = StateHandshaking \<longrightarrow> \<not> allCarriersExhaustedLocked s'" using O(2) by (auto split: if_splits)
    then show ?thesis using cs O(2) by blast
  next
    case False
    then have s: "s' = s" "\<not> failed" using r by (simp_all add: retry_carriers_def)
    have "se_state s \<noteq> StateHandshaking" using session_invD(7) [OF inv] False by (auto simp: phase_ok_def)
    then show ?thesis using s by (intro conjI exI [of _ "se_carriers s"]) simp_all
  qed
  then show "\<exists>cs. s' = s\<lparr>se_carriers := cs, se_state := if failed then StateHandshakeFailed else se_state s\<rparr>"
    "failed \<Longrightarrow> se_state s = StateHandshaking" "se_state s' = StateHandshaking \<Longrightarrow> \<not> allCarriersExhaustedLocked s'" by blast+
qed

lemma advance_locked_deadlines:
  assumes inv: "session_inv rs_New s" and live: "se_state s \<noteq> StateClosed" "se_started s" and r: "advance_locked ev s = (r, result, s')"
  shows "\<forall>t \<in> deadlines s'. ev_now ev < t" "ar_HandshakeFailed result \<longleftrightarrow> se_state s = StateHandshaking \<and> se_state s' = StateHandshakeFailed"
    "se_state s' = StateHandshaking \<Longrightarrow> \<not> allCarriersExhaustedLocked s'" "se_started s'" "session_inv rs_New s'"
proof -
  have "(\<forall>t \<in> deadlines s'. ev_now ev < t) \<and> (ar_HandshakeFailed result \<longleftrightarrow> se_state s = StateHandshaking \<and> se_state s' = StateHandshakeFailed) \<and>
      (se_state s' = StateHandshaking \<longrightarrow> \<not> allCarriersExhaustedLocked s') \<and> se_started s' \<and> session_inv rs_New s'"
  proof (rule advance_locked_stages [OF inv live(1) r])
    fix n a stats d t plans failed c pings token ps u
    assume a: "sweepEndpointsLocked (ev_now ev) s = (n, a)" "quiet s a" and ib: "session_inv rs_New (a\<lparr>se_decoder := d, se_nextDecodeSweep := t\<rparr>)"
      and t: "t = se_nextDecodeSweep a \<and> (\<forall>x. t = Some x \<longrightarrow> ev_now ev < x) \<or> t = Some (ev_now ev + sg_decodeTimeout (se_settings a))"
      and c: "retry_carriers ev (a\<lparr>se_decoder := d, se_nextDecodeSweep := t\<rparr>) = (Inr plans, failed, c)" and ic: "session_inv rs_New c"
      and s': "s' = c\<lparr>se_nextToken := token, se_outstanding := ps, se_nextKeepalive := u\<rparr>" and is': "session_inv rs_New s'"
      and u: "u = se_nextKeepalive c \<and> (\<forall>x. u = Some x \<longrightarrow> ev_now ev < x) \<or> u = Some (ev_now ev + sg_keepaliveInterval (se_settings c))"
      and res: "result = \<lparr>ar_Sends = [], ar_ExpiredEndpoints = n, ar_ExpiredFEC = stats, ar_HandshakeFailed = failed\<rparr>"
    let ?b = "a\<lparr>se_decoder := d, se_nextDecodeSweep := t\<rparr>"
    note Q = quiet_fields [OF a(2)]
    have sb: "se_started ?b" "se_state ?b = se_state s" using Q live(2) by simp_all
    note R = retry_carriers_shape [OF ib sb(1) c, unfolded sb(2)]
    obtain cs where shape: "c = ?b\<lparr>se_carriers := cs, se_state := if failed then StateHandshakeFailed else se_state s\<rparr>" using R(1) by blast
    have g: "settings_ok (se_settings s)" using session_invD(1) [OF inv] .
    have "ev_now ev < x" if "x \<in> deadlines s'" for x
      using that retry_carriers_deadlines [OF ib c] sweep_live [OF inv, of _ _ "ev_now ev"] t u settings_okD(14,16) [OF g] Q(3,5) live(2)
      by (auto simp: deadlines_def s' shape a)
    moreover have "se_started s'" using Q(5) live(2) by (simp add: s' shape)
    moreover have "ar_HandshakeFailed result \<longleftrightarrow> se_state s = StateHandshaking \<and> se_state s' = StateHandshakeFailed"
      using R(2) by (auto simp: res s' shape)
    moreover have "se_state s' = StateHandshaking \<longrightarrow> \<not> allCarriersExhaustedLocked s'" using R(3) by (simp add: s' allCarriersExhaustedLocked_def)
    ultimately show ?thesis using is' by blast
  qed
  then show "\<forall>t \<in> deadlines s'. ev_now ev < t" "ar_HandshakeFailed result \<longleftrightarrow> se_state s = StateHandshaking \<and> se_state s' = StateHandshakeFailed"
    "se_state s' = StateHandshaking \<Longrightarrow> \<not> allCarriersExhaustedLocked s'" "se_started s'" "session_inv rs_New s'" by blast+
qed


subsection \<open>Closing\<close>

lemma NewClose_ok: "i \<noteq> 0 \<Longrightarrow> \<exists>m. NewClose i = Inr m \<and> hdr_Type (msg_Header m) = TypeClose"
  by (simp add: NewClose_def checked_def EncodedLen_eq validateMessage_def Let_def knownPacketType_def encodeBody_def zeroDataShard_iff)

lemma execute_attempts:
  "map sa_PathID (fst (execute net b n plans s)) = map (PathID \<circ> pn_path) plans"
  "map sa_Type (fst (execute net b n plans s)) = map (hdr_Type \<circ> msg_Header \<circ> pn_message) plans"
  by (induction plans arbitrary: n s) (simp_all add: Let_def split_beta)

lemma quiet_closeOnce: "quiet s s' \<Longrightarrow> se_closeOnce s' = se_closeOnce s"
  by (auto simp: quiet_def)

lemma quiet_closed_empty:
  assumes "session_inv rs_New s" "quiet s s'" "session_inv rs_New s'" "se_state s = StateClosed"
  shows "idle s'" "se_state s' = StateClosed"
  using not_established_idle [OF assms(3)] quiet_fields(4) [OF assms(2)] assms(4) by simp_all

lemma CloseSession_first:
  assumes inv: "session_inv rs_New s" and c: "c \<noteq> NilContext" "\<not> se_closeOnce s" and r: "CloseSession c ev net s = (err, attempts, s')"
  shows "session_inv rs_New s'" "se_state s' = StateClosed" "se_closeOnce s'" "se_closeErr s' = err"
    "map sa_PathID attempts = (if se_state s = StateEstablished then map PathID (closePathsLocked (ev_available ev 0) (ev_now ev) s) else [])"
    "\<forall>a \<in> set attempts. sa_Type a = TypeClose" "se_state s = StateEstablished \<Longrightarrow> err = join_errors attempts"
proof -
  let ?a = "snd (close_locked ev (s\<lparr>se_closeOnce := True\<rparr>))"
  have ia: "session_inv rs_New ?a" using close_locked_step [OF inv] by blast
  have a: "se_state ?a = StateClosed" "se_closeOnce ?a" "se_id ?a = se_id s" "se_closeErr ?a = se_closeErr s" by (simp_all add: close_locked_def markClosedLocked_def)
  have p: "fst (close_locked ev (s\<lparr>se_closeOnce := True\<rparr>)) = (closePathsLocked (ev_available ev 0) (ev_now ev) s, se_state s = StateEstablished, se_sendMaxUDPPayload s)"
    by (simp add: close_locked_def closePathsLocked_def sorted_paths_def endpoint_live_def)
  obtain m where m: "NewClose (se_id s) = Inr m" "hdr_Type (msg_Header m) = TypeClose" using NewClose_ok session_invD(2) [OF inv] by blast
  let ?plans = "close_plans m (se_sendMaxUDPPayload s) (closePathsLocked (ev_available ev 0) (ev_now ev) s)"
  let ?x = "execute net False 0 ?plans ?a"
  have eq: "(err, attempts, s') = (if se_state s = StateEstablished then (join_errors (fst ?x), fst ?x, (snd ?x)\<lparr>se_closeErr := join_errors (fst ?x)\<rparr>)
      else (se_closeErr s, [], ?a))"
    using r c p a(3,4) m by (cases "close_locked ev (s\<lparr>se_closeOnce := True\<rparr>)") (auto simp: CloseSession_def split: prod.splits if_splits)
  have x: "session_inv rs_New (snd ?x)" "quiet ?a (snd ?x)" using execute_keeps [OF ia] by blast+
  have xs: "se_state (snd ?x) = StateClosed" "se_closeOnce (snd ?x)" using quiet_fields(4) [OF x(2)] quiet_closeOnce [OF x(2)] a by simp_all
  have n: "map sa_PathID (fst ?x) = map PathID (closePathsLocked (ev_available ev 0) (ev_now ev) s)" "\<forall>y \<in> set (fst ?x). sa_Type y = TypeClose"
  proof -
    show "map sa_PathID (fst ?x) = map PathID (closePathsLocked (ev_available ev 0) (ev_now ev) s)" by (simp add: execute_attempts close_plans_def)
    have "set (map sa_Type (fst ?x)) \<subseteq> {TypeClose}" unfolding execute_attempts using m(2) by (auto simp: close_plans_def)
    then show "\<forall>y \<in> set (fst ?x). sa_Type y = TypeClose" by auto
  qed
  show "session_inv rs_New s'" "se_state s' = StateClosed" "se_closeOnce s'" "se_closeErr s' = err"
    "map sa_PathID attempts = (if se_state s = StateEstablished then map PathID (closePathsLocked (ev_available ev 0) (ev_now ev) s) else [])"
    "\<forall>a \<in> set attempts. sa_Type a = TypeClose" "se_state s = StateEstablished \<Longrightarrow> err = join_errors attempts"
    using eq ia a x(1) xs n by (simp_all add: inv_closeErr split: if_splits)
qed


subsection \<open>Properties\<close>

text \<open>C15: driving a session never spins and never stalls. After \<open>Advance\<close> at any time, every deadline that is left
  lies in the future: due retries are sent again later or given up, due probes, sweeps and endpoints are done with. A
  session that is still handshaking or established has such a deadline, a failed one has none, and
  \<open>Advance\<close> reports the failure of the handshake exactly when it happens.\<close>

theorem advance_deadlines:
  assumes reach: "reachable_session rs_New s" and live: "se_state s \<noteq> StateClosed" "se_started s"
    and adv: "Advance LiveContext ev net s = (result, err, s')"
  shows "(\<forall>t. nextDeadlineLocked s' = Some t \<longrightarrow> ev_now ev < t) \<and>
    (se_state s' = StateHandshaking \<or> se_state s' = StateEstablished \<longrightarrow> nextDeadlineLocked s' \<noteq> None) \<and>
    (se_state s' = StateHandshakeFailed \<longrightarrow> nextDeadlineLocked s' = None) \<and>
    err = (if se_state s = StateHandshaking \<and> se_state s' = StateHandshakeFailed then Some ErrHandshakeFailed else None)"
proof -
  have inv: "session_inv rs_New s" using reach by (rule reachable_session_inv)
  obtain r res a where a: "advance_locked ev s = (r, res, a)" by (metis prod_cases3)
  note A = advance_locked_deadlines [OF inv live a]
  obtain plans where plans: "r = Inr plans" by (rule advance_locked_stages [OF inv live(1) a])
  have s': "s' = snd (execute net True 0 plans a)" and err: "err = (if ar_HandshakeFailed res then Some ErrHandshakeFailed else None)"
    using adv by (auto simp: Advance_def check_context_def a plans split: prod.splits if_splits)
  have D: "deadlines s' = deadlines a" unfolding s' by (rule execute_deadlines [OF A(5)])
  have st: "se_state s' = se_state a" unfolding s' using execute_keeps [OF A(5)] quiet_fields(4) by blast
  have "\<forall>t. nextDeadlineLocked s' = Some t \<longrightarrow> ev_now ev < t" using nextDeadline_Some [of s'] A(1) unfolding D by blast
  moreover have "deadlines a \<noteq> {}" if "se_state a = StateHandshaking"
    using A(3) [OF that] A(4) session_invD(7,8) [OF A(5)] that by (fastforce simp: deadlines_def waiting_def phase_ok_def allCarriersExhaustedLocked_def)
  moreover have "deadlines a \<noteq> {}" if "se_state a = StateEstablished"
    using session_invD(7) [OF A(5)] that by (auto simp: deadlines_def phase_ok_def established_def)
  moreover have "deadlines a = {}" if "se_state a = StateHandshakeFailed"
    using session_invD(4,7) [OF A(5)] that by (auto simp: deadlines_def phase_ok_def idle_def allCarriersExhaustedLocked_def carriers_ok_def carrier_ok_def)
  ultimately show ?thesis using A(2) by (auto simp: nextDeadline_None D st err)
qed

definition exampleEnv :: "int \<Rightarrow> Env" where
  "exampleEnv now = \<lparr>ev_now = now, ev_decoderNow = now, ev_available = \<lambda>n p. True\<rparr>"

text \<open>The example initiator once it has sent its first HELLO on both carriers.\<close>

definition exampleStarted :: Session where
  "exampleStarted = snd (Start LiveContext (exampleEnv 5) (\<lambda>n p y. None) exampleInitiator)"

lemma exampleStarted_reachable: "reachable_session rs_New exampleStarted"
  unfolding exampleStarted_def by (rule session_system.reachable_steps [OF Start_steps exampleInitiator_reachable])

lemma exampleStarted_fields: "se_state exampleStarted = StateHandshaking" "se_started exampleStarted"
proof -
  let ?a = "snd (start_locked 5 exampleInitiator)"
  let ?t = "exampleInitiator\<lparr>se_started := True\<rparr>"
  have i: "session_inv (\<lambda>k n. None) exampleInitiator" by (rule reachable_session_inv [OF exampleInitiator_reachable])
  have "settings_ok (se_settings ?t)" "se_id ?t \<noteq> 0" using session_invD(1,2) [OF i] by simp_all
  note H = hello_all_ok [OF this, of 5 "se_carriers exampleInitiator"]
  obtain plans where p: "fst (start_locked 5 exampleInitiator) = Inr plans" using H by (simp add: start_locked_def exampleInitiator_def)
  have a: "se_state ?a = StateHandshaking" "se_started ?a" using H by (simp_all add: start_locked_def exampleInitiator_def)
  have ia: "session_inv (\<lambda>k n. None) ?a" by (rule start_locked_keeps [OF i surjective_pairing])
  have "exampleStarted = snd (execute (\<lambda>n p y. None) True 0 plans ?a)"
    using p by (cases "start_locked 5 exampleInitiator") (simp add: exampleStarted_def Start_def check_context_def exampleEnv_def split_beta)
  then have "quiet ?a exampleStarted" using execute_keeps [OF ia, of "\<lambda>n p y. None" True 0 plans] by metis
  from quiet_fields(4,5) [OF this] a show "se_state exampleStarted = StateHandshaking" "se_started exampleStarted" by simp_all
qed

theorem advance_deadlines_witness:
  "\<exists>result err s'. Advance LiveContext (exampleEnv 1000) (\<lambda>n p y. None) exampleStarted = (result, err, s') \<and>
     (\<forall>t. nextDeadlineLocked s' = Some t \<longrightarrow> 1000 < t)"
proof -
  obtain result err s' where a: "Advance LiveContext (exampleEnv 1000) (\<lambda>n p y. None) exampleStarted = (result, err, s')" by (metis prod_cases3)
  show ?thesis
    using a advance_deadlines [OF exampleStarted_reachable [of "\<lambda>k n. None"] _ _ a] exampleStarted_fields by (simp add: exampleEnv_def)
qed

text \<open>C27: closing is done once. The first \<open>Close\<close> of a session releases everything and leaves it closed; it attempts one CLOSE on
  each current path if the session was established and sends nothing otherwise; its error is made of the failed attempts. Every
  later \<open>Close\<close> returns the same error, sends nothing and changes nothing.\<close>

theorem close_once:
  assumes reach: "reachable_session rs_New s" and first: "c \<noteq> NilContext" "\<not> se_closeOnce s"
    and close: "CloseSession c ev net s = (err, attempts, s')" and again: "c' \<noteq> NilContext"
  shows "se_state s' = StateClosed \<and> se_encoder s' = None \<and> se_decoder s' = None \<and> se_endpoints s' = [] \<and> se_outstanding s' = [] \<and>
    nextDeadlineLocked s' = None \<and>
    map sa_PathID attempts = (if se_state s = StateEstablished then map PathID (closePathsLocked (ev_available ev 0) (ev_now ev) s) else []) \<and>
    (\<forall>a \<in> set attempts. sa_Type a = TypeClose) \<and> (se_state s = StateEstablished \<longrightarrow> err = join_errors attempts) \<and>
    CloseSession c' ev' net' s' = (err, [], s')"
proof -
  have inv: "session_inv rs_New s" using reach by (rule reachable_session_inv)
  note C = CloseSession_first [OF inv first close]
  have i: "idle s'" using not_established_idle [OF C(1)] C(2) by simp
  have "deadlines s' = {}" using i session_invD(7) [OF C(1)] C(2) by (auto simp: deadlines_def idle_def phase_ok_def)
  moreover have "CloseSession c' ev' net' s' = (err, [], s')" using again C(3,4) by (simp add: CloseSession_def)
  ultimately show ?thesis using i C by (simp add: idle_def nextDeadline_None)
qed

theorem close_once_witness:
  "\<exists>err s'. CloseSession LiveContext (exampleEnv 7) (\<lambda>n p y. None) exampleInitiator = (err, [], s') \<and> se_state s' = StateClosed \<and>
     CloseSession LiveContext (exampleEnv 8) (\<lambda>n p y. Some [OtherError]) s' = (err, [], s')"
proof -
  obtain err attempts s' where c: "CloseSession LiveContext (exampleEnv 7) (\<lambda>n p y. None) exampleInitiator = (err, attempts, s')" by (metis prod_cases3)
  note C = close_once [where ev' = "exampleEnv 8" and net' = "\<lambda>n p y. Some [OtherError]", OF exampleInitiator_reachable [of "\<lambda>k n. None"] _ _ c ctx.distinct(4)]
  have "attempts = []" using C by (simp add: exampleInitiator_def)
  then show ?thesis using c C by (simp add: exampleInitiator_def)
qed

end
