(* ===== verification/SessionPackets.thy ===== *)
theory SessionPackets
  imports SessionDeadlines
begin

text \<open>What packets do to a v0.1 session: refused ones nothing, a PONG once.\<close>

subsection \<open>Refused packets\<close>

lemma HandlePacket_decoded:
  assumes "decoded (se_settings s) (rc_Payload packet) m"
  shows "HandlePacket rs_New LiveContext ev net packet s = handleAuthenticatedWithIdentity rs_New ev net packet m [] s"
  using assms by (auto simp: HandlePacket_def decoded_def check_context_def split: prod.split)

lemma HandlePacket_undecoded:
  assumes "fst (Authenticator_Decode (Some (sg_authenticator (se_settings s))) (rc_Payload packet) (sg_localMaxUDPPayload (se_settings s))) = Inl e"
  shows "HandlePacket rs_New LiveContext ev net packet s = (newResult zeroMessage, Some (WireError e), s)"
  using assms by (auto simp: HandlePacket_def check_context_def split: prod.split)

lemma handleAuthenticated_error:
  assumes "handleAuthenticatedWithIdentity rs_New ev net packet m key s = (result, Some err, s')"
  obtains response where "handle_locked rs_New ev packet m key s = (Some err, result, response, s')"
proof -
  obtain e r response a where h: "handle_locked rs_New ev packet m key s = (e, r, response, a)" by (metis prod_cases4)
  show thesis
    using assms that [of response] h
    by (cases e; cases response) (auto simp: handleAuthenticatedWithIdentity_def simp del: execute.simps split: prod.splits)
qed

text \<open>C16: a refused packet does no harm. If \<open>HandlePacket\<close> of a reachable session reports an error, nothing has been sent in
  response, whatever the network is. If the packet was not authentic or was refused by the session
  (foreign session, unusable or unknown path, closed or not established, over the negotiated size, incompatible handshake,
  unexpected type, unknown probe), the session is exactly what it was. If the table of endpoints had no room for the
  packet's path, the session is exactly \<open>swept\<close>: the endpoints past their lifetime are gone, of a listener's session with
  their probes, of an initiator's with their carriers marked unhealthy, an initiator has also dropped the unavailable
  endpoints of the same path identifier, every live endpoint, every other probe and every other field is unchanged, and
  the table is full even so. If the FEC decoder refused the shard, besides that only the decoder has done
  what it does for such a shard. No other error occurs: in particular no response ever fails to be built.\<close>

theorem refused_packet_harmless:
  assumes reach: "reachable_session rs_New s" and h: "HandlePacket rs_New LiveContext ev net packet s = (result, Some err, s')"
  shows "(\<forall>net'. HandlePacket rs_New LiveContext ev net' packet s = (result, Some err, s')) \<and>
    ((\<exists>e. err = WireError e \<and> s' = s \<and> (\<forall>m. \<not> decoded (se_settings s) (rc_Payload packet) m)) \<or>
     (\<exists>m. decoded (se_settings s) (rc_Payload packet) m \<and>
        (rejection err \<and> s' = s \<or>
         (\<exists>path key. rc_Reply packet = Some path \<and> replyIdentityUnchecked (rc_Reply packet) = Inr key \<and>
           (err = ErrEndpointLimit \<and> s' = swept (ev_available ev 1) key path (ev_now ev) s \<and> table_full key s' \<or>
            (\<exists>e d d'. err = FecFailure e \<and> se_decoder s = Some d \<and>
               AddVerifiedShard (ev_decoderNow ev) (incoming s (msg_DataShard m)) d = (Inl e, d') \<and>
               s' = (swept (ev_available ev 1) key path (ev_now ev) s)\<lparr>se_decoder := Some d'\<rparr>))))))"
proof (cases "fst (Authenticator_Decode (Some (sg_authenticator (se_settings s))) (rc_Payload packet) (sg_localMaxUDPPayload (se_settings s)))")
  case (Inl e)
  then show ?thesis using h by (auto simp: HandlePacket_undecoded decoded_def)
next
  case (Inr m)
  then have m: "decoded (se_settings s) (rc_Payload packet) m" by (simp add: decoded_def)
  obtain response where l: "handle_locked rs_New ev packet m [] s = (Some err, result, response, s')"
    using h unfolding HandlePacket_decoded [OF m] by (rule handleAuthenticated_error)
  have "error_effect ev (rc_Reply packet) m s err s'"
    using handle_locked_ok [OF reachable_session_inv [OF reach] valid_ping [OF decoded_valid [OF m]], of "[]" packet ev] l by (simp add: handled_ok_def)
  moreover have "HandlePacket rs_New LiveContext ev net' packet s = (result, Some err, s')" for net'
    unfolding HandlePacket_decoded [OF m] by (simp add: handleAuthenticatedWithIdentity_def l)
  ultimately show ?thesis using m unfolding error_effect_def by blast
qed

lemma decode_empty: "fst (Authenticator_Decode (Some (sg_authenticator exampleSettings)) [] 1200) = Inl ErrMalformed"
  by (simp add: decoded_def Authenticator_Decode_def decode_pooled DecodeAuthenticated_def decodeAuthenticated_def exampleSettings_def validateBudget_def Let_def)

theorem refused_packet_harmless_witness:
  "\<exists>result e. HandlePacket (\<lambda>k n. None) LiveContext (exampleEnv 6) (\<lambda>n p y. None) \<lparr>rc_Payload = [], rc_Reply = None\<rparr> exampleInitiator =
     (result, Some (WireError e), exampleInitiator) \<and>
     HandlePacket (\<lambda>k n. None) LiveContext (exampleEnv 6) (\<lambda>n p y. Some [PathError]) \<lparr>rc_Payload = [], rc_Reply = None\<rparr> exampleInitiator =
     (result, Some (WireError e), exampleInitiator)"
proof -
  have h: "HandlePacket (\<lambda>k n. None) LiveContext (exampleEnv 6) (\<lambda>n p y. None) \<lparr>rc_Payload = [], rc_Reply = None\<rparr> exampleInitiator =
      (newResult zeroMessage, Some (WireError ErrMalformed), exampleInitiator)"
    by (rule HandlePacket_undecoded) (use decode_empty in \<open>simp add: exampleInitiator_def exampleSettings_def\<close>)
  show ?thesis using h refused_packet_harmless [OF exampleInitiator_reachable h] by blast
qed

subsection \<open>Probes\<close>

text \<open>Sweeping and learning only ever remove probes.\<close>

lemma drop_expired_probes: "set (se_outstanding (drop_expired es s)) \<subseteq> set (se_outstanding s)"
proof (induction es arbitrary: s)
  case (Cons x es)
  obtain key e where x: "x = (key, e)" by (cases x)
  show ?case unfolding x drop_expired.simps Let_def by (rule subset_trans [OF Cons.IH]) (auto simp: set_delete)
qed simp

lemma canLearn_probes: "set (se_outstanding (snd (canLearnEndpointLocked available key path now s))) \<subseteq> set (se_outstanding s)"
  using drop_expired_probes by (auto simp: canLearnEndpointLocked_def sweepEndpointsLocked_def Let_def)

lemma on_endpoint_outstanding [simp]: "se_outstanding (on_endpoint key f s) = se_outstanding s"
  by (simp add: on_endpoint_def split: option.split)

lemma learn_probes:
  assumes "learnEndpointLocked available key path now s = (r, s')"
  shows "set (se_outstanding s') \<subseteq> set (se_outstanding s)" "r = Inr flags \<Longrightarrow> map_of (se_endpoints s') key \<noteq> None"
    "se_role s' = se_role s \<and> se_state s' = se_state s"
proof -
  obtain q a where q: "canLearnEndpointLocked available key path now s = (q, a)" by fastforce
  have a: "set (se_outstanding a) \<subseteq> set (se_outstanding s)" using canLearn_probes [of available key path now s] by (simp add: q)
  have d: "se_role (drop_expired es t) = se_role t \<and> se_state (drop_expired es t) = se_state t" for es t
    by (induction es t rule: drop_expired.induct) (auto simp: Let_def)
  have "se_role a = se_role s \<and> se_state a = se_state s"
    using q d by (auto simp: canLearnEndpointLocked_def sweepEndpointsLocked_def Let_def split: if_splits)
  then show "set (se_outstanding s') \<subseteq> set (se_outstanding s)" "r = Inr flags \<Longrightarrow> map_of (se_endpoints s') key \<noteq> None"
    "se_role s' = se_role s \<and> se_state s' = se_state s"
    using assms a by (auto simp: learnEndpointLocked_def q on_endpoint_def update_conv split: option.splits)
qed

lemma handle_locked_reply:
  assumes id: "hdr_SessionID (msg_Header m) = se_id s" and reply: "rc_Reply packet = Some reply" "replyIdentityUnchecked (Some reply) = Inr key"
  shows "handle_locked rs_New ev packet m [] s =
    (if \<not> ev_available ev 0 (Reply reply) then (Some ErrInvalidReplyPath, newResult m, None, s)
     else if se_state s = StateClosed then (Some ErrClosed, newResult m, None, s)
     else if se_role s = RoleInitiator \<and> carrierByID s (rp_PathID reply) = None then (Some ErrUnknownPath, newResult m, None, s)
     else if se_state s = StateEstablished \<and> int (length (rc_Payload packet)) > se_receiveMaxUDPPayload s
       then (Some ErrPacketOverBudget, newResult m, None, s)
     else handle_message rs_New ev key reply m (newResult m) s)"
  by (simp add: handle_locked_def id reply Let_def)

lemma handle_pong_None:
  assumes h: "handle_pong ev key reply m result s = (None, result', response, s')"
  obtains probe where "se_state s = StateEstablished" "map_of (se_outstanding s) (probeKeyLocked reply key s) = Some probe"
    "ob_token probe = pr_Token (msg_Probe m)" "ob_timestamp probe = pr_Timestamp (msg_Probe m)" "ob_sentAt probe \<le> ev_now ev"
    "response = None" "hr_RTTUpdated result'" "hr_RTT result' = ev_now ev - ob_sentAt probe"
    "map_of (se_outstanding s') (probeKeyLocked reply key s) = None" "se_role s' = se_role s"
    "\<exists>e. map_of (se_endpoints s') key = Some e \<and> ep_rtt e = hr_RTT result' \<and> ep_hasRTT e"
proof -
  let ?k = "probeKeyLocked reply key s"
  obtain probe where p: "se_state s = StateEstablished" "map_of (se_outstanding s) ?k = Some probe" "ob_token probe = pr_Token (msg_Probe m)"
    "ob_timestamp probe = pr_Timestamp (msg_Probe m)" "\<not> ev_now ev < ob_sentAt probe"
    using h by (auto simp: handle_pong_def Let_def split: if_splits option.splits)
  obtain q a where a: "canLearnEndpointLocked (ev_available ev 1) key reply (ev_now ev) s = (q, a)" by fastforce
  let ?b = "a\<lparr>se_outstanding := AList.delete ?k (se_outstanding a)\<rparr>"
  obtain r c where c: "learnEndpointLocked (ev_available ev 2) key reply (ev_now ev) ?b = (r, c)" by fastforce
  let ?s = "on_endpoint key (\<lambda>e. e\<lparr>ep_rtt := ev_now ev - ob_sentAt probe, ep_hasRTT := True\<rparr>) c"
  have "handle_pong ev key reply m result s =
      (case q of Some err \<Rightarrow> (Some err, result, None, a)
       | None \<Rightarrow> (case r of Inl err \<Rightarrow> (Some err, result, None, c)
            | Inr flags \<Rightarrow> (None, (learned flags result)\<lparr>hr_RTTUpdated := True, hr_RTT := ev_now ev - ob_sentAt probe\<rparr>, None, ?s)))"
    using p by (cases q; cases r) (simp_all add: handle_pong_def Let_def a [unfolded One_nat_def] c)
  then obtain flags where q: "q = None" and r: "r = Inr flags"
    and res: "result' = (learned flags result)\<lparr>hr_RTTUpdated := True, hr_RTT := ev_now ev - ob_sentAt probe\<rparr>" "response = None" "s' = ?s"
    using h by (auto split: option.splits sum.splits)
  note L = learn_probes [OF c]
  have "map_of (se_outstanding ?b) ?k = None" by (simp add: delete_conv)
  then have "?k \<notin> fst ` set (se_outstanding c)" using L(1) by (auto simp: set_delete)
  then have none: "map_of (se_outstanding s') ?k = None" by (simp add: res map_of_eq_None_iff)
  have d: "se_role a = se_role s"
  proof -
    have "se_role (drop_expired es t) = se_role t" for es t by (induction es t rule: drop_expired.induct) (auto simp: Let_def)
    then show ?thesis using a by (auto simp: canLearnEndpointLocked_def sweepEndpointsLocked_def Let_def split: if_splits)
  qed
  have role: "se_role s' = se_role s" using L(3) d by (simp add: res on_endpoint_def split: option.split)
  obtain e where e: "map_of (se_endpoints c) key = Some e" using L(2) [OF r] by blast
  have "\<exists>e. map_of (se_endpoints s') key = Some e \<and> ep_rtt e = hr_RTT result' \<and> ep_hasRTT e"
    by (simp add: res on_endpoint_def e update_conv)
  then show thesis using that [OF p(1-4) _ res(2) _ _ none role] p(5) by (simp add: res(1))
qed

text \<open>C26: a probe is answered at most once and only by its own answer. If a session accepts a PONG, the probe that is outstanding for
  that path (for an initiator the carrier, for a listener the whole path identity) had exactly this token and this
  timestamp and was not sent later than the PONG is received; the reported round-trip time is the time since then, is not
  negative, and is what the endpoint records. The probe is then gone, and the same PONG on
  the same path is refused from then on, at any time, without any effect.\<close>

theorem pong_accepted_once:
  assumes m: "decoded (se_settings s) (rc_Payload packet) m" "hdr_Type (msg_Header m) = TypePong"
    and reply: "rc_Reply packet = Some reply" "replyIdentityUnchecked (Some reply) = Inr key"
    and h: "HandlePacket rs_New LiveContext ev net packet s = (result, None, s')"
  shows "\<exists>probe. map_of (se_outstanding s) (if se_role s = RoleInitiator then rp_PathID reply else key) = Some probe \<and>
    ob_token probe = pr_Token (msg_Probe m) \<and> ob_timestamp probe = pr_Timestamp (msg_Probe m) \<and>
    hr_RTTUpdated result \<and> hr_RTT result = ev_now ev - ob_sentAt probe \<and> 0 \<le> hr_RTT result \<and>
    (\<exists>e. map_of (se_endpoints s') key = Some e \<and> ep_rtt e = hr_RTT result \<and> ep_hasRTT e) \<and>
    map_of (se_outstanding s') (if se_role s = RoleInitiator then rp_PathID reply else key) = None \<and>
    (\<forall>ev' t. map_of (se_outstanding t) (if se_role t = RoleInitiator then rp_PathID reply else key) = None \<longrightarrow>
       (\<exists>err. rejection err \<and> handle_locked rs_New ev' packet m [] t = (Some err, newResult m, None, t)))"
proof -
  have refuse: "\<exists>err. rejection err \<and> handle_locked rs_New ev' packet m [] t = (Some err, newResult m, None, t)"
    if "map_of (se_outstanding t) (if se_role t = RoleInitiator then rp_PathID reply else key) = None" for ev' t
  proof (cases "hdr_SessionID (msg_Header m) = se_id t")
    case True
    have "handle_message rs_New ev' key reply m (newResult m) t = (Some (if se_state t \<noteq> StateEstablished then ErrNotEstablished else ErrProbeMismatch), newResult m, None, t)"
      using that m(2) by (auto simp: handle_message_def handle_pong_def probeKeyLocked_def Let_def)
    then show ?thesis unfolding handle_locked_reply [OF True reply] by (auto simp: rejection_def)
  qed (simp add: handle_locked_def Let_def rejection_def)
  obtain err r response a where l: "handle_locked rs_New ev packet m [] s = (err, r, response, a)" by (metis prod_cases4)
  have hm: "handleAuthenticatedWithIdentity rs_New ev net packet m [] s = (result, None, s')"
    using h unfolding HandlePacket_decoded [OF m(1)] .
  then have err: "err = None" by (cases err) (auto simp: handleAuthenticatedWithIdentity_def l)
  have id: "hdr_SessionID (msg_Header m) = se_id s" using l err by (auto simp: handle_locked_def Let_def split: if_splits)
  have "handle_pong ev key reply m (newResult m) s = (None, r, response, a)"
    using l m(2) unfolding handle_locked_reply [OF id reply] err by (simp add: handle_message_def split: if_splits)
  then show ?thesis
  proof (rule handle_pong_None)
    fix probe
    assume p: "map_of (se_outstanding s) (probeKeyLocked reply key s) = Some probe" "ob_token probe = pr_Token (msg_Probe m)"
      "ob_timestamp probe = pr_Timestamp (msg_Probe m)" "ob_sentAt probe \<le> ev_now ev" "response = None" "hr_RTTUpdated r"
      "hr_RTT r = ev_now ev - ob_sentAt probe" "map_of (se_outstanding a) (probeKeyLocked reply key s) = None"
      "\<exists>e. map_of (se_endpoints a) key = Some e \<and> ep_rtt e = hr_RTT r \<and> ep_hasRTT e"
    have "result = r" "s' = a" using hm by (simp_all add: handleAuthenticatedWithIdentity_def l err p(5))
    then show ?thesis using p refuse unfolding probeKeyLocked_def by (intro exI [of _ probe]) auto
  qed
qed


text \<open>An established initiator with one outstanding probe, and its answer.\<close>

definition examplePong :: Message where
  "examplePong = \<lparr>msg_Header = \<lparr>hdr_Type = TypePong, hdr_SessionID = 9\<rparr>, msg_Handshake = zeroHandshake, msg_DataShard = emptyDataShard,
     msg_Probe = \<lparr>pr_Token = 7, pr_Timestamp = 5\<rparr>\<rparr>"

definition exampleReply :: ReplyPath where
  "exampleReply = \<lparr>rp_PathID = ''a'', rp_Generation = 1, rp_LocalAddr = Some \<lparr>ad_Network = ''udp'', ad_String = ''l''\<rparr>,
     rp_RemoteAddr = Some \<lparr>ad_Network = ''udp'', ad_String = ''r''\<rparr>\<rparr>"

definition exampleKey :: string where
  "exampleKey = join [''a'', FormatUint 1, ''udp'', ''l'', ''udp'', ''r'']"

lemma exampleKey_identity: "replyIdentityUnchecked (Some exampleReply) = Inr exampleKey"
  by (simp add: replyIdentityUnchecked_def exampleReply_def exampleKey_def)

definition exampleProbing :: Session where
  "exampleProbing = exampleInitiator\<lparr>se_state := StateEstablished, se_receiveMaxUDPPayload := 1200,
     se_outstanding := [(''a'', \<lparr>ob_token = 7, ob_timestamp = 5, ob_sentAt = 5\<rparr>)]\<rparr>"

lemma examplePong_admissible: "wireAdmissible [1, 2, 3] 1200 examplePong"
proof -
  have "validateMessage examplePong = None" by (simp add: examplePong_def validateMessage_def knownPacketType_def zeroDataShard_iff)
  moreover have "length (encodeBody examplePong) = 16" by (simp add: examplePong_def encodeBody_def)
  ultimately show ?thesis by (simp add: wireAdmissible_def validateBudget_None)
qed

theorem pong_accepted_once_witness:
  "\<exists>result s'. HandlePacket (\<lambda>k n. None) LiveContext (exampleEnv 12) (\<lambda>n p y. None)
      \<lparr>rc_Payload = wirePacket [1, 2, 3] examplePong, rc_Reply = Some exampleReply\<rparr> exampleProbing = (result, None, s') \<and>
    hr_RTT result = 7 \<and> map_of (se_outstanding s') ''a'' = None"
proof -
  let ?p = "\<lparr>rc_Payload = wirePacket [1, 2, 3] examplePong, rc_Reply = Some exampleReply\<rparr>"
  have set: "se_settings exampleProbing = exampleSettings" "se_id exampleProbing = 9" "se_role exampleProbing = RoleInitiator"
    by (simp_all add: exampleProbing_def exampleInitiator_def)
  have d: "decoded (se_settings exampleProbing) (rc_Payload ?p) examplePong"
    using decode_wirePacket [OF examplePong_admissible] by (simp add: decoded_iff set exampleSettings_def)
  have n: "length (wirePacket [1, 2, 3] examplePong) = 72"
    unfolding length_wirePacket by (simp add: examplePong_def encodeBody_def)
  have id: "hdr_SessionID (msg_Header examplePong) = se_id exampleProbing" by (simp add: set examplePong_def)
  have c: "carrierByID exampleProbing ''a'' \<noteq> None" by (simp add: carrierByID_def exampleProbing_def exampleInitiator_def)
  obtain s' where h: "handle_pong (exampleEnv 12) exampleKey exampleReply examplePong (newResult examplePong) exampleProbing =
      (None, (learned (True, False) (newResult examplePong))\<lparr>hr_RTTUpdated := True, hr_RTT := 7\<rparr>, None, s')"
    by (simp add: handle_pong_def probeKeyLocked_def exampleProbing_def exampleInitiator_def exampleReply_def examplePong_def exampleEnv_def exampleSettings_def
        canLearnEndpointLocked_def learnEndpointLocked_def sweepEndpointsLocked_def Let_def)
  have "handle_locked (\<lambda>k n. None) (exampleEnv 12) ?p examplePong [] exampleProbing =
      (None, (learned (True, False) (newResult examplePong))\<lparr>hr_RTTUpdated := True, hr_RTT := 7\<rparr>, None, s')"
    using h c n by (subst handle_locked_reply [OF id _ exampleKey_identity])
      (simp_all add: exampleEnv_def exampleReply_def exampleProbing_def handle_message_def, simp_all add: examplePong_def)
  then have h: "HandlePacket (\<lambda>k n. None) LiveContext (exampleEnv 12) (\<lambda>n p y. None) ?p exampleProbing =
      ((learned (True, False) (newResult examplePong))\<lparr>hr_RTTUpdated := True, hr_RTT := 7\<rparr>, None, s')"
    unfolding HandlePacket_decoded [OF d] by (simp add: handleAuthenticatedWithIdentity_def)
  have t: "hdr_Type (msg_Header examplePong) = TypePong" by (simp add: examplePong_def)
  have "rp_PathID exampleReply = ''a''" by (simp add: exampleReply_def)
  then have "map_of (se_outstanding s') ''a'' = None"
    using pong_accepted_once [OF d t _ exampleKey_identity h] by (auto simp: set)
  then show ?thesis using h by simp
qed

end
