(* ===== verification/SessionRegistry.thy ===== *)
theory SessionRegistry
  imports SessionPackets
begin

text \<open>
  The registry of the v0.1 listener as a transition system: packets, timers and closing, interleaved
  with whatever the owners of the sessions do to them.
\<close>

subsection \<open>The invariant\<close>

definition registered :: "(int \<Rightarrow> int \<Rightarrow> rs_codec option) \<Rightarrow> settings \<Rightarrow> SessionID \<Rightarrow> Session \<Rightarrow> bool" where
  "registered rs_New g i s \<longleftrightarrow>
     se_id s = i \<and> se_role s = RoleListener \<and> se_settings s = g \<and> session_inv rs_New s \<and> (se_state s = StateEstablished \<or> se_state s = StateClosed)"

definition listener_inv :: "(int \<Rightarrow> int \<Rightarrow> rs_codec option) \<Rightarrow> Listener \<Rightarrow> bool" where
  "listener_inv rs_New l \<longleftrightarrow>
     settings_ok (li_settings l) \<and> distinct (keys (li_sessions l)) \<and> int (length (li_sessions l)) \<le> li_maxSessions l \<and>
     (li_closed l \<longrightarrow> li_sessions l = []) \<and> (\<forall>(i, s) \<in> set (li_sessions l). registered rs_New (li_settings l) i s)"

text \<open>Owners of a session step it; \<open>notifyClosed\<close> removes one that has been closed.\<close>

inductive listener_step :: "(int \<Rightarrow> int \<Rightarrow> rs_codec option) \<Rightarrow> Listener \<Rightarrow> Listener \<Rightarrow> bool" for rs_New where
  lstep_packet: "listener_step rs_New l (snd (Listener_HandlePacket rs_New c ev net packet l))"
| lstep_advance: "listener_step rs_New l (snd (Listener_Advance c evs nets l))"
| lstep_session: "map_of (li_sessions l) i = Some s \<Longrightarrow> session_step rs_New s s' \<Longrightarrow> listener_step rs_New l (storeSession s' l)"
| lstep_notify: "map_of (li_sessions l) i = Some s \<Longrightarrow> se_state s = StateClosed \<Longrightarrow> listener_step rs_New l (removeSession i l)"
| lstep_close: "listener_step rs_New l (snd (Listener_Close c evs nets l))"

inductive_cases listener_stepE: "listener_step rs_New l l'"

definition listener_start :: "Listener \<Rightarrow> bool" where
  "listener_start l \<longleftrightarrow> (\<exists>config n. NewListener config n = Inr l)"

abbreviation reachable_listener :: "(int \<Rightarrow> int \<Rightarrow> rs_codec option) \<Rightarrow> Listener \<Rightarrow> bool" where
  "reachable_listener rs_New \<equiv> reachable listener_start (listener_step rs_New)"

lemma listener_start_inv:
  assumes "listener_start l"
  shows "listener_inv rs_New l"
proof -
  obtain config n where "NewListener config n = Inr l" using assms by (auto simp: listener_start_def)
  then show ?thesis by (cases "normalizeConfig config") (auto simp: NewListener_def listener_inv_def settings_ok_def split: if_splits)
qed

lemma registered_steps:
  assumes "registered rs_New g i s" "(session_step rs_New)\<^sup>*\<^sup>* s s'"
  shows "registered rs_New g i s'"
proof -
  have r: "session_inv rs_New s' \<and> forward s s'" using session_system.run_progress [OF assms(2)] assms(1) by (simp add: registered_def)
  then have "state_le (se_state s) (se_state s')" by (simp add: forward_def)
  then have "se_state s' = StateEstablished \<or> se_state s' = StateClosed" using assms(1) by (auto simp: registered_def)
  then show ?thesis using r assms(1) by (simp add: registered_def forward_def)
qed

lemma registeredD: "listener_inv rs_New l \<Longrightarrow> map_of (li_sessions l) i = Some s \<Longrightarrow> registered rs_New (li_settings l) i s"
  by (auto simp: listener_inv_def dest: map_of_SomeD)

lemma storeSession_old:
  assumes inv: "listener_inv rs_New l" and m: "map_of (li_sessions l) i = Some s" and r: "registered rs_New (li_settings l) i s'"
  shows "listener_inv rs_New (storeSession s' l)" "keys (li_sessions (storeSession s' l)) = keys (li_sessions l)" "li_settings (storeSession s' l) = li_settings l"
proof -
  have id: "se_id s' = i" using r by (simp add: registered_def)
  have d: "distinct (keys (li_sessions l))" using inv by (simp add: listener_inv_def)
  have "registered rs_New (li_settings l) k x" if "(k, x) \<in> set (AList.update i s' (li_sessions l))" for k x
    using subsetD [OF set_update_subset that] r inv by (auto simp: listener_inv_def)
  then show "listener_inv rs_New (storeSession s' l)"
    using inv m d length_update_old [OF d m] by (auto simp: listener_inv_def storeSession_def id distinct_keys_update)
  have "i \<in> set (keys (li_sessions l))" using map_of_SomeD [OF m] by force
  then show "keys (li_sessions (storeSession s' l)) = keys (li_sessions l)" by (simp add: storeSession_def id AList.update_keys)
qed (simp add: storeSession_def)

lemma storeSession_new:
  assumes inv: "listener_inv rs_New l" and m: "map_of (li_sessions l) i = None" and r: "registered rs_New (li_settings l) i s'"
    and room: "int (length (li_sessions l)) < li_maxSessions l" and open_now: "\<not> li_closed l"
  shows "listener_inv rs_New (storeSession s' l)"
proof -
  have id: "se_id s' = i" using r by (simp add: registered_def)
  have "registered rs_New (li_settings l) k x" if "(k, x) \<in> set (AList.update i s' (li_sessions l))" for k x
    using subsetD [OF set_update_subset that] r inv by (auto simp: listener_inv_def)
  then show ?thesis using inv room open_now length_update_new [OF m] by (auto simp: listener_inv_def storeSession_def id distinct_keys_update)
qed

lemma removeSession_keeps: "listener_inv rs_New l \<Longrightarrow> listener_inv rs_New (removeSession i l)"
proof -
  assume inv: "listener_inv rs_New l"
  have "length (AList.delete i (li_sessions l)) \<le> length (li_sessions l)" by (simp add: AList.delete_eq)
  then have "int (length (AList.delete i (li_sessions l))) \<le> li_maxSessions l" using inv by (simp add: listener_inv_def)
  then show ?thesis using inv by (auto simp: listener_inv_def removeSession_def distinct_delete set_delete)
qed

subsection \<open>The operations\<close>

lemma replyIdentity_unchecked: "replyIdentity available path = Inr key \<Longrightarrow> replyIdentityUnchecked path = Inr key"
  by (auto simp: replyIdentity_def split: sum.splits if_splits)

lemma create_session_cases:
  assumes inv: "listener_inv rs_New l" and i: "hdr_SessionID (msg_Header m) \<noteq> 0" and key: "replyIdentityUnchecked (Some reply) = Inr key"
  obtains (failed) "create_session rs_New ev net m key reply l = ((None, newResult m, Some ErrHandshakeIncompatible), l)"
      "fst (establishLocked rs_New (msg_Handshake m) (ev_now ev) (emptyListenerSession (hdr_SessionID (msg_Header m)) (li_settings l))) \<noteq> None"
  | (created) e d t s where
      "newListenerSession rs_New ev (hdr_SessionID (msg_Header m)) (li_settings l) (msg_Handshake m) key reply = Inr t"
      "create_session rs_New ev net m key reply l =
        ((Some (hdr_SessionID (msg_Header m)), (newResult m)\<lparr>hr_Created := True, hr_Established := True, hr_EndpointAdded := True,
          hr_Response := Some \<lparr>sa_Type = TypeHelloAck, sa_PathID = rp_PathID reply,
            sa_Err = send_one (li_settings l) net 0 \<lparr>pn_message = helloMessage TypeHelloAck t, pn_path = Reply reply, pn_budget = se_sendMaxUDPPayload t, pn_probeKey = [],
              pn_probe = \<lparr>ob_token = 0, ob_timestamp = 0, ob_sentAt = 0\<rparr>\<rparr>\<rparr>\<rparr>, None), storeSession s l)"
      "validateHandshake (li_settings l) (msg_Handshake m) = None"
      "quiet (established_with (msg_Handshake m) (ev_now ev) e d (emptyListenerSession (hdr_SessionID (msg_Header m)) (li_settings l))) t" "quiet t s"
      "registered rs_New (li_settings l) (hdr_SessionID (msg_Header m)) s" "map_of (se_endpoints t) key \<noteq> None" "session_inv rs_New t"
      "se_state s = StateEstablished"
proof -
  let ?i = "hdr_SessionID (msg_Header m)" and ?g = "li_settings l"
  have g: "settings_ok ?g" using inv by (simp add: listener_inv_def)
  show thesis
  proof (rule newListenerSession_cases [OF g i key, of rs_New ev "msg_Handshake m"])
    assume "newListenerSession rs_New ev ?i ?g (msg_Handshake m) key reply = Inl ErrHandshakeIncompatible"
      "fst (establishLocked rs_New (msg_Handshake m) (ev_now ev) (emptyListenerSession ?i ?g)) \<noteq> None"
    then show thesis by (intro failed) (simp add: create_session_def Let_def)
  next
    fix e d t
    assume t: "newListenerSession rs_New ev ?i ?g (msg_Handshake m) key reply = Inr t" "session_inv rs_New t" "validateHandshake ?g (msg_Handshake m) = None"
      "quiet (established_with (msg_Handshake m) (ev_now ev) e d (emptyListenerSession ?i ?g)) t" "map_of (se_endpoints t) key \<noteq> None"
      "ep_path (the (map_of (se_endpoints t) key)) = reply"
    have f: "se_id t = ?i" "se_settings t = ?g" "se_role t = RoleListener" "se_state t = StateEstablished"
      using quiet_fields [OF t(4)] by (simp_all add: established_with_def emptyListenerSession_def Let_def)
    have ack: "NewHelloAck ?i (word_of_int (DataShards (sg_params ?g))) (word_of_int (ParityShards (sg_params ?g))) (word_of_int (sg_localMaxUDPPayload ?g)) =
        Inr (helloMessage TypeHelloAck t)"
      using newHandshake_ok [OF g i, of TypeHelloAck] by (simp add: NewHelloAck_def helloMessage_def f Let_def)
    let ?p = "\<lparr>pn_message = helloMessage TypeHelloAck t, pn_path = Reply reply,
      pn_budget = se_sendMaxUDPPayload t, pn_probeKey = [], pn_probe = \<lparr>ob_token = 0, ob_timestamp = 0, ob_sentAt = 0\<rparr>\<rparr>"
    let ?s = "settle True ?p (send_one ?g net 0 ?p) t"
    note S = settle_keeps [OF t(2), of True ?p "send_one ?g net 0 ?p"]
    have "registered rs_New ?g ?i ?s" using S quiet_fields [OF S(2)] f by (simp add: registered_def)
    moreover have "hdr_Type (msg_Header (helloMessage TypeHelloAck t)) = TypeHelloAck" by (simp add: helloMessage_def Let_def)
    ultimately show thesis
      using quiet_fields(4) [OF S(2)]
      by (intro created [OF t(1) _ t(3,4) S(2) _ t(5,2)]) (simp_all add: create_session_def t(1,6) ack f Let_def)
  qed
qed

text \<open>A usable packet at an open listener.\<close>

lemma Listener_HandlePacket_eq:
  assumes m: "check_context c = None" "decoded (li_settings l) (rc_Payload packet) m"
    and id: "replyIdentity (ev_available ev 3) (rc_Reply packet) = Inr key" and reply: "rc_Reply packet = Some reply" and op: "\<not> li_closed l"
  shows "Listener_HandlePacket rs_New c ev net packet l =
      (case map_of (li_sessions l) (hdr_SessionID (msg_Header m)) of
         Some existing \<Rightarrow> dispatch_existing rs_New ev net packet m key existing l
       | None \<Rightarrow>
           if hdr_Type (msg_Header m) \<noteq> TypeHello then ((None, newResult m, Some ErrUnknownSession), l)
           else
             (case validateHandshakeSettings (li_settings l) (msg_Handshake m) of
                Some err \<Rightarrow> ((None, newResult m, Some err), l)
              | None \<Rightarrow> if int (length (li_sessions l)) \<ge> li_maxSessions l then ((None, newResult m, Some ErrSessionLimit), l)
                  else create_session rs_New ev net m key reply l))"
  using m op by (cases "Authenticator_Decode (Some (sg_authenticator (li_settings l))) (rc_Payload packet) (sg_localMaxUDPPayload (li_settings l))")
    (simp add: Listener_HandlePacket_def decoded_def id reply [symmetric], simp add: reply)

text \<open>What a packet does to the registry.\<close>

lemma Listener_HandlePacket_cases:
  assumes inv: "listener_inv rs_New l" and r: "Listener_HandlePacket rs_New c ev net packet l = ((sid, result, err), l')"
  obtains (ignored) "l' = l" "err \<noteq> None" "sid = None"
  | (stepped) m s s' where "decoded (li_settings l) (rc_Payload packet) m" "map_of (li_sessions l) (hdr_SessionID (msg_Header m)) = Some s"
      "registered rs_New (li_settings l) (hdr_SessionID (msg_Header m)) s'" "l' = storeSession s' l"
  | (removed) m s where "decoded (li_settings l) (rc_Payload packet) m" "map_of (li_sessions l) (hdr_SessionID (msg_Header m)) = Some s"
      "hdr_Type (msg_Header m) = TypeClose" "l' = removeSession (hdr_SessionID (msg_Header m)) l"
  | (created) m s where "decoded (li_settings l) (rc_Payload packet) m" "hdr_Type (msg_Header m) = TypeHello"
      "map_of (li_sessions l) (hdr_SessionID (msg_Header m)) = None" "validateHandshake (li_settings l) (msg_Handshake m) = None"
      "int (length (li_sessions l)) < li_maxSessions l" "\<not> li_closed l" "registered rs_New (li_settings l) (hdr_SessionID (msg_Header m)) s"
      "l' = storeSession s l" "hr_Created result" "err = None" "sid = Some (hdr_SessionID (msg_Header m))"
      "se_state s = StateEstablished"
proof (cases "\<exists>m key reply. check_context c = None \<and> decoded (li_settings l) (rc_Payload packet) m \<and>
    replyIdentity (ev_available ev 3) (rc_Reply packet) = Inr key \<and> rc_Reply packet = Some reply \<and> \<not> li_closed l")
  case False
  have "l' = l \<and> err \<noteq> None \<and> sid = None"
  proof (cases "check_context c")
    case None
    then show ?thesis using r False unfolding Listener_HandlePacket_def decoded_def
      by (auto split: option.splits prod.splits sum.splits if_splits)
  next
    case (Some e)
    then have "Listener_HandlePacket rs_New c ev net packet l = ((None, newResult zeroMessage, Some e), l)" by (simp add: Listener_HandlePacket_def)
    with r show ?thesis by auto
  qed
  then show thesis using ignored by blast
next
  case True
  then obtain m key reply where m: "check_context c = None" "decoded (li_settings l) (rc_Payload packet) m"
    and id: "replyIdentity (ev_available ev 3) (rc_Reply packet) = Inr key" and reply: "rc_Reply packet = Some reply" and op: "\<not> li_closed l" by blast
  let ?i = "hdr_SessionID (msg_Header m)" and ?g = "li_settings l"
  have key: "replyIdentityUnchecked (rc_Reply packet) = Inr key" using id by (rule replyIdentity_unchecked)
  have i: "?i \<noteq> 0" using validateMessage_session [OF decoded_valid [OF m(2)]] .
  note eq = Listener_HandlePacket_eq [where net = net and rs_New = rs_New, OF m id reply op]
  show thesis
  proof (cases "map_of (li_sessions l) ?i")
    case (Some s)
    note R = registeredD [OF inv Some]
    have g: "se_settings s = ?g" "se_id s = ?i" using R by (simp_all add: registered_def)
    let ?s = "snd (snd (handleAuthenticatedWithIdentity rs_New ev net packet m key s))"
    have "registered rs_New ?g ?i ?s" by (rule registered_steps [OF R handleAuthenticated_steps]) (use m(2) key g in simp_all)
    moreover have "l' = storeSession ?s l \<or> hdr_Type (msg_Header m) = TypeClose \<and> l' = removeSession ?i l"
      using r unfolding eq by (auto simp: Some dispatch_existing_def g split_beta split: if_splits)
    ultimately show thesis using stepped [OF m(2) Some] removed [OF m(2) Some] by blast
  next
    case None
    show thesis
    proof (cases "hdr_Type (msg_Header m) = TypeHello \<and> validateHandshakeSettings ?g (msg_Handshake m) = None \<and> int (length (li_sessions l)) < li_maxSessions l")
      case False
      have "l' = l \<and> err \<noteq> None \<and> sid = None"
        using r False unfolding eq by (cases "validateHandshakeSettings ?g (msg_Handshake m)") (auto simp: None split: if_splits, metis+)
      then show thesis using ignored by blast
    next
      case ok: True
      have c: "Listener_HandlePacket rs_New c ev net packet l = create_session rs_New ev net m key reply l" unfolding eq using None ok by simp
      show thesis
      proof (rule create_session_cases [OF inv i key [unfolded reply], of ev net])
        assume "create_session rs_New ev net m key reply l = ((None, newResult m, Some ErrHandshakeIncompatible), l)"
        then show thesis using r ignored unfolding c by simp
      next
        fix e d t s
        assume "create_session rs_New ev net m key reply l =
          ((Some ?i, (newResult m)\<lparr>hr_Created := True, hr_Established := True, hr_EndpointAdded := True,
          hr_Response := Some \<lparr>sa_Type = TypeHelloAck, sa_PathID = rp_PathID reply,
            sa_Err = send_one ?g net 0 \<lparr>pn_message = helloMessage TypeHelloAck t, pn_path = Reply reply, pn_budget = se_sendMaxUDPPayload t, pn_probeKey = [],
              pn_probe = \<lparr>ob_token = 0, ob_timestamp = 0, ob_sentAt = 0\<rparr>\<rparr>\<rparr>\<rparr>, None), storeSession s l)"
          "validateHandshake ?g (msg_Handshake m) = None" "registered rs_New ?g ?i s" "se_state s = StateEstablished"
        then show thesis using r ok m(2) None op unfolding c by (intro created) auto
      qed
    qed
  qed
qed

lemma Listener_HandlePacket_keeps:
  assumes inv: "listener_inv rs_New l"
  shows "listener_inv rs_New (snd (Listener_HandlePacket rs_New c ev net packet l))"
proof -
  obtain sid result err l' where r: "Listener_HandlePacket rs_New c ev net packet l = ((sid, result, err), l')" by (metis prod.collapse)
  show ?thesis using inv r
  proof (cases rule: Listener_HandlePacket_cases)
    case (stepped m s s')
    then show ?thesis using storeSession_old(1) [OF inv] by (simp add: r)
  next
    case (created m s)
    then show ?thesis using storeSession_new [OF inv] by (simp add: r)
  qed (use inv removeSession_keeps in \<open>simp_all add: r\<close>)
qed

lemma advance_sessions_keeps:
  "listener_inv rs_New l \<Longrightarrow> listener_inv rs_New (snd (advance_sessions c ev net is l)) \<and> keys (li_sessions (snd (advance_sessions c ev net is l))) = keys (li_sessions l)"
proof (induction "is" arbitrary: l)
  case (Cons i "is")
  show ?case
  proof (cases "map_of (li_sessions l) i")
    case (Some s)
    let ?s = "snd (snd (Advance c (ev i) (net i) s))"
    have "registered rs_New (li_settings l) i ?s" by (rule registered_steps [OF registeredD [OF Cons.prems Some] Advance_steps])
    note S = storeSession_old [OF Cons.prems Some this]
    show ?thesis using Cons.IH [OF S(1)] S(2) by (simp add: Some split_beta)
  qed (use Cons in simp)
qed simp

lemma listener_step_inv:
  assumes "listener_step rs_New l l'" "listener_inv rs_New l"
  shows "listener_inv rs_New l'"
  using assms(1)
proof (cases rule: listener_step.cases)
  case (lstep_session i s s')
  have "registered rs_New (li_settings l) i s'" by (rule registered_steps [OF registeredD [OF assms(2) lstep_session(2)]]) (use lstep_session in blast)
  then show ?thesis using storeSession_old(1) [OF assms(2) lstep_session(2)] lstep_session(1) by simp
next
  case (lstep_close c evs nets)
  then show ?thesis using assms(2) by (auto simp: Listener_Close_def listener_inv_def Let_def)
qed (use assms(2) Listener_HandlePacket_keeps removeSession_keeps advance_sessions_keeps in \<open>simp_all add: Listener_Advance_def\<close>)

interpretation listener_system: transition_system listener_start "listener_step rs_New" "listener_inv rs_New"
proof unfold_locales
  show "listener_start l \<Longrightarrow> listener_inv rs_New l" for l by (rule listener_start_inv)
  show "listener_inv rs_New l \<Longrightarrow> listener_step rs_New l l' \<Longrightarrow> listener_inv rs_New l'" for l l' by (rule listener_step_inv)
qed


subsection \<open>Properties\<close>

definition exampleListener :: Listener where
  "exampleListener = \<lparr>li_settings = exampleSettings, li_maxSessions = 2, li_sessions = [], li_closed = False, li_closeErr = []\<rparr>"

lemma exampleListener_reachable: "reachable_listener rs_New exampleListener"
proof (rule reach_start)
  have "NewListener exampleConfig 2 = Inr exampleListener" by (simp add: NewListener_def exampleSettings_config exampleListener_def)
  then show "listener_start exampleListener" unfolding listener_start_def by blast
qed

text \<open>C17: the registry is bounded and guarded. In every reachable listener there are at most as many sessions as configured, each stored once under
  its own identifier, with the listener's settings and well formed; a closed listener has none. A packet
  adds a session only if it is an authentic HELLO for an unknown identifier whose parameters are compatible, if
  the listener is open and has room; then \<open>HandlePacket\<close> reports the creation. A packet
  leaves every session but the one it names untouched, and it removes one only if it is an authentic CLOSE for it.\<close>

theorem registry_guarded:
  assumes reach: "reachable_listener rs_New l" and h: "Listener_HandlePacket rs_New c ev net packet l = ((sid, result, err), l')"
  shows "int (length (li_sessions l)) \<le> li_maxSessions l \<and> distinct (map fst (li_sessions l)) \<and> (li_closed l \<longrightarrow> li_sessions l = []) \<and>
    (\<forall>(i, s) \<in> set (li_sessions l). se_id s = i \<and> se_settings s = li_settings l \<and> session_inv rs_New s) \<and>
    (\<forall>i s. map_of (li_sessions l) i = None \<and> map_of (li_sessions l') i = Some s \<longrightarrow>
       (\<exists>m. decoded (li_settings l) (rc_Payload packet) m \<and> hdr_SessionID (msg_Header m) = i \<and> hdr_Type (msg_Header m) = TypeHello \<and>
          validateHandshake (li_settings l) (msg_Handshake m) = None \<and> \<not> li_closed l \<and> int (length (li_sessions l)) < li_maxSessions l \<and>
          se_state s = StateEstablished \<and> hr_Created result \<and> err = None \<and> sid = Some i)) \<and>
    (\<forall>i. map_of (li_sessions l') i \<noteq> map_of (li_sessions l) i \<longrightarrow>
       (\<exists>m. decoded (li_settings l) (rc_Payload packet) m \<and> hdr_SessionID (msg_Header m) = i)) \<and>
    (\<forall>i s. map_of (li_sessions l) i = Some s \<and> map_of (li_sessions l') i = None \<longrightarrow>
       (\<exists>m. decoded (li_settings l) (rc_Payload packet) m \<and> hdr_SessionID (msg_Header m) = i \<and> hdr_Type (msg_Header m) = TypeClose))"
    (is "?bounded \<and> ?distinct \<and> ?closed \<and> ?own \<and> ?added \<and> ?changed \<and> ?gone")
proof -
  have inv: "listener_inv rs_New l" using reach by (rule listener_system.reachable_inv)
  have 1: ?bounded ?distinct ?closed using inv by (simp_all add: listener_inv_def)
  have 2: ?own using inv by (auto simp: listener_inv_def registered_def)
  have "?added \<and> ?changed \<and> ?gone"
    using inv h
  proof (cases rule: Listener_HandlePacket_cases)
    case ignored
    then show ?thesis by auto
  next
    case (stepped m s s')
    have "se_id s' = hdr_SessionID (msg_Header m)" using stepped(3) by (simp add: registered_def)
    then show ?thesis using stepped by (auto simp: storeSession_def update_conv)
  next
    case (removed m s)
    then show ?thesis by (auto simp: removeSession_def delete_conv)
  next
    case (created m s)
    have "se_id s = hdr_SessionID (msg_Header m)" using created(7) by (simp add: registered_def)
    then show ?thesis using created by (auto simp: storeSession_def update_conv)
  qed
  then show ?thesis using 1 2 by blast
qed


theorem registry_guarded_witness:
  "\<exists>sid result err. Listener_HandlePacket (\<lambda>k n. None) LiveContext (exampleEnv 6) (\<lambda>n p y. None) \<lparr>rc_Payload = [], rc_Reply = None\<rparr> exampleListener =
     ((sid, result, err), exampleListener) \<and> int (length (li_sessions exampleListener)) \<le> 2"
proof -
  have h: "Listener_HandlePacket (\<lambda>k n. None) LiveContext (exampleEnv 6) (\<lambda>n p y. None) \<lparr>rc_Payload = [], rc_Reply = None\<rparr> exampleListener =
      ((None, newResult zeroMessage, Some (WireError ErrMalformed)), exampleListener)"
    using decode_empty by (auto simp: Listener_HandlePacket_def check_context_def exampleListener_def exampleSettings_def split: prod.split)
  show ?thesis using h registry_guarded [OF exampleListener_reachable h] by (simp add: exampleListener_def)
qed

subsection \<open>The handshake\<close>

lemma helloMessage_ok:
  assumes inv: "session_inv rs_New s" and t: "t = TypeHello \<or> t = TypeHelloAck" and b: "72 \<le> b" "b \<le> 65507"
  shows "wireAdmissible (auth_key (sg_authenticator (se_settings s))) b (helloMessage t s)"
proof -
  note D = settings_okD [OF session_invD(1) [OF inv]]
  have "newHandshake t (se_id s) (word_of_int (DataShards (sg_params (se_settings s)))) (word_of_int (ParityShards (sg_params (se_settings s))))
      (word_of_int (sg_localMaxUDPPayload (se_settings s))) = Inr (helloMessage t s)"
    using newHandshake_ok [OF session_invD(1,2) [OF inv] t] by (simp add: helloMessage_def Let_def)
  then have v: "validateMessage (helloMessage t s) = None"
    by (auto simp: newHandshake_def checked_def EncodedLen_eq Let_def split: option.splits sum.splits if_splits)
  have "length (encodeBody (helloMessage t s)) = 4" using t by (elim disjE) (simp_all add: encodeBody_def helloMessage_def Let_def)
  then show ?thesis using v D(1) b by (simp add: wireAdmissible_def validateBudget_None)
qed

lemma hello_sent:
  assumes "wireAdmissible (auth_key (sg_authenticator g)) (pn_budget p) (pn_message p)"
  shows "send_one g net n p = map_option NetFailure (net n (pn_path p) (wirePacket (auth_key (sg_authenticator g)) (pn_message p)))"
proof -
  have "AppendAuthenticated [] (pn_message p) (auth_key (sg_authenticator g)) (pn_budget p) = (wirePacket (auth_key (sg_authenticator g)) (pn_message p), None)"
    using assms by (simp add: AppendAuthenticated_ok)
  then show ?thesis by (simp add: send_one_def Authenticator_Append_def append_pooled)
qed

lemma helloMessage_fields:
  assumes g: "settings_ok (se_settings s)"
  shows "unat (hs_DataShards (msg_Handshake (helloMessage t s))) = nat (DataShards (sg_params (se_settings s)))"
    "unat (hs_ParityShards (msg_Handshake (helloMessage t s))) = nat (ParityShards (sg_params (se_settings s)))"
    "unat (hs_MaxUDPPayload (msg_Handshake (helloMessage t s))) = nat (sg_localMaxUDPPayload (se_settings s))"
    "hdr_Type (msg_Header (helloMessage t s)) = t" "hdr_SessionID (msg_Header (helloMessage t s)) = se_id s"
  using settings_fields [OF g] by (simp_all add: helloMessage_def Let_def)

text \<open>Both ends accept each other's announcement when they agree on the shape of a block.\<close>

lemma validateHandshake_peer:
  assumes s: "settings_ok (se_settings s)" and same: "sg_params g = sg_params (se_settings s)"
  shows "validateHandshake g (msg_Handshake (helloMessage t s)) = None"
  using settings_okD [OF s] helloMessage_fields [OF s, of t] by (simp add: validateHandshake_None same le_nat_iff nat_le_iff del: of_nat_unat)

lemma establish_succeeds:
  assumes g: "settings_ok (se_settings s)" and v: "validateHandshake (se_settings s) h = None"
    and lim: "DeriveLimits (sg_params (se_settings s)) \<lparr>bg_MaxUDPPayload = min (sg_localMaxUDPPayload (se_settings s)) (int (unat (hs_MaxUDPPayload h))),
      bg_DataShardWireOverhead = int DataShardOverhead, bg_MaxDatagramSize = sg_maxDatagramSize (se_settings s)\<rparr> = Inr lim"
    and codec: "rs_New (DataShards (sg_params (se_settings s))) (ParityShards (sg_params (se_settings s))) = Some c"
  shows "\<exists>e d. establishLocked rs_New h now s = (None, established_with h now e d s)"
proof -
  note D = settings_okD [OF g]
  have "\<exists>n. validateParams (sg_params (se_settings s)) = Inr n" using D(2-6) by (simp add: validateParams_def)
  then have "fst (establishLocked rs_New h now s) = None"
    using v lim codec D(14,20)
    by (auto simp: establishLocked_def NewEncoder_def newEncoderAt_def newCodec_def NewDecoder_def Let_def simp del: of_nat_unat)
  then obtain s' where r: "establishLocked rs_New h now s = (None, s')" by (metis prod.collapse)
  then show ?thesis by (rule establishLocked_cases) (use r in auto)
qed



text \<open>The packets that \<open>Start\<close> plans are HELLOs of the session.\<close>

lemma started_hello:
  assumes inv: "session_inv rs_New s" and st: "start_locked now s0 = (Inr plans, s)" "p \<in> set plans"
    and hello: "Authenticator_Append (Some (sg_authenticator (se_settings s))) [] (pn_message p) (pn_budget p) = (hello, None, a)"
  shows "hello = wirePacket (auth_key (sg_authenticator (se_settings s))) (helloMessage TypeHello s)"
proof -
  let ?t = "s0\<lparr>se_started := True\<rparr>"
  have s: "\<exists>cs. s = ?t\<lparr>se_carriers := cs\<rparr> \<and> hello_all ?t now (se_carriers s0) = (Inr plans, cs)"
    using st by (auto simp: start_locked_def split: if_splits prod.splits sum.splits)
  then have f: "se_settings s = se_settings ?t" "se_id s = se_id ?t" by auto
  have "hello_all ?t now (se_carriers s0) = (Inr (map (hello_plan ?t) (se_carriers s0)), map (attempted ?t now) (se_carriers s0))"
    by (rule hello_all_ok) (use session_invD(1,2) [OF inv] f in simp_all)
  then obtain c where "p = hello_plan ?t c" using s st(2) by auto
  then have m: "pn_message p = helloMessage TypeHello s" by (simp add: hello_plan_def helloMessage_def f Let_def)
  show ?thesis
    using hello AppendAuthenticated_ok [of "[]" "pn_message p"] by (auto simp: Authenticator_Append_def append_pooled m split: prod.splits option.splits)
qed

lemma ack_establishes:
  assumes inv: "session_inv rs_New s" and ini: "se_role s = RoleInitiator" "se_state s = StateHandshaking" and t: "session_inv rs_New t" "se_id t = se_id s"
    and same: "auth_key (sg_authenticator (se_settings t)) = auth_key (sg_authenticator (se_settings s))" "sg_params (se_settings t) = sg_params (se_settings s)"
    and b: "b = min (sg_localMaxUDPPayload (se_settings s)) (sg_localMaxUDPPayload (se_settings t))"
    and room: "\<exists>lim. DeriveLimits (sg_params (se_settings s))
      \<lparr>bg_MaxUDPPayload = b, bg_DataShardWireOverhead = int DataShardOverhead, bg_MaxDatagramSize = sg_maxDatagramSize (se_settings s)\<rparr> = Inr lim"
    and codec: "rs_New (DataShards (sg_params (se_settings s))) (ParityShards (sg_params (se_settings s))) = Some rsc"
    and path: "replyIdentity (ev_available ev 0) (Some reply) = Inr key" "rp_PathID reply \<in> PathID ` ca_path ` set (se_carriers s)"
  shows "\<exists>result s'. HandlePacket rs_New LiveContext ev net
      \<lparr>rc_Payload = wirePacket (auth_key (sg_authenticator (se_settings s))) (helloMessage TypeHelloAck t), rc_Reply = Some reply\<rparr> s = (result, None, s') \<and>
    hr_Established result \<and> session_inv rs_New s' \<and> se_state s' = StateEstablished \<and> se_settings s' = se_settings s \<and>
    se_peerMaxUDPPayload s' = sg_localMaxUDPPayload (se_settings t)"
proof -
  let ?a = "helloMessage TypeHelloAck t"
  let ?p = "\<lparr>rc_Payload = wirePacket (auth_key (sg_authenticator (se_settings s))) ?a, rc_Reply = Some reply\<rparr>"
  note G = session_invD(1) [OF inv] and GT = session_invD(1) [OF t(1)]
  note F = helloMessage_fields [OF GT, of TypeHelloAck]
  have dec: "decoded (se_settings s) (rc_Payload ?p) ?a"
    using decode_wirePacket [OF helloMessage_ok [OF t(1) _ settings_okD(7,8) [OF G], of TypeHelloAck]] by (simp add: decoded_iff same(1))
  have key: "replyIdentityUnchecked (Some reply) = Inr key" using path(1) by (rule replyIdentity_unchecked)
  have up: "ev_available ev 0 (Reply reply)" using path(1) by (auto simp: replyIdentity_def split: sum.splits if_splits)
  have ids: "rp_PathID reply \<in> carrier_ids s" using path(2) by (simp add: carrier_ids_def image_comp)
  obtain x where "DeriveLimits (sg_params (se_settings s)) \<lparr>bg_MaxUDPPayload = min (sg_localMaxUDPPayload (se_settings s)) (int (unat (hs_MaxUDPPayload (msg_Handshake ?a)))),
      bg_DataShardWireOverhead = int DataShardOverhead, bg_MaxDatagramSize = sg_maxDatagramSize (se_settings s)\<rparr> = Inr x"
    using room settings_okD(7) [OF GT] by (auto simp: F b simp del: of_nat_unat)
  from establish_succeeds [where s = s and h = "msg_Handshake ?a" and rs_New = rs_New and now = "ev_now ev", OF G validateHandshake_peer [OF GT same(2) [symmetric]] this codec]
  obtain e d where est: "establishLocked rs_New (msg_Handshake ?a) (ev_now ev) s = (None, established_with (msg_Handshake ?a) (ev_now ev) e d s)" by blast
  have l: "learnable key reply s" using key ids by (simp add: learnable_def)
  obtain c where c: "handle_hello_ack rs_New ev key reply ?a (newResult ?a) s =
      (None, learned (True, False) ((newResult ?a)\<lparr>hr_Established := True\<rparr>), None, on_carrier (rp_PathID reply) acked c)"
    "session_inv rs_New c" "se_state c = StateEstablished" "forward s c" "quiet (established_with (msg_Handshake ?a) (ev_now ev) e d s) c"
    by (rule handle_hello_ack_establishes [where result = "newResult ?a", OF inv l ini est])
  have "handle_locked rs_New ev ?p ?a [] s = (None, learned (True, False) ((newResult ?a)\<lparr>hr_Established := True\<rparr>), None, on_carrier (rp_PathID reply) acked c)"
    using ini up ids carrierByID_in [of s "rp_PathID reply"] c(1)
    by (subst handle_locked_reply [OF _ _ key]) (simp_all add: F t(2) handle_message_def)
  then have "HandlePacket rs_New LiveContext ev net ?p s =
      (learned (True, False) ((newResult ?a)\<lparr>hr_Established := True\<rparr>), None, on_carrier (rp_PathID reply) acked c)"
    unfolding HandlePacket_decoded [OF dec] by (simp add: handleAuthenticatedWithIdentity_def)
  moreover have "session_inv rs_New (on_carrier (rp_PathID reply) acked c)" using acked_keeps [OF c(2,3)] by (simp add: acked_def [abs_def])
  moreover have "se_peerMaxUDPPayload c = sg_localMaxUDPPayload (se_settings t)" "se_settings c = se_settings s"
    using quiet_fields(3,7) [OF c(5)] settings_okD(7) [OF GT] by (simp_all add: established_with_def Let_def F del: of_nat_unat)
  ultimately show ?thesis using c(3) by (simp add: learned_def)
qed

lemma hello_creates:
  assumes inv: "session_inv rs_New s" and linv: "listener_inv rs_New l"
    and l: "\<not> li_closed l" "int (length (li_sessions l)) < li_maxSessions l" "map_of (li_sessions l) (se_id s) = None"
    and same: "auth_key (sg_authenticator (li_settings l)) = auth_key (sg_authenticator (se_settings s))" "sg_params (li_settings l) = sg_params (se_settings s)"
    and b: "b = min (sg_localMaxUDPPayload (se_settings s)) (sg_localMaxUDPPayload (li_settings l))"
    and room: "\<exists>lim. DeriveLimits (sg_params (se_settings s))
      \<lparr>bg_MaxUDPPayload = b, bg_DataShardWireOverhead = int DataShardOverhead, bg_MaxDatagramSize = sg_maxDatagramSize (li_settings l)\<rparr> = Inr lim"
    and codec: "rs_New (DataShards (sg_params (se_settings s))) (ParityShards (sg_params (se_settings s))) = Some rsc"
    and path: "replyIdentity (ev_available evl 3) (Some there) = Inr key"
  shows "\<exists>t l'. session_inv rs_New t \<and> se_id t = se_id s \<and> se_settings t = li_settings l \<and> se_state t = StateEstablished \<and>
    se_sendMaxUDPPayload t = b \<and> se_receiveMaxUDPPayload t = b \<and> se_peerMaxUDPPayload t = sg_localMaxUDPPayload (se_settings s) \<and>
    (\<forall>net. \<exists>t' result. Listener_HandlePacket rs_New LiveContext evl net
        \<lparr>rc_Payload = wirePacket (auth_key (sg_authenticator (se_settings s))) (helloMessage TypeHello s), rc_Reply = Some there\<rparr> l =
        ((Some (se_id s), result, None), l' net) \<and> Listener_Session (se_id s) (l' net) = Some t' \<and> quiet t t' \<and> hr_Created result \<and>
        (\<exists>x. hr_Response result = Some x \<and> sa_Type x = TypeHelloAck \<and>
           sa_Err x = map_option NetFailure (net 0 (Reply there) (wirePacket (auth_key (sg_authenticator (se_settings s))) (helloMessage TypeHelloAck t)))))"
proof -
  let ?k = "auth_key (sg_authenticator (se_settings s))" and ?g = "li_settings l" and ?m = "helloMessage TypeHello s"
  note G = session_invD(1) [OF inv] and D = settings_okD [OF session_invD(1) [OF inv]]
  have gl: "settings_ok ?g" using linv by (simp add: listener_inv_def)
  note DL = settings_okD [OF gl]
  have bb: "72 \<le> b" "b \<le> 65507" using D(7,8) DL(7,8) by (simp_all add: b)
  have dec: "decoded ?g (rc_Payload \<lparr>rc_Payload = wirePacket ?k ?m, rc_Reply = Some there\<rparr>) ?m"
    using decode_wirePacket [OF helloMessage_ok [OF inv _ DL(7,8)]] by (simp add: decoded_iff same(1))
  have lim: "\<exists>lim. DeriveLimits (sg_params (se_settings s)) \<lparr>bg_MaxUDPPayload = min (sg_localMaxUDPPayload ?g) (int (unat (hs_MaxUDPPayload (msg_Handshake ?m)))),
      bg_DataShardWireOverhead = int DataShardOverhead, bg_MaxDatagramSize = sg_maxDatagramSize ?g\<rparr> = Inr lim"
    using room D(7) by (auto simp: helloMessage_fields [OF G] b min.commute simp del: of_nat_unat)
  note v = validateHandshake_peer [OF G same(2)]
  have vs: "validateHandshakeSettings ?g (msg_Handshake ?m) = None" using v lim by (auto simp: validateHandshakeSettings_def same(2) simp del: of_nat_unat)
  have key: "replyIdentityUnchecked (Some there) = Inr key" using path by (rule replyIdentity_unchecked)
  have i: "hdr_SessionID (msg_Header ?m) \<noteq> 0" using session_invD(2) [OF inv] by (simp add: helloMessage_fields [OF G])
  have L: "Listener_HandlePacket rs_New LiveContext evl net \<lparr>rc_Payload = wirePacket ?k ?m, rc_Reply = Some there\<rparr> l = create_session rs_New evl net ?m key there l" for net
    using l vs path by (subst Listener_HandlePacket_eq [OF _ dec]) (simp_all add: check_context_def helloMessage_fields [OF G])
  have est: "fst (establishLocked rs_New (msg_Handshake ?m) (ev_now evl) (emptyListenerSession (se_id s) ?g)) = None"
  proof -
    have e: "se_settings (emptyListenerSession (se_id s) ?g) = ?g" by (simp add: emptyListenerSession_def)
    obtain x where "DeriveLimits (sg_params ?g) \<lparr>bg_MaxUDPPayload = min (sg_localMaxUDPPayload ?g) (int (unat (hs_MaxUDPPayload (msg_Handshake ?m)))),
      bg_DataShardWireOverhead = int DataShardOverhead, bg_MaxDatagramSize = sg_maxDatagramSize ?g\<rparr> = Inr x" using lim by (auto simp only: same(2))
    then show ?thesis
      using establish_succeeds [of "emptyListenerSession (se_id s) ?g" "msg_Handshake ?m" x rs_New rsc "ev_now evl", unfolded e, OF gl v] codec
      by (auto simp: same(2) simp del: of_nat_unat)
  qed
  obtain e d t where t: "newListenerSession rs_New evl (se_id s) ?g (msg_Handshake ?m) key there = Inr t" "session_inv rs_New t"
    "quiet (established_with (msg_Handshake ?m) (ev_now evl) e d (emptyListenerSession (se_id s) ?g)) t"
    by (rule newListenerSession_cases [OF gl session_invD(2) [OF inv] key, of rs_New evl "msg_Handshake ?m"]) (use est in auto)
  have tf: "se_id t = se_id s" "se_settings t = ?g" "se_state t = StateEstablished" "se_sendMaxUDPPayload t = b" "se_receiveMaxUDPPayload t = b"
    "se_peerMaxUDPPayload t = sg_localMaxUDPPayload (se_settings s)"
    using quiet_fields [OF t(3)] D(7)
    by (simp_all add: established_with_def emptyListenerSession_def Let_def helloMessage_fields [OF G] b min.commute del: of_nat_unat)
  let ?a = "helloMessage TypeHelloAck t" and ?ack = "wirePacket ?k (helloMessage TypeHelloAck t)"
  have side: "\<exists>t' result. create_session rs_New evl net ?m key there l = ((Some (se_id s), result, None), storeSession t' l) \<and> se_id t' = se_id s \<and>
      quiet t t' \<and> hr_Created result \<and>
      (\<exists>x. hr_Response result = Some x \<and> sa_Type x = TypeHelloAck \<and> sa_Err x = map_option NetFailure (net 0 (Reply there) ?ack))" for net
  proof (rule create_session_cases [OF linv i key, of evl net])
    assume "fst (establishLocked rs_New (msg_Handshake ?m) (ev_now evl) (emptyListenerSession (hdr_SessionID (msg_Header ?m)) ?g)) \<noteq> None"
    then show ?thesis using est by (simp add: helloMessage_fields [OF G])
  next
    fix t2 t'
    let ?p = "\<lparr>pn_message = helloMessage TypeHelloAck t2, pn_path = Reply there, pn_budget = se_sendMaxUDPPayload t2, pn_probeKey = [],
      pn_probe = \<lparr>ob_token = 0, ob_timestamp = 0, ob_sentAt = 0\<rparr>\<rparr>"
    assume n: "newListenerSession rs_New evl (hdr_SessionID (msg_Header ?m)) ?g (msg_Handshake ?m) key there = Inr t2"
      and c: "create_session rs_New evl net ?m key there l = ((Some (hdr_SessionID (msg_Header ?m)),
        (newResult ?m)\<lparr>hr_Created := True, hr_Established := True, hr_EndpointAdded := True,
          hr_Response := Some \<lparr>sa_Type = TypeHelloAck, sa_PathID = rp_PathID there, sa_Err = send_one ?g net 0 ?p\<rparr>\<rparr>, None), storeSession t' l)"
      and q: "quiet t2 t'"
    have t2: "t2 = t" using n t(1) by (simp add: helloMessage_fields [OF G])
    have "send_one ?g net 0 ?p = map_option NetFailure (net 0 (Reply there) ?ack)"
      using hello_sent [of ?g ?p net 0] helloMessage_ok [OF t(2) _ bb, of TypeHelloAck] by (simp add: t2 tf same(1))
    then show ?thesis using c q quiet_fields(1) [OF q]
      by (simp add: t2 tf helloMessage_fields [OF G]) (rule exI [of _ t'], simp)
  qed
  have side': "\<exists>t' result. Listener_HandlePacket rs_New LiveContext evl net \<lparr>rc_Payload = wirePacket ?k ?m, rc_Reply = Some there\<rparr> l =
        ((Some (se_id s), result, None), snd (create_session rs_New evl net ?m key there l)) \<and>
        Listener_Session (se_id s) (snd (create_session rs_New evl net ?m key there l)) = Some t' \<and> quiet t t' \<and> hr_Created result \<and>
        (\<exists>x. hr_Response result = Some x \<and> sa_Type x = TypeHelloAck \<and> sa_Err x = map_option NetFailure (net 0 (Reply there) ?ack))" for net
    using side [of net] unfolding L by (auto simp: Listener_Session_def storeSession_def update_conv)
  show ?thesis
    by (intro exI [of _ t] exI [of _ "\<lambda>net. snd (create_session rs_New evl net ?m key there l)"]) (use side' t(2) tf in blast)
qed

text \<open>C3: the handshake reaches agreement. Let an initiator that has been started and a listener share the key and the shape of a block. When any
  HELLO that the initiator plans to send arrives over a usable path at the open listener that has room and does not know the
  session, the listener creates it and answers with one HELLO_ACK; when that answer arrives on one of the initiator's carriers,
  the initiator becomes established. Then both ends use the same budget in both directions, the smaller of
  the two configured payload limits, and with equal datagram limits their codecs have equal limits. The hypotheses
  are that the Reed-Solomon library supports the shape and that the budget leaves room for a shard.\<close>

theorem handshake_agreement:
  assumes s: "reachable_session rs_New s" "se_role s = RoleInitiator" "se_state s = StateHandshaking" "start_locked now s0 = (Inr plans, s)" "p \<in> set plans"
    and l: "reachable_listener rs_New l" "\<not> li_closed l" "int (length (li_sessions l)) < li_maxSessions l" "map_of (li_sessions l) (se_id s) = None"
    and same: "auth_key (sg_authenticator (li_settings l)) = auth_key (sg_authenticator (se_settings s))" "sg_params (li_settings l) = sg_params (se_settings s)"
    and b: "b = min (sg_localMaxUDPPayload (se_settings s)) (sg_localMaxUDPPayload (li_settings l))"
    and room: "\<forall>n \<in> {sg_maxDatagramSize (se_settings s), sg_maxDatagramSize (li_settings l)}.
      \<exists>lim. DeriveLimits (sg_params (se_settings s)) \<lparr>bg_MaxUDPPayload = b, bg_DataShardWireOverhead = int DataShardOverhead, bg_MaxDatagramSize = n\<rparr> = Inr lim"
    and codec: "rs_New (DataShards (sg_params (se_settings s))) (ParityShards (sg_params (se_settings s))) = Some rsc"
    and hello: "Authenticator_Append (Some (sg_authenticator (se_settings s))) [] (pn_message p) (pn_budget p) = (hello, None, a)"
    and paths: "replyIdentity (ev_available evl 3) (Some there) = Inr key" "replyIdentity (ev_available evi 0) (Some back_here) = Inr key'"
      "rp_PathID back_here \<in> PathID ` ca_path ` set (se_carriers s)"
  shows "\<exists>ack t l' s' result'.
    (\<forall>net. \<exists>t' result. Listener_HandlePacket rs_New LiveContext evl net \<lparr>rc_Payload = hello, rc_Reply = Some there\<rparr> l =
        ((Some (se_id s), result, None), l' net) \<and> Listener_Session (se_id s) (l' net) = Some t' \<and> quiet t t' \<and> hr_Created result \<and>
        (\<exists>x. hr_Response result = Some x \<and> sa_Type x = TypeHelloAck \<and> sa_Err x = map_option NetFailure (net 0 (Reply there) ack))) \<and>
    HandlePacket rs_New LiveContext evi neti \<lparr>rc_Payload = ack, rc_Reply = Some back_here\<rparr> s = (result', None, s') \<and> hr_Established result' \<and>
    se_state t = StateEstablished \<and> se_state s' = StateEstablished \<and>
    se_sendMaxUDPPayload t = b \<and> se_receiveMaxUDPPayload t = b \<and> se_sendMaxUDPPayload s' = b \<and> se_receiveMaxUDPPayload s' = b \<and>
    (sg_maxDatagramSize (se_settings s) = sg_maxDatagramSize (li_settings l) \<longrightarrow>
       (\<exists>e d e' d'. se_encoder t = Some e \<and> se_decoder t = Some d \<and> se_encoder s' = Some e' \<and> se_decoder s' = Some d' \<and>
          en_limits e = dc_limits d' \<and> en_limits e' = dc_limits d))"
proof -
  let ?k = "auth_key (sg_authenticator (se_settings s))" and ?g = "li_settings l"
  have inv: "session_inv rs_New s" using s(1) by (rule reachable_session_inv)
  have linv: "listener_inv rs_New l" using l(1) by (rule listener_system.reachable_inv)
  have hello: "hello = wirePacket ?k (helloMessage TypeHello s)" by (rule started_hello [OF inv s(4,5) hello])
  obtain t l' where it: "session_inv rs_New t" and tf: "se_id t = se_id s" "se_settings t = ?g" "se_state t = StateEstablished"
      "se_sendMaxUDPPayload t = b" "se_receiveMaxUDPPayload t = b" "se_peerMaxUDPPayload t = sg_localMaxUDPPayload (se_settings s)"
    and side: "\<forall>net. \<exists>t' result. Listener_HandlePacket rs_New LiveContext evl net \<lparr>rc_Payload = hello, rc_Reply = Some there\<rparr> l =
        ((Some (se_id s), result, None), l' net) \<and> Listener_Session (se_id s) (l' net) = Some t' \<and> quiet t t' \<and> hr_Created result \<and>
        (\<exists>x. hr_Response result = Some x \<and> sa_Type x = TypeHelloAck \<and>
           sa_Err x = map_option NetFailure (net 0 (Reply there) (wirePacket ?k (helloMessage TypeHelloAck t))))"
    using hello_creates [OF inv linv l(2-4) same b bspec [OF room] codec paths(1)] unfolding hello by blast
  let ?ack = "wirePacket ?k (helloMessage TypeHelloAck t)"
  have ini: "\<exists>result' s'. HandlePacket rs_New LiveContext evi neti \<lparr>rc_Payload = ?ack, rc_Reply = Some back_here\<rparr> s = (result', None, s') \<and> hr_Established result' \<and>
      session_inv rs_New s' \<and> se_state s' = StateEstablished \<and> se_settings s' = se_settings s \<and> se_peerMaxUDPPayload s' = sg_localMaxUDPPayload ?g"
    by (rule ack_establishes [OF inv s(2,3) it tf(1) same(1) [folded tf(2)] same(2) [folded tf(2)] b [folded tf(2)] bspec [OF room] codec paths(2,3), unfolded tf(2)]) simp
  then obtain result' s' where h: "HandlePacket rs_New LiveContext evi neti \<lparr>rc_Payload = ?ack, rc_Reply = Some back_here\<rparr> s = (result', None, s')"
    "hr_Established result'" and is': "session_inv rs_New s'" and sf: "se_state s' = StateEstablished" "se_settings s' = se_settings s"
    "se_peerMaxUDPPayload s' = sg_localMaxUDPPayload ?g" by blast
  have E: "established rs_New s'" "established rs_New t" using session_invD(7) [OF is'] session_invD(7) [OF it] sf(1) tf(3) by (simp_all add: phase_ok_def)
  have sb: "se_sendMaxUDPPayload s' = b" "se_receiveMaxUDPPayload s' = b" using E(1) by (simp_all add: established_def sf b)
  have lims: "\<exists>e d e' d'. se_encoder t = Some e \<and> se_decoder t = Some d \<and> se_encoder s' = Some e' \<and> se_decoder s' = Some d' \<and>
      en_limits e = dc_limits d' \<and> en_limits e' = dc_limits d" if "sg_maxDatagramSize (se_settings s) = sg_maxDatagramSize ?g"
    using E that by (auto simp: established_def encoder_for_def decoder_for_def budget_of_def sf tf same(2) min.commute)
  show ?thesis
    by (intro exI [of _ ?ack] exI [of _ t] exI [of _ l'] exI [of _ s'] exI [of _ result']) (use side h tf sf sb lims in blast)
qed


lemma exampleInitiator_start:
  "start_locked 5 exampleInitiator = (Inr (map (hello_plan (exampleInitiator\<lparr>se_started := True\<rparr>)) (se_carriers exampleInitiator)),
     exampleInitiator\<lparr>se_started := True, se_carriers := map (attempted (exampleInitiator\<lparr>se_started := True\<rparr>) 5) (se_carriers exampleInitiator)\<rparr>)"
proof -
  let ?t = "exampleInitiator\<lparr>se_started := True\<rparr>"
  have "session_inv (\<lambda>k n. None) exampleInitiator" by (rule reachable_session_inv [OF exampleInitiator_reachable])
  then have "settings_ok (se_settings ?t)" "se_id ?t \<noteq> 0" using session_invD(1,2) by simp_all
  note H = hello_all_ok [OF this, of 5 "se_carriers exampleInitiator"]
  have "se_role exampleInitiator = RoleInitiator" "se_state exampleInitiator = StateHandshaking" "\<not> se_started exampleInitiator"
    by (simp_all add: exampleInitiator_def)
  then show ?thesis using H by (simp add: start_locked_def)
qed

theorem handshake_agreement_witness:
  "\<exists>hello ack t l' s' result'. let rs_New = (\<lambda>k n. Some (xor_codec 2)); s = snd (start_locked 5 exampleInitiator) in
    (\<forall>net. \<exists>t' result. Listener_HandlePacket rs_New LiveContext (exampleEnv 6) net \<lparr>rc_Payload = hello, rc_Reply = Some exampleReply\<rparr> exampleListener =
        ((Some 9, result, None), l' net) \<and> Listener_Session 9 (l' net) = Some t' \<and> quiet t t') \<and>
    HandlePacket rs_New LiveContext (exampleEnv 7) (\<lambda>n p y. None) \<lparr>rc_Payload = ack, rc_Reply = Some exampleReply\<rparr> s = (result', None, s') \<and>
    se_state t = StateEstablished \<and> se_state s' = StateEstablished \<and> se_sendMaxUDPPayload t = 1200 \<and> se_sendMaxUDPPayload s' = 1200"
proof -
  let ?rs = "\<lambda>k n :: int. Some (xor_codec 2)"
  let ?t = "exampleInitiator\<lparr>se_started := True\<rparr>"
  define s where "s = snd (start_locked 5 exampleInitiator)"
  have reach: "reachable_session ?rs s"
    unfolding s_def by (rule reach_step [OF exampleInitiator_reachable step_start])
  have inv: "session_inv ?rs s" using reach by (rule reachable_session_inv)
  have s: "se_role s = RoleInitiator" "se_state s = StateHandshaking" "se_settings s = exampleSettings" "se_id s = 9"
    "PathID ` ca_path ` set (se_carriers s) = {''a'', ''b''}"
    by (simp_all add: s_def exampleInitiator_start attempted_def) (simp_all add: exampleInitiator_def)
  let ?plans = "map (hello_plan ?t) (se_carriers exampleInitiator)"
  have st: "start_locked 5 exampleInitiator = (Inr ?plans, s)" by (simp add: s_def exampleInitiator_start)
  let ?p = "hello_plan ?t \<lparr>ca_path = Carrier ''a'', ca_attempts = 0, ca_acked = False, ca_exhausted = False, ca_nextRetry = None, ca_healthy = True\<rparr>"
  have p: "?p \<in> set ?plans" by (simp add: exampleInitiator_def)
  have pm: "pn_message ?p = helloMessage TypeHello s" "pn_budget ?p = 1200"
    using s(3,4) by (simp_all add: hello_plan_def helloMessage_def Let_def) (simp_all add: exampleInitiator_def exampleSettings_def)
  have k: "auth_key (sg_authenticator exampleSettings) = [1, 2, 3]" "sg_localMaxUDPPayload exampleSettings = 1200" by (simp_all add: exampleSettings_def)
  have "AppendAuthenticated [] (pn_message ?p) [1, 2, 3] (pn_budget ?p) = (wirePacket [1, 2, 3] (helloMessage TypeHello s), None)"
    using helloMessage_ok [OF inv, of TypeHello 1200] by (simp add: AppendAuthenticated_ok pm s(3) k)
  then have hello: "Authenticator_Append (Some (sg_authenticator (se_settings s))) [] (pn_message ?p) (pn_budget ?p) =
      (wirePacket [1, 2, 3] (helloMessage TypeHello s), None, Some (release (acquire (sg_authenticator exampleSettings))))"
    using append_pooled [of "[]" "pn_message ?p" "sg_authenticator exampleSettings" "pn_budget ?p"] by (simp add: Authenticator_Append_def s(3) k)
  have l: "li_settings exampleListener = exampleSettings" "\<not> li_closed exampleListener" "int (length (li_sessions exampleListener)) < li_maxSessions exampleListener"
    "map_of (li_sessions exampleListener) (se_id s) = None" by (simp_all add: exampleListener_def)
  have path: "replyIdentity (ev_available (exampleEnv n) i) (Some exampleReply) = Inr exampleKey" for n i
    using exampleKey_identity by (simp add: replyIdentity_def exampleEnv_def)
  have room: "\<exists>lim. DeriveLimits (sg_params (se_settings s)) \<lparr>bg_MaxUDPPayload = 1200, bg_DataShardWireOverhead = int DataShardOverhead, bg_MaxDatagramSize = 2000\<rparr> = Inr lim"
    by (simp add: s(3) exampleSettings_def DeriveLimits_def validateParams_def maxInt_def Let_def)
  have m: "sg_maxDatagramSize exampleSettings = 2000" by (simp add: exampleSettings_def)
  have c: "rp_PathID exampleReply \<in> PathID ` ca_path ` set (se_carriers s)" unfolding s(5) by (simp add: exampleReply_def)
  have b: "1200 = min (sg_localMaxUDPPayload (se_settings s)) (sg_localMaxUDPPayload (li_settings exampleListener))" by (simp add: s(3) l(1) k)
  have same: "auth_key (sg_authenticator (li_settings exampleListener)) = auth_key (sg_authenticator (se_settings s))"
    "sg_params (li_settings exampleListener) = sg_params (se_settings s)" by (simp_all add: s(3) l(1))
  have rooms: "\<forall>n \<in> {sg_maxDatagramSize (se_settings s), sg_maxDatagramSize (li_settings exampleListener)}. \<exists>lim. DeriveLimits (sg_params (se_settings s)) \<lparr>bg_MaxUDPPayload = 1200, bg_DataShardWireOverhead = int DataShardOverhead, bg_MaxDatagramSize = n\<rparr> = Inr lim"
    using room by (simp add: s(3) l(1) m)
  have A: "\<exists>ack t l' s' result'.
    (\<forall>net. \<exists>t' result. Listener_HandlePacket ?rs LiveContext (exampleEnv 6) net
          \<lparr>rc_Payload = wirePacket [1, 2, 3] (helloMessage TypeHello s), rc_Reply = Some exampleReply\<rparr> exampleListener =
        ((Some (se_id s), result, None), l' net) \<and> Listener_Session (se_id s) (l' net) = Some t' \<and> quiet t t') \<and>
    HandlePacket ?rs LiveContext (exampleEnv 7) (\<lambda>n p y. None) \<lparr>rc_Payload = ack, rc_Reply = Some exampleReply\<rparr> s = (result', None, s') \<and>
    se_state t = StateEstablished \<and> se_state s' = StateEstablished \<and> se_sendMaxUDPPayload t = 1200 \<and> se_sendMaxUDPPayload s' = 1200"
    using handshake_agreement [where rs_New = ?rs and b = 1200 and neti = "\<lambda>n p y. None", OF reach s(1,2) st p exampleListener_reachable l(2-4)
        same b rooms refl hello path [of 6 3] path [of 7 0] c] by blast
  show ?thesis unfolding Let_def s_def [symmetric] by (rule exI [of _ "wirePacket [1, 2, 3] (helloMessage TypeHello s)"], rule A [unfolded s(4)])
qed

end
