(* ===== verification/SessionData.thy ===== *)
theory SessionData
  imports SessionRegistry
begin

text \<open>
  The data plane of a v0.1 session: the packets of a written block arrive as the shards of that block.
\<close>

subsection \<open>A shard as a packet\<close>

lemma shardSize_ceiling:
  assumes "0 < k" "0 < n"
  shows "shardSizeForDatagram n k = 1 + (n - 1) div k"
proof -
  have e: "n - 1 = n mod k - 1 + k * (n div k)" using mult_div_mod_eq [of k n] by linarith
  have d: "(n - 1) div k = n div k + (n mod k - 1) div k" unfolding e using assms(1) by (subst div_mult_self2) simp_all
  have r: "0 \<le> n mod k" "n mod k < k" using assms(1) by simp_all
  show ?thesis
  proof (cases "n mod k = 0")
    case True
    then show ?thesis using assms d by (simp add: shardSizeForDatagram_def Let_def div_eq_minus1)
  next
    case False
    then have "(n mod k - 1) div k = 0" using r by (intro div_pos_pos_trivial) linarith+
    then show ?thesis using False assms d by (simp add: shardSizeForDatagram_def Let_def)
  qed
qed

definition shard_message :: "SessionID \<Rightarrow> EncodedBlock \<Rightarrow> nat \<Rightarrow> bytes \<Rightarrow> Message" where
  "shard_message sid block index shard =
     \<lparr>msg_Header = \<lparr>hdr_Type = TypeDataShard, hdr_SessionID = sid\<rparr>, msg_Handshake = zeroHandshake,
      msg_DataShard = \<lparr>ds_PacketID = eb_PacketID block, ds_DataShards = word_of_int (DataShards (eb_Params block)),
        ds_ParityShards = word_of_int (ParityShards (eb_Params block)), ds_ShardIndex = word_of_nat index,
        ds_OriginalLength = word_of_int (eb_OriginalLength block), ds_Payload = shard\<rparr>, msg_Probe = zeroProbe\<rparr>"

text \<open>The shape of a shard that settings allow.\<close>

definition shard_ok :: "settings \<Rightarrow> EncodedBlock \<Rightarrow> nat \<Rightarrow> bytes \<Rightarrow> bool" where
  "shard_ok g block index shard \<longleftrightarrow>
     eb_Params block = sg_params g \<and> int index < DataShards (sg_params g) + ParityShards (sg_params g) \<and>
     0 \<le> eb_OriginalLength block \<and> eb_OriginalLength block \<le> 16777216 \<and>
     int (length shard) = shardSizeForDatagram (eb_OriginalLength block) (DataShards (sg_params g)) \<and>
     (eb_OriginalLength block = 0 \<longrightarrow> shard = [0])"

lemma shard_fields:
  assumes g: "settings_ok g" and ok: "shard_ok g block index shard"
  shows "unat (word_of_int (DataShards (eb_Params block)) :: u8) = nat (DataShards (sg_params g))"
    "unat (word_of_int (ParityShards (eb_Params block)) :: u8) = nat (ParityShards (sg_params g))"
    "unat (word_of_nat index :: u8) = index" "unat (word_of_int (eb_OriginalLength block) :: u32) = nat (eb_OriginalLength block)"
proof -
  note D = settings_okD [OF g]
  have "index < 256" using ok D(6) by (simp add: shard_ok_def)
  then show "unat (word_of_nat index :: u8) = index" by (simp add: unat_of_nat_eq)
  show "unat (word_of_int (DataShards (eb_Params block)) :: u8) = nat (DataShards (sg_params g))"
    "unat (word_of_int (ParityShards (eb_Params block)) :: u8) = nat (ParityShards (sg_params g))"
    using ok settings_fields [OF g] by (simp_all add: shard_ok_def)
  show "unat (word_of_int (eb_OriginalLength block) :: u32) = nat (eb_OriginalLength block)"
    using ok by (simp add: shard_ok_def unat_eq_nat_uint uint_word_of_int)
qed

lemma shard_message_valid:
  assumes g: "settings_ok g" and sid: "sid \<noteq> 0" and ok: "shard_ok g block index shard"
  shows "validateMessage (shard_message sid block index shard) = None"
proof -
  note D = settings_okD [OF g] and F = shard_fields [OF g ok]
  note S = ok [unfolded shard_ok_def]
  have nz: "(word_of_int (DataShards (eb_Params block)) :: u8) \<noteq> 0" "(word_of_int (ParityShards (eb_Params block)) :: u8) \<noteq> 0"
    using F(1,2) D(2,4) by (metis unat_0 nat_0_iff not_less)+
  have fec: "validateFEC (word_of_int (DataShards (eb_Params block))) (word_of_int (ParityShards (eb_Params block))) = None"
    using nz F(1,2) D(6) D(2,4) by (simp add: validateFEC_def)
  have i: "\<not> unat (word_of_nat index :: u8) \<ge> unat (word_of_int (DataShards (eb_Params block)) :: u8) + unat (word_of_int (ParityShards (eb_Params block)) :: u8)"
    unfolding F using S D(2,4) by linarith
  have z: "(word_of_int (eb_OriginalLength block) :: u32) = 0 \<longleftrightarrow> eb_OriginalLength block = 0"
    using F(4) S by (metis nat_0_iff order_antisym unat_0 unat_eq_zero)
  have len: "length shard = 1 + (unat (word_of_int (eb_OriginalLength block) :: u32) - 1) div unat (word_of_int (DataShards (eb_Params block)) :: u8)"
    if "eb_OriginalLength block \<noteq> 0"
  proof -
    have "int (length shard) = 1 + (eb_OriginalLength block - 1) div DataShards (sg_params g)"
      using S that shardSize_ceiling [OF D(2), of "eb_OriginalLength block"] by simp
    moreover have m: "int (nat (eb_OriginalLength block) - Suc 0) = eb_OriginalLength block - 1" using S that by linarith
    ultimately have "int (length shard) = int (1 + (nat (eb_OriginalLength block) - 1) div nat (DataShards (sg_params g)))"
      using D(2) by (simp add: zdiv_int m)
    then show ?thesis unfolding F by (simp only: of_nat_eq_iff)
  qed
  have k: "knownPacketType TypeDataShard" by (simp add: knownPacketType_def)
  show ?thesis using sid fec i len S z k by (auto simp: validateMessage_def shard_message_def Let_def)
qed

lemma shard_packets_ok:
  assumes g: "settings_ok g" and sid: "sid \<noteq> 0" and b: "72 \<le> budget" "budget \<le> 65507"
    and ok: "\<And>i. i < length shards \<Longrightarrow> shard_ok g block (index + i) (shards ! i) \<and> int (length (shards ! i)) + 71 \<le> budget"
  shows "shard_packets g sid budget block index shards =
    Inr (map (\<lambda>i. wirePacket (auth_key (sg_authenticator g)) (shard_message sid block (index + i) (shards ! i))) [0..<length shards])"
  using ok
proof (induction shards arbitrary: index)
  case (Cons shard shards)
  let ?m = "shard_message sid block index shard" and ?k = "auth_key (sg_authenticator g)"
  have here: "shard_ok g block index shard" "int (length shard) + 71 \<le> budget" using Cons.prems [of 0] by simp_all
  have v: "validateMessage ?m = None" by (rule shard_message_valid [OF g sid here(1)])
  have n: "length (encodeBody ?m) = 15 + length shard" by (simp add: shard_message_def encodeBody_def)
  have adm: "wireAdmissible ?k budget ?m" using v n here(2) b settings_okD(1) [OF g] by (simp add: wireAdmissible_def validateBudget_None)
  have new: "NewDataShard sid (eb_PacketID block) (word_of_int (DataShards (eb_Params block))) (word_of_int (ParityShards (eb_Params block)))
      (word_of_nat index) (word_of_int (eb_OriginalLength block)) shard = Inr ?m"
    using v n here(2) b(2) by (simp add: NewDataShard_def checked_def EncodedLen_eq shard_message_def [symmetric])
  have "AppendAuthenticated [] ?m ?k budget = (wirePacket ?k ?m, None)" using adm by (simp add: AppendAuthenticated_ok)
  then have app: "Authenticator_Append (Some (sg_authenticator g)) [] ?m budget = (wirePacket ?k ?m, None, Some (release (acquire (sg_authenticator g))))"
    using append_pooled [of "[]" ?m "sg_authenticator g" budget] by (simp add: Authenticator_Append_def)
  have "shard_packets g sid budget block (index + 1) shards =
      Inr (map (\<lambda>i. wirePacket ?k (shard_message sid block (index + 1 + i) (shards ! i))) [0..<length shards])"
    by (rule Cons.IH) (use Cons.prems [of "Suc i" for i] in simp)
  then show ?case by (simp add: new app upt_conv_Cons map_Suc_upt [symmetric] del: upt_Suc)
qed simp

lemma shard_message_received:
  assumes g: "settings_ok (se_settings t)" and ok: "shard_ok (se_settings t) block i (eb_Shards block ! i)" and sid: "se_id t = sid"
  shows "incoming t (msg_DataShard (shard_message sid block i (eb_Shards block ! i))) = shard_of block sid i"
  using shard_fields(3,4) [OF g ok] ok sid by (simp add: incoming_def shard_message_def shard_of_def shard_ok_def del: of_nat_unat)

subsection \<open>Blocks of a session\<close>

text \<open>A linear code maps zeros to zeros; an empty datagram is sent as such a block.\<close>

lemma empty_shards:
  assumes "rs_Encode (en_codec e) (replicate (nat (en_total e)) [0]) = Some (replicate (nat (en_total e)) [0])"
    and "Encode [] e = (Inr block, e')" and "x \<in> set (eb_Shards block)"
  shows "x = [0]"
proof -
  have "shard_storage n k 1 [] = replicate n [0]" for n k
  proof -
    have "shard_storage n k 1 [] = map (\<lambda>i. slice i (i + 1) (replicate n 0)) [0..<n]"
      by (cases "k \<le> n") (simp_all add: shard_storage_def go_copy_def Let_def flip: replicate_add)
    also have "\<dots> = map (\<lambda>i. [0]) [0..<n]" by (rule map_cong) (simp_all add: slice_def drop_replicate)
    finally show ?thesis by (simp add: map_replicate_const)
  qed
  then show ?thesis using assms by (auto simp: Encode_def shardSizeForDatagram_def Let_def split: if_splits)
qed

lemma encoded_shards:
  assumes inv: "session_inv rs_New s" and est: "se_state s = StateEstablished" and e: "encoder_for rs_New s e"
    and laws: "reed_solomon_laws (nat (DataShards (sg_params (se_settings s)))) (nat (ParityShards (sg_params (se_settings s)))) (en_codec e)"
    and linear: "rs_Encode (en_codec e) (replicate (nat (en_total e)) [0]) = Some (replicate (nat (en_total e)) [0])"
    and enc: "Encode payload e = (Inr block, e')"
  shows "length (eb_Shards block) = nat (en_total e)"
    "i < length (eb_Shards block) \<Longrightarrow> shard_ok (se_settings s) block i (eb_Shards block ! i) \<and> int (length (eb_Shards block ! i)) + 71 \<le> se_sendMaxUDPPayload s"
proof -
  let ?p = "sg_params (se_settings s)"
  have ok: "encoder_ok e" using e laws by (auto simp: encoder_ok_def encoder_for_def)
  have len: "int (length payload) \<le> EffectiveDatagramLimit (en_limits e)" and live: "\<not> en_exhausted e"
    using enc by (auto simp: Encode_def split: if_splits)
  obtain shards where E: "Encode payload e = (Inr \<lparr>eb_PacketID = en_next e, eb_OriginalLength = int (length payload), eb_Params = en_params e, eb_Shards = shards\<rparr>,
        if en_next e = - 1 then e\<lparr>en_exhausted := True\<rparr> else e\<lparr>en_next := en_next e + 1\<rparr>)" "length shards = nat (en_total e)"
      "\<forall>x \<in> set shards. int (length x) = shardSizeForDatagram (int (length payload)) (DataShards (en_params e))"
      "shardSizeForDatagram (int (length payload)) (DataShards (en_params e)) \<le> ShardCapacity (en_limits e)"
    using Encode_ok_cases [OF ok len live] by blast
  have block: "eb_Shards block = shards" "eb_Params block = ?p" "eb_OriginalLength block = int (length payload)"
    using enc E(1) e by (auto simp: encoder_for_def)
  have lim: "DeriveLimits ?p (budget_of s) = Inr (en_limits e)" and tot: "en_total e = DataShards ?p + ParityShards ?p" and p: "en_params e = ?p"
    using e by (simp_all add: encoder_for_def)
  have send: "se_sendMaxUDPPayload s = bg_MaxUDPPayload (budget_of s)"
    using session_invD(7) [OF inv] est by (simp add: phase_ok_def established_def budget_of_def)
  have cap: "ShardCapacity (en_limits e) = se_sendMaxUDPPayload s - 71" "EffectiveDatagramLimit (en_limits e) \<le> sg_maxDatagramSize (se_settings s)"
    using lim send by (auto simp: DeriveLimits_iff budget_of_def)
  show "length (eb_Shards block) = nat (en_total e)" using E(2) block by simp
  show "shard_ok (se_settings s) block i (eb_Shards block ! i) \<and> int (length (eb_Shards block ! i)) + 71 \<le> se_sendMaxUDPPayload s"
    if i: "i < length (eb_Shards block)"
  proof -
    have x: "int (length (shards ! i)) = shardSizeForDatagram (int (length payload)) (DataShards ?p)" using E(2,3) i block p by simp
    have "shards ! i = [0]" if "payload = []"
      using empty_shards [OF linear enc [unfolded that]] i block by (metis nth_mem)
    then show ?thesis
      using i block x E(2,4) tot p cap len settings_okD(10) [OF session_invD(1) [OF inv]] by (auto simp: shard_ok_def)
  qed
qed


subsection \<open>Properties\<close>

text \<open>C5: what is written arrives as what was encoded. When an established session encodes a payload, every shard of the block becomes one
  authenticated packet, none of them fails, all are within the negotiated budget, and any peer with the same session identifier, key and block
  shape, whose limit is not below that budget, decodes the packet of the \<open>i\<close>-th shard to the very shard \<open>i\<close>
  of that block that it hands to its FEC decoder. The hypotheses on the Reed-Solomon library are its documented laws and that it is linear, so
  that the block of an empty datagram is zero.\<close>

theorem written_shards_arrive:
  assumes s: "reachable_session rs_New s" "se_state s = StateEstablished"
    and laws: "rs_New (DataShards (sg_params (se_settings s))) (ParityShards (sg_params (se_settings s))) = Some rsc"
      "reed_solomon_laws (nat (DataShards (sg_params (se_settings s)))) (nat (ParityShards (sg_params (se_settings s)))) rsc"
    and linear: "n = nat (DataShards (sg_params (se_settings s)) + ParityShards (sg_params (se_settings s)))"
      "rs_Encode rsc (replicate n [0]) = Some (replicate n [0])"
    and enc: "encode_payload payload s = (Inr block, s1)"
    and t: "reachable_session rs_New' t" "se_id t = se_id s" "auth_key (sg_authenticator (se_settings t)) = auth_key (sg_authenticator (se_settings s))"
      "sg_params (se_settings t) = sg_params (se_settings s)" "se_sendMaxUDPPayload s \<le> sg_localMaxUDPPayload (se_settings t)"
  shows "\<exists>packets. shard_packets (se_settings s1) (se_id s1) (se_sendMaxUDPPayload s1) block 0 (eb_Shards block) = Inr packets \<and>
    length packets = n \<and> length (eb_Shards block) = n \<and>
    (\<forall>i < n. int (length (packets ! i)) \<le> se_sendMaxUDPPayload s \<and>
       (\<exists>m. decoded (se_settings t) (packets ! i) m \<and> hdr_Type (msg_Header m) = TypeDataShard \<and> hdr_SessionID (msg_Header m) = se_id t \<and>
          incoming t (msg_DataShard m) = shard_of block (se_id s) i))"
proof -
  let ?g = "se_settings s" and ?b = "se_sendMaxUDPPayload s" and ?k = "auth_key (sg_authenticator (se_settings s))"
  have inv: "session_inv rs_New s" and it: "session_inv rs_New' t" using s(1) t(1) by (auto intro: reachable_session_inv)
  note g = session_invD(1) [OF inv] and gt = session_invD(1) [OF it]
  obtain e where e: "se_encoder s = Some e" "encoder_for rs_New s e" by (rule established_fields [OF inv s(2)])
  have c: "en_codec e = rsc" "nat (en_total e) = n" using e(2) laws(1) linear(1) by (simp_all add: encoder_for_def)
  obtain e' where E: "Encode payload e = (Inr block, e')" and s1: "s1 = s\<lparr>se_encoder := Some e'\<rparr>"
    using enc by (cases "Encode payload e") (auto simp: encode_payload_eq [OF inv s(2) e(1)] split: sum.splits)
  note S = encoded_shards [OF inv s(2) e(2), unfolded c, OF laws(2) linear(2) E]
  have b: "72 \<le> ?b" "?b \<le> 65507"
    using session_invD(7) [OF inv] s(2) settings_okD(7,8) [OF g] by (auto simp: phase_ok_def established_def)
  let ?m = "\<lambda>i. shard_message (se_id s) block i (eb_Shards block ! i)"
  have p: "shard_packets ?g (se_id s) ?b block 0 (eb_Shards block) = Inr (map (\<lambda>i. wirePacket ?k (?m i)) [0..<n])"
    using shard_packets_ok [OF g session_invD(2) [OF inv] b, of "eb_Shards block" block 0] S by simp
  have "int (length (wirePacket ?k (?m i))) \<le> ?b \<and> decoded (se_settings t) (wirePacket ?k (?m i)) (?m i) \<and>
      incoming t (msg_DataShard (?m i)) = shard_of block (se_id s) i" if i: "i < n" for i
  proof -
    have ok: "shard_ok ?g block i (eb_Shards block ! i)" "int (length (eb_Shards block ! i)) + 71 \<le> ?b" using S i by auto
    have okt: "shard_ok (se_settings t) block i (eb_Shards block ! i)" using ok(1) by (simp add: shard_ok_def t(4))
    have len: "length (encodeBody (?m i)) = 15 + length (eb_Shards block ! i)" by (simp add: shard_message_def encodeBody_def)
    have "wireAdmissible ?k (sg_localMaxUDPPayload (se_settings t)) (?m i)"
      using shard_message_valid [OF g session_invD(2) [OF inv] ok(1)] len ok(2) t(5) settings_okD(7,8) [OF gt] settings_okD(1) [OF g]
      by (simp add: wireAdmissible_def validateBudget_None)
    then show ?thesis
      using decode_wirePacket shard_message_received [OF gt okt t(2)] len ok(2) by (simp add: decoded_iff t(3) length_wirePacket)
  qed
  moreover have "hdr_Type (msg_Header (?m i)) = TypeDataShard" "hdr_SessionID (msg_Header (?m i)) = se_id t" for i
    by (simp_all add: shard_message_def t(2))
  ultimately show ?thesis using p S(1) by (auto simp: s1)
qed

lemma establish_fresh_encoder: "establishLocked rs_New h now s = (None, a) \<Longrightarrow> \<exists>e. se_encoder a = Some e \<and> \<not> en_exhausted e"
  by (auto simp: establishLocked_def NewEncoder_def Let_def dest: newEncoderAt_Inr split: option.splits sum.splits)

theorem written_shards_arrive_witness:
  "\<exists>s block s1 packets. reachable_session (\<lambda>k n. Some (xor_codec 2)) s \<and> encode_payload [7, 8, 9] s = (Inr block, s1) \<and>
     shard_packets (se_settings s1) (se_id s1) (se_sendMaxUDPPayload s1) block 0 (eb_Shards block) = Inr packets \<and> length packets = 3"
proof -
  let ?rs = "\<lambda>k n :: int. Some (xor_codec 2)"
  let ?h = "\<lparr>hs_DataShards = 2, hs_ParityShards = 1, hs_MaxUDPPayload = 1000\<rparr>"
  let ?s = "emptyListenerSession 9 exampleSettings"
  have g: "settings_ok exampleSettings" using exampleSettings_config by (auto simp: settings_ok_def)
  have gs: "settings_ok (se_settings ?s)" "validateHandshake (se_settings ?s) ?h = None"
    using g by (simp_all add: emptyListenerSession_def validateHandshake_None) (simp add: exampleSettings_def)
  have lim: "DeriveLimits (sg_params (se_settings ?s)) \<lparr>bg_MaxUDPPayload = min (sg_localMaxUDPPayload (se_settings ?s)) (int (unat (hs_MaxUDPPayload ?h))),
      bg_DataShardWireOverhead = int DataShardOverhead, bg_MaxDatagramSize = sg_maxDatagramSize (se_settings ?s)\<rparr> =
      Inr \<lparr>lm_MaxUDPPayload = 1000, lm_DataShardWireOverhead = 71, ShardCapacity = 929, FECDerivedDatagramLimit = 1858, EffectiveDatagramLimit = 1858\<rparr>"
    by (simp add: emptyListenerSession_def exampleSettings_def DeriveLimits_def validateParams_def maxInt_def Let_def)
  obtain a where a: "establishLocked ?rs ?h 5 ?s = (None, a)" using establish_succeeds [OF gs lim, of ?rs "xor_codec 2" 5] by auto
  have l: "replyIdentityUnchecked (Some exampleReply) = Inr exampleKey" by (rule exampleKey_identity)
  obtain d e0 s where s: "newListenerSession ?rs (exampleEnv 5) 9 exampleSettings ?h exampleKey exampleReply = Inr s" "session_inv ?rs s"
    "quiet (established_with ?h 5 e0 d ?s) s"
    by (rule newListenerSession_cases [where rs_New = ?rs and ev = "exampleEnv 5" and h = ?h and i = 9, OF g _ l]) (use a in \<open>auto simp: exampleEnv_def\<close>)
  have r: "reachable_session ?rs s"
  proof (rule reach_start)
    have "(9 :: SessionID) \<noteq> 0" by simp
    then show "session_start ?rs s" unfolding session_start_def using s(1) g l by blast
  qed
  have f: "se_settings s = exampleSettings" "se_state s = StateEstablished" "se_id s = 9" "se_sendMaxUDPPayload s = 1000"
    using quiet_fields [OF s(3)] by (simp_all add: established_with_def emptyListenerSession_def Let_def exampleSettings_def)
  obtain e where e: "se_encoder s = Some e" "encoder_for ?rs s e" by (rule established_fields [OF s(2) f(2)])
  have live: "\<not> en_exhausted e"
  proof -
    have ia: "session_inv ?rs a" by (rule establishLocked_keeps [OF _ _ _ a]) (use emptyListenerSession_ok [OF g, of 9] in auto)
    have "se_state a = StateEstablished" "se_endpoints a = []" "learnable exampleKey exampleReply a"
      by (rule establishLocked_cases [OF a]; use l in \<open>simp add: established_with_def emptyListenerSession_def Let_def learnable_def\<close>)+
    moreover obtain q b where "learnEndpointLocked (ev_available (exampleEnv 5) 1) exampleKey exampleReply 5 a = (q, b)" by fastforce
    moreover from this have "s = b" using s(1) a by (auto simp: newListenerSession_def exampleEnv_def split: sum.splits)
    ultimately have "quiet a s" using learnEndpointLocked_keeps(2) [OF ia] by blast
    then show ?thesis using establish_fresh_encoder [OF a] quiet_fields(10) [of a s] e(1) by auto
  qed
  have laws: "reed_solomon_laws 2 1 (xor_codec 2)" using xor_codec_laws [of 2] by simp
  have ep: "en_params e = \<lparr>DataShards = 2, ParityShards = 1\<rparr>" "en_codec e = xor_codec 2" "EffectiveDatagramLimit (en_limits e) \<ge> 3"
  proof -
    show "en_params e = \<lparr>DataShards = 2, ParityShards = 1\<rparr>" "en_codec e = xor_codec 2" using e(2) by (auto simp: encoder_for_def f exampleSettings_def)
    have "bg_MaxUDPPayload (budget_of s) = 1000" using session_invD(7) [OF s(2)] f by (simp add: budget_of_def phase_ok_def established_def)
    then show "EffectiveDatagramLimit (en_limits e) \<ge> 3" using e(2) by (auto simp: encoder_for_def DeriveLimits_iff f) (simp_all add: budget_of_def f exampleSettings_def)
  qed
  have par: "sg_params (se_settings s) = \<lparr>DataShards = 2, ParityShards = 1\<rparr>" by (simp add: f(1) exampleSettings_def)
  have "DeriveLimits (en_params e) (budget_of s) = Inr (en_limits e)" "en_total e = 3" using e(2) par ep(1) by (simp_all add: encoder_for_def)
  then have "encoder_ok e" unfolding encoder_ok_def using laws by (auto simp: ep(1,2))
  then obtain block e' where E: "Encode [7, 8, 9] e = (Inr block, e')" using Encode_ok_cases [of e "[7, 8, 9]"] live ep by auto
  then have enc: "encode_payload [7, 8, 9] s = (Inr block, s\<lparr>se_encoder := Some e'\<rparr>)" by (simp add: encode_payload_eq [OF s(2) f(2) e(1)])
  have "rs_Encode (xor_codec 2) (replicate 3 [0]) = Some (replicate 3 [0])" by code_simp
  note A = written_shards_arrive [where rs_New = ?rs and rs_New' = ?rs and n = 3 and s = s and t = s, OF r f(2) refl _ _ this enc r refl refl refl]
  have "\<exists>packets. shard_packets (se_settings (s\<lparr>se_encoder := Some e'\<rparr>)) (se_id (s\<lparr>se_encoder := Some e'\<rparr>))
      (se_sendMaxUDPPayload (s\<lparr>se_encoder := Some e'\<rparr>)) block 0 (eb_Shards block) = Inr packets \<and> length packets = 3"
    using A laws f(4) by (simp add: par) (auto simp: f(1) exampleSettings_def)
  then show ?thesis using r enc by blast
qed

end
