(* ===== verification/AggregationQueue.thy ===== *)
theory AggregationQueue
  imports Reassembly
begin

text \<open>
  The v2 aggregation queue (\<^verbatim>\<open>src/internal/aggregationv2/queue.go\<close>, \<^verbatim>\<open>workspace.go\<close>): application
  datagrams wait in a ring until they fill a group or the oldest has waited long enough, and are then cut
  into the fragments of one group. An operation is a function on the queue and the credit ledger; sealing
  and releasing also act on the output workspaces, which queue, outputs and callers share by pointer: a
  workspace pointer is an index into the list of them.

  A \<open>*Queue\<close> is compared by address only, which is \<open>qu_self\<close>; a nil one behaves as the zero value, whose
  session is nil. The clock is an argument as in the source, a \<open>time.Time\<close> an integer number of
  nanoseconds. The mutex of the queue makes every operation atomic. \<open>unsafe.Sizeof\<close> is written out for
  64-bit platforms.
\<close>

subsection \<open>Types\<close>

datatype agg_error =
    ErrInvalid | ErrClosed | ErrMessageTooLarge | ErrIDExhausted | ErrClockRegression
  | CreditError credit_error | CodecError fecv2_error

abbreviation (input) ErrResourceLimit :: agg_error where "ErrResourceLimit \<equiv> CreditError CreditLedger.ErrResourceLimit"
abbreviation (input) maxRetained :: u64 where "maxRetained \<equiv> 1073741824"
abbreviation (input) entryBytes :: nat where "entryBytes \<equiv> 80"
abbreviation (input) sliceHeaderBytes :: nat where "sliceHeaderBytes \<equiv> 24"

record QueueLimits =
  ql_MaxQueuedDatagrams :: int
  ql_MaxQueuedBytes :: u64
  ql_MaxDatagramBytes :: u32
  ql_MaxFragmentsPerDatagram :: int
  ql_MaxDelay :: int

record Epoch =
  eo_ID :: u32
  eo_Parameters :: Parameters

record entry =
  en_id :: u64
  en_payload :: bytes
  en_offset :: u32
  en_fragments :: int
  en_admittedAt :: int
  en_lease :: handle

definition zeroEntry :: entry where
  "zeroEntry = \<lparr>en_id = 0, en_payload = [], en_offset = 0, en_fragments = 0, en_admittedAt = 0, en_lease = None\<rparr>"

record Queue =
  qu_self :: nat
  qu_session :: handle
  qu_limits :: QueueLimits
  qu_epoch :: Epoch
  qu_codec :: "Codec option"
  qu_ring :: "entry list"
  qu_ringLease :: handle
  qu_head :: nat
  qu_count :: nat
  qu_retainedBytes :: u64
  qu_nextDatagramID :: u64
  qu_nextGroupID :: u64
  qu_outputBytes :: u64
  qu_lastNow :: int
  qu_haveNow :: bool
  qu_closed :: bool

record SealedGroup =
  sl_EncodingEpoch :: u32
  sl_GroupID :: u64
  sl_Group :: Group

text \<open>The zero value of \<open>SealedGroup\<close>.\<close>

definition zeroSealed :: SealedGroup where
  "zeroSealed = \<lparr>sl_EncodingEpoch = 0, sl_GroupID = 0, sl_Group = \<lparr>gr_LogicalBytes = 0, gr_Shards = []\<rparr>\<rparr>"

record outputState =
  os_group :: SealedGroup
  os_lease :: handle
  os_workspace :: "nat option"
  os_released :: bool

record outputWorkspaceState =
  ws_queue :: "nat option"
  ws_lease :: handle
  ws_busy :: bool
  ws_closed :: bool

record QueueSnapshot =
  qs_QueuedDatagrams :: nat
  qs_RetainedBytes :: u64
  qs_NextDatagramID :: u64
  qs_NextGroupID :: u64
  qs_OldestDeadline :: "int option"
  qs_Closed :: bool

subsection \<open>Construction\<close>

definition Queue_RequiredInitialBytes :: "QueueLimits \<Rightarrow> (agg_error, u64) result" where
  "Queue_RequiredInitialBytes limits =
     (if ql_MaxQueuedDatagrams limits < 1 \<or> ql_MaxQueuedDatagrams limits > 65536 \<or> ql_MaxQueuedBytes limits = 0 \<or>
         ql_MaxQueuedBytes limits > maxRetained \<or> ql_MaxDatagramBytes limits = 0 \<or>
         ql_MaxDatagramBytes limits > word_of_int MaxLogicalBytesBound \<or> ql_MaxFragmentsPerDatagram limits < 1 \<or>
         ql_MaxFragmentsPerDatagram limits > 4096 \<or> ql_MaxDelay limits < 1000 \<or> ql_MaxDelay limits > 10000000
      then Inl ErrInvalid
      else if (word_of_int (ql_MaxQueuedDatagrams limits) :: u64) > (- 1) div word_of_nat entryBytes then Inl ErrInvalid
      else Inr (word_of_int (ql_MaxQueuedDatagrams limits) * word_of_nat entryBytes))"

definition prepare ::
    "(int \<Rightarrow> int \<Rightarrow> rs_codec option) \<Rightarrow> handle \<Rightarrow> QueueLimits \<Rightarrow> Epoch \<Rightarrow> Ledger \<Rightarrow> (agg_error, Codec \<times> u64) result" where
  "prepare rs_New session limits epoch lg =
     (let state = Session_Snapshot session lg
      in if sn_Closed state \<or> sn_PendingHandshake state then Inl ErrInvalid
         else
           (case Queue_RequiredInitialBytes limits of
              Inl err \<Rightarrow> Inl err
            | Inr ringBytes \<Rightarrow>
                if eo_ID epoch = 0 then Inl ErrInvalid
                else
                  (case Codec_New rs_New (eo_Parameters epoch) of
                     Inl err \<Rightarrow> Inl (CodecError err)
                   | Inr coder \<Rightarrow>
                       if ql_MaxDatagramBytes limits > word_of_int (pr_MaxDatagramBytes (eo_Parameters epoch)) then Inl ErrInvalid
                       else Inr (coder, ringBytes))))"

definition newQueue :: "nat \<Rightarrow> handle \<Rightarrow> QueueLimits \<Rightarrow> Epoch \<Rightarrow> Codec \<Rightarrow> handle \<Rightarrow> Queue" where
  "newQueue self session limits epoch coder ringLease =
     (let n = word_of_int (pr_DataShards (eo_Parameters epoch) + pr_ParityShards (eo_Parameters epoch));
          outputBytes = n * (word_of_int (pr_ShardBytes (eo_Parameters epoch)) + word_of_nat sliceHeaderBytes)
      in \<lparr>qu_self = self, qu_session = session, qu_limits = limits, qu_epoch = epoch, qu_codec = Some coder,
          qu_ring = replicate (nat (ql_MaxQueuedDatagrams limits)) zeroEntry, qu_ringLease = ringLease, qu_head = 0, qu_count = 0,
          qu_retainedBytes = 0, qu_nextDatagramID = 1, qu_nextGroupID = 1, qu_outputBytes = outputBytes, qu_lastNow = 0,
          qu_haveNow = False, qu_closed = False\<rparr>)"

definition Queue_New ::
    "(int \<Rightarrow> int \<Rightarrow> rs_codec option) \<Rightarrow> nat \<Rightarrow> handle \<Rightarrow> QueueLimits \<Rightarrow> Epoch \<Rightarrow> Ledger \<Rightarrow> (agg_error, Queue) result \<times> Ledger" where
  "Queue_New rs_New self session limits epoch lg =
     (case prepare rs_New session limits epoch lg of
        Inl err \<Rightarrow> (Inl err, lg)
      | Inr (coder, ringBytes) \<Rightarrow>
          (case Session_Reserve session (bytesClaim ringBytes) lg of
             (Inl err, lg) \<Rightarrow> (Inl (CreditError err), lg)
           | (Inr ringLease, lg) \<Rightarrow> (Inr (newQueue self session limits epoch coder ringLease), lg)))"

definition Queue_NewPrepaid ::
    "(int \<Rightarrow> int \<Rightarrow> rs_codec option) \<Rightarrow> nat \<Rightarrow> handle \<Rightarrow> QueueLimits \<Rightarrow> Epoch \<Rightarrow> handle \<Rightarrow> Ledger \<Rightarrow>
      (agg_error, Queue) result \<times> Ledger" where
  "Queue_NewPrepaid rs_New self session limits epoch prepaid lg =
     (case prepare rs_New session limits epoch lg of
        Inl err \<Rightarrow> (Inl err, lg)
      | Inr (coder, ringBytes) \<Rightarrow>
          (case Session_BindBytes session prepaid ringBytes lg of
             (Inl err, lg) \<Rightarrow> (Inl (CreditError err), lg)
           | (Inr ringLease, lg) \<Rightarrow> (Inr (newQueue self session limits epoch coder ringLease), lg)))"

subsection \<open>Admission\<close>

definition checkLocked :: "int \<Rightarrow> Queue \<Rightarrow> Ledger \<Rightarrow> agg_error option" where
  "checkLocked now q lg =
     (if qu_closed q \<or> qu_session q = None \<or> sn_Closed (Session_Snapshot (qu_session q) lg) then Some ErrClosed
      else if qu_haveNow q \<and> now < qu_lastNow q then Some ErrClockRegression
      else None)"

definition clockLocked :: "int \<Rightarrow> Queue \<Rightarrow> Queue" where
  "clockLocked now q = q\<lparr>qu_lastNow := now, qu_haveNow := True\<rparr>"

definition fragmentCount :: "int \<Rightarrow> int \<Rightarrow> int" where
  "fragmentCount bytes capacity = (if bytes = 0 then 0 else 1 + (bytes - 1) div capacity)"

definition freshCapacity :: "Queue \<Rightarrow> int" where
  "freshCapacity q = pr_MaxLogicalBytes (eo_Parameters (qu_epoch q)) - int ManifestBytes - int DescriptorBytes"

definition Queue_Admit :: "bytes \<Rightarrow> int \<Rightarrow> Queue \<times> Ledger \<Rightarrow> (agg_error, u64) result \<times> Queue \<times> Ledger" where
  "Queue_Admit payload now w =
     (case w of (q, lg) \<Rightarrow>
        (case checkLocked now q lg of
           Some err \<Rightarrow> (Inl err, q, lg)
         | None \<Rightarrow>
             if qu_nextDatagramID q = 0 \<or> qu_nextGroupID q = 0 then (Inl ErrIDExhausted, q, lg)
             else if length payload > unat (ql_MaxDatagramBytes (qu_limits q)) \<or>
                 (payload \<noteq> [] \<and> (freshCapacity q = 0 \<or>
                    fragmentCount (int (length payload)) (freshCapacity q) > ql_MaxFragmentsPerDatagram (qu_limits q)))
               then (Inl ErrMessageTooLarge, q, lg)
             else if qu_count q = length (qu_ring q) \<or>
                 word_of_nat (length payload) > ql_MaxQueuedBytes (qu_limits q) - qu_retainedBytes q
               then (Inl ErrResourceLimit, q, lg)
             else
               (case (if payload = [] then (Inr None, lg)
                      else Session_Reserve (qu_session q) (bytesClaim (word_of_nat (length payload))) lg) of
                  (Inl err, lg) \<Rightarrow> (Inl (CreditError err), q, lg)
                | (Inr lease, lg) \<Rightarrow>
                    let i = qu_nextDatagramID q;
                        e = \<lparr>en_id = i, en_payload = payload, en_offset = 0, en_fragments = 0, en_admittedAt = now, en_lease = lease\<rparr>
                    in (Inr i,
                        clockLocked now
                          (q\<lparr>qu_ring := (qu_ring q)[(qu_head q + qu_count q) mod length (qu_ring q) := e],
                             qu_count := qu_count q + 1,
                             qu_retainedBytes := qu_retainedBytes q + word_of_nat (length payload),
                             qu_nextDatagramID := qu_nextDatagramID q + 1\<rparr>),
                        lg))))"

subsection \<open>Planning a group\<close>

record queuePlan =
  pl_fragments :: "Fragment list"
  pl_cursor :: Cursor
  pl_full :: bool

definition slot :: "Queue \<Rightarrow> nat \<Rightarrow> entry" where
  "slot q i = qu_ring q ! ((qu_head q + i) mod length (qu_ring q))"

definition remainder :: "entry \<Rightarrow> Fragment" where
  "remainder e = \<lparr>fr_DatagramID = en_id e, fr_TotalBytes = word_of_nat (length (en_payload e)), fr_Offset = en_offset e,
     fr_Payload = drop (unat (en_offset e)) (en_payload e)\<rparr>"

text \<open>The loop over the entries \<open>i, ..., i + n - 1\<close>: the plan so far and the logical bytes used.\<close>

primrec plan_loop :: "nat \<Rightarrow> nat \<Rightarrow> Queue \<Rightarrow> queuePlan \<Rightarrow> int \<Rightarrow> queuePlan \<times> int" where
  "plan_loop 0 i q r spent = (r, spent)"
| "plan_loop (Suc n) i q r spent =
     (let p = eo_Parameters (qu_epoch q);
          e = slot q i;
          remaining = int (length (en_payload e)) - int (unat (en_offset e));
          room = pr_MaxLogicalBytes p - spent - int DescriptorBytes
      in if int (length (pl_fragments r)) = pr_MaxDescriptors p \<or> room < 0 \<or> (room = 0 \<and> remaining > 0)
         then (r\<lparr>pl_full := True\<rparr>, spent)
         else
           let consumed = min room remaining
           in if consumed < remaining \<and>
                 en_fragments e + 1 + fragmentCount (remaining - consumed) (freshCapacity q) > ql_MaxFragmentsPerDatagram (qu_limits q)
              then (r\<lparr>pl_full := True\<rparr>, spent)
              else
                let r = r\<lparr>pl_fragments := pl_fragments r @ [remainder e]\<rparr>;
                    spent = spent + int DescriptorBytes + consumed
                in if consumed < remaining
                   then (r\<lparr>pl_cursor := \<lparr>cu_Next = i, cu_Bytes = nat consumed\<rparr>, pl_full := True\<rparr>, spent)
                   else plan_loop n (Suc i) q (r\<lparr>pl_cursor := \<lparr>cu_Next = Suc i, cu_Bytes = 0\<rparr>\<rparr>) spent)"

definition planLocked :: "Queue \<Rightarrow> queuePlan" where
  "planLocked q =
     (let p = eo_Parameters (qu_epoch q);
          (r, spent) = plan_loop (qu_count q) 0 q
             \<lparr>pl_fragments = [], pl_cursor = \<lparr>cu_Next = 0, cu_Bytes = 0\<rparr>, pl_full = False\<rparr> (int ManifestBytes)
      in if spent = pr_MaxLogicalBytes p \<or> int (length (pl_fragments r)) = pr_MaxDescriptors p
         then r\<lparr>pl_full := True\<rparr> else r)"

definition dueLocked :: "int \<Rightarrow> queuePlan \<Rightarrow> Queue \<Rightarrow> bool" where
  "dueLocked now planned q \<longleftrightarrow>
     qu_count q > 0 \<and> (pl_full planned \<or> \<not> now < en_admittedAt (qu_ring q ! qu_head q) + ql_MaxDelay (qu_limits q))"

definition Queue_Ready :: "int \<Rightarrow> Queue \<times> Ledger \<Rightarrow> (agg_error, bool) result \<times> Queue" where
  "Queue_Ready now w =
     (case w of (q, lg) \<Rightarrow>
        (case checkLocked now q lg of
           Some err \<Rightarrow> (Inl err, q)
         | None \<Rightarrow> let q = clockLocked now q in (Inr (dueLocked now (planLocked q) q), q)))"

subsection \<open>Output workspaces\<close>

definition RequiredOutputWorkspaceBytes :: "int \<Rightarrow> int \<Rightarrow> (agg_error, u64) result" where
  "RequiredOutputWorkspaceBytes shards shardBytes =
     (if shards < 2 \<or> shards > 256 \<or> shardBytes < 1 \<or> shardBytes > MaxShardBytes then Inl ErrInvalid
      else Inr (word_of_int shards * (word_of_int shardBytes + word_of_nat sliceHeaderBytes) + 8 + 32 + 8 + 80))"

definition NewPrepaidOutputWorkspace :: "handle \<Rightarrow> Queue \<times> Ledger \<Rightarrow> (agg_error, outputWorkspaceState) result \<times> Ledger" where
  "NewPrepaidOutputWorkspace prepaid w =
     (case w of (q, lg) \<Rightarrow>
        if qu_closed q \<or> qu_session q = None \<or> sn_Closed (Session_Snapshot (qu_session q) lg) then (Inl ErrClosed, lg)
        else
          let p = eo_Parameters (qu_epoch q)
          in (case RequiredOutputWorkspaceBytes (pr_DataShards p + pr_ParityShards p) (pr_ShardBytes p) of
                Inl err \<Rightarrow> (Inl err, lg)
              | Inr bytes \<Rightarrow>
                  (case Session_BindBytes (qu_session q) prepaid bytes lg of
                     (Inl err, lg) \<Rightarrow> (Inl (CreditError err), lg)
                   | (Inr lease, lg) \<Rightarrow>
                       (Inr \<lparr>ws_queue = Some (qu_self q), ws_lease = lease, ws_busy = False, ws_closed = False\<rparr>, lg))))"

definition acquire_workspace :: "Queue \<Rightarrow> outputWorkspaceState \<Rightarrow> agg_error option \<times> outputWorkspaceState" where
  "acquire_workspace q s =
     (if ws_closed s then (Some ErrClosed, s)
      else if ws_queue s \<noteq> Some (qu_self q) then (Some ErrInvalid, s)
      else if ws_busy s then (Some ErrResourceLimit, s)
      else (None, s\<lparr>ws_busy := True\<rparr>))"

definition releaseOutput :: "outputWorkspaceState \<Rightarrow> Ledger \<Rightarrow> outputWorkspaceState \<times> Ledger" where
  "releaseOutput s lg =
     (let s = s\<lparr>ws_busy := False\<rparr>
      in if ws_closed s then (s\<lparr>ws_lease := None\<rparr>, Lease_Release (ws_lease s) lg) else (s, lg))"

definition OutputWorkspace_Close :: "outputWorkspaceState \<Rightarrow> Ledger \<Rightarrow> outputWorkspaceState \<times> Ledger" where
  "OutputWorkspace_Close s lg =
     (if ws_closed s then (s, lg)
      else
        let s = s\<lparr>ws_closed := True, ws_queue := None\<rparr>
        in if ws_busy s then (s, lg) else (s\<lparr>ws_lease := None\<rparr>, Lease_Release (ws_lease s) lg))"

text \<open>\<open>releaseOutput\<close> through a pointer that may be nil.\<close>

definition release_workspace :: "nat option \<Rightarrow> outputWorkspaceState list \<times> Ledger \<Rightarrow> outputWorkspaceState list \<times> Ledger" where
  "release_workspace w x =
     (case (w, x) of
        (None, _) \<Rightarrow> x
      | (Some k, ws, lg) \<Rightarrow> (case releaseOutput (ws ! k) lg of (s, lg) \<Rightarrow> (ws[k := s], lg)))"

subsection \<open>Sealing\<close>

definition dropHeadLocked :: "Queue \<times> Ledger \<Rightarrow> Queue \<times> Ledger" where
  "dropHeadLocked w =
     (case w of (q, lg) \<Rightarrow>
        let e = qu_ring q ! qu_head q
        in (q\<lparr>qu_retainedBytes := qu_retainedBytes q - word_of_nat (length (en_payload e)),
              qu_ring := (qu_ring q)[qu_head q := zeroEntry],
              qu_head := (qu_head q + 1) mod length (qu_ring q),
              qu_count := qu_count q - 1\<rparr>,
            Lease_Release (en_lease e) lg))"

definition takeBytes :: "nat \<Rightarrow> Queue \<Rightarrow> Queue" where
  "takeBytes n q =
     q\<lparr>qu_ring := (qu_ring q)[qu_head q := (qu_ring q ! qu_head q)
         \<lparr>en_offset := en_offset (qu_ring q ! qu_head q) + word_of_nat n,
          en_fragments := en_fragments (qu_ring q ! qu_head q) + 1\<rparr>]\<rparr>"

definition reserve_output ::
    "nat option \<Rightarrow> Queue \<Rightarrow> outputWorkspaceState list \<Rightarrow> Ledger \<Rightarrow>
      (agg_error, handle) result \<times> outputWorkspaceState list \<times> Ledger" where
  "reserve_output w q ws lg =
     (case w of
        None \<Rightarrow>
          (case Session_Reserve (qu_session q) (bytesClaim (qu_outputBytes q)) lg of
             (Inl err, lg) \<Rightarrow> (Inl (CreditError err), ws, lg)
           | (Inr lease, lg) \<Rightarrow> (Inr lease, ws, lg))
      | Some k \<Rightarrow>
          (case acquire_workspace q (ws ! k) of
             (Some err, s) \<Rightarrow> (Inl err, ws, lg)
           | (None, s) \<Rightarrow> (Inr None, ws[k := s], lg)))"

text \<open>The group is encoded, or the reservation is undone; then the consumed part leaves the queue.\<close>

definition emit_group ::
    "int \<Rightarrow> queuePlan \<Rightarrow> nat option \<Rightarrow> handle \<Rightarrow> Queue \<Rightarrow> outputWorkspaceState list \<Rightarrow> Ledger \<Rightarrow>
      (agg_error, outputState option) result \<times> Queue \<times> outputWorkspaceState list \<times> Ledger" where
  "emit_group now planned w lease q ws lg =
     (let undo = release_workspace w (ws, Lease_Release lease lg)
      in case EncodePrefix (the (qu_codec q)) (pl_fragments planned) of
           Inl err \<Rightarrow> (Inl (CodecError err), q, undo)
         | Inr (grp, cursor) \<Rightarrow>
             if cursor \<noteq> pl_cursor planned then (Inl ErrInvalid, q, undo)
             else
               let output = \<lparr>os_group = \<lparr>sl_EncodingEpoch = eo_ID (qu_epoch q), sl_GroupID = qu_nextGroupID q, sl_Group = grp\<rparr>,
                             os_lease = lease, os_workspace = w, os_released = False\<rparr>;
                   (q, lg) = (dropHeadLocked ^^ cu_Next cursor) (q, lg);
                   q = (if cu_Bytes cursor > 0 then takeBytes (cu_Bytes cursor) q else q)
               in (Inr (Some output), clockLocked now (q\<lparr>qu_nextGroupID := qu_nextGroupID q + 1\<rparr>), ws, lg))"

definition seal ::
    "int \<Rightarrow> bool \<Rightarrow> nat option \<Rightarrow> Queue \<times> outputWorkspaceState list \<times> Ledger \<Rightarrow>
      (agg_error, outputState option) result \<times> Queue \<times> outputWorkspaceState list \<times> Ledger" where
  "seal now force w x =
     (case x of (q, ws, lg) \<Rightarrow>
        (case checkLocked now q lg of
           Some err \<Rightarrow> (Inl err, q, ws, lg)
         | None \<Rightarrow>
             if qu_count q = 0 then (Inr None, clockLocked now q, ws, lg)
             else if qu_nextGroupID q = 0 then (Inl ErrIDExhausted, q, ws, lg)
             else
               let planned = planLocked q
               in if \<not> force \<and> \<not> dueLocked now planned q then (Inr None, clockLocked now q, ws, lg)
                  else if pl_fragments planned = [] then (Inl ErrInvalid, q, ws, lg)
                  else
                    (case reserve_output w q ws lg of
                       (Inl err, ws, lg) \<Rightarrow> (Inl err, q, ws, lg)
                     | (Inr lease, ws, lg) \<Rightarrow> emit_group now planned w lease q ws lg)))"

definition Queue_Seal ::
    "int \<Rightarrow> bool \<Rightarrow> Queue \<times> outputWorkspaceState list \<times> Ledger \<Rightarrow>
      (agg_error, outputState option) result \<times> Queue \<times> outputWorkspaceState list \<times> Ledger" where
  "Queue_Seal now force = seal now force None"

definition SealWithWorkspace ::
    "int \<Rightarrow> bool \<Rightarrow> nat option \<Rightarrow> Queue \<times> outputWorkspaceState list \<times> Ledger \<Rightarrow>
      (agg_error, outputState option) result \<times> Queue \<times> outputWorkspaceState list \<times> Ledger" where
  "SealWithWorkspace now force w x = (if w = None then (Inl ErrInvalid, x) else seal now force w x)"

subsection \<open>Cancelling, closing, observing\<close>

text \<open>The inner loop of \<open>Cancel\<close>, for the positions \<open>j, ..., j + n - 1\<close>.\<close>

primrec shift_down :: "nat \<Rightarrow> nat \<Rightarrow> Queue \<Rightarrow> Queue" where
  "shift_down 0 j q = q"
| "shift_down (Suc n) j q =
     shift_down n (Suc j) (q\<lparr>qu_ring := (qu_ring q)[(qu_head q + j) mod length (qu_ring q) := slot q (j + 1)]\<rparr>)"

primrec cancel_from :: "nat \<Rightarrow> nat \<Rightarrow> u64 \<Rightarrow> Queue \<times> Ledger \<Rightarrow> bool \<times> Queue \<times> Ledger" where
  "cancel_from 0 i d w = (False, w)"
| "cancel_from (Suc n) i d w =
     (case w of (q, lg) \<Rightarrow>
        let e = slot q i
        in if en_id e \<noteq> d then cancel_from n (Suc i) d w
           else
             let q = q\<lparr>qu_retainedBytes := qu_retainedBytes q - word_of_nat (length (en_payload e))\<rparr>;
                 q = shift_down (qu_count q - 1 - i) i q;
                 q = q\<lparr>qu_ring := (qu_ring q)[(qu_head q + qu_count q - 1) mod length (qu_ring q) := zeroEntry],
                       qu_count := qu_count q - 1\<rparr>
             in (True, q, Lease_Release (en_lease e) lg))"

definition Queue_Cancel :: "u64 \<Rightarrow> Queue \<times> Ledger \<Rightarrow> bool \<times> Queue \<times> Ledger" where
  "Queue_Cancel d w =
     (if qu_closed (fst w) \<or> qu_session (fst w) = None then (False, w) else cancel_from (qu_count (fst w)) 0 d w)"

definition Queue_Close :: "Queue \<times> Ledger \<Rightarrow> Queue \<times> Ledger" where
  "Queue_Close w =
     (case w of (q, lg) \<Rightarrow>
        if qu_closed q then (q, lg)
        else
          (case (dropHeadLocked ^^ qu_count q) (q\<lparr>qu_closed := True\<rparr>, lg) of
             (q, lg) \<Rightarrow> (q\<lparr>qu_ring := [], qu_ringLease := None, qu_codec := None\<rparr>, Lease_Release (qu_ringLease q) lg)))"

definition Queue_Snapshot :: "Queue \<times> Ledger \<Rightarrow> QueueSnapshot" where
  "Queue_Snapshot w =
     (case w of (q, lg) \<Rightarrow>
        \<lparr>qs_QueuedDatagrams = qu_count q, qs_RetainedBytes = qu_retainedBytes q, qs_NextDatagramID = qu_nextDatagramID q,
         qs_NextGroupID = qu_nextGroupID q,
         qs_OldestDeadline = (if qu_count q > 0 then Some (en_admittedAt (qu_ring q ! qu_head q) + ql_MaxDelay (qu_limits q)) else None),
         qs_Closed = (qu_closed q \<or> qu_session q = None \<or> sn_Closed (Session_Snapshot (qu_session q) lg))\<rparr>)"

subsection \<open>Outputs\<close>

text \<open>An \<open>*Output\<close> is \<open>None\<close> when it or its state is nil.\<close>

definition Output_View :: "outputState option \<Rightarrow> SealedGroup \<times> bool" where
  "Output_View out = (case out of None \<Rightarrow> (zeroSealed, False) | Some s \<Rightarrow> (os_group s, \<not> os_released s))"

definition Output_Release ::
    "outputState option \<Rightarrow> outputWorkspaceState list \<times> Ledger \<Rightarrow> outputState option \<times> outputWorkspaceState list \<times> Ledger" where
  "Output_Release out x =
     (case (out, x) of
        (None, _) \<Rightarrow> (None, x)
      | (Some s, ws, lg) \<Rightarrow>
          if os_released s then (Some s, ws, lg)
          else (Some (s\<lparr>os_group := zeroSealed, os_released := True, os_lease := None, os_workspace := None\<rparr>),
                release_workspace (os_workspace s) (ws, Lease_Release (os_lease s) lg)))"

end
