(* ===== verification/AggregationRing.thy ===== *)
theory AggregationRing
  imports AggregationQueue FecGroupCodec
begin

text \<open>
  The ring of the aggregation queue as the list of what waits, and the plan of a group as a prefix of
  that list on which the packing loop of the group codec stops at the planned cursor.
\<close>

subsection \<open>The ring\<close>

definition waiting :: "Queue \<Rightarrow> entry list" where
  "waiting q = map (slot q) [0..<qu_count q]"

definition ring_ok :: "Queue \<Rightarrow> bool" where
  "ring_ok q \<longleftrightarrow> qu_head q < length (qu_ring q) \<and> qu_count q \<le> length (qu_ring q)"

lemma length_waiting [simp]: "length (waiting q) = qu_count q"
  by (simp add: waiting_def)

lemma waiting_nth: "i < qu_count q \<Longrightarrow> waiting q ! i = slot q i"
  by (simp add: waiting_def)

lemma waiting_empty [simp]: "waiting q = [] \<longleftrightarrow> qu_count q = 0"
  by (simp add: waiting_def)

lemma waiting_cong:
  "qu_ring q' = qu_ring q \<Longrightarrow> qu_head q' = qu_head q \<Longrightarrow> qu_count q' = qu_count q \<Longrightarrow> waiting q' = waiting q"
  by (simp add: waiting_def slot_def)

lemma ring_index_inj:
  fixes h n :: nat
  assumes "i < n" "j < n" "(h + i) mod n = (h + j) mod n"
  shows "i = j"
proof -
  have ordered: "a = b" if "a \<le> b" "b < n" "(h + a) mod n = (h + b) mod n" for a b
  proof -
    have "n dvd b - a" using that mod_eq_dvd_iff_nat [of "h + a" "h + b" n] by simp
    then show ?thesis using that(1,2) by (auto dest: dvd_imp_le)
  qed
  show ?thesis using ordered [of i j] ordered [of j i] assms by (cases i j rule: le_cases) simp_all
qed

lemma slot_update:
  assumes "i < length (qu_ring q)" "j < length (qu_ring q)"
  shows "slot (q\<lparr>qu_ring := (qu_ring q)[(qu_head q + j) mod length (qu_ring q) := e]\<rparr>) i = (if i = j then e else slot q i)"
proof -
  have "(qu_head q + k) mod length (qu_ring q) < length (qu_ring q)" for k using assms by (intro mod_less_divisor) linarith
  then show ?thesis using ring_index_inj [OF assms, of "qu_head q"] by (cases "i = j") (auto simp: slot_def nth_list_update)
qed

lemma head_slot: "ring_ok q \<Longrightarrow> qu_ring q ! qu_head q = slot q 0"
  by (simp add: slot_def ring_ok_def)

lemma waiting_hd: "ring_ok q \<Longrightarrow> 0 < qu_count q \<Longrightarrow> hd (waiting q) = qu_ring q ! qu_head q"
  by (simp add: head_slot waiting_def hd_map)

lemma waiting_push:
  assumes "ring_ok q" "qu_count q < length (qu_ring q)"
    "qu_ring q' = (qu_ring q)[(qu_head q + qu_count q) mod length (qu_ring q) := e]"
    "qu_head q' = qu_head q" "qu_count q' = qu_count q + 1"
  shows "waiting q' = waiting q @ [e]" "ring_ok q'"
proof -
  let ?q = "q\<lparr>qu_ring := (qu_ring q)[(qu_head q + qu_count q) mod length (qu_ring q) := e]\<rparr>"
  have "slot q' i = slot ?q i" for i using assms(3,4) by (simp add: slot_def)
  then have "slot q' i = (if i = qu_count q then e else slot q i)" if "i \<le> qu_count q" for i
    using slot_update [of i q "qu_count q" e] that assms(2) by simp
  then show "waiting q' = waiting q @ [e]" using assms(5) by (simp add: waiting_def)
  show "ring_ok q'" using assms by (simp add: ring_ok_def)
qed

lemma dropHead_ring:
  assumes "ring_ok q" "0 < qu_count q" "dropHeadLocked (q, lg) = (q', lg')"
  shows "waiting q' = tl (waiting q)" "ring_ok q'" "qu_count q' = qu_count q - 1"
    "qu_retainedBytes q' = qu_retainedBytes q - word_of_nat (length (en_payload (hd (waiting q))))"
    "lg' = Lease_Release (en_lease (hd (waiting q))) lg"
proof -
  let ?n = "length (qu_ring q)"
  have n: "0 < ?n" "qu_head q < ?n" using assms(1) by (auto simp: ring_ok_def)
  have d: "q' = q\<lparr>qu_retainedBytes := qu_retainedBytes q - word_of_nat (length (en_payload (hd (waiting q)))),
      qu_ring := (qu_ring q)[qu_head q := zeroEntry], qu_head := (qu_head q + 1) mod ?n, qu_count := qu_count q - 1\<rparr>"
    "lg' = Lease_Release (en_lease (hd (waiting q))) lg"
    using assms by (auto simp: dropHeadLocked_def Let_def waiting_hd)
  have "slot q' i = slot q (Suc i)" if "Suc i < ?n" for i
  proof -
    have "((qu_head q + 1) mod ?n + i) mod ?n = (qu_head q + Suc i) mod ?n" by (simp add: mod_add_left_eq)
    moreover have "(qu_head q + Suc i) mod ?n \<noteq> qu_head q"
      using ring_index_inj [OF that n(1), of "qu_head q"] n(2) by auto
    ultimately show ?thesis by (simp add: d slot_def)
  qed
  then have "map (slot q') [0..<qu_count q - 1] = map (\<lambda>i. slot q (Suc i)) [0..<qu_count q - 1]"
    using assms(1,2) by (auto simp: ring_ok_def)
  also have "\<dots> = tl (waiting q)"
    using assms(2) by (cases "qu_count q") (simp_all add: waiting_def map_upt_Suc del: upt_Suc)
  finally show "waiting q' = tl (waiting q)" by (simp add: waiting_def d)
  show "ring_ok q'" using assms(1) n by (simp add: ring_ok_def d)
  show "qu_count q' = qu_count q - 1"
    "qu_retainedBytes q' = qu_retainedBytes q - word_of_nat (length (en_payload (hd (waiting q))))"
    "lg' = Lease_Release (en_lease (hd (waiting q))) lg" by (simp_all add: d)
qed

text \<open>The fields that no operation on the ring changes.\<close>

definition same_queue :: "Queue \<Rightarrow> Queue \<Rightarrow> bool" where
  "same_queue q q' \<longleftrightarrow> qu_self q' = qu_self q \<and> qu_session q' = qu_session q \<and> qu_limits q' = qu_limits q \<and> qu_epoch q' = qu_epoch q \<and>
     qu_codec q' = qu_codec q \<and> qu_ringLease q' = qu_ringLease q \<and> qu_outputBytes q' = qu_outputBytes q \<and> qu_closed q' = qu_closed q \<and>
     length (qu_ring q') = length (qu_ring q)"

lemma same_queue_trans: "same_queue q q' \<Longrightarrow> same_queue q' q'' \<Longrightarrow> same_queue q q''"
  by (simp add: same_queue_def)

lemma dropHead_same:
  "dropHeadLocked (q, lg) = (q', lg') \<Longrightarrow> same_queue q q' \<and> qu_nextDatagramID q' = qu_nextDatagramID q \<and>
     qu_nextGroupID q' = qu_nextGroupID q \<and> qu_lastNow q' = qu_lastNow q \<and> qu_haveNow q' = qu_haveNow q"
  by (auto simp: dropHeadLocked_def Let_def same_queue_def)

definition payload_bytes :: "entry list \<Rightarrow> nat" where
  "payload_bytes es = (\<Sum>e\<leftarrow>es. length (en_payload e))"

lemma payload_bytes_simps [simp]:
  "payload_bytes [] = 0" "payload_bytes (e # es) = length (en_payload e) + payload_bytes es"
  "payload_bytes (es @ fs) = payload_bytes es + payload_bytes fs"
  by (simp_all add: payload_bytes_def)

lemma dropHeads:
  assumes "ring_ok q" "n \<le> qu_count q" "(dropHeadLocked ^^ n) (q, lg) = (q', lg')"
  shows "waiting q' = drop n (waiting q) \<and> ring_ok q' \<and> same_queue q q' \<and> qu_nextDatagramID q' = qu_nextDatagramID q \<and>
    qu_nextGroupID q' = qu_nextGroupID q \<and> qu_lastNow q' = qu_lastNow q \<and> qu_haveNow q' = qu_haveNow q \<and>
    qu_retainedBytes q' = qu_retainedBytes q - word_of_nat (payload_bytes (take n (waiting q))) \<and>
    lg' = fold Lease_Release (map en_lease (take n (waiting q))) lg"
  using assms(2,3)
proof (induction n arbitrary: q' lg')
  case 0
  then show ?case using assms(1) by (simp add: same_queue_def)
next
  case (Suc n)
  obtain q1 lg1 where s: "(dropHeadLocked ^^ n) (q, lg) = (q1, lg1)" by force
  have d: "dropHeadLocked (q1, lg1) = (q', lg')" using Suc.prems(2) s by simp
  note I = Suc.IH [OF _ s]
  have w: "waiting q1 = drop n (waiting q)" "ring_ok q1" using I Suc.prems(1) by simp_all
  have n: "n < length (waiting q)" using Suc.prems(1) by simp
  have c: "0 < qu_count q1" using w(1) n length_waiting [of q1] by simp
  note D = dropHead_ring [OF w(2) c d] dropHead_same [OF d]
  have hd: "hd (waiting q1) = waiting q ! n" using n by (simp add: w(1) hd_drop_conv_nth)
  have "take (Suc n) (waiting q) = take n (waiting q) @ [waiting q ! n]" using n by (rule take_Suc_conv_app_nth)
  then show ?case
    using D I Suc.prems(1) unfolding hd by (auto simp: w(1) tl_drop drop_Suc same_queue_def)
qed

lemma takeBytes_ring:
  assumes "ring_ok q" "waiting q = e # es"
  shows "waiting (takeBytes n q) = e\<lparr>en_offset := en_offset e + word_of_nat n, en_fragments := en_fragments e + 1\<rparr> # es"
    "ring_ok (takeBytes n q)" "same_queue q (takeBytes n q)"
proof -
  have c: "0 < qu_count q" using assms(2) waiting_empty [of q] by auto
  have e: "qu_ring q ! qu_head q = e" using waiting_hd [OF assms(1) c] assms(2) by simp
  have h: "qu_head q < length (qu_ring q)" using assms(1) by (simp add: ring_ok_def)
  let ?e = "e\<lparr>en_offset := en_offset e + word_of_nat n, en_fragments := en_fragments e + 1\<rparr>"
  have t: "takeBytes n q = q\<lparr>qu_ring := (qu_ring q)[(qu_head q + 0) mod length (qu_ring q) := ?e]\<rparr>"
    using h by (simp add: takeBytes_def e)
  have s: "slot (takeBytes n q) i = (if i = 0 then ?e else slot q i)" if "i < qu_count q" for i
    unfolding t by (rule slot_update) (use assms(1) that in \<open>auto simp: ring_ok_def\<close>)
  show "waiting (takeBytes n q) = ?e # es"
  proof (rule nth_equalityI)
    show "length (waiting (takeBytes n q)) = length (?e # es)" using assms(2) length_waiting [of q] by (simp add: takeBytes_def)
    fix i assume "i < length (waiting (takeBytes n q))"
    then have i: "i < qu_count q" by (simp add: takeBytes_def)
    then have "waiting (takeBytes n q) ! i = (if i = 0 then ?e else waiting q ! i)" using s by (simp add: waiting_nth takeBytes_def)
    then show "waiting (takeBytes n q) ! i = (?e # es) ! i" using assms(2) by (cases i) simp_all
  qed
  show "ring_ok (takeBytes n q)" "same_queue q (takeBytes n q)" using assms(1) by (simp_all add: takeBytes_def ring_ok_def same_queue_def)
qed

subsection \<open>Cancelling\<close>

lemma shift_down_fields [simp]:
  "qu_head (shift_down n j q) = qu_head q" "qu_count (shift_down n j q) = qu_count q"
  "length (qu_ring (shift_down n j q)) = length (qu_ring q)" "qu_retainedBytes (shift_down n j q) = qu_retainedBytes q"
  by (induction n arbitrary: j q) simp_all

lemma shift_down_more [simp]:
  "qu_nextDatagramID (shift_down n j q) = qu_nextDatagramID q" "qu_nextGroupID (shift_down n j q) = qu_nextGroupID q"
  "qu_lastNow (shift_down n j q) = qu_lastNow q" "qu_haveNow (shift_down n j q) = qu_haveNow q"
  by (induction n arbitrary: j q) simp_all

lemma shift_down_same: "same_queue q (shift_down n j q)"
  by (induction n arbitrary: j q) (simp_all add: same_queue_def)

lemma shift_down_slot:
  "j + n < length (qu_ring q) \<Longrightarrow> i < length (qu_ring q) \<Longrightarrow>
   slot (shift_down n j q) i = (if j \<le> i \<and> i < j + n then slot q (Suc i) else slot q i)"
proof (induction n arbitrary: j q)
  case (Suc n)
  let ?q = "q\<lparr>qu_ring := (qu_ring q)[(qu_head q + j) mod length (qu_ring q) := slot q (j + 1)]\<rparr>"
  have u: "slot ?q k = (if k = j then slot q (j + 1) else slot q k)" if "k < length (qu_ring q)" for k
    using slot_update [OF that, of j "slot q (j + 1)"] Suc.prems(1) by simp
  have "slot (shift_down n (Suc j) ?q) i = (if Suc j \<le> i \<and> i < Suc j + n then slot ?q (Suc i) else slot ?q i)"
    by (rule Suc.IH) (use Suc.prems in simp_all)
  then show ?case using u [of "Suc i"] u [of i] Suc.prems by auto
qed auto

text \<open>The entry with an identifier, removed.\<close>

definition without :: "u64 \<Rightarrow> entry list \<Rightarrow> entry list" where
  "without d es = filter (\<lambda>e. en_id e \<noteq> d) es"

lemma without_split:
  assumes "distinct (map en_id (xs @ e # ys))"
  shows "without (en_id e) (xs @ e # ys) = xs @ ys"
proof -
  have "\<forall>x \<in> set (xs @ ys). en_id x \<noteq> en_id e" using assms by (auto simp: image_iff)
  then have "filter (\<lambda>x. en_id x \<noteq> en_id e) (xs @ ys) = xs @ ys" by (simp only: filter_id_conv)
  then show ?thesis by (simp add: without_def)
qed

text \<open>What cancelling the entry at \<open>i\<close> does.\<close>

lemma cancel_at:
  assumes "ring_ok q" "i < qu_count q"
    and "q' = shift_down (qu_count q - 1 - i) i (q\<lparr>qu_retainedBytes := r\<rparr>)"
    and "q'' = q'\<lparr>qu_ring := (qu_ring q')[(qu_head q' + qu_count q' - 1) mod length (qu_ring q') := zeroEntry], qu_count := qu_count q' - 1\<rparr>"
  shows "waiting q'' = take i (waiting q) @ drop (Suc i) (waiting q)" "ring_ok q''" "same_queue q q''" "qu_retainedBytes q'' = r"
proof -
  let ?n = "qu_count q" and ?q = "q\<lparr>qu_retainedBytes := r\<rparr>"
  have n: "?n \<le> length (qu_ring q)" "i < ?n" using assms(1,2) by (simp_all add: ring_ok_def)
  have sl: "slot ?q k = slot q k" for k by (simp add: slot_def)
  have s: "slot q' k = (if i \<le> k \<and> k < ?n - 1 then slot q (Suc k) else slot q k)" if "k < length (qu_ring q)" for k
    using shift_down_slot [of i "?n - 1 - i" ?q k] n that unfolding assms(3) sl by simp
  have f: "qu_head q' = qu_head q" "qu_count q' = ?n" "length (qu_ring q') = length (qu_ring q)" by (simp_all add: assms(3))
  have s2: "slot q'' k = slot q' k" if "k < ?n - 1" for k
  proof -
    have "qu_head q' + qu_count q' - 1 = qu_head q' + (?n - 1)" using n f by simp
    then have "slot q'' k = slot (q'\<lparr>qu_ring := (qu_ring q')[(qu_head q' + (?n - 1)) mod length (qu_ring q') := zeroEntry]\<rparr>) k"
      by (simp add: assms(4) slot_def)
    also have "\<dots> = slot q' k" using slot_update [of k q' "?n - 1" zeroEntry] that n f by simp
    finally show ?thesis .
  qed
  show "waiting q'' = take i (waiting q) @ drop (Suc i) (waiting q)"
  proof (rule nth_equalityI)
    show "length (waiting q'') = length (take i (waiting q) @ drop (Suc i) (waiting q))" using n by (simp add: assms(4) f)
    fix k assume "k < length (waiting q'')"
    then have k: "k < ?n - 1" by (simp add: assms(4) f)
    then have "waiting q'' ! k = slot q'' k" by (simp add: waiting_nth assms(4) f)
    also have "\<dots> = (if i \<le> k then slot q (Suc k) else slot q k)" using s2 [OF k] s [of k] k n by simp
    finally show "waiting q'' ! k = (take i (waiting q) @ drop (Suc i) (waiting q)) ! k"
      using k n by (auto simp: nth_append waiting_nth min_def)
  qed
  show "ring_ok q''" using assms(1) by (auto simp: ring_ok_def assms(4) f)
  show "same_queue q q''" using shift_down_same [of ?q "?n - 1 - i" i] by (simp add: same_queue_def assms(3,4))
  show "qu_retainedBytes q'' = r" by (simp add: assms(3,4))
qed

lemma cancel_from_cases:
  assumes "ring_ok q" "i + n = qu_count q" "cancel_from n i d (q, lg) = (b, q', lg')"
  shows "(\<not> b \<and> q' = q \<and> lg' = lg \<and> (\<forall>k. i \<le> k \<and> k < qu_count q \<longrightarrow> en_id (slot q k) \<noteq> d)) \<or>
    (b \<and> (\<exists>k. i \<le> k \<and> k < qu_count q \<and> en_id (slot q k) = d \<and> waiting q' = take k (waiting q) @ drop (Suc k) (waiting q) \<and> ring_ok q' \<and>
       same_queue q q' \<and> qu_nextDatagramID q' = qu_nextDatagramID q \<and> qu_nextGroupID q' = qu_nextGroupID q \<and>
       qu_lastNow q' = qu_lastNow q \<and> qu_haveNow q' = qu_haveNow q \<and>
       qu_retainedBytes q' = qu_retainedBytes q - word_of_nat (length (en_payload (slot q k))) \<and> lg' = Lease_Release (en_lease (slot q k)) lg))"
  using assms(2,3)
proof (induction n arbitrary: i)
  case 0
  then show ?case by auto
next
  case (Suc n)
  show ?case
  proof (cases "en_id (slot q i) = d")
    case True
    let ?r = "qu_retainedBytes q - word_of_nat (length (en_payload (slot q i)))"
    have i: "i < qu_count q" using Suc.prems(1) by simp
    note C = cancel_at [OF assms(1) i, of _ ?r, OF refl refl]
    show ?thesis using Suc.prems(2) True C i by (auto simp: Let_def intro!: exI [of _ i])
  next
    case False
    then have "cancel_from n (Suc i) d (q, lg) = (b, q', lg')" using Suc.prems(2) by (simp add: Let_def)
    from Suc.IH [OF _ this] Suc.prems(1) False show ?thesis by (auto simp: Suc_le_eq nat_less_le)
  qed
qed


subsection \<open>The plan of a group\<close>

text \<open>What is known of an entry of the ring. The last conjunct is what the guard against extra fragments
  is for: what is left of a datagram still fits into the fragments it may take.\<close>

definition entry_ok :: "Queue \<Rightarrow> entry \<Rightarrow> bool" where
  "entry_ok q e \<longleftrightarrow> en_id e \<noteq> 0 \<and> length (en_payload e) \<le> unat (ql_MaxDatagramBytes (qu_limits q)) \<and> 0 \<le> en_fragments e \<and>
     (if en_payload e = [] then en_offset e = 0 \<and> en_fragments e = 0
      else unat (en_offset e) < length (en_payload e) \<and> 0 < freshCapacity q \<and>
        en_fragments e + fragmentCount (int (length (en_payload e)) - int (unat (en_offset e))) (freshCapacity q)
          \<le> ql_MaxFragmentsPerDatagram (qu_limits q))"

lemma entry_ok_same: "same_queue q q' \<Longrightarrow> entry_ok q' e = entry_ok q e"
  by (simp add: entry_ok_def same_queue_def freshCapacity_def)

lemma fragmentCount_step:
  assumes "0 < k" "k < r"
  shows "fragmentCount r k = 1 + fragmentCount (r - k) k"
proof -
  have "(r - 1) div k = 1 + (r - k - 1) div k" using div_add_self2 [of k "r - k - 1"] assms by (simp add: algebra_simps)
  then show ?thesis using assms by (simp add: fragmentCount_def)
qed

lemma fragmentCount_pos: "0 < r \<Longrightarrow> 0 < k \<Longrightarrow> 1 \<le> fragmentCount r k"
  by (simp add: fragmentCount_def pos_imp_zdiv_nonneg_iff)

definition left :: "entry \<Rightarrow> int" where
  "left e = int (length (en_payload e)) - int (unat (en_offset e))"

lemma left_remainder: "entry_ok q e \<Longrightarrow> left e = int (length (fr_Payload (remainder e)))"
  by (auto simp: left_def remainder_def entry_ok_def of_nat_diff split: if_splits)

lemma plan_loop_step:
  fixes q i u
  defines "p \<equiv> eo_Parameters (qu_epoch q)" and "e \<equiv> slot q i" and "room \<equiv> pr_MaxLogicalBytes (eo_Parameters (qu_epoch q)) - u - 20"
  shows "plan_loop (Suc n) i q r u =
    (if int (length (pl_fragments r)) = pr_MaxDescriptors p \<or> room < 0 \<or> (room = 0 \<and> left e > 0) \<or>
        (min room (left e) < left e \<and>
         en_fragments e + 1 + fragmentCount (left e - min room (left e)) (freshCapacity q) > ql_MaxFragmentsPerDatagram (qu_limits q))
     then (r\<lparr>pl_full := True\<rparr>, u)
     else if min room (left e) < left e
       then (r\<lparr>pl_fragments := pl_fragments r @ [remainder e], pl_cursor := \<lparr>cu_Next = i, cu_Bytes = nat (min room (left e))\<rparr>, pl_full := True\<rparr>,
             u + 20 + min room (left e))
     else plan_loop n (Suc i) q (r\<lparr>pl_fragments := pl_fragments r @ [remainder e], pl_cursor := \<lparr>cu_Next = Suc i, cu_Bytes = 0\<rparr>\<rparr>)
            (u + 20 + min room (left e)))"
proof -
  have int20: "int 20 = 20" by simp
  show ?thesis unfolding plan_loop.simps Let_def p_def e_def room_def left_def int20 by auto
qed

text \<open>The guards of the planning loop and of the packing loop of the codec agree, so the packing loop run on
  the planned fragments stops at the planned cursor.\<close>

lemma plan_loop_spec:
  assumes "plan_loop n i q r u = (r', u')" "length (pl_fragments r) = i" "pl_cursor r = \<lparr>cu_Next = i, cu_Bytes = 0\<rparr>"
    and "\<And>j. i \<le> j \<Longrightarrow> j < i + n \<Longrightarrow> entry_ok q (slot q j)" "cd_params c = eo_Parameters (qu_epoch q)"
  shows "\<exists>m \<le> n. pl_fragments r' = pl_fragments r @ map (\<lambda>j. remainder (slot q j)) [i..<i + m] \<and>
    (\<forall>pre. length pre = i \<longrightarrow>
       snd (plan c (map (\<lambda>j. remainder (slot q j)) [i..<i + m]) pre i u \<lparr>cu_Next = i, cu_Bytes = 0\<rparr>) = pl_cursor r') \<and>
    (pl_cursor r' = \<lparr>cu_Next = i + m, cu_Bytes = 0\<rparr> \<or>
      (0 < m \<and> (\<exists>b. pl_cursor r' = \<lparr>cu_Next = i + m - 1, cu_Bytes = b\<rparr> \<and> 0 < b \<and> int b < left (slot q (i + m - 1)) \<and>
         en_fragments (slot q (i + m - 1)) + 1 + fragmentCount (left (slot q (i + m - 1)) - int b) (freshCapacity q)
           \<le> ql_MaxFragmentsPerDatagram (qu_limits q)))) \<and>
    (\<not> pl_full r' \<longrightarrow> pl_full r \<or> pl_cursor r' = \<lparr>cu_Next = i + n, cu_Bytes = 0\<rparr>)"
  using assms(1-4)
proof (induction n arbitrary: i r u)
  case 0
  then show ?case by (intro exI [of _ 0]) simp
next
  case (Suc n)
  let ?e = "slot q i" and ?p = "eo_Parameters (qu_epoch q)"
  let ?room = "pr_MaxLogicalBytes ?p - u - 20"
  let ?take = "min ?room (left ?e)"
  have e: "entry_ok q ?e" using Suc.prems(4) by simp
  have l: "left ?e = int (length (fr_Payload (remainder ?e)))" by (rule left_remainder [OF e])
  show ?case
  proof (cases "int (length (pl_fragments r)) = pr_MaxDescriptors ?p \<or> ?room < 0 \<or> (?room = 0 \<and> left ?e > 0) \<or>
      (?take < left ?e \<and> en_fragments ?e + 1 + fragmentCount (left ?e - ?take) (freshCapacity q) > ql_MaxFragmentsPerDatagram (qu_limits q))")
    case True
    then have "r' = r\<lparr>pl_full := True\<rparr>" using Suc.prems(1) unfolding plan_loop_step by (simp only: if_True prod.inject)
    then show ?thesis using Suc.prems(3) by (intro exI [of _ 0]) simp
  next
    case False
    note guards = this
    show ?thesis
    proof (cases "?take < left ?e")
      case True
      have r': "r' = r\<lparr>pl_fragments := pl_fragments r @ [remainder ?e], pl_cursor := \<lparr>cu_Next = i, cu_Bytes = nat ?take\<rparr>, pl_full := True\<rparr>"
        using Suc.prems(1) guards True unfolding plan_loop_step by (simp only: if_False if_True prod.inject)
      have b: "0 < ?take" using guards True by (auto simp: min_def split: if_splits)
      have pc: "snd (plan c [remainder ?e] pre i u \<lparr>cu_Next = i, cu_Bytes = 0\<rparr>) = \<lparr>cu_Next = i, cu_Bytes = nat ?take\<rparr>"
        if "length pre = i" for pre
        using guards True that Suc.prems(2) b unfolding l by (auto simp: Let_def assms(5))
      have "en_fragments ?e + 1 + fragmentCount (left ?e - int (nat ?take)) (freshCapacity q) \<le> ql_MaxFragmentsPerDatagram (qu_limits q)"
        using guards True b by auto
      then show ?thesis using r' pc b True by (intro exI [of _ 1]) (auto intro!: exI [of _ "nat ?take"])
    next
      case full: False
      let ?r = "r\<lparr>pl_fragments := pl_fragments r @ [remainder ?e], pl_cursor := \<lparr>cu_Next = Suc i, cu_Bytes = 0\<rparr>\<rparr>"
      have tl: "?take = left ?e" using full by (simp add: min_def split: if_splits)
      have rec: "plan_loop n (Suc i) q ?r (u + 20 + left ?e) = (r', u')"
        using Suc.prems(1) guards full unfolding plan_loop_step tl by (simp only: if_False)
      obtain m where m: "m \<le> n" "pl_fragments r' = pl_fragments ?r @ map (\<lambda>j. remainder (slot q j)) [Suc i..<Suc i + m]"
        "\<And>pre. length pre = Suc i \<Longrightarrow>
           snd (plan c (map (\<lambda>j. remainder (slot q j)) [Suc i..<Suc i + m]) pre (Suc i) (u + 20 + left ?e) \<lparr>cu_Next = Suc i, cu_Bytes = 0\<rparr>)
             = pl_cursor r'"
        "pl_cursor r' = \<lparr>cu_Next = Suc i + m, cu_Bytes = 0\<rparr> \<or>
          (0 < m \<and> (\<exists>b. pl_cursor r' = \<lparr>cu_Next = Suc i + m - 1, cu_Bytes = b\<rparr> \<and> 0 < b \<and> int b < left (slot q (Suc i + m - 1)) \<and>
             en_fragments (slot q (Suc i + m - 1)) + 1 + fragmentCount (left (slot q (Suc i + m - 1)) - int b) (freshCapacity q)
               \<le> ql_MaxFragmentsPerDatagram (qu_limits q)))"
        "\<not> pl_full r' \<longrightarrow> pl_full ?r \<or> pl_cursor r' = \<lparr>cu_Next = Suc i + n, cu_Bytes = 0\<rparr>"
        using Suc.IH [OF rec] Suc.prems(2,4) by auto
      have up: "map (\<lambda>j. remainder (slot q j)) [i..<i + Suc m] = remainder ?e # map (\<lambda>j. remainder (slot q j)) [Suc i..<Suc i + m]"
        by (simp add: upt_conv_Cons del: upt_Suc)
      have pc: "snd (plan c (map (\<lambda>j. remainder (slot q j)) [i..<i + Suc m]) pre i u \<lparr>cu_Next = i, cu_Bytes = 0\<rparr>) = pl_cursor r'"
        if "length pre = i" for pre
        using m(3) [of "pre @ [remainder ?e]"] guards full tl that Suc.prems(2) unfolding up l
        by (auto simp: Let_def assms(5))
      show ?thesis using m(1,2,4,5) pc up by (intro exI [of _ "Suc m"]) auto
    qed
  qed
qed


end
