(* ===== verification/AggregationSeal.thy ===== *)
theory AggregationSeal
  imports AggregationRing
begin

text \<open>
  The invariant of an open aggregation queue on its own, and what the operations do to it: the queue is
  a list of remainders of which sealing takes off a prefix, cut exactly where the group codec stops.
\<close>

subsection \<open>The invariant of the queue\<close>

definition queue_ok :: "Codec \<Rightarrow> Queue \<Rightarrow> bool" where
  "queue_ok c q \<longleftrightarrow> ring_ok q \<and> qu_codec q = Some c \<and> codec_ok c \<and> cd_params c = eo_Parameters (qu_epoch q) \<and>
     ql_MaxDatagramBytes (qu_limits q) \<le> word_of_int (pr_MaxDatagramBytes (cd_params c)) \<and>
     (\<forall>e \<in> set (waiting q). entry_ok q e) \<and> sorted_wrt (<) (map en_id (waiting q)) \<and>
     (qu_nextDatagramID q = 0 \<or> (\<forall>e \<in> set (waiting q). en_id e < qu_nextDatagramID q)) \<and>
     unat (qu_retainedBytes q) = payload_bytes (waiting q) \<and> payload_bytes (waiting q) \<le> unat (ql_MaxQueuedBytes (qu_limits q)) \<and>
     sorted_wrt (\<le>) (map en_admittedAt (waiting q)) \<and>
     (\<forall>e \<in> set (waiting q). qu_haveNow q \<and> en_admittedAt e \<le> qu_lastNow q)"

lemma queue_okD:
  assumes "queue_ok c q"
  shows "ring_ok q" "qu_codec q = Some c" "codec_ok c" "cd_params c = eo_Parameters (qu_epoch q)"
    "ql_MaxDatagramBytes (qu_limits q) \<le> word_of_int (pr_MaxDatagramBytes (cd_params c))"
    "\<And>e. e \<in> set (waiting q) \<Longrightarrow> entry_ok q e" "sorted_wrt (<) (map en_id (waiting q))"
    "qu_nextDatagramID q = 0 \<or> (\<forall>e \<in> set (waiting q). en_id e < qu_nextDatagramID q)"
    "unat (qu_retainedBytes q) = payload_bytes (waiting q)" "payload_bytes (waiting q) \<le> unat (ql_MaxQueuedBytes (qu_limits q))"
    "sorted_wrt (\<le>) (map en_admittedAt (waiting q))" "\<And>e. e \<in> set (waiting q) \<Longrightarrow> qu_haveNow q \<and> en_admittedAt e \<le> qu_lastNow q"
  using assms unfolding queue_ok_def by blast+

lemma distinct_ids: "queue_ok c q \<Longrightarrow> distinct (map en_id (waiting q))"
  using strict_sorted_iff by (auto simp: queue_ok_def)

definition backlogged :: "Queue \<Rightarrow> Fragment list" where
  "backlogged q = map remainder (waiting q)"

lemma length_backlogged [simp]: "length (backlogged q) = qu_count q"
  by (simp add: backlogged_def)

lemma remainder_valid:
  assumes e: "entry_ok q e" and d: "ql_MaxDatagramBytes (qu_limits q) \<le> word_of_int (pr_MaxDatagramBytes (cd_params c))" and "previous < en_id e"
  shows "validateFragment c (remainder e) previous = None"
proof -
  have l: "length (en_payload e) \<le> unat (ql_MaxDatagramBytes (qu_limits q))" using e by (simp add: entry_ok_def)
  then have n: "unat (word_of_nat (length (en_payload e)) :: u32) = length (en_payload e)"
    using unat_less_u32 [of "ql_MaxDatagramBytes (qu_limits q)"] by (intro unat_of_nat_eq) simp
  have o: "unat (en_offset e) \<le> length (en_payload e)" using e by (auto simp: entry_ok_def split: if_splits)
  have t: "(word_of_nat (length (en_payload e)) :: u32) \<le> word_of_int (pr_MaxDatagramBytes (cd_params c))"
    using l d n by (simp add: word_le_nat_alt)
  have oo: "en_offset e \<le> word_of_nat (length (en_payload e))" using o n by (simp add: word_le_nat_alt)
  then have "unat (word_of_nat (length (en_payload e)) - en_offset e) = length (en_payload e) - unat (en_offset e)"
    using n by (simp add: unat_sub)
  then show ?thesis
    using assms(3) t oo e by (auto simp: validateFragment_def remainder_def entry_ok_def not_less split: if_splits)
qed

lemma remainders_valid:
  assumes "\<forall>e \<in> set es. entry_ok q e" "sorted_wrt (<) (map en_id es)" "\<forall>e \<in> set es. previous < en_id e"
    and "ql_MaxDatagramBytes (qu_limits q) \<le> word_of_int (pr_MaxDatagramBytes (cd_params c))"
  shows "validate_all c previous (map remainder es) = None"
  using assms(1-3)
proof (induction es arbitrary: previous)
  case (Cons e es)
  have "validateFragment c (remainder e) previous = None" using Cons.prems assms(4) by (intro remainder_valid) auto
  moreover have "fr_DatagramID (remainder e) = en_id e" by (simp add: remainder_def)
  ultimately show ?case using Cons by simp
qed simp

lemma backlogged_valid: "queue_ok c q \<Longrightarrow> validate_all c 0 (backlogged q) = None"
  unfolding backlogged_def
  by (rule remainders_valid) (auto simp: queue_ok_def entry_ok_def word_neq_0_conv [symmetric])

subsection \<open>What the plan of a group takes\<close>

text \<open>A cursor that a seal applies to the queue: every datagram before it is complete, and the one it cuts
  keeps enough fragments for its rest.\<close>

definition cut_ok :: "Queue \<Rightarrow> Cursor \<Rightarrow> bool" where
  "cut_ok q cur \<longleftrightarrow> cu_Next cur \<le> qu_count q \<and>
     (cu_Bytes cur = 0 \<and> 0 < cu_Next cur \<or>
      cu_Bytes cur > 0 \<and> cu_Next cur < qu_count q \<and> int (cu_Bytes cur) < left (slot q (cu_Next cur)) \<and>
      en_fragments (slot q (cu_Next cur)) + 1 + fragmentCount (left (slot q (cu_Next cur)) - int (cu_Bytes cur)) (freshCapacity q)
        \<le> ql_MaxFragmentsPerDatagram (qu_limits q))"

lemma cut_cursor_ok:
  assumes ok: "queue_ok c q" and cut: "cut_ok q cur"
  shows "cursor_ok (backlogged q) cur"
proof (cases "cu_Bytes cur = 0")
  case True
  then show ?thesis using cut by (simp add: cut_ok_def cursor_ok_def)
next
  case False
  then have i: "cu_Next cur < qu_count q" "int (cu_Bytes cur) < left (slot q (cu_Next cur))" using cut by (simp_all add: cut_ok_def)
  have "entry_ok q (slot q (cu_Next cur))" using queue_okD(6) [OF ok] nth_mem [of "cu_Next cur" "waiting q"] i(1) by (simp add: waiting_nth)
  from left_remainder [OF this] show ?thesis using i False by (simp add: cursor_ok_def backlogged_def waiting_nth)
qed

lemma first_guard:
  assumes ok: "queue_ok c q" and n: "0 < qu_count q"
  defines "p \<equiv> eo_Parameters (qu_epoch q)" and "e \<equiv> slot q 0" and "room \<equiv> pr_MaxLogicalBytes (eo_Parameters (qu_epoch q)) - 4 - 20"
  shows "\<not> (0 = pr_MaxDescriptors p \<or> room < 0 \<or> (room = 0 \<and> left e > 0) \<or>
        (min room (left e) < left e \<and>
         en_fragments e + 1 + fragmentCount (left e - min room (left e)) (freshCapacity q) > ql_MaxFragmentsPerDatagram (qu_limits q)))"
proof -
  note D = codec_okD [OF queue_okD(3) [OF ok]]
  have e: "entry_ok q e" using queue_okD(6) [OF ok, of e] n waiting_nth [OF n] nth_mem [of 0 "waiting q"] by (simp add: e_def)
  have room: "room = freshCapacity q" by (simp add: room_def freshCapacity_def)
  have big: "1 \<le> pr_MaxDescriptors p" "0 \<le> room" using D(6,8) queue_okD(4) [OF ok] by (simp_all add: p_def room_def)
  have "fragmentCount (left e) room = 1 + fragmentCount (left e - room) room" if "room < left e" "0 < room"
    using that by (intro fragmentCount_step)
  then show ?thesis using e big unfolding room
    by (auto simp: entry_ok_def left_def min_def split: if_splits)
qed

lemma plan_loop_grows: "plan_loop n i q r u = (r', u') \<Longrightarrow> pl_fragments r \<noteq> [] \<Longrightarrow> pl_fragments r' \<noteq> []"
  by (induction n arbitrary: i r u) (auto simp: plan_loop_step split: if_splits simp del: plan_loop.simps(2))

lemma plan_loop_bound:
  "plan_loop n i q r u = (r', u') \<Longrightarrow> int (length (pl_fragments r)) \<le> pr_MaxDescriptors (eo_Parameters (qu_epoch q)) \<Longrightarrow>
   int (length (pl_fragments r')) \<le> pr_MaxDescriptors (eo_Parameters (qu_epoch q))"
proof (induction n arbitrary: i r u)
  case (Suc n)
  then show ?case unfolding plan_loop_step by (auto split: if_splits)
qed simp

lemma planLocked_bound: "codec_ok c \<Longrightarrow> cd_params c = eo_Parameters (qu_epoch q) \<Longrightarrow> length (pl_fragments (planLocked q)) \<le> 256"
  using plan_loop_bound [of "qu_count q" 0 q "\<lparr>pl_fragments = [], pl_cursor = \<lparr>cu_Next = 0, cu_Bytes = 0\<rparr>, pl_full = False\<rparr>" 4] codec_okD [of c]
  by (auto simp: planLocked_def Let_def split: prod.splits)

lemma planLocked_spec:
  assumes ok: "queue_ok c q"
  obtains m where "m \<le> qu_count q" "pl_fragments (planLocked q) = take m (backlogged q)"
    "snd (plan c (take m (backlogged q)) [] 0 4 \<lparr>cu_Next = 0, cu_Bytes = 0\<rparr>) = pl_cursor (planLocked q)"
    "0 < qu_count q \<Longrightarrow> 0 < m \<and> cut_ok q (pl_cursor (planLocked q))"
    "consumed (take m (backlogged q)) (pl_cursor (planLocked q)) = consumed (backlogged q) (pl_cursor (planLocked q))"
    "\<not> pl_full (planLocked q) \<Longrightarrow> pl_cursor (planLocked q) = \<lparr>cu_Next = qu_count q, cu_Bytes = 0\<rparr>"
proof -
  let ?r0 = "\<lparr>pl_fragments = [], pl_cursor = \<lparr>cu_Next = 0, cu_Bytes = 0\<rparr>, pl_full = False\<rparr>"
  obtain r u where l: "plan_loop (qu_count q) 0 q ?r0 4 = (r, u)" by force
  have P: "pl_fragments (planLocked q) = pl_fragments r" "pl_cursor (planLocked q) = pl_cursor r" "pl_full r \<Longrightarrow> pl_full (planLocked q)"
    using l by (simp_all add: planLocked_def Let_def)
  have ent: "entry_ok q (slot q j)" if "j < qu_count q" for j
    using queue_okD(6) [OF ok] that nth_mem [of j "waiting q"] by (simp add: waiting_nth)
  obtain m where m: "m \<le> qu_count q" "pl_fragments r = map (\<lambda>j. remainder (slot q j)) [0..<m]"
    "snd (plan c (map (\<lambda>j. remainder (slot q j)) [0..<m]) [] 0 4 \<lparr>cu_Next = 0, cu_Bytes = 0\<rparr>) = pl_cursor r"
    "pl_cursor r = \<lparr>cu_Next = m, cu_Bytes = 0\<rparr> \<or>
      (0 < m \<and> (\<exists>b. pl_cursor r = \<lparr>cu_Next = m - 1, cu_Bytes = b\<rparr> \<and> 0 < b \<and> int b < left (slot q (m - 1)) \<and>
         en_fragments (slot q (m - 1)) + 1 + fragmentCount (left (slot q (m - 1)) - int b) (freshCapacity q)
           \<le> ql_MaxFragmentsPerDatagram (qu_limits q)))"
    "\<not> pl_full r \<longrightarrow> pl_cursor r = \<lparr>cu_Next = qu_count q, cu_Bytes = 0\<rparr>"
    using plan_loop_spec [OF l, of c] ent queue_okD(4) [OF ok] by auto
  have tk: "map (\<lambda>j. remainder (slot q j)) [0..<m] = take m (backlogged q)"
    using m(1) by (simp add: backlogged_def waiting_def take_map o_def)
  have pos: "0 < m" if n: "0 < qu_count q"
  proof (rule ccontr)
    assume "\<not> 0 < m"
    then have "pl_fragments r = []" using m(2) by simp
    moreover obtain k where k: "qu_count q = Suc k" using n by (cases "qu_count q") simp_all
    ultimately show False
      using l first_guard [OF ok n] unfolding k plan_loop_step by (auto split: if_splits dest: plan_loop_grows)
  qed
  show ?thesis
  proof
    show "m \<le> qu_count q" by (rule m(1))
    show "pl_fragments (planLocked q) = take m (backlogged q)" using m(2) tk P by simp
    show "snd (plan c (take m (backlogged q)) [] 0 4 \<lparr>cu_Next = 0, cu_Bytes = 0\<rparr>) = pl_cursor (planLocked q)" using m(3) tk P by simp
    show "0 < m \<and> cut_ok q (pl_cursor (planLocked q))" if "0 < qu_count q"
      using pos [OF that] m(1,4) unfolding P(2) by (auto simp: cut_ok_def)
    show "consumed (take m (backlogged q)) (pl_cursor (planLocked q)) = consumed (backlogged q) (pl_cursor (planLocked q))"
      using m(1,4) unfolding P(2) by (auto simp: consumed_def min_def)
    show "pl_cursor (planLocked q) = \<lparr>cu_Next = qu_count q, cu_Bytes = 0\<rparr>" if "\<not> pl_full (planLocked q)"
      using that m(5) P(2,3) by auto
  qed
qed

subsection \<open>Applying a cursor to the queue\<close>

definition consume :: "Cursor \<Rightarrow> Queue \<times> Ledger \<Rightarrow> Queue \<times> Ledger" where
  "consume cur w =
     (case (dropHeadLocked ^^ cu_Next cur) w of (q, lg) \<Rightarrow> (if cu_Bytes cur > 0 then takeBytes (cu_Bytes cur) q else q, lg))"

text \<open>The entry whose datagram is cut by a cursor.\<close>

definition cut_entry :: "Cursor \<Rightarrow> entry \<Rightarrow> entry" where
  "cut_entry cur e = e\<lparr>en_offset := en_offset e + word_of_nat (cu_Bytes cur), en_fragments := en_fragments e + 1\<rparr>"

definition after_cut :: "Cursor \<Rightarrow> entry list \<Rightarrow> entry list" where
  "after_cut cur es =
     (if cu_Bytes cur = 0 then drop (cu_Next cur) es
      else cut_entry cur (es ! cu_Next cur) # drop (Suc (cu_Next cur)) es)"

lemma takeBytes_fields [simp]:
  "qu_nextDatagramID (takeBytes n q) = qu_nextDatagramID q" "qu_nextGroupID (takeBytes n q) = qu_nextGroupID q"
  "qu_lastNow (takeBytes n q) = qu_lastNow q" "qu_haveNow (takeBytes n q) = qu_haveNow q"
  "qu_retainedBytes (takeBytes n q) = qu_retainedBytes q"
  by (simp_all add: takeBytes_def)

lemma consume_spec:
  assumes "ring_ok q" "cut_ok q cur" "consume cur (q, lg) = (q', lg')"
  shows "waiting q' = after_cut cur (waiting q)" "ring_ok q'" "same_queue q q'"
    "qu_nextDatagramID q' = qu_nextDatagramID q" "qu_nextGroupID q' = qu_nextGroupID q"
    "qu_lastNow q' = qu_lastNow q" "qu_haveNow q' = qu_haveNow q"
    "qu_retainedBytes q' = qu_retainedBytes q - word_of_nat (payload_bytes (take (cu_Next cur) (waiting q)))"
    "lg' = fold Lease_Release (map en_lease (take (cu_Next cur) (waiting q))) lg"
proof -
  obtain q1 lg1 where d: "(dropHeadLocked ^^ cu_Next cur) (q, lg) = (q1, lg1)" by force
  have n: "cu_Next cur \<le> qu_count q" using assms(2) by (simp add: cut_ok_def)
  note D = dropHeads [OF assms(1) n d]
  have r: "q' = (if cu_Bytes cur > 0 then takeBytes (cu_Bytes cur) q1 else q1)" "lg' = lg1" using assms(3) d by (auto simp: consume_def)
  have "waiting q' = after_cut cur (waiting q) \<and> ring_ok q' \<and> same_queue q q' \<and> qu_nextDatagramID q' = qu_nextDatagramID q \<and>
    qu_nextGroupID q' = qu_nextGroupID q \<and> qu_lastNow q' = qu_lastNow q \<and> qu_haveNow q' = qu_haveNow q \<and> qu_retainedBytes q' = qu_retainedBytes q1"
  proof (cases "cu_Bytes cur = 0")
    case True
    then show ?thesis using D r by (simp add: after_cut_def)
  next
    case False
    then have i: "cu_Next cur < length (waiting q)" using assms(2) by (simp add: cut_ok_def)
    have w: "waiting q1 = waiting q ! cu_Next cur # drop (Suc (cu_Next cur)) (waiting q)" using D Cons_nth_drop_Suc [OF i] by simp
    note T = takeBytes_ring [OF _ w, of "cu_Bytes cur"]
    show ?thesis using T D False r same_queue_trans by (auto simp: after_cut_def cut_entry_def)
  qed
  then show "waiting q' = after_cut cur (waiting q)" "ring_ok q'" "same_queue q q'"
    "qu_nextDatagramID q' = qu_nextDatagramID q" "qu_nextGroupID q' = qu_nextGroupID q"
    "qu_lastNow q' = qu_lastNow q" "qu_haveNow q' = qu_haveNow q"
    "qu_retainedBytes q' = qu_retainedBytes q - word_of_nat (payload_bytes (take (cu_Next cur) (waiting q)))"
    "lg' = fold Lease_Release (map en_lease (take (cu_Next cur) (waiting q))) lg"
    using D r by auto
qed

text \<open>The offset of the cut entry does not wrap.\<close>

lemma cut_offset:
  assumes "entry_ok q e" "0 < b" "int b < left e"
  shows "unat (en_offset e + word_of_nat b) = unat (en_offset e) + b"
    "fr_Payload (remainder (e\<lparr>en_offset := en_offset e + word_of_nat b, en_fragments := k\<rparr>)) = drop b (fr_Payload (remainder e))"
proof -
  have "unat (en_offset e) + b < length (en_payload e)" using assms(3) unfolding left_def by linarith
  moreover have "length (en_payload e) < 2 ^ 32"
    using assms(1) unat_less_u32 [of "ql_MaxDatagramBytes (qu_limits q)"] by (simp add: entry_ok_def)
  ultimately show u: "unat (en_offset e + word_of_nat b) = unat (en_offset e) + b" by (simp add: unat_word_ariths unat_of_nat)
  show "fr_Payload (remainder (e\<lparr>en_offset := en_offset e + word_of_nat b, en_fragments := k\<rparr>)) = drop b (fr_Payload (remainder e))"
    by (simp add: remainder_def u add.commute)
qed

lemma cut_entry_ok:
  assumes e: "entry_ok q e" and b: "0 < cu_Bytes cur" "int (cu_Bytes cur) < left e"
    "en_fragments e + 1 + fragmentCount (left e - int (cu_Bytes cur)) (freshCapacity q) \<le> ql_MaxFragmentsPerDatagram (qu_limits q)"
  shows "entry_ok q (cut_entry cur e)"
proof -
  note u = cut_offset(1) [OF e b(1,2)]
  have "en_payload e \<noteq> []" using b(2) unfolding left_def by (auto simp del: of_nat_unat)
  moreover have "unat (en_offset e) + cu_Bytes cur < length (en_payload e)" using b(2) unfolding left_def by linarith
  ultimately show ?thesis using e b u by (simp add: entry_ok_def cut_entry_def left_def algebra_simps)
qed

lemma after_cut_advance:
  assumes ok: "queue_ok c q" and cut: "cut_ok q cur"
  shows "map remainder (after_cut cur (waiting q)) = advance (backlogged q) cur"
proof (cases "cu_Bytes cur = 0")
  case True
  then show ?thesis
    by (cases "drop (cu_Next cur) (backlogged q)") (simp_all add: advance_def after_cut_def backlogged_def drop_map [symmetric])
next
  case False
  then have i: "cu_Next cur < qu_count q" "int (cu_Bytes cur) < left (slot q (cu_Next cur))" using cut by (simp_all add: cut_ok_def)
  have w: "slot q (cu_Next cur) = waiting q ! cu_Next cur" using i(1) by (simp add: waiting_nth)
  have e: "entry_ok q (waiting q ! cu_Next cur)" using i(1) by (intro queue_okD(6) [OF ok] nth_mem) simp
  have r: "remainder (cut_entry cur (waiting q ! cu_Next cur)) =
      (remainder (waiting q ! cu_Next cur))\<lparr>fr_Offset := fr_Offset (remainder (waiting q ! cu_Next cur)) + word_of_nat (cu_Bytes cur),
        fr_Payload := drop (cu_Bytes cur) (fr_Payload (remainder (waiting q ! cu_Next cur)))\<rparr>"
    using cut_offset(2) [OF e, of "cu_Bytes cur" "en_fragments (waiting q ! cu_Next cur) + 1"] False i(2) unfolding w
    by (simp add: cut_entry_def remainder_def)
  have "drop (cu_Next cur) (backlogged q) = remainder (waiting q ! cu_Next cur) # map remainder (drop (Suc (cu_Next cur)) (waiting q))"
    using i(1) Cons_nth_drop_Suc [of "cu_Next cur" "waiting q"] by (simp add: backlogged_def drop_map) (metis list.simps(9))
  then show ?thesis using False r by (simp add: advance_def after_cut_def)
qed

lemma after_cut_mem:
  assumes "cut_ok q cur" "e \<in> set (after_cut cur (waiting q))"
  obtains e0 where "e0 \<in> set (waiting q)" "e = e0 \<or> (e = cut_entry cur e0 \<and> 0 < cu_Bytes cur \<and> e0 = slot q (cu_Next cur))"
proof (cases "cu_Bytes cur = 0")
  case True
  then show ?thesis using assms(2) that [of e] by (auto simp: after_cut_def dest: in_set_dropD)
next
  case False
  then have i: "cu_Next cur < qu_count q" using assms(1) by (simp add: cut_ok_def)
  then have m: "waiting q ! cu_Next cur \<in> set (waiting q)" by simp
  have "e = cut_entry cur (waiting q ! cu_Next cur) \<or> e \<in> set (waiting q)"
    using assms(2) False by (auto simp: after_cut_def dest: in_set_dropD)
  then show ?thesis using m False that [of e] that [of "waiting q ! cu_Next cur"] i by (auto simp: waiting_nth)
qed

lemma after_cut_map:
  assumes "cut_ok q cur" "\<And>e. f (cut_entry cur e) = f e"
  shows "map f (after_cut cur (waiting q)) = drop (cu_Next cur) (map f (waiting q))"
proof (cases "cu_Bytes cur = 0")
  case False
  then have "cu_Next cur < length (map f (waiting q))" using assms(1) by (simp add: cut_ok_def)
  from Cons_nth_drop_Suc [OF this] show ?thesis using False assms by (simp add: after_cut_def drop_map cut_ok_def)
qed (simp add: after_cut_def drop_map)


subsection \<open>Sealing\<close>

lemma emit_group_ok:
  assumes ok: "queue_ok c q" and n: "0 < qu_count q" and co: "consume (pl_cursor (planLocked q)) (q, lg) = (q1, lg1)"
  obtains g where "Codec_Encode c (consumed (backlogged q) (pl_cursor (planLocked q))) = Inr g"
    "emit_group now (planLocked q) w lease q ws lg =
       (Inr (Some \<lparr>os_group = \<lparr>sl_EncodingEpoch = eo_ID (qu_epoch q), sl_GroupID = qu_nextGroupID q, sl_Group = g\<rparr>,
                   os_lease = lease, os_workspace = w, os_released = False\<rparr>),
        clockLocked now (q1\<lparr>qu_nextGroupID := qu_nextGroupID q1 + 1\<rparr>), ws, lg1)"
proof -
  let ?cur = "pl_cursor (planLocked q)"
  obtain m where m: "pl_fragments (planLocked q) = take m (backlogged q)"
    "snd (plan c (take m (backlogged q)) [] 0 4 \<lparr>cu_Next = 0, cu_Bytes = 0\<rparr>) = ?cur" "0 < m"
    "consumed (take m (backlogged q)) ?cur = consumed (backlogged q) ?cur"
    using planLocked_spec [OF ok] n by metis
  let ?in = "take m (backlogged q)"
  have ne: "?in \<noteq> []" using m(3) n length_backlogged [of q] by (metis gr_zeroI length_0_conv less_nat_zero_code take_eq_Nil)
  have len: "length ?in \<le> 256" using planLocked_bound [OF queue_okD(3,4) [OF ok]] m(1) by simp
  have "validate_all c 0 (take m (backlogged q) @ drop m (backlogged q)) = None" using backlogged_valid [OF ok] by simp
  then have v: "validate_all c 0 ?in = None" unfolding validate_all_append by blast
  have "hd ?in = remainder (hd (waiting q))" using m(3) n by (simp add: backlogged_def hd_map)
  moreover have "entry_ok q (hd (waiting q))" using n by (intro queue_okD(6) [OF ok]) (simp add: hd_in_set)
  ultimately have "\<not> (pr_MaxLogicalBytes (cd_params c) = 24 \<and> fr_Payload (hd ?in) \<noteq> [])"
    using queue_okD(4) [OF ok] by (auto simp: entry_ok_def remainder_def freshCapacity_def split: if_splits)
  then obtain g cur where g: "EncodePrefix c ?in = Inr (g, cur)" "Codec_Encode c (consumed ?in cur) = Inr g"
    using encode_prefix_progress [OF queue_okD(3) [OF ok] ne len v] by blast
  have "cur = ?cur" using g(1) m(2) by (auto simp: EncodePrefix_def split: if_splits option.splits prod.splits sum.splits)
  then show ?thesis using that [of g] g m(1,4) co queue_okD(2) [OF ok] by (auto simp: emit_group_def consume_def Let_def split: prod.splits)
qed

lemma queue_ok_consume:
  assumes ok: "queue_ok c q" and cut: "cut_ok q cur" and co: "consume cur (q, lg) = (q', lg')"
  shows "queue_ok c q'"
proof -
  note Q = queue_okD [OF ok]
  note C = consume_spec [OF Q(1) cut co]
  have split: "waiting q = take (cu_Next cur) (waiting q) @ drop (cu_Next cur) (waiting q)" by simp
  have pb: "payload_bytes (waiting q') = payload_bytes (drop (cu_Next cur) (waiting q))"
    unfolding C(1) payload_bytes_def using after_cut_map [OF cut, of "\<lambda>e. length (en_payload e)"] by (simp add: cut_entry_def drop_map)
  have sum: "payload_bytes (waiting q) = payload_bytes (take (cu_Next cur) (waiting q)) + payload_bytes (drop (cu_Next cur) (waiting q))"
    using payload_bytes_simps(3) [of "take (cu_Next cur) (waiting q)" "drop (cu_Next cur) (waiting q)"] by simp
  have lt: "payload_bytes (take (cu_Next cur) (waiting q)) \<le> unat (qu_retainedBytes q)" using Q(9) sum by simp
  have "unat (word_of_nat (payload_bytes (take (cu_Next cur) (waiting q))) :: u64) = payload_bytes (take (cu_Next cur) (waiting q))"
    using lt unat_less_u64 [of "qu_retainedBytes q"] by (intro unat_of_nat_eq) simp
  then have ret: "unat (qu_retainedBytes q') = payload_bytes (waiting q')"
    unfolding C(8) using lt Q(9) sum pb by (simp add: unat_sub word_le_nat_alt)
  have ids: "map en_id (waiting q') = drop (cu_Next cur) (map en_id (waiting q))"
    and times: "map en_admittedAt (waiting q') = drop (cu_Next cur) (map en_admittedAt (waiting q))"
    unfolding C(1) by (rule after_cut_map [OF cut]; simp add: cut_entry_def)+
  have ent: "entry_ok q' e" if e: "e \<in> set (waiting q')" for e
  proof -
    obtain e0 where e0: "e0 \<in> set (waiting q)" "e = e0 \<or> (e = cut_entry cur e0 \<and> 0 < cu_Bytes cur \<and> e0 = slot q (cu_Next cur))"
      using after_cut_mem [OF cut e [unfolded C(1)]] by blast
    have "entry_ok q e" using e0 Q(6) [OF e0(1)] cut cut_entry_ok by (auto simp: cut_ok_def)
    then show ?thesis by (simp add: entry_ok_same [OF C(3)])
  qed
  have all_ids: "en_id e \<in> set (map en_id (waiting q))" "en_admittedAt e \<in> set (map en_admittedAt (waiting q))" if "e \<in> set (waiting q')" for e
    using that ids times by (metis image_eqI in_set_dropD list.set_map)+
  have S: "qu_codec q' = qu_codec q" "qu_epoch q' = qu_epoch q" "qu_limits q' = qu_limits q" using C(3) by (simp_all add: same_queue_def)
  have sorted: "sorted_wrt (<) (map en_id (waiting q'))" "sorted_wrt (\<le>) (map en_admittedAt (waiting q'))"
    unfolding ids times using sorted_wrt_drop [OF Q(7)] sorted_wrt_drop [OF Q(11)] by blast+
  have next_id: "qu_nextDatagramID q' = 0 \<or> (\<forall>e \<in> set (waiting q'). en_id e < qu_nextDatagramID q')"
    using Q(8) all_ids(1) unfolding C(4) list.set_map by (metis imageE)
  have now: "qu_haveNow q' \<and> en_admittedAt e \<le> qu_lastNow q'" if "e \<in> set (waiting q')" for e
    using Q(12) all_ids(2) [OF that] unfolding C(6,7) list.set_map by (metis imageE)
  have fits: "payload_bytes (waiting q') \<le> unat (ql_MaxQueuedBytes (qu_limits q'))" using Q(10) sum pb S(3) by simp
  have "ql_MaxDatagramBytes (qu_limits q') \<le> word_of_int (pr_MaxDatagramBytes (cd_params c))" "cd_params c = eo_Parameters (qu_epoch q')"
    "qu_codec q' = Some c" using Q(2,4,5) unfolding S by simp_all
  then show ?thesis
    unfolding queue_ok_def using Q(3) C(2) ent sorted next_id ret fits now by blast
qed


end
