(* ===== verification/AggregationOps.thy ===== *)
theory AggregationOps
  imports AggregationSeal LeaseScope
begin

text \<open>
  Construction, admission, cancelling and closing of the aggregation queue, on the queue's own
  invariant: what each operation returns on every branch and what it leaves waiting.
\<close>

subsection \<open>Construction\<close>

lemma newQueue_fields:
  "waiting (newQueue self session limits epoch c lease) = []"
  "qu_codec (newQueue self session limits epoch c lease) = Some c"
  "qu_epoch (newQueue self session limits epoch c lease) = epoch"
  "qu_limits (newQueue self session limits epoch c lease) = limits"
  "qu_retainedBytes (newQueue self session limits epoch c lease) = 0"
  "length (qu_ring (newQueue self session limits epoch c lease)) = nat (ql_MaxQueuedDatagrams limits)"
  "qu_head (newQueue self session limits epoch c lease) = 0" "qu_count (newQueue self session limits epoch c lease) = 0"
  "qu_session (newQueue self session limits epoch c lease) = session" "qu_ringLease (newQueue self session limits epoch c lease) = lease"
  "\<not> qu_closed (newQueue self session limits epoch c lease)"
  by (simp_all add: newQueue_def Let_def waiting_def)

lemma newQueue_ok:
  assumes "1 \<le> ql_MaxQueuedDatagrams limits" "codec_ok c" "cd_params c = eo_Parameters epoch"
    "ql_MaxDatagramBytes limits \<le> word_of_int (pr_MaxDatagramBytes (eo_Parameters epoch))"
  shows "queue_ok c (newQueue self session limits epoch c lease)"
  unfolding queue_ok_def ring_ok_def using assms by (simp add: newQueue_fields)

lemma prepare_ok:
  assumes "prepare rs_New session limits epoch lg = Inr (c, bytes)"
    and "\<And>k n rs. rs_New k n = Some rs \<Longrightarrow> reed_solomon_laws (nat k) (nat n) rs"
  shows "codec_ok c" "cd_params c = eo_Parameters epoch" "1 \<le> ql_MaxQueuedDatagrams limits"
    "ql_MaxDatagramBytes limits \<le> word_of_int (pr_MaxDatagramBytes (eo_Parameters epoch))"
    "Queue_RequiredInitialBytes limits = Inr bytes" "bytes \<noteq> 0"
    "\<not> sn_Closed (Session_Snapshot session lg)"
proof -
  have q: "Queue_RequiredInitialBytes limits = Inr bytes" "Codec_New rs_New (eo_Parameters epoch) = Inr c"
    "ql_MaxDatagramBytes limits \<le> word_of_int (pr_MaxDatagramBytes (eo_Parameters epoch))" "\<not> sn_Closed (Session_Snapshot session lg)"
    using assms(1) by (auto simp: prepare_def Let_def split: if_splits sum.splits)
  then show "Queue_RequiredInitialBytes limits = Inr bytes" "\<not> sn_Closed (Session_Snapshot session lg)"
    "ql_MaxDatagramBytes limits \<le> word_of_int (pr_MaxDatagramBytes (eo_Parameters epoch))" by simp_all
  show "codec_ok c" "cd_params c = eo_Parameters epoch"
    using q(2) assms(2) by (auto simp: Codec_New_def codec_ok_def split: option.splits)
  have l: "1 \<le> ql_MaxQueuedDatagrams limits" "ql_MaxQueuedDatagrams limits \<le> 65536"
    and b: "bytes = word_of_int (ql_MaxQueuedDatagrams limits) * 80"
    using q(1) by (auto simp: Queue_RequiredInitialBytes_def split: if_splits)
  then show "1 \<le> ql_MaxQueuedDatagrams limits" by simp
  have "uint bytes = ql_MaxQueuedDatagrams limits * 80" unfolding b using l by (simp add: uint_word_ariths uint_word_of_int)
  then show "bytes \<noteq> 0" using l by auto
qed

subsection \<open>Admission\<close>

lemma checkLocked_None:
  assumes "checkLocked now q lg = None"
  shows "\<not> qu_closed q" "qu_session q \<noteq> None" "qu_haveNow q \<Longrightarrow> qu_lastNow q \<le> now"
  using assms by (auto simp: checkLocked_def split: if_splits)

lemma Admit_error: "Queue_Admit payload now (q, lg) = (Inl err, q', lg') \<Longrightarrow> q' = q \<and> lg' = lg"
  by (auto simp: Queue_Admit_def Let_def Session_Reserve_def split: option.splits if_splits sum.splits prod.splits)

definition fresh_entry :: "Queue \<Rightarrow> bytes \<Rightarrow> int \<Rightarrow> handle \<Rightarrow> entry" where
  "fresh_entry q payload now lease =
     \<lparr>en_id = qu_nextDatagramID q, en_payload = payload, en_offset = 0, en_fragments = 0, en_admittedAt = now, en_lease = lease\<rparr>"

text \<open>The guards that an accepted datagram has passed, and what was done with it.\<close>

lemma Admit_ok:
  assumes "Queue_Admit payload now (q, lg) = (Inr i, q', lg')"
  obtains lease where "checkLocked now q lg = None" "i = qu_nextDatagramID q" "i \<noteq> 0" "qu_nextGroupID q \<noteq> 0"
    "length payload \<le> unat (ql_MaxDatagramBytes (qu_limits q))"
    "payload = [] \<or> (freshCapacity q \<noteq> 0 \<and> fragmentCount (int (length payload)) (freshCapacity q) \<le> ql_MaxFragmentsPerDatagram (qu_limits q))"
    "qu_count q \<noteq> length (qu_ring q)" "word_of_nat (length payload) \<le> ql_MaxQueuedBytes (qu_limits q) - qu_retainedBytes q"
    "if payload = [] then lease = None \<and> lg' = lg
     else Session_Reserve (qu_session q) (bytesClaim (word_of_nat (length payload))) lg = (Inr lease, lg')"
    "q' = clockLocked now (q\<lparr>qu_ring := (qu_ring q)[(qu_head q + qu_count q) mod length (qu_ring q) := fresh_entry q payload now lease],
            qu_count := qu_count q + 1, qu_retainedBytes := qu_retainedBytes q + word_of_nat (length payload),
            qu_nextDatagramID := qu_nextDatagramID q + 1\<rparr>)"
proof -
  have g: "checkLocked now q lg = None" "qu_nextDatagramID q \<noteq> 0" "qu_nextGroupID q \<noteq> 0"
    "length payload \<le> unat (ql_MaxDatagramBytes (qu_limits q))"
    "payload = [] \<or> (freshCapacity q \<noteq> 0 \<and> fragmentCount (int (length payload)) (freshCapacity q) \<le> ql_MaxFragmentsPerDatagram (qu_limits q))"
    "qu_count q \<noteq> length (qu_ring q)" "word_of_nat (length payload) \<le> ql_MaxQueuedBytes (qu_limits q) - qu_retainedBytes q"
    using assms by (simp_all add: Queue_Admit_def split: option.splits if_splits)
  obtain lease where "(if payload = [] then (Inr None, lg)
       else Session_Reserve (qu_session q) (bytesClaim (word_of_nat (length payload))) lg) = (Inr lease, lg')" "i = qu_nextDatagramID q"
    "q' = clockLocked now (q\<lparr>qu_ring := (qu_ring q)[(qu_head q + qu_count q) mod length (qu_ring q) := fresh_entry q payload now lease],
            qu_count := qu_count q + 1, qu_retainedBytes := qu_retainedBytes q + word_of_nat (length payload),
            qu_nextDatagramID := qu_nextDatagramID q + 1\<rparr>)"
    using assms g by (auto simp: Queue_Admit_def fresh_entry_def Let_def not_less split: option.splits if_splits sum.splits prod.splits)
  then show ?thesis using that [of lease] g by (simp split: if_splits)
qed

lemma clock_fields [simp]:
  "waiting (clockLocked now q) = waiting q" "ring_ok (clockLocked now q) = ring_ok q" "same_queue q (clockLocked now q)"
  "qu_nextDatagramID (clockLocked now q) = qu_nextDatagramID q" "qu_nextGroupID (clockLocked now q) = qu_nextGroupID q"
  "qu_retainedBytes (clockLocked now q) = qu_retainedBytes q" "qu_lastNow (clockLocked now q) = now" "qu_haveNow (clockLocked now q)"
  "qu_count (clockLocked now q) = qu_count q"
  by (simp_all add: clockLocked_def waiting_def slot_def ring_ok_def same_queue_def cong: map_cong)

lemma same_queueD:
  assumes "same_queue q q'"
  shows "qu_self q' = qu_self q" "qu_session q' = qu_session q" "qu_limits q' = qu_limits q" "qu_epoch q' = qu_epoch q" "qu_codec q' = qu_codec q"
    "qu_ringLease q' = qu_ringLease q" "qu_outputBytes q' = qu_outputBytes q" "qu_closed q' = qu_closed q"
    "length (qu_ring q') = length (qu_ring q)" "freshCapacity q' = freshCapacity q"
  using assms by (simp_all add: same_queue_def freshCapacity_def)

lemma queue_ok_clock:
  assumes "queue_ok c q" "qu_haveNow q \<Longrightarrow> qu_lastNow q \<le> now"
  shows "queue_ok c (clockLocked now q)"
proof -
  note S = same_queueD [OF clock_fields(3) [of q now]]
  have "en_admittedAt e \<le> now" if "e \<in> set (waiting q)" for e using queue_okD(12) [OF assms(1) that] assms(2) by auto
  then show ?thesis using assms(1) unfolding queue_ok_def S entry_ok_same [OF clock_fields(3)] by auto
qed

lemma queue_ok_admit:
  assumes ok: "queue_ok c q" and adm: "Queue_Admit payload now (q, lg) = (Inr i, q', lg')"
  shows "queue_ok c q'" "\<exists>lease. waiting q' = waiting q @ [fresh_entry q payload now lease] \<and>
      (if payload = [] then lease = None \<and> lg' = lg
       else Session_Reserve (qu_session q) (bytesClaim (word_of_nat (length payload))) lg = (Inr lease, lg'))"
    "same_queue q q'" "i = qu_nextDatagramID q" "qu_nextDatagramID q' = qu_nextDatagramID q + 1" "i \<noteq> 0" "qu_nextGroupID q' = qu_nextGroupID q"
proof -
  note Q = queue_okD [OF ok]
  obtain lease where A: "checkLocked now q lg = None" "i = qu_nextDatagramID q" "i \<noteq> 0"
    "length payload \<le> unat (ql_MaxDatagramBytes (qu_limits q))"
    "payload = [] \<or> (freshCapacity q \<noteq> 0 \<and> fragmentCount (int (length payload)) (freshCapacity q) \<le> ql_MaxFragmentsPerDatagram (qu_limits q))"
    "qu_count q \<noteq> length (qu_ring q)" "word_of_nat (length payload) \<le> ql_MaxQueuedBytes (qu_limits q) - qu_retainedBytes q"
    "if payload = [] then lease = None \<and> lg' = lg
     else Session_Reserve (qu_session q) (bytesClaim (word_of_nat (length payload))) lg = (Inr lease, lg')"
    "q' = clockLocked now (q\<lparr>qu_ring := (qu_ring q)[(qu_head q + qu_count q) mod length (qu_ring q) := fresh_entry q payload now lease],
            qu_count := qu_count q + 1, qu_retainedBytes := qu_retainedBytes q + word_of_nat (length payload),
            qu_nextDatagramID := qu_nextDatagramID q + 1\<rparr>)"
    using adm by (rule Admit_ok)
  let ?e = "fresh_entry q payload now lease"
  have "qu_count q < length (qu_ring q)" using Q(1) A(6) by (simp add: ring_ok_def)
  note P = waiting_push [OF Q(1) this, of q' ?e]
  have W: "waiting q' = waiting q @ [?e]" "ring_ok q'" by (rule P; simp add: A(9) clockLocked_def)+
  show sq: "same_queue q q'" by (simp add: A(9) same_queue_def clockLocked_def)
  note S = same_queueD [OF sq]
  have F: "qu_lastNow q' = now" "qu_haveNow q'" "qu_retainedBytes q' = qu_retainedBytes q + word_of_nat (length payload)"
    by (simp_all add: A(9) clockLocked_def)
  show N: "qu_nextDatagramID q' = qu_nextDatagramID q + 1" by (simp add: A(9) clockLocked_def)
  have fc: "0 \<le> freshCapacity q" using codec_okD(6) [OF Q(3)] Q(4) by (simp add: freshCapacity_def)
  have e: "entry_ok q ?e" using A(2-5) fc by (auto simp: entry_ok_def fresh_entry_def)
  have ent: "\<forall>x \<in> set (waiting q'). entry_ok q' x" unfolding W(1) entry_ok_same [OF sq] using e Q(6) by auto
  have ids: "\<forall>x \<in> set (waiting q). en_id x < en_id ?e" using Q(8) A(2,3) by (auto simp: fresh_entry_def)
  have sorted: "sorted_wrt (<) (map en_id (waiting q'))" unfolding W(1) using Q(7) ids by (simp add: sorted_wrt_append)
  have nx: "qu_nextDatagramID q' = 0 \<or> (\<forall>x \<in> set (waiting q'). en_id x < qu_nextDatagramID q')"
  proof (cases "qu_nextDatagramID q + 1 = 0")
    case False
    then have lt: "qu_nextDatagramID q < qu_nextDatagramID q + 1" using unatSuc [of "qu_nextDatagramID q"] by (simp add: word_less_nat_alt add.commute)
    then have "\<forall>x \<in> set (waiting q). en_id x < qu_nextDatagramID q + 1" using ids by (auto simp: fresh_entry_def intro: less_trans)
    then show ?thesis unfolding W(1) N using lt by (simp add: fresh_entry_def)
  qed (simp add: N)
  have len: "unat (word_of_nat (length payload) :: u64) = length payload"
    using A(4) unat_less_u32 [of "ql_MaxDatagramBytes (qu_limits q)"] by (intro unat_of_nat_eq) simp
  have "unat (ql_MaxQueuedBytes (qu_limits q) - qu_retainedBytes q) = unat (ql_MaxQueuedBytes (qu_limits q)) - unat (qu_retainedBytes q)"
    using Q(9,10) by (intro unat_sub) (simp add: word_le_nat_alt)
  then have fit: "unat (qu_retainedBytes q) + length payload \<le> unat (ql_MaxQueuedBytes (qu_limits q))"
    using A(7) len Q(9,10) by (simp add: word_le_nat_alt)
  then have ret: "unat (qu_retainedBytes q') = payload_bytes (waiting q')"
    unfolding F W(1) using len Q(9) unat_less_u64 [of "ql_MaxQueuedBytes (qu_limits q)"]
    by (simp add: unat_word_ariths fresh_entry_def)
  have pb: "payload_bytes (waiting q') \<le> unat (ql_MaxQueuedBytes (qu_limits q'))" unfolding W(1) S using fit Q(9) by (simp add: fresh_entry_def)
  have now: "en_admittedAt x \<le> now" if "x \<in> set (waiting q)" for x
    using Q(12) [OF that] checkLocked_None(3) [OF A(1)] by auto
  have tm: "sorted_wrt (\<le>) (map en_admittedAt (waiting q'))" unfolding W(1) using Q(11) now by (simp add: sorted_wrt_append fresh_entry_def)
  have tn: "\<forall>x \<in> set (waiting q'). qu_haveNow q' \<and> en_admittedAt x \<le> qu_lastNow q'" unfolding W(1) F(1) using F(2) now by (auto simp: fresh_entry_def)
  show "queue_ok c q'"
    unfolding queue_ok_def using Q(2-5) W(2) ent sorted nx ret pb tm tn by (simp add: S)
  show "\<exists>lease. waiting q' = waiting q @ [fresh_entry q payload now lease] \<and>
      (if payload = [] then lease = None \<and> lg' = lg
       else Session_Reserve (qu_session q) (bytesClaim (word_of_nat (length payload))) lg = (Inr lease, lg'))"
    using W(1) A(8) by blast
  show "i = qu_nextDatagramID q" "i \<noteq> 0" by (rule A(2,3))+
  show "qu_nextGroupID q' = qu_nextGroupID q" by (simp add: A(9) clockLocked_def)
qed

subsection \<open>Cancelling and closing\<close>

lemma queue_ok_remove:
  assumes ok: "queue_ok c q" and w: "waiting q = xs @ e # ys" "waiting q' = xs @ ys" and "ring_ok q'" and sq: "same_queue q q'"
    and F: "qu_nextDatagramID q' = qu_nextDatagramID q" "qu_lastNow q' = qu_lastNow q" "qu_haveNow q' = qu_haveNow q"
      "qu_retainedBytes q' = qu_retainedBytes q - word_of_nat (length (en_payload e))"
  shows "queue_ok c q'"
proof -
  note Q = queue_okD [OF ok] and S = same_queueD [OF sq]
  have sub: "set (waiting q') \<subseteq> set (waiting q)" using w by auto
  have le: "length (en_payload e) \<le> unat (qu_retainedBytes q)" using Q(9) w(1) by simp
  then have "unat (word_of_nat (length (en_payload e)) :: u64) = length (en_payload e)"
    using unat_less_u64 [of "qu_retainedBytes q"] by (intro unat_of_nat_eq) simp
  then have ret: "unat (qu_retainedBytes q') = payload_bytes (waiting q')"
    unfolding F(4) using le Q(9) w by (simp add: unat_sub word_le_nat_alt)
  have pb: "payload_bytes (waiting q') \<le> unat (ql_MaxQueuedBytes (qu_limits q'))" using Q(10) w S by simp
  have srt: "sorted_wrt (<) (map en_id (waiting q'))" "sorted_wrt (\<le>) (map en_admittedAt (waiting q'))"
    using Q(7,11) unfolding w by (simp_all add: sorted_wrt_append)
  have ent: "\<forall>x \<in> set (waiting q'). entry_ok q' x" unfolding entry_ok_same [OF sq] using Q(6) sub by blast
  have nx: "qu_nextDatagramID q' = 0 \<or> (\<forall>x \<in> set (waiting q'). en_id x < qu_nextDatagramID q')" unfolding F using Q(8) sub by blast
  have tn: "\<forall>x \<in> set (waiting q'). qu_haveNow q' \<and> en_admittedAt x \<le> qu_lastNow q'" unfolding F using Q(12) sub by blast
  show ?thesis unfolding queue_ok_def using Q(2-5) assms(4) ent srt nx ret pb tn by (simp add: S)
qed

lemma queue_ok_cancel:
  assumes ok: "queue_ok c q" and live: "\<not> qu_closed q" "qu_session q \<noteq> None" and can: "Queue_Cancel d (q, lg) = (b, q', lg')"
  shows "queue_ok c q'" "waiting q' = without d (waiting q)" "same_queue q q'" "qu_nextDatagramID q' = qu_nextDatagramID q"
    "qu_nextGroupID q' = qu_nextGroupID q" "if b then \<exists>e \<in> set (waiting q). en_id e = d \<and> lg' = Lease_Release (en_lease e) lg
      else q' = q \<and> lg' = lg \<and> d \<notin> en_id ` set (waiting q)"
proof -
  note Q = queue_okD [OF ok]
  have c: "cancel_from (qu_count q) 0 d (q, lg) = (b, q', lg')" using can live by (simp add: Queue_Cancel_def)
  have "queue_ok c q' \<and> waiting q' = without d (waiting q) \<and> same_queue q q' \<and> qu_nextDatagramID q' = qu_nextDatagramID q \<and>
    qu_nextGroupID q' = qu_nextGroupID q \<and> (if b then \<exists>e \<in> set (waiting q). en_id e = d \<and> lg' = Lease_Release (en_lease e) lg
      else q' = q \<and> lg' = lg \<and> d \<notin> en_id ` set (waiting q))"
    using cancel_from_cases [OF Q(1) add_0 c]
  proof (elim disjE conjE exE, goal_cases)
    case 1
    then have "\<forall>e \<in> set (waiting q). en_id e \<noteq> d" by (metis in_set_conv_nth length_waiting waiting_nth le0)
    then show ?case using 1 ok by (auto simp: without_def same_queue_def filter_id_conv)
  next
    case (2 k)
    have w: "waiting q = take k (waiting q) @ slot q k # drop (Suc k) (waiting q)"
      using id_take_nth_drop [of k "waiting q"] 2(3) by (simp add: waiting_nth)
    have "queue_ok c q'" by (rule queue_ok_remove [OF ok w]) (use 2 in simp_all)
    moreover have "waiting q' = without d (waiting q)"
      using without_split [of "take k (waiting q)" "slot q k" "drop (Suc k) (waiting q)"] distinct_ids [OF ok] w 2 by simp
    moreover have "slot q k \<in> set (waiting q)" using 2(3) nth_mem [of k "waiting q"] by (simp add: waiting_nth)
    ultimately show ?case using 2 by auto
  qed
  then show "queue_ok c q'" "waiting q' = without d (waiting q)" "same_queue q q'" "qu_nextDatagramID q' = qu_nextDatagramID q"
    "qu_nextGroupID q' = qu_nextGroupID q" "if b then \<exists>e \<in> set (waiting q). en_id e = d \<and> lg' = Lease_Release (en_lease e) lg
      else q' = q \<and> lg' = lg \<and> d \<notin> en_id ` set (waiting q)" by blast+
qed

lemma Queue_Close_ring:
  assumes "ring_ok q" "\<not> qu_closed q" "Queue_Close (q, lg) = (q', lg')"
  shows "qu_closed q'" "waiting q' = []" "qu_ringLease q' = None" "qu_session q' = qu_session q"
    "qu_outputBytes q' = qu_outputBytes q" "qu_limits q' = qu_limits q" "qu_nextDatagramID q' = qu_nextDatagramID q" "qu_nextGroupID q' = qu_nextGroupID q"
    "lg' = Lease_Release (qu_ringLease q) (fold Lease_Release (map en_lease (waiting q)) lg)" "qu_epoch q' = qu_epoch q"
proof -
  let ?q = "q\<lparr>qu_closed := True\<rparr>"
  have w: "waiting ?q = waiting q" by (rule waiting_cong) simp_all
  have r: "ring_ok ?q" using assms(1) by (simp add: ring_ok_def)
  obtain q1 lg1 where d: "(dropHeadLocked ^^ qu_count ?q) (?q, lg) = (q1, lg1)" by force
  note D = dropHeads [OF r order.refl d, unfolded w]
  have e: "q' = q1\<lparr>qu_ring := [], qu_ringLease := None, qu_codec := None\<rparr>" "lg' = Lease_Release (qu_ringLease q1) lg1"
    using assms(2,3) d by (auto simp: Queue_Close_def)
  have "qu_count q1 = 0" using D length_waiting [of q1] by simp
  then show "qu_closed q'" "waiting q' = []" "qu_ringLease q' = None" "qu_session q' = qu_session q"
    "qu_outputBytes q' = qu_outputBytes q" "qu_limits q' = qu_limits q" "qu_nextDatagramID q' = qu_nextDatagramID q" "qu_nextGroupID q' = qu_nextGroupID q"
    using D by (simp_all add: e same_queue_def)
  show "lg' = Lease_Release (qu_ringLease q) (fold Lease_Release (map en_lease (waiting q)) lg)" "qu_epoch q' = qu_epoch q"
    using D by (simp_all add: e same_queue_def)
qed

subsection \<open>Sealing\<close>

text \<open>Everything a seal can return, and what it leaves.\<close>

lemma seal_cases:
  assumes ok: "queue_ok c q" and s: "seal now force w (q, ws, lg) = (res, q', ws', lg')"
  obtains
    (refused) err where "res = Inl err" "q' = q" "ws' = ws" "lg' = lg"
      "checkLocked now q lg = Some err \<or> (qu_nextGroupID q = 0 \<and> err = ErrIDExhausted) \<or> fst (reserve_output w q ws lg) = Inl err"
  | (idle) "checkLocked now q lg = None" "res = Inr None" "q' = clockLocked now q" "ws' = ws" "lg' = lg"
      "qu_count q = 0 \<or> (\<not> force \<and> \<not> dueLocked now (planLocked q) q)"
  | (emitted) g lease q1 lg1 where "checkLocked now q lg = None" "0 < qu_count q" "qu_nextGroupID q \<noteq> 0" "force \<or> dueLocked now (planLocked q) q"
      "reserve_output w q ws lg = (Inr lease, ws', lg1)" "cut_ok q (pl_cursor (planLocked q))"
      "Codec_Encode c (consumed (backlogged q) (pl_cursor (planLocked q))) = Inr g"
      "consume (pl_cursor (planLocked q)) (q, lg1) = (q1, lg')"
      "res = Inr (Some \<lparr>os_group = \<lparr>sl_EncodingEpoch = eo_ID (qu_epoch q), sl_GroupID = qu_nextGroupID q, sl_Group = g\<rparr>,
                   os_lease = lease, os_workspace = w, os_released = False\<rparr>)"
      "q' = clockLocked now (q1\<lparr>qu_nextGroupID := qu_nextGroupID q1 + 1\<rparr>)"
proof -
  have unchanged: "ws1 = ws \<and> lg1 = lg" if "reserve_output w q ws lg = (Inl err, ws1, lg1)" for err ws1 lg1
    using that by (auto simp: reserve_output_def Session_Reserve_def split: option.splits prod.splits sum.splits if_splits)
  consider (chk) err where "checkLocked now q lg = Some err" | (empty) "checkLocked now q lg = None" "qu_count q = 0"
    | (ids) "checkLocked now q lg = None" "0 < qu_count q" "qu_nextGroupID q = 0"
    | (wait) "checkLocked now q lg = None" "0 < qu_count q" "qu_nextGroupID q \<noteq> 0" "\<not> force" "\<not> dueLocked now (planLocked q) q"
    | (go) "checkLocked now q lg = None" "0 < qu_count q" "qu_nextGroupID q \<noteq> 0" "force \<or> dueLocked now (planLocked q) q"
    by fastforce
  then show ?thesis
  proof cases
    case go
    obtain m where m: "pl_fragments (planLocked q) = take m (backlogged q)" "0 < m" "cut_ok q (pl_cursor (planLocked q))"
      using planLocked_spec [OF ok] go(2) by metis
    have ne: "pl_fragments (planLocked q) \<noteq> []" using m(1,2) go(2) length_backlogged [of q] by (metis gr_zeroI length_0_conv less_nat_zero_code take_eq_Nil)
    show ?thesis
    proof (cases "fst (reserve_output w q ws lg)")
      case (Inl err)
      then obtain ws1 lg1 where r: "reserve_output w q ws lg = (Inl err, ws1, lg1)" by (metis prod.collapse)
      then show ?thesis using refused [of err] s go ne unchanged [OF r] by (auto simp: seal_def Let_def)
    next
      case (Inr lease)
      then obtain ws1 lg1 where r: "reserve_output w q ws lg = (Inr lease, ws1, lg1)" by (metis prod.collapse)
      obtain q1 lg2 where co: "consume (pl_cursor (planLocked q)) (q, lg1) = (q1, lg2)" by force
      obtain g where g: "Codec_Encode c (consumed (backlogged q) (pl_cursor (planLocked q))) = Inr g"
        "emit_group now (planLocked q) w lease q ws1 lg1 =
           (Inr (Some \<lparr>os_group = \<lparr>sl_EncodingEpoch = eo_ID (qu_epoch q), sl_GroupID = qu_nextGroupID q, sl_Group = g\<rparr>,
                   os_lease = lease, os_workspace = w, os_released = False\<rparr>),
            clockLocked now (q1\<lparr>qu_nextGroupID := qu_nextGroupID q1 + 1\<rparr>), ws1, lg2)"
        by (rule emit_group_ok [OF ok go(2) co])
      have "(res, q', ws', lg') = emit_group now (planLocked q) w lease q ws1 lg1"
        using s go ne r by (auto simp: seal_def Let_def)
      then show ?thesis using emitted [OF go(1-4) _ m(3) g(1), of lease lg1 q1] r co g(2) by simp
    qed
  next
    case (chk err)
    then show ?thesis using refused [of err] s by (simp add: seal_def)
  next
    case empty
    then show ?thesis using idle s by (simp add: seal_def)
  next
    case ids
    then show ?thesis using refused [of ErrIDExhausted] s by (simp add: seal_def)
  next
    case wait
    then show ?thesis using idle s by (simp add: seal_def Let_def)
  qed
qed


end
