(* ===== verification/AggregationHold.thy ===== *)
theory AggregationHold
  imports AggregationOps "HOL-Library.Multiset"
begin

text \<open>
  A client of the ledger that holds several leases at once: the list of handles it holds is distinct and
  live, reserving puts a new handle on it and releasing takes handles off. Stated once for every provider
  of leases.
\<close>

subsection \<open>Holding leases\<close>

context lease_provider
begin

definition owned :: "'l \<Rightarrow> 's \<Rightarrow> 'h list \<Rightarrow> bool" where
  "owned p s hs \<longleftrightarrow> invar p \<and> scope p s \<and> distinct hs \<and> (\<forall>h \<in> set hs. \<exists>c. view p h = Some (s, c))"

lemma owned_perm: "owned p s hs \<Longrightarrow> mset hs' = mset hs \<Longrightarrow> owned p s hs'"
  by (metis owned_def mset_eq_imp_distinct_iff mset_eq_setD)

lemma owned_reserve:
  assumes "owned p s hs" "reserve s c p = (Inr h, p')"
  shows "owned p' s (h # hs)" "view p' h = Some (s, c)" "\<And>h'. h' \<in> set hs \<Longrightarrow> h' \<noteq> h \<and> view p' h' = view p h'"
proof -
  have i: "invar p" "scope p s" using assms(1) by (simp_all add: owned_def)
  note R = reserve_ok [OF i assms(2)]
  show v: "view p' h = Some (s, c)" using R by simp
  show k: "\<And>h'. h' \<in> set hs \<Longrightarrow> h' \<noteq> h \<and> view p' h' = view p h'"
    using R assms(1) by (auto simp: owned_def)
  have "h \<notin> set hs" using k by blast
  moreover have "\<exists>c. view p' h' = Some (s, c)" if "h' \<in> set hs" for h' using k [OF that] assms(1) that by (auto simp: owned_def)
  ultimately show "owned p' s (h # hs)" using R v i(2) assms(1) by (auto simp: owned_def)
qed

lemma owned_release:
  assumes "owned p s (xs @ ys)"
  shows "owned (fold release xs p) s ys" "\<And>h. h \<notin> set xs \<Longrightarrow> view (fold release xs p) h = view p h"
    "\<And>h. h \<in> set xs \<Longrightarrow> view (fold release xs p) h = None"
proof -
  have "invar p" "distinct xs" "\<And>h. h \<in> set xs \<Longrightarrow> view p h \<noteq> None" using assms by (fastforce simp: owned_def)+
  note R = release_all [OF this]
  show "\<And>h. h \<notin> set xs \<Longrightarrow> view (fold release xs p) h = view p h" "\<And>h. h \<in> set xs \<Longrightarrow> view (fold release xs p) h = None"
    using R by simp_all
  show "owned (fold release xs p) s ys" using R assms by (auto simp: owned_def)
qed

end

subsection \<open>Handles that may be nil\<close>

abbreviation held_by :: "Ledger \<Rightarrow> nat \<Rightarrow> handle list \<Rightarrow> bool" where "held_by \<equiv> ledger_scope.owned"

definition handles :: "handle list \<Rightarrow> handle list" where
  "handles hs = filter (\<lambda>h. h \<noteq> None) hs"

lemma handles_simps [simp]:
  "handles [] = []" "handles (None # hs) = handles hs" "h \<noteq> None \<Longrightarrow> handles (h # hs) = h # handles hs" "handles (xs @ ys) = handles xs @ handles ys"
  by (simp_all add: handles_def)

lemma handles_set: "h \<in> set (handles hs) \<longleftrightarrow> h \<in> set hs \<and> h \<noteq> None"
  by (auto simp: handles_def)

lemma fold_release_handles: "fold Lease_Release hs p = fold Lease_Release (handles hs) p"
proof (induction hs arbitrary: p)
  case (Cons h hs)
  then show ?case by (cases "h = None") simp_all
qed simp

lemma handles_single: "handles [h] = (if h = None then [] else [h])"
  by (simp add: handles_def)

lemma handles_replace:
  assumes "k < length xs" "f y = None"
  shows "mset (handles (map f xs)) = mset (handles [f (xs ! k)]) + mset (handles (map f (xs[k := y])))"
proof -
  have x: "xs = take k xs @ xs ! k # drop (Suc k) xs" using assms(1) by (rule id_take_nth_drop)
  have y: "xs[k := y] = take k xs @ y # drop (Suc k) xs" using assms(1) by (rule upd_conv_take_nth_drop)
  have "mset (handles (map f xs)) = mset (handles (map f (take k xs @ xs ! k # drop (Suc k) xs)))" using x by simp
  then show ?thesis using assms(2) unfolding y by (simp add: handles_def)
qed

lemma reserve_out_of: "Session_Reserve (Some (lg_peer lg, s)) claim lg = reserve_in s claim lg"
  by (simp add: reserve_in_def)

lemma bind_outcomes:
  assumes inv: "ledger_inv lg" and h: "lease_handle lg prepaid"
    and b: "Session_BindBytes (Some (lg_peer lg, s)) prepaid n lg = (Inr h', lg')"
  shows "h' = prepaid" "leases_of lg' = leases_of lg" "ledger_inv lg'" "session_of lg' = session_of lg" "lg_peer lg' = lg_peer lg"
    "\<exists>c. leases_of lg prepaid = Some (s, c) \<and> n \<le> cl_Bytes c" "n \<noteq> 0"
proof -
  obtain l where l: "prepaid = Some (lg_peer lg, l)" "\<not> ls_released (lg_leases lg ! l)" "ls_owner (lg_leases lg ! l) = Some s"
    "n \<le> cl_Bytes (ls_claim (lg_leases lg ! l))" "h' = Some (lg_peer lg, l)" "lg' = on_lease l (\<lambda>x. x\<lparr>ls_bound := True\<rparr>) lg" "n \<noteq> 0"
    using b by (auto simp: Session_BindBytes_def Let_def not_less split: option.splits prod.splits if_splits)
  have lt: "l < length (lg_leases lg)" using h l(1) by (simp add: lease_handle_def)
  then show "\<exists>c. leases_of lg prepaid = Some (s, c) \<and> n \<le> cl_Bytes c" using l by (simp add: leases_of_def)
  show "h' = prepaid" "n \<noteq> 0" using l by simp_all
  show "leases_of lg' = leases_of lg"
    using lt by (auto simp: l(6) leases_of_def on_lease_def fun_eq_iff nth_list_update split: option.splits)
  show "session_of lg' = session_of lg" "lg_peer lg' = lg_peer lg" by (simp_all add: l(6) session_of_def on_lease_def fun_eq_iff)
  show "ledger_inv lg'" using BindBytes_inv [OF inv h, of "Some (lg_peer lg, s)" n] b by simp
qed

end
