(* ===== verification/AggregationWorld.thy ===== *)
theory AggregationWorld
  imports AggregationHold
begin

text \<open>
  The aggregation queue with its ledger, its output workspaces and the groups it has emitted, as one
  system. Three ghost components record what was admitted, what was emitted and what was given up.
\<close>

record aggregation =
  ag_queue :: Queue
  ag_workspaces :: "outputWorkspaceState list"
  ag_ledger :: Ledger
  ag_outputs :: "outputState list"
  ag_admitted :: "u64 \<rightharpoonup> bytes"
  ag_sent :: "Fragment list list"
  ag_dropped :: "u64 set"

text \<open>All lease pointers of the system; a nil pointer is not a lease.\<close>

definition lease_fields :: "aggregation \<Rightarrow> handle list" where
  "lease_fields w = qu_ringLease (ag_queue w) # map en_lease (waiting (ag_queue w)) @ map os_lease (ag_outputs w) @ map ws_lease (ag_workspaces w)"

abbreviation (input) held :: "aggregation \<Rightarrow> handle list" where "held w \<equiv> handles (lease_fields w)"

text \<open>What a seal takes off the queue.\<close>

definition sealed_fragments :: "Queue \<Rightarrow> Fragment list" where
  "sealed_fragments q = consumed (backlogged q) (pl_cursor (planLocked q))"

definition agg_start :: "(int \<Rightarrow> int \<Rightarrow> rs_codec option) \<Rightarrow> aggregation \<Rightarrow> bool" where
  "agg_start rs_New w \<longleftrightarrow>
     (\<exists>q lg' lg s self limits epoch.
        w = \<lparr>ag_queue = q, ag_workspaces = [], ag_ledger = lg', ag_outputs = [], ag_admitted = Map.empty, ag_sent = [], ag_dropped = {}\<rparr> \<and>
        reachable ledger_start ledger_step lg \<and> s < length (lg_sessions lg) \<and>
        (Queue_New rs_New self (Some (lg_peer lg, s)) limits epoch lg = (Inr q, lg') \<or>
         (\<exists>prepaid. lease_handle lg prepaid \<and> Queue_NewPrepaid rs_New self (Some (lg_peer lg, s)) limits epoch prepaid lg = (Inr q, lg'))))"

text \<open>Every operation, and any other use of the shared ledger that leaves the leases held here alone.\<close>

inductive agg_step :: "aggregation \<Rightarrow> aggregation \<Rightarrow> bool" where
  agg_admit: "Queue_Admit payload now (ag_queue w, ag_ledger w) = (Inr i, q', lg') \<Longrightarrow>
    agg_step w (w\<lparr>ag_queue := q', ag_ledger := lg', ag_admitted := (ag_admitted w)(i \<mapsto> payload)\<rparr>)"
| agg_seal: "seal now force k (ag_queue w, ag_workspaces w, ag_ledger w) = (Inr (Some out), q', ws', lg') \<Longrightarrow>
    (\<And>i. k = Some i \<Longrightarrow> i < length (ag_workspaces w)) \<Longrightarrow>
    agg_step w (w\<lparr>ag_queue := q', ag_workspaces := ws', ag_ledger := lg', ag_outputs := ag_outputs w @ [out],
      ag_sent := ag_sent w @ [sealed_fragments (ag_queue w)]\<rparr>)"
| agg_idle: "seal now force k (ag_queue w, ag_workspaces w, ag_ledger w) = (Inr None, q', ws', lg') \<or>
    (\<exists>b. Queue_Ready now (ag_queue w, ag_ledger w) = (Inr b, q') \<and> ws' = ag_workspaces w \<and> lg' = ag_ledger w) \<Longrightarrow>
    agg_step w (w\<lparr>ag_queue := q', ag_workspaces := ws', ag_ledger := lg'\<rparr>)"
| agg_cancel: "Queue_Cancel d (ag_queue w, ag_ledger w) = (b, q', lg') \<Longrightarrow>
    agg_step w (w\<lparr>ag_queue := q', ag_ledger := lg', ag_dropped := (if b then insert d (ag_dropped w) else ag_dropped w)\<rparr>)"
| agg_close: "Queue_Close (ag_queue w, ag_ledger w) = (q', lg') \<Longrightarrow>
    agg_step w (w\<lparr>ag_queue := q', ag_ledger := lg', ag_dropped := ag_dropped w \<union> en_id ` set (waiting (ag_queue w))\<rparr>)"
| agg_release: "k < length (ag_outputs w) \<Longrightarrow> Output_Release (Some (ag_outputs w ! k)) (ag_workspaces w, ag_ledger w) = (Some out, ws', lg') \<Longrightarrow>
    agg_step w (w\<lparr>ag_workspaces := ws', ag_ledger := lg', ag_outputs := (ag_outputs w)[k := out]\<rparr>)"
| agg_workspace: "NewPrepaidOutputWorkspace prepaid (ag_queue w, ag_ledger w) = (Inr s, lg') \<Longrightarrow>
    lease_handle (ag_ledger w) prepaid \<Longrightarrow> prepaid \<notin> set (held w) \<Longrightarrow>
    agg_step w (w\<lparr>ag_workspaces := ag_workspaces w @ [s], ag_ledger := lg'\<rparr>)"
| agg_retire: "k < length (ag_workspaces w) \<Longrightarrow> OutputWorkspace_Close (ag_workspaces w ! k) (ag_ledger w) = (s, lg') \<Longrightarrow>
    agg_step w (w\<lparr>ag_workspaces := (ag_workspaces w)[k := s], ag_ledger := lg'\<rparr>)"
| agg_other: "ledger_step (ag_ledger w) lg' \<Longrightarrow> \<forall>h \<in> set (held w). leases_of lg' h = leases_of (ag_ledger w) h \<Longrightarrow>
    agg_step w (w\<lparr>ag_ledger := lg'\<rparr>)"

subsection \<open>The invariant of the leases\<close>

definition entry_charged :: "Ledger \<Rightarrow> nat \<Rightarrow> entry \<Rightarrow> bool" where
  "entry_charged lg s e \<longleftrightarrow>
     (if en_payload e = [] then en_lease e = None
      else leases_of lg (en_lease e) = Some (s, bytesClaim (word_of_nat (length (en_payload e)))))"

definition output_charged :: "aggregation \<Rightarrow> nat \<Rightarrow> outputState \<Rightarrow> bool" where
  "output_charged w s out \<longleftrightarrow>
     (if os_released out then os_lease out = None \<and> os_workspace out = None
      else
        case os_workspace out of
          None \<Rightarrow> leases_of (ag_ledger w) (os_lease out) = Some (s, bytesClaim (qu_outputBytes (ag_queue w)))
        | Some k \<Rightarrow> os_lease out = None \<and> k < length (ag_workspaces w) \<and> ws_busy (ag_workspaces w ! k))"

definition busy_slots :: "outputState list \<Rightarrow> nat list" where
  "busy_slots outs = map the (filter (\<lambda>k. k \<noteq> None) (map os_workspace outs))"

text \<open>The bytes of the shards of a group with their slice headers, and of a workspace that holds one group: the shards and
  128 bytes of bookkeeping, in unbounded arithmetic.\<close>

definition group_bytes :: "Epoch \<Rightarrow> nat" where
  "group_bytes e = nat ((pr_DataShards (eo_Parameters e) + pr_ParityShards (eo_Parameters e)) * (pr_ShardBytes (eo_Parameters e) + 24))"

definition workspace_charged :: "Ledger \<Rightarrow> nat \<Rightarrow> Epoch \<Rightarrow> outputWorkspaceState \<Rightarrow> bool" where
  "workspace_charged lg s e x \<longleftrightarrow>
     (if ws_closed x \<and> \<not> ws_busy x then ws_lease x = None
      else \<exists>cl. leases_of lg (ws_lease x) = Some (s, cl) \<and> group_bytes e + 128 \<le> unat (cl_Bytes cl))"

text \<open>The sizes fixed when the queue is created.\<close>

definition sized :: "Codec \<Rightarrow> Queue \<Rightarrow> bool" where
  "sized c q \<longleftrightarrow> codec_ok c \<and> cd_params c = eo_Parameters (qu_epoch q) \<and> unat (qu_outputBytes q) = group_bytes (qu_epoch q) \<and>
     (\<not> qu_closed q \<longrightarrow> length (qu_ring q) = nat (ql_MaxQueuedDatagrams (qu_limits q)))"

definition workspace_ok :: "aggregation \<Rightarrow> nat \<Rightarrow> nat \<Rightarrow> bool" where
  "workspace_ok w s k \<longleftrightarrow>
     (ws_busy (ag_workspaces w ! k) \<longleftrightarrow> k \<in> set (busy_slots (ag_outputs w))) \<and>
     workspace_charged (ag_ledger w) s (qu_epoch (ag_queue w)) (ag_workspaces w ! k)"

definition ring_charged :: "Ledger \<Rightarrow> nat \<Rightarrow> Queue \<Rightarrow> bool" where
  "ring_charged lg s q \<longleftrightarrow>
     (\<exists>cl n. leases_of lg (qu_ringLease q) = Some (s, cl) \<and> Queue_RequiredInitialBytes (qu_limits q) = Inr n \<and> n \<le> cl_Bytes cl)"

definition lease_inv :: "nat \<Rightarrow> Codec \<Rightarrow> aggregation \<Rightarrow> bool" where
  "lease_inv s c w \<longleftrightarrow>
     held_by (ag_ledger w) s (held w) \<and> qu_session (ag_queue w) = Some (lg_peer (ag_ledger w), s) \<and>
     (if qu_closed (ag_queue w) then waiting (ag_queue w) = [] \<and> qu_ringLease (ag_queue w) = None
      else queue_ok c (ag_queue w) \<and> ring_charged (ag_ledger w) s (ag_queue w)) \<and>
     (\<forall>e \<in> set (waiting (ag_queue w)). entry_charged (ag_ledger w) s e) \<and>
     (\<forall>out \<in> set (ag_outputs w). output_charged w s out) \<and>
     distinct (busy_slots (ag_outputs w)) \<and> (\<forall>k < length (ag_workspaces w). workspace_ok w s k) \<and> sized c (ag_queue w)"

lemma lease_invD:
  assumes "lease_inv s c w"
  shows "held_by (ag_ledger w) s (held w)" "qu_session (ag_queue w) = Some (lg_peer (ag_ledger w), s)"
    "\<not> qu_closed (ag_queue w) \<Longrightarrow> queue_ok c (ag_queue w) \<and> ring_charged (ag_ledger w) s (ag_queue w)"
    "qu_closed (ag_queue w) \<Longrightarrow> waiting (ag_queue w) = [] \<and> qu_ringLease (ag_queue w) = None"
    "\<And>e. e \<in> set (waiting (ag_queue w)) \<Longrightarrow> entry_charged (ag_ledger w) s e"
    "\<And>out. out \<in> set (ag_outputs w) \<Longrightarrow> output_charged w s out"
    "distinct (busy_slots (ag_outputs w))" "\<And>k. k < length (ag_workspaces w) \<Longrightarrow> workspace_ok w s k" "sized c (ag_queue w)"
  using assms unfolding lease_inv_def by (metis (no_types, lifting))+

lemma lease_invI:
  assumes "held_by (ag_ledger w) s (held w)" "qu_session (ag_queue w) = Some (lg_peer (ag_ledger w), s)"
    "\<not> qu_closed (ag_queue w) \<Longrightarrow> queue_ok c (ag_queue w) \<and> ring_charged (ag_ledger w) s (ag_queue w)"
    "qu_closed (ag_queue w) \<Longrightarrow> waiting (ag_queue w) = [] \<and> qu_ringLease (ag_queue w) = None"
    "\<And>e. e \<in> set (waiting (ag_queue w)) \<Longrightarrow> entry_charged (ag_ledger w) s e"
    "\<And>out. out \<in> set (ag_outputs w) \<Longrightarrow> output_charged w s out"
    "distinct (busy_slots (ag_outputs w))" "\<And>k. k < length (ag_workspaces w) \<Longrightarrow> workspace_ok w s k" "sized c (ag_queue w)"
  shows "lease_inv s c w"
  unfolding lease_inv_def if_bool_eq_conj using assms by blast

lemma sized_same: "sized c q \<Longrightarrow> same_queue q q' \<Longrightarrow> sized c q'"
  by (simp add: sized_def same_queue_def)

lemma live_not_nil: "leases_of lg h = Some x \<Longrightarrow> h \<noteq> None"
  by (cases h) simp_all

lemma workspace_view:
  "workspace_charged lg s e x \<Longrightarrow> leases_of lg' (ws_lease x) = leases_of lg (ws_lease x) \<Longrightarrow> workspace_charged lg' s e x"
  by (simp add: workspace_charged_def)

lemma held_memI: "h \<in> set (lease_fields w) \<Longrightarrow> h \<noteq> None \<Longrightarrow> h \<in> set (held w)"
  by (simp add: handles_set)

text \<open>The invariant after a change of the ledger that keeps the views of the leases held.\<close>

lemma lease_inv_ledger:
  assumes inv: "lease_inv s c w" and lg: "ledger_inv lg'" "session_of lg' s" "lg_peer lg' = lg_peer (ag_ledger w)"
    and same: "\<And>h. h \<in> set (held w) \<Longrightarrow> leases_of lg' h = leases_of (ag_ledger w) h"
  shows "lease_inv s c (w\<lparr>ag_ledger := lg'\<rparr>)"
proof -
  note D = lease_invD [OF inv]
  have same': "leases_of lg' h = leases_of (ag_ledger w) h" if "h \<in> set (lease_fields w)" for h
  proof (cases "h = None")
    case False
    then show ?thesis using same held_memI [OF that] by blast
  qed simp
  let ?w = "w\<lparr>ag_ledger := lg'\<rparr>"
  have lf: "lease_fields ?w = lease_fields w" by (simp add: lease_fields_def)
  show ?thesis
  proof (rule lease_invI)
    have "\<exists>cl. leases_of lg' h = Some (s, cl)" if "h \<in> set (held w)" for h
      using D(1) that same [OF that] unfolding ledger_scope.owned_def by metis
    then show "held_by (ag_ledger ?w) s (held ?w)" unfolding lf using D(1) lg by (simp add: ledger_scope.owned_def)
    show "qu_session (ag_queue ?w) = Some (lg_peer (ag_ledger ?w), s)" using D(2) lg(3) by simp
    have "ring_charged lg' s (ag_queue w) = ring_charged (ag_ledger w) s (ag_queue w)"
      using same' [of "qu_ringLease (ag_queue w)"] by (simp add: ring_charged_def lease_fields_def)
    then show "queue_ok c (ag_queue ?w) \<and> ring_charged (ag_ledger ?w) s (ag_queue ?w)" if "\<not> qu_closed (ag_queue ?w)" using D(3) that by simp
    show "waiting (ag_queue ?w) = [] \<and> qu_ringLease (ag_queue ?w) = None" if "qu_closed (ag_queue ?w)" using D(4) that by simp
    show "entry_charged (ag_ledger ?w) s e" if "e \<in> set (waiting (ag_queue ?w))" for e
      using D(5) [of e] same' [of "en_lease e"] that by (simp add: lease_fields_def entry_charged_def)
    show "output_charged ?w s out" if "out \<in> set (ag_outputs ?w)" for out
      using D(6) [of out] same' [of "os_lease out"] that by (simp add: output_charged_def lease_fields_def split: option.splits)
    show "distinct (busy_slots (ag_outputs ?w))" using D(7) by simp
    show "workspace_ok ?w s k" if "k < length (ag_workspaces ?w)" for k
      using D(8) [of k] same' [of "ws_lease (ag_workspaces w ! k)"] that workspace_view by (auto simp: workspace_ok_def lease_fields_def)
    show "sized c (ag_queue ?w)" using D(9) by simp
  qed
qed

end
