(* ===== verification/AggregationSteps.thy ===== *)
theory AggregationSteps
  imports AggregationWorld
begin

text \<open>Every operation of the aggregation system keeps the invariant of its leases.\<close>

subsection \<open>Shared steps\<close>

lemma release_peer [simp]: "lg_peer (fold Lease_Release hs lg) = lg_peer lg"
  by (induction hs arbitrary: lg) (simp_all add: Lease_Release_def Let_def on_session_usage_def split: option.split)

lemma release_held:
  assumes "held_by lg s (held w)" "mset (held w) = mset (handles xs) + mset (handles (lease_fields w'))"
  shows "held_by (fold Lease_Release xs lg) s (held w')"
    "\<And>h. h \<in> set (lease_fields w') \<Longrightarrow> leases_of (fold Lease_Release xs lg) h = leases_of lg h"
    "\<And>h. h \<in> set (handles xs) \<Longrightarrow> leases_of (fold Lease_Release xs lg) h = None"
proof -
  have o: "held_by lg s (handles xs @ held w')" using ledger_scope.owned_perm [OF assms(1)] assms(2) by simp
  note R = ledger_scope.owned_release [OF o, unfolded fold_release_handles [of xs, symmetric]]
  show "held_by (fold Lease_Release xs lg) s (held w')" "\<And>h. h \<in> set (handles xs) \<Longrightarrow> leases_of (fold Lease_Release xs lg) h = None"
    by (rule R(1), rule R(3))
  fix h assume h: "h \<in> set (lease_fields w')"
  show "leases_of (fold Lease_Release xs lg) h = leases_of lg h"
  proof (cases "h = None")
    case False
    then have "h \<notin> set (handles xs)" using o held_memI [OF h] by (auto simp: ledger_scope.owned_def)
    then show ?thesis by (rule R(2))
  qed simp
qed

lemma workspace_field: "k < length (ag_workspaces w) \<Longrightarrow> ws_lease (ag_workspaces w ! k) \<in> set (lease_fields w)"
  by (simp add: lease_fields_def)

text \<open>Changes that leave workspaces and outputs alone: what is left to show is about the queue.\<close>

lemma lease_inv_queue:
  assumes inv: "lease_inv s c w" and held: "held_by lg' s (held (w\<lparr>ag_queue := q', ag_ledger := lg'\<rparr>))"
    and peer: "lg_peer lg' = lg_peer (ag_ledger w)" and same: "qu_session q' = qu_session (ag_queue w)" "qu_outputBytes q' = qu_outputBytes (ag_queue w)"
    and sz: "qu_epoch q' = qu_epoch (ag_queue w)" "sized c q'"
    and views: "\<And>h. h \<in> set (map os_lease (ag_outputs w) @ map ws_lease (ag_workspaces w)) \<Longrightarrow> leases_of lg' h = leases_of (ag_ledger w) h"
    and "\<not> qu_closed q' \<Longrightarrow> queue_ok c q' \<and> ring_charged lg' s q'" "qu_closed q' \<Longrightarrow> waiting q' = [] \<and> qu_ringLease q' = None"
    and "\<And>e. e \<in> set (waiting q') \<Longrightarrow> entry_charged lg' s e"
  shows "lease_inv s c (w\<lparr>ag_queue := q', ag_ledger := lg'\<rparr>)"
proof (rule lease_invI)
  note D = lease_invD [OF inv]
  let ?w = "w\<lparr>ag_queue := q', ag_ledger := lg'\<rparr>"
  show "output_charged ?w s out" if "out \<in> set (ag_outputs ?w)" for out
    using D(6) [of out] views [of "os_lease out"] that same(2) by (simp add: output_charged_def split: option.splits)
  show "workspace_ok ?w s k" if "k < length (ag_workspaces ?w)" for k
    using D(8) [of k] views [of "ws_lease (ag_workspaces w ! k)"] that workspace_view sz(1) by (auto simp: workspace_ok_def)
qed (use assms lease_invD(2,7) [OF inv] in simp_all)

lemma ghost_fields:
  "output_charged (w\<lparr>ag_admitted := a\<rparr>) s out = output_charged w s out" "workspace_ok (w\<lparr>ag_admitted := a\<rparr>) s k = workspace_ok w s k"
  "output_charged (w\<lparr>ag_sent := f\<rparr>) s out = output_charged w s out" "workspace_ok (w\<lparr>ag_sent := f\<rparr>) s k = workspace_ok w s k"
  "output_charged (w\<lparr>ag_dropped := d\<rparr>) s out = output_charged w s out" "workspace_ok (w\<lparr>ag_dropped := d\<rparr>) s k = workspace_ok w s k"
  by (simp_all add: output_charged_def workspace_ok_def split: option.split)

lemma lease_inv_ghost:
  "lease_inv s c (w\<lparr>ag_admitted := a\<rparr>) = lease_inv s c w" "lease_inv s c (w\<lparr>ag_sent := f\<rparr>) = lease_inv s c w"
  "lease_inv s c (w\<lparr>ag_dropped := d\<rparr>) = lease_inv s c w"
  by (simp_all add: lease_inv_def lease_fields_def ghost_fields)

subsection \<open>Start\<close>

lemma ring_bytes_claim: "n \<le> cl_Bytes (bytesClaim n)"
  by (simp add: bytesClaim_def)

lemma shard_room:
  assumes "0 \<le> a" "a \<le> 256" "0 \<le> b" "b \<le> 65536"
  shows "unat (word_of_int a * (word_of_int b + 24) :: u64) = nat (a * (b + 24))" "unat (word_of_int a * (word_of_int b + 24) + 128 :: u64) = nat (a * (b + 24)) + 128"
proof -
  have le: "a * (b + 24) \<le> 256 * (65536 + 24)" by (rule mult_mono) (use assms in simp_all)
  have ge: "0 \<le> a * (b + 24)" using assms by simp
  have w: "word_of_int a * (word_of_int b + 24) = (word_of_int (a * (b + 24)) :: u64)" by simp
  show "unat (word_of_int a * (word_of_int b + 24) :: u64) = nat (a * (b + 24))"
    unfolding w using le ge by (simp add: unat_eq_nat_uint uint_word_of_int del: of_int_mult of_int_add)
  have w': "word_of_int a * (word_of_int b + 24) + 128 = (word_of_int (a * (b + 24) + 128) :: u64)" by simp
  show "unat (word_of_int a * (word_of_int b + 24) + 128 :: u64) = nat (a * (b + 24)) + 128"
    unfolding w' using le ge by (simp add: unat_eq_nat_uint uint_word_of_int nat_add_distrib del: of_int_mult of_int_add)
qed

lemma newQueue_sized:
  assumes ok: "codec_ok c" "cd_params c = eo_Parameters epoch"
  shows "sized c (newQueue self session limits epoch c lease)"
proof -
  let ?p = "eo_Parameters epoch"
  have "1 \<le> pr_DataShards ?p" "1 \<le> pr_ParityShards ?p" "pr_DataShards ?p + pr_ParityShards ?p \<le> 256" "1 \<le> pr_ShardBytes ?p" "pr_ShardBytes ?p \<le> MaxShardBytes"
    using ok by (auto simp: codec_ok_def Parameters_validate_def split: if_splits)
  then have "unat (qu_outputBytes (newQueue self session limits epoch c lease)) = group_bytes epoch"
    using shard_room(1) [of "pr_DataShards ?p + pr_ParityShards ?p" "pr_ShardBytes ?p"] by (simp add: newQueue_def Let_def group_bytes_def)
  then show ?thesis using ok by (simp add: sized_def newQueue_fields)
qed

lemma workspace_size:
  "RequiredOutputWorkspaceBytes (pr_DataShards (eo_Parameters e) + pr_ParityShards (eo_Parameters e)) (pr_ShardBytes (eo_Parameters e)) = Inr n \<Longrightarrow>
   unat n = group_bytes e + 128"
  using shard_room(2) [of "pr_DataShards (eo_Parameters e) + pr_ParityShards (eo_Parameters e)" "pr_ShardBytes (eo_Parameters e)"]
  by (auto simp: RequiredOutputWorkspaceBytes_def group_bytes_def add.assoc split: if_splits)

lemma agg_start_inv:
  assumes st: "agg_start rs_New w" and laws: "\<And>k n rs. rs_New k n = Some rs \<Longrightarrow> reed_solomon_laws (nat k) (nat n) rs"
  shows "\<exists>s c. lease_inv s c w"
proof -
  obtain q lg' lg s self limits epoch where
    w: "w = \<lparr>ag_queue = q, ag_workspaces = [], ag_ledger = lg', ag_outputs = [], ag_admitted = Map.empty, ag_sent = [], ag_dropped = {}\<rparr>"
    and re: "reachable ledger_start ledger_step lg" and s: "s < length (lg_sessions lg)"
    and new: "Queue_New rs_New self (Some (lg_peer lg, s)) limits epoch lg = (Inr q, lg') \<or>
      (\<exists>prepaid. lease_handle lg prepaid \<and> Queue_NewPrepaid rs_New self (Some (lg_peer lg, s)) limits epoch prepaid lg = (Inr q, lg'))"
    using st unfolding agg_start_def by blast
  have inv: "ledger_inv lg" by (rule ledger_system.reachable_inv [OF re])
  obtain c bytes where pr: "prepare rs_New (Some (lg_peer lg, s)) limits epoch lg = Inr (c, bytes)"
    using new by (auto simp: Queue_New_def Queue_NewPrepaid_def split: sum.splits)
  note P = prepare_ok [OF pr laws]
  obtain h cl where h: "q = newQueue self (Some (lg_peer lg, s)) limits epoch c h" "lg_peer lg' = lg_peer lg" "ledger_inv lg'" "session_of lg' s"
    "leases_of lg' h = Some (s, cl)" "bytes \<le> cl_Bytes cl"
  proof (cases "Queue_New rs_New self (Some (lg_peer lg, s)) limits epoch lg = (Inr q, lg')")
    case True
    then obtain h where r: "reserve_in s (bytesClaim bytes) lg = (Inr h, lg')" and q: "q = newQueue self (Some (lg_peer lg, s)) limits epoch c h"
      using pr by (auto simp: Queue_New_def reserve_out_of split: sum.splits prod.splits)
    have "lg_peer lg' = lg_peer lg" using reserve_outcomes [of s "bytesClaim bytes" lg] r by (auto simp: charge_fields)
    then show ?thesis
      using that [OF q, of "bytesClaim bytes"] ledger_scope.reserve_ok [OF inv _ r] s ring_bytes_claim by (simp add: session_of_def)
  next
    case False
    then obtain prepaid where pp: "lease_handle lg prepaid" "Queue_NewPrepaid rs_New self (Some (lg_peer lg, s)) limits epoch prepaid lg = (Inr q, lg')"
      using new by blast
    obtain r lg1 where b: "Session_BindBytes (Some (lg_peer lg, s)) prepaid bytes lg = (r, lg1)" by force
    then obtain h where r: "r = Inr h" "lg1 = lg'" and q: "q = newQueue self (Some (lg_peer lg, s)) limits epoch c h"
      using pp(2) pr by (cases r) (auto simp: Queue_NewPrepaid_def)
    note B = bind_outcomes [OF inv pp(1) b [unfolded r]]
    then show ?thesis using that [OF q] s by (auto simp: session_of_def)
  qed
  have nn: "h \<noteq> None" using live_not_nil [OF h(5)] .
  have lf: "lease_fields w = [h]" by (simp add: w lease_fields_def h(1) newQueue_fields)
  have "lease_inv s c w"
  proof (rule lease_invI)
    show "held_by (ag_ledger w) s (held w)" using h nn unfolding lf by (simp add: w ledger_scope.owned_def)
    show "queue_ok c (ag_queue w) \<and> ring_charged (ag_ledger w) s (ag_queue w)"
      using newQueue_ok [OF P(3,1,2,4)] P(5) h by (auto simp: w ring_charged_def newQueue_fields)
    show "sized c (ag_queue w)" using newQueue_sized [OF P(1,2)] by (simp add: w h(1))
  qed (use h in \<open>simp_all add: w newQueue_fields busy_slots_def\<close>)
  then show ?thesis by blast
qed

subsection \<open>The queue\<close>

lemma open_of_check:
  assumes "lease_inv s c w" "checkLocked now (ag_queue w) lg = None"
  shows "queue_ok c (ag_queue w)" "ring_charged (ag_ledger w) s (ag_queue w)"
  using lease_invD(3) [OF assms(1)] checkLocked_None(1) [OF assms(2)] by blast+

lemma ring_charged_cong:
  "ring_charged lg s q \<Longrightarrow> qu_ringLease q' = qu_ringLease q \<Longrightarrow> qu_limits q' = qu_limits q \<Longrightarrow>
   leases_of lg' (qu_ringLease q) = leases_of lg (qu_ringLease q) \<Longrightarrow> ring_charged lg' s q'"
  by (simp add: ring_charged_def)

lemma admit_inv:
  assumes inv: "lease_inv s c w" and adm: "Queue_Admit payload now (ag_queue w, ag_ledger w) = (Inr i, q', lg')"
  shows "lease_inv s c (w\<lparr>ag_queue := q', ag_ledger := lg'\<rparr>)"
proof -
  note D = lease_invD [OF inv]
  have chk: "checkLocked now (ag_queue w) (ag_ledger w) = None" using adm by (rule Admit_ok)
  note O = open_of_check [OF inv chk] and A = queue_ok_admit [OF open_of_check(1) [OF inv chk] adm]
  note S = same_queueD [OF A(3)]
  obtain lease where wt: "waiting q' = waiting (ag_queue w) @ [fresh_entry (ag_queue w) payload now lease]"
    and l: "if payload = [] then lease = None \<and> lg' = ag_ledger w
       else Session_Reserve (qu_session (ag_queue w)) (bytesClaim (word_of_nat (length payload))) (ag_ledger w) = (Inr lease, lg')"
    using A(2) by blast
  let ?w = "w\<lparr>ag_queue := q', ag_ledger := lg'\<rparr>"
  have m: "mset (held ?w) = mset (handles [lease]) + mset (held w)"
    by (simp add: lease_fields_def wt S(6) fresh_entry_def handles_def)
  have L: "held_by lg' s (held ?w) \<and> lg_peer lg' = lg_peer (ag_ledger w) \<and> entry_charged lg' s (fresh_entry (ag_queue w) payload now lease) \<and>
    (\<forall>h \<in> set (held w). leases_of lg' h = leases_of (ag_ledger w) h)"
  proof (cases "payload = []")
    case True
    then show ?thesis using l ledger_scope.owned_perm [OF D(1)] m by (simp add: entry_charged_def fresh_entry_def)
  next
    case False
    then have r: "reserve_in s (bytesClaim (word_of_nat (length payload))) (ag_ledger w) = (Inr lease, lg')"
      using l D(2) by (simp add: reserve_out_of)
    note R = ledger_scope.owned_reserve [OF D(1) r]
    have nn: "lease \<noteq> None" using live_not_nil [OF R(2)] .
    have "held_by lg' s (held ?w)" using ledger_scope.owned_perm [OF R(1)] m nn by (simp add: handles_single)
    moreover have "lg_peer lg' = lg_peer (ag_ledger w)"
      using reserve_outcomes [of s "bytesClaim (word_of_nat (length payload))" "ag_ledger w"] r by (auto simp: charge_fields)
    ultimately show ?thesis using R(2,3) False by (simp add: entry_charged_def fresh_entry_def)
  qed
  have same: "leases_of lg' h = leases_of (ag_ledger w) h" if "h \<in> set (lease_fields w)" for h
    using L held_memI [OF that] by (cases "h = None") simp_all
  show ?thesis
  proof (rule lease_inv_queue [OF inv])
    show "queue_ok c q' \<and> ring_charged lg' s q'" if "\<not> qu_closed q'"
      using A(1) ring_charged_cong [OF O(2) S(6,3)] same [of "qu_ringLease (ag_queue w)"] by (simp add: lease_fields_def)
    show "entry_charged lg' s e" if "e \<in> set (waiting q')" for e
      using that L D(5) [of e] same [of "en_lease e"] unfolding wt by (auto simp: entry_charged_def lease_fields_def)
    show "waiting q' = [] \<and> qu_ringLease q' = None" if "qu_closed q'" using that S(8) checkLocked_None(1) [OF chk] by simp
    show "leases_of lg' h = leases_of (ag_ledger w) h" if "h \<in> set (map os_lease (ag_outputs w) @ map ws_lease (ag_workspaces w))" for h
      using same [of h] that by (auto simp: lease_fields_def)
  qed (use L S sized_same [OF D(9) A(3)] in simp_all)
qed

lemma idle_inv:
  assumes inv: "lease_inv s c w" and chk: "checkLocked now (ag_queue w) (ag_ledger w) = None"
  shows "lease_inv s c (w\<lparr>ag_queue := clockLocked now (ag_queue w), ag_ledger := ag_ledger w\<rparr>)"
proof (rule lease_inv_queue [OF inv])
  note D = lease_invD [OF inv] and O = open_of_check [OF inv chk] and S = same_queueD [OF clock_fields(3) [of "ag_queue w" now]]
  show "held_by (ag_ledger w) s (held (w\<lparr>ag_queue := clockLocked now (ag_queue w), ag_ledger := ag_ledger w\<rparr>))"
    using D(1) S by (simp add: lease_fields_def)
  show "queue_ok c (clockLocked now (ag_queue w)) \<and> ring_charged (ag_ledger w) s (clockLocked now (ag_queue w))" if "\<not> qu_closed (clockLocked now (ag_queue w))"
    using queue_ok_clock [OF O(1), of now] checkLocked_None(3) [OF chk] ring_charged_cong [OF O(2) S(6,3) refl] by blast
  show "waiting (clockLocked now (ag_queue w)) = [] \<and> qu_ringLease (clockLocked now (ag_queue w)) = None" if "qu_closed (clockLocked now (ag_queue w))"
    using that S D(4) by simp
  show "entry_charged (ag_ledger w) s e" if "e \<in> set (waiting (clockLocked now (ag_queue w)))" for e using that D(5) by simp
qed (use same_queueD [OF clock_fields(3) [of "ag_queue w" now]] sized_same [OF lease_invD(9) [OF inv] clock_fields(3)] in simp_all)

text \<open>A queue that lost entries whose leases were released.\<close>

lemma shrink_inv:
  assumes inv: "lease_inv s c w" and ok: "\<not> qu_closed (ag_queue w)" "queue_ok c q'" and sq: "same_queue (ag_queue w) q'"
    and m: "mset (map en_lease (waiting (ag_queue w))) = mset hs + mset (map en_lease (waiting q'))"
    and sub: "\<And>e. e \<in> set (waiting q') \<Longrightarrow> \<exists>e0 \<in> set (waiting (ag_queue w)). en_lease e = en_lease e0 \<and> en_payload e = en_payload e0"
  shows "lease_inv s c (w\<lparr>ag_queue := q', ag_ledger := fold Lease_Release hs (ag_ledger w)\<rparr>)"
proof -
  note D = lease_invD [OF inv] and S = same_queueD [OF sq]
  let ?w = "w\<lparr>ag_queue := q', ag_ledger := fold Lease_Release hs (ag_ledger w)\<rparr>"
  have "mset (filter (\<lambda>h. h \<noteq> None) (map en_lease (waiting (ag_queue w)))) = mset (handles hs) + mset (handles (map en_lease (waiting q')))"
    unfolding handles_def mset_filter m by simp
  then have mh: "mset (held w) = mset (handles hs) + mset (handles (lease_fields ?w))"
    by (cases "qu_ringLease (ag_queue w)") (simp_all add: lease_fields_def S(6) handles_def)
  note R = release_held [OF D(1) mh]
  show ?thesis
  proof (rule lease_inv_queue [OF inv R(1)])
    show "queue_ok c q' \<and> ring_charged (fold Lease_Release hs (ag_ledger w)) s q'" if "\<not> qu_closed q'"
    proof -
      have "ring_charged (ag_ledger w) s (ag_queue w)" using D(3) ok(1) by blast
      moreover have "leases_of (fold Lease_Release hs (ag_ledger w)) (qu_ringLease (ag_queue w)) = leases_of (ag_ledger w) (qu_ringLease (ag_queue w))"
        using R(2) [of "qu_ringLease (ag_queue w)"] by (simp add: lease_fields_def S(6))
      ultimately show ?thesis using ok(2) ring_charged_cong [OF _ S(6,3)] by blast
    qed
    show "entry_charged (fold Lease_Release hs (ag_ledger w)) s e" if e: "e \<in> set (waiting q')" for e
    proof -
      obtain e0 where e0: "e0 \<in> set (waiting (ag_queue w))" "en_lease e = en_lease e0" "en_payload e = en_payload e0" using sub [OF e] by blast
      have "entry_charged (ag_ledger w) s e" using D(5) [OF e0(1)] e0 by (simp add: entry_charged_def)
      then show ?thesis using R(2) [of "en_lease e"] e by (simp add: entry_charged_def lease_fields_def)
    qed
    show "leases_of (fold Lease_Release hs (ag_ledger w)) h = leases_of (ag_ledger w) h" if "h \<in> set (map os_lease (ag_outputs w) @ map ws_lease (ag_workspaces w))" for h
      using R(2) [of h] that by (auto simp: lease_fields_def)
  qed (use S ok(1) sized_same [OF D(9) sq] in simp_all)
qed

lemma cancel_inv:
  assumes inv: "lease_inv s c w" and can: "Queue_Cancel d (ag_queue w, ag_ledger w) = (b, q', lg')"
  shows "lease_inv s c (w\<lparr>ag_queue := q', ag_ledger := lg'\<rparr>)"
proof (cases "qu_closed (ag_queue w) \<or> \<not> b")
  case True
  note D = lease_invD [OF inv]
  have "q' = ag_queue w \<and> lg' = ag_ledger w"
  proof (cases "qu_closed (ag_queue w)")
    case False
    then show ?thesis using queue_ok_cancel(6) [OF _ False _ can, of c] True D(2,3) by simp
  qed (use can in \<open>simp add: Queue_Cancel_def\<close>)
  then show ?thesis using inv by simp
next
  case False
  note D = lease_invD [OF inv]
  have ok: "queue_ok c (ag_queue w)" "\<not> qu_closed (ag_queue w)" "qu_session (ag_queue w) \<noteq> None" using False D(2,3) by auto
  note C = queue_ok_cancel [OF ok can]
  obtain e where e: "e \<in> set (waiting (ag_queue w))" "en_id e = d" "lg' = Lease_Release (en_lease e) (ag_ledger w)" using C(6) False by auto
  obtain xs ys where w: "waiting (ag_queue w) = xs @ e # ys" using split_list [OF e(1)] by blast
  have w': "waiting q' = xs @ ys" using C(2) without_split [of xs e ys] distinct_ids [OF ok(1)] w e(2) by simp
  have "lease_inv s c (w\<lparr>ag_queue := q', ag_ledger := fold Lease_Release [en_lease e] (ag_ledger w)\<rparr>)"
    by (rule shrink_inv [OF inv ok(2) C(1,3)]) (auto simp: w w')
  then show ?thesis by (simp add: e(3))
qed

lemma close_inv:
  assumes inv: "lease_inv s c w" and cl: "Queue_Close (ag_queue w, ag_ledger w) = (q', lg')"
  shows "lease_inv s c (w\<lparr>ag_queue := q', ag_ledger := lg'\<rparr>)"
    "\<not> qu_closed (ag_queue w) \<Longrightarrow> h \<in> set (handles (qu_ringLease (ag_queue w) # map en_lease (waiting (ag_queue w)))) \<Longrightarrow> leases_of lg' h = None"
proof -
  note D = lease_invD [OF inv]
  have "lease_inv s c (w\<lparr>ag_queue := q', ag_ledger := lg'\<rparr>) \<and>
    (\<not> qu_closed (ag_queue w) \<longrightarrow> h \<in> set (handles (qu_ringLease (ag_queue w) # map en_lease (waiting (ag_queue w)))) \<longrightarrow> leases_of lg' h = None)"
  proof (cases "qu_closed (ag_queue w)")
    case True
    then have "q' = ag_queue w \<and> lg' = ag_ledger w" using cl by (simp add: Queue_Close_def)
    then show ?thesis using inv True by simp
  next
    case False
    note C = Queue_Close_ring [OF queue_okD(1) False cl, of c]
    have C: "qu_closed q'" "waiting q' = []" "qu_ringLease q' = None" "qu_session q' = qu_session (ag_queue w)" "qu_outputBytes q' = qu_outputBytes (ag_queue w)"
      "qu_epoch q' = qu_epoch (ag_queue w)" "lg' = fold Lease_Release (map en_lease (waiting (ag_queue w)) @ [qu_ringLease (ag_queue w)]) (ag_ledger w)"
      using C D(3) [OF False] by simp_all
    let ?hs = "map en_lease (waiting (ag_queue w)) @ [qu_ringLease (ag_queue w)]"
    have mh: "mset (held w) = mset (handles ?hs) + mset (handles (lease_fields (w\<lparr>ag_queue := q', ag_ledger := lg'\<rparr>)))"
      by (simp add: lease_fields_def C handles_def)
    note R = release_held [OF D(1) mh, folded C(7)]
    have "lease_inv s c (w\<lparr>ag_queue := q', ag_ledger := lg'\<rparr>)"
    proof (rule lease_inv_queue [OF inv R(1)])
      show "leases_of lg' h = leases_of (ag_ledger w) h" if "h \<in> set (map os_lease (ag_outputs w) @ map ws_lease (ag_workspaces w))" for h
        using R(2) [of h] that by (auto simp: lease_fields_def)
      show "lg_peer lg' = lg_peer (ag_ledger w)" unfolding C(7) by (rule release_peer)
    qed (use C D(9) in \<open>simp_all add: sized_def\<close>)
    then show ?thesis using R(3) by (auto simp: handles_set)
  qed
  then show "lease_inv s c (w\<lparr>ag_queue := q', ag_ledger := lg'\<rparr>)"
    "\<not> qu_closed (ag_queue w) \<Longrightarrow> h \<in> set (handles (qu_ringLease (ag_queue w) # map en_lease (waiting (ag_queue w)))) \<Longrightarrow> leases_of lg' h = None"
    by blast+
qed


subsection \<open>Outputs and workspaces\<close>

lemma busy_slots_simps [simp]:
  "busy_slots [] = []" "busy_slots (out # outs) = (case os_workspace out of None \<Rightarrow> [] | Some k \<Rightarrow> [k]) @ busy_slots outs"
  "busy_slots (xs @ ys) = busy_slots xs @ busy_slots ys"
  by (auto simp: busy_slots_def split: option.split)

lemma busy_slots_mem: "k \<in> set (busy_slots outs) \<longleftrightarrow> (\<exists>out \<in> set outs. os_workspace out = Some k)"
  by (induction outs) (auto split: option.splits)

text \<open>Changes of workspaces and outputs that leave the queue alone.\<close>

lemma lease_inv_outputs:
  assumes inv: "lease_inv s c w" and w': "w' = w\<lparr>ag_workspaces := ws', ag_ledger := lg', ag_outputs := outs'\<rparr>"
    and held: "held_by lg' s (held w')" and peer: "lg_peer lg' = lg_peer (ag_ledger w)"
    and same: "\<And>h. h \<in> set (qu_ringLease (ag_queue w) # map en_lease (waiting (ag_queue w))) \<Longrightarrow> leases_of lg' h = leases_of (ag_ledger w) h"
    and "\<And>out. out \<in> set outs' \<Longrightarrow> output_charged w' s out" "distinct (busy_slots outs')" "\<And>k. k < length ws' \<Longrightarrow> workspace_ok w' s k"
  shows "lease_inv s c w'"
proof (rule lease_invI)
  note D = lease_invD [OF inv]
  show "queue_ok c (ag_queue w') \<and> ring_charged (ag_ledger w') s (ag_queue w')" if "\<not> qu_closed (ag_queue w')"
    using D(3) that same [of "qu_ringLease (ag_queue w)"] by (simp add: w' ring_charged_def)
  show "waiting (ag_queue w') = [] \<and> qu_ringLease (ag_queue w') = None" if "qu_closed (ag_queue w')" using D(4) that by (simp add: w')
  show "entry_charged (ag_ledger w') s e" if "e \<in> set (waiting (ag_queue w'))" for e
    using D(5) [of e] same [of "en_lease e"] that by (simp add: w' entry_charged_def)
  show "qu_session (ag_queue w') = Some (lg_peer (ag_ledger w'), s)" using D(2) peer by (simp add: w')
  show "sized c (ag_queue w')" using D(9) by (simp add: w')
qed (use assms in simp_all)

text \<open>The moment between reserving the output of a group and taking its fragments off the queue.\<close>

lemma reserve_output_inv:
  assumes inv: "lease_inv s c w" and k: "\<And>i. k = Some i \<Longrightarrow> i < length (ag_workspaces w)"
    and r: "reserve_output k (ag_queue w) (ag_workspaces w) (ag_ledger w) = (Inr lease, ws', lg')"
    and out: "os_lease out = lease" "os_workspace out = k" "\<not> os_released out"
    and w': "w' = w\<lparr>ag_workspaces := ws', ag_ledger := lg', ag_outputs := ag_outputs w @ [out]\<rparr>"
  shows "lease_inv s c w'"
proof (cases k)
  case None
  note D = lease_invD [OF inv]
  have res: "reserve_in s (bytesClaim (qu_outputBytes (ag_queue w))) (ag_ledger w) = (Inr lease, lg')" and ws: "ws' = ag_workspaces w"
    using r None D(2) by (auto simp: reserve_output_def reserve_out_of split: sum.splits prod.splits)
  note R = ledger_scope.owned_reserve [OF D(1) res]
  have nn: "lease \<noteq> None" using live_not_nil [OF R(2)] .
  have same: "leases_of lg' h = leases_of (ag_ledger w) h" if "h \<in> set (lease_fields w)" for h
    using R(3) held_memI [OF that] by (cases "h = None") simp_all
  show ?thesis
  proof (rule lease_inv_outputs [OF inv w'])
    have "mset (held w') = mset (lease # held w)" using nn out(1) by (simp add: w' ws lease_fields_def handles_def)
    then show "held_by lg' s (held w')" by (rule ledger_scope.owned_perm [OF R(1)])
    show "lg_peer lg' = lg_peer (ag_ledger w)" using reserve_outcomes [of s "bytesClaim (qu_outputBytes (ag_queue w))" "ag_ledger w"] res by (auto simp: charge_fields)
    show "leases_of lg' h = leases_of (ag_ledger w) h" if "h \<in> set (qu_ringLease (ag_queue w) # map en_lease (waiting (ag_queue w)))" for h
      using same [of h] that by (auto simp: lease_fields_def)
    show "output_charged w' s o1" if "o1 \<in> set (ag_outputs w @ [out])" for o1
      using that R(2) D(6) [of o1] same [of "os_lease o1"] out None by (auto simp: w' ws output_charged_def lease_fields_def split: option.splits)
    show "distinct (busy_slots (ag_outputs w @ [out]))" using D(7) out(2) None by simp
    show "workspace_ok w' s j" if "j < length ws'" for j
      using D(8) [of j] that out(2) None same [of "ws_lease (ag_workspaces w ! j)"] workspace_view by (auto simp: w' ws workspace_ok_def lease_fields_def)
  qed
next
  case (Some i)
  note D = lease_invD [OF inv]
  have i: "i < length (ag_workspaces w)" using k Some by simp
  have a: "\<not> ws_closed (ag_workspaces w ! i)" "\<not> ws_busy (ag_workspaces w ! i)" "lease = None" "lg' = ag_ledger w"
    "ws' = (ag_workspaces w)[i := (ag_workspaces w ! i)\<lparr>ws_busy := True\<rparr>]"
    using r Some by (auto simp: reserve_output_def acquire_workspace_def split: prod.splits if_splits)
  have free: "i \<notin> set (busy_slots (ag_outputs w))" using D(8) [OF i] a(2) by (simp add: workspace_ok_def)
  have wl: "map ws_lease ws' = map ws_lease (ag_workspaces w)" using i by (simp add: a(5) map_update list_update_same_conv)
  have len: "length ws' = length (ag_workspaces w)" by (simp add: a(5))
  show ?thesis
  proof (rule lease_inv_outputs [OF inv w'])
    have "handles (lease_fields w') = handles (lease_fields w)" using a(3) out(1) wl by (simp add: w' lease_fields_def handles_def)
    then show "held_by lg' s (held w')" using D(1) a(4) by simp
    show "output_charged w' s o1" if o1: "o1 \<in> set (ag_outputs w @ [out])" for o1
    proof (cases "o1 \<in> set (ag_outputs w)")
      case True
      then show ?thesis using D(6) [OF True] i by (auto simp: w' a output_charged_def nth_list_update split: option.splits)
    next
      case False
      then have "o1 = out" using o1 by simp
      then show ?thesis using out Some i a(3) len by (simp add: w' a output_charged_def)
    qed
    show "distinct (busy_slots (ag_outputs w @ [out]))" using D(7) out(2) Some free by simp
    show "workspace_ok w' s j" if "j < length ws'" for j
      using D(8) [of j] that out(2) Some i a(1,2) by (cases "j = i") (auto simp: w' a(4,5) workspace_ok_def workspace_charged_def)
  qed (use a in simp_all)
qed

lemma queue_ok_cong:
  assumes ok: "queue_ok c q" and sq: "same_queue q q'" and w: "waiting q' = waiting q" and r: "ring_ok q'"
    and F: "qu_nextDatagramID q' = qu_nextDatagramID q" "qu_retainedBytes q' = qu_retainedBytes q" "qu_lastNow q' = qu_lastNow q" "qu_haveNow q' = qu_haveNow q"
  shows "queue_ok c q'"
  using ok r unfolding queue_ok_def same_queueD [OF sq] entry_ok_same [OF sq] w F by blast

lemma seal_inv:
  assumes inv: "lease_inv s c w" and k: "\<And>i. k = Some i \<Longrightarrow> i < length (ag_workspaces w)"
    and e: "seal now force k (ag_queue w, ag_workspaces w, ag_ledger w) = (Inr (Some out), q', ws', lg')"
  shows "lease_inv s c (w\<lparr>ag_queue := q', ag_workspaces := ws', ag_ledger := lg', ag_outputs := ag_outputs w @ [out]\<rparr>)"
proof -
  note D = lease_invD [OF inv]
  have chk: "checkLocked now (ag_queue w) (ag_ledger w) = None" using e by (auto simp: seal_def split: option.splits)
  note O = open_of_check [OF inv chk]
  let ?q = "ag_queue w" and ?cur = "pl_cursor (planLocked (ag_queue w))"
  obtain g lease q1 lg1 where E: "reserve_output k ?q (ag_workspaces w) (ag_ledger w) = (Inr lease, ws', lg1)" "cut_ok ?q ?cur"
    "consume ?cur (?q, lg1) = (q1, lg')"
    "out = \<lparr>os_group = \<lparr>sl_EncodingEpoch = eo_ID (qu_epoch ?q), sl_GroupID = qu_nextGroupID ?q, sl_Group = g\<rparr>,
       os_lease = lease, os_workspace = k, os_released = False\<rparr>"
    "q' = clockLocked now (q1\<lparr>qu_nextGroupID := qu_nextGroupID q1 + 1\<rparr>)"
    by (rule seal_cases [OF O(1) e]) auto
  let ?w = "w\<lparr>ag_workspaces := ws', ag_ledger := lg1, ag_outputs := ag_outputs w @ [out]\<rparr>"
  have inv1: "lease_inv s c ?w" by (rule reserve_output_inv [OF inv k E(1) _ _ _ refl]) (simp_all add: E(4))
  note C = consume_spec [OF queue_okD(1) [OF O(1)] E(2,3)]
  have qok: "queue_ok c q1" by (rule queue_ok_consume [OF O(1) E(2,3)])
  have w': "waiting q' = waiting q1" unfolding E(5) clock_fields(1) by (rule waiting_cong) simp_all
  have "same_queue q1 q'" by (simp add: E(5) same_queue_def clockLocked_def)
  then have sq: "same_queue ?q q'" using C(3) same_queue_trans by blast
  have nq: "queue_ok c (q1\<lparr>qu_nextGroupID := n\<rparr>)" for n
  proof -
    have "same_queue q1 (q1\<lparr>qu_nextGroupID := n\<rparr>)" "waiting (q1\<lparr>qu_nextGroupID := n\<rparr>) = waiting q1"
      by (simp add: same_queue_def, rule waiting_cong) simp_all
    then show ?thesis using queue_okD(1) [OF qok] by (intro queue_ok_cong [OF qok]) (simp_all add: ring_ok_def)
  qed
  have q'ok: "queue_ok c q'" unfolding E(5)
    by (rule queue_ok_clock [OF nq]) (use checkLocked_None(3) [OF chk] C(6,7) in simp)
  let ?hs = "map en_lease (take (cu_Next ?cur) (waiting ?q))"
  have le: "map en_lease (waiting q1) = drop (cu_Next ?cur) (map en_lease (waiting ?q))"
    unfolding C(1) by (rule after_cut_map [OF E(2)]) (simp add: cut_entry_def)
  have "lease_inv s c (?w\<lparr>ag_queue := q', ag_ledger := fold Lease_Release ?hs (ag_ledger ?w)\<rparr>)"
  proof (rule shrink_inv [OF inv1])
    show "\<not> qu_closed (ag_queue ?w)" using checkLocked_None(1) [OF chk] by simp
    show "queue_ok c q'" by (rule q'ok)
    show "same_queue (ag_queue ?w) q'" using sq by simp
    have "map en_lease (waiting ?q) = ?hs @ drop (cu_Next ?cur) (map en_lease (waiting ?q))" by (simp add: take_map [symmetric])
    then have "mset (map en_lease (waiting ?q)) = mset ?hs + mset (drop (cu_Next ?cur) (map en_lease (waiting ?q)))" by (metis mset_append)
    then show "mset (map en_lease (waiting (ag_queue ?w))) = mset ?hs + mset (map en_lease (waiting q'))" unfolding w' le by simp
    fix e assume "e \<in> set (waiting q')"
    then obtain e0 where "e0 \<in> set (waiting ?q)" "e = e0 \<or> e = cut_entry ?cur e0"
      using after_cut_mem [OF E(2)] unfolding w' C(1) by metis
    then show "\<exists>e0 \<in> set (waiting (ag_queue ?w)). en_lease e = en_lease e0 \<and> en_payload e = en_payload e0"
      by (auto simp: cut_entry_def)
  qed
  moreover have "?w\<lparr>ag_queue := q', ag_ledger := fold Lease_Release ?hs (ag_ledger ?w)\<rparr> =
      w\<lparr>ag_queue := q', ag_workspaces := ws', ag_ledger := lg', ag_outputs := ag_outputs w @ [out]\<rparr>"
    using C(9) by (cases w) simp
  ultimately show ?thesis by simp
qed

lemma output_release_inv:
  assumes inv: "lease_inv s c w" and k: "k < length (ag_outputs w)"
    and e: "Output_Release (Some (ag_outputs w ! k)) (ag_workspaces w, ag_ledger w) = (Some out, ws', lg')"
  shows "lease_inv s c (w\<lparr>ag_workspaces := ws', ag_ledger := lg', ag_outputs := (ag_outputs w)[k := out]\<rparr>)" (is "lease_inv s c ?w")
proof (cases "os_released (ag_outputs w ! k)")
  case True
  then have "out = ag_outputs w ! k" "ws' = ag_workspaces w" "lg' = ag_ledger w" using e by (simp_all add: Output_Release_def)
  then show ?thesis using inv by simp
next
  case False
  note D = lease_invD [OF inv]
  let ?o = "ag_outputs w ! k"
  have out: "os_released out" "os_lease out = None" "os_workspace out = None" using e False by (auto simp: Output_Release_def)
  have outs: "ag_outputs w = take k (ag_outputs w) @ ?o # drop (Suc k) (ag_outputs w)"
    "(ag_outputs w)[k := out] = take k (ag_outputs w) @ out # drop (Suc k) (ag_outputs w)"
    using k by (rule id_take_nth_drop, rule upd_conv_take_nth_drop)
  have oc: "output_charged w s ?o" using k by (intro D(6)) simp
  have mo: "mset (handles (map os_lease (ag_outputs w))) = mset (handles [os_lease ?o]) + mset (handles (map os_lease ((ag_outputs w)[k := out])))"
    using handles_replace [OF k, of os_lease out] out(2) by simp
  have slots: "set (busy_slots ((ag_outputs w)[k := out])) = set (busy_slots (ag_outputs w)) - set_option (os_workspace ?o)"
    "distinct (busy_slots ((ag_outputs w)[k := out]))"
  proof -
    have b: "busy_slots (ag_outputs w) = busy_slots (take k (ag_outputs w)) @ (case os_workspace ?o of None \<Rightarrow> [] | Some j \<Rightarrow> [j]) @ busy_slots (drop (Suc k) (ag_outputs w))"
      using arg_cong [OF outs(1), of busy_slots] by simp
    show "set (busy_slots ((ag_outputs w)[k := out])) = set (busy_slots (ag_outputs w)) - set_option (os_workspace ?o)"
      "distinct (busy_slots ((ag_outputs w)[k := out]))"
      unfolding outs(2) using D(7) out(3) unfolding b by (auto split: option.splits)
  qed
  show ?thesis
  proof (cases "os_workspace ?o")
    case None
    have r: "ws' = ag_workspaces w" "lg' = fold Lease_Release [os_lease ?o] (ag_ledger w)"
      using e False None by (auto simp: Output_Release_def release_workspace_def)
    have mh: "mset (held w) = mset (handles [os_lease ?o]) + mset (handles (lease_fields ?w))"
      using mo by (simp add: lease_fields_def r(1) handles_def)
    note R = release_held [OF D(1) mh, folded r(2)]
    show ?thesis
    proof (rule lease_inv_outputs [OF inv refl R(1)])
      show "lg_peer lg' = lg_peer (ag_ledger w)" unfolding r(2) by (rule release_peer)
      show "leases_of lg' h = leases_of (ag_ledger w) h" if "h \<in> set (qu_ringLease (ag_queue w) # map en_lease (waiting (ag_queue w)))" for h
        using R(2) [of h] that by (auto simp: lease_fields_def)
      show "output_charged ?w s o1" if o1: "o1 \<in> set ((ag_outputs w)[k := out])" for o1
      proof (cases "o1 = out")
        case False
        then have "o1 \<in> set (ag_outputs w)" using o1 set_update_subset_insert [of "ag_outputs w" k out] by blast
        then show ?thesis using D(6) [of o1] R(2) [of "os_lease o1"] o1 by (simp add: output_charged_def lease_fields_def r(1) split: option.splits)
      qed (use out in \<open>simp add: output_charged_def\<close>)
      show "workspace_ok ?w s j" if "j < length ws'" for j
        using D(8) [of j] that slots(1) None R(2) [of "ws_lease (ag_workspaces w ! j)"] workspace_view by (auto simp: r(1) workspace_ok_def lease_fields_def)
    qed (rule slots(2))
  next
    case (Some i)
    have i: "os_lease ?o = None" "i < length (ag_workspaces w)" "ws_busy (ag_workspaces w ! i)" using oc False Some by (simp_all add: output_charged_def)
    let ?s = "ag_workspaces w ! i"
    let ?hs = "if ws_closed ?s then [ws_lease ?s] else []"
    have r: "ws' = (ag_workspaces w)[i := ?s\<lparr>ws_busy := False, ws_lease := (if ws_closed ?s then None else ws_lease ?s)\<rparr>]"
      "lg' = fold Lease_Release ?hs (ag_ledger w)"
      using e False Some i(1) by (auto simp: Output_Release_def release_workspace_def releaseOutput_def Let_def split: if_splits)
    have mw: "mset (handles (map ws_lease (ag_workspaces w))) = mset (handles ?hs) + mset (handles (map ws_lease ws'))"
    proof (cases "ws_closed ?s")
      case True
      then show ?thesis using handles_replace [OF i(2), of ws_lease "?s\<lparr>ws_busy := False, ws_lease := None\<rparr>"] by (simp add: r(1))
    next
      case False
      then have "map ws_lease ws' = map ws_lease (ag_workspaces w)" using i(2) by (simp add: r(1) map_update list_update_same_conv)
      then show ?thesis using False by simp
    qed
    have mh: "mset (held w) = mset (handles ?hs) + mset (handles (lease_fields ?w))"
      using mo mw i(1) by (simp add: lease_fields_def handles_def)
    note R = release_held [OF D(1) mh, folded r(2)]
    have len: "length ws' = length (ag_workspaces w)" by (simp add: r(1))
    show ?thesis
    proof (rule lease_inv_outputs [OF inv refl R(1)])
      show "lg_peer lg' = lg_peer (ag_ledger w)" unfolding r(2) by (rule release_peer)
      show "leases_of lg' h = leases_of (ag_ledger w) h" if "h \<in> set (qu_ringLease (ag_queue w) # map en_lease (waiting (ag_queue w)))" for h
        using R(2) [of h] that by (auto simp: lease_fields_def)
      show "output_charged ?w s o1" if o1: "o1 \<in> set ((ag_outputs w)[k := out])" for o1
      proof (cases "o1 = out")
        case False
        then have mem: "o1 \<in> set (ag_outputs w)" using o1 set_update_subset_insert [of "ag_outputs w" k out] by blast
        have "os_workspace o1 \<noteq> Some i"
        proof
          assume "os_workspace o1 = Some i"
          then have "i \<in> set (busy_slots ((ag_outputs w)[k := out]))" using o1 busy_slots_mem by blast
          then show False using slots(1) Some by simp
        qed
        then show ?thesis using D(6) [OF mem] R(2) [of "os_lease o1"] o1 len
          by (auto simp: output_charged_def lease_fields_def r(1) nth_list_update split: option.splits)
      qed (use out in \<open>simp add: output_charged_def\<close>)
      show "workspace_ok ?w s j" if j: "j < length ws'" for j
        using D(8) [of j] j slots(1) Some i(2,3) len R(2) [OF workspace_field [of j ?w]]
        by (auto simp: r(1) workspace_ok_def workspace_charged_def nth_list_update split: if_splits)
    qed (rule slots(2))
  qed
qed


lemma workspace_inv:
  assumes inv: "lease_inv s c w" and e: "NewPrepaidOutputWorkspace prepaid (ag_queue w, ag_ledger w) = (Inr x, lg')"
    and h: "lease_handle (ag_ledger w) prepaid" "prepaid \<notin> set (held w)"
  shows "lease_inv s c (w\<lparr>ag_workspaces := ag_workspaces w @ [x], ag_ledger := lg'\<rparr>)" (is "lease_inv s c ?w")
proof -
  note D = lease_invD [OF inv]
  obtain n r lg1 where b: "Session_BindBytes (Some (lg_peer (ag_ledger w), s)) prepaid n (ag_ledger w) = (r, lg1)"
    and n: "RequiredOutputWorkspaceBytes (pr_DataShards (eo_Parameters (qu_epoch (ag_queue w))) + pr_ParityShards (eo_Parameters (qu_epoch (ag_queue w))))
      (pr_ShardBytes (eo_Parameters (qu_epoch (ag_queue w)))) = Inr n"
    and x: "\<And>y. r = Inr y \<Longrightarrow> x = \<lparr>ws_queue = Some (qu_self (ag_queue w)), ws_lease = y, ws_busy = False, ws_closed = False\<rparr> \<and> lg' = lg1"
      "\<And>err. r \<noteq> Inl err"
    using e D(2) by (auto simp: NewPrepaidOutputWorkspace_def Let_def split: if_splits sum.splits prod.splits)
  obtain y where y: "r = Inr y" using x(2) by (cases r) auto
  note B = bind_outcomes [OF D(1) [unfolded ledger_scope.owned_def, THEN conjunct1] h(1) b [unfolded y]]
  have xs: "x = \<lparr>ws_queue = Some (qu_self (ag_queue w)), ws_lease = prepaid, ws_busy = False, ws_closed = False\<rparr>" "lg' = lg1" using x(1) [OF y] B(1) by simp_all
  have nn: "prepaid \<noteq> None" using B(6) live_not_nil by blast
  have w': "?w = w\<lparr>ag_workspaces := ag_workspaces w @ [x], ag_ledger := lg', ag_outputs := ag_outputs w\<rparr>" by (cases w) simp
  show ?thesis
  proof (rule lease_inv_outputs [OF inv w'])
    have m: "mset (held ?w) = mset (prepaid # held w)" using nn by (simp add: lease_fields_def handles_def xs(1))
    have "held_by lg' s (prepaid # held w)" using D(1) B h(2) xs(2) by (auto simp: ledger_scope.owned_def)
    then show "held_by lg' s (held ?w)" using m by (rule ledger_scope.owned_perm)
    show "output_charged ?w s out" if "out \<in> set (ag_outputs w)" for out
      using D(6) [OF that] B(2) xs(2) by (auto simp: output_charged_def nth_append split: option.splits)
    show "workspace_ok ?w s j" if "j < length (ag_workspaces w @ [x])" for j
    proof (cases "j < length (ag_workspaces w)")
      case True
      then show ?thesis using D(8) [OF True] by (simp add: workspace_ok_def nth_append xs(2) B(2) workspace_charged_def)
    next
      case False
      then have j: "j = length (ag_workspaces w)" using that by simp
      have "j \<notin> set (busy_slots (ag_outputs w))"
      proof
        assume "j \<in> set (busy_slots (ag_outputs w))"
        then obtain out where "out \<in> set (ag_outputs w)" "os_workspace out = Some j" using busy_slots_mem by blast
        then show False using D(6) [of out] j by (auto simp: output_charged_def split: if_splits)
      qed
      moreover obtain cl where "leases_of lg' prepaid = Some (s, cl)" "n \<le> cl_Bytes cl" using B(2,6) xs(2) by auto
      ultimately show ?thesis using j xs(1) workspace_size [OF n] by (simp add: workspace_ok_def workspace_charged_def word_le_nat_alt)
    qed
  qed (use B xs D(7) in simp_all)
qed

lemma retire_workspace_inv:
  assumes inv: "lease_inv s c w" and k: "k < length (ag_workspaces w)"
    and e: "OutputWorkspace_Close (ag_workspaces w ! k) (ag_ledger w) = (x, lg')"
  shows "lease_inv s c (w\<lparr>ag_workspaces := (ag_workspaces w)[k := x], ag_ledger := lg'\<rparr>)" (is "lease_inv s c ?w")
proof (cases "ws_closed (ag_workspaces w ! k)")
  case True
  then have "x = ag_workspaces w ! k" "lg' = ag_ledger w" using e by (simp_all add: OutputWorkspace_Close_def)
  then show ?thesis using inv by simp
next
  case False
  note D = lease_invD [OF inv]
  let ?s = "ag_workspaces w ! k"
  let ?hs = "if ws_busy ?s then [] else [ws_lease ?s]"
  have x: "x = ?s\<lparr>ws_closed := True, ws_queue := None, ws_lease := (if ws_busy ?s then ws_lease ?s else None)\<rparr>" "lg' = fold Lease_Release ?hs (ag_ledger w)"
    using e False by (auto simp: OutputWorkspace_Close_def Let_def split: if_splits)
  have w': "?w = w\<lparr>ag_workspaces := (ag_workspaces w)[k := x], ag_ledger := lg', ag_outputs := ag_outputs w\<rparr>" by (cases w) simp
  have "mset (handles (map ws_lease (ag_workspaces w))) = mset (handles ?hs) + mset (handles (map ws_lease ((ag_workspaces w)[k := x])))"
  proof (cases "ws_busy ?s")
    case True
    then have "map ws_lease ((ag_workspaces w)[k := x]) = map ws_lease (ag_workspaces w)" using k by (simp add: x(1) map_update list_update_same_conv)
    then show ?thesis using True by simp
  next
    case False
    then show ?thesis using handles_replace [OF k, of ws_lease x] by (simp add: x(1))
  qed
  then have mh: "mset (held w) = mset (handles ?hs) + mset (handles (lease_fields ?w))" by (simp add: lease_fields_def handles_def)
  note R = release_held [OF D(1) mh, folded x(2)]
  show ?thesis
  proof (rule lease_inv_outputs [OF inv w' R(1)])
    show "lg_peer lg' = lg_peer (ag_ledger w)" unfolding x(2) by (rule release_peer)
    show "leases_of lg' h = leases_of (ag_ledger w) h" if "h \<in> set (qu_ringLease (ag_queue w) # map en_lease (waiting (ag_queue w)))" for h
      using R(2) [of h] that by (auto simp: lease_fields_def)
    show "output_charged ?w s out" if "out \<in> set (ag_outputs w)" for out
      using D(6) [OF that] R(2) [of "os_lease out"] that k by (auto simp: output_charged_def lease_fields_def x(1) nth_list_update split: option.splits if_splits)
    show "workspace_ok ?w s j" if "j < length ((ag_workspaces w)[k := x])" for j
      using D(8) [of j] that k False R(2) [OF workspace_field [of j ?w]]
      by (cases "j = k") (auto simp: x(1) workspace_ok_def workspace_charged_def split: if_splits)
  qed (rule D(7))
qed

subsection \<open>All steps\<close>

lemma other_inv:
  assumes inv: "lease_inv s c w" and st: "ledger_step (ag_ledger w) lg'" "\<forall>h \<in> set (held w). leases_of lg' h = leases_of (ag_ledger w) h"
  shows "lease_inv s c (w\<lparr>ag_ledger := lg'\<rparr>)"
proof (rule lease_inv_ledger [OF inv])
  have o: "ledger_inv (ag_ledger w)" "session_of (ag_ledger w) s" using lease_invD(1) [OF inv] by (simp_all add: ledger_scope.owned_def)
  show "ledger_inv lg'" by (rule ledger_system.inv_step [OF o(1) st(1)])
  show "session_of lg' s" "lg_peer lg' = lg_peer (ag_ledger w)" using ledger_step_keeps [OF st(1)] o(2) by (simp_all add: session_of_def)
qed (use st(2) in blast)

lemma idle_cases:
  assumes inv: "lease_inv s c w"
    and e: "seal now force k (ag_queue w, ag_workspaces w, ag_ledger w) = (Inr None, q', ws', lg') \<or>
      (\<exists>b. Queue_Ready now (ag_queue w, ag_ledger w) = (Inr b, q') \<and> ws' = ag_workspaces w \<and> lg' = ag_ledger w)"
  shows "checkLocked now (ag_queue w) (ag_ledger w) = None \<and> q' = clockLocked now (ag_queue w) \<and> ws' = ag_workspaces w \<and> lg' = ag_ledger w"
  using e
proof
  assume s: "seal now force k (ag_queue w, ag_workspaces w, ag_ledger w) = (Inr None, q', ws', lg')"
  then have chk: "checkLocked now (ag_queue w) (ag_ledger w) = None" by (auto simp: seal_def split: option.splits)
  show ?thesis by (rule seal_cases [OF open_of_check(1) [OF inv chk] s]) (use chk in auto)
qed (auto simp: Queue_Ready_def Let_def split: option.splits)

lemma agg_step_inv:
  assumes inv: "lease_inv s c w" and st: "agg_step w w'"
  shows "lease_inv s c w'"
  using st
proof (cases rule: agg_step.cases)
  case (agg_admit payload now i q' lg')
  then show ?thesis using admit_inv [OF inv agg_admit(2)] lease_inv_ghost(1) [where w = "w\<lparr>ag_queue := q', ag_ledger := lg'\<rparr>"] by simp
next
  case (agg_seal now force k out q' ws' lg')
  then show ?thesis
    using seal_inv [OF inv agg_seal(3,2)] lease_inv_ghost(2) [where w = "w\<lparr>ag_queue := q', ag_workspaces := ws', ag_ledger := lg', ag_outputs := ag_outputs w @ [out]\<rparr>"]
    by simp
next
  case (agg_idle now force k q' ws' lg')
  have i: "checkLocked now (ag_queue w) (ag_ledger w) = None" "q' = clockLocked now (ag_queue w)" "ws' = ag_workspaces w" "lg' = ag_ledger w"
    using idle_cases [OF inv agg_idle(2)] by blast+
  then show ?thesis using idle_inv [OF inv i(1)] agg_idle(1) by simp
next
  case (agg_cancel d b q' lg')
  then show ?thesis using cancel_inv [OF inv agg_cancel(2)] lease_inv_ghost(3) [where w = "w\<lparr>ag_queue := q', ag_ledger := lg'\<rparr>"] by simp
next
  case (agg_close q' lg')
  then show ?thesis using close_inv(1) [OF inv agg_close(2)] lease_inv_ghost(3) [where w = "w\<lparr>ag_queue := q', ag_ledger := lg'\<rparr>"] by simp
next
  case agg_release
  then show ?thesis using output_release_inv [OF inv] by simp
next
  case agg_workspace
  then show ?thesis using workspace_inv [OF inv] by simp
next
  case agg_retire
  then show ?thesis using retire_workspace_inv [OF inv] by simp
next
  case agg_other
  then show ?thesis using other_inv [OF inv] by simp
qed


end
