(* ===== verification/AggregationContent.thy ===== *)
theory AggregationContent
  imports AggregationSteps
begin

text \<open>
  What the groups carry: the fragments emitted for a datagram are consecutive pieces of it, in order and
  within its fragment limit, and nothing is left out unless it was cancelled or dropped at close.
\<close>

subsection \<open>Consecutive pieces\<close>

text \<open>The fragments cut the bytes \<open>a, ..., b - 1\<close> of the datagram into consecutive pieces.\<close>

fun cuts :: "bytes \<Rightarrow> nat \<Rightarrow> Fragment list \<Rightarrow> nat \<Rightarrow> bool" where
  "cuts m a [] b \<longleftrightarrow> a = b"
| "cuts m a (f # fs) b \<longleftrightarrow>
     unat (fr_Offset f) = a \<and> unat (fr_TotalBytes f) = length m \<and> a + length (fr_Payload f) \<le> length m \<and>
     fr_Payload f = slice a (a + length (fr_Payload f)) m \<and> cuts m (a + length (fr_Payload f)) fs b"

lemma cuts_append: "cuts m a (fs @ gs) b \<longleftrightarrow> (\<exists>k. cuts m a fs k \<and> cuts m k gs b)"
  by (induction fs arbitrary: a) auto

lemma cuts_payload: "cuts m a fs b \<Longrightarrow> a \<le> length m \<Longrightarrow> concat (map fr_Payload fs) = slice a b m \<and> a \<le> b \<and> b \<le> length m"
proof (induction fs arbitrary: a)
  case Nil
  then show ?case by (auto simp: slice_def)
next
  case (Cons f fs)
  let ?k = "a + length (fr_Payload f)"
  have f: "fr_Payload f = slice a ?k m" "?k \<le> length m" "cuts m ?k fs b" using Cons.prems(1) by simp_all
  note I = Cons.IH [OF f(3,2)]
  have "slice a b m = slice a ?k m @ slice ?k b m"
  proof -
    have "b - a = (?k - a) + (b - ?k)" using I by simp
    then show ?thesis unfolding slice_def by (simp add: take_add drop_drop add.commute)
  qed
  then show ?case using I f(1) by simp
qed

lemma length_u32:
  assumes "entry_ok q e"
  shows "unat (word_of_nat (length (en_payload e)) :: u32) = length (en_payload e)" "unat (en_offset e) \<le> length (en_payload e)"
  using assms unat_less_u32 [of "ql_MaxDatagramBytes (qu_limits q)"]
  by (auto simp: entry_ok_def unat_of_nat_eq split: if_splits)

lemma cuts_rest: "entry_ok q e \<Longrightarrow> cuts (en_payload e) (unat (en_offset e)) [remainder e] (length (en_payload e))"
  using length_u32 [of q e] by (simp add: remainder_def slice_def)

lemma cuts_part:
  assumes "entry_ok q e" "int b < left e"
  shows "cuts (en_payload e) (unat (en_offset e)) [(remainder e)\<lparr>fr_Payload := take b (fr_Payload (remainder e))\<rparr>] (unat (en_offset e) + b)"
proof -
  have "unat (en_offset e) + b < length (en_payload e)" using assms(2) unfolding left_def by linarith
  moreover from this have "min (length (en_payload e) - unat (en_offset e)) b = b" by simp
  ultimately show ?thesis using length_u32 [OF assms(1)] by (simp add: remainder_def slice_def)
qed

subsection \<open>What one seal emits of a datagram\<close>

lemma filter_none: "i \<notin> set (map g xs) \<Longrightarrow> filter (\<lambda>x. g x = i) xs = []"
  by (auto simp: filter_empty_conv)

lemma filter_key: "distinct (map g xs) \<Longrightarrow> x \<in> set xs \<Longrightarrow> filter (\<lambda>y. g y = g x) xs = [x]"
proof (induction xs)
  case (Cons a xs)
  show ?case
  proof (cases "x = a")
    case True
    have "g y \<noteq> g a" if "y \<in> set xs" for y using Cons.prems(1) that by (auto simp: image_iff)
    then show ?thesis using True by (simp add: filter_empty_conv)
  next
    case False
    then have "g a \<noteq> g x" using Cons.prems by (auto simp: image_iff)
    then show ?thesis using Cons False by simp
  qed
qed simp

definition piece_at :: "Cursor \<Rightarrow> entry list \<Rightarrow> nat \<Rightarrow> Fragment" where
  "piece_at cur es j = (if j < cu_Next cur then remainder (es ! j)
     else (remainder (es ! j))\<lparr>fr_Payload := take (cu_Bytes cur) (fr_Payload (remainder (es ! j)))\<rparr>)"

definition emitted_count :: "Cursor \<Rightarrow> nat" where
  "emitted_count cur = cu_Next cur + (if cu_Bytes cur = 0 then 0 else 1)"

lemma consumed_pieces:
  assumes "cut_ok q cur"
  shows "consumed (backlogged q) cur = map (piece_at cur (waiting q)) [0..<emitted_count cur]" "emitted_count cur \<le> qu_count q" "0 < emitted_count cur"
proof -
  have n: "cu_Next cur \<le> qu_count q" "cu_Bytes cur \<noteq> 0 \<Longrightarrow> cu_Next cur < qu_count q" using assms by (auto simp: cut_ok_def)
  have "take (cu_Next cur) (backlogged q) = map (\<lambda>j. remainder (waiting q ! j)) [0..<cu_Next cur]"
    using n(1) by (intro nth_equalityI) (simp_all add: backlogged_def)
  also have "\<dots> = map (piece_at cur (waiting q)) [0..<cu_Next cur]" by (simp add: piece_at_def)
  finally have t: "take (cu_Next cur) (backlogged q) = map (piece_at cur (waiting q)) [0..<cu_Next cur]" .
  show "consumed (backlogged q) cur = map (piece_at cur (waiting q)) [0..<emitted_count cur]"
    using n by (simp add: consumed_def emitted_count_def t) (simp add: piece_at_def backlogged_def)
  show "emitted_count cur \<le> qu_count q" "0 < emitted_count cur" using n assms by (auto simp: emitted_count_def cut_ok_def)
qed

lemma sealed_of:
  assumes ok: "queue_ok c q" and cut: "cut_ok q cur"
  shows "j < qu_count q \<Longrightarrow> filter (\<lambda>f. fr_DatagramID f = en_id (waiting q ! j)) (consumed (backlogged q) cur) =
      (if j < emitted_count cur then [piece_at cur (waiting q) j] else [])"
    "i \<notin> en_id ` set (waiting q) \<Longrightarrow> filter (\<lambda>f. fr_DatagramID f = i) (consumed (backlogged q) cur) = []"
proof -
  note P = consumed_pieces [OF cut]
  have id: "fr_DatagramID (piece_at cur (waiting q) j) = en_id (waiting q ! j)" for j by (simp add: piece_at_def remainder_def)
  have ids: "map fr_DatagramID (consumed (backlogged q) cur) = take (emitted_count cur) (map en_id (waiting q))"
    using P(2) by (intro nth_equalityI) (simp_all add: P(1) id)
  have dist: "distinct (map fr_DatagramID (consumed (backlogged q) cur))" unfolding ids using distinct_ids [OF ok] by (rule distinct_take)
  show "filter (\<lambda>f. fr_DatagramID f = i) (consumed (backlogged q) cur) = []" if "i \<notin> en_id ` set (waiting q)"
  proof -
    have "i \<notin> set (map fr_DatagramID (consumed (backlogged q) cur))" unfolding ids using that by (auto dest: in_set_takeD)
    then show ?thesis by (rule filter_none)
  qed
  show "filter (\<lambda>f. fr_DatagramID f = en_id (waiting q ! j)) (consumed (backlogged q) cur) =
      (if j < emitted_count cur then [piece_at cur (waiting q) j] else [])" if j: "j < qu_count q"
  proof (cases "j < emitted_count cur")
    case True
    then have "piece_at cur (waiting q) j \<in> set (consumed (backlogged q) cur)" by (simp add: P(1))
    from filter_key [OF dist this] show ?thesis using True by (simp add: id)
  next
    case False
    have "en_id (waiting q ! j) \<notin> set (take (emitted_count cur) (map en_id (waiting q)))"
      using distinct_ids [OF ok] False j by (auto simp: in_set_conv_nth nth_eq_iff_index_eq)
        (metis P(2) distinct_conv_nth length_map length_waiting nth_map order_less_le_trans)
    then have "en_id (waiting q ! j) \<notin> set (map fr_DatagramID (consumed (backlogged q) cur))" unfolding ids .
    then show ?thesis using False filter_none by simp
  qed
qed

subsection \<open>The invariant of the contents\<close>

definition sent_of :: "aggregation \<Rightarrow> u64 \<Rightarrow> Fragment list" where
  "sent_of w i = filter (\<lambda>f. fr_DatagramID f = i) (concat (ag_sent w))"

definition entry_sent :: "aggregation \<Rightarrow> entry \<Rightarrow> bool" where
  "entry_sent w e \<longleftrightarrow> ag_admitted w (en_id e) = Some (en_payload e) \<and> en_id e \<notin> ag_dropped w \<and>
     cuts (en_payload e) 0 (sent_of w (en_id e)) (unat (en_offset e)) \<and> int (length (sent_of w (en_id e))) = en_fragments e"

text \<open>An admitted datagram: consecutive pieces from its start, not too many, and all of it once it is
  neither waiting nor given up.\<close>

definition datagram_sent :: "aggregation \<Rightarrow> u64 \<Rightarrow> bytes \<Rightarrow> bool" where
  "datagram_sent w i m \<longleftrightarrow>
     (\<exists>b. cuts m 0 (sent_of w i) b \<and> int (length (sent_of w i)) \<le> ql_MaxFragmentsPerDatagram (qu_limits (ag_queue w)) \<and>
        (i \<notin> ag_dropped w \<and> i \<notin> en_id ` set (waiting (ag_queue w)) \<longrightarrow> b = length m \<and> sent_of w i \<noteq> []))"

definition group_sent :: "Codec \<Rightarrow> aggregation \<Rightarrow> nat \<Rightarrow> bool" where
  "group_sent c w k \<longleftrightarrow>
     (os_released (ag_outputs w ! k) \<or>
      Codec_Encode c (ag_sent w ! k) = Inr (sl_Group (os_group (ag_outputs w ! k))) \<and>
      sl_GroupID (os_group (ag_outputs w ! k)) = word_of_nat (Suc k))"

definition content_inv :: "Codec \<Rightarrow> aggregation \<Rightarrow> bool" where
  "content_inv c w \<longleftrightarrow> codec_ok c \<and>
     (\<forall>e \<in> set (waiting (ag_queue w)). entry_sent w e) \<and> (\<forall>i m. ag_admitted w i = Some m \<longrightarrow> datagram_sent w i m) \<and>
     (\<forall>i. ag_admitted w i = None \<longrightarrow> sent_of w i = [] \<and> i \<notin> ag_dropped w) \<and>
     (qu_nextDatagramID (ag_queue w) = 0 \<or> (\<forall>i. qu_nextDatagramID (ag_queue w) \<le> i \<longrightarrow> ag_admitted w i = None)) \<and>
     1 \<le> ql_MaxFragmentsPerDatagram (qu_limits (ag_queue w)) \<and>
     length (ag_outputs w) = length (ag_sent w) \<and> (\<forall>k < length (ag_outputs w). group_sent c w k) \<and>
     length (ag_sent w) < 2 ^ 64 \<and> qu_nextGroupID (ag_queue w) = word_of_nat (Suc (length (ag_sent w)))"

lemma content_invD:
  assumes "content_inv c w"
  shows "\<And>e. e \<in> set (waiting (ag_queue w)) \<Longrightarrow> entry_sent w e" "\<And>i m. ag_admitted w i = Some m \<Longrightarrow> datagram_sent w i m"
    "\<And>i. ag_admitted w i = None \<Longrightarrow> sent_of w i = [] \<and> i \<notin> ag_dropped w"
    "qu_nextDatagramID (ag_queue w) = 0 \<or> (\<forall>i. qu_nextDatagramID (ag_queue w) \<le> i \<longrightarrow> ag_admitted w i = None)"
    "1 \<le> ql_MaxFragmentsPerDatagram (qu_limits (ag_queue w))" "length (ag_outputs w) = length (ag_sent w)"
    "\<And>k. k < length (ag_outputs w) \<Longrightarrow> group_sent c w k" "length (ag_sent w) < 2 ^ 64"
    "qu_nextGroupID (ag_queue w) = word_of_nat (Suc (length (ag_sent w)))" "codec_ok c"
  using assms unfolding content_inv_def by blast+

text \<open>Steps that neither admit nor emit; entries may leave the queue when their identifiers are given up.\<close>

lemma content_shrink:
  assumes inv: "content_inv c w" and sub: "set (waiting (ag_queue w')) \<subseteq> set (waiting (ag_queue w))"
    and drop: "ag_dropped w' = ag_dropped w \<union> D" "en_id ` set (waiting (ag_queue w)) - en_id ` set (waiting (ag_queue w')) \<subseteq> D"
      "D \<subseteq> en_id ` set (waiting (ag_queue w))" "D \<inter> en_id ` set (waiting (ag_queue w')) = {}"
    and same: "ag_admitted w' = ag_admitted w" "ag_sent w' = ag_sent w" "qu_limits (ag_queue w') = qu_limits (ag_queue w)"
      "qu_nextDatagramID (ag_queue w') = qu_nextDatagramID (ag_queue w)" "qu_nextGroupID (ag_queue w') = qu_nextGroupID (ag_queue w)"
    and outs: "length (ag_outputs w') = length (ag_outputs w)"
      "\<And>k. k < length (ag_outputs w) \<Longrightarrow> ag_outputs w' ! k = ag_outputs w ! k \<or> os_released (ag_outputs w' ! k)"
  shows "content_inv c w'"
proof -
  note I = content_invD [OF inv]
  have so: "sent_of w' i = sent_of w i" for i by (simp add: sent_of_def same)
  have "entry_sent w' e" if "e \<in> set (waiting (ag_queue w'))" for e
    using I(1) [of e] that sub drop(1,4) by (auto simp: entry_sent_def so same)
  moreover have "datagram_sent w' i m" if "ag_admitted w' i = Some m" for i m
    using I(2) [of i m] that drop(1,2) unfolding datagram_sent_def so same by blast
  moreover have "sent_of w' i = [] \<and> i \<notin> ag_dropped w'" if n: "ag_admitted w' i = None" for i
  proof -
    have "i \<notin> en_id ` set (waiting (ag_queue w))" using I(1) n unfolding entry_sent_def same by force
    then show ?thesis using I(3) [of i] n drop(1,3) by (auto simp: so same)
  qed
  moreover have "group_sent c w' k" if "k < length (ag_outputs w')" for k
    using I(7) [of k] outs that by (fastforce simp: group_sent_def same)
  ultimately show ?thesis
    using I(4-6,8-10) outs(1) unfolding content_inv_def same by auto
qed

lemma content_admit:
  assumes inv: "content_inv c w" and ok: "queue_ok c (ag_queue w)" and adm: "Queue_Admit payload now (ag_queue w, ag_ledger w) = (Inr i, q', lg')"
    and w': "w' = w\<lparr>ag_queue := q', ag_ledger := lg', ag_admitted := (ag_admitted w)(i \<mapsto> payload)\<rparr>"
  shows "content_inv c w'"
proof -
  note I = content_invD [OF inv] and A = queue_ok_admit [OF ok adm]
  note S = same_queueD [OF A(3)]
  obtain lease where wt: "waiting q' = waiting (ag_queue w) @ [fresh_entry (ag_queue w) payload now lease]" using A(2) by blast
  have new: "ag_admitted w i = None" using I(4) A(4,6) by auto
  then have fresh: "sent_of w i = []" "i \<notin> ag_dropped w" using I(3) by auto
  have so: "sent_of w' j = sent_of w j" for j by (simp add: sent_of_def w')
  have no: "i \<notin> en_id ` set (waiting (ag_queue w))" using I(1) new unfolding entry_sent_def by force
  have ent: "entry_sent w' e" if "e \<in> set (waiting (ag_queue w'))" for e
  proof (cases "e \<in> set (waiting (ag_queue w))")
    case True
    then have "en_id e \<noteq> i" using no by blast
    then show ?thesis using I(1) [OF True] so by (simp add: entry_sent_def w')
  next
    case False
    then have "e = fresh_entry (ag_queue w) payload now lease" using that by (simp add: w' wt)
    then show ?thesis using fresh A(4) so by (simp add: entry_sent_def w' fresh_entry_def)
  qed
  have dat: "datagram_sent w' j m" if "ag_admitted w' j = Some m" for j m
  proof (cases "j = i")
    case True
    then have "i \<in> en_id ` set (waiting (ag_queue w'))" using A(4) by (simp add: w' wt fresh_entry_def)
    then show ?thesis using True fresh I(5) S(3) so by (simp add: datagram_sent_def w')
  next
    case False
    then have "ag_admitted w j = Some m" using that by (simp add: w')
    then show ?thesis using I(2) [of j m] False S(3) so A(4) by (auto simp: datagram_sent_def w' wt fresh_entry_def)
  qed
  have nx: "qu_nextDatagramID q' = 0 \<or> (\<forall>j. qu_nextDatagramID q' \<le> j \<longrightarrow> ag_admitted w' j = None)"
  proof (cases "qu_nextDatagramID q' = 0")
    case False
    then have lt: "qu_nextDatagramID (ag_queue w) < qu_nextDatagramID q'"
      using A(5) unatSuc [of "qu_nextDatagramID (ag_queue w)"] by (simp add: word_less_nat_alt add.commute)
    have "ag_admitted w' j = None" if j: "qu_nextDatagramID q' \<le> j" for j
    proof -
      have "qu_nextDatagramID (ag_queue w) < j" using lt j by (rule less_le_trans)
      then show ?thesis using I(4) A(4,6) by (auto simp: w')
    qed
    then show ?thesis by blast
  qed simp
  have "sent_of w' j = [] \<and> j \<notin> ag_dropped w'" if "ag_admitted w' j = None" for j
    using I(3) [of j] that so by (auto simp: w' split: if_splits)
  moreover have "group_sent c w' k" if "k < length (ag_outputs w')" for k using I(7) [of k] that by (simp add: group_sent_def w')
  moreover have "1 \<le> ql_MaxFragmentsPerDatagram (qu_limits (ag_queue w'))" "qu_nextGroupID (ag_queue w') = word_of_nat (Suc (length (ag_sent w')))"
    "length (ag_outputs w') = length (ag_sent w')" "length (ag_sent w') < 2 ^ 64" using I(5,6,8,9) S(3) A(7) by (simp_all add: w')
  moreover have "qu_nextDatagramID (ag_queue w') = qu_nextDatagramID q'" by (simp add: w')
  ultimately show ?thesis using ent dat nx I(10) unfolding content_inv_def by metis
qed


lemma next_group:
  assumes "n < 2 ^ 64" "(word_of_nat (Suc n) :: u64) \<noteq> 0"
  shows "Suc n < 2 ^ 64"
proof (rule ccontr)
  assume "\<not> Suc n < 2 ^ 64"
  then have "Suc n = 2 ^ 64" using assms(1) by simp
  then have "(word_of_nat (Suc n) :: u64) = word_of_nat (2 ^ 64)" by presburger
  then show False using assms(2) by simp
qed

lemma one_more_fragment:
  assumes e: "entry_ok q e" and m: "1 \<le> ql_MaxFragmentsPerDatagram (qu_limits q)"
  shows "en_fragments e + 1 \<le> ql_MaxFragmentsPerDatagram (qu_limits q)"
proof (cases "en_payload e = []")
  case True
  then show ?thesis using e m by (simp add: entry_ok_def)
next
  case False
  then have "0 < int (length (en_payload e)) - int (unat (en_offset e))" "0 < freshCapacity q"
    "en_fragments e + fragmentCount (int (length (en_payload e)) - int (unat (en_offset e))) (freshCapacity q) \<le> ql_MaxFragmentsPerDatagram (qu_limits q)"
    using e by (simp_all add: entry_ok_def del: of_nat_unat)
  then show ?thesis using fragmentCount_pos [of "int (length (en_payload e)) - int (unat (en_offset e))" "freshCapacity q"] by linarith
qed

lemma content_seal:
  assumes inv: "content_inv c w" and ok: "queue_ok c (ag_queue w)"
    and e: "seal now force k (ag_queue w, ag_workspaces w, ag_ledger w) = (Inr (Some out), q', ws', lg')"
    and w': "w' = w\<lparr>ag_queue := q', ag_workspaces := ws', ag_ledger := lg', ag_outputs := ag_outputs w @ [out],
      ag_sent := ag_sent w @ [sealed_fragments (ag_queue w)]\<rparr>"
  shows "content_inv c w'"
proof -
  note I = content_invD [OF inv]
  let ?q = "ag_queue w" and ?cur = "pl_cursor (planLocked (ag_queue w))"
  obtain g lease q1 lg1 where E: "cut_ok ?q ?cur" "Codec_Encode c (consumed (backlogged ?q) ?cur) = Inr g" "consume ?cur (?q, lg1) = (q1, lg')"
    "out = \<lparr>os_group = \<lparr>sl_EncodingEpoch = eo_ID (qu_epoch ?q), sl_GroupID = qu_nextGroupID ?q, sl_Group = g\<rparr>,
       os_lease = lease, os_workspace = k, os_released = False\<rparr>"
    "q' = clockLocked now (q1\<lparr>qu_nextGroupID := qu_nextGroupID q1 + 1\<rparr>)" "qu_nextGroupID ?q \<noteq> 0"
    by (rule seal_cases [OF ok e]) auto
  note C = consume_spec [OF queue_okD(1) [OF ok] E(1,3)] and P = consumed_pieces [OF E(1)] and F = sealed_of [OF ok E(1)]
  have lim: "qu_limits q' = qu_limits ?q" using same_queueD(3) [OF C(3)] by (simp add: E(5) clockLocked_def)
  have W: "ag_dropped w' = ag_dropped w" "qu_limits (ag_queue w') = qu_limits ?q" "ag_admitted w' = ag_admitted w" using lim by (simp_all add: w')
  have wt: "waiting (ag_queue w') = after_cut ?cur (waiting ?q)"
  proof -
    have "waiting q' = waiting q1" unfolding E(5) clock_fields(1) by (rule waiting_cong) simp_all
    then show ?thesis using C(1) by (simp add: w')
  qed
  have ids: "map en_id (waiting (ag_queue w')) = drop (cu_Next ?cur) (map en_id (waiting ?q))"
    unfolding wt by (rule after_cut_map [OF E(1)]) (simp add: cut_entry_def)
  have so: "sent_of w' i = sent_of w i @ filter (\<lambda>f. fr_DatagramID f = i) (consumed (backlogged ?q) ?cur)" for i
    by (simp add: sent_of_def w' sealed_fragments_def)
  have old: "entry_sent w (waiting ?q ! j) \<and> entry_ok ?q (waiting ?q ! j)" if "j < qu_count ?q" for j
    using I(1) queue_okD(6) [OF ok] that nth_mem [of j "waiting ?q"] by simp
  have keep: "entry_sent w' (waiting ?q ! j)" if "j < qu_count ?q" "emitted_count ?cur \<le> j" for j
    using old [OF that(1)] F(1) [OF that(1)] that(2) by (simp add: entry_sent_def so W)
  have part: "entry_sent w' (cut_entry ?cur (waiting ?q ! cu_Next ?cur)) \<and> int (length (sent_of w' (en_id (waiting ?q ! cu_Next ?cur)))) \<le> ql_MaxFragmentsPerDatagram (qu_limits ?q)"
    if b: "cu_Bytes ?cur \<noteq> 0"
  proof -
    let ?j = "cu_Next ?cur"
    have j: "?j < qu_count ?q" "int (cu_Bytes ?cur) < left (waiting ?q ! ?j)" using E(1) b by (auto simp: cut_ok_def waiting_nth)
    note O = old [OF j(1)]
    have s: "sent_of w' (en_id (waiting ?q ! ?j)) = sent_of w (en_id (waiting ?q ! ?j)) @ [piece_at ?cur (waiting ?q) ?j]"
      using F(1) [OF j(1)] b by (simp add: so emitted_count_def)
    have "cuts (en_payload (waiting ?q ! ?j)) 0 (sent_of w' (en_id (waiting ?q ! ?j))) (unat (en_offset (waiting ?q ! ?j)) + cu_Bytes ?cur)"
      unfolding s cuts_append using O cuts_part [OF conjunct2 [OF O] j(2)] unfolding entry_sent_def by (metis piece_at_def less_irrefl)
    moreover have "unat (en_offset (waiting ?q ! ?j) + word_of_nat (cu_Bytes ?cur)) = unat (en_offset (waiting ?q ! ?j)) + cu_Bytes ?cur"
      using cut_offset(1) [OF _ _ j(2)] O b by blast
    moreover have "int (length (sent_of w' (en_id (waiting ?q ! ?j)))) = en_fragments (waiting ?q ! ?j) + 1"
      using O by (simp add: s entry_sent_def)
    ultimately show ?thesis using O one_more_fragment [OF _ I(5)] by (simp add: entry_sent_def cut_entry_def W)
  qed
  have ent: "entry_sent w' e" if mem: "e \<in> set (waiting (ag_queue w'))" for e
  proof (cases "cu_Bytes ?cur = 0")
    case True
    then obtain j where "j < qu_count ?q - cu_Next ?cur" "e = waiting ?q ! (cu_Next ?cur + j)"
      using mem unfolding wt after_cut_def by (auto simp: in_set_conv_nth)
    then show ?thesis using keep [of "cu_Next ?cur + j"] True by (simp add: emitted_count_def)
  next
    case False
    then consider "e = cut_entry ?cur (waiting ?q ! cu_Next ?cur)" | j where "j < qu_count ?q - Suc (cu_Next ?cur)" "e = waiting ?q ! (Suc (cu_Next ?cur) + j)"
      using mem unfolding wt after_cut_def by (auto simp: in_set_conv_nth)
    then show ?thesis
    proof cases
      case 1
      then show ?thesis using part False by blast
    next
      case (2 j)
      then show ?thesis using keep [of "Suc (cu_Next ?cur) + j"] False by (simp add: emitted_count_def)
    qed
  qed
  have dat: "datagram_sent w' i m" if adm: "ag_admitted w' i = Some m" for i m
  proof (cases "i \<in> en_id ` set (waiting ?q)")
    case False
    then have "i \<notin> en_id ` set (waiting (ag_queue w'))" using arg_cong [OF ids, of set] by (auto dest: in_set_dropD)
    then show ?thesis using I(2) [of i m] adm False F(2) [OF False] by (simp add: datagram_sent_def so W)
  next
    case True
    then obtain j where j: "j < qu_count ?q" "i = en_id (waiting ?q ! j)" by (auto simp: in_set_conv_nth)
    note O = old [OF j(1)]
    have m: "m = en_payload (waiting ?q ! j)" using adm O j(2) by (simp add: entry_sent_def W)
    show ?thesis
    proof (cases "j < cu_Next ?cur")
      case True
      then have s: "sent_of w' i = sent_of w i @ [remainder (waiting ?q ! j)]" using F(1) [OF j(1)] by (simp add: so j(2) emitted_count_def piece_at_def)
      have "cuts m 0 (sent_of w' i) (length m)" unfolding s cuts_append unfolding m j(2) using O cuts_rest [OF conjunct2 [OF O]] unfolding entry_sent_def by blast
      moreover have "int (length (sent_of w' i)) \<le> ql_MaxFragmentsPerDatagram (qu_limits ?q)"
        using O one_more_fragment [OF conjunct2 [OF O] I(5)] by (simp add: s entry_sent_def) (simp add: j(2))
      ultimately show ?thesis using s by (auto simp: datagram_sent_def W)
    next
      case False
      have "en_id (waiting ?q ! j) \<in> set (map en_id (waiting (ag_queue w')))"
        unfolding ids using False j(1) by (auto simp: in_set_conv_nth intro!: exI [of _ "j - cu_Next ?cur"])
      then obtain e where e: "e \<in> set (waiting (ag_queue w'))" "en_id e = i" using j(2) by auto
      have sent: "cuts m 0 (sent_of w' i) (unat (en_offset e))" using ent [OF e(1)] e(2) adm by (simp add: entry_sent_def)
      have "int (length (sent_of w' i)) \<le> ql_MaxFragmentsPerDatagram (qu_limits ?q)"
      proof (cases "cu_Bytes ?cur \<noteq> 0 \<and> j = cu_Next ?cur")
        case True
        then show ?thesis using part j(2) by blast
      next
        case False
        then have "\<not> j < emitted_count ?cur" using \<open>\<not> j < cu_Next ?cur\<close> by (auto simp: emitted_count_def)
        then have "sent_of w' i = sent_of w i" using F(1) [OF j(1)] by (simp add: so j(2))
        then show ?thesis using O one_more_fragment [OF conjunct2 [OF O] I(5)] by (simp add: j(2) entry_sent_def)
      qed
      then show ?thesis using sent e by (auto simp: datagram_sent_def W)
    qed
  qed
  have gs: "group_sent c w' n" if "n < length (ag_outputs w')" for n
    using I(6,9) I(7) [of n] that E(2,4) by (auto simp: group_sent_def w' nth_append sealed_fragments_def less_Suc_eq)
  have nil: "sent_of w' i = [] \<and> i \<notin> ag_dropped w'" if "ag_admitted w' i = None" for i
  proof -
    have "i \<notin> en_id ` set (waiting ?q)" using I(1) that unfolding entry_sent_def by (force simp: W)
    then show ?thesis using I(3) [of i] that F(2) by (simp add: so W)
  qed
  have "Suc (length (ag_sent w)) < 2 ^ 64" using next_group [OF I(8)] E(6) I(9) by simp
  moreover have "qu_nextGroupID q' = word_of_nat (Suc (Suc (length (ag_sent w))))" using C(5) I(9) by (simp add: E(5) clockLocked_def)
  moreover have "qu_nextDatagramID q' = qu_nextDatagramID ?q" using C(4) by (simp add: E(5) clockLocked_def)
  ultimately have "length (ag_sent w') < 2 ^ 64" "qu_nextGroupID (ag_queue w') = word_of_nat (Suc (length (ag_sent w')))"
    "qu_nextDatagramID (ag_queue w') = 0 \<or> (\<forall>i. qu_nextDatagramID (ag_queue w') \<le> i \<longrightarrow> ag_admitted w' i = None)"
    "1 \<le> ql_MaxFragmentsPerDatagram (qu_limits (ag_queue w'))" "length (ag_outputs w') = length (ag_sent w')"
    using I(4-6) lim by (simp_all add: w')
  then show ?thesis using ent dat gs nil I(10) unfolding content_inv_def by blast
qed


subsection \<open>All steps\<close>

lemma Queue_New_shape:
  "Queue_New rs_New self session limits epoch lg = (Inr q, lg') \<Longrightarrow> prepare rs_New session limits epoch lg = Inr (c, bytes) \<Longrightarrow>
   \<exists>h. q = newQueue self session limits epoch c h"
  by (cases "Session_Reserve session (bytesClaim bytes) lg"; cases "fst (Session_Reserve session (bytesClaim bytes) lg)")
    (auto simp: Queue_New_def)

lemma Queue_NewPrepaid_shape:
  "Queue_NewPrepaid rs_New self session limits epoch prepaid lg = (Inr q, lg') \<Longrightarrow> prepare rs_New session limits epoch lg = Inr (c, bytes) \<Longrightarrow>
   \<exists>h. q = newQueue self session limits epoch c h"
  by (cases "Session_BindBytes session prepaid bytes lg"; cases "fst (Session_BindBytes session prepaid bytes lg)")
    (auto simp: Queue_NewPrepaid_def)

lemma content_start:
  assumes st: "agg_start rs_New w" and inv: "lease_inv s0 c w"
  shows "content_inv c w"
proof -
  obtain q lg' lg s self limits epoch where
    w: "w = \<lparr>ag_queue = q, ag_workspaces = [], ag_ledger = lg', ag_outputs = [], ag_admitted = Map.empty, ag_sent = [], ag_dropped = {}\<rparr>"
    and new: "Queue_New rs_New self (Some (lg_peer lg, s)) limits epoch lg = (Inr q, lg') \<or>
      (\<exists>prepaid. Queue_NewPrepaid rs_New self (Some (lg_peer lg, s)) limits epoch prepaid lg = (Inr q, lg'))"
    using st unfolding agg_start_def by blast
  obtain cc bytes where pr: "prepare rs_New (Some (lg_peer lg, s)) limits epoch lg = Inr (cc, bytes)"
    using new by (auto simp: Queue_New_def Queue_NewPrepaid_def split: sum.splits)
  then have lim: "1 \<le> ql_MaxFragmentsPerDatagram limits"
    by (auto simp: prepare_def Let_def Queue_RequiredInitialBytes_def split: if_splits sum.splits)
  obtain h where q: "q = newQueue self (Some (lg_peer lg, s)) limits epoch cc h"
    using new pr Queue_New_shape Queue_NewPrepaid_shape by metis
  have "codec_ok c" using lease_invD(3) [OF inv] queue_okD(3) by (simp add: w q newQueue_fields) blast
  moreover have "qu_nextGroupID q = 1" by (simp add: q newQueue_def Let_def)
  ultimately show ?thesis using lim by (simp add: content_inv_def w q newQueue_fields sent_of_def)
qed

lemma sent_step:
  assumes inv: "lease_inv s c w" and con: "content_inv c w" and st: "agg_step w w'"
  shows "content_inv c w'"
  using st
proof (cases rule: agg_step.cases)
  case (agg_admit payload now i q' lg')
  have chk: "checkLocked now (ag_queue w) (ag_ledger w) = None" using agg_admit(2) by (rule Admit_ok)
  show ?thesis by (rule content_admit [OF con open_of_check(1) [OF inv chk] agg_admit(2,1)])
next
  case (agg_seal now force k out q' ws' lg')
  have chk: "checkLocked now (ag_queue w) (ag_ledger w) = None" using agg_seal(2) by (auto simp: seal_def split: option.splits)
  show ?thesis by (rule content_seal [OF con open_of_check(1) [OF inv chk] agg_seal(2,1)])
next
  case (agg_idle now force k q' ws' lg')
  have i: "q' = clockLocked now (ag_queue w)" using idle_cases [OF inv agg_idle(2)] by blast
  note S = same_queueD [OF clock_fields(3) [of "ag_queue w" now]]
  show ?thesis by (rule content_shrink [OF con, of _ "{}"]) (use agg_idle(1) i S in simp_all)
next
  case (agg_cancel d b q' lg')
  show ?thesis
  proof (cases "qu_closed (ag_queue w)")
    case True
    then have "\<not> b \<and> q' = ag_queue w \<and> lg' = ag_ledger w" using agg_cancel(2) by (simp add: Queue_Cancel_def)
    then show ?thesis using con agg_cancel(1) by simp
  next
    case False
    have ok: "queue_ok c (ag_queue w)" "qu_session (ag_queue w) \<noteq> None" using lease_invD(2,3) [OF inv] False by auto
    note C = queue_ok_cancel [OF ok(1) False ok(2) agg_cancel(2)]
    let ?D = "{d} \<inter> en_id ` set (waiting (ag_queue w))"
    have D: "(if b then insert d (ag_dropped w) else ag_dropped w) = ag_dropped w \<union> ?D" using C(6) by (cases b) auto
    have wt: "waiting (ag_queue w') = without d (waiting (ag_queue w))" using C(2) by (simp add: agg_cancel(1))
    have "ag_dropped w' = ag_dropped w \<union> ?D" unfolding D [symmetric] by (simp add: agg_cancel(1))
    then show ?thesis
    proof (rule content_shrink [OF con, rotated])
      show "set (waiting (ag_queue w')) \<subseteq> set (waiting (ag_queue w))"
        "en_id ` set (waiting (ag_queue w)) - en_id ` set (waiting (ag_queue w')) \<subseteq> ?D" "?D \<inter> en_id ` set (waiting (ag_queue w')) = {}"
        unfolding wt without_def by auto
    qed (use C(4,5) same_queueD(3) [OF C(3)] in \<open>simp_all add: agg_cancel(1)\<close>)
  qed
next
  case (agg_close q' lg')
  show ?thesis
  proof (cases "qu_closed (ag_queue w)")
    case True
    then have q: "q' = ag_queue w" "lg' = ag_ledger w" using agg_close(2) by (simp_all add: Queue_Close_def)
    have e: "ag_dropped w \<union> en_id ` set (waiting (ag_queue w)) = ag_dropped w"
      unfolding lease_invD(4) [OF inv True, THEN conjunct1] by simp
    have "w' = w" unfolding agg_close(1) e q by simp
    then show ?thesis using con by simp
  next
    case False
    have ok: "ring_ok (ag_queue w)" using lease_invD(3) [OF inv False] queue_okD(1) by blast
    note C = Queue_Close_ring [OF ok False agg_close(2)]
    show ?thesis
      using C(2,6-8) by (intro content_shrink [OF con, of w' "en_id ` set (waiting (ag_queue w))"]) (simp_all add: agg_close(1) del: waiting_empty)
  qed
next
  case (agg_release k out ws' lg')
  have "os_released out" using agg_release(3) by (auto simp: Output_Release_def split: if_splits)
  then have "(ag_outputs w)[k := out] ! n = ag_outputs w ! n \<or> os_released ((ag_outputs w)[k := out] ! n)" if "n < length (ag_outputs w)" for n
    using that agg_release(2) by (auto simp: nth_list_update)
  then show ?thesis by (intro content_shrink [OF con, of _ "{}"]) (simp_all add: agg_release(1))
next
  case agg_workspace
  then show ?thesis by (intro content_shrink [OF con, of _ "{}"]) simp_all
next
  case agg_retire
  then show ?thesis by (intro content_shrink [OF con, of _ "{}"]) simp_all
next
  case agg_other
  then show ?thesis by (intro content_shrink [OF con, of _ "{}"]) simp_all
qed

text \<open>The laws of the Reed-Solomon package for every codec it constructs.\<close>

definition package_laws :: "(int \<Rightarrow> int \<Rightarrow> rs_codec option) \<Rightarrow> bool" where
  "package_laws rs_New \<longleftrightarrow> (\<forall>k n rs. rs_New k n = Some rs \<longrightarrow> reed_solomon_laws (nat k) (nat n) rs)"

interpretation aggregation_system: transition_system "agg_start rs_New" agg_step
  "\<lambda>w. package_laws rs_New \<longrightarrow> (\<exists>s c. lease_inv s c w \<and> content_inv c w)"
  for rs_New :: "int \<Rightarrow> int \<Rightarrow> rs_codec option"
proof unfold_locales
  fix w assume st: "agg_start rs_New w"
  show "package_laws rs_New \<longrightarrow> (\<exists>s c. lease_inv s c w \<and> content_inv c w)"
    using agg_start_inv [OF st] content_start [OF st] unfolding package_laws_def by blast
next
  fix w w' assume "package_laws rs_New \<longrightarrow> (\<exists>s c. lease_inv s c w \<and> content_inv c w)" "agg_step w w'"
  then show "package_laws rs_New \<longrightarrow> (\<exists>s c. lease_inv s c w' \<and> content_inv c w')"
    using agg_step_inv sent_step by blast
qed


end
