(* ===== verification/AggregationProps.thy ===== *)
theory AggregationProps
  imports AggregationContent
begin

text \<open>The properties of the aggregation queue: what it sends, what a seal does, and what it has charged.\<close>

lemma reachable_aggregation:
  assumes "package_laws rs_New" "reachable (agg_start rs_New) agg_step w"
  obtains s c where "lease_inv s c w" "content_inv c w"
  using aggregation_system.reachable_inv [OF assms(2)] assms(1) by blast

subsection \<open>A run\<close>

text \<open>A queue for groups with room for one byte of payload; a datagram of two bytes is admitted and
  leaves in two groups.\<close>

definition example_package :: "int \<Rightarrow> int \<Rightarrow> rs_codec option" where
  "example_package k n = (if k = 2 \<and> n = 1 then Some (xor_codec 2) else None)"

definition example_peer :: Ledger where
  "example_peer = snd (BeginSession zeroClaim
     \<lparr>lg_peer = 7, lg_limits = example_limits\<lparr>MaxPeerBytes := 1000, MaxSessionBytes := 1000\<rparr>,
      lg_usage = \<lparr>ps_Usage = zeroUsage, ps_SessionSlots = 0, ps_PendingHandshakes = 0, ps_EstablishedSessions = 0, ps_Closed = False\<rparr>,
      lg_live = [], lg_sessions = [], lg_leases = []\<rparr>)"

definition example_queue_limits :: QueueLimits where
  "example_queue_limits = \<lparr>ql_MaxQueuedDatagrams = 2, ql_MaxQueuedBytes = 100, ql_MaxDatagramBytes = 8, ql_MaxFragmentsPerDatagram = 2, ql_MaxDelay = 1000\<rparr>"

definition example_epoch :: Epoch where
  "example_epoch = \<lparr>eo_ID = 1, eo_Parameters = \<lparr>pr_DataShards = 2, pr_ParityShards = 1, pr_ShardBytes = 13, pr_MaxDescriptors = 3,
     pr_MaxLogicalBytes = 25, pr_MaxDatagramBytes = 9\<rparr>\<rparr>"

definition example_new_queue :: "(agg_error, Queue) result \<times> Ledger" where
  "example_new_queue = Queue_New example_package 1 (Some (7, 0)) example_queue_limits example_epoch example_peer"

definition example_queue :: Queue where
  "example_queue = (case fst example_new_queue of Inr q \<Rightarrow> q | Inl _ \<Rightarrow> undefined)"

definition example_agg :: aggregation where
  "example_agg = \<lparr>ag_queue = example_queue, ag_workspaces = [], ag_ledger = snd example_new_queue, ag_outputs = [],
     ag_admitted = Map.empty, ag_sent = [], ag_dropped = {}\<rparr>"

definition after_admit :: "bytes \<Rightarrow> aggregation \<Rightarrow> aggregation" where
  "after_admit payload w =
     (case Queue_Admit payload 0 (ag_queue w, ag_ledger w) of
        (Inr i, q, lg) \<Rightarrow> w\<lparr>ag_queue := q, ag_ledger := lg, ag_admitted := (ag_admitted w)(i \<mapsto> payload)\<rparr>
      | _ \<Rightarrow> w)"

definition after_seal :: "aggregation \<Rightarrow> aggregation" where
  "after_seal w =
     (case Queue_Seal 0 True (ag_queue w, ag_workspaces w, ag_ledger w) of
        (Inr (Some out), q, ws, lg) \<Rightarrow> w\<lparr>ag_queue := q, ag_workspaces := ws, ag_ledger := lg, ag_outputs := ag_outputs w @ [out],
          ag_sent := ag_sent w @ [sealed_fragments (ag_queue w)]\<rparr>
      | _ \<Rightarrow> w)"

definition example_run :: aggregation where
  "example_run = after_seal (after_seal (after_admit [10, 20] example_agg))"

lemma after_admit_reachable: "reachable S agg_step w \<Longrightarrow> reachable S agg_step (after_admit payload w)"
  unfolding after_admit_def by (auto split: prod.split sum.split intro: reach_step agg_admit)

lemma after_seal_reachable: "reachable S agg_step w \<Longrightarrow> reachable S agg_step (after_seal w)"
  unfolding after_seal_def Queue_Seal_def by (auto split: prod.split sum.split option.split intro: reach_step agg_seal)

lemma example_package_laws: "package_laws example_package"
  using xor_codec_laws [of 2] by (simp add: package_laws_def example_package_def)

lemma example_agg_reachable: "reachable (agg_start example_package) agg_step example_agg"
proof (rule reach_start)
  let ?start = "\<lparr>lg_peer = 7, lg_limits = example_limits\<lparr>MaxPeerBytes := 1000, MaxSessionBytes := 1000\<rparr>,
      lg_usage = \<lparr>ps_Usage = zeroUsage, ps_SessionSlots = 0, ps_PendingHandshakes = 0, ps_EstablishedSessions = 0, ps_Closed = False\<rparr>,
      lg_live = [], lg_sessions = [], lg_leases = []\<rparr>"
  have "Peer_New 7 (example_limits\<lparr>MaxPeerBytes := 1000, MaxSessionBytes := 1000\<rparr>) = Inr ?start"
    by (simp add: Peer_New_def example_limits_def)
  then have "reachable ledger_start ledger_step ?start" by (intro reach_start) (auto simp: ledger_start_def)
  from reach_step [OF this step [of _ "OpBegin zeroClaim False"]]
  have r: "reachable ledger_start ledger_step example_peer" by (simp add: failed_def example_peer_def)
  have p: "lg_peer example_peer = 7" "length (lg_sessions example_peer) = 1" by code_simp+
  have "(case fst example_new_queue of Inr q \<Rightarrow> True | Inl _ \<Rightarrow> False)" by code_simp
  then have "example_new_queue = (Inr example_queue, snd example_new_queue)"
    by (cases "fst example_new_queue") (auto simp: example_queue_def prod_eq_iff)
  then have "Queue_New example_package 1 (Some (lg_peer example_peer, 0)) example_queue_limits example_epoch example_peer = (Inr example_queue, snd example_new_queue)"
    unfolding p(1) example_new_queue_def .
  then show "agg_start example_package example_agg"
    unfolding agg_start_def example_agg_def using r p(2) by fastforce
qed

lemma example_run_reachable: "reachable (agg_start example_package) agg_step example_run"
  unfolding example_run_def by (intro after_seal_reachable after_admit_reachable example_agg_reachable)

lemma example_run_facts:
  "ag_admitted example_run 1 = Some [10, 20]" "length (ag_sent example_run) = 2" "waiting (ag_queue example_run) = []"
  "1 \<notin> ag_dropped example_run" "qu_closed (ag_queue example_run) = False"
  by code_simp+

subsection \<open>Properties\<close>

text \<open>C11: the queue sends what was admitted. In every reachable state the fragments emitted for an admitted datagram are
  consecutive pieces of it from its first byte on, at most as many as its limit allows, and together all of it
  once it is neither waiting nor cancelled or dropped at close; nothing is emitted for an identifier that was not
  admitted. Every group that is still held is the encoding of the fragments recorded for it, and groups are
  numbered one after the other from one.\<close>

theorem aggregation_sends_originals:
  assumes laws: "package_laws rs_New" and reach: "reachable (agg_start rs_New) agg_step w"
  shows "(\<forall>i m. ag_admitted w i = Some m \<longrightarrow>
      (\<exists>b. cuts m 0 (sent_of w i) b \<and> concat (map fr_Payload (sent_of w i)) = take b m \<and>
         int (length (sent_of w i)) \<le> ql_MaxFragmentsPerDatagram (qu_limits (ag_queue w)) \<and>
         (i \<notin> ag_dropped w \<and> i \<notin> en_id ` set (waiting (ag_queue w)) \<longrightarrow> b = length m \<and> sent_of w i \<noteq> []))) \<and>
    (\<forall>f \<in> set (concat (ag_sent w)). ag_admitted w (fr_DatagramID f) \<noteq> None) \<and>
    length (ag_outputs w) = length (ag_sent w) \<and>
    (\<exists>c. codec_ok c \<and> (\<forall>k < length (ag_outputs w). \<not> os_released (ag_outputs w ! k) \<longrightarrow>
       Codec_Encode c (ag_sent w ! k) = Inr (sl_Group (os_group (ag_outputs w ! k))) \<and>
       sl_GroupID (os_group (ag_outputs w ! k)) = word_of_nat (Suc k)))"
proof -
  obtain s c where "lease_inv s c w" and inv: "content_inv c w" by (rule reachable_aggregation [OF laws reach])
  note I = content_invD [OF inv]
  have "\<exists>b. cuts m 0 (sent_of w i) b \<and> concat (map fr_Payload (sent_of w i)) = take b m \<and>
         int (length (sent_of w i)) \<le> ql_MaxFragmentsPerDatagram (qu_limits (ag_queue w)) \<and>
         (i \<notin> ag_dropped w \<and> i \<notin> en_id ` set (waiting (ag_queue w)) \<longrightarrow> b = length m \<and> sent_of w i \<noteq> [])"
    if adm: "ag_admitted w i = Some m" for i m
  proof -
    obtain b where b: "cuts m 0 (sent_of w i) b" "int (length (sent_of w i)) \<le> ql_MaxFragmentsPerDatagram (qu_limits (ag_queue w))"
      "i \<notin> ag_dropped w \<and> i \<notin> en_id ` set (waiting (ag_queue w)) \<longrightarrow> b = length m \<and> sent_of w i \<noteq> []"
      using I(2) [OF adm] unfolding datagram_sent_def by blast
    then show ?thesis using cuts_payload [OF b(1)] by (intro exI [of _ b]) (simp add: slice_def)
  qed
  moreover have "ag_admitted w (fr_DatagramID f) \<noteq> None" if "f \<in> set (concat (ag_sent w))" for f
  proof
    assume "ag_admitted w (fr_DatagramID f) = None"
    then have "sent_of w (fr_DatagramID f) = []" using I(3) by blast
    then show False using that by (auto simp: sent_of_def filter_empty_conv)
  qed
  ultimately show ?thesis using I(6,7,10) unfolding group_sent_def by blast
qed

theorem aggregation_sends_originals_witness:
  "concat (map fr_Payload (sent_of example_run 1)) = [10, 20] \<and> length (sent_of example_run 1) \<le> 2 \<and> length (ag_outputs example_run) = 2"
proof -
  have m: "ql_MaxFragmentsPerDatagram (qu_limits (ag_queue example_run)) = 2" by code_simp
  note T = aggregation_sends_originals [OF example_package_laws example_run_reachable]
  have "1 \<notin> en_id ` set (waiting (ag_queue example_run))" unfolding example_run_facts(3) by simp
  then obtain b where b: "concat (map fr_Payload (sent_of example_run 1)) = take b [10, 20]" "b = length [10 :: 8 word, 20]"
    "int (length (sent_of example_run 1)) \<le> ql_MaxFragmentsPerDatagram (qu_limits (ag_queue example_run))"
    using T [THEN conjunct1, rule_format, OF example_run_facts(1)] example_run_facts(4) by blast
  moreover have "length (ag_outputs example_run) = 2" using T example_run_facts(2) by metis
  ultimately show ?thesis using m by simp
qed

text \<open>C12: every outcome of sealing. A refused seal changes nothing, and without a workspace its only reasons are a closed
  scope, a clock that went back, exhausted identifiers and missing credit: packing and encoding never fail, the planned
  cursor is always the packing cursor. A seal that returns nothing only moves the clock, because the queue is empty or the group is
  neither full nor due. A seal that emits encodes a nonempty prefix of what waits, leaves exactly the rest, and
  what waits has become strictly less, so sealing drains the queue in finitely many groups.\<close>

theorem seal_outcome:
  assumes laws: "package_laws rs_New" and reach: "reachable (agg_start rs_New) agg_step w"
    and s: "seal now force k (ag_queue w, ag_workspaces w, ag_ledger w) = (res, q', ws', lg')"
  shows "(\<exists>err. res = Inl err \<and> q' = ag_queue w \<and> ws' = ag_workspaces w \<and> lg' = ag_ledger w \<and> (\<forall>e. err \<noteq> CodecError e) \<and>
      (k = None \<longrightarrow> err \<in> {ErrClosed, ErrClockRegression, ErrIDExhausted} \<union> range CreditError)) \<or>
    (res = Inr None \<and> q' = clockLocked now (ag_queue w) \<and> ws' = ag_workspaces w \<and> lg' = ag_ledger w \<and>
      (waiting (ag_queue w) = [] \<or> (\<not> force \<and> \<not> pl_full (planLocked (ag_queue w)) \<and>
         now < en_admittedAt (hd (waiting (ag_queue w))) + ql_MaxDelay (qu_limits (ag_queue w))))) \<or>
    (\<exists>out. res = Inr (Some out) \<and> sealed_fragments (ag_queue w) \<noteq> [] \<and>
      Codec_Encode (the (qu_codec (ag_queue w))) (sealed_fragments (ag_queue w)) = Inr (sl_Group (os_group out)) \<and>
      concat (map fr_Payload (sealed_fragments (ag_queue w))) @ concat (map fr_Payload (backlogged q')) =
        concat (map fr_Payload (backlogged (ag_queue w))) \<and>
      backlog (backlogged q') < backlog (backlogged (ag_queue w)))"
proof (cases "checkLocked now (ag_queue w) (ag_ledger w)")
  case (Some err)
  then have "res = Inl err \<and> q' = ag_queue w \<and> ws' = ag_workspaces w \<and> lg' = ag_ledger w" "err \<in> {ErrClosed, ErrClockRegression}"
    using s by (auto simp: seal_def checkLocked_def split: if_splits)
  then show ?thesis by auto
next
  case None
  obtain sc c where inv: "lease_inv sc c w" by (rule reachable_aggregation [OF laws reach])
  note O = open_of_check [OF inv None]
  let ?q = "ag_queue w" and ?cur = "pl_cursor (planLocked (ag_queue w))"
  show ?thesis
    using O(1) s
  proof (cases rule: seal_cases)
    case (refused err)
    have "(\<forall>e. err \<noteq> CodecError e) \<and> (k = None \<longrightarrow> err \<in> {ErrClosed, ErrClockRegression, ErrIDExhausted} \<union> range CreditError)"
      using refused(5) None by (auto simp: reserve_output_def acquire_workspace_def split: option.splits prod.splits sum.splits if_splits)
    then show ?thesis using refused by blast
  next
    case idle
    have "waiting ?q = [] \<or> (\<not> force \<and> \<not> pl_full (planLocked ?q) \<and> now < en_admittedAt (hd (waiting ?q)) + ql_MaxDelay (qu_limits ?q))"
      using idle(6) waiting_hd [OF queue_okD(1) [OF O(1)]] by (cases "qu_count ?q = 0") (auto simp: dueLocked_def)
    then show ?thesis using idle by blast
  next
    case (emitted g lease q1 lg1)
    note C = consume_spec [OF queue_okD(1) [OF O(1)] emitted(6,8)]
    have "waiting q' = waiting q1" unfolding emitted(10) clock_fields(1) by (rule waiting_cong) simp_all
    then have b: "backlogged q' = advance (backlogged ?q) ?cur" using after_cut_advance [OF O(1) emitted(6)] C(1) by (simp add: backlogged_def)
    have ne: "consumed (backlogged ?q) ?cur \<noteq> []" using consumed_pieces [OF emitted(6)] by simp
    have co: "cursor_ok (backlogged ?q) ?cur" by (rule cut_cursor_ok [OF O(1) emitted(6)])
    show ?thesis
      using cursor_progress [OF co ne] ne emitted(7,9) queue_okD(2) [OF O(1)] unfolding b sealed_fragments_def by auto
  qed
qed

theorem seal_outcome_witness:
  "\<exists>out q' ws' lg'. seal 0 True None (ag_queue (after_admit [10, 20] example_agg), [], ag_ledger (after_admit [10, 20] example_agg)) =
     (Inr (Some out), q', ws', lg') \<and> backlog (backlogged q') < backlog (backlogged (ag_queue (after_admit [10, 20] example_agg)))"
proof -
  let ?w = "after_admit [10, 20] example_agg"
  have r: "reachable (agg_start example_package) agg_step ?w" by (intro after_admit_reachable example_agg_reachable)
  have ws: "ag_workspaces ?w = []" by code_simp
  obtain res q' ws' lg' where s: "seal 0 True None (ag_queue ?w, ag_workspaces ?w, ag_ledger ?w) = (res, q', ws', lg')" by (metis prod_cases4)
  have "(case fst (seal 0 True None (ag_queue ?w, ag_workspaces ?w, ag_ledger ?w)) of Inr (Some out) \<Rightarrow> True | _ \<Rightarrow> False)" by code_simp
  then obtain out where "res = Inr (Some out)" using s by (auto split: sum.splits option.splits)
  then show ?thesis using seal_outcome [OF example_package_laws r s] s ws by auto
qed

text \<open>The bytes the shards of a group keep, slice headers included, are what its lease is for.\<close>

definition retained :: "outputState \<Rightarrow> nat" where
  "retained out = (\<Sum>x\<leftarrow>gr_Shards (sl_Group (os_group out)). length x + 24)"

lemma encoded_size:
  assumes sz: "sized c q" and e: "Codec_Encode c fs = Inr g"
  shows "(\<Sum>x\<leftarrow>gr_Shards g. length x + 24) = group_bytes (qu_epoch q)"
proof -
  let ?p = "eo_Parameters (qu_epoch q)"
  have ok: "codec_ok c" "cd_params c = ?p" using sz by (simp_all add: sized_def)
  note E = Encode_ok [OF ok(1) Encode_admissible [OF e]]
  have len: "length (gr_Shards g) = nat (pr_DataShards ?p) + nat (pr_ParityShards ?p)" and all: "\<forall>x \<in> set (gr_Shards g). length x = nat (pr_ShardBytes ?p)"
    using E e ok(2) by auto
  have "map (\<lambda>x. length x + 24) (gr_Shards g) = replicate (length (gr_Shards g)) (nat (pr_ShardBytes ?p) + 24)"
    using all by (intro replicate_eqI) auto
  then have "(\<Sum>x\<leftarrow>gr_Shards g. length x + 24) = length (gr_Shards g) * (nat (pr_ShardBytes ?p) + 24)" by (simp add: sum_list_replicate)
  also have "\<dots> = nat ((pr_DataShards ?p + pr_ParityShards ?p) * (pr_ShardBytes ?p + 24))"
    using codec_okD(1-3) [OF ok(1)] ok(2) by (simp add: len nat_mult_distrib nat_add_distrib)
  finally show ?thesis by (simp add: group_bytes_def)
qed

lemma ring_bytes:
  assumes "Queue_RequiredInitialBytes limits = Inr n"
  shows "unat n = 80 * nat (ql_MaxQueuedDatagrams limits)"
proof -
  have l: "1 \<le> ql_MaxQueuedDatagrams limits" "ql_MaxQueuedDatagrams limits \<le> 65536" and n: "n = word_of_int (ql_MaxQueuedDatagrams limits) * 80"
    using assms by (auto simp: Queue_RequiredInitialBytes_def split: if_splits)
  have "uint n = ql_MaxQueuedDatagrams limits * 80" unfolding n using l by (simp add: uint_word_ariths uint_word_of_int)
  then show ?thesis using l by (simp add: unat_eq_nat_uint nat_mult_distrib)
qed

text \<open>C23: everything the queue retains is charged. The leases that ring, waiting datagrams, groups and workspaces point to
  are pairwise distinct live leases of the session. An open queue has one for its ring, covering the 80 bytes of every slot;
  a waiting datagram has one for exactly its bytes; a held group, whose shards with their slice headers take exactly the size of
  a group, has one for exactly that size or a busy workspace of its own; and a workspace that is open or busy has one
  covering the size of a group and 128 bytes of bookkeeping. The sizes are computed without wrap-around. The byte counter
  of an open queue is the sum over what waits and within its limit. Closing the queue releases the ring and everything
  waiting, and when all groups are released and all workspaces closed too, no lease is held.\<close>

theorem aggregation_accounts:
  assumes laws: "package_laws rs_New" and reach: "reachable (agg_start rs_New) agg_step w"
  shows "\<exists>s. distinct (held w) \<and> (\<forall>h \<in> set (held w). \<exists>cl. leases_of (ag_ledger w) h = Some (s, cl)) \<and>
    (\<not> qu_closed (ag_queue w) \<longrightarrow>
       (\<exists>cl. leases_of (ag_ledger w) (qu_ringLease (ag_queue w)) = Some (s, cl) \<and> 80 * length (qu_ring (ag_queue w)) \<le> unat (cl_Bytes cl))) \<and>
    (\<forall>e \<in> set (waiting (ag_queue w)). entry_charged (ag_ledger w) s e) \<and>
    (\<forall>out \<in> set (ag_outputs w). output_charged w s out \<and> (\<not> os_released out \<longrightarrow> retained out = unat (qu_outputBytes (ag_queue w)))) \<and>
    distinct (busy_slots (ag_outputs w)) \<and>
    (\<forall>x \<in> set (ag_workspaces w). workspace_charged (ag_ledger w) s (qu_epoch (ag_queue w)) x) \<and>
    unat (qu_outputBytes (ag_queue w)) = group_bytes (qu_epoch (ag_queue w)) \<and>
    (\<not> qu_closed (ag_queue w) \<longrightarrow> unat (qu_retainedBytes (ag_queue w)) = payload_bytes (waiting (ag_queue w)) \<and>
       payload_bytes (waiting (ag_queue w)) \<le> unat (ql_MaxQueuedBytes (qu_limits (ag_queue w)))) \<and>
    (\<forall>q' lg' h. \<not> qu_closed (ag_queue w) \<and> Queue_Close (ag_queue w, ag_ledger w) = (q', lg') \<and>
       h \<in> set (handles (qu_ringLease (ag_queue w) # map en_lease (waiting (ag_queue w)))) \<longrightarrow> leases_of lg' h = None) \<and>
    (qu_closed (ag_queue w) \<and> (\<forall>out \<in> set (ag_outputs w). os_released out) \<and> (\<forall>x \<in> set (ag_workspaces w). ws_closed x) \<longrightarrow> held w = [])"
proof -
  obtain s c where inv: "lease_inv s c w" and con: "content_inv c w" by (rule reachable_aggregation [OF laws reach])
  note D = lease_invD [OF inv]
  have none: "held w = []"
    if c: "qu_closed (ag_queue w)" "\<forall>out \<in> set (ag_outputs w). os_released out" "\<forall>x \<in> set (ag_workspaces w). ws_closed x"
  proof -
    have o: "os_lease out = None \<and> os_workspace out = None" if "out \<in> set (ag_outputs w)" for out
      using D(6) [OF that] c(2) that by (simp add: output_charged_def)
    then have b: "busy_slots (ag_outputs w) = []" by (simp add: busy_slots_def filter_empty_conv)
    have "ws_lease x = None" if "x \<in> set (ag_workspaces w)" for x
    proof -
      obtain k where "k < length (ag_workspaces w)" "x = ag_workspaces w ! k" using \<open>x \<in> _\<close> by (auto simp: in_set_conv_nth)
      then show ?thesis using D(8) [of k] b c(3) \<open>x \<in> _\<close> by (simp add: workspace_ok_def workspace_charged_def)
    qed
    then show ?thesis using D(4) [OF c(1)] o by (auto simp: lease_fields_def handles_def filter_empty_conv simp del: waiting_empty)
  qed
  have "unat (qu_retainedBytes (ag_queue w)) = payload_bytes (waiting (ag_queue w)) \<and>
       payload_bytes (waiting (ag_queue w)) \<le> unat (ql_MaxQueuedBytes (qu_limits (ag_queue w)))" if "\<not> qu_closed (ag_queue w)"
    using D(3) [OF that] queue_okD(9,10) by blast
  moreover have "\<exists>cl. leases_of (ag_ledger w) (qu_ringLease (ag_queue w)) = Some (s, cl) \<and> 80 * length (qu_ring (ag_queue w)) \<le> unat (cl_Bytes cl)"
    if "\<not> qu_closed (ag_queue w)"
    using D(3) [OF that] D(9) that ring_bytes unfolding ring_charged_def sized_def word_le_nat_alt by metis
  moreover have "workspace_charged (ag_ledger w) s (qu_epoch (ag_queue w)) x" if "x \<in> set (ag_workspaces w)" for x
    using D(8) that unfolding workspace_ok_def in_set_conv_nth by metis
  moreover have size: "unat (qu_outputBytes (ag_queue w)) = group_bytes (qu_epoch (ag_queue w))" using D(9) by (simp add: sized_def)
  moreover have "retained out = unat (qu_outputBytes (ag_queue w))" if out: "out \<in> set (ag_outputs w)" "\<not> os_released out" for out
  proof -
    obtain k where "k < length (ag_outputs w)" "out = ag_outputs w ! k" using out(1) by (auto simp: in_set_conv_nth)
    then show ?thesis using content_invD(7) [OF con] out(2) encoded_size [OF D(9)] unfolding group_sent_def retained_def size by metis
  qed
  ultimately show ?thesis
    using D(1,5,6,7) none close_inv(2) [OF inv] unfolding ledger_scope.owned_def by (intro exI [of _ s]) blast
qed

theorem aggregation_accounts_witness:
  "\<exists>s. distinct (held example_run) \<and> (\<forall>h \<in> set (held example_run). \<exists>cl. leases_of (ag_ledger example_run) h = Some (s, cl)) \<and>
     unat (qu_retainedBytes (ag_queue example_run)) = 0 \<and> length (held example_run) = 3"
proof -
  have "length (held example_run) = 3" by code_simp
  then show ?thesis
    using aggregation_accounts [OF example_package_laws example_run_reachable] example_run_facts(3,5) by auto
qed


end
