(* ===== verification/AggregationDelivery.thy ===== *)
theory AggregationDelivery
  imports AggregationProps ReassemblyProps
begin

text \<open>
  Sender and receiver of version 2 together: what the aggregation queue of one end emits, the reassembly of
  the other end delivers unchanged, whatever is lost, repeated or reordered on the way.
\<close>

text \<open>Pieces in the sense of the sender are pieces in the sense of the receiver.\<close>

lemma cuts_fragment_of: "cuts m a fs b \<Longrightarrow> f \<in> set fs \<Longrightarrow> fragment_of m f"
  by (induction fs arbitrary: a) (auto simp: fragment_of_def)

definition originals :: "aggregation \<Rightarrow> u64 \<Rightarrow> bytes" where
  "originals w i = (case ag_admitted w i of None \<Rightarrow> [] | Some m \<Rightarrow> m)"

definition sent_fragment :: "aggregation \<Rightarrow> Fragment \<Rightarrow> bool" where
  "sent_fragment w f \<longleftrightarrow> f \<in> set (concat (ag_sent w))"

lemma sent_admitted:
  assumes "content_inv c w" "sent_fragment w f"
  obtains m where "ag_admitted w (fr_DatagramID f) = Some m" "fragment_of m f"
proof -
  let ?i = "fr_DatagramID f"
  have f: "f \<in> set (sent_of w ?i)" using assms(2) by (simp add: sent_of_def sent_fragment_def)
  then obtain m where m: "ag_admitted w ?i = Some m" using content_invD(3) [OF assms(1), of ?i] by (cases "ag_admitted w ?i") auto
  obtain b where "cuts m 0 (sent_of w ?i) b" using content_invD(2) [OF assms(1) m] unfolding datagram_sent_def by blast
  from cuts_fragment_of [OF this f] show ?thesis using that m by blast
qed

lemma sent_piece: "content_inv c w \<Longrightarrow> sent_fragment w f \<Longrightarrow> piece_of (originals w) f"
  by (erule (1) sent_admitted) (simp add: piece_of_def originals_def)

lemma world_step_mono:
  assumes "\<And>f. P f \<Longrightarrow> Q f" "world_step P v v'"
  shows "world_step Q v v'"
  using assms(2) by (cases rule: world_step.cases) (use assms(1) in \<open>auto intro: world_step.intros\<close>)

lemma reachable_mono:
  assumes "\<And>f. P f \<Longrightarrow> Q f" "reachable world_start (world_step P) v"
  shows "reachable world_start (world_step Q) v"
  using assms(2)
proof (induction rule: reachable.induct)
  case (reach_step v v')
  from reachable.reach_step [OF reach_step.IH world_step_mono [OF assms(1) reach_step.hyps(2)]] show ?case by blast
qed (rule reachable.reach_start)

text \<open>Whatever is delivered has an identifier that was received.\<close>

lemma delivered_received:
  assumes "reachable world_start (world_step P) v"
  shows "case v of (r, lg, out) \<Rightarrow> \<forall>d \<in> set out. \<exists>f. P f \<and> fr_DatagramID f = dg_id d"
  using assms
proof (induction rule: reachable.induct)
  case (reach_start v)
  then show ?case by (auto simp: world_start_def)
next
  case (reach_step v v')
  from reach_step.hyps(2) show ?case
  proof (cases rule: world_step.cases)
    case (step_add now fs r lg ds r' lg' out)
    have o: "\<not> rv_closed r" using step_add(3) by (auto simp: AddGroup.simps checkTime_def split: if_splits)
    obtain s where core: "recv_core {} r lg s" using reach_core [OF reach_step.hyps(1) [unfolded step_add(1)] o] by blast
    obtain rest lg1 where g: "group_plan r lg s now fs lg1 rest" and c: "commit_all rest (arrived now r, lg1) = (ds, r', lg')"
      by (rule AddGroup_plan [OF core step_add(3)])
    have G: "recv_core {} (arrived now r) lg1 s" "plans_ok (arrived now r) lg1 s rest" "map fst rest = fs" "rv_haveTime (arrived now r)"
      using g by (simp_all add: group_plan_def arrived_def)
    have "dg_id ` set ds \<subseteq> fr_DatagramID ` fst ` set rest" using commit_all_ok [OF G(1,4,2) c] by blast
    then have "dg_id ` set ds \<subseteq> fr_DatagramID ` set fs" using G(3) by force
    then show ?thesis using reach_step.IH step_add(1,2,4) by fastforce
  next
    case (step_release k out lg d lg' r)
    have "dg_id d = dg_id (out ! k)" using step_release(4) by (auto simp: Datagram_Release_def)
    then have "\<exists>x \<in> set out. dg_id x = dg_id d" using nth_mem [OF step_release(3)] by metis
    then show ?thesis using reach_step.IH step_release(1,2) set_update_subset_insert [of out k d] by fastforce
  qed (use reach_step.IH in auto)
qed

text \<open>C8: sender and receiver agree. Let the reassembly of one end only ever accept fragments that the aggregation queue of
  the other end has emitted, in whatever grouping and order and however often. Then every delivered datagram has an identifier
  under which the application handed in a datagram; as long as it has not been released its bytes are exactly those
  handed in, and no identifier is delivered twice.\<close>

theorem v2_delivers_what_was_admitted:
  assumes laws: "package_laws rs_New" and sender: "reachable (agg_start rs_New) agg_step w"
    and receiver: "reachable world_start (world_step (sent_fragment w)) (r, lg, out)"
  shows "distinct (map dg_id out) \<and>
    (\<forall>d \<in> set out. \<exists>m. ag_admitted w (dg_id d) = Some m \<and> (dg_lease d \<noteq> None \<longrightarrow> dg_data d = m))"
proof -
  obtain s c where "lease_inv s c w" and inv: "content_inv c w" by (rule reachable_aggregation [OF laws sender])
  have "reachable world_start (world_step (piece_of (originals w))) (r, lg, out)"
    by (rule reachable_mono [OF _ receiver]) (rule sent_piece [OF inv])
  from content_system.reachable_inv [OF this]
  have out: "distinct (map dg_id out)" "\<forall>d \<in> set out. dg_lease d \<noteq> None \<longrightarrow> dg_data d = originals w (dg_id d)" by (auto simp: out_ok_def)
  have "\<exists>m. ag_admitted w (dg_id d) = Some m" if d: "d \<in> set out" for d
  proof -
    obtain f where "sent_fragment w f" "fr_DatagramID f = dg_id d" using delivered_received [OF receiver] d by auto
    then show ?thesis using sent_admitted [OF inv] by metis
  qed
  then show ?thesis using out unfolding originals_def by fastforce
qed

lemma example_sent: "sent_fragment example_run (example_piece 1 0 10)" "sent_fragment example_run (example_piece 1 1 20)"
  by code_simp+

theorem v2_delivers_what_was_admitted_witness:
  "\<exists>d. fst example_second = Inr [d] \<and> ag_admitted example_run (dg_id d) = Some (dg_data d) \<and> dg_data d = [10, 20]"
proof -
  let ?P = "sent_fragment example_run" and ?d = "\<lparr>dg_id = 1, dg_data = [10, 20], dg_lease = Some (7, 1)\<rparr>"
  have "AddGroup 0 [example_piece 1 0 10] (example_receiver, example_paid) = (Inr [], fst example_first, snd example_first)"
    using example_added by simp
  from reach_step [OF reach_start [where start = world_start and step = "world_step ?P", OF example_world_start] step_add [OF this]] example_sent(1)
  have w1: "reachable world_start (world_step ?P) (fst example_first, snd example_first, [])" by simp
  have f: "fst example_second = Inr [?d]" by code_simp
  then have "AddGroup 1 [example_piece 1 1 20] (fst example_first, snd example_first) = (Inr [?d], fst (snd example_second), snd (snd example_second))"
    unfolding example_second_def by (metis prod.collapse)
  from reach_step [OF w1 step_add [OF this]] example_sent(2)
  have "reachable world_start (world_step ?P) (fst (snd example_second), snd (snd example_second), [?d])" by simp
  from v2_delivers_what_was_admitted [OF example_package_laws example_run_reachable this] show ?thesis using f by simp
qed

end
