(* ===== verification/Spec2Isabelle.thy ===== *)
theory Spec2Isabelle
  imports Wire RecvWindow Scheduler FecDelivery CreditUse FecGroupCodec WireV2Binding NegotiationContract ReassemblyProps SessionData AggregationDelivery
begin

text \<open>
  Verification library of MPUDP, a user-space multipath UDP datagram tunnel written in Go.

  \<^bold>\<open>The program.\<close> A datagram of the application is encoded into a block of Reed-Solomon shards, each shard
  is framed and authenticated, and the shards are spread over several UDP paths; any \<open>k\<close> of them give
  the datagram back. Version 0.1 has one datagram per block and four layers: \<^verbatim>\<open>internal/wire\<close> (framing and
  HMAC), \<^verbatim>\<open>internal/fec\<close> (encoder, decoder, replay window), \<^verbatim>\<open>internal/scheduler\<close> (which path a shard
  takes) and the session above them. Version 2 packs fragments of several datagrams into one group
  (\<^verbatim>\<open>internal/fecv2\<close>), negotiates a contract (\<^verbatim>\<open>internal/negotiationv2\<close>) over a new handshake and new packet
  formats (\<^verbatim>\<open>internal/wirev2\<close>), queues datagrams for groups
  (\<^verbatim>\<open>internal/aggregationv2\<close>) and reassembles datagrams from groups (\<^verbatim>\<open>internal/reassemblyv2\<close>) with a history
  of terminal identifiers (\<^verbatim>\<open>internal/recvwindow\<close>), and charges every retained byte to a ledger
  (\<^verbatim>\<open>internal/creditv2\<close>).

  \<^bold>\<open>How code becomes definitions.\<close> A struct is a record with a two-letter prefix per type, an enumeration
  or a set of sentinel errors a datatype, an unsigned integer of \<open>w\<close> bits a \<open>w word\<close>, a Go \<open>int\<close> an \<open>int\<close>,
  a slice a list, a map an association list with distinct keys (\<open>Assoc\<close>), a \<open>time.Time\<close> or a duration an
  integer number of nanoseconds. A method is a function that returns the new receiver, \<open>(error, value)
  result\<close> is a Go pair \<open>(value, error)\<close>, and every early return is a branch. A mutex makes an operation one
  step; where an operation is not atomic the steps are separate. Loops are structural recursion or \<open>function\<close>s with a measure;
  there is no fuel anywhere, so every operation is total. Error texts are not modelled. The Reed-Solomon
  codec is third-party code: \<open>Encode\<close>, \<open>Verify\<close> and \<open>Reconstruct\<close> are parameters with the documented laws as
  hypotheses (\<open>codec_laws\<close>, \<open>rs_laws\<close>), and the witnesses instantiate them with the XOR code.

  \<^bold>\<open>Theories and sources.\<close>

  \<^item> \<open>Prelude\<close>: byte and word types, big-endian access, \<open>copy\<close> and slices; the locales \<open>codec\<close> (an encoder and a
    decoder that are inverse on admissible values) and \<open>transition_system\<close> (an invariant of all reachable
    states), which the components interpret. \<open>Slices\<close>, \<open>Assoc\<close>, \<open>Bitmap\<close> and \<open>GoHeap\<close> hold the shared facts on
    byte strings, maps, ring bitmaps and \<^verbatim>\<open>container/heap\<close> (locale \<open>heap_order\<close>, interpreted by \<open>ExpiryHeap\<close>).
  \<^item> \<open>Sha256\<close>: SHA-256 and HMAC of the standard library, executable.
  \<^item> \<open>Wire\<close>: \<^verbatim>\<open>internal/wire\<close>. Whatever is sent decodes to itself, whatever is accepted is an encoding, nothing
    is dispatched that is not authenticated, the pooled authenticator behaves as the plain function.
  \<^item> \<open>Scheduler\<close>: \<^verbatim>\<open>internal/scheduler\<close>. The assignment is balanced and rotates with the packet.
  \<^item> \<open>FecEncoder\<close>, \<open>ReplayWindow\<close>, \<open>ExpiryHeap\<close>, \<open>FecDecoder\<close>, \<open>FecDecoderInv\<close>, \<open>FecDecoderSteps\<close>, \<open>FecDelivery\<close>:
    \<^verbatim>\<open>internal/fec\<close>. The decoder's invariant ties its maps, its deadline heap, its counters and its replay window
    together; every operation keeps it; any \<open>k\<close> shards in any order deliver the datagram, at most once.
  \<^item> \<open>RecvWindow\<close>: \<^verbatim>\<open>internal/recvwindow\<close>. Two ring bitmaps refine a map from identifiers to a status that only
    moves forward (locale \<open>monotone_status\<close>).
  \<^item> \<open>CreditLedger\<close>, \<open>CreditInv\<close>, \<open>CreditSteps\<close>, \<open>CreditUse\<close>: \<^verbatim>\<open>internal/creditv2\<close>. The counters are the sums over the
    live leases, no ceiling is exceeded and no addition wraps; \<open>LeaseScope\<close> is the contract that clients of the
    ledger rely on (locale \<open>lease_provider\<close>).
  \<^item> \<open>FecGroup\<close>, \<open>FecGroupCodec\<close>: \<^verbatim>\<open>internal/fecv2\<close>. Admissible fragment lists and logical byte strings correspond
    one to one, and any \<open>k\<close> shards of a group give its fragments.
  \<^item> \<open>WireV2\<close>, \<open>WireV2Messages\<close>, \<open>WireV2Codec\<close>, \<open>WireV2Binding\<close>: \<^verbatim>\<open>internal/wirev2\<close>. Envelope, handshake, contexts and
    bundles are codecs in the sense of the prelude; a confirmation binds the whole transcript.
  \<^item> \<open>Negotiation\<close>, \<open>NegotiationContract\<close>: \<^verbatim>\<open>internal/negotiationv2\<close>. Both ends accept the same contract, within the
    bounds of both.
  \<^item> \<open>Reassembly\<close> (model), \<open>DeadlineList\<close>, \<open>FragmentRanges\<close> (the two data structures), \<open>ReassemblyInv\<close>,
    \<open>ReassemblySteps\<close>, \<open>ReassemblyCommit\<close>, \<open>ReassemblyGroup\<close> (invariant, one round, the loop, the whole call),
    \<open>ReassemblyUse\<close>, \<open>ReassemblyWorld\<close>, \<open>ReassemblyProps\<close> (receiver, ledger and delivered datagrams as one system):
    \<^verbatim>\<open>internal/reassemblyv2\<close>. Delivered datagrams are the originals, errors change nothing, expiry is exact and all
    memory is charged.
  \<^item> \<open>SessionTypes\<close>, \<open>Session\<close>, \<open>SessionListener\<close>: \<^verbatim>\<open>internal/session\<close> and \<^verbatim>\<open>internal/transport/send_block.go\<close>. A call of
    the session is its locked sections with the sends between them; which paths are available, the clock and what
    a send returns are arguments (\<open>Env\<close>, \<open>network\<close>). \<open>SessionInv\<close>, \<open>SessionSteps\<close>, \<open>SessionHandle\<close>, \<open>SessionLife\<close>
    prove the invariant of a session and that its life only moves forward, over every interleaving of sections
    (locale \<open>progress_system\<close>, which extends \<open>transition_system\<close>); \<open>SessionProps\<close>, \<open>SessionDeadlines\<close>,
    \<open>SessionPackets\<close>, \<open>SessionRegistry\<close> and \<open>SessionData\<close> state what follows: refused packets do no harm, deadlines
    are always ahead, closing happens once, the registry of the listener is bounded and guarded, the handshake reaches
    agreement on both ends and what one end writes the other end decodes.
  \<^item> \<open>AggregationQueue\<close> (model), \<open>AggregationRing\<close>, \<open>AggregationSeal\<close>, \<open>AggregationOps\<close> (ring, plan and operations on the
    queue alone), \<open>AggregationHold\<close>, \<open>AggregationWorld\<close>, \<open>AggregationSteps\<close>, \<open>AggregationContent\<close> (queue, ledger, groups and
    workspaces as one system, with ghost records of what was admitted and emitted), \<open>AggregationProps\<close>:
    \<^verbatim>\<open>internal/aggregationv2\<close>. Datagrams leave as consecutive pieces within their fragment limit, packing never fails,
    sealing drains the queue and everything retained is charged. \<open>AggregationDelivery\<close> puts this sender before the
    reassembly of the other end: what is delivered is what was handed in.

  \<^bold>\<open>Not modelled.\<close> The public API and runtime (\<^verbatim>\<open>peer.go\<close>, \<^verbatim>\<open>peer_runtime.go\<close>, \<^verbatim>\<open>peer_v2*.go\<close>,
  \<^verbatim>\<open>statistics.go\<close>) and the rest of \<^verbatim>\<open>internal/transport\<close> are goroutines, channels and UDP sockets around the parts above;
  the v2 session and handshake engine (\<^verbatim>\<open>internal/sessionv2\<close>, \<^verbatim>\<open>internal/handshakev2\<close>)
  compose the v2 parts and are open; \<^verbatim>\<open>config\<close>
  parses YAML; \<^verbatim>\<open>cmd\<close> and \<^verbatim>\<open>integration\<close> are command lines and measurement probes.
\<close>

end
